(* ===== verification/Jos_Prelude.thy ===== *)
theory Jos_Prelude
  imports Main "HOL-Library.Word"
begin

text \<open>
  What every component of the development shares: the machine-integer types of
  \<^verbatim>\<open>tps/inc/types.h\<close>, the collections of simplification rules the proofs use, and the
  generic lemmas on words and threaded lists.
\<close>

unbundle bit_operations_syntax

type_synonym u8 = "8 word"
type_synonym u16 = "16 word"
type_synonym u32 = "32 word"
type_synonym u64 = "64 word"

named_theorems mmu_consts \<open>the numeric constants of the memory layout\<close>
named_theorems kernel_defs \<open>definitions of the kernel's monadic primitives\<close>

section \<open>Words\<close>

lemma unat_take_bit_word:
  "unat (take_bit n (w::'a::len word)) = unat w mod 2 ^ n"
  by (simp only: unsigned_take_bit_eq take_bit_eq_mod [of n "unat w"])

lemma unat_drop_bit_word:
  "unat (drop_bit n (w::'a::len word)) = unat w div 2 ^ n"
  by (simp only: unat_drop_bit_eq drop_bit_eq_div [of n "unat w"])

lemma unat_and_mask_word:
  "unat (w AND mask n :: 'a::len word) = unat w mod 2 ^ n"
  by (simp only: take_bit_eq_mask [symmetric] unat_take_bit_word)

lemma unat_word_lt32 [simp]: "unat (w::u32) < 4294967296"
  using unsigned_less [of w] by simp

lemma unat_of_nat32 [simp]: "n < 4294967296 \<Longrightarrow> unat (of_nat n :: u32) = n"
  by (simp add: unat_of_nat)

lemma sint32:
  "sint (w::u32) = (if unat w < 2147483648 then int (unat w) else int (unat w) - 4294967296)"
proof -
  have u: "0 \<le> uint w" "uint w < 4294967296" using uint_bounded [of w] by simp_all
  have "sint w = (uint w + 2147483648) mod 4294967296 - 2147483648"
    by (simp add: sint_uint signed_take_bit_eq_take_bit_shift take_bit_eq_mod)
  also have "\<dots> = (if uint w < 2147483648 then uint w else uint w - 4294967296)"
  proof (cases "uint w < 2147483648")
    case False
    have "(uint w + 2147483648) mod 4294967296 = (uint w - 2147483648) mod 4294967296"
      using mod_add_self2 [of "uint w - 2147483648" 4294967296] by (simp add: add.commute)
    with False u show ?thesis by simp
  qed (use u in simp)
  finally show ?thesis by (simp only: uint_nat of_nat_less_numeral_iff)
qed

end
