(* ===== verification/Jos_Mmu.thy ===== *)
theory Jos_Mmu
  imports Jos_Prelude
begin

text \<open>
  The address arithmetic and the memory layout: the macros of \<^verbatim>\<open>tps/inc/types.h\<close>
  (\<open>ROUNDDOWN\<close>, \<open>ROUNDUP\<close>), \<^verbatim>\<open>tps/inc/mmu.h\<close> (the paging part) and the constants of
  \<^verbatim>\<open>tps/inc/memlayout.h\<close>, all on 32-bit words with the wrap-around of the C code. The
  lemmas give each macro's value as a natural number, split and rebuild an address, and
  say when \<open>ROUNDUP\<close> wraps to zero.
\<close>

section \<open>Rounding\<close>

definition ROUNDDOWN :: "u32 \<Rightarrow> u32 \<Rightarrow> u32" where
  "ROUNDDOWN a n = a - a mod n"

definition ROUNDUP :: "u32 \<Rightarrow> u32 \<Rightarrow> u32" where
  "ROUNDUP a n = ROUNDDOWN (a + n - 1) n"

section \<open>Paging constants\<close>

definition NPDENTRIES :: nat where [mmu_consts]: "NPDENTRIES = 1024"
definition NPTENTRIES :: nat where [mmu_consts]: "NPTENTRIES = 1024"
definition PGSIZE :: u32 where [mmu_consts]: "PGSIZE = 4096"
definition PGSHIFT :: nat where [mmu_consts]: "PGSHIFT = 12"
definition PTSIZE :: u32 where [mmu_consts]: "PTSIZE = PGSIZE * of_nat NPTENTRIES"
definition PTXSHIFT :: nat where [mmu_consts]: "PTXSHIFT = 12"
definition PDXSHIFT :: nat where [mmu_consts]: "PDXSHIFT = 22"

definition PTE_P :: u32 where [mmu_consts]: "PTE_P = 0x001"
definition PTE_W :: u32 where [mmu_consts]: "PTE_W = 0x002"
definition PTE_U :: u32 where [mmu_consts]: "PTE_U = 0x004"
definition PTE_PWT :: u32 where [mmu_consts]: "PTE_PWT = 0x008"
definition PTE_PCD :: u32 where [mmu_consts]: "PTE_PCD = 0x010"
definition PTE_D :: u32 where [mmu_consts]: "PTE_D = 0x040"
definition PTE_PS :: u32 where [mmu_consts]: "PTE_PS = 0x080"
definition PTE_AVAIL :: u32 where [mmu_consts]: "PTE_AVAIL = 0xE00"
definition PTE_SYSCALL :: u32 where [mmu_consts]:
  "PTE_SYSCALL = PTE_AVAIL OR PTE_P OR PTE_W OR PTE_U"

section \<open>Decomposing a linear address\<close>

definition PGNUM :: "u32 \<Rightarrow> u32" where
  "PGNUM la = drop_bit PTXSHIFT la"

definition PDX :: "u32 \<Rightarrow> u32" where
  "PDX la = drop_bit PDXSHIFT la AND 0x3FF"

definition PTX :: "u32 \<Rightarrow> u32" where
  "PTX la = drop_bit PTXSHIFT la AND 0x3FF"

definition PGOFF :: "u32 \<Rightarrow> u32" where
  "PGOFF la = la AND 0xFFF"

definition PGADDR :: "u32 \<Rightarrow> u32 \<Rightarrow> u32 \<Rightarrow> u32" where
  "PGADDR d t off = (push_bit PDXSHIFT d OR push_bit PTXSHIFT t OR off)"

definition PTE_ADDR :: "u32 \<Rightarrow> u32" where
  "PTE_ADDR pte = pte AND NOT 0xFFF"

section \<open>The memory layout\<close>

definition KERNBASE :: u32 where [mmu_consts]: "KERNBASE = 0xF0000000"
definition IOPHYSMEM :: u32 where [mmu_consts]: "IOPHYSMEM = 0x0A0000"
definition EXTPHYSMEM :: u32 where [mmu_consts]: "EXTPHYSMEM = 0x100000"
definition KSTACKTOP :: u32 where [mmu_consts]: "KSTACKTOP = KERNBASE"
definition KSTKSIZE :: u32 where [mmu_consts]: "KSTKSIZE = 8 * PGSIZE"
definition KSTKGAP :: u32 where [mmu_consts]: "KSTKGAP = 8 * PGSIZE"
definition MMIOLIM :: u32 where [mmu_consts]: "MMIOLIM = KSTACKTOP - PTSIZE"
definition MMIOBASE :: u32 where [mmu_consts]: "MMIOBASE = MMIOLIM - PTSIZE"
definition ULIM :: u32 where [mmu_consts]: "ULIM = MMIOBASE"
definition UVPT :: u32 where [mmu_consts]: "UVPT = ULIM - PTSIZE"
definition UPAGES :: u32 where [mmu_consts]: "UPAGES = UVPT - PTSIZE"
definition UENVS :: u32 where [mmu_consts]: "UENVS = UPAGES - PTSIZE"
definition UTOP :: u32 where [mmu_consts]: "UTOP = UENVS"
definition UXSTACKTOP :: u32 where [mmu_consts]: "UXSTACKTOP = UTOP"
definition USTACKTOP :: u32 where [mmu_consts]: "USTACKTOP = UTOP - 2 * PGSIZE"
definition UTEXT :: u32 where [mmu_consts]: "UTEXT = 2 * PTSIZE"
definition UTEMP :: u32 where [mmu_consts]: "UTEMP = PTSIZE"
definition PFTEMP :: u32 where [mmu_consts]: "PFTEMP = UTEMP + PTSIZE - PGSIZE"
definition MPENTRY_PADDR :: u32 where [mmu_consts]: "MPENTRY_PADDR = 0x7000"

text \<open>The bits of \<open>CR0\<close> the kernel sets or clears.\<close>

definition CR0_PE :: u32 where "CR0_PE = 0x00000001"
definition CR0_MP :: u32 where "CR0_MP = 0x00000002"
definition CR0_EM :: u32 where "CR0_EM = 0x00000004"
definition CR0_TS :: u32 where "CR0_TS = 0x00000008"
definition CR0_NE :: u32 where "CR0_NE = 0x00000020"
definition CR0_WP :: u32 where "CR0_WP = 0x00010000"
definition CR0_AM :: u32 where "CR0_AM = 0x00040000"
definition CR0_PG :: u32 where "CR0_PG = 0x80000000"

section \<open>Values as natural numbers\<close>

lemma mask10_32: "(0x3FF :: u32) = mask 10" and mask12_32: "(0xFFF :: u32) = mask 12"
  by (simp_all add: mask_eq_exp_minus_1)

lemma unat_PGNUM: "unat (PGNUM la) = unat la div 4096"
  by (simp add: PGNUM_def PTXSHIFT_def unat_drop_bit_word)

lemma unat_PDX: "unat (PDX la) = unat la div 4194304"
proof -
  have "unat la div 4194304 < 1024"
    using unat_word_lt32 [of la] by (simp add: less_mult_imp_div_less)
  then show ?thesis
    by (simp add: PDX_def PDXSHIFT_def mask10_32 unat_and_mask_word unat_drop_bit_word)
qed

lemma unat_PTX: "unat (PTX la) = unat la div 4096 mod 1024"
  by (simp add: PTX_def PTXSHIFT_def mask10_32 unat_and_mask_word unat_drop_bit_word)

lemma unat_PGOFF: "unat (PGOFF la) = unat la mod 4096"
  by (simp add: PGOFF_def mask12_32 unat_and_mask_word)

lemma PTE_ADDR_alt: "PTE_ADDR pte = push_bit 12 (drop_bit 12 pte)"
  by (rule bit_word_eqI) (auto simp: PTE_ADDR_def mask12_32 bit_simps)

lemma unat_PTE_ADDR: "unat (PTE_ADDR pte) = unat pte div 4096 * 4096"
proof -
  have "unat (push_bit 12 (drop_bit 12 pte)) = (4096 * (unat pte div 4096)) mod 2 ^ 32"
    by (simp add: push_bit_eq_mult unat_word_ariths unat_drop_bit_word mult.commute)
  also have "\<dots> = 4096 * (unat pte div 4096)"
    using unat_word_lt32 [of pte] by (intro mod_less) (simp add: less_mult_imp_div_less)
  finally show ?thesis by (simp add: PTE_ADDR_alt mult.commute)
qed

lemma PGNUM_PTE_ADDR [simp]: "PGNUM (PTE_ADDR pte) = PGNUM pte"
  by (simp add: word_unat_eq_iff unat_PGNUM unat_PTE_ADDR)

lemma PDX_lt [simp]: "unat (PDX la) < 1024"
  using unat_word_lt32 [of la] by (simp add: unat_PDX less_mult_imp_div_less)

lemma PTX_lt [simp]: "unat (PTX la) < 1024"
  by (simp add: unat_PTX)

lemma PGOFF_lt [simp]: "unat (PGOFF la) < 4096"
  by (simp add: unat_PGOFF)

lemma PGNUM_lt [simp]: "unat (PGNUM la) < 1048576"
  using unat_word_lt32 [of la] by (simp add: unat_PGNUM less_mult_imp_div_less)

lemma div_4M: "(n::nat) div 4194304 = n div 4096 div 1024"
  by (simp flip: div_mult2_eq)

lemma la_split:
  "unat la = unat (PDX la) * 4194304 + unat (PTX la) * 4096 + unat (PGOFF la)"
proof -
  have "unat la = unat la div 4096 * 4096 + unat la mod 4096"
    by (rule div_mult_mod_eq [symmetric])
  moreover have "unat la div 4096 = unat la div 4194304 * 1024 + unat la div 4096 mod 1024"
    unfolding div_4M by (rule div_mult_mod_eq [symmetric])
  ultimately show ?thesis unfolding unat_PDX unat_PTX unat_PGOFF by linarith
qed

lemma PGNUM_split: "unat (PGNUM la) = unat (PDX la) * 1024 + unat (PTX la)"
  by (simp add: unat_PDX unat_PTX unat_PGNUM div_4M)

lemma PGNUM_eq_iff: "PGNUM a = PGNUM b \<longleftrightarrow> PDX a = PDX b \<and> PTX a = PTX b"
proof
  assume "PGNUM a = PGNUM b"
  then have "unat a div 4096 = unat b div 4096"
    by (simp add: word_unat_eq_iff unat_PGNUM)
  then show "PDX a = PDX b \<and> PTX a = PTX b"
    by (simp add: word_unat_eq_iff unat_PDX unat_PTX div_4M)
next
  assume "PDX a = PDX b \<and> PTX a = PTX b"
  then show "PGNUM a = PGNUM b"
    by (simp add: word_unat_eq_iff [of "PGNUM a"] PGNUM_split)
qed

section \<open>Building an address\<close>

lemma unat_push_bit12: "unat (w::u32) < 1048576 \<Longrightarrow> unat (push_bit 12 w) = unat w * 4096"
  by (simp add: push_bit_eq_mult unat_word_ariths mult.commute)

lemma unat_push_bit22: "unat (w::u32) < 1024 \<Longrightarrow> unat (push_bit 22 w) = unat w * 4194304"
  by (simp add: push_bit_eq_mult unat_word_ariths mult.commute)

lemma take_bit_same: "unat (w::u32) < 2 ^ n \<Longrightarrow> take_bit n w = w"
  by (simp add: word_unat_eq_iff unat_take_bit_word)

lemma PGADDR_parts:
  assumes "unat d < 1024" "unat t < 1024" "unat off < 4096"
  shows "unat (PGADDR d t off) = unat d * 4194304 + unat t * 4096 + unat off"
proof -
  have d: "take_bit 10 d = d" and t: "take_bit 10 t = t" and off: "take_bit 12 off = off"
    using assms by (simp_all add: take_bit_same)
  have "push_bit 12 (take_bit 10 t) OR take_bit 12 off
      = push_bit 12 (take_bit 10 t) + take_bit 12 off"
    by (rule disjunctive_add_eq_or [symmetric], rule bit_word_eqI) (auto simp: bit_simps)
  moreover have "push_bit 22 (take_bit 10 d) OR (push_bit 12 (take_bit 10 t) OR take_bit 12 off)
      = push_bit 22 (take_bit 10 d) + (push_bit 12 (take_bit 10 t) OR take_bit 12 off)"
    by (rule disjunctive_add_eq_or [symmetric], rule bit_word_eqI) (auto simp: bit_simps)
  ultimately have "PGADDR d t off = push_bit 22 d + (push_bit 12 t + off)"
    by (simp only: PGADDR_def PDXSHIFT_def PTXSHIFT_def d t off)
  with assms show ?thesis
    by (simp add: unat_word_ariths unat_push_bit12 unat_push_bit22)
qed

lemma PGADDR_fields:
  assumes "unat d < 1024" "unat t < 1024" "unat off < 4096"
  shows "PDX (PGADDR d t off) = d" "PTX (PGADDR d t off) = t" "PGOFF (PGADDR d t off) = off"
proof -
  have *: "unat (PGADDR d t off) = unat off + (unat d * 1024 + unat t) * 4096"
    using assms by (simp add: PGADDR_parts)
  have "unat (PGADDR d t off) div 4096 = unat d * 1024 + unat t"
    unfolding * using assms by (subst div_mult_self1) simp_all
  with assms show "PDX (PGADDR d t off) = d" "PTX (PGADDR d t off) = t"
    by (simp_all add: word_unat_eq_iff unat_PDX unat_PTX div_4M)
  show "PGOFF (PGADDR d t off) = off"
    unfolding word_unat_eq_iff unat_PGOFF * using assms by (subst mod_mult_self1) simp
qed

lemma PGADDR_split: "PGADDR (PDX la) (PTX la) (PGOFF la) = la"
  by (simp add: word_unat_eq_iff PGADDR_parts flip: la_split)

section \<open>Rounding as arithmetic\<close>

lemma unat_ROUNDDOWN: "unat (ROUNDDOWN a n) = unat a div unat n * unat n"
proof -
  have "a mod n \<le> a" by (simp add: word_le_nat_alt unat_mod)
  then have "unat (ROUNDDOWN a n) = unat a - unat a mod unat n"
    by (simp add: ROUNDDOWN_def unat_sub unat_mod)
  then show ?thesis by (simp add: minus_mod_eq_div_mult)
qed

lemma ROUNDDOWN_le: "ROUNDDOWN a n \<le> a"
  by (simp add: word_le_nat_alt unat_ROUNDDOWN)

lemma unat_ROUNDUP:
  assumes "n \<noteq> 0" "unat a + unat n - 1 < 4294967296"
  shows "unat (ROUNDUP a n) = (unat a + unat n - 1) div unat n * unat n"
proof -
  have "1 \<le> unat n" using assms(1) by (simp add: Suc_le_eq unat_gt_0)
  moreover have "unat (n - 1) = unat n - 1" using assms(1) by (rule unat_minus_one)
  ultimately have "unat (a + (n - 1)) = unat a + unat n - 1"
    using assms by (simp only: unat_word_ariths(1)) (simp add: mod_less)
  then have "unat (a + n - 1) = unat a + unat n - 1"
    by (simp only: add_diff_eq)
  then show ?thesis by (simp add: ROUNDUP_def unat_ROUNDDOWN)
qed

lemma mod_wrap: "(m::nat) \<le> n \<Longrightarrow> n < 2 * m \<Longrightarrow> n mod m = n - m"
  by (metis add_diff_inverse_nat leD less_diff_conv2 mod_add_self1 mod_less mult_2)

lemma unat_PGSIZE [simp]: "unat PGSIZE = 4096"
  by (simp add: PGSIZE_def)

lemma ROUNDUP_PGSIZE:
  "unat a \<le> 4294963200 \<Longrightarrow> unat (ROUNDUP a PGSIZE) = (unat a + 4095) div 4096 * 4096"
  by (subst unat_ROUNDUP) (simp_all add: PGSIZE_def)

lemma ROUNDUP_PGSIZE_wraps:
  assumes "4294963200 < unat a"
  shows "ROUNDUP a PGSIZE = 0"
proof -
  have "(4095 + unat a) mod 4294967296 = 4095 + unat a - 4294967296"
    by (rule mod_wrap) (use assms unat_word_lt32 [of a] in linarith)+
  moreover have "4095 + unat a - 4294967296 < 4096"
    using unat_word_lt32 [of a] by linarith
  ultimately have "unat (a + PGSIZE - 1) < 4096"
    by (simp add: PGSIZE_def unat_word_ariths)
  then show ?thesis by (simp add: ROUNDUP_def word_unat_eq_iff unat_ROUNDDOWN)
qed

lemma PDX_ROUNDDOWN [simp]: "PDX (ROUNDDOWN va PGSIZE) = PDX va"
  by (simp add: word_unat_eq_iff unat_PDX unat_ROUNDDOWN div_4M)

lemma PTX_ROUNDDOWN [simp]: "PTX (ROUNDDOWN va PGSIZE) = PTX va"
  by (simp add: word_unat_eq_iff unat_PTX unat_ROUNDDOWN)

end
