(* ===== verification/Jos_Bytes.thy ===== *)
theory Jos_Bytes
  imports Jos_Prelude
begin

text \<open>
  Byte-addressed memory, the store under the kernel's physical memory, the file system's
  block cache and the C strings: little-endian 32-bit loads and stores, and the block
  operations \<open>memset\<close> and \<open>memmove\<close> with the loops of \<^verbatim>\<open>tps/lib/string.c\<close>. The lemmas are
  the usual read-over-write laws.
\<close>

type_synonym bmem = "nat \<Rightarrow> u8"

section \<open>Words in memory\<close>

definition load32 :: "bmem \<Rightarrow> nat \<Rightarrow> u32" where
  "load32 m a = (ucast (m a) OR push_bit 8 (ucast (m (a + 1)))
     OR push_bit 16 (ucast (m (a + 2))) OR push_bit 24 (ucast (m (a + 3))))"

definition store32 :: "nat \<Rightarrow> u32 \<Rightarrow> bmem \<Rightarrow> bmem" where
  "store32 a w m = m(a := ucast w, a + 1 := ucast (drop_bit 8 w),
     a + 2 := ucast (drop_bit 16 w), a + 3 := ucast (drop_bit 24 w))"

lemma ucast_ucast8: "ucast (ucast w :: u8) = take_bit 8 (w :: u32)"
  by (rule bit_word_eqI) (simp add: bit_simps)

lemma load32_store32_same [simp]: "load32 (store32 a w m) a = w"
proof (rule bit_word_eqI)
  fix n assume n: "n < LENGTH(32)"
  have bits: "load32 (store32 a w m) a = (take_bit 8 w OR push_bit 8 (take_bit 8 (drop_bit 8 w))
      OR push_bit 16 (take_bit 8 (drop_bit 16 w)) OR push_bit 24 (take_bit 8 (drop_bit 24 w)))"
    by (simp add: load32_def store32_def ucast_ucast8)
  from n consider "n < 8" | "8 \<le> n" "n < 16" | "16 \<le> n" "n < 24" | "24 \<le> n" "n < 32"
    by fastforce
  then show "bit (load32 (store32 a w m) a) n = bit w n"
    by cases (auto simp: bits bit_simps)
qed

lemma load32_store32_other [simp]:
  "a + 4 \<le> b \<or> b + 4 \<le> a \<Longrightarrow> load32 (store32 a w m) b = load32 m b"
  by (auto simp: load32_def store32_def)

lemma store32_away: "x < off \<or> off + 4 \<le> x \<Longrightarrow> store32 off w g x = g x"
  by (auto simp: store32_def)

lemma load32_cong:
  "(\<And>x. a \<le> x \<Longrightarrow> x < a + 4 \<Longrightarrow> m x = m' x) \<Longrightarrow> load32 m a = load32 m' a"
  by (simp add: load32_def)

section \<open>Block operations\<close>

definition memset :: "nat \<Rightarrow> u8 \<Rightarrow> nat \<Rightarrow> bmem \<Rightarrow> bmem" where
  "memset v c n m = (\<lambda>x. if v \<le> x \<and> x < v + n then c else m x)"

definition memmove :: "nat \<Rightarrow> nat \<Rightarrow> nat \<Rightarrow> bmem \<Rightarrow> bmem" where
  "memmove d s n m = (\<lambda>x. if d \<le> x \<and> x < d + n then m (s + (x - d)) else m x)"

lemma memset_in [simp]: "v \<le> x \<Longrightarrow> x < v + n \<Longrightarrow> memset v c n m x = c"
  and memset_out [simp]: "x < v \<or> v + n \<le> x \<Longrightarrow> memset v c n m x = m x"
  by (auto simp: memset_def)

lemma load32_memset_zero [simp]:
  "v \<le> a \<Longrightarrow> a + 4 \<le> v + n \<Longrightarrow> load32 (memset v 0 n m) a = 0"
  by (simp add: load32_def)

lemma load32_memset_other [simp]:
  "a + 4 \<le> v \<or> v + n \<le> a \<Longrightarrow> load32 (memset v c n m) a = load32 m a"
  by (rule load32_cong) auto

lemma memmove_in [simp]: "d \<le> x \<Longrightarrow> x < d + n \<Longrightarrow> memmove d s n m x = m (s + (x - d))"
  and memmove_out [simp]: "x < d \<or> d + n \<le> x \<Longrightarrow> memmove d s n m x = m x"
  by (auto simp: memmove_def)

lemma load32_memmove_in:
  assumes "d \<le> a" "a + 4 \<le> d + n"
  shows "load32 (memmove d s n m) a = load32 m (s + (a - d))"
proof -
  obtain k where "a = d + k" using assms(1) le_Suc_ex by blast
  with assms(2) show ?thesis by (simp add: load32_def ac_simps)
qed

lemma load32_memmove_other [simp]:
  "a + 4 \<le> d \<or> d + n \<le> a \<Longrightarrow> load32 (memmove d s n m) a = load32 m a"
  by (rule load32_cong) auto

end
