(* ===== verification/Jos_Freelist.thy ===== *)
theory Jos_Freelist
  imports Jos_Prelude
begin

text \<open>
  Free lists threaded through an array. The kernel keeps two of them, the free pages
  (linked by \<open>pp_link\<close>) and the free environments (linked by \<open>env_link\<close>), and manipulates
  both as stacks. The interface is the locale \<open>threaded_stack\<close>; the components that own the
  arrays interpret it on their own states. The locale \<open>clearing_stack\<close> adds the law of
  \<open>page_alloc\<close>, which clears the link of what it hands out.
\<close>

section \<open>The list an array of links represents\<close>

fun chain :: "(nat \<Rightarrow> nat option) \<Rightarrow> nat option \<Rightarrow> nat list \<Rightarrow> bool" where
  "chain lk None [] = True"
| "chain lk (Some p) (x # xs) = (p = x \<and> chain lk (lk p) xs)"
| "chain lk None (x # xs) = False"
| "chain lk (Some p) [] = False"

lemma chain_None [simp]: "chain lk None xs \<longleftrightarrow> xs = []"
  by (cases xs) auto

lemma chain_Some: "chain lk (Some p) xs \<longleftrightarrow> (\<exists>ys. xs = p # ys \<and> chain lk (lk p) ys)"
  by (cases xs) auto

lemma chain_Nil [simp]: "chain lk h [] \<longleftrightarrow> h = None"
  by (cases h) auto

lemma chain_Cons: "chain lk h (x # xs) \<longleftrightarrow> h = Some x \<and> chain lk (lk x) xs"
  by (cases h) auto

lemma chain_unique: "chain lk h xs \<Longrightarrow> chain lk h ys \<Longrightarrow> xs = ys"
proof (induction xs arbitrary: h ys)
  case Nil
  then show ?case by simp
next
  case (Cons x xs)
  then show ?case by (cases ys) (auto simp: chain_Cons)
qed

lemma chain_cong:
  "(\<And>x. x \<in> set xs \<Longrightarrow> lk x = lk' x) \<Longrightarrow> chain lk h xs \<longleftrightarrow> chain lk' h xs"
  by (induction lk h xs rule: chain.induct) auto

text \<open>Walking the list, with as many steps as the array has entries.\<close>

fun walk_chain :: "nat \<Rightarrow> (nat \<Rightarrow> nat option) \<Rightarrow> nat option \<Rightarrow> nat list" where
  "walk_chain 0 lk h = []"
| "walk_chain (Suc k) lk h = (case h of None \<Rightarrow> [] | Some p \<Rightarrow> p # walk_chain k lk (lk p))"

lemma walk_chain_eq: "chain lk h xs \<Longrightarrow> length xs \<le> k \<Longrightarrow> walk_chain k lk h = xs"
proof (induction k arbitrary: h xs)
  case (Suc k)
  then show ?case by (cases xs) (auto simp: chain_Cons)
qed simp

section \<open>The stack interface\<close>

locale threaded_stack =
  fixes head :: "'s \<Rightarrow> nat option"
    and link :: "'s \<Rightarrow> nat \<Rightarrow> nat option"
    and pop :: "'s \<Rightarrow> 's"
    and push :: "nat \<Rightarrow> 's \<Rightarrow> 's"
  assumes head_pop: "head s = Some p \<Longrightarrow> head (pop s) = link s p"
    and link_pop: "head s = Some p \<Longrightarrow> q \<noteq> p \<Longrightarrow> link (pop s) q = link s q"
    and head_push: "head (push p s) = Some p"
    and link_push: "link (push p s) q = (if q = p then head s else link s q)"
begin

definition represents :: "'s \<Rightarrow> nat list \<Rightarrow> bool" where
  "represents s xs \<longleftrightarrow> chain (link s) (head s) xs \<and> distinct xs"

lemma represents_unique: "represents s xs \<Longrightarrow> represents s ys \<Longrightarrow> xs = ys"
  by (auto simp: represents_def dest: chain_unique)

lemma represents_empty: "represents s [] \<longleftrightarrow> head s = None"
  by (simp add: represents_def)

lemma represents_head: "represents s (x # xs) \<Longrightarrow> head s = Some x"
  by (simp add: represents_def chain_Cons)

lemma represents_hd: "represents s xs \<Longrightarrow> head s = (if xs = [] then None else Some (hd xs))"
  by (cases xs) (auto simp: represents_def chain_Cons)

lemma represents_pop: "represents s (x # xs) \<Longrightarrow> represents (pop s) xs"
proof -
  assume r: "represents s (x # xs)"
  then have h: "head s = Some x" and c: "chain (link s) (link s x) xs" and d: "x \<notin> set xs" "distinct xs"
    by (auto simp: represents_def chain_Cons)
  have "chain (link (pop s)) (link s x) xs"
    using c d(1) by (subst chain_cong [where lk' = "link s"]) (auto intro!: link_pop [OF h])
  with h d show ?thesis by (simp add: represents_def head_pop)
qed

lemma represents_push: "represents s xs \<Longrightarrow> p \<notin> set xs \<Longrightarrow> represents (push p s) (p # xs)"
proof -
  assume r: "represents s xs" and p: "p \<notin> set xs"
  have "chain (link (push p s)) (head s) xs"
    using r p by (subst chain_cong [where lk' = "link s"]) (auto simp: link_push represents_def)
  with r p show ?thesis by (simp add: represents_def chain_Cons head_push link_push)
qed

lemma push_pop_roundtrip:
  "represents s xs \<Longrightarrow> p \<notin> set xs \<Longrightarrow>
     head (push p s) = Some p \<and> represents (pop (push p s)) xs"
  using represents_pop [OF represents_push] head_push by blast

end

locale clearing_stack = threaded_stack head link pop push
  for head :: "'s \<Rightarrow> nat option" and link :: "'s \<Rightarrow> nat \<Rightarrow> nat option"
    and pop :: "'s \<Rightarrow> 's" and push :: "nat \<Rightarrow> 's \<Rightarrow> 's" +
  assumes link_pop_top: "head s = Some p \<Longrightarrow> link (pop s) p = None"
begin

definition unlinked :: "'s \<Rightarrow> nat list \<Rightarrow> bool" where
  "unlinked s xs \<longleftrightarrow> represents s xs \<and> (\<forall>p. p \<notin> set xs \<longrightarrow> link s p = None)"

text \<open>An entry with a link is on the list: this is what the double-free check relies on.\<close>

lemma unlinked_link: "unlinked s xs \<Longrightarrow> link s p \<noteq> None \<Longrightarrow> p \<in> set xs"
  by (auto simp: unlinked_def)

lemma unlinked_pop: "unlinked s (x # xs) \<Longrightarrow> unlinked (pop s) xs"
  unfolding unlinked_def
  by (metis insert_iff link_pop link_pop_top list.simps(15) represents_head represents_pop)

lemma unlinked_push: "unlinked s xs \<Longrightarrow> p \<notin> set xs \<Longrightarrow> unlinked (push p s) (p # xs)"
  by (simp add: unlinked_def represents_push link_push)

end

end
