(* ===== verification/Jos_Queue.thy ===== *)
theory Jos_Queue
  imports Jos_Prelude
begin

text \<open>
  Bounded first-in first-out buffers; \<open>room\<close> is how many items the buffer still takes. The console's input buffer and the pipe both keep one
  in a circular array with a read and a write position; the interface and what follows from
  it are here, the two interpretations with the components.
\<close>

locale fifo =
  fixes inv :: "'s \<Rightarrow> bool"
    and contents :: "'s \<Rightarrow> 'a list"
    and put :: "'a \<Rightarrow> 's \<Rightarrow> 's"
    and get :: "'s \<Rightarrow> ('a \<times> 's) option"
    and room :: "'s \<Rightarrow> nat"
  assumes inv_put: "inv s \<Longrightarrow> 0 < room s \<Longrightarrow> inv (put x s)"
    and contents_put: "inv s \<Longrightarrow> 0 < room s \<Longrightarrow> contents (put x s) = contents s @ [x]"
    and room_put: "inv s \<Longrightarrow> 0 < room s \<Longrightarrow> room s \<le> Suc (room (put x s))"
    and get_None: "inv s \<Longrightarrow> get s = None \<longleftrightarrow> contents s = []"
    and get_Some: "inv s \<Longrightarrow> get s = Some (x, s') \<Longrightarrow> contents s = x # contents s' \<and> inv s'"
begin

primrec put_all :: "'a list \<Rightarrow> 's \<Rightarrow> 's" where
  "put_all [] s = s"
| "put_all (x # xs) s = put_all xs (put x s)"

primrec get_n :: "nat \<Rightarrow> 's \<Rightarrow> 'a list \<times> 's" where
  "get_n 0 s = ([], s)"
| "get_n (Suc n) s = (case get s of None \<Rightarrow> ([], s)
     | Some (x, s') \<Rightarrow> (case get_n n s' of (xs, s'') \<Rightarrow> (x # xs, s'')))"

lemma put_all_contents:
  "inv s \<Longrightarrow> length xs \<le> room s \<Longrightarrow>
     inv (put_all xs s) \<and> contents (put_all xs s) = contents s @ xs"
proof (induction xs arbitrary: s)
  case (Cons x xs)
  then have "inv (put x s)" "contents (put x s) = contents s @ [x]" "room s \<le> Suc (room (put x s))"
    by (auto intro: inv_put contents_put room_put)
  with Cons show ?case by simp
qed simp

lemma get_n_contents:
  "inv s \<Longrightarrow> fst (get_n n s) = take n (contents s) \<and> contents (snd (get_n n s)) = drop n (contents s)
     \<and> inv (snd (get_n n s))"
proof (induction n arbitrary: s)
  case (Suc n)
  show ?case
  proof (cases "get s")
    case None
    then have "contents s = []" using get_None [OF Suc.prems] by simp
    with None Suc.prems show ?thesis by simp
  next
    case (Some p)
    then obtain x s' where p: "get s = Some (x, s')" by (cases p) auto
    with get_Some [OF Suc.prems p] Suc.IH [of s'] show ?thesis by (simp add: case_prod_beta)
  qed
qed simp

text \<open>What goes in comes out, in order.\<close>

lemma put_all_get_n:
  "inv s \<Longrightarrow> contents s = [] \<Longrightarrow> length xs \<le> room s \<Longrightarrow>
     fst (get_n (length xs) (put_all xs s)) = xs \<and> contents (snd (get_n (length xs) (put_all xs s))) = []"
  using put_all_contents [of s xs] get_n_contents [of "put_all xs s" "length xs"] by simp

end

section \<open>Positions in a circular array\<close>

definition ring :: "nat \<Rightarrow> 'a list \<Rightarrow> nat \<Rightarrow> nat \<Rightarrow> 'a list" where
  "ring n buf r k = map (\<lambda>i. buf ! ((r + i) mod n)) [0..<k]"

lemma length_ring [simp]: "length (ring n buf r k) = k"
  by (simp add: ring_def)

lemma ring_put:
  assumes "length buf = n" "k < n"
  shows "ring n (buf[(r + k) mod n := x]) r (Suc k) = ring n buf r k @ [x]"
proof -
  have n: "0 < n" using assms by simp
  have "(r + i) mod n \<noteq> (r + k) mod n" if "i < k" for i
  proof
    assume "(r + i) mod n = (r + k) mod n"
    then have "(k - i) mod n = 0"
      using that mod_eq_dvd_iff_nat [of "r + i" "r + k" n] by (simp add: dvd_imp_mod_0)
    with that assms(2) show False by simp
  qed
  then have "ring n (buf[(r + k) mod n := x]) r k = ring n buf r k"
    unfolding ring_def by (intro map_cong refl nth_list_update_neq) (auto dest: not_sym)
  then show ?thesis using n assms by (simp add: ring_def)
qed

lemma ring_get: "0 < k \<Longrightarrow> ring n buf r k = buf ! (r mod n) # ring n buf (Suc r) (k - 1)"
  by (cases k) (simp_all add: ring_def map_upt_Suc del: upt_Suc)

lemma ring_mod: "ring n buf (r mod n) k = ring n buf r k"
  by (simp add: ring_def mod_add_left_eq)

end
