(* ===== verification/Jos_Console.thy ===== *)
theory Jos_Console
  imports Jos_Queue
begin

text \<open>
  The console, \<^verbatim>\<open>tps/kern/console.c\<close>: the serial and keyboard input, the circular input
  buffer, and the text screen. The devices are lists: \<open>com1_rx\<close> is what the serial port has
  received, \<open>kbd_rx\<close> what the keyboard controller holds (a byte, and whether it comes from
  the mouse), \<open>com1_tx\<close> and \<open>lpt_tx\<close> what has been sent, newest first. The port programming
  of the initialisation and the bounded waits for a ready transmitter have no other effect.
\<close>

definition CONSBUFSIZE :: nat where "CONSBUFSIZE = 512"
definition CRT_COLS :: nat where "CRT_COLS = 80"
definition CRT_ROWS :: nat where "CRT_ROWS = 25"
definition CRT_SIZE :: nat where "CRT_SIZE = CRT_ROWS * CRT_COLS"

lemma console_sizes [simp]: "CONSBUFSIZE = 512" "CRT_COLS = 80" "CRT_ROWS = 25" "CRT_SIZE = 2000"
  by (simp_all add: CONSBUFSIZE_def CRT_COLS_def CRT_ROWS_def CRT_SIZE_def)

record console =
  cons_buf :: "u8 list"
  cons_rpos :: nat
  cons_wpos :: nat
  serial_exists :: bool
  com1_rx :: "u8 list"
  kbd_rx :: "(bool \<times> u8) list"
  kbd_shift :: u32
  crt_buf :: "nat \<Rightarrow> u16"
  crt_pos :: u16
  com1_tx :: "u8 list"
  lpt_tx :: "u8 list"

section \<open>Keyboard tables\<close>

definition SHIFT :: u32 where "SHIFT = 1"
definition CTL :: u32 where "CTL = 2"
definition ALT :: u32 where "ALT = 4"
definition CAPSLOCK :: u32 where "CAPSLOCK = 8"
definition NUMLOCK :: u32 where "NUMLOCK = 16"
definition SCROLLLOCK :: u32 where "SCROLLLOCK = 32"
definition E0ESC :: u32 where "E0ESC = 64"

text \<open>An array with an initialiser list and designated elements, zero elsewhere.\<close>

definition table :: "u8 list \<Rightarrow> (nat \<times> u8) list \<Rightarrow> nat \<Rightarrow> u8" where
  "table xs ds i = (case map_of ds i of Some v \<Rightarrow> v | None \<Rightarrow> if i < length xs then xs ! i else 0)"

definition shiftcode :: "nat \<Rightarrow> u8" where
  "shiftcode = table [] [(0x1D, 2), (0x2A, 1), (0x36, 1), (0x38, 4), (0x9D, 2), (0xB8, 4)]"

definition togglecode :: "nat \<Rightarrow> u8" where
  "togglecode = table [] [(0x3A, 8), (0x45, 16), (0x46, 32)]"

definition special_keys :: "(nat \<times> u8) list" where
  "special_keys = [(0xC8, 0xE2), (0xC9, 0xE6), (0xCB, 0xE4), (0xCD, 0xE5), (0xCF, 0xE1),
     (0xD0, 0xE3), (0xD1, 0xE7), (0xD2, 0xE8), (0xD3, 0xE9)]"

definition chr :: "char \<Rightarrow> u8" where
  "chr c = of_nat (of_char c)"

definition normalmap :: "nat \<Rightarrow> u8" where
  "normalmap = table
    ([0, 0x1B] @ map chr ''1234567890-='' @ [8, 9]
     @ map chr ''qwertyuiop[]'' @ [10, 0] @ map chr ''asdfghjkl;'' @ [0x27]
     @ map chr ''`'' @ [0, 0x5C] @ map chr ''zxcvbnm,./'' @ [0] @ map chr ''*''
     @ [0] @ map chr '' '' @ replicate 13 0
     @ map chr ''789-456+1230.'' @ [0, 0, 0, 0])
    ((0xC7, 0xE0) # (0x9C, 10) # (0xB5, 0x2F) # special_keys)"

definition shiftmap :: "nat \<Rightarrow> u8" where
  "shiftmap = table
    ([0, 0x1B] @ map chr ''!@#$%^&*()_+'' @ [8, 9]
     @ map chr ''QWERTYUIOP{}'' @ [10, 0] @ map chr ''ASDFGHJKL:'' @ [0x22]
     @ map chr ''~'' @ [0] @ map chr ''|ZXCVBNM<>?'' @ [0] @ map chr ''*''
     @ [0] @ map chr '' '' @ replicate 13 0
     @ map chr ''789-456+1230.'' @ [0, 0, 0, 0])
    ((0xC7, 0xE0) # (0x9C, 10) # (0xB5, 0x2F) # special_keys)"

definition ctlmap :: "nat \<Rightarrow> u8" where
  "ctlmap = table
    (replicate 16 0 @ map (\<lambda>c. chr c - 0x40) ''QWERTYUIOP'' @ [0, 0, 13, 0]
     @ map (\<lambda>c. chr c - 0x40) ''ASDFGHJKL'' @ [0, 0, 0, 0, 0x1C]
     @ map (\<lambda>c. chr c - 0x40) ''ZXCVBNM'' @ [0, 0, 0x2F - 0x40, 0, 0])
    ((0x97, 0xE0) # (0xB5, 0x2F - 0x40) # special_keys)"

definition charcode :: "u32 \<Rightarrow> nat \<Rightarrow> u8" where
  "charcode k = (if k = 0 then normalmap else if k = 1 then shiftmap else ctlmap)"

section \<open>Reading the devices\<close>

definition serial_proc_data :: "console \<Rightarrow> int \<times> console" where
  "serial_proc_data c = (case com1_rx c of
     [] \<Rightarrow> (- 1, c)
   | b # bs \<Rightarrow> (uint b, c\<lparr>com1_rx := bs\<rparr>))"

text \<open>
  The reboot key only writes to a port. A byte from the mouse is left in the controller.
\<close>

definition kbd_char :: "u32 \<Rightarrow> u8 \<Rightarrow> int" where
  "kbd_char shift d =
    (let c = uint (charcode (shift AND (CTL OR SHIFT)) (unat d)) in
     if shift AND CAPSLOCK \<noteq> 0 then
       (if 97 \<le> c \<and> c \<le> 122 then c + (65 - 97)
        else if 65 \<le> c \<and> c \<le> 90 then c + (97 - 65) else c)
     else c)"

definition kbd_proc_data :: "console \<Rightarrow> int \<times> console" where
  "kbd_proc_data c = (case kbd_rx c of
     [] \<Rightarrow> (- 1, c)
   | (mouse, d) # rest \<Rightarrow>
       if mouse then (- 1, c)
       else
         let c1 = c\<lparr>kbd_rx := rest\<rparr>; shift = kbd_shift c in
         if d = 0xE0 then (0, c1\<lparr>kbd_shift := shift OR E0ESC\<rparr>)
         else if d AND 0x80 \<noteq> 0 then
           let d' = (if shift AND E0ESC \<noteq> 0 then d else d AND 0x7F)
           in (0, c1\<lparr>kbd_shift := shift AND NOT (ucast (shiftcode (unat d')) OR E0ESC)\<rparr>)
         else
           let d' = (if shift AND E0ESC \<noteq> 0 then d OR 0x80 else d);
               shift1 = (if shift AND E0ESC \<noteq> 0 then shift AND NOT E0ESC else shift);
               shift2 = (shift1 OR ucast (shiftcode (unat d'))) XOR ucast (togglecode (unat d'))
           in (kbd_char shift2 d', c1\<lparr>kbd_shift := shift2\<rparr>))"

section \<open>The input buffer\<close>

definition cons_put :: "u8 \<Rightarrow> console \<Rightarrow> console" where
  "cons_put b c = c\<lparr>cons_buf := (cons_buf c)[cons_wpos c := b],
     cons_wpos := (if cons_wpos c + 1 = CONSBUFSIZE then 0 else cons_wpos c + 1)\<rparr>"

text \<open>
  The loop of \<open>cons_intr\<close>. Each turn that goes on consumes a byte of the device, so one more
  step than there are bytes is enough.
\<close>

fun cons_intr :: "nat \<Rightarrow> (console \<Rightarrow> int \<times> console) \<Rightarrow> console \<Rightarrow> console" where
  "cons_intr 0 pr c = c"
| "cons_intr (Suc n) pr c = (case pr c of (ch, c1) \<Rightarrow>
     if ch = - 1 then c1
     else if ch = 0 then cons_intr n pr c1
     else cons_intr n pr (cons_put (word_of_int ch) c1))"

definition serial_intr :: "console \<Rightarrow> console" where
  "serial_intr c = (if serial_exists c then cons_intr (Suc (length (com1_rx c))) serial_proc_data c else c)"

definition kbd_intr :: "console \<Rightarrow> console" where
  "kbd_intr c = cons_intr (Suc (length (kbd_rx c))) kbd_proc_data c"

definition cons_take :: "console \<Rightarrow> (u8 \<times> console) option" where
  "cons_take c = (if cons_rpos c \<noteq> cons_wpos c
     then Some (cons_buf c ! cons_rpos c,
       c\<lparr>cons_rpos := (if cons_rpos c + 1 = CONSBUFSIZE then 0 else cons_rpos c + 1)\<rparr>)
     else None)"

definition cons_getc :: "console \<Rightarrow> int \<times> console" where
  "cons_getc c = (let c1 = kbd_intr (serial_intr c) in
     case cons_take c1 of Some (b, c2) \<Rightarrow> (uint b, c2) | None \<Rightarrow> (0, c1))"

section \<open>Output\<close>

definition serial_putc :: "u32 \<Rightarrow> console \<Rightarrow> console" where
  "serial_putc ch c = c\<lparr>com1_tx := ucast ch # com1_tx c\<rparr>"

definition lpt_putc :: "u32 \<Rightarrow> console \<Rightarrow> console" where
  "lpt_putc ch c = c\<lparr>lpt_tx := ucast ch # lpt_tx c\<rparr>"

text \<open>
  The body of \<open>cga_putc\<close>. A tab prints five spaces through \<open>cons_putc\<close>; \<open>space\<close> is that
  call, which never meets a tab itself. \<open>cga_scroll\<close> is what follows the switch.
\<close>

definition cga_scroll :: "console \<Rightarrow> console" where
  "cga_scroll c = (if unat (crt_pos c) \<ge> CRT_SIZE then
     c\<lparr>crt_buf := (\<lambda>i. if i < CRT_SIZE - CRT_COLS then crt_buf c (i + CRT_COLS)
                   else if i < CRT_SIZE then 0x0720 else crt_buf c i),
       crt_pos := crt_pos c - of_nat CRT_COLS\<rparr>
     else c)"

definition cga_body :: "(console \<Rightarrow> console) \<Rightarrow> u32 \<Rightarrow> console \<Rightarrow> console" where
  "cga_body space ch0 c =
    (let ch = (if ch0 AND NOT 0xFF = 0 then ch0 OR 0x0700 else ch0); low = ch AND 0xFF in
     cga_scroll
      (if low = 8 then
         (if crt_pos c > 0
          then c\<lparr>crt_pos := crt_pos c - 1,
                 crt_buf := (crt_buf c)(unat (crt_pos c - 1) := ucast ((ch AND NOT 0xFF) OR 0x20))\<rparr>
          else c)
       else if low = 10 then
         let p = crt_pos c + of_nat CRT_COLS in c\<lparr>crt_pos := p - p mod of_nat CRT_COLS\<rparr>
       else if low = 13 then
         c\<lparr>crt_pos := crt_pos c - crt_pos c mod of_nat CRT_COLS\<rparr>
       else if low = 9 then space (space (space (space (space c))))
       else c\<lparr>crt_buf := (crt_buf c)(unat (crt_pos c) := ucast ch), crt_pos := crt_pos c + 1\<rparr>))"

definition put_space :: "console \<Rightarrow> console" where
  "put_space c = cga_body (\<lambda>c. c) 0x20 (lpt_putc 0x20 (serial_putc 0x20 c))"

definition cga_putc :: "u32 \<Rightarrow> console \<Rightarrow> console" where
  "cga_putc = cga_body put_space"

definition cons_putc :: "u32 \<Rightarrow> console \<Rightarrow> console" where
  "cons_putc ch c = cga_putc ch (lpt_putc ch (serial_putc ch c))"

section \<open>The input buffer is a bounded queue\<close>

definition cons_count :: "console \<Rightarrow> nat" where
  "cons_count c = (cons_wpos c + CONSBUFSIZE - cons_rpos c) mod CONSBUFSIZE"

definition cons_contents :: "console \<Rightarrow> u8 list" where
  "cons_contents c = ring CONSBUFSIZE (cons_buf c) (cons_rpos c) (cons_count c)"

definition cons_inv :: "console \<Rightarrow> bool" where
  "cons_inv c \<longleftrightarrow> length (cons_buf c) = CONSBUFSIZE \<and> cons_rpos c < CONSBUFSIZE \<and> cons_wpos c < CONSBUFSIZE"

lemma cons_count_le: "cons_count c < 512"
  by (simp add: cons_count_def)

lemma cons_wpos_ring: "cons_inv c \<Longrightarrow> (cons_rpos c + cons_count c) mod 512 = cons_wpos c"
  by (auto simp: cons_inv_def cons_count_def mod_if)

lemma cons_put_count:
  "cons_inv c \<Longrightarrow> cons_count c < 511 \<Longrightarrow> cons_count (cons_put b c) = Suc (cons_count c)"
  by (auto simp: cons_inv_def cons_count_def cons_put_def mod_if split: if_splits)

lemma cons_put_inv: "cons_inv c \<Longrightarrow> cons_inv (cons_put b c)"
  by (auto simp: cons_inv_def cons_put_def)

lemma cons_put_contents:
  assumes "cons_inv c" "cons_count c < 511"
  shows "cons_contents (cons_put b c) = cons_contents c @ [b]"
proof -
  have "ring 512 ((cons_buf c)[(cons_rpos c + cons_count c) mod 512 := b]) (cons_rpos c) (Suc (cons_count c))
      = ring 512 (cons_buf c) (cons_rpos c) (cons_count c) @ [b]"
    using assms by (intro ring_put) (auto simp: cons_inv_def)
  then show ?thesis
    using cons_put_count [OF assms, of b] cons_wpos_ring [OF assms(1)]
    by (simp add: cons_contents_def) (simp add: cons_put_def)
qed

lemma cons_take_contents:
  assumes "cons_inv c" "cons_take c = Some (b, c')"
  shows "cons_contents c = b # cons_contents c' \<and> cons_inv c'"
proof -
  have ne: "cons_rpos c \<noteq> cons_wpos c" and b: "b = cons_buf c ! cons_rpos c"
    and c': "c' = c\<lparr>cons_rpos := (if cons_rpos c + 1 = 512 then 0 else cons_rpos c + 1)\<rparr>"
    using assms(2) by (auto simp: cons_take_def split: if_splits)
  have lt: "cons_rpos c < 512" "cons_wpos c < 512" using assms(1) by (auto simp: cons_inv_def)
  have pos: "0 < cons_count c" and cnt: "cons_count c' = cons_count c - 1"
    using ne lt by (auto simp: cons_count_def c' mod_if split: if_splits)
  have r: "cons_rpos c' = Suc (cons_rpos c) mod 512" using lt by (simp add: c' mod_if)
  have "cons_contents c' = ring 512 (cons_buf c) (Suc (cons_rpos c)) (cons_count c - 1)"
    by (simp only: cons_contents_def console_sizes cnt r ring_mod) (simp add: c')
  then have "cons_contents c = b # cons_contents c'"
    using ring_get [OF pos, of 512 "cons_buf c" "cons_rpos c"] lt b by (simp add: cons_contents_def)
  moreover have "cons_inv c'" using assms(1) c' by (auto simp: cons_inv_def)
  ultimately show ?thesis by simp
qed

interpretation consq: fifo cons_inv cons_contents cons_put cons_take "\<lambda>c. 511 - cons_count c"
proof
  fix c :: console and b
  show "cons_inv c \<Longrightarrow> 0 < 511 - cons_count c \<Longrightarrow> cons_inv (cons_put b c)"
    by (rule cons_put_inv)
  show "cons_inv c \<Longrightarrow> 0 < 511 - cons_count c \<Longrightarrow>
      cons_contents (cons_put b c) = cons_contents c @ [b]"
    by (rule cons_put_contents) simp_all
  show "cons_inv c \<Longrightarrow> 0 < 511 - cons_count c \<Longrightarrow> 511 - cons_count c \<le> Suc (511 - cons_count (cons_put b c))"
    using cons_put_count [of c b] by simp
  show "cons_inv c \<Longrightarrow> (cons_take c = None) = (cons_contents c = [])"
    by (auto simp: cons_take_def cons_contents_def cons_count_def cons_inv_def ring_def mod_if split: if_splits)
next
  fix c c' :: console and b
  show "cons_inv c \<Longrightarrow> cons_take c = Some (b, c') \<Longrightarrow>
      cons_contents c = b # cons_contents c' \<and> cons_inv c'"
    by (rule cons_take_contents)
qed

lemma serial_loop:
  "length (com1_rx c) < n \<Longrightarrow> cons_intr n serial_proc_data c =
     consq.put_all (filter (\<lambda>b. b \<noteq> 0) (com1_rx c)) (c\<lparr>com1_rx := []\<rparr>)"
proof (induction n arbitrary: c)
  case (Suc n)
  show ?case
  proof (cases "com1_rx c")
    case Nil
    then show ?thesis by (simp add: serial_proc_data_def)
  next
    case (Cons b bs)
    have ub: "uint b \<noteq> - 1" using uint_ge_0 [of b] by linarith
    have IH: "length (com1_rx d) < n \<Longrightarrow> cons_intr n serial_proc_data d =
        consq.put_all (filter (\<lambda>b. b \<noteq> 0) (com1_rx d)) (d\<lparr>com1_rx := []\<rparr>)" for d by (rule Suc.IH)
    have p: "cons_put b (c\<lparr>com1_rx := x\<rparr>) = (cons_put b c)\<lparr>com1_rx := x\<rparr>" for x
      by (simp add: cons_put_def)
    have sp: "serial_proc_data c = (uint b, c\<lparr>com1_rx := bs\<rparr>)"
      by (simp add: serial_proc_data_def Cons)
    show ?thesis
      using Suc.prems Cons ub IH [of "c\<lparr>com1_rx := bs\<rparr>"] IH [of "cons_put b (c\<lparr>com1_rx := bs\<rparr>)"]
      by (simp add: sp uint_0_iff p)
  qed
qed simp

text \<open>
  The console input is a first-in first-out queue: the non-zero characters that the serial
  port delivers are read back by the buffer in their order, up to 511 of them, and then the
  buffer is empty again. Each interrupt drains the device.\<close>

theorem serial_input_fifo:
  assumes "cons_inv c" "cons_contents c = []" "serial_exists c"
    and "length (filter (\<lambda>b. b \<noteq> 0) (com1_rx c)) \<le> 511"
  shows "fst (consq.get_n (length (filter (\<lambda>b. b \<noteq> 0) (com1_rx c))) (serial_intr c))
      = filter (\<lambda>b. b \<noteq> 0) (com1_rx c)"
proof -
  have s: "serial_intr c = consq.put_all (filter (\<lambda>b. b \<noteq> 0) (com1_rx c)) (c\<lparr>com1_rx := []\<rparr>)"
    using serial_loop [OF lessI] assms(3) by (simp only: serial_intr_def if_True)
  have "cons_inv (c\<lparr>com1_rx := []\<rparr>)" "cons_contents (c\<lparr>com1_rx := []\<rparr>) = []"
    and "cons_count (c\<lparr>com1_rx := []\<rparr>) = 0"
    using assms(1,2) by (simp_all add: cons_inv_def cons_contents_def cons_count_def ring_def)
  then show ?thesis unfolding s using consq.put_all_get_n [of "c\<lparr>com1_rx := []\<rparr>"] assms(4) by simp
qed

definition idle_console :: console where
  "idle_console = \<lparr>cons_buf = replicate 512 0, cons_rpos = 510, cons_wpos = 510, serial_exists = True,
     com1_rx = [104, 0, 105, 10], kbd_rx = [], kbd_shift = 0, crt_buf = (\<lambda>_. 0), crt_pos = 0,
     com1_tx = [], lpt_tx = []\<rparr>"

theorem serial_input_fifo_witness:
  "fst (consq.get_n 3 (serial_intr idle_console)) = [104, 105, 10]"
proof -
  have f: "filter (\<lambda>b. b \<noteq> 0) (com1_rx idle_console) = [104, 105, 10]"
    by (simp add: idle_console_def)
  have "cons_inv idle_console" "cons_contents idle_console = []" "serial_exists idle_console"
    by (simp_all add: idle_console_def cons_inv_def cons_contents_def cons_count_def ring_def)
  from serial_input_fifo [OF this] show ?thesis unfolding f by (simp add: numeral_3_eq_3)
qed

text \<open>
  An overrun loses everything: one more character than the 511 that fit makes the two
  positions meet, and the buffer is then empty although 512 characters are stored.\<close>

theorem cons_overrun:
  assumes "cons_inv c" "length (cons_contents c) = 511"
  shows "cons_contents (cons_put b c) = [] \<and> cons_take (cons_put b c) = None"
proof -
  have "cons_wpos (cons_put b c) = cons_rpos (cons_put b c)"
    using assms cons_wpos_ring [OF assms(1)]
    by (auto simp: cons_inv_def cons_contents_def cons_put_def mod_if split: if_splits)
  then show ?thesis by (simp add: cons_take_def cons_contents_def cons_count_def ring_def)
qed

theorem cons_overrun_witness:
  "cons_take (cons_put 65 (idle_console\<lparr>cons_rpos := 1, cons_wpos := 0\<rparr>)) = None"
  using cons_overrun [of "idle_console\<lparr>cons_rpos := 1, cons_wpos := 0\<rparr>" 65]
  by (simp add: idle_console_def cons_inv_def cons_contents_def cons_count_def)

section \<open>The screen\<close>

definition on_screen :: "console \<Rightarrow> bool" where
  "on_screen c \<longleftrightarrow> unat (crt_pos c) < CRT_SIZE"

lemma cga_scroll_screen:
  "unat (crt_pos c) < CRT_SIZE + CRT_COLS \<Longrightarrow> on_screen (cga_scroll c)
     \<and> (\<forall>i \<ge> CRT_SIZE. crt_buf (cga_scroll c) i = crt_buf c i)"
  by (auto simp: on_screen_def cga_scroll_def unat_sub_if')

lemma cga_body_screen:
  assumes "on_screen c"
    and sp: "\<And>c. on_screen c \<Longrightarrow> on_screen (space c) \<and> (\<forall>i \<ge> CRT_SIZE. crt_buf (space c) i = crt_buf c i)"
  shows "on_screen (cga_body space ch c) \<and> (\<forall>i \<ge> CRT_SIZE. crt_buf (cga_body space ch c) i = crt_buf c i)"
proof -
  have pos: "unat (crt_pos c) < 2000" using assms(1) by (simp add: on_screen_def)
  have tab: "on_screen (space (space (space (space (space c)))))
      \<and> (\<forall>i \<ge> CRT_SIZE. crt_buf (space (space (space (space (space c))))) i = crt_buf c i)"
    using assms(1) sp by simp
  have bk: "unat (crt_pos c - 1) < 2000" if "crt_pos c > 0"
    using that pos by (simp add: word_less_nat_alt unat_sub_if' )
  have line: "unat (p - p mod 80) < 2080" if "unat p < 2080" for p :: u16
    using that by (simp add: unat_sub_if' unat_mod word_le_nat_alt)
  have next_line: "unat (crt_pos c + 80) < 2080" "unat (crt_pos c + 1) < 2080"
    using pos by (simp_all add: unat_word_ariths)
  show ?thesis
    using pos tab bk line [OF next_line(1)] line [of "crt_pos c"] next_line(2)
    unfolding cga_body_def Let_def
    by (auto simp: on_screen_def split: if_splits
        intro!: cga_scroll_screen [THEN conjunct1, unfolded on_screen_def, simplified]
          cga_scroll_screen [THEN conjunct2, rule_format, THEN trans])
qed

lemma put_space_screen:
  "on_screen c \<Longrightarrow> on_screen (put_space c) \<and> (\<forall>i \<ge> CRT_SIZE. crt_buf (put_space c) i = crt_buf c i)"
  using cga_body_screen [of "lpt_putc 0x20 (serial_putc 0x20 c)" "\<lambda>c. c" "0x20"]
  by (simp add: put_space_def on_screen_def lpt_putc_def serial_putc_def)

text \<open>
  The cursor never leaves the screen and no cell outside the screen's buffer is written,
  whatever character is printed: the scroll at the end of \<open>cga_putc\<close> is enough after a
  newline, a tab and a character in the last column.\<close>

theorem cons_putc_on_screen:
  assumes "on_screen c"
  shows "on_screen (cons_putc ch c) \<and> crt_buf (cons_putc ch c) (CRT_SIZE + k) = crt_buf c (CRT_SIZE + k)"
  using cga_body_screen [of "lpt_putc ch (serial_putc ch c)" put_space ch] assms put_space_screen
  by (simp add: cons_putc_def cga_putc_def on_screen_def lpt_putc_def serial_putc_def)

theorem cons_putc_on_screen_witness:
  "on_screen (cons_putc 9 (idle_console\<lparr>crt_pos := 1998\<rparr>))"
  using cons_putc_on_screen [of "idle_console\<lparr>crt_pos := 1998\<rparr>" 9] by (simp add: on_screen_def idle_console_def)

end
