(* ===== verification/Jos_Machine.thy ===== *)
theory Jos_Machine
  imports Jos_Mmu Jos_Bytes Jos_Freelist Jos_Console
begin

text \<open>
  The kernel's state and the way its functions end. The record \<open>kstate\<close> holds the kernel's
  global variables (\<^verbatim>\<open>kern/pmap.c\<close>, \<^verbatim>\<open>kern/env.c\<close>, \<^verbatim>\<open>kern/cpu.h\<close>), the physical memory
  and the registers the code writes. A kernel virtual address is a 32-bit word; the byte it
  points to is at \<open>kphys\<close> of it in the physical memory, since the kernel maps all physical
  memory at \<open>KERNBASE\<close>. A \<open>struct PageInfo *\<close> is an index into \<open>pages\<close> and a
  \<open>struct Env *\<close> an index into \<open>envs\<close>; a null pointer is \<open>None\<close>.

  A kernel function returns a value, or leaves the kernel for good (\<open>env_run\<close> and
  \<open>sched_halt\<close> do not return to their caller), or panics. The loops whose 32-bit counter
  could wrap round forever take fuel, and end in \<open>OutOfFuel\<close> when it is spent; the lemmas
  on them say when it is enough.
\<close>

section \<open>Error codes\<close>

definition E_UNSPECIFIED :: int where "E_UNSPECIFIED = 1"
definition E_BAD_ENV :: int where [kernel_defs]: "E_BAD_ENV = 2"
definition E_INVAL :: int where [kernel_defs]: "E_INVAL = 3"
definition E_NO_MEM :: int where [kernel_defs]: "E_NO_MEM = 4"
definition E_NO_FREE_ENV :: int where [kernel_defs]: "E_NO_FREE_ENV = 5"
definition E_FAULT :: int where [kernel_defs]: "E_FAULT = 6"
definition E_IPC_NOT_RECV :: int where [kernel_defs]: "E_IPC_NOT_RECV = 7"
definition E_EOF :: int where "E_EOF = 8"
definition E_NO_DISK :: int where [kernel_defs]: "E_NO_DISK = 9"
definition E_MAX_OPEN :: int where [kernel_defs]: "E_MAX_OPEN = 10"
definition E_NOT_FOUND :: int where [kernel_defs]: "E_NOT_FOUND = 11"
definition E_BAD_PATH :: int where [kernel_defs]: "E_BAD_PATH = 12"
definition E_FILE_EXISTS :: int where [kernel_defs]: "E_FILE_EXISTS = 13"
definition E_NOT_EXEC :: int where [kernel_defs]: "E_NOT_EXEC = 14"
definition E_NOT_SUPP :: int where [kernel_defs]: "E_NOT_SUPP = 15"
definition MAXERROR :: int where "MAXERROR = 16"

section \<open>Data\<close>

record PageInfo =
  pp_link :: "nat option"
  pp_ref :: u16

record PushRegs =
  reg_edi :: u32
  reg_esi :: u32
  reg_ebp :: u32
  reg_oesp :: u32
  reg_ebx :: u32
  reg_edx :: u32
  reg_ecx :: u32
  reg_eax :: u32

record Trapframe =
  tf_regs :: PushRegs
  tf_es :: u16
  tf_ds :: u16
  tf_trapno :: u32
  tf_err :: u32
  tf_eip :: u32
  tf_cs :: u16
  tf_eflags :: u32
  tf_esp :: u32
  tf_ss :: u16

definition zero_regs :: PushRegs where
  "zero_regs = \<lparr>reg_edi = 0, reg_esi = 0, reg_ebp = 0, reg_oesp = 0,
     reg_ebx = 0, reg_edx = 0, reg_ecx = 0, reg_eax = 0\<rparr>"

definition zero_tf :: Trapframe where
  "zero_tf = \<lparr>tf_regs = zero_regs, tf_es = 0, tf_ds = 0, tf_trapno = 0, tf_err = 0,
     tf_eip = 0, tf_cs = 0, tf_eflags = 0, tf_esp = 0, tf_ss = 0\<rparr>"

datatype env_status = ENV_FREE | ENV_DYING | ENV_RUNNABLE | ENV_RUNNING | ENV_NOT_RUNNABLE

datatype EnvType = ENV_TYPE_USER | ENV_TYPE_FS

record Env =
  env_tf :: Trapframe
  env_link :: "nat option"
  env_id :: u32
  env_parent_id :: u32
  env_type :: EnvType
  env_status :: env_status
  env_runs :: u32
  env_cpunum :: nat
  env_pgdir :: u32
  env_pgfault_upcall :: u32
  env_ipc_recving :: bool
  env_ipc_dstva :: u32
  env_ipc_value :: u32
  env_ipc_from :: u32
  env_ipc_perm :: u32

datatype cpu_status = CPU_UNUSED | CPU_STARTED | CPU_HALTED

record CpuInfo =
  cpu_status :: cpu_status
  cpu_env :: "nat option"

record kstate =
  npages :: nat
  npages_basemem :: nat
  nextfree :: u32
  kern_pgdir :: u32
  pages :: "nat \<Rightarrow> PageInfo"
  page_free_list :: "nat option"
  pmem :: bmem
  mmio_base :: u32
  user_mem_check_addr :: u32
  envs :: "nat \<Rightarrow> Env"
  env_free_list :: "nat option"
  cpus :: "nat \<Rightarrow> CpuInfo"
  cpunum :: nat
  kernel_lock :: "nat option"
  cr2 :: u32
  cr3 :: u32
  invlpgs :: "u32 list"
  cons :: console

text \<open>
  The states of an environment carry the numbers of the C enumeration, and are ordered by
  them.
\<close>

fun status_code :: "env_status \<Rightarrow> nat" where
  "status_code ENV_FREE = 0"
| "status_code ENV_DYING = 1"
| "status_code ENV_RUNNABLE = 2"
| "status_code ENV_RUNNING = 3"
| "status_code ENV_NOT_RUNNABLE = 4"

lemma status_code_inj [simp]: "status_code a = status_code b \<longleftrightarrow> a = b"
  by (cases a; cases b) auto

instantiation env_status :: linorder
begin

definition less_eq_env_status :: "env_status \<Rightarrow> env_status \<Rightarrow> bool" where
  "less_eq_env_status a b \<longleftrightarrow> status_code a \<le> status_code b"

definition less_env_status :: "env_status \<Rightarrow> env_status \<Rightarrow> bool" where
  "less_env_status a b \<longleftrightarrow> status_code a < status_code b"

instance
  by standard (auto simp: less_eq_env_status_def less_env_status_def)

end

text \<open>
  The globals as the loader leaves them: every one of them is zero (they are in the \<open>.bss\<close>
  segment, which \<^verbatim>\<open>kern/init.c\<close> clears), apart from the initialised static \<open>base\<close> of
  \<open>mmio_map_region\<close>. The concrete instances of the theorems start from it.
\<close>

definition zero_page :: PageInfo where
  "zero_page = \<lparr>pp_link = None, pp_ref = 0\<rparr>"

definition zero_env :: Env where
  "zero_env = \<lparr>env_tf = zero_tf, env_link = None, env_id = 0, env_parent_id = 0,
     env_type = ENV_TYPE_USER, env_status = ENV_FREE, env_runs = 0, env_cpunum = 0,
     env_pgdir = 0, env_pgfault_upcall = 0, env_ipc_recving = False, env_ipc_dstva = 0,
     env_ipc_value = 0, env_ipc_from = 0, env_ipc_perm = 0\<rparr>"

definition zero_console :: console where
  "zero_console = \<lparr>cons_buf = replicate CONSBUFSIZE 0, cons_rpos = 0, cons_wpos = 0,
     serial_exists = False, com1_rx = [], kbd_rx = [], kbd_shift = 0, crt_buf = (\<lambda>_. 0),
     crt_pos = 0, com1_tx = [], lpt_tx = []\<rparr>"

definition bss_kstate :: kstate where
  "bss_kstate = \<lparr>npages = 0, npages_basemem = 0, nextfree = 0, kern_pgdir = 0,
     pages = (\<lambda>_. zero_page), page_free_list = None, pmem = (\<lambda>_. 0), mmio_base = MMIOBASE,
     user_mem_check_addr = 0, envs = (\<lambda>_. zero_env), env_free_list = None,
     cpus = (\<lambda>_. \<lparr>cpu_status = CPU_UNUSED, cpu_env = None\<rparr>), cpunum = 0, kernel_lock = None,
     cr2 = 0, cr3 = 0, invlpgs = [], cons = zero_console\<rparr>"

definition curenv :: "kstate \<Rightarrow> nat option" where
  "curenv s = cpu_env (cpus s (cpunum s))"

section \<open>How a kernel function ends\<close>

datatype kstop = Run nat | Halted | Monitor

datatype 'a kres = Ret 'a kstate | NoRet kstop kstate | Panic string | OutOfFuel

type_synonym 'a kM = "kstate \<Rightarrow> 'a kres"

definition kreturn :: "'a \<Rightarrow> 'a kM" where
  "kreturn a = (\<lambda>s. Ret a s)"

definition kbind :: "'a kM \<Rightarrow> ('a \<Rightarrow> 'b kM) \<Rightarrow> 'b kM" where
  "kbind m f = (\<lambda>s. case m s of
     Ret a s' \<Rightarrow> f a s'
   | NoRet k s' \<Rightarrow> NoRet k s'
   | Panic msg \<Rightarrow> Panic msg
   | OutOfFuel \<Rightarrow> OutOfFuel)"

definition kpanic :: "string \<Rightarrow> 'a kM" where
  "kpanic msg = (\<lambda>s. Panic msg)"

definition kget :: "(kstate \<Rightarrow> 'a) \<Rightarrow> 'a kM" where
  "kget f = (\<lambda>s. Ret (f s) s)"

definition kmodify :: "(kstate \<Rightarrow> kstate) \<Rightarrow> unit kM" where
  "kmodify f = (\<lambda>s. Ret () (f s))"

lemma kreturn_run [simp]: "kreturn a s = Ret a s"
  and kpanic_run [simp]: "kpanic msg s = Panic msg"
  and kget_run [simp]: "kget f s = Ret (f s) s"
  and kmodify_run [simp]: "kmodify g s = Ret () (g s)"
  by (simp_all add: kreturn_def kpanic_def kget_def kmodify_def)

lemma kbind_run: "kbind m f s = (case m s of Ret a s' \<Rightarrow> f a s'
     | NoRet k s' \<Rightarrow> NoRet k s' | Panic msg \<Rightarrow> Panic msg | OutOfFuel \<Rightarrow> OutOfFuel)"
  by (simp add: kbind_def)

lemma kbind_Ret [simp]: "m s = Ret a s' \<Longrightarrow> kbind m f s = f a s'"
  and kbind_NoRet [simp]: "m s = NoRet k s' \<Longrightarrow> kbind m f s = NoRet k s'"
  and kbind_Panic [simp]: "m s = Panic msg \<Longrightarrow> kbind m f s = Panic msg"
  and kbind_OutOfFuel [simp]: "m s = OutOfFuel \<Longrightarrow> kbind m f s = OutOfFuel"
  by (simp_all add: kbind_run)

lemma kbind_kreturn [simp]: "kbind (kreturn a) f = f a"
  and kbind_kget [simp]: "kbind (kget g) f s = f (g s) s"
  and kbind_kmodify [simp]: "kbind (kmodify h) f' s = f' () (h s)"
  and kbind_kpanic [simp]: "kbind (kpanic msg) f = kpanic msg"
  by (simp_all add: kbind_def kreturn_def kget_def kmodify_def kpanic_def fun_eq_iff)

lemma kbind_eq_Ret:
  "kbind m f s = Ret b s'' \<longleftrightarrow> (\<exists>a s'. m s = Ret a s' \<and> f a s' = Ret b s'')"
  by (simp add: kbind_run split: kres.splits)

lemma kbind_assoc: "kbind (kbind m f) g = kbind m (\<lambda>a. kbind (f a) g)"
  by (simp add: kbind_def fun_eq_iff split: kres.splits)

lemma kbind_kreturn_right [simp]: "kbind m kreturn = m"
  by (simp add: kbind_def fun_eq_iff split: kres.splits)

lemma kbind_kreturn_unit [simp]: "kbind m (\<lambda>_. kreturn ()) = m"
  using kbind_kreturn_right [of m] by (simp add: kbind_def fun_eq_iff split: kres.splits)

section \<open>Kernel addresses\<close>

text \<open>The physical address of a kernel virtual address, and the accesses through it.\<close>

definition kphys :: "u32 \<Rightarrow> nat" where
  "kphys kva = unat (kva - KERNBASE)"

definition kload :: "u32 \<Rightarrow> kstate \<Rightarrow> u32" where
  "kload kva s = load32 (pmem s) (kphys kva)"

definition kstore :: "u32 \<Rightarrow> u32 \<Rightarrow> kstate \<Rightarrow> kstate" where
  "kstore kva w s = s\<lparr>pmem := store32 (kphys kva) w (pmem s)\<rparr>"

definition kmemset :: "u32 \<Rightarrow> u8 \<Rightarrow> u32 \<Rightarrow> kstate \<Rightarrow> kstate" where
  "kmemset kva c n s = s\<lparr>pmem := memset (kphys kva) c (unat n) (pmem s)\<rparr>"

definition kmemcpy :: "u32 \<Rightarrow> u32 \<Rightarrow> u32 \<Rightarrow> kstate \<Rightarrow> kstate" where
  "kmemcpy d src n s = s\<lparr>pmem := memmove (kphys d) (kphys src) (unat n) (pmem s)\<rparr>"

definition PADDR :: "u32 \<Rightarrow> u32 kM" where
  "PADDR kva = (if kva < KERNBASE then kpanic ''PADDR called with invalid kva''
     else kreturn (kva - KERNBASE))"

definition KADDR :: "u32 \<Rightarrow> u32 kM" where
  "KADDR pa = (\<lambda>s. if unat (PGNUM pa) \<ge> npages s then Panic ''KADDR called with invalid pa''
     else Ret (pa + KERNBASE) s)"

definition page2pa :: "nat \<Rightarrow> u32" where
  "page2pa pp = push_bit PGSHIFT (of_nat pp)"

definition pa2page :: "u32 \<Rightarrow> nat kM" where
  "pa2page pa = (\<lambda>s. if unat (PGNUM pa) \<ge> npages s then Panic ''pa2page called with invalid pa''
     else Ret (unat (PGNUM pa)) s)"

definition page2kva :: "nat \<Rightarrow> u32 kM" where
  "page2kva pp = KADDR (page2pa pp)"

definition lcr3 :: "u32 \<Rightarrow> unit kM" where
  "lcr3 pa = kmodify (\<lambda>s. s\<lparr>cr3 := pa\<rparr>)"

lemma unat_page2pa: "pp < 1048576 \<Longrightarrow> unat (page2pa pp) = pp * 4096"
  by (simp add: page2pa_def PGSHIFT_def unat_push_bit12)

lemma PGNUM_page2pa: "pp < 1048576 \<Longrightarrow> unat (PGNUM (page2pa pp)) = pp"
  by (simp add: unat_PGNUM unat_page2pa)

lemma kphys_add_KERNBASE [simp]: "kphys (pa + KERNBASE) = unat pa"
  by (simp add: kphys_def)

text \<open>A word of a page: the base is page-aligned, so the index never wraps.\<close>

lemma kphys_index:
  assumes "4096 dvd unat pa" "i < 1024"
  shows "kphys (pa + KERNBASE + 4 * of_nat i) = unat pa + 4 * i"
proof -
  obtain k where k: "unat pa = 4096 * k" using assms(1) by (auto simp: dvd_def)
  have "k < 1048576" using unat_word_lt32 [of pa] unfolding k by simp
  with k have "unat pa + 4096 \<le> 4294967296" by simp
  with assms(2) have "unat (pa + 4 * of_nat i) = unat pa + 4 * i"
    by (simp add: unat_word_ariths)
  then show ?thesis by (simp add: kphys_def algebra_simps)
qed

section \<open>Loops and records\<close>

primrec kfor :: "'a list \<Rightarrow> ('a \<Rightarrow> unit kM) \<Rightarrow> unit kM" where
  "kfor [] f = kreturn ()"
| "kfor (x # xs) f = kbind (f x) (\<lambda>_. kfor xs f)"

lemma kfor_append: "kfor (xs @ ys) f = kbind (kfor xs f) (\<lambda>_. kfor ys f)"
  by (induction xs) (simp_all add: kbind_assoc)

definition upd_env :: "nat \<Rightarrow> (Env \<Rightarrow> Env) \<Rightarrow> kstate \<Rightarrow> kstate" where
  "upd_env e f s = s\<lparr>envs := (envs s)(e := f (envs s e))\<rparr>"

definition set_curenv :: "nat option \<Rightarrow> kstate \<Rightarrow> kstate" where
  "set_curenv eo s = s\<lparr>cpus := (cpus s)(cpunum s := (cpus s (cpunum s))\<lparr>cpu_env := eo\<rparr>)\<rparr>"

lemma curenv_set_curenv [simp]: "curenv (set_curenv eo s) = eo"
  by (simp add: curenv_def set_curenv_def)

lemma curenv_upd_env [simp]: "curenv (upd_env e f s) = curenv s"
  by (simp add: curenv_def upd_env_def)

lemma envs_upd_env [simp]: "envs (upd_env e f s) = (envs s)(e := f (envs s e))"
  by (simp add: upd_env_def)

lemma envs_set_curenv [simp]: "envs (set_curenv eo s) = envs s"
  by (simp add: set_curenv_def)

lemma upd_env_frame [simp]:
  "npages (upd_env e f s) = npages s" "pages (upd_env e f s) = pages s"
  "page_free_list (upd_env e f s) = page_free_list s" "pmem (upd_env e f s) = pmem s"
  "kern_pgdir (upd_env e f s) = kern_pgdir s" "cpunum (upd_env e f s) = cpunum s"
  "env_free_list (upd_env e f s) = env_free_list s" "cpus (upd_env e f s) = cpus s"
  "kernel_lock (upd_env e f s) = kernel_lock s" "cr3 (upd_env e f s) = cr3 s"
  by (simp_all add: upd_env_def)

lemma set_curenv_frame [simp]:
  "npages (set_curenv e s) = npages s" "pages (set_curenv e s) = pages s"
  "page_free_list (set_curenv e s) = page_free_list s" "pmem (set_curenv e s) = pmem s"
  "kern_pgdir (set_curenv e s) = kern_pgdir s" "cpunum (set_curenv e s) = cpunum s"
  "env_free_list (set_curenv e s) = env_free_list s"
  "kernel_lock (set_curenv e s) = kernel_lock s" "cr3 (set_curenv e s) = cr3 s"
  by (simp_all add: set_curenv_def)

lemma kfor_snoc: "kfor xs f s = Ret () s' \<Longrightarrow> kfor (xs @ [x]) f s = f x s'"
  by (simp add: kfor_append)

section \<open>The big kernel lock\<close>

text \<open>
  The code of the kernel runs with the lock held, so a state of this model is one CPU's view:
  \<open>kernel_lock\<close> names the CPU that holds the lock, and acquiring a lock another CPU holds
  does not return before that CPU releases it. The spinning itself, with several CPUs, is in
  the theory of the spin lock.
\<close>

definition lock_kernel :: "unit kM" where
  "lock_kernel = (\<lambda>s. case kernel_lock s of
     None \<Rightarrow> Ret () (s\<lparr>kernel_lock := Some (cpunum s)\<rparr>)
   | Some c \<Rightarrow> if c = cpunum s then Panic ''cannot acquire: already holding'' else OutOfFuel)"

definition unlock_kernel :: "unit kM" where
  "unlock_kernel = (\<lambda>s. if kernel_lock s = Some (cpunum s) then Ret () (s\<lparr>kernel_lock := None\<rparr>)
     else Panic ''spin_unlock'')"

section \<open>Accesses through the current page directory\<close>

text \<open>
  The processor's translation of a linear address by the directory in \<open>cr3\<close>, for an access
  by the kernel (with \<open>CR0_WP\<close> set, so that a write needs \<open>PTE_W\<close> at both levels).
\<close>

definition translate :: "bool \<Rightarrow> u32 \<Rightarrow> kstate \<Rightarrow> nat option" where
  "translate wr va s =
    (let pde = load32 (pmem s) (unat (PTE_ADDR (cr3 s)) + 4 * unat (PDX va)) in
     if pde AND PTE_P = 0 \<or> (wr \<and> pde AND PTE_W = 0) then None
     else if pde AND PTE_PS \<noteq> 0 then Some (unat (PGADDR (PDX pde) (PTX va) (PGOFF va)))
     else
       let pte = load32 (pmem s) (unat (PTE_ADDR pde) + 4 * unat (PTX va)) in
       if pte AND PTE_P = 0 \<or> (wr \<and> pte AND PTE_W = 0) then None
       else Some (unat (PTE_ADDR pte) + unat (PGOFF va)))"

definition vload8 :: "u32 \<Rightarrow> u8 kM" where
  "vload8 va = (\<lambda>s. case translate False va s of
     None \<Rightarrow> Panic ''page fault in the kernel'' | Some a \<Rightarrow> Ret (pmem s a) s)"

definition vstore8 :: "u32 \<Rightarrow> u8 \<Rightarrow> unit kM" where
  "vstore8 va b = (\<lambda>s. case translate True va s of
     None \<Rightarrow> Panic ''page fault in the kernel''
   | Some a \<Rightarrow> Ret () (s\<lparr>pmem := (pmem s)(a := b)\<rparr>))"

definition vload32 :: "u32 \<Rightarrow> u32 kM" where
  "vload32 va = kbind (vload8 va) (\<lambda>b0. kbind (vload8 (va + 1)) (\<lambda>b1. kbind (vload8 (va + 2)) (\<lambda>b2.
     kbind (vload8 (va + 3)) (\<lambda>b3. kreturn
       (ucast b0 OR push_bit 8 (ucast b1) OR push_bit 16 (ucast b2) OR push_bit 24 (ucast b3))))))"

definition vstore32 :: "u32 \<Rightarrow> u32 \<Rightarrow> unit kM" where
  "vstore32 va w = kfor [0..<4] (\<lambda>k. vstore8 (va + of_nat k) (ucast (drop_bit (8 * k) w)))"

definition vmemset :: "u32 \<Rightarrow> u8 \<Rightarrow> u32 \<Rightarrow> unit kM" where
  "vmemset va c n = kfor [0..<unat n] (\<lambda>k. vstore8 (va + of_nat k) c)"

definition vmemcpy :: "u32 \<Rightarrow> u32 \<Rightarrow> u32 \<Rightarrow> unit kM" where
  "vmemcpy dst src n = kfor [0..<unat n]
     (\<lambda>k. kbind (vload8 (src + of_nat k)) (\<lambda>b. vstore8 (dst + of_nat k) b))"

end
