(* ===== verification/Jos_Pmap.thy ===== *)
theory Jos_Pmap
  imports Jos_Machine
begin

text \<open>
  Physical pages and page tables: \<^verbatim>\<open>tps/kern/pmap.c\<close>. The page allocator is a free list
  threaded through \<open>pages\<close> (an interpretation of \<open>clearing_stack\<close>); the page-table
  functions work on the words of the physical memory, so a write through one page table
  entry is a write to the store every other walk reads.
\<close>

section \<open>Sizing the memory\<close>

text \<open>
  \<open>mc146818_read\<close> reads a CMOS register, one byte; it is the argument \<open>cmos\<close>.
\<close>

definition nvram_read :: "(u32 \<Rightarrow> u8) \<Rightarrow> u32 \<Rightarrow> u32" where
  "nvram_read cmos r = (ucast (cmos r) OR push_bit 8 (ucast (cmos (r + 1))))"

definition NVRAM_BASELO :: u32 where "NVRAM_BASELO = 0x15"
definition NVRAM_EXTLO :: u32 where "NVRAM_EXTLO = 0x17"
definition NVRAM_EXT16LO :: u32 where "NVRAM_EXT16LO = 0x34"

definition i386_detect_memory :: "(u32 \<Rightarrow> u8) \<Rightarrow> unit kM" where
  "i386_detect_memory cmos =
    (let basemem = nvram_read cmos NVRAM_BASELO;
         extmem = nvram_read cmos NVRAM_EXTLO;
         ext16mem = nvram_read cmos NVRAM_EXT16LO * 64;
         totalmem = (if ext16mem \<noteq> 0 then 16 * 1024 + ext16mem
                     else if extmem \<noteq> 0 then 1 * 1024 + extmem
                     else basemem)
     in kmodify (\<lambda>s. s\<lparr>npages := unat (totalmem div (PGSIZE div 1024)),
                       npages_basemem := unat (basemem div (PGSIZE div 1024))\<rparr>))"

section \<open>The boot-time allocator\<close>

text \<open>\<open>kend\<close> is the linker's symbol \<open>end\<close>.\<close>

definition boot_alloc :: "u32 \<Rightarrow> u32 \<Rightarrow> u32 kM" where
  "boot_alloc kend n =
     kbind (kmodify (\<lambda>s. if nextfree s = 0 then s\<lparr>nextfree := ROUNDUP kend PGSIZE\<rparr> else s)) (\<lambda>_.
     kbind (kget nextfree) (\<lambda>nf.
     kbind (PADDR nf) (\<lambda>pa.
     kbind (kget npages) (\<lambda>np.
       if pa > of_nat np * PGSIZE then kpanic ''Not enough space!''
       else if n = 0 then kreturn nf
       else kbind (kmodify (\<lambda>s. s\<lparr>nextfree := ROUNDUP (nf + n) PGSIZE\<rparr>)) (\<lambda>_.
            kreturn nf)))))"

section \<open>The page allocator\<close>

definition ALLOC_ZERO :: u32 where "ALLOC_ZERO = 1"

text \<open>One iteration of the loop of \<open>page_init\<close>, on \<open>current\<close> and the kernel state.\<close>

definition page_init_step :: "nat \<Rightarrow> nat \<Rightarrow> nat \<Rightarrow> nat option \<times> kstate \<Rightarrow> nat option \<times> kstate" where
  "page_init_step bg fin i = (\<lambda>(current, s).
     if (i \<ge> bg \<and> i < fin) \<or> i = 7 then (current, s)
     else (case current of
       None \<Rightarrow> (Some i, s\<lparr>page_free_list := Some i\<rparr>)
     | Some c \<Rightarrow>
         let pg = (pages s)(c := (pages s c)\<lparr>pp_link := Some i\<rparr>)
         in (Some i, s\<lparr>pages := pg(i := (pg i)\<lparr>pp_link := None\<rparr>)\<rparr>)))"

definition page_init :: "u32 \<Rightarrow> unit kM" where
  "page_init kend =
     kbind (kmodify (\<lambda>s. s\<lparr>page_free_list := None\<rparr>)) (\<lambda>_.
     kbind (boot_alloc kend 0) (\<lambda>va.
     kbind (PADDR va) (\<lambda>pa.
       let bg = unat (PGNUM IOPHYSMEM); fin = unat (PGNUM pa)
       in kmodify (\<lambda>s. snd (fold (page_init_step bg fin) [1..<npages s] (None, s))))))"

definition page_alloc :: "u32 \<Rightarrow> nat option kM" where
  "page_alloc alloc_flags = (\<lambda>s. case page_free_list s of
     None \<Rightarrow> Ret None s
   | Some result \<Rightarrow>
       let s1 = s\<lparr>page_free_list := pp_link (pages s result),
                  pages := (pages s)(result := (pages s result)\<lparr>pp_link := None\<rparr>)\<rparr>
       in if alloc_flags AND ALLOC_ZERO \<noteq> 0
          then kbind (page2kva result) (\<lambda>kva.
               kbind (kmodify (kmemset kva 0 PGSIZE)) (\<lambda>_. kreturn (Some result))) s1
          else Ret (Some result) s1)"

definition page_free :: "nat \<Rightarrow> unit kM" where
  "page_free pp = (\<lambda>s.
     if pp_ref (pages s pp) \<noteq> 0 then Panic ''page_free: The page still has references!''
     else if pp_link (pages s pp) \<noteq> None
       then Panic ''page_free: There is still a reference to the next free page!''
     else Ret () (s\<lparr>pages := (pages s)(pp := (pages s pp)\<lparr>pp_link := page_free_list s\<rparr>),
                    page_free_list := Some pp\<rparr>))"

definition set_ref :: "nat \<Rightarrow> u16 \<Rightarrow> kstate \<Rightarrow> kstate" where
  "set_ref pp r s = s\<lparr>pages := (pages s)(pp := (pages s pp)\<lparr>pp_ref := r\<rparr>)\<rparr>"

definition page_incref :: "nat \<Rightarrow> unit kM" where
  "page_incref pp = kmodify (\<lambda>s. set_ref pp (pp_ref (pages s pp) + 1) s)"

definition page_decref :: "nat \<Rightarrow> unit kM" where
  "page_decref pp =
     kbind (kmodify (\<lambda>s. set_ref pp (pp_ref (pages s pp) - 1) s)) (\<lambda>_.
     kbind (kget (\<lambda>s. pp_ref (pages s pp))) (\<lambda>r.
       if r = 0 then page_free pp else kreturn ()))"

section \<open>Page tables\<close>

text \<open>A null \<open>pte_t *\<close> is \<open>0\<close>.\<close>

definition pgdir_walk :: "u32 \<Rightarrow> u32 \<Rightarrow> bool \<Rightarrow> u32 kM" where
  "pgdir_walk pgdir va create =
    (let index = PDX va; entry = PTX va; pdep = pgdir + 4 * index in
     kbind (kget (kload pdep)) (\<lambda>pde.
     kbind (if pde = 0 then
              (if \<not> create then kreturn False
               else kbind (page_alloc ALLOC_ZERO) (\<lambda>r. case r of
                      None \<Rightarrow> kreturn False
                    | Some page \<Rightarrow>
                        kbind (page_incref page) (\<lambda>_.
                        kbind (kmodify (kstore pdep (page2pa page OR PTE_P OR PTE_W OR PTE_U)))
                          (\<lambda>_. kreturn True))))
            else kreturn True) (\<lambda>ok.
       if \<not> ok then kreturn 0
       else kbind (kget (kload pdep)) (\<lambda>pde'.
            kbind (KADDR (PTE_ADDR pde')) (\<lambda>page_table.
              kreturn (page_table + 4 * entry))))))"

text \<open>The page and, for the argument \<open>pte_store\<close>, the address of its entry.\<close>

definition page_lookup :: "u32 \<Rightarrow> u32 \<Rightarrow> (nat \<times> u32) option kM" where
  "page_lookup pgdir va =
     kbind (pgdir_walk pgdir va False) (\<lambda>entry.
       if entry = 0 then kreturn None
       else kbind (kget (kload entry)) (\<lambda>pte.
            kbind (pa2page (PTE_ADDR pte)) (\<lambda>page. kreturn (Some (page, entry)))))"

definition tlb_invalidate :: "u32 \<Rightarrow> u32 \<Rightarrow> unit kM" where
  "tlb_invalidate pgdir va = kmodify (\<lambda>s.
     if (case curenv s of None \<Rightarrow> True | Some e \<Rightarrow> env_pgdir (envs s e) = pgdir)
     then s\<lparr>invlpgs := va # invlpgs s\<rparr> else s)"

definition page_remove :: "u32 \<Rightarrow> u32 \<Rightarrow> unit kM" where
  "page_remove pgdir va =
     kbind (page_lookup pgdir va) (\<lambda>r. case r of
       None \<Rightarrow> kreturn ()
     | Some (page, pte_store) \<Rightarrow>
         kbind (page_decref page) (\<lambda>_.
         kbind (kmodify (kstore pte_store 0)) (\<lambda>_.
           tlb_invalidate pgdir va)))"

text \<open>The test \<open>*entry && PTE_P\<close> is a logical conjunction with a non-zero constant.\<close>

definition page_insert :: "u32 \<Rightarrow> nat \<Rightarrow> u32 \<Rightarrow> u32 \<Rightarrow> int kM" where
  "page_insert pgdir pp va perm =
     kbind (pgdir_walk pgdir va True) (\<lambda>entry.
       if entry = 0 then kreturn (- E_NO_MEM)
       else
         kbind (page_incref pp) (\<lambda>_.
         kbind (kget (kload entry)) (\<lambda>pte.
         kbind (if pte \<noteq> 0 \<and> PTE_P \<noteq> 0 then page_remove pgdir va else kreturn ()) (\<lambda>_.
         kbind (kmodify (kstore entry (page2pa pp OR perm OR PTE_P))) (\<lambda>_.
           kreturn 0)))))"

text \<open>
  \<open>boot_map_region\<close> in both builds: \<open>pse\<close> says whether \<open>TP1_PSE\<close> is defined. The loop
  counter is a \<open>size_t\<close>; \<open>2 ^ 20 + 1\<close> iterations are more than any loop that ends takes.
\<close>

fun boot_map_loop :: "nat \<Rightarrow> bool \<Rightarrow> u32 \<Rightarrow> u32 \<Rightarrow> u32 \<Rightarrow> u32 \<Rightarrow> u32 \<Rightarrow> u32 \<Rightarrow> unit kM" where
  "boot_map_loop fuel pse pgdir va sz pa perm i =
    (if \<not> i < sz then kreturn ()
     else if fuel = 0 then (\<lambda>s. OutOfFuel)
     else
      (let large = pse \<and> sz - i \<ge> PTSIZE \<and> PTX (pa + i) = 0 \<and> PTX (va + i) = 0;
           pperm = (perm OR PTE_P OR (if large then PTE_PS else 0));
           inc = (if large then PTSIZE else PGSIZE)
       in kbind (if large then kreturn (pgdir + 4 * PDX (va + i))
                 else pgdir_walk pgdir (va + i) True) (\<lambda>entry.
          kbind (if entry \<noteq> 0 then kmodify (kstore entry ((pa + i) OR pperm)) else kreturn ()) (\<lambda>_.
            boot_map_loop (fuel - 1) pse pgdir va sz pa perm (i + inc)))))"

declare boot_map_loop.simps [simp del]

definition boot_map_region :: "bool \<Rightarrow> u32 \<Rightarrow> u32 \<Rightarrow> u32 \<Rightarrow> u32 \<Rightarrow> u32 \<Rightarrow> unit kM" where
  "boot_map_region pse pgdir va sz pa perm = boot_map_loop 1048577 pse pgdir va sz pa perm 0"

definition mmio_map_region :: "bool \<Rightarrow> u32 \<Rightarrow> u32 \<Rightarrow> u32 kM" where
  "mmio_map_region pse pa sz =
    (let rounded_size = ROUNDUP sz PGSIZE in
     kbind (kget mmio_base) (\<lambda>base.
       if base + rounded_size > MMIOLIM then kpanic ''exceeding MMIOLIM''
       else
         kbind (kget kern_pgdir) (\<lambda>pgdir.
         kbind (boot_map_region pse pgdir base rounded_size pa (PTE_W OR PTE_PCD OR PTE_PWT)) (\<lambda>_.
         kbind (kmodify (\<lambda>s. s\<lparr>mmio_base := mmio_base s + rounded_size\<rparr>)) (\<lambda>_.
           kreturn base)))))"

text \<open>The translation the hardware performs, as the kernel's own checker writes it.\<close>

definition check_va2pa :: "u32 \<Rightarrow> u32 \<Rightarrow> u32 kM" where
  "check_va2pa pgdir va =
     kbind (kget (kload (pgdir + 4 * PDX va))) (\<lambda>pde.
       if pde AND PTE_P = 0 then kreturn (NOT 0)
       else if pde AND PTE_PS \<noteq> 0 then kreturn (PGADDR (PDX pde) (PTX va) (PGOFF va))
       else kbind (KADDR (PTE_ADDR pde)) (\<lambda>p.
            kbind (kget (kload (p + 4 * PTX va))) (\<lambda>pte.
              if pte AND PTE_P = 0 then kreturn (NOT 0) else kreturn (PTE_ADDR pte))))"

section \<open>Checking a user range\<close>

text \<open>
  The loop of \<open>user_mem_check\<close>. It stops at \<open>ULIM\<close> at the latest, so the addition of
  \<open>PGSIZE\<close> never wraps and the loop ends.
\<close>

lemma unat_add_PGSIZE:
  "address < ULIM \<Longrightarrow> unat (address + PGSIZE) = unat address + 4096"
  by (simp add: mmu_consts word_less_nat_alt unat_word_ariths)

function user_mem_check_loop :: "u32 \<Rightarrow> u32 \<Rightarrow> u32 \<Rightarrow> u32 \<Rightarrow> u32 \<Rightarrow> int kM" where
  "user_mem_check_loop pgdir va perm fin address s =
    (if address < fin then
       (if address \<ge> ULIM then
          Ret (- E_FAULT) (s\<lparr>user_mem_check_addr := (if address < va then va else address)\<rparr>)
        else (case pgdir_walk pgdir address False s of
            Ret pte s1 \<Rightarrow>
              (if pte = 0 \<or> (kload pte s1 AND (perm OR PTE_P)) \<noteq> (perm OR PTE_P) then
                 Ret (- E_FAULT) (s1\<lparr>user_mem_check_addr := (if address < va then va else address)\<rparr>)
               else user_mem_check_loop pgdir va perm fin (address + PGSIZE) s1)
          | NoRet k s1 \<Rightarrow> NoRet k s1
          | Panic msg \<Rightarrow> Panic msg
          | OutOfFuel \<Rightarrow> OutOfFuel))
     else Ret 0 s)"
  by pat_completeness auto
termination
  by (relation "measure (\<lambda>(pgdir, va, perm, fin, address, s). unat fin - unat address)")
    (auto simp: unat_add_PGSIZE word_less_nat_alt not_le)

declare user_mem_check_loop.simps [simp del]

definition user_mem_check :: "nat \<Rightarrow> u32 \<Rightarrow> u32 \<Rightarrow> u32 \<Rightarrow> int kM" where
  "user_mem_check env va len perm = (\<lambda>s.
     let start = ROUNDDOWN va PGSIZE;
         fin = ROUNDUP (va + len) PGSIZE
     in user_mem_check_loop (env_pgdir (envs s env)) va perm fin start s)"

section \<open>The allocator refines a stack of page numbers\<close>

definition page_pop :: "kstate \<Rightarrow> kstate" where
  "page_pop s = (case page_free_list s of None \<Rightarrow> s
     | Some p \<Rightarrow> s\<lparr>page_free_list := pp_link (pages s p),
                   pages := (pages s)(p := (pages s p)\<lparr>pp_link := None\<rparr>)\<rparr>)"

definition page_push :: "nat \<Rightarrow> kstate \<Rightarrow> kstate" where
  "page_push p s = s\<lparr>pages := (pages s)(p := (pages s p)\<lparr>pp_link := page_free_list s\<rparr>),
                     page_free_list := Some p\<rparr>"

interpretation pgfl: clearing_stack page_free_list "\<lambda>s p. pp_link (pages s p)" page_pop page_push
  by unfold_locales (auto simp: page_pop_def page_push_def)

definition page_zero :: "nat \<Rightarrow> kstate \<Rightarrow> kstate" where
  "page_zero p s = s\<lparr>pmem := memset (p * 4096) 0 4096 (pmem s)\<rparr>"

text \<open>
  The allocator's invariant for a free list \<open>fl\<close>. The kernel maps at most 256 MB of physical
  memory (\<open>PADDR\<close> in \<^verbatim>\<open>kern/pmap.h\<close>), that is 65536 pages.
\<close>

definition pages_inv :: "kstate \<Rightarrow> nat list \<Rightarrow> bool" where
  "pages_inv s fl \<longleftrightarrow> pgfl.unlinked s fl \<and> npages s \<le> 65536
     \<and> (\<forall>p \<in> set fl. p < npages s \<and> pp_ref (pages s p) = 0)"

lemma pages_invD:
  assumes "pages_inv s fl"
  shows "pgfl.represents s fl" "npages s \<le> 65536" "distinct fl"
    "p \<in> set fl \<Longrightarrow> p < npages s" "p \<in> set fl \<Longrightarrow> pp_ref (pages s p) = 0"
    "p \<notin> set fl \<Longrightarrow> pp_link (pages s p) = None"
  using assms by (auto simp: pages_inv_def pgfl.unlinked_def pgfl.represents_def)

lemma page_pop_frame [simp]:
  "npages (page_pop s) = npages s" "pmem (page_pop s) = pmem s" "kern_pgdir (page_pop s) = kern_pgdir s"
  "envs (page_pop s) = envs s" "cpus (page_pop s) = cpus s" "cpunum (page_pop s) = cpunum s"
  "pp_ref (pages (page_pop s) p) = pp_ref (pages s p)"
  by (auto simp: page_pop_def split: option.splits)

lemma page_push_frame [simp]:
  "npages (page_push q s) = npages s" "pmem (page_push q s) = pmem s"
  "kern_pgdir (page_push q s) = kern_pgdir s"
  "envs (page_push q s) = envs s" "cpus (page_push q s) = cpus s" "cpunum (page_push q s) = cpunum s"
  "pp_ref (pages (page_push q s) p) = pp_ref (pages s p)"
  by (auto simp: page_push_def)

lemma pages_inv_pop: "pages_inv s (p # fl) \<Longrightarrow> pages_inv (page_pop s) fl"
  by (auto simp: pages_inv_def pgfl.unlinked_pop)

lemma pages_inv_push:
  "pages_inv s fl \<Longrightarrow> p \<notin> set fl \<Longrightarrow> p < npages s \<Longrightarrow> pp_ref (pages s p) = 0 \<Longrightarrow>
     pages_inv (page_push p s) (p # fl)"
  by (auto simp: pages_inv_def pgfl.unlinked_push)

text \<open>States that agree on what the allocator reads.\<close>

lemma pages_inv_cong:
  assumes "pages_inv s fl" "page_free_list s' = page_free_list s" "npages s' = npages s"
    "\<And>p. pp_link (pages s' p) = pp_link (pages s p)"
    "\<And>p. p \<in> set fl \<Longrightarrow> pp_ref (pages s' p) = pp_ref (pages s p)"
  shows "pages_inv s' fl"
  using assms by (simp add: pages_inv_def pgfl.unlinked_def pgfl.represents_def)

lemma pages_inv_pmem [simp]: "pages_inv (s\<lparr>pmem := m\<rparr>) fl = pages_inv s fl"
  by (auto elim!: pages_inv_cong)

lemma kphys_page: "p < 65536 \<Longrightarrow> kphys (page2pa p + KERNBASE) = p * 4096"
  by (simp add: unat_page2pa)

lemma KADDR_page2pa: "p < npages s \<Longrightarrow> npages s \<le> 65536 \<Longrightarrow>
    KADDR (page2pa p) s = Ret (page2pa p + KERNBASE) s"
  by (simp add: KADDR_def PGNUM_page2pa)

lemma page_alloc_none: "page_free_list s = None \<Longrightarrow> page_alloc fl s = Ret None s"
  by (simp add: page_alloc_def)

lemma page_alloc_plain:
  "pages_inv s (p # fl) \<Longrightarrow> page_alloc 0 s = Ret (Some p) (page_pop s)"
  using pgfl.represents_head [OF pages_invD(1)]
  by (simp add: page_alloc_def page_pop_def Let_def)

lemma page_alloc_zeroed:
  assumes "pages_inv s (p # fl)"
  shows "page_alloc ALLOC_ZERO s = Ret (Some p) (page_zero p (page_pop s))"
proof -
  have h: "page_free_list s = Some p" using pgfl.represents_head [OF pages_invD(1) [OF assms]] .
  have p: "p < npages s" "npages s \<le> 65536" using assms by (auto simp: pages_inv_def)
  show ?thesis
    using p by (simp add: page_alloc_def page_pop_def h Let_def ALLOC_ZERO_def page2kva_def
        KADDR_page2pa kmemset_def page_zero_def unat_page2pa)
qed

lemma page_free_push:
  "pp_ref (pages s p) = 0 \<Longrightarrow> pp_link (pages s p) = None \<Longrightarrow> page_free p s = Ret () (page_push p s)"
  by (simp add: page_free_def page_push_def)

section \<open>Page tables as two-level arrays of words\<close>

text \<open>The kernel virtual address of frame \<open>f\<close>, its words, and the frame an entry names.\<close>

definition frame_kva :: "nat \<Rightarrow> u32" where
  "frame_kva f = page2pa f + KERNBASE"

definition fword :: "kstate \<Rightarrow> nat \<Rightarrow> nat \<Rightarrow> u32" where
  "fword s f i = load32 (pmem s) (f * 4096 + 4 * i)"

definition fset :: "nat \<Rightarrow> nat \<Rightarrow> u32 \<Rightarrow> kstate \<Rightarrow> kstate" where
  "fset f i w s = s\<lparr>pmem := store32 (f * 4096 + 4 * i) w (pmem s)\<rparr>"

definition fnum :: "u32 \<Rightarrow> nat" where
  "fnum e = unat (PGNUM e)"

lemma kphys_frame_word:
  assumes "f < 65536" "unat x < 1024"
  shows "kphys (frame_kva f + 4 * x) = f * 4096 + 4 * unat x"
proof -
  have d: "4096 dvd unat (page2pa f)" using assms by (simp add: unat_page2pa)
  show ?thesis
    using kphys_index [OF d assms(2)] assms by (simp add: frame_kva_def unat_page2pa)
qed

lemma kload_frame [simp]:
  "f < 65536 \<Longrightarrow> unat x < 1024 \<Longrightarrow> kload (frame_kva f + 4 * x) s = fword s f (unat x)"
  by (simp add: kload_def fword_def kphys_frame_word)

lemma kstore_frame [simp]:
  "f < 65536 \<Longrightarrow> unat x < 1024 \<Longrightarrow> kstore (frame_kva f + 4 * x) w s = fset f (unat x) w s"
  by (simp add: kstore_def fset_def kphys_frame_word)

lemma frames_apart:
  "f \<noteq> g \<or> i \<noteq> j \<Longrightarrow> i < 1024 \<Longrightarrow> j < 1024 \<Longrightarrow>
     f * 4096 + 4 * i + 4 \<le> g * 4096 + 4 * j \<or> g * 4096 + 4 * j + 4 \<le> f * 4096 + 4 * (i::nat)"
  by (cases "f = g"; cases "f < g") auto

lemma fword_fset:
  "i < 1024 \<Longrightarrow> j < 1024 \<Longrightarrow>
     fword (fset f i w s) g j = (if g = f \<and> j = i then w else fword s g j)"
  using frames_apart [of f g i j] by (auto simp: fword_def fset_def)

lemma fword_page_zero:
  "j < 1024 \<Longrightarrow> fword (page_zero p s) g j = (if g = p then 0 else fword s g j)"
  by (cases "g < p"; cases "p < g") (auto simp: fword_def page_zero_def)

lemma fset_frame [simp]:
  "npages (fset f i w s) = npages s" "pages (fset f i w s) = pages s"
  "page_free_list (fset f i w s) = page_free_list s"
  "pages_inv (fset f i w s) fl = pages_inv s fl"
  "envs (fset f i w s) = envs s" "curenv (fset f i w s) = curenv s"
  by (simp_all add: fset_def curenv_def)

lemma page_zero_frame [simp]:
  "npages (page_zero p s) = npages s" "pages (page_zero p s) = pages s"
  "page_free_list (page_zero p s) = page_free_list s"
  "pages_inv (page_zero p s) fl = pages_inv s fl"
  "envs (page_zero p s) = envs s" "curenv (page_zero p s) = curenv s"
  by (simp_all add: page_zero_def curenv_def)

lemma set_ref_frame [simp]:
  "npages (set_ref p r s) = npages s" "pmem (set_ref p r s) = pmem s"
  "page_free_list (set_ref p r s) = page_free_list s"
  "pp_link (pages (set_ref p r s) q) = pp_link (pages s q)"
  "pp_ref (pages (set_ref p r s) q) = (if q = p then r else pp_ref (pages s q))"
  "envs (set_ref p r s) = envs s" "curenv (set_ref p r s) = curenv s"
  "fword (set_ref p r s) f i = fword s f i"
  by (simp_all add: set_ref_def curenv_def fword_def)

lemma kern_pgdir_frame [simp]: "kern_pgdir (set_ref p r s) = kern_pgdir s"
  "kern_pgdir (page_zero p s) = kern_pgdir s" "kern_pgdir (fset f i w s) = kern_pgdir s"
  by (simp_all add: set_ref_def page_zero_def fset_def)

lemma fword_page_pop [simp]: "fword (page_pop s) f i = fword s f i"
  and fword_page_push [simp]: "fword (page_push p s) f i = fword s f i"
  by (simp_all add: fword_def)

lemma curenv_page_pop [simp]: "curenv (page_pop s) = curenv s"
  and curenv_page_push [simp]: "curenv (page_push p s) = curenv s"
  by (simp_all add: curenv_def)

lemma pages_inv_set_ref:
  "pages_inv s fl \<Longrightarrow> p \<notin> set fl \<Longrightarrow> pages_inv (set_ref p r s) fl"
  by (erule pages_inv_cong) auto

lemma fnum_lt [simp]: "fnum e < 1048576"
  by (simp add: fnum_def)

lemma PTE_ADDR_frame: "PTE_ADDR e = page2pa (fnum e)"
  using unat_page2pa [OF fnum_lt [of e]]
  by (simp add: word_unat_eq_iff fnum_def unat_PTE_ADDR unat_PGNUM)

lemma frame_kva_nonzero: "f < 65536 \<Longrightarrow> unat x < 1024 \<Longrightarrow> frame_kva f + 4 * x \<noteq> 0"
proof
  assume a: "f < 65536" "unat x < 1024" "frame_kva f + 4 * x = 0"
  then have "kphys (frame_kva f + 4 * x) = unat (0 - KERNBASE)"
    by (simp add: kphys_def)
  also have "\<dots> = 268435456" by (simp add: KERNBASE_def)
  finally show False using a kphys_frame_word [OF a(1,2)] by simp
qed

section \<open>Entries\<close>

lemma low12: "perm < 4096 \<Longrightarrow> take_bit 12 perm = (perm::u32)"
  by (rule take_bit_same) (simp add: word_less_nat_alt)

lemma drop_low12: "perm < 4096 \<Longrightarrow> drop_bit 12 (perm::u32) = 0"
  by (simp add: word_unat_eq_iff unat_drop_bit_word word_less_nat_alt)

lemma fnum_entry:
  assumes "p < 1048576" "perm < 4096"
  shows "fnum (page2pa p OR perm) = p"
proof -
  have "drop_bit 12 (push_bit 12 (of_nat p :: u32)) = of_nat p"
    using assms(1) by (simp add: word_unat_eq_iff unat_drop_bit_word unat_push_bit12)
  with assms show ?thesis
    by (simp add: fnum_def PGNUM_def PTXSHIFT_def page2pa_def PGSHIFT_def drop_low12)
qed

lemma entry_flags:
  assumes "perm < 4096"
  shows "(page2pa p OR perm) AND 0xFFF = perm"
proof -
  have "(push_bit 12 (of_nat p :: u32) OR take_bit 12 perm) AND mask 12 = take_bit 12 perm"
    by (rule bit_word_eqI) (auto simp: bit_simps)
  with low12 [OF assms] show ?thesis by (simp add: mask12_32 page2pa_def PGSHIFT_def)
qed

lemma lt_4096_iff: "(w::u32) < 4096 \<longleftrightarrow> take_bit 12 w = w"
proof
  assume "take_bit 12 w = w"
  then have "unat w = unat w mod 4096" using unat_take_bit_word [of 12 w] by simp
  then have "unat w < 4096" using mod_less_divisor [of 4096 "unat w"] by simp
  then show "w < 4096" by (simp add: word_less_nat_alt)
qed (rule low12)

lemma or_lt_4096: "a < 4096 \<Longrightarrow> b < 4096 \<Longrightarrow> (a OR b :: u32) < 4096"
  by (simp add: lt_4096_iff)

lemma entry_nonzero: "(w OR PTE_P) \<noteq> 0"
proof
  assume "w OR PTE_P = 0"
  then have "bit (w OR PTE_P) 0 = bit (0::u32) 0" by simp
  then show False by (simp add: bit_simps PTE_P_def)
qed

section \<open>Walking a page directory\<close>

text \<open>
  A well-formed page directory in frame \<open>d\<close>: it is not free, and the page tables its
  entries name (the recursive entry at \<open>UVPT\<close> apart) are allocated frames, different from
  the directory and from each other.
\<close>

definition uvpt_index :: nat where
  "uvpt_index = 957"

lemma uvpt_index_PDX: "uvpt_index = unat (PDX UVPT)"
  by (simp add: uvpt_index_def unat_PDX mmu_consts)

definition table_of :: "kstate \<Rightarrow> nat \<Rightarrow> nat \<Rightarrow> nat option" where
  "table_of s d i = (if i < 1024 \<and> i \<noteq> uvpt_index \<and> fword s d i \<noteq> 0
     then Some (fnum (fword s d i)) else None)"

definition pgdir_ok :: "kstate \<Rightarrow> nat list \<Rightarrow> nat \<Rightarrow> bool" where
  "pgdir_ok s fl d \<longleftrightarrow> d < npages s \<and> d \<notin> set fl
     \<and> (\<forall>i t. table_of s d i = Some t \<longrightarrow> t < npages s \<and> t \<notin> set fl \<and> t \<noteq> d)
     \<and> (\<forall>i j t. table_of s d i = Some t \<longrightarrow> table_of s d j = Some t \<longrightarrow> i = j)"

definition pteval :: "kstate \<Rightarrow> nat \<Rightarrow> nat \<Rightarrow> nat \<Rightarrow> u32" where
  "pteval s d i j = (case table_of s d i of None \<Rightarrow> 0 | Some t \<Rightarrow> fword s t j)"

abbreviation pte_of :: "kstate \<Rightarrow> nat \<Rightarrow> u32 \<Rightarrow> u32" where
  "pte_of s d va \<equiv> pteval s d (unat (PDX va)) (unat (PTX va))"

lemma pgdir_okD:
  assumes "pgdir_ok s fl d"
  shows "d < npages s" "d \<notin> set fl"
    "table_of s d i = Some t \<Longrightarrow> t < npages s"
    "table_of s d i = Some t \<Longrightarrow> t \<notin> set fl"
    "table_of s d i = Some t \<Longrightarrow> t \<noteq> d"
    "table_of s d i = Some t \<Longrightarrow> table_of s d j = Some t \<Longrightarrow> i = j"
  using assms by (auto simp: pgdir_ok_def)

lemma table_of_Some:
  "table_of s d i = Some t \<longleftrightarrow>
     i < 1024 \<and> i \<noteq> uvpt_index \<and> fword s d i \<noteq> 0 \<and> t = fnum (fword s d i)"
  by (auto simp: table_of_def)

definition walkable :: "u32 \<Rightarrow> bool" where
  "walkable va \<longleftrightarrow> unat (PDX va) \<noteq> uvpt_index"

lemma user_walkable: "va < UTOP \<Longrightarrow> walkable va"
proof -
  assume "va < UTOP"
  then have "unat va < 4005560320" by (simp add: mmu_consts word_less_nat_alt)
  then have "unat va div 4194304 < 955" by (simp add: less_mult_imp_div_less)
  then show ?thesis by (simp add: walkable_def unat_PDX uvpt_index_def)
qed

lemma KADDR_frame:
  "fnum e < npages s \<Longrightarrow> KADDR (PTE_ADDR e) s = Ret (frame_kva (fnum e)) s"
  using fnum_lt [of e]
  by (simp add: KADDR_def frame_kva_def flip: fnum_def) (simp add: PTE_ADDR_frame)

lemma pgdir_walk_present:
  assumes ok: "pgdir_ok s fl d" and np: "npages s \<le> 65536" and w: "walkable va"
    and t: "table_of s d (unat (PDX va)) = Some t"
  shows "pgdir_walk (frame_kva d) va create s = Ret (frame_kva t + 4 * PTX va) s"
proof -
  have d: "d < 65536" using pgdir_okD(1) [OF ok] np by simp
  from t have e: "fword s d (unat (PDX va)) \<noteq> 0" "t = fnum (fword s d (unat (PDX va)))"
    by (auto simp: table_of_Some)
  have "t < npages s" using pgdir_okD(3) [OF ok t] .
  with d e show ?thesis
    by (simp add: pgdir_walk_def Let_def KADDR_frame)
qed

lemma pgdir_walk_absent:
  assumes ok: "pgdir_ok s fl d" and np: "npages s \<le> 65536" and w: "walkable va"
    and t: "table_of s d (unat (PDX va)) = None"
  shows "pgdir_walk (frame_kva d) va False s = Ret 0 s"
proof -
  have d: "d < 65536" using pgdir_okD(1) [OF ok] np by simp
  from t w have e: "fword s d (unat (PDX va)) = 0"
    by (auto simp: table_of_def walkable_def split: if_splits)
  with d show ?thesis by (simp add: pgdir_walk_def Let_def)
qed

lemma pgdir_walk_no_memory:
  assumes ok: "pgdir_ok s [] d" and np: "pages_inv s []" and w: "walkable va"
    and t: "table_of s d (unat (PDX va)) = None"
  shows "pgdir_walk (frame_kva d) va True s = Ret 0 s"
proof -
  have d: "d < 65536" using pgdir_okD(1) [OF ok] pages_invD(2) [OF np] by simp
  from t w have e: "fword s d (unat (PDX va)) = 0"
    by (auto simp: table_of_def walkable_def split: if_splits)
  have "page_free_list s = None"
    using pages_invD(1) [OF np] by (simp add: pgfl.represents_empty)
  with d e show ?thesis by (simp add: pgdir_walk_def Let_def page_alloc_none kbind_assoc)
qed

text \<open>The state after \<open>pgdir_walk\<close> has taken page \<open>p\<close> as a new table.\<close>

definition install_table :: "nat \<Rightarrow> nat \<Rightarrow> nat \<Rightarrow> kstate \<Rightarrow> kstate" where
  "install_table d i p s = fset d i (page2pa p OR PTE_P OR PTE_W OR PTE_U)
     (set_ref p 1 (page_zero p (page_pop s)))"

lemma table_flags: "(PTE_P OR PTE_W OR PTE_U :: u32) = 7"
  by (simp add: mmu_consts)

lemma fnum_table_entry: "p < 1048576 \<Longrightarrow> fnum (page2pa p OR PTE_P OR PTE_W OR PTE_U) = p"
  by (simp add: table_flags fnum_entry)

lemma table_entry_nonzero: "(page2pa p OR PTE_P OR PTE_W OR PTE_U) \<noteq> 0"
  using entry_nonzero [of "page2pa p OR PTE_W OR PTE_U"] by (simp add: ac_simps)

lemma install_table_fword:
  assumes "i < 1024" "j < 1024"
  shows "fword (install_table d i p s) f j =
    (if f = d \<and> j = i then page2pa p OR PTE_P OR PTE_W OR PTE_U
     else if f = p then 0 else fword s f j)"
  using assms by (simp add: install_table_def fword_fset fword_page_zero)

lemma pgdir_walk_create:
  assumes ok: "pgdir_ok s (p # fl) d" and inv: "pages_inv s (p # fl)" and w: "walkable va"
    and t: "table_of s d (unat (PDX va)) = None"
  shows "pgdir_walk (frame_kva d) va True s =
    Ret (frame_kva p + 4 * PTX va) (install_table d (unat (PDX va)) p s)"
proof -
  have np: "npages s \<le> 65536" and p: "p < npages s" "pp_ref (pages s p) = 0"
    using pages_invD [OF inv] by auto
  have d: "d < npages s" "d \<noteq> p" using pgdir_okD [OF ok] by auto
  from t w have e: "fword s d (unat (PDX va)) = 0"
    by (auto simp: table_of_def walkable_def split: if_splits)
  have e': "fword (install_table d (unat (PDX va)) p s) d (unat (PDX va))
      = page2pa p OR PTE_P OR PTE_W OR PTE_U"
    by (simp add: install_table_fword)
  have [simp]: "npages (install_table d (unat (PDX va)) p s) = npages s"
    by (simp add: install_table_def)
  have "kstore (frame_kva d + 4 * PDX va) (page2pa p OR PTE_P OR PTE_W OR PTE_U)
      (set_ref p (pp_ref (pages s p) + 1) (page_zero p (page_pop s)))
      = install_table d (unat (PDX va)) p s"
    using d np p by (simp add: install_table_def)
  then show ?thesis
    using d np p e e'
    by (simp add: pgdir_walk_def Let_def page_alloc_zeroed [OF inv] page_incref_def kbind_assoc
        KADDR_frame fnum_table_entry table_entry_nonzero)
qed

lemma install_table_inv:
  "pages_inv s (p # fl) \<Longrightarrow> pages_inv (install_table d i p s) fl"
  unfolding install_table_def
  by (simp, rule pages_inv_set_ref) (auto simp: pages_inv_pop dest: pages_invD(3))

lemma install_table_tables:
  assumes ok: "pgdir_ok s (p # fl) d" and inv: "pages_inv s (p # fl)"
    and i: "i < 1024" "i \<noteq> uvpt_index" and j: "j < 1024"
  shows "table_of (install_table d i p s) d j = (if j = i then Some p else table_of s d j)"
proof -
  have "d \<noteq> p" "p < 65536" using pgdir_okD(2) [OF ok] pages_invD(2) [OF inv] pages_invD(4) [OF inv, of p] by auto
  with i j show ?thesis
    by (auto simp: table_of_def install_table_fword fnum_table_entry table_entry_nonzero)
qed

lemma install_table_ok:
  assumes ok: "pgdir_ok s (p # fl) d" and inv: "pages_inv s (p # fl)"
    and i: "i < 1024" "i \<noteq> uvpt_index" and t: "table_of s d i = None"
  shows "pgdir_ok (install_table d i p s) fl d"
proof -
  have p: "p < npages s" "p \<notin> set fl" "d \<noteq> p"
    using pgdir_okD(2) [OF ok] pages_invD(3) [OF inv] pages_invD(4) [OF inv, of p] by auto
  have n: "table_of s d j \<noteq> Some p" for j
    using pgdir_okD(4) [OF ok, of j p] by auto
  have lt: "table_of s' d j = Some q \<Longrightarrow> j < 1024" for s' j q by (simp add: table_of_Some)
  have [simp]: "npages (install_table d i p s) = npages s" by (simp add: install_table_def)
  have T: "table_of (install_table d i p s) d j = (if j = i then Some p else table_of s d j)" for j
  proof (cases "j < 1024")
    case True
    then show ?thesis by (rule install_table_tables [OF ok inv i])
  next
    case False
    with i show ?thesis by (simp add: table_of_def)
  qed
  show ?thesis
    unfolding pgdir_ok_def T using p n pgdir_okD [OF ok] by (auto split: if_splits)
qed

lemma install_table_pteval:
  assumes ok: "pgdir_ok s (p # fl) d" and inv: "pages_inv s (p # fl)"
    and i: "i < 1024" "i \<noteq> uvpt_index" and t: "table_of s d i = None" and jk: "j < 1024" "k < 1024"
  shows "pteval (install_table d i p s) d j k = pteval s d j k"
proof -
  have "d \<noteq> p" using pgdir_okD(2) [OF ok] by auto
  then show ?thesis
    using i t jk pgdir_okD(4,5) [OF ok, of j]
    by (auto simp: pteval_def install_table_tables [OF ok inv i] install_table_fword split: option.splits)
qed

end
