(* ===== verification/Jos_Paging.thy ===== *)
theory Jos_Paging
  imports Jos_Pmap
begin

text \<open>
  The functions of \<^verbatim>\<open>tps/kern/pmap.c\<close> that look up, remove and insert a mapping, run on a
  well-formed page directory: what each returns, the state it leaves, and what that state
  keeps of the allocator's and the directory's invariants.
\<close>

section \<open>Looking up, removing and inserting a mapping\<close>

lemma page_lookup_present:
  assumes "pgdir_ok s fl d" "npages s \<le> 65536" "walkable va"
    and t: "table_of s d (unat (PDX va)) = Some t" and q: "fnum (pte_of s d va) < npages s"
  shows "page_lookup (frame_kva d) va s =
    Ret (Some (fnum (pte_of s d va), frame_kva t + 4 * PTX va)) s"
proof -
  have "t < 65536" using pgdir_okD(3) [OF assms(1) t] assms(2) by simp
  with q t show ?thesis
    by (simp add: page_lookup_def pgdir_walk_present [OF assms(1-3) t] frame_kva_nonzero pa2page_def
        pteval_def fnum_def)
qed

lemma page_lookup_absent:
  assumes "pgdir_ok s fl d" "npages s \<le> 65536" "walkable va" "table_of s d (unat (PDX va)) = None"
  shows "page_lookup (frame_kva d) va s = Ret None s"
  by (simp add: page_lookup_def pgdir_walk_absent [OF assms])

definition drop_ref :: "nat \<Rightarrow> kstate \<Rightarrow> kstate" where
  "drop_ref q s = (if pp_ref (pages s q) = 1 then page_push q (set_ref q 0 s)
     else set_ref q (pp_ref (pages s q) - 1) s)"

lemma page_decref_run:
  "pp_link (pages s q) = None \<Longrightarrow> page_decref q s = Ret () (drop_ref q s)"
  by (simp add: page_decref_def drop_ref_def page_free_push)

definition tlb_flush :: "u32 \<Rightarrow> u32 \<Rightarrow> kstate \<Rightarrow> kstate" where
  "tlb_flush pgdir va s =
     (if (case curenv s of None \<Rightarrow> True | Some e \<Rightarrow> env_pgdir (envs s e) = pgdir)
      then s\<lparr>invlpgs := va # invlpgs s\<rparr> else s)"

lemma tlb_invalidate_run [simp]: "tlb_invalidate pgdir va s = Ret () (tlb_flush pgdir va s)"
  by (simp add: tlb_invalidate_def tlb_flush_def)

lemma tlb_flush_frame [simp]:
  "npages (tlb_flush pd va s) = npages s" "pages (tlb_flush pd va s) = pages s"
  "page_free_list (tlb_flush pd va s) = page_free_list s" "pmem (tlb_flush pd va s) = pmem s"
  "fword (tlb_flush pd va s) f i = fword s f i" "envs (tlb_flush pd va s) = envs s"
  "curenv (tlb_flush pd va s) = curenv s"
  by (simp_all add: tlb_flush_def fword_def curenv_def)

lemma pages_inv_tlb_flush [simp]: "pages_inv (tlb_flush pd va s) fl = pages_inv s fl"
  by (auto elim!: pages_inv_cong)

lemma drop_ref_frame [simp]:
  "npages (drop_ref q s) = npages s" "fword (drop_ref q s) f i = fword s f i"
  "pmem (drop_ref q s) = pmem s"
  "envs (drop_ref q s) = envs s" "curenv (drop_ref q s) = curenv s"
  "pp_ref (pages (drop_ref q s) p) = (if p = q then pp_ref (pages s q) - 1 else pp_ref (pages s p))"
  by (simp_all add: drop_ref_def)

definition drop_list :: "nat \<Rightarrow> kstate \<Rightarrow> nat list \<Rightarrow> nat list" where
  "drop_list q s fl = (if pp_ref (pages s q) = 1 then q # fl else fl)"

lemma drop_ref_inv:
  assumes "pages_inv s fl" "q < npages s" "q \<notin> set fl"
  shows "pages_inv (drop_ref q s) (drop_list q s fl)"
  using assms
  by (auto simp: drop_ref_def drop_list_def intro!: pages_inv_push pages_inv_set_ref)

text \<open>The page directory does not read the page structures.\<close>

lemma table_of_cong: "(\<And>j. j < 1024 \<Longrightarrow> fword s' d j = fword s d j) \<Longrightarrow> table_of s' d i = table_of s d i"
  by (auto simp: table_of_def)

lemma pgdir_ok_cong:
  assumes "pgdir_ok s fl d" "npages s' = npages s"
    "\<And>j. j < 1024 \<Longrightarrow> fword s' d j = fword s d j"
    "\<And>p. p \<in> set fl' \<Longrightarrow> p \<in> set fl \<or> p \<noteq> d \<and> (\<forall>i. table_of s d i \<noteq> Some p)"
  shows "pgdir_ok s' fl' d"
proof -
  have T: "table_of s' d i = table_of s d i" for i by (rule table_of_cong) (rule assms(3))
  show ?thesis using assms(1,4) unfolding pgdir_ok_def T assms(2) by blast
qed

lemma table_of_fset_table:
  assumes "pgdir_ok s fl d" "table_of s d i = Some t" "j < 1024"
  shows "table_of (fset t j w s') d k = table_of s' d k"
  using pgdir_okD(5) [OF assms(1,2)] assms(3) by (intro table_of_cong) (auto simp: fword_fset)

lemma pteval_fset_table:
  assumes ok: "pgdir_ok s fl d" and t: "table_of s d i = Some t" and j: "j < 1024"
    and i': "j' < 1024" and same: "\<And>k. k < 1024 \<Longrightarrow> fword s' d k = fword s d k"
  shows "pteval (fset t j w s') d i' j' =
    (if i' = i \<and> j' = j then w else pteval s' d i' j')"
proof -
  have T': "table_of s' d k = table_of s d k" for k by (rule table_of_cong) (rule same)
  have T: "table_of (fset t j w s') d k = table_of s d k" for k
    using table_of_fset_table [OF ok t j, of w s' k] T' by simp
  show ?thesis
  proof (cases "table_of s d i'")
    case None
    with t show ?thesis by (auto simp: pteval_def T T')
  next
    case (Some t')
    have "t' = t \<longleftrightarrow> i' = i"
      using pgdir_okD(6) [OF ok t, of i'] Some t by auto
    then show ?thesis
      using i' j by (simp add: pteval_def T T' Some fword_fset)
  qed
qed

text \<open>A page mapped at \<open>va\<close> is in use and no part of the page tables.\<close>

definition mapping_ok :: "kstate \<Rightarrow> nat list \<Rightarrow> nat \<Rightarrow> u32 \<Rightarrow> bool" where
  "mapping_ok s fl d va \<longleftrightarrow>
     (let q = fnum (pte_of s d va)
      in q < npages s \<and> q \<notin> set fl \<and> q \<noteq> d \<and> (\<forall>i. table_of s d i \<noteq> Some q))"

definition removed :: "nat \<Rightarrow> nat \<Rightarrow> u32 \<Rightarrow> kstate \<Rightarrow> kstate" where
  "removed d t va s = tlb_flush (frame_kva d) va
     (fset t (unat (PTX va)) 0 (drop_ref (fnum (pte_of s d va)) s))"

lemma page_remove_run:
  assumes inv: "pages_inv s fl" and ok: "pgdir_ok s fl d" and w: "walkable va"
    and t: "table_of s d (unat (PDX va)) = Some t" and m: "mapping_ok s fl d va"
  shows "page_remove (frame_kva d) va s = Ret () (removed d t va s)"
proof -
  have np: "npages s \<le> 65536" using pages_invD(2) [OF inv] .
  have q: "fnum (pte_of s d va) < npages s" "fnum (pte_of s d va) \<notin> set fl"
    using m by (auto simp: mapping_ok_def Let_def)
  have t': "t < 65536" using pgdir_okD(3) [OF ok t] np by simp
  show ?thesis
    using q t' pages_invD(6) [OF inv, of "fnum (pte_of s d va)"]
    by (simp add: page_remove_def page_lookup_present [OF ok np w t] page_decref_run removed_def)
qed

lemma removed_props:
  assumes inv: "pages_inv s fl" and ok: "pgdir_ok s fl d" and w: "walkable va"
    and t: "table_of s d (unat (PDX va)) = Some t" and m: "mapping_ok s fl d va"
  defines "q \<equiv> fnum (pte_of s d va)"
  shows "pages_inv (removed d t va s) (drop_list q s fl)"
    and "pgdir_ok (removed d t va s) (drop_list q s fl) d"
    and "table_of (removed d t va s) d i = table_of s d i"
    and "j < 1024 \<Longrightarrow> pteval (removed d t va s) d i j =
       (if i = unat (PDX va) \<and> j = unat (PTX va) then 0 else pteval s d i j)"
    and "pp_ref (pages (removed d t va s) p) =
       (if p = q then pp_ref (pages s q) - 1 else pp_ref (pages s p))"
proof -
  have q: "q < npages s" "q \<notin> set fl" "q \<noteq> d" "\<And>i. table_of s d i \<noteq> Some q"
    using m by (auto simp: mapping_ok_def Let_def q_def)
  have td: "t \<noteq> d" using pgdir_okD(5) [OF ok t] .
  show "pages_inv (removed d t va s) (drop_list q s fl)"
    using drop_ref_inv [OF inv q(1,2)] by (simp add: removed_def q_def)
  have D: "j < 1024 \<Longrightarrow> fword (removed d t va s) d j = fword s d j" for j
    using td by (simp add: removed_def fword_fset)
  show "pgdir_ok (removed d t va s) (drop_list q s fl) d"
    by (rule pgdir_ok_cong [OF ok])
      (use q td in \<open>auto simp: drop_list_def removed_def fword_fset split: if_splits\<close>)
  show "table_of (removed d t va s) d i = table_of s d i"
    by (rule table_of_cong) (rule D)
  show "j < 1024 \<Longrightarrow> pteval (removed d t va s) d i j =
       (if i = unat (PDX va) \<and> j = unat (PTX va) then 0 else pteval s d i j)"
  proof -
    assume j: "j < 1024"
    let ?s1 = "drop_ref q s"
    have "pteval (removed d t va s) d i j = pteval (fset t (unat (PTX va)) 0 ?s1) d i j"
      by (simp add: removed_def pteval_def table_of_def q_def)
    also have "\<dots> = (if i = unat (PDX va) \<and> j = unat (PTX va) then 0 else pteval ?s1 d i j)"
      by (rule pteval_fset_table [OF ok t]) (simp_all add: j)
    finally show ?thesis by (simp add: pteval_def table_of_def)
  qed
  show "pp_ref (pages (removed d t va s) p) =
       (if p = q then pp_ref (pages s q) - 1 else pp_ref (pages s p))"
    by (simp add: removed_def q_def)
qed

definition inserted :: "nat \<Rightarrow> nat \<Rightarrow> nat \<Rightarrow> u32 \<Rightarrow> u32 \<Rightarrow> kstate \<Rightarrow> kstate" where
  "inserted d t pp va perm s =
    (let s2 = set_ref pp (pp_ref (pages s pp) + 1) s;
         s3 = (if pte_of s d va \<noteq> 0 then removed d t va s2 else s2)
     in fset t (unat (PTX va)) (page2pa pp OR perm OR PTE_P) s3)"

definition insert_list :: "nat \<Rightarrow> nat \<Rightarrow> u32 \<Rightarrow> kstate \<Rightarrow> nat list \<Rightarrow> nat list" where
  "insert_list d pp va s fl =
    (if pte_of s d va \<noteq> 0
     then drop_list (fnum (pte_of s d va)) (set_ref pp (pp_ref (pages s pp) + 1) s) fl else fl)"

lemma pteval_set_ref [simp]: "pteval (set_ref p r s) d i j = pteval s d i j"
  and table_of_set_ref [simp]: "table_of (set_ref p r s) d i = table_of s d i"
  by (simp_all add: pteval_def table_of_def)

lemma pgdir_ok_set_ref [simp]: "pgdir_ok (set_ref p r s) fl d = pgdir_ok s fl d"
  by (simp add: pgdir_ok_def)

lemma mapping_ok_set_ref [simp]: "mapping_ok (set_ref p r s) fl d va = mapping_ok s fl d va"
  by (simp add: mapping_ok_def)

lemma page_insert_run:
  assumes inv: "pages_inv s fl" and ok: "pgdir_ok s fl d" and w: "walkable va"
    and t: "table_of s d (unat (PDX va)) = Some t"
    and pp: "pp \<notin> set fl"
    and m: "pte_of s d va \<noteq> 0 \<Longrightarrow> mapping_ok s fl d va"
    and walk: "pgdir_walk (frame_kva d) va True s0 = Ret (frame_kva t + 4 * PTX va) s"
  shows "page_insert (frame_kva d) pp va perm s0 = Ret 0 (inserted d t pp va perm s)"
proof -
  let ?s2 = "set_ref pp (pp_ref (pages s pp) + 1) s"
  have np: "npages s \<le> 65536" using pages_invD(2) [OF inv] .
  have t': "t < 65536" using pgdir_okD(3) [OF ok t] np by simp
  have e: "fword s t (unat (PTX va)) = pte_of s d va" using t by (simp add: pteval_def)
  have inv2: "pages_inv ?s2 fl" by (rule pages_inv_set_ref [OF inv pp])
  have rm: "pte_of s d va \<noteq> 0 \<Longrightarrow> page_remove (frame_kva d) va ?s2 = Ret () (removed d t va ?s2)"
    by (rule page_remove_run [OF inv2 _ w]) (simp_all add: ok t m)
  show ?thesis
    using t' rm
    by (simp add: page_insert_def walk frame_kva_nonzero page_incref_def e inserted_def Let_def PTE_P_def)
qed

lemma inserted_props:
  assumes inv: "pages_inv s fl" and ok: "pgdir_ok s fl d" and w: "walkable va"
    and t: "table_of s d (unat (PDX va)) = Some t"
    and pp: "pp \<notin> set fl"
    and m: "pte_of s d va \<noteq> 0 \<Longrightarrow> mapping_ok s fl d va"
  shows "pages_inv (inserted d t pp va perm s) (insert_list d pp va s fl)"
    and "pgdir_ok (inserted d t pp va perm s) (insert_list d pp va s fl) d"
    and "j < 1024 \<Longrightarrow> pteval (inserted d t pp va perm s) d i j =
       (if i = unat (PDX va) \<and> j = unat (PTX va) then page2pa pp OR perm OR PTE_P
        else pteval s d i j)"
    and "pp_ref (pages (inserted d t pp va perm s) p) =
       pp_ref (pages s p) + (if p = pp then 1 else 0)
         - (if pte_of s d va \<noteq> 0 \<and> p = fnum (pte_of s d va) then 1 else 0)"
proof -
  let ?s2 = "set_ref pp (pp_ref (pages s pp) + 1) s"
  let ?s3 = "if pte_of s d va \<noteq> 0 then removed d t va ?s2 else ?s2"
  let ?fl = "insert_list d pp va s fl"
  have inv2: "pages_inv ?s2 fl" by (rule pages_inv_set_ref [OF inv pp])
  have ok2: "pgdir_ok ?s2 fl d" and t2: "table_of ?s2 d (unat (PDX va)) = Some t"
    using ok t by simp_all
  have m2: "pte_of s d va \<noteq> 0 \<Longrightarrow> mapping_ok ?s2 fl d va" using m by simp
  note R = removed_props [OF inv2 ok2 w t2 m2, simplified]
  have inv3: "pages_inv ?s3 ?fl" using R(1) inv2 by (simp add: insert_list_def)
  have ok3: "pgdir_ok ?s3 ?fl d" using R(2) ok by (simp add: insert_list_def)
  have t3: "table_of ?s3 d i = table_of s d i" for i using R(3) by simp
  have p3: "j < 1024 \<Longrightarrow> pteval ?s3 d i j =
      (if i = unat (PDX va) \<and> j = unat (PTX va) then 0 else pteval s d i j)" for i j
    using R(4) [of j i] by auto
  have eq: "inserted d t pp va perm s = fset t (unat (PTX va)) (page2pa pp OR perm OR PTE_P) ?s3"
    by (simp add: inserted_def Let_def)
  have t3': "table_of ?s3 d (unat (PDX va)) = Some t" using t3 t by simp
  show "pages_inv (inserted d t pp va perm s) ?fl"
    unfolding eq using inv3 by simp
  show "pgdir_ok (inserted d t pp va perm s) ?fl d"
    unfolding eq using pgdir_okD(5) [OF ok t]
    by (intro pgdir_ok_cong [OF ok3]) (auto simp: fword_fset)
  show "j < 1024 \<Longrightarrow> pteval (inserted d t pp va perm s) d i j =
       (if i = unat (PDX va) \<and> j = unat (PTX va) then page2pa pp OR perm OR PTE_P
        else pteval s d i j)"
    unfolding eq using pteval_fset_table [OF ok3 t3', of "unat (PTX va)" j ?s3] p3 by simp
  show "pp_ref (pages (inserted d t pp va perm s) p) =
       pp_ref (pages s p) + (if p = pp then 1 else 0)
         - (if pte_of s d va \<noteq> 0 \<and> p = fnum (pte_of s d va) then 1 else 0)"
    unfolding eq using R(5) by auto
qed

section \<open>Properties of the page-table operations\<close>

lemma PGNUM_differs:
  "PGNUM va' \<noteq> PGNUM va \<Longrightarrow>
     \<not> (unat (PDX va') = unat (PDX va) \<and> unat (PTX va') = unat (PTX va))"
  by (simp add: PGNUM_eq_iff flip: word_unat_eq_iff)

lemma page_insert_run_maps:
  assumes "pages_inv s fl" "pgdir_ok s fl d" "walkable va"
    and "pp < npages s" "pp \<notin> set fl"
    and "pte_of s d va \<noteq> 0 \<longrightarrow> mapping_ok s fl d va"
    and "table_of s d (unat (PDX va)) \<noteq> None \<or> fl \<noteq> []"
  shows "\<exists>s' fl'. page_insert (frame_kva d) pp va perm s = Ret 0 s'
     \<and> pages_inv s' fl' \<and> pgdir_ok s' fl' d
     \<and> pte_of s' d va = page2pa pp OR perm OR PTE_P
     \<and> (\<forall>va'. PGNUM va' \<noteq> PGNUM va \<longrightarrow> pte_of s' d va' = pte_of s d va')"
proof (cases "table_of s d (unat (PDX va))")
  case (Some t)
  have np: "npages s \<le> 65536" using pages_invD(2) [OF assms(1)] .
  have m: "pte_of s d va \<noteq> 0 \<Longrightarrow> mapping_ok s fl d va" using assms(6) by simp
  show ?thesis
    using page_insert_run [OF assms(1-3) Some assms(5) m pgdir_walk_present [OF assms(2) np assms(3) Some]]
      inserted_props [OF assms(1-3) Some assms(5) m]
    by (metis PGNUM_differs PTX_lt)
next
  case None
  with assms(7) obtain p fl1 where fl: "fl = p # fl1" by (cases fl) auto
  let ?i = "unat (PDX va)"
  let ?s1 = "install_table d ?i p s"
  have i: "?i < 1024" "?i \<noteq> uvpt_index" using assms(3) by (simp_all add: walkable_def)
  note I = assms(1,2) [unfolded fl]
  have inv1: "pages_inv ?s1 fl1" by (rule install_table_inv [OF I(1)])
  have ok1: "pgdir_ok ?s1 fl1 d" by (rule install_table_ok [OF I(2,1) i None])
  have t1: "table_of ?s1 d ?i = Some p" by (simp add: install_table_tables [OF I(2,1) i])
  have e: "j < 1024 \<Longrightarrow> k < 1024 \<Longrightarrow> pteval ?s1 d j k = pteval s d j k" for j k
    by (rule install_table_pteval [OF I(2,1) i None])
  have z: "pte_of s d va = 0" using None by (simp add: pteval_def)
  have m1: "pte_of ?s1 d va \<noteq> 0 \<Longrightarrow> mapping_ok ?s1 fl1 d va" by (simp add: e z)
  have pp1: "pp \<notin> set fl1" using assms(5) fl by simp
  have r: "page_insert (frame_kva d) pp va perm s = Ret 0 (inserted d p pp va perm ?s1)"
    by (rule page_insert_run [OF inv1 ok1 assms(3) t1 pp1 m1 pgdir_walk_create [OF I(2,1) assms(3) None]])
  show ?thesis
    using r inserted_props [OF inv1 ok1 assms(3) t1 pp1 m1] e
    by (metis PGNUM_differs PTX_lt PDX_lt)
qed

section \<open>Properties of the page allocator\<close>

text \<open>
  A small machine for the concrete instances: sixteen pages, the page directory in frame 4
  with a page table in frame 2, which maps page 3 at address 0; pages 5 and 6 are free.
\<close>

definition small_machine :: kstate where
  "small_machine = fset 2 0 (page2pa 3 OR 7) (fset 4 0 (page2pa 2 OR 7)
     (bss_kstate\<lparr>npages := 16, page_free_list := Some 5,
       pages := (\<lambda>_. zero_page)(5 := \<lparr>pp_link = Some 6, pp_ref = 0\<rparr>,
         2 := \<lparr>pp_link = None, pp_ref = 1\<rparr>, 3 := \<lparr>pp_link = None, pp_ref = 1\<rparr>)\<rparr>))"

lemma fword_bss [simp]: "fword (bss_kstate\<lparr>npages := n, page_free_list := h, pages := pg\<rparr>) f i = 0"
  by (simp add: fword_def bss_kstate_def load32_def)

lemma small_machine_fword:
  "j < 1024 \<Longrightarrow> fword small_machine f j = (if f = 2 \<and> j = 0 then page2pa 3 OR 7
     else if f = 4 \<and> j = 0 then page2pa 2 OR 7 else 0)"
  by (simp add: small_machine_def fword_fset)

lemma small_entries [simp]: "fnum (page2pa 3 OR 7) = 3" "fnum (page2pa 2 OR 7) = 2"
  "page2pa 2 OR 7 \<noteq> 0" "page2pa 3 OR 7 \<noteq> 0"
  by (simp_all add: fnum_entry) (simp_all add: page2pa_def PGSHIFT_def)

lemma small_machine_table: "table_of small_machine 4 i = (if i = 0 then Some 2 else None)"
  by (auto simp: table_of_def small_machine_fword uvpt_index_def split: if_splits)

lemma small_machine_npages [simp]: "npages small_machine = 16"
  by (simp add: small_machine_def)

lemma small_machine_pages [simp]:
  "page_free_list small_machine = Some 5"
  "pages small_machine p = (if p = 5 then \<lparr>pp_link = Some 6, pp_ref = 0\<rparr>
     else if p = 2 \<or> p = 3 then \<lparr>pp_link = None, pp_ref = 1\<rparr> else zero_page)"
  by (auto simp: small_machine_def)

lemma small_machine_inv: "pages_inv small_machine [5, 6]"
  by (auto simp: pages_inv_def pgfl.unlinked_def pgfl.represents_def zero_page_def)

lemma small_machine_pgdir: "pgdir_ok small_machine [5, 6] 4"
  by (auto simp: pgdir_ok_def small_machine_table)

lemma small_machine_pte:
  "j < 1024 \<Longrightarrow> pteval small_machine 4 i j = (if i = 0 \<and> j = 0 then page2pa 3 OR 7 else 0)"
  by (simp add: pteval_def small_machine_table small_machine_fword)

lemma chain_last:
  "chain lk h xs \<Longrightarrow> distinct xs \<Longrightarrow> p \<in> set xs \<Longrightarrow> lk p = None \<longleftrightarrow> p = last xs"
proof (induction xs arbitrary: h)
  case (Cons x xs)
  then show ?case by (cases xs) (auto simp: chain_Cons)
qed simp

lemma page_pop_push:
  "pages_inv s (p # fl) \<Longrightarrow> page_push p (page_pop s) = s"
  using pages_invD(1) [of s "p # fl"] 
  by (auto simp: page_push_def page_pop_def pgfl.represents_def chain_Cons)

text \<open>
  \<open>page_alloc\<close> hands out the first page of the free list, unlinked and with its reference
  count at zero, and keeps the allocator's invariant for the rest of the list; with
  \<open>ALLOC_ZERO\<close> the page is all zeros and no other byte of memory has changed.\<close>

theorem page_alloc_pops:
  assumes "pages_inv s (p # fl)"
  shows "\<exists>s'. page_alloc flags s = Ret (Some p) s' \<and> pages_inv s' fl \<and> p < npages s'
     \<and> pages s' p = \<lparr>pp_link = None, pp_ref = 0\<rparr>
     \<and> pmem s' = (if flags AND ALLOC_ZERO \<noteq> 0 then memset (p * 4096) 0 4096 (pmem s) else pmem s)"
proof -
  have "pages s p\<lparr>pp_link := None\<rparr> = \<lparr>pp_link = None, pp_ref = 0\<rparr>" "page_free_list s = Some p"
    using pages_invD(5) [OF assms, of p] pgfl.represents_head [OF pages_invD(1) [OF assms]]
    by (simp_all add: PageInfo.equality)
  moreover have "page_alloc flags s = page_alloc (if flags AND ALLOC_ZERO \<noteq> 0 then ALLOC_ZERO else 0) s"
    by (auto simp: page_alloc_def ALLOC_ZERO_def split: option.split)
  ultimately show ?thesis
    using pages_inv_pop [OF assms] pages_invD(4) [OF assms, of p] page_alloc_plain [OF assms]
      page_alloc_zeroed [OF assms]
    by (auto simp: page_zero_def page_pop_def)
qed

theorem page_alloc_pops_witness:
  "\<exists>s'. page_alloc ALLOC_ZERO small_machine = Ret (Some 5) s' \<and> pages_inv s' [6]"
  using page_alloc_pops [OF small_machine_inv] by blast

text \<open>
  A round trip: freeing the page that \<open>page_alloc\<close> has just returned restores the page
  structures and the free list exactly, so the allocator is last-in first-out. Without
  \<open>ALLOC_ZERO\<close> the whole kernel state is restored.\<close>

theorem page_free_alloc_roundtrip:
  assumes "pages_inv s (p # fl)"
  shows "kbind (page_alloc 0) (\<lambda>r. page_free (the r)) s = Ret () s"
proof -
  have "pp_ref (pages (page_pop s) p) = 0" "pp_link (pages (page_pop s) p) = None"
    using pages_invD(5) [OF assms, of p] pages_invD(1) [OF assms]
    by (auto simp: page_pop_def pgfl.represents_def chain_Cons)
  then have "page_free p (page_pop s) = Ret () s"
    by (simp add: page_free_push page_pop_push [OF assms])
  then show ?thesis by (simp add: page_alloc_plain [OF assms])
qed

theorem page_free_alloc_roundtrip_witness:
  "kbind (page_alloc 0) (\<lambda>r. page_free (the r)) small_machine = Ret () small_machine"
  using page_free_alloc_roundtrip [OF small_machine_inv] .

text \<open>
  Freeing a page twice panics, wherever the page is on the free list, except for the last
  page of the list: its link is null, so the second \<open>page_free\<close> goes through and the
  list becomes a cycle.\<close>

theorem page_double_free:
  assumes "pages_inv s fl" "p \<in> set fl"
  shows "if p \<noteq> last fl
    then page_free p s = Panic ''page_free: There is still a reference to the next free page!''
    else \<exists>s'. page_free p s = Ret () s' \<and> page_free_list s' = Some p
           \<and> pp_link (pages s' p) = page_free_list s"
proof -
  have c: "chain (\<lambda>p. pp_link (pages s p)) (page_free_list s) fl" and d: "distinct fl"
    using pages_invD(1,3) [OF assms(1)] by (auto simp: pgfl.represents_def)
  have "pp_link (pages s p) = None \<longleftrightarrow> p = last fl"
    using chain_last [OF c d assms(2)] .
  then show ?thesis using pages_invD(5) [OF assms] by (auto simp: page_free_def)
qed

theorem page_double_free_witness:
  "page_free 5 small_machine = Panic ''page_free: There is still a reference to the next free page!''"
  using page_double_free [OF small_machine_inv, of 5] by simp

section \<open>The free list page_init builds\<close>

lemma chain_snoc:
  "chain lk h xs \<Longrightarrow> distinct xs \<Longrightarrow> x \<notin> set xs \<Longrightarrow> xs \<noteq> [] \<Longrightarrow>
     chain (lk(last xs := Some x, x := None)) h (xs @ [x])"
proof (induction xs arbitrary: h)
  case (Cons y ys)
  show ?case
  proof (cases "ys = []")
    case True
    with Cons.prems show ?thesis by (auto simp: chain_Cons)
  next
    case False
    with Cons.prems have c: "chain (lk(last ys := Some x, x := None)) (lk y) (ys @ [x])"
      by (intro Cons.IH) (auto simp: chain_Cons)
    have "y \<noteq> last ys" "y \<noteq> x" using Cons.prems False by auto
    with c Cons.prems False show ?thesis by (simp add: chain_Cons fun_upd_def)
  qed
qed simp

definition init_free :: "nat \<Rightarrow> nat \<Rightarrow> nat \<Rightarrow> bool" where
  "init_free bg fin i \<longleftrightarrow> \<not> ((i \<ge> bg \<and> i < fin) \<or> i = 7)"

definition links :: "kstate \<Rightarrow> nat \<Rightarrow> nat option" where
  "links s = (\<lambda>p. pp_link (pages s p))"

lemma page_init_step_skip: "\<not> init_free bg fin i \<Longrightarrow> page_init_step bg fin i cs = cs"
  by (auto simp: page_init_step_def init_free_def split: prod.splits)

lemma page_init_step_take:
  assumes "init_free bg fin i"
  shows "page_init_step bg fin i (current, s) = (Some i, snd (page_init_step bg fin i (current, s)))"
    and "links (snd (page_init_step bg fin i (current, s))) =
      (case current of None \<Rightarrow> links s | Some c \<Rightarrow> (links s)(c := Some i, i := None))"
    and "page_free_list (snd (page_init_step bg fin i (current, s))) =
      (case current of None \<Rightarrow> Some i | Some c \<Rightarrow> page_free_list s)"
    and "pp_ref (pages (snd (page_init_step bg fin i (current, s))) p) = pp_ref (pages s p)"
    and "npages (snd (page_init_step bg fin i (current, s))) = npages s"
  using assms
  by (auto simp: page_init_step_def init_free_def links_def Let_def fun_eq_iff split: option.splits)

lemma page_init_fold:
  fixes bg fin :: nat
  assumes "links s = (\<lambda>_. None)" "page_free_list s = None" "\<And>p. pp_ref (pages s p) = 0"
    and "distinct ns"
  defines "cs \<equiv> fold (page_init_step bg fin) ns (None, s)"
    and "xs \<equiv> filter (init_free bg fin) ns"
  shows "fst cs = (if xs = [] then None else Some (last xs))
     \<and> chain (links (snd cs)) (page_free_list (snd cs)) xs
     \<and> (\<forall>p. p \<notin> set xs \<longrightarrow> links (snd cs) p = None)
     \<and> (\<forall>p. pp_ref (pages (snd cs) p) = 0) \<and> npages (snd cs) = npages s"
  using assms(4) unfolding cs_def xs_def
proof (induction ns rule: rev_induct)
  case Nil
  then show ?case using assms(1-3) by simp
next
  case (snoc i ns)
  let ?cs = "fold (page_init_step bg fin) ns (None, s)"
  let ?xs = "filter (init_free bg fin) ns"
  obtain c t where cs: "?cs = (c, t)" by (cases ?cs)
  have IH: "c = (if ?xs = [] then None else Some (last ?xs))"
    "chain (links t) (page_free_list t) ?xs" "\<forall>p. p \<notin> set ?xs \<longrightarrow> links t p = None"
    "\<forall>p. pp_ref (pages t p) = 0" "npages t = npages s"
    using snoc by (simp_all add: cs)
  show ?case
  proof (cases "init_free bg fin i")
    case False
    with IH show ?thesis by (simp add: cs page_init_step_skip)
  next
    case True
    define t' where "t' = snd (page_init_step bg fin i (c, t))"
    have step: "page_init_step bg fin i (c, t) = (Some i, t')"
      using page_init_step_take(1) [OF True] by (simp add: t'_def)
    note T = page_init_step_take(2-5) [OF True, of c t, folded t'_def]
    have i: "i \<notin> set ?xs" "distinct ?xs" using snoc.prems by auto
    have "chain (links t') (page_free_list t') (?xs @ [i])
      \<and> (\<forall>p. p \<notin> set ?xs \<longrightarrow> p \<noteq> i \<longrightarrow> links t' p = None)"
    proof (cases "?xs = []")
      case True
      with IH T show ?thesis by simp
    next
      case False
      with IH have c: "c = Some (last ?xs)" by simp
      have l: "last ?xs \<in> set ?xs" using False by (rule last_in_set)
      have "chain ((links t)(last ?xs := Some i, i := None)) (page_free_list t) (?xs @ [i])"
        using chain_snoc [OF IH(2) i(2,1) False] .
      moreover have "links t' = (links t)(last ?xs := Some i, i := None)"
        and "page_free_list t' = page_free_list t"
        using T(1,2) c by simp_all
      ultimately show ?thesis using IH(3) l by (metis fun_upd_other)
    qed
    with IH(4,5) T(3,4) True show ?thesis by (simp add: cs step)
  qed
qed

lemma page_init_fold_frame:
  "pmem (snd (fold (page_init_step bg fin) ns cs)) = pmem (snd cs)"
  "kern_pgdir (snd (fold (page_init_step bg fin) ns cs)) = kern_pgdir (snd cs)"
  "nextfree (snd (fold (page_init_step bg fin) ns cs)) = nextfree (snd cs)"
  "mmio_base (snd (fold (page_init_step bg fin) ns cs)) = mmio_base (snd cs)"
  by (induction ns arbitrary: cs) (auto simp: page_init_step_def Let_def split: prod.splits option.splits)

lemma page_init_runs:
  assumes "npages s \<le> 65536" "\<forall>p. pages s p = zero_page" "nextfree s \<ge> KERNBASE"
    and "nextfree s - KERNBASE \<le> of_nat (npages s) * PGSIZE"
  shows "\<exists>s'. page_init kend s = Ret () s' \<and> npages s' = npages s \<and> pmem s' = pmem s \<and> kern_pgdir s' = kern_pgdir s
     \<and> nextfree s' = nextfree s \<and> mmio_base s' = mmio_base s
     \<and> pages_inv s' (filter (\<lambda>i. i \<noteq> 7 \<and> (i < 160 \<or> unat (PGNUM (nextfree s - KERNBASE)) \<le> i))
         [1..<npages s])"
proof -
  let ?fin = "unat (PGNUM (nextfree s - KERNBASE))"
  let ?s0 = "s\<lparr>page_free_list := None\<rparr>"
  let ?r = "fold (page_init_step 160 ?fin) [1..<npages s] (None, ?s0)"
  have nf: "nextfree s \<noteq> 0" using assms(3) by (auto simp: mmu_consts)
  have bg: "unat (PGNUM IOPHYSMEM) = 160" by (simp add: unat_PGNUM mmu_consts)
  have b: "boot_alloc kend 0 ?s0 = Ret (nextfree s) ?s0"
    using nf assms(3,4) by (simp add: boot_alloc_def PADDR_def not_less not_le)
  have run: "page_init kend s = Ret () (snd ?r)"
    using assms(3) by (simp add: page_init_def b PADDR_def not_less bg Let_def)
  have eq: "init_free 160 ?fin = (\<lambda>i. i \<noteq> 7 \<and> (i < 160 \<or> ?fin \<le> i))"
    by (auto simp: init_free_def fun_eq_iff)
  have F: "chain (links (snd ?r)) (page_free_list (snd ?r)) (filter (init_free 160 ?fin) [1..<npages s])
     \<and> (\<forall>p. p \<notin> set (filter (init_free 160 ?fin) [1..<npages s]) \<longrightarrow> links (snd ?r) p = None)
     \<and> (\<forall>p. pp_ref (pages (snd ?r) p) = 0) \<and> npages (snd ?r) = npages ?s0"
    using page_init_fold [of ?s0 "[1..<npages s]" 160 ?fin] assms(2)
    by (simp add: links_def zero_page_def del: set_filter)
  have "pmem (snd ?r) = pmem s" "kern_pgdir (snd ?r) = kern_pgdir s"
      "nextfree (snd ?r) = nextfree s" "mmio_base (snd ?r) = mmio_base s"
    by (simp_all add: page_init_fold_frame)
  with F show ?thesis
    using assms(1) unfolding run eq
    by (auto simp: pages_inv_def pgfl.unlinked_def pgfl.represents_def links_def)
qed

text \<open>
  \<open>page_init\<close> puts on the free list, in increasing order and each once, exactly the pages
  that are not page 0, not page 7 (the entry code of the other processors) and not between
  the I/O hole and the end of what \<open>boot_alloc\<close> has handed out; it establishes the
  allocator's invariant.\<close>

theorem page_init_free_pages:
  assumes "npages s \<le> 65536" "\<forall>p. pages s p = zero_page" "nextfree s \<ge> KERNBASE"
    and "nextfree s - KERNBASE \<le> of_nat (npages s) * PGSIZE"
  shows "\<exists>s'. page_init kend s = Ret () s' \<and> npages s' = npages s
     \<and> pages_inv s' (filter (\<lambda>i. i \<noteq> 7 \<and> (i < 160 \<or> unat (PGNUM (nextfree s - KERNBASE)) \<le> i))
         [1..<npages s])"
  using page_init_runs [OF assms] by blast

theorem page_init_free_pages_witness:
  "\<exists>s'. page_init 0xF0120000 (bss_kstate\<lparr>npages := 512, nextfree := 0xF0140000\<rparr>) = Ret () s'
     \<and> npages s' = 512 \<and> pages_inv s' (filter (\<lambda>i. i \<noteq> 7 \<and> (i < 160 \<or> 320 \<le> i)) [1..<512])"
  using page_init_free_pages [of "bss_kstate\<lparr>npages := 512, nextfree := 0xF0140000\<rparr>" "0xF0120000"]
  by (simp add: mmu_consts bss_kstate_def unat_PGNUM)

section \<open>Properties of the page tables\<close>

text \<open>
  Property C1. \<open>page_insert\<close> on a well-formed directory succeeds whenever the page table exists or a
  page is free for it: the entry of the address becomes the page with the given permissions,
  every other page's entry is unchanged, and the allocator's and the directory's invariants
  are kept (the page that was mapped there, if any, is unmapped first).\<close>

theorem page_insert_maps:
  assumes "pages_inv s fl" "pgdir_ok s fl d" "walkable va"
    and "pp < npages s" "pp \<notin> set fl"
    and "pte_of s d va \<noteq> 0 \<longrightarrow> mapping_ok s fl d va"
    and "table_of s d (unat (PDX va)) \<noteq> None \<or> fl \<noteq> []"
  shows "\<exists>s' fl'. page_insert (frame_kva d) pp va perm s = Ret 0 s'
     \<and> pages_inv s' fl' \<and> pgdir_ok s' fl' d
     \<and> pte_of s' d va = page2pa pp OR perm OR PTE_P
     \<and> (\<forall>va'. PGNUM va' \<noteq> PGNUM va \<longrightarrow> pte_of s' d va' = pte_of s d va')"
  by (rule page_insert_run_maps [OF assms])

lemma small_walkable: "walkable 0" "walkable 0x1000" "walkable 0x400000"
  by (simp_all add: walkable_def unat_PDX uvpt_index_def)

lemma small_tables: "table_of small_machine 4 0 = Some 2" "table_of small_machine 4 i \<noteq> Some 3"
  "table_of small_machine 4 i \<noteq> Some 0"
  by (simp_all add: small_machine_table)

theorem page_insert_maps_witness:
  "\<exists>s' fl'. page_insert (frame_kva 4) 3 0x400000 6 small_machine = Ret 0 s' \<and> pages_inv s' fl'
     \<and> pgdir_ok s' fl' 4 \<and> pte_of s' 4 0x400000 = page2pa 3 OR 6 OR PTE_P"
  using page_insert_maps [OF small_machine_inv small_machine_pgdir small_walkable(3), of 3 6]
  by (simp add: small_machine_pte unat_PDX unat_PTX) blast

text \<open>
  Property C11. The reference counts after \<open>page_insert\<close>, when the page table is there: the inserted page
  gains one reference and the page it replaces loses one. In particular inserting again a
  page where it is already mapped leaves all counts as they were, so the page is not freed.\<close>

theorem page_insert_refcounts:
  assumes "pages_inv s fl" "pgdir_ok s fl d" "walkable va"
    and "table_of s d (unat (PDX va)) \<noteq> None" "pp \<notin> set fl"
    and "pte_of s d va \<noteq> 0 \<longrightarrow> mapping_ok s fl d va"
  shows "\<exists>s'. page_insert (frame_kva d) pp va perm s = Ret 0 s'
     \<and> (\<forall>p. pp_ref (pages s' p) = pp_ref (pages s p) + (if p = pp then 1 else 0)
            - (if pte_of s d va \<noteq> 0 \<and> p = fnum (pte_of s d va) then 1 else 0))
     \<and> (pte_of s d va \<noteq> 0 \<and> pp = fnum (pte_of s d va) \<longrightarrow> (\<forall>p. pp_ref (pages s' p) = pp_ref (pages s p)))"
proof -
  from assms(4) obtain t where t: "table_of s d (unat (PDX va)) = Some t" by auto
  have np: "npages s \<le> 65536" using pages_invD(2) [OF assms(1)] .
  have m: "pte_of s d va \<noteq> 0 \<Longrightarrow> mapping_ok s fl d va" using assms(6) by simp
  show ?thesis
    using page_insert_run [OF assms(1-3) t assms(5) m pgdir_walk_present [OF assms(2) np assms(3) t]]
      inserted_props(4) [OF assms(1-3) t assms(5) m]
    by (intro exI conjI) auto
qed

theorem page_insert_refcounts_witness:
  "\<exists>s'. page_insert (frame_kva 4) 3 0 7 small_machine = Ret 0 s'
     \<and> (\<forall>p. pp_ref (pages s' p) = pp_ref (pages small_machine p))"
  using page_insert_refcounts [OF small_machine_inv small_machine_pgdir small_walkable(1), of 3 7]
  by (auto simp: small_machine_pte small_machine_table unat_PDX unat_PTX mapping_ok_def)

text \<open>
  When no page is free and the page table is missing, \<open>page_insert\<close> returns \<open>-E_NO_MEM\<close>
  and leaves the whole kernel state unchanged.\<close>

theorem page_insert_no_memory:
  assumes "pages_inv s []" "pgdir_ok s [] d" "walkable va"
    and "table_of s d (unat (PDX va)) = None"
  shows "page_insert (frame_kva d) pp va perm s = Ret (- E_NO_MEM) s"
  by (simp add: page_insert_def pgdir_walk_no_memory [OF assms(2,1,3,4)])

definition full_machine :: kstate where
  "full_machine = bss_kstate\<lparr>npages := 16, page_free_list := None, pages := \<lambda>_. zero_page\<rparr>"

theorem page_insert_no_memory_witness:
  "page_insert (frame_kva 4) 3 0x400000 6 full_machine = Ret (- E_NO_MEM) full_machine"
  by (rule page_insert_no_memory)
    (auto simp: full_machine_def pages_inv_def pgfl.unlinked_def pgfl.represents_def zero_page_def
      pgdir_ok_def table_of_def small_walkable)

text \<open>
  Property C15. \<open>page_remove\<close> of a mapped address clears its entry and only that one, drops one reference
  of the page, and puts the page at the head of the free list exactly when that was the last
  reference; both invariants are kept.\<close>

theorem page_remove_unmaps:
  assumes "pages_inv s fl" "pgdir_ok s fl d" "walkable va" "pte_of s d va \<noteq> 0"
    and "mapping_ok s fl d va"
  shows "\<exists>s'. page_remove (frame_kva d) va s = Ret () s'
     \<and> pte_of s' d va = 0
     \<and> (\<forall>va'. PGNUM va' \<noteq> PGNUM va \<longrightarrow> pte_of s' d va' = pte_of s d va')
     \<and> (let q = fnum (pte_of s d va) in
          pp_ref (pages s' q) = pp_ref (pages s q) - 1
        \<and> pages_inv s' (if pp_ref (pages s q) = 1 then q # fl else fl)
        \<and> pgdir_ok s' (if pp_ref (pages s q) = 1 then q # fl else fl) d)"
proof -
  from assms(4) obtain t where t: "table_of s d (unat (PDX va)) = Some t"
    by (auto simp: pteval_def split: option.splits)
  note R = removed_props [OF assms(1-3) t assms(5)]
  show ?thesis
    unfolding page_remove_run [OF assms(1-3) t assms(5)] Let_def
    using R(1,2,5) R(4) [OF PTX_lt] PGNUM_differs
    by (intro exI [of _ "removed d t va s"]) (auto simp: drop_list_def)
qed

theorem page_remove_unmaps_witness:
  "\<exists>s'. page_remove (frame_kva 4) 0 small_machine = Ret () s' \<and> pte_of s' 4 0 = 0
     \<and> pages_inv s' [3, 5, 6]"
  using page_remove_unmaps [OF small_machine_inv small_machine_pgdir small_walkable(1)]
  by (auto simp: small_machine_pte small_tables unat_PDX unat_PTX mapping_ok_def)

text \<open>
  What \<open>page_remove\<close> does at an address that is not mapped but whose page table exists: the
  comment says that it silently does nothing, but \<open>page_lookup\<close> takes the zero entry for a
  mapping of physical page 0, so the reference count of page 0 is decremented, from zero
  to 65535.\<close>

theorem page_remove_unmapped_drops_page0:
  assumes "pages_inv s fl" "pgdir_ok s fl d" "walkable va" "0 < npages s" "0 \<notin> set fl"
    and "table_of s d (unat (PDX va)) \<noteq> None" "pte_of s d va = 0"
    and "d \<noteq> 0" "\<forall>i. table_of s d i \<noteq> Some 0"
  shows "\<exists>s' e. page_lookup (frame_kva d) va s = Ret (Some (0, e)) s
     \<and> page_remove (frame_kva d) va s = Ret () s'
     \<and> pp_ref (pages s' 0) = pp_ref (pages s 0) - 1"
proof -
  from assms(6) obtain t where t: "table_of s d (unat (PDX va)) = Some t" by auto
  have f0: "fnum 0 = 0" by (simp add: fnum_def unat_PGNUM)
  have m: "mapping_ok s fl d va" using assms(4,5,7-9) by (simp add: mapping_ok_def f0)
  have np: "npages s \<le> 65536" using pages_invD(2) [OF assms(1)] .
  show ?thesis
    using page_lookup_present [OF assms(2) np assms(3) t] assms(4)
      page_remove_run [OF assms(1-3) t m] removed_props(5) [OF assms(1-3) t m, of 0]
    by (simp add: assms(7) f0)
qed

theorem page_remove_unmapped_drops_page0_witness:
  "\<exists>s'. page_remove (frame_kva 4) 0x1000 small_machine = Ret () s' \<and> pp_ref (pages s' 0) = - 1"
  using page_remove_unmapped_drops_page0 [OF small_machine_inv small_machine_pgdir small_walkable(2)]
  by (auto simp: small_machine_pte small_tables unat_PDX unat_PTX zero_page_def)

section \<open>Checking a user's memory range\<close>

text \<open>
  What the hardware finds for a page: in the recursive slot at \<open>UVPT\<close> the page directory is
  its own page table.
\<close>

definition pte_at :: "kstate \<Rightarrow> nat \<Rightarrow> u32 \<Rightarrow> u32" where
  "pte_at s d va = (if unat (PDX va) = uvpt_index then fword s d (unat (PTX va)) else pte_of s d va)"

definition self_mapped :: "kstate \<Rightarrow> nat \<Rightarrow> bool" where
  "self_mapped s d \<longleftrightarrow> fword s d uvpt_index \<noteq> 0 \<and> fnum (fword s d uvpt_index) = d"

definition user_may :: "kstate \<Rightarrow> nat \<Rightarrow> u32 \<Rightarrow> u32 \<Rightarrow> bool" where
  "user_may s d perm a \<longleftrightarrow> a < ULIM \<and> pte_at s d a AND (perm OR PTE_P) = perm OR PTE_P"

text \<open>The pages of a range, and the first of them the user may not use.\<close>

definition page_range :: "u32 \<Rightarrow> u32 \<Rightarrow> u32 list" where
  "page_range a fin = map (\<lambda>k. a + of_nat k * PGSIZE) [0..<(unat fin - unat a + 4095) div 4096]"

lemma page_range_step:
  assumes "a < fin"
  shows "page_range a fin = a # map (\<lambda>k. a + PGSIZE + of_nat k * PGSIZE)
    [0..<(unat fin - unat a - 1) div 4096]"
proof -
  define n where "n = (unat fin - unat a - 1) div 4096"
  have "(unat fin - unat a + 4095) div 4096 = Suc n"
    using assms by (auto simp: n_def word_less_nat_alt dest!: less_imp_Suc_add)
  then have "page_range a fin = map (\<lambda>k. a + of_nat k * PGSIZE) [0..<Suc n]"
    by (simp only: page_range_def)
  then show ?thesis
    by (simp only: map_upt_Suc n_def [symmetric]) (simp add: algebra_simps)
qed

lemma page_range_cons:
  assumes "a < fin" "a < ULIM"
  shows "page_range a fin = a # page_range (a + PGSIZE) fin"
proof -
  have "unat (a + PGSIZE) = unat a + 4096" using unat_add_PGSIZE [OF assms(2)] .
  moreover have "(unat fin - unat a - 1) div 4096 = (unat fin - (unat a + 4096) + 4095) div 4096"
    using assms(1) by (cases "unat fin - unat a \<ge> 4096") (auto simp: word_less_nat_alt)
  ultimately show ?thesis
    unfolding page_range_step [OF assms(1)] by (simp add: page_range_def)
qed

lemma page_range_empty: "\<not> a < fin \<Longrightarrow> page_range a fin = []"
  by (simp add: page_range_def word_less_nat_alt)

lemma page_range_hd: "a < fin \<Longrightarrow> \<exists>as. page_range a fin = a # as"
  by (simp add: page_range_step)

lemma pgdir_walk_check:
  assumes ok: "pgdir_ok s fl d" and np: "npages s \<le> 65536" and self: "self_mapped s d"
  shows "\<exists>e. pgdir_walk (frame_kva d) a False s = Ret e s \<and>
     (if e = 0 then pte_at s d a = 0 else kload e s = pte_at s d a)"
proof (cases "unat (PDX a) = uvpt_index")
  case True
  have d: "d < npages s" "d < 65536" using pgdir_okD(1) [OF ok] np by auto
  then have "pgdir_walk (frame_kva d) a False s = Ret (frame_kva d + 4 * PTX a) s"
    using kload_frame [OF d(2) PDX_lt, of a s] True self
    by (simp add: pgdir_walk_def Let_def self_mapped_def KADDR_frame)
  with d True show ?thesis using frame_kva_nonzero [OF d(2) PTX_lt] by (simp add: pte_at_def)
next
  case False
  then have w: "walkable a" by (simp add: walkable_def)
  show ?thesis
  proof (cases "table_of s d (unat (PDX a))")
    case None
    then show ?thesis
      using False by (simp add: pgdir_walk_absent [OF ok np w] pte_at_def pteval_def)
  next
    case (Some t)
    then have "t < 65536" using pgdir_okD(3) [OF ok Some] np by simp
    then show ?thesis
      using False Some
      by (simp add: pgdir_walk_present [OF ok np w Some] frame_kva_nonzero pte_at_def pteval_def)
  qed
qed

lemma user_mem_check_loop_find:
  assumes "pgdir_ok s fl d" "npages s \<le> 65536" "self_mapped s d"
  shows "user_mem_check_loop (frame_kva d) va perm fin a s =
    (case find (\<lambda>a. \<not> user_may s d perm a) (page_range a fin) of
       None \<Rightarrow> Ret 0 s
     | Some b \<Rightarrow> Ret (- E_FAULT) (s\<lparr>user_mem_check_addr := (if b < va then va else b)\<rparr>))"
proof (induction "unat fin - unat a" arbitrary: a rule: less_induct)
  case less
  have nz: "perm OR PTE_P \<noteq> 0" by (rule entry_nonzero)
  show ?case
  proof (cases "a < fin")
    case False
    then show ?thesis by (subst user_mem_check_loop.simps) (simp add: page_range_empty)
  next
    case True
    obtain as where as: "page_range a fin = a # as" using page_range_hd [OF True] by auto
    obtain e where e: "pgdir_walk (frame_kva d) a False s = Ret e s"
      "if e = 0 then pte_at s d a = 0 else kload e s = pte_at s d a"
      using pgdir_walk_check [OF assms] by blast
    have may: "user_may s d perm a \<longleftrightarrow>
        a < ULIM \<and> e \<noteq> 0 \<and> kload e s AND (perm OR PTE_P) = perm OR PTE_P"
      using e(2) nz by (cases "e = 0") (auto simp: user_may_def)
    show ?thesis
    proof (cases "user_may s d perm a")
      case False
      then show ?thesis
        using may True e(1) as by (subst user_mem_check_loop.simps) (auto simp: not_less)
    next
      case m: True
      then have lim: "a < ULIM" by (simp add: user_may_def)
      have "unat fin - unat (a + PGSIZE) < unat fin - unat a"
        using True unat_add_PGSIZE [OF lim] by (simp add: word_less_nat_alt)
      note IH = less [OF this]
      show ?thesis
        using may m True e(1) IH page_range_cons [OF True lim] lim [folded not_le]
        by (subst user_mem_check_loop.simps) auto
    qed
  qed
qed

lemma find_None_iff': "find P xs = None \<longleftrightarrow> (\<forall>x \<in> set xs. \<not> P x)"
  by (auto simp: find_None_iff)

lemma user_mem_check_find:
  assumes "env_pgdir (envs s e) = frame_kva d"
    and "pgdir_ok s fl d" "npages s \<le> 65536" "self_mapped s d"
  shows "user_mem_check e va len perm s =
    (case find (\<lambda>a. \<not> user_may s d perm a) (page_range (ROUNDDOWN va PGSIZE) (ROUNDUP (va + len) PGSIZE)) of
       None \<Rightarrow> Ret 0 s
     | Some b \<Rightarrow> Ret (- E_FAULT) (s\<lparr>user_mem_check_addr := (if b < va then va else b)\<rparr>))"
  by (simp add: user_mem_check_def assms(1) Let_def user_mem_check_loop_find [OF assms(2-4)])

text \<open>The pages that hold a byte of a range, or its start when that is inside a page.\<close>

definition range_page :: "u32 \<Rightarrow> u32 \<Rightarrow> u32 \<Rightarrow> bool" where
  "range_page va len a \<longleftrightarrow> unat a mod 4096 = 0 \<and> unat va div 4096 \<le> unat a div 4096 \<and> unat a < unat va + unat len"

lemma page_range_pages:
  assumes "unat va + unat len + 4095 < 2 ^ 32"
  defines "as \<equiv> page_range (ROUNDDOWN va PGSIZE) (ROUNDUP (va + len) PGSIZE)"
  shows "set as = {a. range_page va len a}" "sorted_wrt (<) as"
proof -
  define lo hi where "lo = unat va div 4096" and "hi = (unat va + unat len + 4095) div 4096"
  have u: "unat (va + len) = unat va + unat len" using assms(1) by (subst unat_word_ariths) simp
  have w: "unat (va + len) + 4096 - 1 < 4294967296" using assms(1) by (simp add: u)
  have pg: "unat PGSIZE = 4096" "PGSIZE \<noteq> 0" by (simp_all add: PGSIZE_def)
  have r: "unat (ROUNDDOWN va PGSIZE) = lo * 4096" "unat (ROUNDUP (va + len) PGSIZE) = hi * 4096"
    unfolding lo_def hi_def unat_ROUNDDOWN unat_ROUNDUP [OF pg(2) w [folded pg(1)]] unfolding pg(1) u by simp_all
  have h: "hi * 4096 < 2 ^ 32" using assms(1) div_times_less_eq_dividend [of "unat va + unat len + 4095" 4096]
    unfolding hi_def by linarith
  have el: "unat (ROUNDDOWN va PGSIZE + of_nat k * PGSIZE) = (lo + k) * 4096" if "k < hi - lo" for k
  proof -
    have b: "lo * 4096 + k * 4096 < 4294967296" using that h by simp
    have "unat (of_nat k :: u32) = k" using b by (intro unat_of_nat32) simp
    then have "unat (of_nat k * PGSIZE) = k * 4096" using b pg(1) by (subst unat_word_ariths) simp
    then show ?thesis using b r(1) by (subst unat_word_ariths) simp
  qed
  have n: "(unat (ROUNDUP (va + len) PGSIZE) - unat (ROUNDDOWN va PGSIZE) + 4095) div 4096 = hi - lo"
    by (simp add: r diff_mult_distrib [symmetric])
  have as: "as = map (\<lambda>k. ROUNDDOWN va PGSIZE + of_nat k * PGSIZE) [0..<hi - lo]"
    by (simp add: as_def page_range_def n)
  show "sorted_wrt (<) as"
    unfolding as by (auto simp: sorted_wrt_map sorted_wrt_iff_nth_less word_less_nat_alt el)
  have "a \<in> set as \<longleftrightarrow> range_page va len a" for a
  proof
    assume "a \<in> set as"
    then obtain k where "k < hi - lo" "unat a = (lo + k) * 4096" using el by (auto simp: as)
    then show "range_page va len a" unfolding range_page_def lo_def hi_def by auto
  next
    assume a: "range_page va len a"
    define k where "k = unat a div 4096 - lo"
    have "lo \<le> unat a div 4096" "unat a div 4096 < hi" "unat a = unat a div 4096 * 4096"
      using a unfolding range_page_def lo_def hi_def by auto
    then have k: "k < hi - lo" "unat a = (lo + k) * 4096" by (auto simp: k_def)
    then have "a = ROUNDDOWN va PGSIZE + of_nat k * PGSIZE" using el [OF k(1)] by (simp add: word_unat_eq_iff)
    with k(1) show "a \<in> set as" by (auto simp: as)
  qed
  then show "set as = {a. range_page va len a}" by auto
qed

lemma find_first:
  assumes "sorted_wrt (<) (as :: u32 list)"
  shows "case find P as of None \<Rightarrow> \<forall>a \<in> set as. \<not> P a
    | Some b \<Rightarrow> b \<in> set as \<and> P b \<and> (\<forall>a \<in> set as. a < b \<longrightarrow> \<not> P a)"
  using assms by (induction as) (auto split: option.splits)

text \<open>
  Property C4. \<open>user_mem_check\<close> is sound and complete for ranges that do not wrap round the address space:
  it returns 0 exactly when every page with a byte of the range lies below \<open>ULIM\<close> and is
  mapped with the permissions; otherwise it returns \<open>-E_FAULT\<close> and records the first page
  that fails, or \<open>va\<close> itself when that is in the first page. It always returns, and changes
  nothing else.\<close>

theorem user_mem_check_exact:
  assumes "env_pgdir (envs s e) = frame_kva d"
    and "pgdir_ok s fl d" "npages s \<le> 65536" "self_mapped s d"
    and "unat va + unat len + 4095 < 2 ^ 32"
  shows "if \<forall>a. range_page va len a \<longrightarrow> user_may s d perm a
    then user_mem_check e va len perm s = Ret 0 s
    else \<exists>b. range_page va len b \<and> \<not> user_may s d perm b \<and> (\<forall>a < b. range_page va len a \<longrightarrow> user_may s d perm a)
      \<and> user_mem_check e va len perm s = Ret (- E_FAULT) (s\<lparr>user_mem_check_addr := max va b\<rparr>)"
  using find_first [OF page_range_pages(2) [OF assms(5)], of "\<lambda>a. \<not> user_may s d perm a"]
    user_mem_check_find [OF assms(1-4), of va len perm] page_range_pages(1) [OF assms(5)]
  by (auto split: option.splits simp: max_def not_le)

definition mapped_machine :: kstate where
  "mapped_machine = fset 4 957 (page2pa 4 OR 5) small_machine\<lparr>envs := (\<lambda>_. zero_env\<lparr>env_pgdir := frame_kva 4\<rparr>)\<rparr>"

lemma fword_envs [simp]: "fword (s\<lparr>envs := E\<rparr>) f i = fword s f i"
  by (simp add: fword_def)

lemma mapped_machine_fword: "j < 1024 \<Longrightarrow> fword mapped_machine f j =
   (if f = 4 \<and> j = 957 then page2pa 4 OR 5 else fword small_machine f j)"
  by (simp add: mapped_machine_def fword_fset)

lemma mapped_machine_table [simp]: "table_of mapped_machine 4 i = table_of small_machine 4 i"
  by (auto simp: table_of_def mapped_machine_fword uvpt_index_def)

lemma mapped_machine_ok: "pgdir_ok mapped_machine [5, 6] 4" "npages mapped_machine = 16"
  "self_mapped mapped_machine 4" "env_pgdir (envs mapped_machine e) = frame_kva 4"
proof -
  show n: "npages mapped_machine = 16" by (simp add: mapped_machine_def)
  show "pgdir_ok mapped_machine [5, 6] 4"
    using small_machine_pgdir by (simp add: pgdir_ok_def n)
  have "page2pa 4 OR 5 \<noteq> 0" by (simp add: page2pa_def PGSHIFT_def)
  then show "self_mapped mapped_machine 4"
    by (simp add: self_mapped_def mapped_machine_fword uvpt_index_def fnum_entry)
  show "env_pgdir (envs mapped_machine e) = frame_kva 4" by (simp add: mapped_machine_def)
qed

theorem user_mem_check_exact_witness:
  "user_mem_check 0 16 100 PTE_U mapped_machine = Ret 0 mapped_machine
   \<and> user_mem_check 0 16 5000 PTE_U mapped_machine = Ret (- E_FAULT) (mapped_machine\<lparr>user_mem_check_addr := 4096\<rparr>)"
proof -
  have may: "user_may mapped_machine 4 PTE_U 0" "\<not> user_may mapped_machine 4 PTE_U 4096"
    by (simp_all add: user_may_def pte_at_def pteval_def small_machine_table mapped_machine_fword
        small_machine_fword unat_PDX unat_PTX uvpt_index_def mmu_consts page2pa_def PGSHIFT_def)
  have p: "range_page 16 100 a \<longleftrightarrow> a = 0" "range_page 16 5000 a \<longleftrightarrow> a = 0 \<or> a = 4096" for a
    by (auto simp: range_page_def word_unat_eq_iff)
  show ?thesis
    using user_mem_check_exact [OF mapped_machine_ok(4,1) _ mapped_machine_ok(3), where va = 16 and len = 100 and perm = PTE_U and e = 0]
      user_mem_check_exact [OF mapped_machine_ok(4,1) _ mapped_machine_ok(3), where va = 16 and len = 5000 and perm = PTE_U and e = 0]
      may by (auto simp: mapped_machine_ok(2) p)
qed

text \<open>
  The check fails to reject a range that wraps round the address space: \<open>va + len\<close> is zero
  modulo \<open>2 ^ 32\<close>, its rounded end is zero, the loop makes no iteration and the answer is
  0, whatever is mapped and whatever \<open>va\<close> is, a kernel address included.\<close>

theorem user_mem_check_wraps:
  "user_mem_check e va (- va) perm s = Ret 0 s"
  by (simp add: user_mem_check_def Let_def user_mem_check_loop.simps ROUNDUP_def ROUNDDOWN_def PGSIZE_def)

section \<open>The translation the hardware performs\<close>

lemma inserted_directory:
  assumes "pgdir_ok s fl d" "table_of s d (unat (PDX va)) = Some t" "j < 1024"
  shows "fword (inserted d t pp va perm s) d j = fword s d j"
    and "npages (inserted d t pp va perm s) = npages s"
  using pgdir_okD(5) [OF assms(1,2)] assms(3)
  by (simp_all add: inserted_def Let_def removed_def fword_fset)

lemma new_pde_flags:
  "(page2pa p OR PTE_P OR PTE_W OR PTE_U) AND PTE_P \<noteq> 0"
  "(page2pa p OR PTE_P OR PTE_W OR PTE_U) AND PTE_PS = 0"
proof -
  have "(page2pa p OR 7) AND x = ((page2pa p OR 7) AND 0xFFF) AND x" if "x = 1 \<or> x = 128" for x :: u32
    using that by (auto simp: and.assoc)
  then show "(page2pa p OR PTE_P OR PTE_W OR PTE_U) AND PTE_P \<noteq> 0"
    "(page2pa p OR PTE_P OR PTE_W OR PTE_U) AND PTE_PS = 0"
    unfolding table_flags using entry_flags [of 7 p] by (simp_all add: PTE_P_def PTE_PS_def)
qed

lemma inserted_translates:
  assumes "pages_inv s fl" "pgdir_ok s fl d" "walkable va"
    and t: "table_of s d (unat (PDX va)) = Some t"
    and "pp \<notin> set fl" and m: "pte_of s d va \<noteq> 0 \<Longrightarrow> mapping_ok s fl d va"
    and pp: "pp < npages s" and perm: "perm < 4096"
    and pde: "fword s d (unat (PDX va)) AND PTE_P \<noteq> 0" "fword s d (unat (PDX va)) AND PTE_PS = 0"
  shows "check_va2pa (frame_kva d) va (inserted d t pp va perm s) =
    Ret (page2pa pp) (inserted d t pp va perm s)"
proof -
  let ?s' = "inserted d t pp va perm s"
  have np: "npages s \<le> 65536" using pages_invD(2) [OF assms(1)] .
  note P = inserted_props(3) [OF assms(1-5) m]
    inserted_directory [OF assms(2) t PDX_lt]
  have d: "d < 65536" and t1: "t < npages s" "t < 65536" "fnum (fword s d (unat (PDX va))) = t"
    using pgdir_okD(1) [OF assms(2)] pgdir_okD(3) [OF assms(2) t] t np by (auto simp: table_of_Some)
  have low: "perm OR PTE_P < 4096" using perm by (intro or_lt_4096) (auto simp: PTE_P_def)
  have f: "fnum (page2pa pp OR perm OR PTE_P) = pp"
    using pp np low by (simp add: fnum_entry or.assoc)
  have p: "(page2pa pp OR perm OR PTE_P) AND PTE_P = PTE_P"
    by (rule bit_word_eqI) (auto simp: bit_simps)
  have e: "fword ?s' t (unat (PTX va)) = page2pa pp OR perm OR PTE_P"
  proof -
    have "table_of ?s' d (unat (PDX va)) = Some t" using t P(2) by (auto simp: table_of_Some)
    moreover have "pte_of ?s' d va = page2pa pp OR perm OR PTE_P" by (simp add: P(1))
    ultimately show ?thesis by (simp add: pteval_def)
  qed
  have "KADDR (PTE_ADDR (fword s d (unat (PDX va)))) ?s' = Ret (frame_kva t) ?s'"
    using t1 P(3) KADDR_frame [of "fword s d (unat (PDX va))" ?s'] by simp
  with d t1 e f p pde P(2) show ?thesis
    by (simp add: check_va2pa_def PTE_ADDR_frame PTE_P_def)
qed

text \<open>
  After \<open>page_insert\<close> the hardware translates the address to the inserted page: the
  kernel's model of the page walk, \<open>check_va2pa\<close>, returns its physical address, when the
  directory entry is a present one for a table of small pages or there was none.\<close>

theorem page_insert_translates:
  assumes "pages_inv s fl" "pgdir_ok s fl d" "walkable va"
    and "pp < npages s" "pp \<notin> set fl"
    and "pte_of s d va \<noteq> 0 \<longrightarrow> mapping_ok s fl d va"
    and "perm < 4096"
    and "let pde = fword s d (unat (PDX va)) in
           pde AND PTE_P \<noteq> 0 \<and> pde AND PTE_PS = 0 \<or> pde = 0 \<and> fl \<noteq> []"
  shows "\<exists>s'. page_insert (frame_kva d) pp va perm s = Ret 0 s'
     \<and> check_va2pa (frame_kva d) va s' = Ret (page2pa pp) s'"
proof (cases "table_of s d (unat (PDX va))")
  case (Some t)
  have np: "npages s \<le> 65536" using pages_invD(2) [OF assms(1)] .
  have m: "pte_of s d va \<noteq> 0 \<Longrightarrow> mapping_ok s fl d va" using assms(6) by simp
  have pde: "fword s d (unat (PDX va)) AND PTE_P \<noteq> 0" "fword s d (unat (PDX va)) AND PTE_PS = 0"
    using assms(8) Some by (auto simp: Let_def table_of_Some)
  show ?thesis
    using page_insert_run [OF assms(1-3) Some assms(5) m pgdir_walk_present [OF assms(2) np assms(3) Some]]
      inserted_translates [OF assms(1-3) Some assms(5) m assms(4,7) pde] by blast
next
  case None
  let ?i = "unat (PDX va)"
  have "fword s d ?i = 0"
    using None assms(3) by (auto simp: table_of_def walkable_def split: if_splits)
  with assms(8) obtain p fl1 where fl: "fl = p # fl1" by (cases fl) auto
  let ?s1 = "install_table d ?i p s"
  have i: "?i < 1024" "?i \<noteq> uvpt_index" using assms(3) by (simp_all add: walkable_def)
  note I = assms(1,2) [unfolded fl]
  have inv1: "pages_inv ?s1 fl1" by (rule install_table_inv [OF I(1)])
  have ok1: "pgdir_ok ?s1 fl1 d" by (rule install_table_ok [OF I(2,1) i None])
  have t1: "table_of ?s1 d ?i = Some p" by (simp add: install_table_tables [OF I(2,1) i])
  have "pte_of s d va = 0" using None by (simp add: pteval_def)
  then have m1: "pte_of ?s1 d va \<noteq> 0 \<Longrightarrow> mapping_ok ?s1 fl1 d va"
    by (simp add: install_table_pteval [OF I(2,1) i None])
  have pp1: "pp \<notin> set fl1" "pp < npages ?s1" using assms(4,5) fl by (simp_all add: install_table_def)
  have pde: "fword ?s1 d ?i AND PTE_P \<noteq> 0" "fword ?s1 d ?i AND PTE_PS = 0"
    using new_pde_flags [of p] by (simp_all add: install_table_fword)
  show ?thesis
    using page_insert_run [OF inv1 ok1 assms(3) t1 pp1(1) m1 pgdir_walk_create [OF I(2,1) assms(3) None]]
      inserted_translates [OF inv1 ok1 assms(3) t1 pp1(1) m1 pp1(2) assms(7) pde] by blast
qed

theorem page_insert_translates_witness:
  "\<exists>s'. page_insert (frame_kva 4) 3 0x400000 6 small_machine = Ret 0 s'
     \<and> check_va2pa (frame_kva 4) 0x400000 s' = Ret (page2pa 3) s'"
  using page_insert_translates [OF small_machine_inv small_machine_pgdir small_walkable(3), of 3 6]
  by (simp add: small_machine_pte unat_PDX unat_PTX small_machine_fword)

section \<open>Mapping a region at boot\<close>

lemma unat_upto_4G: "n * 4096 < 4294967296 \<Longrightarrow> unat (of_nat (n * 4096) :: u32) = n * 4096"
  by (rule unat_of_nat32) simp

text \<open>
  A directory in which the entries with the indices \<open>I\<close> can be filled: there are free pages for
  the tables that are missing.
\<close>

definition has_room :: "kstate \<Rightarrow> nat \<Rightarrow> nat list \<Rightarrow> nat set \<Rightarrow> bool" where
  "has_room s d fl I \<longleftrightarrow> finite I \<and> uvpt_index \<notin> I \<and> card {i \<in> I. table_of s d i = None} \<le> length fl"

definition mappable :: "kstate \<Rightarrow> nat list \<Rightarrow> nat \<Rightarrow> nat set \<Rightarrow> bool" where
  "mappable s fl d I \<longleftrightarrow> pages_inv s fl \<and> pgdir_ok s fl d \<and> has_room s d fl I"

text \<open>
  What the mapping functions do apart from the entries they store: they take pages from the
  head of the free list, one for each missing table with an index in \<open>I\<close>, and store its entry, with
  all three permissions, in the directory.
\<close>

definition missing :: "kstate \<Rightarrow> nat \<Rightarrow> nat set \<Rightarrow> nat" where
  "missing s d I = card {i \<in> I. table_of s d i = None}"

definition grows :: "kstate \<Rightarrow> nat list \<Rightarrow> kstate \<Rightarrow> nat list \<Rightarrow> nat \<Rightarrow> nat set \<Rightarrow> bool" where
  "grows s fl s' fl' d I \<longleftrightarrow>
     kern_pgdir s' = kern_pgdir s \<and> npages s' = npages s \<and> nextfree s' = nextfree s \<and> mmio_base s' = mmio_base s
     \<and> curenv s' = curenv s
     \<and> (\<exists>us. fl = us @ fl' \<and> length us + missing s' d I = missing s d I)
     \<and> (\<forall>i < 1024. fword s' d i = fword s d i \<or> i \<in> I \<and> fword s d i = 0 \<and> fword s' d i AND 0xFFF = 7)"

lemma grows_refl: "grows s fl s fl d I"
  by (simp add: grows_def)

lemma grows_trans:
  assumes "grows s fl s1 fl1 d I" "grows s1 fl1 s2 fl2 d I"
  shows "grows s fl s2 fl2 d I"
proof -
  obtain us vs where "fl = (us @ vs) @ fl2" "length (us @ vs) + missing s2 d I = missing s d I"
    using assms by (auto simp: grows_def)
  then have "\<exists>us. fl = us @ fl2 \<and> length us + missing s2 d I = missing s d I" by blast
  moreover have "fword s2 d i = fword s d i \<or> i \<in> I \<and> fword s d i = 0 \<and> fword s2 d i AND 0xFFF = 7" if "i < 1024" for i
    using assms that unfolding grows_def by fastforce
  ultimately show ?thesis using assms unfolding grows_def by presburger
qed

lemma growsD:
  assumes "grows s fl s' fl' d I"
  shows "kern_pgdir s' = kern_pgdir s" "npages s' = npages s"
  using assms by (simp_all add: grows_def)

lemma walk_store:
  assumes "mappable s fl d I" and i: "unat (PDX va) \<in> I"
  shows "\<exists>e s1 fl'. pgdir_walk (frame_kva d) va True s = Ret e s1 \<and> e \<noteq> 0 \<and> mappable (kstore e x s1) fl' d I
     \<and> grows s fl (kstore e x s1) fl' d I
     \<and> (\<forall>i j. j < 1024 \<longrightarrow> pteval (kstore e x s1) d i j =
          (if i = unat (PDX va) \<and> j = unat (PTX va) then x else pteval s d i j))"
proof -
  have inv: "pages_inv s fl" and ok: "pgdir_ok s fl d" and w: "walkable va"
    and m: "card {i \<in> I. table_of s d i = None} \<le> length fl" and I: "finite I"
    using assms by (auto simp: mappable_def has_room_def walkable_def)
  have fin: "mappable (kstore (frame_kva t + 4 * PTX va) x s1) fl' d I
      \<and> grows s1 fl' (kstore (frame_kva t + 4 * PTX va) x s1) fl' d I
      \<and> frame_kva t + 4 * PTX va \<noteq> 0
      \<and> (\<forall>i j. j < 1024 \<longrightarrow> pteval (kstore (frame_kva t + 4 * PTX va) x s1) d i j =
          (if i = unat (PDX va) \<and> j = unat (PTX va) then x else pteval s1 d i j))"
    if m1: "mappable s1 fl' d I" and t: "table_of s1 d (unat (PDX va)) = Some t" for s1 t fl'
  proof -
    have inv1: "pages_inv s1 fl'" and ok1: "pgdir_ok s1 fl' d" using m1 by (simp_all add: mappable_def)
    have t': "t < 65536" using pgdir_okD(3) [OF ok1 t] pages_invD(2) [OF inv1] by simp
    then have k: "kstore (frame_kva t + 4 * PTX va) x s1 = fset t (unat (PTX va)) x s1" by simp
    have T: "table_of (fset t (unat (PTX va)) x s1) d i = table_of s1 d i" for i
      using pgdir_okD(5) [OF ok1 t] by (cases "i < 1024") (simp_all add: table_of_def fword_fset)
    moreover have "grows s1 fl' (fset t (unat (PTX va)) x s1) fl' d I"
      using pgdir_okD(5) [OF ok1 t] by (simp add: grows_def missing_def T fword_fset) (simp add: fset_def)
    moreover have "pgdir_ok (fset t (unat (PTX va)) x s1) fl' d"
      using pgdir_okD(5) [OF ok1 t] by (auto intro!: pgdir_ok_cong [OF ok1] simp: fword_fset)
    ultimately show ?thesis
      unfolding k using m1 t' pteval_fset_table [OF ok1 t PTX_lt, of _ s1]
      by (simp add: mappable_def has_room_def frame_kva_nonzero)
  qed
  show ?thesis
  proof (cases "table_of s d (unat (PDX va))")
    case (Some t)
    show ?thesis
      using pgdir_walk_present [OF ok pages_invD(2) [OF inv] w Some] fin [OF assms(1) Some]
      by (intro exI [of _ "frame_kva t + 4 * PTX va"] exI [of _ s] exI [of _ fl]) simp
  next
    case None
    then have "unat (PDX va) \<in> {i \<in> I. table_of s d i = None}" using i by simp
    then have c: "card {i \<in> I. table_of s d i = None} = Suc (card ({i \<in> I. table_of s d i = None} - {unat (PDX va)}))"
      using I by (intro card.remove) simp_all
    have "fl \<noteq> []" using m [unfolded c] by (rule_tac notI) simp
    then obtain p fl1 where fl: "fl = p # fl1" by (cases fl) simp_all
    let ?i = "unat (PDX va)" and ?s = "install_table d (unat (PDX va)) p s"
    have i: "?i < 1024" "?i \<noteq> uvpt_index" using w by (simp_all add: walkable_def)
    note I = inv [unfolded fl] ok [unfolded fl]
    have T: "table_of ?s d j = (if j = ?i then Some p else table_of s d j)" for j
      using install_table_tables [OF I(2,1) i, of j] i(1) by (cases "j < 1024") (auto simp: table_of_def)
    have "{i \<in> I. table_of ?s d i = None} = {i \<in> I. table_of s d i = None} - {?i}" by (auto simp: T)
    then have P: "mappable ?s fl1 d I" "table_of ?s d ?i = Some p"
      using install_table_inv [OF I(1)] install_table_ok [OF I(2,1) i None] m c assms(1)
      by (simp_all add: T mappable_def has_room_def fl)
    have same: "j < 1024 \<Longrightarrow> pteval ?s d k j = pteval s d k j" for j k
    proof (cases "k < 1024")
      case True
      then show "j < 1024 \<Longrightarrow> ?thesis" by (rule install_table_pteval [OF I(2,1) i None])
    qed (simp add: pteval_def table_of_def)
    have "missing s d I = Suc (missing ?s d I)"
      unfolding missing_def using c \<open>{i \<in> I. table_of ?s d i = None} = {i \<in> I. table_of s d i = None} - {?i}\<close> by simp
    moreover have "fword s d ?i = 0" using None i by (auto simp: table_of_def split: if_splits)
    moreover have "d \<noteq> p" using pgdir_okD(2) [OF I(2)] by auto
    moreover have "nextfree ?s = nextfree s" "mmio_base ?s = mmio_base s" "kern_pgdir ?s = kern_pgdir s" "npages ?s = npages s"
        "curenv ?s = curenv s"
      by (simp_all add: install_table_def) (simp_all add: fset_def set_ref_def page_zero_def page_pop_def split: option.splits)
    ultimately have "grows s fl ?s fl1 d I"
      using assms(2) i entry_flags [of 7 p]
      by (auto simp: grows_def install_table_fword table_flags fl)
    then show ?thesis
      using pgdir_walk_create [OF I(2,1) w None] fin [OF P] same fl grows_trans
      by (intro exI [of _ "frame_kva p + 4 * PTX va"] exI [of _ ?s] exI [of _ fl1]) simp
  qed
qed


text \<open>The page of an address \<open>k\<close> pages above \<open>va\<close>.\<close>

definition nth_page :: "u32 \<Rightarrow> nat \<Rightarrow> u32" where
  "nth_page va k = va + of_nat (k * 4096)"

text \<open>The number of pages of a size, and what mapping the pages \<open>k\<close> to \<open>n\<close> of a region does.\<close>

definition npgs :: "u32 \<Rightarrow> nat" where
  "npgs sz = (unat sz + 4095) div 4096"

definition maps_range :: "kstate \<Rightarrow> kstate \<Rightarrow> nat \<Rightarrow> u32 \<Rightarrow> u32 \<Rightarrow> u32 \<Rightarrow> nat \<Rightarrow> nat \<Rightarrow> bool" where
  "maps_range s s' d va pa perm k n \<longleftrightarrow>
     (\<forall>va'. let v = unat (PGNUM va'); v0 = unat (PGNUM va) in pte_of s' d va' =
       (if v0 + k \<le> v \<and> v < v0 + n then nth_page pa (v - v0) OR perm OR PTE_P else pte_of s d va'))"

lemma maps_range_trans:
  "maps_range s s1 d va pa perm k m \<Longrightarrow> maps_range s1 s' d va pa perm m n \<Longrightarrow> k \<le> m \<Longrightarrow> m \<le> n
    \<Longrightarrow> maps_range s s' d va pa perm k n"
  unfolding maps_range_def Let_def by auto

lemma PGNUM_nth_page:
  assumes "unat va + n * 4096 \<le> 4294967296" "m < n"
  shows "unat (PGNUM (nth_page va m)) = unat va div 4096 + m"
proof -
  have "m * 4096 < 4294967296" "unat va + m * 4096 < 4294967296" using assms by auto
  then have "unat (nth_page va m) = unat va + m * 4096"
    unfolding nth_page_def using unat_upto_4G [of m] by (simp add: unat_word_ariths)
  then show ?thesis by (simp add: unat_PGNUM)
qed

lemma PGNUM_same_entry:
  "unat (PDX va') = unat (PDX va) \<and> unat (PTX va') = unat (PTX va) \<longleftrightarrow> PGNUM va' = PGNUM va"
  by (simp add: PGNUM_eq_iff flip: word_unat_eq_iff)

lemma npgs_less: "n = npgs sz \<Longrightarrow> k * 4096 < 4294967296 \<Longrightarrow> (of_nat (k * 4096) < sz) = (k < n)"
proof -
  assume n: "n = npgs sz" and k: "k * 4096 < 4294967296"
  have "(of_nat (k * 4096) < sz) = (k * 4096 < unat sz)"
    using unat_upto_4G [OF k] by (simp add: word_less_nat_alt del: of_nat_mult)
  also have "\<dots> = (k < n)" unfolding n npgs_def by linarith
  finally show ?thesis .
qed

lemma boot_map_loop_maps:
  assumes "mappable s fl d I" "n - k \<le> fuel" "k \<le> n" and n: "n = npgs sz"
    and lim: "unat va + n * 4096 \<le> 4294967296" "n * 4096 < 4294967296"
    and w: "\<And>m. m < n \<Longrightarrow> unat (PDX (nth_page va m)) \<in> I"
  shows "\<exists>s' fl'. boot_map_loop fuel False (frame_kva d) va sz pa perm (of_nat (k * 4096)) s
      = Ret () s' \<and> mappable s' fl' d I \<and> grows s fl s' fl' d I
      \<and> maps_range s s' d va pa perm k n"
  using assms(1-3)
proof (induction "n - k" arbitrary: s fl k fuel)
  case 0
  then have k: "k = n" by simp
  have "\<not> of_nat (k * 4096) < sz" using npgs_less [OF n] lim k by simp
  then show ?case
    using 0 k by (subst boot_map_loop.simps) (auto simp: maps_range_def Let_def grows_refl simp del: of_nat_mult)
next
  case (Suc x)
  then have k: "k < n" "x = n - Suc k" by auto
  then have k4: "k * 4096 < 4294967296" using lim by auto
  obtain fuel' where fuel: "fuel = Suc fuel'" using Suc.prems(2) k by (cases fuel) auto
  have lt: "of_nat (k * 4096) < sz" using npgs_less [OF n k4] k(1) by simp
  let ?x = "nth_page pa k OR perm OR PTE_P" and ?va = "nth_page va k"
  obtain e s1 fl1 where W: "pgdir_walk (frame_kva d) ?va True s = Ret e s1" "e \<noteq> 0"
      "mappable (kstore e ?x s1) fl1 d I" "grows s fl (kstore e ?x s1) fl1 d I"
      "\<And>i j. j < 1024 \<Longrightarrow> pteval (kstore e ?x s1) d i j = (if i = unat (PDX ?va) \<and> j = unat (PTX ?va)
          then ?x else pteval s d i j)"
    using walk_store [OF Suc.prems(1) w [OF k(1)], of ?x] by blast
  have s: "(of_nat (k * 4096) :: u32) + PGSIZE = of_nat (Suc k * 4096)" by (simp add: PGSIZE_def)
  have step: "boot_map_loop fuel False (frame_kva d) va sz pa perm (of_nat (k * 4096)) s
      = boot_map_loop fuel' False (frame_kva d) va sz pa perm (of_nat (Suc k * 4096)) (kstore e ?x s1)"
    using lt W(1,2) unfolding s [symmetric] nth_page_def fuel
    by (subst boot_map_loop.simps) (simp add: Let_def ac_simps)
  have "\<exists>s' fl'. boot_map_loop fuel' False (frame_kva d) va sz pa perm (of_nat (Suc k * 4096)) (kstore e ?x s1) = Ret () s'
      \<and> mappable s' fl' d I \<and> grows (kstore e ?x s1) fl1 s' fl' d I
      \<and> maps_range (kstore e ?x s1) s' d va pa perm (Suc k) n"
    using Suc k fuel by (intro Suc.hyps(1) [OF _ W(3)]) auto
  then obtain s' fl' where S: "boot_map_loop fuel' False (frame_kva d) va sz pa perm (of_nat (Suc k * 4096)) (kstore e ?x s1) = Ret () s'"
      "mappable s' fl' d I" "grows s fl s' fl' d I"
      "maps_range (kstore e ?x s1) s' d va pa perm (Suc k) n" using grows_trans [OF W(4)] by blast
  have P: "unat (PGNUM ?va) = unat (PGNUM va) + k" using PGNUM_nth_page [OF lim(1) k(1)] by (simp add: unat_PGNUM)
  have "pte_of (kstore e ?x s1) d va' = (if unat (PGNUM va') = unat (PGNUM va) + k then ?x else pte_of s d va')" for va'
    using PGNUM_same_entry [of va' ?va] by (simp only: W(5) [OF PTX_lt] P [symmetric] word_unat_eq_iff [of "PGNUM va'"])
  then have "maps_range s (kstore e ?x s1) d va pa perm k (Suc k)"
    unfolding maps_range_def Let_def by (auto simp: less_Suc_eq dest: le_antisym)
  from maps_range_trans [OF this S(4)] k(1) have "maps_range s s' d va pa perm k n" by simp
  then show ?case unfolding step using S(1-3) by blast
qed

lemma boot_map_region_runs:
  assumes "mappable s fl d I" and "unat va + npgs sz * 4096 \<le> 4294967296" "npgs sz * 4096 < 4294967296"
    and w: "\<And>m. m < npgs sz \<Longrightarrow> unat (PDX (nth_page va m)) \<in> I"
  shows "\<exists>s' fl'. boot_map_region False (frame_kva d) va sz pa perm s = Ret () s' \<and> mappable s' fl' d I
    \<and> grows s fl s' fl' d I \<and> maps_range s s' d va pa perm 0 (npgs sz)"
  using boot_map_loop_maps [OF assms(1) _ _ refl assms(2,3) w, of 0 1048577 pa perm] assms(3)
  by (simp add: boot_map_region_def)

text \<open>
  \<open>boot_map_region\<close> (in the build without large pages) maps each page of the region to the
  corresponding physical page with the permissions and \<open>PTE_P\<close>, and changes no other
  entry, when the region does not pass the end of the address space or the recursive slot and
  enough pages are free for the tables; the fuel is then enough.\<close>

theorem boot_map_region_maps:
  assumes "pages_inv s fl" "pgdir_ok s fl d" "n \<le> length fl"
    and "unat va + n * 4096 \<le> 4294967296" "n * 4096 < 4294967296"
    and "\<forall>m < n. walkable (nth_page va m)"
  shows "\<exists>s' fl'. boot_map_region False (frame_kva d) va (of_nat (n * 4096)) pa perm s = Ret () s'
     \<and> pages_inv s' fl' \<and> pgdir_ok s' fl' d \<and> maps_range s s' d va pa perm 0 n"
proof -
  let ?I = "(\<lambda>m. unat (PDX (nth_page va m))) ` {..<n}"
  have "card {i \<in> ?I. table_of s d i = None} \<le> card ?I" by (intro card_mono) auto
  also have "\<dots> \<le> n" using card_image_le [of "{..<n}"] by simp
  finally have "mappable s fl d ?I" using assms by (auto simp: mappable_def has_room_def walkable_def)
  moreover have "npgs (of_nat (n * 4096)) = n" unfolding npgs_def unat_upto_4G [OF assms(5)] by simp
  ultimately show ?thesis
    using boot_map_region_runs [of s fl d ?I va "of_nat (n * 4096)" pa perm] assms(4,5)
    by (auto simp: mappable_def simp del: of_nat_mult)
qed

theorem boot_map_region_maps_witness:
  "\<exists>s' fl'. boot_map_region False (frame_kva 4) 0x3FF000 (of_nat (2 * 4096)) 0x8000 2 small_machine = Ret () s'
     \<and> pgdir_ok s' fl' 4 \<and> maps_range small_machine s' 4 0x3FF000 0x8000 2 0 2"
proof -
  have w: "\<forall>m < 2. walkable (nth_page 0x3FF000 m)"
    by (auto simp: walkable_def nth_page_def uvpt_index_def unat_PDX less_2_cases_iff)
  show ?thesis
    using boot_map_region_maps [OF small_machine_inv small_machine_pgdir, of 2 "0x3FF000" "0x8000" 2] w
    by auto
qed

text \<open>
  \<open>boot_alloc\<close> returns the old end of the allocated memory and moves the end by the size
  rounded up to a page. It does so for every size: only the old end is compared with the
  amount of memory, so a request that runs past it does not panic, as the comment requires.\<close>

theorem boot_alloc_moves_end:
  assumes "nextfree s \<ge> KERNBASE" "nextfree s - KERNBASE \<le> of_nat (npages s) * PGSIZE"
  shows "boot_alloc kend n s = Ret (nextfree s)
    (if n = 0 then s else s\<lparr>nextfree := ROUNDUP (nextfree s + n) PGSIZE\<rparr>)"
proof -
  have nf: "nextfree s \<noteq> 0" using assms(1) by (auto simp: mmu_consts)
  then show ?thesis using assms by (simp add: boot_alloc_def PADDR_def not_less not_le)
qed

theorem boot_alloc_moves_end_witness:
  "\<exists>s'. boot_alloc 0 0x1000000 (bss_kstate\<lparr>npages := 512, nextfree := 0xF0140000\<rparr>) = Ret 0xF0140000 s'
     \<and> nextfree s' - KERNBASE > of_nat (npages s') * PGSIZE"
  using boot_alloc_moves_end [of "bss_kstate\<lparr>npages := 512, nextfree := 0xF0140000\<rparr>" 0 "0x1000000"]
  by (simp add: mmu_consts bss_kstate_def ROUNDUP_def ROUNDDOWN_def)

end
