(* ===== verification/Jos_Env.thy ===== *)
theory Jos_Env
  imports Jos_Paging
begin

text \<open>
  Environments: \<^verbatim>\<open>tps/kern/env.c\<close>. An environment is an entry of \<open>envs\<close>; its address space
  is the page directory at \<open>env_pgdir\<close>. The list of free environments is an interpretation
  of \<open>threaded_stack\<close>: unlike \<open>page_alloc\<close>, \<open>env_alloc\<close> leaves the link of what it takes.
\<close>

section \<open>Identifiers\<close>

definition LOG2NENV :: nat where "LOG2NENV = 10"
definition NENV :: nat where "NENV = 2 ^ LOG2NENV"

lemma NENV_eq [simp]: "NENV = 1024"
  by (simp add: NENV_def LOG2NENV_def)

definition ENVX :: "u32 \<Rightarrow> nat" where
  "ENVX envid = unat (envid AND (of_nat NENV - 1))"

definition ENVGENSHIFT :: nat where "ENVGENSHIFT = 12"

definition GD_KT :: u16 where "GD_KT = 0x08"
definition GD_UT :: u16 where "GD_UT = 0x18"
definition GD_UD :: u16 where "GD_UD = 0x20"
definition FL_IF :: u32 where "FL_IF = 0x200"
definition FL_IOPL_MASK :: u32 where "FL_IOPL_MASK = 0x3000"
definition FL_IOPL_3 :: u32 where "FL_IOPL_3 = 0x3000"

text \<open>The value stored through \<open>env_store\<close> comes with the return code.\<close>

definition envid2env :: "u32 \<Rightarrow> bool \<Rightarrow> (int \<times> nat option) kM" where
  "envid2env envid checkperm = (\<lambda>s.
     if envid = 0 then Ret (0, curenv s) s
     else
       let e = ENVX envid in
       if env_status (envs s e) = ENV_FREE \<or> env_id (envs s e) \<noteq> envid
       then Ret (- E_BAD_ENV, None) s
       else if checkperm \<and> curenv s \<noteq> Some e then
         (case curenv s of None \<Rightarrow> Panic ''page fault in the kernel''
          | Some c \<Rightarrow> if env_parent_id (envs s e) \<noteq> env_id (envs s c)
                      then Ret (- E_BAD_ENV, None) s else Ret (0, Some e) s)
       else Ret (0, Some e) s)"

section \<open>Initialisation\<close>

definition env_init :: "unit kM" where
  "env_init =
     kbind (kmodify (\<lambda>s. s\<lparr>env_free_list := Some 0\<rparr>)) (\<lambda>_.
     kbind (kfor [0..<NENV] (\<lambda>i. kmodify (upd_env i (\<lambda>e. e\<lparr>env_id := 0, env_link := Some (i + 1)\<rparr>)))) (\<lambda>_.
       kmodify (upd_env (NENV - 1) (\<lambda>e. e\<lparr>env_link := None\<rparr>))))"

definition env_setup_vm :: "nat \<Rightarrow> int kM" where
  "env_setup_vm e =
     kbind (page_alloc ALLOC_ZERO) (\<lambda>r. case r of
       None \<Rightarrow> kreturn (- E_NO_MEM)
     | Some p \<Rightarrow>
         kbind (page_incref p) (\<lambda>_.
         kbind (page2kva p) (\<lambda>kva.
         kbind (kmodify (upd_env e (\<lambda>v. v\<lparr>env_pgdir := kva\<rparr>))) (\<lambda>_.
         kbind (kmodify (\<lambda>s. kmemcpy kva (kern_pgdir s) PGSIZE s)) (\<lambda>_.
         kbind (PADDR kva) (\<lambda>pa.
         kbind (kmodify (kstore (kva + 4 * PDX UVPT) (pa OR PTE_P OR PTE_U))) (\<lambda>_.
           kreturn 0)))))))"

text \<open>The next identifier for slot \<open>e\<close>: \<open>int32_t\<close> arithmetic on a word.\<close>

definition next_env_id :: "u32 \<Rightarrow> nat \<Rightarrow> u32" where
  "next_env_id old e =
    (let generation = (old + push_bit ENVGENSHIFT 1) AND NOT (of_nat NENV - 1);
         generation' = (if sint generation \<le> 0 then push_bit ENVGENSHIFT 1 else generation)
     in generation' OR of_nat e)"

definition fresh_tf :: Trapframe where
  "fresh_tf = zero_tf\<lparr>tf_ds := GD_UD OR 3, tf_es := GD_UD OR 3, tf_ss := GD_UD OR 3,
     tf_esp := USTACKTOP, tf_cs := GD_UT OR 3, tf_eflags := tf_eflags zero_tf OR FL_IF\<rparr>"

definition env_alloc :: "u32 \<Rightarrow> (int \<times> nat option) kM" where
  "env_alloc parent_id = (\<lambda>s. case env_free_list s of
     None \<Rightarrow> Ret (- E_NO_FREE_ENV, None) s
   | Some e \<Rightarrow>
       kbind (env_setup_vm e) (\<lambda>r.
         if r < 0 then kreturn (r, None)
         else
           kbind (kmodify (upd_env e (\<lambda>v. v\<lparr>
               env_id := next_env_id (env_id v) e, env_parent_id := parent_id,
               env_type := ENV_TYPE_USER, env_status := ENV_RUNNABLE, env_runs := 0,
               env_tf := fresh_tf, env_pgfault_upcall := 0, env_ipc_recving := False\<rparr>))) (\<lambda>_.
           kbind (kmodify (\<lambda>s. s\<lparr>env_free_list := env_link (envs s e)\<rparr>)) (\<lambda>_.
             kreturn (0, Some e)))) s)"

section \<open>Loading a program\<close>

text \<open>
  The loop of \<open>region_alloc\<close>, with \<open>2 ^ 20\<close> steps of fuel: \<open>address\<close> and \<open>fin\<close> are multiples
  of the page size, and there are that many pages.
\<close>

fun region_alloc_loop :: "nat \<Rightarrow> nat \<Rightarrow> u32 \<Rightarrow> u32 \<Rightarrow> unit kM" where
  "region_alloc_loop fuel e address fin =
    (if \<not> address < fin then kreturn ()
     else if fuel = 0 then (\<lambda>s. OutOfFuel)
     else
       kbind (page_alloc ALLOC_ZERO) (\<lambda>r. case r of
         None \<Rightarrow> kpanic ''Oh no! page_alloc failed in region_alloc!''
       | Some pp \<Rightarrow>
           kbind (kget (\<lambda>s. env_pgdir (envs s e))) (\<lambda>pgdir.
           kbind (page_insert pgdir pp address (PTE_P OR PTE_U OR PTE_W)) (\<lambda>_.
             region_alloc_loop (fuel - 1) e (address + PGSIZE) fin))))"

declare region_alloc_loop.simps [simp del]

definition region_alloc :: "nat \<Rightarrow> u32 \<Rightarrow> u32 \<Rightarrow> unit kM" where
  "region_alloc e va len =
     region_alloc_loop 1048576 e (ROUNDDOWN va PGSIZE) (ROUNDUP (va + len) PGSIZE)"

text \<open>
  The headers are read from the image: \<open>e_entry\<close>, \<open>e_phoff\<close> and \<open>e_phnum\<close> are at bytes 24,
  28 and 44 of \<open>struct Elf\<close>, and \<open>p_type\<close>, \<open>p_offset\<close>, \<open>p_va\<close>, \<open>p_filesz\<close> and \<open>p_memsz\<close> at
  bytes 0, 4, 8, 16 and 20 of \<open>struct Proghdr\<close>, whose size is 32.
\<close>

definition ELF_MAGIC :: u32 where "ELF_MAGIC = 0x464C457F"
definition ELF_PROG_LOAD :: u32 where "ELF_PROG_LOAD = 1"

definition kload16 :: "u32 \<Rightarrow> kstate \<Rightarrow> u16" where
  "kload16 kva s = ucast (pmem s (kphys kva)) OR push_bit 8 (ucast (pmem s (kphys (kva + 1))))"

fun load_segments :: "nat \<Rightarrow> nat \<Rightarrow> u32 \<Rightarrow> u32 \<Rightarrow> u32 \<Rightarrow> unit kM" where
  "load_segments fuel e binary ph eph =
    (if \<not> ph < eph then kreturn ()
     else if fuel = 0 then (\<lambda>s. OutOfFuel)
     else
       kbind (kget (kload ph)) (\<lambda>p_type.
       kbind (if p_type = ELF_PROG_LOAD then
                kbind (kget (kload (ph + 4))) (\<lambda>p_offset.
                kbind (kget (kload (ph + 8))) (\<lambda>p_va.
                kbind (kget (kload (ph + 16))) (\<lambda>p_filesz.
                kbind (kget (kload (ph + 20))) (\<lambda>p_memsz.
                kbind (region_alloc e p_va p_memsz) (\<lambda>_.
                kbind (vmemset p_va 0 p_memsz) (\<lambda>_.
                  vmemcpy p_va (binary + p_offset) p_filesz))))))
              else kreturn ()) (\<lambda>_.
         load_segments (fuel - 1) e binary (ph + 32) eph)))"

declare load_segments.simps [simp del]

definition load_icode :: "nat \<Rightarrow> u32 \<Rightarrow> unit kM" where
  "load_icode e binary =
     kbind (kget (kload binary)) (\<lambda>e_magic.
     if e_magic \<noteq> ELF_MAGIC then kpanic ''Invalid Elf!''
     else
       kbind (kget (kload (binary + 28))) (\<lambda>e_phoff.
       kbind (kget (kload16 (binary + 44))) (\<lambda>e_phnum.
       let ph = binary + e_phoff; eph = ph + 32 * ucast e_phnum in
       kbind (kget (\<lambda>s. env_pgdir (envs s e))) (\<lambda>pgdir.
       kbind (PADDR pgdir) (\<lambda>pa.
       kbind (lcr3 pa) (\<lambda>_.
       kbind (load_segments (unat e_phnum) e binary ph eph) (\<lambda>_.
       kbind (kget kern_pgdir) (\<lambda>kpgdir.
       kbind (PADDR kpgdir) (\<lambda>kpa.
       kbind (lcr3 kpa) (\<lambda>_.
       kbind (kget (kload (binary + 24))) (\<lambda>e_entry.
       kbind (kmodify (upd_env e (\<lambda>v. v\<lparr>env_tf := (env_tf v)\<lparr>tf_eip := e_entry\<rparr>\<rparr>))) (\<lambda>_.
         region_alloc e (USTACKTOP - PGSIZE) PGSIZE))))))))))))"

definition env_create :: "u32 \<Rightarrow> EnvType \<Rightarrow> unit kM" where
  "env_create binary type =
     kbind (env_alloc 0) (\<lambda>(err, eo). case eo of
       None \<Rightarrow> kpanic ''env_create failed''
     | Some e \<Rightarrow>
         if err < 0 then kpanic ''env_create failed''
         else
           kbind (load_icode e binary) (\<lambda>_.
           kbind (kmodify (upd_env e (\<lambda>v. v\<lparr>env_type := type\<rparr>))) (\<lambda>_.
             if type = ENV_TYPE_FS
             then kmodify (upd_env e (\<lambda>v. v\<lparr>env_tf := (env_tf v)\<lparr>tf_eflags := tf_eflags (env_tf v) OR FL_IOPL_3\<rparr>\<rparr>))
             else kreturn ())))"

section \<open>Freeing\<close>

text \<open>The entries of one page table, then the page table itself.\<close>

definition env_free_table :: "nat \<Rightarrow> nat \<Rightarrow> unit kM" where
  "env_free_table e pdeno =
     kbind (kget (\<lambda>s. kload (env_pgdir (envs s e) + 4 * of_nat pdeno) s)) (\<lambda>pde.
     if pde AND PTE_P = 0 then kreturn ()
     else
       kbind (KADDR (PTE_ADDR pde)) (\<lambda>pt.
       kbind (kfor [0..<1024] (\<lambda>pteno.
         kbind (kget (kload (pt + 4 * of_nat pteno))) (\<lambda>pte.
           if pte AND PTE_P \<noteq> 0
           then kbind (kget (\<lambda>s. env_pgdir (envs s e))) (\<lambda>pgdir.
                  page_remove pgdir (PGADDR (of_nat pdeno) (of_nat pteno) 0))
           else kreturn ()))) (\<lambda>_.
       kbind (kmodify (\<lambda>s. kstore (env_pgdir (envs s e) + 4 * of_nat pdeno) 0 s)) (\<lambda>_.
       kbind (pa2page (PTE_ADDR pde)) page_decref))))"

definition env_free :: "nat \<Rightarrow> unit kM" where
  "env_free e =
     kbind (kget (\<lambda>s. curenv s = Some e)) (\<lambda>cur.
     kbind (if cur then kbind (kget kern_pgdir) (\<lambda>kpgdir. kbind (PADDR kpgdir) lcr3) else kreturn ()) (\<lambda>_.
     kbind (kfor [0..<unat (PDX UTOP)] (env_free_table e)) (\<lambda>_.
     kbind (kget (\<lambda>s. env_pgdir (envs s e))) (\<lambda>pgdir.
     kbind (PADDR pgdir) (\<lambda>pa.
     kbind (kmodify (upd_env e (\<lambda>v. v\<lparr>env_pgdir := 0\<rparr>))) (\<lambda>_.
     kbind (kbind (pa2page pa) page_decref) (\<lambda>_.
       kmodify (\<lambda>s. (upd_env e (\<lambda>v. v\<lparr>env_status := ENV_FREE, env_link := env_free_list s\<rparr>) s)
         \<lparr>env_free_list := Some e\<rparr>))))))))"

section \<open>Running\<close>

text \<open>\<open>env_pop_tf\<close> ends the kernel's part: the registers come from \<open>env_tf\<close>.\<close>

definition env_pop_tf :: "nat \<Rightarrow> 'a kM" where
  "env_pop_tf e = (\<lambda>s. case curenv s of
     None \<Rightarrow> Panic ''page fault in the kernel''
   | Some c \<Rightarrow> NoRet (Run e) (upd_env c (\<lambda>v. v\<lparr>env_cpunum := cpunum s\<rparr>) s))"

definition env_run :: "nat \<Rightarrow> 'a kM" where
  "env_run e =
     kbind (kmodify (\<lambda>s. case curenv s of
       None \<Rightarrow> s
     | Some c \<Rightarrow> if env_status (envs s c) = ENV_RUNNING
                 then upd_env c (\<lambda>v. v\<lparr>env_status := ENV_RUNNABLE\<rparr>) s else s)) (\<lambda>_.
     kbind (kmodify (set_curenv (Some e))) (\<lambda>_.
     kbind (kmodify (upd_env e (\<lambda>v. v\<lparr>env_status := ENV_RUNNING, env_runs := env_runs v + 1\<rparr>))) (\<lambda>_.
     kbind (kget (\<lambda>s. env_pgdir (envs s e))) (\<lambda>pgdir.
     kbind (PADDR pgdir) (\<lambda>pa.
     kbind (lcr3 pa) (\<lambda>_.
     kbind unlock_kernel (\<lambda>_.
       env_pop_tf e)))))))"

section \<open>The free environments\<close>

definition env_take :: "kstate \<Rightarrow> kstate" where
  "env_take s = (case env_free_list s of None \<Rightarrow> s
     | Some e \<Rightarrow> s\<lparr>env_free_list := env_link (envs s e)\<rparr>)"

definition env_give :: "nat \<Rightarrow> kstate \<Rightarrow> kstate" where
  "env_give e s = (upd_env e (\<lambda>v. v\<lparr>env_status := ENV_FREE, env_link := env_free_list s\<rparr>) s)
     \<lparr>env_free_list := Some e\<rparr>"

interpretation envfl: threaded_stack env_free_list "\<lambda>s e. env_link (envs s e)" env_take env_give
  by unfold_locales (auto simp: env_take_def env_give_def split: option.splits)

lemma env_init_links:
  "\<exists>s'. kfor [0..<n] (\<lambda>i. kmodify (upd_env i (\<lambda>e. e\<lparr>env_id := 0, env_link := Some (i + 1)\<rparr>))) s = Ret () s'
     \<and> env_free_list s' = env_free_list s
     \<and> (\<forall>i. envs s' i = (if i < n then (envs s i)\<lparr>env_id := 0, env_link := Some (i + 1)\<rparr> else envs s i))"
  (is "\<exists>s'. kfor _ ?f s = _ \<and> _")
proof (induction n)
  case (Suc n)
  then obtain s' where s': "kfor [0..<n] ?f s = Ret () s'" "env_free_list s' = env_free_list s"
     "\<forall>i. envs s' i = (if i < n then (envs s i)\<lparr>env_id := 0, env_link := Some (i + 1)\<rparr> else envs s i)"
    by blast
  have "kfor [0..<Suc n] ?f s = Ret () (upd_env n (\<lambda>e. e\<lparr>env_id := 0, env_link := Some (n + 1)\<rparr>) s')"
    using kfor_snoc [OF s'(1), of n] by (simp only: upt_Suc_append [OF le0] kmodify_run)
  moreover have "\<forall>i. envs (upd_env n (\<lambda>e. e\<lparr>env_id := 0, env_link := Some (n + 1)\<rparr>) s') i =
      (if i < Suc n then (envs s i)\<lparr>env_id := 0, env_link := Some (i + 1)\<rparr> else envs s i)"
    using s'(3) by (auto simp: less_Suc_eq)
  moreover have "env_free_list (upd_env n (\<lambda>e. e\<lparr>env_id := 0, env_link := Some (n + 1)\<rparr>) s') = env_free_list s"
    using s'(2) by simp
  ultimately show ?case by blast
qed simp

lemma chain_upto:
  "k \<le> n \<Longrightarrow> n > 0 \<Longrightarrow> (\<And>i. k \<le> i \<Longrightarrow> i < n \<Longrightarrow> lk i = (if Suc i = n then None else Some (Suc i))) \<Longrightarrow>
     chain lk (if k = n then None else Some k) [k..<n]"
proof (induction "n - k" arbitrary: k)
  case (Suc d)
  then have "chain lk (if Suc k = n then None else Some (Suc k)) [Suc k..<n]" by simp
  with Suc show ?case by (simp add: upt_conv_Cons chain_Cons split: if_splits)
qed simp

text \<open>
  After \<open>env_init\<close> the free list is the whole array in its order, so the first call of
  \<open>env_alloc\<close> takes \<open>envs[0]\<close>, and every identifier is 0.\<close>

theorem env_init_list:
  "\<exists>s'. env_init s = Ret () s' \<and> envfl.represents s' [0..<NENV] \<and> (\<forall>e < NENV. env_id (envs s' e) = 0)"
proof -
  obtain s' where s': "kfor [0..<1024] (\<lambda>i. kmodify (upd_env i (\<lambda>e. e\<lparr>env_id := 0, env_link := Some (i + 1)\<rparr>)))
      (s\<lparr>env_free_list := Some 0\<rparr>) = Ret () s'" "env_free_list s' = Some 0"
     "\<forall>i. envs s' i = (if i < 1024 then (envs s i)\<lparr>env_id := 0, env_link := Some (i + 1)\<rparr> else envs s i)"
    using env_init_links [of 1024 "s\<lparr>env_free_list := Some 0\<rparr>"] by auto
  let ?s = "upd_env 1023 (\<lambda>e. e\<lparr>env_link := None\<rparr>) s'"
  have "env_init s = Ret () ?s" using s'(1) by (simp add: env_init_def kbind_run)
  moreover have "chain (\<lambda>e. env_link (envs ?s e)) (Some 0) [0..<1024]"
    using chain_upto [of 0 1024 "\<lambda>e. env_link (envs ?s e)"] s'(3) by auto
  ultimately show ?thesis
    using s'(2,3) by (auto simp: envfl.represents_def)
qed

theorem env_init_list_witness:
  "\<exists>s'. env_init bss_kstate = Ret () s' \<and> envfl.represents s' [0..<NENV]"
  using env_init_list [of bss_kstate] by blast

section \<open>Identifiers\<close>

lemma NENV_mask: "(of_nat NENV - 1 :: u32) = mask 10"
  by (simp add: mask_eq_exp_minus_1)

lemma ENVX_mod: "ENVX envid = unat envid mod 1024"
  unfolding ENVX_def NENV_mask by (simp add: unat_take_bit_word flip: take_bit_eq_mask)

lemma ENVX_lt [simp]: "ENVX envid < 1024"
  by (simp add: ENVX_mod)

lemma high_bits: "unat (w AND NOT (mask 10) :: u32) = unat w div 1024 * 1024"
proof -
  have "w AND NOT (mask 10) = push_bit 10 (drop_bit 10 w)"
    by (rule bit_word_eqI) (auto simp: bit_simps)
  moreover have "unat (drop_bit 10 w) = unat w div 1024" by (simp add: unat_drop_bit_word)
  moreover have "unat w div 1024 * 1024 < 4294967296"
    using div_times_less_eq_dividend [of "unat w" 1024] unat_word_lt32 [of w] by linarith
  ultimately show ?thesis by (simp add: push_bit_eq_mult unat_word_ariths)
qed

lemma or_index:
  assumes "e < 1024"
  shows "((w AND NOT (mask 10)) OR of_nat e :: u32) = (w AND NOT (mask 10)) + of_nat e"
proof -
  have "take_bit 10 (of_nat e :: u32) = of_nat e" using assms by (intro take_bit_same) simp
  then have "(w AND NOT (mask 10)) AND of_nat e = (w AND NOT (mask 10)) AND take_bit 10 (of_nat e)" by simp
  also have "\<dots> = 0" by (rule bit_word_eqI) (auto simp: bit_simps)
  finally show ?thesis using word_plus_and_or [of "w AND NOT (mask 10)" "of_nat e"] by simp
qed

lemma next_env_id_props:
  assumes "e < NENV"
  shows "0 < sint (next_env_id old e)" "ENVX (next_env_id old e) = e" "next_env_id old e \<noteq> old"
    "next_env_id old e \<noteq> 0"
proof -
  let ?gen = "(old + 4096) AND NOT (mask 10) :: u32"
  define g where "g = (if sint ?gen \<le> 0 then 4096 else ?gen)"
  have e: "e < 1024" using assms by simp
  have id: "next_env_id old e = g OR of_nat e"
    unfolding next_env_id_def Let_def NENV_mask g_def by (simp add: ENVGENSHIFT_def)
  have ug: "unat ?gen = (unat old + 4096) mod 4294967296 div 1024 * 1024"
    unfolding high_bits by (simp add: unat_word_ariths)
  have "\<exists>q. unat g = 1024 * q \<and> 0 < q \<and> q < 2097152"
  proof (cases "sint ?gen \<le> 0")
    case True
    then show ?thesis by (intro exI [of _ 4]) (simp add: g_def)
  next
    case False
    with ug show ?thesis
      by (intro exI [of _ "(unat old + 4096) mod 4294967296 div 1024"]) (auto simp: g_def sint32 split: if_splits)
  qed
  then obtain q where q: "unat g = 1024 * q" "0 < q" "q < 2097152" by blast
  have "g = g AND NOT (mask 10)" using q(1) by (simp add: word_unat_eq_iff high_bits)
  then have "g OR of_nat e = g + of_nat e" using or_index [OF e, of g] by simp
  moreover have "unat (g + of_nat e) = 1024 * q + e" using q e by (simp add: unat_word_ariths)
  ultimately have u: "unat (next_env_id old e) = 1024 * q + e" by (simp add: id)
  have lt: "1024 * q + e < 2147483648" using q e by simp
  have "ENVX (next_env_id old e) = e" using e by (simp add: ENVX_mod u)
  moreover have "0 < sint (next_env_id old e)" using lt q(2) by (simp add: sint32 u)
  moreover have "1024 * q + e \<noteq> unat old"
  proof
    assume o: "1024 * q + e = unat old"
    have "(1024 * q + e + 4096) div 1024 = q + 4" using e by presburger
    with o have "unat ?gen = 1024 * (q + 4)" using lt e ug by (simp flip: o)
    with lt e q show False by (auto simp: g_def sint32 split: if_splits)
  qed
  ultimately show "0 < sint (next_env_id old e)" "ENVX (next_env_id old e) = e"
    "next_env_id old e \<noteq> old" "next_env_id old e \<noteq> 0"
    by (auto simp: u [symmetric])
qed

text \<open>
  The identifier of a new environment is positive, its low bits are the slot, and it differs
  from the one the slot had before, whatever that was, so a stale identifier is recognised;
  the generation counter wraps round to \<open>1 << ENVGENSHIFT\<close> when it would turn negative.\<close>

theorem next_env_id_fresh:
  assumes "e < NENV"
  shows "0 < sint (next_env_id old e) \<and> ENVX (next_env_id old e) = e \<and> next_env_id old e \<noteq> old"
  using next_env_id_props [OF assms] by simp

theorem next_env_id_fresh_witness:
  "0 < sint (next_env_id 0x7FFFF005 5) \<and> ENVX (next_env_id 0x7FFFF005 5) = 5"
  using next_env_id_fresh [of 5 "0x7FFFF005"] by simp

section \<open>Creating an environment\<close>

lemma fword_memmove_page:
  "j < 1024 \<Longrightarrow> fword (s\<lparr>pmem := memmove (p * 4096) (q * 4096) 4096 (pmem s)\<rparr>) g j =
     (if g = p then fword s q j else fword s g j)"
proof -
  assume j: "j < 1024"
  consider "g = p" | "g < p" | "p < g" by linarith
  then show ?thesis
    using j by cases (simp_all add: fword_def load32_memmove_in)
qed

definition vm_ready :: "nat \<Rightarrow> nat \<Rightarrow> nat \<Rightarrow> kstate \<Rightarrow> kstate" where
  "vm_ready e p kd s =
    (let s1 = upd_env e (\<lambda>v. v\<lparr>env_pgdir := frame_kva p\<rparr>) (set_ref p 1 (page_zero p (page_pop s)))
     in fset p uvpt_index (page2pa p OR PTE_P OR PTE_U)
          (s1\<lparr>pmem := memmove (p * 4096) (kd * 4096) 4096 (pmem s1)\<rparr>))"

lemma kphys_frame_kva: "f < 65536 \<Longrightarrow> kphys (frame_kva f) = f * 4096"
  by (simp add: frame_kva_def unat_page2pa)

lemma frame_kva_ge: "f < 65536 \<Longrightarrow> KERNBASE \<le> frame_kva f"
  by (simp add: frame_kva_def word_le_nat_alt unat_word_ariths unat_page2pa KERNBASE_def)

lemma PADDR_frame_kva [simp]: "f < 65536 \<Longrightarrow> PADDR (frame_kva f) s = Ret (page2pa f) s"
  using frame_kva_ge [of f] by (simp add: PADDR_def not_less frame_kva_def)

lemma fword_upd_env [simp]: "fword (upd_env e f s) g i = fword s g i"
  by (simp add: fword_def)

lemma env_setup_vm_run:
  assumes inv: "pages_inv s (p # fl)" and k: "kern_pgdir s = frame_kva kd" "kd < npages s"
  shows "env_setup_vm e s = Ret 0 (vm_ready e p kd s)"
proof -
  have np: "npages s \<le> 65536" and p: "p < npages s" "pp_ref (pages s p) = 0"
    using pages_invD [OF inv] by auto
  have u: "unat (PDX UVPT) = uvpt_index" by (simp add: uvpt_index_PDX)
  have st: "kstore (frame_kva p + 4 * PDX UVPT) w t = fset p uvpt_index w t" for w t
    unfolding u [symmetric] using p np by (intro kstore_frame) simp_all
  have cp: "kmemcpy (frame_kva p) (frame_kva kd) PGSIZE t =
      t\<lparr>pmem := memmove (p * 4096) (kd * 4096) 4096 (pmem t)\<rparr>" for t
    using p k np by (simp add: kmemcpy_def kphys_frame_kva PGSIZE_def)
  show ?thesis
    using p np k
    by (simp add: env_setup_vm_def page_alloc_zeroed [OF inv] page_incref_def page2kva_def
        KADDR_page2pa st cp vm_ready_def Let_def flip: frame_kva_def)
qed

lemma vm_ready_props:
  assumes inv: "pages_inv s (p # fl)" and kd: "kd \<noteq> p"
  shows "pages_inv (vm_ready e p kd s) fl"
    and "j < 1024 \<Longrightarrow> fword (vm_ready e p kd s) g j =
      (if g = p then (if j = uvpt_index then page2pa p OR PTE_P OR PTE_U else fword s kd j)
       else fword s g j)"
    and "pp_ref (pages (vm_ready e p kd s) q) = (if q = p then 1 else pp_ref (pages s q))"
    and "envs (vm_ready e p kd s) = (envs s)(e := (envs s e)\<lparr>env_pgdir := frame_kva p\<rparr>)"
    and "npages (vm_ready e p kd s) = npages s"
proof -
  have "pages_inv (set_ref p 1 (page_zero p (page_pop s))) fl"
    using pages_inv_pop [OF inv] pages_invD(3) [OF inv] by (intro pages_inv_set_ref) auto
  then show "pages_inv (vm_ready e p kd s) fl"
    by (simp add: vm_ready_def Let_def) (erule pages_inv_cong; simp)
  show "j < 1024 \<Longrightarrow> fword (vm_ready e p kd s) g j =
      (if g = p then (if j = uvpt_index then page2pa p OR PTE_P OR PTE_U else fword s kd j)
       else fword s g j)"
    using kd by (simp add: vm_ready_def Let_def fword_fset fword_memmove_page fword_page_zero uvpt_index_def
        del: upd_env_frame)
qed (auto simp: vm_ready_def Let_def)

lemma vm_ready_frame [simp]: "cpus (vm_ready e p kd s) = cpus s" "cpunum (vm_ready e p kd s) = cpunum s"
  by (simp_all add: vm_ready_def Let_def fset_def set_ref_def page_zero_def)

lemma vm_ready_pmem: "x div 4096 \<noteq> p \<Longrightarrow> pmem (vm_ready e p kd s) x = pmem s x"
  "kern_pgdir (vm_ready e p kd s) = kern_pgdir s"
proof -
  show "kern_pgdir (vm_ready e p kd s) = kern_pgdir s" by (simp add: vm_ready_def Let_def)
  assume "x div 4096 \<noteq> p"
  then have "x < p * 4096 \<or> p * 4096 + 4096 \<le> x" by (cases "x < p * 4096") auto
  then show "pmem (vm_ready e p kd s) x = pmem s x"
    by (auto simp: vm_ready_def Let_def fset_def store32_away page_zero_def memset_def memmove_def uvpt_index_def)
qed

lemma env_alloc_run:
  assumes "pages_inv s (p # fl)" "env_free_list s = Some e" "e < NENV"
    and "kern_pgdir s = frame_kva kd" "kd < npages s" "kd \<noteq> p"
  shows "\<exists>s'. env_alloc parent s = Ret (0, Some e) s' \<and> pages_inv s' fl
     \<and> env_free_list s' = env_link (envs s e) \<and> (\<forall>e'. e' \<noteq> e \<longrightarrow> envs s' e' = envs s e')
     \<and> env_pgdir (envs s' e) = frame_kva p \<and> pp_ref (pages s' p) = 1
     \<and> (\<forall>i < 1024. fword s' p i = (if i = uvpt_index then page2pa p OR PTE_P OR PTE_U else fword s kd i))
     \<and> env_status (envs s' e) = ENV_RUNNABLE \<and> env_tf (envs s' e) = fresh_tf
     \<and> env_parent_id (envs s' e) = parent \<and> env_id (envs s' e) = next_env_id (env_id (envs s e)) e
     \<and> cpus s' = cpus s \<and> cpunum s' = cpunum s \<and> npages s' = npages s \<and> kern_pgdir s' = kern_pgdir s
     \<and> (\<forall>x. x div 4096 \<noteq> p \<longrightarrow> pmem s' x = pmem s x)
     \<and> envid2env (env_id (envs s' e)) False s' = Ret (0, Some e) s'"
proof -
  let ?s1 = "vm_ready e p kd s"
  define new :: "Env \<Rightarrow> Env" where "new = (\<lambda>v. v\<lparr>env_id := next_env_id (env_id v) e, env_parent_id := parent,
      env_type := ENV_TYPE_USER, env_status := ENV_RUNNABLE, env_runs := 0,
      env_tf := fresh_tf, env_pgfault_upcall := 0, env_ipc_recving := False\<rparr>)"
  let ?s2 = "upd_env e new ?s1"
  let ?s' = "?s2\<lparr>env_free_list := env_link (envs ?s2 e)\<rparr>"
  note V = vm_ready_props [OF assms(1,6), where e = e]
  have run: "env_alloc parent s = Ret (0, Some e) ?s'"
    using env_setup_vm_run [OF assms(1,4,5), of e] by (simp add: env_alloc_def assms(2) new_def)
  have E: "envs ?s' = (envs s)(e := new ((envs s e)\<lparr>env_pgdir := frame_kva p\<rparr>))"
    by (simp add: V(4))
  have inv: "pages_inv ?s' fl" by (rule pages_inv_cong [OF V(1)]) simp_all
  have w: "i < 1024 \<Longrightarrow> fword ?s' p i = (if i = uvpt_index then page2pa p OR PTE_P OR PTE_U
      else fword s kd i)" for i
  proof -
    assume i: "i < 1024"
    have "fword ?s' p i = fword ?s1 p i" by (simp add: fword_def)
    then show ?thesis using i by (simp only: V(2) if_True refl)
  qed
  have id: "ENVX (env_id (envs ?s' e)) = e" "env_id (envs ?s' e) \<noteq> 0"
    using next_env_id_props [OF assms(3), of "env_id (envs s e)"] by (auto simp: V(4) new_def)
  have st: "env_status (envs ?s' e) = ENV_RUNNABLE" by (simp add: new_def)
  have "envid2env (env_id (envs ?s' e)) False ?s' = Ret (0, Some e) ?s'"
    using id st by (simp add: envid2env_def Let_def)
  with run inv w show ?thesis
    by (intro exI [of _ ?s'] conjI) (simp_all add: V new_def vm_ready_frame vm_ready_pmem)
qed

text \<open>
  Property C14. A successful \<open>env_alloc\<close>: it takes the first free slot and the first free page, the new
  address space is the kernel's above \<open>UTOP\<close> with the recursive entry at \<open>UVPT\<close>, the
  environment is runnable with user segments and interrupts enabled, no other environment
  changes, and the identifier finds it: \<open>envid2env\<close> inverts the allocation.\<close>

theorem env_alloc_creates:
  assumes "pages_inv s (p # fl)" "env_free_list s = Some e" "e < NENV"
    and "kern_pgdir s = frame_kva kd" "kd < npages s" "kd \<noteq> p"
  shows "\<exists>s'. env_alloc parent s = Ret (0, Some e) s' \<and> pages_inv s' fl
     \<and> env_free_list s' = env_link (envs s e) \<and> (\<forall>e'. e' \<noteq> e \<longrightarrow> envs s' e' = envs s e')
     \<and> env_pgdir (envs s' e) = frame_kva p \<and> pp_ref (pages s' p) = 1
     \<and> (\<forall>i < 1024. fword s' p i = (if i = uvpt_index then page2pa p OR PTE_P OR PTE_U else fword s kd i))
     \<and> env_status (envs s' e) = ENV_RUNNABLE \<and> env_tf (envs s' e) = fresh_tf
     \<and> env_parent_id (envs s' e) = parent
     \<and> envid2env (env_id (envs s' e)) False s' = Ret (0, Some e) s'"
  using env_alloc_run [OF assms, of parent] by blast

text \<open>
  \<open>env_alloc\<close> fails without side effects: with no free slot it returns \<open>-E_NO_FREE_ENV\<close>, with
  no free page \<open>-E_NO_MEM\<close>, and in both cases the kernel state is unchanged, so that the
  slot is not lost.\<close>

theorem env_alloc_errors:
  "(env_free_list s = None \<longrightarrow> env_alloc parent s = Ret (- E_NO_FREE_ENV, None) s)
   \<and> (env_free_list s \<noteq> None \<longrightarrow> page_free_list s = None \<longrightarrow>
        env_alloc parent s = Ret (- E_NO_MEM, None) s)"
  by (auto simp: env_alloc_def env_setup_vm_def page_alloc_none E_NO_MEM_def)

theorem env_alloc_errors_witness:
  "env_alloc 0 bss_kstate = Ret (- E_NO_FREE_ENV, None) bss_kstate
   \<and> env_alloc 0 (bss_kstate\<lparr>env_free_list := Some 3\<rparr>)
       = Ret (- E_NO_MEM, None) (bss_kstate\<lparr>env_free_list := Some 3\<rparr>)"
  using env_alloc_errors [of bss_kstate 0] env_alloc_errors [of "bss_kstate\<lparr>env_free_list := Some 3\<rparr>" 0]
  by (simp add: bss_kstate_def)

definition boot_machine :: kstate where
  "boot_machine = small_machine\<lparr>env_free_list := Some 7, kern_pgdir := frame_kva 4\<rparr>"

theorem env_alloc_creates_witness:
  "\<exists>s'. env_alloc 9 boot_machine = Ret (0, Some 7) s' \<and> pages_inv s' [6]
     \<and> env_pgdir (envs s' 7) = frame_kva 5
     \<and> envid2env (env_id (envs s' 7)) False s' = Ret (0, Some 7) s'"
proof -
  have "pages_inv boot_machine [5, 6]"
    using small_machine_inv by (rule pages_inv_cong) (simp_all add: boot_machine_def)
  from env_alloc_creates [OF this, of 7 4 9] show ?thesis by (auto simp: boot_machine_def)
qed

section \<open>Looking up an environment\<close>

text \<open>
  What \<open>envid2env\<close> accepts, for any identifier but 0: the slot in its low bits is in use and
  still carries that identifier, and with \<open>checkperm\<close> it is the caller itself or one of its
  children. Everything else is \<open>-E_BAD_ENV\<close> with a null result. The state never changes.\<close>

theorem envid2env_exact:
  assumes "curenv s = Some c" "envid \<noteq> 0"
  shows "envid2env envid checkperm s =
    (let e = ENVX envid in
     if env_status (envs s e) \<noteq> ENV_FREE \<and> env_id (envs s e) = envid
        \<and> (\<not> checkperm \<or> e = c \<or> env_parent_id (envs s e) = env_id (envs s c))
     then Ret (0, Some e) s else Ret (- E_BAD_ENV, None) s)"
  using assms by (auto simp: envid2env_def Let_def)

theorem envid2env_exact_witness:
  "envid2env 5 True (set_curenv (Some 3) bss_kstate)
     = Ret (- E_BAD_ENV, None) (set_curenv (Some 3) bss_kstate)"
  using envid2env_exact [of "set_curenv (Some 3) bss_kstate" 3 5 True]
  by (simp add: Let_def bss_kstate_def zero_env_def)

section \<open>Running an environment\<close>

lemma env_run_run:
  assumes "env_pgdir (envs s e) = frame_kva p" "p < 65536" "kernel_lock s = Some (cpunum s)"
  shows "\<exists>s'. env_run e s = NoRet (Run e) s' \<and> curenv s' = Some e \<and> kernel_lock s' = None
     \<and> env_status (envs s' e) = ENV_RUNNING \<and> env_runs (envs s' e) = env_runs (envs s e) + 1
     \<and> env_cpunum (envs s' e) = cpunum s \<and> env_tf (envs s' e) = env_tf (envs s e)
     \<and> cr3 s' = page2pa p
     \<and> (\<forall>i. i \<noteq> e \<longrightarrow> envs s' i = (if curenv s = Some i \<and> env_status (envs s i) = ENV_RUNNING
            then (envs s i)\<lparr>env_status := ENV_RUNNABLE\<rparr> else envs s i))"
proof -
  define s1 where "s1 = (case curenv s of None \<Rightarrow> s
     | Some c \<Rightarrow> if env_status (envs s c) = ENV_RUNNING
                 then upd_env c (\<lambda>v. v\<lparr>env_status := ENV_RUNNABLE\<rparr>) s else s)"
  define s2 where "s2 = upd_env e (\<lambda>v. v\<lparr>env_status := ENV_RUNNING, env_runs := env_runs v + 1\<rparr>)
     (set_curenv (Some e) s1)"
  define s3 where "s3 = s2\<lparr>cr3 := page2pa p, kernel_lock := None\<rparr>"
  have F: "env_pgdir (envs s1 e) = frame_kva p" "kernel_lock s1 = Some (cpunum s1)"
    "env_runs (envs s1 e) = env_runs (envs s e)" "env_tf (envs s1 e) = env_tf (envs s e)"
    "cpunum s1 = cpunum s"
    using assms by (auto simp: s1_def split: option.splits)
  have c3: "curenv s3 = Some e" by (simp add: s3_def s2_def curenv_def set_curenv_def)
  have "env_run e s = NoRet (Run e) (upd_env e (\<lambda>v. v\<lparr>env_cpunum := cpunum s3\<rparr>) s3)"
    using F(1,2) assms(2) c3 unfolding env_run_def
    by (simp add: s1_def [symmetric] s2_def [symmetric] lcr3_def unlock_kernel_def env_pop_tf_def s3_def)
      (simp add: s2_def)
  then show ?thesis
    using F c3 by (intro exI [of _ "upd_env e (\<lambda>v. v\<lparr>env_cpunum := cpunum s3\<rparr>) s3"] conjI)
      (auto simp: s3_def s2_def s1_def split: option.splits)
qed

end
