(* ===== verification/Jos_Sched.thy ===== *)
theory Jos_Sched
  imports Jos_Env
begin

text \<open>
  The scheduler, \<^verbatim>\<open>tps/kern/sched.c\<close>, and \<open>env_destroy\<close> of \<^verbatim>\<open>tps/kern/env.c\<close>, which calls it.
  None of these functions returns to its caller once it has chosen what to run.
\<close>

section \<open>Halting\<close>

definition sched_halt :: "'a kM" where
  "sched_halt = (\<lambda>s.
     if \<forall>i \<in> set [0..<NENV]. env_status (envs s i) \<notin> {ENV_RUNNABLE, ENV_RUNNING, ENV_DYING}
     then NoRet Monitor s
     else
       kbind (kmodify (set_curenv None)) (\<lambda>_.
       kbind (kget kern_pgdir) (\<lambda>kpgdir.
       kbind (PADDR kpgdir) (\<lambda>pa.
       kbind (lcr3 pa) (\<lambda>_.
       kbind (kmodify (\<lambda>s. s\<lparr>cpus := (cpus s)(cpunum s := (cpus s (cpunum s))\<lparr>cpu_status := CPU_HALTED\<rparr>)\<rparr>)) (\<lambda>_.
       kbind unlock_kernel (\<lambda>_ s. NoRet Halted s)))))) s)"

section \<open>Choosing the next environment\<close>

fun yield_loop :: "nat list \<Rightarrow> unit kM" where
  "yield_loop [] = kreturn ()"
| "yield_loop (i # is) =
     kbind (kget (\<lambda>s. env_status (envs s (i mod NENV)))) (\<lambda>st.
     kbind (if st = ENV_RUNNABLE then env_run (i mod NENV) else kreturn ()) (\<lambda>_.
       yield_loop is))"

definition sched_yield :: "'a kM" where
  "sched_yield =
     kbind (kget (\<lambda>s. case curenv s of None \<Rightarrow> 0 | Some c \<Rightarrow> ENVX (env_id (envs s c)) + 1)) (\<lambda>start.
     kbind (yield_loop [start..<start + NENV - 1]) (\<lambda>_.
     kbind (kget (\<lambda>s. case curenv s of
         Some c \<Rightarrow> if env_status (envs s c) = ENV_RUNNING then Some c else None
       | None \<Rightarrow> None)) (\<lambda>cur.
     kbind (case cur of Some c \<Rightarrow> env_run c | None \<Rightarrow> kreturn ()) (\<lambda>_.
       sched_halt))))"

definition env_destroy :: "nat \<Rightarrow> unit kM" where
  "env_destroy e = (\<lambda>s.
     if env_status (envs s e) = ENV_RUNNING \<and> curenv s \<noteq> Some e
     then Ret () (upd_env e (\<lambda>v. v\<lparr>env_status := ENV_DYING\<rparr>) s)
     else
       kbind (env_free e) (\<lambda>_.
       kbind (kget (\<lambda>s. curenv s = Some e)) (\<lambda>cur.
         if cur then kbind (kmodify (set_curenv None)) (\<lambda>_. sched_yield)
         else kreturn ())) s)"

section \<open>The search\<close>

lemma env_run_no_return: "kbind (env_run e) f s = env_run e s"
  unfolding env_run_def kbind_assoc
  by (simp add: kbind_run env_pop_tf_def split: kres.splits option.splits)

lemma yield_loop_find:
  "kbind (yield_loop is) f s =
     (case find (\<lambda>i. env_status (envs s (i mod NENV)) = ENV_RUNNABLE) is of
        Some i \<Rightarrow> env_run (i mod NENV) s | None \<Rightarrow> f () s)"
proof (induction "is")
  case (Cons i "is")
  show ?case
  proof (cases "env_status (envs s (i mod NENV)) = ENV_RUNNABLE")
    case True
    then show ?thesis
      unfolding yield_loop.simps kbind_assoc by (simp add: env_run_no_return)
  next
    case False
    then show ?thesis
      unfolding yield_loop.simps kbind_assoc using Cons by simp
  qed
qed simp

lemma sched_yield_find:
  assumes "start = (case curenv s of None \<Rightarrow> 0 | Some c \<Rightarrow> ENVX (env_id (envs s c)) + 1)"
  shows "sched_yield s =
    (case find (\<lambda>i. env_status (envs s (i mod NENV)) = ENV_RUNNABLE) [start..<start + NENV - 1] of
       Some i \<Rightarrow> env_run (i mod NENV) s
     | None \<Rightarrow> (case curenv s of
           Some c \<Rightarrow> if env_status (envs s c) = ENV_RUNNING then env_run c s else sched_halt s
         | None \<Rightarrow> sched_halt s))"
  unfolding sched_yield_def
  by (simp add: yield_loop_find env_run_no_return flip: assms split: option.splits del: NENV_eq)

text \<open>How far after the current environment a slot comes in the circular order.\<close>

definition turn :: "nat \<Rightarrow> nat \<Rightarrow> nat" where
  "turn c e = (e + NENV - c - 1) mod NENV"

lemma turn_slot: "c < NENV \<Longrightarrow> e < NENV \<Longrightarrow> e \<noteq> c \<Longrightarrow>
    (c + 1 + turn c e) mod NENV = e \<and> turn c e < NENV - 1"
proof -
  assume a: "c < NENV" "e < NENV" "e \<noteq> c"
  show ?thesis
  proof (cases "c < e")
    case True
    have eq: "e + NENV - c - 1 = NENV + (e - c - 1)" and lt: "e - c - 1 < NENV"
      using True a(2) by (simp_all del: NENV_eq)
    have "turn c e = e - c - 1"
      unfolding turn_def eq mod_add_self1 by (rule mod_less [OF lt])
    with True a(2) show ?thesis by (simp del: NENV_eq)
  next
    case False
    have lt: "e + NENV - c - 1 < NENV" using False a by (simp del: NENV_eq)
    have t: "turn c e = e + NENV - c - 1" unfolding turn_def by (rule mod_less [OF lt])
    have eq: "c + 1 + turn c e = NENV + e" using t a by (simp del: NENV_eq)
    show ?thesis unfolding eq mod_add_self1 using a False t by (simp del: NENV_eq)
  qed
qed

text \<open>
  Property C3. Round robin: when some environment other than the current one is runnable, \<open>sched_yield\<close>
  runs the runnable one that comes first after the current one in circular order. No
  environment that another CPU is running can be chosen, since those are \<open>ENV_RUNNING\<close>.\<close>

theorem sched_yield_round_robin:
  assumes "curenv s = Some c" "ENVX (env_id (envs s c)) = c"
    and "r < NENV" "r \<noteq> c" "env_status (envs s r) = ENV_RUNNABLE"
  shows "\<exists>e < NENV. e \<noteq> c \<and> env_status (envs s e) = ENV_RUNNABLE
     \<and> (\<forall>k < NENV. k \<noteq> c \<longrightarrow> env_status (envs s k) = ENV_RUNNABLE \<longrightarrow> turn c e \<le> turn c k)
     \<and> sched_yield s = env_run e s"
proof -
  let ?P = "\<lambda>i. env_status (envs s (i mod NENV)) = ENV_RUNNABLE"
  let ?L = "[c + 1..<c + 1 + NENV - 1]"
  have c: "c < NENV" using ENVX_lt [of "env_id (envs s c)"] assms(2) by simp
  have mem: "k < NENV \<Longrightarrow> k \<noteq> c \<Longrightarrow> c + 1 + turn c k \<in> set ?L" for k
    using turn_slot [OF c] by (force simp del: NENV_eq)
  have "?P (c + 1 + turn c r)"
    using turn_slot [OF c assms(3,4)] assms(5) by simp
  then have "find ?P ?L \<noteq> None"
    using mem [OF assms(3,4)] unfolding find_None_iff by blast
  then obtain i where i: "find ?P ?L = Some i" by blast
  then obtain k where k: "k < length ?L" "?P (?L ! k)" "i = ?L ! k" "\<forall>j < k. \<not> ?P (?L ! j)"
    by (auto simp: find_Some_iff simp del: NENV_eq)
  have kn: "k < NENV - 1" "i = c + 1 + k" using k(1,3) by (simp_all del: NENV_eq)
  let ?e = "i mod NENV"
  have turn: "turn c ?e = k" "?e \<noteq> c" "?e < NENV"
    using kn c unfolding turn_def by (cases "c + 1 + k < NENV"; auto simp: mod_if)+
  have "turn c ?e \<le> turn c q" if q: "q < NENV" "q \<noteq> c" "env_status (envs s q) = ENV_RUNNABLE" for q
  proof (rule ccontr)
    assume "\<not> turn c ?e \<le> turn c q"
    then have lt: "turn c q < k" using turn(1) by simp
    have "?L ! turn c q = c + 1 + turn c q"
      using turn_slot [OF c q(1,2)] by (intro nth_upt) simp
    with k(4) lt q(3) turn_slot [OF c q(1,2)] show False by (auto simp del: NENV_eq)
  qed
  moreover have "sched_yield s = env_run ?e s"
    using sched_yield_find [of "c + 1" s] assms(1,2) i by simp
  moreover have "env_status (envs s ?e) = ENV_RUNNABLE" using k(2,3) by simp
  ultimately show ?thesis using turn(2,3) by blast
qed

definition two_runnable :: kstate where
  "two_runnable = bss_kstate\<lparr>kernel_lock := Some 0,
     cpus := (\<lambda>_. \<lparr>cpu_status = CPU_STARTED, cpu_env = Some 2\<rparr>),
     envs := (\<lambda>_. zero_env)(2 := zero_env\<lparr>env_status := ENV_RUNNING, env_id := 0x1002, env_pgdir := frame_kva 4\<rparr>,
       0 := zero_env\<lparr>env_status := ENV_RUNNABLE, env_pgdir := frame_kva 4\<rparr>,
       5 := zero_env\<lparr>env_status := ENV_RUNNABLE, env_pgdir := frame_kva 4\<rparr>)\<rparr>"

theorem sched_yield_round_robin_witness:
  "sched_yield two_runnable = (env_run 5 two_runnable :: unit kres)"
proof -
  have c: "curenv two_runnable = Some 2" "ENVX (env_id (envs two_runnable 2)) = 2"
    "env_status (envs two_runnable 5) = ENV_RUNNABLE"
    by (simp_all add: two_runnable_def curenv_def ENVX_mod)
  obtain e where e: "e \<noteq> 2" "env_status (envs two_runnable e) = ENV_RUNNABLE"
    "\<forall>k < NENV. k \<noteq> 2 \<longrightarrow> env_status (envs two_runnable k) = ENV_RUNNABLE \<longrightarrow> turn 2 e \<le> turn 2 k"
    "sched_yield two_runnable = (env_run e two_runnable :: unit kres)"
    using sched_yield_round_robin [OF c(1,2) _ _ c(3)] by auto
  have "e = 0 \<or> e = 5" using e(1,2) by (auto simp: two_runnable_def zero_env_def split: if_splits)
  moreover have "turn 2 e \<le> turn 2 5" using e(3) c(3) by simp
  ultimately have "e = 5" by (auto simp: turn_def)
  with e(4) show ?thesis by simp
qed

text \<open>
  When no other environment is runnable the current one goes on, if it still is
  \<open>ENV_RUNNING\<close>; a current environment in any other state is not resumed and the CPU
  halts.\<close>

theorem sched_yield_keeps_running:
  assumes "curenv s = Some c" "\<forall>k < NENV. env_status (envs s k) \<noteq> ENV_RUNNABLE"
  shows "sched_yield s =
    (if env_status (envs s c) = ENV_RUNNING then env_run c s else sched_halt s)"
proof -
  have "find (\<lambda>i. env_status (envs s (i mod NENV)) = ENV_RUNNABLE) xs = None" for xs
    using assms(2) by (simp add: find_None_iff)
  then show ?thesis
    using sched_yield_find [of "ENVX (env_id (envs s c)) + 1" s] assms(1) by simp
qed

theorem sched_yield_keeps_running_witness:
  "sched_yield (bss_kstate\<lparr>cpus := (\<lambda>_. \<lparr>cpu_status = CPU_STARTED, cpu_env = Some 2\<rparr>)\<rparr>)
     = sched_halt (bss_kstate\<lparr>cpus := (\<lambda>_. \<lparr>cpu_status = CPU_STARTED, cpu_env = Some 2\<rparr>)\<rparr>)"
  using sched_yield_keeps_running
    [of "bss_kstate\<lparr>cpus := (\<lambda>_. \<lparr>cpu_status = CPU_STARTED, cpu_env = Some 2\<rparr>)\<rparr>" 2]
  by (simp add: curenv_def bss_kstate_def zero_env_def)

lemma sched_halt_run:
  assumes "i < NENV" "env_status (envs s i) \<in> {ENV_RUNNABLE, ENV_RUNNING, ENV_DYING}"
    and "kern_pgdir s = frame_kva kd" "kd < 65536" "kernel_lock s = Some (cpunum s)"
  shows "\<exists>s'. sched_halt s = NoRet Halted s' \<and> envs s' = envs s \<and> curenv s' = None
     \<and> kernel_lock s' = None \<and> cpu_status (cpus s' (cpunum s')) = CPU_HALTED"
proof -
  have ex: "\<not> (\<forall>j \<in> set [0..<NENV]. env_status (envs s j) \<notin> {ENV_RUNNABLE, ENV_RUNNING, ENV_DYING})"
    using assms(1,2) by auto
  show ?thesis
    unfolding sched_halt_def if_not_P [OF ex]
    using assms(3-5) by (simp add: lcr3_def unlock_kernel_def curenv_def set_curenv_def)
qed

text \<open>
  A runnable environment the scheduler misses: when the CPU runs nothing the search starts
  at slot 0 and makes \<open>NENV - 1\<close> steps, so it never looks at the last slot. If only that one
  is runnable the CPU halts and leaves it runnable.\<close>

theorem sched_yield_skips_last:
  assumes "curenv s = None" "env_status (envs s (NENV - 1)) = ENV_RUNNABLE"
    and "\<forall>k < NENV - 1. env_status (envs s k) \<noteq> ENV_RUNNABLE"
    and "kern_pgdir s = frame_kva kd" "kd < 65536" "kernel_lock s = Some (cpunum s)"
  shows "\<exists>s'. sched_yield s = (NoRet Halted s' :: 'a kres) \<and> env_status (envs s' (NENV - 1)) = ENV_RUNNABLE"
proof -
  have "find (\<lambda>i. env_status (envs s (i mod NENV)) = ENV_RUNNABLE) [0..<0 + NENV - 1] = None"
    using assms(3) by (simp add: find_None_iff)
  then have "sched_yield s = (sched_halt s :: 'a kres)"
    using sched_yield_find [of 0 s] assms(1) by simp
  then show ?thesis using sched_halt_run [of "NENV - 1" s kd] assms by auto
qed

theorem sched_yield_skips_last_witness:
  "\<exists>s'. sched_yield (bss_kstate\<lparr>kernel_lock := Some 0, kern_pgdir := frame_kva 4,
        envs := (\<lambda>_. zero_env)(1023 := zero_env\<lparr>env_status := ENV_RUNNABLE\<rparr>)\<rparr>) = (NoRet Halted s' :: unit kres)
     \<and> env_status (envs s' 1023) = ENV_RUNNABLE"
  using sched_yield_skips_last [of "bss_kstate\<lparr>kernel_lock := Some 0, kern_pgdir := frame_kva 4,
        envs := (\<lambda>_. zero_env)(1023 := zero_env\<lparr>env_status := ENV_RUNNABLE\<rparr>)\<rparr>" 4]
  by (simp add: bss_kstate_def curenv_def zero_env_def)

end
