(* ===== verification/Jos_Syscall.thy ===== *)
theory Jos_Syscall
  imports Jos_Sched
begin

text \<open>
  The system calls: \<^verbatim>\<open>tps/kern/syscall.c\<close>, and \<open>user_mem_assert\<close> of \<^verbatim>\<open>tps/kern/pmap.c\<close>. A call
  returns its \<open>int32_t\<close> result, or does not return when it gives up the CPU.
\<close>

section \<open>Checking arguments\<close>

definition check_perm :: "u32 \<Rightarrow> int" where
  "check_perm perm = (if perm AND NOT PTE_SYSCALL \<noteq> 0 \<or> perm AND (PTE_U OR PTE_P) \<noteq> PTE_U OR PTE_P
     then - E_INVAL else 0)"

definition check_mem :: "u32 \<Rightarrow> int" where
  "check_mem va = (if va \<ge> UTOP \<or> PGOFF va \<noteq> 0 then - E_INVAL else 0)"

text \<open>A C pointer dereferenced without a test.\<close>

definition kderef :: "nat option \<Rightarrow> nat kM" where
  "kderef p = (case p of None \<Rightarrow> kpanic ''page fault in the kernel'' | Some e \<Rightarrow> kreturn e)"

definition kcurenv :: "nat kM" where
  "kcurenv = (\<lambda>s. kderef (curenv s) s)"

definition user_mem_assert :: "nat \<Rightarrow> u32 \<Rightarrow> u32 \<Rightarrow> u32 \<Rightarrow> unit kM" where
  "user_mem_assert env va len perm =
     kbind (user_mem_check env va len (perm OR PTE_U)) (\<lambda>r.
       if r < 0 then env_destroy env else kreturn ())"

section \<open>The console\<close>

definition kputch :: "u8 \<Rightarrow> unit kM" where
  "kputch ch = kmodify (\<lambda>s. s\<lparr>cons := cons_putc (ucast ch) (cons s)\<rparr>)"

text \<open>
  The \<open>%s\<close> case of \<open>vprintfmt\<close> with a precision and no width: the character is read before
  the precision is tested. A negative precision is no limit, so the loop takes fuel, as many
  steps as there are addresses and one.
\<close>

fun put_string :: "nat \<Rightarrow> u32 \<Rightarrow> int \<Rightarrow> unit kM" where
  "put_string fuel p precision =
    (if fuel = 0 then (\<lambda>s. OutOfFuel)
     else
       kbind (vload8 p) (\<lambda>ch.
         if ch \<noteq> 0 \<and> (precision < 0 \<or> precision - 1 \<ge> 0)
         then kbind (kputch ch) (\<lambda>_.
                put_string (fuel - 1) (p + 1) (if precision < 0 then precision else precision - 1))
         else kreturn ()))"

declare put_string.simps [simp del]

definition null_string :: "u8 list" where
  "null_string = map chr ''(null)''"

definition sys_cputs :: "u32 \<Rightarrow> u32 \<Rightarrow> unit kM" where
  "sys_cputs str len =
     kbind kcurenv (\<lambda>c.
     kbind (user_mem_assert c str len PTE_U) (\<lambda>_.
       if str = 0
       then kfor (if sint len < 0 then null_string else take (unat len) null_string) kputch
       else put_string 4294967297 str (sint len)))"

definition sys_cgetc :: "int kM" where
  "sys_cgetc = (\<lambda>s. case cons_getc (cons s) of (ch, c) \<Rightarrow> Ret ch (s\<lparr>cons := c\<rparr>))"

section \<open>Environments\<close>

definition sys_getenvid :: "int kM" where
  "sys_getenvid = kbind kcurenv (\<lambda>c. kget (\<lambda>s. sint (env_id (envs s c))))"

definition sys_env_destroy :: "u32 \<Rightarrow> int kM" where
  "sys_env_destroy envid =
     kbind (envid2env envid True) (\<lambda>(r, eo).
       if r < 0 then kreturn r
       else kbind (kderef eo) (\<lambda>e. kbind (env_destroy e) (\<lambda>_. kreturn 0)))"

definition sys_yield :: "unit kM" where
  "sys_yield = sched_yield"

definition sys_exofork :: "int kM" where
  "sys_exofork =
     kbind kcurenv (\<lambda>c.
     kbind (kget (\<lambda>s. env_id (envs s c))) (\<lambda>pid.
     kbind (env_alloc pid) (\<lambda>(err, eo).
       if err < 0 then kreturn err
       else
         kbind (kderef eo) (\<lambda>e.
         kbind (kmodify (upd_env e (\<lambda>v. v\<lparr>env_status := ENV_NOT_RUNNABLE\<rparr>))) (\<lambda>_.
         kbind (kmodify (\<lambda>s. upd_env e (\<lambda>v. v\<lparr>env_tf := env_tf (envs s c)\<rparr>) s)) (\<lambda>_.
         kbind (kmodify (upd_env e (\<lambda>v. v\<lparr>env_tf := (env_tf v)
             \<lparr>tf_regs := (tf_regs (env_tf v))\<lparr>reg_eax := 0\<rparr>\<rparr>\<rparr>))) (\<lambda>_.
           kget (\<lambda>s. sint (env_id (envs s e))))))))))"

definition sys_env_set_status :: "u32 \<Rightarrow> u32 \<Rightarrow> int kM" where
  "sys_env_set_status envid status =
     (if status \<noteq> 2 \<and> status \<noteq> 4 then kreturn (- E_INVAL)
      else
        kbind (envid2env envid True) (\<lambda>(r, eo).
          if r < 0 then kreturn (- E_BAD_ENV)
          else kbind (kderef eo) (\<lambda>e.
               kbind (kmodify (upd_env e (\<lambda>v. v\<lparr>env_status :=
                   (if status = 2 then ENV_RUNNABLE else ENV_NOT_RUNNABLE)\<rparr>))) (\<lambda>_.
                 kreturn 0))))"

definition sys_env_set_trapframe :: "u32 \<Rightarrow> u32 \<Rightarrow> int kM" where
  "sys_env_set_trapframe envid tf = kpanic ''sys_env_set_trapframe not implemented''"

definition sys_env_set_pgfault_upcall :: "u32 \<Rightarrow> u32 \<Rightarrow> int kM" where
  "sys_env_set_pgfault_upcall envid f =
     kbind (envid2env envid True) (\<lambda>(r, eo).
       if r < 0 then kreturn (- E_BAD_ENV)
       else kbind (kderef eo) (\<lambda>e.
            kbind (kmodify (upd_env e (\<lambda>v. v\<lparr>env_pgfault_upcall := f\<rparr>))) (\<lambda>_. kreturn 0)))"

section \<open>Pages\<close>

definition sys_page_alloc :: "u32 \<Rightarrow> u32 \<Rightarrow> u32 \<Rightarrow> int kM" where
  "sys_page_alloc envid va perm =
     kbind (envid2env envid True) (\<lambda>(r, eo).
       if r < 0 then kreturn (- E_BAD_ENV)
       else if check_perm perm < 0 \<or> check_mem va < 0 then kreturn (- E_INVAL)
       else
         kbind (page_alloc ALLOC_ZERO) (\<lambda>po. case po of
           None \<Rightarrow> kreturn (- E_NO_MEM)
         | Some page \<Rightarrow>
             kbind (kderef eo) (\<lambda>e.
             kbind (kget (\<lambda>s. env_pgdir (envs s e))) (\<lambda>pgdir.
             kbind (page_insert pgdir page va perm) (\<lambda>r2.
               if r2 < 0 then kbind (page_free page) (\<lambda>_. kreturn (- E_NO_MEM))
               else kreturn 0)))))"

definition sys_page_map :: "u32 \<Rightarrow> u32 \<Rightarrow> u32 \<Rightarrow> u32 \<Rightarrow> u32 \<Rightarrow> int kM" where
  "sys_page_map srcenvid srcva dstenvid dstva perm =
     kbind (envid2env srcenvid True) (\<lambda>(r1, srco).
     if r1 < 0 then kreturn (- E_BAD_ENV)
     else
     kbind (envid2env dstenvid True) (\<lambda>(r2, dsto).
     if r2 < 0 then kreturn (- E_BAD_ENV)
     else if check_perm perm < 0 then kreturn (- E_INVAL)
     else if check_mem srcva < 0 \<or> check_mem dstva < 0 then kreturn (- E_INVAL)
     else
       kbind (kderef srco) (\<lambda>src.
       kbind (kget (\<lambda>s. env_pgdir (envs s src))) (\<lambda>spgdir.
       kbind (page_lookup spgdir srcva) (\<lambda>l. case l of
         None \<Rightarrow> kreturn (- E_INVAL)
       | Some (page, pte_store) \<Rightarrow>
           kbind (kget (kload pte_store)) (\<lambda>pte.
           if perm AND PTE_W \<noteq> 0 \<and> pte AND PTE_W = 0 then kreturn (- E_INVAL)
           else
             kbind (kderef dsto) (\<lambda>dst.
             kbind (kget (\<lambda>s. env_pgdir (envs s dst))) (\<lambda>dpgdir.
             kbind (page_insert dpgdir page dstva perm) (\<lambda>r3.
               if r3 < 0 then kreturn (- E_NO_MEM) else kreturn 0)))))))))"

definition sys_page_unmap :: "u32 \<Rightarrow> u32 \<Rightarrow> int kM" where
  "sys_page_unmap envid va =
     kbind (envid2env envid True) (\<lambda>(r, eo).
       if r < 0 then kreturn (- E_BAD_ENV)
       else if check_mem va < 0 then kreturn (- E_INVAL)
       else
         kbind (kderef eo) (\<lambda>e.
         kbind (kget (\<lambda>s. env_pgdir (envs s e))) (\<lambda>pgdir.
         kbind (page_remove pgdir va) (\<lambda>_. kreturn 0))))"

section \<open>Messages\<close>

text \<open>The transfer of the page; \<open>Some r\<close> is an early return.\<close>

definition ipc_send_page :: "nat \<Rightarrow> u32 \<Rightarrow> u32 \<Rightarrow> int option kM" where
  "ipc_send_page env srcva perm =
    (if srcva mod PGSIZE \<noteq> 0 \<or> check_perm perm < 0 then kreturn (Some (- E_INVAL))
     else
       kbind kcurenv (\<lambda>c.
       kbind (kget (\<lambda>s. env_pgdir (envs s c))) (\<lambda>spgdir.
       kbind (page_lookup spgdir srcva) (\<lambda>l. case l of
         None \<Rightarrow> kreturn (Some (- E_INVAL))
       | Some (page, pte_store) \<Rightarrow>
           kbind (kget (kload pte_store)) (\<lambda>pte.
           if perm AND PTE_W \<noteq> 0 \<and> pte AND PTE_W = 0 then kreturn (Some (- E_INVAL))
           else
             kbind (kget (\<lambda>s. env_ipc_dstva (envs s env))) (\<lambda>dstva.
             if dstva < UTOP then
               kbind (kget (\<lambda>s. env_pgdir (envs s env))) (\<lambda>dpgdir.
               kbind (page_insert dpgdir page dstva perm) (\<lambda>r.
                 if r < 0 then kreturn (Some (- E_NO_MEM))
                 else kbind (kmodify (upd_env env (\<lambda>v. v\<lparr>env_ipc_perm := perm\<rparr>))) (\<lambda>_. kreturn None)))
             else kreturn None))))))"

definition sys_ipc_try_send :: "u32 \<Rightarrow> u32 \<Rightarrow> u32 \<Rightarrow> u32 \<Rightarrow> int kM" where
  "sys_ipc_try_send envid value srcva perm =
     kbind (envid2env envid False) (\<lambda>(err, eo).
     if err < 0 then kreturn err
     else
       kbind (kderef eo) (\<lambda>env.
       kbind (kget (\<lambda>s. env_ipc_recving (envs s env))) (\<lambda>recving.
       if \<not> recving then kreturn (- E_IPC_NOT_RECV)
       else
         kbind (kmodify (upd_env env (\<lambda>v. v\<lparr>env_ipc_perm := 0\<rparr>))) (\<lambda>_.
         kbind (if srcva < UTOP then ipc_send_page env srcva perm else kreturn None) (\<lambda>early.
         case early of
           Some r \<Rightarrow> kreturn r
         | None \<Rightarrow>
             kbind kcurenv (\<lambda>c.
             kbind (kmodify (\<lambda>s. upd_env env (\<lambda>v. v\<lparr>env_ipc_recving := False,
                 env_ipc_from := env_id (envs s c), env_ipc_value := value,
                 env_status := ENV_RUNNABLE,
                 env_tf := (env_tf v)\<lparr>tf_regs := (tf_regs (env_tf v))\<lparr>reg_eax := 0\<rparr>\<rparr>\<rparr>) s)) (\<lambda>_.
               kreturn 0)))))))"

definition sys_ipc_recv :: "u32 \<Rightarrow> int kM" where
  "sys_ipc_recv dstva =
    (if dstva < UTOP \<and> dstva mod PGSIZE \<noteq> 0 then kreturn (- E_INVAL)
     else
       kbind kcurenv (\<lambda>c.
       kbind (kmodify (upd_env c (\<lambda>v. v\<lparr>env_status := ENV_NOT_RUNNABLE, env_ipc_recving := True,
           env_ipc_dstva := dstva,
           env_tf := (env_tf v)\<lparr>tf_regs := (tf_regs (env_tf v))\<lparr>reg_eax := 0\<rparr>\<rparr>\<rparr>))) (\<lambda>_.
       kbind sys_yield (\<lambda>_. kreturn 0))))"

section \<open>Dispatch\<close>

definition SYS_cputs :: u32 where "SYS_cputs = 0"
definition SYS_cgetc :: u32 where "SYS_cgetc = 1"
definition SYS_getenvid :: u32 where "SYS_getenvid = 2"
definition SYS_env_destroy :: u32 where "SYS_env_destroy = 3"
definition SYS_page_alloc :: u32 where "SYS_page_alloc = 4"
definition SYS_page_map :: u32 where "SYS_page_map = 5"
definition SYS_page_unmap :: u32 where "SYS_page_unmap = 6"
definition SYS_exofork :: u32 where "SYS_exofork = 7"
definition SYS_env_set_status :: u32 where "SYS_env_set_status = 8"
definition SYS_env_set_trapframe :: u32 where "SYS_env_set_trapframe = 9"
definition SYS_env_set_pgfault_upcall :: u32 where "SYS_env_set_pgfault_upcall = 10"
definition SYS_yield :: u32 where "SYS_yield = 11"
definition SYS_ipc_try_send :: u32 where "SYS_ipc_try_send = 12"
definition SYS_ipc_recv :: u32 where "SYS_ipc_recv = 13"

lemmas syscall_numbers = SYS_cputs_def SYS_cgetc_def SYS_getenvid_def SYS_env_destroy_def
  SYS_page_alloc_def SYS_page_map_def SYS_page_unmap_def SYS_exofork_def SYS_env_set_status_def
  SYS_env_set_trapframe_def SYS_env_set_pgfault_upcall_def SYS_yield_def SYS_ipc_try_send_def
  SYS_ipc_recv_def

definition syscall :: "u32 \<Rightarrow> u32 \<Rightarrow> u32 \<Rightarrow> u32 \<Rightarrow> u32 \<Rightarrow> u32 \<Rightarrow> int kM" where
  "syscall syscallno a1 a2 a3 a4 a5 =
    (if syscallno = SYS_cputs then kbind (sys_cputs a1 a2) (\<lambda>_. kreturn 0)
     else if syscallno = SYS_cgetc then sys_cgetc
     else if syscallno = SYS_env_destroy then sys_env_destroy a1
     else if syscallno = SYS_getenvid then sys_getenvid
     else if syscallno = SYS_yield then kbind sys_yield (\<lambda>_. kreturn 0)
     else if syscallno = SYS_env_set_status then sys_env_set_status a1 a2
     else if syscallno = SYS_page_alloc then sys_page_alloc a1 a2 a3
     else if syscallno = SYS_page_map then sys_page_map a1 a2 a3 a4 a5
     else if syscallno = SYS_page_unmap then sys_page_unmap a1 a2
     else if syscallno = SYS_exofork then sys_exofork
     else if syscallno = SYS_ipc_try_send then sys_ipc_try_send a1 a2 a3 a4
     else if syscallno = SYS_ipc_recv then sys_ipc_recv a1
     else if syscallno = SYS_env_set_pgfault_upcall then sys_env_set_pgfault_upcall a1 a2
     else kreturn (- E_INVAL))"

section \<open>Who a system call may act on\<close>

definition foreign :: "kstate \<Rightarrow> u32 \<Rightarrow> bool" where
  "foreign s envid \<longleftrightarrow> envid \<noteq> 0 \<and> (let e = ENVX envid in
     env_status (envs s e) = ENV_FREE \<or> env_id (envs s e) \<noteq> envid
     \<or> curenv s \<noteq> Some e \<and> (\<forall>c. curenv s = Some c \<longrightarrow> env_parent_id (envs s e) \<noteq> env_id (envs s c)))"

lemma envid2env_foreign:
  "foreign s envid \<Longrightarrow> curenv s = Some c \<Longrightarrow> envid2env envid True s = Ret (- E_BAD_ENV, None) s"
  by (auto simp: foreign_def envid2env_def Let_def)

lemma envid2env_self [simp]: "envid2env 0 p s = Ret (0, curenv s) s"
  by (simp add: envid2env_def)

lemma error_codes_pos [simp]: "0 < E_BAD_ENV" "0 < E_INVAL" "0 < E_NO_MEM" "0 < E_FAULT" "0 < E_IPC_NOT_RECV"
  by (simp_all add: kernel_defs)

lemma upd_env_twice [simp]: "upd_env e f (upd_env e g s) = upd_env e (\<lambda>v. f (g v)) s"
  by (simp add: upd_env_def)



section \<open>Printing\<close>

lemma ROUNDED_page:
  assumes "unat (va::u32) mod 4096 = 0"
  shows "ROUNDDOWN va PGSIZE = va \<and> ROUNDUP va PGSIZE = va"
proof -
  obtain k where k: "unat va = 4096 * k" using assms by auto
  moreover have "k < 1048576" using unat_word_lt32 [of va] unfolding k by simp
  ultimately have "unat va + 4095 < 4294967296" by simp
  then show ?thesis
    using k by (simp add: word_unat_eq_iff unat_ROUNDDOWN ROUNDUP_def PGSIZE_def unat_word_ariths)
qed

text \<open>
  A user can make the kernel fault: \<open>sys_cputs\<close> with length 0 checks no page when the
  address is page-aligned, but the printing loop reads the first character before it looks at
  the length, so an unmapped address ends in the kernel's panic instead of in the
  destruction of the environment.\<close>

theorem sys_cputs_empty_faults:
  assumes "curenv s = Some c" "va \<noteq> 0" "PGOFF va = 0" "translate False va s = None"
  shows "sys_cputs va 0 s = Panic ''page fault in the kernel''"
proof -
  have m: "unat va mod 4096 = 0" using unat_PGOFF [of va] assms(3) by simp
  have d: "ROUNDDOWN va PGSIZE = va" "ROUNDUP va PGSIZE = va"
    using ROUNDED_page [OF m] by simp_all
  have "user_mem_check c va 0 (PTE_U OR PTE_U) s = Ret 0 s"
    by (simp add: user_mem_check_def Let_def d user_mem_check_loop.simps)
  then show ?thesis
    using assms(1,2,4)
    by (simp add: sys_cputs_def kcurenv_def kderef_def user_mem_assert_def kbind_run
        put_string.simps [of 4294967297] vload8_def)
qed

theorem sys_cputs_empty_faults_witness:
  "sys_cputs 0x400000 0 (set_curenv (Some 2) bss_kstate) = Panic ''page fault in the kernel''"
proof -
  have "translate False 0x400000 (set_curenv (Some 2) bss_kstate) = None"
    by (simp add: translate_def bss_kstate_def load32_def)
  moreover have "PGOFF 0x400000 = 0" by (simp add: PGOFF_def)
  ultimately show ?thesis using sys_cputs_empty_faults [of _ 2 "0x400000"] by simp
qed

section \<open>Sending and receiving\<close>

lemma ipc_send_run:
  assumes "curenv s = Some c" "envid \<noteq> 0" "e = ENVX envid" "env_status (envs s e) \<noteq> ENV_FREE"
    and "env_id (envs s e) = envid" "srcva \<ge> UTOP"
  shows "sys_ipc_try_send envid value srcva perm s =
    (if env_ipc_recving (envs s e)
     then Ret 0 (upd_env e (\<lambda>v. v\<lparr>env_ipc_perm := 0, env_ipc_recving := False,
            env_ipc_from := env_id (envs s c), env_ipc_value := value, env_status := ENV_RUNNABLE,
            env_tf := (env_tf v)\<lparr>tf_regs := (tf_regs (env_tf v))\<lparr>reg_eax := 0\<rparr>\<rparr>\<rparr>) s)
     else Ret (- E_IPC_NOT_RECV) s)"
proof -
  have "envid2env envid False s = Ret (0, Some e) s"
    using assms by (simp add: envid2env_def Let_def)
  with assms(1,6) show ?thesis
    by (auto simp: sys_ipc_try_send_def kderef_def kcurenv_def kbind_run not_less)
qed


definition waiting_machine :: kstate where
  "waiting_machine = bss_kstate\<lparr>cpus := (\<lambda>_. \<lparr>cpu_status = CPU_STARTED, cpu_env = Some 2\<rparr>),
     envs := (\<lambda>_. zero_env)(2 := zero_env\<lparr>env_status := ENV_RUNNING, env_id := 0x1002\<rparr>,
       5 := zero_env\<lparr>env_status := ENV_NOT_RUNNABLE, env_id := 0x1005, env_ipc_recving := True,
              env_ipc_perm := 7\<rparr>)\<rparr>"

lemma waiting_machine_simps [simp]:
  "curenv waiting_machine = Some 2" "ENVX 0x1005 = 5"
  "env_status (envs waiting_machine 5) = ENV_NOT_RUNNABLE" "env_id (envs waiting_machine 5) = 0x1005"
  "env_ipc_recving (envs waiting_machine 5)"
  by (simp_all add: waiting_machine_def curenv_def ENVX_mod)


text \<open>
  A send that fails because its source address is not page-aligned still clears the
  permission field of the waiting receiver, although the call promises that nothing happens
  when it returns an error.\<close>

theorem ipc_failed_send_clears_perm:
  assumes "envid \<noteq> 0" "e = ENVX envid" "env_status (envs s e) \<noteq> ENV_FREE"
    and "env_id (envs s e) = envid" "env_ipc_recving (envs s e)"
    and "srcva < UTOP" "srcva mod PGSIZE \<noteq> 0"
  shows "sys_ipc_try_send envid value srcva perm s =
    Ret (- E_INVAL) (upd_env e (\<lambda>v. v\<lparr>env_ipc_perm := 0\<rparr>) s)"
proof -
  have "envid2env envid False s = Ret (0, Some e) s"
    using assms by (simp add: envid2env_def Let_def)
  with assms(5-7) show ?thesis
    by (simp add: sys_ipc_try_send_def kderef_def kbind_run ipc_send_page_def)
qed

theorem ipc_failed_send_clears_perm_witness:
  "\<exists>s'. sys_ipc_try_send 0x1005 42 0x800001 7 waiting_machine = Ret (- E_INVAL) s'
     \<and> env_ipc_perm (envs s' 5) = 0 \<and> env_ipc_perm (envs waiting_machine 5) = 7"
  using ipc_failed_send_clears_perm [of "0x1005" 5 waiting_machine "0x800001" 42 7]
  by (simp add: mmu_consts waiting_machine_def)

lemma sched_yield_no_return: "sched_yield s \<noteq> Ret a s'"
proof -
  have "env_run e s \<noteq> (Ret a s' :: 'a kres)" for e
    unfolding env_run_def by (simp add: kbind_run env_pop_tf_def split: kres.splits option.splits)
  moreover have "sched_halt s \<noteq> (Ret a s' :: 'a kres)"
    unfolding sched_halt_def by (simp add: kbind_run split: kres.splits)
  ultimately show ?thesis
    unfolding sched_yield_find [OF refl] by (auto split: option.splits)
qed

text \<open>
  A receiver that passes the alignment test never returns from \<open>sys_ipc_recv\<close> itself: it is
  marked waiting with the result register at 0 and the CPU is given up. An unaligned address
  below \<open>UTOP\<close> is refused without any change.\<close>

theorem ipc_recv_blocks:
  assumes "curenv s = Some c"
  shows "if dstva < UTOP \<and> dstva mod PGSIZE \<noteq> 0 then sys_ipc_recv dstva s = Ret (- E_INVAL) s
    else (\<forall>r s'. sys_ipc_recv dstva s \<noteq> Ret r s')
      \<and> sys_ipc_recv dstva s = kbind sched_yield (\<lambda>_::unit. kreturn 0) (upd_env c (\<lambda>v. v
           \<lparr>env_status := ENV_NOT_RUNNABLE, env_ipc_recving := True, env_ipc_dstva := dstva,
            env_tf := (env_tf v)\<lparr>tf_regs := (tf_regs (env_tf v))\<lparr>reg_eax := 0\<rparr>\<rparr>\<rparr>) s)"
proof -
  have n: "kbind sched_yield (\<lambda>_::unit. kreturn (0::int)) t \<noteq> Ret r s'" for t r s'
    by (simp add: kbind_eq_Ret sched_yield_no_return)
  show ?thesis
    using assms n by (simp add: sys_ipc_recv_def kcurenv_def kderef_def sys_yield_def kbind_run [of kcurenv] )
qed

theorem ipc_recv_blocks_witness:
  "sys_ipc_recv 0x800001 waiting_machine = Ret (- E_INVAL) waiting_machine"
  using ipc_recv_blocks [of waiting_machine 2 "0x800001"] by (simp add: mmu_consts)

section \<open>Memory\<close>

lemma page_alloc_zeroed_run:
  "pages_inv s (p # fl) \<Longrightarrow> page_alloc ALLOC_ZERO s = Ret (Some p) (page_zero p (page_pop s))"
  by (rule page_alloc_zeroed)

text \<open>The page directory after the allocator has taken page \<open>p\<close>.\<close>

lemma taken_page:
  assumes inv: "pages_inv s (p # fl)" and ok: "pgdir_ok s (p # fl) d"
  defines "s1 \<equiv> page_zero p (page_pop s)"
  shows "pages_inv s1 fl" "pgdir_ok s1 fl d" "p < npages s1" "p \<notin> set fl" "npages s1 = npages s"
    "\<And>i. table_of s1 d i = table_of s d i" "\<And>i j. j < 1024 \<Longrightarrow> pteval s1 d i j = pteval s d i j"
    "envs s1 = envs s"
proof -
  have dp: "d \<noteq> p" using pgdir_okD(2) [OF ok] by auto
  have w: "j < 1024 \<Longrightarrow> f \<noteq> p \<Longrightarrow> fword s1 f j = fword s f j" for f j
    by (simp add: s1_def fword_page_zero)
  show "pages_inv s1 fl" using pages_inv_pop [OF inv] by (simp add: s1_def)
  show "p \<notin> set fl" using pages_invD(3) [OF inv] by simp
  show n: "npages s1 = npages s" by (simp add: s1_def)
  show "p < npages s1" using pages_invD(4) [OF inv, of p] by (simp add: s1_def)
  show "envs s1 = envs s" by (simp add: s1_def)
  show T: "table_of s1 d i = table_of s d i" for i
    by (rule table_of_cong) (simp add: w dp)
  show "pgdir_ok s1 fl d"
    by (rule pgdir_ok_cong [OF ok n]) (auto simp: w dp)
  show "j < 1024 \<Longrightarrow> pteval s1 d i j = pteval s d i j" for i j
    using pgdir_okD(4) [OF ok, of i] w by (auto simp: pteval_def T split: option.splits)
qed

lemma mapping_ok_taken:
  assumes inv: "pages_inv s (p # fl)" and ok: "pgdir_ok s (p # fl) d" and m: "mapping_ok s (p # fl) d va"
  shows "mapping_ok (page_zero p (page_pop s)) fl d va"
  using m by (simp add: mapping_ok_def Let_def taken_page(5,6,7) [OF inv ok])

text \<open>
  A successful \<open>sys_page_alloc\<close> maps a page that was free at the address with the
  permissions asked for, changes no other mapping of that address space and keeps the
  invariants; the page was zeroed before it was mapped.\<close>

theorem sys_page_alloc_maps:
  assumes "pages_inv s (p # fl)" "pgdir_ok s (p # fl) d" "envid2env envid True s = Ret (0, Some e) s"
    and "env_pgdir (envs s e) = frame_kva d" "check_perm perm = 0" "check_mem va = 0"
    and "pte_of s d va \<noteq> 0 \<longrightarrow> mapping_ok s (p # fl) d va"
    and "table_of s d (unat (PDX va)) \<noteq> None \<or> fl \<noteq> []"
  shows "\<exists>s' fl'. sys_page_alloc envid va perm s = Ret 0 s' \<and> pages_inv s' fl' \<and> pgdir_ok s' fl' d
     \<and> pte_of s' d va = page2pa p OR perm OR PTE_P
     \<and> (\<forall>va'. PGNUM va' \<noteq> PGNUM va \<longrightarrow> pte_of s' d va' = pte_of s d va')"
proof -
  let ?s1 = "page_zero p (page_pop s)"
  note T = taken_page [OF assms(1,2)]
  have w: "walkable va"
    using assms(6) by (intro user_walkable) (auto simp: check_mem_def E_INVAL_def split: if_splits)
  have "pte_of ?s1 d va \<noteq> 0 \<longrightarrow> mapping_ok ?s1 fl d va"
    using assms(7) mapping_ok_taken [OF assms(1,2)] T(7) by simp
  moreover have "table_of ?s1 d (unat (PDX va)) \<noteq> None \<or> fl \<noteq> []"
    using assms(8) by (simp add: T(6))
  ultimately have "\<exists>s' fl'. page_insert (frame_kva d) p va perm ?s1 = Ret 0 s'
      \<and> pages_inv s' fl' \<and> pgdir_ok s' fl' d \<and> pte_of s' d va = page2pa p OR perm OR PTE_P
      \<and> (\<forall>va'. PGNUM va' \<noteq> PGNUM va \<longrightarrow> pte_of s' d va' = pte_of ?s1 d va')"
    by (rule page_insert_run_maps [OF T(1,2) w T(3,4)])
  then obtain s' fl' where ins: "page_insert (frame_kva d) p va perm ?s1 = Ret 0 s'"
      "pages_inv s' fl'" "pgdir_ok s' fl' d" "pte_of s' d va = page2pa p OR perm OR PTE_P"
      "\<forall>va'. PGNUM va' \<noteq> PGNUM va \<longrightarrow> pte_of s' d va' = pte_of ?s1 d va'"
    by blast
  have "sys_page_alloc envid va perm s = Ret 0 s'"
    using assms(3-6) ins(1)
    by (simp add: sys_page_alloc_def page_alloc_zeroed [OF assms(1)] kderef_def kbind_run [of "envid2env envid True"])
  with ins T(7) show ?thesis by auto
qed

definition user_machine :: kstate where
  "user_machine = small_machine\<lparr>cpus := (\<lambda>_. \<lparr>cpu_status = CPU_STARTED, cpu_env = Some 2\<rparr>),
     envs := (\<lambda>_. zero_env\<lparr>env_pgdir := frame_kva 4\<rparr>)\<rparr>"

lemma user_machine_frame [simp]:
  "fword user_machine f j = fword small_machine f j" "npages user_machine = 16"
  "curenv user_machine = Some 2" "env_pgdir (envs user_machine e) = frame_kva 4"
  "page_free_list user_machine = Some 5" "pages user_machine = pages small_machine"
  by (simp_all add: user_machine_def fword_def curenv_def)

lemma user_machine_tables [simp]:
  "table_of user_machine d i = table_of small_machine d i" "pteval user_machine d i j = pteval small_machine d i j"
  by (simp_all add: table_of_def pteval_def)

lemma user_machine_ok: "pages_inv user_machine [5, 6]" "pgdir_ok user_machine [5, 6] 4"
proof -
  show "pages_inv user_machine [5, 6]" by (rule pages_inv_cong [OF small_machine_inv]) simp_all
  show "pgdir_ok user_machine [5, 6] 4" by (rule pgdir_ok_cong [OF small_machine_pgdir]) simp_all
qed

theorem sys_page_alloc_maps_witness:
  "\<exists>s' fl'. sys_page_alloc 0 0x400000 7 user_machine = Ret 0 s' \<and> pages_inv s' fl'
     \<and> pte_of s' 4 0x400000 = page2pa 5 OR 7 OR PTE_P"
proof -
  have "check_perm 7 = 0" "check_mem 0x400000 = 0"
    by (simp_all add: check_perm_def check_mem_def mmu_consts PGOFF_def)
  from sys_page_alloc_maps [OF user_machine_ok _ _ this, of 0 2] show ?thesis
    by (simp add: small_machine_pte unat_PDX unat_PTX) blast
qed

text \<open>
  \<open>sys_page_map\<close> of a source address that is not mapped, but whose page table exists, does not
  return \<open>-E_INVAL\<close> as its comment says: it maps physical page 0 into the destination.\<close>

theorem sys_page_map_unmapped_source:
  assumes "pages_inv s fl" "pgdir_ok s fl d" "curenv s = Some c" "env_pgdir (envs s c) = frame_kva d"
    and "check_perm perm = 0" "perm AND PTE_W = 0" "check_mem srcva = 0" "check_mem dstva = 0"
    and "table_of s d (unat (PDX srcva)) \<noteq> None" "pte_of s d srcva = 0"
    and "0 < npages s" "0 \<notin> set fl" "pte_of s d dstva = 0"
    and "table_of s d (unat (PDX dstva)) \<noteq> None \<or> fl \<noteq> []"
  shows "\<exists>s'. sys_page_map 0 srcva 0 dstva perm s = Ret 0 s'
     \<and> pte_of s' d dstva = page2pa 0 OR perm OR PTE_P"
proof -
  from assms(9) obtain t where t: "table_of s d (unat (PDX srcva)) = Some t" by auto
  have w: "walkable srcva" "walkable dstva"
    using assms(7,8) by (auto intro!: user_walkable simp: check_mem_def E_INVAL_def split: if_splits)
  have np: "npages s \<le> 65536" using pages_invD(2) [OF assms(1)] .
  have f0: "fnum 0 = 0" by (simp add: fnum_def unat_PGNUM)
  have l: "page_lookup (frame_kva d) srcva s = Ret (Some (0, frame_kva t + 4 * PTX srcva)) s"
    using page_lookup_present [OF assms(2) np w(1) t] assms(10,11) by (simp add: f0)
  have "\<exists>s' fl'. page_insert (frame_kva d) 0 dstva perm s = Ret 0 s'
      \<and> pages_inv s' fl' \<and> pgdir_ok s' fl' d \<and> pte_of s' d dstva = page2pa 0 OR perm OR PTE_P
      \<and> (\<forall>va'. PGNUM va' \<noteq> PGNUM dstva \<longrightarrow> pte_of s' d va' = pte_of s d va')"
    using assms(13) by (intro page_insert_run_maps [OF assms(1,2) w(2) assms(11,12) _ assms(14)]) simp
  then obtain s' where "page_insert (frame_kva d) 0 dstva perm s = Ret 0 s'"
      "pte_of s' d dstva = page2pa 0 OR perm OR PTE_P" by blast
  with assms(3-8) l show ?thesis by (simp add: sys_page_map_def kderef_def)
qed

theorem sys_page_map_unmapped_source_witness:
  "\<exists>s'. sys_page_map 0 0x1000 0 0x400000 5 user_machine = Ret 0 s'
     \<and> pte_of s' 4 0x400000 = page2pa 0 OR 5 OR PTE_P"
proof -
  have "check_perm 5 = 0" "(5::u32) AND PTE_W = 0" "check_mem 0x1000 = 0" "check_mem 0x400000 = 0"
    by (simp_all add: check_perm_def check_mem_def mmu_consts PGOFF_def)
  from sys_page_map_unmapped_source [OF user_machine_ok _ _ this] show ?thesis
    by (simp add: small_machine_pte small_tables unat_PDX unat_PTX)
qed

section \<open>Forking and dispatch\<close>

text \<open>
  \<open>sys_exofork\<close> returns the positive identifier of a new child that does not run yet, has the
  caller's registers except for a zero result register, and has the caller as its parent; the
  caller itself is unchanged.\<close>

theorem sys_exofork_child:
  assumes "curenv s = Some c" "c \<noteq> e"
    and "pages_inv s (p # fl)" "env_free_list s = Some e" "e < NENV"
    and "kern_pgdir s = frame_kva kd" "kd < npages s" "kd \<noteq> p"
  shows "\<exists>s' r. sys_exofork s = Ret r s' \<and> 0 < r \<and> r = sint (env_id (envs s' e))
     \<and> env_status (envs s' e) = ENV_NOT_RUNNABLE
     \<and> env_tf (envs s' e) = (env_tf (envs s c))\<lparr>tf_regs := (tf_regs (env_tf (envs s c)))\<lparr>reg_eax := 0\<rparr>\<rparr>
     \<and> env_parent_id (envs s' e) = env_id (envs s c) \<and> envs s' c = envs s c"
proof -
  obtain s1 where A: "env_alloc (env_id (envs s c)) s = Ret (0, Some e) s1"
      "\<forall>e'. e' \<noteq> e \<longrightarrow> envs s1 e' = envs s e'" "env_parent_id (envs s1 e) = env_id (envs s c)"
      "env_id (envs s1 e) = next_env_id (env_id (envs s e)) e"
    using env_alloc_run [OF assms(3-8), of "env_id (envs s c)"] by blast
  have c: "envs s1 c = envs s c" using A(2) assms(2) by simp
  have id: "0 < sint (next_env_id (env_id (envs s e)) e)" by (rule next_env_id_props(1) [OF assms(5)])
  have "\<exists>s'. sys_exofork s = Ret (sint (env_id (envs s1 e))) s'
     \<and> envs s' = (envs s1)(e := (envs s1 e)\<lparr>env_status := ENV_NOT_RUNNABLE,
         env_tf := (env_tf (envs s c))\<lparr>tf_regs := (tf_regs (env_tf (envs s c)))\<lparr>reg_eax := 0\<rparr>\<rparr>\<rparr>)"
    using A(1) assms(1,2) c
    by (simp add: sys_exofork_def kcurenv_def kderef_def kbind_run [of kcurenv] fun_upd_def)
  then obtain s' where s': "sys_exofork s = Ret (sint (env_id (envs s1 e))) s'"
     "envs s' = (envs s1)(e := (envs s1 e)\<lparr>env_status := ENV_NOT_RUNNABLE,
         env_tf := (env_tf (envs s c))\<lparr>tf_regs := (tf_regs (env_tf (envs s c)))\<lparr>reg_eax := 0\<rparr>\<rparr>\<rparr>)" by blast
  show ?thesis
    using s' A(3,4) id c assms(2) by (intro exI [of _ s'] exI [of _ "sint (env_id (envs s1 e))"]) simp
qed

theorem sys_exofork_child_witness:
  "\<exists>s' r. sys_exofork (set_curenv (Some 2) boot_machine) = Ret r s' \<and> 0 < r
     \<and> env_status (envs s' 7) = ENV_NOT_RUNNABLE"
proof -
  have "pages_inv (set_curenv (Some 2) boot_machine) [5, 6]"
    by (rule pages_inv_cong [OF small_machine_inv]) (simp_all add: boot_machine_def)
  then obtain s' r where "sys_exofork (set_curenv (Some 2) boot_machine) = Ret r s'" "0 < r"
      "env_status (envs s' 7) = ENV_NOT_RUNNABLE"
    using sys_exofork_child [of "set_curenv (Some 2) boot_machine" 2 7 5 "[6]" 4]
    by (auto simp: boot_machine_def)
  then show ?thesis by blast
qed

text \<open>
  A system call number that the dispatcher does not know returns \<open>-E_INVAL\<close> and changes
  nothing; that includes \<open>SYS_env_set_trapframe\<close>, which has a number but no case.\<close>

theorem syscall_unknown:
  assumes "n \<ge> 14 \<or> n = SYS_env_set_trapframe"
  shows "syscall n a1 a2 a3 a4 a5 s = Ret (- E_INVAL) s"
  using assms by (auto simp: syscall_def syscall_numbers word_le_nat_alt)

theorem syscall_unknown_witness:
  "syscall SYS_env_set_trapframe 1 2 3 4 5 bss_kstate = Ret (- E_INVAL) bss_kstate"
  using syscall_unknown [of SYS_env_set_trapframe] by simp

end
