(* ===== verification/Jos_Trap.thy ===== *)
theory Jos_Trap
  imports Jos_Syscall
begin

text \<open>
  Traps: \<^verbatim>\<open>tps/kern/trap.c\<close> and the entry points of \<^verbatim>\<open>tps/kern/trapentry.S\<close>. A trap frame is
  either the one on the kernel stack or, for a trap from user mode, the copy in the current
  environment, which is what the pointer type \<open>tfptr\<close> distinguishes. The trace that
  \<open>print_trapframe\<close> writes and the acknowledgement of the timer (\<open>lapic_eoi\<close>) touch no state
  of the model.
\<close>

definition T_BRKPT :: u32 where "T_BRKPT = 3"
definition T_PGFLT :: u32 where "T_PGFLT = 14"
definition T_SYSCALL :: u32 where "T_SYSCALL = 48"
definition IRQ_OFFSET :: u32 where "IRQ_OFFSET = 32"
definition IRQ_TIMER :: u32 where "IRQ_TIMER = 0"
definition IRQ_SPURIOUS :: u32 where "IRQ_SPURIOUS = 7"

lemmas trap_numbers = T_BRKPT_def T_PGFLT_def T_SYSCALL_def IRQ_OFFSET_def IRQ_TIMER_def IRQ_SPURIOUS_def

section \<open>The interrupt descriptor table\<close>

record gate =
  gd_handler :: nat
  gd_sel :: u16
  gd_trap :: bool
  gd_dpl :: nat

definition SETGATE :: "bool \<Rightarrow> u16 \<Rightarrow> nat \<Rightarrow> nat \<Rightarrow> gate" where
  "SETGATE istrap sel off dpl = \<lparr>gd_handler = off, gd_sel = sel, gd_trap = istrap, gd_dpl = dpl\<rparr>"

text \<open>The handler \<open>trap_n\<close> is the number \<open>n\<close>; an entry that is not set is not present.\<close>

definition trap_init :: "nat \<Rightarrow> gate option" where
  "trap_init =
    (\<lambda>_. None)(0 \<mapsto> SETGATE False GD_KT 0 0, 1 \<mapsto> SETGATE False GD_KT 1 0,
      2 \<mapsto> SETGATE False GD_KT 2 0, 3 \<mapsto> SETGATE False GD_KT 3 3,
      4 \<mapsto> SETGATE False GD_KT 4 0, 5 \<mapsto> SETGATE False GD_KT 5 0,
      6 \<mapsto> SETGATE False GD_KT 6 0, 7 \<mapsto> SETGATE False GD_KT 7 0,
      8 \<mapsto> SETGATE False GD_KT 8 0, 9 \<mapsto> SETGATE False GD_KT 9 0,
      10 \<mapsto> SETGATE False GD_KT 10 0, 11 \<mapsto> SETGATE False GD_KT 11 0,
      12 \<mapsto> SETGATE False GD_KT 12 0, 13 \<mapsto> SETGATE False GD_KT 13 0,
      14 \<mapsto> SETGATE False GD_KT 14 0, 15 \<mapsto> SETGATE False GD_KT 15 0,
      16 \<mapsto> SETGATE False GD_KT 16 0, 17 \<mapsto> SETGATE False GD_KT 17 0,
      18 \<mapsto> SETGATE False GD_KT 18 0, 19 \<mapsto> SETGATE False GD_KT 19 0,
      32 \<mapsto> SETGATE False GD_KT 32 0, 48 \<mapsto> SETGATE False GD_KT 48 3)"

definition trapname :: "nat \<Rightarrow> string" where
  "trapname trapno =
    (let excnames = [''Divide error'', ''Debug'', ''Non-Maskable Interrupt'', ''Breakpoint'',
        ''Overflow'', ''BOUND Range Exceeded'', ''Invalid Opcode'', ''Device Not Available'',
        ''Double Fault'', ''Coprocessor Segment Overrun'', ''Invalid TSS'', ''Segment Not Present'',
        ''Stack Fault'', ''General Protection'', ''Page Fault'', ''(unknown trap)'',
        ''x87 FPU Floating-Point Error'', ''Alignment Check'', ''Machine-Check'',
        ''SIMD Floating-Point Exception''] in
     if trapno < length excnames then excnames ! trapno
     else if trapno = 48 then ''System call''
     else if trapno \<ge> 32 \<and> trapno < 32 + 16 then ''Hardware Interrupt''
     else ''(unknown trap)'')"

text \<open>The vectors whose entry point does not push a zero in place of the error code.\<close>

definition handler_expects_error_code :: "nat \<Rightarrow> bool" where
  "handler_expects_error_code n \<longleftrightarrow> n \<in> {8, 10, 11, 12, 13, 14}"

text \<open>The top of the kernel stack that \<open>trap_init_percpu\<close> gives to processor \<open>i\<close>.\<close>

definition kstacktop :: "nat \<Rightarrow> u32" where
  "kstacktop i = KSTACKTOP - of_nat i * (KSTKSIZE + KSTKGAP)"

section \<open>Trap frames\<close>

datatype tfptr = OnStack Trapframe | InEnv nat

definition tf_at :: "tfptr \<Rightarrow> kstate \<Rightarrow> Trapframe" where
  "tf_at p s = (case p of OnStack tf \<Rightarrow> tf | InEnv e \<Rightarrow> env_tf (envs s e))"

definition set_eax :: "tfptr \<Rightarrow> u32 \<Rightarrow> kstate \<Rightarrow> kstate" where
  "set_eax p r s = (case p of OnStack tf \<Rightarrow> s
     | InEnv e \<Rightarrow> upd_env e (\<lambda>v. v\<lparr>env_tf := (env_tf v)\<lparr>tf_regs := (tf_regs (env_tf v))\<lparr>reg_eax := r\<rparr>\<rparr>\<rparr>) s)"

section \<open>Page faults\<close>

text \<open>\<open>struct UTrapframe\<close>: its words in the order of the fields.\<close>

definition utf_words :: "u32 \<Rightarrow> Trapframe \<Rightarrow> u32 list" where
  "utf_words fault_va tf = [fault_va, tf_err tf,
     reg_edi (tf_regs tf), reg_esi (tf_regs tf), reg_ebp (tf_regs tf), reg_oesp (tf_regs tf),
     reg_ebx (tf_regs tf), reg_edx (tf_regs tf), reg_ecx (tf_regs tf), reg_eax (tf_regs tf),
     tf_eip tf, tf_eflags tf, tf_esp tf]"

definition sizeof_UTrapframe :: u32 where "sizeof_UTrapframe = 52"

definition utf_address :: "Trapframe \<Rightarrow> u32" where
  "utf_address tf =
    (let dir = (if tf_esp tf \<ge> UXSTACKTOP - PGSIZE \<and> tf_esp tf < UXSTACKTOP
                then tf_esp tf - 4 else UXSTACKTOP)
     in dir - sizeof_UTrapframe)"

definition page_fault_handler :: "tfptr \<Rightarrow> unit kM" where
  "page_fault_handler p =
     kbind (kget cr2) (\<lambda>fault_va.
     kbind (kget (tf_at p)) (\<lambda>tf.
     if tf_cs tf AND 3 = 0 \<and> tf_trapno tf = T_PGFLT then kpanic ''Page fault in kernel mode''
     else
       kbind kcurenv (\<lambda>c.
       kbind (kget (\<lambda>s. env_pgfault_upcall (envs s c))) (\<lambda>upcall.
       kbind (if upcall = 0 then env_destroy c else kreturn ()) (\<lambda>_.
       let u = utf_address tf in
       kbind (user_mem_assert c u sizeof_UTrapframe (PTE_U OR PTE_W)) (\<lambda>_.
       kbind (kfor (zip [0..<13] (utf_words fault_va tf)) (\<lambda>(i, w). vstore32 (u + 4 * of_nat i) w)) (\<lambda>_.
       kbind (kmodify (\<lambda>s. upd_env c (\<lambda>v. v\<lparr>env_tf := (env_tf v)
           \<lparr>tf_eip := env_pgfault_upcall v, tf_esp := u\<rparr>\<rparr>) s)) (\<lambda>_.
         env_run c))))))))"

section \<open>Dispatch\<close>

text \<open>The monitor reads commands for ever: none of them makes it return.\<close>

definition trap_dispatch :: "tfptr \<Rightarrow> unit kM" where
  "trap_dispatch p =
     kbind (kget (tf_at p)) (\<lambda>tf.
     if tf_trapno tf = T_BRKPT then (\<lambda>s. NoRet Monitor s)
     else if tf_trapno tf = T_PGFLT then page_fault_handler p
     else if tf_trapno tf = T_SYSCALL then
       kbind (syscall (reg_eax (tf_regs tf)) (reg_edx (tf_regs tf)) (reg_ecx (tf_regs tf))
                (reg_ebx (tf_regs tf)) (reg_edi (tf_regs tf)) (reg_esi (tf_regs tf))) (\<lambda>result.
         kmodify (set_eax p (word_of_int result)))
     else if tf_trapno tf = IRQ_OFFSET + IRQ_SPURIOUS then kreturn ()
     else if tf_trapno tf = IRQ_OFFSET + IRQ_TIMER then sched_yield
     else if tf_cs tf = GD_KT then kpanic ''unhandled trap in kernel''
     else kbind kcurenv env_destroy)"

text \<open>
  \<open>panicked\<close> says whether another CPU has panicked, in which case this one halts. The
  interrupt flag is the hardware's: the gates clear it.
\<close>

definition trap :: "Trapframe \<Rightarrow> 'a kM" where
  "trap tf =
     kbind (kget (\<lambda>s. cpu_status (cpus s (cpunum s)))) (\<lambda>old.
     kbind (kmodify (\<lambda>s. s\<lparr>cpus := (cpus s)(cpunum s := (cpus s (cpunum s))\<lparr>cpu_status := CPU_STARTED\<rparr>)\<rparr>)) (\<lambda>_.
     kbind (if old = CPU_HALTED then lock_kernel else kreturn ()) (\<lambda>_.
     kbind (if tf_cs tf AND 3 = 3 then
              kbind (kget curenv) (\<lambda>co. case co of
                None \<Rightarrow> kpanic ''assertion failed: curenv''
              | Some c \<Rightarrow>
                  kbind lock_kernel (\<lambda>_.
                  kbind (kget (\<lambda>s. env_status (envs s c))) (\<lambda>st.
                  kbind (if st = ENV_DYING then
                           kbind (env_free c) (\<lambda>_. kbind (kmodify (set_curenv None)) (\<lambda>_. sched_yield))
                         else kreturn ()) (\<lambda>_.
                  kbind (kmodify (upd_env c (\<lambda>v. v\<lparr>env_tf := tf\<rparr>))) (\<lambda>_.
                    kreturn (InEnv c))))))
            else kreturn (OnStack tf)) (\<lambda>p.
     kbind (trap_dispatch p) (\<lambda>_.
     kbind (kget (\<lambda>s. case curenv s of
         Some c \<Rightarrow> if env_status (envs s c) = ENV_RUNNING then Some c else None
       | None \<Rightarrow> None)) (\<lambda>cur.
       case cur of Some c \<Rightarrow> env_run c | None \<Rightarrow> sched_yield))))))"

section \<open>Writing through the current address space\<close>

text \<open>
  The page of \<open>va\<close> is mapped writable at frame \<open>q\<close> by the directory in frame \<open>d\<close> and the
  table in frame \<open>t\<close>, and \<open>q\<close> is neither of them; \<open>u\<close> are the permissions of the page, with \<open>PTE_U\<close> or
  without.
\<close>

definition writable_as :: "u32 \<Rightarrow> kstate \<Rightarrow> nat \<Rightarrow> nat \<Rightarrow> nat \<Rightarrow> u32 \<Rightarrow> bool" where
  "writable_as u s d t q va \<longleftrightarrow> cr3 s = page2pa d \<and> d < 65536 \<and> t < 65536 \<and> q < 65536 \<and> q \<noteq> d \<and> q \<noteq> t
     \<and> (u = 3 \<or> u = 7) \<and> fword s d (unat (PDX va)) = page2pa t OR 7
     \<and> fword s t (unat (PTX va)) = page2pa q OR u"

abbreviation writable_page :: "kstate \<Rightarrow> nat \<Rightarrow> nat \<Rightarrow> nat \<Rightarrow> u32 \<Rightarrow> bool" where
  "writable_page \<equiv> writable_as 7"

lemma page2pa_or:
  assumes "t < 65536" "u = 3 \<or> u = 7"
  shows "(page2pa t OR u) AND PTE_P \<noteq> 0" "(page2pa t OR u) AND PTE_W \<noteq> 0"
    "(page2pa t OR u) AND PTE_PS = 0" "unat (PTE_ADDR (page2pa t OR u)) = t * 4096"
proof -
  have u: "u < 4096" using assms(2) by auto
  have e: "(page2pa t OR u) AND x = ((page2pa t OR u) AND 0xFFF) AND x" if "x = 1 \<or> x = 2 \<or> x = 128" for x :: u32
    using that by (auto simp: and.assoc)
  show "(page2pa t OR u) AND PTE_P \<noteq> 0" "(page2pa t OR u) AND PTE_W \<noteq> 0"
    "(page2pa t OR u) AND PTE_PS = 0"
    using e [of 1] e [of 2] e [of 128] entry_flags [OF u, of t] assms(2) by (auto simp: mmu_consts)
  have "fnum (page2pa t OR u) = t" using assms u by (intro fnum_entry) auto
  then show "unat (PTE_ADDR (page2pa t OR u)) = t * 4096"
    using assms by (simp add: PTE_ADDR_frame unat_page2pa)
qed

lemma cr3_frame: "d < 65536 \<Longrightarrow> unat (PTE_ADDR (page2pa d)) = d * 4096"
  by (simp add: unat_PTE_ADDR unat_page2pa)

lemma translate_writable:
  assumes "writable_as u s d t q va" "PGNUM a = PGNUM va"
  shows "translate wr a s = Some (q * 4096 + unat a mod 4096)"
proof -
  have x: "PDX a = PDX va" "PTX a = PTX va"
    using assms(2) by (simp_all add: PGNUM_eq_iff)
  have m: "load32 (pmem s) (d * 4096 + 4 * unat (PDX va)) = page2pa t OR 7"
    "load32 (pmem s) (t * 4096 + 4 * unat (PTX va)) = page2pa q OR u"
    "cr3 s = page2pa d" "d < 65536" "t < 65536" "q < 65536" "u = 3 \<or> u = 7"
    using assms(1) by (simp_all add: writable_as_def fword_def)
  show ?thesis
    using page2pa_or [OF m(5), of 7] page2pa_or [OF m(6,7)]
    by (simp add: translate_def Let_def x m(1-3) cr3_frame [OF m(4)] unat_PGOFF)
qed

lemma writable_page_pmem:
  assumes "writable_as u s d t q va" "\<And>x. x div 4096 \<noteq> q \<Longrightarrow> m x = pmem s x"
  shows "writable_as u (s\<lparr>pmem := m\<rparr>) d t q va"
proof -
  have "f \<noteq> q \<Longrightarrow> j < 1024 \<Longrightarrow> fword (s\<lparr>pmem := m\<rparr>) f j = fword s f j" for f j
    unfolding fword_def by (simp, rule load32_cong) (rule assms(2), auto)
  with assms(1) show ?thesis by (auto simp: writable_as_def)
qed

lemma in_page: "off < 4096 \<Longrightarrow> (q * 4096 + off) div 4096 = (q::nat)"
  by simp

lemma vstore8_run:
  assumes "writable_as u s d t q va" "PGNUM a = PGNUM va"
  shows "vstore8 a b s = Ret () (s\<lparr>pmem := (pmem s)(q * 4096 + unat a mod 4096 := b)\<rparr>)"
  by (simp add: vstore8_def translate_writable [OF assms])

lemma vload8_run:
  assumes "writable_as u s d t q va" "PGNUM a = PGNUM va"
  shows "vload8 a s = Ret (pmem s (q * 4096 + unat a mod 4096)) s"
  by (simp add: vload8_def translate_writable [OF assms])

lemma kfor_four: "kfor [0..<4] f = kbind (f 0) (\<lambda>_. kbind (f 1) (\<lambda>_. kbind (f 2) (\<lambda>_. f 3)))"
  by (simp add: upt_conv_Cons eval_nat_numeral del: upt_Suc)

lemma unat_add_off:
  assumes "unat (va :: u32) mod 4096 + k < 4096"
  shows "unat (va + of_nat k) = unat va + k" "PGNUM (va + of_nat k) = PGNUM va"
    "unat (va + of_nat k) mod 4096 = unat va mod 4096 + k"
proof -
  define c r where "c = unat va div 4096" and "r = unat va mod 4096"
  have v: "unat va = c * 4096 + r" and lt: "r + k < 4096" "r < 4096"
    using assms by (simp_all add: c_def r_def)
  have "c < 1048576" using unat_word_lt32 [of va] by (simp add: c_def less_mult_imp_div_less)
  then have "unat va + k < 4294967296" using v lt by linarith
  then show u: "unat (va + of_nat k) = unat va + k" by (simp add: unat_word_ariths)
  have eq: "unat va + k = (r + k) + c * 4096" using v by simp
  have d: "(unat va + k) div 4096 = c" and m: "(unat va + k) mod 4096 = r + k"
    unfolding eq using lt by (simp_all only: div_mult_self1 mod_mult_self1) simp_all
  show "PGNUM (va + of_nat k) = PGNUM va" using d u by (simp add: word_unat_eq_iff unat_PGNUM c_def)
  show "unat (va + of_nat k) mod 4096 = unat va mod 4096 + k" using m u by (simp add: r_def)
qed

lemma vstore32_run:
  assumes w: "writable_as u s d t q va" and a: "PGNUM a = PGNUM va" and off: "unat a mod 4096 + 4 \<le> 4096"
  shows "vstore32 a x s = Ret () (s\<lparr>pmem := store32 (q * 4096 + unat a mod 4096) x (pmem s)\<rparr>)"
proof -
  let ?o = "q * 4096 + unat a mod 4096"
  have k: "k < 4 \<Longrightarrow> unat a mod 4096 + k < 4096" for k using off by simp
  have step: "vstore8 (a + of_nat k) b (s\<lparr>pmem := m\<rparr>) = Ret () (s\<lparr>pmem := m(?o + k := b)\<rparr>)"
    if "k < 4" "\<And>y. y div 4096 \<noteq> q \<Longrightarrow> m y = pmem s y" for k b m
    using vstore8_run [OF writable_page_pmem [OF w that(2)], of "a + of_nat k" b]
      unat_add_off [OF k [OF that(1)]] a by (simp add: add.assoc)
  have out: "y div 4096 \<noteq> q \<Longrightarrow> y \<noteq> ?o + k" if "k < 4" for y k
    using in_page [OF k [OF that], of q] by (auto simp: add.assoc)
  define m1 m2 m3 where "m1 = (pmem s)(?o := ucast (drop_bit (8 * 0) x))"
    and "m2 = m1(?o + 1 := ucast (drop_bit (8 * 1) x))"
    and "m3 = m2(?o + 2 := ucast (drop_bit (8 * 2) x))"
  have m: "y div 4096 \<noteq> q \<Longrightarrow> m1 y = pmem s y" "y div 4096 \<noteq> q \<Longrightarrow> m2 y = pmem s y"
    "y div 4096 \<noteq> q \<Longrightarrow> m3 y = pmem s y" for y
    using out [of 0 y] out [of 1 y] out [of 2 y] by (auto simp: m1_def m2_def m3_def)
  have r0: "vstore8 (a + of_nat 0) (ucast (drop_bit (8 * 0) x)) s = Ret () (s\<lparr>pmem := m1\<rparr>)"
    using step [of 0 "pmem s" "ucast (drop_bit (8 * 0) x)"] by (simp add: m1_def)
  have r1: "vstore8 (a + of_nat 1) (ucast (drop_bit (8 * 1) x)) (s\<lparr>pmem := m1\<rparr>) = Ret () (s\<lparr>pmem := m2\<rparr>)"
    unfolding m2_def by (rule step) (auto simp: m)
  have r2: "vstore8 (a + of_nat 2) (ucast (drop_bit (8 * 2) x)) (s\<lparr>pmem := m2\<rparr>) = Ret () (s\<lparr>pmem := m3\<rparr>)"
    unfolding m3_def by (rule step) (auto simp: m)
  have r3: "vstore8 (a + of_nat 3) (ucast (drop_bit (8 * 3) x)) (s\<lparr>pmem := m3\<rparr>)
      = Ret () (s\<lparr>pmem := m3(?o + 3 := ucast (drop_bit (8 * 3) x))\<rparr>)"
    by (rule step) (auto simp: m)
  have e: "m3(?o + 3 := ucast (drop_bit (8 * 3) x)) = store32 ?o x (pmem s)"
    by (simp add: store32_def m1_def m2_def m3_def)
  show ?thesis
    by (simp only: vstore32_def kfor_four kbind_Ret r0 r1 r2 r3 e)
qed

lemma vload32_run:
  assumes w: "writable_as u s d t q va" and a: "PGNUM a = PGNUM va" and off: "unat a mod 4096 + 4 \<le> 4096"
  shows "vload32 a s = Ret (load32 (pmem s) (q * 4096 + unat a mod 4096)) s"
proof -
  have "vload8 (a + of_nat k) s = Ret (pmem s (q * 4096 + unat a mod 4096 + k)) s" if "k < 4" for k
  proof -
    have "unat a mod 4096 + k < 4096" using off that by simp
    then show ?thesis using vload8_run [OF w, of "a + of_nat k"] unat_add_off [of a k] a by (simp add: add.assoc)
  qed
  from this [of 0] this [of 1] this [of 2] this [of 3] show ?thesis by (simp add: vload32_def load32_def)
qed

lemma store_words:
  assumes "writable_page s d t q va" "PGNUM u = PGNUM va" "unat u mod 4096 + 4 * (k + length ws) \<le> 4096"
  shows "\<exists>m. kfor (zip [k..<k + length ws] ws) (\<lambda>(i, w). vstore32 (u + 4 * of_nat i) w) s = Ret () (s\<lparr>pmem := m\<rparr>)
    \<and> (\<forall>i < length ws. load32 m (q * 4096 + unat u mod 4096 + 4 * (k + i)) = ws ! i)
    \<and> (\<forall>y. y < q * 4096 + unat u mod 4096 + 4 * k \<or> (q + 1) * 4096 \<le> y \<longrightarrow> m y = pmem s y)"
  using assms
proof (induction ws arbitrary: k s)
  case Nil
  then show ?case by (intro exI [of _ "pmem s"]) simp
next
  case (Cons w ws)
  let ?b = "q * 4096 + unat u mod 4096"
  let ?m1 = "store32 (?b + 4 * k) w (pmem s)"
  let ?f = "\<lambda>(i, w). vstore32 (u + 4 * of_nat i) w"
  have k4: "unat u mod 4096 + 4 * k < 4096" using Cons.prems(3) by simp
  have a: "PGNUM (u + 4 * of_nat k) = PGNUM va" "unat (u + 4 * of_nat k) mod 4096 = unat u mod 4096 + 4 * k"
    using unat_add_off [OF k4] Cons.prems(2) by simp_all
  have st: "vstore32 (u + 4 * of_nat k) w s = Ret () (s\<lparr>pmem := ?m1\<rparr>)"
    using vstore32_run [OF Cons.prems(1) a(1)] a(2) Cons.prems(3) by (simp add: add.assoc)
  have w1: "writable_page (s\<lparr>pmem := ?m1\<rparr>) d t q va"
    by (rule writable_page_pmem [OF Cons.prems(1)])
      (use Cons.prems(3) in \<open>auto simp: store32_def split: if_splits\<close>)
  obtain m where m: "kfor (zip [Suc k..<Suc k + length ws] ws) ?f (s\<lparr>pmem := ?m1\<rparr>) = Ret () (s\<lparr>pmem := m\<rparr>)"
     "\<forall>i < length ws. load32 m (?b + 4 * (Suc k + i)) = ws ! i"
     "\<forall>y. y < ?b + 4 * Suc k \<or> (q + 1) * 4096 \<le> y \<longrightarrow> m y = ?m1 y"
    using Cons.IH [OF w1 Cons.prems(2), of "Suc k"] Cons.prems(3) by auto
  have z: "zip [k..<k + length (w # ws)] (w # ws) = (k, w) # zip [Suc k..<Suc k + length ws] ws"
    by (simp add: upt_conv_Cons del: upt_Suc)
  have "kfor (zip [k..<k + length (w # ws)] (w # ws)) ?f s = Ret () (s\<lparr>pmem := m\<rparr>)"
    unfolding z using st m(1) by (simp del: upt_Suc)
  moreover have "load32 m (?b + 4 * k) = w"
  proof -
    have "load32 m (?b + 4 * k) = load32 ?m1 (?b + 4 * k)"
      by (rule load32_cong) (use m(3) in auto)
    then show ?thesis by simp
  qed
  then have "\<forall>i < length (w # ws). load32 m (?b + 4 * (k + i)) = (w # ws) ! i"
    using m(2) by (auto simp: less_Suc_eq_0_disj ac_simps)
  moreover have "\<forall>y. y < ?b + 4 * k \<or> (q + 1) * 4096 \<le> y \<longrightarrow> m y = pmem s y"
    using m(3) Cons.prems(3) by (auto simp: store32_def)
  ultimately show ?case by blast
qed

section \<open>The user-level page fault\<close>

definition xstack_page :: u32 where
  "xstack_page = UXSTACKTOP - PGSIZE"

lemma utf_in_xstack:
  assumes "xstack_page \<le> utf_address tf"
  shows "unat (utf_address tf) mod 4096 + 52 \<le> 4096" "PGNUM (utf_address tf) = PGNUM xstack_page"
    "page_range (ROUNDDOWN (utf_address tf) PGSIZE) (ROUNDUP (utf_address tf + sizeof_UTrapframe) PGSIZE) = [xstack_page]"
proof -
  let ?u = "utf_address tf"
  have lo: "4005556224 \<le> unat ?u"
    using assms by (simp add: xstack_page_def mmu_consts word_le_nat_alt)
  have hi: "unat ?u \<le> 4005560320 - 52"
  proof (cases "tf_esp tf \<ge> UXSTACKTOP - PGSIZE \<and> tf_esp tf < UXSTACKTOP")
    case True
    then have e: "4005556224 \<le> unat (tf_esp tf)" "unat (tf_esp tf) < 4005560320"
      by (simp_all add: mmu_consts word_le_nat_alt word_less_nat_alt)
    have "unat (tf_esp tf - 4 - 52) = unat (tf_esp tf) - 56"
      using e by (simp add: unat_sub_if')
    then show ?thesis using True e by (simp add: utf_address_def sizeof_UTrapframe_def Let_def)
  next
    case False
    have "?u = UXSTACKTOP - 52"
      unfolding utf_address_def Let_def if_not_P [OF False] by (simp add: sizeof_UTrapframe_def)
    then show ?thesis by (simp add: mmu_consts)
  qed
  define r where "r = unat ?u - 4005556224"
  have u: "unat ?u = 977919 * 4096 + r" and r: "r \<le> 4044" using lo hi by (simp_all add: r_def)
  have m: "unat ?u mod 4096 = r" and d: "unat ?u div 4096 = 977919"
    using mod_mult_self1 [of r 977919 4096] div_mult_self1 [of 4096 r 977919] u r
    by (simp_all add: add.commute)
  show "unat ?u mod 4096 + 52 \<le> 4096" using m r by simp
  show "PGNUM ?u = PGNUM xstack_page"
    using d by (simp add: word_unat_eq_iff unat_PGNUM xstack_page_def mmu_consts)
  have rd: "ROUNDDOWN ?u PGSIZE = xstack_page"
    using d by (simp add: word_unat_eq_iff unat_ROUNDDOWN xstack_page_def mmu_consts)
  have u52: "unat (?u + 52) = 977919 * 4096 + r + 52" using u r by (simp add: unat_word_ariths)
  have "(977919 * 4096 + r + 52 + 4095) div 4096 = 977920" using r by (intro div_nat_eqI) simp_all
  then have "unat (ROUNDUP (?u + 52) PGSIZE) = 4005560320"
    using r by (subst ROUNDUP_PGSIZE) (simp_all add: u52)
  then have ru: "ROUNDUP (?u + sizeof_UTrapframe) PGSIZE = 0xEEC00000"
    by (simp add: word_unat_eq_iff sizeof_UTrapframe_def)
  show "page_range (ROUNDDOWN ?u PGSIZE) (ROUNDUP (?u + sizeof_UTrapframe) PGSIZE) = [xstack_page]"
    unfolding rd ru by (simp add: page_range_def xstack_page_def mmu_consts)
qed

lemma utf_words_length [simp]: "length (utf_words va tf) = 13"
  by (simp add: utf_words_def)

lemma pagefault_perm: "(page2pa q OR 7) AND (PTE_U OR PTE_W OR PTE_U OR PTE_P) = PTE_U OR PTE_W OR PTE_U OR PTE_P"
proof -
  have "(page2pa q OR 7) AND 7 = ((page2pa q OR 7) AND 0xFFF) AND 7" by (simp add: and.assoc)
  then show ?thesis using entry_flags [of 7 q] by (simp add: mmu_consts)
qed

text \<open>
  Property C27. User-level page faults: when the environment has an upcall and its exception stack is
  mapped, the handler writes the trap-time state as a \<open>UTrapframe\<close> below \<open>UXSTACKTOP\<close>, or, for
  a fault taken on the exception stack itself, below the current frame with one word left
  free, changes the memory of no other page and nothing below the frame, and resumes the same environment in
  the upcall with its stack pointer at the frame.\<close>

theorem page_fault_upcall:
  assumes "curenv s = Some c" "env_tf (envs s c) = tf" "tf_trapno tf = T_PGFLT" "tf_cs tf AND 3 = 3"
    and "env_pgfault_upcall (envs s c) \<noteq> 0" "env_pgdir (envs s c) = frame_kva d"
    and "pgdir_ok s fl d" "npages s \<le> 65536" "self_mapped s d"
    and "writable_page s d t q xstack_page" "table_of s d (unat (PDX xstack_page)) = Some t"
    and "xstack_page \<le> utf_address tf"
  shows "\<exists>s'. page_fault_handler (InEnv c) s = env_run c s'
     \<and> env_tf (envs s' c) = tf\<lparr>tf_eip := env_pgfault_upcall (envs s c), tf_esp := utf_address tf\<rparr>
     \<and> (\<forall>i < 13. load32 (pmem s') (q * 4096 + unat (utf_address tf) mod 4096 + 4 * i) = utf_words (cr2 s) tf ! i)
     \<and> (\<forall>y. y < q * 4096 + unat (utf_address tf) mod 4096 \<or> (q + 1) * 4096 \<le> y \<longrightarrow> pmem s' y = pmem s y)"
proof -
  let ?u = "utf_address tf"
  note U = utf_in_xstack [OF assms(12)]
  have pde: "unat (PDX xstack_page) = 954" by (simp add: unat_PDX xstack_page_def mmu_consts)
  have "pte_at s d xstack_page = page2pa q OR 7"
    using assms(10,11) pde by (simp add: pte_at_def uvpt_index_def pteval_def writable_as_def)
  then have may: "user_may s d (PTE_U OR PTE_W OR PTE_U) xstack_page"
    using pagefault_perm [of q] by (simp add: user_may_def or.assoc) (simp add: xstack_page_def mmu_consts)
  have "user_mem_check c ?u sizeof_UTrapframe ((PTE_U OR PTE_W) OR PTE_U) s = Ret 0 s"
    unfolding user_mem_check_def Let_def assms(6) user_mem_check_loop_find [OF assms(7-9)] U(3)
    using may by (simp add: or.assoc)
  then have check: "user_mem_assert c ?u sizeof_UTrapframe (PTE_U OR PTE_W) s = Ret () s"
    by (simp add: user_mem_assert_def)
  obtain m where m: "kfor (zip [0..<13] (utf_words (cr2 s) tf)) (\<lambda>(i, w). vstore32 (?u + 4 * of_nat i) w) s
        = Ret () (s\<lparr>pmem := m\<rparr>)"
     "\<forall>i < 13. load32 m (q * 4096 + unat ?u mod 4096 + 4 * i) = utf_words (cr2 s) tf ! i"
     "\<forall>y. y < q * 4096 + unat ?u mod 4096 \<or> (q + 1) * 4096 \<le> y \<longrightarrow> m y = pmem s y"
    using store_words [OF assms(10) U(2), of 0 "utf_words (cr2 s) tf"] U(1) by auto
  let ?s' = "upd_env c (\<lambda>v. v\<lparr>env_tf := (env_tf v)\<lparr>tf_eip := env_pgfault_upcall v, tf_esp := ?u\<rparr>\<rparr>) (s\<lparr>pmem := m\<rparr>)"
  have "page_fault_handler (InEnv c) s = env_run c ?s'"
    unfolding page_fault_handler_def Let_def
    using assms(1-5) check m(1)
    by (simp add: tf_at_def kcurenv_def kderef_def kbind_run [of kcurenv] del: kfor.simps)
  then show ?thesis
    using m(2,3) assms(2) by (intro exI [of _ ?s']) simp
qed

definition faulting_tf :: Trapframe where
  "faulting_tf = zero_tf\<lparr>tf_trapno := T_PGFLT, tf_cs := GD_UT OR 3, tf_esp := USTACKTOP - 16\<rparr>"

definition fault_machine :: kstate where
  "fault_machine = fset 7 1023 (page2pa 8 OR 7) (fset 4 954 (page2pa 7 OR 7) (fset 4 957 (page2pa 4 OR 5)
     (bss_kstate\<lparr>npages := 16, cr3 := page2pa 4,
       cpus := (\<lambda>_. \<lparr>cpu_status = CPU_STARTED, cpu_env = Some 2\<rparr>),
       envs := (\<lambda>_. zero_env\<lparr>env_pgdir := frame_kva 4, env_pgfault_upcall := 0x800020,
          env_tf := faulting_tf\<rparr>)\<rparr>)))"

lemma fault_machine_fword:
  "j < 1024 \<Longrightarrow> fword fault_machine f j = (if f = 7 \<and> j = 1023 then page2pa 8 OR 7
     else if f = 4 \<and> j = 954 then page2pa 7 OR 7 else if f = 4 \<and> j = 957 then page2pa 4 OR 5 else 0)"
  by (simp add: fault_machine_def fword_fset) (simp add: fword_def bss_kstate_def load32_def)

lemma fault_machine_table: "table_of fault_machine 4 i = (if i = 954 then Some 7 else None)"
proof -
  have "page2pa 7 OR 7 \<noteq> 0" by (simp add: page2pa_def PGSHIFT_def)
  then show ?thesis
    by (auto simp: table_of_def fault_machine_fword uvpt_index_def fnum_entry split: if_splits)
qed

theorem page_fault_upcall_witness:
  "\<exists>s'. page_fault_handler (InEnv 2) fault_machine = env_run 2 s'
     \<and> tf_eip (env_tf (envs s' 2)) = 0x800020 \<and> tf_esp (env_tf (envs s' 2)) = UXSTACKTOP - 52"
proof -
  have fr: "curenv fault_machine = Some 2" "npages fault_machine = 16" "cr3 fault_machine = page2pa 4"
    "env_tf (envs fault_machine 2) = faulting_tf" "env_pgfault_upcall (envs fault_machine 2) = 0x800020"
    "env_pgdir (envs fault_machine 2) = frame_kva 4"
    by (simp_all add: fault_machine_def curenv_def fset_def)
  have ok: "pgdir_ok fault_machine [] 4"
    by (auto simp: pgdir_ok_def fr fault_machine_table split: if_splits)
  have "page2pa 4 OR 5 \<noteq> 0" by (simp add: page2pa_def PGSHIFT_def)
  then have self: "self_mapped fault_machine 4"
    by (simp add: self_mapped_def fault_machine_fword uvpt_index_def fnum_entry)
  have px: "unat (PDX xstack_page) = 954" "unat (PTX xstack_page) = 1023"
    by (simp_all add: unat_PDX unat_PTX xstack_page_def mmu_consts)
  have w: "writable_page fault_machine 4 7 8 xstack_page"
    by (simp add: writable_as_def fr px fault_machine_fword)
  have u: "utf_address faulting_tf = UXSTACKTOP - 52"
    by (simp add: utf_address_def faulting_tf_def Let_def mmu_consts sizeof_UTrapframe_def)
  have tf: "tf_trapno faulting_tf = T_PGFLT" "tf_cs faulting_tf AND 3 = 3"
    by (simp_all add: faulting_tf_def GD_UT_def)
  have le: "xstack_page \<le> utf_address faulting_tf" unfolding u by (simp add: xstack_page_def mmu_consts)
  show ?thesis
    using page_fault_upcall [OF fr(1,4) tf _ fr(6) ok _ self w _ le] u
    by (auto simp: fr px fault_machine_table)
qed

text \<open>
  A fault in the kernel itself is never passed to an environment: the handler panics.\<close>

theorem kernel_page_fault_panics:
  assumes "tf_cs tf AND 3 = 0" "tf_trapno tf = T_PGFLT"
  shows "trap_dispatch (OnStack tf) s = Panic ''Page fault in kernel mode''"
  using assms by (simp add: trap_dispatch_def page_fault_handler_def tf_at_def trap_numbers)

theorem kernel_page_fault_panics_witness:
  "trap_dispatch (OnStack (zero_tf\<lparr>tf_trapno := T_PGFLT, tf_cs := GD_KT\<rparr>)) bss_kstate
     = Panic ''Page fault in kernel mode''"
  by (rule kernel_page_fault_panics) (simp_all add: GD_KT_def)

section \<open>Entering and leaving the kernel\<close>

text \<open>The state in which a trap from user mode is dispatched.\<close>

definition entered :: "nat \<Rightarrow> Trapframe \<Rightarrow> kstate \<Rightarrow> kstate" where
  "entered c tf s = upd_env c (\<lambda>v. v\<lparr>env_tf := tf\<rparr>)
     (s\<lparr>cpus := (cpus s)(cpunum s := (cpus s (cpunum s))\<lparr>cpu_status := CPU_STARTED\<rparr>),
        kernel_lock := Some (cpunum s)\<rparr>)"

lemma trap_enters:
  assumes "curenv s = Some c" "tf_cs tf AND 3 = 3" "cpu_status (cpus s (cpunum s)) \<noteq> CPU_HALTED"
    and "kernel_lock s = None" "env_status (envs s c) \<noteq> ENV_DYING"
  shows "trap tf s =
    kbind (trap_dispatch (InEnv c)) (\<lambda>_.
      kbind (kget (\<lambda>s. case curenv s of
         Some c \<Rightarrow> if env_status (envs s c) = ENV_RUNNING then Some c else None
       | None \<Rightarrow> None)) (\<lambda>cur. case cur of Some c \<Rightarrow> env_run c | None \<Rightarrow> sched_yield)) (entered c tf s)"
proof -
  let ?s1 = "s\<lparr>cpus := (cpus s)(cpunum s := (cpus s (cpunum s))\<lparr>cpu_status := CPU_STARTED\<rparr>)\<rparr>"
  have "curenv ?s1 = Some c" using assms(1) by (simp add: curenv_def)
  moreover have "lock_kernel ?s1 = Ret () (?s1\<lparr>kernel_lock := Some (cpunum s)\<rparr>)"
    using assms(4) by (simp add: lock_kernel_def)
  ultimately show ?thesis
    unfolding trap_def using assms(2,3,5)
    by (simp add: kbind_assoc entered_def)
qed

lemma sched_halt_no_return: "kbind sched_halt f s = sched_halt s"
  unfolding sched_halt_def by (simp add: kbind_run split: kres.splits)

lemma sched_yield_no_continue: "kbind sched_yield f s = sched_yield s"
  unfolding sched_yield_find [OF refl] kbind_run
  using env_run_no_return [of _ f] sched_halt_no_return [of f]
  by (auto simp: kbind_run sched_yield_find [OF refl] split: option.splits if_splits)

text \<open>
  Preemption: a timer interrupt in user mode saves the registers in the environment and goes
  to the scheduler with the environment still \<open>ENV_RUNNING\<close>, so it can be chosen again.\<close>

theorem trap_timer_preempts:
  assumes "curenv s = Some c" "tf_cs tf AND 3 = 3" "cpu_status (cpus s (cpunum s)) \<noteq> CPU_HALTED"
    and "kernel_lock s = None" "env_status (envs s c) = ENV_RUNNING"
    and "tf_trapno tf = IRQ_OFFSET + IRQ_TIMER"
  shows "trap tf s = sched_yield (entered c tf s) \<and> env_tf (envs (entered c tf s) c) = tf
     \<and> env_status (envs (entered c tf s) c) = ENV_RUNNING"
proof -
  have d: "trap_dispatch (InEnv c) (entered c tf s) = sched_yield (entered c tf s)"
    using assms(6) by (simp add: trap_dispatch_def tf_at_def entered_def trap_numbers)
  have "trap tf s = kbind (trap_dispatch (InEnv c)) (\<lambda>_. kbind (kget (\<lambda>s. case curenv s of
         Some c \<Rightarrow> if env_status (envs s c) = ENV_RUNNING then Some c else None
       | None \<Rightarrow> None)) (\<lambda>cur. case cur of Some c \<Rightarrow> env_run c | None \<Rightarrow> sched_yield)) (entered c tf s)"
    using assms(5) by (intro trap_enters assms(1-4)) simp
  also have "\<dots> = kbind sched_yield (\<lambda>_::unit. kbind (kget (\<lambda>s. case curenv s of
         Some c \<Rightarrow> if env_status (envs s c) = ENV_RUNNING then Some c else None
       | None \<Rightarrow> None)) (\<lambda>cur. case cur of Some c \<Rightarrow> env_run c | None \<Rightarrow> sched_yield)) (entered c tf s)"
    unfolding kbind_run d ..
  finally show ?thesis using assms(5) by (simp add: sched_yield_no_continue entered_def)
qed

text \<open>
  A system call that returns puts its result in the caller's \<open>eax\<close>, and the caller goes on
  when it is still the current, running environment.\<close>

theorem trap_syscall_returns:
  assumes "curenv s = Some c" "tf_cs tf AND 3 = 3" "cpu_status (cpus s (cpunum s)) \<noteq> CPU_HALTED"
    and "kernel_lock s = None" "env_status (envs s c) = ENV_RUNNING" "tf_trapno tf = T_SYSCALL"
    and "syscall (reg_eax (tf_regs tf)) (reg_edx (tf_regs tf)) (reg_ecx (tf_regs tf))
                (reg_ebx (tf_regs tf)) (reg_edi (tf_regs tf)) (reg_esi (tf_regs tf)) (entered c tf s) = Ret r s1"
    and "curenv s1 = Some c" "env_status (envs s1 c) = ENV_RUNNING"
  shows "trap tf s = env_run c (upd_env c (\<lambda>v. v\<lparr>env_tf := (env_tf v)\<lparr>tf_regs :=
      (tf_regs (env_tf v))\<lparr>reg_eax := word_of_int r\<rparr>\<rparr>\<rparr>) s1)"
proof -
  have d: "trap_dispatch (InEnv c) (entered c tf s) = Ret () (set_eax (InEnv c) (word_of_int r) s1)"
    using assms(6,7) by (simp add: trap_dispatch_def tf_at_def entered_def trap_numbers)
  have "trap tf s = kbind (trap_dispatch (InEnv c)) (\<lambda>_. kbind (kget (\<lambda>s. case curenv s of
         Some c \<Rightarrow> if env_status (envs s c) = ENV_RUNNING then Some c else None
       | None \<Rightarrow> None)) (\<lambda>cur. case cur of Some c \<Rightarrow> env_run c | None \<Rightarrow> sched_yield)) (entered c tf s)"
    using assms(5) by (intro trap_enters assms(1-4)) simp
  then show ?thesis using d assms(8,9) by (simp add: set_eax_def)
qed

definition syscall_machine :: kstate where
  "syscall_machine = bss_kstate\<lparr>cpus := (\<lambda>_. \<lparr>cpu_status = CPU_STARTED, cpu_env = Some 2\<rparr>),
     envs := (\<lambda>_. zero_env)(2 := zero_env\<lparr>env_status := ENV_RUNNING, env_id := 0x1002\<rparr>)\<rparr>"

theorem trap_timer_preempts_witness:
  "trap (zero_tf\<lparr>tf_trapno := 32, tf_cs := 0x1B\<rparr>) syscall_machine
     = (sched_yield (entered 2 (zero_tf\<lparr>tf_trapno := 32, tf_cs := 0x1B\<rparr>) syscall_machine) :: unit kres)"
  by (rule trap_timer_preempts [THEN conjunct1])
    (simp_all add: syscall_machine_def bss_kstate_def curenv_def trap_numbers)

theorem trap_syscall_returns_witness:
  "\<exists>s'. trap (zero_tf\<lparr>tf_trapno := 48, tf_cs := 0x1B, tf_regs := zero_regs\<lparr>reg_eax := SYS_getenvid\<rparr>\<rparr>) syscall_machine
     = (env_run 2 s' :: unit kres) \<and> reg_eax (tf_regs (env_tf (envs s' 2))) = 0x1002"
proof -
  let ?tf = "zero_tf\<lparr>tf_trapno := 48, tf_cs := 0x1B, tf_regs := zero_regs\<lparr>reg_eax := SYS_getenvid\<rparr>\<rparr>"
  let ?e = "entered 2 ?tf syscall_machine"
  have c: "curenv ?e = Some 2" "env_status (envs ?e 2) = ENV_RUNNING" "env_id (envs ?e 2) = 0x1002"
    by (simp_all add: entered_def syscall_machine_def curenv_def)
  have "syscall SYS_getenvid 0 0 0 0 0 ?e = Ret (sint (0x1002::u32)) ?e"
    using c by (simp add: syscall_def syscall_numbers sys_getenvid_def kcurenv_def kderef_def kbind_run)
  then have "trap ?tf syscall_machine = (env_run 2 (upd_env 2 (\<lambda>v. v\<lparr>env_tf := (env_tf v)\<lparr>tf_regs :=
      (tf_regs (env_tf v))\<lparr>reg_eax := word_of_int (sint (0x1002::u32))\<rparr>\<rparr>\<rparr>) ?e) :: unit kres)"
    using c by (intro trap_syscall_returns)
      (simp_all add: syscall_machine_def bss_kstate_def curenv_def trap_numbers zero_regs_def)
  then show ?thesis
    by (intro exI [of _ "upd_env 2 (\<lambda>v. v\<lparr>env_tf := (env_tf v)\<lparr>tf_regs :=
      (tf_regs (env_tf v))\<lparr>reg_eax := word_of_int (sint (0x1002::u32))\<rparr>\<rparr>\<rparr>) ?e"] conjI) simp_all
qed

end
