(* ===== verification/Jos_Meminit.thy ===== *)
theory Jos_Meminit
  imports Jos_Trap
begin

text \<open>
  Setting up the memory: the parts of \<open>mem_init\<close> of \<^verbatim>\<open>tps/kern/pmap.c\<close> between its self-tests, and
  \<open>mem_init_mp\<close>. The first part allocates the kernel's tables and puts the rest of the memory on the
  free list, the second builds the kernel's part of the address space, the third switches to it.
  The lemmas about the second part hold for every state the self-tests may leave; the whole
  function, with the tests, is in the theory \<open>Jos_Boot\<close>.
\<close>

section \<open>The definitions\<close>

definition NCPU :: nat where "NCPU = 8"
definition sizeof_PageInfo :: u32 where "sizeof_PageInfo = 8"
definition sizeof_Env :: u32 where "sizeof_Env = 124"

text \<open>
  The first half: the addresses of \<open>pages\<close> and \<open>envs\<close> are its results. The entries of the two
  arrays are fields of the state, not bytes of the memory, so clearing an array clears both.
\<close>

definition mem_init_tables :: "(u32 \<Rightarrow> u8) \<Rightarrow> u32 \<Rightarrow> (u32 \<times> u32) kM" where
  "mem_init_tables cmos kend =
     kbind (i386_detect_memory cmos) (\<lambda>_.
     kbind (boot_alloc kend PGSIZE) (\<lambda>dir.
     kbind (kmodify (\<lambda>s. kmemset dir 0 PGSIZE (s\<lparr>kern_pgdir := dir\<rparr>))) (\<lambda>_.
     kbind (PADDR dir) (\<lambda>pa.
     kbind (kmodify (kstore (dir + 4 * PDX UVPT) (pa OR PTE_U OR PTE_P))) (\<lambda>_.
     kbind (kget (\<lambda>s. of_nat (npages s) * sizeof_PageInfo)) (\<lambda>sz.
     kbind (boot_alloc kend sz) (\<lambda>pages_va.
     kbind (kmodify (\<lambda>s. kmemset pages_va 0 sz
       (s\<lparr>pages := (\<lambda>p. if p < npages s then zero_page else pages s p)\<rparr>))) (\<lambda>_.
     kbind (boot_alloc kend (of_nat NENV * sizeof_Env)) (\<lambda>envs_va.
     kbind (kmodify (\<lambda>s. kmemset envs_va 0 (of_nat NENV * sizeof_Env)
       (s\<lparr>envs := (\<lambda>e. if e < NENV then zero_env else envs s e)\<rparr>))) (\<lambda>_.
     kbind (page_init kend) (\<lambda>_.
       kreturn (pages_va, envs_va))))))))))))"

text \<open>
  Mapping an array the kernel knows by its own address. \<open>kstacks i\<close> is the address of
  \<open>percpu_kstacks[i]\<close>.
\<close>

definition map_array :: "bool \<Rightarrow> u32 \<Rightarrow> u32 \<Rightarrow> u32 \<Rightarrow> u32 \<Rightarrow> unit kM" where
  "map_array pse va sz kva perm =
     kbind (kget kern_pgdir) (\<lambda>pgdir.
     kbind (PADDR kva) (\<lambda>pa. boot_map_region pse pgdir va sz pa perm))"

definition map_kstack :: "bool \<Rightarrow> (nat \<Rightarrow> u32) \<Rightarrow> nat \<Rightarrow> unit kM" where
  "map_kstack pse kstacks i = map_array pse (kstacktop i - KSTKSIZE) KSTKSIZE (kstacks i) PTE_W"

definition mem_init_mp :: "bool \<Rightarrow> (nat \<Rightarrow> u32) \<Rightarrow> unit kM" where
  "mem_init_mp pse kstacks = kfor [0..<NCPU] (map_kstack pse kstacks)"

text \<open>The mappings, up to \<open>mem_init_mp\<close>, and the switch to the new directory.\<close>

definition mem_init_regions :: "bool \<Rightarrow> u32 \<Rightarrow> (nat \<Rightarrow> u32) \<Rightarrow> u32 \<Rightarrow> u32 \<Rightarrow> unit kM" where
  "mem_init_regions pse bootstack kstacks pages_va envs_va =
     kbind (kget (\<lambda>s. of_nat (npages s) * sizeof_PageInfo)) (\<lambda>sz.
     kbind (map_array pse UPAGES sz pages_va PTE_U) (\<lambda>_.
     kbind (map_array pse UENVS (of_nat NENV * sizeof_Env) envs_va (PTE_U OR PTE_P)) (\<lambda>_.
     kbind (map_array pse (KSTACKTOP - KSTKSIZE) (ROUNDUP KSTKSIZE PGSIZE) bootstack PTE_W) (\<lambda>_.
     kbind (kget kern_pgdir) (\<lambda>pgdir.
     kbind (boot_map_region pse pgdir KERNBASE (0 - KERNBASE) 0 PTE_W) (\<lambda>_.
       mem_init_mp pse kstacks))))))"

definition load_kern_pgdir :: "unit kM" where
  "load_kern_pgdir = kbind (kget kern_pgdir) (\<lambda>pgdir. kbind (PADDR pgdir) lcr3)"

section \<open>The first half\<close>

lemma unat_frame_kva: "f < 65536 \<Longrightarrow> unat (frame_kva f) = f * 4096 + 4026531840"
  by (simp add: frame_kva_def unat_word_ariths unat_page2pa KERNBASE_def)

lemma ROUNDUP_frame:
  assumes "f + npgs sz < 65536"
  shows "ROUNDUP (frame_kva f + sz) PGSIZE = frame_kva (f + npgs sz)"
proof -
  have l: "unat sz \<le> npgs sz * 4096" unfolding npgs_def by linarith
  have u: "unat (frame_kva f + sz) = f * 4096 + 4026531840 + unat sz"
    using assms l by (simp add: unat_word_ariths unat_frame_kva)
  then have b: "unat (frame_kva f + sz) \<le> 4294963200" using assms l by simp
  have "unat (ROUNDUP (frame_kva f + sz) PGSIZE) = (f * 4096 + 4026531840 + unat sz + 4095) div 4096 * 4096"
    using ROUNDUP_PGSIZE [OF b] unfolding u by simp
  also have "f * 4096 + 4026531840 + unat sz + 4095 = unat sz + 4095 + (f + 983040) * 4096" by simp
  also have "(unat sz + 4095 + (f + 983040) * 4096) div 4096 * 4096 = (f + npgs sz) * 4096 + 4026531840"
    unfolding npgs_def by (subst div_mult_self1) simp_all
  finally show ?thesis using assms by (simp add: word_unat_eq_iff unat_frame_kva)
qed

lemma boot_alloc_frame:
  assumes "nextfree s = frame_kva f" "f \<le> npages s" "npages s \<le> 65536" "f < 65536" "n \<noteq> 0" "f + npgs n < 65536"
  shows "boot_alloc kend n s = Ret (frame_kva f) (s\<lparr>nextfree := frame_kva (f + npgs n)\<rparr>)"
proof -
  have u: "unat (of_nat (npages s) * PGSIZE) = npages s * 4096"
    using assms(3) by (simp add: unat_word_ariths unat_of_nat PGSIZE_def)
  have p: "page2pa f = frame_kva f - KERNBASE" by (simp add: frame_kva_def)
  have "page2pa f \<le> of_nat (npages s) * PGSIZE" "KERNBASE \<le> frame_kva f"
    using assms(2,4) by (simp_all add: word_le_nat_alt u unat_page2pa unat_frame_kva KERNBASE_def)
  moreover have "nextfree s \<noteq> 0" using assms(1,4) frame_kva_nonzero [of f 0] by simp
  ultimately show ?thesis
    using assms(1,5,6) boot_alloc_moves_end [of s kend n] by (simp add: p ROUNDUP_frame)
qed

lemma fword_kmemset_above:
  assumes "f < g" "g < 65536" "i < 1024"
  shows "fword (kmemset (frame_kva g) c n s) f i = fword s f i"
  using assms by (simp add: fword_def kmemset_def kphys_frame_kva)

lemma boot_alloc_first: "nextfree s = 0 \<Longrightarrow> ROUNDUP kend PGSIZE \<noteq> 0 \<Longrightarrow>
    boot_alloc kend n s = boot_alloc kend n (s\<lparr>nextfree := ROUNDUP kend PGSIZE\<rparr>)"
  by (simp add: boot_alloc_def)

lemma kmemset_frame [simp]:
  "npages (kmemset v c n s) = npages s" "nextfree (kmemset v c n s) = nextfree s" "pages (kmemset v c n s) = pages s"
  "kern_pgdir (kmemset v c n s) = kern_pgdir s" "nextfree (fset f i w s) = nextfree s"
  "mmio_base (kmemset v c n s) = mmio_base s" "mmio_base (fset f i w s) = mmio_base s"
  by (simp_all add: kmemset_def fset_def)

text \<open>The number of pages the machine has, and the first page after the kernel's code and data.\<close>

definition detected_pages :: "(u32 \<Rightarrow> u8) \<Rightarrow> nat" where
  "detected_pages cmos = (case i386_detect_memory cmos bss_kstate of Ret _ s \<Rightarrow> npages s | _ \<Rightarrow> 0)"

definition first_page :: "u32 \<Rightarrow> nat" where
  "first_page kend = npgs (kend - KERNBASE)"

definition tables_end :: "nat \<Rightarrow> nat \<Rightarrow> nat" where
  "tables_end d np = d + 1 + npgs (of_nat np * sizeof_PageInfo) + 31"

lemma mem_init_tables_runs:
  assumes "KERNBASE + EXTPHYSMEM \<le> kend" "kend \<le> KERNBASE + PTSIZE"
    and np: "2048 \<le> detected_pages cmos" "detected_pages cmos \<le> 65536"
  defines "d \<equiv> first_page kend" and "n \<equiv> detected_pages cmos"
  shows "\<exists>s'. mem_init_tables cmos kend bss_kstate
        = Ret (frame_kva (d + 1), frame_kva (d + 1 + npgs (of_nat n * sizeof_PageInfo))) s'
    \<and> pages_inv s' (filter (\<lambda>i. i \<noteq> 7 \<and> (i < 160 \<or> tables_end d n \<le> i)) [1..<n])
    \<and> kern_pgdir s' = frame_kva d \<and> npages s' = n \<and> nextfree s' = frame_kva (tables_end d n)
    \<and> mmio_base s' = MMIOBASE
    \<and> (\<forall>i < 1024. fword s' d i = (if i = uvpt_index then page2pa d OR PTE_U OR PTE_P else 0))"
proof -
  let ?sz = "of_nat n * sizeof_PageInfo" and ?esz = "of_nat NENV * sizeof_Env"
  have k: "4027580416 \<le> unat kend" "unat kend \<le> 4030726144"
    using assms(1,2) by (simp_all add: word_le_nat_alt mmu_consts)
  have m: "npgs ?sz \<le> 128" "?sz \<noteq> 0"
  proof -
    have "unat ?sz = n * 8" using np by (simp add: n_def sizeof_PageInfo_def unat_word_ariths unat_of_nat)
    then show "npgs ?sz \<le> 128" "?sz \<noteq> 0" using np by (auto simp: npgs_def n_def simp flip: unat_eq_zero)
  qed
  have u: "unat (kend - KERNBASE) = unat kend - 4026531840" using k by (simp add: KERNBASE_def unat_sub_if_size word_size)
  have d: "256 \<le> d" "d \<le> 1024" using k unfolding d_def first_page_def npgs_def u by linarith+
  then have d3: "d < 65536" by simp
  have r: "ROUNDUP kend PGSIZE = frame_kva d"
    using ROUNDUP_frame [of 0 "kend - KERNBASE"] d by (simp add: d_def first_page_def frame_kva_def page2pa_def)
  obtain s0 where s0: "i386_detect_memory cmos bss_kstate = Ret () s0" "npages s0 = n" "nextfree s0 = 0"
      "pages s0 = (\<lambda>_. zero_page)" "mmio_base s0 = MMIOBASE"
    by (simp add: n_def detected_pages_def i386_detect_memory_def Let_def bss_kstate_def)
  have e: "npgs ?esz = 31" "?esz \<noteq> 0" by (simp_all add: npgs_def NENV_eq sizeof_Env_def)
  have one: "npgs PGSIZE = 1" "PGSIZE \<noteq> 0" by (simp_all add: npgs_def PGSIZE_def)
  let ?m = "npgs ?sz"
  define s1 where "s1 = s0\<lparr>nextfree := frame_kva (d + 1)\<rparr>"
  define s2 where "s2 = kmemset (frame_kva d) 0 PGSIZE (s1\<lparr>kern_pgdir := frame_kva d\<rparr>)"
  define s3 where "s3 = fset d uvpt_index (page2pa d OR PTE_U OR PTE_P) s2"
  define s4 where "s4 = s3\<lparr>nextfree := frame_kva (d + 1 + ?m)\<rparr>"
  define s5 where "s5 = kmemset (frame_kva (d + 1)) 0 ?sz (s4\<lparr>pages := (\<lambda>p. if p < npages s4 then zero_page else pages s4 p)\<rparr>)"
  define s6 where "s6 = s5\<lparr>nextfree := frame_kva (d + 1 + ?m + 31)\<rparr>"
  define s7 where "s7 = kmemset (frame_kva (d + 1 + ?m)) 0 ?esz (s6\<lparr>envs := (\<lambda>e. if e < NENV then zero_env else envs s6 e)\<rparr>)"
  have N: "npages s3 = n" "npages s5 = n" "npages s7 = n" "nextfree s3 = frame_kva (d + 1)"
      "nextfree s5 = frame_kva (d + 1 + ?m)" "nextfree s7 = frame_kva (d + 1 + ?m + 31)"
      "kern_pgdir s7 = frame_kva d" "mmio_base s7 = MMIOBASE" "pages s4 = (\<lambda>_. zero_page)"
    by (simp_all add: s1_def s2_def s3_def s4_def s5_def s6_def s7_def s0)
  then have P: "pages s7 = (\<lambda>_. zero_page)" by (auto simp: s5_def s6_def s7_def fun_eq_iff)
  have n: "n \<le> 65536" "2048 \<le> n" using np by (simp_all add: n_def)
  have lt: "d + 1 + ?m + 31 < 2048" using d m(1) by simp
  have b1: "boot_alloc kend PGSIZE s0 = Ret (frame_kva d) s1"
    using boot_alloc_frame [of "s0\<lparr>nextfree := frame_kva d\<rparr>" d PGSIZE kend] n d one s0 frame_kva_nonzero [of d 0]
    by (simp add: boot_alloc_first r s1_def)
  have b2: "boot_alloc kend ?sz s3 = Ret (frame_kva (d + 1)) s4"
    using boot_alloc_frame [of s3 "d + 1" ?sz kend] N n lt m(2) by (simp add: s4_def)
  have b3: "boot_alloc kend ?esz s5 = Ret (frame_kva (d + 1 + ?m)) s6"
    using boot_alloc_frame [of s5 "d + 1 + ?m" ?esz kend] N n lt e by (simp add: s6_def)
  have st: "kstore (frame_kva d + 4 * PDX UVPT) w t = fset d uvpt_index w t" for w t
    using d by (simp add: uvpt_index_PDX)
  have pf: "nextfree s7 - KERNBASE = page2pa (d + 1 + ?m + 31)" by (simp add: N frame_kva_def)
  have "nextfree s7 - KERNBASE \<le> of_nat (npages s7) * PGSIZE"
    unfolding pf using lt n by (simp add: N word_le_nat_alt unat_page2pa unat_word_ariths unat_of_nat PGSIZE_def)
  moreover have "KERNBASE \<le> nextfree s7" unfolding N using lt by (intro frame_kva_ge) simp
  ultimately obtain s' where
    s': "page_init kend s7 = Ret () s'" "npages s' = n" "pmem s' = pmem s7" "kern_pgdir s' = frame_kva d"
      "nextfree s' = nextfree s7" "mmio_base s' = MMIOBASE"
      "pages_inv s' (filter (\<lambda>i. i \<noteq> 7 \<and> (i < 160 \<or> unat (PGNUM (page2pa (d + 1 + ?m + 31))) \<le> i)) [1..<n])"
    using page_init_runs [of s7 kend] n(1) unfolding pf N(3,7,8) P by blast
  have "mem_init_tables cmos kend bss_kstate = Ret (frame_kva (d + 1), frame_kva (d + 1 + ?m)) s'"
    by (simp only: mem_init_tables_def kbind_Ret kbind_kmodify kbind_kget st N(1-3) d3 s0(1) b1 b2 b3 s'(1)
        PADDR_frame_kva kreturn_run flip: s2_def s3_def s5_def s7_def)
  moreover have "unat (PGNUM (page2pa (d + 1 + ?m + 31))) = tables_end d n"
    using lt by (simp add: PGNUM_page2pa tables_end_def)
  moreover have "fword s' d i = (if i = uvpt_index then page2pa d OR PTE_U OR PTE_P else 0)" if i: "i < 1024" for i
  proof -
    have "fword s' d i = fword s3 d i"
      using fword_kmemset_above [of d _ i] i lt s'(3) d
      by (simp add: s4_def s5_def s6_def s7_def) (simp add: fword_def)
    moreover have "fword s2 d i = 0"
      using i d by (simp add: s2_def fword_def kmemset_def kphys_frame_kva)
    ultimately show ?thesis using i by (simp add: s3_def fword_fset uvpt_index_def)
  qed
  moreover have "nextfree s' = frame_kva (tables_end d n)" using s'(5) N(6) by (simp add: tables_end_def)
  ultimately show ?thesis using s' by auto
qed

section \<open>One region after the other\<close>

text \<open>The page table indices of the kernel's regions: all but \<open>UVPT\<close> and the memory-mapped devices.\<close>

definition kernel_tables :: "nat set" where
  "kernel_tables = {955, 956} \<union> {959..<1024}"

lemma card_kernel_tables: "card kernel_tables = 67" "finite kernel_tables"
  unfolding kernel_tables_def by simp_all

text \<open>What a chain of mappings makes of the entries, a function of the page number.\<close>

definition entries :: "kstate \<Rightarrow> nat \<Rightarrow> (nat \<Rightarrow> u32) \<Rightarrow> bool" where
  "entries s d f \<longleftrightarrow> (\<forall>va. pte_of s d va = f (unat (PGNUM va)))"

definition over :: "nat \<Rightarrow> nat \<Rightarrow> u32 \<Rightarrow> u32 \<Rightarrow> (nat \<Rightarrow> u32) \<Rightarrow> nat \<Rightarrow> u32" where
  "over v0 n pa perm f v = (if v0 \<le> v \<and> v < v0 + n then nth_page pa (v - v0) OR perm OR PTE_P else f v)"

definition kmapped :: "kstate \<Rightarrow> nat list \<Rightarrow> nat \<Rightarrow> (nat \<Rightarrow> u32) \<Rightarrow> nat \<Rightarrow> bool" where
  "kmapped s fl d f np \<longleftrightarrow> mappable s fl d kernel_tables \<and> kern_pgdir s = frame_kva d \<and> entries s d f \<and> npages s = np"

lemma region_runs:
  assumes "kmapped s fl d f np" and sz: "npgs sz = n" and va: "unat (PGNUM va) = v0"
    and "unat va + n * 4096 \<le> 4294967296" "n * 4096 < 4294967296"
    and "\<forall>v. v0 \<le> v \<and> v < v0 + n \<longrightarrow> v div 1024 \<in> kernel_tables"
  shows "\<exists>s' fl'. boot_map_region False (frame_kva d) va sz pa perm s = Ret () s'
    \<and> kmapped s' fl' d (over v0 n pa perm f) np \<and> grows s fl s' fl' d kernel_tables"
proof -
  have "unat (PDX (nth_page va m)) \<in> kernel_tables" if "m < n" for m
  proof -
    have "unat (PGNUM (nth_page va m)) = v0 + m"
      using PGNUM_nth_page [OF assms(4) that] va by (simp add: unat_PGNUM)
    then have "unat (PDX (nth_page va m)) = (v0 + m) div 1024" by (simp add: unat_PGNUM unat_PDX flip: div_mult2_eq)
    with assms(6) that show ?thesis by simp
  qed
  with boot_map_region_runs [of s fl d kernel_tables va sz pa perm] assms(1,4,5)
  obtain s' fl' where "boot_map_region False (frame_kva d) va sz pa perm s = Ret () s'" "mappable s' fl' d kernel_tables"
      "grows s fl s' fl' d kernel_tables" "maps_range s s' d va pa perm 0 n"
    unfolding sz kmapped_def by blast
  with assms(1) show ?thesis
    by (intro exI [of _ s'] exI [of _ fl']) (simp add: kmapped_def entries_def maps_range_def va over_def Let_def growsD)
qed

lemma map_array_runs:
  assumes "kmapped s fl d f np" "KERNBASE \<le> kva" "npgs sz = n" "unat (PGNUM va) = v0"
    and "unat va + n * 4096 \<le> 4294967296" "n * 4096 < 4294967296"
    and "\<forall>v. v0 \<le> v \<and> v < v0 + n \<longrightarrow> v div 1024 \<in> kernel_tables"
  shows "\<exists>s' fl'. map_array False va sz kva perm s = Ret () s' \<and> kmapped s' fl' d (over v0 n (kva - KERNBASE) perm f) np
    \<and> grows s fl s' fl' d kernel_tables"
  using region_runs [OF assms(1,3-7), of "kva - KERNBASE" perm] assms(1,2)
  by (simp add: map_array_def PADDR_def not_less kmapped_def)

lemma kstacktop_page:
  assumes "i < 8"
  shows "unat (kstacktop i - KSTKSIZE) = (983032 - 16 * i) * 4096"
    "unat (PGNUM (kstacktop i - KSTKSIZE)) = 983032 - 16 * i"
proof -
  have "i * 65536 < 4294967296" using assms by simp
  then have "unat (of_nat i * 65536 :: u32) = i * 65536" by (simp add: unat_word_ariths unat_of_nat)
  then show u: "unat (kstacktop i - KSTKSIZE) = (983032 - 16 * i) * 4096"
    using assms by (simp add: kstacktop_def mmu_consts KSTKGAP_def unat_sub_if_size word_size)
  then show "unat (PGNUM (kstacktop i - KSTKSIZE)) = 983032 - 16 * i" by (simp add: unat_PGNUM)
qed

lemma map_kstack_runs:
  assumes "KERNBASE \<le> kstacks k" "k < 8" "kmapped s fl d f np"
  shows "\<exists>s' fl'. map_kstack False kstacks k s = Ret () s'
    \<and> kmapped s' fl' d (over (983032 - 16 * k) 8 (kstacks k - KERNBASE) PTE_W f) np
    \<and> grows s fl s' fl' d kernel_tables"
proof -
  have n: "npgs KSTKSIZE = 8" by (simp add: npgs_def mmu_consts)
  have "\<forall>v. 983032 - 16 * k \<le> v \<and> v < 983032 - 16 * k + 8 \<longrightarrow> v div 1024 \<in> kernel_tables"
  proof (intro allI impI)
    fix v assume "983032 - 16 * k \<le> v \<and> v < 983032 - 16 * k + 8"
    then have "982912 \<le> v" "v < 983040" using assms(2) by auto
    then have "v div 1024 = 959" by simp
    then show "v div 1024 \<in> kernel_tables" by (simp add: kernel_tables_def)
  qed
  with map_array_runs [OF assms(3,1) n kstacktop_page(2) [OF assms(2)]] kstacktop_page(1) [OF assms(2)] assms(2)
  show ?thesis by (simp add: map_kstack_def)
qed

lemma mem_init_mp_runs:
  assumes "\<forall>i < 8. KERNBASE \<le> kstacks i" "k \<le> 8" "kmapped s fl d f np"
  shows "\<exists>s' fl'. kfor [0..<k] (map_kstack False kstacks) s = Ret () s'
    \<and> kmapped s' fl' d (fold (\<lambda>i. over (983032 - 16 * i) 8 (kstacks i - KERNBASE) PTE_W) [0..<k] f) np
    \<and> grows s fl s' fl' d kernel_tables"
  using assms(2)
proof (induction k)
  case 0
  then show ?case using assms(3) grows_refl by auto
next
  case (Suc k)
  then obtain s1 fl1 where 1: "kfor [0..<k] (map_kstack False kstacks) s = Ret () s1"
     "kmapped s1 fl1 d (fold (\<lambda>i. over (983032 - 16 * i) 8 (kstacks i - KERNBASE) PTE_W) [0..<k] f) np"
     "grows s fl s1 fl1 d kernel_tables" by auto
  have k: "KERNBASE \<le> kstacks k" "k < 8" using assms(1) Suc.prems by auto
  from map_kstack_runs [where kstacks = kstacks, OF k 1(2)] grows_trans [OF 1(3)] 1(1) show ?case
    by (simp add: kfor_append) blast
qed

lemma stacks_fold:
  "k \<le> 8 \<Longrightarrow> fold (\<lambda>i. over (983032 - 16 * i) 8 (pa i) perm) [0..<k] f v =
    (if v < 983040 \<and> 983040 \<le> v + 16 * k \<and> (983039 - v) mod 16 < 8
     then nth_page (pa ((983039 - v) div 16)) (7 - (983039 - v) mod 16) OR perm OR PTE_P else f v)"
proof (induction k)
  case (Suc k)
  show ?case
  proof (cases "v < 983040")
    case True
    define q r where "q = (983039 - v) div 16" and "r = (983039 - v) mod 16"
    then have x: "983039 - v = 16 * q + r" and r: "r < 16" by (simp_all add: mult.commute)
    have k: "16 * k \<le> 112" using Suc.prems by simp
    have "(983032 - 16 * k \<le> v) = (16 * q + r \<le> 16 * k + 7)" "(v < 983032 - 16 * k + 8) = (16 * k \<le> 16 * q + r)"
      "(983040 \<le> v + 16 * Suc k) = (16 * q + r < 16 * Suc k)" "(983040 \<le> v + 16 * k) = (16 * q + r < 16 * k)"
      unfolding x [symmetric] using k True by auto
    moreover have "16 * q + r \<le> 16 * k + 7 \<and> 16 * k \<le> 16 * q + r \<longleftrightarrow> q = k \<and> r < 8"
    proof
      assume a: "16 * q + r \<le> 16 * k + 7 \<and> 16 * k \<le> 16 * q + r"
      then have "q = k" using r by (intro antisym) auto
      with a show "q = k \<and> r < 8" by simp
    qed simp
    moreover have "16 * q + r < 16 * Suc k \<longleftrightarrow> q \<le> k" "16 * q + r < 16 * k \<longleftrightarrow> q < k" using r by auto
    ultimately have in_k: "983032 - 16 * k \<le> v \<and> v < 983032 - 16 * k + 8 \<longleftrightarrow> q = k \<and> r < 8"
      and le: "983040 \<le> v + 16 * Suc k \<longleftrightarrow> q \<le> k" and lt: "983040 \<le> v + 16 * k \<longleftrightarrow> q < k" by simp_all
    have IH: "fold (\<lambda>i. over (983032 - 16 * i) 8 (pa i) perm) [0..<k] f v =
        (if q < k \<and> r < 8 then nth_page (pa q) (7 - r) OR perm OR PTE_P else f v)"
      using Suc True lt by (simp add: q_def r_def)
    have "v - (983032 - 16 * k) = 7 - r" if "q = k" "r < 8" using that x True Suc.prems by simp
    then show ?thesis
      unfolding q_def [symmetric] r_def [symmetric] upt_Suc_append [OF le0] fold_append
      using IH True le by (simp add: over_def in_k)
  next
    case False
    then have "\<not> (983032 - 16 * k \<le> v \<and> v < 983032 - 16 * k + 8)" using Suc.prems by auto
    with Suc False show ?thesis by (simp add: over_def [of "983032 - 16 * k"] del: not_less)
  qed
qed auto


section \<open>The kernel's part of the address space\<close>

text \<open>The entry of page number \<open>v\<close>, for the physical addresses of the arrays and of the stacks.\<close>

definition kernel_entry :: "u32 \<Rightarrow> nat \<Rightarrow> u32 \<Rightarrow> (nat \<Rightarrow> u32) \<Rightarrow> nat \<Rightarrow> u32" where
  "kernel_entry pages_pa n envs_pa stack_pa v =
     (if 983040 \<le> v then nth_page 0 (v - 983040) OR PTE_W OR PTE_P
      else if 982912 \<le> v then
        (if (983039 - v) mod 16 < 8
         then nth_page (stack_pa ((983039 - v) div 16)) (7 - (983039 - v) mod 16) OR PTE_W OR PTE_P
         else 0)
      else if 978944 \<le> v \<and> v < 978944 + n then nth_page pages_pa (v - 978944) OR PTE_U OR PTE_P
      else if 977920 \<le> v \<and> v < 977951 then nth_page envs_pa (v - 977920) OR PTE_U OR PTE_P
      else 0)"

lemma kernel_entry_fold:
  assumes "n \<le> 128" "v < 1048576"
  shows "fold (\<lambda>i. over (983032 - 16 * i) 8 (stack_pa i) PTE_W) [0..<8]
     (over 983040 65536 0 PTE_W (over 983032 8 b PTE_W (over 977920 31 envs_pa (PTE_U OR PTE_P)
       (over 978944 n pages_pa PTE_U (\<lambda>_. 0))))) v = kernel_entry pages_pa n envs_pa stack_pa v"
proof -
  have "(983040 \<le> v + 128) = (982912 \<le> v)" by auto
  moreover have "(983039 - v) mod 16 < 8" if "983032 \<le> v" "v < 983040"
  proof -
    have "983039 - v < 8" using that by auto
    then show ?thesis by simp
  qed
  ultimately show ?thesis
    using assms by (subst stacks_fold) (auto simp: kernel_entry_def over_def or.assoc)
qed

lemma aligned_nth_page: "4096 dvd unat pa \<Longrightarrow> 4096 dvd unat (nth_page pa k)"
proof -
  assume "4096 dvd unat pa"
  then have "unat (nth_page pa k) mod 4096 = 0"
    by (auto simp: nth_page_def unat_word_ariths unat_of_nat mod_mod_cancel elim!: dvdE)
  then show ?thesis by (simp add: dvd_eq_mod_eq_0)
qed

lemma nth_page_low: "4096 dvd unat pa \<Longrightarrow> nth_page pa m AND 0xFFF = 0"
proof -
  assume "4096 dvd unat pa"
  then have "unat (nth_page pa m) mod 4096 = 0" by (simp add: aligned_nth_page)
  then have "take_bit 12 (nth_page pa m) = 0" by (simp add: word_unat_eq_iff unat_take_bit_word)
  then show ?thesis by (simp add: mask12_32 take_bit_eq_mask)
qed

lemma low_bits: "x AND 0xFFF = 0 \<Longrightarrow> y < 4096 \<Longrightarrow> (x OR z) AND y = z AND (y::u32)"
proof -
  assume x: "x AND 0xFFF = 0" and y: "y < 4096"
  have y: "y AND 0xFFF = y" using low12 [OF y] by (simp add: mask12_32 take_bit_eq_mask)
  have "(x OR z) AND (y AND 0xFFF) = ((x AND 0xFFF) OR z) AND (y AND 0xFFF)"
    by (rule bit_word_eqI) (auto simp: bit_simps)
  then show ?thesis by (simp add: x y)
qed

text \<open>Only the images of \<open>pages\<close> and \<open>envs\<close> are visible to the user, and they are read-only.\<close>

lemma kernel_entry_protects:
  assumes "4096 dvd unat pages_pa" "4096 dvd unat envs_pa" "\<forall>i < 8. 4096 dvd unat (stack_pa i)"
    and "v < 1048576" "n \<le> 128" and e: "e = kernel_entry pages_pa n envs_pa stack_pa v" "e AND PTE_U \<noteq> 0"
  shows "977920 \<le> v \<and> v < 979968 \<and> e AND PTE_W = 0"
proof -
  have c: "(PTE_W :: u32) < 4096" "(PTE_U :: u32) < 4096" by (simp_all add: mmu_consts)
  have i: "(983039 - v) div 16 < 8" if "982912 \<le> v" using that by auto
  have "v < 982912"
  proof (rule ccontr)
    assume v: "\<not> v < 982912"
    then have "e AND PTE_U = (PTE_W OR PTE_P) AND PTE_U \<or> e = 0"
      unfolding e(1) kernel_entry_def using assms(3) i low_bits [OF nth_page_low c(2)] by (auto simp: or.assoc)
    with e(2) show False by (auto simp: mmu_consts)
  qed
  with e show ?thesis
    using assms(1,2,5) low_bits [OF nth_page_low c(1)]
    by (auto simp: kernel_entry_def or.assoc split: if_splits) (auto simp: mmu_consts)
qed

lemma region_tables:
  "n \<le> 128 \<Longrightarrow> \<forall>v. 978944 \<le> v \<and> v < 978944 + n \<longrightarrow> v div 1024 \<in> kernel_tables"
  "\<forall>v. 977920 \<le> v \<and> v < 977920 + 31 \<longrightarrow> v div 1024 \<in> kernel_tables"
  "\<forall>v. 983032 \<le> v \<and> v < 983032 + 8 \<longrightarrow> v div 1024 \<in> kernel_tables"
  "\<forall>v. 983040 \<le> v \<and> v < 983040 + 65536 \<longrightarrow> v div 1024 \<in> kernel_tables"
  by (auto simp: kernel_tables_def)

lemma pages_npgs: "np \<le> 65536 \<Longrightarrow> npgs (of_nat np * sizeof_PageInfo) \<le> 128"
  by (simp add: npgs_def sizeof_PageInfo_def unat_word_ariths unat_of_nat)

text \<open>The entries of the whole kernel space, in the order in which they are stored.\<close>

definition kernel_layers :: "u32 \<Rightarrow> u32 \<Rightarrow> u32 \<Rightarrow> (nat \<Rightarrow> u32) \<Rightarrow> nat \<Rightarrow> nat \<Rightarrow> u32" where
  "kernel_layers pages_va envs_va bootstack kstacks n =
     fold (\<lambda>i. over (983032 - 16 * i) 8 (kstacks i - KERNBASE) PTE_W) [0..<8]
       (over 983040 65536 0 PTE_W (over 983032 8 (bootstack - KERNBASE) PTE_W
         (over 977920 31 (envs_va - KERNBASE) (PTE_U OR PTE_P) (over 978944 n (pages_va - KERNBASE) PTE_U (\<lambda>_. 0)))))"

lemma mem_init_regions_runs:
  assumes "kmapped s fl d (\<lambda>_. 0) np" "np \<le> 65536"
    and A: "KERNBASE \<le> pages_va" "KERNBASE \<le> envs_va" "KERNBASE \<le> bootstack" "\<forall>i < 8. KERNBASE \<le> kstacks i"
  shows "\<exists>s' fl'. mem_init_regions False bootstack kstacks pages_va envs_va s = Ret () s'
    \<and> grows s fl s' fl' d kernel_tables
    \<and> kmapped s' fl' d (kernel_layers pages_va envs_va bootstack kstacks (npgs (of_nat np * sizeof_PageInfo))) np"
proof -
  let ?sz = "of_nat np * sizeof_PageInfo"
  note n = pages_npgs [OF assms(2)]
  define g1 where "g1 = over 978944 (npgs ?sz) (pages_va - KERNBASE) PTE_U (\<lambda>_. 0)"
  define g2 where "g2 = over 977920 31 (envs_va - KERNBASE) (PTE_U OR PTE_P) g1"
  define g3 where "g3 = over 983032 8 (bootstack - KERNBASE) PTE_W g2"
  define g4 where "g4 = over 983040 65536 0 PTE_W g3"
  obtain s1 fl1 where 1: "map_array False UPAGES ?sz pages_va PTE_U s = Ret () s1" "kmapped s1 fl1 d g1 np"
      "grows s fl s1 fl1 d kernel_tables"
    using map_array_runs [OF assms(1) A(1) refl _ _ _ region_tables(1) [OF n], of UPAGES PTE_U] n
    by (auto simp: unat_PGNUM mmu_consts g1_def)
  obtain s2 fl2 where 2: "map_array False UENVS (of_nat NENV * sizeof_Env) envs_va (PTE_U OR PTE_P) s1 = Ret () s2"
      "kmapped s2 fl2 d g2 np" "grows s1 fl1 s2 fl2 d kernel_tables"
    using map_array_runs [OF 1(2) A(2) _ _ _ _ region_tables(2), of "of_nat NENV * sizeof_Env" UENVS "PTE_U OR PTE_P"]
    by (auto simp: unat_PGNUM mmu_consts npgs_def NENV_eq sizeof_Env_def g2_def)
  obtain s3 fl3 where 3: "map_array False (KSTACKTOP - KSTKSIZE) (ROUNDUP KSTKSIZE PGSIZE) bootstack PTE_W s2 = Ret () s3"
      "kmapped s3 fl3 d g3 np" "grows s2 fl2 s3 fl3 d kernel_tables"
    using map_array_runs [OF 2(2) A(3) _ _ _ _ region_tables(3), of "ROUNDUP KSTKSIZE PGSIZE" "KSTACKTOP - KSTKSIZE" PTE_W]
    by (auto simp: unat_PGNUM mmu_consts npgs_def ROUNDUP_def ROUNDDOWN_def g3_def)
  obtain s4 fl4 where 4: "boot_map_region False (frame_kva d) KERNBASE (0 - KERNBASE) 0 PTE_W s3 = Ret () s4"
      "kmapped s4 fl4 d g4 np" "grows s3 fl3 s4 fl4 d kernel_tables"
    using region_runs [OF 3(2) _ _ _ _ region_tables(4), of "0 - KERNBASE" KERNBASE 0 PTE_W]
    by (auto simp: unat_PGNUM mmu_consts npgs_def g4_def)
  obtain s5 fl5 where 5: "mem_init_mp False kstacks s4 = Ret () s5"
      "kmapped s5 fl5 d (fold (\<lambda>i. over (983032 - 16 * i) 8 (kstacks i - KERNBASE) PTE_W) [0..<8] g4) np"
      "grows s4 fl4 s5 fl5 d kernel_tables"
    using mem_init_mp_runs [OF A(4) _ 4(2), of 8] by (auto simp: mem_init_mp_def NCPU_def)
  have d: "kern_pgdir s3 = frame_kva d" "npages s = np"
    using assms(1) 3(2) by (auto simp: kmapped_def mappable_def)
  have "mem_init_regions False bootstack kstacks pages_va envs_va s = Ret () s5"
    by (simp only: mem_init_regions_def kbind_Ret kbind_kget d 1(1) 2(1) 3(1) 4(1) 5(1))
  moreover have "grows s fl s5 fl5 d kernel_tables"
    using 1(3) 2(3) 3(3) 4(3) 5(3) by (blast intro: grows_trans)
  ultimately show ?thesis
    using 5(2) unfolding g4_def g3_def g2_def g1_def kernel_layers_def by blast
qed

lemma load_kern_pgdir_run: "kern_pgdir s = frame_kva d \<Longrightarrow> d < 65536 \<Longrightarrow> load_kern_pgdir s = Ret () (s\<lparr>cr3 := page2pa d\<rparr>)"
  by (simp add: load_kern_pgdir_def lcr3_def)

lemma pteval_cr3 [simp]: "pteval (s\<lparr>cr3 := c\<rparr>) d i j = pteval s d i j"
  by (simp add: pteval_def table_of_def fword_def)

lemma kmapped_start:
  assumes "pages_inv s fl" "pgdir_ok s fl d" "67 \<le> length fl" "kern_pgdir s = frame_kva d" "\<forall>va. pte_of s d va = 0"
  shows "kmapped s fl d (\<lambda>_. 0) (npages s)"
proof -
  have "card {i \<in> kernel_tables. table_of s d i = None} \<le> 67"
    using card_mono [of kernel_tables "{i \<in> kernel_tables. table_of s d i = None}"] card_kernel_tables by auto
  then show ?thesis
    using assms card_kernel_tables(2)
    by (auto simp: kmapped_def mappable_def has_room_def entries_def uvpt_index_def kernel_tables_def)
qed


text \<open>
  The machine of the witness has 8 MB and a kernel that ends at \<open>0xF0120000\<close>.
\<close>

definition small_cmos :: "u32 \<Rightarrow> u8" where
  "small_cmos r = (if r = 0x18 then 28 else 0)"

lemma small_boot: "detected_pages small_cmos = 2048" "first_page 0xF0120000 = 288"
  by (simp_all add: detected_pages_def i386_detect_memory_def nvram_read_def small_cmos_def Let_def
      NVRAM_BASELO_def NVRAM_EXTLO_def NVRAM_EXT16LO_def mmu_consts bss_kstate_def first_page_def npgs_def)


end
