(* ===== verification/Jos_Selftest.thy ===== *)
theory Jos_Selftest
  imports Jos_Meminit
begin

text \<open>
  The self-tests \<open>mem_init\<close> runs (the section ``Checking functions'' of \<^verbatim>\<open>tps/kern/pmap.c\<close>), and the
  tests of the free list and of the allocator. A test that fails panics, so a test that returns has
  passed; the lemmas say from which states the tests pass and what they leave behind. The first of
  them also does some work: it puts the pages of low memory first in the free list. The loops over
  the free list take one step more than there are pages as fuel, which is enough for a list that
  holds each page once. The array \<open>pages\<close> is a field of the state, so its address is not tested.
\<close>

section \<open>Assertions and loops over the free list\<close>

definition kassert :: "bool \<Rightarrow> unit kM" where
  "kassert b = (if b then kreturn () else kpanic ''assertion failed'')"

primrec free_walk :: "nat \<Rightarrow> (nat \<Rightarrow> 'a \<Rightarrow> 'a kM) \<Rightarrow> nat option \<Rightarrow> 'a \<Rightarrow> 'a kM" where
  "free_walk 0 body pp a = (case pp of None \<Rightarrow> kreturn a | Some p \<Rightarrow> (\<lambda>s. OutOfFuel))"
| "free_walk (Suc n) body pp a = (case pp of None \<Rightarrow> kreturn a | Some p \<Rightarrow>
     kbind (body p a) (\<lambda>a'.
     kbind (kget (\<lambda>s. pp_link (pages s p))) (\<lambda>nxt. free_walk n body nxt a')))"

definition for_free :: "(nat \<Rightarrow> 'a \<Rightarrow> 'a kM) \<Rightarrow> 'a \<Rightarrow> 'a kM" where
  "for_free body a = (\<lambda>s. free_walk (Suc (npages s)) body (page_free_list s) a s)"

section \<open>check_page_free_list\<close>

text \<open>
  The variables \<open>pp1\<close> and \<open>pp2\<close> (of page type false and true) and the array \<open>tp\<close>: an entry of it
  points to the variable (\<open>None\<close>) or to the \<open>pp_link\<close> of a page.
\<close>

record split_vars =
  list_head :: "bool \<Rightarrow> nat option"
  list_tail :: "bool \<Rightarrow> nat option"

definition store_tp :: "bool \<Rightarrow> nat option \<Rightarrow> split_vars \<Rightarrow> split_vars kM" where
  "store_tp k v a = (case list_tail a k of
     None \<Rightarrow> kreturn (a\<lparr>list_head := (list_head a)(k := v)\<rparr>)
   | Some q \<Rightarrow> kbind (kmodify (\<lambda>s. s\<lparr>pages := (pages s)(q := (pages s q)\<lparr>pp_link := v\<rparr>)\<rparr>)) (\<lambda>_. kreturn a))"

definition split_step :: "nat \<Rightarrow> nat \<Rightarrow> split_vars \<Rightarrow> split_vars kM" where
  "split_step pdx_limit pp a =
     (let pagetype = unat (PDX (page2pa pp)) \<ge> pdx_limit in
      kbind (store_tp pagetype (Some pp) a) (\<lambda>a.
        kreturn (a\<lparr>list_tail := (list_tail a)(pagetype := Some pp)\<rparr>)))"

definition low_pages_first :: "nat \<Rightarrow> unit kM" where
  "low_pages_first pdx_limit =
     kbind (for_free (split_step pdx_limit) \<lparr>list_head = (\<lambda>_. None), list_tail = (\<lambda>_. None)\<rparr>) (\<lambda>a.
     kbind (store_tp True None a) (\<lambda>a.
     kbind (store_tp False (list_head a True) a) (\<lambda>a.
       kmodify (\<lambda>s. s\<lparr>page_free_list := list_head a False\<rparr>))))"

definition poison_page :: "nat \<Rightarrow> nat \<Rightarrow> unit \<Rightarrow> unit kM" where
  "poison_page pdx_limit pp _ =
     (if unat (PDX (page2pa pp)) < pdx_limit
      then kbind (page2kva pp) (\<lambda>kva. kmodify (kmemset kva 0x97 128)) else kreturn ())"

definition check_free_page :: "u32 \<Rightarrow> nat \<Rightarrow> nat \<times> nat \<Rightarrow> (nat \<times> nat) kM" where
  "check_free_page first_free_page pp = (\<lambda>(nfree_basemem, nfree_extmem).
     kbind (kget (\<lambda>s. pp < npages s)) (\<lambda>b.
     kbind (kassert b) (\<lambda>_.
     kbind (kassert (page2pa pp \<noteq> 0)) (\<lambda>_.
     kbind (kassert (page2pa pp \<noteq> IOPHYSMEM)) (\<lambda>_.
     kbind (kassert (page2pa pp \<noteq> EXTPHYSMEM - PGSIZE)) (\<lambda>_.
     kbind (kassert (page2pa pp \<noteq> EXTPHYSMEM)) (\<lambda>_.
     kbind (if page2pa pp < EXTPHYSMEM then kreturn ()
            else kbind (page2kva pp) (\<lambda>kva. kassert (kva \<ge> first_free_page))) (\<lambda>_.
     kbind (kassert (page2pa pp \<noteq> MPENTRY_PADDR)) (\<lambda>_.
       kreturn (if page2pa pp < EXTPHYSMEM then (nfree_basemem + 1, nfree_extmem)
                else (nfree_basemem, nfree_extmem + 1)))))))))))"

definition check_page_free_list :: "u32 \<Rightarrow> bool \<Rightarrow> unit kM" where
  "check_page_free_list kend only_low_memory =
    (let pdx_limit = (if only_low_memory then 1 else NPDENTRIES) in
     kbind (kget page_free_list) (\<lambda>head.
       if head = None then kpanic ''page_free_list is a null pointer!''
       else
     kbind (if only_low_memory then low_pages_first pdx_limit else kreturn ()) (\<lambda>_.
     kbind (for_free (poison_page pdx_limit) ()) (\<lambda>_.
     kbind (boot_alloc kend 0) (\<lambda>first_free_page.
     kbind (for_free (check_free_page first_free_page) (0, 0)) (\<lambda>(nfree_basemem, nfree_extmem).
     kbind (kassert (nfree_basemem > 0)) (\<lambda>_.
       kassert (nfree_extmem > 0))))))))"

section \<open>check_page_alloc\<close>

definition must_alloc :: "u32 \<Rightarrow> nat kM" where
  "must_alloc flags = kbind (page_alloc flags) (\<lambda>r. case r of
     None \<Rightarrow> kpanic ''assertion failed'' | Some pp \<Rightarrow> kreturn pp)"

definition no_page_left :: "unit kM" where
  "no_page_left = kbind (page_alloc 0) (\<lambda>r. kassert (r = None))"

text \<open>Three distinct pages, and the rest of the free list taken away.\<close>

definition alloc_three :: "(nat \<times> nat \<times> nat) kM" where
  "alloc_three =
     kbind (must_alloc 0) (\<lambda>pp0.
     kbind (must_alloc 0) (\<lambda>pp1.
     kbind (must_alloc 0) (\<lambda>pp2.
     kbind (kassert (pp1 \<noteq> pp0)) (\<lambda>_.
     kbind (kassert (pp2 \<noteq> pp1 \<and> pp2 \<noteq> pp0)) (\<lambda>_.
       kreturn (pp0, pp1, pp2))))))"

definition steal_free_list :: "nat option kM" where
  "steal_free_list = kbind (kget page_free_list) (\<lambda>fl.
     kbind (kmodify (\<lambda>s. s\<lparr>page_free_list := None\<rparr>)) (\<lambda>_. kreturn fl))"

definition free_three :: "nat \<Rightarrow> nat \<Rightarrow> nat \<Rightarrow> unit kM" where
  "free_three pp0 pp1 pp2 =
     kbind (page_free pp0) (\<lambda>_. kbind (page_free pp1) (\<lambda>_. page_free pp2))"

definition give_back :: "nat option \<Rightarrow> nat \<Rightarrow> nat \<Rightarrow> nat \<Rightarrow> unit kM" where
  "give_back fl pp0 pp1 pp2 =
     kbind (kmodify (\<lambda>s. s\<lparr>page_free_list := fl\<rparr>)) (\<lambda>_. free_three pp0 pp1 pp2)"

definition count_free :: "nat kM" where
  "count_free = for_free (\<lambda>pp nfree. kreturn (nfree + 1)) 0"

definition page_in_memory :: "nat \<Rightarrow> unit kM" where
  "page_in_memory pp = kbind (kget (\<lambda>s. of_nat (npages s) * PGSIZE)) (\<lambda>lim. kassert (page2pa pp < lim))"

definition all_zero :: "nat \<Rightarrow> unit kM" where
  "all_zero pp = kbind (page2kva pp) (\<lambda>c.
     kbind (kget (\<lambda>s. list_all (\<lambda>i. pmem s (kphys c + i) = 0) [0..<4096])) kassert)"

definition realloc_three :: "nat \<Rightarrow> nat \<Rightarrow> nat \<Rightarrow> (nat \<times> nat \<times> nat) kM" where
  "realloc_three pp0 pp1 pp2 =
     kbind no_page_left (\<lambda>_.
     kbind (free_three pp0 pp1 pp2) (\<lambda>_.
     kbind alloc_three (\<lambda>(pp0, pp1, pp2).
     kbind no_page_left (\<lambda>_.
     kbind (page2kva pp0) (\<lambda>kva.
     kbind (kmodify (kmemset kva 1 PGSIZE)) (\<lambda>_.
     kbind (page_free pp0) (\<lambda>_.
     kbind (must_alloc ALLOC_ZERO) (\<lambda>pp.
     kbind (kassert (pp0 = pp)) (\<lambda>_.
     kbind (all_zero pp) (\<lambda>_.
       kreturn (pp0, pp1, pp2)))))))))))"

definition check_page_alloc :: "unit kM" where
  "check_page_alloc =
     kbind count_free (\<lambda>nfree.
     kbind alloc_three (\<lambda>(pp0, pp1, pp2).
     kbind (page_in_memory pp0) (\<lambda>_.
     kbind (page_in_memory pp1) (\<lambda>_.
     kbind (page_in_memory pp2) (\<lambda>_.
     kbind steal_free_list (\<lambda>fl.
     kbind (realloc_three pp0 pp1 pp2) (\<lambda>(pp0, pp1, pp2).
     kbind (give_back fl pp0 pp1 pp2) (\<lambda>_.
     kbind count_free (\<lambda>nfree'. kassert (nfree' = nfree))))))))))"

section \<open>check_page\<close>

text \<open>What the assertions of the test read: an entry, its translation, a reference count.\<close>

definition walked_entry :: "u32 \<Rightarrow> u32 kM" where
  "walked_entry va = kbind (kget kern_pgdir) (\<lambda>pgdir. kbind (pgdir_walk pgdir va False) (\<lambda>ptep.
     if ptep = 0 then kpanic ''page fault'' else kget (kload ptep)))"

definition set_entry_at :: "u32 \<Rightarrow> u32 \<Rightarrow> unit kM" where
  "set_entry_at va w = kbind (kget kern_pgdir) (\<lambda>pgdir. kbind (pgdir_walk pgdir va False) (\<lambda>ptep.
     if ptep = 0 then kpanic ''page fault'' else kmodify (kstore ptep w)))"

definition assert_va :: "u32 \<Rightarrow> u32 \<Rightarrow> unit kM" where
  "assert_va va pa = kbind (kget kern_pgdir) (\<lambda>pgdir. kbind (check_va2pa pgdir va) (\<lambda>x. kassert (x = pa)))"

definition assert_ref :: "nat \<Rightarrow> u16 \<Rightarrow> unit kM" where
  "assert_ref pp n = kbind (kget (\<lambda>s. pp_ref (pages s pp) = n)) kassert"

definition assert_insert :: "nat \<Rightarrow> u32 \<Rightarrow> u32 \<Rightarrow> (int \<Rightarrow> bool) \<Rightarrow> unit kM" where
  "assert_insert pp va perm P = kbind (kget kern_pgdir) (\<lambda>pgdir.
     kbind (page_insert pgdir pp va perm) (\<lambda>r. kassert (P r)))"

definition pde_at :: "u32 \<Rightarrow> u32 kM" where
  "pde_at i = kbind (kget kern_pgdir) (\<lambda>pgdir. kget (kload (pgdir + 4 * i)))"

definition clear_pde :: "u32 \<Rightarrow> unit kM" where
  "clear_pde i = kbind (kget kern_pgdir) (\<lambda>pgdir. kmodify (kstore (pgdir + 4 * i) 0))"

definition kern_remove :: "u32 \<Rightarrow> unit kM" where
  "kern_remove va = kbind (kget kern_pgdir) (\<lambda>pgdir. page_remove pgdir va)"

text \<open>The test in the order of the source, cut at its comments.\<close>

definition check_page_table_needed :: "nat \<Rightarrow> nat \<Rightarrow> unit kM" where
  "check_page_table_needed pp0 pp1 =
     kbind (kget kern_pgdir) (\<lambda>pgdir.
     kbind (page_lookup pgdir 0) (\<lambda>r.
     kbind (kassert (r = None)) (\<lambda>_.
     kbind (assert_insert pp1 0 PTE_W (\<lambda>r. r < 0)) (\<lambda>_.
     kbind (page_free pp0) (\<lambda>_.
     kbind (assert_insert pp1 0 PTE_W (\<lambda>r. r = 0)) (\<lambda>_.
     kbind (pde_at 0) (\<lambda>pde.
     kbind (kassert (PTE_ADDR pde = page2pa pp0)) (\<lambda>_.
     kbind (assert_va 0 (page2pa pp1)) (\<lambda>_.
     kbind (assert_ref pp1 1) (\<lambda>_.
       assert_ref pp0 1))))))))))"

definition check_page_remap :: "nat \<Rightarrow> unit kM" where
  "check_page_remap pp2 =
     kbind (assert_insert pp2 PGSIZE PTE_W (\<lambda>r. r = 0)) (\<lambda>_.
     kbind (assert_va PGSIZE (page2pa pp2)) (\<lambda>_.
     kbind (assert_ref pp2 1) (\<lambda>_.
       no_page_left)))"

definition check_page_permissions :: "nat \<Rightarrow> nat \<Rightarrow> unit kM" where
  "check_page_permissions pp0 pp2 =
     kbind (pde_at (PDX PGSIZE)) (\<lambda>pde.
     kbind (KADDR (PTE_ADDR pde)) (\<lambda>ptep.
     kbind (kget kern_pgdir) (\<lambda>pgdir.
     kbind (pgdir_walk pgdir PGSIZE False) (\<lambda>p.
     kbind (kassert (p = ptep + 4 * PTX PGSIZE)) (\<lambda>_.
     kbind (assert_insert pp2 PGSIZE (PTE_W OR PTE_U) (\<lambda>r. r = 0)) (\<lambda>_.
     kbind (assert_va PGSIZE (page2pa pp2)) (\<lambda>_.
     kbind (assert_ref pp2 1) (\<lambda>_.
     kbind (walked_entry PGSIZE) (\<lambda>pte.
     kbind (kassert (pte AND PTE_U \<noteq> 0)) (\<lambda>_.
     kbind (pde_at 0) (\<lambda>pde.
     kbind (kassert (pde AND PTE_U \<noteq> 0)) (\<lambda>_.
     kbind (assert_insert pp2 PGSIZE PTE_W (\<lambda>r. r = 0)) (\<lambda>_.
     kbind (walked_entry PGSIZE) (\<lambda>pte.
     kbind (kassert (pte AND PTE_W \<noteq> 0)) (\<lambda>_.
     kbind (walked_entry PGSIZE) (\<lambda>pte.
     kbind (kassert (\<not> pte AND PTE_U \<noteq> 0)) (\<lambda>_.
       assert_insert pp0 PTSIZE PTE_W (\<lambda>r. r < 0))))))))))))))))))"

definition check_page_replace :: "nat \<Rightarrow> nat \<Rightarrow> unit kM" where
  "check_page_replace pp1 pp2 =
     kbind (assert_insert pp1 PGSIZE PTE_W (\<lambda>r. r = 0)) (\<lambda>_.
     kbind (walked_entry PGSIZE) (\<lambda>pte.
     kbind (kassert (\<not> pte AND PTE_U \<noteq> 0)) (\<lambda>_.
     kbind (assert_va 0 (page2pa pp1)) (\<lambda>_.
     kbind (assert_va PGSIZE (page2pa pp1)) (\<lambda>_.
     kbind (assert_ref pp1 2) (\<lambda>_.
     kbind (assert_ref pp2 0) (\<lambda>_.
     kbind (must_alloc 0) (\<lambda>pp.
       kassert (pp = pp2)))))))))"

definition check_page_unmap :: "nat \<Rightarrow> nat \<Rightarrow> unit kM" where
  "check_page_unmap pp1 pp2 =
     kbind (kern_remove 0) (\<lambda>_.
     kbind (assert_va 0 (NOT 0)) (\<lambda>_.
     kbind (assert_va PGSIZE (page2pa pp1)) (\<lambda>_.
     kbind (assert_ref pp1 1) (\<lambda>_.
     kbind (assert_ref pp2 0) (\<lambda>_.
     kbind (assert_insert pp1 PGSIZE 0 (\<lambda>r. r = 0)) (\<lambda>_.
     kbind (kget (\<lambda>s. pages s pp1)) (\<lambda>p.
     kbind (kassert (pp_ref p \<noteq> 0)) (\<lambda>_.
     kbind (kassert (pp_link p = None)) (\<lambda>_.
     kbind (kern_remove PGSIZE) (\<lambda>_.
     kbind (assert_va 0 (NOT 0)) (\<lambda>_.
     kbind (assert_va PGSIZE (NOT 0)) (\<lambda>_.
     kbind (assert_ref pp1 0) (\<lambda>_.
     kbind (assert_ref pp2 0) (\<lambda>_.
     kbind (must_alloc 0) (\<lambda>pp.
     kbind (kassert (pp = pp1)) (\<lambda>_.
       no_page_left))))))))))))))))"

text \<open>Forcibly taking the page of the table with index \<open>i\<close> back.\<close>

definition take_back :: "nat \<Rightarrow> u32 \<Rightarrow> unit kM" where
  "take_back pp0 i =
     kbind (clear_pde i) (\<lambda>_. kmodify (set_ref pp0 0))"

definition check_page_walk :: "nat \<Rightarrow> unit kM" where
  "check_page_walk pp0 =
     kbind (pde_at 0) (\<lambda>pde.
     kbind (kassert (PTE_ADDR pde = page2pa pp0)) (\<lambda>_.
     kbind (clear_pde 0) (\<lambda>_.
     kbind (assert_ref pp0 1) (\<lambda>_.
     kbind (kmodify (set_ref pp0 0)) (\<lambda>_.
     kbind (page_free pp0) (\<lambda>_.
     (let va = PGSIZE * of_nat NPDENTRIES + PGSIZE in
     kbind (kget kern_pgdir) (\<lambda>pgdir.
     kbind (pgdir_walk pgdir va True) (\<lambda>ptep.
     kbind (pde_at (PDX va)) (\<lambda>pde.
     kbind (KADDR (PTE_ADDR pde)) (\<lambda>ptep1.
     kbind (kassert (ptep = ptep1 + 4 * PTX va)) (\<lambda>_.
     kbind (take_back pp0 (PDX va)) (\<lambda>_.
     kbind (page2kva pp0) (\<lambda>kva.
     kbind (kmodify (kmemset kva 0xFF PGSIZE)) (\<lambda>_.
     kbind (page_free pp0) (\<lambda>_.
     kbind (kget kern_pgdir) (\<lambda>pgdir.
     kbind (pgdir_walk pgdir 0 True) (\<lambda>_.
     kbind (page2kva pp0) (\<lambda>ptep.
     kbind (kget (\<lambda>s. list_all (\<lambda>i. kload (ptep + 4 * of_nat i) s AND PTE_P = 0) [0..<NPTENTRIES])) (\<lambda>b.
     kbind (kassert b) (\<lambda>_.
       take_back pp0 0)))))))))))))))))))))"

definition check_mmio_mapped :: "u32 \<Rightarrow> u32 \<Rightarrow> unit kM" where
  "check_mmio_mapped mm1 mm2 =
     kbind (kassert (mm1 \<ge> MMIOBASE \<and> mm1 + 8096 < MMIOLIM)) (\<lambda>_.
     kbind (kassert (mm2 \<ge> MMIOBASE \<and> mm2 + 8096 < MMIOLIM)) (\<lambda>_.
     kbind (kassert (mm1 mod PGSIZE = 0 \<and> mm2 mod PGSIZE = 0)) (\<lambda>_.
     kbind (kassert (mm1 + 8096 \<le> mm2)) (\<lambda>_.
     kbind (assert_va mm1 0) (\<lambda>_.
     kbind (assert_va (mm1 + PGSIZE) PGSIZE) (\<lambda>_.
     kbind (assert_va mm2 0) (\<lambda>_.
     kbind (assert_va (mm2 + PGSIZE) (NOT 0)) (\<lambda>_.
     kbind (walked_entry mm1) (\<lambda>pte.
     kbind (kassert (pte AND (PTE_W OR PTE_PWT OR PTE_PCD) \<noteq> 0)) (\<lambda>_.
     kbind (walked_entry mm1) (\<lambda>pte.
       kassert (\<not> pte AND PTE_U \<noteq> 0))))))))))))"

definition clear_mmio :: "u32 \<Rightarrow> u32 \<Rightarrow> unit kM" where
  "clear_mmio mm1 mm2 =
     kbind (set_entry_at mm1 0) (\<lambda>_.
     kbind (set_entry_at (mm1 + PGSIZE) 0) (\<lambda>_.
       set_entry_at mm2 0))"

definition check_mmio :: "bool \<Rightarrow> unit kM" where
  "check_mmio pse =
     kbind (mmio_map_region pse 0 4097) (\<lambda>mm1.
     kbind (mmio_map_region pse 0 4096) (\<lambda>mm2.
     kbind (check_mmio_mapped mm1 mm2) (\<lambda>_.
       clear_mmio mm1 mm2)))"

definition check_page_stolen :: "nat \<Rightarrow> nat \<Rightarrow> nat \<Rightarrow> unit kM" where
  "check_page_stolen pp0 pp1 pp2 =
     kbind no_page_left (\<lambda>_.
     kbind (check_page_table_needed pp0 pp1) (\<lambda>_.
     kbind (check_page_remap pp2) (\<lambda>_.
     kbind (check_page_remap pp2) (\<lambda>_.
     kbind (check_page_permissions pp0 pp2) (\<lambda>_.
     kbind (check_page_replace pp1 pp2) (\<lambda>_.
     kbind (check_page_unmap pp1 pp2) (\<lambda>_.
       check_page_walk pp0)))))))"

definition check_page :: "bool \<Rightarrow> unit kM" where
  "check_page pse =
     kbind alloc_three (\<lambda>(pp0, pp1, pp2).
     kbind steal_free_list (\<lambda>fl.
     kbind (check_page_stolen pp0 pp1 pp2) (\<lambda>_.
     kbind (give_back fl pp0 pp1 pp2) (\<lambda>_.
       check_mmio pse))))"

section \<open>check_kern_pgdir\<close>

text \<open>The loop over the pages of an array: \<open>n\<close> pages from \<open>va\<close> are those from \<open>pa\<close>.\<close>

definition check_range :: "u32 \<Rightarrow> u32 \<Rightarrow> nat \<Rightarrow> unit kM" where
  "check_range va pa n = kfor [0..<n] (\<lambda>i. assert_va (va + of_nat i * PGSIZE) (pa + of_nat i * PGSIZE))"

definition check_kstack :: "(nat \<Rightarrow> u32) \<Rightarrow> nat \<Rightarrow> unit kM" where
  "check_kstack kstacks n =
    (let base = KSTACKTOP - (KSTKSIZE + KSTKGAP) * of_nat (n + 1) in
     kbind (PADDR (kstacks n)) (\<lambda>pa.
     kbind (check_range (base + KSTKGAP) pa (unat KSTKSIZE div 4096)) (\<lambda>_.
       kfor [0..<unat KSTKGAP div 4096] (\<lambda>i. assert_va (base + of_nat i * PGSIZE) (NOT 0)))))"

definition check_pde :: "nat \<Rightarrow> unit kM" where
  "check_pde i = kbind (pde_at (of_nat i)) (\<lambda>pde.
     if of_nat i \<in> {PDX UVPT, PDX (KSTACKTOP - 1), PDX UPAGES, PDX UENVS, PDX MMIOBASE}
     then kassert (pde AND PTE_P \<noteq> 0)
     else if of_nat i \<ge> PDX KERNBASE
     then kbind (kassert (pde AND PTE_P \<noteq> 0)) (\<lambda>_. kassert (pde AND PTE_W \<noteq> 0))
     else kassert (pde = 0))"

text \<open>The part for large pages is compiled only if \<open>TP1_PSE\<close> is defined.\<close>

definition check_large_pde :: "nat \<Rightarrow> unit kM" where
  "check_large_pde i = kbind (pde_at (of_nat i)) (\<lambda>pde.
     kbind (kassert (pde AND PTE_PS \<noteq> 0)) (\<lambda>_.
       kassert (PTE_ADDR pde = push_bit PDXSHIFT (of_nat i - PDX KERNBASE))))"

definition check_kern_pgdir :: "bool \<Rightarrow> (nat \<Rightarrow> u32) \<Rightarrow> u32 \<Rightarrow> u32 \<Rightarrow> unit kM" where
  "check_kern_pgdir pse kstacks pages_va envs_va =
     kbind (kget npages) (\<lambda>np.
     kbind (PADDR pages_va) (\<lambda>pages_pa.
     kbind (check_range UPAGES pages_pa (npgs (of_nat np * sizeof_PageInfo))) (\<lambda>_.
     kbind (PADDR envs_va) (\<lambda>envs_pa.
     kbind (check_range UENVS envs_pa (npgs (of_nat NENV * sizeof_Env))) (\<lambda>_.
     kbind (check_range KERNBASE 0 (npgs (of_nat np * PGSIZE))) (\<lambda>_.
     kbind (kfor [0..<NCPU] (check_kstack kstacks)) (\<lambda>_.
     kbind (kfor [0..<NPDENTRIES] check_pde) (\<lambda>_.
       if pse then kfor [unat (PDX KERNBASE)..<NPDENTRIES] check_large_pde else kreturn ()))))))))"

section \<open>check_page_installed_pgdir\<close>

text \<open>
  With the new directory in \<open>cr3\<close>, the word at \<open>PGSIZE\<close> is read and written through the page tables.
\<close>

definition assert_word :: "u32 \<Rightarrow> u32 \<Rightarrow> unit kM" where
  "assert_word va w = kbind (vload32 va) (\<lambda>x. kassert (x = w))"

definition check_installed_pages :: "nat \<Rightarrow> nat \<Rightarrow> unit kM" where
  "check_installed_pages pp1 pp2 =
     kbind (page2kva pp1) (\<lambda>kva. kbind (kmodify (kmemset kva 1 PGSIZE)) (\<lambda>_.
     kbind (page2kva pp2) (\<lambda>kva. kbind (kmodify (kmemset kva 2 PGSIZE)) (\<lambda>_.
     kbind (assert_insert pp1 PGSIZE PTE_W (\<lambda>_. True)) (\<lambda>_.
     kbind (assert_ref pp1 1) (\<lambda>_.
     kbind (assert_word PGSIZE 0x01010101) (\<lambda>_.
     kbind (assert_insert pp2 PGSIZE PTE_W (\<lambda>_. True)) (\<lambda>_.
     kbind (assert_word PGSIZE 0x02020202) (\<lambda>_.
     kbind (assert_ref pp2 1) (\<lambda>_.
     kbind (assert_ref pp1 0) (\<lambda>_.
     kbind (vstore32 PGSIZE 0x03030303) (\<lambda>_.
     kbind (page2kva pp2) (\<lambda>kva.
     kbind (kget (kload kva)) (\<lambda>x.
     kbind (kassert (x = 0x03030303)) (\<lambda>_.
     kbind (kern_remove PGSIZE) (\<lambda>_.
       assert_ref pp2 0))))))))))))))))"

definition check_page_installed_pgdir :: "unit kM" where
  "check_page_installed_pgdir =
     kbind (must_alloc 0) (\<lambda>pp0.
     kbind (must_alloc 0) (\<lambda>pp1.
     kbind (must_alloc 0) (\<lambda>pp2.
     kbind (page_free pp0) (\<lambda>_.
     kbind (check_installed_pages pp1 pp2) (\<lambda>_.
     kbind (pde_at 0) (\<lambda>pde.
     kbind (kassert (PTE_ADDR pde = page2pa pp0)) (\<lambda>_.
     kbind (clear_pde 0) (\<lambda>_.
     kbind (assert_ref pp0 1) (\<lambda>_.
     kbind (kmodify (set_ref pp0 0)) (\<lambda>_.
       page_free pp0))))))))))"

section \<open>What a run yields\<close>

definition yields :: "'a kM \<Rightarrow> kstate \<Rightarrow> ('a \<Rightarrow> kstate \<Rightarrow> bool) \<Rightarrow> bool" where
  "yields m s Q \<longleftrightarrow> (case m s of Ret a s' \<Rightarrow> Q a s' | _ \<Rightarrow> False)"

lemma yields_Ret: "m s = Ret a s' \<Longrightarrow> yields m s Q = Q a s'"
  by (simp add: yields_def)

lemma yieldsD: "yields m s Q \<Longrightarrow> \<exists>a s'. m s = Ret a s' \<and> Q a s'"
  by (simp add: yields_def split: kres.splits)

lemma yields_simps [simp]:
  "yields (kreturn a) s Q = Q a s" "yields (Ret a) s Q = Q a s" "yields (kget f) s Q' = Q' (f s) s" "yields (kmodify g) s Q'' = Q'' () (g s)"
  "yields (kassert b) s Q'' = (b \<and> Q'' () s)"
  by (simp_all add: yields_def kassert_def)

lemma yields_kbind [simp]: "yields (kbind m f) s Q = yields m s (\<lambda>a s'. yields (f a) s' Q)"
  by (simp add: yields_def kbind_def split: kres.splits)

lemma yields_mono: "yields m s Q \<Longrightarrow> (\<And>a s'. Q a s' \<Longrightarrow> Q' a s') \<Longrightarrow> yields m s Q'"
  by (auto simp: yields_def split: kres.splits)

lemma free_walk_yields:
  assumes step: "\<And>xs p ys a s. fl = xs @ p # ys \<Longrightarrow> I xs a s \<Longrightarrow> chain (links s) (links s p) ys
      \<Longrightarrow> yields (body p a) s (\<lambda>a' s'. I (xs @ [p]) a' s' \<and> chain (links s') (links s' p) ys)"
  shows "chain (links s) h ys \<Longrightarrow> fl = xs @ ys \<Longrightarrow> I xs a s \<Longrightarrow> length ys < n \<Longrightarrow>
    yields (free_walk n body h a) s (\<lambda>a' s'. I fl a' s')"
proof (induction n arbitrary: s h ys xs a)
  case (Suc n)
  show ?case
  proof (cases ys)
    case Nil
    then show ?thesis using Suc.prems by simp
  next
    case (Cons p zs)
    then have h: "h = Some p" "chain (links s) (links s p) zs" using Suc.prems(1) by (auto simp: chain_Cons)
    from step [OF _ Suc.prems(3) h(2)] Suc.prems(2) Cons
    have "yields (body p a) s (\<lambda>a' s'. I (xs @ [p]) a' s' \<and> chain (links s') (links s' p) zs)" by simp
    then have "yields (body p a) s (\<lambda>a' s'. yields (free_walk n body (links s' p) a') s' (\<lambda>a' s'. I fl a' s'))"
      by (rule yields_mono) (use Suc.IH [of _ _ zs "xs @ [p]"] Suc.prems Cons in auto)
    then show ?thesis by (simp add: h links_def)
  qed
qed simp

lemma distinct_bound: "distinct fl \<Longrightarrow> (\<forall>p \<in> set fl. p < n) \<Longrightarrow> length fl \<le> (n::nat)"
  using card_mono [of "{..<n}" "set fl"] by (auto simp: distinct_card subset_iff)

lemma pages_inv_chain: "pages_inv s fl \<Longrightarrow> chain (links s) (page_free_list s) fl \<and> length fl \<le> npages s"
  using distinct_bound [of fl "npages s"] by (auto simp: pages_inv_def pgfl.unlinked_def pgfl.represents_def links_def)

text \<open>A loop over the free list, with an invariant over the pages it has visited.\<close>

lemma for_free_yields:
  assumes "pages_inv s fl" "I [] a s"
    and "\<And>xs p ys a s. fl = xs @ p # ys \<Longrightarrow> I xs a s \<Longrightarrow> chain (links s) (links s p) ys
      \<Longrightarrow> yields (body p a) s (\<lambda>a' s'. I (xs @ [p]) a' s' \<and> chain (links s') (links s' p) ys)"
  shows "yields (for_free body a) s (\<lambda>a' s'. I fl a' s')"
  using free_walk_yields [of fl I body s _ fl "[]", OF assms(3)] pages_inv_chain [OF assms(1)] assms(2)
  by (simp add: for_free_def yields_def del: free_walk.simps)

lemma count_free_yields: "pages_inv s fl \<Longrightarrow> yields count_free s (\<lambda>n s'. n = length fl \<and> s' = s)"
  unfolding count_free_def
  by (rule for_free_yields [where I = "\<lambda>xs n s'. n = length xs \<and> s' = s"]) (auto simp: links_def)

section \<open>The free list, low pages first\<close>

text \<open>Segments of the list: from \<open>h\<close> along the pages \<open>xs\<close> to \<open>y\<close>.\<close>

primrec segment :: "(nat \<Rightarrow> nat option) \<Rightarrow> nat option \<Rightarrow> nat list \<Rightarrow> nat option \<Rightarrow> bool" where
  "segment lk h [] y \<longleftrightarrow> h = y"
| "segment lk h (x # xs) y \<longleftrightarrow> h = Some x \<and> segment lk (lk x) xs y"

lemma segment_append [simp]: "segment lk h (xs @ ys) z \<longleftrightarrow> (\<exists>y. segment lk h xs y \<and> segment lk y ys z)"
  by (induction xs arbitrary: h) auto

lemma segment_chain: "segment lk h xs None \<longleftrightarrow> chain lk h xs"
  by (induction xs arbitrary: h) (auto simp: chain_Cons)

lemma segment_upd [simp]: "q \<notin> set xs \<Longrightarrow> segment (lk(q := v)) h xs y = segment lk h xs y"
  by (induction xs arbitrary: h) auto

lemma chain_upd: "q \<notin> set xs \<Longrightarrow> chain (lk(q := v)) h xs = chain lk h xs"
  by (simp flip: segment_chain)

text \<open>
  The list of one type after the pages \<open>xs\<close>: its last page, if it has one, is the tail, whose
  link is still to be stored.
\<close>

definition open_list :: "(nat \<Rightarrow> nat option) \<Rightarrow> nat option \<Rightarrow> nat option \<Rightarrow> nat list \<Rightarrow> bool" where
  "open_list lk h t xs \<longleftrightarrow> (if xs = [] then t = None else t = Some (last xs) \<and> segment lk h (butlast xs) t)"

lemma open_list_other: "q \<notin> set xs \<Longrightarrow> open_list (lk(q := v)) h t xs = open_list lk h t xs"
proof -
  assume "q \<notin> set xs"
  then have "q \<notin> set (butlast xs)" by (auto dest: in_set_butlastD)
  then show ?thesis by (simp add: open_list_def)
qed

lemma open_list_extend:
  assumes "open_list lk h (Some q) xs" "distinct xs" "p \<notin> set xs"
  shows "open_list (lk(q := Some p)) h (Some p) (xs @ [p])"
proof -
  have xs: "xs = butlast xs @ [q]" using assms(1) append_butlast_last_id [of xs] by (auto simp: open_list_def split: if_splits)
  then have "q \<notin> set (butlast xs)" using assms(2) distinct_append [of "butlast xs" "[q]"] by auto
  then have "segment (lk(q := Some p)) h (butlast xs @ [q]) (Some p)"
    using assms(1) by (auto simp: open_list_def split: if_splits)
  with xs show ?thesis by (simp add: open_list_def)
qed

lemma open_list_close:
  assumes "open_list lk h (Some q) xs" "distinct xs"
  shows "segment (lk(q := v)) h xs v"
proof -
  have xs: "xs = butlast xs @ [q]" using assms(1) append_butlast_last_id [of xs] by (auto simp: open_list_def split: if_splits)
  then have "q \<notin> set (butlast xs)" using assms(2) distinct_append [of "butlast xs" "[q]"] by auto
  then have "segment (lk(q := v)) h (butlast xs @ [q]) v"
    using assms(1) by (auto simp: open_list_def split: if_splits)
  with xs show ?thesis by simp
qed

abbreviation pages_of_type :: "nat \<Rightarrow> bool \<Rightarrow> nat list \<Rightarrow> nat list" where
  "pages_of_type lim k xs \<equiv> filter (\<lambda>p. (unat (PDX (page2pa p)) \<ge> lim) = k) xs"

text \<open>Two states that differ in the links of the pages in \<open>fl\<close> and in the head of the list only.\<close>

definition relinked :: "kstate \<Rightarrow> kstate \<Rightarrow> nat list \<Rightarrow> bool" where
  "relinked s s' fl \<longleftrightarrow> (\<exists>pg h. s' = s\<lparr>pages := pg, page_free_list := h\<rparr>
     \<and> (\<forall>p. pp_ref (pg p) = pp_ref (pages s p) \<and> (p \<notin> set fl \<longrightarrow> pg p = pages s p)))"

definition splitting :: "nat \<Rightarrow> kstate \<Rightarrow> nat list \<Rightarrow> nat list \<Rightarrow> split_vars \<Rightarrow> kstate \<Rightarrow> bool" where
  "splitting lim s0 fl xs a s \<longleftrightarrow> relinked s0 s fl
     \<and> (\<forall>k. open_list (links s) (list_head a k) (list_tail a k) (pages_of_type lim k xs))"

lemma relinked_link:
  "relinked s0 s fl \<Longrightarrow> q \<in> set fl \<Longrightarrow>
    relinked s0 (s\<lparr>pages := (pages s)(q := (pages s q)\<lparr>pp_link := v\<rparr>)\<rparr>) fl"
  unfolding relinked_def by (elim exE conjE) (rule_tac x = "(pg)(q := (pg q)\<lparr>pp_link := v\<rparr>)" in exI, rule_tac x = h in exI, auto)

lemma relinked_refl: "relinked s s fl"
  unfolding relinked_def by (rule exI [of _ "pages s"], rule exI [of _ "page_free_list s"]) simp

lemma relinked_head: "relinked s t fl \<Longrightarrow> relinked s (t\<lparr>page_free_list := h\<rparr>) fl"
  unfolding relinked_def by (elim exE conjE) (rule_tac x = pg in exI, rule_tac x = h in exI, simp)

lemma links_upd [simp]: "links (s\<lparr>pages := (pages s)(q := (pages s q)\<lparr>pp_link := v\<rparr>)\<rparr>) = (links s)(q := v)"
  by (auto simp: links_def)

lemma open_list_tail: "open_list lk h t xs \<Longrightarrow> t = (if xs = [] then None else Some (last xs))"
  by (auto simp: open_list_def)

lemma store_tp_yields:
  "yields (store_tp k v a) s Q = (case list_tail a k of
     None \<Rightarrow> Q (a\<lparr>list_head := (list_head a)(k := v)\<rparr>) s
   | Some q \<Rightarrow> Q a (s\<lparr>pages := (pages s)(q := (pages s q)\<lparr>pp_link := v\<rparr>)\<rparr>))"
  by (simp add: store_tp_def split: option.split)

lemma split_step_yields:
  assumes fl: "fl = xs @ p # ys" "distinct fl" and I: "splitting lim s0 fl xs a s" and c: "chain (links s) (links s p) ys"
  shows "yields (split_step lim p a) s (\<lambda>a' s'. splitting lim s0 fl (xs @ [p]) a' s' \<and> chain (links s') (links s' p) ys)"
proof -
  define k where "k = (unat (PDX (page2pa p)) \<ge> lim)"
  have o: "open_list (links s) (list_head a j) (list_tail a j) (pages_of_type lim j xs)" for j
    using I by (simp add: splitting_def)
  have r: "relinked s0 s fl" using I by (simp add: splitting_def)
  have new: "pages_of_type lim j (xs @ [p]) = pages_of_type lim j xs @ (if j = k then [p] else [])" for j by (auto simp: k_def)
  show ?thesis
  proof (cases "list_tail a k")
    case None
    then have "pages_of_type lim k xs = []" using open_list_tail [OF o [of k]] by (simp split: if_splits)
    then have "open_list (links s) (if j = k then Some p else list_head a j) (if j = k then Some p else list_tail a j)
        (pages_of_type lim j (xs @ [p]))" for j
      using o [of j] unfolding new by (cases "j = k") (simp add: open_list_def, simp only: simp_thms if_False append_Nil2)
    then have "splitting lim s0 fl (xs @ [p]) (a\<lparr>list_head := (list_head a)(k := Some p), list_tail := (list_tail a)(k := Some p)\<rparr>) s"
      using r unfolding splitting_def by (simp del: filter_append)
    with None c show ?thesis by (simp add: split_step_def store_tp_yields flip: k_def)
  next
    case (Some q)
    let ?s = "s\<lparr>pages := (pages s)(q := (pages s q)\<lparr>pp_link := Some p\<rparr>)\<rparr>"
    have ne: "pages_of_type lim k xs \<noteq> []" "q = last (pages_of_type lim k xs)"
      using open_list_tail [OF o [of k]] Some by (auto split: if_splits)
    have "q \<in> set (pages_of_type lim k xs)" unfolding ne(2) by (rule last_in_set [OF ne(1)])
    then have q: "q \<in> set xs" "j \<noteq> k \<Longrightarrow> q \<notin> set (pages_of_type lim j xs)" for j by auto
    have ok: "open_list ((links s)(q := Some p)) (list_head a k) (Some p) (pages_of_type lim k xs @ [p])"
      using open_list_extend [of "links s" "list_head a k" q] o [of k] fl Some by auto
    have "open_list (links ?s) (list_head a j) (if j = k then Some p else list_tail a j) (pages_of_type lim j (xs @ [p]))" for j
    proof (cases "j = k")
      case True
      then show ?thesis using ok by (simp only: new links_upd simp_thms if_True)
    next
      case False
      then show ?thesis using open_list_other [OF q(2) [OF False]] o [of j] by (simp only: new links_upd simp_thms if_False append_Nil2)
    qed
    moreover have "relinked s0 ?s fl" using relinked_link [OF r, of q] q(1) fl(1) by simp
    ultimately have "splitting lim s0 fl (xs @ [p]) (a\<lparr>list_tail := (list_tail a)(k := Some p)\<rparr>) ?s"
      unfolding splitting_def by (simp del: filter_append links_upd)
    moreover have "q \<notin> set ys" "q \<noteq> p" using q(1) fl by auto
    then have "chain (links ?s) (links ?s p) ys" using c by (simp add: chain_upd)
    ultimately show ?thesis using Some by (simp add: split_step_def store_tp_yields flip: k_def)
  qed
qed

lemma relinked_inv:
  assumes "pages_inv s fl" "relinked s s' fl" "chain (links s') (page_free_list s') xs" "set xs = set fl" "distinct xs"
  shows "pages_inv s' xs"
proof -
  have "pp_ref (pages s' p) = pp_ref (pages s p)" "npages s' = npages s" "p \<notin> set fl \<Longrightarrow> pages s' p = pages s p" for p
    using assms(2) by (auto simp: relinked_def)
  then show ?thesis
    using assms by (simp add: pages_inv_def pgfl.unlinked_def pgfl.represents_def links_def)
qed

lemma low_pages_first_yields:
  assumes inv: "pages_inv s fl"
  shows "yields (low_pages_first lim) s (\<lambda>_ s'. relinked s s' fl
    \<and> pages_inv s' (pages_of_type lim False fl @ pages_of_type lim True fl))"
proof -
  have d: "distinct fl" using pages_invD(3) [OF inv] .
  have fin: "relinked s (t2\<lparr>page_free_list := list_head a2 False\<rparr>) fl
      \<and> pages_inv (t2\<lparr>page_free_list := list_head a2 False\<rparr>) (pages_of_type lim False fl @ pages_of_type lim True fl)"
    if I: "splitting lim s fl fl a t"
      and 1: "store_tp True None a t = Ret a1 t1" and 2: "store_tp False (list_head a1 True) a1 t1 = Ret a2 t2"
    for a a1 a2 t t1 t2
  proof -
    let ?lo = "pages_of_type lim False fl" and ?hi = "pages_of_type lim True fl"
    have o: "open_list (links t) (list_head a j) (list_tail a j) (pages_of_type lim j fl)" for j
      using I by (simp add: splitting_def)
    have r: "relinked s t fl" using I by (simp add: splitting_def)
    have tl: "list_tail a j = Some q \<Longrightarrow> q \<in> set (pages_of_type lim j fl)" for j q
      using open_list_tail [OF o [of j]] last_in_set [of "pages_of_type lim j fl"] by (auto simp del: last_in_set split: if_splits)
    have hi: "chain (links t1) (list_head a1 True) ?hi \<and> relinked s t1 fl \<and> list_tail a1 = list_tail a
        \<and> list_head a1 False = list_head a False
        \<and> open_list (links t1) (list_head a False) (list_tail a False) ?lo"
    proof (cases "list_tail a True")
      case None
      then have "?hi = []" using open_list_tail [OF o [of True]] by (simp split: if_splits)
      with None 1 o [of False] r show ?thesis by (auto simp: store_tp_def)
    next
      case (Some q)
      have "q \<notin> set ?lo" using tl [OF Some] by auto
      then show ?thesis
        using Some 1 open_list_close [of "links t" "list_head a True" q ?hi None] o [of True] o [of False] d
          relinked_link [OF r, of q None] tl [OF Some]
        by (auto simp: store_tp_def segment_chain open_list_other)
    qed
    have "chain (links t2) (list_head a2 False) (?lo @ ?hi) \<and> relinked s t2 fl"
    proof (cases "list_tail a False")
      case None
      then have "?lo = []" using open_list_tail [OF o [of False]] by (simp split: if_splits)
      with None 2 hi show ?thesis by (auto simp: store_tp_def)
    next
      case (Some q)
      have q: "q \<notin> set ?hi" "q \<in> set fl" using tl [OF Some] by auto
      have "segment ((links t1)(q := list_head a1 True)) (list_head a False) ?lo (list_head a1 True)"
        using open_list_close [of "links t1" "list_head a False" q ?lo "list_head a1 True"] hi Some d by simp
      then have "chain ((links t1)(q := list_head a1 True)) (list_head a False) (?lo @ ?hi)"
        using hi q(1) by (simp flip: segment_chain) blast
      then show ?thesis
        using 2 hi Some relinked_link [of s t1 fl q] q(2) by (auto simp: store_tp_def)
    qed
    moreover have "links (t2\<lparr>page_free_list := h\<rparr>) = links t2" for h by (simp add: links_def)
    ultimately have "chain (links (t2\<lparr>page_free_list := list_head a2 False\<rparr>)) (list_head a2 False) (?lo @ ?hi)"
      and R: "relinked s (t2\<lparr>page_free_list := list_head a2 False\<rparr>) fl"
      by (auto intro: relinked_head)
    then show ?thesis
      using d by (auto intro!: relinked_inv [OF inv R])
  qed
  have start: "splitting lim s fl [] \<lparr>list_head = (\<lambda>_. None), list_tail = (\<lambda>_. None)\<rparr> s"
    by (auto simp: splitting_def relinked_def open_list_def intro!: exI [of _ "pages s"] exI [of _ "page_free_list s"])
  have T: "\<exists>a' t'. store_tp k v a t = Ret a' t'" for k v a t by (simp add: store_tp_def split: option.split)
  have loop: "yields (for_free (split_step lim) \<lparr>list_head = (\<lambda>_. None), list_tail = (\<lambda>_. None)\<rparr>) s (splitting lim s fl fl)"
    using for_free_yields [OF inv, where I = "splitting lim s fl", OF start] split_step_yields d by blast
  show ?thesis
    unfolding low_pages_first_def yields_kbind
  proof (rule yields_mono [OF loop])
    fix a t assume I: "splitting lim s fl fl a t"
    obtain a1 t1 a2 t2 where 1: "store_tp True None a t = Ret a1 t1"
        "store_tp False (list_head a1 True) a1 t1 = Ret a2 t2" using T by metis
    with fin [OF I 1] show "yields (store_tp True None a) t (\<lambda>a s'. yields (store_tp False (list_head a True) a) s'
        (\<lambda>a s'. yields (kmodify (page_free_list_update (\<lambda>_. list_head a False))) s' (\<lambda>_ s'. relinked s s' fl
    \<and> pages_inv s' (pages_of_type lim False fl @ pages_of_type lim True fl))))"
      by (simp add: yields_def 1)
  qed
qed

section \<open>The pages of the free list\<close>

text \<open>States that differ in the memory of the pages in \<open>fl\<close> only.\<close>

definition scribbled :: "kstate \<Rightarrow> kstate \<Rightarrow> nat list \<Rightarrow> bool" where
  "scribbled s s' fl \<longleftrightarrow> (\<exists>m. s' = s\<lparr>pmem := m\<rparr>) \<and> (\<forall>f i. f \<notin> set fl \<longrightarrow> i < 1024 \<longrightarrow> fword s' f i = fword s f i)"

lemma scribbledD:
  assumes "scribbled s s' fl"
  shows "npages s' = npages s" "pages s' = pages s" "page_free_list s' = page_free_list s" "nextfree s' = nextfree s"
    "links s' = links s" "pages_inv s' xs = pages_inv s xs"
  using assms by (auto simp: scribbled_def links_def)

lemma scribbled_memset:
  assumes "scribbled s s' fl" "p \<in> set fl" "n \<le> 4096"
  shows "scribbled s (s'\<lparr>pmem := memset (p * 4096) c n (pmem s')\<rparr>) fl"
proof -
  have "load32 (memset (p * 4096) c n m) (f * 4096 + 4 * i) = load32 m (f * 4096 + 4 * i)" if "f \<noteq> p" "i < 1024" for f i m
    using that assms(3) by (cases "f < p") auto
  moreover have "f \<notin> set fl \<Longrightarrow> f \<noteq> p" for f using assms(2) by auto
  ultimately show ?thesis using assms(1) by (auto simp: scribbled_def fword_def)
qed

lemma kmemset_page: "p < npages s \<Longrightarrow> npages s \<le> 65536 \<Longrightarrow>
    yields (page2kva p) s (\<lambda>kva s'. Q kva s') = Q (frame_kva p) s"
  by (simp add: yields_def page2kva_def KADDR_page2pa frame_kva_def)

lemma kmemset_frame_kva: "p < 65536 \<Longrightarrow> kmemset (frame_kva p) c n s = s\<lparr>pmem := memset (p * 4096) c (unat n) (pmem s)\<rparr>"
  by (simp add: kmemset_def kphys_frame_kva)

lemma poison_yields:
  assumes inv: "pages_inv s fl"
  shows "yields (for_free (poison_page lim) ()) s (\<lambda>_ s'. scribbled s s' fl)"
proof (rule for_free_yields [OF inv, where I = "\<lambda>_ _ s'. scribbled s s' fl"])
  show "scribbled s s fl" by (auto simp: scribbled_def intro: exI [of _ "pmem s"])
next
  fix xs p ys a t assume fl: "fl = xs @ p # ys" and I: "scribbled s t fl" and c: "chain (links t) (links t p) ys"
  have p: "p < npages t" "npages t \<le> 65536" "p \<in> set fl"
    using pages_invD(2,4) [OF inv] scribbledD(1) [OF I] fl by auto
  have "scribbled s (t\<lparr>pmem := memset (p * 4096) 0x97 128 (pmem t)\<rparr>) fl"
    by (rule scribbled_memset [OF I p(3)]) simp
  then show "yields (poison_page lim p a) t (\<lambda>a' s'. scribbled s s' fl \<and> chain (links s') (links s' p) ys)"
    using I c p by (simp add: poison_page_def kmemset_page kmemset_frame_kva) (simp add: links_def)
qed

text \<open>The pages \<open>page_init\<close> puts on the list, where \<open>fin\<close> is the first page \<open>boot_alloc\<close> has not handed out.\<close>

definition fit_for_list :: "nat \<Rightarrow> nat \<Rightarrow> bool" where
  "fit_for_list fin p \<longleftrightarrow> p \<noteq> 0 \<and> p \<noteq> 7 \<and> (p < 160 \<or> fin \<le> p)"

lemma page2pa_cmp: "p < 1048576 \<Longrightarrow> (page2pa p = c) = (p * 4096 = unat c)" "p < 1048576 \<Longrightarrow> (page2pa p < c) = (p * 4096 < unat c)"
  by (simp_all add: word_unat_eq_iff word_less_nat_alt unat_page2pa)

lemma frame_kva_mono: "f \<le> g \<Longrightarrow> g < 65536 \<Longrightarrow> frame_kva f \<le> frame_kva g"
  by (simp add: word_le_nat_alt unat_frame_kva)

lemma check_free_page_yields:
  assumes "p < npages s" "npages s \<le> 65536" "fit_for_list fin p" "256 < fin"
  shows "yields (check_free_page (frame_kva fin) p (nb, ne)) s (\<lambda>n s'. s' = s
    \<and> n = (if p < 160 then (nb + 1, ne) else (nb, ne + 1)))"
proof -
  have p: "p < 1048576" "p \<noteq> 0" "p \<noteq> 7" "p < 160 \<or> fin \<le> p" using assms by (auto simp: fit_for_list_def)
  then show ?thesis
    using assms frame_kva_mono [of fin p]
    by (auto simp: check_free_page_def page2pa_cmp kmemset_page mmu_consts IOPHYSMEM_def)
qed

lemma check_pages_yields:
  assumes inv: "pages_inv s fl" and fit: "\<forall>p \<in> set fl. fit_for_list fin p" "256 < fin"
  shows "yields (for_free (check_free_page (frame_kva fin)) (0, 0)) s (\<lambda>n s'. s' = s
    \<and> n = (length (filter (\<lambda>p. p < 160) fl), length (filter (\<lambda>p. \<not> p < 160) fl)))"
proof (rule for_free_yields [OF inv, where I = "\<lambda>xs n s'. s' = s
    \<and> n = (length (filter (\<lambda>p. p < 160) xs), length (filter (\<lambda>p. \<not> p < 160) xs))"])
  fix xs p ys n t
  assume fl: "fl = xs @ p # ys" and c: "chain (links t) (links t p) ys"
    and I: "t = s \<and> n = (length (filter (\<lambda>p. p < 160) xs), length (filter (\<lambda>p. \<not> p < 160) xs))"
  show "yields (check_free_page (frame_kva fin) p n) t (\<lambda>a' s'. (s' = s \<and> a' = (length (filter (\<lambda>p. p < 160) (xs @ [p])),
      length (filter (\<lambda>p. \<not> p < 160) (xs @ [p])))) \<and> chain (links s') (links s' p) ys)"
    using check_free_page_yields [of p s fin "length (filter (\<lambda>p. p < 160) xs)" "length (filter (\<lambda>p. \<not> p < 160) xs)"]
      pages_invD(2,4) [OF inv] fit fl c I
    by (auto elim!: yields_mono)
qed simp

lemma pages_of_type_all: "\<forall>p \<in> set fl. p < 65536 \<Longrightarrow> pages_of_type 1 False fl @ pages_of_type 1 True fl = filter (\<lambda>p. p < 1024) fl @ filter (\<lambda>p. \<not> p < 1024) fl"
proof -
  assume a: "\<forall>p \<in> set fl. p < 65536"
  have "(1 \<le> unat (PDX (page2pa p))) = (\<not> p < 1024)" if "p \<in> set fl" for p
  proof -
    have "unat (page2pa p) = p * 4096" using a that by (intro unat_page2pa) auto
    then show ?thesis by (simp add: unat_PDX) auto
  qed
  then have "pages_of_type 1 False fl = filter (\<lambda>p. p < 1024) fl" "pages_of_type 1 True fl = filter (\<lambda>p. \<not> p < 1024) fl"
    by (auto intro!: filter_cong)
  then show ?thesis by simp
qed

text \<open>
  What the tests of the allocator change: links, the head of the list, the memory of free pages
  (and what is flushed from the TLB).
\<close>

definition tested :: "kstate \<Rightarrow> kstate \<Rightarrow> nat list \<Rightarrow> bool" where
  "tested s s' fl \<longleftrightarrow>
     s'\<lparr>pages := pages s, page_free_list := page_free_list s, pmem := pmem s, invlpgs := invlpgs s\<rparr> = s
     \<and> (\<forall>p. pp_ref (pages s' p) = pp_ref (pages s p))
     \<and> (\<forall>f i. f \<notin> set fl \<longrightarrow> i < 1024 \<longrightarrow> fword s' f i = fword s f i)"

lemma tested_relinked_scribbled:
  assumes "relinked s t fl" "scribbled t s' fl'" "set fl' = set fl"
  shows "tested s s' fl"
proof -
  obtain pg h m where "t = s\<lparr>pages := pg, page_free_list := h\<rparr>" "\<forall>p. pp_ref (pg p) = pp_ref (pages s p)"
    "s' = t\<lparr>pmem := m\<rparr>" using assms(1,2) by (auto simp: relinked_def scribbled_def)
  then show ?thesis
    using assms(2,3) unfolding tested_def
    by (auto simp: scribbled_def fword_def)
qed

lemma testedD:
  assumes "tested s s' fl"
  shows "npages s' = npages s" "nextfree s' = nextfree s" "kern_pgdir s' = kern_pgdir s" "mmio_base s' = mmio_base s"
    "cr3 s' = cr3 s" "curenv s' = curenv s" "pp_ref (pages s' p) = pp_ref (pages s p)"
    "f \<notin> set fl \<Longrightarrow> i < 1024 \<Longrightarrow> fword s' f i = fword s f i"
proof -
  have e: "s'\<lparr>pages := pages s, page_free_list := page_free_list s, pmem := pmem s, invlpgs := invlpgs s\<rparr> = s"
    using assms by (simp add: tested_def)
  from arg_cong [OF e, of npages] arg_cong [OF e, of nextfree] arg_cong [OF e, of kern_pgdir]
    arg_cong [OF e, of mmio_base] arg_cong [OF e, of cr3] arg_cong [OF e, of curenv]
  show "npages s' = npages s" "nextfree s' = nextfree s" "kern_pgdir s' = kern_pgdir s" "mmio_base s' = mmio_base s"
    "cr3 s' = cr3 s" "curenv s' = curenv s" by (simp_all add: curenv_def)
qed (use assms in \<open>simp_all add: tested_def\<close>)

definition reordered :: "bool \<Rightarrow> nat list \<Rightarrow> nat list" where
  "reordered only_low fl = (if only_low then filter (\<lambda>p. p < 1024) fl @ filter (\<lambda>p. \<not> p < 1024) fl else fl)"

definition listable :: "kstate \<Rightarrow> nat list \<Rightarrow> nat \<Rightarrow> bool" where
  "listable s fl fin \<longleftrightarrow> nextfree s = frame_kva fin \<and> 256 < fin \<and> fin \<le> npages s \<and> fin < 65536
     \<and> (\<forall>p \<in> set fl. fit_for_list fin p) \<and> (\<exists>p \<in> set fl. p < 160) \<and> (\<exists>p \<in> set fl. \<not> p < 160)"

lemma boot_alloc_zero:
  assumes "nextfree s = frame_kva f" "f \<le> npages s" "npages s \<le> 65536" "f < 65536"
  shows "boot_alloc kend 0 s = Ret (frame_kva f) s"
proof -
  have "unat (of_nat (npages s) * PGSIZE) = npages s * 4096"
    using assms(3) by (simp add: unat_word_ariths unat_of_nat PGSIZE_def)
  then have "page2pa f \<le> of_nat (npages s) * PGSIZE" "KERNBASE \<le> frame_kva f"
    using assms(2,4) by (simp_all add: word_le_nat_alt unat_page2pa unat_frame_kva KERNBASE_def)
  then show ?thesis using boot_alloc_moves_end [of s kend 0] assms(1) by (simp add: frame_kva_def)
qed

lemma check_page_free_list_yields:
  assumes inv: "pages_inv s fl" and ok: "listable s fl fin"
  shows "yields (check_page_free_list kend lo) s (\<lambda>_ s'. pages_inv s' (reordered lo fl) \<and> tested s s' fl)"
proof -
  have ne: "page_free_list s \<noteq> None"
    using pages_inv_chain [OF inv] ok by (cases fl) (auto simp: chain_Cons listable_def)
  have p: "\<forall>p \<in> set fl. p < 65536" using pages_invD(2,4) [OF inv] by fastforce
  have 1: "yields (if lo then low_pages_first (if lo then 1 else NPDENTRIES) else kreturn ()) s
      (\<lambda>_ s'. relinked s s' fl \<and> pages_inv s' (reordered lo fl))"
    using low_pages_first_yields [OF inv, of 1, unfolded pages_of_type_all [OF p]] inv relinked_refl
    by (cases lo) (simp_all only: reordered_def if_True if_False yields_simps simp_thms)
  have "yields (for_free (poison_page lim) ()) t (\<lambda>_ t. yields (boot_alloc kend 0) t (\<lambda>ffp t.
      yields (for_free (check_free_page ffp) (0, 0)) t (\<lambda>n t. 0 < fst n \<and> 0 < snd n
        \<and> pages_inv t (reordered lo fl) \<and> tested s t fl)))"
    if r: "relinked s t fl \<and> pages_inv t (reordered lo fl)" for t lim
  proof (rule yields_mono [OF poison_yields [of t "reordered lo fl"]])
    show "pages_inv t (reordered lo fl)" using r by simp
  next
    fix a t' assume sc: "scribbled t t' (reordered lo fl)"
    have st: "set (reordered lo fl) = set fl" by (auto simp: reordered_def)
    have t': "pages_inv t' (reordered lo fl)" "nextfree t' = frame_kva fin" "npages t' = npages s"
      using r ok scribbledD [OF sc] by (auto simp: relinked_def listable_def)
    have b: "boot_alloc kend 0 t' = Ret (frame_kva fin) t'"
      using t' ok pages_invD(2) [OF t'(1)] by (intro boot_alloc_zero) (auto simp: listable_def)
    have n: "filter (\<lambda>p. p < 160) (reordered lo fl) \<noteq> []" "filter (\<lambda>p. \<not> p < 160) (reordered lo fl) \<noteq> []"
      using ok st by (auto simp: listable_def filter_empty_conv)
    have fit: "\<forall>p \<in> set (reordered lo fl). fit_for_list fin p" "256 < fin" using ok st by (auto simp: listable_def)
    have "tested s t' fl" using tested_relinked_scribbled [OF _ sc st] r by blast
    then show "yields (boot_alloc kend 0) t' (\<lambda>ffp t. yields (for_free (check_free_page ffp) (0, 0)) t (\<lambda>n t.
        0 < fst n \<and> 0 < snd n \<and> pages_inv t (reordered lo fl) \<and> tested s t fl))"
      using yields_mono [OF check_pages_yields [OF t'(1) fit]] n t'(1) by (simp add: yields_Ret [where m = "boot_alloc kend 0", OF b])
  qed
  from yields_mono [OF 1 this [where lim = "if lo then 1 else NPDENTRIES"]] show ?thesis
    by (simp only: check_page_free_list_def Let_def yields_kbind yields_simps ne if_False case_prod_unfold simp_thms conj_assoc)
qed

section \<open>Runs on a few pages\<close>

text \<open>
  While a test runs, most of the free list is taken away and only the pages \<open>P\<close> move. A state is
  then described by the list \<open>L\<close> of the free pages among them, their reference counts \<open>r\<close> and the
  words \<open>w\<close> of the memory; the rest is that of the state \<open>s0\<close> in which the test began. The rules
  follow the operations on \<open>L\<close>, \<open>r\<close> and \<open>w\<close>.
\<close>

definition mview :: "kstate \<Rightarrow> nat set \<Rightarrow> nat list \<Rightarrow> (nat \<Rightarrow> u16) \<Rightarrow> (nat \<Rightarrow> nat \<Rightarrow> u32) \<Rightarrow> kstate \<Rightarrow> bool" where
  "mview s0 P L r w s \<longleftrightarrow>
     s\<lparr>pages := pages s0, page_free_list := page_free_list s0, pmem := pmem s0, invlpgs := invlpgs s0\<rparr> = s0
     \<and> npages s0 \<le> 65536 \<and> (\<forall>p \<in> P. p < npages s0) \<and> set L \<subseteq> P
     \<and> pgfl.represents s L \<and> (\<forall>p \<in> P. p \<notin> set L \<longrightarrow> pp_link (pages s p) = None)
     \<and> (\<forall>p. p \<notin> P \<longrightarrow> pages s p = pages s0 p) \<and> (\<forall>p \<in> P. pp_ref (pages s p) = r p)
     \<and> (\<forall>f. \<forall>i < 1024. fword s f i = w f i)"

definition mruns :: "kstate \<Rightarrow> nat set \<Rightarrow> nat list \<Rightarrow> (nat \<Rightarrow> u16) \<Rightarrow> (nat \<Rightarrow> nat \<Rightarrow> u32) \<Rightarrow> 'a kM
    \<Rightarrow> ('a \<Rightarrow> nat list \<Rightarrow> (nat \<Rightarrow> u16) \<Rightarrow> (nat \<Rightarrow> nat \<Rightarrow> u32) \<Rightarrow> bool) \<Rightarrow> bool" where
  "mruns s0 P L r w m Q \<longleftrightarrow> (\<forall>s. mview s0 P L r w s \<longrightarrow>
     yields m s (\<lambda>a s'. \<exists>L' r' w'. Q a L' r' w' \<and> mview s0 P L' r' w' s'))"

lemma mviewD:
  assumes "mview s0 P L r w s"
  shows "npages s = npages s0" "npages s0 \<le> 65536" "kern_pgdir s = kern_pgdir s0" "pgfl.represents s L"
    "p \<in> P \<Longrightarrow> p < npages s0" "p \<in> set L \<Longrightarrow> p \<in> P"
    "p \<in> P \<Longrightarrow> p \<notin> set L \<Longrightarrow> pp_link (pages s p) = None" "p \<in> P \<Longrightarrow> pp_ref (pages s p) = r p"
    "i < 1024 \<Longrightarrow> fword s f i = w f i"
proof -
  have "s\<lparr>pages := pages s0, page_free_list := page_free_list s0, pmem := pmem s0, invlpgs := invlpgs s0\<rparr> = s0"
    using assms by (simp add: mview_def)
  from arg_cong [OF this, of npages] arg_cong [OF this, of kern_pgdir]
  show "npages s = npages s0" "kern_pgdir s = kern_pgdir s0" by simp_all
qed (use assms in \<open>auto simp: mview_def\<close>)

lemma mruns_intro:
  assumes "\<And>s. mview s0 P L r w s \<Longrightarrow> \<exists>s'. m s = Ret a s' \<and> mview s0 P L' r' w' s'" "Q a L' r' w'"
  shows "mruns s0 P L r w m Q"
  unfolding mruns_def
proof (intro allI impI)
  fix s assume "mview s0 P L r w s"
  from assms(1) [OF this] assms(2) show "yields m s (\<lambda>a s'. \<exists>L' r' w'. Q a L' r' w' \<and> mview s0 P L' r' w' s')"
    by (auto simp: yields_def intro!: exI)
qed

lemma mruns_mono:
  assumes "mruns s0 P L r w m Q" "\<And>a L' r' w'. Q a L' r' w' \<Longrightarrow> Q' a L' r' w'"
  shows "mruns s0 P L r w m Q'"
  using assms unfolding mruns_def by (blast intro: yields_mono)

named_theorems mr \<open>rules for runs on a few pages\<close>

lemma mruns_bind [mr]:
  assumes "mruns s0 P L r w m (\<lambda>a L r w. mruns s0 P L r w (f a) Q)"
  shows "mruns s0 P L r w (kbind m f) Q"
  unfolding mruns_def
proof (intro allI impI)
  fix s assume "mview s0 P L r w s"
  with assms have "yields m s (\<lambda>a s'. \<exists>L' r' w'. mruns s0 P L' r' w' (f a) Q \<and> mview s0 P L' r' w' s')"
    by (auto simp: mruns_def)
  then show "yields (kbind m f) s (\<lambda>a s'. \<exists>L' r' w'. Q a L' r' w' \<and> mview s0 P L' r' w' s')"
    unfolding yields_kbind by (rule yields_mono) (auto simp: mruns_def)
qed

lemma mruns_return [mr]: "Q a L r w \<Longrightarrow> mruns s0 P L r w (kreturn a) Q"
  and mruns_assert [mr]: "b \<Longrightarrow> Q' () L r w \<Longrightarrow> mruns s0 P L r w (kassert b) Q'"
  and mruns_pgdir [mr]: "Q'' (kern_pgdir s0) L r w \<Longrightarrow> mruns s0 P L r w (kget kern_pgdir) Q''"
  by (auto simp: mruns_def mviewD)

lemma mruns_load [mr]:
  "t < 65536 \<Longrightarrow> unat x < 1024 \<Longrightarrow> Q (w t (unat x)) L r w \<Longrightarrow> mruns s0 P L r w (kget (kload (frame_kva t + 4 * x))) Q"
  by (rule mruns_intro [of _ _ _ _ _ _ "w t (unat x)" L r w]) (auto simp: mviewD)

lemma mruns_ref [mr]: "p \<in> P \<Longrightarrow> Q (r p = n) L r w \<Longrightarrow> mruns s0 P L r w (kget (\<lambda>s. pp_ref (pages s p) = n)) Q"
  by (rule mruns_intro [of _ _ _ _ _ _ "r p = n" L r w]) (auto simp: mviewD)

definition wput :: "nat \<Rightarrow> nat \<Rightarrow> u32 \<Rightarrow> (nat \<Rightarrow> nat \<Rightarrow> u32) \<Rightarrow> nat \<Rightarrow> nat \<Rightarrow> u32" where
  "wput t j x w f i = (if f = t \<and> i = j then x else w f i)"

definition wfill :: "nat \<Rightarrow> u32 \<Rightarrow> (nat \<Rightarrow> nat \<Rightarrow> u32) \<Rightarrow> nat \<Rightarrow> nat \<Rightarrow> u32" where
  "wfill p x w f i = (if f = p then x else w f i)"

lemma mview_pmem:
  assumes "mview s0 P L r w s" "\<And>f i. i < 1024 \<Longrightarrow> fword (s\<lparr>pmem := m\<rparr>) f i = w' f i"
  shows "mview s0 P L r w' (s\<lparr>pmem := m\<rparr>)"
  using assms by (simp add: mview_def pgfl.represents_def)

lemma mview_fset:
  assumes s: "mview s0 P L r w s" and "i < 1024"
  shows "mview s0 P L r (wput f i x w) (fset f i x s)"
  using mview_pmem [OF s, of "pmem (fset f i x s)" "wput f i x w"] assms(2)
  by (simp add: fset_def fword_fset [unfolded fset_def] wput_def mviewD(9) [OF s])

lemma mruns_store [mr]:
  assumes "t < 65536" "unat x < 1024" "Q () L r (wput t (unat x) v w)"
  shows "mruns s0 P L r w (kmodify (kstore (frame_kva t + 4 * x) v)) Q"
  by (rule mruns_intro [where Q = Q, OF _ assms(3)]) (simp add: assms(1,2) mview_fset)

lemma mview_link:
  assumes s: "mview s0 P L r w s" and p: "p \<in> P"
    and s': "s' = s\<lparr>page_free_list := h, pages := (pages s)(p := x)\<rparr>"
    and L': "pgfl.represents s' L'" "set L' \<subseteq> P" "\<forall>q \<in> P. q \<notin> set L' \<longrightarrow> pp_link (pages s' q) = None"
    and r': "r' = r(p := pp_ref x)"
  shows "mview s0 P L' r' w s'"
proof -
  have "s'\<lparr>pages := pages s0, page_free_list := page_free_list s0, pmem := pmem s0, invlpgs := invlpgs s0\<rparr> = s0"
    using s by (simp add: mview_def s')
  moreover have "fword s' f i = fword s f i" for f i by (simp add: s' fword_def)
  moreover have "pages s' q = (if q = p then x else pages s q)" for q by (simp add: s')
  ultimately show ?thesis using s p L' r' unfolding mview_def by simp
qed

lemma mview_pop: "mview s0 P (p # L) r w s \<Longrightarrow> page_free_list s = Some p \<and> mview s0 P L r w (page_pop s)"
proof -
  assume s: "mview s0 P (p # L) r w s"
  have h: "page_free_list s = Some p" using pgfl.represents_head [OF mviewD(4) [OF s]] .
  have p: "p \<in> P" "p \<notin> set L" using s mviewD(6) [OF s, of p] by (auto simp: mview_def pgfl.represents_def)
  have "mview s0 P L r w (page_pop s)"
    by (rule mview_link [OF s p(1), where h = "pp_link (pages s p)" and x = "(pages s p)\<lparr>pp_link := None\<rparr>"])
      (use s h p pgfl.represents_pop [OF mviewD(4) [OF s]] mviewD(8) [OF s p(1)] in
        \<open>auto simp: page_pop_def mview_def\<close>)
  with h show ?thesis by simp
qed

lemma mview_push:
  assumes s: "mview s0 P L r w s" and p: "p \<in> P" "p \<notin> set L"
  shows "mview s0 P (p # L) r w (page_push p s)"
  by (rule mview_link [OF s p(1), where h = "Some p" and x = "(pages s p)\<lparr>pp_link := page_free_list s\<rparr>"])
    (use s p pgfl.represents_push [OF mviewD(4) [OF s] p(2)] mviewD(8) [OF s p(1)] in
      \<open>auto simp: page_push_def mview_def\<close>)

lemma mruns_alloc [mr]: "Q (Some p) L r w \<Longrightarrow> mruns s0 P (p # L) r w (page_alloc 0) Q"
  by (rule mruns_intro [of _ _ _ _ _ _ "Some p" L r w]) (auto dest!: mview_pop simp: page_alloc_def page_pop_def Let_def)

lemma mruns_alloc_none [mr]: "Q None [] r w \<Longrightarrow> mruns s0 P [] r w (page_alloc fl) Q"
  by (rule mruns_intro [of _ _ _ _ _ _ None "[]" r w]) (metis mviewD(4) page_alloc_none pgfl.represents_empty)

lemma mruns_alloc_zero [mr]:
  assumes "Q (Some p) L r (wfill p 0 w)"
  shows "mruns s0 P (p # L) r w (page_alloc ALLOC_ZERO) Q"
proof (rule mruns_intro [where Q = Q, OF _ assms])
  fix s assume s: "mview s0 P (p # L) r w s"
  note h = mview_pop [OF s]
  have p: "p < npages s0" "npages s0 \<le> 65536" using mviewD(2,5,6) [OF s] by auto
  have "mview s0 P L r (wfill p 0 w) (page_zero p (page_pop s))"
    unfolding page_zero_def
    by (rule mview_pmem [OF conjunct2 [OF h]])
      (use fword_page_zero [of _ p "page_pop s"] in \<open>simp add: page_zero_def wfill_def mviewD(9) [OF s]\<close>)
  moreover have "page_alloc ALLOC_ZERO s = Ret (Some p) (page_zero p (page_pop s))"
    using p h by (simp add: page_alloc_def page_pop_def Let_def ALLOC_ZERO_def page2kva_def
        KADDR_page2pa kmemset_def page_zero_def unat_page2pa mviewD(1) [OF s])
  ultimately show "\<exists>s'. page_alloc ALLOC_ZERO s = Ret (Some p) s' \<and> mview s0 P L r (wfill p 0 w) s'" by blast
qed

lemma mruns_free [mr]:
  assumes "p \<in> P" "p \<notin> set L" "r p = 0" "Q () (p # L) r w"
  shows "mruns s0 P L r w (page_free p) Q"
  by (rule mruns_intro [where Q = Q, OF _ assms(4)])
    (auto simp: page_free_push mviewD assms intro!: mview_push)

lemma set_ref_represents: "pgfl.represents (set_ref p n s) L = pgfl.represents s L"
  by (simp add: pgfl.represents_def)

lemma mruns_set_ref [mr]:
  assumes "p \<in> P" "Q () L (r(p := n)) w"
  shows "mruns s0 P L r w (kmodify (set_ref p n)) Q"
proof (rule mruns_intro [where Q = Q, OF _ assms(2)])
  fix s assume s: "mview s0 P L r w s"
  have "mview s0 P L (r(p := n)) w (set_ref p n s)"
    by (rule mview_link [OF s assms(1), where h = "page_free_list s" and x = "(pages s p)\<lparr>pp_ref := n\<rparr>"])
      (use s set_ref_represents [of p n s L] in \<open>auto simp: set_ref_def mview_def\<close>)
  then show "\<exists>s'. kmodify (set_ref p n) s = Ret () s' \<and> mview s0 P L (r(p := n)) w s'" by simp
qed

lemma mruns_get_ref [mr]: "p \<in> P \<Longrightarrow> Q (r p) L r w \<Longrightarrow> mruns s0 P L r w (kget (\<lambda>s. pp_ref (pages s p))) Q"
  by (rule mruns_intro [of _ _ _ _ _ _ "r p" L r w]) (auto simp: mviewD)

lemma mruns_change_ref:
  assumes "p \<in> P" "Q () L (r(p := f (r p))) w"
  shows "mruns s0 P L r w (kmodify (\<lambda>s. set_ref p (f (pp_ref (pages s p))) s)) Q"
  using mruns_set_ref [of p P Q L r "f (r p)" w s0] assms
  by (auto simp: mruns_def mviewD)

lemma mruns_incref [mr]: "p \<in> P \<Longrightarrow> Q () L (r(p := r p + 1)) w \<Longrightarrow> mruns s0 P L r w (page_incref p) Q"
  unfolding page_incref_def by (rule mruns_change_ref)

lemma mruns_decref [mr]:
  assumes "p \<in> P" "p \<notin> set L" "Q () (if r p = 1 then p # L else L) (r(p := r p - 1)) w"
  shows "mruns s0 P L r w (page_decref p) Q"
  unfolding page_decref_def
  by (rule mruns_bind, rule mruns_change_ref, rule assms(1), rule mruns_bind, rule mruns_get_ref, rule assms(1))
    (use assms in \<open>auto intro!: mr split: if_splits\<close>)

lemma mruns_tlb [mr]:
  assumes "Q () L r w"
  shows "mruns s0 P L r w (tlb_invalidate pd va) Q"
  by (rule mruns_intro [where Q = Q, OF _ assms])
    (auto simp: tlb_flush_def mview_def pgfl.represents_def fword_def)

lemma mruns_KADDR [mr]:
  "p < npages s0 \<Longrightarrow> npages s0 \<le> 65536 \<Longrightarrow> Q (frame_kva p) L r w \<Longrightarrow> mruns s0 P L r w (KADDR (page2pa p)) Q"
  by (rule mruns_intro [of _ _ _ _ _ _ "frame_kva p" L r w]) (auto simp: mviewD KADDR_page2pa frame_kva_def)

lemma mruns_page2kva [mr]:
  "p < npages s0 \<Longrightarrow> npages s0 \<le> 65536 \<Longrightarrow> Q (frame_kva p) L r w \<Longrightarrow> mruns s0 P L r w (page2kva p) Q"
  unfolding page2kva_def by (rule mruns_KADDR)

lemma mruns_pa2page [mr]:
  "p < npages s0 \<Longrightarrow> npages s0 \<le> 65536 \<Longrightarrow> Q p L r w \<Longrightarrow> mruns s0 P L r w (pa2page (page2pa p)) Q"
  using PGNUM_page2pa [of p] by (intro mruns_intro [of _ _ _ _ _ _ p L r w]) (simp_all add: mviewD(1) pa2page_def)

definition repeated :: "u8 \<Rightarrow> u32" where
  "repeated c = load32 (\<lambda>_. c) 0"

lemma mruns_memset [mr]:
  assumes "p < 65536" "Q () L r (wfill p (repeated c) w)"
  shows "mruns s0 P L r w (kmodify (kmemset (frame_kva p) c PGSIZE)) Q"
proof (rule mruns_intro [where Q = Q, OF _ assms(2)])
  fix s assume s: "mview s0 P L r w s"
  have "load32 (memset (p * 4096) c 4096 m) (p * 4096 + 4 * i) = repeated c" if "i < 1024" for i m
    using that by (simp add: repeated_def load32_def)
  moreover have "load32 (memset (p * 4096) c 4096 m) (f * 4096 + 4 * i) = load32 m (f * 4096 + 4 * i)"
    if "i < 1024" "f \<noteq> p" for i f m using that by (cases "f < p") auto
  ultimately have "mview s0 P L r (wfill p (repeated c) w) (s\<lparr>pmem := memset (p * 4096) c 4096 (pmem s)\<rparr>)"
    by (intro mview_pmem [OF s]) (use mviewD(9) [OF s] in \<open>auto simp: fword_def wfill_def\<close>)
  then show "\<exists>s'. kmodify (kmemset (frame_kva p) c PGSIZE) s = Ret () s' \<and> mview s0 P L r (wfill p (repeated c) w) s'"
    using assms(1) by (simp add: kmemset_frame_kva PGSIZE_def)
qed

section \<open>Page tables in a run\<close>

text \<open>
  The directory in frame \<open>d\<close> is none of the pages \<open>P\<close>. The rules distinguish the cases of the
  code by the entries \<open>w\<close> has, and name the frame of an entry by \<open>fnum\<close>.
\<close>

definition kdir :: "kstate \<Rightarrow> nat set \<Rightarrow> nat \<Rightarrow> bool" where
  "kdir s0 P d \<longleftrightarrow> kern_pgdir s0 = frame_kva d \<and> d < npages s0 \<and> npages s0 \<le> 65536
     \<and> d \<notin> P \<and> (\<forall>p \<in> P. p < npages s0)"

lemma kdirD:
  assumes "kdir s0 P d"
  shows "kern_pgdir s0 = frame_kva d" "d < npages s0" "npages s0 \<le> 65536" "d < 65536" "d \<notin> P"
    "p \<in> P \<Longrightarrow> p < npages s0" "p \<in> P \<Longrightarrow> p < 65536" "p \<in> P \<Longrightarrow> p \<noteq> d"
  using assms by (auto simp: kdir_def)

lemma entry_and: "x < 4096 \<Longrightarrow> y < 4096 \<Longrightarrow> (page2pa t OR x) AND y = x AND y"
proof -
  assume x: "x < 4096" and y: "y < 4096"
  have "y AND 0xFFF = y" using low12 [OF y] by (simp add: mask12_32 take_bit_eq_mask)
  moreover have "(page2pa t OR x) AND (y AND 0xFFF) = ((page2pa t OR x) AND 0xFFF) AND y"
    by (simp only: and.assoc and.commute [of y "0xFFF"])
  ultimately show ?thesis by (simp only: entry_flags [OF x])
qed

lemma page_entry_nonzero: "x \<noteq> 0 \<Longrightarrow> page2pa t OR x \<noteq> 0"
  by (simp add: or_eq_0_iff)

lemma mruns_walk:
  assumes k: "kdir s0 P d"
    and present: "w d (unat (PDX va)) \<noteq> 0 \<Longrightarrow> fnum (w d (unat (PDX va))) < npages s0
      \<and> Q (frame_kva (fnum (w d (unat (PDX va)))) + 4 * PTX va) L r w"
    and absent: "w d (unat (PDX va)) = 0 \<Longrightarrow> (create \<longrightarrow> L = []) \<and> Q 0 L r w"
  shows "mruns s0 P L r w (pgdir_walk (frame_kva d) va create) Q"
proof (cases "w d (unat (PDX va)) = 0")
  case True
  then show ?thesis
    unfolding pgdir_walk_def Let_def using absent kdirD(1-4) [OF k] by (cases create) (auto intro!: mr)
next
  case False
  then show ?thesis
    unfolding pgdir_walk_def Let_def using present kdirD(1-4) [OF k] by (auto intro!: mr simp: PTE_ADDR_frame)
qed

lemma mruns_walk_create:
  assumes k: "kdir s0 P d" and "w d (unat (PDX va)) = 0" "p \<in> P"
    and Q: "Q (frame_kva p + 4 * PTX va) L (r(p := r p + 1)) (wput d (unat (PDX va)) (page2pa p OR 7) (wfill p 0 w))"
  shows "mruns s0 P (p # L) r w (pgdir_walk (frame_kva d) va True) Q"
proof -
  have "page2pa p OR 7 \<noteq> 0" "p < 1048576" using kdirD(7) [OF k assms(3)] page_entry_nonzero by simp_all
  then show ?thesis
    unfolding pgdir_walk_def Let_def table_flags using assms kdirD [OF k]
    by (auto intro!: mr simp: wput_def wfill_def PTE_ADDR_frame fnum_entry)
qed

lemma mruns_lookup:
  assumes k: "kdir s0 P d"
    and absent: "w d (unat (PDX va)) = 0 \<Longrightarrow> Q None L r w"
    and present: "w d (unat (PDX va)) \<noteq> 0 \<Longrightarrow> (let t = fnum (w d (unat (PDX va))); q = fnum (w t (unat (PTX va)))
       in t < npages s0 \<and> q < npages s0 \<and> Q (Some (q, frame_kva t + 4 * PTX va)) L r w)"
  shows "mruns s0 P L r w (page_lookup (frame_kva d) va) Q"
  unfolding page_lookup_def using assms kdirD(1-4) [OF k] frame_kva_nonzero [of _ "PTX va"]
  by (auto intro!: mr mruns_walk simp: PTE_ADDR_frame Let_def)

lemma mruns_remove:
  assumes k: "kdir s0 P d"
    and absent: "w d (unat (PDX va)) = 0 \<Longrightarrow> Q () L r w"
    and present: "w d (unat (PDX va)) \<noteq> 0 \<Longrightarrow> (let t = fnum (w d (unat (PDX va))); q = fnum (w t (unat (PTX va)))
       in t < npages s0 \<and> q \<in> P \<and> q \<notin> set L
        \<and> Q () (if r q = 1 then q # L else L) (r(q := r q - 1)) (wput t (unat (PTX va)) 0 w))"
  shows "mruns s0 P L r w (page_remove (frame_kva d) va) Q"
  unfolding page_remove_def using assms kdirD(1-4,6) [OF k]
  by (auto intro!: mr mruns_lookup simp: Let_def)

lemma mruns_insert:
  assumes k: "kdir s0 P d" and pp: "pp \<in> P"
    and none: "w d (unat (PDX va)) = 0 \<Longrightarrow> L = [] \<Longrightarrow> Q (- E_NO_MEM) [] r w"
    and create: "\<And>p L'. w d (unat (PDX va)) = 0 \<Longrightarrow> L = p # L' \<Longrightarrow> p \<in> P
      \<and> Q 0 L' ((r(p := r p + 1))(pp := (r(p := r p + 1)) pp + 1)) (wput p (unat (PTX va)) (page2pa pp OR perm OR PTE_P)
          (wput d (unat (PDX va)) (page2pa p OR 7) (wfill p 0 w)))"
    and present: "w d (unat (PDX va)) \<noteq> 0 \<Longrightarrow>
      (let t = fnum (w d (unat (PDX va))); old = w t (unat (PTX va)); q = fnum old; r1 = r(pp := r pp + 1);
           new = page2pa pp OR perm OR PTE_P
       in t < npages s0 \<and> (if old = 0 then Q 0 L r1 (wput t (unat (PTX va)) new w)
         else q \<in> P \<and> q \<notin> set L \<and> Q 0 (if r1 q = 1 then q # L else L) (r1(q := r1 q - 1))
           (wput t (unat (PTX va)) new (wput t (unat (PTX va)) 0 w))))"
  shows "mruns s0 P L r w (page_insert (frame_kva d) pp va perm) Q"
proof (cases "w d (unat (PDX va)) = 0")
  case True
  show ?thesis
  proof (cases L)
    case Nil
    then show ?thesis
      unfolding page_insert_def using True none [OF True] k by (auto intro!: mr mruns_walk)
  next
    case (Cons p L')
    then have p: "p \<in> P" "p < 65536" "fnum (page2pa p OR 7) = p" using create [OF True Cons] kdirD(7) [OF k, of p] by (auto simp: fnum_entry)
    then show ?thesis
      unfolding page_insert_def using True Cons create [OF True Cons] k pp kdirD(1-8) [OF k] frame_kva_nonzero [of p "PTX va"]
      by (auto intro!: mr mruns_walk_create simp: wput_def wfill_def)
  qed
next
  case False
  have "PTE_P \<noteq> (0 :: u32)" by (simp add: PTE_P_def)
  then show ?thesis
    unfolding page_insert_def
    using present [OF False] pp k False kdirD(1-6) [OF k] frame_kva_nonzero [of "fnum (w d (unat (PDX va)))" "PTX va"]
    by (auto intro!: mr mruns_walk mruns_remove simp: Let_def split: if_splits)
qed

lemma mruns_va:
  assumes k: "kdir s0 P d"
    and Q: "let e = w d (unat (PDX va)); t = fnum e; pte = w t (unat (PTX va))
      in if e AND PTE_P = 0 then Q (NOT 0) L r w
         else e AND PTE_PS = 0 \<and> t < npages s0 \<and> Q (if pte AND PTE_P = 0 then NOT 0 else page2pa (fnum pte)) L r w"
  shows "mruns s0 P L r w (check_va2pa (frame_kva d) va) Q"
  unfolding check_va2pa_def using assms kdirD(1-4) [OF k]
  by (auto intro!: mr simp: PTE_ADDR_frame Let_def split: if_splits)

section \<open>Taking the free list away and giving it back\<close>

lemma alloc_three_yields:
  assumes inv: "pages_inv s (p0 # p1 # p2 # fl)"
  shows "yields alloc_three s (\<lambda>t s'. t = (p0, p1, p2) \<and> s' = page_pop (page_pop (page_pop s)))"
proof -
  note inv1 = pages_inv_pop [OF inv] note inv2 = pages_inv_pop [OF inv1]
  have "distinct [p0, p1, p2]" using pages_invD(3) [OF inv] by auto
  moreover have "yields (must_alloc 0) s Q = Q p0 (page_pop s)"
      "yields (must_alloc 0) (page_pop s) Q = Q p1 (page_pop (page_pop s))"
      "yields (must_alloc 0) (page_pop (page_pop s)) Q = Q p2 (page_pop (page_pop (page_pop s)))" for Q
    using page_alloc_plain [OF inv] page_alloc_plain [OF inv1] page_alloc_plain [OF inv2]
    by (simp_all add: must_alloc_def yields_Ret [where m = "page_alloc 0"])
  ultimately show ?thesis by (auto simp: alloc_three_def)
qed

text \<open>The state \<open>s0\<close> with the list taken away, and the three pages in hand.\<close>

definition stolen :: "kstate \<Rightarrow> kstate" where
  "stolen s = page_pop (page_pop (page_pop s))\<lparr>page_free_list := None\<rparr>"

lemma pages_page_pop: "page_free_list s = Some p \<Longrightarrow> pages (page_pop s) q = (if q = p then (pages s p)\<lparr>pp_link := None\<rparr> else pages s q)"
  by (simp add: page_pop_def)

lemma stolen_view:
  assumes inv: "pages_inv s (p0 # p1 # p2 # fl)"
  defines "P \<equiv> {p0, p1, p2}" and "h \<equiv> page_free_list (page_pop (page_pop (page_pop s)))"
  shows "mview (stolen s) P [] (\<lambda>p. pp_ref (pages s p)) (fword s) (stolen s)"
    and "pages_inv (stolen s\<lparr>page_free_list := h\<rparr>) fl"
    and "(stolen s)\<lparr>pages := pages s, page_free_list := page_free_list s, pmem := pmem s, invlpgs := invlpgs s\<rparr> = s"
    and "\<And>p. pp_ref (pages (stolen s) p) = pp_ref (pages s p)"
proof -
  note inv1 = pages_inv_pop [OF inv] note inv2 = pages_inv_pop [OF inv1] note inv3 = pages_inv_pop [OF inv2]
  have st: "stolen s\<lparr>page_free_list := h\<rparr> = page_pop (page_pop (page_pop s))" by (simp add: stolen_def h_def)
  show "pages_inv (stolen s\<lparr>page_free_list := h\<rparr>) fl" unfolding st by (rule inv3)
  have d: "distinct (p0 # p1 # p2 # fl)" using pages_invD(3) [OF inv] .
  have l: "pp_link (pages (stolen s) p) = None" if "p \<in> P" for p
    using pages_invD(6) [OF inv3, of p] that d by (auto simp: P_def stolen_def)
  show r: "pp_ref (pages (stolen s) p) = pp_ref (pages s p)" for p by (simp add: stolen_def)
  have n: "npages (stolen s) = npages s" "fword (stolen s) f i = fword s f i" for f i
    by (simp_all add: stolen_def fword_def)
  show "mview (stolen s) P [] (\<lambda>p. pp_ref (pages s p)) (fword s) (stolen s)"
    using l r n pages_invD(2,4) [OF inv]
    by (auto simp: mview_def pgfl.represents_empty P_def) (simp add: stolen_def)
  have h: "page_free_list s = Some p0" "page_free_list (page_pop s) = Some p1" "page_free_list (page_pop (page_pop s)) = Some p2"
    using pgfl.represents_head pages_invD(1) inv inv1 inv2 by blast+
  show "(stolen s)\<lparr>pages := pages s, page_free_list := page_free_list s, pmem := pmem s, invlpgs := invlpgs s\<rparr> = s"
    using h by (simp add: stolen_def page_pop_def)
qed

lemma give_back_yields:
  assumes inv: "pages_inv (s0\<lparr>page_free_list := h\<rparr>) fl" and P: "P = {q0, q1, q2}" "distinct [q0, q1, q2]" "P \<inter> set fl = {}"
    and t: "mview s0 P [] r w t" and r: "\<forall>q \<in> P. r q = 0"
  shows "yields (give_back h q0 q1 q2) t (\<lambda>_ t'. pages_inv t' (q2 # q1 # q0 # fl)
    \<and> t' = page_push q2 (page_push q1 (page_push q0 (t\<lparr>page_free_list := h\<rparr>))))"
proof -
  let ?t = "t\<lparr>page_free_list := h\<rparr>"
  have lk: "pp_link (pages ?t p) = (if p \<in> P then None else pp_link (pages s0 p))" for p
    using t by (auto simp: mview_def)
  have "links ?t p = links (s0\<lparr>page_free_list := h\<rparr>) p" if "p \<in> set fl" for p
    using that lk [of p] P(3) by (auto simp: links_def)
  then have c: "chain (links ?t) h fl"
    using pages_inv_chain [OF inv] by (subst chain_cong [where lk' = "links (s0\<lparr>page_free_list := h\<rparr>)"]) auto
  have "pp_ref (pages ?t p) = 0 \<and> p < npages ?t" if "p \<in> set fl" for p
    using that P(3) t pages_invD(4,5) [OF inv that] mviewD(1) [OF t] by (auto simp: mview_def)
  moreover have "pp_link (pages ?t p) = None" if "p \<notin> set fl" for p
    using pages_invD(6) [OF inv, of p] that lk [of p] by auto
  ultimately have inv0: "pages_inv ?t fl"
    using c pages_invD(2,3) [OF inv] mviewD(1) [OF t] by (simp add: pages_inv_def pgfl.unlinked_def pgfl.represents_def links_def)
  have q: "pp_ref (pages t q) = 0" "q < npages t" "pp_link (pages t q) = None" "q \<notin> set fl" if "q \<in> P" for q
    using that r t P(3) mviewD(1,5,7,8) [OF t] by auto
  note Q = q [of q0] q [of q1] q [of q2]
  let ?u = "page_push q0 ?t" let ?v = "page_push q1 ?u"
  have inv1: "pages_inv ?u (q0 # fl)" using Q P by (intro pages_inv_push [OF inv0]) auto
  have inv2: "pages_inv ?v (q1 # q0 # fl)" using Q P by (intro pages_inv_push [OF inv1]) auto
  have inv3: "pages_inv (page_push q2 ?v) (q2 # q1 # q0 # fl)" using Q P by (intro pages_inv_push [OF inv2]) auto
  have f: "page_free q0 ?t = Ret () ?u" "page_free q1 ?u = Ret () ?v" "page_free q2 ?v = Ret () (page_push q2 ?v)"
    using Q P(1,2) by (simp_all add: page_free_push) (simp_all add: page_push_def page_free_def)
  show ?thesis
    using inv3 by (simp add: give_back_def free_three_def yields_def f)
qed

section \<open>The page allocator passes its test\<close>

lemma pushed_byte_zero: "push_bit k (ucast (x :: u8) :: u32) = 0 \<Longrightarrow> k \<le> 24 \<Longrightarrow> x = 0"
proof (rule bit_word_eqI)
  fix n assume a: "push_bit k (ucast x :: u32) = 0" "k \<le> 24" "n < LENGTH(8)"
  have "bit x n = bit (push_bit k (ucast x :: u32)) (k + n)" using a(2,3) by (simp add: bit_simps)
  also have "\<dots> = bit (0 :: u8) n" unfolding a(1) by simp
  finally show "bit x n = bit (0 :: u8) n" .
qed

lemma load32_zero_byte:
  assumes "load32 m a = 0" "j < 4"
  shows "m (a + j) = 0"
proof -
  have "push_bit 0 (ucast (m a) :: u32) = 0" "push_bit 8 (ucast (m (a + 1)) :: u32) = 0"
    "push_bit 16 (ucast (m (a + 2)) :: u32) = 0" "push_bit 24 (ucast (m (a + 3)) :: u32) = 0"
    using assms(1) by (simp_all add: load32_def or_eq_0_iff)
  from this [THEN pushed_byte_zero] have "m a = 0" "m (a + 1) = 0" "m (a + 2) = 0" "m (a + 3) = 0" by simp_all
  moreover have "j = 0 \<or> j = 1 \<or> j = 2 \<or> j = 3" using assms(2) by auto
  ultimately show ?thesis by auto
qed

lemma all_zero_mruns: "(\<forall>i < 1024. w p i = 0) \<Longrightarrow> p < npages s0 \<Longrightarrow> npages s0 \<le> 65536 \<Longrightarrow> Q () L r w \<Longrightarrow>
    mruns s0 P L r w (all_zero p) Q"
proof -
  assume w: "\<forall>i < 1024. w p i = 0" and p: "p < npages s0" "npages s0 \<le> 65536" and Q: "Q () L r w"
  have z: "pmem s (kphys (frame_kva p) + i) = 0" if s: "mview s0 P L r w s" and i: "i < 4096" for s i
  proof -
    have "load32 (pmem s) (p * 4096 + 4 * (i div 4)) = 0" using mviewD(9) [OF s, of "i div 4" p] w i by (simp add: fword_def)
    then have "pmem s (p * 4096 + 4 * (i div 4) + j) = 0" if "j < 4" for j using that load32_zero_byte by blast
    from this [of "i mod 4"] show ?thesis using p by (simp add: kphys_frame_kva add.assoc)
  qed
  show "mruns s0 P L r w (all_zero p) Q"
    unfolding all_zero_def using p Q
    by (intro mr) (auto intro!: mruns_intro [of _ _ _ _ _ _ True L r w] mr simp: z list_all_iff)
qed

lemma mruns_must_alloc [mr]: "Q p L r w \<Longrightarrow> mruns s0 P (p # L) r w (must_alloc 0) Q"
  and mruns_must_alloc_zero [mr]: "Q p L r (wfill p 0 w) \<Longrightarrow> mruns s0 P (p # L) r w (must_alloc ALLOC_ZERO) Q"
  and mruns_no_page [mr]: "Q' () [] r w \<Longrightarrow> mruns s0 P [] r w no_page_left Q'"
  unfolding must_alloc_def no_page_left_def by (auto intro!: mr)

lemma mruns_alloc_three [mr]:
  "distinct [p0, p1, p2] \<Longrightarrow> Q (p0, p1, p2) L r w \<Longrightarrow> mruns s0 P (p0 # p1 # p2 # L) r w alloc_three Q"
  unfolding alloc_three_def by (intro mr) auto

lemma mruns_free_three [mr]:
  assumes "p0 \<in> P" "p1 \<in> P" "p2 \<in> P" "distinct [p0, p1, p2]" "r p0 = 0" "r p1 = 0" "r p2 = 0"
    and "Q () [p2, p1, p0] r w"
  shows "mruns s0 P [] r w (free_three p0 p1 p2) Q"
  unfolding free_three_def by (intro mr) (use assms in auto)

lemma realloc_three_mruns:
  assumes k: "p2 < npages s0" "npages s0 \<le> 65536" and "distinct [p0, p1, p2]" "\<forall>p \<in> {p0, p1, p2}. r p = 0"
  shows "mruns s0 {p0, p1, p2} [] r w (realloc_three p0 p1 p2)
    (\<lambda>t L' r' w'. t = (p2, p1, p0) \<and> L' = [] \<and> r' = r \<and> w' = wfill p2 0 (wfill p2 (repeated 1) w))"
proof -
  have p: "p2 < 65536" using k by simp
  show ?thesis
    unfolding realloc_three_def
    by (rule mr all_zero_mruns | use assms p in \<open>simp add: wfill_def; fail\<close> | simp only: prod.case)+
qed

lemma tested_three:
  assumes inv: "pages_inv s (p0 # p1 # p2 # fl)" and t: "mview (stolen s) {p0, p1, p2} [] r w t"
    and r: "\<forall>p \<in> {p0, p1, p2}. r p = 0" and w: "\<And>f i. f \<notin> {p0, p1, p2} \<Longrightarrow> i < 1024 \<Longrightarrow> w f i = fword s f i"
  shows "tested s (page_push a (page_push b (page_push c (t\<lparr>page_free_list := h\<rparr>)))) (p0 # p1 # p2 # fl)"
    (is "tested s ?u ?fl")
proof -
  note S = stolen_view [OF inv]
  have "t\<lparr>pages := pages (stolen s), page_free_list := page_free_list (stolen s), pmem := pmem (stolen s), invlpgs := invlpgs (stolen s)\<rparr> = stolen s"
    using t by (simp add: mview_def)
  from arg_cong [OF this, of "\<lambda>u. u\<lparr>pages := pages s, page_free_list := page_free_list s, pmem := pmem s, invlpgs := invlpgs s\<rparr>"] S(3)
  have e: "t\<lparr>pages := pages s, page_free_list := page_free_list s, pmem := pmem s, invlpgs := invlpgs s\<rparr> = s" by simp
  have "pp_ref (pages t p) = pp_ref (pages s p)" for p
    using t r S(4) [of p] pages_invD(5) [OF inv, of p] by (cases "p \<in> {p0, p1, p2}") (auto simp: mview_def)
  moreover have "fword t f i = fword s f i" if "f \<notin> set ?fl" "i < 1024" for f i
    using mviewD(9) [OF t that(2), of f] w [of f i] that by simp
  ultimately show ?thesis
    using e by (simp add: tested_def) (simp add: page_push_def fword_def)
qed

lemma check_page_alloc_yields:
  assumes inv: "pages_inv s fl" and n: "3 \<le> length fl"
  shows "yields check_page_alloc s (\<lambda>_ s'. pages_inv s' fl \<and> tested s s' fl)"
proof -
  obtain p0 p1 p2 fl' where fl: "fl = p0 # p1 # p2 # fl'"
    using n by (auto simp: Suc_le_length_iff numeral_3_eq_3)
  note inv' = inv [unfolded fl]
  note S = stolen_view [OF inv']
  have d: "distinct [p0, p1, p2]" "{p0, p1, p2} \<inter> set fl' = {}" using pages_invD(3) [OF inv'] by auto
  let ?h = "page_free_list (page_pop (page_pop (page_pop s)))"
  have b: "p0 < npages s" "p1 < npages s" "p2 < npages s" "npages s \<le> 65536" using pages_invD(2,4) [OF inv'] by auto
  then have "unat (of_nat (npages s) * PGSIZE) = npages s * 4096" by (simp add: unat_word_ariths unat_of_nat PGSIZE_def)
  then have mem: "page2pa p < of_nat (npages s) * PGSIZE" if "p < npages s" for p
    using that b(4) by (simp add: word_less_nat_alt unat_page2pa)
  have refs: "\<forall>p \<in> {p0, p1, p2}. pp_ref (pages s p) = 0" using pages_invD(5) [OF inv'] by auto
  have "npages (stolen s) = npages s" by (simp add: stolen_def)
  with realloc_three_mruns [of p2 "stolen s" p0 p1 "\<lambda>p. pp_ref (pages s p)" "fword s"] b d(1) refs S(1)
  have mid: "yields (realloc_three p0 p1 p2) (stolen s) (\<lambda>t u. t = (p2, p1, p0)
      \<and> mview (stolen s) {p0, p1, p2} [] (\<lambda>p. pp_ref (pages s p)) (wfill p2 0 (wfill p2 (repeated 1) (fword s))) u)"
    by (auto simp: mruns_def elim!: yields_mono)
  have fin: "yields (give_back ?h p2 p1 p0) u (\<lambda>_ t. yields count_free t (\<lambda>n t'. n = length fl \<and> pages_inv t' fl \<and> tested s t' fl))"
    if u: "mview (stolen s) {p0, p1, p2} [] (\<lambda>p. pp_ref (pages s p)) (wfill p2 0 (wfill p2 (repeated 1) (fword s))) u" for u
  proof (rule yields_mono [OF give_back_yields [OF S(2) _ _ _ u refs]])
    fix a t assume t: "pages_inv t (p0 # p1 # p2 # fl') \<and> t = page_push p0 (page_push p1 (page_push p2 (u\<lparr>page_free_list := ?h\<rparr>)))"
    then have T: "tested s t fl" using tested_three [OF inv' u refs, of p0 p1 p2 ?h] by (simp add: fl wfill_def)
    have I: "pages_inv t fl" using t unfolding fl by blast
    show "yields count_free t (\<lambda>n t'. n = length fl \<and> pages_inv t' fl \<and> tested s t' fl)"
      by (rule yields_mono [OF count_free_yields [OF I]]) (use T I in simp)
  qed (use d in auto)
  show ?thesis
    unfolding check_page_alloc_def yields_kbind
  proof (rule yields_mono [OF count_free_yields [OF inv]], elim conjE, hypsubst)
    show "yields alloc_three s (\<lambda>a s'. yields (case a of (pp0, pp1, pp2) \<Rightarrow>
      kbind (page_in_memory pp0) (\<lambda>_. kbind (page_in_memory pp1) (\<lambda>_. kbind (page_in_memory pp2) (\<lambda>_.
      kbind steal_free_list (\<lambda>h. kbind (realloc_three pp0 pp1 pp2) (\<lambda>(pp0, pp1, pp2).
      kbind (give_back h pp0 pp1 pp2) (\<lambda>_. kbind count_free (\<lambda>nfree'. kassert (nfree' = length fl))))))))) s'
       (\<lambda>_ s'. pages_inv s' fl \<and> tested s s' fl))"
      by (rule yields_mono [OF alloc_three_yields [OF inv']])
        (auto simp: page_in_memory_def mem b steal_free_list_def case_prod_unfold simp flip: stolen_def
          intro!: yields_mono [OF mid] dest!: fin)
  qed
qed

end
