(* ===== verification/Jos_Pagetest.thy ===== *)
theory Jos_Pagetest
  imports Jos_Selftest
begin

text \<open>
  The tests of the page tables in \<^verbatim>\<open>tps/kern/pmap.c\<close> pass: \<open>check_page\<close>, from any state with an empty
  directory and three free pages, and \<open>check_kern_pgdir\<close>, on the address space \<open>mem_init\<close> builds.
\<close>

section \<open>The page tables pass their test\<close>

lemma mruns_pde_at [mr]:
  assumes k: "kdir s0 P d" and Q: "unat i < 1024" "Q (w d (unat i)) L r w"
  shows "mruns s0 P L r w (pde_at i) Q"
  unfolding pde_at_def kdirD(1) [OF k, symmetric] using Q kdirD(1,4) [OF k] by (intro mr) (simp add: mruns_load)

lemma mruns_clear_pde [mr]:
  assumes k: "kdir s0 P d" and Q: "unat i < 1024" "Q () L r (wput d (unat i) 0 w)"
  shows "mruns s0 P L r w (clear_pde i) Q"
  unfolding clear_pde_def using Q kdirD(1,4) [OF k] by (intro mr) (simp add: mruns_store)

lemma mruns_assert_ref [mr]: "p \<in> P \<Longrightarrow> r p = n \<Longrightarrow> Q () L r w \<Longrightarrow> mruns s0 P L r w (assert_ref p n) Q"
  unfolding assert_ref_def by (intro mr) auto

lemma mruns_assert_va [mr]:
  assumes k: "kdir s0 P d"
    and Q: "let e = w d (unat (PDX va)); t = fnum e; pte = w t (unat (PTX va))
      in if e AND PTE_P = 0 then pa = NOT 0
         else e AND PTE_PS = 0 \<and> t < npages s0 \<and> pa = (if pte AND PTE_P = 0 then NOT 0 else page2pa (fnum pte))"
    and R: "Q () L r w"
  shows "mruns s0 P L r w (assert_va va pa) Q"
  unfolding assert_va_def using Q R k kdirD(1) [OF k]
  by (intro mr) (auto intro!: mruns_va mr simp: Let_def split: if_splits)

lemma mruns_remove_at [mr]:
  assumes k: "kdir s0 P d"
    and e: "w d (unat (PDX va)) \<noteq> 0"
    and present: "let t = fnum (w d (unat (PDX va))); q = fnum (w t (unat (PTX va)))
       in t < npages s0 \<and> q \<in> P \<and> q \<notin> set L
        \<and> Q () (if r q = 1 then q # L else L) (r(q := r q - 1)) (wput t (unat (PTX va)) 0 w)"
  shows "mruns s0 P L r w (kern_remove va) Q"
  unfolding kern_remove_def using assms kdirD(1) [OF k] by (intro mr) (auto intro!: mruns_remove)

lemma mruns_entry_at [mr]:
  assumes k: "kdir s0 P d" and e: "w d (unat (PDX va)) \<noteq> 0" "fnum (w d (unat (PDX va))) < npages s0"
    and Q: "Q (w (fnum (w d (unat (PDX va)))) (unat (PTX va))) L r w"
  shows "mruns s0 P L r w (walked_entry va) Q"
  unfolding walked_entry_def using assms kdirD(1,3) [OF k] frame_kva_nonzero [of "fnum (w d (unat (PDX va)))" "PTX va"]
  by (intro mr) (auto intro!: mruns_walk mr)

lemma mruns_assert_insert [mr]:
  assumes k: "kdir s0 P d" and pp: "pp \<in> P"
    and none: "w d (unat (PDX va)) = 0 \<Longrightarrow> L = [] \<Longrightarrow> P' (- E_NO_MEM) \<and> Q () [] r w"
    and create: "\<And>p L'. w d (unat (PDX va)) = 0 \<Longrightarrow> L = p # L' \<Longrightarrow> p \<in> P \<and> P' 0
      \<and> Q () L' ((r(p := r p + 1))(pp := (r(p := r p + 1)) pp + 1)) (wput p (unat (PTX va)) (page2pa pp OR perm OR PTE_P)
          (wput d (unat (PDX va)) (page2pa p OR 7) (wfill p 0 w)))"
    and present: "w d (unat (PDX va)) \<noteq> 0 \<Longrightarrow> P' 0 \<and>
      (let t = fnum (w d (unat (PDX va))); old = w t (unat (PTX va)); q = fnum old; r1 = r(pp := r pp + 1);
           new = page2pa pp OR perm OR PTE_P
       in t < npages s0 \<and> (if old = 0 then Q () L r1 (wput t (unat (PTX va)) new w)
         else q \<in> P \<and> q \<notin> set L \<and> Q () (if r1 q = 1 then q # L else L) (r1(q := r1 q - 1))
           (wput t (unat (PTX va)) new (wput t (unat (PTX va)) 0 w))))"
  shows "mruns s0 P L r w (assert_insert pp va perm P') Q"
proof -
  have "mruns s0 P L r w (page_insert (frame_kva d) pp va perm) (\<lambda>x L r w. mruns s0 P L r w (kassert (P' x)) Q)"
    by (rule mruns_insert [OF k pp]) (use none create present in \<open>auto intro!: mr simp: Let_def split: if_splits\<close>)
  then show ?thesis unfolding assert_insert_def by (intro mr) (simp add: kdirD(1) [OF k])
qed

lemmas page_test_simps = wput_def wfill_def fnum_entry page_entry_nonzero entry_and unat_PDX unat_PTX Let_def
  PTE_ADDR_frame PTE_P_def PTE_W_def PTE_U_def PTE_PS_def PGSIZE_def E_NO_MEM_def

text \<open>
  The words while the three pages are in use: page \<open>p0\<close> is the first page table, with the entries \<open>x\<close>
  and \<open>y\<close> at its start.
\<close>

definition laid :: "(nat \<Rightarrow> nat \<Rightarrow> u32) \<Rightarrow> (nat \<Rightarrow> nat \<Rightarrow> u32) \<Rightarrow> nat \<Rightarrow> nat \<Rightarrow> u32 \<Rightarrow> u32 \<Rightarrow> bool" where
  "laid w0 w d p0 x y \<longleftrightarrow> (\<forall>f i. w f i = (if f = d \<and> i = 0 then page2pa p0 OR 7
     else if f = p0 then (if i = 0 then x else if i = 1 then y else 0) else w0 f i))"

lemma laidD: "laid w0 w d p0 x y \<Longrightarrow> w f i = (if f = d \<and> i = 0 then page2pa p0 OR 7
     else if f = p0 then (if i = 0 then x else if i = 1 then y else 0) else w0 f i)"
  by (simp add: laid_def)

lemma test_frames:
  assumes k: "kdir s0 {p0, p1, p2} d" and p: "distinct [p0, p1, p2]"
  shows "p0 \<noteq> p1" "p1 \<noteq> p0" "p0 \<noteq> p2" "p2 \<noteq> p0" "p1 \<noteq> p2" "p2 \<noteq> p1"
    "d \<noteq> p0" "p0 \<noteq> d" "d \<noteq> p1" "p1 \<noteq> d" "d \<noteq> p2" "p2 \<noteq> d" "p0 < npages s0" "p1 < npages s0" "p2 < npages s0" "npages s0 \<le> 65536"
    "p0 < 65536" "p1 < 65536" "p2 < 65536" "d < 65536"
    "p0 < 1048576" "p1 < 1048576" "p2 < 1048576" "kern_pgdir s0 = frame_kva d"
proof -
  have lt: "q < npages s0" "q < 65536" "q < 1048576" "q \<noteq> d" "d \<noteq> q" if "q \<in> {p0, p1, p2}" for q
    using kdirD(6-8) [OF k that] by auto
  show "p0 < npages s0" "p1 < npages s0" "p2 < npages s0" "p0 < 65536" "p1 < 65536" "p2 < 65536"
    "p0 < 1048576" "p1 < 1048576" "p2 < 1048576" "d \<noteq> p0" "p0 \<noteq> d" "d \<noteq> p1" "p1 \<noteq> d" "d \<noteq> p2" "p2 \<noteq> d"
    by (rule lt, simp)+
qed (use p kdirD(1-4) [OF k] in auto)

lemma table_needed_mruns:
  assumes k: "kdir s0 {p0, p1, p2} d" and p: "distinct [p0, p1, p2]" and r: "r p0 = 0" "r p1 = 0" and w: "w d 0 = 0"
  shows "mruns s0 {p0, p1, p2} [] r w (check_page_table_needed p0 p1)
    (\<lambda>_ L' r' w'. L' = [] \<and> r' = r(p0 := 1, p1 := 1) \<and> laid w w' d p0 (page2pa p1 OR 3) 0)"
  unfolding check_page_table_needed_def
  by (rule mr k mruns_lookup | simp add: laid_def test_frames [OF k p] page_test_simps w r)+

lemma remap_mruns:
  assumes k: "kdir s0 {p0, p1, p2} d" and p: "distinct [p0, p1, p2]" and w: "laid w0 w d p0 (page2pa p1 OR 3) y"
    and y: "y = 0 \<and> r p2 = 0 \<or> y = page2pa p2 OR 3 \<and> r p2 = 1"
  shows "mruns s0 {p0, p1, p2} [] r w (check_page_remap p2)
    (\<lambda>_ L' r' w'. L' = [] \<and> r' = r(p2 := 1) \<and> laid w0 w' d p0 (page2pa p1 OR 3) (page2pa p2 OR 3))"
  unfolding check_page_remap_def using y
  by (elim disjE conjE)
    (rule mr k | simp add: laid_def test_frames [OF k p] page_test_simps laidD [OF w])+

lemma permissions_mruns:
  assumes k: "kdir s0 {p0, p1, p2} d" and p: "distinct [p0, p1, p2]"
    and w: "laid w0 w d p0 (page2pa p1 OR 3) (page2pa p2 OR 3)" and r: "r p2 = 1" and w0: "w0 d 1 = 0"
  shows "mruns s0 {p0, p1, p2} [] r w (check_page_permissions p0 p2)
    (\<lambda>_ L' r' w'. L' = [] \<and> r' = r \<and> laid w0 w' d p0 (page2pa p1 OR 3) (page2pa p2 OR 3))"
  unfolding check_page_permissions_def
  by (rule mr k mruns_walk | simp add: laid_def test_frames [OF k p] page_test_simps laidD [OF w] r w0 [simplified] fun_upd_idem_iff PTSIZE_def NPTENTRIES_def)+

lemma replace_mruns:
  assumes k: "kdir s0 {p0, p1, p2} d" and p: "distinct [p0, p1, p2]"
    and w: "laid w0 w d p0 (page2pa p1 OR 3) (page2pa p2 OR 3)" and r: "r p1 = 1" "r p2 = 1"
  shows "mruns s0 {p0, p1, p2} [] r w (check_page_replace p1 p2)
    (\<lambda>_ L' r' w'. L' = [] \<and> r' = r(p1 := 2, p2 := 0) \<and> laid w0 w' d p0 (page2pa p1 OR 3) (page2pa p1 OR 3))"
  unfolding check_page_replace_def
  by (rule mr k | simp add: laid_def test_frames [OF k p] page_test_simps laidD [OF w] r)+

lemma mruns_page [mr]:
  "p \<in> P \<Longrightarrow> p \<notin> set L \<Longrightarrow> Q \<lparr>pp_link = None, pp_ref = r p\<rparr> L r w \<Longrightarrow> mruns s0 P L r w (kget (\<lambda>s. pages s p)) Q"
  by (rule mruns_intro [of _ _ _ _ _ _ "\<lparr>pp_link = None, pp_ref = r p\<rparr>" L r w])
    (auto simp: mviewD intro!: PageInfo.equality)

lemma unmap_mruns:
  assumes k: "kdir s0 {p0, p1, p2} d" and p: "distinct [p0, p1, p2]"
    and w: "laid w0 w d p0 (page2pa p1 OR 3) (page2pa p1 OR 3)" and r: "r p1 = 2" "r p2 = 0"
  shows "mruns s0 {p0, p1, p2} [] r w (check_page_unmap p1 p2)
    (\<lambda>_ L' r' w'. L' = [] \<and> r' = r(p1 := 0) \<and> laid w0 w' d p0 0 0)"
  unfolding check_page_unmap_def
  by (rule mr k | simp add: laid_def test_frames [OF k p] page_test_simps laidD [OF w] r)+

lemma mruns_all_absent [mr]:
  assumes "p < 65536" "\<forall>i < 1024. w p i AND PTE_P = 0" "Q True L r w"
  shows "mruns s0 P L r w (kget (\<lambda>s. list_all (\<lambda>i. kload (frame_kva p + 4 * of_nat i) s AND PTE_P = 0) [0..<NPTENTRIES])) Q"
proof (rule mruns_intro [where Q = Q, OF _ assms(3)])
  fix s assume s: "mview s0 P L r w s"
  have "kload (frame_kva p + 4 * of_nat i) s = w p i" if "i < 1024" for i
    using that assms(1) mviewD(9) [OF s that, of p] kload_frame [of p "of_nat i" s] by (simp add: unat_of_nat)
  then show "\<exists>s'. kget (\<lambda>s. list_all (\<lambda>i. kload (frame_kva p + 4 * of_nat i) s AND PTE_P = 0) [0..<NPTENTRIES]) s = Ret True s'
      \<and> mview s0 P L r w s'"
    using s assms(2) by (simp add: list_all_iff NPTENTRIES_def)
qed

lemma walk_mruns:
  assumes k: "kdir s0 {p0, p1, p2} d" and p: "distinct [p0, p1, p2]"
    and w: "laid w0 w d p0 0 0" and r: "r p0 = 1" and w0: "w0 d 0 = 0" "w0 d 1 = 0"
  shows "mruns s0 {p0, p1, p2} [] r w (check_page_walk p0)
    (\<lambda>_ L' r' w'. L' = [] \<and> r' = r(p0 := 0) \<and> (\<forall>f i. w' f i = (if f = p0 then 0 else w0 f i)))"
  unfolding check_page_walk_def take_back_def
  by (rule mr k mruns_walk_create mruns_memset [unfolded PGSIZE_def] mruns_all_absent [unfolded PTE_P_def] | simp add: laid_def test_frames [OF k p] page_test_simps laidD [OF w] r w0 [simplified] NPDENTRIES_def)+

lemma mruns_chain:
  assumes "mruns s0 P L r w m (\<lambda>_ L' r' w'. L' = A \<and> r' = B \<and> C w')" "\<And>w'. C w' \<Longrightarrow> mruns s0 P A B w' (f ()) Q"
  shows "mruns s0 P L r w (kbind m f) Q"
  by (rule mruns_bind, rule mruns_mono [OF assms(1)]) (use assms(2) in auto)

lemma check_page_stolen_mruns:
  assumes k: "kdir s0 {p0, p1, p2} d" and p: "distinct [p0, p1, p2]"
    and r: "r p0 = 0" "r p1 = 0" "r p2 = 0" and w0: "w0 d 0 = 0" "w0 d 1 = 0"
  shows "mruns s0 {p0, p1, p2} [] r w0 (check_page_stolen p0 p1 p2)
    (\<lambda>_ L' r' w'. L' = [] \<and> r' = r \<and> (\<forall>f i. w' f i = (if f = p0 then 0 else w0 f i)))"
proof -
  have ne: "p0 \<noteq> p1" "p1 \<noteq> p0" "p0 \<noteq> p2" "p2 \<noteq> p0" "p1 \<noteq> p2" "p2 \<noteq> p1" using p by auto
  have R: "r(p0 := 1, p1 := 1, p2 := 1, p2 := 1, p1 := 2, p2 := 0, p1 := 0, p0 := 0) = r"
    using r ne by auto
  show ?thesis
    unfolding check_page_stolen_def
    by (rule mruns_bind, rule mruns_no_page,
      rule mruns_chain [OF table_needed_mruns [OF k p]], simp add: r, simp add: r, simp add: w0,
      rule mruns_chain [OF remap_mruns [OF k p]], assumption, simp add: ne r,
      rule mruns_chain [OF remap_mruns [OF k p]], assumption, simp add: ne r,
      rule mruns_chain [OF permissions_mruns [OF k p]], assumption, simp add: ne r, rule w0,
      rule mruns_chain [OF replace_mruns [OF k p]], assumption, simp add: ne r, simp add: ne r,
      rule mruns_chain [OF unmap_mruns [OF k p]], assumption, simp add: ne r, simp add: ne r,
      rule mruns_mono [OF walk_mruns [OF k p]], assumption, simp add: ne r, rule w0, rule w0)
      (simp only: R simp_thms)
qed

section \<open>A directory in order\<close>

text \<open>Every entry the code has stored in the directory carries the same three permissions.\<close>

definition flagged :: "kstate \<Rightarrow> nat \<Rightarrow> bool" where
  "flagged s d \<longleftrightarrow> (\<forall>i < 1024. i \<noteq> uvpt_index \<longrightarrow> fword s d i \<noteq> 0 \<longrightarrow> fword s d i AND 0xFFF = 7)"

lemma grows_flagged: "grows s fl s' fl' d I \<Longrightarrow> flagged s d \<Longrightarrow> flagged s' d"
  unfolding grows_def flagged_def by metis

lemma and_low: "e AND 0xFFF = 7 \<Longrightarrow> y < 4096 \<Longrightarrow> e AND y = 7 AND (y :: u32)"
proof -
  assume e: "e AND 0xFFF = 7" and y: "y < 4096"
  have "y AND 0xFFF = y" using low12 [OF y] by (simp add: mask12_32 take_bit_eq_mask)
  moreover have "e AND (y AND 0xFFF) = (e AND 0xFFF) AND y" by (simp only: and.assoc and.commute [of y "0xFFF"])
  ultimately show ?thesis by (simp only: e)
qed

lemma check_va2pa_entry:
  assumes ok: "pgdir_ok s fl d" "npages s \<le> 65536" and f: "flagged s d" and w: "walkable va"
  shows "check_va2pa (frame_kva d) va s = Ret (if pte_of s d va AND PTE_P = 0 then NOT 0 else PTE_ADDR (pte_of s d va)) s"
proof -
  let ?i = "unat (PDX va)"
  have d: "d < 65536" using pgdir_okD(1) [OF ok(1)] ok(2) by simp
  have c: "(PTE_P :: u32) < 4096" "(PTE_PS :: u32) < 4096" by (simp_all add: mmu_consts)
  show ?thesis
  proof (cases "table_of s d ?i")
    case None
    then have "fword s d ?i = 0" using w by (auto simp: table_of_def walkable_def split: if_splits)
    with None d show ?thesis by (simp add: check_va2pa_def pteval_def)
  next
    case (Some t)
    then have e: "fword s d ?i \<noteq> 0" "t = fnum (fword s d ?i)" by (auto simp: table_of_Some)
    then have "fword s d ?i AND 0xFFF = 7" using f w by (simp add: flagged_def walkable_def)
    from and_low [OF this c(1)] and_low [OF this c(2)]
    have a: "fword s d ?i AND PTE_P \<noteq> 0" "fword s d ?i AND PTE_PS = 0" by (simp_all add: mmu_consts)
    have t: "t < npages s" "t < 65536" using pgdir_okD(3) [OF ok(1) Some] ok(2) by simp_all
    show ?thesis
      using a t d e(2) Some by (simp add: check_va2pa_def KADDR_frame pteval_def)
  qed
qed

lemma assert_va_yields:
  assumes "pgdir_ok s fl d" "npages s \<le> 65536" "flagged s d" "walkable va" "kern_pgdir s = frame_kva d"
    and "pa = (if pte_of s d va AND PTE_P = 0 then NOT 0 else PTE_ADDR (pte_of s d va))"
  shows "yields (assert_va va pa) s (\<lambda>_ s'. s' = s)"
  using check_va2pa_entry [OF assms(1-4)] assms(5,6)
  by (simp add: assert_va_def yields_Ret [where m = "check_va2pa (frame_kva d) va"])

lemma check_page_borrow_yields:
  assumes inv: "pages_inv s (p0 # p1 # p2 # fl')" and ok: "pgdir_ok s (p0 # p1 # p2 # fl') d"
    and dir: "kern_pgdir s = frame_kva d" and w0: "fword s d 0 = 0" "fword s d 1 = 0"
  defines "h \<equiv> page_free_list (page_pop (page_pop (page_pop s)))"
  shows "yields (check_page_stolen p0 p1 p2) (stolen s) (\<lambda>_ u. yields (give_back h p0 p1 p2) u
     (\<lambda>_ t. pages_inv t (p2 # p1 # p0 # fl') \<and> tested s t (p0 # p1 # p2 # fl')))"
proof -
  note S = stolen_view [OF inv, folded h_def]
  have p: "distinct [p0, p1, p2]" "{p0, p1, p2} \<inter> set fl' = {}" using pages_invD(3) [OF inv] by auto
  have n: "npages (stolen s) = npages s" "kern_pgdir (stolen s) = kern_pgdir s" by (simp_all add: stolen_def)
  have k: "kdir (stolen s) {p0, p1, p2} d"
    using pgdir_okD(1,2) [OF ok] pages_invD(2,4) [OF inv] dir n by (simp add: kdir_def)
  have refs: "\<forall>p \<in> {p0, p1, p2}. pp_ref (pages s p) = 0" using pages_invD(5) [OF inv] by auto
  have "mruns (stolen s) {p0, p1, p2} [] (\<lambda>p. pp_ref (pages s p)) (fword s) (check_page_stolen p0 p1 p2)
      (\<lambda>_ L' r' w'. L' = [] \<and> r' = (\<lambda>p. pp_ref (pages s p)) \<and> (\<forall>f i. w' f i = (if f = p0 then 0 else fword s f i)))"
    by (rule check_page_stolen_mruns [OF k p(1)]) (use refs w0 in simp_all)
  then have run: "yields (check_page_stolen p0 p1 p2) (stolen s) (\<lambda>_ u. \<exists>w'. (\<forall>f i. w' f i = (if f = p0 then 0 else fword s f i))
      \<and> mview (stolen s) {p0, p1, p2} [] (\<lambda>p. pp_ref (pages s p)) w' u)"
    using S(1) unfolding mruns_def by (auto elim!: yields_mono)
  show ?thesis
  proof (rule yields_mono [OF run], elim exE conjE)
    fix u w' assume w': "\<forall>f i. w' f i = (if f = p0 then 0 else fword s f i)"
      and u: "mview (stolen s) {p0, p1, p2} [] (\<lambda>p. pp_ref (pages s p)) w' u"
    have "tested s (page_push p2 (page_push p1 (page_push p0 (u\<lparr>page_free_list := h\<rparr>)))) (p0 # p1 # p2 # fl')"
      by (rule tested_three [OF inv u refs]) (use w' in auto)
    then show "yields (give_back h p0 p1 p2) u (\<lambda>_ t. pages_inv t (p2 # p1 # p0 # fl') \<and> tested s t (p0 # p1 # p2 # fl'))"
      by (intro yields_mono [OF give_back_yields [OF S(2) refl p u refs]]) auto
  qed
qed

text \<open>Nothing that is not free has changed, so the directory is the same.\<close>

lemma tested_pgdir:
  assumes t: "tested s t fl" and ok: "pgdir_ok s fl d" and sub: "set fl' \<subseteq> set fl"
  shows "pgdir_ok t fl' d" and "j < 1024 \<Longrightarrow> pteval t d i j = pteval s d i j" and "table_of t d i = table_of s d i"
    and "i < 1024 \<Longrightarrow> fword t d i = fword s d i"
proof -
  show D: "i < 1024 \<Longrightarrow> fword t d i = fword s d i" for i using testedD(8) [OF t pgdir_okD(2) [OF ok]] .
  show T: "table_of t d i = table_of s d i" for i by (rule table_of_cong) (rule D)
  show "pgdir_ok t fl' d" by (rule pgdir_ok_cong [OF ok testedD(1) [OF t] D]) (use sub in auto)
  show "j < 1024 \<Longrightarrow> pteval t d i j = pteval s d i j"
    using testedD(8) [OF t pgdir_okD(4) [OF ok]] by (simp add: pteval_def T split: option.split)
qed

section \<open>Memory-mapped devices\<close>

lemma mmio_base_irrelevant [simp]:
  "mappable (s\<lparr>mmio_base := b\<rparr>) fl d I = mappable s fl d I" "pteval (s\<lparr>mmio_base := b\<rparr>) d i j = pteval s d i j"
  "fword (s\<lparr>mmio_base := b\<rparr>) f i = fword s f i" "flagged (s\<lparr>mmio_base := b\<rparr>) d = flagged s d"
proof -
  show f: "fword (s\<lparr>mmio_base := b\<rparr>) f i = fword s f i" for f i by (simp add: fword_def)
  have t: "table_of (s\<lparr>mmio_base := b\<rparr>) d i = table_of s d i" for i by (simp add: table_of_def f)
  show "pteval (s\<lparr>mmio_base := b\<rparr>) d i j = pteval s d i j" by (simp add: pteval_def t f split: option.split)
  show "mappable (s\<lparr>mmio_base := b\<rparr>) fl d I = mappable s fl d I"
    by (simp add: mappable_def has_room_def pgdir_ok_def t pages_inv_def pgfl.unlinked_def pgfl.represents_def)
  show "flagged (s\<lparr>mmio_base := b\<rparr>) d = flagged s d" by (simp add: flagged_def f)
qed

lemma mmio_map_runs:
  assumes m: "mappable s fl d {958}" and k: "kern_pgdir s = frame_kva d" "mmio_base s = base"
    and b: "unat base = b * 4096" "980992 \<le> b" "b + n \<le> 982016" and sz: "npgs sz = n" "ROUNDUP sz PGSIZE = of_nat (n * 4096)"
  shows "\<exists>s' fl'. mmio_map_region False pa sz s = Ret base (s'\<lparr>mmio_base := base + of_nat (n * 4096)\<rparr>)
    \<and> mappable s' fl' d {958} \<and> grows s fl s' fl' d {958}
    \<and> (\<forall>va. pte_of s' d va = (if b \<le> unat (PGNUM va) \<and> unat (PGNUM va) < b + n
         then nth_page pa (unat (PGNUM va) - b) OR (PTE_W OR PTE_PCD OR PTE_PWT) OR PTE_P else pte_of s d va))"
proof -
  have v: "unat (PGNUM base) = b" using b(1) by (simp add: unat_PGNUM)
  have lim: "unat base + npgs sz * 4096 \<le> 4294967296" "npgs sz * 4096 < 4294967296" using b sz(1) by simp_all
  have I: "unat (PDX (nth_page base m)) \<in> {958}" if "m < npgs sz" for m
  proof -
    have "unat (PGNUM (nth_page base m)) = b + m" using PGNUM_nth_page [OF lim(1) that] b(1) by simp
    then have "unat (PDX (nth_page base m)) = (b + m) div 1024" by (simp add: unat_PGNUM unat_PDX flip: div_mult2_eq)
    also have "\<dots> = 958" using that b(2,3) sz(1) by (intro div_nat_eqI) simp_all
    finally show ?thesis by simp
  qed
  obtain t fl1 where bm: "boot_map_region False (frame_kva d) base (ROUNDUP sz PGSIZE) pa (PTE_W OR PTE_PCD OR PTE_PWT) s = Ret () t"
      "mappable t fl1 d {958}" "grows s fl t fl1 d {958}"
      "maps_range s t d base pa (PTE_W OR PTE_PCD OR PTE_PWT) 0 n"
  proof -
    have "npgs (ROUNDUP sz PGSIZE) = n"
      unfolding sz(2) npgs_def using lim(2) sz(1) by (subst unat_upto_4G) simp_all
    with boot_map_region_runs [OF m, of base "ROUNDUP sz PGSIZE" pa "PTE_W OR PTE_PCD OR PTE_PWT"] lim I sz(1)
    show ?thesis using that by auto
  qed
  have "unat (of_nat (n * 4096) :: u32) = n * 4096" by (rule unat_upto_4G) (use lim(2) sz(1) in simp)
  then have "unat (base + of_nat (n * 4096)) = b * 4096 + n * 4096" using b by (simp add: unat_word_ariths)
  then have "\<not> base + of_nat (n * 4096) > MMIOLIM" using b(3) by (simp add: word_less_nat_alt mmu_consts)
  then have "mmio_map_region False pa sz s = Ret base (t\<lparr>mmio_base := base + of_nat (n * 4096)\<rparr>)"
    using k bm(1,3) by (simp add: mmio_map_region_def Let_def sz(2) grows_def)
  moreover have "pte_of t d va = (if b \<le> unat (PGNUM va) \<and> unat (PGNUM va) < b + n
         then nth_page pa (unat (PGNUM va) - b) OR (PTE_W OR PTE_PCD OR PTE_PWT) OR PTE_P else pte_of s d va)" for va
    using bm(4) by (simp add: maps_range_def Let_def v)
  ultimately show ?thesis using bm(2,3) by blast
qed

lemma set_entry_yields:
  assumes m: "mappable s fl d I" and i: "unat (PDX va) \<in> I" and e: "fword s d (unat (PDX va)) \<noteq> 0" and k: "kern_pgdir s = frame_kva d"
  shows "yields (set_entry_at va x) s (\<lambda>_ s'. \<exists>fl'. mappable s' fl' d I \<and> grows s fl s' fl' d I
    \<and> (\<forall>va'. pte_of s' d va' = (if PGNUM va' = PGNUM va then x else pte_of s d va')))"
proof -
  have w: "walkable va" using m i by (auto simp: mappable_def has_room_def walkable_def)
  have ok: "pgdir_ok s fl d" "npages s \<le> 65536" using m pages_invD(2) by (auto simp: mappable_def)
  obtain t where t: "table_of s d (unat (PDX va)) = Some t" using e w by (auto simp: table_of_def walkable_def)
  obtain a s1 fl' where W: "pgdir_walk (frame_kva d) va True s = Ret a s1" "a \<noteq> 0" "mappable (kstore a x s1) fl' d I"
      "grows s fl (kstore a x s1) fl' d I"
      "\<And>i j. j < 1024 \<Longrightarrow> pteval (kstore a x s1) d i j = (if i = unat (PDX va) \<and> j = unat (PTX va) then x else pteval s d i j)"
    using walk_store [OF m i, of x] by blast
  have "s1 = s" "pgdir_walk (frame_kva d) va False s = Ret a s"
    using W(1) pgdir_walk_present [OF ok w t] by simp_all
  moreover have "pte_of (kstore a x s1) d va' = (if PGNUM va' = PGNUM va then x else pte_of s d va')" for va'
    using W(5) PGNUM_same_entry [of va' va] by simp
  ultimately have "mappable (kstore a x s) fl' d I \<and> grows s fl (kstore a x s) fl' d I
      \<and> (\<forall>va'. pte_of (kstore a x s) d va' = (if PGNUM va' = PGNUM va then x else pte_of s d va'))"
    using W(3,4) by simp
  then show ?thesis
    using W(2) \<open>pgdir_walk (frame_kva d) va False s = Ret a s\<close>
    by (simp add: set_entry_at_def k yields_Ret [where m = "pgdir_walk (frame_kva d) va False"]) blast
qed

lemma entry_at_yields:
  assumes ok: "pgdir_ok s fl d" "npages s \<le> 65536" and w: "walkable va" and e: "fword s d (unat (PDX va)) \<noteq> 0"
    and k: "kern_pgdir s = frame_kva d"
  shows "yields (walked_entry va) s (\<lambda>x s'. x = pte_of s d va \<and> s' = s)"
proof -
  obtain t where t: "table_of s d (unat (PDX va)) = Some t" using e w by (auto simp: table_of_def walkable_def)
  have "t < 65536" using pgdir_okD(3) [OF ok(1) t] ok(2) by simp
  then show ?thesis
    by (simp add: walked_entry_def k yields_Ret [where m = "pgdir_walk (frame_kva d) va False", OF pgdir_walk_present [OF ok w t]]
        frame_kva_nonzero pteval_def t)
qed

text \<open>A directory with room for the devices' table: what the test of \<open>mmio_map_region\<close> needs and keeps.\<close>

definition device_ready :: "kstate \<Rightarrow> nat list \<Rightarrow> nat \<Rightarrow> kstate \<Rightarrow> nat list \<Rightarrow> (u32 \<Rightarrow> u32) \<Rightarrow> bool" where
  "device_ready s fl d s' fl' f \<longleftrightarrow> mappable s' fl' d {958} \<and> flagged s' d \<and> kern_pgdir s' = frame_kva d
     \<and> grows s fl (s'\<lparr>mmio_base := mmio_base s\<rparr>) fl' d {958} \<and> (\<forall>va. pte_of s' d va = f va)"

lemma grows_mmio: "grows s fl s' fl' d I \<Longrightarrow> grows (s\<lparr>mmio_base := b\<rparr>) fl (s'\<lparr>mmio_base := b\<rparr>) fl' d I"
proof -
  have "table_of (s\<lparr>mmio_base := b\<rparr>) d i = table_of s d i" for s i unfolding table_of_def by simp
  moreover assume "grows s fl s' fl' d I"
  ultimately show ?thesis by (simp add: grows_def missing_def curenv_def)
qed

lemma grows_pde: "grows s fl s' fl' d I \<Longrightarrow> i < 1024 \<Longrightarrow> fword s d i \<noteq> 0 \<Longrightarrow> fword s' d i = fword s d i"
  unfolding grows_def by metis

lemma mmio_step:
  assumes R: "device_ready s0 fl0 d s fl f" and base: "mmio_base s = base"
    and b: "unat base = b * 4096" "980992 \<le> b" "b + n \<le> 982016" and sz: "npgs sz = n" "ROUNDUP sz PGSIZE = of_nat (n * 4096)"
  shows "yields (mmio_map_region False pa sz) s (\<lambda>x s'. x = base \<and> mmio_base s' = base + of_nat (n * 4096)
    \<and> (\<exists>fl'. device_ready s0 fl0 d s' fl' (\<lambda>va. if b \<le> unat (PGNUM va) \<and> unat (PGNUM va) < b + n
         then nth_page pa (unat (PGNUM va) - b) OR (PTE_W OR PTE_PCD OR PTE_PWT) OR PTE_P else f va)))"
proof -
  have r: "mappable s fl d {958}" "flagged s d" "kern_pgdir s = frame_kva d"
      "grows s0 fl0 (s\<lparr>mmio_base := mmio_base s0\<rparr>) fl d {958}" "\<And>va. pte_of s d va = f va"
    using R by (simp_all add: device_ready_def)
  obtain s' fl' where s': "mmio_map_region False pa sz s = Ret base (s'\<lparr>mmio_base := base + of_nat (n * 4096)\<rparr>)"
      "mappable s' fl' d {958}" "grows s fl s' fl' d {958}"
      "\<And>va. pte_of s' d va = (if b \<le> unat (PGNUM va) \<and> unat (PGNUM va) < b + n
         then nth_page pa (unat (PGNUM va) - b) OR (PTE_W OR PTE_PCD OR PTE_PWT) OR PTE_P else pte_of s d va)"
    using mmio_map_runs [OF r(1,3) base b sz, of pa] by blast
  have "grows (s\<lparr>mmio_base := mmio_base s0\<rparr>) fl (s'\<lparr>mmio_base := mmio_base s0\<rparr>) fl' d {958}"
    by (rule grows_mmio [OF s'(3)])
  from grows_trans [OF r(4) this] s' r grows_flagged [OF s'(3) r(2)] growsD [OF s'(3)]
  have "device_ready s0 fl0 d (s'\<lparr>mmio_base := base + of_nat (n * 4096)\<rparr>) fl' (\<lambda>va. if b \<le> unat (PGNUM va) \<and> unat (PGNUM va) < b + n
         then nth_page pa (unat (PGNUM va) - b) OR (PTE_W OR PTE_PCD OR PTE_PWT) OR PTE_P else f va)"
    by (simp add: device_ready_def)
  then show ?thesis using s'(1) by (auto simp: yields_def)
qed

lemma set_entry_step:
  assumes R: "device_ready s0 fl0 d s fl f" and i: "unat (PDX va) = 958" and e: "fword s d 958 \<noteq> 0"
  shows "yields (set_entry_at va x) s (\<lambda>_ s'. fword s' d 958 \<noteq> 0 \<and> mmio_base s' = mmio_base s
    \<and> (\<exists>fl'. device_ready s0 fl0 d s' fl' (\<lambda>va'. if PGNUM va' = PGNUM va then x else f va')))"
proof -
  have r: "mappable s fl d {958}" "flagged s d" "kern_pgdir s = frame_kva d"
      "grows s0 fl0 (s\<lparr>mmio_base := mmio_base s0\<rparr>) fl d {958}" "\<And>va. pte_of s d va = f va"
    using R by (simp_all add: device_ready_def)
  have "yields (set_entry_at va x) s (\<lambda>_ s'. \<exists>fl'. mappable s' fl' d {958} \<and> grows s fl s' fl' d {958}
    \<and> (\<forall>va'. pte_of s' d va' = (if PGNUM va' = PGNUM va then x else pte_of s d va')))"
    by (rule set_entry_yields [OF r(1)]) (simp_all add: i e r(3))
  then show ?thesis
  proof (rule yields_mono, elim exE conjE)
    fix s' fl' assume s': "mappable s' fl' d {958}" "grows s fl s' fl' d {958}"
      "\<forall>va'. pte_of s' d va' = (if PGNUM va' = PGNUM va then x else pte_of s d va')"
    have "grows (s\<lparr>mmio_base := mmio_base s0\<rparr>) fl (s'\<lparr>mmio_base := mmio_base s0\<rparr>) fl' d {958}"
      by (rule grows_mmio [OF s'(2)])
    from grows_trans [OF r(4) this] s' r grows_flagged [OF s'(2) r(2)] growsD [OF s'(2)]
    have "device_ready s0 fl0 d s' fl' (\<lambda>va'. if PGNUM va' = PGNUM va then x else f va')"
      by (simp add: device_ready_def)
    moreover have "fword s' d 958 \<noteq> 0" "mmio_base s' = mmio_base s" using s'(2) e grows_pde [OF s'(2), of 958] by (simp_all add: grows_def)
    ultimately show "fword s' d 958 \<noteq> 0 \<and> mmio_base s' = mmio_base s
      \<and> (\<exists>fl'. device_ready s0 fl0 d s' fl' (\<lambda>va'. if PGNUM va' = PGNUM va then x else f va'))" by blast
  qed
qed

lemma yields_pure: "yields m s (\<lambda>_ s'. s' = s) \<Longrightarrow> yields m s Q = Q () s"
  and yields_value: "yields m' s (\<lambda>x s'. x = v \<and> s' = s) \<Longrightarrow> yields m' s Q' = Q' v s"
  by (auto simp: yields_def split: kres.splits)

lemma ready_checks:
  assumes R: "device_ready s0 fl0 d s fl f" and w: "unat (PDX va) = 958"
  shows "pa = (if f va AND PTE_P = 0 then NOT 0 else PTE_ADDR (f va)) \<Longrightarrow> yields (assert_va va pa) s (\<lambda>_ s'. s' = s)"
    and "fword s d 958 \<noteq> 0 \<Longrightarrow> yields (walked_entry va) s (\<lambda>x s'. x = f va \<and> s' = s)"
    and "f va \<noteq> 0 \<Longrightarrow> fword s d 958 \<noteq> 0"
proof -
  have r: "pgdir_ok s fl d" "npages s \<le> 65536" "flagged s d" "kern_pgdir s = frame_kva d" "pte_of s d va = f va"
    using R pages_invD(2) by (auto simp: device_ready_def mappable_def)
  have wk: "walkable va" by (simp add: walkable_def w uvpt_index_def)
  show "pa = (if f va AND PTE_P = 0 then NOT 0 else PTE_ADDR (f va)) \<Longrightarrow> yields (assert_va va pa) s (\<lambda>_ s'. s' = s)"
    by (rule assert_va_yields [OF r(1-3) wk r(4)]) (simp only: r(5))
  show "fword s d 958 \<noteq> 0 \<Longrightarrow> yields (walked_entry va) s (\<lambda>x s'. x = f va \<and> s' = s)"
    using entry_at_yields [OF r(1,2) wk _ r(4)] w r(5) by simp
  show "f va \<noteq> 0 \<Longrightarrow> fword s d 958 \<noteq> 0"
    using r(5) by (auto simp: pteval_def table_of_def w split: if_splits)
qed

text \<open>The two regions of the test, and the entries after mapping them.\<close>

definition mm1 :: u32 where "mm1 = 0xEF800000"
definition mm2 :: u32 where "mm2 = 0xEF802000"

definition mm1_entries :: "u32 \<Rightarrow> u32" where
  "mm1_entries va = (if 980992 \<le> unat (PGNUM va) \<and> unat (PGNUM va) < 980992 + 2
     then nth_page 0 (unat (PGNUM va) - 980992) OR (PTE_W OR PTE_PCD OR PTE_PWT) OR PTE_P else 0)"

definition mm2_entries :: "u32 \<Rightarrow> u32" where
  "mm2_entries va = (if 980994 \<le> unat (PGNUM va) \<and> unat (PGNUM va) < 980994 + 1
     then nth_page 0 (unat (PGNUM va) - 980994) OR (PTE_W OR PTE_PCD OR PTE_PWT) OR PTE_P else mm1_entries va)"

lemma mm_tables: "unat (PDX mm1) = 958" "unat (PDX (mm1 + PGSIZE)) = 958" "unat (PDX mm2) = 958" "unat (PDX (mm2 + PGSIZE)) = 958"
  by (simp_all add: unat_PDX mm1_def mm2_def PGSIZE_def)

lemma mm_entries: "mm2_entries mm1 = 27" "mm2_entries (mm1 + PGSIZE) = 4123" "mm2_entries mm2 = 27" "mm2_entries (mm2 + PGSIZE) = 0"
  by (simp_all add: mm2_entries_def mm1_entries_def unat_PGNUM mm1_def mm2_def nth_page_def mmu_consts)

lemma mm_cleared: "(\<lambda>va'. if PGNUM va' = PGNUM mm2 then 0 else if PGNUM va' = PGNUM (mm1 + PGSIZE) then 0
    else if PGNUM va' = PGNUM mm1 then 0 else mm2_entries va') = (\<lambda>_. 0)"
  by (auto simp: fun_eq_iff mm2_entries_def mm1_entries_def word_unat_eq_iff unat_PGNUM mm1_def mm2_def PGSIZE_def)

lemma check_mmio_mapped_yields:
  assumes u: "device_ready s fl d u fl2 mm2_entries"
  shows "yields (check_mmio_mapped mm1 mm2) u (\<lambda>_ s'. s' = u) \<and> fword u d 958 \<noteq> 0"
proof -
  have p: "fword u d 958 \<noteq> 0" by (rule ready_checks(3) [OF u mm_tables(1)]) (simp add: mm_entries)
  note a = ready_checks(1) [OF u] and b = ready_checks(2) [OF u mm_tables(1) p, unfolded mm_entries]
  have C: "yields (assert_va mm1 0) u (\<lambda>_ s'. s' = u)" "yields (assert_va (mm1 + PGSIZE) PGSIZE) u (\<lambda>_ s'. s' = u)"
      "yields (assert_va mm2 0) u (\<lambda>_ s'. s' = u)" "yields (assert_va (mm2 + PGSIZE) (NOT 0)) u (\<lambda>_ s'. s' = u)"
    by (rule a, rule mm_tables, simp add: mm_entries, simp add: mmu_consts PTE_ADDR_def)+
      (rule a, rule mm_tables, simp add: mm_entries)
  have C': "yields (assert_va (mm2 + PGSIZE) (- 1)) u (\<lambda>_ s'. s' = u)" using C(4) by simp
  have B: "mm1 \<ge> MMIOBASE" "mm1 + 8096 < MMIOLIM" "mm2 \<ge> MMIOBASE" "mm2 + 8096 < MMIOLIM" "mm1 mod PGSIZE = 0" "mm2 mod PGSIZE = 0"
      "mm1 + 8096 \<le> mm2" "(27::u32) AND (PTE_W OR PTE_PWT OR PTE_PCD) \<noteq> 0" "(27::u32) AND PTE_U = 0"
    by (simp_all add: mm1_def mm2_def mmu_consts)
  show ?thesis
    using p by (simp add: check_mmio_mapped_def B yields_pure [OF C(1)] yields_pure [OF C(2)] yields_pure [OF C(3)]
        yields_pure [OF C'] yields_value [OF b])
qed

lemma clear_mmio_yields:
  assumes t: "device_ready s fl d t fl1 mm2_entries" "fword t d 958 \<noteq> 0"
  shows "yields (clear_mmio mm1 mm2) t (\<lambda>_ s'. fword s' d 958 \<noteq> 0 \<and> mmio_base s' = mmio_base t
    \<and> (\<exists>fl'. device_ready s fl d s' fl' (\<lambda>_. 0)))"
  unfolding clear_mmio_def yields_kbind
proof (rule yields_mono [OF set_entry_step [OF t(1) mm_tables(1) t(2)]], elim conjE exE)
  fix t1 fl1 assume 1: "fword t1 d 958 \<noteq> 0" "mmio_base t1 = mmio_base t"
    "device_ready s fl d t1 fl1 (\<lambda>va'. if PGNUM va' = PGNUM mm1 then 0 else mm2_entries va')"
  show "yields (set_entry_at (mm1 + PGSIZE) 0) t1 (\<lambda>_ s'. yields (set_entry_at mm2 0) s' (\<lambda>_ s'. fword s' d 958 \<noteq> 0
      \<and> mmio_base s' = mmio_base t \<and> (\<exists>fl'. device_ready s fl d s' fl' (\<lambda>_. 0))))"
  proof (rule yields_mono [OF set_entry_step [OF 1(3) mm_tables(2) 1(1)]], elim conjE exE)
    fix t2 fl2 assume 2: "fword t2 d 958 \<noteq> 0" "mmio_base t2 = mmio_base t1"
      "device_ready s fl d t2 fl2 (\<lambda>va'. if PGNUM va' = PGNUM (mm1 + PGSIZE) then 0
         else if PGNUM va' = PGNUM mm1 then 0 else mm2_entries va')"
    show "yields (set_entry_at mm2 0) t2 (\<lambda>_ s'. fword s' d 958 \<noteq> 0
        \<and> mmio_base s' = mmio_base t \<and> (\<exists>fl'. device_ready s fl d s' fl' (\<lambda>_. 0)))"
      by (rule yields_mono [OF set_entry_step [OF 2(3) mm_tables(3) 2(1), of 0, unfolded mm_cleared]]) (use 1(2) 2(2) in simp)
  qed
qed

lemma check_mmio_yields:
  assumes m: "mappable s fl d {958}" "flagged s d" "kern_pgdir s = frame_kva d" "mmio_base s = MMIOBASE"
    and z: "\<forall>va. pte_of s d va = 0"
  shows "yields (check_mmio False) s (\<lambda>_ s'. fword s' d 958 \<noteq> 0 \<and> mmio_base s' = MMIOBASE + 3 * PGSIZE
    \<and> (\<exists>fl'. device_ready s fl d s' fl' (\<lambda>_. 0)))"
proof -
  have "s\<lparr>mmio_base := mmio_base s\<rparr> = s" by simp
  then have R0: "device_ready s fl d s fl (\<lambda>_. 0)" using m(1-3) z by (simp add: device_ready_def grows_refl)
  have S1: "yields (mmio_map_region False 0 4097) s (\<lambda>x s'. x = mm1 \<and> mmio_base s' = mm2
      \<and> (\<exists>fl'. device_ready s fl d s' fl' mm1_entries))"
    using mmio_step [OF R0 m(4), of 980992 2 4097 0]
    by (simp add: mm1_entries_def [abs_def] mmu_consts npgs_def ROUNDUP_def ROUNDDOWN_def mm1_def mm2_def)
  have S2: "yields (mmio_map_region False 0 4096) t (\<lambda>x s'. x = mm2 \<and> mmio_base s' = MMIOBASE + 3 * PGSIZE
      \<and> (\<exists>fl'. device_ready s fl d s' fl' mm2_entries))"
    if "device_ready s fl d t fl1 mm1_entries" "mmio_base t = mm2" for t fl1
    using mmio_step [OF that, of 980994 1 4096 0]
    by (simp add: mm2_entries_def [abs_def] mmu_consts npgs_def ROUNDUP_def ROUNDDOWN_def mm1_def mm2_def)
  show ?thesis
    unfolding check_mmio_def yields_kbind
  proof (rule yields_mono [OF S1], elim conjE exE, hypsubst, rule yields_mono [OF S2], assumption, assumption, elim conjE exE, hypsubst)
    fix u fl2 assume u: "device_ready s fl d u fl2 mm2_entries" "mmio_base u = MMIOBASE + 3 * PGSIZE"
    note c = check_mmio_mapped_yields [OF u(1)]
    show "yields (check_mmio_mapped mm1 mm2) u (\<lambda>_ s'. yields (clear_mmio mm1 mm2) s' (\<lambda>_ s'. fword s' d 958 \<noteq> 0
        \<and> mmio_base s' = MMIOBASE + 3 * PGSIZE \<and> (\<exists>fl'. device_ready s fl d s' fl' (\<lambda>_. 0))))"
      unfolding yields_pure [OF conjunct1 [OF c]] using clear_mmio_yields [OF u(1) conjunct2 [OF c]] u(2) by simp
  qed
qed

section \<open>check_page\<close>

text \<open>A directory with nothing in it but its recursive entry.\<close>

definition empty_dir :: "kstate \<Rightarrow> nat \<Rightarrow> bool" where
  "empty_dir s d \<longleftrightarrow> (\<forall>i < 1024. i \<noteq> uvpt_index \<longrightarrow> fword s d i = 0)"

lemma empty_dirD:
  assumes "empty_dir s d"
  shows "table_of s d i = None" "pteval s d i j = 0" "flagged s d" "fword s d 0 = 0" "fword s d 1 = 0"
proof -
  show t: "table_of s d i = None" for i using assms by (auto simp: table_of_def empty_dir_def)
  then show "pteval s d i j = 0" by (simp add: pteval_def)
  show "flagged s d" using assms by (simp add: flagged_def empty_dir_def)
  show "fword s d 0 = 0" "fword s d 1 = 0" using assms by (simp_all add: empty_dir_def uvpt_index_def)
qed

text \<open>
  After the test: the directory has one more table, of the devices, which is empty again; the
  free list holds the same pages but one.
\<close>

lemma check_page_yields:
  assumes inv: "pages_inv s fl" "3 \<le> length fl" and ok: "pgdir_ok s fl d" and dir: "kern_pgdir s = frame_kva d"
    and e: "empty_dir s d" and m: "mmio_base s = MMIOBASE"
  shows "yields (check_page False) s (\<lambda>_ s'. mmio_base s' = MMIOBASE + 3 * PGSIZE \<and> fword s' d 958 \<noteq> 0
    \<and> (\<exists>t fl2. tested s t fl \<and> pages_inv t (rev (take 3 fl) @ drop 3 fl)
      \<and> device_ready t (rev (take 3 fl) @ drop 3 fl) d s' fl2 (\<lambda>_. 0)))"
proof -
  obtain p0 p1 p2 fl' where fl: "fl = p0 # p1 # p2 # fl'"
    using inv(2) by (auto simp: Suc_le_length_iff numeral_3_eq_3)
  have r: "rev (take 3 fl) @ drop 3 fl = p2 # p1 # p0 # fl'" by (simp add: fl)
  note inv' = inv(1) [unfolded fl] and ok' = ok [unfolded fl]
  note B = check_page_borrow_yields [OF inv' ok' dir empty_dirD(4,5) [OF e]]
  have M: "yields (check_mmio False) t (\<lambda>_ s'. fword s' d 958 \<noteq> 0 \<and> mmio_base s' = MMIOBASE + 3 * PGSIZE
      \<and> (\<exists>fl2. device_ready t (p2 # p1 # p0 # fl') d s' fl2 (\<lambda>_. 0)))"
    if t: "pages_inv t (p2 # p1 # p0 # fl')" "tested s t (p0 # p1 # p2 # fl')" for t
  proof (rule check_mmio_yields)
    have "set (p2 # p1 # p0 # fl') \<subseteq> set (p0 # p1 # p2 # fl')" by auto
    note T = tested_pgdir [OF t(2) ok' this]
    have "card {i \<in> {958}. table_of t d i = None} \<le> card {958 :: nat}" by (intro card_mono) auto
    then show "mappable t (p2 # p1 # p0 # fl') d {958}"
      using t(1) T(1) by (simp add: mappable_def has_room_def uvpt_index_def)
    have "empty_dir t d" using e T(4) by (auto simp: empty_dir_def)
    then show "flagged t d" "\<forall>va. pte_of t d va = 0" using empty_dirD by auto
    show "kern_pgdir t = frame_kva d" "mmio_base t = MMIOBASE" using testedD [OF t(2)] dir m by simp_all
  qed
  let ?h = "page_free_list (page_pop (page_pop (page_pop s)))"
  show ?thesis
    unfolding check_page_def yields_kbind
  proof (rule yields_mono [OF alloc_three_yields [OF inv']], elim conjE, hypsubst, unfold prod.case yields_kbind)
    have st: "yields steal_free_list (page_pop (page_pop (page_pop s))) Q = Q ?h (stolen s)" for Q
      by (simp add: steal_free_list_def stolen_def)
    show "yields steal_free_list (page_pop (page_pop (page_pop s))) (\<lambda>h u. yields (check_page_stolen p0 p1 p2) u
      (\<lambda>_ u. yields (give_back h p0 p1 p2) u (\<lambda>_ t. yields (check_mmio False) t (\<lambda>_ s'. mmio_base s' = MMIOBASE + 3 * PGSIZE
        \<and> fword s' d 958 \<noteq> 0 \<and> (\<exists>t fl2. tested s t fl \<and> pages_inv t (rev (take 3 fl) @ drop 3 fl)
          \<and> device_ready t (rev (take 3 fl) @ drop 3 fl) d s' fl2 (\<lambda>_. 0))))))"
      unfolding st r unfolding fl
      by (rule yields_mono [OF B], erule yields_mono, elim conjE, rule yields_mono [OF M], assumption, assumption) blast
  qed
qed

section \<open>check_kern_pgdir\<close>

lemma kfor_yields: "(\<And>x. x \<in> set xs \<Longrightarrow> yields (f x) s (\<lambda>_ s'. s' = s)) \<Longrightarrow> yields (kfor xs f) s (\<lambda>_ s'. s' = s)"
proof (induction xs)
  case (Cons x xs)
  from Cons.prems [of x] Cons.IH Cons.prems show ?case by (simp add: yields_pure [of "f x"])
qed simp

lemma aligned_entry:
  assumes "4096 dvd unat x" "perm < 4096"
  shows "PTE_ADDR (x OR perm) = x" "y < 4096 \<Longrightarrow> (x OR perm) AND y = perm AND y"
proof -
  obtain k where k: "unat x = 4096 * k" using assms(1) by (auto simp: dvd_def)
  have "k < 1048576" using unat_word_lt32 [of x] unfolding k by simp
  moreover from this have "x = page2pa k" by (simp add: word_unat_eq_iff unat_page2pa k)
  ultimately show "PTE_ADDR (x OR perm) = x" "y < 4096 \<Longrightarrow> (x OR perm) AND y = perm AND y"
    using assms(2) by (simp_all add: PTE_ADDR_frame fnum_entry entry_and)
qed

text \<open>The directory after the second half of \<open>mem_init\<close>, as the test sees it.\<close>

definition kernel_dir :: "kstate \<Rightarrow> nat list \<Rightarrow> nat \<Rightarrow> (nat \<Rightarrow> u32) \<Rightarrow> bool" where
  "kernel_dir s fl d f \<longleftrightarrow> pages_inv s fl \<and> pgdir_ok s fl d \<and> flagged s d \<and> kern_pgdir s = frame_kva d
     \<and> (\<forall>va. pte_of s d va = f (unat (PGNUM va)))
     \<and> fword s d uvpt_index AND PTE_P \<noteq> 0 \<and> fword s d 958 \<noteq> 0
     \<and> (\<forall>i < 1024. i \<noteq> uvpt_index \<longrightarrow> i \<noteq> 958 \<longrightarrow> i \<notin> kernel_tables \<longrightarrow> fword s d i = 0)"

lemma kernel_dir_assert:
  assumes "kernel_dir s fl d f" "unat (PGNUM va) div 1024 \<noteq> uvpt_index"
    and "pa = (if f (unat (PGNUM va)) AND PTE_P = 0 then NOT 0 else PTE_ADDR (f (unat (PGNUM va))))"
  shows "yields (assert_va va pa) s (\<lambda>_ s'. s' = s)"
proof -
  have w: "walkable va" using assms(2) by (simp add: walkable_def unat_PDX unat_PGNUM flip: div_mult2_eq)
  have r: "pgdir_ok s fl d" "npages s \<le> 65536" "flagged s d" "kern_pgdir s = frame_kva d" "pte_of s d va = f (unat (PGNUM va))"
    using assms(1) pages_invD(2) by (auto simp: kernel_dir_def)
  show ?thesis by (rule assert_va_yields [OF r(1-3) w r(4)]) (simp only: r(5) assms(3))
qed

lemma check_range_yields:
  assumes D: "kernel_dir s fl d f" and va: "unat va = v * 4096" "v + n \<le> 1048576" and pa: "4096 dvd unat pa"
    and perm: "perm < 4096" "perm AND PTE_P \<noteq> 0"
    and e: "\<And>i. i < n \<Longrightarrow> (v + i) div 1024 \<noteq> uvpt_index \<and> f (v + i) = nth_page pa i OR perm"
  shows "yields (check_range va pa n) s (\<lambda>_ s'. s' = s)"
  unfolding check_range_def
proof (rule kfor_yields)
  fix i assume "i \<in> set [0..<n]"
  then have i: "i < n" by simp
  have n: "va + of_nat i * PGSIZE = nth_page va i" "pa + of_nat i * PGSIZE = nth_page pa i" by (simp_all add: nth_page_def PGSIZE_def)
  have P: "unat (PGNUM (nth_page va i)) = v + i" using PGNUM_nth_page [of va n i] va i by simp
  note A = aligned_entry [OF aligned_nth_page [OF pa] perm(1)]
  have "(nth_page pa i OR perm) AND PTE_P \<noteq> 0" using A(2) [of PTE_P] perm(2) by (simp add: PTE_P_def)
  then show "yields (assert_va (va + of_nat i * PGSIZE) (pa + of_nat i * PGSIZE)) s (\<lambda>_ s'. s' = s)"
    unfolding n using e [OF i] A(1) by (intro kernel_dir_assert [OF D]) (simp_all add: P)
qed

lemma digit16: "r < 16 \<Longrightarrow> (r + 16 * n) mod 16 = r" "r < 16 \<Longrightarrow> (r + 16 * n) div 16 = (n :: nat)"
  by simp_all

lemma kernel_entry_stack:
  assumes "982912 \<le> v" "v < 983040" "(983039 - v) mod 16 = r" "(983039 - v) div 16 = q"
  shows "v div 1024 = 959 \<and> kernel_entry pages_pa m envs_pa stack_pa v
    = (if r < 8 then nth_page (stack_pa q) (7 - r) OR PTE_W OR PTE_P else 0)"
proof -
  have "v div 1024 = 959" using assms(1,2) by linarith
  then show ?thesis using assms by (simp add: kernel_entry_def)
qed

lemma check_kstack_yields:
  assumes D: "kernel_dir s fl d (kernel_entry pages_pa m envs_pa (\<lambda>i. kstacks i - KERNBASE))"
    and k: "n < 8" and a: "KERNBASE \<le> kstacks n" "4096 dvd unat (kstacks n - KERNBASE)"
  shows "yields (check_kstack kstacks n) s (\<lambda>_ s'. s' = s)"
proof -
  let ?f = "kernel_entry pages_pa m envs_pa (\<lambda>i. kstacks i - KERNBASE)"
  let ?base = "KSTACKTOP - (KSTKSIZE + KSTKGAP) * of_nat (n + 1)"
  define x :: u32 where "x = (KSTKSIZE + KSTKGAP) * of_nat (n + 1)"
  have "unat (of_nat (n + 1) :: u32) = n + 1" using k by (intro unat_of_nat32) simp
  then have "unat x = 65536 * (n + 1)" using k by (simp add: x_def unat_word_ariths mmu_consts)
  then have "unat (KSTACKTOP - x) = (983024 - 16 * n) * 4096"
    using k by (simp add: mmu_consts unat_sub_if_size word_size)
  then have bg: "unat (KSTACKTOP - x) = (983024 - 16 * n) * 4096"
      "unat (KSTACKTOP - x + KSTKGAP) = (983032 - 16 * n) * 4096"
    using k unat_word_ariths(1) [of "KSTACKTOP - x" KSTKGAP] by (simp_all add: mmu_consts)
  then have b: "unat ?base = (983024 - 16 * n) * 4096" and g: "unat (?base + KSTKGAP) = (983032 - 16 * n) * 4096"
    by (simp_all only: x_def)
  have e1: "(983032 - 16 * n + i) div 1024 = 959 \<and> ?f (983032 - 16 * n + i) = nth_page (kstacks n - KERNBASE) i OR (PTE_W OR PTE_P)"
    if i: "i < 8" for i
  proof -
    have lt: "7 - i < 16" by simp
    have v: "982912 \<le> 983032 - 16 * n + i" "983032 - 16 * n + i < 983040" using i k by auto
    have "983039 - (983032 - 16 * n + i) = (7 - i) + 16 * n" using i k by auto
    then have "(983039 - (983032 - 16 * n + i)) mod 16 = 7 - i" "(983039 - (983032 - 16 * n + i)) div 16 = n"
      using lt by (simp_all only: digit16)
    moreover have "7 - i < 8" "7 - (7 - i) = i" using i by auto
    ultimately show ?thesis using kernel_entry_stack [OF v] by (simp only: if_True or.assoc)
  qed
  have e2: "(983024 - 16 * n + i) div 1024 = 959 \<and> ?f (983024 - 16 * n + i) = 0" if i: "i < 8" for i
  proof -
    have lt: "15 - i < 16" by simp
    have v: "982912 \<le> 983024 - 16 * n + i" "983024 - 16 * n + i < 983040" using i k by auto
    have "983039 - (983024 - 16 * n + i) = (15 - i) + 16 * n" using i k by auto
    then have "(983039 - (983024 - 16 * n + i)) mod 16 = 15 - i" using lt by (simp only: digit16)
    moreover have "\<not> 15 - i < 8" using i by auto
    ultimately show ?thesis using kernel_entry_stack [OF v _ refl] by (simp only: if_False simp_thms)
  qed
  have sz: "unat KSTKSIZE div 4096 = 8" "unat KSTKGAP div 4096 = 8" by (simp_all add: mmu_consts)
  have 1: "yields (check_range (?base + KSTKGAP) (kstacks n - KERNBASE) 8) s (\<lambda>_ s'. s' = s)"
    by (rule check_range_yields [OF D g _ a(2), where perm = "PTE_W OR PTE_P"])
      (use e1 k in \<open>simp_all add: uvpt_index_def PTE_W_def PTE_P_def\<close>)
  have 2: "yields (kfor [0..<8] (\<lambda>i. assert_va (?base + of_nat i * PGSIZE) (NOT 0))) s (\<lambda>_ s'. s' = s)"
  proof (rule kfor_yields)
    fix i assume "i \<in> set [0..<8 :: nat]"
    then have i: "i < 8" by simp
    have "?base + of_nat i * PGSIZE = nth_page ?base i" by (simp add: nth_page_def PGSIZE_def)
    moreover have "unat (PGNUM (nth_page ?base i)) = 983024 - 16 * n + i" using PGNUM_nth_page [of ?base 8 i] b i k by simp
    ultimately show "yields (assert_va (?base + of_nat i * PGSIZE) (NOT 0)) s (\<lambda>_ s'. s' = s)"
      using e2 [OF i] by (intro kernel_dir_assert [OF D]) (simp_all add: uvpt_index_def)
  qed
  have p: "yields (PADDR (kstacks n)) s Q = Q (kstacks n - KERNBASE) s" for Q
    using a(1) by (auto simp: PADDR_def)
  show ?thesis
    unfolding check_kstack_def Let_def sz yields_kbind p yields_pure [OF 1] by (rule 2)
qed

text \<open>The directory: the tables of the kernel's part are there, the rest of it is empty.\<close>

lemma kernel_dir_table:
  assumes "kernel_dir s fl d f" "f v \<noteq> 0" "v < 1048576" "v div 1024 = i" "i \<noteq> uvpt_index"
  shows "fword s d i AND PTE_P \<noteq> 0 \<and> fword s d i AND PTE_W \<noteq> 0"
proof -
  define va :: u32 where "va = of_nat (v * 4096)"
  have u: "unat va = v * 4096" unfolding va_def using assms(3) by (intro unat_of_nat32) simp
  have va: "unat (PGNUM va) = v" "unat (PDX va) = i"
    using assms(4) div_mult2_eq [of "v * 4096" 4096 1024] by (simp_all add: unat_PGNUM unat_PDX u)
  have i: "i < 1024" using assms(3,4) by auto
  have "pte_of s d va = f v" using assms(1) by (simp add: kernel_dir_def flip: va(1))
  then have "pteval s d i (unat (PTX va)) \<noteq> 0" using assms(2) by (simp add: va(2))
  then have "fword s d i \<noteq> 0" by (auto simp: pteval_def table_of_def split: if_splits)
  then have "fword s d i AND 0xFFF = 7" using assms(1,5) i by (auto simp: kernel_dir_def flagged_def)
  from and_low [OF this, of PTE_P] and_low [OF this, of PTE_W] show ?thesis by (simp add: PTE_P_def PTE_W_def)
qed

lemma pde_indices: "PDX UVPT = 957" "PDX (KSTACKTOP - 1) = 959" "PDX UPAGES = 956" "PDX UENVS = 955"
    "PDX MMIOBASE = 958" "PDX KERNBASE = 960"
  by (simp_all add: word_unat_eq_iff unat_PDX mmu_consts)

lemma nth_page_entry_nonzero: "perm AND PTE_P \<noteq> 0 \<Longrightarrow> nth_page pa i OR perm \<noteq> 0"
  by (auto simp: or_eq_0_iff)

lemma kernel_entry_tables:
  assumes "1 \<le> m" "i \<in> kernel_tables"
  obtains v where "v < 1048576" "v div 1024 = i" "kernel_entry pages_pa m envs_pa stack_pa v \<noteq> 0"
proof -
  let ?k = "kernel_entry pages_pa m envs_pa stack_pa"
  note nz = nth_page_entry_nonzero [of "PTE_W OR PTE_P"] nth_page_entry_nonzero [of "PTE_U OR PTE_P"]
  have n: "?k 977920 \<noteq> 0" "?k 978944 \<noteq> 0" "?k 983032 \<noteq> 0" "983040 \<le> v \<Longrightarrow> ?k v \<noteq> 0" for v
    using assms(1) nz by (simp_all add: kernel_entry_def or.assoc PTE_P_def PTE_W_def PTE_U_def del: or_eq_0_iff)
  consider "i = 955" | "i = 956" | "i = 959" | "960 \<le> i" "i < 1024" using assms(2) by (fastforce simp: kernel_tables_def)
  then show thesis
  proof cases
    case 1 then show ?thesis using that [of 977920] n by simp
  next
    case 2 then show ?thesis using that [of 978944] n by simp
  next
    case 3 then show ?thesis using that [of 983032] n by simp
  next
    case 4 then show ?thesis using that [of "i * 1024"] n(4) [of "i * 1024"] by simp
  qed
qed

lemma check_pde_yields:
  assumes D: "kernel_dir s fl d (kernel_entry pages_pa m envs_pa stack_pa)" and m: "1 \<le> m" and i: "i < 1024"
  shows "yields (check_pde i) s (\<lambda>_ s'. s' = s)"
proof -
  have r: "d < npages s" "npages s \<le> 65536" "kern_pgdir s = frame_kva d" using D pages_invD(2) pgdir_okD(1) by (auto simp: kernel_dir_def)
  have p: "yields (pde_at (of_nat i)) s Q = Q (fword s d i) s" for Q
    using i r by (simp add: pde_at_def kload_frame unat_of_nat32)
  have o: "(of_nat i :: u32) = 957 \<longleftrightarrow> i = 957" "(of_nat i :: u32) = 958 \<longleftrightarrow> i = 958" "(of_nat i :: u32) = 959 \<longleftrightarrow> i = 959"
      "(of_nat i :: u32) = 956 \<longleftrightarrow> i = 956" "(of_nat i :: u32) = 955 \<longleftrightarrow> i = 955" "960 \<le> (of_nat i :: u32) \<longleftrightarrow> 960 \<le> i"
    using i by (simp_all add: word_unat_eq_iff word_le_nat_alt unat_of_nat32)
  have t: "fword s d i AND PTE_P \<noteq> 0 \<and> fword s d i AND PTE_W \<noteq> 0" if k: "i \<in> kernel_tables"
  proof -
    obtain v where "v < 1048576" "v div 1024 = i" "kernel_entry pages_pa m envs_pa stack_pa v \<noteq> 0"
      using kernel_entry_tables [OF m k] .
    then show ?thesis using kernel_dir_table [OF D] k by (auto simp: kernel_tables_def uvpt_index_def)
  qed
  have u: "fword s d uvpt_index AND PTE_P \<noteq> 0" "fword s d 958 AND PTE_P \<noteq> 0"
  proof -
    show "fword s d uvpt_index AND PTE_P \<noteq> 0" using D by (simp add: kernel_dir_def)
    have "fword s d 958 AND 0xFFF = 7" using D by (auto simp: kernel_dir_def flagged_def uvpt_index_def)
    from and_low [OF this, of PTE_P] show "fword s d 958 AND PTE_P \<noteq> 0" by (simp add: PTE_P_def)
  qed
  have z: "fword s d i = 0" if "i < 960" "i \<notin> {955, 956, 957, 958, 959}"
    using that D by (auto simp: kernel_dir_def kernel_tables_def uvpt_index_def)
  show ?thesis
    using t u z i unfolding uvpt_index_def
    by (auto simp: check_pde_def p pde_indices o kassert_def kernel_tables_def)
qed

lemma check_kern_pgdir_yields:
  assumes D: "kernel_dir s fl d (kernel_entry (pages_va - KERNBASE) (npgs (of_nat (npages s) * sizeof_PageInfo))
      (envs_va - KERNBASE) (\<lambda>i. kstacks i - KERNBASE))"
    and np: "0 < npages s" and A: "\<forall>a \<in> {pages_va, envs_va} \<union> kstacks ` {..<8}. KERNBASE \<le> a \<and> 4096 dvd unat (a - KERNBASE)"
  shows "yields (check_kern_pgdir False kstacks pages_va envs_va) s (\<lambda>_ s'. s' = s)"
proof -
  have le: "npages s \<le> 65536" using D pages_invD(2) by (auto simp: kernel_dir_def)
  let ?m = "npgs (of_nat (npages s) * sizeof_PageInfo)"
  have m: "1 \<le> ?m" "?m \<le> 128" using np le by (simp_all add: npgs_def sizeof_PageInfo_def unat_word_ariths unat_of_nat)
  have p: "yields (PADDR a) s Q = Q (a - KERNBASE) s" if "a \<in> {pages_va, envs_va}" for Q a
    using A that by (auto simp: PADDR_def not_less)
  have n: "npgs (of_nat (npages s) * PGSIZE) = npages s" using le by (simp add: npgs_def unat_word_ariths unat_of_nat PGSIZE_def)
  have e: "npgs (of_nat NENV * sizeof_Env) = 31" "npgs (1024 * sizeof_Env) = 31" by (simp_all add: npgs_def NENV_eq sizeof_Env_def)
  have 1: "yields (check_range UPAGES (pages_va - KERNBASE) ?m) s (\<lambda>_ s'. s' = s)"
    by (rule check_range_yields [OF D, of _ 978944 _ _ "PTE_U OR PTE_P"])
      (use A m in \<open>auto simp: mmu_consts kernel_entry_def uvpt_index_def or.assoc\<close>)
  have 2: "yields (check_range UENVS (envs_va - KERNBASE) 31) s (\<lambda>_ s'. s' = s)"
    by (rule check_range_yields [OF D, of _ 977920 _ _ "PTE_U OR PTE_P"])
      (use A m in \<open>auto simp: mmu_consts kernel_entry_def uvpt_index_def or.assoc\<close>)
  have 3: "yields (check_range KERNBASE 0 (npages s)) s (\<lambda>_ s'. s' = s)"
    by (rule check_range_yields [OF D, of _ 983040 _ _ "PTE_W OR PTE_P"])
      (use le in \<open>auto simp: mmu_consts kernel_entry_def uvpt_index_def or.assoc\<close>)
  have 4: "yields (kfor [0..<NCPU] (check_kstack kstacks)) s (\<lambda>_ s'. s' = s)"
    by (rule kfor_yields) (use A in \<open>auto simp: NCPU_def intro!: check_kstack_yields [OF D]\<close>)
  have 5: "yields (kfor [0..<NPDENTRIES] check_pde) s (\<lambda>_ s'. s' = s)"
    by (rule kfor_yields) (auto simp: NPDENTRIES_def intro!: check_pde_yields [OF D m(1)])
  show ?thesis
    by (simp add: check_kern_pgdir_def p n e yields_pure [OF 1] yields_pure [OF 2] yields_pure [OF 3] yields_pure [OF 4] yields_pure [OF 5]
      del: upt_rec_numeral)
qed

end
