(* ===== verification/Jos_Boot.thy ===== *)
theory Jos_Boot
  imports Jos_Pagetest
begin

text \<open>
  The whole of \<open>mem_init\<close> of \<^verbatim>\<open>tps/kern/pmap.c\<close>, from the memory size in the CMOS to the switch to
  the new directory, with the self-tests it runs on the way: \<open>check_page_installed_pgdir\<close> reads and
  writes through the directory it has just loaded, and the function as a whole returns.
\<close>

section \<open>The test on the installed directory\<close>

lemma mviewD_cr3: "mview s0 P L r w s \<Longrightarrow> cr3 s = cr3 s0"
proof -
  assume "mview s0 P L r w s"
  then have "s\<lparr>pages := pages s0, page_free_list := page_free_list s0, pmem := pmem s0, invlpgs := invlpgs s0\<rparr> = s0"
    by (simp add: mview_def)
  from arg_cong [OF this, of cr3] show ?thesis by simp
qed

text \<open>The page at \<open>PGSIZE\<close>, through the table in frame \<open>t\<close>.\<close>

definition second_page :: "nat \<Rightarrow> nat \<Rightarrow> nat \<Rightarrow> (nat \<Rightarrow> nat \<Rightarrow> u32) \<Rightarrow> bool" where
  "second_page d t q w \<longleftrightarrow> w d 0 = page2pa t OR 7 \<and> w t 1 = page2pa q OR 3 \<and> t < 65536 \<and> q < 65536 \<and> q \<noteq> d \<and> q \<noteq> t"

lemma second_page_writable:
  assumes "mview s0 P L r w s" "kdir s0 P d" "cr3 s0 = page2pa d" "second_page d t q w"
  shows "writable_as 3 s d t q PGSIZE"
  using mviewD(9) [OF assms(1), of 0 d] mviewD(9) [OF assms(1), of 1 t] mviewD_cr3 [OF assms(1)] kdirD(4) [OF assms(2)] assms(3,4)
  by (simp add: writable_as_def second_page_def unat_PDX unat_PTX PGSIZE_def)

lemma mruns_assert_word:
  assumes k: "kdir s0 P d" "cr3 s0 = page2pa d" and w: "second_page d t q w" "w q 0 = x" and Q: "Q () L r w"
  shows "mruns s0 P L r w (assert_word PGSIZE x) Q"
  unfolding assert_word_def
proof (rule mruns_bind, rule mruns_intro [of _ _ _ _ _ _ x L r w])
  fix s assume s: "mview s0 P L r w s"
  have "vload32 PGSIZE s = Ret (load32 (pmem s) (q * 4096)) s"
    using vload32_run [OF second_page_writable [OF s k w(1)] refl] by (simp add: PGSIZE_def)
  then show "\<exists>s'. vload32 PGSIZE s = Ret x s' \<and> mview s0 P L r w s'"
    using mviewD(9) [OF s, of 0 q] s w(2) by (simp add: fword_def)
qed (use Q in \<open>auto intro!: mr\<close>)

lemma mruns_store_word:
  assumes k: "kdir s0 P d" "cr3 s0 = page2pa d" and w: "second_page d t q w" and Q: "Q () L r (wput q 0 x w)"
  shows "mruns s0 P L r w (vstore32 PGSIZE x) Q"
proof (rule mruns_intro [where Q = Q, OF _ Q])
  fix s assume s: "mview s0 P L r w s"
  have "vstore32 PGSIZE x s = Ret () (s\<lparr>pmem := store32 (q * 4096) x (pmem s)\<rparr>)"
    using vstore32_run [OF second_page_writable [OF s k w] refl] by (simp add: PGSIZE_def)
  moreover have "s\<lparr>pmem := store32 (q * 4096) x (pmem s)\<rparr> = fset q 0 x s" by (simp add: fset_def)
  ultimately show "\<exists>s'. vstore32 PGSIZE x s = Ret () s' \<and> mview s0 P L r (wput q 0 x w) s'" using mview_fset [OF s, of 0] by simp
qed

lemma mruns_kload_page [mr]:
  "p < 65536 \<Longrightarrow> Q (w p 0) L r w \<Longrightarrow> mruns s0 P L r w (kget (kload (frame_kva p))) Q"
  using mruns_load [of p 0 Q w L r s0 P] by simp

lemma repeated_values: "repeated 1 = 0x01010101" "repeated 2 = 0x02020202"
  by (simp_all add: repeated_def load32_def)

lemma installed_mruns:
  assumes k: "kdir s0 P d" "cr3 s0 = page2pa d" and p: "distinct [p0, p1, p2]" "p0 \<in> P" "p1 \<in> P" "p2 \<in> P"
    and L: "p0 \<notin> set L" "p1 \<notin> set L" "p2 \<notin> set L" and r: "r p0 = 0" "r p1 = 0" "r p2 = 0" and w: "w d 0 = 0"
  shows "mruns s0 P (p0 # L) r w (check_installed_pages p1 p2)
    (\<lambda>_ L' r' w'. L' = p2 # p1 # L \<and> r' = r(p0 := 1) \<and> w' d 0 = page2pa p0 OR 7
      \<and> (\<forall>f i. f \<notin> {p0, p1, p2} \<longrightarrow> \<not> (f = d \<and> i = 0) \<longrightarrow> w' f i = w f i))"
proof -
  have ne: "p0 \<noteq> p1" "p1 \<noteq> p0" "p0 \<noteq> p2" "p2 \<noteq> p0" "p1 \<noteq> p2" "p2 \<noteq> p1" using p(1) by auto
  have lt: "q < npages s0" "q < 65536" "q < 1048576" "q \<noteq> d" "d \<noteq> q" if "q \<in> P" for q
    using kdirD(6-8) [OF k(1) that] by auto
  have R: "r(p0 := 1, p1 := 0, p2 := 0) = r(p0 := 1)" using ne r by auto
  note F = ne lt [OF p(2)] lt [OF p(3)] lt [OF p(4)] kdirD(1-4) [OF k(1)]
  show ?thesis
    unfolding check_installed_pages_def
    by (rule mr k mruns_assert_word [OF k, of p0 p1 _ "0x01010101", unfolded PGSIZE_def] mruns_assert_word [OF k, of p0 p2 _ "0x02020202", unfolded PGSIZE_def]
        mruns_store_word [OF k, of p0 p2, unfolded PGSIZE_def]
      | simp add: F p L r w page_test_simps repeated_values second_page_def R)+
qed

lemma installed_pgdir_mruns:
  assumes k: "kdir s0 P d" "cr3 s0 = page2pa d" and p: "distinct (p0 # p1 # p2 # L)" "p0 \<in> P" "p1 \<in> P" "p2 \<in> P"
    and r: "r p0 = 0" "r p1 = 0" "r p2 = 0" and w: "w d 0 = 0"
  shows "mruns s0 P (p0 # p1 # p2 # L) r w check_page_installed_pgdir
    (\<lambda>_ L' r' w'. L' = p0 # p2 # p1 # L \<and> r' = r \<and> (\<forall>f i. f \<notin> {p0, p1, p2} \<longrightarrow> w' f i = w f i))"
proof -
  have F: "p0 \<notin> set L" "p1 \<notin> set L" "p2 \<notin> set L" "p0 \<noteq> p1" "p1 \<noteq> p0" "p0 \<noteq> p2" "p2 \<noteq> p0" "p1 \<noteq> p2" "p2 \<noteq> p1"
    "p0 < 1048576" "p0 < 65536" "p0 \<noteq> d" "d \<noteq> p0" "p1 \<noteq> d" "d \<noteq> p1" "p2 \<noteq> d" "d \<noteq> p2"
    using p(1) kdirD(7,8) [OF k(1) p(2)] kdirD(8) [OF k(1) p(3)] kdirD(8) [OF k(1) p(4)] by auto
  have "mruns s0 P (p0 # L) r w (check_installed_pages p1 p2)
    (\<lambda>_ L' r' w'. L' = p2 # p1 # L \<and> r' = r(p0 := 1) \<and> w' d 0 = page2pa p0 OR 7
      \<and> (\<forall>f i. f \<notin> {p0, p1, p2} \<longrightarrow> \<not> (f = d \<and> i = 0) \<longrightarrow> w' f i = w f i))"
    by (rule installed_mruns [OF k]) (use F p r w in auto)
  note M = mruns_chain [OF this]
  have R: "r(p0 := 0) = r" using r by auto
  show ?thesis
    unfolding check_page_installed_pgdir_def
    by (rule mr k M | simp add: F p r w page_test_simps R)+
qed

lemma pages_inv_mview:
  assumes inv: "pages_inv s fl"
  shows "mview s (set fl) fl (\<lambda>p. pp_ref (pages s p)) (fword s) s"
  using inv by (auto simp: mview_def pages_inv_def pgfl.unlinked_def)

lemma mview_pages_inv:
  assumes t: "mview s (set fl) L (\<lambda>p. pp_ref (pages s p)) w t" and inv: "pages_inv s fl" and L: "set L = set fl"
  shows "pages_inv t L"
proof -
  have "pgfl.represents t L" using mviewD(4) [OF t] .
  moreover have "pgfl.unlinked t L" using t inv L
    by (auto simp: pgfl.unlinked_def mview_def pages_inv_def)
  ultimately show ?thesis
    using t inv L mviewD(1) [OF t] unfolding pages_inv_def by (auto simp: mview_def)
qed

lemma check_page_installed_yields:
  assumes inv: "pages_inv s fl" "3 \<le> length fl" and ok: "pgdir_ok s fl d" and dir: "kern_pgdir s = frame_kva d" "cr3 s = page2pa d"
    and w: "fword s d 0 = 0"
  shows "yields check_page_installed_pgdir s (\<lambda>_ s'. \<exists>fl'. set fl' = set fl \<and> pages_inv s' fl' \<and> tested s s' fl)"
proof -
  obtain p0 p1 p2 L where fl: "fl = p0 # p1 # p2 # L"
    using inv(2) by (auto simp: Suc_le_length_iff numeral_3_eq_3)
  have d: "distinct fl" using pages_invD(3) [OF inv(1)] .
  have k: "kdir s (set fl) d" using pgdir_okD(1,2) [OF ok] pages_invD(2,4) [OF inv(1)] dir by (simp add: kdir_def)
  have "mruns s (set fl) fl (\<lambda>p. pp_ref (pages s p)) (fword s) check_page_installed_pgdir (\<lambda>_ L' r' w'.
      L' = p0 # p2 # p1 # L \<and> r' = (\<lambda>p. pp_ref (pages s p)) \<and> (\<forall>f i. f \<notin> {p0, p1, p2} \<longrightarrow> w' f i = fword s f i))"
    unfolding fl
    by (rule installed_pgdir_mruns [OF k [unfolded fl] dir(2)]) (use d pages_invD(5) [OF inv(1)] w in \<open>auto simp: fl\<close>)
  then have "yields check_page_installed_pgdir s (\<lambda>_ s'. \<exists>w'. mview s (set fl) (p0 # p2 # p1 # L) (\<lambda>p. pp_ref (pages s p)) w' s'
      \<and> (\<forall>f i. f \<notin> {p0, p1, p2} \<longrightarrow> w' f i = fword s f i))"
    using pages_inv_mview [OF inv(1)] unfolding mruns_def by (auto elim!: yields_mono)
  then show ?thesis
  proof (rule yields_mono, elim exE conjE)
    fix s' w' assume v: "mview s (set fl) (p0 # p2 # p1 # L) (\<lambda>p. pp_ref (pages s p)) w' s'"
      and w': "\<forall>f i. f \<notin> {p0, p1, p2} \<longrightarrow> w' f i = fword s f i"
    have st: "set (p0 # p2 # p1 # L) = set fl" by (auto simp: fl)
    have "pp_ref (pages s' p) = pp_ref (pages s p)" for p
      using v by (cases "p \<in> set fl") (auto simp: mview_def)
    moreover have "fword s' f i = fword s f i" if "f \<notin> set fl" "i < 1024" for f i
      using mviewD(9) [OF v that(2), of f] w' that(1) by (simp add: fl)
    ultimately have "tested s s' fl" using v by (simp add: tested_def mview_def)
    with mview_pages_inv [OF v inv(1) st] st
    show "\<exists>fl'. set fl' = set fl \<and> pages_inv s' fl' \<and> tested s s' fl" by blast
  qed
qed

section \<open>The entry directory\<close>

text \<open>
  Until \<open>mem_init\<close> switches, the processor runs on \<open>entry_pgdir\<close> of \<^verbatim>\<open>kern/entrypgdir.c\<close>, two large pages.
  The kernel sees the first 4 MB at \<open>KERNBASE\<close>, which is why \<open>check_page_free_list\<close> first puts the pages
  below 4 MB at the head of the free list.
\<close>

definition entry_pgdir :: "nat \<Rightarrow> u32" where
  "entry_pgdir i = (if i = 0 then PTE_P + PTE_PS
     else if i = unat (drop_bit PDXSHIFT KERNBASE) then PTE_P + PTE_W + PTE_PS else 0)"

lemma entry_pgdir_translates:
  assumes "cr3 s = page2pa d" "d < 65536" "\<forall>i < 1024. fword s d i = entry_pgdir i"
  shows "translate wr va s = (if PDX va = PDX KERNBASE \<or> PDX va = 0 \<and> \<not> wr then Some (unat va mod 4194304) else None)"
proof -
  have "fword s d (unat (PDX va)) = entry_pgdir (unat (PDX va))" using assms(3) PDX_lt by blast
  then have l: "load32 (pmem s) (d * 4096 + 4 * unat (PDX va)) = entry_pgdir (unat (PDX va))" by (simp add: fword_def)
  have k: "unat (PDX va) = 960 \<longleftrightarrow> PDX va = PDX KERNBASE" "unat (PDX va) = 0 \<longleftrightarrow> PDX va = 0"
    by (simp_all add: word_unat_eq_iff unat_PDX KERNBASE_def)
  have e: "entry_pgdir (unat (PDX va)) = (if PDX va = 0 then 0x81 else if PDX va = PDX KERNBASE then 0x83 else 0)"
    using k by (simp add: entry_pgdir_def mmu_consts)
  have p: "unat (PGADDR 0 (PTX va) (PGOFF va)) = unat va mod 4194304"
  proof -
    have "PGADDR 0 (PTX va) (PGOFF va) = va AND mask 22"
      by (rule bit_word_eqI) (auto simp: PGADDR_def PTX_def PGOFF_def mask10_32 mask12_32 PTXSHIFT_def PDXSHIFT_def bit_simps)
    then show ?thesis by (simp add: unat_and_mask_word)
  qed
  have "PDX 0x81 = 0" "PDX 0x83 = 0" "PDX KERNBASE \<noteq> 0" by (simp_all add: word_unat_eq_iff unat_PDX KERNBASE_def)
  then show ?thesis
    using p by (simp add: translate_def Let_def assms(1) cr3_frame [OF assms(2)] l e mmu_consts del: PDX_def)
qed

section \<open>mem_init\<close>

definition mem_init_cr0 :: "u32 \<Rightarrow> u32" where
  "mem_init_cr0 cr0 = (cr0 OR (CR0_PE OR CR0_PG OR CR0_AM OR CR0_WP OR CR0_NE OR CR0_MP)) AND NOT (CR0_TS OR CR0_EM)"

definition mem_init_tests :: "bool \<Rightarrow> u32 \<Rightarrow> unit kM" where
  "mem_init_tests pse kend =
     kbind (check_page_free_list kend True) (\<lambda>_.
     kbind check_page_alloc (\<lambda>_.
       check_page pse))"

definition mem_init :: "bool \<Rightarrow> (u32 \<Rightarrow> u8) \<Rightarrow> u32 \<Rightarrow> u32 \<Rightarrow> (nat \<Rightarrow> u32) \<Rightarrow> u32 \<Rightarrow> u32 kM" where
  "mem_init pse cmos kend bootstack kstacks cr0 =
     kbind (mem_init_tables cmos kend) (\<lambda>(pages_va, envs_va).
     kbind (mem_init_tests pse kend) (\<lambda>_.
     kbind (mem_init_regions pse bootstack kstacks pages_va envs_va) (\<lambda>_.
     kbind (check_kern_pgdir pse kstacks pages_va envs_va) (\<lambda>_.
     kbind load_kern_pgdir (\<lambda>_.
     kbind (check_page_free_list kend False) (\<lambda>_.
     (let cr0 = mem_init_cr0 cr0 in
     kbind check_page_installed_pgdir (\<lambda>_.
       kreturn cr0))))))))"

text \<open>What every part of the function keeps; \<open>fin\<close> is the first page \<open>boot_alloc\<close> has not handed out.\<close>

definition boot_inv :: "kstate \<Rightarrow> nat list \<Rightarrow> nat \<Rightarrow> nat \<Rightarrow> bool" where
  "boot_inv s fl d fin \<longleftrightarrow> pages_inv s fl \<and> pgdir_ok s fl d \<and> flagged s d \<and> kern_pgdir s = frame_kva d
     \<and> nextfree s = frame_kva fin \<and> 256 < fin \<and> fin \<le> npages s \<and> fin < 65536 \<and> (\<forall>p \<in> set fl. fit_for_list fin p)"

lemma boot_inv_tested:
  assumes b: "boot_inv s fl d fin" and t: "tested s t fl" and inv: "pages_inv t fl'" and sub: "set fl' = set fl"
  shows "boot_inv t fl' d fin"
proof -
  have ok: "pgdir_ok s fl d" using b by (simp add: boot_inv_def)
  note T = tested_pgdir [OF t ok]
  have "i < 1024 \<Longrightarrow> fword t d i = fword s d i" for i by (rule T(4) [OF subset_refl])
  then have "flagged t d" using b by (simp add: boot_inv_def flagged_def)
  moreover have "pgdir_ok t fl' d" by (rule T(1)) (simp add: sub)
  ultimately show ?thesis using b inv sub testedD(1-3) [OF t] by (simp add: boot_inv_def)
qed

lemma boot_inv_grows:
  assumes b: "boot_inv s fl d fin" and g: "grows s fl s' fl' d I" and m: "mappable s' fl' d I"
  shows "boot_inv s' fl' d fin"
proof -
  have "set fl' \<subseteq> set fl" "nextfree s' = nextfree s" using g by (auto simp: grows_def)
  then show ?thesis
    using b m growsD [OF g] grows_flagged [OF g] by (auto simp: boot_inv_def mappable_def)
qed

lemma boot_inv_mmio: "boot_inv (s\<lparr>mmio_base := b\<rparr>) fl d fin = boot_inv s fl d fin"
  and boot_inv_cr3: "boot_inv (s\<lparr>cr3 := b\<rparr>) fl d fin = boot_inv s fl d fin"
proof -
  have "table_of (s\<lparr>mmio_base := b\<rparr>) d i = table_of s d i" "table_of (s\<lparr>cr3 := b\<rparr>) d i = table_of s d i"
    "fword (s\<lparr>cr3 := b\<rparr>) d i = fword s d i" for i by (simp_all add: table_of_def fword_def)
  then show "boot_inv (s\<lparr>mmio_base := b\<rparr>) fl d fin = boot_inv s fl d fin" "boot_inv (s\<lparr>cr3 := b\<rparr>) fl d fin = boot_inv s fl d fin"
    by (simp_all add: boot_inv_def pgdir_ok_def pages_inv_def pgfl.unlinked_def pgfl.represents_def flagged_def)
qed

text \<open>Enough pages below the I/O hole and above it.\<close>

definition plenty :: "nat \<Rightarrow> nat list \<Rightarrow> bool" where
  "plenty n fl \<longleftrightarrow> n < card {p \<in> set fl. p < 160} \<and> n < card {p \<in> set fl. \<not> p < 160}"

lemma rest_nonempty:
  assumes "fl = us @ fl'" "length us < card {p \<in> set fl. Q p}"
  shows "\<exists>p \<in> set fl'. Q p"
proof (rule ccontr)
  assume "\<not> ?thesis"
  then have "{p \<in> set fl. Q p} \<subseteq> set us" using assms(1) by auto
  then have "card {p \<in> set fl. Q p} \<le> card (set us)" by (intro card_mono) auto
  also have "\<dots> \<le> length us" by (rule card_length)
  finally show False using assms(2) by simp
qed

lemma plenty_listable: "boot_inv s fl d fin \<Longrightarrow> plenty n fl \<Longrightarrow> listable s fl fin"
  using rest_nonempty [of fl "[]" fl "\<lambda>p. p < 160"] rest_nonempty [of fl "[]" fl "\<lambda>p. \<not> p < 160"]
  by (auto simp: plenty_def boot_inv_def listable_def)

lemma plenty_length: "plenty n fl \<Longrightarrow> n + 2 \<le> length fl"
proof -
  assume p: "plenty n fl"
  have "set fl = {p \<in> set fl. p < 160} \<union> {p \<in> set fl. \<not> p < 160}" by auto
  then have "card (set fl) = card {p \<in> set fl. p < 160} + card {p \<in> set fl. \<not> p < 160}"
    by (subst card_Un_disjoint [symmetric]) auto
  then show ?thesis using p card_length [of fl] by (simp add: plenty_def)
qed

lemma plenty_set: "set fl' = set fl \<Longrightarrow> plenty n fl \<Longrightarrow> plenty n fl'"
  by (simp add: plenty_def)

lemma plenty_drop: "fl = us @ fl' \<Longrightarrow> distinct fl \<Longrightarrow> plenty (n + length us) fl \<Longrightarrow> plenty n fl'"
proof -
  assume a: "fl = us @ fl'" "distinct fl" "plenty (n + length us) fl"
  have "card {p \<in> set fl. Q p} \<le> card {p \<in> set fl'. Q p} + length us" for Q
  proof -
    have "card {p \<in> set fl. Q p} \<le> card ({p \<in> set fl'. Q p} \<union> set us)" by (intro card_mono) (auto simp: a(1))
    also have "\<dots> \<le> card {p \<in> set fl'. Q p} + card (set us)" by (rule card_Un_le)
    finally show ?thesis using card_length [of us] by linarith
  qed
  from this [of "\<lambda>p. p < 160"] this [of "\<lambda>p. \<not> p < 160"] a(3) show ?thesis by (auto simp: plenty_def)
qed

text \<open>The directory after the first tests: a table for the devices and the recursive entry.\<close>

definition only_devices :: "kstate \<Rightarrow> nat \<Rightarrow> bool" where
  "only_devices s d \<longleftrightarrow> fword s d 958 \<noteq> 0 \<and> (\<forall>i < 1024. i \<noteq> uvpt_index \<longrightarrow> i \<noteq> 958 \<longrightarrow> fword s d i = 0)
     \<and> fword s d uvpt_index AND PTE_P \<noteq> 0 \<and> (\<forall>va. pte_of s d va = 0)"

lemma missing_one: "missing s d {i} = (if table_of s d i = None then 1 else 0)"
proof -
  have "{i' \<in> {i}. table_of s d i' = None} = (if table_of s d i = None then {i} else {})" by auto
  then show ?thesis by (simp add: missing_def)
qed

lemma device_table_taken:
  assumes R: "device_ready t r d s' fl2 (\<lambda>_. 0)" and e: "empty_dir t d" "fword s' d 958 \<noteq> 0" "fword t d uvpt_index AND PTE_P \<noteq> 0"
    and b: "boot_inv t r d fin" "plenty (Suc n) r"
  shows "boot_inv s' fl2 d fin \<and> only_devices s' d \<and> length r = Suc (length fl2) \<and> plenty n fl2 \<and> npages s' = npages t"
proof -
  let ?u = "s'\<lparr>mmio_base := mmio_base t\<rparr>"
  have R': "mappable s' fl2 d {958}" "grows t r ?u fl2 d {958}" "\<forall>va. pte_of s' d va = 0"
    using R by (simp_all add: device_ready_def)
  have "boot_inv ?u fl2 d fin" by (rule boot_inv_grows [OF b(1) R'(2)]) (simp add: R'(1))
  then have B: "boot_inv s' fl2 d fin" by (simp only: boot_inv_mmio)
  have "table_of ?u d 958 \<noteq> None" using e(2) by (simp add: table_of_def uvpt_index_def)
  then have "missing ?u d {958} = 0" "missing t d {958} = 1" using empty_dirD(1) [OF e(1)] by (simp_all add: missing_one)
  then obtain us where us: "r = us @ fl2" "length us = 1" using R'(2) by (auto simp: grows_def)
  have "distinct r" using b(1) pages_invD(3) by (auto simp: boot_inv_def)
  then have P: "plenty n fl2" using plenty_drop [OF us(1), of n] b(2) us(2) by simp
  have w: "i < 1024 \<Longrightarrow> i \<noteq> 958 \<Longrightarrow> fword s' d i = fword t d i" for i using R'(2) by (auto simp: grows_def)
  from w [of 957] w have "fword s' d 957 = fword t d 957" "\<forall>i < 1024. i \<noteq> 958 \<longrightarrow> fword s' d i = fword t d i" by simp_all
  then have "only_devices s' d"
    using e R'(3) by (simp add: only_devices_def empty_dir_def uvpt_index_def)
  with B P us growsD [OF R'(2)] show ?thesis by simp
qed

lemma mem_init_tests_yields:
  assumes b: "boot_inv s fl d fin" "plenty (Suc n) fl" and e: "empty_dir s d" "mmio_base s = MMIOBASE" "fword s d uvpt_index AND PTE_P \<noteq> 0"
  shows "yields (mem_init_tests False kend) s (\<lambda>_ s'. \<exists>fl'. boot_inv s' fl' d fin \<and> only_devices s' d
    \<and> length fl = Suc (length fl') \<and> plenty n fl' \<and> npages s' = npages s)"
proof -
  have inv: "pages_inv s fl" using b(1) by (simp add: boot_inv_def)
  let ?r = "reordered True fl"
  have sr: "set ?r = set fl" "length ?r = length fl"
    by (auto simp: reordered_def sum_length_filter_compl)
  show ?thesis
    unfolding mem_init_tests_def yields_kbind
  proof (rule yields_mono [OF check_page_free_list_yields [OF inv plenty_listable [OF b]]], elim conjE)
    fix s1 assume 1: "pages_inv s1 ?r" "tested s s1 fl"
    have n: "3 \<le> length ?r" using plenty_length [OF b(2)] sr by simp
    have b1: "boot_inv s1 ?r d fin" by (rule boot_inv_tested [OF b(1) 1(2,1) sr(1)])
    show "yields check_page_alloc s1 (\<lambda>_ s'. yields (check_page False) s' (\<lambda>_ s'. \<exists>fl'. boot_inv s' fl' d fin \<and> only_devices s' d
       \<and> length fl = Suc (length fl') \<and> plenty n fl' \<and> npages s' = npages s))"
    proof (rule yields_mono [OF check_page_alloc_yields [OF 1(1) n]], elim conjE)
      fix s2 assume 2: "pages_inv s2 ?r" "tested s1 s2 ?r"
      have b2: "boot_inv s2 ?r d fin" by (rule boot_inv_tested [OF b1 2(2,1) refl])
      have ok: "pgdir_ok s fl d" "pgdir_ok s1 ?r d" "pgdir_ok s2 ?r d" using b b1 b2 by (simp_all add: boot_inv_def)
      have w2: "fword s2 d i = fword s d i" if "i < 1024" for i
        using tested_pgdir(4) [OF 1(2) ok(1) subset_refl that] tested_pgdir(4) [OF 2(2) ok(2) subset_refl that] by simp
      have e2: "empty_dir s2 d" using e(1) w2 by (simp add: empty_dir_def)
      have m2: "mmio_base s2 = MMIOBASE" "kern_pgdir s2 = frame_kva d" "npages s2 = npages s"
        using testedD(1,4) [OF 1(2)] testedD(1,4) [OF 2(2)] e(2) b2 by (simp_all add: boot_inv_def)
      let ?q = "rev (take 3 ?r) @ drop 3 ?r"
      have "set (take 3 ?r) \<union> set (drop 3 ?r) = set ?r" by (metis append_take_drop_id set_append)
      then have q: "set ?q = set ?r" "length ?q = length ?r" using n by auto
      show "yields (check_page False) s2 (\<lambda>_ s'. \<exists>fl'. boot_inv s' fl' d fin \<and> only_devices s' d
          \<and> length fl = Suc (length fl') \<and> plenty n fl' \<and> npages s' = npages s)"
      proof (rule yields_mono [OF check_page_yields [OF 2(1) n ok(3) m2(2) e2 m2(1)]], elim conjE exE)
        fix s' t fl2 assume 3: "fword s' d 958 \<noteq> 0" "tested s2 t ?r" "pages_inv t ?q" "device_ready t ?q d s' fl2 (\<lambda>_. 0)"
        have b3: "boot_inv t ?q d fin" by (rule boot_inv_tested [OF b2 3(2,3) q(1)])
        have w3: "fword t d i = fword s d i" if "i < 1024" for i
          using tested_pgdir(4) [OF 3(2) ok(3) subset_refl that] w2 [OF that] by simp
        have e3: "empty_dir t d" "fword t d uvpt_index AND PTE_P \<noteq> 0" using e(1,3) w3 by (simp_all add: empty_dir_def uvpt_index_def)
        have "plenty (Suc n) ?q" by (rule plenty_set [OF _ b(2)]) (simp only: q(1) sr(1))
        from device_table_taken [OF 3(4) e3(1) 3(1) e3(2) b3 this] q(2) sr(2) m2(3) testedD(1) [OF 3(2)]
        show "\<exists>fl'. boot_inv s' fl' d fin \<and> only_devices s' d \<and> length fl = Suc (length fl') \<and> plenty n fl' \<and> npages s' = npages s"
          by (intro exI [of _ fl2]) (simp del: length_append length_rev length_take length_drop)
      qed
    qed
  qed
qed

text \<open>The second half: all 67 tables of the kernel's part are taken from the list.\<close>

abbreviation kernel_space :: "u32 \<Rightarrow> nat \<Rightarrow> u32 \<Rightarrow> (nat \<Rightarrow> u32) \<Rightarrow> nat \<Rightarrow> u32" where
  "kernel_space pages_va np envs_va kstacks \<equiv>
     kernel_entry (pages_va - KERNBASE) (npgs (of_nat np * sizeof_PageInfo)) (envs_va - KERNBASE) (\<lambda>i. kstacks i - KERNBASE)"

lemma mem_init_regions_yields:
  assumes b: "boot_inv s fl d fin" "plenty (67 + n) fl" "only_devices s d" and np: "0 < npages s"
    and A: "\<forall>a \<in> {pages_va, envs_va, bootstack} \<union> kstacks ` {..<8}. KERNBASE \<le> a \<and> 4096 dvd unat (a - KERNBASE)"
  shows "yields (mem_init_regions False bootstack kstacks pages_va envs_va) s (\<lambda>_ s'. \<exists>fl'. boot_inv s' fl' d fin
    \<and> kernel_dir s' fl' d (kernel_space pages_va (npages s) envs_va kstacks)
    \<and> fword s' d 0 = 0 \<and> length fl = 67 + length fl' \<and> plenty n fl' \<and> npages s' = npages s)"
proof -
  let ?m = "npgs (of_nat (npages s) * sizeof_PageInfo)"
  let ?f = "kernel_space pages_va (npages s) envs_va kstacks"
  have B: "pages_inv s fl" "pgdir_ok s fl d" "kern_pgdir s = frame_kva d" "flagged s d" using b(1) by (simp_all add: boot_inv_def)
  have le: "npages s \<le> 65536" using pages_invD(2) [OF B(1)] .
  have m: "1 \<le> ?m" "?m \<le> 128" using np le by (simp_all add: npgs_def sizeof_PageInfo_def unat_word_ariths unat_of_nat)
  have O: "fword s d 958 \<noteq> 0" "\<forall>i < 1024. i \<noteq> uvpt_index \<longrightarrow> i \<noteq> 958 \<longrightarrow> fword s d i = 0"
      "fword s d uvpt_index AND PTE_P \<noteq> 0" "\<forall>va. pte_of s d va = 0" using b(3) by (simp_all add: only_devices_def)
  have "67 \<le> length fl" using plenty_length [OF b(2)] by simp
  from kmapped_start [OF B(1,2) this B(3) O(4)] mem_init_regions_runs [OF _ le, of s fl d pages_va envs_va bootstack kstacks] A
  obtain s' fl' where s': "mem_init_regions False bootstack kstacks pages_va envs_va s = Ret () s'"
      "grows s fl s' fl' d kernel_tables" "kmapped s' fl' d (kernel_layers pages_va envs_va bootstack kstacks ?m) (npages s)" by auto
  have M: "mappable s' fl' d kernel_tables" "kern_pgdir s' = frame_kva d" "npages s' = npages s" "pages_inv s' fl'" "pgdir_ok s' fl' d"
    using s'(3) by (simp_all add: kmapped_def mappable_def)
  have E: "pte_of s' d va = ?f (unat (PGNUM va))" for va
    using s'(3) kernel_entry_fold [OF m(2) PGNUM_lt] by (simp add: kmapped_def entries_def kernel_layers_def)
  have W: "fword s' d i = fword s d i" if "i < 1024" "i \<notin> kernel_tables" for i using s'(2) that by (auto simp: grows_def)
  have K: "kernel_dir s' fl' d ?f"
    using M E grows_flagged [OF s'(2) B(4)] W O unfolding kernel_dir_def
    by (auto simp: kernel_tables_def uvpt_index_def)
  have "table_of s' d i \<noteq> None" if i: "i \<in> kernel_tables" for i
  proof -
    obtain v where "v < 1048576" "v div 1024 = i" "?f v \<noteq> 0" using kernel_entry_tables [OF m(1) i] .
    with kernel_dir_table [OF K] i have "fword s' d i \<noteq> 0" by (fastforce simp: kernel_tables_def uvpt_index_def)
    then show ?thesis using i by (auto simp: table_of_def kernel_tables_def uvpt_index_def)
  qed
  then have "{i \<in> kernel_tables. table_of s' d i = None} = {}" by blast
  then have "missing s' d kernel_tables = 0" by (simp only: missing_def card.empty)
  moreover have "{i \<in> kernel_tables. table_of s d i = None} = kernel_tables"
    using O(2) by (auto simp: table_of_def kernel_tables_def uvpt_index_def)
  then have "missing s d kernel_tables = 67" by (simp add: missing_def card_kernel_tables)
  ultimately obtain us where us: "fl = us @ fl'" "length us = 67" using s'(2) by (auto simp: grows_def)
  have "plenty n fl'" by (rule plenty_drop [OF us(1) pages_invD(3) [OF B(1)]]) (use b(2) us(2) in \<open>simp add: add.commute\<close>)
  moreover have "boot_inv s' fl' d fin" by (rule boot_inv_grows [OF b(1) s'(2) M(1)])
  moreover have "fword s' d 0 = 0" using W [of 0] O(2) by (simp add: kernel_tables_def uvpt_index_def)
  ultimately show ?thesis using s'(1) K us M(3) by (auto simp: yields_def)
qed

text \<open>After the switch: the last tests.\<close>

lemma kernel_dir_cr3: "kernel_dir s fl d f \<Longrightarrow> pte_of (s\<lparr>cr3 := c\<rparr>) d va = f (unat (PGNUM va))"
  by (simp add: kernel_dir_def)

lemma last_tests_yield:
  assumes b: "boot_inv s fl d fin" "plenty 1 fl" "cr3 s = page2pa d" "fword s d 0 = 0"
  shows "yields (check_page_free_list kend False) s (\<lambda>_ s'. yields check_page_installed_pgdir s' (\<lambda>_ s'.
    \<exists>fl'. pages_inv s' fl' \<and> set fl' = set fl \<and> cr3 s' = page2pa d \<and> kern_pgdir s' = frame_kva d
      \<and> (\<forall>va. pte_of s' d va = pte_of s d va)))"
proof -
  have B: "pages_inv s fl" "pgdir_ok s fl d" "kern_pgdir s = frame_kva d" using b(1) by (simp_all add: boot_inv_def)
  have n: "3 \<le> length fl" using plenty_length [OF b(2)] by simp
  show ?thesis
  proof (rule yields_mono [OF check_page_free_list_yields [OF B(1) plenty_listable [OF b(1,2)]]], elim conjE, unfold reordered_def if_False)
    fix s1 assume 1: "pages_inv s1 fl" "tested s s1 fl"
    note T1 = tested_pgdir [OF 1(2) B(2) subset_refl]
    have w: "fword s1 d 0 = 0" using T1(4) [of 0] b(4) by simp
    have c: "kern_pgdir s1 = frame_kva d" "cr3 s1 = page2pa d" using testedD(3,5) [OF 1(2)] B(3) b(3) by simp_all
    show "yields check_page_installed_pgdir s1 (\<lambda>_ s'. \<exists>fl'. pages_inv s' fl' \<and> set fl' = set fl \<and> cr3 s' = page2pa d
        \<and> kern_pgdir s' = frame_kva d \<and> (\<forall>va. pte_of s' d va = pte_of s d va))"
    proof (rule yields_mono [OF check_page_installed_yields [OF 1(1) n T1(1) c w]], elim exE conjE)
      fix s2 fl' assume 2: "set fl' = set fl" "pages_inv s2 fl'" "tested s1 s2 fl"
      have "pte_of s2 d va = pte_of s d va" for va
        using tested_pgdir(2) [OF 2(3) T1(1) subset_refl PTX_lt] T1(2) [OF PTX_lt] by simp
      then show "\<exists>fl'. pages_inv s2 fl' \<and> set fl' = set fl \<and> cr3 s2 = page2pa d
        \<and> kern_pgdir s2 = frame_kva d \<and> (\<forall>va. pte_of s2 d va = pte_of s d va)"
        using 2 c testedD(3,5) [OF 2(3)] by auto
    qed
  qed
qed

section \<open>The whole function\<close>

text \<open>The pages \<open>page_init\<close> finds free.\<close>

definition first_free :: "nat \<Rightarrow> nat \<Rightarrow> nat list" where
  "first_free d n = filter (\<lambda>i. i \<noteq> 7 \<and> (i < 160 \<or> tables_end d n \<le> i)) [1..<n]"

lemma first_free_plenty:
  assumes "tables_end d n \<le> 1300" "2048 \<le> n"
  shows "plenty 69 (first_free d n)"
proof -
  have "card {8..<160 :: nat} \<le> card {p \<in> set (first_free d n). p < 160}"
    using assms by (intro card_mono) (auto simp: first_free_def)
  moreover have "card {1300..<2048 :: nat} \<le> card {p \<in> set (first_free d n). \<not> p < 160}"
    using assms by (intro card_mono) (auto simp: first_free_def)
  ultimately show ?thesis by (simp add: plenty_def)
qed

lemma yields_intro: "m s = Ret a s' \<Longrightarrow> Q a s' \<Longrightarrow> yields m s Q"
  by (simp add: yields_def)

lemma mem_init_yields:
  assumes t: "mem_init_tables cmos kend s0 = Ret (pages_va, envs_va) s"
    and b: "boot_inv s fl d fin" "plenty 69 fl" and e: "empty_dir s d" "mmio_base s = MMIOBASE" "fword s d uvpt_index AND PTE_P \<noteq> 0"
    and np: "0 < npages s"
    and A: "\<forall>a \<in> {pages_va, envs_va, bootstack} \<union> kstacks ` {..<8}. KERNBASE \<le> a \<and> 4096 dvd unat (a - KERNBASE)"
  shows "yields (mem_init False cmos kend bootstack kstacks cr0) s0 (\<lambda>x s'. x = mem_init_cr0 cr0 \<and> cr3 s' = page2pa d
    \<and> kern_pgdir s' = frame_kva d \<and> (\<exists>fl'. pages_inv s' fl' \<and> length fl = 68 + length fl')
    \<and> (\<forall>va. pte_of s' d va = kernel_space pages_va (npages s) envs_va kstacks (unat (PGNUM va))))"
    (is "yields _ _ ?Q")
proof -
  have b': "plenty (Suc 68) fl" using b(2) by simp
  show ?thesis
    unfolding mem_init_def Let_def yields_kbind
  proof (rule yields_intro [where m = "mem_init_tables cmos kend", OF t], unfold prod.case yields_kbind, rule yields_mono [OF mem_init_tests_yields [OF b(1) b' e]], elim exE conjE)
    fix s1 fl1 assume 1: "boot_inv s1 fl1 d fin" "only_devices s1 d" "length fl = Suc (length fl1)" "plenty 68 fl1" "npages s1 = npages s"
    have p: "plenty (67 + 1) fl1" "0 < npages s1" using 1(4,5) np by simp_all
    show "yields (mem_init_regions False bootstack kstacks pages_va envs_va) s1 (\<lambda>_ s'.
      yields (check_kern_pgdir False kstacks pages_va envs_va) s' (\<lambda>_ s'. yields load_kern_pgdir s' (\<lambda>_ s'.
      yields (check_page_free_list kend False) s' (\<lambda>_ s'. yields check_page_installed_pgdir s' (\<lambda>_ s'.
      yields (kreturn (mem_init_cr0 cr0)) s' ?Q)))))"
    proof (rule yields_mono [OF mem_init_regions_yields [OF 1(1) p(1) 1(2) p(2) A]], elim exE conjE)
      fix s2 fl2 assume 2: "boot_inv s2 fl2 d fin" "kernel_dir s2 fl2 d (kernel_space pages_va (npages s1) envs_va kstacks)"
        "fword s2 d 0 = 0" "length fl1 = 67 + length fl2" "plenty 1 fl2" "npages s2 = npages s1"
      have K: "kernel_dir s2 fl2 d (kernel_space pages_va (npages s2) envs_va kstacks)" using 2(2,6) by simp
      have np2: "0 < npages s2" using p 2(6) by simp
      have A2: "\<forall>a \<in> {pages_va, envs_va} \<union> kstacks ` {..<8}. KERNBASE \<le> a \<and> 4096 dvd unat (a - KERNBASE)" using A by blast
      have d: "kern_pgdir s2 = frame_kva d" "d < 65536"
        using 2(1) pgdir_okD(1) pages_invD(2) by (force simp: boot_inv_def)+
      let ?s3 = "s2\<lparr>cr3 := page2pa d\<rparr>"
      have b3: "boot_inv ?s3 fl2 d fin" using 2(1) by (simp only: boot_inv_cr3)
      have w3: "cr3 ?s3 = page2pa d" "fword ?s3 d 0 = 0" using 2(3) by (simp_all add: fword_def)
      have E: "pte_of ?s3 d va = kernel_space pages_va (npages s) envs_va kstacks (unat (PGNUM va))" for va
        using kernel_dir_cr3 [OF K, of "page2pa d" va] 1(5) 2(6) by simp
      show "yields (check_kern_pgdir False kstacks pages_va envs_va) s2 (\<lambda>_ s'. yields load_kern_pgdir s' (\<lambda>_ s'.
        yields (check_page_free_list kend False) s' (\<lambda>_ s'. yields check_page_installed_pgdir s' (\<lambda>_ s'.
        yields (kreturn (mem_init_cr0 cr0)) s' ?Q))))"
      proof (unfold yields_pure [OF check_kern_pgdir_yields [OF K np2 A2]], rule yields_intro [where m = load_kern_pgdir, OF load_kern_pgdir_run [OF d]],
          rule yields_mono [OF last_tests_yield [OF b3 2(5) w3]], erule yields_mono, elim exE conjE)
        fix s4 fl4 assume 4: "pages_inv s4 fl4" "set fl4 = set fl2" "cr3 s4 = page2pa d" "kern_pgdir s4 = frame_kva d"
          "\<forall>va. pte_of s4 d va = pte_of ?s3 d va"
        have "distinct fl4" "distinct fl2" using pages_invD(3) 4(1) 2(1) by (auto simp: boot_inv_def)
        then have "length fl4 = length fl2" using 4(2) by (metis distinct_card)
        then have "length fl = 68 + length fl4" using 1(3) 2(4) by simp
        with 4 E show "yields (kreturn (mem_init_cr0 cr0)) s4 ?Q" by auto
      qed
    qed
  qed
qed

text \<open>The state after the first half.\<close>

lemma tables_boot_inv:
  assumes k: "KERNBASE + EXTPHYSMEM \<le> kend" "kend \<le> KERNBASE + PTSIZE"
    and np: "2048 \<le> detected_pages cmos" "detected_pages cmos \<le> 65536"
  defines "d \<equiv> first_page kend" and "n \<equiv> detected_pages cmos"
  obtains s where "mem_init_tables cmos kend bss_kstate = Ret (frame_kva (d + 1), frame_kva (d + 1 + npgs (of_nat n * sizeof_PageInfo))) s"
    "boot_inv s (first_free d n) d (tables_end d n)" "plenty 69 (first_free d n)" "empty_dir s d" "mmio_base s = MMIOBASE"
    "fword s d uvpt_index AND PTE_P \<noteq> 0" "npages s = n" "d + 1 + npgs (of_nat n * sizeof_PageInfo) < 2048"
proof -
  let ?m = "npgs (of_nat n * sizeof_PageInfo)"
  obtain s where s: "mem_init_tables cmos kend bss_kstate = Ret (frame_kva (d + 1), frame_kva (d + 1 + ?m)) s"
      "pages_inv s (first_free d n)" "kern_pgdir s = frame_kva d" "npages s = n" "nextfree s = frame_kva (tables_end d n)"
      "mmio_base s = MMIOBASE" "\<forall>i < 1024. fword s d i = (if i = uvpt_index then page2pa d OR PTE_U OR PTE_P else 0)"
    using mem_init_tables_runs [OF k np] unfolding d_def n_def first_free_def by blast
  have "4027580416 \<le> unat kend" "unat kend \<le> 4030726144"
    using k by (simp_all add: word_le_nat_alt mmu_consts)
  moreover from this have "unat (kend - KERNBASE) = unat kend - 4026531840" by (simp add: KERNBASE_def unat_sub_if_size word_size)
  ultimately have d: "256 \<le> d" "d \<le> 1024" unfolding d_def first_page_def npgs_def by linarith+
  have m: "?m \<le> 128" using pages_npgs np(2) by (simp add: n_def)
  then have e: "tables_end d n \<le> 1300" "d < tables_end d n" "256 < tables_end d n" using d by (simp_all add: tables_end_def)
  have n: "2048 \<le> n" "n \<le> 65536" using np by (simp_all add: n_def)
  have E: "empty_dir s d" using s(7) by (simp add: empty_dir_def)
  have "d \<notin> set (first_free d n)" using d e(2) by (auto simp: first_free_def)
  then have "pgdir_ok s (first_free d n) d" using s(4) d n empty_dirD(1) [OF E] by (simp add: pgdir_ok_def)
  moreover have "\<forall>p \<in> set (first_free d n). fit_for_list (tables_end d n) p" by (auto simp: first_free_def fit_for_list_def)
  ultimately have "boot_inv s (first_free d n) d (tables_end d n)"
    using s e n empty_dirD(3) [OF E] by (simp add: boot_inv_def)
  moreover have "(page2pa d OR PTE_U OR PTE_P) AND PTE_P = PTE_P" by (rule bit_word_eqI) (auto simp: bit_simps)
  then have "fword s d uvpt_index AND PTE_P \<noteq> 0" using s(7) by (simp add: uvpt_index_def PTE_P_def)
  moreover have "d + 1 + ?m < 2048" using d m by simp
  ultimately show thesis using that s E first_free_plenty [OF e(1) n(1)] by blast
qed



text \<open>
  Property C32. \<open>check_page_free_list\<close> accepts every list of pages the kernel may hand out and, asked for the
  low pages first (the entry directory maps only 4 MB), leaves it a partition: the pages below 4 MB in
  their order, then the others in theirs. It keeps the allocator's invariant and writes no page that
  is not free.
\<close>

theorem check_page_free_list_orders:
  assumes "pages_inv s fl" "listable s fl fin"
  shows "\<exists>s'. check_page_free_list kend only_low s = Ret () s' \<and> pages_inv s' (reordered only_low fl)
    \<and> (\<forall>f i. f \<notin> set fl \<longrightarrow> i < 1024 \<longrightarrow> fword s' f i = fword s f i)"
  using check_page_free_list_yields [OF assms, of kend only_low]
  by (auto simp: yields_def tested_def split: kres.splits)

theorem check_page_free_list_orders_witness:
  "\<exists>s s'. mem_init_tables small_cmos 0xF0120000 bss_kstate = Ret (frame_kva 289, frame_kva 293) s
    \<and> check_page_free_list 0xF0120000 True s = Ret () s' \<and> pages_inv s' (reordered True (first_free 288 2048))"
proof -
  obtain s where "mem_init_tables small_cmos 0xF0120000 bss_kstate = Ret (frame_kva 289, frame_kva 293) s"
      "boot_inv s (first_free 288 2048) 288 (tables_end 288 2048)" "plenty 69 (first_free 288 2048)"
    using tables_boot_inv [of "0xF0120000" small_cmos] unfolding small_boot
    by (auto simp: mmu_consts npgs_def sizeof_PageInfo_def)
  then show ?thesis
    using check_page_free_list_orders [of s "first_free 288 2048" "tables_end 288 2048" "0xF0120000" True] plenty_listable
    by (auto simp: boot_inv_def)
qed

end
