(* ===== verification/Jos_Mpconfig.thy ===== *)
theory Jos_Mpconfig
  imports Jos_Meminit
begin

text \<open>
  Finding the processors: \<^verbatim>\<open>tps/kern/mpconfig.c\<close>. The BIOS leaves a structure in one of three places
  which points to a table with an entry for each processor, bus and interrupt line. The variables
  the file defines are a record; \<open>cpus[i].cpu_status\<close> is in the kernel's state. A pointer into the
  tables is a kernel address. The scan for the structure has a step for each 16 bytes and two more
  as fuel; the loop over the table is bounded by the table's own count.
\<close>

section \<open>The definitions\<close>

record mp_globals =
  bootcpu :: nat
  ismp :: bool
  ncpu :: nat
  lapicaddr :: u32
  cpu_ids :: "nat \<Rightarrow> u8"
  imcr :: bool

text \<open>\<open>imcr\<close> is the bit of the interrupt mode register that the last lines set.\<close>

definition kbyte :: "u32 \<Rightarrow> kstate \<Rightarrow> u8" where
  "kbyte a s = pmem s (kphys a)"

definition MPPROC_BOOT :: u8 where "MPPROC_BOOT = 0x02"
definition MPPROC :: u8 where "MPPROC = 0x00"
definition MPBUS :: u8 where "MPBUS = 0x01"
definition MPIOAPIC :: u8 where "MPIOAPIC = 0x02"
definition MPIOINTR :: u8 where "MPIOINTR = 0x03"
definition MPLINTR :: u8 where "MPLINTR = 0x04"

text \<open>The fields of the packed structures \<open>mp\<close>, \<open>mpconf\<close> and \<open>mpproc\<close>.\<close>

definition mp_physaddr :: "u32 \<Rightarrow> kstate \<Rightarrow> u32" where "mp_physaddr mp = kload (mp + 4)"
definition mp_type :: "u32 \<Rightarrow> kstate \<Rightarrow> u8" where "mp_type mp = kbyte (mp + 11)"
definition mp_imcrp :: "u32 \<Rightarrow> kstate \<Rightarrow> u8" where "mp_imcrp mp = kbyte (mp + 12)"
definition conf_length :: "u32 \<Rightarrow> kstate \<Rightarrow> u16" where "conf_length conf = kload16 (conf + 4)"
definition conf_version :: "u32 \<Rightarrow> kstate \<Rightarrow> u8" where "conf_version conf = kbyte (conf + 6)"
definition conf_entry :: "u32 \<Rightarrow> kstate \<Rightarrow> u16" where "conf_entry conf = kload16 (conf + 34)"
definition conf_lapicaddr :: "u32 \<Rightarrow> kstate \<Rightarrow> u32" where "conf_lapicaddr conf = kload (conf + 36)"
definition conf_xlength :: "u32 \<Rightarrow> kstate \<Rightarrow> u16" where "conf_xlength conf = kload16 (conf + 40)"
definition conf_xchecksum :: "u32 \<Rightarrow> kstate \<Rightarrow> u8" where "conf_xchecksum conf = kbyte (conf + 42)"
definition conf_entries :: "u32 \<Rightarrow> u32" where "conf_entries conf = conf + 44"
definition proc_flags :: "u32 \<Rightarrow> kstate \<Rightarrow> u8" where "proc_flags p = kbyte (p + 3)"
definition sizeof_mp :: u32 where "sizeof_mp = 16"
definition sizeof_mpproc :: u32 where "sizeof_mpproc = 20"

definition mp_sum :: "u32 \<Rightarrow> nat \<Rightarrow> kstate \<Rightarrow> u8" where
  "mp_sum addr len s = fold (\<lambda>i sum. sum + kbyte (addr + of_nat i) s) [0..<len] 0"

definition same_bytes :: "u32 \<Rightarrow> string \<Rightarrow> kstate \<Rightarrow> bool" where
  "same_bytes a cs s = list_all (\<lambda>i. kbyte (a + of_nat i) s = of_char (cs ! i)) [0..<length cs]"

definition is_mp :: "u32 \<Rightarrow> kstate \<Rightarrow> bool" where
  "is_mp mp s \<longleftrightarrow> same_bytes mp ''_MP_'' s \<and> mp_sum mp (unat sizeof_mp) s = 0"

primrec mpsearch1_loop :: "nat \<Rightarrow> u32 \<Rightarrow> u32 \<Rightarrow> u32 option kM" where
  "mpsearch1_loop 0 mp lim = (\<lambda>s. OutOfFuel)"
| "mpsearch1_loop (Suc n) mp lim =
     (if mp < lim
      then kbind (kget (is_mp mp)) (\<lambda>b. if b then kreturn (Some mp) else mpsearch1_loop n (mp + sizeof_mp) lim)
      else kreturn None)"

definition mpsearch1 :: "u32 \<Rightarrow> u32 \<Rightarrow> u32 option kM" where
  "mpsearch1 a len =
     kbind (KADDR a) (\<lambda>mp. kbind (KADDR (a + len)) (\<lambda>lim. mpsearch1_loop (unat len div 16 + 2) mp lim))"

definition mpsearch :: "u32 option kM" where
  "mpsearch =
     kbind (KADDR (push_bit 4 0x40)) (\<lambda>bda.
     kbind (kget (kload16 (bda + 0x0E))) (\<lambda>p.
     kbind (if p \<noteq> 0 then mpsearch1 (push_bit 4 (ucast p)) 1024
            else kbind (kget (kload16 (bda + 0x13))) (\<lambda>p. mpsearch1 (ucast p * 1024 - 1024) 1024)) (\<lambda>r.
       case r of Some mp \<Rightarrow> kreturn (Some mp) | None \<Rightarrow> mpsearch1 0xF0000 0x10000)))"

definition mpconf_ok :: "u32 \<Rightarrow> kstate \<Rightarrow> bool" where
  "mpconf_ok conf s \<longleftrightarrow> same_bytes conf ''PCMP'' s
     \<and> mp_sum conf (unat (conf_length conf s)) s = 0
     \<and> (conf_version conf s = 1 \<or> conf_version conf s = 4)
     \<and> mp_sum (conf + ucast (conf_length conf s)) (unat (conf_xlength conf s)) s + conf_xchecksum conf s = 0"

definition mpconfig :: "(u32 \<times> u32) option kM" where
  "mpconfig = kbind mpsearch (\<lambda>r. case r of
     None \<Rightarrow> kreturn None
   | Some mp \<Rightarrow> kbind (kget (mp_physaddr mp)) (\<lambda>pa. kbind (kget (mp_type mp)) (\<lambda>ty.
       if pa = 0 \<or> ty \<noteq> 0 then kreturn None
       else kbind (KADDR pa) (\<lambda>conf. kbind (kget (mpconf_ok conf)) (\<lambda>ok.
         if ok then kreturn (Some (mp, conf)) else kreturn None)))))"

definition add_cpu :: "u8 \<Rightarrow> mp_globals \<Rightarrow> mp_globals" where
  "add_cpu flags g =
     (let g = (if flags AND MPPROC_BOOT \<noteq> 0 then g\<lparr>bootcpu := ncpu g\<rparr> else g) in
      if ncpu g < NCPU then g\<lparr>cpu_ids := (cpu_ids g)(ncpu g := of_nat (ncpu g)), ncpu := ncpu g + 1\<rparr> else g)"

primrec mp_entries :: "nat \<Rightarrow> u32 \<Rightarrow> mp_globals \<Rightarrow> mp_globals kM" where
  "mp_entries 0 p g = kreturn g"
| "mp_entries (Suc n) p g =
     kbind (kget (kbyte p)) (\<lambda>ty.
       if ty = MPPROC then kbind (kget (proc_flags p)) (\<lambda>flags. mp_entries n (p + sizeof_mpproc) (add_cpu flags g))
       else if ty \<in> {MPBUS, MPIOAPIC, MPIOINTR, MPLINTR} then mp_entries n (p + 8) g
       else kreturn (g\<lparr>ismp := False\<rparr>))"

definition mp_init :: "mp_globals \<Rightarrow> mp_globals kM" where
  "mp_init g =
    (let g = g\<lparr>bootcpu := 0\<rparr> in
     kbind mpconfig (\<lambda>r. case r of
       None \<Rightarrow> kreturn g
     | Some (mp, conf) \<Rightarrow>
         kbind (kget (conf_lapicaddr conf)) (\<lambda>la.
         kbind (kget (conf_entry conf)) (\<lambda>n.
         kbind (mp_entries (unat n) (conf_entries conf) (g\<lparr>ismp := True, lapicaddr := la\<rparr>)) (\<lambda>g.
         kbind (kmodify (\<lambda>s. s\<lparr>cpus := (cpus s)(bootcpu g := (cpus s (bootcpu g))\<lparr>cpu_status := CPU_STARTED\<rparr>)\<rparr>)) (\<lambda>_.
           if \<not> ismp g then kreturn (g\<lparr>ncpu := 1, lapicaddr := 0\<rparr>)
           else kbind (kget (mp_imcrp mp)) (\<lambda>imcrp.
             kreturn (if imcrp \<noteq> 0 then g\<lparr>imcr := True\<rparr> else g))))))))"

section \<open>The search\<close>

lemma mpsearch1_loop_finds:
  assumes "unat b + 16 * m < 4294967296" "j \<le> m" "m - j < n"
  shows "mpsearch1_loop n (b + 16 * of_nat j) (b + 16 * of_nat m) s
    = Ret (map_option (\<lambda>k. b + 16 * of_nat k) (find (\<lambda>k. is_mp (b + 16 * of_nat k) s) [j..<m])) s"
  using assms(2,3)
proof (induction n arbitrary: j)
  case (Suc n)
  have u: "unat (b + 16 * of_nat i) = unat b + 16 * i" if "i \<le> m" for i
  proof -
    have "16 * i < 4294967296" using that assms(1) by simp
    then have "unat (16 * of_nat i :: u32) = 16 * i" by (simp add: unat_word_ariths unat_of_nat)
    then show ?thesis using that assms(1) by (simp add: unat_word_ariths)
  qed
  have lt: "b + 16 * of_nat j < b + 16 * of_nat m \<longleftrightarrow> j < m" using u [of j] u [of m] Suc.prems(1) by (simp add: word_less_nat_alt)
  have nx: "b + 16 * of_nat j + 16 = b + 16 * of_nat (Suc j)" by (simp add: algebra_simps)
  show ?case
  proof (cases "j < m")
    case True
    have "Suc j \<le> m" "m - Suc j < n" using True Suc.prems by auto
    note IH = Suc.IH [OF this]
    from True have "[j..<m] = j # [Suc j..<m]" by (rule upt_conv_Cons)
    then show ?thesis using IH by (simp add: lt True sizeof_mp_def nx del: of_nat_Suc)
  qed (simp add: lt)
qed simp

text \<open>The first of the places, in steps of 16 bytes, that holds a structure; or the memory ends before.\<close>

lemma mpsearch1_finds:
  assumes np: "npages s \<le> 65536" and a: "unat a + 16 * m < 4294967296"
  shows "mpsearch1 a (16 * of_nat m) s =
    (if npages s * 4096 \<le> unat a + 16 * m then Panic ''KADDR called with invalid pa''
     else Ret (map_option (\<lambda>k. a + KERNBASE + 16 * of_nat k) (find (\<lambda>k. is_mp (a + KERNBASE + 16 * of_nat k) s) [0..<m])) s)"
proof -
  have "16 * m < 4294967296" using a by simp
  then have l: "unat (16 * of_nat m :: u32) = 16 * m" by (simp add: unat_word_ariths unat_of_nat)
  then have e: "unat (a + 16 * of_nat m) = unat a + 16 * m" using a by (simp add: unat_word_ariths)
  have P: "npages s \<le> unat (PGNUM x) \<longleftrightarrow> npages s * 4096 \<le> unat x" for x :: u32
    by (simp add: unat_PGNUM less_eq_div_iff_mult_less_eq)
  show ?thesis
  proof (cases "npages s * 4096 \<le> unat a + 16 * m")
    case True
    then show ?thesis by (simp add: mpsearch1_def kbind_def KADDR_def P e)
  next
    case False
    then have "\<not> npages s * 4096 \<le> unat a" by simp
    moreover from False np have "unat a + 16 * m < 268435456" by simp
    then have "unat (a + KERNBASE) + 16 * m < 4294967296" by (simp add: unat_word_ariths KERNBASE_def)
    note F = mpsearch1_loop_finds [OF this, of 0 "m + 2" s]
    moreover have "16 * m div 16 + 2 = m + 2" by simp
    moreover have "KADDR (a + 16 * of_nat m) s = Ret (a + KERNBASE + 16 * of_nat m) s"
      using False by (simp add: KADDR_def P e)
    moreover have "KADDR a s = Ret (a + KERNBASE) s" using calculation(1) by (simp add: KADDR_def P)
    ultimately show ?thesis
      using False F by (simp only: mpsearch1_def kbind_Ret l) simp
  qed
qed

text \<open>So the search ends, whatever the memory holds.\<close>

definition reads :: "'a kM \<Rightarrow> bool" where
  "reads m \<longleftrightarrow> (\<forall>s. npages s \<le> 65536 \<longrightarrow> (\<exists>a. m s = Ret a s) \<or> (\<exists>msg. m s = Panic msg))"

lemma reads_bind: "reads m \<Longrightarrow> (\<And>a. reads (f a)) \<Longrightarrow> reads (kbind m f)"
  unfolding reads_def kbind_def by (fastforce split: kres.splits)

lemma reads_simps: "reads (kreturn a)" "reads (kget f)" "reads (KADDR pa)"
  by (simp_all add: reads_def KADDR_def)

lemma reads_search: "unat a + 16 * m < 4294967296 \<Longrightarrow> reads (mpsearch1 a (16 * of_nat m))"
  unfolding reads_def by (simp add: mpsearch1_finds)

lemma unat_lt16: "unat (p :: u16) < 65536"
  using unsigned_less [of p, where 'a = nat] by simp

lemma unat_ucast16: "unat (ucast (p :: u16) :: u32) = unat p"
  using unat_lt16 [of p] by (simp add: unsigned_ucast_eq take_bit_nat_eq_self)

lemma reads_mpsearch: "reads mpsearch"
proof -
  have 1: "reads (mpsearch1 (push_bit 4 (ucast p)) 1024)" for p :: u16
  proof -
    have "unat (push_bit 4 (ucast p) :: u32) = 16 * unat p"
      using unat_lt16 [of p] by (simp add: push_bit_eq_mult unat_word_ariths unat_ucast16)
    then have "unat (push_bit 4 (ucast p) :: u32) + 16 * 64 < 4294967296" using unat_lt16 [of p] by simp
    from reads_search [OF this] show ?thesis by simp
  qed
  have 2: "reads (mpsearch1 (ucast p * 1024 - 1024) 1024)" for p :: u16
  proof (cases "p = 0")
    case True
    have "unat (0xFFFFFC00 :: u32) = 4294966272" by simp
    then show ?thesis using True by (simp add: reads_def mpsearch1_def kbind_def KADDR_def unat_PGNUM)
  next
    case False
    have "unat p \<noteq> 0" using False by (simp add: unat_eq_zero)
    then have "unat (ucast p * 1024 - 1024 :: u32) = unat p * 1024 - 1024"
      using unat_lt16 [of p] by (simp add: unat_word_ariths unat_sub_if_size word_size unat_ucast16)
    then have "unat (ucast p * 1024 - 1024 :: u32) + 16 * 64 < 4294967296" using unat_lt16 [of p] by simp
    from reads_search [OF this] show ?thesis by simp
  qed
  have 3: "reads (mpsearch1 0xF0000 0x10000)" using reads_search [of "0xF0000" 4096] by simp
  show ?thesis
    unfolding mpsearch_def by (intro reads_bind reads_simps) (auto intro!: reads_bind reads_simps 1 2 3 split: option.split)
qed

lemma reads_mpconfig: "reads mpconfig"
  unfolding mpconfig_def by (intro reads_bind reads_mpsearch) (auto intro!: reads_bind reads_simps split: option.split)

section \<open>The table\<close>

text \<open>What the table says: the flags of the processors, and entries of the other known types.\<close>

datatype mp_entry = Processor u8 | Device u8 | Unknown u8

primrec table_at :: "kstate \<Rightarrow> u32 \<Rightarrow> mp_entry list \<Rightarrow> bool" where
  "table_at s p [] = True"
| "table_at s p (e # es) = (case e of
     Processor flags \<Rightarrow> kbyte p s = 0 \<and> kbyte (p + 3) s = flags \<and> table_at s (p + 20) es
   | Device ty \<Rightarrow> kbyte p s = ty \<and> 1 \<le> ty \<and> ty \<le> 4 \<and> table_at s (p + 8) es
   | Unknown ty \<Rightarrow> kbyte p s = ty \<and> 4 < ty)"

fun is_unknown :: "mp_entry \<Rightarrow> bool" where
  "is_unknown (Unknown _) = True"
| "is_unknown _ = False"

text \<open>The flags of the processors before the first unknown entry.\<close>

fun boot_flags :: "mp_entry list \<Rightarrow> bool list" where
  "boot_flags [] = []"
| "boot_flags (Processor flags # es) = (flags AND 2 \<noteq> 0) # boot_flags es"
| "boot_flags (Device _ # es) = boot_flags es"
| "boot_flags (Unknown _ # es) = []"

definition add_boot :: "bool \<Rightarrow> mp_globals \<Rightarrow> mp_globals" where
  "add_boot b = add_cpu (if b then 2 else 0)"

lemma add_cpu_flags: "add_cpu flags g = add_boot (flags AND 2 \<noteq> 0) g"
  by (simp add: add_boot_def add_cpu_def MPPROC_BOOT_def)

lemma device_types: "1 \<le> ty \<and> ty \<le> 4 \<longleftrightarrow> ty = 1 \<or> ty = 2 \<or> ty = 3 \<or> ty = (4 :: u8)"
proof
  assume "1 \<le> ty \<and> ty \<le> 4"
  then have "1 \<le> unat ty" "unat ty \<le> 4" by (simp_all add: word_le_nat_alt)
  then have "unat ty = 1 \<or> unat ty = 2 \<or> unat ty = 3 \<or> unat ty = 4" by linarith
  then show "ty = 1 \<or> ty = 2 \<or> ty = 3 \<or> ty = 4" by (simp add: word_unat_eq_iff)
qed auto

lemma mp_entries_read:
  "table_at s p es \<Longrightarrow> mp_entries (length es) p g s
    = Ret (let g' = fold add_boot (boot_flags es) g in if list_ex is_unknown es then g'\<lparr>ismp := False\<rparr> else g') s"
proof (induction es arbitrary: p g)
  case (Cons e es)
  show ?case
  proof (cases e)
    case (Processor flags)
    then show ?thesis
      using Cons by (simp add: MPPROC_def proc_flags_def sizeof_mpproc_def add_cpu_flags)
  next
    case (Device ty)
    then have "ty = 1 \<or> ty = 2 \<or> ty = 3 \<or> ty = 4" "kbyte p s = ty" "table_at s (p + 8) es"
      using Cons.prems device_types [of ty] by simp_all
    then show ?thesis
      using Device Cons.IH by (auto simp: MPPROC_def MPBUS_def MPIOAPIC_def MPIOINTR_def MPLINTR_def)
  next
    case (Unknown ty)
    then have "kbyte p s = ty" "4 < ty" using Cons.prems by simp_all
    moreover from this have "ty \<noteq> 0" "\<not> (ty = 1 \<or> ty = 2 \<or> ty = 3 \<or> ty = 4)" using device_types [of ty] by auto
    ultimately show ?thesis
      using Unknown by (simp add: MPPROC_def MPBUS_def MPIOAPIC_def MPIOINTR_def MPLINTR_def)
  qed
qed simp

text \<open>The processors counted, and the last one with the flag of the bootstrap processor.\<close>

definition last_boot :: "bool list \<Rightarrow> nat" where
  "last_boot bs = (let bps = filter (\<lambda>i. bs ! i) [0..<length bs] in if bps = [] then 0 else min NCPU (last bps))"

lemma last_boot_snoc: "last_boot (bs @ [b]) = (if b then min NCPU (length bs) else last_boot bs)"
proof -
  have "filter (\<lambda>i. (bs @ [b]) ! i) [0..<length (bs @ [b])] = filter (\<lambda>i. bs ! i) [0..<length bs] @ (if b then [length bs] else [])"
    by (auto simp: nth_append intro: filter_cong)
  then show ?thesis by (simp add: last_boot_def Let_def)
qed

lemma add_boots:
  assumes "ncpu g = 0" "bootcpu g = 0"
  shows "fold add_boot bs g = g\<lparr>ncpu := min NCPU (length bs), bootcpu := last_boot bs,
    cpu_ids := (\<lambda>i. if i < min NCPU (length bs) then of_nat i else cpu_ids g i)\<rparr>"
proof (induction bs rule: rev_induct)
  case Nil
  then show ?case using assms by (simp add: last_boot_def)
next
  case (snoc b bs)
  show ?case
    unfolding fold_append snoc.IH o_apply
    by (auto simp: add_boot_def add_cpu_def MPPROC_BOOT_def Let_def last_boot_snoc min_def fun_eq_iff less_Suc_eq)
qed

section \<open>mp_init\<close>

text \<open>
  Property C35. \<open>mp_init\<close> reads what the table says. It counts the processors, at most eight, numbers them in
  their order and takes the last one flagged as the bootstrap processor, which it marks started
  (\<open>last_boot\<close> is 8, one past the array, when that processor is beyond the eighth). An entry of an unknown
  type makes it fall back to one processor without a local interrupt controller. Nothing else changes.
\<close>

theorem mp_init_counts_cpus:
  assumes "mpconfig s = Ret (Some (mp, conf)) s"
    and "table_at s (conf_entries conf) es" "length es = unat (conf_entry conf s)" "ncpu g = 0"
  shows "let n = min NCPU (length (boot_flags es)); b = last_boot (boot_flags es); known = (\<not> list_ex is_unknown es) in
    \<exists>g'. mp_init g s = Ret g' (s\<lparr>cpus := (cpus s)(b := (cpus s b)\<lparr>cpu_status := CPU_STARTED\<rparr>)\<rparr>)
      \<and> ismp g' = known \<and> bootcpu g' = b \<and> (\<forall>i < n. cpu_ids g' i = of_nat i)
      \<and> ncpu g' = (if known then n else 1) \<and> lapicaddr g' = (if known then conf_lapicaddr conf s else 0)"
proof -
  let ?g = "g\<lparr>bootcpu := 0, ismp := True, lapicaddr := conf_lapicaddr conf s\<rparr>"
  have e: "mp_entries (unat (conf_entry conf s)) (conf_entries conf) ?g s
      = Ret (let g' = fold add_boot (boot_flags es) ?g in if list_ex is_unknown es then g'\<lparr>ismp := False\<rparr> else g') s"
    using mp_entries_read [OF assms(2), of ?g] assms(3) by simp
  have a: "fold add_boot (boot_flags es) ?g = ?g\<lparr>ncpu := min NCPU (length (boot_flags es)), bootcpu := last_boot (boot_flags es),
    cpu_ids := (\<lambda>i. if i < min NCPU (length (boot_flags es)) then of_nat i else cpu_ids g i)\<rparr>"
  proof -
    have c: "cpu_ids ?g = cpu_ids g" by simp
    show ?thesis by (rule add_boots [of ?g, unfolded c]) (simp_all add: assms(4))
  qed
  show ?thesis
    unfolding Let_def mp_init_def by (simp add: assms(1) e [unfolded a Let_def])
qed

text \<open>A machine with two processors and a bus, whose structure is at the start of the BIOS's own data area.\<close>

definition mp_memory :: bmem where
  "mp_memory = (\<lambda>_. 0)(0x40F := 0x08,
     0x8000 := 0x5F, 0x8001 := 0x4D, 0x8002 := 0x50, 0x8003 := 0x5F, 0x8005 := 0x90, 0x8008 := 1, 0x8009 := 4, 0x800A := 16,
     0x9000 := 0x50, 0x9001 := 0x43, 0x9002 := 0x4D, 0x9003 := 0x50, 0x9004 := 92, 0x9006 := 4, 0x9007 := 138,
     0x9022 := 3, 0x9026 := 0xE0, 0x9027 := 0xFE, 0x902F := 3, 0x9040 := 1, 0x904B := 1)"

definition mp_machine :: kstate where
  "mp_machine = bss_kstate\<lparr>npages := 2048, pmem := mp_memory\<rparr>"

lemma mp_machine_bytes: "kbyte (KERNBASE + a) mp_machine = mp_memory (unat a)" "kbyte (a + KERNBASE) mp_machine = mp_memory (unat a)"
  "npages mp_machine = 2048" "pmem mp_machine = mp_memory"
  by (simp_all add: kbyte_def mp_machine_def kphys_def)

lemma mp_machine_config: "mpconfig mp_machine = Ret (Some (0xF0008000, 0xF0009000)) mp_machine"
proof -
  have b: "kload16 (KERNBASE + 0x40E) mp_machine = 0x800"
    by (simp add: kload16_def kphys_def mp_machine_def mp_memory_def mmu_consts)
  have m: "is_mp 0xF0008000 mp_machine"
    by (simp add: is_mp_def same_bytes_def mp_sum_def sizeof_mp_def kbyte_def kphys_def mp_machine_def mp_memory_def mmu_consts upt_conv_Cons)
  have s: "mpsearch1 0x8000 1024 mp_machine = Ret (Some 0xF0008000) mp_machine"
    using mpsearch1_finds [of mp_machine "0x8000" 64] m
    by (simp add: mp_machine_bytes upt_conv_Cons KERNBASE_def)
  have f: "mpsearch mp_machine = Ret (Some 0xF0008000) mp_machine"
    using b s by (simp add: mpsearch_def KADDR_def mp_machine_bytes unat_PGNUM KERNBASE_def)
  have h: "conf_length 0xF0009000 mp_machine = 92" "conf_version 0xF0009000 mp_machine = 4" "conf_xlength 0xF0009000 mp_machine = 0"
    "conf_xchecksum 0xF0009000 mp_machine = 0" "mp_physaddr 0xF0008000 mp_machine = 0x9000" "mp_type 0xF0008000 mp_machine = 0"
    by (simp_all add: conf_length_def conf_version_def conf_xlength_def conf_xchecksum_def mp_physaddr_def mp_type_def
        kload16_def kload_def load32_def kbyte_def kphys_def mp_machine_def mp_memory_def mmu_consts)
  have c: "mp_sum 0xF0009000 92 mp_machine = 0"
    by (simp add: mp_sum_def kbyte_def kphys_def mp_machine_def mp_memory_def mmu_consts upt_conv_Cons)
  have "same_bytes 0xF0009000 ''PCMP'' mp_machine"
    by (simp add: same_bytes_def kbyte_def kphys_def mp_machine_def mp_memory_def mmu_consts upt_conv_Cons)
  moreover have "mp_sum a 0 mp_machine = 0" for a by (simp add: mp_sum_def)
  ultimately have "mpconf_ok 0xF0009000 mp_machine" by (simp add: mpconf_ok_def h c)
  then show ?thesis
    by (simp add: mpconfig_def f h KADDR_def mp_machine_bytes unat_PGNUM KERNBASE_def)
qed

lemma mp_machine_table:
  "table_at mp_machine (conf_entries 0xF0009000) [Processor 3, Device 1, Processor 1]"
  "conf_entry 0xF0009000 mp_machine = 3" "conf_lapicaddr 0xF0009000 mp_machine = 0xFEE00000"
  by (simp_all add: conf_entries_def conf_entry_def conf_lapicaddr_def kload16_def kload_def load32_def
      kbyte_def kphys_def mp_machine_def mp_memory_def mmu_consts)

definition zero_globals :: mp_globals where
  "zero_globals = \<lparr>bootcpu = 0, ismp = False, ncpu = 0, lapicaddr = 0, cpu_ids = (\<lambda>_. 0), imcr = False\<rparr>"

theorem mp_init_counts_cpus_witness:
  "\<exists>g' s'. mp_init zero_globals mp_machine = Ret g' s' \<and> ismp g' \<and> ncpu g' = 2 \<and> bootcpu g' = 0 \<and> cpu_ids g' 1 = 1
     \<and> lapicaddr g' = 0xFEE00000 \<and> cpu_status (cpus s' 0) = CPU_STARTED"
  using mp_init_counts_cpus [OF mp_machine_config mp_machine_table(1), of zero_globals] mp_machine_table(2,3)
  by (auto simp: zero_globals_def Let_def NCPU_def last_boot_def upt_conv_Cons)

text \<open>With the bootstrap processor in the ninth place of the table, the code uses \<open>cpus[8]\<close>.\<close>

theorem mp_init_boot_past_end:
  assumes "mpconfig s = Ret (Some (mp, conf)) s" "unat (conf_entry conf s) = 9"
    and "table_at s (conf_entries conf) (replicate 8 (Processor 1) @ [Processor 3])" "ncpu g = 0"
  shows "\<exists>g' s'. mp_init g s = Ret g' s' \<and> bootcpu g' = NCPU \<and> cpu_status (cpus s' NCPU) = CPU_STARTED"
proof -
  have n: "replicate 8 (Processor 1) = replicate (Suc (Suc (Suc (Suc (Suc (Suc (Suc (Suc 0)))))))) (Processor 1)" by (simp add: eval_nat_numeral)
  have b: "boot_flags (replicate 8 (Processor 1) @ [Processor 3]) = [False, False, False, False, False, False, False, False, True]"
    unfolding n by simp
  have "last_boot ([False, False, False, False, False, False, False, False] @ [True]) = NCPU"
    unfolding last_boot_snoc by (simp add: NCPU_def)
  then have l: "last_boot (boot_flags (replicate 8 (Processor 1) @ [Processor 3])) = NCPU" unfolding b by simp
  show ?thesis
    using mp_init_counts_cpus [OF assms(1,3) _ assms(4)] assms(2) by (auto simp: l Let_def)
qed

text \<open>
  Whatever the memory holds, \<open>mp_init\<close> ends: it panics, on an address outside the memory, or
  returns with at most eight processors and the memory as it was.
\<close>

lemma mp_entries_bounded:
  assumes "ncpu g \<le> NCPU" "bootcpu g \<le> NCPU"
  shows "\<exists>g'. mp_entries n p g s = Ret g' s \<and> ncpu g' \<le> NCPU \<and> bootcpu g' \<le> NCPU"
  using assms
proof (induction n arbitrary: p g)
  case (Suc n)
  have "ncpu (add_cpu f g) \<le> NCPU" "bootcpu (add_cpu f g) \<le> NCPU" for f
    using Suc.prems by (simp_all add: add_cpu_def Let_def)
  then show ?case using Suc by simp
qed simp

theorem mp_init_bounded:
  assumes "npages s \<le> 65536" "ncpu g \<le> NCPU"
  shows "case mp_init g s of Ret g' s' \<Rightarrow> ncpu g' \<le> NCPU \<and> bootcpu g' \<le> NCPU \<and> pmem s' = pmem s
    | Panic _ \<Rightarrow> True | _ \<Rightarrow> False"
proof -
  from reads_mpconfig assms(1) consider r where "mpconfig s = Ret r s" | msg where "mpconfig s = Panic msg"
    by (auto simp: reads_def)
  then show ?thesis
  proof cases
    case (1 r)
    show ?thesis
    proof (cases r)
      case None
      then show ?thesis using 1 assms(2) by (simp add: mp_init_def Let_def)
    next
      case (Some x)
      obtain mp conf where x: "x = (mp, conf)" by (cases x)
      obtain g' where g': "mp_entries (unat (conf_entry conf s)) (conf_entries conf) (g\<lparr>bootcpu := 0, ismp := True, lapicaddr := conf_lapicaddr conf s\<rparr>) s = Ret g' s"
          "ncpu g' \<le> NCPU" "bootcpu g' \<le> NCPU"
        using mp_entries_bounded [of "g\<lparr>bootcpu := 0, ismp := True, lapicaddr := conf_lapicaddr conf s\<rparr>"] assms(2) by fastforce
      have "1 \<le> NCPU" by (simp add: NCPU_def)
      then show ?thesis using 1 Some x g' by (simp add: mp_init_def Let_def)
    qed
  next
    case (2 msg)
    then show ?thesis by (simp add: mp_init_def kbind_def Let_def)
  qed
qed

end
