(* ===== verification/Jos_Ipc.thy ===== *)
theory Jos_Ipc
  imports Jos_Trap
begin

text \<open>
  Messages between environments: the system-call stubs of \<^verbatim>\<open>tps/lib/syscall.c\<close> and \<^verbatim>\<open>tps/lib/ipc.c\<close>
  on top of them, down to the kernel. A call of \<open>ipc_send\<close> is a sequence of traps with other
  environments running in between, and \<open>ipc_recv\<close> sleeps inside its trap; so environments that
  send and receive on several processors are a step relation, in which a step is one passage
  through \<open>trap\<close> of the kernel's theory (they are atomic, under the kernel lock), or the return of
  a stub in user mode. The messages of this theory carry no page.
\<close>

section \<open>System-call stubs\<close>

text \<open>
  What a stub hands to \<open>int $T_SYSCALL\<close>: the number, whether a positive result is a panic, and the
  arguments, in the order of the registers \<open>edx\<close>, \<open>ecx\<close>, \<open>ebx\<close>, \<open>edi\<close>, \<open>esi\<close>.
\<close>

record stub =
  st_num :: u32
  st_check :: bool
  st_a1 :: u32
  st_a2 :: u32
  st_a3 :: u32
  st_a4 :: u32
  st_a5 :: u32

definition stub_call :: "u32 \<Rightarrow> bool \<Rightarrow> u32 \<Rightarrow> u32 \<Rightarrow> u32 \<Rightarrow> u32 \<Rightarrow> u32 \<Rightarrow> stub" where
  "stub_call num check a1 a2 a3 a4 a5 = \<lparr>st_num = num, st_check = check, st_a1 = a1, st_a2 = a2,
     st_a3 = a3, st_a4 = a4, st_a5 = a5\<rparr>"

definition stub_regs :: "stub \<Rightarrow> PushRegs \<Rightarrow> PushRegs" where
  "stub_regs st r = r\<lparr>reg_eax := st_num st, reg_edx := st_a1 st, reg_ecx := st_a2 st,
     reg_ebx := st_a3 st, reg_edi := st_a4 st, reg_esi := st_a5 st\<rparr>"

text \<open>The value of \<open>syscall\<close> for the \<open>eax\<close> the kernel leaves; \<open>None\<close> is a panic.\<close>

definition stub_result :: "stub \<Rightarrow> u32 \<Rightarrow> int option" where
  "stub_result st eax = (if st_check st \<and> sint eax > 0 then None else Some (sint eax))"

definition stub_cputs :: "u32 \<Rightarrow> u32 \<Rightarrow> stub" where
  "stub_cputs s len = stub_call SYS_cputs False s len 0 0 0"

definition stub_cgetc :: stub where
  "stub_cgetc = stub_call SYS_cgetc False 0 0 0 0 0"

definition stub_env_destroy :: "u32 \<Rightarrow> stub" where
  "stub_env_destroy envid = stub_call SYS_env_destroy True envid 0 0 0 0"

definition stub_getenvid :: stub where
  "stub_getenvid = stub_call SYS_getenvid False 0 0 0 0 0"

definition stub_yield :: stub where
  "stub_yield = stub_call SYS_yield False 0 0 0 0 0"

definition stub_page_alloc :: "u32 \<Rightarrow> u32 \<Rightarrow> u32 \<Rightarrow> stub" where
  "stub_page_alloc envid va perm = stub_call SYS_page_alloc True envid va perm 0 0"

definition stub_page_map :: "u32 \<Rightarrow> u32 \<Rightarrow> u32 \<Rightarrow> u32 \<Rightarrow> u32 \<Rightarrow> stub" where
  "stub_page_map srcenv srcva dstenv dstva perm = stub_call SYS_page_map True srcenv srcva dstenv dstva perm"

definition stub_page_unmap :: "u32 \<Rightarrow> u32 \<Rightarrow> stub" where
  "stub_page_unmap envid va = stub_call SYS_page_unmap True envid va 0 0 0"

definition stub_env_set_status :: "u32 \<Rightarrow> u32 \<Rightarrow> stub" where
  "stub_env_set_status envid status = stub_call SYS_env_set_status True envid status 0 0 0"

definition stub_env_set_trapframe :: "u32 \<Rightarrow> u32 \<Rightarrow> stub" where
  "stub_env_set_trapframe envid tf = stub_call SYS_env_set_trapframe True envid tf 0 0 0"

definition stub_env_set_pgfault_upcall :: "u32 \<Rightarrow> u32 \<Rightarrow> stub" where
  "stub_env_set_pgfault_upcall envid upcall = stub_call SYS_env_set_pgfault_upcall True envid upcall 0 0 0"

definition stub_ipc_try_send :: "u32 \<Rightarrow> u32 \<Rightarrow> u32 \<Rightarrow> u32 \<Rightarrow> stub" where
  "stub_ipc_try_send envid val srcva perm = stub_call SYS_ipc_try_send False envid val srcva perm 0"

definition stub_ipc_recv :: "u32 \<Rightarrow> stub" where
  "stub_ipc_recv dstva = stub_call SYS_ipc_recv True dstva 0 0 0 0"

text \<open>What the dispatcher of the kernel does with the registers of a stub.\<close>

definition served :: "stub \<Rightarrow> int kM" where
  "served st = (let r = stub_regs st zero_regs in
     syscall (reg_eax r) (reg_edx r) (reg_ecx r) (reg_ebx r) (reg_edi r) (reg_esi r))"

lemma served_eq: "served st = syscall (st_num st) (st_a1 st) (st_a2 st) (st_a3 st) (st_a4 st) (st_a5 st)"
  by (simp add: served_def stub_regs_def)

lemmas stub_defs = stub_cputs_def stub_cgetc_def stub_env_destroy_def stub_getenvid_def stub_yield_def
  stub_page_alloc_def stub_page_map_def stub_page_unmap_def stub_env_set_status_def
  stub_env_set_trapframe_def stub_env_set_pgfault_upcall_def stub_ipc_try_send_def stub_ipc_recv_def
  stub_call_def

text \<open>
  Every stub reaches the function of the kernel of its name with its arguments in place, except
  \<open>sys_env_set_trapframe\<close>, whose number the dispatcher does not know.
\<close>

theorem stubs_served:
  "served (stub_cputs s len) = kbind (sys_cputs s len) (\<lambda>_. kreturn 0)"
  "served stub_cgetc = sys_cgetc"
  "served (stub_env_destroy envid) = sys_env_destroy envid"
  "served stub_getenvid = sys_getenvid"
  "served stub_yield = kbind sys_yield (\<lambda>_. kreturn 0)"
  "served (stub_page_alloc envid va perm) = sys_page_alloc envid va perm"
  "served (stub_page_map envid va dst dstva perm) = sys_page_map envid va dst dstva perm"
  "served (stub_page_unmap envid va) = sys_page_unmap envid va"
  "served (stub_env_set_status envid status) = sys_env_set_status envid status"
  "served (stub_env_set_trapframe envid tf) = kreturn (- E_INVAL)"
  "served (stub_env_set_pgfault_upcall envid up) = sys_env_set_pgfault_upcall envid up"
  "served (stub_ipc_try_send envid val va perm) = sys_ipc_try_send envid val va perm"
  "served (stub_ipc_recv dstva) = sys_ipc_recv dstva"
  by (simp_all add: served_eq syscall_def stub_defs syscall_numbers)

section \<open>The library functions\<close>

text \<open>A null \<open>pg\<close> becomes an address the kernel takes for ``no page''.\<close>

definition ipc_page :: "u32 \<Rightarrow> u32" where
  "ipc_page pg = (if pg \<noteq> 0 then pg else UTOP)"

text \<open>What \<open>ipc_send\<close> does with the answer of the kernel: it returns, yields and tries again, or panics.\<close>

datatype ipc_next = Sent | Again | Failed

definition ipc_send_next :: "int \<Rightarrow> ipc_next" where
  "ipc_send_next r = (if \<not> r < 0 then Sent else if r \<noteq> - E_IPC_NOT_RECV then Failed else Again)"

text \<open>What \<open>ipc_recv\<close> returns, with the sender and the permission it stores.\<close>

definition ipc_recv_result :: "int \<Rightarrow> Env \<Rightarrow> int \<times> u32 \<times> u32" where
  "ipc_recv_result r thisenv =
     (if r < 0 then (- E_INVAL, 0, 0)
      else (sint (env_ipc_value thisenv), env_ipc_from thisenv, env_ipc_perm thisenv))"

function ipc_find_loop :: "nat \<Rightarrow> EnvType \<Rightarrow> kstate \<Rightarrow> u32" where
  "ipc_find_loop i type s = (if i < NENV then
     if env_type (envs s i) = type then env_id (envs s i) else ipc_find_loop (i + 1) type s
   else 0)"
  by auto
termination by (relation "measure (\<lambda>(i, _, _). NENV - i)") auto

declare ipc_find_loop.simps [simp del]

definition ipc_find_env :: "EnvType \<Rightarrow> kstate \<Rightarrow> u32" where
  "ipc_find_env = ipc_find_loop 0"

text \<open>The identifier of the first environment of the type, whatever its status.\<close>

lemma ipc_find_loop_first:
  "j \<le> NENV \<Longrightarrow> ipc_find_loop j type s
    = (case find (\<lambda>i. env_type (envs s i) = type) [j..<NENV] of None \<Rightarrow> 0 | Some i \<Rightarrow> env_id (envs s i))"
proof (induction "NENV - j" arbitrary: j)
  case 0
  then show ?case by (simp add: ipc_find_loop.simps)
next
  case (Suc n)
  then have "j < NENV" "n = NENV - Suc j" "Suc j \<le> NENV" by simp_all
  from Suc.hyps(1) [OF this(2,3)] upt_conv_Cons [OF this(1)] \<open>j < NENV\<close> show ?case
    by (subst ipc_find_loop.simps) (simp del: NENV_eq)
qed

theorem ipc_find_env_first:
  "ipc_find_env type s = (case find (\<lambda>i. env_type (envs s i) = type) [0..<NENV] of None \<Rightarrow> 0 | Some i \<Rightarrow> env_id (envs s i))"
  unfolding ipc_find_env_def by (rule ipc_find_loop_first) simp

section \<open>Environments that send and receive\<close>

text \<open>
  Where an environment is: running its own code, between the trap of a system call and the use of
  its result, or about to call \<open>sys_yield\<close>. A sender has the messages still to be sent (slot of the
  destination and value), the first of which is under way when it is not \<open>Outside\<close>; a receiver
  has what \<open>ipc_recv\<close> has returned to it (sender and value). The other environments only compute.
\<close>

datatype at = Outside | Inside | Yielding

datatype job = Sender at "(nat \<times> u32) list" | Receiver at "(u32 \<times> int) list" | Panicked | Computing

fun inside :: "job \<Rightarrow> bool" where
  "inside (Sender a ms) = (a = Inside)"
| "inside (Receiver a got) = (a = Inside)"
| "inside Panicked = False"
| "inside Computing = False"

text \<open>\<open>accepted\<close> lists, for the statements only, destination, sender and value of the sends the kernel has answered with 0.\<close>

record ipc_world =
  kern :: kstate
  jobs :: "nat \<Rightarrow> job"
  accepted :: "(nat \<times> nat \<times> u32) list"

definition on_cpu :: "nat \<Rightarrow> kstate \<Rightarrow> kstate" where
  "on_cpu p s = s\<lparr>cpunum := p\<rparr>"

text \<open>Processor \<open>p\<close> executes the environment \<open>e\<close>.\<close>

definition executes :: "nat \<Rightarrow> nat \<Rightarrow> kstate \<Rightarrow> bool" where
  "executes p e s \<longleftrightarrow> curenv (on_cpu p s) = Some e \<and> env_status (envs s e) = ENV_RUNNING
     \<and> cpu_status (cpus s p) \<noteq> CPU_HALTED"

definition call_frame :: "stub \<Rightarrow> Trapframe \<Rightarrow> bool" where
  "call_frame st tf \<longleftrightarrow> tf_cs tf AND 3 = 3 \<and> tf_trapno tf = T_SYSCALL \<and> (\<exists>r. tf_regs tf = stub_regs st r)"

definition timer_frame :: "Trapframe \<Rightarrow> bool" where
  "timer_frame tf \<longleftrightarrow> tf_trapno tf = IRQ_OFFSET + IRQ_TIMER"

definition eax_of :: "nat \<Rightarrow> kstate \<Rightarrow> u32" where
  "eax_of e s = reg_eax (tf_regs (env_tf (envs s e)))"

definition send_stub :: "nat \<Rightarrow> u32 \<Rightarrow> kstate \<Rightarrow> stub" where
  "send_stub d val s = stub_ipc_try_send (env_id (envs s d)) val (ipc_page 0) 0"

text \<open>The sender and the receiver when the stub returns in user mode.\<close>

definition after_send :: "int option \<Rightarrow> (nat \<times> u32) list \<Rightarrow> job" where
  "after_send ro ms = (case ro of None \<Rightarrow> Panicked | Some r \<Rightarrow>
     (case ipc_send_next r of Sent \<Rightarrow> Sender Outside (tl ms) | Again \<Rightarrow> Sender Yielding ms | Failed \<Rightarrow> Panicked))"

definition after_recv :: "int option \<Rightarrow> Env \<Rightarrow> (u32 \<times> int) list \<Rightarrow> job" where
  "after_recv ro v got = (case ro of None \<Rightarrow> Panicked | Some r \<Rightarrow>
     (case ipc_recv_result r v of (val, from, perm) \<Rightarrow> Receiver Outside (got @ [(from, val)])))"

inductive ipc_step :: "ipc_world \<Rightarrow> ipc_world \<Rightarrow> bool" where
  send: "executes p e (kern w) \<Longrightarrow> jobs w e = Sender Outside ((d, val) # ms) \<Longrightarrow>
    call_frame (send_stub d val (kern w)) tf \<Longrightarrow> trap tf (on_cpu p (kern w)) = (NoRet out k :: unit kres) \<Longrightarrow>
    ipc_step w (w\<lparr>kern := k, jobs := (jobs w)(e := Sender Inside ((d, val) # ms)),
      accepted := accepted w @ (if eax_of e k = 0 then [(d, e, val)] else [])\<rparr>)"
| sent: "executes p e (kern w) \<Longrightarrow> jobs w e = Sender Inside ((d, val) # ms) \<Longrightarrow>
    ipc_step w (w\<lparr>jobs := (jobs w)(e := after_send
      (stub_result (send_stub d val (kern w)) (eax_of e (kern w))) ((d, val) # ms))\<rparr>)"
| yield: "executes p e (kern w) \<Longrightarrow> jobs w e = Sender Yielding ms \<Longrightarrow> call_frame stub_yield tf \<Longrightarrow>
    trap tf (on_cpu p (kern w)) = (NoRet out k :: unit kres) \<Longrightarrow>
    ipc_step w (w\<lparr>kern := k, jobs := (jobs w)(e := Sender Outside ms)\<rparr>)"
| recv: "executes p e (kern w) \<Longrightarrow> jobs w e = Receiver Outside got \<Longrightarrow>
    call_frame (stub_ipc_recv (ipc_page 0)) tf \<Longrightarrow> trap tf (on_cpu p (kern w)) = (NoRet out k :: unit kres) \<Longrightarrow>
    ipc_step w (w\<lparr>kern := k, jobs := (jobs w)(e := Receiver Inside got)\<rparr>)"
| received: "executes p e (kern w) \<Longrightarrow> jobs w e = Receiver Inside got \<Longrightarrow>
    ipc_step w (w\<lparr>jobs := (jobs w)(e := after_recv
      (stub_result (stub_ipc_recv (ipc_page 0)) (eax_of e (kern w))) (envs (kern w) e) got)\<rparr>)"
| timer: "executes p e (kern w) \<Longrightarrow> timer_frame tf \<Longrightarrow> tf_cs tf AND 3 = 3 \<Longrightarrow>
    (inside (jobs w e) \<longrightarrow> reg_eax (tf_regs tf) = eax_of e (kern w)) \<Longrightarrow> trap tf (on_cpu p (kern w)) = (NoRet out k :: unit kres) \<Longrightarrow>
    ipc_step w (w\<lparr>kern := k\<rparr>)"
| wake: "cpu_status (cpus (kern w) p) = CPU_HALTED \<Longrightarrow> timer_frame tf \<Longrightarrow> tf_cs tf AND 3 = 0 \<Longrightarrow>
    trap tf (on_cpu p (kern w)) = (NoRet out k :: unit kres) \<Longrightarrow> ipc_step w (w\<lparr>kern := k\<rparr>)"

section \<open>What the kernel does to the mailboxes\<close>

text \<open>
  The part of an environment the messages depend on; running and waiting to run are the same to
  them, which is what makes the scheduler invisible.
\<close>

record mailbox =
  mb_id :: u32
  mb_eax :: u32
  mb_recving :: bool
  mb_from :: u32
  mb_value :: u32
  mb_status :: env_status

definition mailbox_of :: "kstate \<Rightarrow> nat \<Rightarrow> mailbox" where
  "mailbox_of s e = \<lparr>mb_id = env_id (envs s e), mb_eax = eax_of e s, mb_recving = env_ipc_recving (envs s e),
     mb_from = env_ipc_from (envs s e), mb_value = env_ipc_value (envs s e),
     mb_status = (if env_status (envs s e) = ENV_RUNNING then ENV_RUNNABLE else env_status (envs s e))\<rparr>"

lemma mailbox_frame [simp]:
  "mailbox_of (s\<lparr>cpunum := p\<rparr>) = mailbox_of s" "mailbox_of (s\<lparr>cpus := cs\<rparr>) = mailbox_of s"
  "mailbox_of (s\<lparr>kernel_lock := l\<rparr>) = mailbox_of s" "mailbox_of (s\<lparr>cr3 := a\<rparr>) = mailbox_of s"
  "mailbox_of (set_curenv c s) = mailbox_of s"
  by (simp_all add: mailbox_of_def eax_of_def fun_eq_iff set_curenv_def)

lemma mb_live: "mb_status (mailbox_of s e) = ENV_RUNNABLE \<longleftrightarrow> env_status (envs s e) \<in> {ENV_RUNNABLE, ENV_RUNNING}"
  by (simp add: mailbox_of_def)

lemma mailbox_upd_env:
  "mailbox_of (upd_env e f s) = (mailbox_of s)(e := mailbox_of (upd_env e f s) e)"
  by (simp add: mailbox_of_def eax_of_def upd_env_def fun_eq_iff)

lemma leave_mailboxes:
  assumes "kbind (PADDR p) (\<lambda>pa. kbind (lcr3 pa) (\<lambda>_. kbind unlock_kernel (\<lambda>_. env_pop_tf e))) s = (NoRet out s' :: 'a kres)"
  shows "mailbox_of s' = mailbox_of s"
  using assms
  by (auto simp: PADDR_def kpanic_def kreturn_def lcr3_def unlock_kernel_def env_pop_tf_def mailbox_of_def
      eax_of_def upd_env_def fun_eq_iff kbind_run split: if_splits option.splits)

lemma env_run_mailboxes:
  assumes "env_run e s = (NoRet out s' :: 'a kres)" "mb_status (mailbox_of s e) = ENV_RUNNABLE"
  shows "mailbox_of s' = mailbox_of s"
proof -
  let ?s1 = "case curenv s of None \<Rightarrow> s
     | Some c \<Rightarrow> if env_status (envs s c) = ENV_RUNNING
                 then upd_env c (\<lambda>v. v\<lparr>env_status := ENV_RUNNABLE\<rparr>) s else s"
  let ?s2 = "upd_env e (\<lambda>v. v\<lparr>env_status := ENV_RUNNING, env_runs := env_runs v + 1\<rparr>) (set_curenv (Some e) ?s1)"
  have m1: "mailbox_of ?s1 = mailbox_of s"
    by (auto simp: mailbox_of_def eax_of_def upd_env_def fun_eq_iff split: option.splits)
  then have r: "env_status (envs ?s1 e) \<in> {ENV_RUNNABLE, ENV_RUNNING}"
    using assms(2) mb_live [of ?s1 e] by (simp only: simp_thms)
  have m2: "mailbox_of ?s2 = mailbox_of ?s1"
    using r by (auto simp: mailbox_of_def eax_of_def upd_env_def fun_eq_iff set_curenv_def)
  have "kbind (PADDR (env_pgdir (envs ?s2 e))) (\<lambda>pa. kbind (lcr3 pa) (\<lambda>_. kbind unlock_kernel (\<lambda>_. env_pop_tf e))) ?s2
      = (NoRet out s' :: 'a kres)"
    using assms(1) unfolding env_run_def by simp
  then have "mailbox_of s' = mailbox_of ?s2" by (rule leave_mailboxes)
  then show ?thesis using m1 m2 by simp
qed

lemma sched_halt_mailboxes:
  assumes "sched_halt s = (NoRet out s' :: 'a kres)"
  shows "mailbox_of s' = mailbox_of s"
proof (cases "\<forall>i \<in> set [0..<NENV]. env_status (envs s i) \<notin> {ENV_RUNNABLE, ENV_RUNNING, ENV_DYING}")
  case True
  with assms show ?thesis unfolding sched_halt_def if_P [OF True] by simp
next
  case False
  from assms show ?thesis
    unfolding sched_halt_def if_not_P [OF False]
    by (auto simp: kbind_run PADDR_def kpanic_def kreturn_def lcr3_def unlock_kernel_def set_curenv_def split: if_splits)
qed

text \<open>The scheduler is invisible.\<close>

lemma sched_yield_mailboxes:
  assumes "sched_yield s = (NoRet out s' :: 'a kres)"
  shows "mailbox_of s' = mailbox_of s"
proof -
  have "mb_status (mailbox_of s e) = ENV_RUNNABLE" if "env_status (envs s e) \<in> {ENV_RUNNABLE, ENV_RUNNING}" for e
    using that by (auto simp: mailbox_of_def)
  then show ?thesis
    using assms env_run_mailboxes [of _ s out s'] sched_halt_mailboxes [of s out s']
    unfolding sched_yield_find [OF refl]
    by (auto simp: find_Some_iff split: option.splits if_splits)
qed

lemma executes_facts:
  assumes "executes p e s"
  shows "curenv (on_cpu p s) = Some e" "env_status (envs (on_cpu p s) e) = ENV_RUNNING"
    "cpu_status (cpus (on_cpu p s) (cpunum (on_cpu p s))) \<noteq> CPU_HALTED"
    "mb_status (mailbox_of s e) = ENV_RUNNABLE" "mailbox_of (on_cpu p s) = mailbox_of s"
  using assms by (simp_all add: executes_def on_cpu_def mailbox_of_def eax_of_def fun_eq_iff)

text \<open>A trap that succeeds has found the kernel unlocked.\<close>

lemma trap_found_unlocked:
  assumes "curenv s = Some c" "tf_cs tf AND 3 = 3" "cpu_status (cpus s (cpunum s)) \<noteq> CPU_HALTED"
    and "trap tf s = (NoRet out k :: unit kres)"
  shows "kernel_lock s = None"
proof (rule ccontr)
  assume "kernel_lock s \<noteq> None"
  moreover have "curenv (s\<lparr>cpus := (cpus s)(cpunum s := (cpus s (cpunum s))\<lparr>cpu_status := CPU_STARTED\<rparr>)\<rparr>) = Some c"
    using assms(1) by (simp add: curenv_def)
  ultimately show False
    using assms(2-4) unfolding trap_def
    by (auto simp: lock_kernel_def kbind_run split: if_splits)
qed

lemma entered_facts:
  "curenv (entered c tf s) = curenv s" "env_status (envs (entered c tf s) c) = env_status (envs s c)"
  "mailbox_of (entered c tf s) = (mailbox_of s)(c := (mailbox_of s c)\<lparr>mb_eax := reg_eax (tf_regs tf)\<rparr>)"
  by (simp_all add: entered_def curenv_def upd_env_def mailbox_of_def eax_of_def fun_eq_iff)

lemma timer_mailboxes:
  assumes "executes p e s" "timer_frame tf" "tf_cs tf AND 3 = 3" "trap tf (on_cpu p s) = (NoRet out k :: unit kres)"
  shows "mailbox_of k = (mailbox_of s)(e := (mailbox_of s e)\<lparr>mb_eax := reg_eax (tf_regs tf)\<rparr>)"
proof -
  note x = executes_facts [OF assms(1)]
  have "trap tf (on_cpu p s) = (sched_yield (entered e tf (on_cpu p s)) :: unit kres)"
    by (rule trap_timer_preempts [THEN conjunct1])
      (use assms x(1-3) trap_found_unlocked [OF x(1) assms(3) x(3) assms(4)] in \<open>simp_all add: timer_frame_def\<close>)
  then have "sched_yield (entered e tf (on_cpu p s)) = (NoRet out k :: unit kres)"
    using assms(4) by simp
  then have "mailbox_of k = mailbox_of (entered e tf (on_cpu p s))" by (rule sched_yield_mailboxes)
  then show ?thesis by (simp add: entered_facts(3) x(5))
qed

lemma wake_trap:
  assumes "cpu_status (cpus s p) = CPU_HALTED" "timer_frame tf" "tf_cs tf AND 3 = 0" "kernel_lock s = None"
  shows "trap tf (on_cpu p s) = (sched_yield (on_cpu p s\<lparr>cpus := (cpus s)(p := (cpus s p)\<lparr>cpu_status := CPU_STARTED\<rparr>),
    kernel_lock := Some p\<rparr>) :: unit kres)"
proof -
  let ?s1 = "on_cpu p s\<lparr>cpus := (cpus s)(p := (cpus s p)\<lparr>cpu_status := CPU_STARTED\<rparr>)\<rparr>"
  let ?s2 = "?s1\<lparr>kernel_lock := Some p\<rparr>"
  have "lock_kernel ?s1 = Ret () ?s2" using assms(4) by (simp add: on_cpu_def lock_kernel_def)
  moreover have "trap_dispatch (OnStack tf) ?s2 = sched_yield ?s2"
    using assms(2) by (simp add: trap_dispatch_def tf_at_def timer_frame_def trap_numbers)
  ultimately show ?thesis
    using assms(1,3) sched_yield_no_continue [of _ ?s2] unfolding trap_def
    by (simp add: on_cpu_def kbind_run [of "trap_dispatch _"]) (simp add: kbind_run)
qed

lemma wake_mailboxes:
  assumes "cpu_status (cpus s p) = CPU_HALTED" "timer_frame tf" "tf_cs tf AND 3 = 0"
    and "trap tf (on_cpu p s) = (NoRet out k :: unit kres)"
  shows "mailbox_of k = mailbox_of s"
proof -
  have "kernel_lock s = None"
    using assms(1,3,4) unfolding trap_def
    by (auto simp: on_cpu_def lock_kernel_def kbind_run split: option.splits if_splits)
  from sched_yield_mailboxes [OF wake_trap [OF assms(1-3) this, unfolded assms(4), symmetric]]
  show ?thesis by (simp add: on_cpu_def)
qed

text \<open>A system call, up to what the kernel's function does.\<close>

lemma call_unlocked:
  "executes p e s \<Longrightarrow> call_frame st tf \<Longrightarrow> trap tf (on_cpu p s) = (NoRet out k :: unit kres) \<Longrightarrow> kernel_lock s = None"
  using trap_found_unlocked [of "on_cpu p s" e tf] executes_facts [of p e s]
  by (auto simp: call_frame_def on_cpu_def)

lemma trap_call:
  assumes "executes p e s" "call_frame st tf" "kernel_lock s = None"
  shows "trap tf (on_cpu p s) = (kbind (served st) (\<lambda>r. kbind (kmodify (set_eax (InEnv e) (word_of_int r)))
    (\<lambda>_. kbind (kget (\<lambda>s. case curenv s of
         Some c \<Rightarrow> if env_status (envs s c) = ENV_RUNNING then Some c else None
       | None \<Rightarrow> None)) (\<lambda>cur. case cur of Some c \<Rightarrow> env_run c | None \<Rightarrow> sched_yield)))
    (entered e tf (on_cpu p s)) :: unit kres)"
proof -
  note x = executes_facts [OF assms(1)]
  from assms(2) obtain r where c: "tf_cs tf AND 3 = 3" "tf_trapno tf = T_SYSCALL" "tf_regs tf = stub_regs st r"
    by (auto simp: call_frame_def)
  have "trap_dispatch (InEnv e) (entered e tf (on_cpu p s))
      = kbind (served st) (\<lambda>r. kmodify (set_eax (InEnv e) (word_of_int r))) (entered e tf (on_cpu p s))"
    using c by (simp add: trap_dispatch_def tf_at_def entered_def trap_numbers served_eq stub_regs_def)
  then have d: "kbind (trap_dispatch (InEnv e)) f (entered e tf (on_cpu p s))
      = kbind (served st) (\<lambda>r. kbind (kmodify (set_eax (InEnv e) (word_of_int r))) f) (entered e tf (on_cpu p s))"
    for f :: "unit \<Rightarrow> unit kM"
    unfolding kbind_assoc [symmetric] by (simp add: kbind_run [of "trap_dispatch _"] kbind_run [of "kbind _ _"])
  have "kernel_lock (on_cpu p s) = None" using assms(3) by (simp add: on_cpu_def)
  with x(2) show ?thesis by (subst trap_enters [OF x(1) c(1) x(3)]) (simp_all add: d)
qed

text \<open>The state in which the kernel's function runs.\<close>

lemma call_entered:
  assumes "executes p e s" "call_frame st tf"
  shows "mailbox_of (entered e tf (on_cpu p s)) = (mailbox_of s)(e := (mailbox_of s e)\<lparr>mb_eax := st_num st\<rparr>)"
    "curenv (entered e tf (on_cpu p s)) = Some e" "env_status (envs (entered e tf (on_cpu p s)) e) = ENV_RUNNING"
  using assms executes_facts [OF assms(1)]
  by (auto simp: entered_facts call_frame_def stub_regs_def)

text \<open>The function gives up the processor, or returns.\<close>

lemma call_given_up:
  assumes "executes p e s" "call_frame st tf" "kernel_lock s = None"
    and "served st (entered e tf (on_cpu p s)) = kbind sched_yield (\<lambda>_ :: unit. kreturn 0) m"
  shows "trap tf (on_cpu p s) = (sched_yield m :: unit kres)"
proof -
  have "served st (entered e tf (on_cpu p s)) = sched_yield m"
    using assms(4) sched_yield_no_continue by metis
  then have "kbind (served st) f (entered e tf (on_cpu p s)) = kbind sched_yield f m" for f :: "int \<Rightarrow> unit kM"
    by (simp add: kbind_run)
  then show ?thesis using trap_call [OF assms(1-3)] by (simp add: sched_yield_no_continue)
qed

lemma call_returns:
  assumes "executes p e s" "call_frame st tf" "kernel_lock s = None"
    and "served st (entered e tf (on_cpu p s)) = Ret r s1" "curenv s1 = Some e" "env_status (envs s1 e) = ENV_RUNNING"
  shows "trap tf (on_cpu p s) = (env_run e (upd_env e (\<lambda>v. v\<lparr>env_tf := (env_tf v)\<lparr>tf_regs :=
      (tf_regs (env_tf v))\<lparr>reg_eax := word_of_int r\<rparr>\<rparr>\<rparr>) s1) :: unit kres)"
  using trap_call [OF assms(1-3)] assms(4-6) by (simp add: set_eax_def)

lemma yield_mailboxes:
  assumes "executes p e s" "call_frame stub_yield tf" "trap tf (on_cpu p s) = (NoRet out k :: unit kres)"
  shows "mailbox_of k = (mailbox_of s)(e := (mailbox_of s e)\<lparr>mb_eax := SYS_yield\<rparr>)"
proof -
  have "trap tf (on_cpu p s) = (sched_yield (entered e tf (on_cpu p s)) :: unit kres)"
    using call_unlocked [OF assms] by (intro call_given_up [OF assms(1,2)]) (simp_all add: stubs_served sys_yield_def)
  from sched_yield_mailboxes [OF this [unfolded assms(3), symmetric]] call_entered(1) [OF assms(1,2)]
  show ?thesis by (simp add: stub_yield_def stub_call_def)
qed

lemma mailbox_marked:
  "mailbox_of (upd_env e (\<lambda>v. v\<lparr>env_status := ENV_NOT_RUNNABLE, env_ipc_recving := True,
     env_ipc_dstva := a, env_tf := (env_tf v)\<lparr>tf_regs := (tf_regs (env_tf v))\<lparr>reg_eax := 0\<rparr>\<rparr>\<rparr>) s)
   = (mailbox_of s)(e := (mailbox_of s e)\<lparr>mb_eax := 0, mb_recving := True, mb_status := ENV_NOT_RUNNABLE\<rparr>)"
  by (simp add: mailbox_of_def eax_of_def upd_env_def fun_eq_iff)

lemma mailbox_filled:
  "mailbox_of (upd_env d (\<lambda>v. v\<lparr>env_ipc_perm := 0, env_ipc_recving := False,
     env_ipc_from := from, env_ipc_value := val, env_status := ENV_RUNNABLE,
     env_tf := (env_tf v)\<lparr>tf_regs := (tf_regs (env_tf v))\<lparr>reg_eax := 0\<rparr>\<rparr>\<rparr>) s)
   = (mailbox_of s)(d := (mailbox_of s d)\<lparr>mb_eax := 0, mb_recving := False, mb_from := from, mb_value := val,
       mb_status := ENV_RUNNABLE\<rparr>)"
  by (simp add: mailbox_of_def eax_of_def upd_env_def fun_eq_iff)

lemma mailbox_answered:
  "mailbox_of (upd_env e (\<lambda>v. v\<lparr>env_tf := (env_tf v)\<lparr>tf_regs := (tf_regs (env_tf v))\<lparr>reg_eax := r\<rparr>\<rparr>\<rparr>) s)
   = (mailbox_of s)(e := (mailbox_of s e)\<lparr>mb_eax := r\<rparr>)"
  by (simp add: mailbox_of_def eax_of_def upd_env_def fun_eq_iff)

text \<open>What \<open>sys_ipc_recv\<close> makes of the caller.\<close>

definition waits :: "nat \<Rightarrow> kstate \<Rightarrow> kstate" where
  "waits e = upd_env e (\<lambda>v. v\<lparr>env_status := ENV_NOT_RUNNABLE, env_ipc_recving := True,
     env_ipc_dstva := UTOP, env_tf := (env_tf v)\<lparr>tf_regs := (tf_regs (env_tf v))\<lparr>reg_eax := 0\<rparr>\<rparr>\<rparr>)"

lemma recv_trap:
  assumes "executes p e s" "call_frame (stub_ipc_recv (ipc_page 0)) tf" "kernel_lock s = None"
  shows "trap tf (on_cpu p s) = (sched_yield (waits e (entered e tf (on_cpu p s))) :: unit kres)"
proof (rule call_given_up [OF assms])
  show "served (stub_ipc_recv (ipc_page 0)) (entered e tf (on_cpu p s))
      = kbind sched_yield (\<lambda>_ :: unit. kreturn 0) (waits e (entered e tf (on_cpu p s)))"
    using call_entered(2) [OF assms(1,2)]
    by (simp add: stubs_served ipc_page_def sys_ipc_recv_def sys_yield_def kcurenv_def kderef_def waits_def
        kbind_run [of kcurenv])
qed

lemma recv_mailboxes:
  assumes "executes p e s" "call_frame (stub_ipc_recv (ipc_page 0)) tf" "trap tf (on_cpu p s) = (NoRet out k :: unit kres)"
  shows "mailbox_of k = (mailbox_of s)(e := (mailbox_of s e)\<lparr>mb_eax := 0, mb_recving := True, mb_status := ENV_NOT_RUNNABLE\<rparr>)"
  using sched_yield_mailboxes [OF recv_trap [OF assms(1,2) call_unlocked [OF assms], unfolded assms(3), symmetric]]
  by (simp add: waits_def mailbox_marked call_entered(1) [OF assms(1,2)])

text \<open>Every directory is the frame 0 (for the runs computed below).\<close>

definition frame0 :: "kstate \<Rightarrow> bool" where
  "frame0 s \<longleftrightarrow> (\<forall>e. env_pgdir (envs s e) = KERNBASE)"

lemma frame0_upd_env [simp]: "(\<And>v. env_pgdir (f v) = env_pgdir v) \<Longrightarrow> frame0 (upd_env e f s) = frame0 s"
  by (auto simp: frame0_def)

lemma send_served:
  assumes "curenv t = Some e" "d \<noteq> e" "mb_id (mailbox_of t d) \<noteq> 0" "ENVX (mb_id (mailbox_of t d)) = d"
    and "mb_status (mailbox_of t d) \<noteq> ENV_FREE" "env_status (envs t e) = ENV_RUNNING"
  shows "\<exists>r s1. sys_ipc_try_send (mb_id (mailbox_of t d)) val UTOP 0 t = Ret r s1
    \<and> r = (if mb_recving (mailbox_of t d) then 0 else - E_IPC_NOT_RECV)
    \<and> curenv s1 = Some e \<and> env_status (envs s1 e) = ENV_RUNNING
    \<and> frame0 s1 = frame0 t \<and> kernel_lock s1 = kernel_lock t \<and> cpunum s1 = cpunum t \<and> cpus s1 = cpus t
    \<and> (mb_recving (mailbox_of t d) \<longrightarrow> env_status (envs s1 d) = ENV_RUNNABLE)
    \<and> mailbox_of s1 = (if mb_recving (mailbox_of t d) then (mailbox_of t)(d := (mailbox_of t d)\<lparr>mb_eax := 0,
        mb_recving := False, mb_from := mb_id (mailbox_of t e), mb_value := val, mb_status := ENV_RUNNABLE\<rparr>)
      else mailbox_of t)"
proof -
  have id: "mb_id (mailbox_of t i) = env_id (envs t i)" "mb_recving (mailbox_of t i) = env_ipc_recving (envs t i)" for i
    by (simp_all add: mailbox_of_def)
  have ok: "env_id (envs t d) \<noteq> 0" "ENVX (env_id (envs t d)) = d" "env_status (envs t d) \<noteq> ENV_FREE"
    using assms(3-5) by (auto simp: mailbox_of_def split: if_splits)
  from ipc_send_run [of t e "env_id (envs t d)" d UTOP val 0] assms(1,2,6) ok show ?thesis
    unfolding id by (auto simp: mailbox_filled)
qed

lemma send_mailboxes:
  assumes "executes p e s" "call_frame (send_stub d val s) tf" "trap tf (on_cpu p s) = (NoRet out k :: unit kres)"
    and "d \<noteq> e" "mb_id (mailbox_of s d) \<noteq> 0" "ENVX (mb_id (mailbox_of s d)) = d" "mb_status (mailbox_of s d) \<noteq> ENV_FREE"
  shows "mailbox_of k = (if mb_recving (mailbox_of s d)
    then (mailbox_of s)(e := (mailbox_of s e)\<lparr>mb_eax := 0\<rparr>,
      d := (mailbox_of s d)\<lparr>mb_eax := 0, mb_recving := False, mb_from := mb_id (mailbox_of s e), mb_value := val, mb_status := ENV_RUNNABLE\<rparr>)
    else (mailbox_of s)(e := (mailbox_of s e)\<lparr>mb_eax := word_of_int (- E_IPC_NOT_RECV)\<rparr>))"
proof -
  define E where "E = entered e tf (on_cpu p s)"
  note c = call_entered [OF assms(1,2), folded E_def] and x = executes_facts [OF assms(1)]
  have md: "mailbox_of E d = mailbox_of s d" using c(1) assms(4) by simp
  obtain r s1 where r: "sys_ipc_try_send (mb_id (mailbox_of s d)) val UTOP 0 E = Ret r s1"
      "r = (if mb_recving (mailbox_of s d) then 0 else - E_IPC_NOT_RECV)"
      "curenv s1 = Some e" "env_status (envs s1 e) = ENV_RUNNING"
      "mailbox_of s1 = (if mb_recving (mailbox_of s d) then (mailbox_of E)(d := (mailbox_of E d)\<lparr>mb_eax := 0,
        mb_recving := False, mb_from := mb_id (mailbox_of E e), mb_value := val, mb_status := ENV_RUNNABLE\<rparr>)
      else mailbox_of E)"
    using send_served [of E e d val] c(2,3) assms(4-7) unfolding md by blast
  have "served (send_stub d val s) E = Ret r s1"
    using r(1) by (simp add: send_stub_def stubs_served ipc_page_def mailbox_of_def)
  from call_returns [OF assms(1,2) call_unlocked [OF assms(1-3)] this [unfolded E_def] r(3,4)]
  have "env_run e (upd_env e (\<lambda>v. v\<lparr>env_tf := (env_tf v)\<lparr>tf_regs :=
      (tf_regs (env_tf v))\<lparr>reg_eax := word_of_int r\<rparr>\<rparr>\<rparr>) s1) = (NoRet out k :: unit kres)" using assms(3) by simp
  from env_run_mailboxes [OF this] r(4)
  have "mailbox_of k = (mailbox_of s1)(e := (mailbox_of s1 e)\<lparr>mb_eax := word_of_int r\<rparr>)"
    by (simp add: mailbox_answered mb_live)
  then show ?thesis using r(2,5) c(1) assms(4) by (auto simp: fun_eq_iff)
qed

section \<open>Every message is delivered once and in order\<close>

definition is_receiver :: "job \<Rightarrow> bool" where
  "is_receiver j = (case j of Receiver _ _ \<Rightarrow> True | _ \<Rightarrow> False)"

text \<open>
  Environments with the identifiers of their slots, none of them inside a call; every message is
  for a receiver.
\<close>

definition ipc_start :: "ipc_world \<Rightarrow> bool" where
  "ipc_start w \<longleftrightarrow> accepted w = [] \<and> (\<forall>e. let v = envs (kern w) e in
     (jobs w e \<noteq> Computing \<longrightarrow> env_id v \<noteq> 0 \<and> ENVX (env_id v) = e \<and> \<not> env_ipc_recving v
        \<and> env_status v \<in> {ENV_RUNNABLE, ENV_RUNNING})
     \<and> (case jobs w e of Sender a ms \<Rightarrow> a = Outside \<and> (\<forall>(d, val) \<in> set ms. is_receiver (jobs w d))
       | Receiver a got \<Rightarrow> a = Outside \<and> got = [] | Panicked \<Rightarrow> False | Computing \<Rightarrow> True))"

text \<open>The messages accepted for a receiver, and those accepted from a sender.\<close>

definition accepted_for :: "nat \<Rightarrow> (nat \<times> nat \<times> u32) list \<Rightarrow> (nat \<times> u32) list" where
  "accepted_for e L = map snd (filter (\<lambda>(d, _). d = e) L)"

definition accepted_from :: "nat \<Rightarrow> (nat \<times> nat \<times> u32) list \<Rightarrow> (nat \<times> u32) list" where
  "accepted_from e L = map (\<lambda>(d, _, val). (d, val)) (filter (\<lambda>(_, f, _). f = e) L)"

text \<open>What a receiver has, with the message that waits in its environment for \<open>ipc_recv\<close> to return it.\<close>

definition delivered :: "job \<Rightarrow> mailbox \<Rightarrow> (u32 \<times> int) list" where
  "delivered j m = (case j of
     Receiver a got \<Rightarrow> got @ (if a = Inside \<and> \<not> mb_recving m then [(mb_from m, sint (mb_value m))] else [])
   | _ \<Rightarrow> [])"

text \<open>What a sender still has to send: not the message whose answer waits in \<open>eax\<close>.\<close>

definition unsent :: "job \<Rightarrow> mailbox \<Rightarrow> (nat \<times> u32) list" where
  "unsent j m = (case j of Sender a ms \<Rightarrow> if a = Inside \<and> mb_eax m = 0 then tl ms else ms | _ \<Rightarrow> [])"

definition job_ok :: "(nat \<Rightarrow> u32) \<Rightarrow> (nat \<Rightarrow> bool) \<Rightarrow> nat \<Rightarrow> job \<Rightarrow> mailbox \<Rightarrow> bool" where
  "job_ok ids R e j m \<longleftrightarrow> R e = is_receiver j
     \<and> (j \<noteq> Computing \<longrightarrow> mb_id m = ids e \<and> ids e \<noteq> 0 \<and> ENVX (ids e) = e)
     \<and> (case j of
       Sender a ms \<Rightarrow> \<not> mb_recving m \<and> mb_status m = ENV_RUNNABLE
         \<and> (a = Inside \<longrightarrow> ms \<noteq> [] \<and> (mb_eax m = 0 \<or> mb_eax m = word_of_int (- E_IPC_NOT_RECV)))
         \<and> (\<forall>(d, val) \<in> set ms. R d)
     | Receiver a got \<Rightarrow>
         (if mb_recving m then a = Inside \<and> mb_status m = ENV_NOT_RUNNABLE
          else mb_status m = ENV_RUNNABLE \<and> (a = Inside \<longrightarrow> mb_eax m = 0))
     | Panicked \<Rightarrow> False
     | Computing \<Rightarrow> True)"

definition book_ok :: "(nat \<Rightarrow> u32) \<Rightarrow> (nat \<times> u32) list \<Rightarrow> nat \<Rightarrow> (nat \<times> nat \<times> u32) list \<Rightarrow> job \<Rightarrow> mailbox \<Rightarrow> bool" where
  "book_ok ids todo e L j m \<longleftrightarrow>
     delivered j m = map (\<lambda>(f, val). (ids f, sint val)) (accepted_for e L) \<and> accepted_from e L @ unsent j m = todo"

definition ipc_inv :: "(nat \<Rightarrow> u32) \<Rightarrow> (nat \<Rightarrow> bool) \<Rightarrow> (nat \<Rightarrow> (nat \<times> u32) list) \<Rightarrow> ipc_world \<Rightarrow> bool" where
  "ipc_inv ids R todo w \<longleftrightarrow> (\<forall>e. job_ok ids R e (jobs w e) (mailbox_of (kern w) e)
     \<and> book_ok ids (todo e) e (accepted w) (jobs w e) (mailbox_of (kern w) e))"

lemma ipc_invI:
  assumes "ipc_inv ids R todo w"
    and "\<And>i. job_ok ids R i (jobs w i) (mailbox_of (kern w) i) \<Longrightarrow>
      book_ok ids (todo i) i (accepted w) (jobs w i) (mailbox_of (kern w) i) \<Longrightarrow>
      job_ok ids R i (jobs w' i) (mailbox_of (kern w') i)
      \<and> book_ok ids (todo i) i (accepted w') (jobs w' i) (mailbox_of (kern w') i)"
  shows "ipc_inv ids R todo w'"
  using assms unfolding ipc_inv_def by blast

lemma accepted_append [simp]:
  "accepted_for e [] = []" "accepted_from e [] = []"
  "accepted_for e (L @ [(d, f, val)]) = accepted_for e L @ (if d = e then [(f, val)] else [])"
  "accepted_from e (L @ [(d, f, val)]) = accepted_from e L @ (if f = e then [(d, val)] else [])"
  by (simp_all add: accepted_for_def accepted_from_def)

lemma not_recv_word [simp]: "E_IPC_NOT_RECV \<noteq> 0" "word_of_int E_IPC_NOT_RECV \<noteq> (0 :: u32)"
  "sint (- word_of_int E_IPC_NOT_RECV :: u32) = - E_IPC_NOT_RECV"
  "word_of_int (- E_IPC_NOT_RECV) \<noteq> (0 :: u32)" "sint (word_of_int (- E_IPC_NOT_RECV) :: u32) = - E_IPC_NOT_RECV"
  by (simp_all add: kernel_defs)

lemma ipc_start_inv:
  assumes "ipc_start w"
  shows "ipc_inv (\<lambda>e. env_id (envs (kern w) e)) (\<lambda>e. is_receiver (jobs w e))
    (\<lambda>e. unsent (jobs w e) (mailbox_of (kern w) e)) w"
proof -
  have "job_ok (\<lambda>e. env_id (envs (kern w) e)) (\<lambda>e. is_receiver (jobs w e)) e (jobs w e) (mailbox_of (kern w) e)
     \<and> book_ok (\<lambda>e. env_id (envs (kern w) e)) (unsent (jobs w e) (mailbox_of (kern w) e)) e (accepted w) (jobs w e)
       (mailbox_of (kern w) e)" for e
    using assms [unfolded ipc_start_def, THEN conjunct2, rule_format, of e] assms [unfolded ipc_start_def, THEN conjunct1]
    by (auto simp: job_ok_def book_ok_def delivered_def unsent_def mailbox_of_def Let_def split: job.splits)
  then show ?thesis by (simp add: ipc_inv_def)
qed

lemma ipc_step_inv:
  assumes "ipc_step w w'" "ipc_inv ids R todo w"
  shows "ipc_inv ids R todo w'"
  using assms(1)
proof cases
  case (send p e d val ms tf out k)
  let ?m = "mailbox_of (kern w)"
  have e: "job_ok ids R e (Sender Outside ((d, val) # ms)) (?m e)" and d: "job_ok ids R d (jobs w d) (?m d)"
    using assms(2) send(3) unfolding ipc_inv_def by metis+
  then have rd: "is_receiver (jobs w d)" "R d" by (simp_all add: job_ok_def)
  with d have di: "mb_id (?m d) = ids d" "ids d \<noteq> 0" "ENVX (ids d) = d" "mb_status (?m d) \<noteq> ENV_FREE" "d \<noteq> e"
    using send(3) by (auto simp: job_ok_def is_receiver_def split: job.splits if_splits)
  have k: "mailbox_of k = (if mb_recving (?m d)
    then ?m (e := (?m e)\<lparr>mb_eax := 0\<rparr>,
      d := (?m d)\<lparr>mb_eax := 0, mb_recving := False, mb_from := mb_id (?m e), mb_value := val, mb_status := ENV_RUNNABLE\<rparr>)
    else ?m (e := (?m e)\<lparr>mb_eax := word_of_int (- E_IPC_NOT_RECV)\<rparr>))"
    by (rule send_mailboxes [OF send(2,4,5) di(5)]) (simp_all add: di)
  have ans: "eax_of e k = 0 \<longleftrightarrow> mb_recving (?m d)"
    using arg_cong [OF k, of "\<lambda>f. mb_eax (f e)"] di(5) by (simp add: mailbox_of_def split: if_splits)
  show ?thesis
    using assms(2)
  proof (rule ipc_invI)
    fix i assume i: "job_ok ids R i (jobs w i) (?m i)" "book_ok ids (todo i) i (accepted w) (jobs w i) (?m i)"
    show "job_ok ids R i (jobs w' i) (mailbox_of (kern w') i)
      \<and> book_ok ids (todo i) i (accepted w') (jobs w' i) (mailbox_of (kern w') i)"
      using i e d rd di send(1,3) ans k
      by (auto simp: job_ok_def book_ok_def delivered_def unsent_def is_receiver_def split: job.splits if_splits)
  qed
next
  case (sent p e d val ms)
  let ?m = "mailbox_of (kern w)"
  have e: "job_ok ids R e (Sender Inside ((d, val) # ms)) (?m e)"
    using assms(2) sent(3) unfolding ipc_inv_def by metis
  have eax: "eax_of e (kern w) = mb_eax (?m e)" by (simp add: mailbox_of_def)
  show ?thesis
    using assms(2)
  proof (rule ipc_invI)
    fix i assume i: "job_ok ids R i (jobs w i) (?m i)" "book_ok ids (todo i) i (accepted w) (jobs w i) (?m i)"
    show "job_ok ids R i (jobs w' i) (mailbox_of (kern w') i)
      \<and> book_ok ids (todo i) i (accepted w') (jobs w' i) (mailbox_of (kern w') i)"
      using i e sent(1,3) unfolding eax
      by (auto simp: job_ok_def book_ok_def delivered_def unsent_def is_receiver_def after_send_def
          stub_result_def send_stub_def stub_ipc_try_send_def stub_call_def ipc_send_next_def)
  qed
next
  case (yield p e ms tf out k)
  note k = yield_mailboxes [OF yield(2,4,5)]
  show ?thesis
    using assms(2)
  proof (rule ipc_invI)
    fix i assume i: "job_ok ids R i (jobs w i) (mailbox_of (kern w) i)"
      "book_ok ids (todo i) i (accepted w) (jobs w i) (mailbox_of (kern w) i)"
    show "job_ok ids R i (jobs w' i) (mailbox_of (kern w') i)
      \<and> book_ok ids (todo i) i (accepted w') (jobs w' i) (mailbox_of (kern w') i)"
      using i yield(1,3) k by (auto simp: job_ok_def book_ok_def delivered_def unsent_def is_receiver_def)
  qed
next
  case (recv p e got tf out k)
  note k = recv_mailboxes [OF recv(2,4,5)]
  show ?thesis
    using assms(2)
  proof (rule ipc_invI)
    fix i assume i: "job_ok ids R i (jobs w i) (mailbox_of (kern w) i)"
      "book_ok ids (todo i) i (accepted w) (jobs w i) (mailbox_of (kern w) i)"
    show "job_ok ids R i (jobs w' i) (mailbox_of (kern w') i)
      \<and> book_ok ids (todo i) i (accepted w') (jobs w' i) (mailbox_of (kern w') i)"
      using i recv(1,3) k
      by (auto simp: job_ok_def book_ok_def delivered_def unsent_def is_receiver_def)
  qed
next
  case (received p e got)
  let ?m = "mailbox_of (kern w)"
  have e: "job_ok ids R e (Receiver Inside got) (?m e)"
    using assms(2) received(3) unfolding ipc_inv_def by metis
  then have "\<not> mb_recving (?m e)" "mb_eax (?m e) = 0"
    using executes_facts(4) [OF received(2)] by (auto simp: job_ok_def split: if_splits)
  then have w': "jobs w' = (jobs w)(e := Receiver Outside (got @ [(mb_from (?m e), sint (mb_value (?m e)))]))"
    using received(1) by (simp add: after_recv_def stub_result_def ipc_recv_result_def mailbox_of_def)
  show ?thesis
    using assms(2)
  proof (rule ipc_invI)
    fix i assume i: "job_ok ids R i (jobs w i) (?m i)" "book_ok ids (todo i) i (accepted w) (jobs w i) (?m i)"
    show "job_ok ids R i (jobs w' i) (mailbox_of (kern w') i)
      \<and> book_ok ids (todo i) i (accepted w') (jobs w' i) (mailbox_of (kern w') i)"
      using i received(1,3) w' \<open>\<not> mb_recving (?m e)\<close>
      by (auto simp: job_ok_def book_ok_def delivered_def unsent_def is_receiver_def)
  qed
next
  case (timer p e tf out k)
  note k = timer_mailboxes [OF timer(2,3,4,6)]
  have eax: "inside (jobs w e) \<Longrightarrow> reg_eax (tf_regs tf) = mb_eax (mailbox_of (kern w) e)"
    using timer(5) by (simp add: mailbox_of_def)
  show ?thesis
    using assms(2)
  proof (rule ipc_invI)
    fix i assume i: "job_ok ids R i (jobs w i) (mailbox_of (kern w) i)"
      "book_ok ids (todo i) i (accepted w) (jobs w i) (mailbox_of (kern w) i)"
    show "job_ok ids R i (jobs w' i) (mailbox_of (kern w') i)
      \<and> book_ok ids (todo i) i (accepted w') (jobs w' i) (mailbox_of (kern w') i)"
      using i timer(1) k eax
      by (auto simp: job_ok_def book_ok_def delivered_def unsent_def is_receiver_def split: job.splits if_splits)
  qed
next
  case (wake p tf out k)
  with assms(2) wake_mailboxes [OF wake(2-5)] show ?thesis by (simp add: ipc_inv_def)
qed

lemma ipc_reach_inv:
  "ipc_step\<^sup>*\<^sup>* w w' \<Longrightarrow> ipc_inv ids R todo w \<Longrightarrow> ipc_inv ids R todo w'"
  by (induction rule: rtranclp_induct) (auto intro: ipc_step_inv)

text \<open>
  Property C13. Messages are delivered exactly once and in order, whatever the interleaving of the environments
  on the processors and wherever the timer interrupts them: in every state that can be
  reached, no environment has panicked; what a receiver has got, with the message that waits for its
  \<open>ipc_recv\<close> to return, is the list of the messages accepted for it, each with the identifier of its sender;
  and what the kernel has accepted from a sender, followed by what it has still to send, is
  what it had to send at the start.\<close>

theorem ipc_delivers:
  assumes "ipc_start w" "ipc_step\<^sup>*\<^sup>* w w'"
  shows "jobs w' e \<noteq> Panicked
    \<and> delivered (jobs w' e) (mailbox_of (kern w') e)
      = map (\<lambda>(f, val). (env_id (envs (kern w) f), sint val)) (accepted_for e (accepted w'))
    \<and> accepted_from e (accepted w') @ unsent (jobs w' e) (mailbox_of (kern w') e)
      = unsent (jobs w e) (mailbox_of (kern w) e)"
  using ipc_reach_inv [OF assms(2) ipc_start_inv [OF assms(1)]]
  by (auto simp: ipc_inv_def job_ok_def book_ok_def dest!: spec [of _ e] split: job.splits)

text \<open>Two processors: environment 0 receives, the processor goes on with environment 1, which sends, and the other one wakes up.\<close>

definition demo_kern :: kstate where
  "demo_kern = bss_kstate\<lparr>
     cpus := (\<lambda>p. if p = 0 then \<lparr>cpu_status = CPU_STARTED, cpu_env = Some 0\<rparr> else \<lparr>cpu_status = CPU_HALTED, cpu_env = None\<rparr>),
     envs := (\<lambda>_. zero_env\<lparr>env_pgdir := KERNBASE\<rparr>)(0 := zero_env\<lparr>env_status := ENV_RUNNING, env_id := 0x1000, env_pgdir := KERNBASE\<rparr>,
       1 := zero_env\<lparr>env_status := ENV_RUNNABLE, env_id := 0x1001, env_pgdir := KERNBASE\<rparr>)\<rparr>"

definition demo :: ipc_world where
  "demo = \<lparr>kern = demo_kern, jobs = (\<lambda>_. Computing)(0 := Receiver Outside [], 1 := Sender Outside [(0, 42)]), accepted = []\<rparr>"

definition user_frame :: "stub \<Rightarrow> Trapframe" where
  "user_frame st = zero_tf\<lparr>tf_trapno := T_SYSCALL, tf_cs := 0x1B, tf_regs := stub_regs st zero_regs\<rparr>"

lemma user_frame_ok: "call_frame st (user_frame st)"
  by (auto simp: call_frame_def user_frame_def)

definition timer_tf :: Trapframe where
  "timer_tf = zero_tf\<lparr>tf_trapno := IRQ_OFFSET + IRQ_TIMER, tf_cs := GD_KT\<rparr>"

lemma find_upt_first: "a < b \<Longrightarrow> P a \<Longrightarrow> find P [a..<b] = Some a"
  by (simp add: upt_conv_Cons)

lemma env_run_frame0:
  assumes "frame0 s" "kernel_lock s = Some (cpunum s)"
  shows "\<exists>s'. env_run e s = (NoRet (Run e) s' :: 'a kres) \<and> kernel_lock s' = None \<and> frame0 s'
    \<and> cpus s' = (cpus s)(cpunum s := (cpus s (cpunum s))\<lparr>cpu_env := Some e\<rparr>) \<and> env_status (envs s' e) = ENV_RUNNING
    \<and> (\<forall>j. j \<noteq> e \<longrightarrow> env_status (envs s' j) = ENV_RUNNING \<longrightarrow> env_status (envs s j) = ENV_RUNNING)"
  using assms unfolding env_run_def frame0_def
  by (simp add: PADDR_def kpanic_def kreturn_def lcr3_def unlock_kernel_def env_pop_tf_def upd_env_def curenv_def set_curenv_def
      kbind_run split: option.splits)

lemma entered_frame:
  "frame0 (entered e tf (on_cpu p s)) = frame0 s" "kernel_lock (entered e tf (on_cpu p s)) = Some p"
  "cpunum (entered e tf (on_cpu p s)) = p"
  "cpus (entered e tf (on_cpu p s)) = (cpus s)(p := (cpus s p)\<lparr>cpu_status := CPU_STARTED\<rparr>)"
  "env_id (envs (entered e tf (on_cpu p s)) i) = env_id (envs s i)"
  "env_status (envs (entered e tf (on_cpu p s)) i) = env_status (envs s i)"
  by (auto simp: entered_def on_cpu_def frame0_def upd_env_def)

lemma yield_first:
  assumes "i = (case curenv s of None \<Rightarrow> 0 | Some c \<Rightarrow> ENVX (env_id (envs s c)) + 1)" "i < NENV"
    and "env_status (envs s i) = ENV_RUNNABLE"
  shows "sched_yield s = env_run i s"
proof -
  have "find (\<lambda>j. env_status (envs s (j mod NENV)) = ENV_RUNNABLE) [i..<i + NENV - 1] = Some i"
    using assms(2,3) by (intro find_upt_first) simp_all
  then show ?thesis using sched_yield_find [OF assms(1)] assms(2) by (simp del: NENV_eq)
qed

abbreviation runs_next :: "kstate \<Rightarrow> kstate \<Rightarrow> nat \<Rightarrow> nat \<Rightarrow> bool" where
  "runs_next s k p i \<equiv> kernel_lock k = None \<and> frame0 k \<and> env_status (envs k i) = ENV_RUNNING
    \<and> cpus k = (cpus s)(p := (cpus s p)\<lparr>cpu_status := CPU_STARTED, cpu_env := Some i\<rparr>)"

lemma recv_progress:
  assumes "executes p e s" "call_frame (stub_ipc_recv (ipc_page 0)) tf" "kernel_lock s = None" "frame0 s"
    and "i = ENVX (env_id (envs s e)) + 1" "i < NENV" "i \<noteq> e" "env_status (envs s i) = ENV_RUNNABLE"
  shows "\<exists>k. trap tf (on_cpu p s) = (NoRet (Run i) k :: unit kres) \<and> runs_next s k p i"
proof -
  let ?m = "waits e (entered e tf (on_cpu p s))"
  have m: "frame0 ?m" "kernel_lock ?m = Some (cpunum ?m)" "cpunum ?m = p"
      "cpus ?m = (cpus s)(p := (cpus s p)\<lparr>cpu_status := CPU_STARTED\<rparr>)"
    using assms(4) by (simp_all add: waits_def entered_frame)
  have "sched_yield ?m = (env_run i ?m :: unit kres)"
    using assms(5-8) call_entered(2) [OF assms(1,2)]
    by (intro yield_first) (simp_all add: waits_def entered_frame)
  with recv_trap [OF assms(1-3)] env_run_frame0 [OF m(1,2), of i] m(3,4) show ?thesis by auto
qed

lemma send_progress:
  assumes "executes p e s" "call_frame (send_stub d val s) tf" "kernel_lock s = None" "frame0 s"
    and "d \<noteq> e" "mb_id (mailbox_of s d) \<noteq> 0" "ENVX (mb_id (mailbox_of s d)) = d" "mb_status (mailbox_of s d) \<noteq> ENV_FREE"
  shows "\<exists>k. trap tf (on_cpu p s) = (NoRet (Run e) k :: unit kres) \<and> runs_next s k p e
    \<and> (mb_recving (mailbox_of s d) \<longrightarrow> env_status (envs k d) \<noteq> ENV_RUNNING)"
proof -
  define E where "E = entered e tf (on_cpu p s)"
  note c = call_entered [OF assms(1,2), folded E_def]
  have md: "mailbox_of E d = mailbox_of s d" using c(1) assms(5) by simp
  obtain r s1 where r: "sys_ipc_try_send (mb_id (mailbox_of s d)) val UTOP 0 E = Ret r s1"
      "curenv s1 = Some e" "env_status (envs s1 e) = ENV_RUNNING" "frame0 s1 = frame0 E" "kernel_lock s1 = kernel_lock E"
      "cpunum s1 = cpunum E" "cpus s1 = cpus E"
      "mb_recving (mailbox_of s d) \<longrightarrow> env_status (envs s1 d) = ENV_RUNNABLE"
    using send_served [of E e d val] c(2,3) assms(5-8) unfolding md by blast
  have "served (send_stub d val s) E = Ret r s1"
    using r(1) by (simp add: send_stub_def stubs_served ipc_page_def mailbox_of_def)
  from call_returns [OF assms(1-3) this [unfolded E_def] r(2,3)]
    env_run_frame0 [of "upd_env e (\<lambda>v. v\<lparr>env_tf := (env_tf v)\<lparr>tf_regs :=
      (tf_regs (env_tf v))\<lparr>reg_eax := word_of_int r\<rparr>\<rparr>\<rparr>) s1" e] r(4-8) assms(4,5)
  show ?thesis by (auto simp: E_def entered_frame dest!: spec [of _ d])
qed

lemma wake_progress:
  assumes "cpus s p = \<lparr>cpu_status = CPU_HALTED, cpu_env = None\<rparr>" "timer_frame tf" "tf_cs tf AND 3 = 0" "kernel_lock s = None"
    and "frame0 s" "env_status (envs s 0) = ENV_RUNNABLE"
  shows "\<exists>k. trap tf (on_cpu p s) = (NoRet (Run 0) k :: unit kres) \<and> runs_next s k p 0"
proof -
  let ?m = "on_cpu p s\<lparr>cpus := (cpus s)(p := (cpus s p)\<lparr>cpu_status := CPU_STARTED\<rparr>), kernel_lock := Some p\<rparr>"
  have m: "frame0 ?m" "kernel_lock ?m = Some (cpunum ?m)" using assms(5) by (simp_all add: frame0_def on_cpu_def)
  have "sched_yield ?m = (env_run 0 ?m :: unit kres)"
    using assms(1,6) by (intro yield_first) (simp_all add: on_cpu_def curenv_def)
  with wake_trap [OF _ assms(2-4)] env_run_frame0 [OF m, of 0] assms(1) show ?thesis
    by (auto simp: on_cpu_def)
qed

lemma demo_run:
  "\<exists>w. ipc_step\<^sup>*\<^sup>* demo w \<and> jobs w 0 = Receiver Outside [(0x1001, 42)] \<and> jobs w 1 = Sender Outside []"
proof -
  have x0: "executes 0 0 demo_kern" "frame0 demo_kern" "kernel_lock demo_kern = None" "ENVX (env_id (envs demo_kern 0)) = 0"
      "env_status (envs demo_kern 1) = ENV_RUNNABLE"
    by (simp_all add: executes_def on_cpu_def curenv_def demo_kern_def bss_kstate_def frame0_def ENVX_mod)
  from recv_progress [OF x0(1) user_frame_ok x0(3,2), of 1] x0(4,5)
  obtain k1 where k1: "trap (user_frame (stub_ipc_recv (ipc_page 0))) (on_cpu 0 demo_kern) = (NoRet (Run 1) k1 :: unit kres)"
      "runs_next demo_kern k1 0 1" by auto
  note m1 = recv_mailboxes [OF x0(1) user_frame_ok k1(1)]
  have c1: "cpus k1 0 = \<lparr>cpu_status = CPU_STARTED, cpu_env = Some 1\<rparr>" "cpus k1 1 = \<lparr>cpu_status = CPU_HALTED, cpu_env = None\<rparr>"
    using k1(2) by (simp_all add: demo_kern_def)
  have x1: "executes 0 1 k1" using k1(2) c1 by (simp add: executes_def on_cpu_def curenv_def)
  have d1: "mb_id (mailbox_of k1 0) = 0x1000" "mb_status (mailbox_of k1 0) = ENV_NOT_RUNNABLE" "mb_recving (mailbox_of k1 0)"
      "mb_id (mailbox_of k1 1) = 0x1001"
    by (simp_all add: m1) (simp_all add: mailbox_of_def demo_kern_def)
  from send_progress [OF x1 user_frame_ok _ _, of 0 42] k1(2) d1
  obtain k2 where k2: "trap (user_frame (send_stub 0 42 k1)) (on_cpu 0 k1) = (NoRet (Run 1) k2 :: unit kres)"
      "runs_next k1 k2 0 1" "env_status (envs k2 0) \<noteq> ENV_RUNNING" by (auto simp: ENVX_mod)
  have m2: "mailbox_of k2 = (mailbox_of k1)(1 := (mailbox_of k1 1)\<lparr>mb_eax := 0\<rparr>,
      0 := (mailbox_of k1 0)\<lparr>mb_eax := 0, mb_recving := False, mb_from := 0x1001, mb_value := 42, mb_status := ENV_RUNNABLE\<rparr>)"
    using send_mailboxes [OF x1 user_frame_ok k2(1)] d1 by (simp add: ENVX_mod)
  have c2: "cpus k2 0 = \<lparr>cpu_status = CPU_STARTED, cpu_env = Some 1\<rparr>" "cpus k2 1 = \<lparr>cpu_status = CPU_HALTED, cpu_env = None\<rparr>"
    using k2(2) c1 by simp_all
  have x2: "executes 0 1 k2" using k2(2) c2 by (simp add: executes_def on_cpu_def curenv_def)
  have "env_status (envs k2 0) = ENV_RUNNABLE"
    using k2(3) mb_live [of k2 0] by (simp add: m2)
  with wake_progress [OF c2(2), of timer_tf] k2(2)
  obtain k3 where k3: "trap timer_tf (on_cpu 1 k2) = (NoRet (Run 0) k3 :: unit kres)" "runs_next k2 k3 1 0"
    by (auto simp: timer_frame_def timer_tf_def GD_KT_def)
  have m3: "mailbox_of k3 = mailbox_of k2"
    using wake_mailboxes [OF _ _ _ k3(1)] c2(2) by (simp add: timer_frame_def timer_tf_def GD_KT_def)
  have x3: "executes 1 0 k3" using k3(2) by (simp add: executes_def on_cpu_def curenv_def)
  have e2: "eax_of 1 k2 = 0" using arg_cong [OF m2, of "\<lambda>f. mb_eax (f 1)"] by (simp add: mailbox_of_def)
  have e3: "eax_of 0 k3 = 0" "env_ipc_value (envs k3 0) = 42" "env_ipc_from (envs k3 0) = 0x1001"
    using arg_cong [OF m3 [unfolded m2], of "\<lambda>f. mb_eax (f 0)"] arg_cong [OF m3 [unfolded m2], of "\<lambda>f. mb_value (f 0)"]
      arg_cong [OF m3 [unfolded m2], of "\<lambda>f. mb_from (f 0)"] by (simp_all add: mailbox_of_def)
  define w1 where "w1 = demo\<lparr>kern := k1, jobs := (jobs demo)(0 := Receiver Inside [])\<rparr>"
  define w2 where "w2 = w1\<lparr>kern := k2, jobs := (jobs w1)(1 := Sender Inside [(0, 42)]), accepted := [(0, 1, 42)]\<rparr>"
  define w3 where "w3 = w2\<lparr>jobs := (jobs w2)(1 := Sender Outside [])\<rparr>"
  define w4 where "w4 = w3\<lparr>kern := k3\<rparr>"
  define w5 where "w5 = w4\<lparr>jobs := (jobs w4)(0 := Receiver Outside [(0x1001, 42)])\<rparr>"
  have "ipc_step demo w1"
    using ipc_step.recv [of 0 0 demo "[]", OF _ _ user_frame_ok] x0(1) k1(1) by (simp add: w1_def demo_def)
  moreover have "ipc_step w1 w2"
    using ipc_step.send [of 0 1 w1 0 42 "[]", OF _ _ user_frame_ok] x1 k2(1) e2 by (simp add: w1_def w2_def demo_def)
  moreover have "ipc_step w2 w3"
    using ipc_step.sent [of 0 1 w2 0 42 "[]"] x2 e2
    by (simp add: w1_def w2_def w3_def demo_def after_send_def stub_result_def send_stub_def stub_ipc_try_send_def
        stub_call_def ipc_send_next_def)
  moreover have "ipc_step w3 w4"
    using ipc_step.wake [of w3 1 timer_tf] c2(2) k3(1)
    by (simp add: w1_def w2_def w3_def w4_def timer_frame_def timer_tf_def GD_KT_def)
  moreover have "ipc_step w4 w5"
    using ipc_step.received [of 1 0 w4 "[]"] x3 e3
    by (simp add: w1_def w2_def w3_def w4_def w5_def demo_def after_recv_def stub_result_def ipc_recv_result_def)
  ultimately have "ipc_step\<^sup>*\<^sup>* demo w5" by (meson converse_rtranclp_into_rtranclp rtranclp.rtrancl_refl)
  then show ?thesis by (intro exI [of _ w5]) (simp add: w1_def w2_def w3_def w4_def w5_def)
qed

text \<open>The run above: the theorem gives the message from the log of what the kernel accepted.\<close>

theorem ipc_delivers_witness:
  "\<exists>w. ipc_step\<^sup>*\<^sup>* demo w \<and> jobs w 0 = Receiver Outside [(0x1001, 42)] \<and> accepted_from 1 (accepted w) = [(0, 42)]"
proof -
  have start: "ipc_start demo"
    by (simp add: ipc_start_def demo_def demo_kern_def is_receiver_def zero_env_def ENVX_mod)
  obtain w where w: "ipc_step\<^sup>*\<^sup>* demo w" "jobs w 0 = Receiver Outside [(0x1001, 42)]" "jobs w 1 = Sender Outside []"
    using demo_run by blast
  from ipc_delivers [OF start w(1), of 1] w show ?thesis
    by (auto simp: unsent_def demo_def)
qed

end
