(* ===== verification/Jos_Fork.thy ===== *)
theory Jos_Fork
  imports Jos_Syscall
begin

text \<open>
  The user-level fork: \<^verbatim>\<open>tps/lib/fork.c\<close> and \<^verbatim>\<open>tps/lib/pgfault.c\<close>. User code knows the kernel by
  its system calls and by the read-only images \<open>uvpd\<close> and \<open>uvpt\<close> of its page tables, so the
  state here is what those show: which page each environment has at which page number, with
  which permissions, and what the pages contain. The copy-on-write scheme is
  proved to implement a fork that copies.
\<close>

section \<open>The user's view of the machine\<close>

text \<open>
  Pages have names, and a new page has a name nobody has used: the frame behind a name is not
  visible to user code; name 0 is physical page 0, which is never allocated. \<open>free_pages\<close> and
  \<open>free_envs\<close> count the pages and the slots the kernel has left, and \<open>refs\<close> the references to a
  page, without the wrap-around of the 16-bit counter. A page table takes a page and, once there, stays.
\<close>

record umachine =
  space :: "nat \<Rightarrow> nat \<Rightarrow> (nat \<times> u32) option"
  has_table :: "nat \<Rightarrow> nat \<Rightarrow> bool"
  page :: "nat \<Rightarrow> nat \<Rightarrow> u8"
  next_page :: nat
  next_env :: nat
  free_pages :: nat
  free_envs :: nat
  refs :: "nat \<Rightarrow> int"
  status :: "nat \<Rightarrow> env_status"
  upcall :: "nat \<Rightarrow> bool"
  handler :: "nat \<Rightarrow> bool"

type_synonym 'a uM = "umachine \<Rightarrow> ('a \<times> umachine) option"

definition ureturn :: "'a \<Rightarrow> 'a uM" where "ureturn a = (\<lambda>s. Some (a, s))"
definition ubind :: "'a uM \<Rightarrow> ('a \<Rightarrow> 'b uM) \<Rightarrow> 'b uM" where
  "ubind m f = (\<lambda>s. case m s of None \<Rightarrow> None | Some (a, s') \<Rightarrow> f a s')"
definition upanic :: "'a uM" where "upanic = (\<lambda>s. None)"
definition uget :: "(umachine \<Rightarrow> 'a) \<Rightarrow> 'a uM" where "uget f = (\<lambda>s. Some (f s, s))"
definition umodify :: "(umachine \<Rightarrow> umachine) \<Rightarrow> unit uM" where "umodify f = (\<lambda>s. Some ((), f s))"

primrec ufor :: "'a list \<Rightarrow> ('a \<Rightarrow> unit uM) \<Rightarrow> unit uM" where
  "ufor [] f = ureturn ()"
| "ufor (x # xs) f = ubind (f x) (\<lambda>_. ufor xs f)"

lemma uM_simps [simp]:
  "ureturn a s = Some (a, s)" "uget f s = Some (f s, s)" "umodify g s = Some ((), g s)" "upanic s = None"
  "m s = Some (a, s') \<Longrightarrow> ubind m h s = h a s'" "m s = None \<Longrightarrow> ubind m h s = None"
  by (simp_all add: ureturn_def uget_def umodify_def upanic_def ubind_def)

lemma ufor_append: "ufor xs f s = Some ((), s') \<Longrightarrow> ufor (xs @ ys) f s = ufor ys f s'"
  by (induction xs arbitrary: s) (auto simp: ubind_def ureturn_def split: option.splits prod.splits)

lemma ufor_inv:
  assumes "I 0 s" and "\<And>k s. k < n \<Longrightarrow> I k s \<Longrightarrow> \<exists>s'. f k s = Some ((), s') \<and> I (Suc k) s'"
  shows "\<exists>s'. ufor [0..<n] f s = Some ((), s') \<and> I n s'"
proof -
  have "\<exists>s'. ufor [0..<k] f s = Some ((), s') \<and> I k s'" if "k \<le> n" for k
    using that
  proof (induction k)
    case (Suc k)
    then obtain s1 where s1: "ufor [0..<k] f s = Some ((), s1)" "I k s1" by auto
    with assms(2) [of k s1] Suc.prems obtain s2 where "f k s1 = Some ((), s2)" "I (Suc k) s2" by auto
    moreover have "ufor [0..<Suc k] f s = ufor [k] f s1" using ufor_append [OF s1(1), of "[k]"] by simp
    ultimately show ?case by simp
  qed (simp add: assms(1))
  then show ?thesis by simp
qed

text \<open>The entries of \<open>uvpt\<close>, of which user code looks at the permissions, and of \<open>uvpd\<close>.\<close>

definition uvpt :: "nat \<Rightarrow> nat \<Rightarrow> umachine \<Rightarrow> u32" where
  "uvpt e pn s = (case space s e pn of None \<Rightarrow> 0 | Some (f, p) \<Rightarrow> p)"

text \<open>\<open>page_decref\<close>, \<open>page_remove\<close> and \<open>page_insert\<close> of \<^verbatim>\<open>kern/pmap.c\<close>.\<close>

definition u_decref :: "nat \<Rightarrow> umachine \<Rightarrow> umachine" where
  "u_decref f s = s\<lparr>refs := (refs s)(f := refs s f - 1),
     free_pages := free_pages s + (if refs s f - 1 = 0 then 1 else 0)\<rparr>"

text \<open>An entry that is 0 refers to physical page 0; \<open>page_lookup\<close> does not look whether it is present.\<close>

definition entry_page :: "umachine \<Rightarrow> nat \<Rightarrow> nat \<Rightarrow> nat" where
  "entry_page s e pn = (case space s e pn of None \<Rightarrow> 0 | Some (f, p) \<Rightarrow> f)"

definition u_remove :: "nat \<Rightarrow> nat \<Rightarrow> umachine \<Rightarrow> umachine" where
  "u_remove e pn s =
     (if \<not> has_table s e (pn div 1024) then s
      else u_decref (entry_page s e pn) (s\<lparr>space := (space s)(e := (space s e)(pn := None))\<rparr>))"

definition give_table :: "nat \<Rightarrow> nat \<Rightarrow> umachine \<Rightarrow> umachine" where
  "give_table e t s =
     (if has_table s e t then s
      else s\<lparr>has_table := (has_table s)(e := (has_table s e)(t := True)), free_pages := free_pages s - 1\<rparr>)"

definition map_at :: "nat \<Rightarrow> nat \<Rightarrow> nat \<Rightarrow> u32 \<Rightarrow> umachine \<Rightarrow> umachine" where
  "map_at e pn f perm s =
     (let s1 = give_table e (pn div 1024) s;
          s2 = s1\<lparr>refs := (refs s1)(f := refs s1 f + 1)\<rparr>;
          s3 = (if space s2 e pn \<noteq> None then u_remove e pn s2 else s2)
      in s3\<lparr>space := (space s3)(e := (space s3 e)(pn \<mapsto> (f, perm OR PTE_P)))\<rparr>)"

definition u_insert :: "nat \<Rightarrow> nat \<Rightarrow> nat \<Rightarrow> u32 \<Rightarrow> umachine \<Rightarrow> umachine option" where
  "u_insert e pn f perm s =
     (if \<not> has_table s e (pn div 1024) \<and> free_pages s = 0 then None else Some (map_at e pn f perm s))"

section \<open>System calls\<close>

text \<open>
  What the calls of \<^verbatim>\<open>kern/syscall.c\<close> do to this state when the caller may act on the
  environments it names, which are itself and its child.
\<close>

definition new_page :: "umachine \<Rightarrow> umachine" where
  "new_page s = s\<lparr>page := (page s)(next_page s := (\<lambda>_. 0)), next_page := next_page s + 1,
     refs := (refs s)(next_page s := 0), free_pages := free_pages s - 1\<rparr>"

definition u_page_alloc :: "nat \<Rightarrow> nat \<Rightarrow> u32 \<Rightarrow> int uM" where
  "u_page_alloc e pn perm = (\<lambda>s.
     if check_perm perm < 0 \<or> pn \<ge> 977920 then Some (- E_INVAL, s)
     else if free_pages s = 0 then Some (- E_NO_MEM, s)
     else case u_insert e pn (next_page s) perm (new_page s) of
       None \<Rightarrow> Some (- E_NO_MEM, s)
     | Some s' \<Rightarrow> Some (0, s'))"

definition u_page_map :: "nat \<Rightarrow> nat \<Rightarrow> nat \<Rightarrow> nat \<Rightarrow> u32 \<Rightarrow> int uM" where
  "u_page_map src spn dst dpn perm = (\<lambda>s.
     if check_perm perm < 0 \<or> spn \<ge> 977920 \<or> dpn \<ge> 977920 then Some (- E_INVAL, s)
     else if \<not> has_table s src (spn div 1024) then Some (- E_INVAL, s)
     else if perm AND PTE_W \<noteq> 0 \<and> uvpt src spn s AND PTE_W = 0 then Some (- E_INVAL, s)
     else case u_insert dst dpn (entry_page s src spn) perm s of
       None \<Rightarrow> Some (- E_NO_MEM, s)
     | Some s' \<Rightarrow> Some (0, s'))"

definition u_page_unmap :: "nat \<Rightarrow> nat \<Rightarrow> int uM" where
  "u_page_unmap e pn = (\<lambda>s. if pn \<ge> 977920 then Some (- E_INVAL, s) else Some (0, u_remove e pn s))"

text \<open>A new environment takes a slot and a page for its directory.\<close>

definition u_exofork :: "int uM" where
  "u_exofork = (\<lambda>s.
     if free_envs s = 0 then Some (- E_NO_FREE_ENV, s)
     else if free_pages s = 0 then Some (- E_NO_MEM, s)
     else Some (int (next_env s), s\<lparr>next_env := next_env s + 1, free_envs := free_envs s - 1,
       free_pages := free_pages s - 1,
       space := (space s)(next_env s := (\<lambda>_. None)), has_table := (has_table s)(next_env s := (\<lambda>_. False)),
       status := (status s)(next_env s := ENV_NOT_RUNNABLE), upcall := (upcall s)(next_env s := False)\<rparr>))"

text \<open>What an insertion and a removal change.\<close>

lemma give_table_simps [simp]:
  "space (give_table e t s) = space s" "page (give_table e t s) = page s" "next_page (give_table e t s) = next_page s"
  "next_env (give_table e t s) = next_env s" "free_envs (give_table e t s) = free_envs s" "refs (give_table e t s) = refs s"
  "status (give_table e t s) = status s" "upcall (give_table e t s) = upcall s" "handler (give_table e t s) = handler s"
  "has_table (give_table e t s) = (has_table s)(e := (has_table s e)(t := True))"
  by (auto simp: give_table_def fun_eq_iff)

lemma u_remove_simps [simp]:
  "page (u_remove e pn s) = page s" "next_page (u_remove e pn s) = next_page s"
  "next_env (u_remove e pn s) = next_env s" "free_envs (u_remove e pn s) = free_envs s"
  "status (u_remove e pn s) = status s" "upcall (u_remove e pn s) = upcall s" "handler (u_remove e pn s) = handler s"
  "has_table (u_remove e pn s) = has_table s"
  "has_table s e (pn div 1024) \<Longrightarrow> space (u_remove e pn s) = (space s)(e := (space s e)(pn := None))"
  "free_pages s \<le> free_pages (u_remove e pn s)"
  by (simp_all add: u_remove_def u_decref_def)

lemma map_at_simps [simp]:
  "page (map_at e pn f p s) = page s" "next_page (map_at e pn f p s) = next_page s"
  "next_env (map_at e pn f p s) = next_env s" "free_envs (map_at e pn f p s) = free_envs s"
  "status (map_at e pn f p s) = status s" "upcall (map_at e pn f p s) = upcall s" "handler (map_at e pn f p s) = handler s"
  "has_table (map_at e pn f p s) = (has_table s)(e := (has_table s e)(pn div 1024 := True))"
  "space (map_at e pn f p s) = (space s)(e := (space s e)(pn \<mapsto> (f, p OR PTE_P)))"
  by (simp_all add: map_at_def Let_def fun_upd_idem_iff)

lemma map_at_pages: "free_pages s \<le> free_pages (map_at e pn f p s) + (if has_table s e (pn div 1024) then 0 else 1)"
proof -
  let ?s2 = "(give_table e (pn div 1024) s)\<lparr>refs := (refs s)(f := refs s f + 1)\<rparr>"
  have "free_pages s \<le> free_pages ?s2 + (if has_table s e (pn div 1024) then 0 else 1)"
    by (auto simp: give_table_def)
  moreover have "free_pages ?s2 \<le> free_pages (map_at e pn f p s)"
    using u_remove_simps(10) [of ?s2 e pn] by (simp add: map_at_def Let_def)
  ultimately show ?thesis by simp
qed

lemma new_page_simps [simp]:
  "space (new_page s) = space s" "has_table (new_page s) = has_table s" "next_env (new_page s) = next_env s"
  "free_envs (new_page s) = free_envs s" "status (new_page s) = status s" "upcall (new_page s) = upcall s"
  "handler (new_page s) = handler s" "next_page (new_page s) = next_page s + 1"
  "page (new_page s) = (page s)(next_page s := (\<lambda>_. 0))" "free_pages (new_page s) = free_pages s - 1"
  "refs (new_page s) = (refs s)(next_page s := 0)"
  by (simp_all add: new_page_def)

lemma u_insert_run:
  "has_table s e (pn div 1024) \<or> 0 < free_pages s \<Longrightarrow> u_insert e pn f perm s = Some (map_at e pn f perm s)"
  by (auto simp: u_insert_def)

text \<open>Mapping needs a table in the destination; without one, and with no page left, it fails.\<close>

lemma u_page_map_run:
  assumes "space s src spn = Some (f, p)" and "has_table s src (spn div 1024)" and "\<not> check_perm perm < 0"
    and "spn < 977920" "dpn < 977920" and "perm AND PTE_W \<noteq> 0 \<Longrightarrow> p AND PTE_W \<noteq> 0"
    and "has_table s dst (dpn div 1024) \<or> 0 < free_pages s"
  shows "u_page_map src spn dst dpn perm s = Some (0, map_at dst dpn f perm s)"
  using assms by (auto simp: u_page_map_def uvpt_def entry_page_def u_insert_run)

lemma u_page_map_no_mem:
  assumes "space s src spn = Some (f, p)" and "has_table s src (spn div 1024)" and "\<not> check_perm perm < 0"
    and "spn < 977920" "dpn < 977920" and "perm AND PTE_W = 0"
    and "\<not> has_table s dst (dpn div 1024)" "free_pages s = 0"
  shows "u_page_map src spn dst dpn perm s = Some (- E_NO_MEM, s)"
  using assms by (simp add: u_page_map_def u_insert_def)

text \<open>
  A source page that is not mapped, in a table that is there, is taken for physical page 0.
\<close>

lemma u_page_map_page_0:
  assumes "space s src spn = None" and "has_table s src (spn div 1024)" and "\<not> check_perm perm < 0"
    and "spn < 977920" "dpn < 977920" and "perm AND PTE_W = 0"
    and "has_table s dst (dpn div 1024) \<or> 0 < free_pages s"
  shows "u_page_map src spn dst dpn perm s = Some (0, map_at dst dpn 0 perm s)"
  using assms by (simp add: u_page_map_def uvpt_def entry_page_def u_insert_run)

section \<open>Copy on write\<close>

definition PTE_COW :: u32 where "PTE_COW = 0x800"
definition PTE_SHARE :: u32 where "PTE_SHARE = 0x400"
definition FEC_PR :: u32 where "FEC_PR = 1"
definition FEC_WR :: u32 where "FEC_WR = 2"

definition ux_page :: nat where "ux_page = 977919"
definition pf_page :: nat where "pf_page = 2047"

text \<open>A failing call is fatal.\<close>

definition must :: "int uM \<Rightarrow> unit uM" where
  "must m = ubind m (\<lambda>r. if r < 0 then upanic else ureturn ())"

text \<open>\<open>memcpy(PFTEMP, addr, PGSIZE)\<close>.\<close>

definition copy_page :: "nat \<Rightarrow> nat \<Rightarrow> nat \<Rightarrow> unit uM" where
  "copy_page e dst src = (\<lambda>s. case (space s e dst, space s e src) of
     (Some (d, p), Some (f, q)) \<Rightarrow> if p AND PTE_W = 0 then None else Some ((), s\<lparr>page := (page s)(d := page s f)\<rparr>)
   | _ \<Rightarrow> None)"

definition pgfault :: "nat \<Rightarrow> nat \<Rightarrow> u32 \<Rightarrow> unit uM" where
  "pgfault e pn err =
     ubind (uget (uvpt e pn)) (\<lambda>pte.
     if err AND FEC_PR = 0 then upanic
     else if err AND FEC_WR = 0 then upanic
     else if pte AND PTE_COW = 0 then upanic
     else
       ubind (must (u_page_alloc e pf_page (PTE_W OR PTE_U OR PTE_P))) (\<lambda>_.
       ubind (copy_page e pf_page pn) (\<lambda>_.
       ubind (must (u_page_map e pf_page e pn (PTE_W OR PTE_U OR PTE_P))) (\<lambda>_.
         must (u_page_unmap e pf_page)))))"

definition duppage :: "nat \<Rightarrow> nat \<Rightarrow> nat \<Rightarrow> unit uM" where
  "duppage e envid pn =
     ubind (uget (uvpt e pn)) (\<lambda>pte.
     if pte AND PTE_W \<noteq> 0 \<or> pte AND PTE_COW \<noteq> 0 then
       ubind (must (u_page_map e pn envid pn (PTE_P OR PTE_U OR PTE_COW))) (\<lambda>_.
         must (u_page_map e pn e pn (PTE_P OR PTE_U OR PTE_COW)))
     else must (u_page_map e pn envid pn (PTE_P OR PTE_U)))"

definition set_pgfault_handler :: "nat \<Rightarrow> unit uM" where
  "set_pgfault_handler e =
     ubind (uget (\<lambda>s. handler s e)) (\<lambda>h.
     ubind (if h then ureturn ()
            else ubind (must (u_page_alloc e ux_page (PTE_U OR PTE_W OR PTE_P))) (\<lambda>_.
                   umodify (\<lambda>s. s\<lparr>upcall := (upcall s)(e := True)\<rparr>))) (\<lambda>_.
       umodify (\<lambda>s. s\<lparr>handler := (handler s)(e := True)\<rparr>)))"

text \<open>The body of the inner loop of \<open>fork\<close>, and the loop over the pages of one table.\<close>

definition dup_one :: "nat \<Rightarrow> nat \<Rightarrow> nat \<Rightarrow> unit uM" where
  "dup_one e child pn = ubind (uget (uvpt e pn)) (\<lambda>pte.
     if pn = ux_page \<or> pte AND PTE_P = 0 then ureturn () else duppage e child pn)"

definition dup_table :: "nat \<Rightarrow> nat \<Rightarrow> nat \<Rightarrow> unit uM" where
  "dup_table e child pdx =
     ubind (uget (\<lambda>s. has_table s e pdx)) (\<lambda>present.
     if \<not> present then ureturn ()
     else ufor [0..<1024] (\<lambda>ptx. dup_one e child (pdx * 1024 + ptx)))"

text \<open>
  The parent's run of \<open>fork\<close>; the child gets the return value 0, and a copy of the variable
  \<open>_pgfault_handler\<close> with the page it is in. The results of the last three system calls are
  not looked at.
\<close>

definition fork :: "nat \<Rightarrow> int uM" where
  "fork e =
     ubind (set_pgfault_handler e) (\<lambda>_.
     ubind u_exofork (\<lambda>child_id.
     if child_id < 0 then upanic
     else
       let child = nat child_id in
       ubind (umodify (\<lambda>s. s\<lparr>upcall := (upcall s)(child := True), handler := (handler s)(child := handler s e)\<rparr>)) (\<lambda>_.
       ubind (u_page_alloc child ux_page (PTE_W OR PTE_U OR PTE_P)) (\<lambda>_.
       ubind (ufor [0..<955] (dup_table e child)) (\<lambda>_.
       ubind (umodify (\<lambda>s. s\<lparr>status := (status s)(child := ENV_RUNNABLE)\<rparr>)) (\<lambda>_.
         ureturn child_id))))))"

text \<open>
  A write by user code: it goes through when the page is writable, otherwise the fault reaches
  the handler and the instruction is executed again.
\<close>

definition store_byte :: "nat \<Rightarrow> nat \<Rightarrow> nat \<Rightarrow> u8 \<Rightarrow> unit uM" where
  "store_byte e pn i b = (\<lambda>s. case space s e pn of
     Some (f, p) \<Rightarrow> if p AND PTE_W \<noteq> 0 then Some ((), s\<lparr>page := (page s)(f := (page s f)(i := b))\<rparr>) else None
   | None \<Rightarrow> None)"

definition user_write :: "nat \<Rightarrow> nat \<Rightarrow> nat \<Rightarrow> u8 \<Rightarrow> unit uM" where
  "user_write e pn i b =
     ubind (uget (uvpt e pn)) (\<lambda>pte.
     if pte AND PTE_W \<noteq> 0 then store_byte e pn i b
     else ubind (uget (\<lambda>s. handler s e)) (\<lambda>h.
       if \<not> h then upanic
       else ubind (pgfault e pn (if pte AND PTE_P \<noteq> 0 then FEC_PR OR FEC_WR else FEC_WR)) (\<lambda>_.
         store_byte e pn i b)))"

section \<open>What user code can see\<close>

text \<open>The contents of a page and whether user code may write it, at once or after a fault.\<close>

definition view :: "umachine \<Rightarrow> nat \<Rightarrow> nat \<Rightarrow> ((nat \<Rightarrow> u8) \<times> bool) option" where
  "view s e pn = map_option (\<lambda>(f, p). (page s f, p AND PTE_W \<noteq> 0 \<or> p AND PTE_COW \<noteq> 0)) (space s e pn)"

text \<open>
  The invariant: mapped pages have been allocated and lie below \<open>UTOP\<close> in a table that is there,
  unused slots map nothing, nothing is left at \<open>PFTEMP\<close>, and a page that somebody can write is
  mapped nowhere else, unless it is marked \<open>PTE_SHARE\<close>; the reference counts are the numbers of mappings.
\<close>

definition maps_ok :: "umachine \<Rightarrow> bool" where
  "maps_ok s \<longleftrightarrow>
     (\<forall>e pn f p. space s e pn = Some (f, p) \<longrightarrow>
        0 < f \<and> f < next_page s \<and> p AND PTE_P \<noteq> 0 \<and> has_table s e (pn div 1024) \<and> pn < 977920 \<and> e < next_env s)
   \<and> (\<forall>e. space s e pf_page = None) \<and> 0 < next_page s
   \<and> (\<forall>e pn e' pn' f p q. space s e pn = Some (f, p) \<longrightarrow> space s e' pn' = Some (f, q) \<longrightarrow>
        p AND PTE_W \<noteq> 0 \<longrightarrow> p AND PTE_SHARE = 0 \<longrightarrow> e = e' \<and> pn = pn')"

definition mappings :: "umachine \<Rightarrow> nat \<Rightarrow> (nat \<times> nat) set" where
  "mappings s f = {(e, pn). \<exists>p. space s e pn = Some (f, p)}"

definition refs_ok :: "umachine \<Rightarrow> bool" where
  "refs_ok s \<longleftrightarrow> (\<forall>f > 0. finite (mappings s f) \<and> refs s f = int (card (mappings s f)))"

definition cow_ok :: "umachine \<Rightarrow> bool" where
  "cow_ok s \<longleftrightarrow> maps_ok s \<and> refs_ok s"

lemma maps_okD:
  assumes "maps_ok s" "space s e pn = Some (f, p)"
  shows "f < next_page s" "p AND PTE_P \<noteq> 0" "has_table s e (pn div 1024)" "pn < 977920" "e < next_env s" "pn \<noteq> pf_page"
    "space s e' pn' = Some (f, q) \<Longrightarrow> p AND PTE_W \<noteq> 0 \<Longrightarrow> p AND PTE_SHARE = 0 \<Longrightarrow> e = e' \<and> pn = pn'" "0 < f"
proof -
  show "0 < f" "f < next_page s" "p AND PTE_P \<noteq> 0" "has_table s e (pn div 1024)" "pn < 977920" "e < next_env s"
    using assms unfolding maps_ok_def by blast+
  show "pn \<noteq> pf_page" using assms by (auto simp: maps_ok_def)
  show "space s e' pn' = Some (f, q) \<Longrightarrow> p AND PTE_W \<noteq> 0 \<Longrightarrow> p AND PTE_SHARE = 0 \<Longrightarrow> e = e' \<and> pn = pn'"
    using assms unfolding maps_ok_def by blast
qed

lemma cow_okD: "cow_ok s \<Longrightarrow> maps_ok s" "cow_ok s \<Longrightarrow> refs_ok s"
  by (simp_all add: cow_ok_def)

lemma maps_ok_cong:
  assumes "space s' = space s" "has_table s' = has_table s" "next_page s' = next_page s" "next_env s' = next_env s"
  shows "maps_ok s' = maps_ok s"
  using assms by (simp add: maps_ok_def)

lemma refs_ok_cong: "space s' = space s \<Longrightarrow> refs s' = refs s \<Longrightarrow> refs_ok s' = refs_ok s"
  by (simp add: refs_ok_def mappings_def)

lemma view_cong: "space s' = space s \<Longrightarrow> page s' = page s \<Longrightarrow> view s' = view s"
  by (intro ext) (simp add: view_def)

section \<open>References\<close>

lemma entry_mapped: "space s e pn = Some (g, p) \<Longrightarrow> (e, pn) \<in> mappings s g"
  by (auto simp: mappings_def)

lemma card_without: "finite A \<Longrightarrow> x \<in> A \<Longrightarrow> int (card (A - {x})) = int (card A) - 1"
  using card_Suc_Diff1 [of A x] by linarith

lemma u_remove_refs:
  assumes "refs_ok s" "space s e pn = Some (g, p)" "has_table s e (pn div 1024)"
  shows "refs_ok (u_remove e pn s)"
  unfolding refs_ok_def
proof (intro allI impI)
  fix h :: nat
  assume h: "0 < h"
  have m: "mappings (u_remove e pn s) h = mappings s h - {(e, pn)}"
    using assms(3) by (auto simp: mappings_def split: if_splits)
  have r: "refs (u_remove e pn s) h = refs s h - (if h = g then 1 else 0)"
    using assms(2,3) by (simp add: u_remove_def u_decref_def entry_page_def)
  have fin: "finite (mappings s h)" "refs s h = int (card (mappings s h))" using assms(1) h by (simp_all add: refs_ok_def)
  have "(e, pn) \<in> mappings s h \<longleftrightarrow> h = g" using assms(2) by (auto simp: mappings_def)
  with fin show "finite (mappings (u_remove e pn s) h) \<and> refs (u_remove e pn s) h = int (card (mappings (u_remove e pn s) h))"
    unfolding m r by (cases "h = g") (auto simp: card_without simp del: card_Diff_insert)
qed

lemma map_at_refs:
  assumes "refs_ok s" "\<And>g p. space s e pn = Some (g, p) \<Longrightarrow> has_table s e (pn div 1024)"
  shows "refs_ok (map_at e pn f perm s)"
  unfolding refs_ok_def
proof (intro allI impI)
  fix h :: nat
  assume h: "0 < h"
  have m: "mappings (map_at e pn f perm s) h = (if h = f then insert (e, pn) (mappings s h) else mappings s h - {(e, pn)})"
    by (auto simp: mappings_def split: if_splits)
  have r: "refs (map_at e pn f perm s) h = refs s h + (if h = f then 1 else 0) - (if (e, pn) \<in> mappings s h then 1 else 0)"
    by (auto simp: map_at_def Let_def u_remove_def u_decref_def entry_page_def mappings_def)
  have fin: "finite (mappings s h)" "refs s h = int (card (mappings s h))" using assms(1) h by (simp_all add: refs_ok_def)
  then show "finite (mappings (map_at e pn f perm s) h)
      \<and> refs (map_at e pn f perm s) h = int (card (mappings (map_at e pn f perm s) h))"
    unfolding m r by (cases "(e, pn) \<in> mappings s h")
      (auto simp: insert_absorb card_without simp del: card_Diff_insert)
qed

lemma new_page_refs:
  assumes "cow_ok s"
  shows "refs_ok (new_page s)"
proof -
  have "space s e pn = Some (g, p) \<Longrightarrow> g \<noteq> next_page s" for e pn g p
    using maps_okD(1) [OF cow_okD(1) [OF assms]] by blast
  then have "mappings s (next_page s) = {}" by (auto simp: mappings_def)
  with cow_okD(2) [OF assms] show ?thesis
    unfolding refs_ok_def by (auto simp: mappings_def)
qed

section \<open>Permissions\<close>

abbreviation cow_perm :: u32 where "cow_perm \<equiv> PTE_P OR PTE_U OR PTE_COW"
abbreviation own_perm :: u32 where "own_perm \<equiv> PTE_W OR PTE_U OR PTE_P"

lemmas uflags = PTE_P_def PTE_U_def PTE_W_def PTE_COW_def FEC_PR_def FEC_WR_def

lemma perms [simp]:
  "\<not> check_perm cow_perm < 0" "\<not> check_perm own_perm < 0" "\<not> check_perm (PTE_U OR PTE_W OR PTE_P) < 0"
  "\<not> check_perm (PTE_P OR PTE_U) < 0"
  "cow_perm AND PTE_W = 0" "cow_perm AND PTE_COW \<noteq> 0" "(PTE_P OR PTE_U) AND PTE_W = 0" "own_perm AND PTE_W \<noteq> 0"
  by (simp_all add: check_perm_def mmu_consts PTE_COW_def)

definition demoted :: "u32 \<Rightarrow> u32" where
  "demoted p = (if p AND PTE_W \<noteq> 0 \<or> p AND PTE_COW \<noteq> 0 then cow_perm OR PTE_P else p)"

definition shared :: "u32 \<Rightarrow> u32" where
  "shared p = (if p AND PTE_W \<noteq> 0 \<or> p AND PTE_COW \<noteq> 0 then cow_perm OR PTE_P else (PTE_P OR PTE_U) OR PTE_P)"

lemma demoted_flags: "demoted p AND PTE_W = 0" "p AND PTE_P \<noteq> 0 \<Longrightarrow> demoted p AND PTE_P \<noteq> 0"
  "shared p AND PTE_W = 0" "shared p AND PTE_P \<noteq> 0"
  by (auto simp: demoted_def shared_def mmu_consts PTE_COW_def)

section \<open>Duplicating an address space\<close>

definition used_tables :: "umachine \<Rightarrow> nat \<Rightarrow> nat \<Rightarrow> nat set" where
  "used_tables s e k = (\<lambda>pn. pn div 1024) ` {pn. pn < k \<and> pn \<noteq> ux_page \<and> space s e pn \<noteq> None}"

lemma used_tables_Suc: "used_tables s e (Suc k) =
    (if k \<noteq> ux_page \<and> space s e k \<noteq> None then insert (k div 1024) (used_tables s e k) else used_tables s e k)"
proof -
  have "{pn. pn < Suc k \<and> pn \<noteq> ux_page \<and> space s e pn \<noteq> None} =
      {pn. pn < k \<and> pn \<noteq> ux_page \<and> space s e pn \<noteq> None} \<union> (if k \<noteq> ux_page \<and> space s e k \<noteq> None then {k} else {})"
    by (auto simp: less_Suc_eq)
  then show ?thesis by (simp add: used_tables_def image_Un)
qed

definition dup_result :: "nat \<Rightarrow> nat \<Rightarrow> nat \<Rightarrow> umachine \<Rightarrow> umachine" where
  "dup_result e child k s = s\<lparr>
     space := (space s)(
       e := (\<lambda>pn. if pn < k \<and> pn \<noteq> ux_page then map_option (apsnd demoted) (space s e pn) else space s e pn),
       child := (\<lambda>pn. if pn < k \<and> pn \<noteq> ux_page \<and> space s e pn \<noteq> None then map_option (apsnd shared) (space s e pn)
                      else space s child pn)),
     has_table := (has_table s)(child := (\<lambda>t. has_table s child t \<or> t \<in> used_tables s e k))\<rparr>"

lemma dup_result_skip:
  "pn = ux_page \<or> space s e pn = None \<Longrightarrow> dup_result e child (Suc pn) s = dup_result e child pn s"
  by (auto simp: dup_result_def used_tables_Suc fun_eq_iff less_Suc_eq intro!: arg_cong2 [where f = "\<lambda>a b. s\<lparr>space := a, has_table := b\<rparr>"])

text \<open>The tables the child still lacks, and the state after \<open>k\<close> pages, whose new tables took pages.\<close>

definition new_tables :: "umachine \<Rightarrow> nat \<Rightarrow> nat \<Rightarrow> nat \<Rightarrow> nat set" where
  "new_tables s e child k = {t \<in> used_tables s e k. \<not> has_table s child t}"

lemma new_tables_mono: "k \<le> m \<Longrightarrow> new_tables s e child k \<subseteq> new_tables s e child m"
  by (auto simp: new_tables_def used_tables_def)

lemma finite_new_tables [simp]: "finite (new_tables s e child k)"
  by (simp add: new_tables_def used_tables_def)

definition dup_state :: "nat \<Rightarrow> nat \<Rightarrow> umachine \<Rightarrow> nat \<Rightarrow> umachine \<Rightarrow> bool" where
  "dup_state e child s k s' \<longleftrightarrow> s' = (dup_result e child k s)\<lparr>refs := refs s', free_pages := free_pages s'\<rparr>
     \<and> free_pages s \<le> free_pages s' + card (new_tables s e child k) \<and> refs_ok s'"

lemma dup_stateD:
  assumes "dup_state e child s k s'"
  shows "space s' = space (dup_result e child k s)" "has_table s' = has_table (dup_result e child k s)"
    "page s' = page s" "next_page s' = next_page s" "next_env s' = next_env s" "handler s' = handler s" "status s' = status s"
    "refs_ok s'" "free_pages s \<le> free_pages s' + card (new_tables s e child k)"
proof -
  have eq: "s' = (dup_result e child k s)\<lparr>refs := refs s', free_pages := free_pages s'\<rparr>" using assms by (simp add: dup_state_def)
  show "space s' = space (dup_result e child k s)" "has_table s' = has_table (dup_result e child k s)"
    "page s' = page s" "next_page s' = next_page s" "next_env s' = next_env s" "handler s' = handler s" "status s' = status s"
    by (subst eq; simp add: dup_result_def)+
qed (use assms in \<open>simp_all add: dup_state_def\<close>)

lemma dup_stateD':
  assumes "dup_state e child s k s'"
  shows "free_envs s' = free_envs s" "upcall s' = upcall s"
proof -
  have eq: "s' = (dup_result e child k s)\<lparr>refs := refs s', free_pages := free_pages s'\<rparr>" using assms by (simp add: dup_state_def)
  show "free_envs s' = free_envs s" "upcall s' = upcall s" by (subst eq; simp add: dup_result_def)+
qed

lemma dup_one_run:
  assumes "maps_ok s" "e \<noteq> child" "card (new_tables s e child 977920) \<le> free_pages s" "pn < 977920"
    and "dup_state e child s pn s'"
  shows "\<exists>s''. dup_one e child pn s' = Some ((), s'') \<and> dup_state e child s (Suc pn) s''"
proof (cases "pn = ux_page \<or> space s e pn = None")
  case True
  have "space s' e pn = space s e pn" using dup_stateD(1) [OF assms(5)] assms(2) by (simp add: dup_result_def)
  moreover have "new_tables s e child (Suc pn) = new_tables s e child pn"
    using True by (auto simp: new_tables_def used_tables_Suc)
  ultimately show ?thesis using True assms(5) by (auto simp: dup_one_def uvpt_def dup_state_def dup_result_skip)
next
  case False
  then obtain f p where fp: "space s e pn = Some (f, p)" and ux: "pn \<noteq> ux_page" by auto
  note D = maps_okD [OF assms(1) fp] and S = dup_stateD [OF assms(5)]
  let ?t = "pn div 1024"
  have s: "space s' e pn = Some (f, p)" "has_table s' e ?t" "has_table s' child ?t \<longleftrightarrow> has_table s child ?t \<or> ?t \<in> used_tables s e pn"
    using assms(2) fp D(3) by (simp_all add: S(1,2) dup_result_def)
  have tab: "has_table s' child (x div 1024)" if "space s' child x = Some (g, q)" for x g q
    using that maps_okD(3) [OF assms(1)] assms(2) by (auto simp: S(1,2) dup_result_def used_tables_def split: if_splits)
  have nt: "new_tables s e child (Suc pn) =
      (if has_table s' child ?t then new_tables s e child pn else insert ?t (new_tables s e child pn))"
    using fp ux s(3) by (auto simp: new_tables_def used_tables_Suc)
  have card: "card (new_tables s e child (Suc pn)) = card (new_tables s e child pn) + (if has_table s' child ?t then 0 else 1)"
    using s(3) by (simp add: nt card_insert_if) (simp add: new_tables_def)
  have "card (new_tables s e child (Suc pn)) \<le> free_pages s"
    using card_mono [OF _ new_tables_mono [of "Suc pn" 977920 s e child]] assms(3,4) by simp
  then have room: "has_table s' child ?t \<or> 0 < free_pages s'" using card S(9) by (cases "has_table s' child ?t") auto
  show ?thesis
  proof (cases "p AND PTE_W \<noteq> 0 \<or> p AND PTE_COW \<noteq> 0")
    case w: True
    let ?s1 = "map_at child pn f cow_perm s'"
    let ?s2 = "map_at e pn f cow_perm ?s1"
    have "u_page_map e pn child pn cow_perm s' = Some (0, ?s1)" "u_page_map e pn e pn cow_perm ?s1 = Some (0, ?s2)"
      using s room assms(2,4) by (auto intro!: u_page_map_run)
    then have run: "dup_one e child pn s' = Some ((), ?s2)"
      using s(1) D(2) ux w by (auto simp: dup_one_def uvpt_def duppage_def must_def)
    have "?s2 = (dup_result e child (Suc pn) s)\<lparr>refs := refs ?s2, free_pages := free_pages ?s2\<rparr>"
      using assms(2) fp ux D(3) w S(1-7) dup_stateD' [OF assms(5)]
      by (intro umachine.equality)
        (auto simp: dup_result_def used_tables_Suc demoted_def shared_def fun_eq_iff less_Suc_eq)
    moreover have "refs_ok ?s1" using S(8) tab by (intro map_at_refs)
    then have "refs_ok ?s2" by (rule map_at_refs) (use s(2) assms(2) in simp)
    moreover have "free_pages s' \<le> free_pages ?s2 + (if has_table s' child ?t then 0 else 1)"
      using map_at_pages [of s' child pn f cow_perm] map_at_pages [of ?s1 e pn f cow_perm] s(2) assms(2)
      by (auto split: if_splits)
    ultimately show ?thesis using run card S(9) by (auto simp: dup_state_def)
  next
    case w: False
    let ?s1 = "map_at child pn f (PTE_P OR PTE_U) s'"
    have "u_page_map e pn child pn (PTE_P OR PTE_U) s' = Some (0, ?s1)"
      using s room assms(4) by (auto intro!: u_page_map_run)
    then have run: "dup_one e child pn s' = Some ((), ?s1)"
      using s(1) D(2) ux w by (auto simp: dup_one_def uvpt_def duppage_def must_def)
    have "?s1 = (dup_result e child (Suc pn) s)\<lparr>refs := refs ?s1, free_pages := free_pages ?s1\<rparr>"
      using assms(2) fp ux D(3) w S(1-7) dup_stateD' [OF assms(5)]
      by (intro umachine.equality)
        (auto simp: dup_result_def used_tables_Suc demoted_def shared_def fun_eq_iff less_Suc_eq)
    moreover have "refs_ok ?s1" using S(8) tab by (intro map_at_refs)
    moreover note map_at_pages [of s' child pn f "PTE_P OR PTE_U"]
    ultimately show ?thesis using run card S(9) by (auto simp: dup_state_def split: if_splits)
  qed
qed

lemma dup_table_run:
  assumes "maps_ok s" "e \<noteq> child" "card (new_tables s e child 977920) \<le> free_pages s" "pdx < 955"
    and "dup_state e child s (pdx * 1024) s'"
  shows "\<exists>s''. dup_table e child pdx s' = Some ((), s'') \<and> dup_state e child s (Suc pdx * 1024) s''"
proof (cases "has_table s e pdx")
  case True
  have "\<exists>s''. ufor [0..<1024] (\<lambda>ptx. dup_one e child (pdx * 1024 + ptx)) s' = Some ((), s'')
      \<and> dup_state e child s (pdx * 1024 + 1024) s''"
    by (rule ufor_inv [where I = "\<lambda>m. dup_state e child s (pdx * 1024 + m)"])
      (use assms dup_one_run [OF assms(1-3)] in simp_all)
  then show ?thesis
    using True assms(2) dup_stateD(2) [OF assms(5)] by (simp add: dup_table_def dup_result_def add.commute)
next
  case False
  then have "space s e (pdx * 1024 + m) = None" if "m < 1024" for m
    using maps_okD(3) [OF assms(1), of e "pdx * 1024 + m"] that by (cases "space s e (pdx * 1024 + m)") auto
  then have "dup_state e child s (pdx * 1024 + m) s'" if "m \<le> 1024" for m
    using that
  proof (induction m)
    case (Suc m)
    then have "new_tables s e child (Suc (pdx * 1024 + m)) = new_tables s e child (pdx * 1024 + m)"
      by (auto simp: new_tables_def used_tables_Suc)
    with Suc show ?case by (simp add: dup_state_def dup_result_skip)
  qed (simp add: assms(5))
  from this [of 1024] False assms(2) dup_stateD(2) [OF assms(5)] show ?thesis
    by (simp add: dup_table_def dup_result_def add.commute)
qed

lemma dup_all_run:
  assumes "maps_ok s" "e \<noteq> child" "card (new_tables s e child 977920) \<le> free_pages s" "dup_state e child s 0 s"
  shows "\<exists>s'. ufor [0..<955] (dup_table e child) s = Some ((), s') \<and> dup_state e child s 977920 s'"
  using ufor_inv [where I = "\<lambda>k. dup_state e child s (k * 1024)" and n = 955 and f = "dup_table e child" and s = s]
    assms(4) dup_table_run [OF assms(1-3)] by simp

lemma dup_result_0: "dup_result e child 0 s = s"
  by (simp add: dup_result_def used_tables_def)

lemma dup_result_view:
  assumes "e \<noteq> child"
  shows "view (dup_result e child k s) e' pn =
    (if e' = child \<and> pn < k \<and> pn \<noteq> ux_page \<and> space s e pn \<noteq> None then view s e pn else view s e' pn)"
  using assms
  by (auto simp: view_def dup_result_def demoted_def shared_def option.map_comp comp_def split_beta intro!: option.map_cong0)
    (auto simp: mmu_consts PTE_COW_def)

lemma dup_result_ok:
  assumes "maps_ok s" "e \<noteq> child" "child < next_env s" "e < next_env s"
  shows "maps_ok (dup_result e child k s)"
proof -
  let ?s = "dup_result e child k s"
  have pages: "\<exists>q. space s e1 pn = Some (f, q) \<or> e1 = child \<and> pn < k \<and> pn \<noteq> ux_page \<and> space s e pn = Some (f, q)"
    if "space ?s e1 pn = Some (f, p)" for e1 pn f p
    using that by (auto simp: dup_result_def split: if_splits)
  have writable: "space s e1 pn = Some (f, p) \<and> \<not> (e1 = e \<and> pn < k \<and> pn \<noteq> ux_page)"
    if "space ?s e1 pn = Some (f, p)" "p AND PTE_W \<noteq> 0" for e1 pn f p
    using that assms(2) demoted_flags by (auto simp: dup_result_def split: if_splits)
  have 1: "0 < f \<and> f < next_page ?s \<and> p AND PTE_P \<noteq> 0 \<and> has_table ?s e1 (pn div 1024) \<and> pn < 977920 \<and> e1 < next_env ?s"
    if "space ?s e1 pn = Some (f, p)" for e1 pn f p
    using that assms(2,3,4) maps_okD(1-5,8) [OF assms(1)] demoted_flags
    by (auto simp: dup_result_def used_tables_def split: if_splits)
  have 2: "space ?s e1 pf_page = None" "0 < next_page ?s" for e1
    using assms(1) by (auto simp: dup_result_def maps_ok_def)
  have 3: "e1 = e2 \<and> pn1 = pn2"
    if "space ?s e1 pn1 = Some (f, p)" "space ?s e2 pn2 = Some (f, q)" "p AND PTE_W \<noteq> 0" "p AND PTE_SHARE = 0"
    for e1 pn1 e2 pn2 f p q
    using writable [OF that(1,3)] pages [OF that(2)] maps_okD(7) [OF assms(1) _ _ that(3,4)] by blast
  show ?thesis unfolding maps_ok_def using 1 2 3 by blast
qed

section \<open>A new page\<close>

text \<open>What \<open>sys_page_alloc\<close> leaves, and the pages it needs.\<close>

definition fresh_at :: "nat \<Rightarrow> nat \<Rightarrow> umachine \<Rightarrow> umachine" where
  "fresh_at e pn s = map_at e pn (next_page s) own_perm (new_page s)"

definition alloc_pages :: "umachine \<Rightarrow> nat \<Rightarrow> nat \<Rightarrow> nat" where
  "alloc_pages s e pn = (if has_table s e (pn div 1024) then 1 else 2)"

lemma u_page_alloc_perm:
  assumes "alloc_pages s e pn \<le> free_pages s" and "pn < 977920" and "\<not> check_perm perm < 0"
  shows "u_page_alloc e pn perm s = Some (0, map_at e pn (next_page s) perm (new_page s))"
proof -
  have "has_table (new_page s) e (pn div 1024) \<or> 0 < free_pages (new_page s)" "0 < free_pages s"
    using assms(1) by (auto simp: alloc_pages_def split: if_splits)
  with assms(2,3) show ?thesis by (simp add: u_page_alloc_def u_insert_run)
qed

lemma u_page_alloc_run:
  "alloc_pages s e pn \<le> free_pages s \<Longrightarrow> pn < 977920 \<Longrightarrow> u_page_alloc e pn own_perm s = Some (0, fresh_at e pn s)"
  by (simp add: u_page_alloc_perm fresh_at_def)

lemma fresh_at_frame [simp]:
  "next_env (fresh_at e pn s) = next_env s" "free_envs (fresh_at e pn s) = free_envs s"
  "handler (fresh_at e pn s) = handler s" "status (fresh_at e pn s) = status s"
  "has_table (fresh_at e pn s) = (has_table s)(e := (has_table s e)(pn div 1024 := True))"
  "space (fresh_at e pn s) = (space s)(e := (space s e)(pn \<mapsto> (next_page s, own_perm OR PTE_P)))"
  "page (fresh_at e pn s) = (page s)(next_page s := (\<lambda>_. 0))" "next_page (fresh_at e pn s) = next_page s + 1"
  by (simp_all add: fresh_at_def)

lemma fresh_at_pages: "alloc_pages s e pn \<le> free_pages s \<Longrightarrow> free_pages s \<le> free_pages (fresh_at e pn s) + alloc_pages s e pn"
  using map_at_pages [of "new_page s" e pn "next_page s" own_perm] unfolding fresh_at_def alloc_pages_def
  by (auto split: if_splits)

lemma fresh_at_ok:
  assumes "cow_ok s" "e < next_env s" "pn < 977920" "pn \<noteq> pf_page"
  shows "cow_ok (fresh_at e pn s)"
proof -
  have o: "(own_perm OR PTE_P) AND PTE_P \<noteq> 0" by (simp add: mmu_consts)
  have m: "maps_ok s" using assms(1) by (rule cow_okD(1))
  have "space s e1 pn1 = Some (f, p) \<Longrightarrow> f \<noteq> next_page s" for e1 pn1 f p
    using maps_okD(1) [OF m] by blast
  then have "maps_ok (fresh_at e pn s)"
    using m unfolding maps_ok_def fresh_at_frame
    using assms(2-4) o by (auto simp: less_Suc_eq split: if_splits) blast+
  moreover have "refs_ok (fresh_at e pn s)"
    unfolding fresh_at_def using new_page_refs [OF assms(1)] maps_okD(3) [OF m] by (intro map_at_refs) auto
  ultimately show ?thesis by (simp add: cow_ok_def)
qed

lemma fresh_at_view:
  assumes "cow_ok s"
  shows "view (fresh_at e pn s) = (view s)(e := (view s e)(pn := Some (\<lambda>_. 0, True)))"
proof (intro ext)
  fix e' pn'
  have "space s e' pn' = Some (f, p) \<Longrightarrow> f \<noteq> next_page s" for f p using maps_okD(1) [OF cow_okD(1) [OF assms]] by blast
  then show "view (fresh_at e pn s) e' pn' = ((view s)(e := (view s e)(pn := Some (\<lambda>_. 0, True)))) e' pn'"
    by (auto simp: view_def split_beta intro!: option.map_cong0) (auto simp: mmu_consts)
qed

lemma cow_ok_cong [simp]:
  "cow_ok (s\<lparr>upcall := u\<rparr>) = cow_ok s" "cow_ok (s\<lparr>handler := h\<rparr>) = cow_ok s" "cow_ok (s\<lparr>status := st\<rparr>) = cow_ok s"
  and view_fields [simp]:
  "view (s\<lparr>upcall := u\<rparr>) = view s" "view (s\<lparr>handler := h\<rparr>) = view s" "view (s\<lparr>status := st\<rparr>) = view s"
  by (simp_all add: cow_ok_def maps_ok_def refs_ok_def mappings_def view_def fun_eq_iff)

section \<open>Fork copies\<close>

text \<open>The abstract machine has a memory for each environment; \<open>fork\<close> copies one.\<close>

type_synonym memory = "nat \<Rightarrow> nat \<Rightarrow> ((nat \<Rightarrow> u8) \<times> bool) option"

definition new_stack :: "nat \<Rightarrow> memory \<Rightarrow> memory" where
  "new_stack e m = m(e := (m e)(ux_page := Some (\<lambda>_. 0, True)))"

definition copying_fork :: "nat \<Rightarrow> nat \<Rightarrow> memory \<Rightarrow> memory" where
  "copying_fork e child m = new_stack child (m(child := m e))"

definition private_write :: "nat \<Rightarrow> nat \<Rightarrow> nat \<Rightarrow> u8 \<Rightarrow> memory \<Rightarrow> memory" where
  "private_write e pn i b m = m(e := (m e)(pn := map_option (\<lambda>(g, w). (g(i := b), w)) (m e pn)))"

text \<open>
  The pages \<open>fork\<close> needs: for the exception stack of the parent when it has no handler yet, for the
  child's directory and exception stack with its table, and for a table wherever the parent has one in use.
\<close>

definition handler_pages :: "umachine \<Rightarrow> nat \<Rightarrow> nat" where
  "handler_pages s e = (if handler s e then 0 else alloc_pages s e ux_page)"

definition fork_pages :: "umachine \<Rightarrow> nat \<Rightarrow> nat" where
  "fork_pages s e = handler_pages s e + 3 + card (used_tables s e 977920 - {954})"

text \<open>No page of the environment is marked to be shared.\<close>

definition unshared :: "umachine \<Rightarrow> nat \<Rightarrow> bool" where
  "unshared s e \<longleftrightarrow> (\<forall>pn f p. space s e pn = Some (f, p) \<longrightarrow> p AND PTE_SHARE = 0)"

lemma ux_pf [simp]: "ux_page < 977920" "ux_page \<noteq> pf_page" "pf_page < 977920" "\<not> 977920 \<le> pf_page" "ux_page div 1024 = 954"
  by (simp_all add: ux_page_def pf_page_def)

lemma set_pgfault_handler_run:
  assumes "cow_ok s" "e < next_env s" "handler_pages s e \<le> free_pages s"
  shows "\<exists>s'. set_pgfault_handler e s = Some ((), s') \<and> cow_ok s' \<and> handler s' e \<and> free_envs s' = free_envs s
    \<and> next_env s' = next_env s \<and> used_tables s' e 977920 = used_tables s e 977920
    \<and> free_pages s \<le> free_pages s' + handler_pages s e
    \<and> view s' = (if handler s e then view s else new_stack e (view s))"
proof -
  have p: "PTE_U OR PTE_W OR PTE_P = (own_perm :: u32)" by (simp add: mmu_consts)
  have u: "used_tables (fresh_at e ux_page s) e k = used_tables s e k" for k
    unfolding used_tables_def by (rule arg_cong [where f = "\<lambda>A. (\<lambda>pn. pn div 1024) ` A"]) auto
  have c: "used_tables (s\<lparr>upcall := a, handler := b\<rparr>) e k = used_tables s e k"
    "used_tables (s\<lparr>handler := b\<rparr>) e k = used_tables s e k"
    "used_tables (s\<lparr>upcall := a\<rparr>) e k = used_tables s e k" for s a b k
    by (simp_all add: used_tables_def)
  show ?thesis
  proof (cases "handler s e")
    case True
    with assms(1,2) show ?thesis by (simp add: set_pgfault_handler_def handler_pages_def c fun_upd_idem)
  next
    case False
    with assms(3) have "alloc_pages s e ux_page \<le> free_pages s" by (simp add: handler_pages_def)
    with False assms(1,2) show ?thesis
      using fresh_at_ok [of s e ux_page] fresh_at_view [of s e ux_page] fresh_at_pages [of s e ux_page]
      by (simp add: set_pgfault_handler_def p must_def u_page_alloc_run handler_pages_def new_stack_def u c)
  qed
qed

definition forked :: "umachine \<Rightarrow> umachine" where
  "forked s = s\<lparr>next_env := next_env s + 1, free_envs := free_envs s - 1, free_pages := free_pages s - 1,
       space := (space s)(next_env s := (\<lambda>_. None)), has_table := (has_table s)(next_env s := (\<lambda>_. False)),
       status := (status s)(next_env s := ENV_NOT_RUNNABLE), upcall := (upcall s)(next_env s := False)\<rparr>"

lemma forked_ok:
  assumes "cow_ok s"
  shows "cow_ok (forked s)" "view (forked s) = view s" "space (forked s) = space s"
proof -
  have m: "maps_ok s" using assms by (rule cow_okD(1))
  have n: "space s (next_env s) pn = None" for pn
    using maps_okD(5) [OF m, of "next_env s" pn] by (cases "space s (next_env s) pn") auto
  show sp: "space (forked s) = space s" by (auto simp: forked_def fun_eq_iff n)
  then show "view (forked s) = view s" by (intro view_cong) (simp_all add: forked_def)
  have "maps_ok (forked s)"
    using m unfolding maps_ok_def sp unfolding forked_def by (auto simp: less_Suc_eq split: if_splits)
  moreover have "refs_ok (forked s)"
    using cow_okD(2) [OF assms] sp by (subst refs_ok_cong [of _ s]) (simp_all add: forked_def)
  ultimately show "cow_ok (forked s)" by (simp add: cow_ok_def)
qed

lemma dup_all_view:
  assumes "maps_ok s" "e \<noteq> child" "\<And>pn. pn \<noteq> ux_page \<Longrightarrow> view s child pn = None"
  shows "view (dup_result e child 977920 s) = (view s)(child := (view s e)(ux_page := view s child ux_page))"
proof (intro ext)
  fix e' pn
  have "space s e pn \<noteq> None \<Longrightarrow> pn < 977920" using maps_okD(4) [OF assms(1)] by (cases "space s e pn") auto
  then show "view (dup_result e child 977920 s) e' pn
      = ((view s)(child := (view s e)(ux_page := view s child ux_page))) e' pn"
    unfolding dup_result_view [OF assms(2)]
    using assms(3) [of pn] by (cases "space s e pn") (auto simp: view_def)
qed

text \<open>Whatever marks the pages have, \<open>fork\<close> copies them.\<close>

lemma fork_run:
  assumes "cow_ok s" "e < next_env s" "0 < free_envs s" "fork_pages s e \<le> free_pages s"
  shows "\<exists>s'. fork e s = Some (int (next_env s), s') \<and> cow_ok s' \<and> status s' (next_env s) = ENV_RUNNABLE
    \<and> handler s' e \<and> handler s' (next_env s)
    \<and> view s' = copying_fork e (next_env s) (if handler s e then view s else new_stack e (view s))"
proof -
  let ?c = "next_env s"
  obtain s1 where 1: "set_pgfault_handler e s = Some ((), s1)" "cow_ok s1" "handler s1 e" "free_envs s1 = free_envs s"
      "next_env s1 = ?c" "used_tables s1 e 977920 = used_tables s e 977920"
      "free_pages s \<le> free_pages s1 + handler_pages s e"
      "view s1 = (if handler s e then view s else new_stack e (view s))"
    using set_pgfault_handler_run [OF assms(1,2)] assms(4) by (auto simp: fork_pages_def)
  let ?s2 = "forked s1"
  let ?s3 = "?s2\<lparr>upcall := (upcall ?s2)(?c := True), handler := (handler ?s2)(?c := handler ?s2 e)\<rparr>"
  let ?s4 = "fresh_at ?c ux_page ?s3"
  have fp: "3 + card (used_tables s e 977920 - {954}) \<le> free_pages s1" using 1(7) assms(4) by (simp add: fork_pages_def)
  have s3: "free_pages ?s3 = free_pages s1 - 1" "e < ?c" "cow_ok ?s3" "next_env ?s3 = Suc ?c" "space ?s3 = space s1"
    "has_table ?s3 ?c = (\<lambda>_. False)" "alloc_pages ?s3 ?c ux_page = 2"
    using 1(2,5) assms(2) forked_ok [of s1] by (simp_all add: forked_def alloc_pages_def)
  have al: "alloc_pages ?s3 ?c ux_page \<le> free_pages ?s3" using s3(1,7) fp by linarith
  have ok4: "cow_ok ?s4" using s3 by (intro fresh_at_ok) simp_all
  have nt: "new_tables ?s4 e ?c 977920 = used_tables s e 977920 - {954}"
    using s3(2,5,6) 1(6) by (auto simp: new_tables_def used_tables_def)
  have "card (new_tables ?s4 e ?c 977920) \<le> free_pages ?s4"
    unfolding nt using fresh_at_pages [OF al] s3(1,7) fp by linarith
  moreover have "dup_state e ?c ?s4 0 ?s4"
    using cow_okD(2) [OF ok4] by (simp add: dup_state_def dup_result_0)
  ultimately obtain s5 where s5: "ufor [0..<955] (dup_table e ?c) ?s4 = Some ((), s5)" "dup_state e ?c ?s4 977920 s5"
    using dup_all_run [OF cow_okD(1) [OF ok4], of e ?c] s3(2) by auto
  note D = dup_stateD [OF s5(2)]
  have "maps_ok (dup_result e ?c 977920 ?s4)" using s3 by (intro dup_result_ok [OF cow_okD(1) [OF ok4]]) simp_all
  then have ok: "cow_ok s5" using D(1-5,8) maps_ok_cong [of s5 "dup_result e ?c 977920 ?s4"]
    by (simp add: cow_ok_def) (simp add: dup_result_def)
  have "view s1 ?c pn = None" for pn
    using maps_okD(5) [OF cow_okD(1) [OF 1(2)], of ?c pn] 1(5) by (cases "space s1 ?c pn") (auto simp: view_def)
  moreover have v4: "view ?s4 = (view s1)(?c := (view s1 ?c)(ux_page := Some (\<lambda>_. 0, True)))"
    using s3 1(2) by (simp add: fresh_at_view forked_ok(2))
  moreover have "view s5 = view (dup_result e ?c 977920 ?s4)" using D(1,3) by (intro view_cong) (simp_all add: dup_result_def)
  ultimately have v: "view s5 = copying_fork e ?c (view s1)"
    using dup_all_view [OF cow_okD(1) [OF ok4], of e ?c] s3(2) by (simp add: copying_fork_def new_stack_def)
  have exo: "u_exofork s1 = Some (int ?c, ?s2)" using 1(4,5) fp assms(3) by (simp add: u_exofork_def forked_def)
  have run: "fork e s = Some (int ?c, s5\<lparr>status := (status s5)(?c := ENV_RUNNABLE)\<rparr>)"
    using 1(1) exo s5(1) u_page_alloc_run [OF al] by (simp add: fork_def Let_def)
  have "handler s5 ?c" "handler s5 e" using 1(3) s3(2) D(6) by (simp_all add: forked_def)
  with run ok v 1(8) show ?thesis
    by (intro exI [of _ "s5\<lparr>status := (status s5)(?c := ENV_RUNNABLE)\<rparr>"]) simp
qed


definition tiny_space :: umachine where
  "tiny_space = \<lparr>space = (\<lambda>e pn. if e = 0 \<and> pn = 2048 then Some (1, 7) else None), has_table = (\<lambda>e t. e = 0 \<and> t = 2),
     page = (\<lambda>f i. 65), next_page = 2, next_env = 1, free_pages = 64, free_envs = 2,
     refs = (\<lambda>f. if f = 1 then 1 else 0), status = (\<lambda>_. ENV_RUNNING), upcall = (\<lambda>_. False), handler = (\<lambda>_. False)\<rparr>"

lemma tiny_space_ok: "cow_ok tiny_space" "fork_pages tiny_space 0 = 6"
proof -
  have "mappings tiny_space f = (if f = 1 then {(0, 2048)} else {})" for f
    by (auto simp: mappings_def tiny_space_def split: if_splits)
  then show "cow_ok tiny_space"
    by (auto simp: cow_ok_def maps_ok_def refs_ok_def) (auto simp: tiny_space_def pf_page_def PTE_P_def split: if_splits)
  have "used_tables tiny_space 0 977920 = {2}"
    by (auto simp: used_tables_def tiny_space_def ux_page_def image_iff intro!: exI [of _ 2048])
  then show "fork_pages tiny_space 0 = 6"
    by (simp add: fork_pages_def handler_pages_def alloc_pages_def) (simp add: tiny_space_def)
qed


text \<open>With no page left for a table of the child, \<open>duppage\<close> panics.\<close>

lemma dup_one_no_mem:
  assumes "cow_ok s" "space s e pn = Some (f, p)" "pn \<noteq> ux_page" "\<not> has_table s child (pn div 1024)" "free_pages s = 0"
  shows "dup_one e child pn s = None"
proof -
  note D = maps_okD(2-4) [OF cow_okD(1) [OF assms(1)] assms(2)]
  have "u_page_map e pn child pn perm s = Some (- E_NO_MEM, s)"
    if "\<not> check_perm perm < 0" "perm AND PTE_W = 0" for perm
    using assms D that by (intro u_page_map_no_mem) simp_all
  then show ?thesis
    using assms(2,3) D(1) by (simp add: dup_one_def uvpt_def duppage_def must_def E_NO_MEM_def)
qed

section \<open>Writes are private\<close>

definition faulted :: "nat \<Rightarrow> nat \<Rightarrow> nat \<Rightarrow> umachine \<Rightarrow> umachine" where
  "faulted e pn f s = s\<lparr>space := (space s)(e := (space s e)(pn \<mapsto> (next_page s, own_perm OR PTE_P))),
     has_table := (has_table s)(e := (has_table s e)(pf_page div 1024 := True, pn div 1024 := True)),
     page := (page s)(next_page s := page s f), next_page := next_page s + 1\<rparr>"

lemma pgfault_run:
  assumes "cow_ok s" "alloc_pages s e pf_page \<le> free_pages s" "space s e pn = Some (f, p)" "p AND PTE_COW \<noteq> 0"
  shows "\<exists>s'. pgfault e pn (FEC_PR OR FEC_WR) s = Some ((), s') \<and> space s' = space (faulted e pn f s)
    \<and> has_table s' = has_table (faulted e pn f s) \<and> page s' = page (faulted e pn f s)
    \<and> next_page s' = next_page (faulted e pn f s) \<and> next_env s' = next_env s \<and> handler s' = handler s \<and> refs_ok s'"
proof -
  note D = maps_okD [OF cow_okD(1) [OF assms(1)] assms(3)]
  have pf: "space s e pf_page = None" using cow_okD(1) [OF assms(1)] by (simp add: maps_ok_def)
  have fl: "(FEC_PR OR FEC_WR) AND FEC_PR \<noteq> 0" "(FEC_PR OR FEC_WR) AND FEC_WR \<noteq> 0"
    "own_perm OR PTE_P = own_perm" "own_perm AND PTE_W \<noteq> 0" "(PTE_W :: u32) \<noteq> 0"
    "(FEC_PR :: u32) \<noteq> 0" "(FEC_WR :: u32) \<noteq> 0" by (simp_all add: uflags)
  let ?s1 = "fresh_at e pf_page s"
  let ?s2 = "?s1\<lparr>page := (page ?s1)(next_page s := page s f)\<rparr>"
  let ?s3 = "map_at e pn (next_page s) own_perm ?s2"
  let ?s4 = "u_remove e pf_page ?s3"
  have sp: "space ?s1 e pf_page = Some (next_page s, own_perm OR PTE_P)" "space ?s1 e pn = Some (f, p)" "page ?s1 f = page s f"
    using D(1,6) assms(3) by simp_all
  then have cp: "copy_page e pf_page pn ?s1 = Some ((), ?s2)" by (simp add: copy_page_def fl)
  have "u_page_map e pf_page e pn own_perm ?s2 = Some (0, ?s3)"
    by (rule u_page_map_run [of _ _ _ _ "own_perm OR PTE_P"]) (use D(3,4) in \<open>simp_all add: fl\<close>)
  then have run: "pgfault e pn (FEC_PR OR FEC_WR) s = Some ((), ?s4)"
    using assms(2-4) cp by (simp add: pgfault_def uvpt_def fl must_def u_page_alloc_run u_page_unmap_def)
  have t: "has_table ?s3 e (pf_page div 1024)" by simp
  have eq: "space ?s4 = space (faulted e pn f s)"
    using D(6) pf by (simp add: u_remove_simps(9) [OF t]) (auto simp: faulted_def fun_eq_iff)
  have "refs_ok ?s1" using new_page_refs [OF assms(1)] maps_okD(3) [OF cow_okD(1) [OF assms(1)]]
    unfolding fresh_at_def by (intro map_at_refs) auto
  then have "refs_ok ?s2" by (subst refs_ok_cong [of _ ?s1]) simp_all
  then have "refs_ok ?s3" using D(3) by (intro map_at_refs) simp_all
  moreover have "space ?s3 e pf_page = Some (next_page s, own_perm OR PTE_P)" using D(6) by simp
  ultimately have "refs_ok ?s4" using t by (intro u_remove_refs)
  moreover have "has_table ?s4 = has_table (faulted e pn f s)" "page ?s4 = page (faulted e pn f s)"
    "next_page ?s4 = next_page (faulted e pn f s)" "next_env ?s4 = next_env s" "handler ?s4 = handler s"
    by (auto simp: faulted_def fun_eq_iff)
  ultimately show ?thesis using run eq by blast
qed

lemma faulted_ok:
  assumes "maps_ok s" "space s e pn = Some (f, p)"
  shows "maps_ok (faulted e pn f s)"
proof -
  let ?s = "faulted e pn f s"
  note D = maps_okD(4-6) [OF assms]
  have o: "(own_perm OR PTE_P) AND PTE_P \<noteq> 0" by (simp add: mmu_consts)
  have np: "0 < next_page s" using assms(1) by (simp add: maps_ok_def)
  have entry: "e1 = e \<and> pn1 = pn \<and> g = next_page s \<and> q = own_perm OR PTE_P \<or> space s e1 pn1 = Some (g, q) \<and> g < next_page s"
    if "space ?s e1 pn1 = Some (g, q)" for e1 pn1 g q
    using that maps_okD(1) [OF assms(1), of e1 pn1 g q] by (auto simp: faulted_def split: if_splits)
  have 1: "0 < g \<and> g < next_page ?s \<and> q AND PTE_P \<noteq> 0 \<and> has_table ?s e1 (pn1 div 1024) \<and> pn1 < 977920 \<and> e1 < next_env ?s"
    if "space ?s e1 pn1 = Some (g, q)" for e1 pn1 g q
    using entry [OF that]
  proof
    assume "space s e1 pn1 = Some (g, q) \<and> g < next_page s"
    then have "space s e1 pn1 = Some (g, q)" "g < next_page s" by auto
    with maps_okD(2-5,8) [OF assms(1) this(1)] show ?thesis by (auto simp: faulted_def)
  qed (use D o np in \<open>simp add: faulted_def\<close>)
  have 2: "space ?s e1 pf_page = None" "0 < next_page ?s" for e1
    using assms(1) D(3) by (auto simp: faulted_def maps_ok_def)
  have 3: "e1 = e2 \<and> pn1 = pn2"
    if "space ?s e1 pn1 = Some (g, q)" "space ?s e2 pn2 = Some (g, q')" "q AND PTE_W \<noteq> 0" "q AND PTE_SHARE = 0"
    for e1 pn1 e2 pn2 g q q'
    using entry [OF that(1)] entry [OF that(2)] maps_okD(7) [OF assms(1) _ _ that(3,4)] by auto
  show ?thesis unfolding maps_ok_def using 1 2 3 by blast
qed

lemma faulted_view:
  assumes "maps_ok s" "space s e pn = Some (f, p)" "p AND PTE_COW \<noteq> 0"
  shows "view (faulted e pn f s) = view s"
proof (intro ext)
  fix e' pn'
  have "space s e' pn' = Some (g, q) \<Longrightarrow> g \<noteq> next_page s" for g q using maps_okD(1) [OF assms(1)] by blast
  then show "view (faulted e pn f s) e' pn' = view s e' pn'"
    using assms(2,3) by (auto simp: view_def faulted_def split_beta intro!: option.map_cong0) (auto simp: mmu_consts)
qed

lemma store_byte_view:
  assumes "cow_ok s" "space s e pn = Some (f, p)" "p AND PTE_W \<noteq> 0" "p AND PTE_SHARE = 0"
  shows "\<exists>s'. store_byte e pn i b s = Some ((), s') \<and> cow_ok s' \<and> view s' = private_write e pn i b (view s)"
proof -
  let ?s = "s\<lparr>page := (page s)(f := (page s f)(i := b))\<rparr>"
  have other: "space s e' pn' = Some (f, q) \<Longrightarrow> e' = e \<and> pn' = pn" for e' pn' q
    using maps_okD(7) [OF cow_okD(1) [OF assms(1)] assms(2) _ assms(3,4)] by auto
  have "view ?s e' pn' = private_write e pn i b (view s) e' pn'" for e' pn'
  proof (cases "e' = e \<and> pn' = pn")
    case True
    with assms(2,3) show ?thesis by (simp add: view_def private_write_def)
  next
    case False
    then have "space s e' pn' = Some (f', q) \<Longrightarrow> f' \<noteq> f" for f' q using other by blast
    with False show ?thesis by (cases "space s e' pn'") (auto simp: view_def private_write_def)
  qed
  moreover have "cow_ok ?s" using assms(1) by (simp add: cow_ok_def maps_ok_def refs_ok_def mappings_def)
  ultimately show ?thesis using assms(2,3) by (auto simp: store_byte_def fun_eq_iff)
qed


definition cow_space :: umachine where
  "cow_space = tiny_space\<lparr>space := (\<lambda>e pn. if e < 2 \<and> pn = 2048 then Some (1, 0x805) else None),
     has_table := (\<lambda>e t. e < 2 \<and> t = 2), next_env := 2, refs := (\<lambda>f. if f = 1 then 2 else 0), handler := (\<lambda>_. True)\<rparr>"


section \<open>Shared pages\<close>

text \<open>
  A page that is marked as shared is copied all the same: \<open>duppage\<close> does not look at \<open>PTE_SHARE\<close>, and
  the new permissions drop the mark. So after \<open>fork\<close> the parent and the child of
  \<^verbatim>\<open>user/testpteshare.c\<close> no longer see each other's writes to the page.
\<close>

lemma share_ignored: "shared (PTE_P OR PTE_W OR PTE_U OR PTE_SHARE) = cow_perm" "demoted (PTE_P OR PTE_W OR PTE_U OR PTE_SHARE) = cow_perm"
  "cow_perm AND PTE_SHARE = 0"
  by (simp_all add: shared_def demoted_def mmu_consts PTE_COW_def PTE_SHARE_def)

end
