(* ===== verification/Jos_String.thy ===== *)
theory Jos_String
  imports Jos_Bytes
begin

text \<open>
  The string functions of \<^verbatim>\<open>tps/lib/string.c\<close> on byte memory, with pointers as addresses. A
  loop that stops only at a null character is a \<open>partial_function\<close>: its value is \<open>None\<close> when
  it never stops. \<open>memset\<close> and \<open>memmove\<close> are modelled as the code compiled with \<open>ASM\<close> runs them,
  instruction by instruction, and proved equal to the block operations of \<open>Jos_Bytes\<close> that
  the rest of the development uses.
\<close>

section \<open>Scanning\<close>

partial_function (option) strlen_loop :: "bmem \<Rightarrow> nat \<Rightarrow> nat \<Rightarrow> nat option" where
  "strlen_loop m s n = (if m s \<noteq> 0 then strlen_loop m (s + 1) (n + 1) else Some n)"

definition strlen :: "bmem \<Rightarrow> nat \<Rightarrow> nat option" where
  "strlen m s = strlen_loop m s 0"

fun strnlen :: "bmem \<Rightarrow> nat \<Rightarrow> nat \<Rightarrow> nat" where
  "strnlen m s 0 = 0"
| "strnlen m s (Suc n) = (if m s \<noteq> 0 then Suc (strnlen m (s + 1) n) else 0)"

partial_function (option) strchr :: "bmem \<Rightarrow> nat \<Rightarrow> u8 \<Rightarrow> nat option option" where
  "strchr m s c = (if m s = 0 then Some None else if m s = c then Some (Some s) else strchr m (s + 1) c)"

partial_function (option) strfind :: "bmem \<Rightarrow> nat \<Rightarrow> u8 \<Rightarrow> nat option" where
  "strfind m s c = (if m s = 0 then Some s else if m s = c then Some s else strfind m (s + 1) c)"

fun memfind :: "bmem \<Rightarrow> nat \<Rightarrow> u8 \<Rightarrow> nat \<Rightarrow> nat" where
  "memfind m s c 0 = s"
| "memfind m s c (Suc n) = (if m s = c then s else memfind m (s + 1) c n)"

section \<open>Copying\<close>

partial_function (option) strcpy :: "nat \<Rightarrow> nat \<Rightarrow> bmem \<Rightarrow> bmem option" where
  "strcpy dst src m =
    (if m src \<noteq> 0 then strcpy (dst + 1) (src + 1) (m(dst := m src)) else Some (m(dst := m src)))"

definition strcat :: "nat \<Rightarrow> nat \<Rightarrow> bmem \<Rightarrow> bmem option" where
  "strcat dst src m = (case strlen m dst of None \<Rightarrow> None | Some n \<Rightarrow> strcpy (dst + n) src m)"

fun strncpy :: "nat \<Rightarrow> nat \<Rightarrow> nat \<Rightarrow> bmem \<Rightarrow> bmem" where
  "strncpy dst src 0 m = m"
| "strncpy dst src (Suc n) m =
     strncpy (dst + 1) (if (m(dst := m src)) src \<noteq> 0 then src + 1 else src) n (m(dst := m src))"

text \<open>\<open>strlcpy\<close>, with what is left of the size after the decrement, and the number copied.\<close>

fun strlcpy_loop :: "nat \<Rightarrow> nat \<Rightarrow> nat \<Rightarrow> nat \<Rightarrow> bmem \<Rightarrow> nat \<times> bmem" where
  "strlcpy_loop dst_in dst src 0 m = (dst - dst_in, m(dst := 0))"
| "strlcpy_loop dst_in dst src (Suc k) m =
    (if m src \<noteq> 0 then strlcpy_loop dst_in (dst + 1) (src + 1) k (m(dst := m src))
     else (dst - dst_in, m(dst := 0)))"

definition strlcpy :: "nat \<Rightarrow> nat \<Rightarrow> nat \<Rightarrow> bmem \<Rightarrow> nat \<times> bmem" where
  "strlcpy dst src n m = (if n > 0 then strlcpy_loop dst dst src (n - 1) m else (0, m))"

section \<open>Filling and moving\<close>

text \<open>
  The string instructions the compiled code uses, repeated \<open>n\<close> times: \<open>stosb\<close> and \<open>stosl\<close> with
  the direction flag clear, \<open>movsb\<close> and \<open>movsl\<close> upwards from the start or, with the flag
  set, downwards from the last element.
\<close>

fun rep_stosb :: "nat \<Rightarrow> u8 \<Rightarrow> nat \<Rightarrow> bmem \<Rightarrow> bmem" where
  "rep_stosb p c 0 m = m"
| "rep_stosb p c (Suc n) m = rep_stosb (p + 1) c n (m(p := c))"

fun rep_stosl :: "nat \<Rightarrow> u32 \<Rightarrow> nat \<Rightarrow> bmem \<Rightarrow> bmem" where
  "rep_stosl p w 0 m = m"
| "rep_stosl p w (Suc n) m = rep_stosl (p + 4) w n (store32 p w m)"

fun rep_movsb :: "nat \<Rightarrow> nat \<Rightarrow> nat \<Rightarrow> bmem \<Rightarrow> bmem" where
  "rep_movsb d s 0 m = m"
| "rep_movsb d s (Suc n) m = rep_movsb (d + 1) (s + 1) n (m(d := m s))"

fun rep_movsl :: "nat \<Rightarrow> nat \<Rightarrow> nat \<Rightarrow> bmem \<Rightarrow> bmem" where
  "rep_movsl d s 0 m = m"
| "rep_movsl d s (Suc n) m = rep_movsl (d + 4) (s + 4) n (store32 d (load32 m s) m)"

fun rep_movsb_down :: "nat \<Rightarrow> nat \<Rightarrow> nat \<Rightarrow> bmem \<Rightarrow> bmem" where
  "rep_movsb_down d s 0 m = m"
| "rep_movsb_down d s (Suc n) m = rep_movsb_down (d - 1) (s - 1) n (m(d := m s))"

fun rep_movsl_down :: "nat \<Rightarrow> nat \<Rightarrow> nat \<Rightarrow> bmem \<Rightarrow> bmem" where
  "rep_movsl_down d s 0 m = m"
| "rep_movsl_down d s (Suc n) m = rep_movsl_down (d - 4) (s - 4) n (store32 d (load32 m s) m)"

definition memset_c :: "nat \<Rightarrow> u32 \<Rightarrow> nat \<Rightarrow> bmem \<Rightarrow> bmem" where
  "memset_c v c n m =
    (if n = 0 then m
     else if v mod 4 = 0 \<and> n mod 4 = 0 then
       (let b = c AND 0xFF
        in rep_stosl v (push_bit 24 b OR push_bit 16 b OR push_bit 8 b OR b) (n div 4) m)
     else rep_stosb v (ucast c) n m)"

definition memmove_c :: "nat \<Rightarrow> nat \<Rightarrow> nat \<Rightarrow> bmem \<Rightarrow> bmem" where
  "memmove_c dst src n m =
    (if src < dst \<and> src + n > dst then
       let s = src + n; d = dst + n
       in if s mod 4 = 0 \<and> d mod 4 = 0 \<and> n mod 4 = 0 then rep_movsl_down (d - 4) (s - 4) (n div 4) m
          else rep_movsb_down (d - 1) (s - 1) n m
     else if src mod 4 = 0 \<and> dst mod 4 = 0 \<and> n mod 4 = 0 then rep_movsl dst src (n div 4) m
     else rep_movsb dst src n m)"

definition memcpy :: "nat \<Rightarrow> nat \<Rightarrow> nat \<Rightarrow> bmem \<Rightarrow> bmem" where
  "memcpy dst src n m = memmove_c dst src n m"

section \<open>Comparing\<close>

definition udiff :: "u8 \<Rightarrow> u8 \<Rightarrow> int" where
  "udiff a b = uint a - uint b"

partial_function (option) strcmp :: "bmem \<Rightarrow> nat \<Rightarrow> nat \<Rightarrow> int option" where
  "strcmp m p q = (if m p \<noteq> 0 \<and> m p = m q then strcmp m (p + 1) (q + 1) else Some (udiff (m p) (m q)))"

fun strncmp :: "bmem \<Rightarrow> nat \<Rightarrow> nat \<Rightarrow> nat \<Rightarrow> int" where
  "strncmp m p q 0 = 0"
| "strncmp m p q (Suc n) =
    (if m p \<noteq> 0 \<and> m p = m q then strncmp m (p + 1) (q + 1) n else udiff (m p) (m q))"

fun memcmp :: "bmem \<Rightarrow> nat \<Rightarrow> nat \<Rightarrow> nat \<Rightarrow> int" where
  "memcmp m s1 s2 0 = 0"
| "memcmp m s1 s2 (Suc n) = (if m s1 \<noteq> m s2 then udiff (m s1) (m s2) else memcmp m (s1 + 1) (s2 + 1) n)"

section \<open>Numbers\<close>

partial_function (option) skip_blanks :: "bmem \<Rightarrow> nat \<Rightarrow> nat option" where
  "skip_blanks m s = (if m s = 32 \<or> m s = 9 then skip_blanks m (s + 1) else Some s)"

definition digit_value :: "u8 \<Rightarrow> nat option" where
  "digit_value c =
    (if 48 \<le> c \<and> c \<le> 57 then Some (unat c - 48)
     else if 97 \<le> c \<and> c \<le> 122 then Some (unat c - 97 + 10)
     else if 65 \<le> c \<and> c \<le> 90 then Some (unat c - 65 + 10) else None)"

text \<open>\<open>val\<close> is a \<open>long\<close>, here a word: the source does not detect an overflow either.\<close>

partial_function (option) strtol_digits :: "bmem \<Rightarrow> nat \<Rightarrow> nat \<Rightarrow> u32 \<Rightarrow> (u32 \<times> nat) option" where
  "strtol_digits m base s val =
    (case digit_value (m s) of
       None \<Rightarrow> Some (val, s)
     | Some dig \<Rightarrow> if dig \<ge> base then Some (val, s)
                   else strtol_digits m base (s + 1) (val * of_nat base + of_nat dig))"

definition strtol :: "bmem \<Rightarrow> nat \<Rightarrow> nat \<Rightarrow> (int \<times> nat) option" where
  "strtol m s base =
    (case skip_blanks m s of
       None \<Rightarrow> None
     | Some s0 \<Rightarrow>
       let (s1, neg) = (if m s0 = 43 then (s0 + 1, False)
                        else if m s0 = 45 then (s0 + 1, True) else (s0, False));
           (s2, b) = (if (base = 0 \<or> base = 16) \<and> m s1 = 48 \<and> m (s1 + 1) = 120 then (s1 + 2, 16)
                      else if base = 0 \<and> m s1 = 48 then (s1 + 1, 8)
                      else if base = 0 then (s1, 10) else (s1, base))
       in (case strtol_digits m b s2 0 of
             None \<Rightarrow> None
           | Some (val, e) \<Rightarrow> Some (sint (if neg then - val else val), e)))"

section \<open>Null-terminated strings\<close>

definition cstr :: "bmem \<Rightarrow> nat \<Rightarrow> u8 list \<Rightarrow> bool" where
  "cstr m s xs \<longleftrightarrow> 0 \<notin> set xs \<and> (\<forall>i < length xs. m (s + i) = xs ! i) \<and> m (s + length xs) = 0"

lemma cstr_Nil: "cstr m s [] \<longleftrightarrow> m s = 0"
  by (simp add: cstr_def)

lemma cstr_Cons: "cstr m s (x # xs) \<longleftrightarrow> x \<noteq> 0 \<and> m s = x \<and> cstr m (s + 1) xs"
  by (auto simp: cstr_def All_less_Suc2)

lemma cstr_unique: "cstr m s xs \<Longrightarrow> cstr m s ys \<Longrightarrow> xs = ys"
proof (induction xs arbitrary: s ys)
  case Nil
  then show ?case by (cases ys) (auto simp: cstr_Nil cstr_Cons)
next
  case (Cons x xs)
  then show ?case by (cases ys) (auto simp: cstr_Nil cstr_Cons)
qed

lemma strlen_loop_cstr: "cstr m s xs \<Longrightarrow> strlen_loop m s n = Some (n + length xs)"
proof (induction xs arbitrary: s n)
  case Nil
  then show ?case by (subst strlen_loop.simps) (simp add: cstr_Nil)
next
  case (Cons x xs)
  then show ?case by (subst strlen_loop.simps) (simp add: cstr_Cons)
qed

lemma strlen_cstr: "cstr m s xs \<Longrightarrow> strlen m s = Some (length xs)"
  by (simp add: strlen_def strlen_loop_cstr)

lemma cstr_cong: "cstr m s xs \<Longrightarrow> (\<And>i. i \<le> length xs \<Longrightarrow> m' (s + i) = m (s + i)) \<Longrightarrow> cstr m' s xs"
  by (auto simp: cstr_def)

section \<open>The moves copy, overlap or not\<close>

lemma store32_load32: "store32 d (load32 m s) m = memmove d s 4 m"
proof -
  have b: "ucast (load32 m s) = m s" "ucast (drop_bit 8 (load32 m s)) = m (s + 1)"
    "ucast (drop_bit 16 (load32 m s)) = m (s + 2)" "ucast (drop_bit 24 (load32 m s)) = m (s + 3)"
    by (rule bit_word_eqI; auto simp: load32_def bit_simps dest: bit_imp_le_length)+
  show ?thesis
    unfolding store32_def b
    by (rule ext) (auto simp: memmove_def numeral_eq_Suc le_Suc_eq less_Suc_eq)
qed

lemma memmove_append:
  "d \<le> s \<or> s + k + n \<le> d \<Longrightarrow> memmove (d + k) (s + k) n (memmove d s k m) = memmove d s (k + n) m"
  by (rule ext) (auto simp: memmove_def)

lemma memmove_prepend:
  "s < d \<Longrightarrow> memmove d s n (memmove (d + n) (s + n) k m) = memmove d s (n + k) m"
  by (rule ext) (auto simp: memmove_def)

lemma memmove_one: "m(d := m s) = memmove d s 1 m"
  by (rule ext) (auto simp: memmove_def)

lemma memmove_0: "memmove d s 0 m = m"
  by (rule ext) (auto simp: memmove_def)

lemma rep_movsb_memmove: "d \<le> s \<or> s + n \<le> d \<Longrightarrow> rep_movsb d s n m = memmove d s n m"
proof (induction n arbitrary: d s m)
  case (Suc n)
  then show ?case using memmove_append [of d s 1 n m]
    by (simp add: memmove_one del: fun_upd_apply) auto
qed (simp add: memmove_0)

lemma rep_movsl_memmove: "d \<le> s \<or> s + 4 * n \<le> d \<Longrightarrow> rep_movsl d s n m = memmove d s (4 * n) m"
proof (induction n arbitrary: d s m)
  case (Suc n)
  then show ?case using memmove_append [of d s 4 "4 * n" m]
    by (simp add: store32_load32) auto
qed (simp add: memmove_0)

lemma rep_movsb_down_memmove:
  "s < d \<Longrightarrow> rep_movsb_down (d + n - 1) (s + n - 1) n m = memmove d s n m"
proof (induction n arbitrary: m)
  case (Suc n)
  then show ?case using memmove_prepend [of s d n 1 m] by (simp add: memmove_one)
qed (simp add: memmove_0)

lemma rep_movsl_down_memmove:
  "s < d \<Longrightarrow> rep_movsl_down (d + 4 * n - 4) (s + 4 * n - 4) n m = memmove d s (4 * n) m"
proof (induction n arbitrary: m)
  case (Suc n)
  then show ?case using memmove_prepend [of s d "4 * n" 4 m]
    by (simp add: store32_load32 add.commute)
qed (simp add: memmove_0)

lemma memset_0: "memset v c 0 m = m"
  by (rule ext) (auto simp: memset_def)

lemma memset_append: "memset (v + k) c n (memset v c k m) = memset v c (k + n) m"
  by (rule ext) (auto simp: memset_def)

lemma rep_stosb_memset: "rep_stosb v c n m = memset v c n m"
proof (induction n arbitrary: v m)
  case (Suc n)
  have "m(v := c) = memset v c 1 m" by (rule ext) (auto simp: memset_def)
  with Suc show ?case using memset_append [of v 1 c n m] by simp
qed (simp add: memset_0)

lemma store32_rep:
  "store32 v (push_bit 24 (c AND 0xFF) OR push_bit 16 (c AND 0xFF) OR push_bit 8 (c AND 0xFF)
     OR (c AND 0xFF)) m = memset v (ucast c) 4 m"
proof -
  let ?b = "c AND (0xFF :: u32)"
  let ?w = "push_bit 24 ?b OR push_bit 16 ?b OR push_bit 8 ?b OR ?b"
  have m8: "c AND 0xFF = take_bit 8 c" using take_bit_eq_mask [of 8 c] by (simp add: mask_numeral)
  have b: "(ucast ?w :: u8) = ucast c" "(ucast (drop_bit 8 ?w) :: u8) = ucast c"
    "(ucast (drop_bit 16 ?w) :: u8) = ucast c" "(ucast (drop_bit 24 ?w) :: u8) = ucast c"
    unfolding m8 by (rule bit_word_eqI; auto simp: bit_simps)+
  show ?thesis
    unfolding store32_def b
    by (rule ext) (auto simp: memset_def numeral_eq_Suc le_Suc_eq less_Suc_eq)
qed

lemma rep_stosl_memset:
  "rep_stosl v (push_bit 24 (c AND 0xFF) OR push_bit 16 (c AND 0xFF) OR push_bit 8 (c AND 0xFF)
     OR (c AND 0xFF)) n m = memset v (ucast c) (4 * n) m"
proof (induction n arbitrary: v m)
  case (Suc n)
  have "4 * Suc n = 4 + 4 * n" by simp
  then show ?case unfolding rep_stosl.simps store32_rep Suc.IH by (simp only: memset_append)
qed (simp add: memset_0)

lemma memset_c_memset: "memset_c v c n m = memset v (ucast c) n m"
  using rep_stosl_memset [of v c "n div 4" m]
  by (auto simp: memset_c_def Let_def rep_stosb_memset memset_def)


lemma mod4_div4: "n mod 4 = 0 \<Longrightarrow> 4 * (n div 4) = (n :: nat)"
  by presburger

lemma memmove_c_memmove: "memmove_c dst src n m = memmove dst src n m"
proof (cases "src < dst \<and> src + n > dst")
  case True
  then show ?thesis
    using rep_movsl_down_memmove [of src dst "n div 4" m] rep_movsb_down_memmove [of src dst n m]
    by (auto simp: memmove_c_def Let_def mod4_div4)
next
  case False
  then have "dst \<le> src \<or> src + n \<le> dst" by auto
  then show ?thesis using False
    rep_movsl_memmove [of dst src "n div 4" m] rep_movsb_memmove [of dst src n m]
    by (auto simp: memmove_c_def mod4_div4)
qed

section \<open>Copies of strings\<close>

lemma cstr_memmove:
  "cstr m s xs \<Longrightarrow> length xs < n \<Longrightarrow> cstr (memmove d s n m) d xs"
  by (auto simp: cstr_def)

lemma strcpy_memmove:
  assumes "cstr m src xs" "dst \<le> src \<or> src + length xs < dst"
  shows "strcpy dst src m = Some (memmove dst src (Suc (length xs)) m)"
  using assms
proof (induction xs arbitrary: dst src m)
  case Nil
  then have "m(dst := 0) = memmove dst src 1 m" using memmove_one [of m dst src] by (simp add: cstr_Nil)
  with Nil show ?case by (subst strcpy.simps) (simp add: cstr_Nil)
next
  case (Cons x xs)
  have "cstr (m(dst := m src)) (src + 1) xs"
    by (rule cstr_cong [of m]) (use Cons.prems in \<open>auto simp: cstr_Cons\<close>)
  moreover have "dst + 1 \<le> src + 1 \<or> src + 1 + length xs < dst + 1" using Cons.prems(2) by auto
  ultimately have "strcpy (dst + 1) (src + 1) (m(dst := m src)) =
      Some (memmove (dst + 1) (src + 1) (Suc (length xs)) (m(dst := m src)))"
    by (rule Cons.IH)
  moreover have "memmove (dst + 1) (src + 1) (Suc (length xs)) (m(dst := m src)) =
      memmove dst src (1 + Suc (length xs)) m"
    unfolding memmove_one using Cons.prems(2) by (intro memmove_append) auto
  ultimately show ?case
    using Cons.prems(1) by (subst strcpy.simps) (simp add: cstr_Cons)
qed

lemma strlcpy_loop_run:
  assumes "cstr m src xs" "dst_in \<le> dst"
    "dst + k < src \<or> src + length xs < dst"
  shows "strlcpy_loop dst_in dst src k m =
    (dst - dst_in + min k (length xs),
     (memmove dst src (min k (length xs)) m)(dst + min k (length xs) := 0))"
  using assms
proof (induction k arbitrary: dst src m xs)
  case 0
  then show ?case by (simp add: memmove_0 fun_upd_def)
next
  case (Suc k)
  show ?case
  proof (cases xs)
    case Nil
    with Suc.prems show ?thesis by (simp add: cstr_Nil memmove_0 fun_upd_def)
  next
    case (Cons x ys)
    have "cstr (m(dst := m src)) (src + 1) ys"
      by (rule cstr_cong [of m]) (use Suc.prems Cons in \<open>auto simp: cstr_Cons\<close>)
    then have "strlcpy_loop dst_in (dst + 1) (src + 1) k (m(dst := m src)) =
      (dst + 1 - dst_in + min k (length ys),
       (memmove (dst + 1) (src + 1) (min k (length ys)) (m(dst := m src)))
         (dst + 1 + min k (length ys) := 0))"
      by (rule Suc.IH) (use Suc.prems Cons in auto)
    moreover have "memmove (dst + 1) (src + 1) (min k (length ys)) (m(dst := m src)) =
       memmove dst src (1 + min k (length ys)) m"
      unfolding memmove_one using Suc.prems Cons by (intro memmove_append) auto
    ultimately show ?thesis
      using Suc.prems Cons by (simp add: cstr_Cons Suc_diff_le) (simp add: fun_upd_def)
  qed
qed

lemma udiff_0: "udiff a b = 0 \<longleftrightarrow> a = b"
  by (auto simp: udiff_def intro: word_uint_eqI)

lemma strcmp_zero:
  "cstr m p xs \<Longrightarrow> cstr m q ys \<Longrightarrow> \<exists>r. strcmp m p q = Some r \<and> (r = 0 \<longleftrightarrow> xs = ys)"
proof (induction xs arbitrary: p q ys)
  case Nil
  then show ?case
    by (subst strcmp.simps) (cases ys; auto simp: cstr_Nil cstr_Cons udiff_0)
next
  case (Cons x xs)
  show ?case
  proof (cases "m p = m q")
    case True
    with Cons.prems obtain zs where ys: "ys = x # zs" and z: "cstr m (q + 1) zs"
      by (cases ys) (auto simp: cstr_Nil cstr_Cons)
    with Cons.IH [OF _ z, of "p + 1"] Cons.prems True show ?thesis
      by (subst strcmp.simps) (auto simp: cstr_Cons)
  next
    case False
    with Cons.prems show ?thesis
      by (subst strcmp.simps) (cases ys; auto simp: cstr_Nil cstr_Cons udiff_0)
  qed
qed

section \<open>Properties\<close>

text \<open>
  Property C36. \<open>memmove\<close>, in whichever of its four string-instruction forms it runs (up or
  down, by bytes or by words), leaves in the destination the bytes the source held before the
  call, and changes nothing else, however the two ranges overlap.
\<close>

theorem memmove_overlap:
  "memmove_c dst src n m x = (if dst \<le> x \<and> x < dst + n then m (src + (x - dst)) else m x)"
  by (simp add: memmove_c_memmove memmove_def)

text \<open>
  \<open>strlcpy\<close> never writes outside the \<open>n\<close> bytes of its destination, always
  leaves a null-terminated string there when there is room for one, namely the longest prefix
  of the source that fits, and returns the length of what it copied.
\<close>

theorem strlcpy_bounded:
  assumes "cstr m src xs" "n > 0" "dst + n \<le> src \<or> src + length xs < dst"
  shows "fst (strlcpy dst src n m) = min (n - 1) (length xs)
    \<and> cstr (snd (strlcpy dst src n m)) dst (take (n - 1) xs)
    \<and> (\<forall>x. \<not> (dst \<le> x \<and> x < dst + n) \<longrightarrow> snd (strlcpy dst src n m) x = m x)"
proof -
  let ?k = "min (n - 1) (length xs)"
  have run: "strlcpy dst src n m = (?k, (memmove dst src ?k m)(dst + ?k := 0))"
    using strlcpy_loop_run [OF assms(1), of dst dst "n - 1"] assms(2,3) by (auto simp: strlcpy_def)
  have "cstr ((memmove dst src ?k m)(dst + ?k := 0)) dst (take (n - 1) xs)"
    using assms(1) by (auto simp: cstr_def min.commute dest: in_set_takeD)
  with assms(2) show ?thesis by (auto simp: run)
qed

theorem strlcpy_bounded_witness:
  "cstr (snd (strlcpy 100 0 3 (\<lambda>a. if a < 5 then 65 else 0))) 100 [65, 65]"
  using strlcpy_bounded [of "\<lambda>a. if a < 5 then 65 else 0" 0 "[65, 65, 65, 65, 65]" 3 100]
  by (simp add: cstr_def nth_Cons split: nat.splits)

end
