(* ===== verification/Jos_Printf.thy ===== *)
theory Jos_Printf
  imports Jos_String Jos_Machine
begin

text \<open>
  The formatted output of \<^verbatim>\<open>tps/lib/printfmt.c\<close>, and its three clients: \<open>vsnprintf\<close>, the user
  \<open>cprintf\<close> of \<^verbatim>\<open>tps/lib/printf.c\<close> and the kernel's of \<^verbatim>\<open>tps/kern/printf.c\<close>. The callback
  \<open>putch\<close> is modelled by the list of the characters it is called with, in order. The variable
  arguments are the 32-bit words of the call frame, a \<open>long long\<close> taking two of them, low word
  first; a format that asks for more words than there are has no value. A conversion reads
  \<open>%s\<close> arguments in a byte memory, which the callback is assumed not to change under it.
\<close>

section \<open>Numbers\<close>

definition hex_digits :: string where
  "hex_digits = ''0123456789abcdef''"

definition digit_char :: "nat \<Rightarrow> int" where
  "digit_char d = of_char (hex_digits ! d)"

partial_function (option) printnum :: "nat \<Rightarrow> nat \<Rightarrow> int \<Rightarrow> char \<Rightarrow> int list option" where
  "printnum num base w pad =
    Option.bind (if num \<ge> base then if base = 0 then None else printnum (num div base) base (w - 1) pad
                 else Some (replicate (nat (w - 1)) (of_char pad)))
      (\<lambda>out. Some (out @ [digit_char (num mod base)]))"

type_synonym va_list = "u32 list"

definition va_int :: "va_list \<Rightarrow> (int \<times> va_list) option" where
  "va_int ap = (case ap of [] \<Rightarrow> None | w # ws \<Rightarrow> Some (sint w, ws))"

definition va_uint :: "va_list \<Rightarrow> (u32 \<times> va_list) option" where
  "va_uint ap = (case ap of [] \<Rightarrow> None | w # ws \<Rightarrow> Some (w, ws))"

definition va_longlong :: "va_list \<Rightarrow> (64 word \<times> va_list) option" where
  "va_longlong ap =
    (case ap of lo # hi # ws \<Rightarrow> Some (push_bit 32 (ucast hi) OR ucast lo, ws) | _ \<Rightarrow> None)"

definition getuint :: "va_list \<Rightarrow> nat \<Rightarrow> (64 word \<times> va_list) option" where
  "getuint ap lflag = (if lflag \<ge> 2 then va_longlong ap
     else map_option (\<lambda>(w, ws). (ucast w, ws)) (va_uint ap))"

definition getint :: "va_list \<Rightarrow> nat \<Rightarrow> (64 word \<times> va_list) option" where
  "getint ap lflag = (if lflag \<ge> 2 then va_longlong ap
     else map_option (\<lambda>(i, ws). (word_of_int i, ws)) (va_int ap))"

section \<open>Escape sequences\<close>

record fmt_spec =
  padc :: char
  fwidth :: int
  precision :: int
  lflag :: nat
  altflag :: bool

definition fmt_spec0 :: fmt_spec where
  "fmt_spec0 = \<lparr>padc = CHR '' '', fwidth = -1, precision = -1, lflag = 0, altflag = False\<rparr>"

definition process_precision :: "fmt_spec \<Rightarrow> fmt_spec" where
  "process_precision sp = (if fwidth sp < 0 then sp\<lparr>fwidth := precision sp, precision := -1\<rparr> else sp)"

definition is_digit :: "char \<Rightarrow> bool" where
  "is_digit c \<longleftrightarrow> (of_char c :: int) \<ge> 48 \<and> (of_char c :: int) \<le> 57"

fun read_number :: "int \<Rightarrow> string \<Rightarrow> int \<times> string" where
  "read_number p [] = (p, [])"
| "read_number p (c # cs) = (if is_digit c then read_number (p * 10 + of_char c - 48) cs else (p, c # cs))"

lemma read_number_length: "length (snd (read_number p cs)) \<le> length cs"
  by (induction p cs rule: read_number.induct) auto

text \<open>
  The loop behind the label \<open>reswitch\<close>: flags, width and precision up to the conversion
  character, with what is left of the format after it (\<open>None\<close> is the null at the end).
\<close>

function (sequential) reswitch ::
  "fmt_spec \<Rightarrow> va_list \<Rightarrow> string \<Rightarrow> (fmt_spec \<times> va_list \<times> char option \<times> string) option" where
  "reswitch sp ap [] = Some (sp, ap, None, [])"
| "reswitch sp ap (ch # fmt) =
    (if ch = CHR ''-'' then reswitch (sp\<lparr>padc := CHR ''-''\<rparr>) ap fmt
     else if ch = CHR ''0'' then reswitch (sp\<lparr>padc := CHR ''0''\<rparr>) ap fmt
     else if is_digit ch then
       reswitch (process_precision (sp\<lparr>precision := fst (read_number (of_char ch - 48) fmt)\<rparr>)) ap
         (snd (read_number (of_char ch - 48) fmt))
     else if ch = CHR ''*'' then
       (case va_int ap of None \<Rightarrow> None
        | Some (i, ap') \<Rightarrow> reswitch (process_precision (sp\<lparr>precision := i\<rparr>)) ap' fmt)
     else if ch = CHR ''.'' then reswitch (if fwidth sp < 0 then sp\<lparr>fwidth := 0\<rparr> else sp) ap fmt
     else if ch = CHR ''#'' then reswitch (sp\<lparr>altflag := True\<rparr>) ap fmt
     else if ch = CHR ''l'' then reswitch (sp\<lparr>lflag := lflag sp + 1\<rparr>) ap fmt
     else Some (sp, ap, Some ch, fmt))"
  by pat_completeness auto
termination
  by (relation "measure (\<lambda>(sp, ap, fmt). length fmt)") (auto simp: le_imp_less_Suc read_number_length)

lemma reswitch_length: "reswitch sp ap fmt = Some (sp', ap', cv, rest) \<Longrightarrow> length rest \<le> length fmt"
proof (induction sp ap fmt rule: reswitch.induct)
  case (2 sp ap ch fmt)
  then show ?case
    using read_number_length [of "of_char ch - 48" fmt]
    by (auto split: if_splits option.splits) fastforce
qed simp

section \<open>Conversions\<close>

text \<open>
  The messages of the negated error codes. \<open>err\<close> is a C \<open>int\<close>: the most negative one stays
  negative under the negation, and indexes the table out of its bounds (no value).
\<close>

definition error_string :: "int \<Rightarrow> string option" where
  "error_string err =
    [None, Some ''unspecified error'', Some ''bad environment'', Some ''invalid parameter'',
     Some ''out of memory'', Some ''out of environments'', Some ''segmentation fault'',
     Some ''env is not recving'', Some ''unexpected end of file'', Some ''no free space on disk'',
     Some ''too many files are open'', Some ''file or block not found'', Some ''invalid path'',
     Some ''file already exists'', Some ''file is not a valid executable'',
     Some ''operation not supported''] ! nat err"

text \<open>\<open>printfmt (putch, putdat, "error %d", err)\<close> for a non-negative \<open>err\<close>.\<close>

definition convert_error :: "int \<Rightarrow> int list option" where
  "convert_error i =
    (let err = (if i < 0 then sint (word_of_int (- i) :: u32) else i)
     in if err < 0 then None
        else case (if err \<ge> MAXERROR then None else error_string err) of
          None \<Rightarrow> map_option ((@) (map of_char ''error '')) (printnum (nat err) 10 (-1) CHR '' '')
        | Some msg \<Rightarrow> Some (map of_char msg))"

partial_function (option) put_chars :: "bmem \<Rightarrow> nat \<Rightarrow> int \<Rightarrow> bool \<Rightarrow> int \<Rightarrow> (int list \<times> int) option" where
  "put_chars m p prec alt w =
    (if m p = 0 \<or> (0 \<le> prec \<and> prec - 1 < 0) then Some ([], w)
     else Option.bind (put_chars m (p + 1) (if prec < 0 then prec else prec - 1) alt (w - 1))
       (\<lambda>(out, w'). Some ((if alt \<and> (sint (m p) < 32 \<or> sint (m p) > 126) then 63 else sint (m p)) # out, w')))"

text \<open>The text "(null)" stands at an address of its own that no argument can name.\<close>

definition print_string :: "fmt_spec \<Rightarrow> bmem \<Rightarrow> nat \<Rightarrow> int list option" where
  "print_string sp m p =
    (let n = int (strnlen m p (unat (word_of_int (precision sp) :: u32)));
         lead = (if fwidth sp > 0 \<and> padc sp \<noteq> CHR ''-'' then nat (fwidth sp - n) else 0);
         w = (if fwidth sp > 0 \<and> padc sp \<noteq> CHR ''-'' then min 0 (fwidth sp - n) else fwidth sp)
     in case put_chars m p (precision sp) (altflag sp) w of
          None \<Rightarrow> None
        | Some (out, w') \<Rightarrow> Some (replicate lead (of_char (padc sp)) @ out @ replicate (nat w') 32))"

definition null_text :: bmem where
  "null_text a = (if a < 6 then [40, 110, 117, 108, 108, 41] ! a else 0)"

definition convert_string :: "fmt_spec \<Rightarrow> bmem \<Rightarrow> u32 \<Rightarrow> int list option" where
  "convert_string sp m p = (if p = 0 then print_string sp null_text 0 else print_string sp m (unat p))"

datatype conversion = Printed "int list" va_list | Unrecognized

definition printed :: "int list option \<Rightarrow> va_list \<Rightarrow> conversion option" where
  "printed out ap = map_option (\<lambda>cs. Printed cs ap) out"

definition number :: "int list \<Rightarrow> fmt_spec \<Rightarrow> 64 word \<Rightarrow> nat \<Rightarrow> va_list \<Rightarrow> conversion option" where
  "number pre sp num base ap =
    printed (map_option ((@) pre) (printnum (unat num) base (fwidth sp) (padc sp))) ap"

fun convert :: "bmem \<Rightarrow> fmt_spec \<Rightarrow> va_list \<Rightarrow> char option \<Rightarrow> conversion option" where
  "convert m sp ap None = Some Unrecognized"
| "convert m sp ap (Some ch) =
    (if ch = CHR ''c'' then Option.bind (va_int ap) (\<lambda>(i, ap). Some (Printed [i] ap))
     else if ch = CHR ''e'' then Option.bind (va_int ap) (\<lambda>(i, ap). printed (convert_error i) ap)
     else if ch = CHR ''s'' then Option.bind (va_uint ap) (\<lambda>(p, ap). printed (convert_string sp m p) ap)
     else if ch = CHR ''d'' then Option.bind (getint ap (lflag sp)) (\<lambda>(num, ap).
       if sint num < 0 then number [of_char CHR ''-''] sp (- num) 10 ap else number [] sp num 10 ap)
     else if ch = CHR ''u'' then Option.bind (getuint ap (lflag sp)) (\<lambda>(num, ap). number [] sp num 10 ap)
     else if ch = CHR ''o'' then Option.bind (getuint ap (lflag sp)) (\<lambda>(num, ap). number [] sp num 8 ap)
     else if ch = CHR ''p'' then Option.bind (va_uint ap) (\<lambda>(p, ap).
       number [of_char CHR ''0'', of_char CHR ''x''] sp (ucast p) 16 ap)
     else if ch = CHR ''x'' then Option.bind (getuint ap (lflag sp)) (\<lambda>(num, ap). number [] sp num 16 ap)
     else if ch = CHR ''%'' then Some (Printed [of_char CHR ''%''] ap)
     else Some Unrecognized)"

text \<open>
  An unrecognised sequence prints its \<^verbatim>\<open>%\<close> and moves \<open>fmt\<close> back to just after it, so that the rest
  of the sequence is printed as ordinary text; the arguments it consumed stay consumed.
\<close>

function (sequential) vprintfmt :: "bmem \<Rightarrow> string \<Rightarrow> va_list \<Rightarrow> int list option" where
  "vprintfmt m [] ap = Some []"
| "vprintfmt m (ch # fmt) ap =
    (if ch \<noteq> CHR ''%'' then map_option ((#) (of_char ch)) (vprintfmt m fmt ap)
     else case reswitch fmt_spec0 ap fmt of
       None \<Rightarrow> None
     | Some (sp, ap', cv, rest) \<Rightarrow>
       (case convert m sp ap' cv of
          None \<Rightarrow> None
        | Some (Printed out ap'') \<Rightarrow> map_option ((@) out) (vprintfmt m rest ap'')
        | Some Unrecognized \<Rightarrow> map_option ((#) (of_char CHR ''%'')) (vprintfmt m fmt ap')))"
  by pat_completeness auto
termination
  by (relation "measure (\<lambda>(m, fmt, ap). length fmt)") (auto dest!: reswitch_length)

section \<open>Printing into a buffer\<close>

record sprintbuf =
  buf :: nat
  ebuf :: nat
  cnt :: int

definition sprintputch :: "int \<Rightarrow> sprintbuf \<times> bmem \<Rightarrow> sprintbuf \<times> bmem" where
  "sprintputch ch = (\<lambda>(b, m).
     if buf b < ebuf b then (b\<lparr>cnt := cnt b + 1, buf := buf b + 1\<rparr>, m(buf b := word_of_int ch))
     else (b\<lparr>cnt := cnt b + 1\<rparr>, m))"

definition vsnprintf :: "nat \<Rightarrow> int \<Rightarrow> string \<Rightarrow> va_list \<Rightarrow> bmem \<Rightarrow> (int \<times> bmem) option" where
  "vsnprintf p n fmt ap m =
    (if p = 0 \<or> n < 1 then Some (- E_INVAL, m)
     else case vprintfmt m fmt ap of
       None \<Rightarrow> None
     | Some out \<Rightarrow>
       (let (b, m') = fold sprintputch out (\<lparr>buf = p, ebuf = nat (int p + n - 1), cnt = 0\<rparr>, m)
        in Some (cnt b, m'(buf b := 0))))"

section \<open>Printing from a user environment\<close>

text \<open>
  \<open>calls\<close> is the list of the strings passed to \<open>sys_cputs\<close> so far, latest last. Only the first
  \<open>idx\<close> bytes of the buffer are ever read.
\<close>

record printbuf =
  idx :: nat
  pcnt :: nat
  pbuf :: "u8 list"
  calls :: "u8 list list"

definition user_putch :: "int \<Rightarrow> printbuf \<Rightarrow> printbuf" where
  "user_putch ch b =
    (let b1 = b\<lparr>pbuf := (pbuf b)[idx b := word_of_int ch], idx := idx b + 1\<rparr>;
         b2 = (if idx b1 = 256 - 1 then b1\<lparr>calls := calls b1 @ [take (idx b1) (pbuf b1)], idx := 0\<rparr> else b1)
     in b2\<lparr>pcnt := pcnt b2 + 1\<rparr>)"

definition user_vcprintf :: "u8 list \<Rightarrow> bmem \<Rightarrow> string \<Rightarrow> va_list \<Rightarrow> (nat \<times> u8 list list) option" where
  "user_vcprintf garbage m fmt ap = map_option (\<lambda>out.
     let b = fold user_putch out \<lparr>idx = 0, pcnt = 0, pbuf = garbage, calls = []\<rparr>
     in (pcnt b, calls b @ [take (idx b) (pbuf b)])) (vprintfmt m fmt ap)"

section \<open>Printing from the kernel\<close>

definition kern_putch :: "int \<Rightarrow> console \<times> int \<Rightarrow> console \<times> int" where
  "kern_putch ch = (\<lambda>(c, n). (cons_putc (word_of_int ch) c, n + 1))"

definition kern_vcprintf :: "bmem \<Rightarrow> string \<Rightarrow> va_list \<Rightarrow> console \<Rightarrow> (console \<times> int) option" where
  "kern_vcprintf m fmt ap c = map_option (\<lambda>out. fold kern_putch out (c, 0)) (vprintfmt m fmt ap)"

section \<open>Positional notation\<close>

fun radix :: "nat \<Rightarrow> nat \<Rightarrow> nat list" where
  "radix base n = (if base < 2 \<or> n < base then [n] else radix base (n div base) @ [n mod base])"

declare radix.simps [simp del]

lemma radix_value: "foldl (\<lambda>v d. v * base + d) 0 (radix base n) = n"
proof (induction base n rule: radix.induct)
  case (1 base n)
  then show ?case by (subst radix.simps) simp
qed

lemma radix_digits: "2 \<le> base \<Longrightarrow> d \<in> set (radix base n) \<Longrightarrow> d < base"
proof (induction base n rule: radix.induct)
  case (1 base n)
  then show ?case by (subst (asm) radix.simps) (auto split: if_splits)
qed

lemma radix_length: "2 \<le> base \<Longrightarrow> n < base ^ k \<Longrightarrow> k > 0 \<Longrightarrow> length (radix base n) \<le> k"
proof (induction k arbitrary: n)
  case (Suc k)
  show ?case
  proof (cases "n < base")
    case False
    with Suc.prems have "k > 0" by (cases k) auto
    moreover have "n div base < base ^ k" using Suc.prems by (simp add: less_mult_imp_div_less mult.commute)
    ultimately have "length (radix base (n div base)) \<le> k" using Suc.IH Suc.prems by simp
    with False Suc.prems show ?thesis by (subst radix.simps) simp
  qed (use Suc.prems in \<open>subst radix.simps, simp\<close>)
qed simp

lemma printnum_radix:
  "2 \<le> base \<Longrightarrow> printnum n base w pad =
     Some (replicate (nat (w - int (length (radix base n)))) (of_char pad) @ map digit_char (radix base n))"
proof (induction n arbitrary: w rule: less_induct)
  case (less n)
  show ?case
  proof (cases "n < base")
    case True
    with less.prems show ?thesis by (subst printnum.simps) (simp add: radix.simps [of base n])
  next
    case False
    then have "n div base < n" using less.prems by (intro div_less_dividend) auto
    from less.IH [OF this less.prems, of "w - 1"] False less.prems show ?thesis
      by (subst printnum.simps) (simp add: radix.simps [of base n] algebra_simps)
  qed
qed

section \<open>Writing the output\<close>

definition put_bytes :: "nat \<Rightarrow> int list \<Rightarrow> bmem \<Rightarrow> bmem" where
  "put_bytes p out m = (\<lambda>x. if p \<le> x \<and> x < p + length out then word_of_int (out ! (x - p)) else m x)"

lemma put_bytes_Nil: "put_bytes p [] m = m"
  by (auto simp: put_bytes_def fun_eq_iff)

lemma put_bytes_Cons: "put_bytes (p + 1) cs (m(p := word_of_int c)) = put_bytes p (c # cs) m"
  by (auto simp: put_bytes_def fun_eq_iff nth_Cons' Suc_le_eq)

lemma sprintputch_run:
  "buf b \<le> ebuf b \<Longrightarrow> fold sprintputch out (b, m) =
     (b\<lparr>buf := buf b + min (length out) (ebuf b - buf b), cnt := cnt b + int (length out)\<rparr>,
      put_bytes (buf b) (take (ebuf b - buf b) out) m)"
proof (induction out arbitrary: b m)
  case (Cons ch out)
  show ?case
  proof (cases "buf b < ebuf b")
    case True
    let ?b = "b\<lparr>cnt := cnt b + 1, buf := buf b + 1\<rparr>"
    have step: "sprintputch ch (b, m) = (?b, m(buf b := word_of_int ch))"
      using True by (simp add: sprintputch_def)
    have k: "ebuf b - buf b = Suc (ebuf b - (buf b + 1))" using True by simp
    have "fold sprintputch (ch # out) (b, m) =
        (?b\<lparr>buf := buf ?b + min (length out) (ebuf b - (buf b + 1)), cnt := cnt ?b + int (length out)\<rparr>,
         put_bytes (buf b + 1) (take (ebuf b - (buf b + 1)) out) (m(buf b := word_of_int ch)))"
      using Cons.IH [of ?b "m(buf b := word_of_int ch)"] True by (simp add: step del: fun_upd_apply)
    then show ?thesis unfolding put_bytes_Cons k by simp
  next
    case False
    with Cons.prems have k: "ebuf b - buf b = 0" by simp
    have step: "sprintputch ch (b, m) = (b\<lparr>cnt := cnt b + 1\<rparr>, m)"
      using False by (simp add: sprintputch_def)
    show ?thesis using Cons.IH [of "b\<lparr>cnt := cnt b + 1\<rparr>" m] Cons.prems
      by (simp add: step k)
  qed
qed (simp add: put_bytes_Nil)

lemma vsnprintf_run:
  assumes "vprintfmt m fmt ap = Some out" "p \<noteq> 0" "n \<ge> 1"
  shows "vsnprintf p n fmt ap m = Some (int (length out),
    (put_bytes p (take (nat n - 1) out) m)(p + min (length out) (nat n - 1) := 0))"
proof -
  have e: "nat (int p + n - 1) = p + (nat n - 1)" using assms(3) by (simp add: nat_diff_distrib nat_add_distrib)
  show ?thesis
    using assms sprintputch_run [of "\<lparr>buf = p, ebuf = p + (nat n - 1), cnt = 0\<rparr>" out m]
    by (simp add: vsnprintf_def e)
qed

section \<open>Reading a number back\<close>

lemma digit_value_char: "d < 16 \<Longrightarrow> digit_value (word_of_int (digit_char d)) = Some d"
proof -
  have "\<forall>d \<in> set [0..<16]. digit_value (word_of_int (digit_char d)) = Some d"
    by (simp add: upt_rec digit_value_def digit_char_def hex_digits_def)
  then show "d < 16 \<Longrightarrow> ?thesis" by simp
qed

lemma strtol_digits_run:
  assumes "\<forall>d \<in> set ds. d < base" "base \<le> 16"
    "\<forall>i < length ds. m (s + i) = word_of_int (digit_char (ds ! i))" "digit_value (m (s + length ds)) = None"
  shows "strtol_digits m base s (of_nat v) =
    Some (of_nat (foldl (\<lambda>v d. v * base + d) v ds), s + length ds)"
  using assms
proof (induction ds arbitrary: s v)
  case Nil
  then show ?case by (subst strtol_digits.simps) simp
next
  case (Cons d ds)
  have m: "m s = word_of_int (digit_char d)" "d < base" using Cons.prems by auto
  have "strtol_digits m base (s + 1) (of_nat (v * base + d)) =
      Some (of_nat (foldl (\<lambda>v d. v * base + d) (v * base + d) ds), s + 1 + length ds)"
    using Cons.prems by (intro Cons.IH) auto
  with m Cons.prems(2) show ?case
    by (subst strtol_digits.simps) (simp add: digit_value_char)
qed

lemma strtol_run:
  assumes "ds \<noteq> []" "\<forall>d \<in> set ds. d < 10" "pre \<in> {[], [45]}"
    "\<forall>i < length pre. m (s + i) = pre ! i"
    "\<forall>i < length ds. m (s + length pre + i) = word_of_int (digit_char (ds ! i))"
    "m (s + length pre + length ds) = 0"
  shows "strtol m s 10 = Some (sint (if pre = [] then of_nat (foldl (\<lambda>v d. v * 10 + d) 0 ds)
      else - of_nat (foldl (\<lambda>v d. v * 10 + d) 0 ds) :: u32), s + length pre + length ds)"
proof -
  obtain d ds' where ds: "ds = d # ds'" "d < 10" using assms(1,2) by (cases ds) auto
  have "\<forall>d \<in> set [0..<10]. (word_of_int (digit_char d) :: u8) \<notin> {32, 9, 43, 45}"
    by (simp add: upt_rec digit_char_def hex_digits_def)
  then have first: "(word_of_int (digit_char d) :: u8) \<notin> {32, 9, 43, 45}" using ds(2) by simp
  have digits: "strtol_digits m 10 (s + length pre) 0 =
      Some (of_nat (foldl (\<lambda>v d. v * 10 + d) 0 ds), s + length pre + length ds)"
    using strtol_digits_run [of ds 10 m "s + length pre" 0] assms by (simp add: digit_value_def)
  have at: "m (s + length pre) = word_of_int (digit_char d)" using assms(5) ds by auto
  have "skip_blanks m s = Some s" using assms(3,4) at first by (subst skip_blanks.simps) auto
  with assms(3,4) at first digits show ?thesis by (auto simp: strtol_def)
qed

section \<open>Decimal output\<close>

lemma sint_bounds32: "- (2 ^ 31) \<le> sint (w :: u32)" "sint (w :: u32) < 2 ^ 31"
  using sint_ge [of w] sint_lt [of w] by simp_all

lemma scast64: "sint (scast (w :: u32) :: 64 word) = sint w"
  using sint_bounds32 [of w] by (simp add: signed_scast_eq signed_take_bit_int_eq_self)

lemma unat_minus64:
  assumes "sint (w :: u32) < 0"
  shows "unat (- (scast w :: 64 word)) = nat (- sint w)"
proof -
  let ?i = "sint w"
  have i: "- (2 ^ 31) \<le> ?i" "?i < 0" using sint_bounds32 [of w] assms by simp_all
  have "- (scast w :: 64 word) = word_of_int (- ?i)" by simp
  then have "unat (- (scast w :: 64 word)) = nat ((- ?i) mod 2 ^ 64)"
    by (simp only: unsigned_of_int take_bit_eq_mod) simp
  also have "(- ?i) mod 2 ^ 64 = - ?i" using i by (intro mod_pos_pos_trivial) auto
  finally show ?thesis .
qed

lemma unat_scast64:
  assumes "\<not> sint (w :: u32) < 0"
  shows "unat (scast w :: 64 word) = nat (sint w)"
proof -
  have "unat (word_of_int (sint w) :: 64 word) = nat (sint w mod 2 ^ 64)"
    by (simp only: unsigned_of_int take_bit_eq_mod) simp
  also have "sint w mod 2 ^ 64 = sint w"
    using sint_bounds32 [of w] assms by (intro mod_pos_pos_trivial) auto
  finally show ?thesis by simp
qed

definition decimal :: "int \<Rightarrow> int list" where
  "decimal i = (if i < 0 then [45] else []) @ map digit_char (radix 10 (nat \<bar>i\<bar>))"

lemma vprintfmt_decimal: "vprintfmt m ''%d'' [w] = Some (decimal (sint w))"
proof -
  have c: "convert m fmt_spec0 [w] (Some CHR ''d'') = Some (Printed (decimal (sint w)) [])"
  proof (cases "sint w < 0")
    case True
    then show ?thesis
      by (simp add: getint_def va_int_def fmt_spec0_def scast64 number_def printnum_radix unat_minus64
          printed_def decimal_def)
  next
    case False
    then show ?thesis
      by (simp add: getint_def va_int_def fmt_spec0_def scast64 number_def printnum_radix unat_scast64
          printed_def decimal_def)
  qed
  then show ?thesis by (simp add: is_digit_def fmt_spec0_def)
qed

lemma decimal_length: "length (decimal (sint (w :: u32))) \<le> 11"
proof -
  have "nat \<bar>sint w\<bar> < 10 ^ 10" using sint_bounds32 [of w] by (cases "sint w < 0") auto
  then have "length (radix 10 (nat \<bar>sint w\<bar>)) \<le> 10" by (intro radix_length) auto
  then show ?thesis by (auto simp: decimal_def)
qed

text \<open>
  Property C30. What \<open>snprintf (p, n, "%d", i)\<close> writes, \<open>strtol (p, 0, 10)\<close> reads back, for every
  32-bit \<open>i\<close> (the most negative one included) and every buffer of at least 12 bytes; and the
  reader stops exactly at the end of what was printed.
\<close>

theorem snprintf_strtol_roundtrip:
  assumes "p \<noteq> 0" "12 \<le> n"
  shows "\<exists>c m'. vsnprintf p n ''%d'' [w] m = Some (int c, m') \<and> strtol m' p 10 = Some (sint w, p + c)"
proof -
  let ?out = "decimal (sint w)" and ?ds = "radix 10 (nat \<bar>sint w\<bar>)"
  let ?pre = "if sint w < 0 then [45] else [] :: u8 list"
  define m' where "m' = (put_bytes p ?out m)(p + length ?out := 0)"
  have len: "length ?out \<le> nat n - 1" using decimal_length [of w] assms(2) by simp
  then have pr: "vsnprintf p n ''%d'' [w] m = Some (int (length ?out), m')"
    using vsnprintf_run [OF vprintfmt_decimal, of p n w m] assms by (simp add: m'_def)
  have l: "length ?out = length ?pre + length ?ds" by (simp add: decimal_def)
  have "?ds \<noteq> []" by (subst radix.simps) simp
  moreover have "\<forall>d \<in> set ?ds. d < 10" using radix_digits [of 10] by simp
  moreover have "\<forall>i < length ?pre. m' (p + i) = ?pre ! i"
    by (simp add: m'_def put_bytes_def decimal_def)
  moreover have "\<forall>i < length ?ds. m' (p + length ?pre + i) = word_of_int (digit_char (?ds ! i))"
    by (simp add: m'_def put_bytes_def decimal_def)
  moreover have "m' (p + length ?pre + length ?ds) = 0" by (simp add: m'_def l)
  ultimately have "strtol m' p 10 = Some (sint (if ?pre = [] then of_nat (nat \<bar>sint w\<bar>)
      else - of_nat (nat \<bar>sint w\<bar>) :: u32), p + length ?pre + length ?ds)"
    using strtol_run [of ?ds ?pre m' p] by (simp add: radix_value)
  moreover have "(if ?pre = [] then of_nat (nat \<bar>sint w\<bar>) else - of_nat (nat \<bar>sint w\<bar>)) = w"
    by (cases "sint w < 0") (simp_all add: of_nat_nat)
  ultimately have "strtol m' p 10 = Some (sint w, p + length ?out)"
    by (simp only: l add.assoc)
  with pr show ?thesis by blast
qed

theorem snprintf_strtol_roundtrip_witness:
  "\<exists>c m'. vsnprintf 4096 12 ''%d'' [0x80000000] (\<lambda>_. 7) = Some (int c, m')
    \<and> strtol m' 4096 10 = Some (-2147483648, 4096 + c)"
  using snprintf_strtol_roundtrip [of 4096 12 "0x80000000" "\<lambda>_. 7"] by (simp add: sint32)

text \<open>
  Property C39. \<open>vsnprintf\<close> writes at most \<open>n\<close> bytes: a prefix of the output of at most \<open>n - 1\<close>
  characters and a null after it. It leaves the rest of memory alone and returns the length
  of the whole output, whether or not it was cut.
\<close>

theorem vsnprintf_bounded:
  assumes "vprintfmt m fmt ap = Some out" "p \<noteq> 0" "n \<ge> 1"
  shows "\<exists>m'. vsnprintf p n fmt ap m = Some (int (length out), m')
    \<and> (\<forall>i < min (length out) (nat n - 1). m' (p + i) = word_of_int (out ! i))
    \<and> m' (p + min (length out) (nat n - 1)) = 0
    \<and> (\<forall>x. x < p \<or> p + nat n \<le> x \<longrightarrow> m' x = m x)"
  using assms(3) by (auto simp: vsnprintf_run [OF assms] put_bytes_def)

theorem vsnprintf_bounded_witness:
  "\<exists>m'. vsnprintf 4096 3 ''abcd'' [] (\<lambda>_. 7) = Some (4, m') \<and> m' 4098 = 0 \<and> m' 4099 = 7"
  using vsnprintf_bounded [of "\<lambda>_. 7" "''abcd''" "[]" "[97, 98, 99, 100]" 4096 3] by auto

text \<open>
  The flag for padding on the right does not pad a number on the right: \<open>%-8x\<close>
  and \<open>%-8d\<close> print hyphens before the digits, because \<open>printnum\<close> takes the flag for a padding
  character.
\<close>

theorem left_justified_number_pads_with_hyphens:
  "w < 10 ^ 7 \<Longrightarrow> vprintfmt m ''%-8u'' [of_nat w] =
     Some (replicate (8 - length (radix 10 w)) 45 @ map digit_char (radix 10 w))"
proof -
  assume w: "w < 10 ^ 7"
  then have "length (radix 10 w) \<le> 7" by (intro radix_length) auto
  moreover have "unat (ucast (of_nat w :: u32) :: 64 word) = w"
    using w by (simp add: unsigned_ucast_eq take_bit_nat_eq_self)
  ultimately show ?thesis
    by (simp add: is_digit_def fmt_spec0_def process_precision_def getuint_def va_uint_def number_def
        printnum_radix printed_def nat_diff_distrib')
qed

theorem left_justified_number_pads_with_hyphens_witness:
  "vprintfmt (\<lambda>_. 0) ''%-8u'' [5] = Some [45, 45, 45, 45, 45, 45, 45, 53]"
proof -
  have "radix 10 5 = [5]" by (subst radix.simps) simp
  moreover have "replicate 7 (45 :: int) = [45, 45, 45, 45, 45, 45, 45]" by code_simp
  moreover have "digit_char 5 = 53" by (simp add: digit_char_def hex_digits_def)
  ultimately show ?thesis
    using left_justified_number_pads_with_hyphens [of 5 "\<lambda>_. 0"] by simp
qed

section \<open>The user's buffer\<close>

definition printbuf_ok :: "printbuf \<Rightarrow> bool" where
  "printbuf_ok b \<longleftrightarrow> idx b < 255 \<and> length (pbuf b) = 256 \<and> (\<forall>c \<in> set (calls b). length c = 255)"

definition printbuf_out :: "printbuf \<Rightarrow> u8 list" where
  "printbuf_out b = concat (calls b) @ take (idx b) (pbuf b)"

lemma take_Suc_upd: "i < length xs \<Longrightarrow> take (Suc i) (xs[i := x]) = take i xs @ [x]"
  by (simp add: take_Suc_conv_app_nth)

lemma user_putch_step:
  "printbuf_ok b \<Longrightarrow> printbuf_ok (user_putch ch b)
     \<and> printbuf_out (user_putch ch b) = printbuf_out b @ [word_of_int ch] \<and> pcnt (user_putch ch b) = pcnt b + 1"
  using take_Suc_upd [of "idx b" "pbuf b" "word_of_int ch"]
  by (auto simp: printbuf_ok_def printbuf_out_def user_putch_def Let_def)

lemma user_putch_run:
  "printbuf_ok b \<Longrightarrow> printbuf_ok (fold user_putch out b)
     \<and> printbuf_out (fold user_putch out b) = printbuf_out b @ map word_of_int out
     \<and> pcnt (fold user_putch out b) = pcnt b + length out"
proof (induction out arbitrary: b)
  case (Cons ch out)
  then show ?case using user_putch_step [of b ch] by simp
qed simp

text \<open>
  The user's \<open>cprintf\<close> hands \<open>sys_cputs\<close> exactly the formatted output, in order and
  with nothing lost or repeated, in pieces of at most 255 characters, whatever the buffer on
  the stack held before; it returns the number of characters.
\<close>

theorem user_cprintf_complete:
  assumes "vprintfmt m fmt ap = Some out" "length garbage = 256"
  shows "\<exists>cs. user_vcprintf garbage m fmt ap = Some (length out, cs)
    \<and> concat cs = map word_of_int out \<and> (\<forall>c \<in> set cs. length c \<le> 255)"
proof -
  let ?b = "\<lparr>idx = 0, pcnt = 0, pbuf = garbage, calls = []\<rparr>"
  have "printbuf_ok ?b" using assms(2) by (simp add: printbuf_ok_def)
  from user_putch_run [OF this, of out] show ?thesis
    using assms(1) by (auto simp: user_vcprintf_def printbuf_ok_def printbuf_out_def Let_def)
qed

theorem user_cprintf_complete_witness:
  "\<exists>cs. user_vcprintf (replicate 256 0) (\<lambda>_. 0) ''hello %c'' [33] = Some (7, cs) \<and>
     concat cs = [104, 101, 108, 108, 111, 32, 33]"
proof -
  have "vprintfmt (\<lambda>_. 0) ''hello %c'' [33] = Some [104, 101, 108, 108, 111, 32, 33]"
    by (simp add: is_digit_def va_int_def sint32)
  from user_cprintf_complete [OF this, of "replicate 256 0"] show ?thesis by auto
qed

end
