(* ===== verification/Jos_Pipe.thy ===== *)
theory Jos_Pipe
  imports Jos_Queue "HOL-Library.Signed_Division"
begin

text \<open>
  The pipe of \<^verbatim>\<open>tps/lib/pipe.c\<close>: a circular buffer of 32 bytes in a page shared by a reader and
  a writer that run as separate environments and can be preempted between any two accesses to
  it. The sequential behaviour of the buffer is an instance of \<open>fifo\<close>; the concurrent one is a
  step relation in which one step is one access to the shared page. The positions are \<open>off_t\<close>, signed
  words of 32 bits: after \<open>2 ^ 31\<close> bytes they are negative, and so is their remainder, the index.
\<close>

section \<open>The buffer\<close>

definition PIPEBUFSIZ :: nat where
  "PIPEBUFSIZ = 32"

record pipe =
  p_rpos :: u32
  p_wpos :: u32
  p_buf :: "u8 list"

text \<open>
  The reader compares the positions; the writer adds \<open>sizeof(p->p_buf)\<close>, which is unsigned, and so
  compares unsigned words. The remainder of the signed position has its sign, as in C.
\<close>

definition pipe_empty :: "pipe \<Rightarrow> bool" where
  "pipe_empty p \<longleftrightarrow> p_rpos p = p_wpos p"

definition pipe_full :: "pipe \<Rightarrow> bool" where
  "pipe_full p \<longleftrightarrow> p_wpos p \<ge> p_rpos p + of_nat PIPEBUFSIZ"

definition pipe_index :: "u32 \<Rightarrow> int" where
  "pipe_index pos = sint pos smod int PIPEBUFSIZ"

text \<open>An index below 0 is outside the buffer: \<open>None\<close>.\<close>

definition pipe_byte :: "pipe \<Rightarrow> u8 option" where
  "pipe_byte p = (let i = pipe_index (p_rpos p) in if i < 0 then None else Some (p_buf p ! nat i))"

definition pipe_store :: "u8 \<Rightarrow> pipe \<Rightarrow> pipe option" where
  "pipe_store x p = (let i = pipe_index (p_wpos p) in
     if i < 0 then None else Some (p\<lparr>p_buf := (p_buf p)[nat i := x]\<rparr>))"

text \<open>
  The two loops, run until they return or have to wait: the bytes moved so far and the pipe.
  A reader that has some byte returns it instead of waiting; a writer waits with what it has
  left to write.
\<close>

fun devpipe_read :: "nat \<Rightarrow> pipe \<Rightarrow> (u8 list \<times> pipe) option" where
  "devpipe_read 0 p = Some ([], p)"
| "devpipe_read (Suc n) p =
    (if pipe_empty p then Some ([], p)
     else case pipe_byte p of None \<Rightarrow> None
       | Some x \<Rightarrow> (case devpipe_read n (p\<lparr>p_rpos := p_rpos p + 1\<rparr>) of None \<Rightarrow> None
           | Some (xs, p') \<Rightarrow> Some (x # xs, p')))"

fun devpipe_write :: "u8 list \<Rightarrow> pipe \<Rightarrow> (u8 list \<times> pipe) option" where
  "devpipe_write [] p = Some ([], p)"
| "devpipe_write (x # xs) p =
    (if pipe_full p then Some (x # xs, p)
     else case pipe_store x p of None \<Rightarrow> None
       | Some p' \<Rightarrow> devpipe_write xs (p'\<lparr>p_wpos := p_wpos p' + 1\<rparr>))"

definition devpipe_stat_size :: "pipe \<Rightarrow> u32" where
  "devpipe_stat_size p = p_wpos p - p_rpos p"

definition pipe_ok :: "pipe \<Rightarrow> bool" where
  "pipe_ok p \<longleftrightarrow> length (p_buf p) = PIPEBUFSIZ \<and> unat (p_rpos p) \<le> unat (p_wpos p)
     \<and> unat (p_wpos p) \<le> unat (p_rpos p) + PIPEBUFSIZ \<and> unat (p_wpos p) < 2 ^ 31"

definition pipe_contents :: "pipe \<Rightarrow> u8 list" where
  "pipe_contents p = ring PIPEBUFSIZ (p_buf p) (unat (p_rpos p)) (unat (p_wpos p) - unat (p_rpos p))"

lemma length_pipe_contents: "length (pipe_contents p) = unat (p_wpos p) - unat (p_rpos p)"
  by (simp add: pipe_contents_def)

lemma pipe_index_low: "unat w < 2 ^ 31 \<Longrightarrow> pipe_index w = int (unat w mod PIPEBUFSIZ)"
proof -
  assume w: "unat w < 2 ^ 31"
  then have "int (unat w) < int (2 ^ 31)" by (simp only: of_nat_less_iff)
  then have "uint w < 2 ^ 31" by simp
  moreover have "- (2 ^ 31) \<le> uint w" by (rule order_trans [OF _ uint_ge_0]) simp
  ultimately have "signed_take_bit 31 (uint w) = uint w" by (intro signed_take_bit_int_eq_self)
  then have "sint w = int (unat w)" by (simp add: sint_uint)
  then have "pipe_index w = int (unat w) smod int PIPEBUFSIZ" by (simp only: pipe_index_def)
  moreover have "int k smod int PIPEBUFSIZ = int (k mod PIPEBUFSIZ)" for k
    by (cases "k = 0") (simp_all add: signed_modulo_int_def zmod_int)
  ultimately show ?thesis by (simp only:)
qed

lemma pipe_byte_low:
  "pipe_ok p \<Longrightarrow> pipe_byte p = Some (p_buf p ! (unat (p_rpos p) mod PIPEBUFSIZ))"
  by (simp add: pipe_byte_def Let_def pipe_ok_def pipe_index_low)

lemma pipe_store_low:
  "pipe_ok p \<Longrightarrow> pipe_store x p = Some (p\<lparr>p_buf := (p_buf p)[unat (p_wpos p) mod PIPEBUFSIZ := x]\<rparr>)"
  by (simp add: pipe_store_def Let_def pipe_ok_def pipe_index_low)

lemma pipe_full_low: "pipe_ok p \<Longrightarrow> pipe_full p \<longleftrightarrow> unat (p_rpos p) + PIPEBUFSIZ \<le> unat (p_wpos p)"
  by (simp add: pipe_full_def pipe_ok_def PIPEBUFSIZ_def word_le_nat_alt unat_word_ariths)

lemma pipe_empty_low: "pipe_empty p \<longleftrightarrow> unat (p_rpos p) = unat (p_wpos p)"
  by (simp add: pipe_empty_def word_unat_eq_iff)

lemma pos_Suc: "unat w < 2 ^ 31 \<Longrightarrow> unat (w + 1 :: u32) = Suc (unat w)"
  by (simp add: unat_word_ariths)

lemma pipe_store_contents:
  assumes "pipe_ok p" "\<not> pipe_full p" "pipe_store x p = Some p'"
  shows "pipe_contents p' = pipe_contents p" "p_buf p' ! (unat (p_wpos p') mod PIPEBUFSIZ) = x"
    "p_wpos p' = p_wpos p" "p_rpos p' = p_rpos p" "pipe_ok p'"
proof -
  let ?r = "unat (p_rpos p)" and ?k = "unat (p_wpos p) - unat (p_rpos p)"
  have w: "unat (p_wpos p) = ?r + ?k" using assms(1) by (simp add: pipe_ok_def)
  have p': "p' = p\<lparr>p_buf := (p_buf p)[unat (p_wpos p) mod PIPEBUFSIZ := x]\<rparr>"
    using assms(1,3) by (simp add: pipe_store_low)
  have "ring PIPEBUFSIZ ((p_buf p)[(?r + ?k) mod PIPEBUFSIZ := x]) ?r (Suc ?k)
      = ring PIPEBUFSIZ (p_buf p) ?r ?k @ [x]"
    using assms(1,2) pipe_full_low [OF assms(1)] by (intro ring_put) (auto simp: pipe_ok_def)
  then show "pipe_contents p' = pipe_contents p" "p_buf p' ! (unat (p_wpos p') mod PIPEBUFSIZ) = x"
    unfolding pipe_contents_def p' w [symmetric] by (simp_all add: ring_def w [symmetric])
  show "p_wpos p' = p_wpos p" "p_rpos p' = p_rpos p" "pipe_ok p'" using assms(1) by (simp_all add: p' pipe_ok_def)
qed

lemma pipe_announce_contents:
  assumes "pipe_ok p" "\<not> pipe_full p" "unat (p_wpos p) + 1 < 2 ^ 31"
  shows "pipe_ok (p\<lparr>p_wpos := p_wpos p + 1\<rparr>)"
    "pipe_contents (p\<lparr>p_wpos := p_wpos p + 1\<rparr>) = pipe_contents p @ [p_buf p ! (unat (p_wpos p) mod PIPEBUFSIZ)]"
proof -
  have s: "unat (p_wpos p + 1) = Suc (unat (p_wpos p))" using assms(3) by (intro pos_Suc) simp
  show "pipe_ok (p\<lparr>p_wpos := p_wpos p + 1\<rparr>)"
    using assms pipe_full_low [OF assms(1)] by (simp add: pipe_ok_def s)
  show "pipe_contents (p\<lparr>p_wpos := p_wpos p + 1\<rparr>) = pipe_contents p @ [p_buf p ! (unat (p_wpos p) mod PIPEBUFSIZ)]"
    using assms(1) by (simp add: pipe_contents_def ring_def pipe_ok_def s Suc_diff_le)
qed

lemma pipe_take:
  assumes "pipe_ok p" "\<not> pipe_empty p"
  shows "pipe_contents p = p_buf p ! (unat (p_rpos p) mod PIPEBUFSIZ) # pipe_contents (p\<lparr>p_rpos := p_rpos p + 1\<rparr>)"
    "pipe_ok (p\<lparr>p_rpos := p_rpos p + 1\<rparr>)"
proof -
  have lt: "unat (p_rpos p) < unat (p_wpos p)" using assms by (simp add: pipe_ok_def pipe_empty_low)
  then have s: "unat (p_rpos p + 1) = Suc (unat (p_rpos p))" using assms(1) by (intro pos_Suc) (simp add: pipe_ok_def)
  show "pipe_contents p = p_buf p ! (unat (p_rpos p) mod PIPEBUFSIZ) # pipe_contents (p\<lparr>p_rpos := p_rpos p + 1\<rparr>)"
    using lt by (simp add: pipe_contents_def s ring_get)
  show "pipe_ok (p\<lparr>p_rpos := p_rpos p + 1\<rparr>)" using assms(1) lt by (simp add: pipe_ok_def s)
qed

text \<open>
  One round of the writer's loop and of the reader's, run without interruption, make the buffer a
  queue; what it still takes is bounded by the free bytes and by what the position can count.
\<close>

definition pipe_put :: "u8 \<Rightarrow> pipe \<Rightarrow> pipe" where
  "pipe_put x p = (case devpipe_write [x] p of Some ([], p') \<Rightarrow> p' | _ \<Rightarrow> p)"

definition pipe_get :: "pipe \<Rightarrow> (u8 \<times> pipe) option" where
  "pipe_get p = (case devpipe_read 1 p of Some ([x], p') \<Rightarrow> Some (x, p') | _ \<Rightarrow> None)"

definition pipe_room :: "pipe \<Rightarrow> nat" where
  "pipe_room p = min (PIPEBUFSIZ - length (pipe_contents p)) (2 ^ 31 - 1 - unat (p_wpos p))"

lemma pipe_put_low:
  assumes "pipe_ok p" "0 < pipe_room p"
  shows "\<not> pipe_full p" "pipe_ok (pipe_put x p)" "pipe_contents (pipe_put x p) = pipe_contents p @ [x]"
    "unat (p_wpos (pipe_put x p)) = Suc (unat (p_wpos p))" "devpipe_write (x # xs) p = devpipe_write xs (pipe_put x p)"
proof -
  show nf: "\<not> pipe_full p"
    using assms by (auto simp: pipe_full_low pipe_room_def length_pipe_contents pipe_ok_def)
  obtain q where q: "pipe_store x p = Some q" using assms(1) by (simp add: pipe_store_low)
  note S = pipe_store_contents [OF assms(1) nf q]
  have put: "pipe_put x p = q\<lparr>p_wpos := p_wpos q + 1\<rparr>" using nf q by (simp add: pipe_put_def)
  have w: "unat (p_wpos q) + 1 < 2 ^ 31" using assms(2) S(3) by (simp add: pipe_room_def)
  have "\<not> pipe_full q" using nf S(3,4) by (simp add: pipe_full_def)
  from pipe_announce_contents [OF S(5) this w] S(1,2)
  show "pipe_ok (pipe_put x p)" "pipe_contents (pipe_put x p) = pipe_contents p @ [x]" by (simp_all add: put)
  show "unat (p_wpos (pipe_put x p)) = Suc (unat (p_wpos p))" using w S(3) pos_Suc [of "p_wpos q"] by (simp add: put)
  show "devpipe_write (x # xs) p = devpipe_write xs (pipe_put x p)" using nf q by (simp add: put)
qed

lemma pipe_get_low: "pipe_ok p \<Longrightarrow> pipe_get p =
    (if pipe_empty p then None else Some (p_buf p ! (unat (p_rpos p) mod PIPEBUFSIZ), p\<lparr>p_rpos := p_rpos p + 1\<rparr>))"
  by (simp add: pipe_get_def pipe_byte_low)

interpretation pipeq: fifo pipe_ok pipe_contents pipe_put pipe_get pipe_room
proof
  fix p x p'
  assume p: "pipe_ok p"
  {
    assume "0 < pipe_room p"
    note put = pipe_put_low [OF p this]
    show "pipe_ok (pipe_put x p)" "pipe_contents (pipe_put x p) = pipe_contents p @ [x]"
      using put by simp_all
    show "pipe_room p \<le> Suc (pipe_room (pipe_put x p))"
      using put(3,4) by (auto simp: pipe_room_def min_def)
  next
    show "pipe_get p = None \<longleftrightarrow> pipe_contents p = []"
      using p by (auto simp: pipe_get_low pipe_empty_low pipe_contents_def ring_def pipe_ok_def)
  next
    assume "pipe_get p = Some (x, p')"
    then show "pipe_contents p = x # pipe_contents p' \<and> pipe_ok p'"
      using pipe_take [OF p] by (auto simp: pipe_get_low [OF p] split: if_splits)
  }
qed

lemma devpipe_read_get_n: "pipe_ok p \<Longrightarrow> devpipe_read n p = Some (pipeq.get_n n p)"
proof (induction n arbitrary: p)
  case (Suc n)
  show ?case
  proof (cases "pipe_empty p")
    case True
    with Suc.prems show ?thesis by (simp add: pipe_get_low)
  next
    case False
    with Suc.IH [OF pipe_take(2) [OF Suc.prems False]] Suc.prems show ?thesis
      by (simp add: pipe_get_low pipe_byte_low case_prod_beta)
  qed
qed simp

lemma devpipe_write_put_all: "pipe_ok p \<Longrightarrow> length xs \<le> pipe_room p \<Longrightarrow> devpipe_write xs p = Some ([], pipeq.put_all xs p)"
proof (induction xs arbitrary: p)
  case (Cons x xs)
  then have room: "0 < pipe_room p" by simp
  note put = pipe_put_low [OF Cons.prems(1) room]
  have "length xs \<le> pipe_room (pipe_put x p)" using pipeq.room_put [OF Cons.prems(1) room, of x] Cons.prems(2) by simp
  from Cons.IH [OF put(2) [of x] this] put(5) [of x xs] show ?case by simp
qed simp

section \<open>Readers and writers that interleave\<close>

text \<open>
  Where each side is in its loop. The reader: between calls, at the test of the inner loop with
  \<open>i\<close> bytes of \<open>n\<close> read, having found the pipe empty, having copied the byte out but not yet
  moved \<open>p_rpos\<close>. The writer: the same with the data it was given, \<open>WStored\<close> when the byte is
  in the buffer but \<open>p_wpos\<close> has not moved. \<open>out_of_bounds\<close> records an access outside the buffer.
\<close>

datatype reader = RIdle | RLoop nat nat | REmpty nat | RTook nat nat
datatype writer = WIdle | WLoop nat "u8 list" | WFull nat "u8 list" | WStored nat "u8 list"

record pipe_sys =
  the_pipe :: pipe
  rstate :: reader
  wstate :: writer
  readers_open :: bool
  writers_open :: bool
  got :: "u8 list"
  sent :: "u8 list"
  saw_eof :: bool
  out_of_bounds :: bool

inductive pipe_step :: "pipe_sys \<Rightarrow> pipe_sys \<Rightarrow> bool" where
  read_call: "rstate s = RIdle \<Longrightarrow> readers_open s \<Longrightarrow> pipe_step s (s\<lparr>rstate := RLoop 0 n\<rparr>)"
| read_done: "rstate s = RLoop i n \<Longrightarrow> \<not> i < n \<Longrightarrow> pipe_step s (s\<lparr>rstate := RIdle\<rparr>)"
| read_short: "rstate s = RLoop i n \<Longrightarrow> i < n \<Longrightarrow> pipe_empty (the_pipe s) \<Longrightarrow> i > 0 \<Longrightarrow>
    pipe_step s (s\<lparr>rstate := RIdle\<rparr>)"
| read_empty: "rstate s = RLoop i n \<Longrightarrow> i < n \<Longrightarrow> pipe_empty (the_pipe s) \<Longrightarrow> i = 0 \<Longrightarrow>
    pipe_step s (s\<lparr>rstate := REmpty n\<rparr>)"
| read_eof: "rstate s = REmpty n \<Longrightarrow> \<not> writers_open s \<Longrightarrow>
    pipe_step s (s\<lparr>rstate := RIdle, saw_eof := True\<rparr>)"
| read_yield: "rstate s = REmpty n \<Longrightarrow> writers_open s \<Longrightarrow> pipe_step s (s\<lparr>rstate := RLoop 0 n\<rparr>)"
| read_take: "rstate s = RLoop i n \<Longrightarrow> i < n \<Longrightarrow> \<not> pipe_empty (the_pipe s) \<Longrightarrow> pipe_byte (the_pipe s) = Some x \<Longrightarrow>
    pipe_step s (s\<lparr>rstate := RTook i n, got := got s @ [x]\<rparr>)"
| read_outside: "rstate s = RLoop i n \<Longrightarrow> i < n \<Longrightarrow> \<not> pipe_empty (the_pipe s) \<Longrightarrow> pipe_byte (the_pipe s) = None \<Longrightarrow>
    pipe_step s (s\<lparr>out_of_bounds := True\<rparr>)"
| read_next: "rstate s = RTook i n \<Longrightarrow>
    pipe_step s (s\<lparr>rstate := RLoop (i + 1) n, the_pipe := (the_pipe s)\<lparr>p_rpos := p_rpos (the_pipe s) + 1\<rparr>\<rparr>)"
| write_call: "wstate s = WIdle \<Longrightarrow> writers_open s \<Longrightarrow> pipe_step s (s\<lparr>wstate := WLoop 0 data\<rparr>)"
| write_done: "wstate s = WLoop i data \<Longrightarrow> \<not> i < length data \<Longrightarrow> pipe_step s (s\<lparr>wstate := WIdle\<rparr>)"
| write_full: "wstate s = WLoop i data \<Longrightarrow> i < length data \<Longrightarrow> pipe_full (the_pipe s) \<Longrightarrow>
    pipe_step s (s\<lparr>wstate := WFull i data\<rparr>)"
| write_broken: "wstate s = WFull i data \<Longrightarrow> \<not> readers_open s \<Longrightarrow> pipe_step s (s\<lparr>wstate := WIdle\<rparr>)"
| write_yield: "wstate s = WFull i data \<Longrightarrow> readers_open s \<Longrightarrow> pipe_step s (s\<lparr>wstate := WLoop i data\<rparr>)"
| write_store: "wstate s = WLoop i data \<Longrightarrow> i < length data \<Longrightarrow> \<not> pipe_full (the_pipe s) \<Longrightarrow>
    pipe_store (data ! i) (the_pipe s) = Some p \<Longrightarrow> pipe_step s (s\<lparr>wstate := WStored i data, the_pipe := p\<rparr>)"
| write_outside: "wstate s = WLoop i data \<Longrightarrow> i < length data \<Longrightarrow> \<not> pipe_full (the_pipe s) \<Longrightarrow>
    pipe_store (data ! i) (the_pipe s) = None \<Longrightarrow> pipe_step s (s\<lparr>out_of_bounds := True\<rparr>)"
| write_next: "wstate s = WStored i data \<Longrightarrow>
    pipe_step s (s\<lparr>wstate := WLoop (i + 1) data, sent := sent s @ [data ! i],
      the_pipe := (the_pipe s)\<lparr>p_wpos := p_wpos (the_pipe s) + 1\<rparr>\<rparr>)"
| close_read: "rstate s = RIdle \<Longrightarrow> pipe_step s (s\<lparr>readers_open := False\<rparr>)"
| close_write: "wstate s = WIdle \<Longrightarrow> pipe_step s (s\<lparr>writers_open := False\<rparr>)"

definition fresh_pipe :: "pipe_sys" where
  "fresh_pipe = \<lparr>the_pipe = \<lparr>p_rpos = 0, p_wpos = 0, p_buf = replicate PIPEBUFSIZ 0\<rparr>, rstate = RIdle,
     wstate = WIdle, readers_open = True, writers_open = True, got = [], sent = [], saw_eof = False,
     out_of_bounds = False\<rparr>"

inductive pipe_reachable :: "pipe_sys \<Rightarrow> bool" where
  start: "pipe_reachable fresh_pipe"
| step: "pipe_reachable s \<Longrightarrow> pipe_step s s' \<Longrightarrow> pipe_reachable s'"

text \<open>
  The invariant: what has been sent is what has been received and what is in the buffer, where
  a byte the reader has copied but not yet released counts as received and is still in the
  buffer, and a byte the writer has stored but not yet announced is beyond the contents; \<open>p_wpos\<close>
  counts the bytes sent.
\<close>

definition in_flight :: "reader \<Rightarrow> nat" where
  "in_flight r = (case r of RTook i n \<Rightarrow> 1 | _ \<Rightarrow> 0)"

definition stored_ok :: "pipe \<Rightarrow> writer \<Rightarrow> bool" where
  "stored_ok p w = (case w of
     WStored i data \<Rightarrow> i < length data \<and> \<not> pipe_full p \<and> p_buf p ! (unat (p_wpos p) mod PIPEBUFSIZ) = data ! i
   | _ \<Rightarrow> True)"

definition pipe_inv :: "pipe_sys \<Rightarrow> bool" where
  "pipe_inv s \<longleftrightarrow> pipe_ok (the_pipe s) \<and> stored_ok (the_pipe s) (wstate s)
     \<and> in_flight (rstate s) \<le> length (pipe_contents (the_pipe s))
     \<and> sent s = got s @ drop (in_flight (rstate s)) (pipe_contents (the_pipe s))
     \<and> (in_flight (rstate s) = 1 \<longrightarrow> got s \<noteq> [])
     \<and> unat (p_wpos (the_pipe s)) = length (sent s) \<and> \<not> out_of_bounds s"

lemma pipe_inv_fresh: "pipe_inv fresh_pipe"
  by (simp add: pipe_inv_def fresh_pipe_def pipe_ok_def stored_ok_def pipe_contents_def ring_def in_flight_def
      PIPEBUFSIZ_def)

lemma pipe_inv_take:
  assumes "pipe_inv s" "rstate s = RLoop i n" "\<not> pipe_empty (the_pipe s)" "pipe_byte (the_pipe s) = Some x"
  shows "pipe_inv (s\<lparr>rstate := RTook i n, got := got s @ [x]\<rparr>)"
  using assms pipe_take [of "the_pipe s"] pipe_byte_low [of "the_pipe s"]
  by (auto simp: pipe_inv_def in_flight_def stored_ok_def)

lemma pipe_inv_release:
  assumes "pipe_inv s" "rstate s = RTook i n"
  shows "pipe_inv (s\<lparr>rstate := RLoop j n, the_pipe := (the_pipe s)\<lparr>p_rpos := p_rpos (the_pipe s) + 1\<rparr>\<rparr>)"
proof -
  let ?p = "the_pipe s"
  have ok: "pipe_ok ?p" and "1 \<le> length (pipe_contents ?p)"
    using assms by (simp_all add: pipe_inv_def in_flight_def)
  then have ne: "\<not> pipe_empty ?p" by (simp add: pipe_empty_low length_pipe_contents)
  note t = pipe_take [OF ok ne]
  have "\<not> pipe_full (?p\<lparr>p_rpos := p_rpos ?p + 1\<rparr>)" if "\<not> pipe_full ?p"
    using that t(2) ok ne pos_Suc [of "p_rpos ?p"]
    by (auto simp: pipe_full_low pipe_ok_def pipe_empty_low)
  with assms t show ?thesis
    by (auto simp: pipe_inv_def in_flight_def stored_ok_def split: writer.splits)
qed

lemma pipe_inv_store:
  assumes "pipe_inv s" "wstate s = WLoop i data" "i < length data" "\<not> pipe_full (the_pipe s)"
    and "pipe_store (data ! i) (the_pipe s) = Some p"
  shows "pipe_inv (s\<lparr>wstate := WStored i data, the_pipe := p\<rparr>)"
proof -
  have ok: "pipe_ok (the_pipe s)" using assms(1) by (simp add: pipe_inv_def)
  note S = pipe_store_contents [OF ok assms(4,5)]
  have "\<not> pipe_full p" using assms(4) S(3,4) by (simp add: pipe_full_def)
  with assms(1,3) S show ?thesis by (simp add: pipe_inv_def stored_ok_def)
qed

lemma pipe_inv_announce:
  assumes "pipe_inv s" "wstate s = WStored i data" "length (sent s) + 1 < 2 ^ 31"
  shows "pipe_inv (s\<lparr>wstate := WLoop j data, sent := sent s @ [data ! i],
      the_pipe := (the_pipe s)\<lparr>p_wpos := p_wpos (the_pipe s) + 1\<rparr>\<rparr>)"
proof -
  let ?p = "the_pipe s"
  have ok: "pipe_ok ?p" and st: "\<not> pipe_full ?p" "p_buf ?p ! (unat (p_wpos ?p) mod PIPEBUFSIZ) = data ! i"
    and w: "unat (p_wpos ?p) + 1 < 2 ^ 31"
    using assms by (auto simp: pipe_inv_def stored_ok_def)
  note A = pipe_announce_contents [OF ok st(1) w]
  have "unat (p_wpos ?p + 1) = Suc (unat (p_wpos ?p))" using w by (intro pos_Suc) simp
  with A assms(1) st(2) show ?thesis by (auto simp: pipe_inv_def stored_ok_def)
qed

lemma pipe_inv_step: "pipe_step s s' \<Longrightarrow> pipe_inv s \<Longrightarrow> length (sent s') < 2 ^ 31 \<Longrightarrow> pipe_inv s'"
proof (induction rule: pipe_step.induct)
  case (read_take s i n)
  then show ?case by (intro pipe_inv_take)
next
  case (read_outside s i n)
  then show ?case using pipe_byte_low [of "the_pipe s"] by (simp add: pipe_inv_def)
next
  case (read_next s i n)
  then show ?case by (intro pipe_inv_release)
next
  case (write_store s i data)
  then show ?case by (intro pipe_inv_store)
next
  case (write_outside s i data)
  then show ?case using pipe_store_low [of "the_pipe s"] by (simp add: pipe_inv_def)
next
  case (write_next s i data)
  then show ?case by (intro pipe_inv_announce) simp_all
qed (auto simp: pipe_inv_def in_flight_def stored_ok_def)

lemma sent_grows: "pipe_step s s' \<Longrightarrow> length (sent s) \<le> length (sent s')"
  by (induction rule: pipe_step.induct) auto

lemma pipe_inv_reachable: "pipe_reachable s \<Longrightarrow> length (sent s) < 2 ^ 31 \<Longrightarrow> pipe_inv s"
proof (induction rule: pipe_reachable.induct)
  case (step s s')
  then show ?case using sent_grows [of s s'] pipe_inv_step [of s s'] by simp
qed (rule pipe_inv_fresh)

section \<open>Who still has the pipe open\<close>

text \<open>
  The reference counts \<open>_pipeisclosed\<close> compares: of the page of each descriptor and of the page
  of the pipe itself, which every open descriptor, of either end, maps once. \<open>dup\<close> and
  \<open>devpipe_close\<close> change two mappings each, one at a time; \<open>mid\<close> counts the calls between the
  two. Both have the data page mapped in between: \<open>dup\<close> maps it first, \<open>devpipe_close\<close> unmaps
  it last. (A half-done call of one kind may finish as the other here: the relation allows more
  than the code does.)
\<close>

record pipe_refs =
  ref_rd :: nat
  ref_wr :: nat
  ref_pipe :: nat
  mid :: nat

inductive ref_step :: "pipe_refs \<Rightarrow> pipe_refs \<Rightarrow> bool" where
  dup_data: "0 < ref_rd s + ref_wr s \<Longrightarrow> ref_step s (s\<lparr>ref_pipe := ref_pipe s + 1, mid := mid s + 1\<rparr>)"
| dup_rd: "0 < mid s \<Longrightarrow> 0 < ref_rd s \<Longrightarrow> ref_step s (s\<lparr>ref_rd := ref_rd s + 1, mid := mid s - 1\<rparr>)"
| dup_wr: "0 < mid s \<Longrightarrow> 0 < ref_wr s \<Longrightarrow> ref_step s (s\<lparr>ref_wr := ref_wr s + 1, mid := mid s - 1\<rparr>)"
| close_rd: "0 < ref_rd s \<Longrightarrow> ref_step s (s\<lparr>ref_rd := ref_rd s - 1, mid := mid s + 1\<rparr>)"
| close_wr: "0 < ref_wr s \<Longrightarrow> ref_step s (s\<lparr>ref_wr := ref_wr s - 1, mid := mid s + 1\<rparr>)"
| close_data: "0 < mid s \<Longrightarrow> ref_step s (s\<lparr>ref_pipe := ref_pipe s - 1, mid := mid s - 1\<rparr>)"

inductive ref_reachable :: "pipe_refs \<Rightarrow> bool" where
  created: "ref_reachable \<lparr>ref_rd = 1, ref_wr = 1, ref_pipe = 2, mid = 0\<rparr>"
| changed: "ref_reachable s \<Longrightarrow> ref_step s s' \<Longrightarrow> ref_reachable s'"

text \<open>
  \<open>_pipeisclosed\<close>: each sample is \<open>env_runs\<close> before, the two counts, \<open>env_runs\<close> after. It
  returns on the first during which the environment was not descheduled, so that both counts
  belong to one state.
\<close>

fun pipeisclosed :: "(nat \<times> nat \<times> nat \<times> nat) list \<Rightarrow> bool option" where
  "pipeisclosed [] = None"
| "pipeisclosed ((n, fdref, piperef, nn) # later) =
    (if n = nn then Some (fdref = piperef) else pipeisclosed later)"

lemma ref_inv: "ref_reachable s \<Longrightarrow> ref_pipe s = ref_rd s + ref_wr s + mid s"
proof (induction rule: ref_reachable.induct)
  case (changed s s')
  from changed(2) changed(3) show ?case by (cases rule: ref_step.cases) auto
qed simp

section \<open>Properties\<close>

text \<open>
  Property C17. However a reader and a writer interleave, and as long as less than \<open>2 ^ 31\<close> bytes have
  been sent through the pipe, the reader receives the bytes the writer sent, in order, none lost,
  repeated or invented, never more than the 32 bytes of the buffer are under way, and no access
  leaves the buffer.
\<close>

theorem pipe_lossless:
  assumes "pipe_reachable s" and "length (sent s) < 2 ^ 31"
  shows "\<exists>rest. sent s = got s @ rest \<and> length rest \<le> PIPEBUFSIZ \<and> \<not> out_of_bounds s"
proof -
  let ?rest = "drop (in_flight (rstate s)) (pipe_contents (the_pipe s))"
  have inv: "pipe_inv s" using assms by (rule pipe_inv_reachable)
  then have "pipe_ok (the_pipe s)" unfolding pipe_inv_def by blast
  then have "length (pipe_contents (the_pipe s)) \<le> PIPEBUFSIZ"
    unfolding pipe_ok_def length_pipe_contents by linarith
  then have "length ?rest \<le> PIPEBUFSIZ" by simp
  moreover have "sent s = got s @ ?rest" "\<not> out_of_bounds s" using inv unfolding pipe_inv_def by blast+
  ultimately show ?thesis by blast
qed

text \<open>After \<open>2 ^ 31\<close> bytes, a reader that starts anywhere in the buffer but at its first byte leaves it.\<close>

lemma pipe_overflow: "pipe_byte \<lparr>p_rpos = 0x80000001, p_wpos = 0x80000002, p_buf = b\<rparr> = None"
proof -
  have "sint (0x80000001 :: u32) = - 0x7fffffff" by simp
  then have "pipe_index 0x80000001 < 0" by (simp add: pipe_index_def PIPEBUFSIZ_def signed_modulo_int_def)
  then show ?thesis by (simp add: pipe_byte_def)
qed

lemma pipe_reachable_trace: "pipe_step\<^sup>*\<^sup>* s s' \<Longrightarrow> pipe_reachable s \<Longrightarrow> pipe_reachable s'"
  by (induction rule: rtranclp_induct) (auto intro: pipe_reachable.step)

text \<open>
  The trace of a reader that finds the pipe empty and is preempted there, while the writer
  writes one byte and closes its end.
\<close>

lemma eof_race_trace:
  "pipe_step\<^sup>*\<^sup>* fresh_pipe (fresh_pipe\<lparr>saw_eof := True, sent := [7], writers_open := False,
     the_pipe := \<lparr>p_rpos = 0, p_wpos = 1, p_buf = (replicate PIPEBUFSIZ 0)[0 := 7]\<rparr>\<rparr>)"
proof -
  let ?p = "\<lparr>p_rpos = 0, p_wpos = 0, p_buf = (replicate PIPEBUFSIZ 0)[0 := 7]\<rparr>"
  let ?q = "\<lparr>p_rpos = 0, p_wpos = 1, p_buf = (replicate PIPEBUFSIZ 0)[0 := 7]\<rparr>"
  let ?s1 = "fresh_pipe\<lparr>rstate := RLoop 0 1\<rparr>"
  let ?s2 = "fresh_pipe\<lparr>rstate := REmpty 1\<rparr>"
  let ?s3 = "?s2\<lparr>wstate := WLoop 0 [7]\<rparr>"
  let ?s4 = "?s2\<lparr>wstate := WStored 0 [7], the_pipe := ?p\<rparr>"
  let ?s5 = "?s2\<lparr>wstate := WLoop 1 [7], the_pipe := ?q, sent := [7]\<rparr>"
  let ?s6 = "?s2\<lparr>wstate := WIdle, the_pipe := ?q, sent := [7]\<rparr>"
  let ?s7 = "?s6\<lparr>writers_open := False\<rparr>"
  have "pipe_step fresh_pipe ?s1"
    using pipe_step.read_call [of fresh_pipe 1] by (simp add: fresh_pipe_def)
  moreover have "pipe_step ?s1 ?s2"
    using pipe_step.read_empty [of ?s1 0 1] by (simp add: fresh_pipe_def pipe_empty_def)
  moreover have "pipe_step ?s2 ?s3"
    using pipe_step.write_call [of ?s2 "[7]"] by (simp add: fresh_pipe_def)
  moreover have "pipe_step ?s3 ?s4"
    using pipe_step.write_store [of ?s3 0 "[7]" ?p]
    by (simp add: fresh_pipe_def pipe_full_def pipe_store_def pipe_index_def PIPEBUFSIZ_def)
  moreover have "pipe_step ?s4 ?s5"
    using pipe_step.write_next [of ?s4 0 "[7]"] by (simp add: fresh_pipe_def)
  moreover have "pipe_step ?s5 ?s6"
    using pipe_step.write_done [of ?s5 1 "[7]"] by (simp add: fresh_pipe_def)
  moreover have "pipe_step ?s6 ?s7"
    using pipe_step.close_write [of ?s6] by (simp add: fresh_pipe_def)
  moreover have "pipe_step ?s7 (?s7\<lparr>rstate := RIdle, saw_eof := True\<rparr>)"
    using pipe_step.read_eof [of ?s7 1] by (simp add: fresh_pipe_def)
  ultimately have "pipe_step\<^sup>*\<^sup>* fresh_pipe (?s7\<lparr>rstate := RIdle, saw_eof := True\<rparr>)"
    by (meson converse_rtranclp_into_rtranclp rtranclp.rtrancl_refl)
  then show ?thesis by (simp add: fresh_pipe_def)
qed

theorem pipe_lossless_witness:
  "\<exists>s rest. pipe_reachable s \<and> sent s = [7] \<and> sent s = got s @ rest \<and> length rest \<le> 32"
proof -
  have r: "pipe_reachable (fresh_pipe\<lparr>saw_eof := True, sent := [7], writers_open := False,
     the_pipe := \<lparr>p_rpos = 0, p_wpos = 1, p_buf = (replicate PIPEBUFSIZ 0)[0 := 7]\<rparr>\<rparr>)" (is "pipe_reachable ?s")
    by (rule pipe_reachable_trace [OF eof_race_trace pipe_reachable.start])
  obtain rest where "sent ?s = got ?s @ rest" "length rest \<le> PIPEBUFSIZ"
    using pipe_lossless [OF r] by auto
  with r show ?thesis by (intro exI [of _ ?s] exI [of _ rest]) (simp add: PIPEBUFSIZ_def)
qed

text \<open>
  A reader can be told that the file has ended while a byte it never received is
  in the pipe: it tests the pipe before it tests whether the writers are gone, and the last
  writer may write and close in between.
\<close>

theorem pipe_eof_race:
  "\<exists>s. pipe_reachable s \<and> saw_eof s \<and> \<not> writers_open s \<and> got s = [] \<and> pipe_contents (the_pipe s) = [7]"
  using pipe_reachable_trace [OF eof_race_trace pipe_reachable.start]
  by (intro exI conjI, assumption) (simp_all add: fresh_pipe_def pipe_contents_def ring_def PIPEBUFSIZ_def)

text \<open>
  While a descriptor of the writing end is open, or a \<open>dup\<close> or a close of any
  descriptor of the pipe is half done, a reader's \<open>_pipeisclosed\<close> does not report that the pipe
  is closed: its test compares equal only when no writer is left.
\<close>

theorem pipeisclosed_sound:
  assumes "ref_reachable s" "pipeisclosed (before @ [(n, ref_rd s, ref_pipe s, n)]) = Some True"
    "\<forall>(m, _, _, m') \<in> set before. m \<noteq> m'"
  shows "ref_wr s = 0 \<and> mid s = 0"
proof -
  have "pipeisclosed (before @ [(n, ref_rd s, ref_pipe s, n)]) = Some (ref_rd s = ref_pipe s)"
    using assms(3) by (induction before rule: pipeisclosed.induct) auto
  with assms(2) ref_inv [OF assms(1)] show ?thesis by simp
qed

theorem pipeisclosed_sound_witness:
  "ref_reachable \<lparr>ref_rd = 1, ref_wr = 0, ref_pipe = 1, mid = 0\<rparr>
    \<and> ref_wr \<lparr>ref_rd = 1, ref_wr = 0, ref_pipe = 1, mid = 0\<rparr> = 0"
proof -
  let ?s = "\<lparr>ref_rd = 1, ref_wr = 1, ref_pipe = 2, mid = 0\<rparr>"
  let ?t = "\<lparr>ref_rd = 1, ref_wr = 0, ref_pipe = 1, mid = 0\<rparr>"
  have "ref_step ?s \<lparr>ref_rd = 1, ref_wr = 0, ref_pipe = 2, mid = 1\<rparr>"
    using ref_step.close_wr [of ?s] by simp
  moreover have "ref_step \<lparr>ref_rd = 1, ref_wr = 0, ref_pipe = 2, mid = 1\<rparr> ?t"
    using ref_step.close_data [of "\<lparr>ref_rd = 1, ref_wr = 0, ref_pipe = 2, mid = 1\<rparr>"] by simp
  ultimately have r: "ref_reachable ?t" using ref_reachable.created by (meson ref_reachable.changed)
  have "pipeisclosed ([(3, 2, 3, 4)] @ [(5, ref_rd ?t, ref_pipe ?t, 5)]) = Some True" by simp
  from pipeisclosed_sound [OF r this] r show ?thesis by simp
qed

text \<open>
  Run one after the other, a \<open>write\<close> of at most 32 bytes into an empty pipe and a
  \<open>read\<close> of as many do not wait, and the reader gets what was written.
\<close>

theorem pipe_write_read_roundtrip:
  assumes "pipe_ok p" "pipe_contents p = []" "length xs \<le> PIPEBUFSIZ" "unat (p_wpos p) + length xs < 2 ^ 31"
  shows "\<exists>p' p''. devpipe_write xs p = Some ([], p') \<and> unat (devpipe_stat_size p') = length xs
    \<and> devpipe_read (length xs) p' = Some (xs, p'') \<and> pipe_contents p'' = []"
proof -
  have room: "length xs \<le> pipe_room p" using assms by (simp add: pipe_room_def)
  note put = pipeq.put_all_contents [OF assms(1) room] and get = pipeq.put_all_get_n [OF assms(1,2) room]
  let ?p = "pipeq.put_all xs p"
  have "unat (devpipe_stat_size ?p) = length (pipe_contents ?p)"
    using conjunct1 [OF put] by (simp add: devpipe_stat_size_def length_pipe_contents pipe_ok_def unat_sub word_le_nat_alt)
  then have "unat (devpipe_stat_size ?p) = length xs" using put assms(2) by simp
  then show ?thesis
    using devpipe_write_put_all [OF assms(1) room] devpipe_read_get_n [of ?p] put get by (auto simp: prod_eq_iff)
qed

theorem pipe_write_read_roundtrip_witness:
  "\<exists>p' p''. devpipe_write [1, 2, 3] \<lparr>p_rpos = 30, p_wpos = 30, p_buf = replicate 32 0\<rparr> = Some ([], p')
    \<and> devpipe_read (Suc (Suc (Suc 0))) p' = Some ([1, 2, 3], p'')"
proof -
  let ?p = "\<lparr>p_rpos = 30, p_wpos = 30, p_buf = replicate 32 0\<rparr>"
  have "pipe_ok ?p" "pipe_contents ?p = []"
    by (simp_all add: pipe_ok_def pipe_contents_def ring_def PIPEBUFSIZ_def)
  from pipe_write_read_roundtrip [OF this, of "[1, 2, 3]"] show ?thesis
    by (auto simp: PIPEBUFSIZ_def simp del: devpipe_write.simps devpipe_read.simps)
qed

end
