(* ===== verification/Jos_Spinlock.thy ===== *)
theory Jos_Spinlock
  imports Jos_Machine
begin

text \<open>
  The spin lock of \<^verbatim>\<open>tps/kern/spinlock.c\<close>, compiled with \<open>DEBUG_SPINLOCK\<close>: several processors
  run \<open>spin_lock\<close> and \<open>spin_unlock\<close> on one lock, and each step is one access to it. (The rest
  of the development runs one processor at a time and keeps the lock as the \<open>kernel_lock\<close> field
  of the kernel state; this theory is why that is enough.)
\<close>

section \<open>The lock\<close>

record spinlock =
  locked :: u32
  holder :: "nat option"
  pcs :: "u32 list"

definition spin_initlock :: spinlock where
  "spin_initlock = \<lparr>locked = 0, holder = None, pcs = replicate 10 0\<rparr>"

definition holding :: "nat \<Rightarrow> spinlock \<Rightarrow> bool" where
  "holding c lk \<longleftrightarrow> locked lk \<noteq> 0 \<and> holder lk = Some c"

text \<open>The atomic exchange: the value the lock had, and the lock with the new one.\<close>

definition xchg :: "spinlock \<Rightarrow> u32 \<Rightarrow> u32 \<times> spinlock" where
  "xchg lk v = (locked lk, lk\<lparr>locked := v\<rparr>)"

text \<open>
  \<open>get_caller_pcs\<close>: at most ten return addresses along the chain of frame pointers, which ends
  at a null pointer or one below \<open>ULIM\<close>; the rest of the array is zero.
\<close>

fun walk_frames :: "(u32 \<Rightarrow> u32) \<Rightarrow> u32 \<Rightarrow> nat \<Rightarrow> u32 list" where
  "walk_frames mem ebp 0 = []"
| "walk_frames mem ebp (Suc k) =
    (if ebp = 0 \<or> ebp < ULIM then [] else mem (ebp + 4) # walk_frames mem (mem ebp) k)"

definition get_caller_pcs :: "(u32 \<Rightarrow> u32) \<Rightarrow> u32 \<Rightarrow> u32 list" where
  "get_caller_pcs mem ebp =
    (let ps = walk_frames mem ebp 10 in ps @ replicate (10 - length ps) 0)"

lemma length_walk_frames: "length (walk_frames mem ebp k) \<le> k"
  by (induction mem ebp k rule: walk_frames.induct) auto

lemma length_get_caller_pcs: "length (get_caller_pcs mem ebp) = 10"
  using length_walk_frames [of mem ebp 10] by (simp add: get_caller_pcs_def Let_def)

section \<open>Processors\<close>

text \<open>
  Where a processor is: outside, in the loop of \<open>spin_lock\<close>, past it but not yet recorded as
  the holder, in its critical section, past the bookkeeping of \<open>spin_unlock\<close> but before its
  exchange; or stopped by one of the two panics.
\<close>

datatype cpu_pc = Outside | Spinning | Taken | Critical | Leaving | Panicked

record smp =
  lock :: spinlock
  at :: "nat \<Rightarrow> cpu_pc"

inductive spin_step :: "smp \<Rightarrow> smp \<Rightarrow> bool" where
  lock_check: "at s c = Outside \<Longrightarrow> \<not> holding c (lock s) \<Longrightarrow>
    spin_step s (s\<lparr>at := (at s)(c := Spinning)\<rparr>)"
| lock_panic: "at s c = Outside \<Longrightarrow> holding c (lock s) \<Longrightarrow>
    spin_step s (s\<lparr>at := (at s)(c := Panicked)\<rparr>)"
| lock_spin: "at s c = Spinning \<Longrightarrow> xchg (lock s) 1 = (v, lk) \<Longrightarrow> v \<noteq> 0 \<Longrightarrow> spin_step s (s\<lparr>lock := lk\<rparr>)"
| lock_take: "at s c = Spinning \<Longrightarrow> xchg (lock s) 1 = (v, lk) \<Longrightarrow> v = 0 \<Longrightarrow>
    spin_step s (s\<lparr>lock := lk, at := (at s)(c := Taken)\<rparr>)"
| lock_record: "at s c = Taken \<Longrightarrow>
    spin_step s (s\<lparr>lock := (lock s)\<lparr>holder := Some c, pcs := get_caller_pcs mem ebp\<rparr>,
      at := (at s)(c := Critical)\<rparr>)"
| unlock_panic: "at s c = Critical \<Longrightarrow> \<not> holding c (lock s) \<Longrightarrow>
    spin_step s (s\<lparr>at := (at s)(c := Panicked)\<rparr>)"
| unlock_clear: "at s c = Critical \<Longrightarrow> holding c (lock s) \<Longrightarrow>
    spin_step s (s\<lparr>lock := (lock s)\<lparr>pcs := (pcs (lock s))[0 := 0], holder := None\<rparr>,
      at := (at s)(c := Leaving)\<rparr>)"
| unlock_release: "at s c = Leaving \<Longrightarrow> xchg (lock s) 0 = (v, lk) \<Longrightarrow>
    spin_step s (s\<lparr>lock := lk, at := (at s)(c := Outside)\<rparr>)"

inductive spin_reachable :: "smp \<Rightarrow> bool" where
  boot: "spin_reachable \<lparr>lock = spin_initlock, at = (\<lambda>_. Outside)\<rparr>"
| run: "spin_reachable s \<Longrightarrow> spin_step s s' \<Longrightarrow> spin_reachable s'"

section \<open>The invariant\<close>

definition owns :: "cpu_pc \<Rightarrow> bool" where
  "owns p \<longleftrightarrow> p = Taken \<or> p = Critical \<or> p = Leaving"

text \<open>The lock word tells whether some processor owns it, and the holder which one is recorded.\<close>

definition owner_is :: "smp \<Rightarrow> nat option \<Rightarrow> bool" where
  "owner_is s c \<longleftrightarrow> (\<forall>d. at s d \<noteq> Panicked) \<and> (\<forall>d. owns (at s d) \<longleftrightarrow> c = Some d)
     \<and> locked (lock s) = (if c = None then 0 else 1)
     \<and> (\<forall>d. holder (lock s) = Some d \<longleftrightarrow> at s d = Critical)"

lemma owns_simps [simp]:
  "owns Taken" "owns Critical" "owns Leaving" "\<not> owns Outside" "\<not> owns Spinning" "\<not> owns Panicked"
  by (simp_all add: owns_def)

lemma owner_is_Some: "owner_is s k \<Longrightarrow> owns (at s c) \<Longrightarrow> k = Some c"
  by (simp add: owner_is_def)

lemma owner_is_None: "owner_is s k \<Longrightarrow> locked (lock s) = 0 \<Longrightarrow> k = None"
  by (simp add: owner_is_def split: if_splits)

lemma critical_holds:
  assumes "owner_is s k" "at s c = Critical"
  shows "holding c (lock s)"
proof -
  have "owns (at s c)" by (simp add: assms(2))
  with assms(1) have "k = Some c" by (rule owner_is_Some)
  with assms show ?thesis by (simp add: owner_is_def holding_def)
qed

lemma outside_not_holding:
  assumes "owner_is s k" "at s c = Outside"
  shows "\<not> holding c (lock s)"
  using assms by (simp add: owner_is_def holding_def)

lemma owner_step: "spin_step s s' \<Longrightarrow> owner_is s k \<Longrightarrow> \<exists>k'. owner_is s' k'"
proof (induction rule: spin_step.induct)
  case (lock_check s c)
  then have "k \<noteq> Some c" by (metis owner_is_def owns_simps(4))
  with lock_check have "owner_is (s\<lparr>at := (at s)(c := Spinning)\<rparr>) k" by (auto simp: owner_is_def)
  then show ?case ..
next
  case (lock_panic s c)
  then show ?case by (blast dest: outside_not_holding)
next
  case (lock_spin s c v lk)
  then have "k \<noteq> None" by (auto simp: owner_is_def xchg_def split: if_splits)
  with lock_spin have "owner_is (s\<lparr>lock := lk\<rparr>) k" by (auto simp: owner_is_def xchg_def)
  then show ?case ..
next
  case (lock_take s c v lk)
  then have "k = None" by (intro owner_is_None) (auto simp: xchg_def)
  with lock_take have "owner_is (s\<lparr>lock := lk, at := (at s)(c := Taken)\<rparr>) (Some c)"
    by (auto simp: owner_is_def xchg_def)
  then show ?case ..
next
  case (lock_record s c mem ebp)
  then have k: "k = Some c" by (intro owner_is_Some) auto
  then have "\<forall>d. d \<noteq> c \<longrightarrow> at s d \<noteq> Critical"
    using lock_record.prems by (metis owner_is_Some option.inject owns_simps(2))
  with k lock_record have "owner_is (s\<lparr>lock := (lock s)\<lparr>holder := Some c, pcs := get_caller_pcs mem ebp\<rparr>,
      at := (at s)(c := Critical)\<rparr>) k" by (auto simp: owner_is_def)
  then show ?case ..
next
  case (unlock_panic s c)
  then show ?case by (auto dest: critical_holds)
next
  case (unlock_clear s c)
  then have k: "k = Some c" by (intro owner_is_Some) auto
  then have "\<forall>d. d \<noteq> c \<longrightarrow> at s d \<noteq> Critical"
    using unlock_clear.prems by (metis owner_is_Some option.inject owns_simps(2))
  with k unlock_clear have "owner_is (s\<lparr>lock := (lock s)\<lparr>pcs := (pcs (lock s))[0 := 0], holder := None\<rparr>,
      at := (at s)(c := Leaving)\<rparr>) k" by (auto simp: owner_is_def)
  then show ?case ..
next
  case (unlock_release s c v lk)
  then have k: "k = Some c" by (intro owner_is_Some) auto
  with unlock_release have "owner_is (s\<lparr>lock := lk, at := (at s)(c := Outside)\<rparr>) None"
    by (auto simp: owner_is_def xchg_def)
  then show ?case ..
qed

lemma owner_reachable: "spin_reachable s \<Longrightarrow> \<exists>k. owner_is s k"
proof (induction rule: spin_reachable.induct)
  case boot
  have "owner_is \<lparr>lock = spin_initlock, at = (\<lambda>_. Outside)\<rparr> None"
    by (simp add: owner_is_def spin_initlock_def)
  then show ?case ..
qed (blast dest: owner_step)

section \<open>Properties\<close>

text \<open>
  Property C26. The lock excludes: however the accesses of any number of processors interleave, at
  most one of them is past \<open>spin_lock\<close> and not yet out of \<open>spin_unlock\<close>; and neither of the
  two panics is ever reached by processors that lock and unlock in turn.
\<close>

theorem spin_lock_excludes:
  assumes "spin_reachable s"
  shows "(owns (at s c) \<and> owns (at s d) \<longrightarrow> c = d) \<and> at s c \<noteq> Panicked"
  using owner_reachable [OF assms] by (auto simp: owner_is_def)

theorem spin_lock_excludes_witness:
  "\<exists>s. spin_reachable s \<and> at s 1 = Taken \<and> at s 2 = Spinning \<and> (owns (at s 2) \<longrightarrow> 1 = (2 :: nat))"
proof -
  let ?s0 = "\<lparr>lock = spin_initlock, at = (\<lambda>_. Outside)\<rparr>"
  let ?s1 = "?s0\<lparr>at := (at ?s0)(1 := Spinning)\<rparr>"
  let ?s2 = "?s1\<lparr>at := (at ?s1)(2 := Spinning)\<rparr>"
  let ?s3 = "?s2\<lparr>lock := (lock ?s2)\<lparr>locked := 1\<rparr>, at := (at ?s2)(1 := Taken)\<rparr>"
  have "spin_step ?s0 ?s1" by (rule spin_step.lock_check) (simp_all add: holding_def spin_initlock_def)
  moreover have "spin_step ?s1 ?s2"
    by (rule spin_step.lock_check) (simp_all add: holding_def spin_initlock_def)
  moreover have "spin_step ?s2 ?s3"
    by (rule spin_step.lock_take [of _ _ 0]) (simp_all add: xchg_def spin_initlock_def)
  ultimately have r: "spin_reachable ?s3" using spin_reachable.boot by (meson spin_reachable.run)
  from spin_lock_excludes [OF r, of 1 2] r show ?thesis by (intro exI [of _ ?s3]) simp
qed

end
