(* ===== verification/Jos_Bc.thy ===== *)
theory Jos_Bc
  imports Jos_String Jos_Machine
begin

text \<open>
  The block cache of the file server, \<^verbatim>\<open>tps/fs/bc.c\<close>: disk block \<open>b\<close> is mapped at
  \<open>DISKMAP + b * BLKSIZE\<close> when it is in memory, and any access to a block that is not faults
  and loads it. The state holds the disk, which pages of the window are mapped and dirty, and
  the bytes of the window; the free-block bitmap of \<^verbatim>\<open>tps/fs/fs.c\<close> is read inside the fault
  handler and so comes here too. The disk driver is the disk: reads and writes of blocks that
  do not fail. Getting a page for a block does not fail either.
\<close>

section \<open>State\<close>

definition BLKSIZE :: nat where "BLKSIZE = 4096"
definition BLKBITSIZE :: nat where "BLKBITSIZE = BLKSIZE * 8"
definition DISKMAP :: nat where "DISKMAP = 0x10000000"
definition DISKSIZE :: nat where "DISKSIZE = 0xC0000000"

lemma BLKSIZE_simps [simp]: "BLKSIZE = 4096" "BLKBITSIZE = 32768"
  and DISKMAP_simps [simp]: "DISKMAP = 268435456" "DISKSIZE = 3221225472"
  by (simp_all add: BLKSIZE_def BLKBITSIZE_def DISKMAP_def DISKSIZE_def)

record fs_state =
  disk :: "nat \<Rightarrow> nat \<Rightarrow> u8"
  cached :: "nat \<Rightarrow> bool"
  dirty :: "nat \<Rightarrow> bool"
  cmem :: bmem
  has_super :: bool
  has_bitmap :: bool

text \<open>A computation of the server returns, panics, or faults for ever inside its fault handler.\<close>

datatype 'a fs_result = FOk 'a fs_state | FPanic | FStuck

type_synonym 'a fsm = "fs_state \<Rightarrow> 'a fs_result"

definition freturn :: "'a \<Rightarrow> 'a fsm" where "freturn x = (\<lambda>s. FOk x s)"
definition fpanic :: "'a fsm" where "fpanic = (\<lambda>s. FPanic)"
definition fbind :: "'a fsm \<Rightarrow> ('a \<Rightarrow> 'b fsm) \<Rightarrow> 'b fsm" where
  "fbind m f = (\<lambda>s. case m s of FOk x s' \<Rightarrow> f x s' | FPanic \<Rightarrow> FPanic | FStuck \<Rightarrow> FStuck)"
definition fget :: "(fs_state \<Rightarrow> 'a) \<Rightarrow> 'a fsm" where "fget f = (\<lambda>s. FOk (f s) s)"
definition fmodify :: "(fs_state \<Rightarrow> fs_state) \<Rightarrow> unit fsm" where "fmodify f = (\<lambda>s. FOk () (f s))"

definition block_of :: "nat \<Rightarrow> nat" where
  "block_of addr = (addr - DISKMAP) div BLKSIZE"

definition block_addr :: "nat \<Rightarrow> nat" where
  "block_addr b = DISKMAP + b * BLKSIZE"

definition in_diskmap :: "nat \<Rightarrow> bool" where
  "in_diskmap addr \<longleftrightarrow> DISKMAP \<le> addr \<and> addr < DISKMAP + DISKSIZE"

definition va_is_mapped :: "nat \<Rightarrow> fs_state \<Rightarrow> bool" where
  "va_is_mapped addr s \<longleftrightarrow> in_diskmap addr \<and> cached s (block_of addr)"

definition va_is_dirty :: "nat \<Rightarrow> fs_state \<Rightarrow> bool" where
  "va_is_dirty addr s \<longleftrightarrow> dirty s (block_of addr)"

text \<open>\<open>ide_read\<close> and \<open>ide_write\<close> of the eight sectors of a block, with the dirty bit they leave.\<close>

definition load_block :: "nat \<Rightarrow> fs_state \<Rightarrow> fs_state" where
  "load_block b s = s\<lparr>cached := (cached s)(b := True), dirty := (dirty s)(b := False),
     cmem := (\<lambda>a. if block_addr b \<le> a \<and> a < block_addr b + BLKSIZE then disk s b (a - block_addr b) else cmem s a)\<rparr>"

definition write_block :: "nat \<Rightarrow> fs_state \<Rightarrow> fs_state" where
  "write_block b s = s\<lparr>dirty := (dirty s)(b := False),
     disk := (disk s)(b := (\<lambda>i. cmem s (block_addr b + i)))\<rparr>"

section \<open>Access through the cache\<close>

text \<open>
  Reads and writes of the window, given what an access to an unmapped page does: the fault
  handler reads the window itself.
\<close>

definition read32 :: "(nat \<Rightarrow> unit fsm) \<Rightarrow> nat \<Rightarrow> u32 fsm" where
  "read32 acc a = fbind (acc a) (\<lambda>_. fget (\<lambda>s. load32 (cmem s) a))"

definition super_nblocks :: "(nat \<Rightarrow> unit fsm) \<Rightarrow> nat fsm" where
  "super_nblocks acc = fbind (read32 acc (block_addr 1 + 4)) (\<lambda>w. freturn (unat w))"

definition bitmap_word :: "nat \<Rightarrow> nat" where
  "bitmap_word b = block_addr 2 + 4 * (b div 32)"

definition is_free :: "(nat \<Rightarrow> unit fsm) \<Rightarrow> nat \<Rightarrow> bool fsm" where
  "is_free acc b =
     fbind (fget has_super) (\<lambda>sup.
     if \<not> sup then freturn False
     else fbind (super_nblocks acc) (\<lambda>n.
       if b \<ge> n then freturn False
       else fbind (read32 acc (bitmap_word b)) (\<lambda>w. freturn (w AND push_bit (b mod 32) 1 \<noteq> 0))))"

text \<open>
  The fault handler. A fault inside it runs it again, so it has a bound on the nesting; with
  the super block in the cache, three levels are all there can be (\<open>access_runs\<close> below).
\<close>

primrec access_n :: "nat \<Rightarrow> nat \<Rightarrow> unit fsm" where
  "access_n 0 = (\<lambda>addr s. FStuck)"
| "access_n (Suc k) = (\<lambda>addr.
     fbind (fget (va_is_mapped addr)) (\<lambda>m.
     if m then freturn ()
     else if \<not> in_diskmap addr then fpanic
     else
       fbind (fget has_super) (\<lambda>sup.
       fbind (if sup then super_nblocks (access_n k) else freturn 0) (\<lambda>n.
       if sup \<and> block_of addr \<ge> n then fpanic
       else
         fbind (fmodify (load_block (block_of addr))) (\<lambda>_.
         fbind (fget has_bitmap) (\<lambda>bm.
         fbind (if bm then is_free (access_n k) (block_of addr) else freturn False) (\<lambda>fr.
         if fr then fpanic else freturn ())))))))"

definition bc_access :: "nat \<Rightarrow> unit fsm" where
  "bc_access = access_n 4"

definition rd32 :: "nat \<Rightarrow> u32 fsm" where
  "rd32 = read32 bc_access"

definition rd8 :: "nat \<Rightarrow> u8 fsm" where
  "rd8 a = fbind (bc_access a) (\<lambda>_. fget (\<lambda>s. cmem s a))"

definition wr_mem :: "nat \<Rightarrow> (bmem \<Rightarrow> bmem) \<Rightarrow> unit fsm" where
  "wr_mem a f = fbind (bc_access a) (\<lambda>_.
     fmodify (\<lambda>s. s\<lparr>cmem := f (cmem s), dirty := (dirty s)(block_of a := True)\<rparr>))"

definition wr32 :: "nat \<Rightarrow> u32 \<Rightarrow> unit fsm" where
  "wr32 a w = wr_mem a (store32 a w)"

definition block_is_free :: "nat \<Rightarrow> bool fsm" where
  "block_is_free = is_free bc_access"

definition diskaddr :: "nat \<Rightarrow> nat fsm" where
  "diskaddr b =
     (if b = 0 then fpanic
      else fbind (fget has_super) (\<lambda>sup.
        fbind (if sup then super_nblocks bc_access else freturn 0) (\<lambda>n.
        if sup \<and> b \<ge> n then fpanic else freturn (block_addr b))))"

definition flush_block :: "nat \<Rightarrow> unit fsm" where
  "flush_block addr =
     (if \<not> in_diskmap addr then fpanic
      else fbind (fget (\<lambda>s. va_is_mapped addr s \<and> va_is_dirty addr s)) (\<lambda>d.
        if d then fmodify (write_block (block_of addr)) else freturn ()))"

text \<open>\<open>sys_page_unmap (0, diskaddr)\<close>: the page leaves the cache, and with it what was not flushed.\<close>

definition unmap_block :: "nat \<Rightarrow> unit fsm" where
  "unmap_block addr = fmodify (\<lambda>s. s\<lparr>cached := (cached s)(block_of addr := False)\<rparr>)"

text \<open>\<open>sys_page_alloc (0, addr, PTE_SYSCALL)\<close>: a fresh page, zero and clean, in place of any other.\<close>

definition map_zero_page :: "nat \<Rightarrow> unit fsm" where
  "map_zero_page addr = fmodify (\<lambda>s. s\<lparr>cached := (cached s)(block_of addr := True),
     dirty := (dirty s)(block_of addr := False), cmem := memset addr 0 BLKSIZE (cmem s)\<rparr>)"

section \<open>Total correctness of server computations\<close>

definition runs :: "'a fsm \<Rightarrow> fs_state \<Rightarrow> ('a \<Rightarrow> fs_state \<Rightarrow> bool) \<Rightarrow> bool" where
  "runs m s Q \<longleftrightarrow> (case m s of FOk x s' \<Rightarrow> Q x s' | FPanic \<Rightarrow> False | FStuck \<Rightarrow> False)"

lemma runs_return [simp]: "runs (freturn x) s Q \<longleftrightarrow> Q x s"
  and runs_get [simp]: "runs (fget f) s Q' \<longleftrightarrow> Q' (f s) s"
  and runs_modify [simp]: "runs (fmodify g) s Q'' \<longleftrightarrow> Q'' () (g s)"
  and runs_panic [simp]: "\<not> runs fpanic s P"
  and runs_bind [simp]: "runs (fbind m k) s R \<longleftrightarrow> runs m s (\<lambda>x s'. runs (k x) s' R)"
  by (simp_all add: runs_def freturn_def fget_def fmodify_def fpanic_def fbind_def split: fs_result.splits)

lemma runs_mono: "runs m s P \<Longrightarrow> (\<And>x s'. P x s' \<Longrightarrow> Q x s') \<Longrightarrow> runs m s Q"
  by (simp add: runs_def split: fs_result.splits)

lemma runs_D: "runs m s Q \<Longrightarrow> \<exists>x s'. m s = FOk x s' \<and> Q x s'"
  by (simp add: runs_def split: fs_result.splits)

section \<open>What the window holds\<close>

lemma block_addr_in: "b < 786432 \<Longrightarrow> i < BLKSIZE \<Longrightarrow> in_diskmap (block_addr b + i)"
  by (simp add: in_diskmap_def block_addr_def)

lemma block_of_addr [simp]: "i < 4096 \<Longrightarrow> block_of (block_addr b + i) = b"
  by (simp add: block_of_def block_addr_def)

lemma block_of_range:
  "in_diskmap a \<Longrightarrow> (block_addr b \<le> a \<and> a < block_addr b + BLKSIZE) \<longleftrightarrow> block_of a = b"
  unfolding in_diskmap_def block_of_def block_addr_def by auto

text \<open>The byte at an address, wherever it is: in the cache or still on the disk.\<close>

definition view :: "fs_state \<Rightarrow> bmem" where
  "view s a = (if cached s (block_of a) then cmem s a else disk s (block_of a) (a - block_addr (block_of a)))"

definition nblocks :: "fs_state \<Rightarrow> nat" where
  "nblocks s = unat (load32 (view s) (block_addr 1 + 4))"

definition free_bit :: "fs_state \<Rightarrow> nat \<Rightarrow> bool" where
  "free_bit s b \<longleftrightarrow> b < nblocks s \<and> load32 (view s) (bitmap_word b) AND push_bit (b mod 32) 1 \<noteq> 0"

text \<open>Cached blocks that are not dirty are as on the disk.\<close>

definition coherent :: "fs_state \<Rightarrow> bool" where
  "coherent s \<longleftrightarrow> (\<forall>b i. b < 786432 \<longrightarrow> i < BLKSIZE \<longrightarrow> cached s b \<longrightarrow> \<not> dirty s b \<longrightarrow>
     cmem s (block_addr b + i) = disk s b i)"

text \<open>A mounted file system: what \<open>check_super\<close> and \<open>check_bitmap\<close> establish.\<close>

definition mounted :: "fs_state \<Rightarrow> bool" where
  "mounted s \<longleftrightarrow> has_super s \<and> has_bitmap s \<and> cached s 1 \<and> coherent s \<and> 2 < nblocks s \<and> nblocks s \<le> 786432
     \<and> \<not> free_bit s 0 \<and> \<not> free_bit s 1
     \<and> (\<forall>i. i * BLKBITSIZE < nblocks s \<longrightarrow> 2 + i < nblocks s \<and> \<not> free_bit s (2 + i))"

text \<open>What looking at the window may change: more blocks in the cache, nothing else.\<close>

definition same_fs :: "fs_state \<Rightarrow> fs_state \<Rightarrow> bool" where
  "same_fs s s' \<longleftrightarrow> (\<forall>a. in_diskmap a \<longrightarrow> view s' a = view s a) \<and> disk s' = disk s \<and> has_super s' = has_super s
     \<and> has_bitmap s' = has_bitmap s \<and> (\<forall>b. cached s b \<longrightarrow> cached s' b \<and> dirty s' b = dirty s b)
     \<and> (coherent s \<longrightarrow> coherent s') \<and> (\<forall>b. cached s' b \<longrightarrow> \<not> cached s b \<longrightarrow> \<not> dirty s' b)"

lemma same_fs_refl: "same_fs s s"
  by (simp add: same_fs_def)

lemma same_fs_trans: "same_fs s s' \<Longrightarrow> same_fs s' s'' \<Longrightarrow> same_fs s s''"
  unfolding same_fs_def by (metis (no_types, lifting))

lemma same_fs_load:
  assumes "\<not> cached s b"
  shows "same_fs s (load_block b s)"
proof -
  have "view (load_block b s) a = view s a" if "in_diskmap a" for a
    using assms block_of_range [OF that, of b] by (auto simp: view_def load_block_def)
  moreover have "coherent (load_block b s)" if coh: "coherent s"
    unfolding coherent_def
  proof (intro allI impI)
    fix c i
    assume c: "c < 786432" "i < BLKSIZE" "cached (load_block b s) c" "\<not> dirty (load_block b s) c"
    then have "(block_addr b \<le> block_addr c + i \<and> block_addr c + i < block_addr b + BLKSIZE) \<longleftrightarrow> c = b"
      using block_of_range [OF block_addr_in, of c i b] by simp
    with c coh show "cmem (load_block b s) (block_addr c + i) = disk (load_block b s) c i"
      by (simp add: load_block_def coherent_def del: BLKSIZE_simps split: if_splits)
  qed
  ultimately show ?thesis using assms by (simp add: same_fs_def load_block_def)
qed

lemma load32_same_fs:
  "same_fs s s' \<Longrightarrow> in_diskmap a \<Longrightarrow> in_diskmap (a + 3) \<Longrightarrow> load32 (view s') a = load32 (view s) a"
  by (rule load32_cong) (auto simp: same_fs_def in_diskmap_def)

lemma super_in: "in_diskmap (block_addr 1 + 4)" "in_diskmap (block_addr 1 + 4 + 3)"
  by (simp_all add: in_diskmap_def block_addr_def)

lemma bitmap_in: "b < 786432 \<Longrightarrow> in_diskmap (bitmap_word b)" "b < 786432 \<Longrightarrow> in_diskmap (bitmap_word b + 3)"
  by (simp_all add: in_diskmap_def block_addr_def bitmap_word_def)

lemma nblocks_same: "same_fs s s' \<Longrightarrow> nblocks s' = nblocks s"
  using super_in by (simp add: nblocks_def load32_same_fs)

lemma free_bit_same: "same_fs s s' \<Longrightarrow> nblocks s \<le> 786432 \<Longrightarrow> free_bit s' b = free_bit s b"
  by (auto simp: free_bit_def nblocks_same load32_same_fs bitmap_in)

lemma mounted_same: "same_fs s s' \<Longrightarrow> mounted s \<Longrightarrow> mounted s'"
proof -
  assume st: "same_fs s s'" and m: "mounted s"
  have n: "nblocks s' = nblocks s" using st by (rule nblocks_same)
  have f: "free_bit s' = free_bit s" using free_bit_same [OF st] m by (auto simp: mounted_def)
  from st m show "mounted s'" unfolding mounted_def n f by (simp add: same_fs_def)
qed

section \<open>Accesses\<close>

lemma view_cached: "cached s (block_of a) \<Longrightarrow> view s a = cmem s a"
  by (simp add: view_def)

lemma load32_cached:
  assumes "cached s (block_of a)" "block_of (a + 3) = block_of a"
  shows "load32 (cmem s) a = load32 (view s) a"
proof (rule load32_cong)
  fix x assume "a \<le> x" "x < a + 4"
  then have "block_of a \<le> block_of x" "block_of x \<le> block_of (a + 3)"
    by (auto simp: block_of_def intro!: div_le_mono)
  with assms have "block_of x = block_of a" by simp
  with assms(1) show "cmem s x = view s x" by (simp add: view_def)
qed

text \<open>A good address: in a block of the disk that is in use.\<close>

definition usable :: "fs_state \<Rightarrow> nat \<Rightarrow> bool" where
  "usable s a \<longleftrightarrow> in_diskmap a \<and> block_of a < nblocks s \<and> \<not> free_bit s (block_of a)"

lemma usable_same: "same_fs s s' \<Longrightarrow> mounted s \<Longrightarrow> usable s' a = usable s a"
  by (simp add: usable_def nblocks_same free_bit_same mounted_def)

lemma bitmap_block: "block_of (bitmap_word b) = 2 + b div 32768" "block_of (bitmap_word b + 3) = 2 + b div 32768"
proof -
  have "4 * (b div 32) = 4096 * (b div 32768) + 4 * (b div 32 mod 1024)"
  proof -
    have "b div 32768 = b div 32 div 1024" using div_mult2_eq [of b 32 1024] by simp
    with div_mult_mod_eq [of "b div 32" 1024] show ?thesis by linarith
  qed
  then have "bitmap_word b = block_addr (2 + b div 32768) + 4 * (b div 32 mod 1024)"
    by (simp add: bitmap_word_def block_addr_def)
  then show "block_of (bitmap_word b) = 2 + b div 32768" "block_of (bitmap_word b + 3) = 2 + b div 32768"
    by (simp_all add: add.assoc)
qed

lemma super_block: "block_of (block_addr 1 + 4) = 1" "block_of (block_addr 1 + 4 + 3) = 1"
  by (simp_all add: block_of_def block_addr_def)

lemma nblocks_cached:
  "cached s 1 \<Longrightarrow> unat (load32 (cmem s) (block_addr 1 + 4)) = nblocks s"
  using load32_cached [of s "block_addr 1 + 4"] by (simp only: super_block nblocks_def)

lemma access_cached:
  "in_diskmap a \<Longrightarrow> cached s (block_of a) \<Longrightarrow> runs (access_n (Suc k) a) s Q \<longleftrightarrow> Q () s"
  by (simp add: va_is_mapped_def)

lemma super_cached:
  "cached s 1 \<Longrightarrow> runs (super_nblocks (access_n (Suc k))) s Q \<longleftrightarrow> Q (nblocks s) s"
  unfolding super_nblocks_def read32_def runs_bind runs_get runs_return
  by (subst access_cached) (simp_all only: super_in super_block nblocks_cached)

text \<open>What the callers need of an access: it neither panics nor gets stuck, and the block is there.\<close>

definition ok_access :: "(nat \<Rightarrow> unit fsm) \<Rightarrow> fs_state \<Rightarrow> nat \<Rightarrow> bool" where
  "ok_access acc s a \<longleftrightarrow> runs (acc a) s (\<lambda>_ s'. same_fs s s' \<and> cached s' (block_of a))"

lemma ok_accessD:
  "ok_access acc s a \<Longrightarrow> (\<And>s'. same_fs s s' \<Longrightarrow> cached s' (block_of a) \<Longrightarrow> Q () s') \<Longrightarrow> runs (acc a) s Q"
  unfolding ok_access_def by (erule runs_mono) auto

lemma is_free_runs:
  assumes m: "mounted s" and b: "b < 786432" and acc: "ok_access (access_n (Suc k)) s (bitmap_word b)"
    and Q: "\<And>s'. same_fs s s' \<Longrightarrow> Q (free_bit s b) s'"
  shows "runs (is_free (access_n (Suc k)) b) s Q"
proof -
  have c: "cached s 1" "has_super s" using m by (simp_all add: mounted_def)
  have val: "load32 (cmem s') (bitmap_word b) = load32 (view s) (bitmap_word b)"
    if "same_fs s s'" "cached s' (block_of (bitmap_word b))" for s'
    using load32_cached [OF that(2)] load32_same_fs [OF that(1) bitmap_in(1) [OF b] bitmap_in(2) [OF b]]
    by (simp add: bitmap_block)
  show ?thesis
  proof (cases "b \<ge> nblocks s")
    case True
    then have "Q False s" using Q [OF same_fs_refl] by (simp add: free_bit_def)
    with True c show ?thesis unfolding is_free_def by (simp add: super_cached del: One_nat_def access_n.simps)
  next
    case False
    have "runs (access_n (Suc k) (bitmap_word b)) s
        (\<lambda>_ s'. Q (load32 (cmem s') (bitmap_word b) AND push_bit (b mod 32) 1 \<noteq> 0) s')"
    proof (rule ok_accessD [OF acc])
      fix s' assume s': "same_fs s s'" "cached s' (block_of (bitmap_word b))"
      from Q [OF s'(1)] False val [OF s']
      show "Q (load32 (cmem s') (bitmap_word b) AND push_bit (b mod 32) 1 \<noteq> 0) s'"
        by (simp add: free_bit_def)
    qed
    with False c show ?thesis unfolding is_free_def read32_def
      by (simp add: super_cached del: One_nat_def access_n.simps)
  qed
qed

lemma access_step:
  assumes m: "mounted s" and u: "usable s a"
    and acc: "\<And>s'. same_fs s s' \<Longrightarrow> cached s' (block_of a) \<Longrightarrow>
      ok_access (access_n (Suc k)) s' (bitmap_word (block_of a))"
  shows "ok_access (access_n (Suc (Suc k))) s a"
proof (cases "cached s (block_of a)")
  case True
  with u show ?thesis
    unfolding ok_access_def by (simp add: access_cached usable_def same_fs_refl del: access_n.simps)
next
  case False
  let ?b = "block_of a" and ?s = "load_block (block_of a) s"
  have same: "same_fs s ?s" using False by (rule same_fs_load)
  have c: "cached s 1" "has_super s" "has_bitmap ?s"
    using m by (simp_all add: mounted_def load_block_def)
  have b: "?b < nblocks s" "\<not> free_bit s ?b" "in_diskmap a" "nblocks s \<le> 786432"
    using u m by (simp_all add: usable_def mounted_def)
  have "runs (is_free (access_n (Suc k)) ?b) ?s (\<lambda>fr s'. \<not> fr \<and> same_fs s s' \<and> cached s' ?b)"
  proof (rule is_free_runs)
    show "mounted ?s" using same m by (rule mounted_same)
    show "?b < 786432" using b by simp
    show "ok_access (access_n (Suc k)) ?s (bitmap_word ?b)"
      using same by (rule acc) (simp add: load_block_def)
    fix s' assume s': "same_fs ?s s'"
    then have "cached s' ?b" by (simp add: same_fs_def load_block_def)
    with b free_bit_same [OF same] same_fs_trans [OF same s'] 
    show "\<not> free_bit ?s ?b \<and> same_fs s s' \<and> cached s' ?b" by simp
  qed
  then have "runs (is_free (access_n (Suc k)) ?b) ?s
      (\<lambda>fr s'. runs (if fr then fpanic else freturn ()) s' (\<lambda>_ s'. same_fs s s' \<and> cached s' ?b))"
    by (rule runs_mono) auto
  with b c False show ?thesis
    unfolding ok_access_def access_n.simps(2) [of "Suc k"]
    by (simp add: super_cached va_is_mapped_def del: One_nat_def access_n.simps)
qed

lemma mounted_reserved: "mounted s \<Longrightarrow> i * 32768 < nblocks s \<Longrightarrow> in_diskmap a \<Longrightarrow> block_of a = 2 + i \<Longrightarrow> usable s a"
  by (simp add: mounted_def usable_def)

lemma access_block2:
  assumes "mounted s" "in_diskmap a" "block_of a = 2"
  shows "ok_access (access_n (Suc (Suc k))) s a"
proof (rule access_step [OF assms(1)])
  show "usable s a" using assms mounted_reserved [of s 0 a] by (simp add: mounted_def)
  fix s' assume s': "same_fs s s'" "cached s' (block_of a)"
  have "in_diskmap (bitmap_word 2)" "block_of (bitmap_word 2) = 2" by (simp_all add: bitmap_in bitmap_block)
  with s' assms(3) show "ok_access (access_n (Suc k)) s' (bitmap_word (block_of a))"
    unfolding ok_access_def by (simp add: access_cached same_fs_refl del: access_n.simps)
qed

lemma access_bitmap:
  assumes m: "mounted s" and b: "b < nblocks s"
  shows "ok_access (access_n (Suc (Suc (Suc k)))) s (bitmap_word b)"
proof (rule access_step [OF m])
  have n: "b < 786432" using m b by (simp add: mounted_def)
  have r: "b div 32768 * 32768 < nblocks s" using b by (rule le_less_trans [OF div_times_less_eq_dividend])
  show "usable s (bitmap_word b)"
    using mounted_reserved [OF m r] bitmap_in(1) [OF n] by (simp add: bitmap_block)
  fix s' assume s': "same_fs s s'" "cached s' (block_of (bitmap_word b))"
  have b2: "b div 32768 < 24" using n by (simp add: less_mult_imp_div_less)
  then have "block_of (bitmap_word (2 + b div 32768)) = 2" by (simp add: bitmap_block)
  moreover have "in_diskmap (bitmap_word (2 + b div 32768))" using b2 by (intro bitmap_in) simp
  ultimately show "ok_access (access_n (Suc (Suc k))) s' (bitmap_word (block_of (bitmap_word b)))"
    using access_block2 [OF mounted_same [OF s'(1) m]] by (simp add: bitmap_block)
qed

lemma bc_access_Suc: "bc_access = access_n (Suc (Suc (Suc (Suc 0))))"
  by (simp add: bc_access_def numeral_eq_Suc del: access_n.simps)

lemma access_runs:
  assumes m: "mounted s" and u: "usable s a"
  shows "ok_access bc_access s a"
proof -
  have "ok_access (access_n (Suc (Suc (Suc (Suc 0))))) s a"
  proof (rule access_step [OF m u])
    fix s' assume s': "same_fs s s'" "cached s' (block_of a)"
    show "ok_access (access_n (Suc (Suc (Suc 0)))) s' (bitmap_word (block_of a))"
      using access_bitmap [OF mounted_same [OF s'(1) m]] u by (simp add: usable_def nblocks_same [OF s'(1)])
  qed
  then show ?thesis by (simp add: bc_access_Suc del: access_n.simps)
qed

lemma access_bitmap_runs: "mounted s \<Longrightarrow> b < nblocks s \<Longrightarrow> ok_access bc_access s (bitmap_word b)"
  using access_bitmap [of s b "Suc 0"] by (simp add: bc_access_Suc del: access_n.simps)

section \<open>The operations on a mounted file system\<close>

lemma block_is_free_runs:
  assumes "mounted s" "\<And>s'. same_fs s s' \<Longrightarrow> Q (free_bit s b) s'"
  shows "runs (block_is_free b) s Q"
proof (cases "b < nblocks s")
  case True
  then have "b < 786432" using assms(1) by (simp add: mounted_def)
  with assms True show ?thesis
    using is_free_runs [of s b "Suc (Suc (Suc 0))" Q] access_bitmap_runs [of s b]
    by (simp add: block_is_free_def bc_access_Suc del: access_n.simps)
next
  case False
  then have "\<not> free_bit s b" by (simp add: free_bit_def)
  moreover have "runs (super_nblocks bc_access) s Q'' = Q'' (nblocks s) s" for Q''
    using assms(1) by (simp add: bc_access_Suc mounted_def super_cached del: access_n.simps One_nat_def)
  ultimately show ?thesis
    using False assms(2) [OF same_fs_refl] assms(1) by (simp add: block_is_free_def is_free_def mounted_def)
qed

lemma super_runs: "mounted s \<Longrightarrow> runs (super_nblocks bc_access) s Q \<longleftrightarrow> Q (nblocks s) s"
  using super_cached [of s "Suc (Suc (Suc 0))"] by (simp add: bc_access_Suc mounted_def del: access_n.simps One_nat_def)

lemma diskaddr_runs [simp]:
  "mounted s \<Longrightarrow> runs (diskaddr b) s Q \<longleftrightarrow> 0 < b \<and> b < nblocks s \<and> Q (block_addr b) s"
  by (auto simp: diskaddr_def super_runs mounted_def)

lemma rd32_runs:
  assumes "mounted s" "usable s a" "block_of (a + 3) = block_of a" "in_diskmap (a + 3)"
    "\<And>s'. same_fs s s' \<Longrightarrow> Q (load32 (view s) a) s'"
  shows "runs (rd32 a) s Q"
  unfolding rd32_def read32_def runs_bind
proof (rule ok_accessD [OF access_runs [OF assms(1,2)]])
  fix s' assume s': "same_fs s s'" "cached s' (block_of a)"
  have "load32 (cmem s') a = load32 (view s) a"
    using load32_cached [OF s'(2) assms(3)] load32_same_fs [OF s'(1)] assms(2,4) by (simp add: usable_def)
  with assms(5) [OF s'(1)] show "runs (fget (\<lambda>s. load32 (cmem s) a)) s' Q" by simp
qed

lemma rd8_ok:
  assumes "ok_access bc_access s a" "in_diskmap a" "\<And>s'. same_fs s s' \<Longrightarrow> Q (view s a) s'"
  shows "runs (rd8 a) s Q"
  unfolding rd8_def runs_bind
proof (rule ok_accessD [OF assms(1)])
  fix s' assume s': "same_fs s s'" "cached s' (block_of a)"
  have "cmem s' a = view s a"
    using s' assms(2) by (simp add: view_def [of s'] same_fs_def) (metis view_def)
  with assms(3) [OF s'(1)] show "runs (fget (\<lambda>s. cmem s a)) s' Q" by simp
qed

lemma rd8_runs:
  assumes "mounted s" "usable s a" "\<And>s'. same_fs s s' \<Longrightarrow> Q (view s a) s'"
  shows "runs (rd8 a) s Q"
  using assms by (intro rd8_ok [OF access_runs]) (simp_all add: usable_def)

text \<open>
  The bound on the nesting of faults does not matter: a result that is reached with some bound
  is reached with every larger one.
\<close>

definition refined :: "'a fsm \<Rightarrow> 'a fsm \<Rightarrow> bool" where
  "refined m m' \<longleftrightarrow> (\<forall>s. m s \<noteq> FStuck \<longrightarrow> m' s = m s)"

lemma refined_refl: "refined m m"
  by (simp add: refined_def)

lemma refined_bind: "refined m m' \<Longrightarrow> (\<And>x. refined (k x) (k' x)) \<Longrightarrow> refined (fbind m k) (fbind m' k')"
  unfolding refined_def fbind_def by (auto split: fs_result.splits)

lemma refined_if: "(c \<Longrightarrow> refined a a') \<Longrightarrow> (\<not> c \<Longrightarrow> refined b b') \<Longrightarrow> refined (if c then a else b) (if c then a' else b')"
  by simp

lemma refined_read32: "refined (acc a) (acc' a) \<Longrightarrow> refined (read32 acc a) (read32 acc' a)"
  unfolding read32_def by (intro refined_bind refined_refl)

lemma access_mono: "refined (access_n k a) (access_n (Suc k) a)"
proof (induction k arbitrary: a)
  case 0
  show ?case by (simp add: refined_def)
next
  case (Suc k)
  have n: "refined (super_nblocks (access_n k)) (super_nblocks (access_n (Suc k)))"
    unfolding super_nblocks_def by (intro refined_bind refined_read32 refined_refl Suc)
  have f: "refined (is_free (access_n k) b) (is_free (access_n (Suc k)) b)" for b
    unfolding is_free_def
    by (intro refined_bind refined_if refined_refl n refined_read32 Suc)
  show ?case
    unfolding access_n.simps(2) [of "Suc k"]
    by (subst access_n.simps(2) [of k]) (intro refined_bind refined_if refined_refl n f)
qed

lemma access_mono_add: "refined (access_n k a) (access_n (j + k) a)"
proof (induction j)
  case (Suc j)
  with access_mono [of "j + k" a] show ?case by (auto simp: refined_def simp del: access_n.simps)
qed (simp add: refined_refl)

section \<open>Writes and flushes\<close>

definition in_block :: "nat \<Rightarrow> nat \<Rightarrow> bool" where
  "in_block b a \<longleftrightarrow> block_addr b \<le> a \<and> a < block_addr b + BLKSIZE"

lemma in_block_iff: "in_diskmap a \<Longrightarrow> in_block b a \<longleftrightarrow> block_of a = b"
  unfolding in_block_def by (rule block_of_range)

lemma block_of_in_block: "in_block b a \<Longrightarrow> block_of a = b"
  by (auto simp: in_block_def block_of_def block_addr_def intro: div_nat_eqI)

lemma in_block_diskmap: "in_block b a \<Longrightarrow> b < 786432 \<Longrightarrow> in_diskmap a"
  by (auto simp: in_block_def in_diskmap_def block_addr_def)

text \<open>A change of memory that reads and writes one block only.\<close>

definition local_to :: "nat \<Rightarrow> (bmem \<Rightarrow> bmem) \<Rightarrow> bool" where
  "local_to b f \<longleftrightarrow> (\<forall>m x. \<not> in_block b x \<longrightarrow> f m x = m x)
     \<and> (\<forall>m m' x. (\<forall>y. in_block b y \<longrightarrow> m y = m' y) \<longrightarrow> in_block b x \<longrightarrow> f m x = f m' x)"

definition wrote :: "fs_state \<Rightarrow> nat \<Rightarrow> (bmem \<Rightarrow> bmem) \<Rightarrow> fs_state \<Rightarrow> bool" where
  "wrote s b f s' \<longleftrightarrow> (\<forall>x. in_diskmap x \<longrightarrow> view s' x = f (view s) x) \<and> disk s' = disk s
     \<and> has_super s' = has_super s \<and> has_bitmap s' = has_bitmap s \<and> cached s' b
     \<and> (\<forall>c. cached s c \<longrightarrow> cached s' c) \<and> (coherent s \<longrightarrow> coherent s')"

lemma local_store32: "in_block b a \<Longrightarrow> in_block b (a + 3) \<Longrightarrow> local_to b (store32 a w)"
  by (auto simp: local_to_def store32_def in_block_def)

lemma local_memset: "in_block b a \<Longrightarrow> in_block b (a + n - 1) \<Longrightarrow> local_to b (memset a c n)"
  by (auto simp: local_to_def memset_def in_block_def)

lemma local_poke: "in_block b a \<Longrightarrow> in_block b (a + length xs - 1) \<Longrightarrow>
    local_to b (\<lambda>m x. if a \<le> x \<and> x < a + length xs then xs ! (x - a) else m x)"
  by (auto simp: local_to_def in_block_def)

lemma wr_mem_ok:
  assumes acc: "ok_access bc_access s a" and b: "block_of a < 786432" and l: "local_to (block_of a) f"
    and Q: "\<And>s'. wrote s (block_of a) f s' \<Longrightarrow> Q () s'"
  shows "runs (wr_mem a f) s Q"
  unfolding wr_mem_def runs_bind
proof (rule ok_accessD [OF acc])
  fix s1 assume s1: "same_fs s s1" "cached s1 (block_of a)"
  let ?b = "block_of a"
  let ?s2 = "s1\<lparr>cmem := f (cmem s1), dirty := (dirty s1)(?b := True)\<rparr>"
  have out: "\<not> in_block ?b x \<Longrightarrow> f g x = g x" for g x using l by (simp add: local_to_def)
  have inb: "f (cmem s1) x = f (view s) x" if "in_block ?b x" for x
  proof -
    have "\<forall>y. in_block ?b y \<longrightarrow> cmem s1 y = view s y"
      using s1 in_block_diskmap [OF _ b] by (metis block_of_in_block same_fs_def view_cached)
    with l that show ?thesis by (simp add: local_to_def)
  qed
  have "view ?s2 x = f (view s) x" if x: "in_diskmap x" for x
  proof (cases "in_block ?b x")
    case True
    then have "view ?s2 x = f (cmem s1) x" using s1(2) by (simp add: view_def block_of_in_block)
    with inb [OF True] show ?thesis by simp
  next
    case False
    then have "view ?s2 x = view s1 x" using out by (simp add: view_def)
    with False x s1(1) out show ?thesis by (simp add: same_fs_def)
  qed
  moreover have "coherent ?s2" if "coherent s1"
    using that out in_block_iff [OF block_addr_in] by (auto simp: coherent_def)
  ultimately have "wrote s ?b f ?s2" using s1 by (simp add: wrote_def same_fs_def)
  from Q [OF this] show "runs (fmodify (\<lambda>s. s\<lparr>cmem := f (cmem s), dirty := (dirty s)(?b := True)\<rparr>)) s1 Q"
    by simp
qed

lemma wr_mem_runs:
  assumes "mounted s" "usable s a" "local_to (block_of a) f" "\<And>s'. wrote s (block_of a) f s' \<Longrightarrow> Q () s'"
  shows "runs (wr_mem a f) s Q"
  using assms(1,2) by (intro wr_mem_ok [OF access_runs] assms) (simp_all add: mounted_def usable_def)

lemma wr32_runs:
  assumes "mounted s" "usable s a" "in_block (block_of a) a" "in_block (block_of a) (a + 3)"
    "\<And>s'. wrote s (block_of a) (store32 a w) s' \<Longrightarrow> Q () s'"
  shows "runs (wr32 a w) s Q"
  unfolding wr32_def using assms(1,2) local_store32 [OF assms(3,4)] assms(5) by (rule wr_mem_runs)

text \<open>A flush moves bytes to the disk; what the window shows stays.\<close>

definition flushed :: "fs_state \<Rightarrow> nat \<Rightarrow> fs_state \<Rightarrow> bool" where
  "flushed s b s' \<longleftrightarrow> view s' = view s \<and> has_super s' = has_super s \<and> has_bitmap s' = has_bitmap s
     \<and> cached s' = cached s \<and> (\<forall>c. c \<noteq> b \<longrightarrow> disk s' c = disk s c \<and> dirty s' c = dirty s c)
     \<and> (cached s b \<longrightarrow> \<not> dirty s' b) \<and> (coherent s \<longrightarrow> coherent s')"

lemma flush_block_runs:
  assumes "in_diskmap a" "\<And>s'. flushed s (block_of a) s' \<Longrightarrow> Q () s'"
  shows "runs (flush_block a) s Q"
proof (cases "cached s (block_of a) \<and> dirty s (block_of a)")
  case True
  let ?b = "block_of a"
  have "view (write_block ?b s) = view s" using True by (auto simp: view_def write_block_def fun_eq_iff)
  moreover have "coherent (write_block ?b s)" if "coherent s"
    using that by (auto simp: coherent_def write_block_def)
  ultimately have "flushed s ?b (write_block ?b s)" by (simp add: flushed_def write_block_def)
  with True assms show ?thesis by (simp add: flush_block_def va_is_mapped_def va_is_dirty_def)
next
  case False
  then have "flushed s (block_of a) s" by (auto simp: flushed_def)
  with False assms show ?thesis by (auto simp: flush_block_def va_is_mapped_def va_is_dirty_def)
qed

end
