(* ===== verification/Jos_Fs.thy ===== *)
theory Jos_Fs
  imports Jos_Bc
begin

text \<open>
  The file system of \<^verbatim>\<open>tps/fs/fs.c\<close> on the block cache. A pointer to a \<open>struct File\<close> is its
  address in the window, 0 the null pointer; a string that a caller passes in is the list of
  its bytes without the null. Functions with output arguments return them next to the
  result code. Sizes and offsets of regular calls are natural numbers.
\<close>

section \<open>Layout on the disk\<close>

definition NDIRECT :: nat where "NDIRECT = 10"
definition NINDIRECT :: nat where "NINDIRECT = 1024"
definition MAXNAMELEN :: nat where "MAXNAMELEN = 128"
definition BLKFILES :: nat where "BLKFILES = 16"
definition FTYPE_REG :: u32 where "FTYPE_REG = 0"
definition FTYPE_DIR :: u32 where "FTYPE_DIR = 1"
definition FS_MAGIC :: u32 where "FS_MAGIC = 0x4A0530AE"

lemma layout_simps [simp]: "NDIRECT = 10" "NINDIRECT = 1024" "MAXNAMELEN = 128" "BLKFILES = 16"
  by (simp_all add: NDIRECT_def NINDIRECT_def MAXNAMELEN_def BLKFILES_def)

text \<open>The addresses of the fields of a \<open>struct File\<close> at \<open>f\<close>, and of the super block.\<close>

definition sizeof_File :: nat where "sizeof_File = 256"
definition f_size :: "nat \<Rightarrow> nat" where "f_size f = f + 128"
definition f_type :: "nat \<Rightarrow> nat" where "f_type f = f + 132"
definition f_direct :: "nat \<Rightarrow> nat \<Rightarrow> nat" where "f_direct f i = f + 136 + 4 * i"
definition f_indirect :: "nat \<Rightarrow> nat" where "f_indirect f = f + 176"
definition s_magic :: nat where "s_magic = block_addr 1"
definition s_root :: nat where "s_root = block_addr 1 + 8"

section \<open>Super block and bitmap\<close>

definition check_super :: "unit fsm" where
  "check_super = fbind (rd32 s_magic) (\<lambda>w.
     if w \<noteq> FS_MAGIC then fpanic
     else fbind (super_nblocks bc_access) (\<lambda>n. if n > DISKSIZE div BLKSIZE then fpanic else freturn ()))"

definition free_block :: "nat \<Rightarrow> unit fsm" where
  "free_block b =
     (if b = 0 then fpanic
      else fbind (rd32 (bitmap_word b)) (\<lambda>w. wr32 (bitmap_word b) (w OR push_bit (b mod 32) 1)))"

text \<open>The loop of \<open>alloc_block\<close> at block \<open>b\<close>, with \<open>k\<close> blocks to go.\<close>

primrec alloc_loop :: "nat \<Rightarrow> nat \<Rightarrow> int fsm" where
  "alloc_loop 0 b = freturn (- E_NO_DISK)"
| "alloc_loop (Suc k) b = fbind (block_is_free b) (\<lambda>fr.
     if fr then
       fbind (rd32 (bitmap_word b)) (\<lambda>w.
       fbind (wr32 (bitmap_word b) (w AND push_bit (b mod 32) 0)) (\<lambda>_.
       fbind (flush_block (block_addr 2)) (\<lambda>_.
       freturn (int b))))
     else alloc_loop k (b + 1))"

definition alloc_block :: "int fsm" where
  "alloc_block = fbind (super_nblocks bc_access) (\<lambda>n. alloc_loop n 0)"

primrec check_bitmap_loop :: "nat \<Rightarrow> nat \<Rightarrow> unit fsm" where
  "check_bitmap_loop 0 i = freturn ()"
| "check_bitmap_loop (Suc k) i = fbind (super_nblocks bc_access) (\<lambda>n.
     if i * BLKBITSIZE < n then
       fbind (block_is_free (2 + i)) (\<lambda>fr. if fr then fpanic else check_bitmap_loop k (i + 1))
     else freturn ())"

text \<open>At most 24 bitmap blocks cover the largest disk; one more round ends the loop.\<close>

definition check_bitmap :: "unit fsm" where
  "check_bitmap =
     fbind (check_bitmap_loop 25 0) (\<lambda>_.
     fbind (block_is_free 0) (\<lambda>fr0. if fr0 then fpanic else
     fbind (block_is_free 1) (\<lambda>fr1. if fr1 then fpanic else freturn ())))"

section \<open>Blocks of a file\<close>

definition file_block_walk :: "nat \<Rightarrow> nat \<Rightarrow> bool \<Rightarrow> (int \<times> nat) fsm" where
  "file_block_walk f filebno alloc =
     (if filebno \<ge> NDIRECT + NINDIRECT then freturn (- E_INVAL, 0)
      else if filebno < NDIRECT then freturn (0, f_direct f filebno)
      else
        fbind (rd32 (f_indirect f)) (\<lambda>ind.
        fbind (if ind \<noteq> 0 then freturn 0
               else if \<not> alloc then freturn (- E_NOT_FOUND)
               else fbind alloc_block (\<lambda>blockno.
                 if blockno < 0 then freturn (- E_NO_DISK)
                 else
                   fbind (wr32 (f_indirect f) (word_of_int blockno)) (\<lambda>_.
                   fbind (diskaddr (nat blockno)) (\<lambda>addr.
                   fbind (map_zero_page addr) (\<lambda>_.
                   fbind (wr_mem addr (memset addr 0 BLKSIZE)) (\<lambda>_.
                   fbind (flush_block addr) (\<lambda>_. freturn 0))))))) (\<lambda>r.
        if r < 0 then freturn (r, 0)
        else
          fbind (rd32 (f_indirect f)) (\<lambda>ind.
          fbind (diskaddr (unat ind)) (\<lambda>p. freturn (0, p + filebno - NDIRECT))))))"

text \<open>The test \<open>*b < 0\<close> of the source compares an unsigned number: it never holds.\<close>

definition file_get_block :: "nat \<Rightarrow> nat \<Rightarrow> (int \<times> nat) fsm" where
  "file_get_block f filebno =
     fbind (file_block_walk f filebno True) (\<lambda>(e, b).
     if e \<noteq> 0 then freturn (e, 0)
     else
       fbind (rd32 b) (\<lambda>v.
       fbind (if v \<noteq> 0 then freturn () else fbind alloc_block (\<lambda>n. wr32 b (word_of_int n))) (\<lambda>_.
       fbind (rd32 b) (\<lambda>v.
       fbind (diskaddr (unat v)) (\<lambda>a. freturn (0, a))))))"

section \<open>Directories\<close>

text \<open>\<open>strcmp\<close> of a name in the window with the caller's.\<close>

primrec name_eq :: "u8 list \<Rightarrow> nat \<Rightarrow> bool fsm" where
  "name_eq [] a = fbind (rd8 a) (\<lambda>c. freturn (c = 0))"
| "name_eq (x # xs) a = fbind (rd8 a) (\<lambda>c. if c = x then name_eq xs (a + 1) else freturn False)"

primrec find_entry :: "(nat \<Rightarrow> bool fsm) \<Rightarrow> nat \<Rightarrow> nat \<Rightarrow> nat option fsm" where
  "find_entry p 0 f = freturn None"
| "find_entry p (Suc k) f = fbind (p f) (\<lambda>b. if b then freturn (Some f) else find_entry p k (f + sizeof_File))"

primrec dir_scan :: "(nat \<Rightarrow> bool fsm) \<Rightarrow> nat \<Rightarrow> nat \<Rightarrow> nat \<Rightarrow> (int \<times> nat) option fsm" where
  "dir_scan p dir 0 i = freturn None"
| "dir_scan p dir (Suc k) i = fbind (file_get_block dir i) (\<lambda>(r, blk).
     if r < 0 then freturn (Some (r, 0))
     else fbind (find_entry p BLKFILES blk) (\<lambda>f.
       case f of Some f \<Rightarrow> freturn (Some (0, f)) | None \<Rightarrow> dir_scan p dir k (i + 1)))"

text \<open>\<open>f_size\<close> is signed; a multiple of the block size divides exactly, whatever its sign.\<close>

definition dir_nblock :: "nat \<Rightarrow> nat fsm" where
  "dir_nblock dir = fbind (rd32 (f_size dir)) (\<lambda>sz.
     if sint sz mod 4096 \<noteq> 0 then fpanic else freturn (unat (word_of_int (sint sz div 4096) :: u32)))"

definition dir_lookup :: "nat \<Rightarrow> u8 list \<Rightarrow> (int \<times> nat) fsm" where
  "dir_lookup dir name =
     fbind (dir_nblock dir) (\<lambda>nblock.
     fbind (dir_scan (name_eq name) dir nblock 0) (\<lambda>r.
     case r of Some res \<Rightarrow> freturn res | None \<Rightarrow> freturn (- E_NOT_FOUND, 0)))"

definition dir_alloc_file :: "nat \<Rightarrow> (int \<times> nat) fsm" where
  "dir_alloc_file dir =
     fbind (dir_nblock dir) (\<lambda>nblock.
     fbind (dir_scan (name_eq []) dir nblock 0) (\<lambda>r.
     case r of Some res \<Rightarrow> freturn res
     | None \<Rightarrow>
         fbind (rd32 (f_size dir)) (\<lambda>sz.
         fbind (wr32 (f_size dir) (sz + 4096)) (\<lambda>_.
         fbind (file_get_block dir nblock) (\<lambda>(r, blk).
         if r < 0 then freturn (r, 0) else freturn (0, blk))))))"

section \<open>Paths\<close>

definition SLASH :: u8 where "SLASH = 47"

definition skip_slash :: "u8 list \<Rightarrow> u8 list" where
  "skip_slash p = dropWhile (\<lambda>c. c = SLASH) p"

lemma skip_slash_length: "length (skip_slash p) \<le> length p"
  by (simp add: skip_slash_def length_dropWhile_le)

lemma next_element_shorter:
  "path \<noteq> [] \<Longrightarrow> length (skip_slash (dropWhile (\<lambda>c. c \<noteq> SLASH) path)) < length path"
proof (cases path)
  case (Cons c cs)
  then show ?thesis
    using skip_slash_length [of "dropWhile (\<lambda>c. c \<noteq> SLASH) cs"] length_dropWhile_le [of "\<lambda>c. c \<noteq> SLASH" cs]
      length_dropWhile_le [of "\<lambda>c. c = SLASH" cs]
    by (cases "c = SLASH") (auto simp: skip_slash_def)
qed simp

text \<open>The result of a walk: code, directory, file, and the last element if it is to be created.\<close>

type_synonym walk_result = "int \<times> nat \<times> nat \<times> u8 list option"

function walk_loop :: "nat \<Rightarrow> nat \<Rightarrow> u8 list \<Rightarrow> walk_result fsm" where
  "walk_loop dir f path =
     (if path = [] then freturn (0, dir, f, None)
      else
        let name = takeWhile (\<lambda>c. c \<noteq> SLASH) path;
            rest = skip_slash (dropWhile (\<lambda>c. c \<noteq> SLASH) path)
        in if length name \<ge> MAXNAMELEN then freturn (- E_BAD_PATH, 0, 0, None)
           else
             fbind (rd32 (f_type f)) (\<lambda>ty.
             if ty \<noteq> FTYPE_DIR then freturn (- E_NOT_FOUND, 0, 0, None)
             else
               fbind (dir_lookup f name) (\<lambda>(r, g).
               if r < 0 then
                 freturn (if r = - E_NOT_FOUND \<and> rest = [] then (r, f, 0, Some name) else (r, 0, 0, None))
               else walk_loop f g rest)))"
  by pat_completeness auto

termination
  by (relation "measure (\<lambda>(dir, f, path). length path)") (auto intro: next_element_shorter)

declare walk_loop.simps [simp del]

definition walk_path :: "u8 list \<Rightarrow> walk_result fsm" where
  "walk_path path = walk_loop 0 s_root (skip_slash path)"

section \<open>Operations on files\<close>

definition rd_range :: "nat \<Rightarrow> nat \<Rightarrow> u8 list fsm" where
  "rd_range a n = fbind (bc_access a) (\<lambda>_. fget (\<lambda>s. map (cmem s) [a..<a + n]))"

definition poke :: "nat \<Rightarrow> u8 list \<Rightarrow> bmem \<Rightarrow> bmem" where
  "poke a xs m = (\<lambda>x. if a \<le> x \<and> x < a + length xs then xs ! (x - a) else m x)"

text \<open>The blocks \<open>i\<close>, \<open>i + 1\<close>, ... of \<open>file_flush\<close>, \<open>k\<close> of them.\<close>

primrec flush_blocks :: "nat \<Rightarrow> nat \<Rightarrow> nat \<Rightarrow> unit fsm" where
  "flush_blocks f 0 i = freturn ()"
| "flush_blocks f (Suc k) i =
     fbind (file_block_walk f i False) (\<lambda>(r, p).
     fbind (if r < 0 \<or> p = 0 then freturn ()
            else fbind (rd32 p) (\<lambda>v.
              if v = 0 then freturn () else fbind (diskaddr (unat v)) flush_block)) (\<lambda>_.
     flush_blocks f k (i + 1)))"

definition file_flush :: "nat \<Rightarrow> unit fsm" where
  "file_flush f =
     fbind (rd32 (f_size f)) (\<lambda>sz.
     fbind (flush_blocks f (nat (sint sz + 4095) div BLKSIZE) 0) (\<lambda>_.
     fbind (flush_block f) (\<lambda>_.
     fbind (rd32 (f_indirect f)) (\<lambda>ind.
     if ind = 0 then freturn () else fbind (diskaddr (unat ind)) flush_block))))"

definition file_create :: "u8 list \<Rightarrow> (int \<times> nat) fsm" where
  "file_create path =
     fbind (walk_path path) (\<lambda>(r, dir, f, last).
     if r = 0 then freturn (- E_FILE_EXISTS, 0)
     else if r \<noteq> - E_NOT_FOUND \<or> dir = 0 then freturn (r, 0)
     else
       fbind (dir_alloc_file dir) (\<lambda>(r, f).
       if r < 0 then freturn (r, 0)
       else
         fbind (wr_mem f (poke f (the last @ [0]))) (\<lambda>_.
         fbind (file_flush dir) (\<lambda>_. freturn (0, f)))))"

definition file_open :: "u8 list \<Rightarrow> (int \<times> nat) fsm" where
  "file_open path = fbind (walk_path path) (\<lambda>(r, dir, f, last). freturn (r, f))"

text \<open>One round of the copying loops: how many bytes of the block at \<open>pos\<close> there are to copy.\<close>

definition chunk :: "nat \<Rightarrow> nat \<Rightarrow> nat" where
  "chunk pos limit = min (BLKSIZE - pos mod BLKSIZE) (limit - pos)"

lemma chunk_pos: "pos < limit \<Longrightarrow> 0 < chunk pos limit"
  by (simp add: chunk_def)

function read_loop :: "nat \<Rightarrow> nat \<Rightarrow> nat \<Rightarrow> u8 list \<Rightarrow> (int \<times> u8 list) fsm" where
  "read_loop f pos limit buf =
     (if pos < limit then
        fbind (file_get_block f (pos div BLKSIZE)) (\<lambda>(r, blk).
        if r < 0 then freturn (r, buf)
        else
          fbind (rd_range (blk + pos mod BLKSIZE) (chunk pos limit)) (\<lambda>bytes.
          read_loop f (pos + chunk pos limit) limit (buf @ bytes)))
      else freturn (0, buf))"
  by pat_completeness auto
termination
  using chunk_pos by (relation "measure (\<lambda>(f, pos, limit, buf). limit - pos)") (auto intro: diff_less_mono2)

declare read_loop.simps [simp del]

definition file_read :: "nat \<Rightarrow> nat \<Rightarrow> nat \<Rightarrow> (int \<times> u8 list) fsm" where
  "file_read f count offset =
     fbind (rd32 (f_size f)) (\<lambda>sz.
     if int offset \<ge> sint sz then freturn (0, [])
     else
       let n = min count (nat (sint sz) - offset)
       in fbind (read_loop f offset (offset + n) []) (\<lambda>(r, bytes).
            if r < 0 then freturn (r, bytes) else freturn (int n, bytes)))"

definition file_free_block :: "nat \<Rightarrow> nat \<Rightarrow> int fsm" where
  "file_free_block f filebno =
     fbind (file_block_walk f filebno False) (\<lambda>(r, p).
     if r < 0 then freturn r
     else
       fbind (rd32 p) (\<lambda>v.
       if v = 0 then freturn 0
       else fbind (free_block (unat v)) (\<lambda>_. fbind (wr32 p 0) (\<lambda>_. freturn 0))))"

text \<open>A failure to free one block is only reported on the console.\<close>

primrec free_blocks :: "nat \<Rightarrow> nat \<Rightarrow> nat \<Rightarrow> unit fsm" where
  "free_blocks f 0 bno = freturn ()"
| "free_blocks f (Suc k) bno = fbind (file_free_block f bno) (\<lambda>_. free_blocks f k (bno + 1))"

definition file_truncate_blocks :: "nat \<Rightarrow> nat \<Rightarrow> unit fsm" where
  "file_truncate_blocks f newsize =
     fbind (rd32 (f_size f)) (\<lambda>sz.
     let old_nblocks = (unat sz + BLKSIZE - 1) div BLKSIZE;
         new_nblocks = (newsize + BLKSIZE - 1) div BLKSIZE
     in fbind (free_blocks f (old_nblocks - new_nblocks) new_nblocks) (\<lambda>_.
        fbind (rd32 (f_indirect f)) (\<lambda>ind.
        if new_nblocks \<le> NDIRECT \<and> ind \<noteq> 0 then
          fbind (free_block (unat ind)) (\<lambda>_. wr32 (f_indirect f) 0)
        else freturn ())))"

definition file_set_size :: "nat \<Rightarrow> nat \<Rightarrow> int fsm" where
  "file_set_size f newsize =
     fbind (rd32 (f_size f)) (\<lambda>sz.
     fbind (if sint sz > int newsize then file_truncate_blocks f newsize else freturn ()) (\<lambda>_.
     fbind (wr32 (f_size f) (of_nat newsize)) (\<lambda>_.
     fbind (flush_block f) (\<lambda>_. freturn 0))))"

function write_loop :: "nat \<Rightarrow> nat \<Rightarrow> nat \<Rightarrow> u8 list \<Rightarrow> int fsm" where
  "write_loop f pos limit buf =
     (if pos < limit then
        fbind (file_get_block f (pos div BLKSIZE)) (\<lambda>(r, blk).
        if r < 0 then freturn r
        else
          fbind (wr_mem (blk + pos mod BLKSIZE) (poke (blk + pos mod BLKSIZE) (take (chunk pos limit) buf))) (\<lambda>_.
          write_loop f (pos + chunk pos limit) limit (drop (chunk pos limit) buf)))
      else freturn 0)"
  by pat_completeness auto
termination
  using chunk_pos by (relation "measure (\<lambda>(f, pos, limit, buf). limit - pos)") (auto intro: diff_less_mono2)

declare write_loop.simps [simp del]

definition file_write :: "nat \<Rightarrow> u8 list \<Rightarrow> nat \<Rightarrow> int fsm" where
  "file_write f buf offset =
     fbind (rd32 (f_size f)) (\<lambda>sz.
     fbind (if offset + length buf > unat sz then file_set_size f (offset + length buf) else freturn 0) (\<lambda>r.
     if r < 0 then freturn r
     else
       fbind (write_loop f offset (offset + length buf) buf) (\<lambda>r.
       if r < 0 then freturn r else freturn (int (length buf)))))"

primrec sync_loop :: "nat \<Rightarrow> nat \<Rightarrow> unit fsm" where
  "sync_loop 0 i = freturn ()"
| "sync_loop (Suc k) i = fbind (diskaddr i) (\<lambda>a. fbind (flush_block a) (\<lambda>_. sync_loop k (i + 1)))"

definition fs_sync :: "unit fsm" where
  "fs_sync = fbind (super_nblocks bc_access) (\<lambda>n. sync_loop (n - 1) 1)"

section \<open>The bitmap\<close>

definition reserved :: "fs_state \<Rightarrow> nat \<Rightarrow> bool" where
  "reserved s b \<longleftrightarrow> b = 0 \<or> b = 1 \<or> (2 \<le> b \<and> (b - 2) * BLKBITSIZE < nblocks s)"

lemma mounted_reserved_iff:
  "mounted s \<longleftrightarrow> has_super s \<and> has_bitmap s \<and> cached s 1 \<and> coherent s \<and> 2 < nblocks s \<and> nblocks s \<le> 786432
     \<and> (\<forall>b. reserved s b \<longrightarrow> b < nblocks s \<and> \<not> free_bit s b)"
proof -
  have "(\<forall>b. reserved s b \<longrightarrow> b < nblocks s \<and> \<not> free_bit s b) \<longleftrightarrow> (0 < nblocks s \<and> 1 < nblocks s \<and> \<not> free_bit s 0
     \<and> \<not> free_bit s 1 \<and> (\<forall>i. i * BLKBITSIZE < nblocks s \<longrightarrow> 2 + i < nblocks s \<and> \<not> free_bit s (2 + i)))"
    unfolding reserved_def by (metis (no_types, lifting) add_diff_cancel_left' le_Suc_ex le_add1)
  then show ?thesis unfolding mounted_def by auto
qed

lemma mounted_wrote:
  assumes "mounted s" "wrote s b f s'" "nblocks s' = nblocks s"
    "\<And>x. free_bit s' x \<Longrightarrow> free_bit s x \<or> \<not> reserved s x"
  shows "mounted s'"
  using assms unfolding mounted_reserved_iff reserved_def wrote_def by (metis (no_types, lifting))

lemma load32_wrote:
  assumes "wrote s b f s'" "in_diskmap a" "in_diskmap (a + 3)"
  shows "load32 (view s') a = load32 (f (view s)) a"
  using assms by (intro load32_cong) (auto simp: wrote_def in_diskmap_def)

lemma bitmap_words_apart:
  "c div 32 \<noteq> d div 32 \<Longrightarrow> bitmap_word c + 4 \<le> bitmap_word d \<or> bitmap_word d + 4 \<le> bitmap_word c"
  unfolding bitmap_word_def by linarith

lemma bitmap_word_eq: "c div 32 = d div 32 \<Longrightarrow> bitmap_word c = bitmap_word d"
  by (simp add: bitmap_word_def)

lemma bitmap_word_super: "block_addr 1 + 4 + 4 \<le> bitmap_word b"
  by (simp add: bitmap_word_def block_addr_def)

lemma nblocks_bitmap_write:
  "wrote s b (store32 (bitmap_word c) w) s' \<Longrightarrow> nblocks s' = nblocks s"
  using load32_wrote [of s b _ s' "block_addr 1 + 4"] super_in bitmap_word_super [of c]
  by (simp add: nblocks_def)

lemma free_bit_bitmap_write:
  assumes "wrote s b (store32 (bitmap_word c) w) s'" "nblocks s \<le> 786432"
  shows "free_bit s' x \<longleftrightarrow> x < nblocks s \<and>
    (if x div 32 = c div 32 then w AND push_bit (x mod 32) 1 \<noteq> 0 else free_bit s x)"
proof (cases "x < nblocks s")
  case True
  then have "load32 (view s') (bitmap_word x) = load32 (store32 (bitmap_word c) w (view s)) (bitmap_word x)"
    using load32_wrote [OF assms(1)] bitmap_in [of x] assms(2) by simp
  also have "\<dots> = (if x div 32 = c div 32 then w else load32 (view s) (bitmap_word x))"
    using bitmap_words_apart [of c x] bitmap_word_eq [of x c] by auto
  finally show ?thesis using True nblocks_bitmap_write [OF assms(1)] by (auto simp: free_bit_def)
next
  case False
  then show ?thesis using nblocks_bitmap_write [OF assms(1)] by (simp add: free_bit_def)
qed

lemma bitmap_usable:
  assumes "mounted s" "b < nblocks s"
  shows "usable s (bitmap_word b)" "in_block (block_of (bitmap_word b)) (bitmap_word b)"
    "in_block (block_of (bitmap_word b)) (bitmap_word b + 3)" "in_diskmap (bitmap_word b + 3)"
    "block_of (bitmap_word b + 3) = block_of (bitmap_word b)"
proof -
  have n: "b < 786432" and r: "b div 32768 * 32768 < nblocks s"
    using assms le_less_trans [OF div_times_less_eq_dividend assms(2)] by (simp_all add: mounted_def)
  show "usable s (bitmap_word b)"
    using mounted_reserved [OF assms(1) r] bitmap_in(1) [OF n] by (simp add: bitmap_block)
  show "in_diskmap (bitmap_word b + 3)" using n by (rule bitmap_in)
  show "in_block (block_of (bitmap_word b)) (bitmap_word b)" "in_block (block_of (bitmap_word b)) (bitmap_word b + 3)"
    "block_of (bitmap_word b + 3) = block_of (bitmap_word b)"
    using bitmap_in [OF n] by (simp_all add: in_block_iff bitmap_block)
qed

text \<open>The bitmap word of block \<open>c\<close> becomes \<open>w\<close>, nothing else changes.\<close>

definition bitmap_set :: "fs_state \<Rightarrow> nat \<Rightarrow> u32 \<Rightarrow> fs_state \<Rightarrow> bool" where
  "bitmap_set s c w s' \<longleftrightarrow> mounted s' \<and> nblocks s' = nblocks s
     \<and> (\<forall>x. in_diskmap x \<longrightarrow> view s' x = store32 (bitmap_word c) w (view s) x)
     \<and> (\<forall>x. free_bit s' x \<longleftrightarrow> x < nblocks s \<and>
          (if x div 32 = c div 32 then w AND push_bit (x mod 32) 1 \<noteq> 0 else free_bit s x))"

lemma wr_bitmap_runs:
  assumes m: "mounted s" and c: "c < nblocks s"
    and w: "\<And>x. x div 32 = c div 32 \<Longrightarrow> reserved s x \<Longrightarrow> w AND push_bit (x mod 32) 1 = 0"
    and Q: "\<And>s'. bitmap_set s c w s' \<Longrightarrow> disk s' = disk s \<Longrightarrow> Q () s'"
  shows "runs (wr32 (bitmap_word c) w) s Q"
proof (rule wr32_runs [OF m bitmap_usable(1-3) [OF m c]])
  fix s' assume s': "wrote s (block_of (bitmap_word c)) (store32 (bitmap_word c) w) s'"
  have n: "nblocks s \<le> 786432" using m by (simp add: mounted_def)
  note fb = free_bit_bitmap_write [OF s' n]
  have "mounted s'"
    using w m by (intro mounted_wrote [OF m s' nblocks_bitmap_write [OF s']]) (auto simp: fb split: if_splits)
  then show "Q () s'" using s' fb nblocks_bitmap_write [OF s'] by (intro Q) (simp_all add: bitmap_set_def wrote_def)
qed

lemma nblocks_view: "view s' = view s \<Longrightarrow> nblocks s' = nblocks s"
  by (simp only: nblocks_def)

lemma free_bit_view: "view s' = view s \<Longrightarrow> free_bit s' = free_bit s"
  by (rule ext) (simp only: free_bit_def nblocks_def)

lemma mounted_flushed:
  assumes "flushed s b s'" "mounted s"
  shows "mounted s'"
proof -
  have v: "view s' = view s" using assms(1) by (simp add: flushed_def)
  show ?thesis
    using assms unfolding mounted_def nblocks_view [OF v] free_bit_view [OF v] by (simp add: flushed_def)
qed

lemma bitmap_set_same:
  assumes "same_fs s s1" "mounted s" "bitmap_set s1 c w s'"
  shows "bitmap_set s c w s'"
proof -
  have "store32 (bitmap_word c) w (view s1) x = store32 (bitmap_word c) w (view s) x" if "in_diskmap x" for x
    using that assms(1) by (simp add: store32_def same_fs_def)
  then show ?thesis
    using assms nblocks_same [OF assms(1)] free_bit_same [OF assms(1)]
    by (simp add: bitmap_set_def mounted_def [of s])
qed

lemma bitmap_set_flushed:
  assumes "bitmap_set s c w s1" "flushed s1 b s'"
  shows "bitmap_set s c w s'"
proof -
  have v: "view s' = view s1" using assms(2) by (simp add: flushed_def)
  show ?thesis
    using assms mounted_flushed [OF assms(2)]
    unfolding bitmap_set_def nblocks_view [OF v] free_bit_view [OF v] v by blast
qed

lemma rd_bitmap_runs:
  assumes "mounted s" "c < nblocks s"
    "\<And>s'. same_fs s s' \<Longrightarrow> Q (load32 (view s) (bitmap_word c)) s'"
  shows "runs (rd32 (bitmap_word c)) s Q"
  using assms bitmap_usable [OF assms(1,2)] by (intro rd32_runs) auto

text \<open>The first block of the bitmap has been written back, and no other block.\<close>

definition bitmap_saved :: "fs_state \<Rightarrow> fs_state \<Rightarrow> bool" where
  "bitmap_saved s s' \<longleftrightarrow> (\<forall>i < BLKSIZE. disk s' 2 i = view s' (block_addr 2 + i)) \<and> (\<forall>b. b \<noteq> 2 \<longrightarrow> disk s' b = disk s b)"

lemma flushed_saved:
  assumes "flushed s 2 s'" "mounted s" "disk s = disk t"
  shows "bitmap_saved t s'"
proof -
  have c: "coherent s'" using assms by (simp add: flushed_def mounted_def)
  have b: "block_of (block_addr 2 + i) = 2" if "i < BLKSIZE" for i using that block_of_addr [of i 2] by simp
  have "disk s' 2 i = view s' (block_addr 2 + i)" if i: "i < BLKSIZE" for i
  proof (cases "cached s' 2")
    case True
    then have "\<not> dirty s' 2" using assms(1) by (simp add: flushed_def)
    with True c i show ?thesis by (simp add: view_def b coherent_def)
  next
    case False
    then show ?thesis using i by (simp add: view_def b)
  qed
  then show ?thesis using assms(1,3) by (simp add: bitmap_saved_def flushed_def)
qed

lemma alloc_found_runs:
  assumes m: "mounted s" and c: "free_bit s c"
    and Q: "\<And>s'. bitmap_set s c 0 s' \<Longrightarrow> bitmap_saved s s' \<Longrightarrow> Q (int c) s'"
  shows "runs (fbind (rd32 (bitmap_word c)) (\<lambda>w.
       fbind (wr32 (bitmap_word c) (w AND push_bit (c mod 32) 0)) (\<lambda>_.
       fbind (flush_block (block_addr 2)) (\<lambda>_.
       freturn (int c))))) s Q"
  unfolding runs_bind
proof (rule rd_bitmap_runs [OF m])
  show cn: "c < nblocks s" using c by (simp add: free_bit_def)
  fix s1 assume s1: "same_fs s s1"
  have m1: "mounted s1" using s1 m by (rule mounted_same)
  have cn1: "c < nblocks s1" using cn by (simp add: nblocks_same [OF s1])
  show "runs (wr32 (bitmap_word c) (load32 (view s) (bitmap_word c) AND push_bit (c mod 32) 0)) s1
      (\<lambda>x s'. runs (flush_block (block_addr 2)) s' (\<lambda>x s'. runs (freturn (int c)) s' Q))"
  proof (rule wr_bitmap_runs [OF m1 cn1])
    fix s2 assume "bitmap_set s1 c (load32 (view s) (bitmap_word c) AND push_bit (c mod 32) 0) s2"
      and d: "disk s2 = disk s1"
    then have s2: "bitmap_set s c 0 s2" using bitmap_set_same [OF s1 m] by simp
    have d: "disk s2 = disk s" using d s1 by (simp add: same_fs_def)
    have m2: "mounted s2" using s2 by (simp add: bitmap_set_def)
    show "runs (flush_block (block_addr 2)) s2 (\<lambda>x s'. runs (freturn (int c)) s' Q)"
    proof (rule flush_block_runs)
      show "in_diskmap (block_addr 2)" by (simp add: in_diskmap_def block_addr_def)
      fix s3 assume f: "flushed s2 (block_of (block_addr 2)) s3"
      have "bitmap_saved s s3" using flushed_saved [OF _ m2 d] f block_of_addr [of 0 2] by simp
      moreover have "bitmap_set s c 0 s3" using s2 f by (rule bitmap_set_flushed)
      ultimately show "runs (freturn (int c)) s3 Q" by (simp add: Q)
    qed
  qed simp
qed

lemma alloc_loop_runs:
  assumes "mounted s" "b + k = nblocks s"
    "\<And>s'. same_fs s s' \<Longrightarrow> \<forall>c. b \<le> c \<longrightarrow> \<not> free_bit s c \<Longrightarrow> Q (- E_NO_DISK) s'"
    "\<And>c s1 s'. same_fs s s1 \<Longrightarrow> b \<le> c \<Longrightarrow> free_bit s c \<Longrightarrow> \<forall>d. b \<le> d \<and> d < c \<longrightarrow> \<not> free_bit s d \<Longrightarrow>
       bitmap_set s c 0 s' \<Longrightarrow> bitmap_saved s s' \<Longrightarrow> Q (int c) s'"
  shows "runs (alloc_loop k b) s Q"
  using assms
proof (induction k arbitrary: b s)
  case 0
  then have "Q (- E_NO_DISK) s" by (intro 0(3) same_fs_refl) (auto simp: free_bit_def)
  then show ?case by simp
next
  case (Suc k)
  show ?case
    unfolding alloc_loop.simps runs_bind
  proof (rule block_is_free_runs [OF Suc.prems(1)])
    fix s1 assume s1: "same_fs s s1"
    have m1: "mounted s1" using s1 Suc.prems(1) by (rule mounted_same)
    have n1: "nblocks s1 = nblocks s" using s1 by (rule nblocks_same)
    have f1: "free_bit s1 = free_bit s"
      using free_bit_same [OF s1] Suc.prems(1) by (auto simp: mounted_def)
    note bs = bitmap_set_same [OF s1 Suc.prems(1)]
    have sv: "bitmap_saved s1 s' \<Longrightarrow> bitmap_saved s s'" for s' using s1 by (simp add: bitmap_saved_def same_fs_def)
    show "runs (if free_bit s b then fbind (rd32 (bitmap_word b)) (\<lambda>w.
       fbind (wr32 (bitmap_word b) (w AND push_bit (b mod 32) 0)) (\<lambda>_.
       fbind (flush_block (block_addr 2)) (\<lambda>_. freturn (int b)))) else alloc_loop k (b + 1)) s1 Q"
    proof (cases "free_bit s b")
      case True
      have "runs (fbind (rd32 (bitmap_word b)) (\<lambda>w.
         fbind (wr32 (bitmap_word b) (w AND push_bit (b mod 32) 0)) (\<lambda>_.
         fbind (flush_block (block_addr 2)) (\<lambda>_. freturn (int b))))) s1 Q"
      proof (rule alloc_found_runs [OF m1])
        show "free_bit s1 b" using True f1 by simp
        fix s' assume "bitmap_set s1 b 0 s'" "bitmap_saved s1 s'"
        with True show "Q (int b) s'" by (intro Suc.prems(4) [OF s1] bs sv) auto
      qed
      with True show ?thesis by simp
    next
      case False
      have "runs (alloc_loop k (b + 1)) s1 Q"
      proof (rule Suc.IH [OF m1])
        show "b + 1 + k = nblocks s1" using Suc.prems(2) n1 by simp
        fix s' assume s': "same_fs s1 s'" "\<forall>c. b + 1 \<le> c \<longrightarrow> \<not> free_bit s1 c"
        then show "Q (- E_NO_DISK) s'"
          using False same_fs_trans [OF s1 s'(1)] f1 by (intro Suc.prems(3)) (metis Suc_eq_plus1 Suc_leI le_neq_implies_less)+
      next
        fix c s2 s' assume c: "same_fs s1 s2" "b + 1 \<le> c" "free_bit s1 c" "\<forall>d. b + 1 \<le> d \<and> d < c \<longrightarrow> \<not> free_bit s1 d"
          "bitmap_set s1 c 0 s'" "bitmap_saved s1 s'"
        have "\<forall>d. b \<le> d \<and> d < c \<longrightarrow> \<not> free_bit s d"
          using c(4) False f1 by (metis Suc_eq_plus1 Suc_leI le_neq_implies_less)
        with c f1 show "Q (int c) s'"
          by (intro Suc.prems(4) [OF same_fs_trans [OF s1 c(1)]] bs sv) auto
      qed
      with False show ?thesis by simp
    qed
  qed
qed

lemma alloc_block_runs:
  assumes m: "mounted s"
    and none: "\<And>s'. same_fs s s' \<Longrightarrow> \<forall>c. \<not> free_bit s c \<Longrightarrow> Q (- E_NO_DISK) s'"
    and some: "\<And>c s'. free_bit s c \<Longrightarrow> \<forall>d < c. \<not> free_bit s d \<Longrightarrow> bitmap_set s c 0 s' \<Longrightarrow> bitmap_saved s s' \<Longrightarrow> Q (int c) s'"
  shows "runs alloc_block s Q"
  unfolding alloc_block_def runs_bind super_runs [OF m]
  using m by (rule alloc_loop_runs) (auto intro: none some)

lemma free_block_runs:
  assumes m: "mounted s" and b: "b < nblocks s" "\<not> reserved s b"
    and Q: "\<And>s'. bitmap_set s b (load32 (view s) (bitmap_word b) OR push_bit (b mod 32) 1) s' \<Longrightarrow> Q () s'"
  shows "runs (free_block b) s Q"
proof -
  have "b \<noteq> 0" using b(2) by (simp add: reserved_def)
  moreover have "runs (fbind (rd32 (bitmap_word b)) (\<lambda>w. wr32 (bitmap_word b) (w OR push_bit (b mod 32) 1))) s Q"
    unfolding runs_bind
  proof (rule rd_bitmap_runs [OF m b(1)])
    fix s1 assume s1: "same_fs s s1"
    have m1: "mounted s1" using s1 m by (rule mounted_same)
    have n1: "nblocks s1 = nblocks s" using s1 by (rule nblocks_same)
    show "runs (wr32 (bitmap_word b) (load32 (view s) (bitmap_word b) OR push_bit (b mod 32) 1)) s1 Q"
    proof (rule wr_bitmap_runs [OF m1])
      show "b < nblocks s1" using b n1 by simp
      fix x assume x: "x div 32 = b div 32" "reserved s1 x"
      then have r: "reserved s x" "x \<noteq> b" using b(2) n1 by (auto simp: reserved_def)
      then have "\<not> free_bit s x" "x < nblocks s" using m by (auto simp: mounted_reserved_iff)
      then have z: "load32 (view s) (bitmap_word b) AND push_bit (x mod 32) 1 = 0"
        using x(1) bitmap_word_eq [of x b] by (simp add: free_bit_def)
      have "x mod 32 \<noteq> b mod 32" using x(1) r(2) by (metis div_mult_mod_eq)
      then have "push_bit (b mod 32) 1 AND push_bit (x mod 32) 1 = (0 :: u32)"
        by (intro bit_word_eqI) (auto simp: bit_simps)
      with z show "(load32 (view s) (bitmap_word b) OR push_bit (b mod 32) 1) AND push_bit (x mod 32) 1 = 0"
        by (simp add: bit.conj_disj_distrib2)
    next
      fix s' assume "bitmap_set s1 b (load32 (view s) (bitmap_word b) OR push_bit (b mod 32) 1) s'"
      then show "Q () s'" by (intro Q bitmap_set_same [OF s1 m])
    qed
  qed
  ultimately show ?thesis by (simp add: free_block_def)
qed

section \<open>A small file system\<close>

text \<open>
  Sixty-four blocks, all free but the first three; the super block is in the cache. \<open>extra\<close> is
  what the root directory's structure holds, from its size on.
\<close>

definition small_disk :: "nat \<Rightarrow> nat \<Rightarrow> u8" where
  "small_disk b = (if b = 1 then store32 0 FS_MAGIC (store32 4 64 (\<lambda>_. 0))
     else if b = 2 then store32 0 0xFFFFFFF8 (store32 4 0xFFFFFFFF (\<lambda>_. 0)) else (\<lambda>_. 0))"

definition small_fs :: "(nat \<Rightarrow> nat \<Rightarrow> u8) \<Rightarrow> fs_state" where
  "small_fs d = \<lparr>disk = d, cached = (\<lambda>b. b = 1), dirty = (\<lambda>_. False),
     cmem = (\<lambda>a. d (block_of a) (a - block_addr (block_of a))), has_super = True, has_bitmap = True\<rparr>"

lemma view_small_fs: "view (small_fs d) a = d (block_of a) (a - block_addr (block_of a))"
  by (simp add: view_def small_fs_def)

lemma load32_small_fs:
  assumes "i + 4 \<le> 4096"
  shows "load32 (view (small_fs d)) (block_addr b + i) = load32 (d b) i"
proof -
  have "view (small_fs d) (block_addr b + i + j) = d b (i + j)" if "j < 4" for j
    using that assms block_of_addr [of "i + j" b] by (simp add: view_small_fs add.assoc)
  from this [of 0] this [of 1] this [of 2] this [of 3] show ?thesis by (simp add: load32_def)
qed

definition small_super :: "(nat \<Rightarrow> nat \<Rightarrow> u8) \<Rightarrow> bool" where
  "small_super d \<longleftrightarrow> load32 (d 1) 4 = 64 \<and> load32 (d 2) 0 = 0xFFFFFFF8 \<and> load32 (d 2) 4 = 0xFFFFFFFF"

lemma small_super_disk: "small_super small_disk"
  by (simp add: small_super_def small_disk_def)

lemma nblocks_small: "small_super d \<Longrightarrow> nblocks (small_fs d) = 64"
  using load32_small_fs [of 4 d 1] by (simp add: nblocks_def small_super_def)

lemma free_bit_small:
  assumes "small_super d"
  shows "free_bit (small_fs d) b \<longleftrightarrow> 3 \<le> b \<and> b < 64"
proof -
  have w: "load32 (view (small_fs d)) (bitmap_word b) = (if b < 32 then 0xFFFFFFF8 else 0xFFFFFFFF)" if "b < 64"
  proof -
    have "b div 32 = (if b < 32 then 0 else 1)" using that by (simp add: div_nat_eqI)
    then show ?thesis
      using that assms load32_small_fs [of 0 d 2] load32_small_fs [of 4 d 2]
      by (simp add: bitmap_word_def small_super_def)
  qed
  have bits: "\<forall>b \<in> set [0..<64]. ((if b < 32 then 0xFFFFFFF8 else 0xFFFFFFFF :: u32) AND push_bit (b mod 32) 1 \<noteq> 0)
      \<longleftrightarrow> 3 \<le> b"
    by (simp add: upt_rec)
  show ?thesis
  proof (cases "b < 64")
    case True
    with bits w [OF True] show ?thesis by (simp add: free_bit_def nblocks_small [OF assms])
  qed (simp add: free_bit_def nblocks_small [OF assms])
qed

lemma mounted_small: "small_super d \<Longrightarrow> mounted (small_fs d)"
  by (simp add: mounted_def nblocks_small free_bit_small)
    (simp add: small_fs_def coherent_def)

section \<open>Properties\<close>

lemma one_bits:
  assumes "a < 32"
  shows "(push_bit a 1 AND push_bit b 1 :: u32) \<noteq> 0 \<longleftrightarrow> a = b"
proof (cases "a = b")
  case True
  with assms have "bit (push_bit a 1 AND push_bit b 1 :: u32) a" by (simp add: bit_simps)
  with True show ?thesis by (metis bit_0_eq bot_apply bot_bool_def)
next
  case False
  then have "(push_bit a 1 AND push_bit b 1 :: u32) = 0" by (intro bit_word_eqI) (auto simp: bit_simps)
  with False show ?thesis by simp
qed

lemma free_bit_less: "free_bit s b \<Longrightarrow> b < nblocks s"
  by (simp add: free_bit_def)

lemma free_bit_word:
  "x < nblocks s \<Longrightarrow> x div 32 = b div 32 \<Longrightarrow>
     load32 (view s) (bitmap_word b) AND push_bit (x mod 32) 1 \<noteq> 0 \<longleftrightarrow> free_bit s x"
  using bitmap_word_eq [of x b] by (simp add: free_bit_def)

lemma bitmap_set_mounted: "bitmap_set s c w s' \<Longrightarrow> mounted s'"
  by (simp add: bitmap_set_def)

lemma bitmap_set_free_bit:
  "bitmap_set s c w s' \<Longrightarrow> free_bit s' x \<longleftrightarrow> x < nblocks s \<and>
     (if x div 32 = c div 32 then w AND push_bit (x mod 32) 1 \<noteq> 0 else free_bit s x)"
  by (simp add: bitmap_set_def)

lemma bitmap_set_0: "bitmap_set s c 0 s' \<Longrightarrow> free_bit s' x \<longleftrightarrow> free_bit s x \<and> x div 32 \<noteq> c div 32"
  using free_bit_less by (auto simp: bitmap_set_free_bit)



text \<open>
  Allocating one block takes every block of its bitmap word: the word is cleared, so
  the up to 31 other free blocks next to the one returned are lost, and no call returns them.
\<close>

theorem alloc_block_loses_word:
  assumes "mounted s" "free_bit s c"
  shows "runs alloc_block s (\<lambda>r s'. 0 \<le> r \<and> (\<forall>d. free_bit s' d \<longleftrightarrow> free_bit s d \<and> d div 32 \<noteq> nat r div 32))"
  using assms by (intro alloc_block_runs) (auto simp: bitmap_set_0)

theorem alloc_block_loses_word_witness:
  "runs alloc_block (small_fs small_disk) (\<lambda>r s'. free_bit s' 5 \<longleftrightarrow> nat r div 32 \<noteq> 0)"
proof (rule runs_mono)
  have "free_bit (small_fs small_disk) 5" by (simp add: free_bit_small small_super_disk)
  with mounted_small [OF small_super_disk]
  show "runs alloc_block (small_fs small_disk) (\<lambda>r s'. 0 \<le> r \<and>
      (\<forall>d. free_bit s' d \<longleftrightarrow> free_bit (small_fs small_disk) d \<and> d div 32 \<noteq> nat r div 32))"
    by (rule alloc_block_loses_word)
  fix r s' assume "0 \<le> r \<and> (\<forall>d. free_bit s' d \<longleftrightarrow> free_bit (small_fs small_disk) d \<and> d div 32 \<noteq> nat r div 32)"
  then show "free_bit s' 5 \<longleftrightarrow> nat r div 32 \<noteq> 0" by (simp add: free_bit_small small_super_disk)
qed

text \<open>
  \<open>free_block\<close> of a block in use makes that block free and no other, and keeps the
  file system mounted.
\<close>

theorem free_block_frees:
  assumes "mounted s" "b < nblocks s" "\<not> reserved s b"
  shows "runs (free_block b) s (\<lambda>_ s'. mounted s' \<and> (\<forall>d. free_bit s' d \<longleftrightarrow> free_bit s d \<or> d = b))"
  using assms
proof (rule free_block_runs)
  fix s' assume s': "bitmap_set s b (load32 (view s) (bitmap_word b) OR push_bit (b mod 32) 1) s'"
  have one: "(push_bit (b mod 32) 1 AND push_bit (d mod 32) 1 :: u32) \<noteq> 0 \<longleftrightarrow> b mod 32 = d mod 32" for d
    by (rule one_bits) simp
  have "free_bit s' d \<longleftrightarrow> free_bit s d \<or> d = b" for d
  proof (cases "d < nblocks s \<and> d div 32 = b div 32")
    case True
    then have "d = b \<longleftrightarrow> b mod 32 = d mod 32" by (metis div_mult_mod_eq)
    with True free_bit_word [of d s b] one [of d] show ?thesis
      by (simp only: bitmap_set_free_bit [OF s'] bit.conj_disj_distrib2 or_eq_0_iff) auto
  next
    case False
    with assms(2) free_bit_less [of s d] show ?thesis by (auto simp: bitmap_set_free_bit [OF s'])
  qed
  then show "mounted s' \<and> (\<forall>d. free_bit s' d \<longleftrightarrow> free_bit s d \<or> d = b)"
    using bitmap_set_mounted [OF s'] by simp
qed

theorem free_block_frees_witness:
  "runs (free_block 5) (small_fs small_disk) (\<lambda>_ s'. free_bit s' 5 \<and> mounted s')"
  using free_block_frees [OF mounted_small [OF small_super_disk], of 5]
  by (auto elim!: runs_mono simp: nblocks_small small_super_disk reserved_def)

definition clean :: "fs_state \<Rightarrow> nat \<Rightarrow> bool" where
  "clean s b \<longleftrightarrow> \<not> (cached s b \<and> dirty s b)"

lemma clean_disk:
  "coherent s \<Longrightarrow> clean s b \<Longrightarrow> b < 786432 \<Longrightarrow> i < BLKSIZE \<Longrightarrow> disk s b i = view s (block_addr b + i)"
  by (auto simp: coherent_def clean_def view_def)

lemma clean_flushed: "flushed s b s' \<Longrightarrow> clean s' b \<and> (clean s c \<longrightarrow> clean s' c)"
  by (auto simp: flushed_def clean_def)

lemma sync_loop_runs:
  assumes "mounted s" "0 < i" "i + k \<le> nblocks s"
    "\<And>s'. mounted s' \<Longrightarrow> view s' = view s \<Longrightarrow> \<forall>b. (i \<le> b \<and> b < i + k \<or> clean s b) \<longrightarrow> clean s' b \<Longrightarrow> Q () s'"
  shows "runs (sync_loop k i) s Q"
  using assms
proof (induction k arbitrary: i s)
  case (Suc k)
  have "runs (flush_block (block_addr i)) s (\<lambda>_ s'. runs (sync_loop k (i + 1)) s' Q)"
  proof (rule flush_block_runs)
    show "in_diskmap (block_addr i)"
      using Suc.prems block_addr_in [of i 0] by (simp add: mounted_def)
    fix s1 assume "flushed s (block_of (block_addr i)) s1"
    then have s1: "flushed s i s1" using block_of_addr [of 0 i] by simp
    have m1: "mounted s1" using s1 Suc.prems(1) by (rule mounted_flushed)
    have v1: "view s1 = view s" using s1 by (simp add: flushed_def)
    show "runs (sync_loop k (i + 1)) s1 Q"
    proof (rule Suc.IH [OF m1])
      show "i + 1 + k \<le> nblocks s1" using Suc.prems(3) nblocks_view [OF v1] by simp
      fix s' assume s': "mounted s'" "view s' = view s1"
        "\<forall>b. (i + 1 \<le> b \<and> b < i + 1 + k \<or> clean s1 b) \<longrightarrow> clean s' b"
      have "\<forall>b. (i \<le> b \<and> b < i + Suc k \<or> clean s b) \<longrightarrow> clean s' b"
        using s'(3) clean_flushed [OF s1]
        by (metis Suc_eq_plus1 Suc_leI add_Suc_right add_Suc le_neq_implies_less)
      with s' v1 show "Q () s'" by (intro Suc.prems(4)) simp_all
    qed simp
  qed
  then show ?case using Suc.prems by simp
next
  case 0
  have "Q () s" by (rule 0(4)) (use 0 in auto)
  then show ?case by simp
qed

text \<open>
  Property C34. After \<open>fs_sync\<close> the disk itself holds, in every block, what the cache showed
  before; the cache shows the same as before and the file system stays mounted.
\<close>

theorem fs_sync_writes_all:
  assumes "mounted s"
  shows "runs fs_sync s (\<lambda>_ s'. mounted s' \<and> view s' = view s \<and>
    (\<forall>b i. 0 < b \<and> b < nblocks s \<and> i < BLKSIZE \<longrightarrow> disk s' b i = view s (block_addr b + i)))"
  unfolding fs_sync_def runs_bind super_runs [OF assms]
proof (rule sync_loop_runs [OF assms])
  show "1 + (nblocks s - 1) \<le> nblocks s" using assms by (simp add: mounted_def)
  fix s' assume s': "mounted s'" "view s' = view s"
    "\<forall>b. (1 \<le> b \<and> b < 1 + (nblocks s - 1) \<or> clean s b) \<longrightarrow> clean s' b"
  have "disk s' b i = view s (block_addr b + i)" if "0 < b" "b < nblocks s" "i < BLKSIZE" for b i
  proof -
    have "clean s' b" using s'(3) that by simp
    moreover have "b < 786432" "coherent s'" using that assms s'(1) by (simp_all add: mounted_def)
    ultimately show ?thesis using clean_disk that(3) s'(2) by metis
  qed
  with s' show "mounted s' \<and> view s' = view s \<and>
    (\<forall>b i. 0 < b \<and> b < nblocks s \<and> i < BLKSIZE \<longrightarrow> disk s' b i = view s (block_addr b + i))" by blast
qed simp

theorem fs_sync_writes_all_witness:
  "runs fs_sync (small_fs small_disk) (\<lambda>_ s'. disk s' 5 7 = view (small_fs small_disk) (block_addr 5 + 7))"
  using fs_sync_writes_all [OF mounted_small [OF small_super_disk]]
  by (auto elim!: runs_mono simp: nblocks_small small_super_disk)

end
