(* ===== verification/Jos_File.thy ===== *)
theory Jos_File
  imports Jos_Fs
begin

text \<open>
  What the file operations of \<^verbatim>\<open>Jos_Fs\<close> do to files: which block a file offset is in, the bytes
  \<open>file_read\<close> and \<open>file_write\<close> move, and what happens to blocks past the tenth and on a full disk.
\<close>

section \<open>Where a file structure can be\<close>

text \<open>An address that is neither in the bitmap nor in the words of the super block before the root.\<close>

definition plain :: "fs_state \<Rightarrow> nat \<Rightarrow> bool" where
  "plain s a \<longleftrightarrow> (if block_of a = 1 then block_addr 1 + 8 \<le> a else \<not> reserved s (block_of a))"

definition file_at :: "fs_state \<Rightarrow> nat \<Rightarrow> bool" where
  "file_at s f \<longleftrightarrow> usable s f \<and> in_block (block_of f) f \<and> in_block (block_of f) (f + 255) \<and> plain s f"

lemma in_block_between: "in_block b a \<Longrightarrow> in_block b c \<Longrightarrow> a \<le> x \<Longrightarrow> x \<le> c \<Longrightarrow> in_block b x"
  by (simp add: in_block_def)

lemma usable_in_block:
  assumes "mounted s" "usable s a" "in_block (block_of a) x"
  shows "usable s x" "in_diskmap x" "block_of x = block_of a"
proof -
  show "block_of x = block_of a" using assms(3) by (rule block_of_in_block)
  moreover show "in_diskmap x"
    using assms by (intro in_block_diskmap [OF assms(3)]) (simp add: usable_def mounted_def)
  ultimately show "usable s x" using assms(2) by (simp add: usable_def)
qed

lemma file_at_same: "same_fs s s' \<Longrightarrow> mounted s \<Longrightarrow> file_at s' f = file_at s f"
  by (simp add: file_at_def usable_same plain_def reserved_def nblocks_same)

text \<open>The fields of a file: words inside its structure.\<close>

lemma field_in:
  assumes "file_at s f" "off \<le> 252"
  shows "in_block (block_of f) (f + off)" "in_block (block_of f) (f + off + 3)" "plain s (f + off)"
proof -
  show i: "in_block (block_of f) (f + off)" "in_block (block_of f) (f + off + 3)"
    using assms by (auto simp: file_at_def intro: in_block_between [of _ f "f + 255"])
  then show "plain s (f + off)"
    using assms(1) by (simp add: plain_def file_at_def block_of_in_block split: if_splits)
qed

lemma rd_word_runs:
  assumes "mounted s" "usable s a" "in_block (block_of a) a" "in_block (block_of a) (a + 3)"
    "\<And>s'. same_fs s s' \<Longrightarrow> Q (load32 (view s) a) s'"
  shows "runs (rd32 a) s Q"
  using assms usable_in_block [OF assms(1,2,4)] by (intro rd32_runs) auto

lemma rd_field_runs:
  assumes m: "mounted s" and f: "file_at s f" "off \<le> 252"
    and Q: "\<And>s'. same_fs s s' \<Longrightarrow> Q (load32 (view s) (f + off)) s'"
  shows "runs (rd32 (f + off)) s Q"
proof (rule rd_word_runs [OF m])
  have u: "usable s f" using f(1) by (simp add: file_at_def)
  note i = field_in [OF f]
  show "usable s (f + off)" using usable_in_block [OF m u i(1)] by simp
  show "in_block (block_of (f + off)) (f + off)" "in_block (block_of (f + off)) (f + off + 3)"
    using i usable_in_block [OF m u i(1)] by simp_all
qed (rule Q)

text \<open>A write of a plain word leaves the bitmap and the size of the disk alone.\<close>

lemma load32_outside:
  "x + 4 \<le> a \<or> a + 4 \<le> x \<Longrightarrow> load32 (store32 a w m) x = load32 m x"
  by auto

lemma block_before: "b < c \<Longrightarrow> in_block b x \<Longrightarrow> in_block c y \<Longrightarrow> x < y"
proof -
  assume "b < c" "in_block b x" "in_block c y"
  then have "b * 4096 + 4096 \<le> c * 4096" by simp
  with \<open>in_block b x\<close> \<open>in_block c y\<close> show "x < y" by (simp add: in_block_def block_addr_def)
qed

lemma blocks_apart:
  assumes "in_block b x" "in_block b (x + 3)" "in_block c y" "in_block c (y + 3)" "b \<noteq> c"
  shows "x + 4 \<le> y \<or> y + 4 \<le> x"
  using assms(5) block_before [of b c "x + 3" y] block_before [of c b "y + 3" x] assms
  by (cases "b < c") auto

lemma wrote_plain:
  assumes m: "mounted s" and w: "wrote s (block_of a) (store32 a w) s'"
    and a: "usable s a" "in_block (block_of a) a" "in_block (block_of a) (a + 3)" "plain s a"
  shows "mounted s' \<and> nblocks s' = nblocks s \<and> free_bit s' = free_bit s"
proof -
  have sup: "block_addr 1 + 4 + 4 \<le> a \<or> a + 4 \<le> block_addr 1 + 4"
  proof (cases "block_of a = 1")
    case False
    have "in_block 1 (block_addr 1 + 4)" "in_block 1 (block_addr 1 + 4 + 3)"
      by (simp_all add: in_block_def)
    with False a show ?thesis by (intro blocks_apart [of 1 _ "block_of a"]) auto
  qed (use a(4) in \<open>simp add: plain_def\<close>)
  have n: "nblocks s' = nblocks s"
    using load32_wrote [OF w super_in] load32_outside [OF sup] by (simp add: nblocks_def)
  have "free_bit s' x = free_bit s x" for x
  proof (cases "x < nblocks s")
    case True
    note bm = bitmap_usable [OF m True]
    have "reserved s (block_of (bitmap_word x))"
      using le_less_trans [OF div_times_less_eq_dividend True, of 32768] by (simp add: reserved_def bitmap_block)
    then have ne: "block_of (bitmap_word x) \<noteq> block_of a"
      using a(4) bitmap_block [of x] by (auto simp: plain_def split: if_splits)
    have "bitmap_word x + 4 \<le> a \<or> a + 4 \<le> bitmap_word x"
      using bm(2,3) a(2,3) ne by (intro blocks_apart [of "block_of (bitmap_word x)" _ "block_of a"]) auto
    then show ?thesis
      using load32_wrote [OF w] load32_outside bm(1,4) n by (simp add: free_bit_def usable_def)
  qed (use n in \<open>simp add: free_bit_def\<close>)
  then have f: "free_bit s' = free_bit s" by blast
  with n m have "mounted s'" by (intro mounted_wrote [OF m w]) auto
  with n f show ?thesis by blast
qed

lemma wr_plain_runs:
  assumes "mounted s" "usable s a" "in_block (block_of a) a" "in_block (block_of a) (a + 3)" "plain s a"
    "\<And>s'. wrote s (block_of a) (store32 a w) s' \<Longrightarrow> mounted s' \<Longrightarrow> nblocks s' = nblocks s \<Longrightarrow>
       free_bit s' = free_bit s \<Longrightarrow> Q () s'"
  shows "runs (wr32 a w) s Q"
  using assms wrote_plain [OF assms(1) _ assms(2-5)] by (intro wr32_runs) blast+

section \<open>Block lookup\<close>

definition direct :: "fs_state \<Rightarrow> nat \<Rightarrow> nat \<Rightarrow> nat" where
  "direct s f i = unat (load32 (view s) (f_direct f i))"

definition indirect :: "fs_state \<Rightarrow> nat \<Rightarrow> nat" where
  "indirect s f = unat (load32 (view s) (f_indirect f))"

lemma f_direct_off: "f_direct f i = f + (136 + 4 * i)" "f_indirect f = f + 176" "f_size f = f + 128" "f_type f = f + 132"
  by (simp_all add: f_direct_def f_indirect_def f_size_def f_type_def)

lemma slot_field:
  assumes "mounted s" "file_at s f" "i < 10"
  shows "usable s (f_direct f i)" "in_block (block_of (f_direct f i)) (f_direct f i)"
    "in_block (block_of (f_direct f i)) (f_direct f i + 3)" "plain s (f_direct f i)"
proof -
  have u: "usable s f" using assms(2) by (simp add: file_at_def)
  note i = field_in [OF assms(2), of "136 + 4 * i"]
  have "136 + 4 * i \<le> 252" using assms(3) by simp
  with i show "usable s (f_direct f i)" "in_block (block_of (f_direct f i)) (f_direct f i)"
    "in_block (block_of (f_direct f i)) (f_direct f i + 3)" "plain s (f_direct f i)"
    using usable_in_block [OF assms(1) u, of "f + (136 + 4 * i)"] by (simp_all add: f_direct_off)
qed

lemma walk_direct_runs:
  "filebno < 10 \<Longrightarrow> runs (file_block_walk f filebno a) s Q \<longleftrightarrow> Q (0, f_direct f filebno) s"
  by (simp add: file_block_walk_def)

lemma walk_indirect_runs:
  assumes m: "mounted s" and f: "file_at s f" and i: "10 \<le> filebno" "filebno < 1034"
    and ind: "indirect s f \<noteq> 0" "indirect s f < nblocks s"
    and Q: "\<And>s'. same_fs s s' \<Longrightarrow> Q (0, block_addr (indirect s f) + (filebno - 10)) s'"
  shows "runs (file_block_walk f filebno a) s Q"
proof -
  have rd: "runs (rd32 (f_indirect f)) s' R"
    if "same_fs s s'" "\<And>s''. same_fs s s'' \<Longrightarrow> R (load32 (view s) (f_indirect f)) s''" for s' R
  proof -
    have m': "mounted s'" and f': "file_at s' f"
      using that(1) m f by (simp_all add: mounted_same [of s] file_at_same)
    have e: "load32 (view s') (f + 176) = load32 (view s) (f + 176)"
      using usable_in_block [OF m _ field_in(1) [OF f, of 176]] usable_in_block [OF m _ field_in(2) [OF f, of 176]] f
      by (intro load32_same_fs [OF that(1)]) (simp_all add: file_at_def)
    have "runs (rd32 (f + 176)) s' R"
      using that same_fs_trans [OF that(1)] by (intro rd_field_runs [OF m' f']) (auto simp: e f_direct_off)
    then show ?thesis by (simp add: f_direct_off)
  qed
  have nz: "load32 (view s) (f_indirect f) \<noteq> 0" using ind(1) by (auto simp: indirect_def)
  have last: "runs (diskaddr (unat (load32 (view s) (f_indirect f)))) s2 (\<lambda>p s3. Q (0, p + filebno - 10) s3)"
    if "same_fs s s2" for s2
    using that ind i Q m by (simp add: mounted_same [of s] nblocks_same indirect_def [symmetric])
  have "\<not> 1034 \<le> filebno" "\<not> filebno < 10" using i by simp_all
  then show ?thesis
    using nz last
    apply (simp add: file_block_walk_def split del: if_split)
    apply (rule rd [OF same_fs_refl])
    apply (simp add: nz)
    apply (rule rd, assumption)
    apply (rule last, assumption)
    done
qed

lemma word_same:
  assumes "mounted s" "usable s a" "in_block (block_of a) (a + 3)" "same_fs s s'"
  shows "load32 (view s') a = load32 (view s) a" "usable s' a"
  using load32_same_fs [OF assms(4)] usable_in_block [OF assms(1-3)] assms
  by (simp_all add: usable_def nblocks_same free_bit_same mounted_def)

lemma get_block_runs:
  assumes m: "mounted s"
    and walk: "\<And>R. (\<And>s'. same_fs s s' \<Longrightarrow> R (0, p) s') \<Longrightarrow> runs (file_block_walk f n True) s R"
    and p: "usable s p" "in_block (block_of p) p" "in_block (block_of p) (p + 3)"
    and v: "load32 (view s) p \<noteq> 0" "unat (load32 (view s) p) < nblocks s"
    and Q: "\<And>s'. same_fs s s' \<Longrightarrow> Q (0, block_addr (unat (load32 (view s) p))) s'"
  shows "runs (file_get_block f n) s Q"
proof -
  have rd: "runs (rd32 p) s' R"
    if "same_fs s s'" "\<And>s''. same_fs s s'' \<Longrightarrow> R (load32 (view s) p) s''" for s' R
    using word_same [OF m p(1,3) that(1)] p that same_fs_trans [OF that(1)]
    by (intro rd_word_runs [OF mounted_same [OF that(1) m]]) auto
  have last: "runs (diskaddr (unat (load32 (view s) p))) s' (\<lambda>a s''. Q (0, a) s'')" if "same_fs s s'" for s'
    using that v Q m by (simp add: mounted_same [of s] nblocks_same unat_gt_0)
  show ?thesis
    unfolding file_get_block_def runs_bind
    apply (rule walk)
    apply (simp split del: if_split)
    apply (rule rd, assumption)
    apply (simp add: v)
    apply (rule rd, assumption)
    apply (rule last, assumption)
    done
qed

lemma get_direct_runs:
  assumes "mounted s" "file_at s f" "i < 10" "direct s f i \<noteq> 0" "direct s f i < nblocks s"
    "\<And>s'. same_fs s s' \<Longrightarrow> Q (0, block_addr (direct s f i)) s'"
  shows "runs (file_get_block f i) s Q"
proof (rule get_block_runs [OF assms(1)])
  show "runs (file_block_walk f i True) s R" if "\<And>s'. same_fs s s' \<Longrightarrow> R (0, f_direct f i) s'" for R
    using that [OF same_fs_refl] assms(3) by (simp add: walk_direct_runs)
qed (use slot_field [OF assms(1-3)] assms(4-6) in \<open>auto simp: direct_def\<close>)

lemma get_indirect_runs:
  assumes m: "mounted s" and f: "file_at s f" and i: "10 \<le> n" "n < 1034"
    and ind: "indirect s f \<noteq> 0" "usable s (block_addr (indirect s f))"
    and p: "p = block_addr (indirect s f) + (n - 10)"
    and v: "load32 (view s) p \<noteq> 0" "unat (load32 (view s) p) < nblocks s"
    and Q: "\<And>s'. same_fs s s' \<Longrightarrow> Q (0, block_addr (unat (load32 (view s) p))) s'"
  shows "runs (file_get_block f n) s Q"
proof (rule get_block_runs [OF m])
  let ?b = "indirect s f"
  have b: "block_of (block_addr ?b) = ?b" using block_of_addr [of 0 ?b] by simp
  have lt: "?b < nblocks s" using ind(2) b by (simp add: usable_def)
  show "runs (file_block_walk f n True) s R" if "\<And>s'. same_fs s s' \<Longrightarrow> R (0, p) s'" for R
    using that p by (intro walk_indirect_runs [OF m f i ind(1) lt]) simp
  obtain k where "n = 10 + k" using i(1) le_Suc_ex by blast
  then have pb: "in_block ?b p" "in_block ?b (p + 3)" using i(2) p by (simp_all add: in_block_def)
  then show "usable s p" "in_block (block_of p) p" "in_block (block_of p) (p + 3)"
    using usable_in_block [OF m ind(2), of p] b by simp_all
qed (use v Q in auto)

section \<open>The eleventh block and the ones after it\<close>

lemma shift_bytes:
  fixes b0 b1 b2 b3 :: u8
  shows "(ucast b1 OR push_bit 8 (ucast b2) OR push_bit 16 (ucast b3) :: u32) =
    drop_bit 8 (ucast b0 OR push_bit 8 (ucast b1) OR push_bit 16 (ucast b2) OR push_bit 24 (ucast b3))"
    (is "?l = ?r")
proof (rule bit_word_eqI)
  fix n assume n: "n < LENGTH(32)"
  then consider "n < 8" | "8 \<le> n" "n < 16" | "16 \<le> n" "n < 24" | "24 \<le> n" "n < 32" by fastforce
  then show "bit ?l n = bit ?r n" by cases (auto simp: bit_simps dest: bit_imp_le_length)
qed

lemma shifted_slot:
  assumes z: "m (a + 4) = 0"
  shows "load32 m (a + 1) = drop_bit 8 (load32 m a)"
proof -
  have e: "a + 1 + 1 = a + 2" "a + 1 + 2 = a + 3" "a + 1 + 3 = a + 4" by simp_all
  have "load32 m (a + 1) = (ucast (m (a + 1)) OR push_bit 8 (ucast (m (a + 2))) OR push_bit 16 (ucast (m (a + 3))))"
    unfolding load32_def e z by simp
  then show ?thesis unfolding load32_def [of m a] shift_bytes [of "m (a + 1)" "m (a + 2)" "m (a + 3)" "m a"] .
qed

text \<open>
  The entries of an indirect block overlap: entry \<open>i\<close> is read at byte offset \<open>i\<close>, not
  \<open>4 * i\<close>. If the first entry is block \<open>v\<close> and the byte after it is zero, asking for the
  twelfth block of the file gives the disk block \<open>v div 256\<close>, a block that belongs to
  something else: for \<open>v\<close> from 256 to 511 it is block 1, the super block.
\<close>

theorem indirect_entries_overlap:
  assumes m: "mounted s" and f: "file_at s f"
    and ind: "indirect s f \<noteq> 0" "usable s (block_addr (indirect s f))"
    and v: "unat (load32 (view s) (block_addr (indirect s f))) = v" "view s (block_addr (indirect s f) + 4) = 0"
      "256 \<le> v" "v div 256 < nblocks s"
  shows "runs (file_get_block f 11) s (\<lambda>(r, a) s'. r = 0 \<and> a = block_addr (v div 256))
    \<and> (v < nblocks s \<longrightarrow> runs (file_get_block f 10) s (\<lambda>(r, a) s'. r = 0 \<and> a = block_addr v))"
proof (intro conjI impI)
  let ?a = "block_addr (indirect s f)"
  have w: "unat (load32 (view s) (?a + 1)) = v div 256"
    using v(1) shifted_slot [of "view s" ?a, OF v(2)] by (simp add: unat_drop_bit_word)
  then have nz: "load32 (view s) (?a + 1) \<noteq> 0" using v(3) by (auto simp: unat_eq_0)
  show "runs (file_get_block f 11) s (\<lambda>(r, a) s'. r = 0 \<and> a = block_addr (v div 256))"
    using w nz v(4) by (intro get_indirect_runs [OF m f _ _ ind, of 11]) auto
  show "runs (file_get_block f 10) s (\<lambda>(r, a) s'. r = 0 \<and> a = block_addr v)" if "v < nblocks s"
    using that v by (intro get_indirect_runs [OF m f _ _ ind, of 10]) auto
qed

text \<open>
  A disk of 64 blocks, all in use. The root structure is a file of 6000 bytes with blocks 5 and 6,
  and an indirect block 4 whose first entry is 256.
\<close>

definition file_disk :: "nat \<Rightarrow> nat \<Rightarrow> u8" where
  "file_disk b = (if b = 1 then
       store32 0 FS_MAGIC (store32 4 64 (store32 136 6000 (store32 144 5 (store32 148 6 (store32 184 4 (\<lambda>_. 0))))))
     else if b = 4 then store32 0 256 (\<lambda>_. 0)
     else if b = 5 \<or> b = 6 then (\<lambda>i. of_nat (b + i)) else (\<lambda>_. 0))"

definition full_super :: "(nat \<Rightarrow> nat \<Rightarrow> u8) \<Rightarrow> bool" where
  "full_super d \<longleftrightarrow> load32 (d 1) 4 = 64 \<and> load32 (d 2) 0 = 0 \<and> load32 (d 2) 4 = 0"

lemma full_super_disk: "full_super file_disk"
  by (simp add: full_super_def file_disk_def load32_def [of "\<lambda>_. 0"])

lemma nblocks_full: "full_super d \<Longrightarrow> nblocks (small_fs d) = 64"
  using load32_small_fs [of 4 d 1] by (simp add: nblocks_def full_super_def)

lemma free_bit_full: "full_super d \<Longrightarrow> \<not> free_bit (small_fs d) b"
proof
  assume d: "full_super d" and f: "free_bit (small_fs d) b"
  then have "b < 64" by (simp add: free_bit_def nblocks_full)
  then have "b div 32 = (if b < 32 then 0 else 1)" by (simp add: div_nat_eqI)
  with f d show False
    using load32_small_fs [of 0 d 2] load32_small_fs [of 4 d 2]
    by (simp add: free_bit_def bitmap_word_def full_super_def split: if_splits)
qed

lemma mounted_full: "full_super d \<Longrightarrow> mounted (small_fs d)"
  by (simp add: mounted_def nblocks_full free_bit_full) (simp add: small_fs_def coherent_def)

lemma file_at_root: "full_super d \<Longrightarrow> file_at (small_fs d) s_root"
  using block_of_addr [of 8 1]
  by (simp add: file_at_def usable_def plain_def s_root_def nblocks_full free_bit_full in_block_def
      block_of_def block_addr_def in_diskmap_def)

lemma root_word: "i \<le> 4084 \<Longrightarrow> load32 (view (small_fs d)) (s_root + i) = load32 (d 1) (8 + i)"
  using load32_small_fs [of "8 + i" d 1] by (simp add: s_root_def add.assoc)

theorem indirect_entries_overlap_witness:
  "runs (file_get_block s_root 11) (small_fs file_disk) (\<lambda>(r, a) s'. r = 0 \<and> a = block_addr 1)"
proof -
  let ?s = "small_fs file_disk"
  have ind: "indirect ?s s_root = 4"
    using root_word [of 176 file_disk] by (simp add: indirect_def f_direct_off file_disk_def)
  have v: "load32 (view ?s) (block_addr 4) = 256"
    using load32_small_fs [of 0 file_disk 4] by (simp add: file_disk_def)
  have z: "view ?s (block_addr 4 + 4) = 0"
    using block_of_addr [of 4 4] by (simp add: view_small_fs file_disk_def store32_def)
  have u: "usable ?s (block_addr 4)"
    using block_of_addr [of 0 4]
    by (simp add: usable_def nblocks_full free_bit_full full_super_disk in_diskmap_def block_addr_def)
  show ?thesis
    using indirect_entries_overlap [OF mounted_full file_at_root, OF full_super_disk full_super_disk, of 256]
      ind v z u by (simp add: nblocks_full full_super_disk)
qed

lemma plain_same: "same_fs s s' \<Longrightarrow> plain s' a = plain s a"
  by (simp add: plain_def reserved_def nblocks_same)

text \<open>
  On a full disk \<open>file_get_block\<close> of a block the file does not have yet panics
  instead of returning \<open>-E_NO_DISK\<close>: the error code is stored in the unsigned slot, where
  the test for a negative value cannot see it.
\<close>

theorem file_get_block_full_panics:
  assumes m: "mounted s" and f: "file_at s f" and i: "i < 10" and z: "direct s f i = 0"
    and full: "\<forall>c. \<not> free_bit s c"
  shows "file_get_block f i s = FPanic"
proof -
  let ?p = "f_direct f i"
  note slot = slot_field [OF m f i]
  have "runs (rd32 ?p) s (\<lambda>v s1. v = 0 \<and> same_fs s s1)"
    using z by (intro rd_word_runs [OF m slot(1-3)]) (simp add: direct_def unat_eq_0)
  then obtain s1 where s1: "rd32 ?p s = FOk 0 s1" "same_fs s s1" by (auto dest: runs_D)
  have m1: "mounted s1" using s1(2) m by (rule mounted_same)
  have f1: "\<forall>c. \<not> free_bit s1 c" using full free_bit_same [OF s1(2)] m by (simp add: mounted_def)
  have "runs alloc_block s1 (\<lambda>r s2. r = - E_NO_DISK \<and> same_fs s1 s2)"
    using f1 by (intro alloc_block_runs [OF m1]) auto
  then obtain s2 where s2: "alloc_block s1 = FOk (- E_NO_DISK) s2" "same_fs s1 s2" by (auto dest: runs_D)
  have sm: "same_fs s s2" using s1(2) s2(2) by (rule same_fs_trans)
  have m2: "mounted s2" and n2: "nblocks s2 = nblocks s" using sm m by (simp_all add: mounted_same [of s] nblocks_same)
  have slot2: "usable s2 ?p" "plain s2 ?p"
    using slot sm m by (simp_all add: usable_same plain_same)
  have "runs (wr32 ?p (word_of_int (- E_NO_DISK))) s2 (\<lambda>_ s3. mounted s3 \<and> nblocks s3 = nblocks s2 \<and>
      usable s3 ?p \<and> load32 (view s3) ?p = word_of_int (- E_NO_DISK))"
  proof (rule wr_plain_runs [OF m2 slot2(1) slot(2,3) slot2(2)])
    fix s3 assume s3: "wrote s2 (block_of ?p) (store32 ?p (word_of_int (- E_NO_DISK))) s3" "mounted s3"
      "nblocks s3 = nblocks s2" "free_bit s3 = free_bit s2"
    then have "load32 (view s3) ?p = load32 (store32 ?p (word_of_int (- E_NO_DISK)) (view s2)) ?p"
      using slot2(1) usable_in_block(2) [OF m2 slot2(1) slot(3)] by (intro load32_wrote) (auto simp: usable_def)
    with s3 slot2(1) show "mounted s3 \<and> nblocks s3 = nblocks s2 \<and> usable s3 ?p
        \<and> load32 (view s3) ?p = word_of_int (- E_NO_DISK)"
      by (simp add: usable_def)
  qed
  then obtain s3 where s3: "wr32 ?p (word_of_int (- E_NO_DISK)) s2 = FOk () s3" "mounted s3"
      "nblocks s3 = nblocks s2" "usable s3 ?p" "load32 (view s3) ?p = word_of_int (- E_NO_DISK)"
    by (auto dest: runs_D)
  have "runs (rd32 ?p) s3 (\<lambda>v s4. v = word_of_int (- E_NO_DISK) \<and> same_fs s3 s4)"
    using s3 by (intro rd_word_runs [OF s3(2,4) slot(2,3)]) simp
  then obtain s4 where s4: "rd32 ?p s3 = FOk (word_of_int (- E_NO_DISK)) s4" "same_fs s3 s4" by (auto dest: runs_D)
  have m4: "mounted s4" "nblocks s4 = nblocks s"
    using s4(2) s3(2,3) n2 by (simp_all add: mounted_same [of s3] nblocks_same)
  have bad: "\<not> unat (word_of_int (- E_NO_DISK) :: u32) < nblocks s4"
    using m4 m by (simp add: mounted_def E_NO_DISK_def)
  have "super_nblocks bc_access s4 = FOk (nblocks s4) s4"
    using super_runs [OF m4(1), of "\<lambda>n s. n = nblocks s4 \<and> s = s4"] by (auto dest: runs_D)
  then have "diskaddr (unat (word_of_int (- E_NO_DISK) :: u32)) s4 = FPanic"
    using bad m4(1) by (simp add: diskaddr_def fbind_def fget_def fpanic_def mounted_def)
  with s1 s2 s3 s4 i show ?thesis
    by (simp add: file_get_block_def file_block_walk_def fbind_def freturn_def)
qed

theorem file_get_block_full_panics_witness: "file_get_block s_root 2 (small_fs file_disk) = FPanic"
proof -
  have "direct (small_fs file_disk) s_root 2 = 0"
    using root_word [of 144 file_disk] by (simp add: direct_def f_direct_off file_disk_def load32_def [of "\<lambda>_. 0"])
  then show ?thesis
    using file_get_block_full_panics [OF mounted_full file_at_root, OF full_super_disk full_super_disk]
    by (simp add: free_bit_full full_super_disk)
qed

section \<open>Bytes of a file\<close>

definition file_byte :: "fs_state \<Rightarrow> nat \<Rightarrow> nat \<Rightarrow> u8" where
  "file_byte s f pos = view s (block_addr (direct s f (pos div BLKSIZE)) + pos mod BLKSIZE)"

text \<open>
  A file whose first \<open>n\<close> blocks are there: direct, in use, distinct, and neither in the
  reserved blocks nor in the block of the file structure itself.
\<close>

definition file_ok :: "fs_state \<Rightarrow> nat \<Rightarrow> nat \<Rightarrow> bool" where
  "file_ok s f n \<longleftrightarrow> file_at s f \<and> n \<le> 10 \<and> inj_on (direct s f) {..<n}
     \<and> (\<forall>i < n. usable s (block_addr (direct s f i)) \<and> \<not> reserved s (direct s f i) \<and> direct s f i \<noteq> block_of f)"

lemma file_ok_block:
  assumes "mounted s" "file_ok s f n" "i < n"
  shows "direct s f i \<noteq> 0" "direct s f i < nblocks s" "direct s f i < 786432"
    "j < 4096 \<Longrightarrow> usable s (block_addr (direct s f i) + j)"
proof -
  have b: "block_of (block_addr (direct s f i)) = direct s f i" using block_of_addr [of 0] by simp
  have u: "usable s (block_addr (direct s f i))" using assms by (simp add: file_ok_def)
  with assms show "direct s f i \<noteq> 0" "direct s f i < nblocks s" "direct s f i < 786432"
    by (auto simp: file_ok_def reserved_def usable_def b mounted_def)
  show "usable s (block_addr (direct s f i) + j)" if "j < 4096"
    using usable_in_block(1) [OF assms(1) u, of "block_addr (direct s f i) + j"] that b
    by (simp add: in_block_def)
qed

lemma direct_same: "same_fs s s' \<Longrightarrow> mounted s \<Longrightarrow> file_at s f \<Longrightarrow> i < 10 \<Longrightarrow> direct s' f i = direct s f i"
  using word_same(1) [OF _ slot_field(1) slot_field(3)] by (simp add: direct_def)

lemma file_ok_same:
  assumes "same_fs s s'" "mounted s" "file_ok s f n"
  shows "file_ok s' f n" "i < n \<Longrightarrow> direct s' f i = direct s f i"
    "pos < n * BLKSIZE \<Longrightarrow> file_byte s' f pos = file_byte s f pos"
proof -
  have f: "file_at s f" "n \<le> 10" using assms(3) by (simp_all add: file_ok_def)
  have d: "direct s' f i = direct s f i" if "i < n" for i
    using that f by (intro direct_same [OF assms(1,2)]) simp_all
  then show "i < n \<Longrightarrow> direct s' f i = direct s f i" .
  have "inj_on (direct s' f) {..<n} = inj_on (direct s f) {..<n}"
    using d by (intro inj_on_cong) simp
  then show "file_ok s' f n"
    using assms d by (simp add: file_ok_def file_at_same usable_same reserved_def nblocks_same)
  show "file_byte s' f pos = file_byte s f pos" if p: "pos < n * BLKSIZE"
  proof -
    have i: "pos div BLKSIZE < n" using p by (simp add: less_mult_imp_div_less)
    then have "in_diskmap (block_addr (direct s f (pos div BLKSIZE)) + pos mod BLKSIZE)"
      using file_ok_block(4) [OF assms(2,3) i] by (simp add: usable_def)
    then show ?thesis using assms(1) d [OF i] by (simp add: file_byte_def same_fs_def)
  qed
qed

lemma ok_get_block_runs:
  assumes "mounted s" "file_ok s f n" "i < n" "\<And>s'. same_fs s s' \<Longrightarrow> Q (0, block_addr (direct s f i)) s'"
  shows "runs (file_get_block f i) s Q"
  using assms file_ok_block [OF assms(1-3)] by (intro get_direct_runs) (auto simp: file_ok_def)

lemma rd_range_runs:
  assumes m: "mounted s" and u: "usable s a" and n: "0 < n" "in_block (block_of a) a" "in_block (block_of a) (a + n - 1)"
    and Q: "\<And>s'. same_fs s s' \<Longrightarrow> Q (map (view s) [a..<a + n]) s'"
  shows "runs (rd_range a n) s Q"
  unfolding rd_range_def runs_bind
proof (rule ok_accessD [OF access_runs [OF m u]])
  fix s' assume s': "same_fs s s'" "cached s' (block_of a)"
  have "cmem s' x = view s x" if "x \<in> set [a..<a + n]" for x
  proof -
    have "in_block (block_of a) x" using that n by (auto intro: in_block_between [of _ a "a + n - 1"])
    then have "in_diskmap x" "block_of x = block_of a" using usable_in_block [OF m u] by blast+
    with s' show ?thesis using view_cached [of s' x] by (simp add: same_fs_def)
  qed
  then have e: "map (cmem s') [a..<a + n] = map (view s) [a..<a + n]" by (rule map_cong [OF refl])
  show "runs (fget (\<lambda>s. map (cmem s) [a..<a + n])) s' Q" unfolding runs_get e by (rule Q [OF s'(1)])
qed

lemma chunk_block:
  assumes "pos < limit" "j < chunk pos limit"
  shows "(pos + j) div BLKSIZE = pos div BLKSIZE" "(pos + j) mod BLKSIZE = pos mod BLKSIZE + j"
    "pos + j < limit"
proof -
  have j: "pos mod 4096 + j < 4096" using assms(2) by (simp add: chunk_def less_diff_conv add.commute)
  have "pos + j = pos div 4096 * 4096 + (pos mod 4096 + j)" by (simp add: add.assoc [symmetric])
  with j show "(pos + j) div BLKSIZE = pos div BLKSIZE" "(pos + j) mod BLKSIZE = pos mod BLKSIZE + j"
    by (metis BLKSIZE_simps(1) div_mult_self3 div_less add.right_neutral zero_neq_numeral,
        metis BLKSIZE_simps(1) mod_mult_self3 mod_less)
  show "pos + j < limit" using assms by (simp add: chunk_def less_diff_conv add.commute)
qed

lemma chunk_bytes:
  assumes "pos < limit"
  shows "map (view s) [block_addr (direct s f (pos div BLKSIZE)) + pos mod BLKSIZE ..<
      block_addr (direct s f (pos div BLKSIZE)) + pos mod BLKSIZE + chunk pos limit]
    = map (file_byte s f) [pos..<pos + chunk pos limit]"
  using chunk_block [OF assms] by (intro nth_equalityI) (simp_all add: file_byte_def add.assoc del: BLKSIZE_simps)

lemma runs_after: "m s = FOk x s1 \<Longrightarrow> runs (fbind m k) s Q \<longleftrightarrow> runs (k x) s1 Q"
  by (simp add: runs_def fbind_def)

lemma upt_append: "i \<le> j \<Longrightarrow> j \<le> k \<Longrightarrow> [i..<j] @ [j..<k] = [i..<k]"
  using upt_add_eq_append [of i j "k - j"] by simp

lemma map_upt_append: "i \<le> j \<Longrightarrow> j \<le> k \<Longrightarrow> map g [i..<j] @ map g [j..<k] = map g [i..<k]"
  by (simp add: upt_append flip: map_append)

lemma read_loop_runs:
  assumes "mounted s" "file_ok s f n" "limit \<le> n * BLKSIZE" "pos \<le> limit"
    "\<And>s'. same_fs s s' \<Longrightarrow> Q (0, buf @ map (file_byte s f) [pos..<limit]) s'"
  shows "runs (read_loop f pos limit buf) s Q"
  using assms
proof (induction f pos limit buf arbitrary: s rule: read_loop.induct)
  case (1 f pos limit buf)
  show ?case
  proof (cases "pos < limit")
    case True
    let ?i = "pos div BLKSIZE" and ?c = "chunk pos limit"
    let ?a = "block_addr (direct s f ?i) + pos mod BLKSIZE"
    have i: "?i < n" using True "1.prems"(3) by (simp add: less_mult_imp_div_less)
    have c: "0 < ?c" "pos mod BLKSIZE + ?c \<le> BLKSIZE" "pos + ?c \<le> limit"
      using True by (simp_all add: chunk_def)
    have blk: "block_of ?a = direct s f ?i" by simp
    have "runs (file_get_block f ?i) s (\<lambda>(r, blk) s1. r = 0 \<and> blk = block_addr (direct s f ?i) \<and> same_fs s s1)"
      using "1.prems"(1,2) i by (rule ok_get_block_runs) simp
    then obtain s1 where s1: "file_get_block f ?i s = FOk (0, block_addr (direct s f ?i)) s1" "same_fs s s1"
      by (auto dest: runs_D)
    have m1: "mounted s1" using s1(2) "1.prems"(1) by (rule mounted_same)
    have "runs (rd_range ?a ?c) s1 (\<lambda>xs s2. runs (read_loop f (pos + ?c) limit (buf @ xs)) s2 Q)"
    proof (rule rd_range_runs [OF m1])
      show "usable s1 ?a"
        using file_ok_block(4) [OF "1.prems"(1,2) i] usable_same [OF s1(2) "1.prems"(1)] by simp
      show "0 < ?c" by (rule c)
      show "in_block (block_of ?a) ?a" "in_block (block_of ?a) (?a + ?c - 1)"
        unfolding blk using c by (auto simp: in_block_def)
      fix s2 assume s2: "same_fs s1 s2"
      have sm: "same_fs s s2" using s1(2) s2 by (rule same_fs_trans)
      have fb: "file_byte s' f p = file_byte s f p" if "same_fs s s'" "p < limit" for s' p
        using that "1.prems"(3) by (intro file_ok_same(3) [OF that(1) "1.prems"(1,2)]) simp
      have "map (file_byte s1 f) [pos..<pos + ?c] = map (file_byte s f) [pos..<pos + ?c]"
        using fb [OF s1(2)] c(3) by simp
      then have bytes: "map (view s1) [?a..<?a + ?c] = map (file_byte s f) [pos..<pos + ?c]"
        using chunk_bytes [OF True, of s1 f] file_ok_same(2) [OF s1(2) "1.prems"(1,2) i] by simp
      show "runs (read_loop f (pos + ?c) limit (buf @ map (view s1) [?a..<?a + ?c])) s2 Q"
      proof (rule "1.IH" [OF True, where x = 0])
        show "mounted s2" "file_ok s2 f n" using mounted_same [OF sm] file_ok_same(1) [OF sm] "1.prems" by auto
        fix s' assume s': "same_fs s2 s'"
        have e: "map (file_byte s2 f) [pos + ?c..<limit] = map (file_byte s f) [pos + ?c..<limit]"
          using fb [OF sm] by simp
        have "(buf @ map (view s1) [?a..<?a + ?c]) @ map (file_byte s2 f) [pos + ?c..<limit]
            = buf @ map (file_byte s f) [pos..<limit]"
          unfolding bytes e append_assoc using c(3) by (simp add: map_upt_append)
        with same_fs_trans [OF sm s'] show "Q (0, (buf @ map (view s1) [?a..<?a + ?c]) @ map (file_byte s2 f) [pos + ?c..<limit]) s'"
          using "1.prems"(5) by (simp only:)
      qed (use c "1.prems" in auto)
    qed
    with True show ?thesis
      by (subst read_loop.simps)
        (simp add: runs_after [of "file_get_block f ?i" s, OF s1(1)] del: runs_bind BLKSIZE_simps, simp only: runs_bind)
  next
    case False
    with "1.prems" show ?thesis by (subst read_loop.simps) (simp add: same_fs_refl)
  qed
qed

definition fsize :: "fs_state \<Rightarrow> nat \<Rightarrow> int" where
  "fsize s f = sint (load32 (view s) (f_size f))"

lemma file_read_runs:
  assumes m: "mounted s" and f: "file_ok s f n" and sz: "fsize s f \<le> int (n * BLKSIZE)"
  shows "runs (file_read f count offset) s (\<lambda>(r, bytes) s'. same_fs s s'
    \<and> (let k = min count (nat (fsize s f) - offset)
       in r = int k \<and> bytes = map (file_byte s f) [offset..<offset + k]))"
proof -
  let ?k = "min count (nat (fsize s f) - offset)"
  have fa: "file_at s f" using f by (simp add: file_ok_def)
  have "runs (rd32 (f + 128)) s (\<lambda>sz s1. sz = load32 (view s) (f_size f) \<and> same_fs s s1)"
    using rd_field_runs [OF m fa, of 128] by (simp add: f_direct_off)
  then obtain s1 where s1: "rd32 (f_size f) s = FOk (load32 (view s) (f_size f)) s1" "same_fs s s1"
    by (auto dest: runs_D simp: f_direct_off)
  show ?thesis
  proof (cases "int offset \<ge> fsize s f")
    case True
    with s1(2) show ?thesis
      by (simp add: file_read_def fsize_def runs_after [of "rd32 (f_size f)" s, OF s1(1)] Let_def del: runs_bind)
  next
    case False
    have lim: "offset + ?k \<le> n * BLKSIZE" using sz False by auto
    have m1: "mounted s1" "file_ok s1 f n"
      using mounted_same [OF s1(2) m] file_ok_same(1) [OF s1(2) m f] by auto
    have "runs (read_loop f offset (offset + ?k) []) s1 (\<lambda>(r, bytes) s'. same_fs s s' \<and> r = 0
        \<and> bytes = map (file_byte s f) [offset..<offset + ?k])" (is "runs _ _ ?R")
    proof (rule read_loop_runs [OF m1 lim])
      fix s' assume s': "same_fs s1 s'"
      have "map (file_byte s1 f) [offset..<offset + ?k] = map (file_byte s f) [offset..<offset + ?k]"
        using lim file_ok_same(3) [OF s1(2) m f] by simp
      with same_fs_trans [OF s1(2) s']
      show "?R (0, [] @ map (file_byte s1 f) [offset..<offset + ?k]) s'" by simp
    qed simp
    then have "runs (read_loop f offset (offset + ?k) []) s1 (\<lambda>x s2. runs (case x of (r, bytes) \<Rightarrow>
        if r < 0 then freturn (r, bytes) else freturn (int ?k, bytes)) s2 (\<lambda>(r, bytes) s'. same_fs s s' \<and> r = int ?k
        \<and> bytes = map (file_byte s f) [offset..<offset + ?k]))"
      by (rule runs_mono) (simp split: prod.splits)
    with False show ?thesis
      unfolding fsize_def file_read_def runs_after [of "rd32 (f_size f)" s, OF s1(1)]
      by (simp add: Let_def)
  qed
qed

text \<open>
  Property C33. \<open>file_read\<close> of a file of at most ten blocks (the direct ones, all there) returns exactly the
  bytes of the file from the offset on, as many as were asked for or are left, and changes nothing.
  (Of the blocks after the tenth the code reads others than it has written:
  \<open>indirect_entries_overlap\<close>.)
\<close>

theorem file_read_bytes:
  assumes m: "mounted s" and f: "file_ok s f n" "n \<le> NDIRECT" and sz: "fsize s f \<le> int (n * BLKSIZE)"
  shows "runs (file_read f count offset) s (\<lambda>(r, bytes) s'. same_fs s s'
    \<and> (let k = min count (nat (fsize s f) - offset)
       in r = int k \<and> bytes = map (file_byte s f) [offset..<offset + k]))"
  using m f(1) sz by (rule file_read_runs)

lemma file_ok_root: "file_ok (small_fs file_disk) s_root 2"
proof -
  have d: "direct (small_fs file_disk) s_root 0 = 5" "direct (small_fs file_disk) s_root (Suc 0) = 6"
    using root_word [of 136 file_disk] root_word [of 140 file_disk]
    by (simp_all add: direct_def f_direct_off file_disk_def)
  have b: "block_of (block_addr b) = b" for b using block_of_addr [of 0 b] by simp
  have "block_of s_root = 1" using block_of_addr [of 8 1] by (simp add: s_root_def)
  note simps = d b this usable_def reserved_def nblocks_full free_bit_full full_super_disk in_diskmap_def
  have "usable (small_fs file_disk) (block_addr 5)" "usable (small_fs file_disk) (block_addr 6)"
    by (simp_all add: simps) (simp_all add: block_addr_def)
  then have "\<forall>i < 2. usable (small_fs file_disk) (block_addr (direct (small_fs file_disk) s_root i))
      \<and> \<not> reserved (small_fs file_disk) (direct (small_fs file_disk) s_root i)
      \<and> direct (small_fs file_disk) s_root i \<noteq> block_of s_root"
    by (auto simp: simps numeral_2_eq_2 less_Suc_eq)
  moreover have "inj_on (direct (small_fs file_disk) s_root) {..<2}"
    using d by (auto simp: inj_on_def numeral_2_eq_2 less_Suc_eq)
  ultimately show ?thesis using file_at_root [OF full_super_disk] by (simp add: file_ok_def)
qed

theorem file_read_bytes_witness:
  "runs (file_read s_root 5000 4094) (small_fs file_disk) (\<lambda>(r, bytes) s'. r = 1906 \<and> bytes ! 0 = 3 \<and> bytes ! 2 = 6)"
proof -
  let ?s = "small_fs file_disk"
  have sz: "fsize ?s s_root = 6000"
    using root_word [of 128 file_disk] by (simp add: fsize_def f_direct_off file_disk_def sint32)
  have d: "direct ?s s_root 0 = 5" "direct ?s s_root 1 = 6"
    using root_word [of 136 file_disk] root_word [of 140 file_disk]
    by (simp_all add: direct_def f_direct_off file_disk_def)
  have "file_byte ?s s_root 4094 = 3" "file_byte ?s s_root 4096 = 6"
    using d block_of_addr [of 4094 5] block_of_addr [of 0 6]
    by (simp_all add: file_byte_def view_small_fs file_disk_def)
  moreover have "runs (file_read s_root 5000 4094) ?s (\<lambda>(r, bytes) s'. same_fs ?s s'
    \<and> (let k = min 5000 (nat (fsize ?s s_root) - 4094)
       in r = int k \<and> bytes = map (file_byte ?s s_root) [4094..<4094 + k]))"
    by (rule file_read_bytes [OF mounted_full file_ok_root]) (simp_all add: full_super_disk sz NDIRECT_def)
  ultimately show ?thesis by (auto elim!: runs_mono simp: sz Let_def)
qed

section \<open>Writing a file\<close>

lemma load32_other_block:
  assumes "\<And>x. in_diskmap x \<Longrightarrow> block_of x \<noteq> b \<Longrightarrow> view s' x = view s x"
    "in_block c a" "in_block c (a + 3)" "c \<noteq> b" "c < 786432"
  shows "load32 (view s') a = load32 (view s) a"
proof (rule load32_cong)
  fix x assume "a \<le> x" "x < a + 4"
  then have "in_block c x" using assms(2,3) by (intro in_block_between [OF assms(2,3)]) auto
  then show "view s' x = view s x"
    using assms(1,4,5) block_of_in_block in_block_diskmap by blast
qed

lemma reserved_cong: "nblocks s' = nblocks s \<Longrightarrow> reserved s' = reserved s"
  by (simp add: fun_eq_iff reserved_def)

lemma wrote_data:
  assumes m: "mounted s" and w: "wrote s b f s'" and l: "local_to b f" and b: "\<not> reserved s b"
  shows "mounted s' \<and> nblocks s' = nblocks s \<and> free_bit s' = free_bit s
    \<and> (\<forall>x. in_diskmap x \<longrightarrow> block_of x \<noteq> b \<longrightarrow> view s' x = view s x)"
proof -
  have v: "view s' x = view s x" if "in_diskmap x" "block_of x \<noteq> b" for x
    using that w l by (auto simp: wrote_def local_to_def dest: block_of_in_block)
  have n: "nblocks s' = nblocks s"
  proof -
    have "1 \<noteq> b" using b by (auto simp: reserved_def)
    then have "load32 (view s') (block_addr 1 + 4) = load32 (view s) (block_addr 1 + 4)"
      by (intro load32_other_block [OF v, of _ 1]) (auto simp: in_block_def)
    then show ?thesis by (simp only: nblocks_def)
  qed
  have "free_bit s' x = free_bit s x" for x
  proof (cases "x < nblocks s")
    case True
    let ?c = "block_of (bitmap_word x)"
    have "?c \<noteq> b"
      using b le_less_trans [OF div_times_less_eq_dividend True, of 32768]
      by (auto simp: reserved_def bitmap_block)
    moreover have "?c < 786432" using bitmap_usable(1) [OF m True] m by (simp add: usable_def mounted_def)
    ultimately have "load32 (view s') (bitmap_word x) = load32 (view s) (bitmap_word x)"
      using bitmap_usable(2,3) [OF m True] v by (intro load32_other_block [of b s' s ?c]) blast+
    with n show ?thesis by (simp add: free_bit_def)
  qed (use n in \<open>simp add: free_bit_def\<close>)
  then have f: "free_bit s' = free_bit s" by blast
  with n m have "mounted s'" by (intro mounted_wrote [OF m w]) auto
  with n f v show ?thesis by blast
qed

lemma local_to_poke: "in_block b a \<Longrightarrow> in_block b (a + length xs - 1) \<Longrightarrow> xs \<noteq> [] \<Longrightarrow> local_to b (poke a xs)"
  using local_poke [of b a xs] by (simp add: poke_def [abs_def])

text \<open>
  The bytes \<open>xs\<close> replace those of the file from \<open>pos\<close> on, and no other byte of the disk changes, as the
  server sees it; nothing has been written back.
\<close>

definition byte_addr :: "fs_state \<Rightarrow> nat \<Rightarrow> nat \<Rightarrow> nat" where
  "byte_addr s f p = block_addr (direct s f (p div BLKSIZE)) + p mod BLKSIZE"

definition file_written :: "fs_state \<Rightarrow> nat \<Rightarrow> nat \<Rightarrow> nat \<Rightarrow> u8 list \<Rightarrow> fs_state \<Rightarrow> bool" where
  "file_written s f n pos xs s' \<longleftrightarrow> mounted s' \<and> file_ok s' f n \<and> fsize s' f = fsize s f
     \<and> (\<forall>p < n * BLKSIZE. file_byte s' f p =
          (if pos \<le> p \<and> p < pos + length xs then xs ! (p - pos) else file_byte s f p))
     \<and> disk s' = disk s \<and> (\<forall>i < n. direct s' f i = direct s f i)
     \<and> (\<forall>x. in_diskmap x \<longrightarrow> (\<forall>p. pos \<le> p \<longrightarrow> p < pos + length xs \<longrightarrow> x \<noteq> byte_addr s f p) \<longrightarrow> view s' x = view s x)"

lemma fsize_same: "same_fs s s' \<Longrightarrow> mounted s \<Longrightarrow> file_at s f \<Longrightarrow> fsize s' f = fsize s f"
  using word_same(1) [of s "f + 128" s'] field_in [of s f 128] usable_in_block [of s f "f + 128"]
  by (simp add: fsize_def f_direct_off file_at_def)

lemma file_written_same:
  assumes "same_fs s s1" "mounted s" "file_ok s f n" "pos + length xs \<le> n * BLKSIZE" "file_written s1 f n pos xs s'"
  shows "file_written s f n pos xs s'"
proof -
  have d: "direct s1 f i = direct s f i" if "i < n" for i by (rule file_ok_same(2) [OF assms(1-3) that])
  have a: "byte_addr s1 f p = byte_addr s f p" if "p < pos + length xs" for p
    unfolding byte_addr_def using that assms(4) by (subst d) (auto simp: less_mult_imp_div_less simp del: BLKSIZE_simps)
  have v: "in_diskmap x \<Longrightarrow> view s1 x = view s x" "disk s1 = disk s" for x using assms(1) by (simp_all add: same_fs_def)
  have f: "file_at s f" using assms(3) by (simp add: file_ok_def)
  show ?thesis
    using assms(5) file_ok_same(3) [OF assms(1-3)] fsize_same [OF assms(1,2) f] d a v by (auto simp: file_written_def)
qed

lemma file_written_append:
  assumes "file_written s f n pos xs s1" "file_written s1 f n (pos + length xs) ys s2" "pos + length xs + length ys \<le> n * BLKSIZE"
  shows "file_written s f n pos (xs @ ys) s2"
proof -
  have a: "byte_addr s1 f p = byte_addr s f p" if "p < pos + length xs + length ys" for p
  proof -
    have "p div BLKSIZE < n" using that assms(3) by (simp add: less_mult_imp_div_less)
    then show ?thesis using assms(1) by (simp add: byte_addr_def file_written_def)
  qed
  have "view s2 x = view s x"
    if "in_diskmap x" "\<forall>p. pos \<le> p \<longrightarrow> p < pos + length (xs @ ys) \<longrightarrow> x \<noteq> byte_addr s f p" for x
  proof -
    have "view s1 x = view s x" using assms(1) that by (auto simp: file_written_def)
    moreover have "\<forall>p. pos + length xs \<le> p \<longrightarrow> p < pos + length xs + length ys \<longrightarrow> x \<noteq> byte_addr s1 f p"
      using that(2) a by auto
    then have "view s2 x = view s1 x" using assms(2) that(1) by (auto simp: file_written_def)
    ultimately show ?thesis by simp
  qed
  then show ?thesis using assms by (auto simp: file_written_def nth_append)
qed

lemma file_written_Nil: "mounted s \<Longrightarrow> file_ok s f n \<Longrightarrow> file_written s f n pos [] s"
  by (auto simp: file_written_def)

lemma write_chunk_runs:
  assumes m: "mounted s" and f: "file_ok s f n" and i: "i < n" and j: "j + length xs \<le> 4096" and xs: "xs \<noteq> []"
    and Q: "\<And>s'. file_written s f n (i * 4096 + j) xs s' \<Longrightarrow> Q () s'"
  shows "runs (wr_mem (block_addr (direct s f i) + j) (poke (block_addr (direct s f i) + j) xs)) s Q"
proof -
  let ?b = "direct s f i" and ?a = "block_addr (direct s f i) + j"
  have j': "j < 4096" using j xs by (cases xs) auto
  then have ba: "block_of ?a = ?b" by simp
  have l: "local_to ?b (poke ?a xs)"
    using j j' xs by (cases xs) (auto intro!: local_to_poke simp: in_block_def)
  have res: "\<not> reserved s ?b" and fb: "?b \<noteq> block_of f" using f i by (simp_all add: file_ok_def)
  show ?thesis
  proof (rule wr_mem_runs [OF m])
    show "usable s ?a" using m f i j' by (rule file_ok_block(4))
    show "local_to (block_of ?a) (poke ?a xs)" unfolding ba by (rule l)
    fix s' assume "wrote s (block_of ?a) (poke ?a xs) s'"
    then have w: "wrote s ?b (poke ?a xs) s'" by (simp only: ba)
    from wrote_data [OF m w l res] have s': "mounted s'" "nblocks s' = nblocks s" "free_bit s' = free_bit s"
      and v: "\<And>x. in_diskmap x \<Longrightarrow> block_of x \<noteq> ?b \<Longrightarrow> view s' x = view s x" by blast+
    have fa: "file_at s f" "n \<le> 10" "block_of f < 786432"
      using f m by (simp_all add: file_ok_def file_at_def usable_def mounted_def)
    have fw: "load32 (view s') (f + off) = load32 (view s) (f + off)" if "off \<le> 252" for off
      using field_in(1,2) [OF fa(1) that] fb fa(3) by (intro load32_other_block [OF v]) auto
    have d: "direct s' f k = direct s f k" if "k < n" for k
      using fw [of "136 + 4 * k"] that fa(2) by (simp add: direct_def f_direct_off)
    have "file_at s' f"
      using fa(1) s' by (simp add: file_at_def usable_def plain_def reserved_cong [OF s'(2)] split: if_splits)
    moreover have "inj_on (direct s' f) {..<n} = inj_on (direct s f) {..<n}"
      using d by (intro inj_on_cong) simp
    ultimately have ok: "file_ok s' f n"
      using f d s' by (simp add: file_ok_def usable_def reserved_cong [OF s'(2)])
    have sz: "fsize s' f = fsize s f" using fw [of 128] by (simp add: fsize_def f_direct_off)
    have "file_byte s' f p = (if i * 4096 + j \<le> p \<and> p < i * 4096 + j + length xs
        then xs ! (p - (i * 4096 + j)) else file_byte s f p)" if p: "p < n * BLKSIZE" for p
    proof -
      let ?k = "p div BLKSIZE" and ?o = "p mod BLKSIZE"
      have k: "?k < n" using p by (simp add: less_mult_imp_div_less)
      have o: "?o < 4096" "p = ?k * 4096 + ?o" by simp_all
      have x: "in_diskmap (block_addr (direct s f ?k) + ?o)"
        using file_ok_block(4) [OF m f k o(1)] by (simp add: usable_def)
      show ?thesis
      proof (cases "?k = i")
        case True
        then have pe: "p = i * 4096 + ?o" by (intro trans [OF o(2)]) (simp only: True)
        have "view s' (block_addr ?b + ?o) = poke ?a xs (view s) (block_addr ?b + ?o)"
          using x w True by (simp add: wrote_def)
        moreover have "file_byte s' f p = view s' (block_addr ?b + ?o)" "file_byte s f p = view s (block_addr ?b + ?o)"
          using d [OF k] True by (simp_all add: file_byte_def)
        moreover have "i * 4096 + j \<le> p \<longleftrightarrow> j \<le> ?o" "p < i * 4096 + j + length xs \<longleftrightarrow> ?o < j + length xs"
          "p - (i * 4096 + j) = ?o - j" using pe by linarith+
        ultimately show ?thesis by (simp only: poke_def) simp
      next
        case False
        then have ne: "direct s f ?k \<noteq> ?b" using f k i by (auto simp: file_ok_def inj_on_def)
        have "view s' (block_addr (direct s f ?k) + ?o) = view s (block_addr (direct s f ?k) + ?o)"
          using x ne o(1) by (intro v) auto
        moreover have "\<not> (i * 4096 + j \<le> p \<and> p < i * 4096 + j + length xs)"
        proof
          assume "i * 4096 + j \<le> p \<and> p < i * 4096 + j + length xs"
          with j have "i * 4096 \<le> p" "p < Suc i * 4096" by simp_all
          then have "p div 4096 = i" by (intro div_nat_eqI) (simp_all only: mult.commute [of 4096])
          with False show False by simp
        qed
        ultimately show ?thesis using d [OF k] by (auto simp: file_byte_def)
      qed
    qed
    moreover have "disk s' = disk s" using w by (simp add: wrote_def)
    moreover have "view s' x = view s x"
      if x: "in_diskmap x" "\<forall>p. i * 4096 + j \<le> p \<longrightarrow> p < i * 4096 + j + length xs \<longrightarrow> x \<noteq> byte_addr s f p" for x
    proof -
      have "\<not> (?a \<le> x \<and> x < ?a + length xs)"
      proof
        assume r: "?a \<le> x \<and> x < ?a + length xs"
        define k where "k = x - ?a"
        have k: "k < length xs" "x = ?a + k" using r by (auto simp: k_def)
        have o: "j + k < 4096" using k(1) j by simp
        have e: "i * 4096 + (j + k) = i * 4096 + j + k" by simp
        have "byte_addr s f (i * 4096 + j + k) = x"
          using o k(2) unfolding byte_addr_def e [symmetric] by simp
        with x(2) [rule_format, of "i * 4096 + j + k"] k(1) show False by simp
      qed
      then show ?thesis using w x(1) by (auto simp: wrote_def poke_def)
    qed
    ultimately have "file_written s f n (i * 4096 + j) xs s'" using s' ok sz d by (simp add: file_written_def)
    then show "Q () s'" by (rule Q)
  qed
qed

lemma write_loop_runs:
  assumes "mounted s" "file_ok s f n" "limit \<le> n * BLKSIZE" "limit = pos + length buf"
    "\<And>s'. file_written s f n pos buf s' \<Longrightarrow> Q 0 s'"
  shows "runs (write_loop f pos limit buf) s Q"
  using assms
proof (induction f pos limit buf arbitrary: s rule: write_loop.induct)
  case (1 f pos limit buf)
  show ?case
  proof (cases "pos < limit")
    case True
    let ?i = "pos div BLKSIZE" and ?c = "chunk pos limit" and ?j = "pos mod BLKSIZE"
    let ?a = "block_addr (direct s f ?i) + ?j"
    have i: "?i < n" using True "1.prems"(3) by (simp add: less_mult_imp_div_less)
    have c: "0 < ?c" "?j + ?c \<le> 4096" "pos + ?c \<le> limit" "?c \<le> length buf"
      using True "1.prems"(4) by (simp_all add: chunk_def)
    have "runs (file_get_block f ?i) s (\<lambda>(r, blk) s1. r = 0 \<and> blk = block_addr (direct s f ?i) \<and> same_fs s s1)"
      using "1.prems"(1,2) i by (rule ok_get_block_runs) simp
    then obtain s1 where s1: "file_get_block f ?i s = FOk (0, block_addr (direct s f ?i)) s1" "same_fs s s1"
      by (auto dest: runs_D)
    have m1: "mounted s1" "file_ok s1 f n" and d1: "direct s1 f ?i = direct s f ?i"
      using mounted_same [OF s1(2)] file_ok_same(1,2) [OF s1(2)] "1.prems"(1,2) i by blast+
    have "runs (wr_mem (block_addr (direct s1 f ?i) + ?j) (poke (block_addr (direct s1 f ?i) + ?j) (take ?c buf))) s1
      (\<lambda>_ s2. runs (write_loop f (pos + ?c) limit (drop ?c buf)) s2 Q)"
    proof (rule write_chunk_runs [OF m1 i])
      show "?j + length (take ?c buf) \<le> 4096" "take ?c buf \<noteq> []" using c by auto
      fix s2 assume s2: "file_written s1 f n (?i * 4096 + ?j) (take ?c buf) s2"
      have p: "?i * 4096 + ?j = pos" by simp
      have l: "pos + length (take ?c buf) + length (drop ?c buf) \<le> n * BLKSIZE" using "1.prems"(3,4) c(4) by simp
      have "file_written s f n pos (take ?c buf) s2"
        using file_written_same [OF s1(2) "1.prems"(1,2) _ s2 [unfolded p]] l by simp
      note w = file_written_append [OF this]
      show "runs (write_loop f (pos + ?c) limit (drop ?c buf)) s2 Q"
      proof (rule "1.IH" [OF True, where x = 0])
        show "mounted s2" "file_ok s2 f n" using s2 by (simp_all add: file_written_def)
        fix s' assume "file_written s2 f n (pos + ?c) (drop ?c buf) s'"
        with w [of "drop ?c buf" s', OF _ l] c(4) show "Q 0 s'" by (intro "1.prems"(5)) simp
      qed (use c "1.prems" in auto)
    qed
    with True d1 show ?thesis
      by (subst write_loop.simps)
        (simp add: runs_after [of "file_get_block f ?i" s, OF s1(1)] del: runs_bind BLKSIZE_simps, simp only: runs_bind)
  next
    case False
    with "1.prems" have "buf = []" by simp
    with False "1.prems" file_written_Nil [of s f n pos] show ?thesis by (subst write_loop.simps) simp
  qed
qed

lemma file_write_runs:
  assumes m: "mounted s" and f: "file_ok s f n" and sz: "int (offset + length buf) \<le> fsize s f" "fsize s f \<le> int (n * BLKSIZE)"
    and Q: "\<And>s'. file_written s f n offset buf s' \<Longrightarrow> Q (int (length buf)) s'"
  shows "runs (file_write f buf offset) s Q"
proof -
  have fa: "file_at s f" using f by (simp add: file_ok_def)
  have "runs (rd32 (f + 128)) s (\<lambda>sz s1. sz = load32 (view s) (f_size f) \<and> same_fs s s1)"
    using rd_field_runs [OF m fa, of 128] by (simp add: f_direct_off)
  then obtain s1 where s1: "rd32 (f_size f) s = FOk (load32 (view s) (f_size f)) s1" "same_fs s s1"
    by (auto dest: runs_D simp: f_direct_off)
  have m1: "mounted s1" "file_ok s1 f n"
    using mounted_same [OF s1(2) m] file_ok_same(1) [OF s1(2) m f] by auto
  have "\<not> offset + length buf > unat (load32 (view s) (f_size f))"
  proof -
    have "int (offset + length buf) \<le> sint (load32 (view s) (f_size f))" using sz(1) by (simp only: fsize_def)
    also have "\<dots> \<le> int (unat (load32 (view s) (f_size f)))" by (simp only: sint32 split: if_splits) simp
    finally show ?thesis by (simp only: of_nat_le_iff not_less)
  qed
  moreover have "runs (write_loop f offset (offset + length buf) buf) s1
      (\<lambda>r s2. runs (if r < 0 then freturn r else freturn (int (length buf))) s2 Q)"
  proof (rule write_loop_runs [OF m1 _ refl])
    show "offset + length buf \<le> n * BLKSIZE" using sz by simp
    fix s' assume "file_written s1 f n offset buf s'"
    then show "runs (if (0::int) < 0 then freturn 0 else freturn (int (length buf))) s' Q"
      using Q [OF file_written_same [OF s1(2) m f]] sz by simp
  qed
  ultimately show ?thesis
    unfolding file_write_def runs_after [of "rd32 (f_size f)" s, OF s1(1)] by simp
qed

section \<open>Properties of writing\<close>

text \<open>
  Property C5. \<open>file_write\<close> inside a file of at most ten blocks (the direct ones, all there) writes the
  buffer at the offset, whatever blocks it spans; a \<open>file_read\<close> there then returns the buffer. Every
  other byte the server sees is as before, in this file, in the others and in the file system's own
  blocks, and the disk itself has not been written.
\<close>

theorem file_write_read_roundtrip:
  assumes m: "mounted s" and f: "file_ok s f n" "n \<le> NDIRECT"
    and sz: "int (offset + length buf) \<le> fsize s f" "fsize s f \<le> int (n * BLKSIZE)"
  shows "runs (fbind (file_write f buf offset) (\<lambda>w. fbind (file_read f (length buf) offset) (\<lambda>(r, bytes).
      freturn (w, r, bytes)))) s
    (\<lambda>(w, r, bytes) s'. w = int (length buf) \<and> r = int (length buf) \<and> bytes = buf \<and> disk s' = disk s
      \<and> (\<forall>x. in_diskmap x \<longrightarrow> (\<forall>p. offset \<le> p \<longrightarrow> p < offset + length buf \<longrightarrow> x \<noteq> byte_addr s f p) \<longrightarrow> view s' x = view s x))"
  unfolding runs_bind
proof (rule file_write_runs [OF m f(1) sz])
  fix s1 assume w: "file_written s f n offset buf s1"
  then have m1: "mounted s1" "file_ok s1 f n" "fsize s1 f = fsize s f" by (simp_all add: file_written_def)
  have k: "min (length buf) (nat (fsize s1 f) - offset) = length buf" using sz(1) m1(3) by simp
  have lim: "offset + length buf \<le> n * BLKSIZE" using sz by simp
  have bytes: "map (file_byte s1 f) [offset..<offset + length buf] = buf"
    using w lim by (intro nth_equalityI) (auto simp: file_written_def)
  have "runs (file_read f (length buf) offset) s1 (\<lambda>(r, bytes) s'. same_fs s1 s'
      \<and> (let k = min (length buf) (nat (fsize s1 f) - offset)
         in r = int k \<and> bytes = map (file_byte s1 f) [offset..<offset + k]))"
    using sz(2) m1(3) by (intro file_read_runs [OF m1(1,2)]) simp
  then have "runs (file_read f (length buf) offset) s1 (\<lambda>(r, bytes) s'. same_fs s1 s' \<and> r = int (length buf) \<and> bytes = buf)"
    by (simp only: k bytes Let_def)
  then show "runs (file_read f (length buf) offset) s1 (\<lambda>x s'. runs (case x of (r, bytes) \<Rightarrow> freturn (int (length buf), r, bytes)) s'
     (\<lambda>(w, r, bytes) s'. w = int (length buf) \<and> r = int (length buf) \<and> bytes = buf \<and> disk s' = disk s
      \<and> (\<forall>x. in_diskmap x \<longrightarrow> (\<forall>p. offset \<le> p \<longrightarrow> p < offset + length buf \<longrightarrow> x \<noteq> byte_addr s f p) \<longrightarrow> view s' x = view s x)))"
    by (rule runs_mono) (use w in \<open>auto simp: file_written_def same_fs_def\<close>)
qed

theorem file_write_read_roundtrip_witness:
  "runs (fbind (file_write s_root [1, 2, 3] 4094) (\<lambda>w. fbind (file_read s_root 3 4094) (\<lambda>(r, bytes).
      freturn (w, r, bytes)))) (small_fs file_disk)
    (\<lambda>x s'. x = (3, 3, [1, 2, 3]) \<and> view s' (block_addr 6 + 7) = view (small_fs file_disk) (block_addr 6 + 7))"
proof -
  let ?s = "small_fs file_disk"
  have l: "length [1, 2, 3::u8] = 3" "int 3 = 3" by simp_all
  have sz: "fsize ?s s_root = 6000"
    using root_word [of 128 file_disk] by (simp add: fsize_def f_direct_off file_disk_def sint32)
  have d: "direct ?s s_root 0 = 5" "direct ?s s_root 1 = 6"
    using root_word [of 136 file_disk] root_word [of 140 file_disk]
    by (simp_all add: direct_def f_direct_off file_disk_def)
  have "block_addr 6 + 7 \<noteq> byte_addr ?s s_root p" if "4094 \<le> p" "p < 4094 + 3" for p
  proof -
    from that consider "p = 4094" | "p = 4095" | "p = 4096" by linarith
    then show ?thesis using d by cases (simp_all add: byte_addr_def block_addr_def)
  qed
  moreover have "in_diskmap (block_addr 6 + 7)" by (simp add: in_diskmap_def block_addr_def)
  moreover have "runs (fbind (file_write s_root [1, 2, 3] 4094) (\<lambda>w. fbind (file_read s_root (length [1, 2, 3::u8]) 4094) (\<lambda>(r, bytes).
      freturn (w, r, bytes)))) ?s
    (\<lambda>(w, r, bytes) s'. w = int (length [1, 2, 3::u8]) \<and> r = int (length [1, 2, 3::u8]) \<and> bytes = [1, 2, 3] \<and> disk s' = disk ?s
      \<and> (\<forall>x. in_diskmap x \<longrightarrow> (\<forall>p. 4094 \<le> p \<longrightarrow> p < 4094 + length [1, 2, 3::u8] \<longrightarrow> x \<noteq> byte_addr ?s s_root p) \<longrightarrow> view s' x = view ?s x))"
    by (rule file_write_read_roundtrip [OF mounted_full file_ok_root]) (simp_all add: full_super_disk sz NDIRECT_def)
  ultimately show ?thesis unfolding l by (elim runs_mono) auto
qed

end
