(* ===== verification/Jos_Mount.thy ===== *)
theory Jos_Mount
  imports Jos_File
begin

text \<open>
  Starting the file server: \<open>bc_init\<close> with its self-test \<open>check_bc\<close> (\<^verbatim>\<open>tps/fs/bc.c\<close>) and \<open>fs_init\<close>
  (\<^verbatim>\<open>tps/fs/fs.c\<close>). Before \<open>super\<close> and \<open>bitmap\<close> are set, an access to the window loads the block
  and checks nothing.
\<close>

section \<open>The code\<close>

definition sizeof_Super :: nat where "sizeof_Super = 264"

definition OOPS :: "u8 list" where "OOPS = [79, 79, 80, 83, 33, 10]"

definition fassert :: "(fs_state \<Rightarrow> bool) \<Rightarrow> unit fsm" where
  "fassert p = fbind (fget p) (\<lambda>b. if b then freturn () else fpanic)"

text \<open>
  One of the two experiments of \<open>check_bc\<close>: the block is flushed at an offset, and the dirty
  bit is looked at only in the first.
\<close>

definition smash_super :: "nat \<Rightarrow> bool \<Rightarrow> unit fsm" where
  "smash_super offset look_dirty =
     fbind (diskaddr 1) (\<lambda>addr.
     fbind (rd_range addr sizeof_Super) (\<lambda>backup.
     fbind (wr_mem addr (poke addr (OOPS @ [0]))) (\<lambda>_.
     fbind (flush_block (addr + offset)) (\<lambda>_.
     fbind (fassert (va_is_mapped addr)) (\<lambda>_.
     fbind (fassert (\<lambda>s. look_dirty \<longrightarrow> \<not> va_is_dirty addr s)) (\<lambda>_.
     fbind (unmap_block addr) (\<lambda>_.
     fbind (fassert (\<lambda>s. \<not> va_is_mapped addr s)) (\<lambda>_.
     fbind (name_eq OOPS addr) (\<lambda>eq.
     fbind (fassert (\<lambda>_. eq)) (\<lambda>_.
     fbind (wr_mem addr (poke addr backup)) (\<lambda>_.
     flush_block addr)))))))))))"

definition check_bc :: "unit fsm" where
  "check_bc = fbind (smash_super 0 True) (\<lambda>_. smash_super 20 False)"

definition bc_init :: "unit fsm" where
  "bc_init = fbind check_bc (\<lambda>_. fbind (diskaddr 1) (\<lambda>addr. fbind (rd_range addr sizeof_Super) (\<lambda>_. freturn ())))"

definition fs_init :: "unit fsm" where
  "fs_init =
     fbind bc_init (\<lambda>_.
     fbind (diskaddr 1) (\<lambda>_.
     fbind (fmodify (\<lambda>s. s\<lparr>has_super := True\<rparr>)) (\<lambda>_.
     fbind check_super (\<lambda>_.
     fbind (diskaddr 2) (\<lambda>_.
     fbind (fmodify (\<lambda>s. s\<lparr>has_bitmap := True\<rparr>)) (\<lambda>_.
     check_bitmap))))))"

section \<open>Before the super block is set\<close>

definition early :: "fs_state \<Rightarrow> bool" where
  "early s \<longleftrightarrow> \<not> has_super s \<and> \<not> has_bitmap s"

lemma early_access: "early s \<Longrightarrow> in_diskmap a \<Longrightarrow> ok_access bc_access s a"
proof (cases "cached s (block_of a)")
  case True
  assume "early s" "in_diskmap a"
  with True show ?thesis
    unfolding ok_access_def by (simp add: bc_access_Suc access_cached same_fs_refl del: access_n.simps)
next
  case False
  assume "early s" "in_diskmap a"
  with False same_fs_load [OF False] show ?thesis
    unfolding ok_access_def bc_access_Suc access_n.simps(2) [of "Suc (Suc (Suc 0))"]
    by (simp add: early_def va_is_mapped_def load_block_def del: access_n.simps)
qed

lemma early_diskaddr: "early s \<Longrightarrow> runs (diskaddr b) s Q \<longleftrightarrow> 0 < b \<and> Q (block_addr b) s"
  by (auto simp: early_def diskaddr_def)

lemma block_1: "i < 4096 \<Longrightarrow> in_block 1 (block_addr 1 + i)" "i < 4096 \<Longrightarrow> block_of (block_addr 1 + i) = 1"
  "i < 4096 \<Longrightarrow> in_diskmap (block_addr 1 + i)"
  using block_of_addr [of i 1] by (simp_all only: in_block_def in_diskmap_def) (simp_all add: block_addr_def)

lemma addr_1: "in_block 1 (block_addr 1)" "block_of (block_addr 1) = 1" "in_diskmap (block_addr 1)"
  using block_1 [of 0] by simp_all

text \<open>What the self-test leaves: the same bytes in the window, block 1 cached and clean.\<close>

definition untouched :: "fs_state \<Rightarrow> fs_state \<Rightarrow> bool" where
  "untouched s s' \<longleftrightarrow> (\<forall>x. in_diskmap x \<longrightarrow> view s' x = view s x) \<and> early s' \<and> coherent s'
     \<and> (\<forall>b. b \<noteq> 1 \<longrightarrow> disk s' b = disk s b)"

lemma name_eq_runs:
  assumes "early s" "\<And>i. i \<le> length xs \<Longrightarrow> in_diskmap (a + i)"
    "\<And>s'. same_fs s s' \<Longrightarrow> Q (\<forall>i < length (xs @ [0]). view s (a + i) = (xs @ [0]) ! i) s'"
  shows "runs (name_eq xs a) s Q"
  using assms
proof (induction xs arbitrary: a s Q)
  case Nil
  have d: "in_diskmap a" using Nil(2) [of 0] by simp
  show ?case
    unfolding name_eq.simps runs_bind
    by (rule rd8_ok [OF early_access [OF Nil(1) d] d]) (use Nil(3) in simp)
next
  case (Cons x xs)
  have d: "in_diskmap a" using Cons.prems(2) [of 0] by simp
  have all: "(\<forall>i < Suc n. P i) \<longleftrightarrow> P 0 \<and> (\<forall>i < n. P (Suc i))" for n and P :: "nat \<Rightarrow> bool"
    by (auto simp: less_Suc_eq_0_disj)
  show ?case
    unfolding name_eq.simps runs_bind
  proof (rule rd8_ok [OF early_access [OF Cons.prems(1) d] d])
    fix s' assume s': "same_fs s s'"
    have e: "early s'" using s' Cons.prems(1) by (simp add: same_fs_def early_def)
    have i: "in_diskmap (a + 1 + i)" if "i \<le> length xs" for i using Cons.prems(2) [of "Suc i"] that by simp
    show "runs (if view s a = x then name_eq xs (a + 1) else freturn False) s' Q"
    proof (cases "view s a = x")
      case True
      have "runs (name_eq xs (a + 1)) s' Q"
      proof (rule Cons.IH [OF e i])
        fix s2 assume s2: "same_fs s' s2"
        have "view s' (a + 1 + j) = view s (a + 1 + j)" if "j < length (xs @ [0])" for j
          using s' i [of j] that by (simp add: same_fs_def)
        then have "(\<forall>j < length (xs @ [0]). view s' (a + 1 + j) = (xs @ [0]) ! j) =
            (\<forall>j < length ((x # xs) @ [0]). view s (a + j) = ((x # xs) @ [0]) ! j)"
          using True by (simp add: all)
        with Cons.prems(3) [OF same_fs_trans [OF s' s2]]
        show "Q (\<forall>j < length (xs @ [0]). view s' (a + 1 + j) = (xs @ [0]) ! j) s2" by (simp only:)
      qed simp
      with True show ?thesis by simp
    next
      case False
      with Cons.prems(3) [OF s'] show ?thesis by (simp add: all)
    qed
  qed
qed

lemma early_rd_range:
  assumes s: "early s" and n: "0 < n" "n \<le> 4096"
    and Q: "\<And>s'. same_fs s s' \<Longrightarrow> Q (map (view s) [block_addr 1..<block_addr 1 + n]) s'"
  shows "runs (rd_range (block_addr 1) n) s Q"
  unfolding rd_range_def runs_bind
proof (rule ok_accessD [OF early_access [OF s addr_1(3)]])
  fix s' assume s': "same_fs s s'" "cached s' (block_of (block_addr 1))"
  have "cmem s' x = view s x" if "x \<in> set [block_addr 1..<block_addr 1 + n]" for x
  proof -
    have i: "block_addr 1 + (x - block_addr 1) = x" "x - block_addr 1 < 4096" using that n(2) by auto
    have "cached s' (block_of x)" "in_diskmap x"
      using s'(2) block_1(2,3) [OF i(2)] unfolding i(1) addr_1(2) by (simp_all only:)
    with s'(1) show ?thesis using view_cached [of s' x] by (simp add: same_fs_def)
  qed
  then have e: "map (cmem s') [block_addr 1..<block_addr 1 + n] = map (view s) [block_addr 1..<block_addr 1 + n]"
    by (rule map_cong [OF refl])
  show "runs (fget (\<lambda>s. map (cmem s) [block_addr 1..<block_addr 1 + n])) s' Q"
    unfolding runs_get e by (rule Q [OF s'(1)])
qed

lemma runs_fassert [simp]: "runs (fassert p) s Q \<longleftrightarrow> p s \<and> Q () s"
  by (simp add: fassert_def)

lemma early_wr:
  assumes "early s" "xs \<noteq> []" "length xs \<le> 4096"
    "\<And>s'. wrote s 1 (poke (block_addr 1) xs) s' \<Longrightarrow> early s' \<Longrightarrow> Q () s'"
  shows "runs (wr_mem (block_addr 1) (poke (block_addr 1) xs)) s Q"
proof (rule wr_mem_ok [OF early_access [OF assms(1) addr_1(3)]])
  have "in_block 1 (block_addr 1 + (length xs - 1))" using assms(2,3) by (intro block_1) (cases xs; simp)
  then show "local_to (block_of (block_addr 1)) (poke (block_addr 1) xs)"
    using assms(2) addr_1 unfolding poke_def addr_1(2) by (intro local_poke) (auto simp: Suc_le_eq)
  fix s' assume "wrote s (block_of (block_addr 1)) (poke (block_addr 1) xs) s'"
  then show "Q () s'" unfolding addr_1(2) by (intro assms(4)) (use assms(1) in \<open>simp_all add: wrote_def early_def\<close>)
next
  show "block_of (block_addr 1) < 786432" unfolding addr_1(2) by simp
qed

lemma unmap_clean:
  assumes "coherent s" "cached s 1" "\<not> dirty s 1"
  defines "s' \<equiv> s\<lparr>cached := (cached s)(1 := False)\<rparr>"
  shows "in_diskmap x \<Longrightarrow> view s' x = view s x" "coherent s'"
proof -
  show "coherent s'" using assms(1) by (simp add: s'_def coherent_def)
  show "view s' x = view s x" if x: "in_diskmap x"
  proof (cases "block_of x = 1")
    case True
    with x block_of_range [OF x, of 1] have "block_addr 1 \<le> x" "x - block_addr 1 < BLKSIZE" by auto
    then have "cmem s (block_addr 1 + (x - block_addr 1)) = disk s 1 (x - block_addr 1)"
      using assms(1-3) unfolding coherent_def by (metis one_less_numeral_iff semiring_norm(76) order.strict_trans numeral_less_iff Suc_1 lessI numerals(1))
    with True \<open>block_addr 1 \<le> x\<close> assms(2) show ?thesis by (simp add: s'_def view_def)
  qed (simp add: s'_def view_def)
qed

lemma smash_super_runs:
  assumes s: "early s" "coherent s" and o: "offset < 4096"
    and Q: "\<And>s'. untouched s s' \<Longrightarrow> cached s' 1 \<Longrightarrow> \<not> dirty s' 1 \<Longrightarrow> Q () s'"
  shows "runs (smash_super offset look_dirty) s Q"
  unfolding smash_super_def runs_bind early_diskaddr [OF s(1)]
proof (intro conjI, simp, rule early_rd_range [OF s(1)])
  let ?a = "block_addr 1"
  let ?backup = "map (view s) [?a..<?a + sizeof_Super]"
  fix s1 assume s1: "same_fs s s1"
  have e1: "early s1" "coherent s1" using s1 s by (simp_all add: same_fs_def early_def)
  show "runs (wr_mem ?a (poke ?a (OOPS @ [0]))) s1 (\<lambda>_ s. runs (flush_block (?a + offset)) s (\<lambda>_ s.
     runs (fassert (va_is_mapped ?a)) s (\<lambda>_ s. runs (fassert (\<lambda>s. look_dirty \<longrightarrow> \<not> va_is_dirty ?a s)) s (\<lambda>_ s.
     runs (unmap_block ?a) s (\<lambda>_ s. runs (fassert (\<lambda>s. \<not> va_is_mapped ?a s)) s (\<lambda>_ s. runs (name_eq OOPS ?a) s (\<lambda>eq s.
     runs (fassert (\<lambda>_. eq)) s (\<lambda>_ s. runs (wr_mem ?a (poke ?a ?backup)) s (\<lambda>_ s. runs (flush_block ?a) s Q)))))))))"
  proof (rule early_wr [OF e1(1)], simp, simp add: OOPS_def, rule flush_block_runs [OF block_1(3) [OF o]])
    fix s2 s3 assume s2: "wrote s1 1 (poke ?a (OOPS @ [0])) s2" "early s2" and s3': "flushed s2 (block_of (?a + offset)) s3"
    then have s3: "flushed s2 1 s3" by (simp only: block_1(2) [OF o])
    have c3: "coherent s3" "cached s3 1" "\<not> dirty s3 1" "early s3"
      using s2 s3 e1 by (simp_all add: wrote_def flushed_def early_def)
    have v3: "view s3 x = poke ?a (OOPS @ [0]) (view s1) x" if "in_diskmap x" for x
      using s2(1) s3 that by (simp add: wrote_def flushed_def)
    let ?s4 = "s3\<lparr>cached := (cached s3)(1 := False)\<rparr>"
    note u = unmap_clean [OF c3(1-3)]
    have e4: "early ?s4" using c3(4) by (simp add: early_def)
    have "va_is_mapped ?a s3" "\<not> va_is_dirty ?a s3" "\<not> va_is_mapped ?a ?s4"
      using c3 addr_1 unfolding va_is_mapped_def va_is_dirty_def addr_1(2) by simp_all
    moreover have "runs (name_eq OOPS ?a) ?s4 (\<lambda>eq s. runs (fassert (\<lambda>_. eq)) s (\<lambda>_ s.
        runs (wr_mem ?a (poke ?a ?backup)) s (\<lambda>_ s. runs (flush_block ?a) s Q)))"
    proof (rule name_eq_runs [OF e4])
      show "in_diskmap (?a + i)" if "i \<le> length OOPS" for i using that by (intro block_1(3)) (simp add: OOPS_def)
      fix s5 assume s5: "same_fs ?s4 s5"
      have e5: "early s5" "coherent s5" using s5 e4 u(2) by (simp_all add: same_fs_def early_def)
      have v5: "view s5 x = poke ?a (OOPS @ [0]) (view s1) x" if "in_diskmap x" for x
        using s5 u(1) [OF that] v3 [OF that] that by (simp add: same_fs_def)
      have "view ?s4 (?a + i) = (OOPS @ [0]) ! i" if "i < length (OOPS @ [0])" for i
      proof -
        have d: "in_diskmap (?a + i)" using that by (intro block_1(3)) (simp add: OOPS_def)
        show ?thesis using u(1) [OF d] v3 [OF d] that by (simp add: poke_def)
      qed
      moreover have "runs (wr_mem ?a (poke ?a ?backup)) s5 (\<lambda>_ s. runs (flush_block ?a) s Q)"
      proof (rule early_wr [OF e5(1)], simp add: sizeof_Super_def, simp add: sizeof_Super_def,
          rule flush_block_runs [OF addr_1(3)])
        fix s6 s7 assume s6: "wrote s5 1 (poke ?a ?backup) s6" "early s6" and s7': "flushed s6 (block_of ?a) s7"
        then have s7: "flushed s6 1 s7" by (simp only: addr_1(2))
        have "view s7 x = view s x" if x: "in_diskmap x" for x
        proof -
          have "view s7 x = poke ?a ?backup (view s5) x" using s6(1) s7 x by (simp add: wrote_def flushed_def)
          also have "\<dots> = view s x"
            using v5 [OF x] s1 x by (auto simp: poke_def same_fs_def sizeof_Super_def OOPS_def)
          finally show ?thesis .
        qed
        moreover have "early s7" "coherent s7" "cached s7 1" "\<not> dirty s7 1"
          using s6 s7 e5 by (simp_all add: wrote_def flushed_def early_def)
        moreover have "disk s7 b = disk s b" if "b \<noteq> 1" for b
          using s7 s6(1) s5 s3 s2(1) s1 that by (simp add: flushed_def wrote_def same_fs_def)
        ultimately show "Q () s7" by (intro Q) (simp_all add: untouched_def)
      qed
      ultimately show "runs (fassert (\<lambda>_. \<forall>i < length (OOPS @ [0]). view ?s4 (?a + i) = (OOPS @ [0]) ! i)) s5
          (\<lambda>_ s. runs (wr_mem ?a (poke ?a ?backup)) s (\<lambda>_ s. runs (flush_block ?a) s Q))" by simp
    qed
    ultimately show "runs (fassert (va_is_mapped ?a)) s3 (\<lambda>_ s. runs (fassert (\<lambda>s. look_dirty \<longrightarrow> \<not> va_is_dirty ?a s)) s (\<lambda>_ s.
     runs (unmap_block ?a) s (\<lambda>_ s. runs (fassert (\<lambda>s. \<not> va_is_mapped ?a s)) s (\<lambda>_ s. runs (name_eq OOPS ?a) s (\<lambda>eq s.
     runs (fassert (\<lambda>_. eq)) s (\<lambda>_ s. runs (wr_mem ?a (poke ?a ?backup)) s (\<lambda>_ s. runs (flush_block ?a) s Q)))))))"
      unfolding unmap_block_def addr_1(2) runs_modify runs_fassert by blast
  qed
qed (simp_all add: sizeof_Super_def)

lemma untouched_trans: "untouched s s1 \<Longrightarrow> untouched s1 s2 \<Longrightarrow> untouched s s2"
  by (simp add: untouched_def)

lemma bc_init_runs:
  assumes s: "early s" "coherent s"
    and Q: "\<And>s'. untouched s s' \<Longrightarrow> cached s' 1 \<Longrightarrow> \<not> dirty s' 1 \<Longrightarrow> Q () s'"
  shows "runs bc_init s Q"
  unfolding bc_init_def check_bc_def runs_bind
proof (rule smash_super_runs [OF s], simp)
  fix s1 assume s1: "untouched s s1"
  then have e1: "early s1" "coherent s1" by (simp_all add: untouched_def)
  show "runs (smash_super 20 False) s1 (\<lambda>_ s. runs (diskaddr 1) s (\<lambda>addr s. runs (rd_range addr sizeof_Super) s (\<lambda>_ s. runs (freturn ()) s Q)))"
  proof (rule smash_super_runs [OF e1], simp)
    fix s2 assume s2: "untouched s1 s2" "cached s2 1" "\<not> dirty s2 1"
    then have e2: "early s2" by (simp add: untouched_def)
    have "runs (rd_range (block_addr 1) sizeof_Super) s2 (\<lambda>_ s. runs (freturn ()) s Q)"
    proof (rule early_rd_range [OF e2])
      fix s3 assume s3: "same_fs s2 s3"
      then have "untouched s2 s3" "cached s3 1" "\<not> dirty s3 1"
        using s2 e2 by (simp_all add: untouched_def same_fs_def early_def)
      then show "runs (freturn ()) s3 Q" using Q [OF untouched_trans [OF s1 untouched_trans [OF s2(1)]]] by simp
    qed (simp_all add: sizeof_Super_def)
    then show "runs (diskaddr 1) s2 (\<lambda>addr s. runs (rd_range addr sizeof_Super) s (\<lambda>_ s. runs (freturn ()) s Q))"
      unfolding early_diskaddr [OF e2] by simp
  qed
qed

lemma check_bitmap_loop_runs:
  assumes "mounted s" "\<And>s'. same_fs s s' \<Longrightarrow> Q () s'"
  shows "runs (check_bitmap_loop k i) s Q"
  using assms
proof (induction k arbitrary: i s)
  case (Suc k)
  show ?case
  proof (cases "i * BLKBITSIZE < nblocks s")
    case True
    then have f: "\<not> free_bit s (2 + i)" using Suc.prems(1) by (simp add: mounted_def)
    have "runs (block_is_free (2 + i)) s (\<lambda>fr s'. runs (if fr then fpanic else check_bitmap_loop k (i + 1)) s' Q)"
    proof (rule block_is_free_runs [OF Suc.prems(1)])
      fix s' assume s': "same_fs s s'"
      have "runs (check_bitmap_loop k (i + 1)) s' Q"
        using mounted_same [OF s' Suc.prems(1)] Suc.prems(2) [OF same_fs_trans [OF s']] by (rule Suc.IH)
      with f show "runs (if free_bit s (2 + i) then fpanic else check_bitmap_loop k (i + 1)) s' Q" by simp
    qed
    with True show ?thesis using super_runs [OF Suc.prems(1)] by simp
  next
    case False
    with Suc.prems(2) [OF same_fs_refl] show ?thesis using super_runs [OF Suc.prems(1)] by simp
  qed
qed (simp add: same_fs_refl)

lemma check_bitmap_runs:
  assumes m: "mounted s" and Q: "\<And>s'. same_fs s s' \<Longrightarrow> Q () s'"
  shows "runs check_bitmap s Q"
  unfolding check_bitmap_def runs_bind
proof (rule check_bitmap_loop_runs [OF m])
  fix s1 assume s1: "same_fs s s1"
  have m1: "mounted s1" using s1 m by (rule mounted_same)
  have b: "\<not> free_bit s 0" "\<not> free_bit s 1" "nblocks s \<le> 786432" using m by (simp_all add: mounted_def)
  show "runs (block_is_free 0) s1 (\<lambda>fr0 s. runs (if fr0 then fpanic
      else fbind (block_is_free 1) (\<lambda>fr1. if fr1 then fpanic else freturn ())) s Q)"
  proof (rule block_is_free_runs [OF m1])
    fix s2 assume s2: "same_fs s1 s2"
    have st: "same_fs s s2" using s1 s2 by (rule same_fs_trans)
    have m2: "mounted s2" using st m by (rule mounted_same)
    have "runs (block_is_free 1) s2 (\<lambda>x s'. runs (if x then fpanic else freturn ()) s' Q)"
    proof (rule block_is_free_runs [OF m2])
      fix s3 assume "same_fs s2 s3"
      then show "runs (if free_bit s2 1 then fpanic else freturn ()) s3 Q"
        using b free_bit_same [OF st] Q [OF same_fs_trans [OF st]] by simp
    qed
    then show "runs (if free_bit s1 0 then fpanic
        else fbind (block_is_free 1) (\<lambda>fr1. if fr1 then fpanic else freturn ())) s2 Q"
      using b free_bit_same [OF s1] by simp
  qed
qed

text \<open>A disk with a file system: its super block and bitmap as they show in the window.\<close>

definition valid_disk :: "fs_state \<Rightarrow> bool" where
  "valid_disk s \<longleftrightarrow> load32 (view s) s_magic = FS_MAGIC \<and> 2 < nblocks s \<and> nblocks s \<le> 786432
     \<and> (\<forall>b. reserved s b \<longrightarrow> b < nblocks s \<and> \<not> free_bit s b)"

lemma window_words:
  assumes "\<And>x. in_diskmap x \<Longrightarrow> view s' x = view s x"
  shows "in_diskmap a \<Longrightarrow> in_diskmap (a + 3) \<Longrightarrow> load32 (view s') a = load32 (view s) a"
    "nblocks s' = nblocks s" "nblocks s \<le> 786432 \<Longrightarrow> free_bit s' b = free_bit s b" "reserved s' b = reserved s b"
proof -
  show l: "load32 (view s') a = load32 (view s) a" if "in_diskmap a" "in_diskmap (a + 3)" for a
    using that by (intro load32_cong assms) (auto simp: in_diskmap_def)
  show n: "nblocks s' = nblocks s" using l super_in by (simp add: nblocks_def)
  then show "reserved s' b = reserved s b" by (simp add: reserved_def)
  show "nblocks s \<le> 786432 \<Longrightarrow> free_bit s' b = free_bit s b"
    using n l bitmap_in [of b] by (auto simp: free_bit_def)
qed

lemma check_super_runs:
  assumes "cached s 1" "load32 (view s) s_magic = FS_MAGIC" "nblocks s \<le> 786432"
  shows "runs check_super s Q \<longleftrightarrow> Q () s"
proof -
  have m: "load32 (cmem s) s_magic = load32 (view s) s_magic"
    using assms(1) block_1(2) [of 3] addr_1 by (intro load32_cached) (simp_all add: s_magic_def)
  have a: "runs (bc_access s_magic) s R \<longleftrightarrow> R () s" for R
    using assms(1) addr_1 unfolding bc_access_Suc s_magic_def by (intro access_cached) simp_all
  have n: "runs (super_nblocks bc_access) s R \<longleftrightarrow> R (nblocks s) s" for R
    using assms(1) super_cached unfolding bc_access_Suc by blast
  show ?thesis
    using m assms(2,3) unfolding check_super_def rd32_def read32_def runs_bind a runs_get by (simp add: n)
qed

lemma mounted_view:
  assumes "coherent s'" "has_super s'" "has_bitmap s'" "valid_disk s" "\<And>x. in_diskmap x \<Longrightarrow> view s' x = view s x"
    and "cached s' 1"
  shows "mounted s'"
proof -
  note w = window_words [of s' s, OF assms(5)]
  have "nblocks s' = nblocks s" "reserved s' b = reserved s b" for b by (rule w, assumption)+
  moreover have "free_bit s' b = free_bit s b" for b using w(3) assms(4) by (simp add: valid_disk_def)
  ultimately show ?thesis using assms unfolding mounted_reserved_iff by (simp add: valid_disk_def)
qed

lemma block_1_on_disk:
  assumes "coherent s" "cached s 1" "\<not> dirty s 1" "i < BLKSIZE"
  shows "disk s 1 i = view s (block_addr 1 + i)"
proof -
  have "i < 4096" using assms(4) by simp
  then show ?thesis using assms block_1(2) [of i] by (simp add: coherent_def view_def)
qed

lemma fs_init_runs:
  assumes "early s" "coherent s" "valid_disk s"
  shows "runs fs_init s (\<lambda>_ s'. mounted s' \<and> (\<forall>x. in_diskmap x \<longrightarrow> view s' x = view s x)
    \<and> (\<forall>b \<noteq> 1. disk s' b = disk s b) \<and> (\<forall>i < BLKSIZE. disk s' 1 i = view s (block_addr 1 + i)))"
  unfolding fs_init_def runs_bind
proof (rule bc_init_runs [OF assms(1,2)])
  fix s1 assume s1: "untouched s s1" "cached s1 1" "\<not> dirty s1 1"
  let ?s2 = "s1\<lparr>has_super := True\<rparr>"
  let ?s3 = "?s2\<lparr>has_bitmap := True\<rparr>"
  let ?Q = "\<lambda>_::unit. \<lambda>s'. mounted s' \<and> (\<forall>x. in_diskmap x \<longrightarrow> view s' x = view s x)
    \<and> (\<forall>b \<noteq> 1. disk s' b = disk s b) \<and> (\<forall>i < BLKSIZE. disk s' 1 i = view s (block_addr 1 + i))"
  have e1: "early s1" "coherent s1" using s1(1) by (simp_all add: untouched_def)
  have v2: "view ?s2 x = view s x" "view ?s3 x = view s x" if "in_diskmap x" for x
  proof -
    have "view ?s2 x = view s1 x" "view ?s3 x = view s1 x" by (simp_all add: view_def)
    with s1(1) that show "view ?s2 x = view s x" "view ?s3 x = view s x" by (simp_all add: untouched_def)
  qed
  note w2 = window_words [of ?s2 s, OF v2(1)] and w3 = window_words [of ?s3 s, OF v2(2)]
  have magic: "load32 (view ?s2) s_magic = FS_MAGIC"
    using assms(3) w2(1) block_1(3) [of 3] addr_1(3) by (simp add: valid_disk_def s_magic_def)
  have m3: "mounted ?s3" using mounted_view [of ?s3 s] e1(2) assms(3) v2(2) s1 by (simp add: coherent_def)
  have "runs check_bitmap ?s3 ?Q"
  proof (rule check_bitmap_runs [OF m3])
    fix s4 assume s4: "same_fs ?s3 s4"
    have m4: "mounted s4" using s4 m3 by (rule mounted_same)
    have c: "cached s4 1" "\<not> dirty s4 1" "coherent s4"
      using s4 s1 e1 m4 by (auto simp: same_fs_def mounted_def)
    have v4: "view s4 x = view s x" if "in_diskmap x" for x using s4 v2(2) [OF that] that by (simp add: same_fs_def)
    have "disk s4 1 i = view s (block_addr 1 + i)" if i: "i < BLKSIZE" for i
      using block_1_on_disk [OF c(3,1,2) i] v4 [OF block_1(3)] i by simp
    moreover have "disk s4 b = disk s b" if "b \<noteq> 1" for b using s4 s1(1) that by (simp add: same_fs_def untouched_def)
    ultimately show "?Q () s4" using m4 v4 by simp
  qed
  then have "runs (diskaddr 2) ?s2 (\<lambda>_ s. runs (fmodify (\<lambda>s. s\<lparr>has_bitmap := True\<rparr>)) s (\<lambda>_ s. runs check_bitmap s ?Q))"
    using assms(3) s1(2) super_cached [of ?s2 "Suc (Suc (Suc 0))"] w2(2)
    by (simp add: diskaddr_def bc_access_Suc valid_disk_def del: access_n.simps)
  then show "runs (diskaddr 1) s1 (\<lambda>_ s. runs (fmodify (\<lambda>s. s\<lparr>has_super := True\<rparr>)) s (\<lambda>_ s. runs check_super s (\<lambda>_ s.
      runs (diskaddr 2) s (\<lambda>_ s. runs (fmodify (\<lambda>s. s\<lparr>has_bitmap := True\<rparr>)) s (\<lambda>_ s. runs check_bitmap s ?Q)))))"
    unfolding early_diskaddr [OF e1(1)]
    using check_super_runs [of ?s2] magic s1(2) w2(2) assms(3) by (simp add: valid_disk_def)
qed

text \<open>
  Property C23. Starting the server on a disk with a file system succeeds: the self-test of the
  block cache, which overwrites the super block twice and puts it back, and the checks of the
  super block and the bitmap pass, the result is a mounted file system, and the disk holds
  what it held.
\<close>

theorem fs_init_mounts:
  assumes "early s" "coherent s" "valid_disk s"
  shows "runs fs_init s (\<lambda>_ s'. mounted s' \<and> (\<forall>x. in_diskmap x \<longrightarrow> view s' x = view s x)
    \<and> (\<forall>b \<noteq> 1. disk s' b = disk s b) \<and> (\<forall>i < BLKSIZE. disk s' 1 i = view s (block_addr 1 + i)))"
  using assms by (rule fs_init_runs)

definition cold_fs :: "(nat \<Rightarrow> nat \<Rightarrow> u8) \<Rightarrow> fs_state" where
  "cold_fs d = (small_fs d)\<lparr>cached := (\<lambda>_. False), has_super := False, has_bitmap := False\<rparr>"

lemma valid_cold: "valid_disk (cold_fs file_disk)"
proof -
  let ?s = "small_fs file_disk"
  have v: "view (cold_fs file_disk) = view ?s"
    by (rule ext) (simp add: view_small_fs, simp add: view_def cold_fs_def small_fs_def)
  have n: "nblocks (cold_fs file_disk) = nblocks ?s" using v by (rule nblocks_view)
  have "load32 (file_disk 1) 0 = FS_MAGIC" by (simp add: file_disk_def)
  then have "load32 (view ?s) s_magic = FS_MAGIC" using load32_small_fs [of 0 file_disk 1] by (simp add: s_magic_def)
  moreover have "mounted ?s" by (rule mounted_full [OF full_super_disk])
  ultimately show ?thesis
    unfolding valid_disk_def v n free_bit_view [OF v] reserved_def mounted_reserved_iff by blast
qed

theorem fs_init_mounts_witness: "runs fs_init (cold_fs file_disk) (\<lambda>_ s'. mounted s' \<and> disk s' 5 0 = 5)"
proof -
  have "early (cold_fs file_disk)" "coherent (cold_fs file_disk)"
    by (simp_all add: early_def coherent_def cold_fs_def)
  note m = fs_init_mounts [OF this valid_cold]
  have "disk (cold_fs file_disk) 5 0 = 5" by (simp add: cold_fs_def small_fs_def file_disk_def)
  with m show ?thesis by (auto elim!: runs_mono)
qed

section \<open>Faults inside the fault handler\<close>

text \<open>
  Property C24. On a mounted file system the page-fault handler ends: an access to a block in use
  nests at most three faults inside its own (for the bitmap word of the block, for that of the
  bitmap block, and for that of the first bitmap block), neither panics nor faults for ever,
  and any larger bound on the nesting gives the same result.
\<close>

theorem bc_fault_terminates:
  assumes "mounted s" "usable s a"
  shows "access_n (j + 4) a s = bc_access a s \<and> (\<exists>s'. bc_access a s = FOk () s' \<and> same_fs s s' \<and> va_is_mapped a s')"
proof -
  from access_runs [OF assms] obtain s' where s': "bc_access a s = FOk () s'" "same_fs s s'" "cached s' (block_of a)"
    unfolding ok_access_def by (auto dest: runs_D)
  moreover have "access_n (j + 4) a s = bc_access a s"
    using access_mono_add [of 4 a j] s'(1) by (simp add: refined_def bc_access_def del: access_n.simps)
  ultimately show ?thesis using assms(2) by (simp add: va_is_mapped_def usable_def)
qed

theorem bc_fault_terminates_witness:
  "\<exists>s'. access_n (6 + 4) (block_addr 5) (small_fs file_disk) = FOk () s' \<and> va_is_mapped (block_addr 5) s'"
proof -
  have b: "block_of (block_addr 5) = 5" using block_of_addr [of 0 5] by simp
  have "usable (small_fs file_disk) (block_addr 5)"
    by (simp add: usable_def b nblocks_full free_bit_full full_super_disk in_diskmap_def) (simp add: block_addr_def)
  from bc_fault_terminates [OF mounted_full [OF full_super_disk] this, of 6] show ?thesis
    by (auto simp del: access_n.simps)
qed

end
