(* ===== verification/Jos_Serv.thy ===== *)
theory Jos_Serv
  imports Jos_Mount
begin

text \<open>
  The file server, \<^verbatim>\<open>tps/fs/serv.c\<close>: the table of open files, one handler per request, and the
  dispatch of one request. The \<open>Fd\<close> page of a table entry is shared with the clients that have
  the file open, and the server learns from its reference count whether anyone has: the count
  belongs to the state, and a client changes it by mapping and unmapping the page.
\<close>

section \<open>State\<close>

record Fd =
  fd_dev_id :: u32
  fd_offset :: u32
  fd_omode :: u32
  fd_file_id :: u32

record OpenFile =
  o_fileid :: u32
  o_file :: nat
  o_mode :: u32

record server =
  fs :: fs_state
  opentab :: "nat \<Rightarrow> OpenFile"
  fd_refs :: "nat \<Rightarrow> nat"
  fd_page :: "nat \<Rightarrow> Fd"
  fsreq :: bmem
  no_page :: bool

definition MAXOPEN :: nat where "MAXOPEN = 1024"
definition MAXPATHLEN :: nat where "MAXPATHLEN = 1024"

definition O_ACCMODE :: u32 where "O_ACCMODE = 3"
definition O_CREAT :: u32 where "O_CREAT = 0x100"
definition O_TRUNC :: u32 where "O_TRUNC = 0x200"
definition O_EXCL :: u32 where "O_EXCL = 0x400"

lemma MAXOPEN_simps [simp]: "MAXOPEN = 1024" "MAXPATHLEN = 1024"
  by (simp_all add: MAXOPEN_def MAXPATHLEN_def)

text \<open>A handler returns, or the server panics (or faults for ever).\<close>

type_synonym 'a srv = "server \<Rightarrow> ('a \<times> server) option"

definition sreturn :: "'a \<Rightarrow> 'a srv" where "sreturn x = (\<lambda>s. Some (x, s))"
definition sbind :: "'a srv \<Rightarrow> ('a \<Rightarrow> 'b srv) \<Rightarrow> 'b srv" where
  "sbind m k = (\<lambda>s. case m s of None \<Rightarrow> None | Some (x, s') \<Rightarrow> k x s')"
definition spanic :: "'a srv" where "spanic = (\<lambda>s. None)"
definition sget :: "(server \<Rightarrow> 'a) \<Rightarrow> 'a srv" where "sget f = (\<lambda>s. Some (f s, s))"
definition smodify :: "(server \<Rightarrow> server) \<Rightarrow> unit srv" where "smodify f = (\<lambda>s. Some ((), f s))"

definition on_fs :: "'a fsm \<Rightarrow> 'a srv" where
  "on_fs m = (\<lambda>s. case m (fs s) of FOk x f \<Rightarrow> Some (x, s\<lparr>fs := f\<rparr>) | FPanic \<Rightarrow> None | FStuck \<Rightarrow> None)"

section \<open>The table of open files\<close>

definition zero_Fd :: Fd where
  "zero_Fd = \<lparr>fd_dev_id = 0, fd_offset = 0, fd_omode = 0, fd_file_id = 0\<rparr>"

definition serve_init :: "server \<Rightarrow> server" where
  "serve_init s = s\<lparr>opentab := (\<lambda>i. if i < MAXOPEN then (opentab s i)\<lparr>o_fileid := of_nat i\<rparr> else opentab s i)\<rparr>"

text \<open>The part after \<open>case 1\<close>: a new identifier for the entry, and its page cleared.\<close>

definition take_entry :: "nat \<Rightarrow> (int \<times> nat) srv" where
  "take_entry i =
     sbind (smodify (\<lambda>s. s\<lparr>opentab := (opentab s)(i := (opentab s i)\<lparr>o_fileid := o_fileid (opentab s i) + 1024\<rparr>),
        fd_page := (fd_page s)(i := zero_Fd)\<rparr>)) (\<lambda>_.
     sget (\<lambda>s. (sint (o_fileid (opentab s i)), i)))"

primrec alloc_entry :: "nat \<Rightarrow> nat \<Rightarrow> (int \<times> nat) srv" where
  "alloc_entry 0 i = sreturn (- E_MAX_OPEN, 0)"
| "alloc_entry (Suc k) i =
     sbind (sget (\<lambda>s. (fd_refs s i, no_page s))) (\<lambda>(r, np).
     if r = 0 then
       (if np then sreturn (- E_NO_MEM, 0)
        else sbind (smodify (\<lambda>s. s\<lparr>fd_refs := (fd_refs s)(i := 1)\<rparr>)) (\<lambda>_. take_entry i))
     else if r = 1 then take_entry i
     else alloc_entry k (i + 1))"

definition openfile_alloc :: "(int \<times> nat) srv" where
  "openfile_alloc = alloc_entry MAXOPEN 0"

definition openfile_lookup :: "u32 \<Rightarrow> (int \<times> nat) srv" where
  "openfile_lookup fileid =
     (let i = unat fileid mod MAXOPEN
      in sget (\<lambda>s. if fd_refs s i \<le> 1 \<or> o_fileid (opentab s i) \<noteq> fileid then (- E_INVAL, 0) else (0, i)))"

section \<open>Requests\<close>

text \<open>The fields of the request page, by their offsets in \<open>union Fsipc\<close>.\<close>

definition req_fileid :: "bmem \<Rightarrow> u32" where "req_fileid m = load32 m 0"
definition req_size :: "bmem \<Rightarrow> u32" where "req_size m = load32 m 4"
definition req_omode :: "bmem \<Rightarrow> u32" where "req_omode m = load32 m MAXPATHLEN"

definition req_path :: "bmem \<Rightarrow> u8 list" where
  "req_path m = takeWhile (\<lambda>c. c \<noteq> 0) (map m [0..<MAXPATHLEN - 1])"

text \<open>\<open>serve_open\<close>: the result, and the table entry whose page goes to the client.\<close>

definition open_or_create :: "u8 list \<Rightarrow> u32 \<Rightarrow> (int \<times> nat) srv" where
  "open_or_create path omode =
     (if omode AND O_CREAT \<noteq> 0 then
        sbind (on_fs (file_create path)) (\<lambda>(r, f).
        if r < 0 \<and> omode AND O_EXCL = 0 \<and> r = - E_FILE_EXISTS then on_fs (file_open path)
        else sreturn (r, f))
      else on_fs (file_open path))"

definition serve_open :: "(int \<times> nat option) srv" where
  "serve_open =
     sbind (sget (\<lambda>s. (req_path (fsreq s), req_omode (fsreq s)))) (\<lambda>(path, omode).
     sbind openfile_alloc (\<lambda>(r, ot).
     if r < 0 then sreturn (r, None)
     else
       sbind (open_or_create path omode) (\<lambda>(r, f).
       if r < 0 then sreturn (r, None)
       else
         sbind (if omode AND O_TRUNC \<noteq> 0 then on_fs (file_set_size f 0) else sreturn 0) (\<lambda>r.
         if r < 0 then sreturn (r, None)
         else
           sbind (on_fs (file_open path)) (\<lambda>(r, f).
           if r < 0 then sreturn (r, None)
           else
             sbind (smodify (\<lambda>s. s\<lparr>
               opentab := (opentab s)(ot := (opentab s ot)\<lparr>o_file := f, o_mode := omode\<rparr>),
               fd_page := (fd_page s)(ot := (fd_page s ot)\<lparr>fd_file_id := o_fileid (opentab s ot),
                  fd_omode := omode AND O_ACCMODE, fd_dev_id := 102\<rparr>)\<rparr>)) (\<lambda>_.
             sreturn (0, Some ot)))))))"

text \<open>The operations on an open file, given what they do with it.\<close>

definition with_open :: "(nat \<Rightarrow> int srv) \<Rightarrow> int srv" where
  "with_open op =
     sbind (sget (\<lambda>s. req_fileid (fsreq s))) (\<lambda>fileid.
     sbind (openfile_lookup fileid) (\<lambda>(r, ot).
     if r < 0 then sreturn r else sbind (sget (\<lambda>s. o_file (opentab s ot))) op))"

definition serve_set_size :: "int srv" where
  "serve_set_size = with_open (\<lambda>f. sbind (sget (\<lambda>s. req_size (fsreq s))) (\<lambda>size. on_fs (file_set_size f (unat size))))"

definition serve_read :: "int srv" where "serve_read = sreturn 0"
definition serve_write :: "int srv" where "serve_write = spanic"

text \<open>\<open>strcpy\<close> from a file's name to the page; a name without its null is not read past its array.\<close>

primrec rd_name :: "nat \<Rightarrow> nat \<Rightarrow> u8 list fsm" where
  "rd_name 0 a = (\<lambda>s. FStuck)"
| "rd_name (Suc k) a = fbind (rd8 a) (\<lambda>c. if c = 0 then freturn [] else fbind (rd_name k (a + 1)) (\<lambda>cs. freturn (c # cs)))"

definition serve_stat :: "int srv" where
  "serve_stat = with_open (\<lambda>f.
     sbind (on_fs (rd_name MAXNAMELEN f)) (\<lambda>name.
     sbind (on_fs (rd32 (f_size f))) (\<lambda>size.
     sbind (on_fs (rd32 (f_type f))) (\<lambda>ty.
     sbind (smodify (\<lambda>s. s\<lparr>fsreq := store32 (MAXNAMELEN + 4) (if ty = FTYPE_DIR then 1 else 0)
        (store32 MAXNAMELEN size (poke 0 (name @ [0]) (fsreq s)))\<rparr>)) (\<lambda>_.
     sreturn 0)))))"

definition serve_flush :: "int srv" where
  "serve_flush = with_open (\<lambda>f. sbind (on_fs (file_flush f)) (\<lambda>_. sreturn 0))"

definition serve_sync :: "int srv" where
  "serve_sync = sbind (on_fs fs_sync) (\<lambda>_. sreturn 0)"

section \<open>One round of the server\<close>

text \<open>
  One round of \<open>serve\<close>: the request number and whether a page came with it; the reply, if there is
  one, is the result and the table entry whose \<open>Fd\<close> page is sent.
\<close>

definition handlers :: "nat \<Rightarrow> int srv option" where
  "handlers req =
     (if req = 2 then Some serve_set_size else if req = 3 then Some serve_read else if req = 4 then Some serve_write
      else if req = 5 then Some serve_stat else if req = 6 then Some serve_flush else if req = 8 then Some serve_sync
      else None)"

definition serve :: "u32 \<Rightarrow> bool \<Rightarrow> (int \<times> nat option) option srv" where
  "serve req has_page =
     (if \<not> has_page then sreturn None
      else if req = 1 then sbind serve_open (\<lambda>r. sreturn (Some r))
      else case handlers (unat req) of
        Some h \<Rightarrow> sbind h (\<lambda>r. sreturn (Some (r, None)))
      | None \<Rightarrow> sreturn (Some (- E_INVAL, None)))"

section \<open>The server and its clients\<close>

text \<open>
  A request arrives and is answered, the client that gets an \<open>Fd\<close> page maps it; clients share
  pages they have mapped, and unmap them.
\<close>

inductive serv_step :: "server \<Rightarrow> server \<Rightarrow> bool" where
  request: "serve req has_page (s\<lparr>fsreq := page\<rparr>) = Some (reply, s') \<Longrightarrow>
     serv_step s (case reply of Some (r, Some i) \<Rightarrow> s'\<lparr>fd_refs := (fd_refs s')(i := fd_refs s' i + 1)\<rparr> | _ \<Rightarrow> s')"
| share: "2 \<le> fd_refs s i \<Longrightarrow> serv_step s (s\<lparr>fd_refs := (fd_refs s)(i := fd_refs s i + 1)\<rparr>)"
| unmap: "2 \<le> fd_refs s i \<Longrightarrow> serv_step s (s\<lparr>fd_refs := (fd_refs s)(i := fd_refs s i - 1)\<rparr>)"

inductive serv_reachable :: "server \<Rightarrow> bool" where
  start: "(\<And>i. fd_refs s i = 0) \<Longrightarrow> serv_reachable (serve_init s)"
| step: "serv_reachable s \<Longrightarrow> serv_step s s' \<Longrightarrow> serv_reachable s'"

inductive_cases serv_stepE: "serv_step s s'"

text \<open>An identifier carries the number of its entry.\<close>

definition table_ok :: "server \<Rightarrow> bool" where
  "table_ok s \<longleftrightarrow> (\<forall>i < MAXOPEN. unat (o_fileid (opentab s i)) mod MAXOPEN = i)"

named_theorems keeps_intros

definition keeps :: "'a srv \<Rightarrow> bool" where
  "keeps m \<longleftrightarrow> (\<forall>s x s'. m s = Some (x, s') \<longrightarrow> table_ok s \<longrightarrow> table_ok s')"

lemma keeps_basic [keeps_intros]: "keeps (sreturn x)" "keeps spanic" "keeps (sget f)" "keeps (on_fs m)"
  by (auto simp: keeps_def sreturn_def spanic_def sget_def on_fs_def table_ok_def split: fs_result.splits)

lemma keeps_bind [keeps_intros]: "keeps m \<Longrightarrow> (\<And>x. keeps (k x)) \<Longrightarrow> keeps (sbind m k)"
  unfolding keeps_def sbind_def by (auto split: option.splits prod.splits)

lemma keeps_if [keeps_intros]: "keeps m \<Longrightarrow> keeps m' \<Longrightarrow> keeps (if c then m else m')"
  by simp

lemma keeps_pair [keeps_intros]: "(\<And>x y. keeps (f x y)) \<Longrightarrow> keeps (case p of (x, y) \<Rightarrow> f x y)"
  by (simp split: prod.splits)

lemma keeps_modify: "(\<And>s. table_ok s \<Longrightarrow> table_ok (f s)) \<Longrightarrow> keeps (smodify f)"
  by (auto simp: keeps_def smodify_def)

lemma next_fileid: "unat (w + 1024 :: u32) mod 1024 = unat w mod 1024"
proof -
  have "unat (w + 1024) = (unat w + 1024) mod 4294967296" by (simp add: unat_word_ariths)
  then show ?thesis by (simp add: mod_mod_cancel)
qed

lemma keeps_take_entry [keeps_intros]: "keeps (take_entry i)"
  unfolding take_entry_def by (intro keeps_intros keeps_modify) (auto simp: table_ok_def next_fileid)

lemma keeps_alloc [keeps_intros]: "keeps openfile_alloc"
proof -
  have "keeps (alloc_entry k i)" for k i
  proof (induction k arbitrary: i)
    case (Suc k)
    show ?case unfolding alloc_entry.simps by (intro keeps_intros Suc keeps_modify) (simp add: table_ok_def)
  qed (simp add: keeps_intros)
  then show ?thesis by (simp only: openfile_alloc_def)
qed

lemma keeps_serve_open [keeps_intros]: "keeps serve_open"
  unfolding serve_open_def open_or_create_def by (intro keeps_intros keeps_modify) (auto simp: table_ok_def)

lemma keeps_with_open [keeps_intros]: "(\<And>f. keeps (op f)) \<Longrightarrow> keeps (with_open op)"
  unfolding with_open_def openfile_lookup_def Let_def by (intro keeps_intros)

lemma keeps_handlers: "handlers req = Some h \<Longrightarrow> keeps h"
  unfolding handlers_def serve_set_size_def serve_read_def serve_write_def serve_stat_def serve_flush_def serve_sync_def
  by (auto split: if_splits intro!: keeps_intros keeps_modify simp: table_ok_def)

lemma keeps_serve: "keeps (serve req has_page)"
  unfolding serve_def
  by (auto intro!: keeps_intros keeps_handlers split: option.splits)

lemma table_ok_step: "serv_step s s' \<Longrightarrow> table_ok s \<Longrightarrow> table_ok s'"
proof (erule serv_stepE)
  fix req has_page page reply s1
  assume r: "serve req has_page (s\<lparr>fsreq := page\<rparr>) = Some (reply, s1)" "table_ok s"
    "s' = (case reply of Some (r, Some i) \<Rightarrow> s1\<lparr>fd_refs := (fd_refs s1)(i := fd_refs s1 i + 1)\<rparr> | _ \<Rightarrow> s1)"
  have "table_ok (s\<lparr>fsreq := page\<rparr>)" using r(2) by (simp add: table_ok_def)
  with r(1) keeps_serve have "table_ok s1" unfolding keeps_def by blast
  with r(3) show ?thesis by (auto simp: table_ok_def split: option.splits)
qed (auto simp: table_ok_def)

section \<open>Properties\<close>

text \<open>
  Property C31. The file identifiers are well-formed: whatever requests are served and however
  clients share and close files, the identifier of an entry of the table is its number modulo
  the size of the table, so that \<open>openfile_lookup\<close> looks at the right entry.
\<close>

theorem fileids_typed:
  assumes "serv_reachable s" "i < MAXOPEN"
  shows "unat (o_fileid (opentab s i)) mod MAXOPEN = i"
proof -
  have "table_ok s" using assms(1)
  proof induction
    case (start s)
    then show ?case by (simp add: table_ok_def serve_init_def unat_of_nat)
  next
    case (step s s')
    then show ?case by (rule_tac table_ok_step)
  qed
  with assms(2) show ?thesis by (simp add: table_ok_def)
qed

definition empty_server :: server where
  "empty_server = serve_init \<lparr>fs = small_fs file_disk, opentab = (\<lambda>_. \<lparr>o_fileid = 0, o_file = 0, o_mode = 1\<rparr>),
     fd_refs = (\<lambda>_. 0), fd_page = (\<lambda>_. zero_Fd), fsreq = (\<lambda>_. 0), no_page = False\<rparr>"

theorem fileids_typed_witness: "unat (o_fileid (opentab empty_server 7)) mod 1024 = 7"
  using fileids_typed [of empty_server 7] serv_reachable.start by (simp add: empty_server_def)

lemma alloc_entry_skip:
  "\<forall>j. i \<le> j \<and> j < i + n \<longrightarrow> 2 \<le> fd_refs s j \<Longrightarrow> alloc_entry (n + k) i s = alloc_entry k (i + n) s"
proof (induction n arbitrary: i)
  case (Suc n)
  have "2 \<le> fd_refs s i" using Suc.prems by simp
  then have "alloc_entry (Suc n + k) i s = alloc_entry (n + k) (i + 1) s" by (simp add: sbind_def sget_def)
  also have "\<dots> = alloc_entry k (i + 1 + n) s" using Suc.prems by (intro Suc.IH) auto
  finally show ?case by simp
qed simp

lemma openfile_alloc_run:
  assumes "i < MAXOPEN" "fd_refs s i \<le> 1" "\<forall>j < i. 2 \<le> fd_refs s j" "\<not> no_page s"
  shows "openfile_alloc s = Some ((sint (o_fileid (opentab s i) + 1024), i),
    s\<lparr>fd_refs := (fd_refs s)(i := 1), fd_page := (fd_page s)(i := zero_Fd),
      opentab := (opentab s)(i := (opentab s i)\<lparr>o_fileid := o_fileid (opentab s i) + 1024\<rparr>)\<rparr>)"
proof -
  have "alloc_entry (i + Suc (MAXOPEN - Suc i)) 0 s = alloc_entry (Suc (MAXOPEN - Suc i)) (0 + i) s"
    using assms(3) by (intro alloc_entry_skip) simp
  moreover have "i + Suc (MAXOPEN - Suc i) = MAXOPEN" using assms(1) by simp
  ultimately have "openfile_alloc s = alloc_entry (Suc (MAXOPEN - Suc i)) i s"
    by (simp only: openfile_alloc_def add_0)
  moreover have "(fd_refs s)(i := 1) = fd_refs s" if "fd_refs s i = 1" using that by auto
  moreover have "fd_refs s i = 0 \<or> fd_refs s i = 1" using assms(2) by auto
  ultimately show ?thesis using assms(4)
    by (auto simp: sbind_def sget_def smodify_def take_entry_def)
qed

text \<open>
  Opening takes the first entry no client has open and gives it a new identifier: one that
  no entry had, that carries the entry's number and is positive while it has not wrapped. The
  old identifier of the entry is refused from then on, the new one finds the entry as soon as
  the client has its page, and the identifiers of files that are open go on working.
\<close>

theorem openfile_alloc_fresh:
  assumes "table_ok s" "i < MAXOPEN" "fd_refs s i \<le> 1" "\<forall>j < i. 2 \<le> fd_refs s j" "\<not> no_page s"
    and "old = o_fileid (opentab s i)" "unat old < 2147482624"
  shows "\<exists>s'. openfile_alloc s = Some ((int (unat old + MAXOPEN), i), s')
    \<and> (let m = s'\<lparr>fd_refs := (fd_refs s')(i := 2)\<rparr> in
        openfile_lookup old m = Some ((- E_INVAL, 0), m)
      \<and> openfile_lookup (old + 1024) m = Some ((0, i), m)
      \<and> (\<forall>id j. openfile_lookup id s = Some ((0, j), s) \<longrightarrow> openfile_lookup id m = Some ((0, j), m)))"
proof -
  have u: "unat (old + 1024) = unat old + 1024" using assms(7) by (simp add: unat_word_ariths)
  have n: "sint (old + 1024) = int (unat old + 1024)" using assms(7) u by (simp add: sint32)
  have i: "unat old mod 1024 = i" "unat (old + 1024) mod 1024 = i"
    using assms(1,2,6) u by (simp_all add: table_ok_def)
  let ?s' = "s\<lparr>fd_refs := (fd_refs s)(i := 1), fd_page := (fd_page s)(i := zero_Fd),
      opentab := (opentab s)(i := (opentab s i)\<lparr>o_fileid := old + 1024\<rparr>)\<rparr>"
  let ?m = "?s'\<lparr>fd_refs := (fd_refs ?s')(i := 2)\<rparr>"
  have "openfile_alloc s = Some ((int (unat old + MAXOPEN), i), ?s')"
    using openfile_alloc_run [OF assms(2-5)] n by (simp add: assms(6))
  moreover have "openfile_lookup old ?m = Some ((- E_INVAL, 0), ?m)"
    using i(1) by (simp add: openfile_lookup_def sget_def Let_def)
  moreover have "openfile_lookup (old + 1024) ?m = Some ((0, i), ?m)"
    using i(2) by (simp add: openfile_lookup_def sget_def Let_def)
  moreover have "openfile_lookup id s = Some ((0, j), s) \<longrightarrow> openfile_lookup id ?m = Some ((0, j), ?m)" for id j
    using assms(3) by (auto simp: openfile_lookup_def sget_def Let_def E_INVAL_def split: if_splits)
  ultimately show ?thesis unfolding Let_def by blast
qed

theorem openfile_alloc_fresh_witness:
  "\<exists>s'. openfile_alloc empty_server = Some ((1024, 0), s')"
  using openfile_alloc_fresh [of empty_server 0 0]
  by (auto simp: table_ok_def empty_server_def serve_init_def unat_of_nat)

text \<open>
  After two million uses of an entry its identifier does not fit the result: it is negative,
  \<open>serve_open\<close> takes it for an error and answers with it, and no file is opened.
\<close>

theorem openfile_id_overflow:
  assumes "i < MAXOPEN" "fd_refs s i \<le> 1" "\<forall>j < i. 2 \<le> fd_refs s j" "\<not> no_page s"
    and "o_fileid (opentab s i) = 0x7FFFFC00 + of_nat i"
  shows "\<exists>s'. serve_open s = Some ((int i - 2147483648, None), s')"
proof -
  have "unat (0x7FFFFC00 + of_nat i + 1024 :: u32) = 2147483648 + i"
    using assms(1) by (simp add: unat_word_ariths unat_of_nat)
  then have "sint (0x7FFFFC00 + of_nat i + 1024 :: u32) = int i - 2147483648"
    using assms(1) by (simp add: sint32)
  with openfile_alloc_run [OF assms(1-4)] assms(1,5) show ?thesis
    by (simp add: serve_open_def sbind_def sget_def sreturn_def)
qed

theorem openfile_id_overflow_witness:
  "\<exists>s'. serve_open (empty_server\<lparr>opentab := (\<lambda>_. \<lparr>o_fileid = 0x7FFFFC00, o_file = 0, o_mode = 0\<rparr>)\<rparr>)
    = Some ((-2147483648, None), s')"
  using openfile_id_overflow [of 0 "empty_server\<lparr>opentab := (\<lambda>_. \<lparr>o_fileid = 0x7FFFFC00, o_file = 0, o_mode = 0\<rparr>)\<rparr>"]
  by (simp add: empty_server_def serve_init_def)

text \<open>
  What the server answers without a handler, and for a file that is not open. Reading answers
  0 bytes whatever the request is, and a request to write ends the server.
\<close>

lemma serve_unknown:
  "unat req \<notin> {1, 2, 3, 4, 5, 6, 8} \<Longrightarrow> serve req True s = Some (Some (- E_INVAL, None), s)"
  by (auto simp: serve_def handlers_def sreturn_def)

lemma serve_closed:
  assumes "req \<in> {2, 5, 6}" "fd_refs s (unat (req_fileid (fsreq s)) mod MAXOPEN) \<le> 1"
  shows "serve req True s = Some (Some (- E_INVAL, None), s)"
  using assms by (auto simp: serve_def handlers_def serve_set_size_def serve_stat_def serve_flush_def with_open_def
      openfile_lookup_def sbind_def sget_def sreturn_def Let_def E_INVAL_def)

lemma serve_read_write: "serve 3 True s = Some (Some (0, None), s)" "serve 4 True s = None"
  by (simp_all add: serve_def handlers_def serve_read_def serve_write_def sreturn_def sbind_def spanic_def)

end
