(* ===== verification/Jos_Fd.thy ===== *)
theory Jos_Fd
  imports Jos_Serv Jos_Pipe
begin

text \<open>
  File descriptors of a user program: \<^verbatim>\<open>tps/lib/fd.c\<close>, with \<open>open\<close> of \<^verbatim>\<open>lib/file.c\<close>, \<open>pipe\<close> of
  \<^verbatim>\<open>lib/pipe.c\<close> and \<open>opencons\<close>, \<open>iscons\<close> and \<open>getchar\<close> of \<^verbatim>\<open>lib/console.c\<close>. A descriptor is a
  page at a fixed address, and what makes two descriptors the same file is that the same page is
  mapped at both.
\<close>

section \<open>State\<close>

text \<open>
  \<open>pgs i\<close> is the page at \<open>INDEX2FD(i)\<close>. The data pages follow the descriptors in the address space,
  so \<open>INDEX2DATA(i)\<close> is \<open>INDEX2FD(MAXFD + i)\<close>, and an index may be any integer. \<open>obj\<close> is what the
  pages contain, as descriptors. \<open>oom\<close> says which of the next allocations fail; \<open>world\<close> is the
  state of the devices.
\<close>

record 'w fdstate =
  pgs :: "int \<Rightarrow> nat option"
  obj :: "nat \<Rightarrow> Fd"
  next_obj :: nat
  oom :: "bool list"
  world :: 'w

text \<open>The operations of a device, where it has them; they get the address of the descriptor.\<close>

record stat_buf =
  st_name :: string
  st_size :: u32
  st_isdir :: bool

record 'w dev =
  dev_id :: u32
  dev_read :: "(int \<Rightarrow> nat \<Rightarrow> 'w fdstate \<Rightarrow> (int \<times> u8 list) \<times> 'w fdstate) option"
  dev_write :: "(int \<Rightarrow> u8 list \<Rightarrow> 'w fdstate \<Rightarrow> int \<times> 'w fdstate) option"
  dev_close :: "(int \<Rightarrow> 'w fdstate \<Rightarrow> int \<times> 'w fdstate) option"
  dev_stat :: "(int \<Rightarrow> 'w fdstate \<Rightarrow> (int \<times> stat_buf) \<times> 'w fdstate) option"
  dev_trunc :: "(int \<Rightarrow> u32 \<Rightarrow> 'w fdstate \<Rightarrow> int \<times> 'w fdstate) option"

definition MAXFD :: nat where "MAXFD = 32"
definition O_RDONLY :: u32 where "O_RDONLY = 0"
definition O_WRONLY :: u32 where "O_WRONLY = 1"
definition O_RDWR :: u32 where "O_RDWR = 2"

lemma MAXFD_simps [simp]: "MAXFD = 32"
  by (simp add: MAXFD_def)

text \<open>The descriptor at an index (its page is mapped).\<close>

definition the_fd :: "int \<Rightarrow> 'w fdstate \<Rightarrow> Fd" where
  "the_fd i s = (case pgs s i of Some p \<Rightarrow> obj s p | None \<Rightarrow> zero_Fd)"

definition set_fd :: "int \<Rightarrow> (Fd \<Rightarrow> Fd) \<Rightarrow> 'w fdstate \<Rightarrow> 'w fdstate" where
  "set_fd i f s = (case pgs s i of Some p \<Rightarrow> s\<lparr>obj := (obj s)(p := f (obj s p))\<rparr> | None \<Rightarrow> s)"

section \<open>System calls on the pages\<close>

text \<open>
  With the permissions \<open>P\<close>, \<open>U\<close>, \<open>W\<close> and \<open>SHARE\<close>. Mapping from an address where nothing is mapped
  fails, because its permissions in \<open>uvpt\<close> are none.
\<close>

definition f_page_alloc :: "int \<Rightarrow> 'w fdstate \<Rightarrow> int \<times> 'w fdstate" where
  "f_page_alloc i s =
     (if oom s \<noteq> [] \<and> hd (oom s) then (- E_NO_MEM, s\<lparr>oom := tl (oom s)\<rparr>)
      else (0, s\<lparr>oom := tl (oom s), pgs := (pgs s)(i \<mapsto> next_obj s), obj := (obj s)(next_obj s := zero_Fd),
                 next_obj := next_obj s + 1\<rparr>))"

definition f_page_map :: "int \<Rightarrow> int \<Rightarrow> 'w fdstate \<Rightarrow> int \<times> 'w fdstate" where
  "f_page_map src dst s = (case pgs s src of None \<Rightarrow> (- E_INVAL, s) | Some p \<Rightarrow> (0, s\<lparr>pgs := (pgs s)(dst \<mapsto> p)\<rparr>))"

definition f_page_unmap :: "int \<Rightarrow> 'w fdstate \<Rightarrow> 'w fdstate" where
  "f_page_unmap i s = s\<lparr>pgs := (pgs s)(i := None)\<rparr>"

section \<open>Descriptors\<close>

definition fd2num :: "int \<Rightarrow> int" where "fd2num fd = fd"
definition fd2data :: "int \<Rightarrow> int" where "fd2data fd = int MAXFD + fd2num fd"

definition fd_alloc :: "'w fdstate \<Rightarrow> int \<times> int option" where
  "fd_alloc s = (case find (\<lambda>i. pgs s (int i) = None) [0..<MAXFD] of
     Some i \<Rightarrow> (0, Some (int i)) | None \<Rightarrow> (- E_MAX_OPEN, None))"

definition fd_lookup :: "int \<Rightarrow> 'w fdstate \<Rightarrow> int" where
  "fd_lookup fdnum s = (if fdnum < 0 \<or> fdnum \<ge> int MAXFD then - E_INVAL
     else if pgs s fdnum = None then - E_INVAL else 0)"

definition dev_lookup :: "'w dev list \<Rightarrow> u32 \<Rightarrow> 'w dev option" where
  "dev_lookup devtab i = find (\<lambda>d. dev_id d = i) devtab"

definition fd_close :: "'w dev list \<Rightarrow> int \<Rightarrow> bool \<Rightarrow> 'w fdstate \<Rightarrow> int \<times> 'w fdstate" where
  "fd_close devtab fd must_exist s =
     (let r = fd_lookup (fd2num fd) s
      in if r < 0 then (if must_exist then r else 0, s)
         else
           let (r, s1) = (case dev_lookup devtab (fd_dev_id (the_fd fd s)) of
                 None \<Rightarrow> (- E_INVAL, s)
               | Some d \<Rightarrow> (case dev_close d of Some close_op \<Rightarrow> close_op fd s | None \<Rightarrow> (0, s)))
           in (r, f_page_unmap fd s1))"

definition close_fd :: "'w dev list \<Rightarrow> int \<Rightarrow> 'w fdstate \<Rightarrow> int \<times> 'w fdstate" where
  "close_fd devtab fdnum s =
     (let r = fd_lookup fdnum s in if r < 0 then (r, s) else fd_close devtab fdnum True s)"

definition close_all :: "'w dev list \<Rightarrow> 'w fdstate \<Rightarrow> 'w fdstate" where
  "close_all devtab s = fold (\<lambda>i s. snd (close_fd devtab (int i) s)) [0..<MAXFD] s"

definition dup :: "'w dev list \<Rightarrow> int \<Rightarrow> int \<Rightarrow> 'w fdstate \<Rightarrow> int \<times> 'w fdstate" where
  "dup devtab oldfdnum newfdnum s =
     (let r = fd_lookup oldfdnum s
      in if r < 0 then (r, s)
         else
           let s1 = snd (close_fd devtab newfdnum s);
               ova = fd2data oldfdnum; nva = fd2data newfdnum;
               (r1, s2) = (if pgs s1 ova \<noteq> None then f_page_map ova nva s1 else (0, s1))
           in if r1 < 0 then (r1, f_page_unmap nva (f_page_unmap newfdnum s2))
              else
                let (r2, s3) = f_page_map oldfdnum newfdnum s2
                in if r2 < 0 then (r2, f_page_unmap nva (f_page_unmap newfdnum s3))
                   else (newfdnum, s3))"

section \<open>Files\<close>

text \<open>The common start of the operations: the device of an open descriptor.\<close>

definition with_dev :: "'w dev list \<Rightarrow> int \<Rightarrow> 'w fdstate \<Rightarrow> int + 'w dev" where
  "with_dev devtab fdnum s =
     (let r = fd_lookup fdnum s
      in if r < 0 then Inl r
         else case dev_lookup devtab (fd_dev_id (the_fd fdnum s)) of None \<Rightarrow> Inl (- E_INVAL) | Some d \<Rightarrow> Inr d)"

definition acc_mode :: "int \<Rightarrow> 'w fdstate \<Rightarrow> u32" where
  "acc_mode fd s = fd_omode (the_fd fd s) AND O_ACCMODE"

definition read_fd :: "'w dev list \<Rightarrow> int \<Rightarrow> nat \<Rightarrow> 'w fdstate \<Rightarrow> (int \<times> u8 list) \<times> 'w fdstate" where
  "read_fd devtab fdnum n s = (case with_dev devtab fdnum s of
     Inl r \<Rightarrow> ((r, []), s)
   | Inr d \<Rightarrow> if acc_mode fdnum s = O_WRONLY then ((- E_INVAL, []), s)
       else case dev_read d of None \<Rightarrow> ((- E_NOT_SUPP, []), s) | Some rd \<Rightarrow> rd fdnum n s)"

definition write_fd :: "'w dev list \<Rightarrow> int \<Rightarrow> u8 list \<Rightarrow> 'w fdstate \<Rightarrow> int \<times> 'w fdstate" where
  "write_fd devtab fdnum buf s = (case with_dev devtab fdnum s of
     Inl r \<Rightarrow> (r, s)
   | Inr d \<Rightarrow> if acc_mode fdnum s = O_RDONLY then (- E_INVAL, s)
       else case dev_write d of None \<Rightarrow> (- E_NOT_SUPP, s) | Some wr \<Rightarrow> wr fdnum buf s)"

definition seek :: "int \<Rightarrow> u32 \<Rightarrow> 'w fdstate \<Rightarrow> int \<times> 'w fdstate" where
  "seek fdnum offset s =
     (let r = fd_lookup fdnum s in if r < 0 then (r, s) else (0, set_fd fdnum (\<lambda>f. f\<lparr>fd_offset := offset\<rparr>) s))"

definition ftruncate :: "'w dev list \<Rightarrow> int \<Rightarrow> u32 \<Rightarrow> 'w fdstate \<Rightarrow> int \<times> 'w fdstate" where
  "ftruncate devtab fdnum newsize s = (case with_dev devtab fdnum s of
     Inl r \<Rightarrow> (r, s)
   | Inr d \<Rightarrow> if acc_mode fdnum s = O_RDONLY then (- E_INVAL, s)
       else case dev_trunc d of None \<Rightarrow> (- E_NOT_SUPP, s) | Some tr \<Rightarrow> tr fdnum newsize s)"

text \<open>The buffer \<open>fstat\<close> fills is cleared first; before that an error leaves it alone.\<close>

definition fstat :: "'w dev list \<Rightarrow> int \<Rightarrow> 'w fdstate \<Rightarrow> (int \<times> stat_buf option) \<times> 'w fdstate" where
  "fstat devtab fdnum s = (case with_dev devtab fdnum s of
     Inl r \<Rightarrow> ((r, None), s)
   | Inr d \<Rightarrow> (case dev_stat d of None \<Rightarrow> ((- E_NOT_SUPP, None), s)
       | Some st \<Rightarrow> let ((r, b), s') = st fdnum s in ((r, Some b), s')))"

text \<open>
  \<open>readn\<close> reads until it has \<open>n\<close> bytes or the device has no more; each round passes at least one
  byte.
\<close>

function readn :: "'w dev list \<Rightarrow> int \<Rightarrow> nat \<Rightarrow> nat \<Rightarrow> 'w fdstate \<Rightarrow> (int \<times> u8 list) \<times> 'w fdstate" where
  "readn devtab fdnum tot n s =
     (if \<not> tot < n then ((int tot, []), s)
      else let ((m, bs), s1) = read_fd devtab fdnum (n - tot) s
           in if m < 0 then ((m, bs), s1)
              else if m = 0 then ((int tot, []), s1)
              else let ((r, bs'), s2) = readn devtab fdnum (tot + nat m) n s1 in ((r, bs @ bs'), s2))"
  by pat_completeness auto
termination
  by (relation "measure (\<lambda>(devtab, fdnum, tot, n, s). n - tot)") auto

declare readn.simps [simp del]

text \<open>
  \<open>fsipc\<close> asks the file server to open a path and to map the descriptor it makes at an index; it is
  an argument.
\<close>

definition open_file :: "(string \<Rightarrow> u32 \<Rightarrow> int \<Rightarrow> 'w fdstate \<Rightarrow> int \<times> 'w fdstate) \<Rightarrow> 'w dev list \<Rightarrow>
    string \<Rightarrow> u32 \<Rightarrow> 'w fdstate \<Rightarrow> int \<times> 'w fdstate" where
  "open_file fsipc devtab path mode s =
     (if length path \<ge> MAXPATHLEN then (- E_BAD_PATH, s)
      else case fd_alloc s of
        (r, None) \<Rightarrow> (r, s)
      | (r, Some fd) \<Rightarrow>
          let (r, s1) = fsipc path mode fd s
          in if r < 0 then (r, snd (fd_close devtab fd False s1)) else (fd2num fd, s1))"

definition stat :: "(string \<Rightarrow> u32 \<Rightarrow> int \<Rightarrow> 'w fdstate \<Rightarrow> int \<times> 'w fdstate) \<Rightarrow> 'w dev list \<Rightarrow>
    string \<Rightarrow> 'w fdstate \<Rightarrow> (int \<times> stat_buf option) \<times> 'w fdstate" where
  "stat fsipc devtab path s =
     (let (fd, s1) = open_file fsipc devtab path O_RDONLY s
      in if fd < 0 then ((fd, None), s1)
         else let ((r, b), s2) = fstat devtab fd s1 in ((r, b), snd (close_fd devtab fd s2)))"

section \<open>Pipes and the console\<close>

definition pipe_dev_id :: u32 where "pipe_dev_id = 112"
definition cons_dev_id :: u32 where "cons_dev_id = 99"

text \<open>\<open>pipe\<close> with its unwinding: the two descriptors, or an error.\<close>

definition pipe_open :: "'w fdstate \<Rightarrow> (int \<times> (int \<times> int) option) \<times> 'w fdstate" where
  "pipe_open s =
     (case fd_alloc s of (r, None) \<Rightarrow> ((r, None), s)
      | (r, Some fd0) \<Rightarrow>
     let (r, s1) = f_page_alloc fd0 s in
     if r < 0 then ((r, None), s1)
     else
     (case fd_alloc s1 of (r, None) \<Rightarrow> ((r, None), f_page_unmap fd0 s1)
      | (r, Some fd1) \<Rightarrow>
     let (r, s2) = f_page_alloc fd1 s1 in
     if r < 0 then ((r, None), f_page_unmap fd0 s2)
     else
     let va = fd2data fd0; (r, s3) = f_page_alloc va s2 in
     if r < 0 then ((r, None), f_page_unmap fd0 (f_page_unmap fd1 s3))
     else
     let (r, s4) = f_page_map va (fd2data fd1) s3 in
     if r < 0 then ((r, None), f_page_unmap fd0 (f_page_unmap fd1 (f_page_unmap va s4)))
     else
     let s5 = set_fd fd0 (\<lambda>f. f\<lparr>fd_dev_id := pipe_dev_id, fd_omode := O_RDONLY\<rparr>) s4;
         s6 = set_fd fd1 (\<lambda>f. f\<lparr>fd_dev_id := pipe_dev_id, fd_omode := O_WRONLY\<rparr>) s5
     in ((0, Some (fd2num fd0, fd2num fd1)), s6)))"

definition devpipe_close :: "int \<Rightarrow> 'w fdstate \<Rightarrow> int \<times> 'w fdstate" where
  "devpipe_close fd s = (0, f_page_unmap (fd2data fd) (f_page_unmap fd s))"

definition opencons :: "'w fdstate \<Rightarrow> int \<times> 'w fdstate" where
  "opencons s = (case fd_alloc s of
     (r, None) \<Rightarrow> (r, s)
   | (r, Some fd) \<Rightarrow>
       let (r, s1) = f_page_alloc fd s
       in if r < 0 then (r, s1)
          else (fd2num fd, set_fd fd (\<lambda>f. f\<lparr>fd_dev_id := cons_dev_id, fd_omode := O_RDWR\<rparr>) s1))"

definition iscons :: "int \<Rightarrow> 'w fdstate \<Rightarrow> int" where
  "iscons fdnum s = (let r = fd_lookup fdnum s in
     if r < 0 then r else if fd_dev_id (the_fd fdnum s) = cons_dev_id then 1 else 0)"

definition getchar :: "'w dev list \<Rightarrow> 'w fdstate \<Rightarrow> int \<times> 'w fdstate" where
  "getchar devtab s = (let ((r, bs), s1) = read_fd devtab 0 1 s in
     if r < 0 then (r, s1) else if r < 1 then (- E_EOF, s1) else (int (unat (hd bs)), s1))"

section \<open>Allocating descriptors\<close>

lemma fd_alloc_cases:
  obtains (found) i where "fd_alloc s = (0, Some i)" "0 \<le> i" "i < 32" "pgs s i = None" "\<forall>j. 0 \<le> j \<and> j < i \<longrightarrow> pgs s j \<noteq> None"
  | (full) "fd_alloc s = (- E_MAX_OPEN, None)" "\<forall>j. 0 \<le> j \<and> j < 32 \<longrightarrow> pgs s j \<noteq> None"
proof (cases "find (\<lambda>i. pgs s (int i) = None) [0..<32]")
  case None
  then have "pgs s (int k) \<noteq> None" if "k < 32" for k using that by (auto simp: find_None_iff)
  then have "pgs s j \<noteq> None" if "0 \<le> j" "j < 32" for j using that by (metis nat_less_iff nonneg_int_cases of_nat_less_iff of_nat_numeral)
  with None show ?thesis by (intro full) (auto simp: fd_alloc_def)
next
  case (Some i)
  then have i: "i < 32" "pgs s (int i) = None" "\<forall>k < i. pgs s (int k) \<noteq> None"
    by (auto simp: find_Some_iff)
  have "pgs s j \<noteq> None" if "0 \<le> j" "j < int i" for j using that i(3) by (metis nonneg_int_cases of_nat_less_iff)
  with Some i show ?thesis by (intro found [of "int i"]) (auto simp: fd_alloc_def)
qed

text \<open>A descriptor that is not open has no data page.\<close>

definition tidy :: "'w fdstate \<Rightarrow> bool" where
  "tidy s \<longleftrightarrow> (\<forall>i. 0 \<le> i \<and> i < 32 \<and> pgs s i = None \<longrightarrow> pgs s (fd2data i) = None)"

lemma page_ops [simp]:
  "pgs (f_page_unmap i s) = (pgs s)(i := None)" "obj (f_page_unmap i s) = obj s" "oom (f_page_unmap i s) = oom s"
  "pgs (set_fd i f s) = pgs s"
  by (simp_all add: f_page_unmap_def set_fd_def split: option.splits)

lemma f_page_alloc_cases:
  obtains (fails) s' where "f_page_alloc i s = (- E_NO_MEM, s')" "pgs s' = pgs s" "obj s' = obj s" "next_obj s' = next_obj s"
  | (works) s' where "f_page_alloc i s = (0, s')" "pgs s' = (pgs s)(i \<mapsto> next_obj s)" "next_obj s' = next_obj s + 1"
      "obj s' = (obj s)(next_obj s := zero_Fd)"
  by (cases "oom s \<noteq> [] \<and> hd (oom s)") (auto simp: f_page_alloc_def)

lemma fd2data_simp [simp]: "fd2data i = 32 + i"
  by (simp add: fd2data_def fd2num_def)

lemma pipe_open_rest:
  assumes a: "fd_alloc s = (0, Some a)" "0 \<le> a" "a < 32" "pgs s a = None" "pgs s (32 + a) = None"
    and s1: "f_page_alloc a s = (0, s1)" "pgs s1 = (pgs s)(a \<mapsto> next_obj s)" "next_obj s1 = next_obj s + 1"
      "obj s1 = (obj s)(next_obj s := zero_Fd)"
    and b: "fd_alloc s1 = (0, Some b)" "a < b" "b < 32" "pgs s b = None"
  shows "case pipe_open s of
      ((r, None), s') \<Rightarrow> r = - E_NO_MEM \<and> pgs s' = pgs s
    | ((r, Some (a', b')), s') \<Rightarrow> r = 0 \<and> a' = a \<and> b' = b
        \<and> pgs s' (32 + a) = Some (next_obj s + 2) \<and> pgs s' (32 + b) = Some (next_obj s + 2)
        \<and> the_fd a s' = zero_Fd\<lparr>fd_dev_id := pipe_dev_id, fd_omode := O_RDONLY\<rparr>
        \<and> the_fd b s' = zero_Fd\<lparr>fd_dev_id := pipe_dev_id, fd_omode := O_WRONLY\<rparr>
        \<and> (\<forall>j. j \<notin> {a, b, 32 + a, 32 + b} \<longrightarrow> pgs s' j = pgs s j)"
proof (cases rule: f_page_alloc_cases [of b s1])
  case (fails s2)
  have "(pgs s)(a := None) = pgs s" using a(4) by (simp add: fun_upd_idem)
  with fails show ?thesis using a s1 b by (simp add: pipe_open_def E_NO_MEM_def)
next
  case (works s2)
  note s2 = this
  show ?thesis
  proof (cases rule: f_page_alloc_cases [of "32 + a" s2])
    case (fails s3)
    have "((pgs s)(a \<mapsto> next_obj s, b \<mapsto> next_obj s1))(b := None, a := None) = pgs s"
      using a(4) b(2,4) by (auto simp: fun_eq_iff)
    with fails show ?thesis using a s1 s2 b by (simp add: pipe_open_def E_NO_MEM_def)
  next
    case (works s3)
    note s3 = this
    have m: "f_page_map (32 + a) (32 + b) s3 = (0, s3\<lparr>pgs := (pgs s3)(32 + b \<mapsto> next_obj s2)\<rparr>)"
      using s3 by (simp add: f_page_map_def)
    show ?thesis
      using a(2,3) b(2,3) s1(2-4) s2(2-4) s3(2-4)
      by (simp add: pipe_open_def a(1) s1(1) b(1) s2(1) s3(1) m set_fd_def the_fd_def fd2num_def)
  qed
qed

text \<open>
  Property C21. Opening a pipe succeeds altogether or not at all: either two descriptors that were free, the lowest
  ones, share a new data page, one of them for reading and one for writing, and nothing else has
  changed; or, whichever of its three allocations fails or if there is no descriptor left, everything
  is as it was.
\<close>

theorem pipe_open_all_or_nothing:
  assumes "tidy s"
  shows "case pipe_open s of
      ((r, None), s') \<Rightarrow> r \<in> {- E_MAX_OPEN, - E_NO_MEM} \<and> pgs s' = pgs s
    | ((r, Some (a, b)), s') \<Rightarrow> r = 0 \<and> 0 \<le> a \<and> a < b \<and> b < 32
        \<and> (\<forall>j. 0 \<le> j \<and> j < b \<longrightarrow> (pgs s j = None \<longleftrightarrow> j = a)) \<and> pgs s b = None
        \<and> pgs s' (fd2data a) = Some (next_obj s + 2) \<and> pgs s' (fd2data b) = Some (next_obj s + 2)
        \<and> the_fd a s' = zero_Fd\<lparr>fd_dev_id := pipe_dev_id, fd_omode := O_RDONLY\<rparr>
        \<and> the_fd b s' = zero_Fd\<lparr>fd_dev_id := pipe_dev_id, fd_omode := O_WRONLY\<rparr>
        \<and> (\<forall>j. j \<notin> {a, b, fd2data a, fd2data b} \<longrightarrow> pgs s' j = pgs s j)"
proof (cases rule: fd_alloc_cases [of s])
  case full
  then show ?thesis by (simp add: pipe_open_def)
next
  case (found a)
  note a = this
  have va: "pgs s (fd2data a) = None" using assms a by (simp add: tidy_def)
  show ?thesis
  proof (cases rule: f_page_alloc_cases [of a s])
    case (fails s1)
    with a show ?thesis by (simp add: pipe_open_def E_NO_MEM_def)
  next
    case (works s1)
    note s1 = this
    show ?thesis
    proof (cases rule: fd_alloc_cases [of s1])
      case full
      with a s1 show ?thesis by (auto simp: pipe_open_def fun_eq_iff)
    next
      case (found b)
      note b = this
      have ab: "a < b" "pgs s b = None"
      proof -
        show "pgs s b = None" using b(4) s1(2) by (auto split: if_splits)
        have "b \<noteq> a" using b(4) s1(2) by auto
        moreover have "\<not> b < a" using \<open>pgs s b = None\<close> a(5) b(2) by blast
        ultimately show "a < b" by simp
      qed
      have least: "\<forall>j. 0 \<le> j \<and> j < b \<longrightarrow> (pgs s j = None \<longleftrightarrow> j = a)"
        using a(4) b(5) s1(2) by (auto split: if_splits)
      have va: "pgs s (32 + a) = None" using va by simp
      obtain r po s' where p: "pipe_open s = ((r, po), s')" by (metis prod.collapse)
      note R = pipe_open_rest [OF a(1-4) va s1 b(1) ab(1) b(3) ab(2), unfolded p prod.case]
      show ?thesis
      proof (cases po)
        case None
        with R p show ?thesis by simp
      next
        case (Some q)
        with R p least a(2) b(3) ab show ?thesis by (cases q) simp
      qed
    qed
  qed
qed

definition empty_fds :: "bool list \<Rightarrow> u8 list fdstate" where
  "empty_fds fails = \<lparr>pgs = (\<lambda>_. None), obj = (\<lambda>_. zero_Fd), next_obj = 0, oom = fails, world = []\<rparr>"

theorem pipe_open_all_or_nothing_witness:
  "pgs (snd (pipe_open (empty_fds [False, False, True]))) = (\<lambda>_. None)"
proof -
  have "fst (pipe_open (empty_fds [False, False, True])) = (- E_NO_MEM, None)"
    by (simp add: pipe_open_def fd_alloc_def empty_fds_def f_page_alloc_def upt_rec E_NO_MEM_def)
  moreover have "tidy (empty_fds [False, False, True])" by (simp add: tidy_def empty_fds_def)
  ultimately show ?thesis
    using pipe_open_all_or_nothing [of "empty_fds [False, False, True]"]
    by (cases "pipe_open (empty_fds [False, False, True])") (simp add: empty_fds_def)
qed

section \<open>Duplicating descriptors\<close>

text \<open>Closing a descriptor touches no other: what the devices' operations do.\<close>

definition local_close :: "'w dev list \<Rightarrow> bool" where
  "local_close devtab \<longleftrightarrow> (\<forall>d \<in> set devtab. \<forall>close_op. dev_close d = Some close_op \<longrightarrow>
     (\<forall>fd s. let s' = snd (close_op fd s) in
        obj s' = obj s \<and> (\<forall>j. j \<noteq> fd \<and> j \<noteq> fd2data fd \<longrightarrow> pgs s' j = pgs s j)))"

lemma devpipe_close_local: "dev_close d = Some devpipe_close \<Longrightarrow> local_close [d]"
  by (simp add: local_close_def devpipe_close_def Let_def)

lemma dev_lookup_set: "dev_lookup devtab i = Some d \<Longrightarrow> d \<in> set devtab"
  by (auto simp: dev_lookup_def find_Some_iff)

lemma close_fd_run:
  assumes "local_close devtab" "fd_lookup fd s = 0"
  obtains r s1 where "close_fd devtab fd s = (r, f_page_unmap fd s1)" "obj s1 = obj s"
    "\<forall>j. j \<noteq> fd \<and> j \<noteq> 32 + fd \<longrightarrow> pgs s1 j = pgs s j"
proof (cases "dev_lookup devtab (fd_dev_id (the_fd fd s))")
  case None
  with assms(2) that [of "- E_INVAL" s] show ?thesis by (simp add: close_fd_def fd_close_def fd2num_def)
next
  case (Some d)
  show ?thesis
  proof (cases "dev_close d")
    case None
    with Some assms(2) that [of 0 s] show ?thesis by (simp add: close_fd_def fd_close_def fd2num_def)
  next
    case (Some close_op)
    obtain r s1 where r: "close_op fd s = (r, s1)" by (cases "close_op fd s")
    have "obj s1 = obj s \<and> (\<forall>j. j \<noteq> fd \<and> j \<noteq> 32 + fd \<longrightarrow> pgs s1 j = pgs s j)"
      using assms(1) [unfolded local_close_def, rule_format, OF dev_lookup_set [OF \<open>dev_lookup _ _ = Some d\<close>] Some, of fd s]
      by (simp add: Let_def r)
    with r Some \<open>dev_lookup _ _ = Some d\<close> assms(2) that [of r s1] show ?thesis
      by (simp add: close_fd_def fd_close_def fd2num_def)
  qed
qed

lemma close_fd_local:
  assumes "local_close devtab"
  shows "obj (snd (close_fd devtab fd s)) = obj s"
    "j \<noteq> fd \<Longrightarrow> j \<noteq> 32 + fd \<Longrightarrow> pgs (snd (close_fd devtab fd s)) j = pgs s j"
proof -
  have "fd_lookup fd s = 0 \<or> fd_lookup fd s < 0" by (simp add: fd_lookup_def E_INVAL_def)
  then have "obj (snd (close_fd devtab fd s)) = obj s \<and>
      (j \<noteq> fd \<longrightarrow> j \<noteq> 32 + fd \<longrightarrow> pgs (snd (close_fd devtab fd s)) j = pgs s j)"
  proof
    assume "fd_lookup fd s = 0"
    then show ?thesis by (rule close_fd_run [OF assms]) simp
  qed (simp add: close_fd_def)
  then show "obj (snd (close_fd devtab fd s)) = obj s"
    "j \<noteq> fd \<Longrightarrow> j \<noteq> 32 + fd \<Longrightarrow> pgs (snd (close_fd devtab fd s)) j = pgs s j" by auto
qed

text \<open>What closing a descriptor does to the device is what the operation of its device does.\<close>

lemma close_fd_world:
  assumes "fd_lookup fd s = 0" "dev_lookup devtab (fd_dev_id (the_fd fd s)) = Some d" "dev_close d = Some close_op"
  shows "world (snd (close_fd devtab fd s)) = world (snd (close_op fd s))"
    "pgs (snd (close_fd devtab fd s)) = (pgs (snd (close_op fd s)))(fd := None)"
  using assms by (simp_all add: close_fd_def fd_close_def fd2num_def split_beta f_page_unmap_def)

lemma close_fd_not_open: "fd_lookup fd s \<noteq> 0 \<Longrightarrow> snd (close_fd devtab fd s) = s"
  by (auto simp: close_fd_def fd_lookup_def E_INVAL_def split: if_splits)

text \<open>
  Property C22. A duplicate is the same file: after \<open>dup\<close> both descriptors are one page, so that the offset one of
  them seeks to is where the other reads, they have the same data page, and no other descriptor
  changes. What was open at the new number has been closed: its device has run its close operation,
  once, and when the old descriptor has no data page the one at the new number is as that left it.
  When nothing was open there, no device has been touched.
\<close>

theorem dup_shares:
  assumes "local_close devtab" "fd_lookup old s = 0" "0 \<le> new" "new < 32" "new \<noteq> old"
  shows "\<exists>s'. dup devtab old new s = (new, s') \<and> pgs s' old = pgs s old \<and> pgs s' new = pgs s old
    \<and> (pgs s (32 + old) \<noteq> None \<longrightarrow> pgs s' (32 + new) = pgs s (32 + old))
    \<and> (\<forall>j. j \<notin> {new, 32 + new} \<longrightarrow> pgs s' j = pgs s j)
    \<and> the_fd new s' = the_fd old s
    \<and> fd_offset (the_fd old (snd (seek new off s'))) = off \<and> fd_offset (the_fd new (snd (seek old off s'))) = off
    \<and> (\<forall>d close_op. fd_lookup new s = 0 \<longrightarrow> dev_lookup devtab (fd_dev_id (the_fd new s)) = Some d \<longrightarrow> dev_close d = Some close_op \<longrightarrow>
         world s' = world (snd (close_op new s)) \<and> (pgs s (32 + old) = None \<longrightarrow> pgs s' (32 + new) = pgs (snd (close_op new s)) (32 + new)))
    \<and> (fd_lookup new s \<noteq> 0 \<longrightarrow> world s' = world s)"
proof -
  from assms(2) obtain p where p: "pgs s old = Some p" "0 \<le> old" "old < 32"
    by (auto simp: fd_lookup_def E_INVAL_def split: if_splits)
  let ?s1 = "snd (close_fd devtab new s)"
  have C: "obj ?s1 = obj s" "pgs ?s1 old = Some p" "pgs ?s1 (32 + old) = pgs s (32 + old)"
    "\<forall>j. j \<notin> {new, 32 + new} \<longrightarrow> pgs ?s1 j = pgs s j"
    using close_fd_local(1) [OF assms(1), of new s] close_fd_local(2) [OF assms(1), where fd = new and s = s] assms(3-5) p
    by simp_all
  define s2 where "s2 = (if pgs s (32 + old) \<noteq> None then ?s1\<lparr>pgs := (pgs ?s1)(32 + new := pgs s (32 + old))\<rparr> else ?s1)"
  define s' where "s' = s2\<lparr>pgs := (pgs s2)(new \<mapsto> p)\<rparr>"
  have s2: "pgs s2 old = Some p" "obj s2 = obj s" "\<forall>j. j \<notin> {new, 32 + new} \<longrightarrow> pgs s2 j = pgs s j"
    "pgs s (32 + old) \<noteq> None \<longrightarrow> pgs s2 (32 + new) = pgs s (32 + old)"
    using C assms(3) p(3) by (simp_all add: s2_def)
  have run: "dup devtab old new s = (new, s')"
    using s2(1) C(3) assms(2) by (auto simp: dup_def Let_def f_page_map_def s2_def s'_def)
  have look: "fd_lookup new s' = 0" "fd_lookup old s' = 0"
    using assms(3-5) p s2(1) by (simp_all add: fd_lookup_def E_INVAL_def s'_def)
  have w: "world s' = world ?s1" "pgs s (32 + old) = None \<longrightarrow> pgs s' (32 + new) = pgs ?s1 (32 + new)"
    by (simp_all add: s'_def s2_def)
  have pg: "pgs s' = (pgs s2)(new \<mapsto> p)" "obj s' = obj s" using s2(2) by (simp_all add: s'_def)
  have closed: "world s' = world (snd (close_op new s)) \<and>
      (pgs s (32 + old) = None \<longrightarrow> pgs s' (32 + new) = pgs (snd (close_op new s)) (32 + new))"
    if "fd_lookup new s = 0" "dev_lookup devtab (fd_dev_id (the_fd new s)) = Some d" "dev_close d = Some close_op" for d close_op
    using w close_fd_world [OF that] by simp
  moreover have "fd_lookup new s \<noteq> 0 \<longrightarrow> world s' = world s" using w(1) close_fd_not_open [of new s devtab] by simp
  ultimately show ?thesis
    using run look s2 assms(3-5) p pg by (intro exI [of _ s']) (simp add: seek_def set_fd_def the_fd_def)
qed

definition pipe_dev :: "(int \<Rightarrow> nat \<Rightarrow> 'w fdstate \<Rightarrow> (int \<times> u8 list) \<times> 'w fdstate) \<Rightarrow> 'w dev" where
  "pipe_dev rd = \<lparr>dev_id = pipe_dev_id, dev_read = Some rd, dev_write = None, dev_close = Some devpipe_close,
     dev_stat = None, dev_trunc = None\<rparr>"

definition one_fd :: "u8 list \<Rightarrow> u8 list fdstate" where
  "one_fd w = (empty_fds [])\<lparr>pgs := [3 \<mapsto> 0, 35 \<mapsto> 1], obj := (\<lambda>_. zero_Fd\<lparr>fd_dev_id := pipe_dev_id\<rparr>), world := w\<rparr>"

text \<open>A device that notes each descriptor it is asked to close, and a second descriptor that is open on it.\<close>

definition log_dev :: "u8 list dev" where
  "log_dev = \<lparr>dev_id = 1, dev_read = None, dev_write = None,
     dev_close = Some (\<lambda>fd s. (0, f_page_unmap (fd2data fd) (s\<lparr>world := of_int fd # world s\<rparr>))), dev_stat = None, dev_trunc = None\<rparr>"

definition two_fds :: "u8 list fdstate" where
  "two_fds = (one_fd [])\<lparr>pgs := [3 \<mapsto> 0, 35 \<mapsto> 1, 7 \<mapsto> 2], obj := (\<lambda>p. zero_Fd\<lparr>fd_dev_id := (if p = 2 then 1 else pipe_dev_id)\<rparr>)\<rparr>"

theorem dup_shares_witness:
  "\<forall>rd. \<exists>s'. dup [pipe_dev rd, log_dev] 3 7 two_fds = (7, s') \<and> pgs s' 7 = Some 0 \<and> pgs s' 39 = Some 1 \<and> world s' = [7]"
proof (intro allI)
  fix rd
  have l: "local_close [pipe_dev rd, log_dev]"
    by (simp add: local_close_def pipe_dev_def log_dev_def devpipe_close_def Let_def)
  have o: "fd_lookup 3 two_fds = 0" "fd_lookup 7 two_fds = 0"
      "dev_lookup [pipe_dev rd, log_dev] (fd_dev_id (the_fd 7 two_fds)) = Some log_dev"
    by (simp_all add: fd_lookup_def two_fds_def the_fd_def dev_lookup_def pipe_dev_def log_dev_def pipe_dev_id_def)
  obtain s' where s': "dup [pipe_dev rd, log_dev] 3 7 two_fds = (7, s')" "pgs s' 7 = pgs two_fds 3"
      "pgs two_fds 35 \<noteq> None \<longrightarrow> pgs s' 39 = pgs two_fds 35"
      "\<forall>close_op. dev_close log_dev = Some close_op \<longrightarrow> world s' = world (snd (close_op 7 two_fds))"
    using dup_shares [OF l o(1), of 7 0] o(2,3) by auto
  then show "\<exists>s'. dup [pipe_dev rd, log_dev] 3 7 two_fds = (7, s') \<and> pgs s' 7 = Some 0 \<and> pgs s' 39 = Some 1 \<and> world s' = [7]"
    by (auto simp: two_fds_def log_dev_def f_page_unmap_def one_fd_def empty_fds_def)
qed

text \<open>
  A descriptor duplicated onto itself is lost: \<open>dup\<close> closes the new number before it maps the old one,
  which is then no longer there, and fails.
\<close>

lemma dup_self_closes:
  assumes "local_close devtab" "fd_lookup i s = 0"
  shows "fst (dup devtab i i s) = - E_INVAL \<and> pgs (snd (dup devtab i i s)) i = None"
proof -
  obtain r s1 where c: "close_fd devtab i s = (r, f_page_unmap i s1)"
    using close_fd_run [OF assms] by metis
  have "(if pgs s1 (32 + i) \<noteq> None then f_page_map (32 + i) (32 + i) (f_page_unmap i s1) else (0, f_page_unmap i s1)) = (0, f_page_unmap i s1)"
    by (auto simp: f_page_map_def f_page_unmap_def fun_upd_twist fun_upd_idem)
  then show ?thesis using assms(2) by (simp add: dup_def c f_page_map_def E_INVAL_def)
qed

section \<open>Reading and writing\<close>

text \<open>The access mode is checked before the device sees the request.\<close>

lemma mode_checked:
  "acc_mode fd s = O_WRONLY \<Longrightarrow> fst (fst (read_fd devtab fd n s)) < 0 \<and> snd (read_fd devtab fd n s) = s"
  "acc_mode fd s = O_RDONLY \<Longrightarrow> fst (write_fd devtab fd buf s) < 0 \<and> snd (write_fd devtab fd buf s) = s"
  by (auto simp: read_fd_def write_fd_def with_dev_def fd_lookup_def Let_def E_INVAL_def split: sum.splits option.splits if_splits)

text \<open>
  \<open>readn\<close> makes short reads up: when a descriptor delivers the bytes of a source in pieces of any
  length, at least one byte as long as there is one, \<open>readn\<close> returns the next \<open>n\<close> bytes of the
  source, or all there are if they are fewer.
\<close>

theorem readn_complete:
  assumes "\<forall>k s. ok s \<and> 0 < k \<longrightarrow> (\<exists>m s'. read_fd devtab fd k s = ((int m, take m (source s)), s') \<and> ok s'
      \<and> source s' = drop m (source s) \<and> m \<le> k \<and> m \<le> length (source s) \<and> (m = 0 \<longrightarrow> source s = []))"
    and "ok s" "tot \<le> n"
  shows "\<exists>s'. readn devtab fd tot n s = ((int (tot + min (n - tot) (length (source s))), take (n - tot) (source s)), s')
    \<and> ok s' \<and> source s' = drop (n - tot) (source s)"
  using assms(2,3)
proof (induction "n - tot" arbitrary: tot s rule: less_induct)
  case less
  show ?case
  proof (cases "tot < n")
    case False
    with less.prems show ?thesis by (subst readn.simps) simp
  next
    case True
    with assms(1) less.prems obtain m s1 where m: "read_fd devtab fd (n - tot) s = ((int m, take m (source s)), s1)" "ok s1"
        "source s1 = drop m (source s)" "m \<le> n - tot" "m \<le> length (source s)" "m = 0 \<longrightarrow> source s = []"
      by (metis zero_less_diff)
    show ?thesis
    proof (cases "m = 0")
      case True
      with m \<open>tot < n\<close> show ?thesis by (subst readn.simps) simp
    next
      case False
      with m(4) True have "n - (tot + m) < n - tot" "tot + m \<le> n" by auto
      with less.hyps [of "tot + m" s1] m(2) obtain s2 where
        "readn devtab fd (tot + m) n s1 = ((int (tot + m + min (n - (tot + m)) (length (source s1))), take (n - (tot + m)) (source s1)), s2)"
        "ok s2" "source s2 = drop (n - (tot + m)) (source s1)" by blast
      with m False True show ?thesis
        by (subst readn.simps) (auto simp: min_def take_add [symmetric])
    qed
  qed
qed

definition trickle :: "int \<Rightarrow> nat \<Rightarrow> u8 list fdstate \<Rightarrow> (int \<times> u8 list) \<times> u8 list fdstate" where
  "trickle fd n s = (case world s of [] \<Rightarrow> ((0, []), s) | b # bs \<Rightarrow> ((1, [b]), s\<lparr>world := bs\<rparr>))"

theorem readn_complete_witness:
  "\<exists>s'. readn [pipe_dev trickle] 3 0 2 (one_fd [7, 8, 9]) = ((2, [7, 8]), s') \<and> world s' = [9]"
proof -
  let ?ok = "\<lambda>s. pgs s 3 = Some 0 \<and> obj s 0 = zero_Fd\<lparr>fd_dev_id := pipe_dev_id\<rparr>"
  have "\<exists>m s'. read_fd [pipe_dev trickle] 3 k s = ((int m, take m (world s)), s') \<and> ?ok s'
      \<and> world s' = drop m (world s) \<and> m \<le> k \<and> m \<le> length (world s) \<and> (m = 0 \<longrightarrow> world s = [])"
    if "?ok s \<and> 0 < k" for k and s :: "u8 list fdstate"
  proof -
    have "read_fd [pipe_dev trickle] 3 k s = trickle 3 k s"
      using that by (simp add: read_fd_def with_dev_def fd_lookup_def dev_lookup_def the_fd_def pipe_dev_def
          acc_mode_def zero_Fd_def O_ACCMODE_def O_WRONLY_def E_INVAL_def)
    then show ?thesis
      using that by (intro exI [of _ "if world s = [] then 0 else 1"]) (auto simp: trickle_def split: list.splits)
  qed
  then show ?thesis
    using readn_complete [of ?ok "[pipe_dev trickle]" 3 world "one_fd [7, 8, 9]" 0 2]
    by (simp add: one_fd_def) blast
qed

end
