(* ===== verification/Jos_Kdebug.thy ===== *)
theory Jos_Kdebug
  imports Jos_String Jos_Paging
begin

text \<open>
  Looking an address up in the debugging symbols: \<^verbatim>\<open>tps/kern/kdebug.c\<close>. The table is an array that
  holds several kinds of entries; those of one kind are in increasing order of their addresses, so
  the search is a binary search that skips entries of other kinds.
\<close>

section \<open>The binary search\<close>

record stab =
  n_strx :: u32
  n_type :: u8
  n_other :: u8
  n_desc :: u16
  n_value :: u32

definition N_FUN :: u8 where "N_FUN = 0x24"
definition N_SLINE :: u8 where "N_SLINE = 0x44"
definition N_SO :: u8 where "N_SO = 0x64"
definition N_SOL :: u8 where "N_SOL = 0x84"
definition N_PSYM :: u8 where "N_PSYM = 0xa0"

text \<open>The last index down to \<open>l\<close>, from \<open>m\<close>, with the type; \<open>l - 1\<close> when there is none.\<close>

function find_back :: "(int \<Rightarrow> stab) \<Rightarrow> u8 \<Rightarrow> int \<Rightarrow> int \<Rightarrow> int" where
  "find_back stabs ty l m = (if m \<ge> l \<and> n_type (stabs m) \<noteq> ty then find_back stabs ty l (m - 1) else m)"
  by pat_completeness auto
termination
  by (relation "measure (\<lambda>(stabs, ty, l, m). nat (m - l + 1))") auto

declare find_back.simps [simp del]

lemma find_back_props:
  assumes "l \<le> m"
  shows "l - 1 \<le> find_back stabs ty l m \<and> find_back stabs ty l m \<le> m
    \<and> (l \<le> find_back stabs ty l m \<longrightarrow> n_type (stabs (find_back stabs ty l m)) = ty)
    \<and> (\<forall>i. find_back stabs ty l m < i \<and> i \<le> m \<longrightarrow> n_type (stabs i) \<noteq> ty)"
  using assms
proof (induction stabs ty l m rule: find_back.induct)
  case (1 stabs ty l m)
  show ?case
  proof (cases "n_type (stabs m) \<noteq> ty")
    case True
    show ?thesis
    proof (cases "l \<le> m - 1")
      case le: True
      with 1 True have IH: "l - 1 \<le> find_back stabs ty l (m - 1) \<and> find_back stabs ty l (m - 1) \<le> m - 1
        \<and> (l \<le> find_back stabs ty l (m - 1) \<longrightarrow> n_type (stabs (find_back stabs ty l (m - 1))) = ty)
        \<and> (\<forall>i. find_back stabs ty l (m - 1) < i \<and> i \<le> m - 1 \<longrightarrow> n_type (stabs i) \<noteq> ty)" by simp
      have "find_back stabs ty l m = find_back stabs ty l (m - 1)" using True 1(2) by (subst find_back.simps) simp
      moreover have "i \<le> m \<longleftrightarrow> i \<le> m - 1 \<or> i = m" for i by auto
      ultimately show ?thesis using IH True by auto
    next
      case False
      with 1(2) have "m = l" by simp
      then have "find_back stabs ty l m = l - 1"
        using True by (subst find_back.simps, subst find_back.simps) simp
      moreover have "n_type (stabs i) \<noteq> ty" if "l - 1 < i" "i \<le> m" for i
      proof -
        from that \<open>m = l\<close> have "i = m" by simp
        with True show ?thesis by simp
      qed
      ultimately show ?thesis using \<open>m = l\<close> by simp
    qed
  next
    case False
    then have "find_back stabs ty l m = m" by (subst find_back.simps) simp
    with False 1(2) show ?thesis by auto
  qed
qed

text \<open>
  The loop returns \<open>*region_left\<close>, \<open>*region_right\<close> and \<open>any_matches\<close>. It ends for every table: a
  round that narrows nothing has found an exact match at \<open>l\<close>, and the next one compares it with a
  larger address.
\<close>

function search_loop :: "(int \<Rightarrow> stab) \<Rightarrow> u8 \<Rightarrow> int \<Rightarrow> int \<Rightarrow> u32 \<Rightarrow> int \<Rightarrow> int \<Rightarrow> bool \<Rightarrow> int \<times> int \<times> bool" where
  "search_loop stabs ty l r addr left right any =
     (if \<not> l \<le> r then (left, right, any)
      else
        let true_m = (l + r) div 2; m = find_back stabs ty l true_m
        in if m < l then search_loop stabs ty (true_m + 1) r addr left right any
           else if n_value (stabs m) < addr then search_loop stabs ty (true_m + 1) r addr m right True
           else if n_value (stabs m) > addr then search_loop stabs ty l (m - 1) addr left (m - 1) True
           else search_loop stabs ty m r (addr + 1) m right True)"
  by pat_completeness auto
termination
proof (relation "measure (\<lambda>(stabs, ty, l, r, addr, left, right, any).
    2 * nat (r - l + 1) + (if n_value (stabs (find_back stabs ty l ((l + r) div 2))) = addr then 1 else 0))",
    goal_cases)
  case (2 stabs ty l r addr left right any true_m m)
  then have "nat (r - true_m) < nat (r - l + 1)" by auto
  with 2 show ?case by auto
next
  case (3 stabs ty l r addr left right any true_m m)
  then have "nat (r - true_m) < nat (r - l + 1)" by auto
  with 3 show ?case by auto
next
  case (4 stabs ty l r addr left right any true_m m)
  then have tm: "l \<le> true_m" "true_m \<le> r" by auto
  from find_back_props [OF tm(1), of stabs ty, folded 4(3)] tm(2) 4(4) have "m \<le> r" "l \<le> m"
    by linarith+
  then have "nat (m - 1 - l + 1) < nat (r - l + 1)" by auto
  then show ?case by (auto split: if_split)
next
  case (5 stabs ty l r addr left right any true_m m)
  then have tm: "l \<le> true_m" "true_m \<le> r" by auto
  from find_back_props [OF tm(1), of stabs ty, folded 5(3)] tm(2) 5(4) have m: "m \<le> r" "l \<le> m"
    by linarith+
  have v: "n_value (stabs m) = addr" using 5(5,6) by auto
  show ?case
  proof (cases "m = l")
    case True
    with v 5(2,3) have "n_value (stabs (find_back stabs ty l ((l + r) div 2))) = addr" by simp
    with True show ?thesis by simp
  next
    case False
    with m have "nat (r - m + 1) < nat (r - l + 1)" by auto
    then show ?thesis by (auto split: if_split)
  qed
qed simp

declare search_loop.simps [simp del]

definition stab_binsearch :: "(int \<Rightarrow> stab) \<Rightarrow> int \<Rightarrow> int \<Rightarrow> u8 \<Rightarrow> u32 \<Rightarrow> int \<times> int" where
  "stab_binsearch stabs region_left region_right ty addr =
     (let (left, right, any_matches) =
            search_loop stabs ty region_left region_right addr region_left region_right False
      in if \<not> any_matches then (left, left - 1)
         else if right > left then (find_back stabs ty (left + 1) right, right)
         else (right, right))"

text \<open>
  What the loop maintains when it looks for \<open>a0\<close> between \<open>L\<close> and \<open>R\<close>: the entries of the kind before
  \<open>l\<close> are at most \<open>a0\<close>, those after \<open>r\<close> are above it, and none lies strictly between \<open>left\<close> and \<open>l\<close>.
\<close>

definition of_type :: "(int \<Rightarrow> stab) \<Rightarrow> u8 \<Rightarrow> int \<Rightarrow> bool" where
  "of_type stabs ty i \<longleftrightarrow> n_type (stabs i) = ty"

definition search_inv :: "(int \<Rightarrow> stab) \<Rightarrow> u8 \<Rightarrow> int \<Rightarrow> int \<Rightarrow> u32 \<Rightarrow> int \<Rightarrow> int \<Rightarrow> u32 \<Rightarrow> int \<Rightarrow> int \<Rightarrow> bool \<Rightarrow> bool"
  where
  "search_inv stabs ty L R a0 l r a left right any \<longleftrightarrow>
     L \<le> left \<and> left \<le> l \<and> L \<le> l \<and> r \<le> R \<and> right = r
     \<and> (a = a0 \<or> a = a0 + 1 \<and> (\<exists>i. L \<le> i \<and> i \<le> R \<and> of_type stabs ty i \<and> n_value (stabs i) = a0))
     \<and> (\<forall>i. left < i \<and> i < l \<longrightarrow> \<not> of_type stabs ty i)
     \<and> (left = L \<and> (l = L \<or> \<not> of_type stabs ty L) \<or> left \<le> R \<and> of_type stabs ty left \<and> n_value (stabs left) \<le> a0)
     \<and> (\<forall>i. r < i \<and> i \<le> R \<and> of_type stabs ty i \<longrightarrow> a0 < n_value (stabs i))
     \<and> (r = R \<or> of_type stabs ty (r + 1))
     \<and> (any \<or> left = L \<and> r = R \<and> (\<forall>i. L \<le> i \<and> i < l \<longrightarrow> \<not> of_type stabs ty i))"

text \<open>Addresses of one kind grow with the index; an exact match is not followed by the next address.\<close>

definition type_sorted :: "(int \<Rightarrow> stab) \<Rightarrow> u8 \<Rightarrow> int \<Rightarrow> int \<Rightarrow> bool" where
  "type_sorted stabs ty L R \<longleftrightarrow>
     (\<forall>i j. L \<le> i \<and> i < j \<and> j \<le> R \<and> of_type stabs ty i \<and> of_type stabs ty j \<longrightarrow>
        n_value (stabs i) \<le> n_value (stabs j))"

definition no_neighbours :: "(int \<Rightarrow> stab) \<Rightarrow> u8 \<Rightarrow> int \<Rightarrow> int \<Rightarrow> u32 \<Rightarrow> bool" where
  "no_neighbours stabs ty L R a \<longleftrightarrow>
     (\<forall>i j. L \<le> i \<and> i \<le> R \<and> L \<le> j \<and> j \<le> R \<and> of_type stabs ty i \<and> of_type stabs ty j \<longrightarrow>
        n_value (stabs i) = a \<longrightarrow> n_value (stabs j) \<noteq> a + 1)"

lemma search_inv_narrow:
  assumes "search_inv stabs ty L R a0 l r a left right any" and "l \<le> r"
    and "\<forall>i. l \<le> i \<and> i \<le> t \<longrightarrow> \<not> of_type stabs ty i" and "l \<le> t"
  shows "search_inv stabs ty L R a0 (t + 1) r a left right any"
proof -
  have "\<not> of_type stabs ty i" if "left < i" "i < t + 1" for i
    using assms(1,3) that by (cases "i < l") (auto simp: search_inv_def)
  moreover have "\<not> of_type stabs ty i" if "\<forall>i. L \<le> i \<and> i < l \<longrightarrow> \<not> of_type stabs ty i" "L \<le> i" "i < t + 1" for i
    using assms(3) that by (cases "i < l") auto
  moreover have "left = L \<and> \<not> of_type stabs ty L" if "l = L" "left = L"
    using assms(3,4) that by simp
  ultimately show ?thesis
    using assms(1,4) unfolding search_inv_def by (elim conjE) (intro conjI; (assumption | linarith | blast)?)
qed

lemma search_inv_below:
  assumes "search_inv stabs ty L R a0 l r a left right any" and "l \<le> m" "m \<le> t" "t \<le> r"
    and "\<forall>i. m < i \<and> i \<le> t \<longrightarrow> \<not> of_type stabs ty i" and "of_type stabs ty m"
    and "n_value (stabs m) \<le> a0"
  shows "search_inv stabs ty L R a0 (t + 1) r a m right True"
proof -
  have "L \<le> m" "m \<le> R" "m \<le> t + 1" "L \<le> t + 1" using assms(1-4) by (simp_all add: search_inv_def)
  moreover have "\<not> of_type stabs ty i" if "m < i" "i < t + 1" for i
    using assms(5) that by simp
  ultimately show ?thesis
    using assms(1,6,7) unfolding search_inv_def by (elim conjE) (intro conjI; (assumption | simp)?)
qed

lemma search_inv_above:
  assumes "search_inv stabs ty L R a0 l r a left right any" and "l \<le> m" "m \<le> r"
    and "of_type stabs ty m" and "a0 < n_value (stabs m)" and "type_sorted stabs ty L R"
  shows "search_inv stabs ty L R a0 l (m - 1) a left (m - 1) True"
proof -
  have "a0 < n_value (stabs i)" if "m - 1 < i" "i \<le> R" "of_type stabs ty i" for i
  proof (cases "i = m")
    case False
    with that assms have "n_value (stabs m) \<le> n_value (stabs i)"
      by (auto simp: type_sorted_def search_inv_def)
    with assms(5) show ?thesis by (rule less_le_trans)
  qed (simp add: assms(5))
  moreover have "m - 1 \<le> R" using assms(1,3) by (simp add: search_inv_def)
  ultimately show ?thesis
    using assms(1,4) unfolding search_inv_def by simp
qed

lemma search_inv_exact:
  assumes "search_inv stabs ty L R a0 l r a0 left right any" and "l \<le> m" "m \<le> r"
    and "of_type stabs ty m" and "n_value (stabs m) = a0"
  shows "search_inv stabs ty L R a0 m r (a0 + 1) m right True"
proof -
  have "L \<le> m" "m \<le> R" using assms(1-3) by (simp_all add: search_inv_def)
  have "(\<exists>i. L \<le> i \<and> i \<le> R \<and> of_type stabs ty i \<and> n_value (stabs i) = a0)"
    using assms(4,5) \<open>L \<le> m\<close> \<open>m \<le> R\<close> by blast
  with assms \<open>L \<le> m\<close> show ?thesis unfolding search_inv_def
    by (elim conjE) (intro conjI; (assumption | simp)?)
qed

lemma less_succ: "v < a + 1 \<longleftrightarrow> v \<le> a" if "a + 1 \<noteq> 0" for a v :: u32
proof -
  from that have "unat (a + 1) = Suc (unat a)" by (metis add.commute unatSuc)
  then show ?thesis by (simp add: word_less_nat_alt word_le_nat_alt less_Suc_eq_le)
qed

lemma search_loop_done: "r < l \<Longrightarrow> search_loop stabs ty l r a left right any = (left, right, any)"
  by (subst search_loop.simps) simp

lemma search_loop_brackets:
  assumes "search_inv stabs ty L R a0 l r a left right any"
    and "type_sorted stabs ty L R" and "no_neighbours stabs ty L R a0" and "a0 + 1 \<noteq> 0"
    and "search_loop stabs ty l r a left right any = (left', right', any')"
  shows "\<exists>l' r' a'. search_inv stabs ty L R a0 l' r' a' left' right' any' \<and> r' < l'"
  using assms
proof (induction stabs ty l r a left right any rule: search_loop.induct)
  case (1 stabs ty l r a left right any)
  let ?t = "(l + r) div 2" and ?m = "find_back stabs ty l ((l + r) div 2)"
  note inv = 1(5) and side = 1(6-8) and res = 1(9)
  show ?case
  proof (cases "l \<le> r")
    case False
    with inv res show ?thesis by (auto simp: search_loop_done not_le)
  next
    case lr: True
    then have t: "l \<le> ?t" "?t \<le> r" by auto
    note fb = find_back_props [OF t(1), of stabs ty]
    note step = res [unfolded search_loop.simps [of stabs ty l r]]
    show ?thesis
    proof (cases "?m < l")
      case True
      with fb have "\<forall>i. l \<le> i \<and> i \<le> ?t \<longrightarrow> \<not> of_type stabs ty i" by (auto simp: of_type_def)
      from 1(1) [OF _ refl refl True search_inv_narrow [OF inv lr this t(1)] side] lr True step
      show ?thesis by (simp add: Let_def)
    next
      case ge: False
      then have m: "l \<le> ?m" "?m \<le> r" "of_type stabs ty ?m" "?m \<le> ?t"
        "\<forall>i. ?m < i \<and> i \<le> ?t \<longrightarrow> \<not> of_type stabs ty i"
        using fb t by (auto simp: of_type_def)
      have a: "a = a0 \<or> a = a0 + 1 \<and> n_value (stabs ?m) \<noteq> a"
      proof -
        from inv m(1,2) have "L \<le> ?m" "?m \<le> R" by (simp_all add: search_inv_def)
        with inv m(3) side(2) show ?thesis by (simp add: search_inv_def no_neighbours_def) blast
      qed
      consider (below) "n_value (stabs ?m) < a" | (above) "a < n_value (stabs ?m)"
        | (exact) "n_value (stabs ?m) = a" by force
      then show ?thesis
      proof cases
        case below
        with a side(3) have "n_value (stabs ?m) \<le> a0" by (auto simp: less_succ)
        from 1(2) [OF _ refl refl ge below search_inv_below [OF inv m(1,4) t(2) m(5,3) this] side] lr ge below step
        show ?thesis by (simp add: Let_def)
      next
        case above
        then have a0m: "a0 < n_value (stabs ?m)" using a side(3) by (meson less_succ not_le less_imp_le le_less_trans)
        from above have na: "\<not> n_value (stabs ?m) < a" by simp
        from 1(3) [OF _ refl refl ge na above search_inv_above [OF inv m(1-3) a0m side(1)] side] lr ge above na step
        show ?thesis by (simp add: Let_def)
      next
        case exact
        with a have "a = a0" by simp
        with exact have e: "n_value (stabs ?m) = a0" by simp
        from exact have ne: "\<not> n_value (stabs ?m) < a" "\<not> a < n_value (stabs ?m)" by simp_all
        from inv \<open>a = a0\<close> have "search_inv stabs ty L R a0 ?m r (a + 1) ?m right True"
          using search_inv_exact [OF _ m(1-3) e] by simp
        from 1(4) [OF _ refl refl ge ne this side] lr ge ne step
        show ?thesis by (simp add: Let_def)
      qed
    qed
  qed
qed

lemma find_back_none:
  assumes "l \<le> m + 1" and "\<And>i. l \<le> i \<Longrightarrow> i \<le> m \<Longrightarrow> n_type (stabs i) \<noteq> ty"
  shows "find_back stabs ty l m = l - 1"
proof (cases "l \<le> m")
  case True
  note fb = find_back_props [OF this, of stabs ty]
  then have "\<not> l \<le> find_back stabs ty l m" using assms(2) by blast
  with fb show ?thesis by linarith
next
  case False
  with assms(1) show ?thesis by (subst find_back.simps) simp
qed

text \<open>
  When some entry of the kind has an address up to the one looked for, the binary search leaves
  \<open>left\<close> at the last such entry and \<open>right\<close> just before the next entry of the kind (or at the end of
  the range). The entries of the kind have to be in increasing order, and no entry may carry the
  address right after one that matches exactly.
\<close>

lemma binsearch_brackets_run:
  assumes "type_sorted stabs ty L R" and "no_neighbours stabs ty L R addr" and "addr + 1 \<noteq> 0"
    and "L \<le> k" "k \<le> R" "of_type stabs ty k" "n_value (stabs k) \<le> addr"
    and "stab_binsearch stabs L R ty addr = (left, right)"
  shows "k \<le> left \<and> left \<le> right \<and> right \<le> R \<and> of_type stabs ty left \<and> n_value (stabs left) \<le> addr
    \<and> (\<forall>i. left < i \<and> i \<le> right \<longrightarrow> \<not> of_type stabs ty i)
    \<and> (right = R \<or> of_type stabs ty (right + 1) \<and> addr < n_value (stabs (right + 1)))
    \<and> (\<forall>i. right < i \<and> i \<le> R \<and> of_type stabs ty i \<longrightarrow> addr < n_value (stabs i))"
proof -
  obtain lf rt any where sl: "search_loop stabs ty L R addr L R False = (lf, rt, any)" by (cases "search_loop stabs ty L R addr L R False")
  have "search_inv stabs ty L R addr L R addr L R False"
    unfolding search_inv_def by fastforce
  from search_loop_brackets [OF this assms(1-3) sl] obtain l r a
    where inv: "search_inv stabs ty L R addr l r a lf rt any" and lr: "r < l" by blast
  have rt: "rt = r" "r \<le> R" "r = R \<or> of_type stabs ty (r + 1)" "L \<le> lf"
    and none: "\<And>i. lf < i \<Longrightarrow> i < l \<Longrightarrow> \<not> of_type stabs ty i"
    and above: "\<And>i. r < i \<Longrightarrow> i \<le> R \<Longrightarrow> of_type stabs ty i \<Longrightarrow> addr < n_value (stabs i)"
    using inv by (simp_all add: search_inv_def)
  have "k \<le> r" using above [of k] assms(5-7) by (meson not_le)
  then have kl: "k \<le> lf" using none [of k] assms(6) lr by (meson le_less_trans not_le)
  have any: "any" using inv assms(4,6) \<open>k \<le> r\<close> lr unfolding search_inv_def by (meson le_less_trans)
  have left: "lf \<le> R \<and> of_type stabs ty lf \<and> n_value (stabs lf) \<le> addr"
  proof (cases "lf = L")
    case True
    with kl assms(4) have "k = lf" by simp
    with assms(5-7) show ?thesis by simp
  next
    case False
    with inv show ?thesis by (simp add: search_inv_def)
  qed
  have "lf \<le> r" using above [of lf] left by (meson not_le)
  then have "stab_binsearch stabs L R ty addr = (lf, rt)"
    using find_back_none [of "lf + 1" rt stabs ty] none lr rt(1) any
    by (auto simp: stab_binsearch_def sl of_type_def)
  with assms(8) kl left \<open>lf \<le> r\<close> rt none above lr show ?thesis by fastforce
qed

text \<open>The table of the comment above \<open>stab_binsearch\<close>, and the result it promises.\<close>

definition doc_table :: "int \<Rightarrow> stab" where
  "doc_table = (\<lambda>i. \<lparr>n_strx = 0,
     n_type = (if i \<in> {0, 13, 117, 118, 555, 556, 657} then N_SO else N_SLINE), n_other = 0, n_desc = 0,
     n_value = (if i < 13 then 0xf0100000 else if i < 117 then 0xf0100040 else if i < 118 then 0xf0100176
       else if i < 555 then 0xf0100178 else if i < 556 then 0xf0100652 else if i < 657 then 0xf0100654
       else 0xf0100849)\<rparr>)"

lemma doc_table_search: "stab_binsearch doc_table 0 657 N_SO 0xf0100184 = (118, 554)"
  by code_simp

definition two_lines :: "u32 \<Rightarrow> u32 \<Rightarrow> int \<Rightarrow> stab" where
  "two_lines a b = (\<lambda>i. \<lparr>n_strx = 0, n_type = N_SLINE, n_other = 0, n_desc = 0,
     n_value = (if i = 0 then a else b)\<rparr>)"

text \<open>
  Two entries at consecutive addresses: the search for the first, an exact match, goes on with the
  next address and answers with the second.
\<close>

lemma binsearch_drifts: "stab_binsearch (two_lines 4 5) 0 1 N_SLINE 4 = (1, 1)"
  by code_simp

text \<open>
  An address below every entry: the ends are equal, where the comment promises
  \<open>*region_left > *region_right\<close>; \<open>stabs[-1]\<close> is then read.
\<close>

lemma binsearch_all_above: "stab_binsearch (two_lines 4 5) 0 1 N_SLINE 3 = (- 1, - 1)"
  by code_simp

section \<open>Source information of an address\<close>

datatype dbg_name = Unknown | In_table nat

record Eipdebuginfo =
  eip_file :: dbg_name
  eip_line :: int
  eip_fn_name :: dbg_name
  eip_fn_namelen :: int
  eip_fn_addr :: u32
  eip_fn_narg :: int

text \<open>The tables: the entries, their number, the strings and their size.\<close>

record symtab =
  st_stabs :: "int \<Rightarrow> stab"
  st_count :: int
  st_str :: bmem
  st_strsize :: int

definition init_info :: "u32 \<Rightarrow> Eipdebuginfo" where
  "init_info addr = \<lparr>eip_file = Unknown, eip_line = 0, eip_fn_name = Unknown, eip_fn_namelen = 9,
     eip_fn_addr = addr, eip_fn_narg = 0\<rparr>"

definition in_strings :: "symtab \<Rightarrow> int \<Rightarrow> bool" where
  "in_strings st i \<longleftrightarrow> uint (n_strx (st_stabs st i)) < st_strsize st"

definition name_of :: "symtab \<Rightarrow> int \<Rightarrow> dbg_name" where
  "name_of st i = In_table (unat (n_strx (st_stabs st i)))"

text \<open>\<open>strfind(name, ':') - name\<close>; the constant \<open>"<unknown>"\<close> has nine characters and no colon.\<close>

definition name_length :: "symtab \<Rightarrow> dbg_name \<Rightarrow> int option" where
  "name_length st nm = (case nm of Unknown \<Rightarrow> Some 9
     | In_table o' \<Rightarrow> map_option (\<lambda>e. int e - int o') (strfind (st_str st) o' 58))"

function find_file :: "(int \<Rightarrow> stab) \<Rightarrow> int \<Rightarrow> int \<Rightarrow> int" where
  "find_file stabs lfile lline =
     (if lline \<ge> lfile \<and> n_type (stabs lline) \<noteq> N_SOL
         \<and> (n_type (stabs lline) \<noteq> N_SO \<or> n_value (stabs lline) = 0)
      then find_file stabs lfile (lline - 1) else lline)"
  by pat_completeness auto
termination
  by (relation "measure (\<lambda>(stabs, lfile, lline). nat (lline - lfile + 1))") auto

function count_args :: "(int \<Rightarrow> stab) \<Rightarrow> int \<Rightarrow> int \<Rightarrow> int \<Rightarrow> int" where
  "count_args stabs lline rfun n =
     (if lline < rfun \<and> n_type (stabs lline) = N_PSYM then count_args stabs (lline + 1) rfun (n + 1) else n)"
  by pat_completeness auto
termination
  by (relation "measure (\<lambda>(stabs, lline, rfun, n). nat (rfun - lline))") auto

declare find_file.simps [simp del] count_args.simps [simp del]

text \<open>
  \<open>debuginfo_eip\<close> with its tables chosen; \<open>None\<close> when a name runs on without a null character.
\<close>

definition debuginfo_lookup :: "symtab \<Rightarrow> u32 \<Rightarrow> (int \<times> Eipdebuginfo) option" where
  "debuginfo_lookup st addr =
    (let stabs = st_stabs st; info = init_info addr in
     if st_strsize st \<le> 0 \<or> st_str st (nat (st_strsize st) - 1) \<noteq> 0 then Some (- 1, info)
     else let (lfile, rfile) = stab_binsearch stabs 0 (st_count st - 1) N_SO addr in
       if lfile = 0 then Some (- 1, info)
       else let (lfun, rfun) = stab_binsearch stabs lfile rfile N_FUN addr;
         (info, addr, lline, rline) =
           (if lfun \<le> rfun
            then (info\<lparr>eip_fn_name := (if in_strings st lfun then name_of st lfun else Unknown),
                       eip_fn_addr := n_value (stabs lfun)\<rparr>, addr - n_value (stabs lfun), lfun, rfun)
            else (info\<lparr>eip_fn_addr := addr\<rparr>, addr, lfile, rfile))
       in case name_length st (eip_fn_name info) of None \<Rightarrow> None
          | Some n \<Rightarrow>
            let info = info\<lparr>eip_fn_namelen := n\<rparr>;
                (lline, rline) = stab_binsearch stabs lline rline N_SLINE addr;
                info = (if lline \<le> rline then info\<lparr>eip_line := uint (n_desc (stabs lline))\<rparr> else info);
                lline = find_file stabs lfile lline;
                info = (if lline \<ge> lfile \<and> in_strings st lline then info\<lparr>eip_file := name_of st lline\<rparr> else info);
                info = (if lfun < rfun then info\<lparr>eip_fn_narg := count_args stabs (lfun + 1) rfun 0\<rparr> else info)
            in Some (0, info))"

declare strfind.simps [code]

lemma strfind_stops: "m (s + n) = 0 \<Longrightarrow> \<exists>e. strfind m s c = Some e \<and> s \<le> e \<and> e \<le> s + n"
proof (induction n arbitrary: s)
  case 0
  then show ?case by (subst strfind.simps) simp
next
  case (Suc n)
  from Suc.prems have "m (s + 1 + n) = 0" by simp
  from Suc.IH [OF this] obtain e where "strfind m (s + 1) c = Some e" "s + 1 \<le> e" "e \<le> s + 1 + n" by blast
  then show ?case by (subst strfind.simps) simp
qed

lemma name_length_bounded:
  assumes "0 < st_strsize st" and "st_str st (nat (st_strsize st) - 1) = 0"
    and "nm = Unknown \<or> in_strings st i \<and> nm = name_of st i"
  shows "\<exists>n. name_length st nm = Some n"
proof (cases "nm = Unknown")
  case False
  let ?o = "unat (n_strx (st_stabs st i))" and ?n = "nat (st_strsize st) - 1"
  from False assms(3) have nm: "nm = In_table ?o" "int ?o < st_strsize st"
    by (auto simp: in_strings_def name_of_def)
  then have "?o + (?n - ?o) = ?n" by linarith
  with assms(2) have "st_str st (?o + (?n - ?o)) = 0" by simp
  from strfind_stops [where m = "st_str st" and c = 58, OF this] nm(1) show ?thesis by (auto simp: name_length_def)
qed (simp add: name_length_def)

text \<open>
  Property C40. In a table whose strings end with a null character, where the function entries within the
  source file found for the address, and the line entries within the function found, are in
  increasing order, where some function entry and some line entry are not above the address, and
  where neither search meets its exact match followed by an entry for the very next address (on
  such neighbours the binary search drifts to the second one), \<open>debuginfo_eip\<close> ends, succeeds, and
  reports the start and the name of the function entry with the largest address up to the one asked for, and
  the line of the line entry of that function with the largest offset up to that of the address.
\<close>

theorem debuginfo_nearest_function:
  assumes "0 < st_strsize st" and "st_str st (nat (st_strsize st) - 1) = 0"
    and "stab_binsearch (st_stabs st) 0 (st_count st - 1) N_SO addr = (lfile, rfile)" and "lfile \<noteq> 0"
    and "type_sorted (st_stabs st) N_FUN lfile rfile" and "no_neighbours (st_stabs st) N_FUN lfile rfile addr"
    and "addr + 1 \<noteq> 0"
    and "lfile \<le> k" "k \<le> rfile" "of_type (st_stabs st) N_FUN k" "n_value (st_stabs st k) \<le> addr"
    and "stab_binsearch (st_stabs st) lfile rfile N_FUN addr = (f, g)" and "off = addr - n_value (st_stabs st f)"
    and "type_sorted (st_stabs st) N_SLINE f g" and "no_neighbours (st_stabs st) N_SLINE f g off"
    and "off + 1 \<noteq> 0"
    and "f \<le> j" "j \<le> g" "of_type (st_stabs st) N_SLINE j" "n_value (st_stabs st j) \<le> off"
  shows "\<exists>info l. debuginfo_lookup st addr = Some (0, info)
    \<and> eip_fn_addr info = n_value (st_stabs st f) \<and> eip_fn_addr info \<le> addr
    \<and> eip_fn_name info = (if in_strings st f then name_of st f else Unknown)
    \<and> k \<le> f \<and> f \<le> rfile \<and> of_type (st_stabs st) N_FUN f
    \<and> (\<forall>i. f < i \<and> i \<le> rfile \<and> of_type (st_stabs st) N_FUN i \<longrightarrow> addr < n_value (st_stabs st i))
    \<and> eip_line info = uint (n_desc (st_stabs st l)) \<and> j \<le> l \<and> l \<le> g
    \<and> of_type (st_stabs st) N_SLINE l \<and> n_value (st_stabs st l) \<le> off
    \<and> (\<forall>i. l < i \<and> i \<le> g \<and> of_type (st_stabs st) N_SLINE i \<longrightarrow> off < n_value (st_stabs st i))"
proof -
  note b = binsearch_brackets_run [OF assms(5-12)]
  obtain l h where lh: "stab_binsearch (st_stabs st) f g N_SLINE off = (l, h)" by fastforce
  note c = binsearch_brackets_run [OF assms(14-20) lh]
  let ?nm = "if in_strings st f then name_of st f else Unknown"
  have "?nm = Unknown \<or> in_strings st f \<and> ?nm = name_of st f" by simp
  from name_length_bounded [OF assms(1,2) this] obtain n where "name_length st ?nm = Some n" ..
  with assms(1-4,12,13) lh b c have "\<exists>info. debuginfo_lookup st addr = Some (0, info)
      \<and> eip_fn_addr info = n_value (st_stabs st f) \<and> eip_fn_name info = ?nm
      \<and> eip_line info = uint (n_desc (st_stabs st l))"
    by (auto simp: debuginfo_lookup_def Let_def split: prod.split)
  then obtain info where info: "debuginfo_lookup st addr = Some (0, info)"
    "eip_fn_addr info = n_value (st_stabs st f)" "eip_fn_name info = ?nm"
    "eip_line info = uint (n_desc (st_stabs st l))" by blast
  have above: "addr < n_value (st_stabs st i)" if "f < i" "i \<le> rfile" "of_type (st_stabs st) N_FUN i" for i
    using b that by (cases "i \<le> g") auto
  have line: "off < n_value (st_stabs st i)" if "l < i" "i \<le> g" "of_type (st_stabs st) N_SLINE i" for i
    using c that by (cases "i \<le> h") auto
  from info b c above line show ?thesis
    by (intro exI [of _ info] exI [of _ l]) simp
qed

text \<open>A table of one file with two functions, \<open>f\<close> of two lines and \<open>g\<close> with an argument.\<close>

definition ex_stab :: "u32 \<Rightarrow> u8 \<Rightarrow> u16 \<Rightarrow> u32 \<Rightarrow> stab" where
  "ex_stab x t d v = \<lparr>n_strx = x, n_type = t, n_other = 0, n_desc = d, n_value = v\<rparr>"

definition ex_stabs :: "int \<Rightarrow> stab" where
  "ex_stabs i = (if i = 0 then ex_stab 0 0 0 0 else if i = 1 then ex_stab 1 N_SO 0 0xf0100000
     else if i = 2 then ex_stab 3 N_FUN 0 0xf0100000 else if i = 3 then ex_stab 0 N_SLINE 7 0
     else if i = 4 then ex_stab 0 N_SLINE 8 6 else if i = 5 then ex_stab 7 N_FUN 0 0xf0100020
     else if i = 6 then ex_stab 7 N_PSYM 0 8 else if i = 7 then ex_stab 0 N_SLINE 12 0
     else ex_stab 0 N_SO 0 0xf0100100)"

definition ex_symtab :: symtab where
  "ex_symtab = \<lparr>st_stabs = ex_stabs, st_count = 9,
     st_str = (\<lambda>i. if i < 11 then [0, 97, 0, 102, 58, 70, 0, 103, 58, 70, 0] ! i else 0), st_strsize = 11\<rparr>"

theorem debuginfo_nearest_function_witness:
  "\<exists>info l. debuginfo_lookup ex_symtab 0xf0100008 = Some (0, info)
    \<and> eip_fn_addr info = 0xf0100000 \<and> eip_line info = uint (n_desc (st_stabs ex_symtab l)) \<and> 3 \<le> l \<and> l \<le> 4"
proof -
  have so: "stab_binsearch (st_stabs ex_symtab) 0 (st_count ex_symtab - 1) N_SO 0xf0100008 = (1, 7)"
    and fg: "stab_binsearch (st_stabs ex_symtab) 1 7 N_FUN 0xf0100008 = (2, 4)"
    by code_simp+
  have fn: "of_type (st_stabs ex_symtab) N_FUN i \<longleftrightarrow> i = 2 \<or> i = 5"
    and ln: "of_type (st_stabs ex_symtab) N_SLINE i \<longleftrightarrow> i = 3 \<or> i = 4 \<or> i = 7" for i
    by (simp_all add: of_type_def ex_symtab_def ex_stabs_def ex_stab_def N_FUN_def N_SO_def N_SLINE_def N_PSYM_def)
  have v: "n_value (st_stabs ex_symtab 2) = 0xf0100000" "n_value (st_stabs ex_symtab 5) = 0xf0100020"
    "n_value (st_stabs ex_symtab 3) = 0" "n_value (st_stabs ex_symtab 4) = 6" "n_value (st_stabs ex_symtab 7) = 0"
    by (simp_all add: ex_symtab_def ex_stabs_def ex_stab_def)
  have str: "0 < st_strsize ex_symtab" "st_str ex_symtab (nat (st_strsize ex_symtab) - 1) = 0"
    by (simp_all add: ex_symtab_def)
  have off: "(8 :: u32) = 0xf0100008 - n_value (st_stabs ex_symtab 2)" by (simp add: v)
  have sorted: "type_sorted (st_stabs ex_symtab) N_FUN 1 7"
    "no_neighbours (st_stabs ex_symtab) N_FUN 1 7 0xf0100008"
    by (auto simp: type_sorted_def no_neighbours_def fn v)
  have lines: "type_sorted (st_stabs ex_symtab) N_SLINE 2 4" "no_neighbours (st_stabs ex_symtab) N_SLINE 2 4 8"
    by (auto simp: type_sorted_def no_neighbours_def ln v)
  have k: "of_type (st_stabs ex_symtab) N_FUN 2" "n_value (st_stabs ex_symtab 2) \<le> 0xf0100008"
    and j: "of_type (st_stabs ex_symtab) N_SLINE 3" "n_value (st_stabs ex_symtab 3) \<le> 8"
    by (simp_all add: fn ln v)
  have n: "(1 :: int) \<noteq> 0" "(0xf0100008 :: u32) + 1 \<noteq> 0" "(1 :: int) \<le> 2" "(2 :: int) \<le> 7"
    "(8 :: u32) + 1 \<noteq> 0" "(2 :: int) \<le> 3" "(3 :: int) \<le> 4" by simp_all
  from debuginfo_nearest_function [OF str so n(1) sorted n(2-4) k fg off lines n(5-7) j] v show ?thesis by auto
qed

lemma debuginfo_ex: "debuginfo_lookup ex_symtab 0xf0100008 = Some (0, \<lparr>eip_file = In_table 1, eip_line = 8,
    eip_fn_name = In_table 3, eip_fn_namelen = 1, eip_fn_addr = 0xf0100000, eip_fn_narg = 0\<rparr>)"
  by code_simp

text \<open>
  Without any line entry the lookup still succeeds, with line 0, where the comment in
  \<open>debuginfo_eip\<close> asks for -1.
\<close>

definition lineless :: symtab where
  "lineless = ex_symtab\<lparr>st_stabs := (\<lambda>i. if i \<in> {3, 4, 7} then ex_stab 0 N_PSYM 0 0 else ex_stabs i)\<rparr>"

lemma debuginfo_no_line: "map_option (\<lambda>(r, info). (r, eip_line info)) (debuginfo_lookup lineless 0xf0100008) = Some (0, 0)"
  by code_simp

end
