(* ===== verification/Jos_Monitor.thy ===== *)
theory Jos_Monitor
  imports Jos_String Jos_Machine
begin

text \<open>
  Reading and taking apart a command line: \<^verbatim>\<open>tps/lib/readline.c\<close> and the command interpreter of
  \<^verbatim>\<open>tps/kern/monitor.c\<close>. \<open>readline\<close> works on the characters \<open>getchar\<close> delivers, one after the other,
  and its buffer; the interpreter writes null characters into that buffer and collects pointers.
\<close>

section \<open>readline\<close>

definition BUFLEN_rl :: nat where "BUFLEN_rl = 1024"

datatype rl_out = Put int | Read_error int

text \<open>
  The loop has read up to \<open>i\<close>; \<open>None\<close> when the characters have run out and it waits. The result is
  the buffer, or \<open>None\<close> for a null pointer, with what has been printed and what is still unread.
\<close>

fun readline_loop :: "bool \<Rightarrow> int list \<Rightarrow> nat \<Rightarrow> bmem \<Rightarrow> rl_out list \<Rightarrow> (bmem option \<times> rl_out list \<times> int list) option"
  where
  "readline_loop echoing [] i buf out = None"
| "readline_loop echoing (c # cs) i buf out =
     (if c < 0 then Some (None, out @ (if c \<noteq> - E_EOF then [Read_error c] else []), cs)
      else if (c = 8 \<or> c = 0x7f) \<and> i > 0
        then readline_loop echoing cs (i - 1) buf (out @ (if echoing then [Put 8] else []))
      else if c \<ge> 32 \<and> i < BUFLEN_rl - 1
        then readline_loop echoing cs (i + 1) (buf(i := word_of_int c)) (out @ (if echoing then [Put c] else []))
      else if c = 10 \<or> c = 13
        then Some (Some (buf(i := 0)), out @ (if echoing then [Put 10] else []), cs)
      else readline_loop echoing cs i buf out)"

text \<open>What one key does to the line in the buffer.\<close>

definition edit_key :: "int list \<Rightarrow> int \<Rightarrow> int list" where
  "edit_key xs c = (if (c = 8 \<or> c = 0x7f) \<and> xs \<noteq> [] then butlast xs
     else if c \<ge> 32 \<and> length xs < 1023 then xs @ [c] else xs)"

definition screen_key :: "int list \<Rightarrow> rl_out \<Rightarrow> int list" where
  "screen_key xs e = (case e of Put c \<Rightarrow> (if c = 8 then butlast xs else xs @ [c]) | Read_error _ \<Rightarrow> xs)"

definition line_bytes :: "int list \<Rightarrow> u8 list" where
  "line_bytes xs = map word_of_int xs"

definition plain_key :: "int \<Rightarrow> bool" where
  "plain_key c \<longleftrightarrow> 0 \<le> c \<and> c < 256 \<and> c \<noteq> 10 \<and> c \<noteq> 13"

definition holds_line :: "bmem \<Rightarrow> int list \<Rightarrow> bool" where
  "holds_line buf xs \<longleftrightarrow> (\<forall>k < length xs. buf k = word_of_int (xs ! k) \<and> 32 \<le> xs ! k \<and> xs ! k < 256)
     \<and> length xs \<le> 1023"

lemma holds_line_edit:
  assumes "holds_line buf xs" and "plain_key c"
  shows "holds_line (if c \<ge> 32 \<and> length xs < 1023 \<and> \<not> (c = 0x7f \<and> xs \<noteq> []) then buf(length xs := word_of_int c) else buf)
    (edit_key xs c)"
  using assms by (auto simp: holds_line_def edit_key_def plain_key_def nth_append nth_butlast less_Suc_eq)

lemma readline_loop_edits:
  assumes "holds_line buf xs" and "list_all plain_key cs" and "nl = 10 \<or> nl = 13"
  shows "\<exists>buf' out'. readline_loop True (cs @ nl # rest) (length xs) buf out = Some (Some buf', out @ out' @ [Put 10], rest)
    \<and> holds_line buf' (foldl edit_key xs cs) \<and> buf' (length (foldl edit_key xs cs)) = 0
    \<and> foldl screen_key xs out' = foldl edit_key xs cs \<and> (\<forall>a > 1023. buf' a = buf a)"
  using assms
proof (induction cs arbitrary: xs buf out)
  case Nil
  then show ?case by (auto simp: holds_line_def)
next
  case (Cons c cs)
  then have c: "plain_key c" and hl: "holds_line buf xs" and cs: "list_all plain_key cs" by auto
  let ?ins = "c \<ge> 32 \<and> length xs < 1023 \<and> \<not> (c = 0x7f \<and> xs \<noteq> [])"
  let ?buf = "if ?ins then buf(length xs := word_of_int c) else buf"
  let ?e = "if (c = 8 \<or> c = 0x7f) \<and> xs \<noteq> [] then [Put 8] else if ?ins then [Put c] else []"
  have step: "readline_loop True ((c # cs) @ nl # rest) (length xs) buf out =
    readline_loop True (cs @ nl # rest) (length (edit_key xs c)) ?buf (out @ ?e)"
    using c hl by (auto simp: plain_key_def edit_key_def BUFLEN_rl_def holds_line_def)
  have scr: "foldl screen_key xs ?e = edit_key xs c"
    by (auto simp: screen_key_def edit_key_def)
  from Cons.IH [OF holds_line_edit [OF hl c] cs Cons.prems(3), of "out @ ?e"] obtain buf' out' where
    "readline_loop True (cs @ nl # rest) (length (edit_key xs c)) ?buf (out @ ?e) = Some (Some buf', (out @ ?e) @ out' @ [Put 10], rest)"
    "holds_line buf' (foldl edit_key (edit_key xs c) cs)" "buf' (length (foldl edit_key (edit_key xs c) cs)) = 0"
    "foldl screen_key (edit_key xs c) out' = foldl edit_key (edit_key xs c) cs"
    "\<forall>a > 1023. buf' a = ?buf a" by blast
  moreover have "\<forall>a > 1023. ?buf a = buf a" using hl by (auto simp: holds_line_def)
  ultimately show ?case using step scr
    by (intro exI [of _ buf'] exI [of _ "?e @ out'"]) (simp del: readline_loop.simps)
qed

lemma byte_nonzero: "32 \<le> c \<Longrightarrow> c < 256 \<Longrightarrow> (word_of_int c :: u8) \<noteq> 0"
  by (simp add: word_of_int_eq_0_iff zdvd_not_zless)

lemma holds_line_cstr: "holds_line buf xs \<Longrightarrow> buf (length xs) = 0 \<Longrightarrow> cstr buf 0 (line_bytes xs)"
  using byte_nonzero by (fastforce simp: holds_line_def cstr_def line_bytes_def in_set_conv_nth)

definition readline :: "int list \<Rightarrow> bmem \<Rightarrow> (bmem option \<times> rl_out list \<times> int list) option" where
  "readline keys buf = readline_loop True keys 0 buf []"

section \<open>The command interpreter\<close>

definition MAXARGS_mon :: nat where "MAXARGS_mon = 16"

definition is_white :: "u8 \<Rightarrow> bool" where
  "is_white c \<longleftrightarrow> c \<in> set [9, 13, 10, 32]"

text \<open>Blanks are overwritten with null characters; the start of each argument is collected.\<close>

partial_function (option) gobble :: "bmem \<Rightarrow> nat \<Rightarrow> (bmem \<times> nat) option" where
  "gobble m p = (if m p \<noteq> 0 \<and> is_white (m p) then gobble (m(p := 0)) (p + 1) else Some (m, p))"

partial_function (option) scan_arg :: "bmem \<Rightarrow> nat \<Rightarrow> nat option" where
  "scan_arg m p = (if m p \<noteq> 0 \<and> \<not> is_white (m p) then scan_arg m (p + 1) else Some p)"

partial_function (option) split_loop :: "bmem \<Rightarrow> nat \<Rightarrow> nat list \<Rightarrow> (bmem \<times> nat list option) option" where
  "split_loop m p argv = (case gobble m p of None \<Rightarrow> None
     | Some (m, p) \<Rightarrow>
       if m p = 0 then Some (m, Some argv)
       else if length argv = MAXARGS_mon - 1 then Some (m, None)
       else (case scan_arg m p of None \<Rightarrow> None
         | Some q \<Rightarrow> split_loop m q (argv @ [p])))"

fun find_command :: "bmem \<Rightarrow> nat \<Rightarrow> nat list \<Rightarrow> nat \<Rightarrow> nat option option" where
  "find_command m a [] i = Some None"
| "find_command m a (c # cs) i = (case strcmp m a c of None \<Rightarrow> None
     | Some r \<Rightarrow> if r = 0 then Some (Some i) else find_command m a cs (i + 1))"

text \<open>The names of the commands are strings in memory; a command is called by its index.\<close>

datatype mon_call = Empty_line | Too_many | Call nat "nat list" | Unknown_command nat

definition mon_runcmd :: "nat list \<Rightarrow> bmem \<Rightarrow> nat \<Rightarrow> (bmem \<times> mon_call) option" where
  "mon_runcmd commands m buf = (case split_loop m buf [] of None \<Rightarrow> None
     | Some (m, None) \<Rightarrow> Some (m, Too_many)
     | Some (m, Some argv) \<Rightarrow>
       if argv = [] then Some (m, Empty_line)
       else map_option (\<lambda>r. (m, case r of None \<Rightarrow> Unknown_command (hd argv) | Some i \<Rightarrow> Call i argv))
              (find_command m (hd argv) commands 0))"

definition mon_round :: "nat list \<Rightarrow> int list \<Rightarrow> bmem \<Rightarrow> ((bmem \<times> mon_call) \<times> int list) option" where
  "mon_round commands keys m = (case readline keys m of
     Some (Some m, out, rest) \<Rightarrow> map_option (\<lambda>r. (r, rest)) (mon_runcmd commands m 0)
   | _ \<Rightarrow> None)"

text \<open>The words of a line.\<close>

function words :: "u8 list \<Rightarrow> u8 list list" where
  "words xs = (let ys = dropWhile is_white xs in
     if ys = [] then [] else takeWhile (\<lambda>c. \<not> is_white c) ys # words (dropWhile (\<lambda>c. \<not> is_white c) ys))"
  by pat_completeness auto
termination
proof (relation "measure length", goal_cases)
  case (2 xs ys)
  then have "ys \<noteq> []" "\<not> is_white (hd ys)" using hd_dropWhile [of is_white xs] by simp_all
  then have "length (dropWhile (\<lambda>c. \<not> is_white c) ys) < length ys"
    by (cases ys) (simp_all add: le_imp_less_Suc length_dropWhile_le)
  also have "\<dots> \<le> length xs" using 2 by (simp add: length_dropWhile_le)
  finally show ?case by simp
qed simp

declare words.simps [simp del]

lemma gobble_run:
  "cstr m p xs \<Longrightarrow> \<exists>m'. gobble m p = Some (m', p + length (takeWhile is_white xs))
    \<and> cstr m' (p + length (takeWhile is_white xs)) (dropWhile is_white xs)
    \<and> (\<forall>a. a < p \<or> p + length (takeWhile is_white xs) \<le> a \<longrightarrow> m' a = m a)
    \<and> (\<forall>a. p \<le> a \<and> a < p + length (takeWhile is_white xs) \<longrightarrow> m' a = 0)"
proof (induction xs arbitrary: m p)
  case Nil
  then show ?case by (subst gobble.simps) (auto simp: cstr_Nil)
next
  case (Cons x xs)
  show ?case
  proof (cases "is_white x")
    case True
    from Cons.prems have x: "m p = x" "x \<noteq> 0" "cstr m (p + 1) xs" by (simp_all add: cstr_Cons)
    then have "cstr (m(p := 0)) (p + 1) xs" by (auto elim: cstr_cong)
    from Cons.IH [OF this] obtain m' where m': "gobble (m(p := 0)) (p + 1) = Some (m', p + 1 + length (takeWhile is_white xs))"
      "cstr m' (p + 1 + length (takeWhile is_white xs)) (dropWhile is_white xs)"
      "\<forall>a. a < p + 1 \<or> p + 1 + length (takeWhile is_white xs) \<le> a \<longrightarrow> m' a = (m(p := 0)) a"
      "\<forall>a. p + 1 \<le> a \<and> a < p + 1 + length (takeWhile is_white xs) \<longrightarrow> m' a = 0" by blast
    have "m' a = 0" if "p \<le> a" "a < p + 1 + length (takeWhile is_white xs)" for a
      using m'(3,4) that by (cases "a = p") auto
    moreover have "gobble m p = gobble (m(p := 0)) (p + 1)" using x True by (subst gobble.simps) simp
    ultimately show ?thesis using m' True by (intro exI [of _ m']) auto
  next
    case False
    with Cons.prems have "gobble m p = Some (m, p)" by (subst gobble.simps) (simp add: cstr_Cons)
    with False Cons.prems show ?thesis by auto
  qed
qed

lemma scan_arg_run:
  "cstr m p xs \<Longrightarrow> scan_arg m p = Some (p + length (takeWhile (\<lambda>c. \<not> is_white c) xs))"
proof (induction xs arbitrary: p)
  case Nil
  then show ?case by (subst scan_arg.simps) (simp add: cstr_Nil)
next
  case (Cons x xs)
  then show ?case by (subst scan_arg.simps) (auto simp: cstr_Cons)
qed

lemma cstr_append: "cstr m p (xs @ ys) \<Longrightarrow> cstr m (p + length xs) ys"
proof (induction xs arbitrary: p)
  case (Cons x xs)
  then have "cstr m (p + 1) (xs @ ys)" by (simp add: cstr_Cons)
  from Cons.IH [OF this] show ?case by simp
qed simp

lemma cstr_cut:
  "cstr m p (xs @ ys) \<Longrightarrow> (\<And>i. i < length xs \<Longrightarrow> m' (p + i) = m (p + i)) \<Longrightarrow> m' (p + length xs) = 0 \<Longrightarrow> cstr m' p xs"
  by (auto simp: cstr_def nth_append split: if_splits)

lemma cstr_head: "cstr m p xs \<Longrightarrow> m p = (if xs = [] then 0 else hd xs)"
  by (cases xs) (simp_all add: cstr_Nil cstr_Cons)

lemma words_blank: "dropWhile is_white xs = [] \<Longrightarrow> words xs = []"
  by (subst words.simps) simp

lemma words_step:
  "dropWhile is_white xs = ys \<Longrightarrow> ys \<noteq> [] \<Longrightarrow>
    words xs = takeWhile (\<lambda>c. \<not> is_white c) ys # words (dropWhile (\<lambda>c. \<not> is_white c) ys)"
  by (subst words.simps) simp

lemma split_loop_run:
  assumes "cstr m p xs" and "length argv + length (words xs) \<le> 15"
  shows "\<exists>m' as. split_loop m p argv = Some (m', Some (argv @ as)) \<and> list_all2 (\<lambda>a w. cstr m' a w) as (words xs)
    \<and> (\<forall>a. a < p \<or> p + length xs < a \<longrightarrow> m' a = m a)
    \<and> (is_white (m p) \<or> m p = 0 \<longrightarrow> m' p = 0)"
  using assms
proof (induction xs arbitrary: m p argv rule: words.induct)
  case (1 xs)
  let ?k = "length (takeWhile is_white xs)" and ?ys = "dropWhile is_white xs"
  obtain m1 where m1: "gobble m p = Some (m1, p + ?k)" "cstr m1 (p + ?k) ?ys"
    "\<And>a. a < p \<or> p + ?k \<le> a \<Longrightarrow> m1 a = m a" "\<And>a. p \<le> a \<Longrightarrow> a < p + ?k \<Longrightarrow> m1 a = 0"
    using gobble_run [OF 1(2)] by blast
  have z: "m1 p = 0" if "is_white (m p) \<or> m p = 0"
  proof (cases "?k = 0")
    case True
    then have "xs = [] \<or> \<not> is_white (hd xs)" by (cases xs) auto
    with that cstr_head [OF 1(2)] have "m p = 0" by (auto split: if_splits simp: is_white_def)
    with m1(3) [of p] True show ?thesis by simp
  qed (use m1(4) [of p] in simp)
  have len: "length xs = ?k + length ?ys"
    by (metis length_append takeWhile_dropWhile_id)
  show ?case
  proof (cases "?ys = []")
    case True
    have "m1 (p + ?k) = 0" using m1(2) unfolding True cstr_Nil .
    then have "split_loop m p argv = Some (m1, Some argv)"
      by (subst split_loop.simps) (simp add: m1(1))
    with True m1(3) z len show ?thesis
      by (intro exI [of _ m1] exI [of _ "[]"]) (simp add: words_blank)
  next
    case False
    let ?w = "takeWhile (\<lambda>c. \<not> is_white c) ?ys" and ?zs = "dropWhile (\<lambda>c. \<not> is_white c) ?ys"
    let ?q = "p + ?k + length ?w"
    have ws: "words xs = ?w # words ?zs" by (rule words_step [OF refl False])
    have len2: "length ?ys = length ?w + length ?zs" by (metis length_append takeWhile_dropWhile_id)
    have zs: "cstr m1 ?q ?zs" using cstr_append [of m1 "p + ?k" ?w ?zs] m1(2) by simp
    from 1(1) [OF refl False zs, of "argv @ [p + ?k]"] 1(3) ws obtain m' as where
      m': "split_loop m1 ?q (argv @ [p + ?k]) = Some (m', Some (argv @ (p + ?k) # as))"
      "list_all2 (\<lambda>a w. cstr m' a w) as (words ?zs)"
      "\<forall>a. a < ?q \<or> ?q + length ?zs < a \<longrightarrow> m' a = m1 a"
      "is_white (m1 ?q) \<or> m1 ?q = 0 \<longrightarrow> m' ?q = 0" by auto
    have "m1 (p + ?k) \<noteq> 0" using m1(2) False by (cases ?ys) (auto simp: cstr_Cons)
    then have run: "split_loop m p argv = split_loop m1 ?q (argv @ [p + ?k])"
      using 1(3) ws scan_arg_run [OF m1(2)] by (subst split_loop.simps) (simp add: m1(1) MAXARGS_mon_def)
    have "m1 ?q = 0 \<or> is_white (m1 ?q)"
      using cstr_head [OF zs] hd_dropWhile [of "\<lambda>c. \<not> is_white c" ?ys] by (auto split: if_splits)
    with m'(4) have "m' ?q = 0" by blast
    have "?w \<noteq> []" using False hd_dropWhile [OF False] by (cases ?ys) auto
    then have q: "p + ?k < ?q" by simp
    have w: "cstr m' (p + ?k) ?w"
      by (rule cstr_cut [of m1 _ _ ?zs]) (use m1(2) m'(3) \<open>m' ?q = 0\<close> in simp_all)
    have "m' a = m a" if "a < p \<or> p + length xs < a" for a
    proof -
      from that q len len2 have "a < ?q \<or> ?q + length ?zs < a" "a < p \<or> p + ?k \<le> a" by linarith+
      with m'(3) m1(3) show ?thesis by metis
    qed
    moreover have "m' p = 0" if "is_white (m p) \<or> m p = 0"
      using z [OF that] m'(3) q by simp
    ultimately show ?thesis
      using run m'(1,2) w ws by (intro exI [of _ m'] exI [of _ "(p + ?k) # as"]) simp
  qed
qed

lemma split_loop_full:
  assumes "cstr m p xs" and "15 < length argv + length (words xs)" and "length argv \<le> 15"
  shows "\<exists>m'. split_loop m p argv = Some (m', None)"
  using assms
proof (induction xs arbitrary: m p argv rule: words.induct)
  case (1 xs)
  let ?k = "length (takeWhile is_white xs)" and ?ys = "dropWhile is_white xs"
  obtain m1 where m1: "gobble m p = Some (m1, p + ?k)" "cstr m1 (p + ?k) ?ys"
    using gobble_run [OF 1(2)] by blast
  have ys: "?ys \<noteq> []"
  proof
    assume "?ys = []"
    from words_blank [OF this] 1(3,4) show False by simp
  qed
  let ?w = "takeWhile (\<lambda>c. \<not> is_white c) ?ys" and ?zs = "dropWhile (\<lambda>c. \<not> is_white c) ?ys"
  have ne: "m1 (p + ?k) \<noteq> 0" using m1(2) ys by (cases ?ys) (auto simp: cstr_Cons)
  show ?case
  proof (cases "length argv = 15")
    case True
    with ne show ?thesis by (subst split_loop.simps) (simp add: m1(1) MAXARGS_mon_def)
  next
    case False
    have "cstr m1 (p + ?k + length ?w) ?zs" using cstr_append [of m1 "p + ?k" ?w ?zs] m1(2) by simp
    from 1(1) [OF refl ys this, of "argv @ [p + ?k]"] 1(3,4) False words_step [OF refl ys]
    obtain m' where "split_loop m1 (p + ?k + length ?w) (argv @ [p + ?k]) = Some (m', None)" by auto
    then show ?thesis using ne False scan_arg_run [OF m1(2)]
      by (subst split_loop.simps) (simp add: m1(1) MAXARGS_mon_def)
  qed
qed

lemma find_command_run:
  "list_all2 (cstr m) cs names \<Longrightarrow> cstr m a w \<Longrightarrow>
    find_command m a cs i = Some (if w \<in> set names then Some (i + length (takeWhile (\<lambda>n. n \<noteq> w) names)) else None)"
proof (induction cs arbitrary: names i)
  case (Cons c cs)
  then obtain n ns where ns: "names = n # ns" "cstr m c n" "list_all2 (cstr m) cs ns"
    by (auto simp: list_all2_Cons1)
  from strcmp_zero [OF Cons.prems(2) ns(2)] obtain r where "strcmp m a c = Some r" "r = 0 \<longleftrightarrow> w = n" by blast
  with Cons.IH [OF ns(3) Cons.prems(2), of "i + 1"] ns(1) show ?case by auto
qed simp

lemma edited_line:
  assumes "list_all plain_key keys" and "nl = 10 \<or> nl = 13"
  shows "\<exists>m' out. readline (keys @ nl # rest) m = Some (Some m', out @ [Put 10], rest)
    \<and> cstr m' 0 (line_bytes (foldl screen_key [] out)) \<and> foldl screen_key [] out = foldl edit_key [] keys
    \<and> length (foldl edit_key [] keys) \<le> 1023 \<and> (\<forall>a > 1023. m' a = m a)"
proof -
  have "holds_line m []" by (simp add: holds_line_def)
  from readline_loop_edits [OF this assms, of rest "[]"] obtain buf' out' where
    "readline_loop True (keys @ nl # rest) 0 m [] = Some (Some buf', out' @ [Put 10], rest)"
    "holds_line buf' (foldl edit_key [] keys)" "buf' (length (foldl edit_key [] keys)) = 0"
    "foldl screen_key [] out' = foldl edit_key [] keys" "\<forall>a > 1023. buf' a = m a" by auto
  moreover from holds_line_cstr [OF this(2,3)] this(4)
  have "cstr buf' 0 (line_bytes (foldl screen_key [] out'))" by simp
  moreover from calculation(2) have "length (foldl edit_key [] keys) \<le> 1023" by (simp add: holds_line_def)
  ultimately show ?thesis unfolding readline_def by blast
qed

section \<open>Properties\<close>

text \<open>
  Whatever keys are pressed before the end of a line, the edited line (backspace and delete take
  back one character) fits the buffer, and the screen shows exactly it.
\<close>

theorem readline_echoes:
  assumes "list_all plain_key keys" and "nl = 10 \<or> nl = 13"
  shows "\<exists>m' out. readline (keys @ nl # rest) m = Some (Some m', out @ [Put 10], rest)
    \<and> cstr m' 0 (line_bytes (foldl screen_key [] out)) \<and> foldl screen_key [] out = foldl edit_key [] keys
    \<and> length (foldl edit_key [] keys) \<le> 1023 \<and> (\<forall>a > 1023. m' a = m a)"
  by (rule edited_line [OF assms])

text \<open>
  The monitor calls the command whose name is the first word of the edited line, with the words of
  the line as its arguments, each a null-terminated string in the line buffer. More than fifteen
  words are refused, a blank line does nothing.
\<close>

theorem monitor_calls:
  assumes "list_all plain_key keys" and "nl = 10 \<or> nl = 13"
    and "list_all2 (cstr m) commands names" and "\<forall>c \<in> set commands. 1024 \<le> c"
    and "ws = words (line_bytes (foldl edit_key [] keys))"
  shows "\<exists>m' call. mon_round commands (keys @ nl # rest) m = Some ((m', call), rest)
    \<and> (if ws = [] then call = Empty_line else if 15 < length ws then call = Too_many
       else \<exists>argv. list_all2 (cstr m') argv ws
         \<and> call = (if hd ws \<in> set names then Call (length (takeWhile (\<lambda>n. n \<noteq> hd ws) names)) argv
                   else Unknown_command (hd argv)))"
proof -
  obtain m1 out where m1: "readline (keys @ nl # rest) m = Some (Some m1, out, rest)"
    "cstr m1 0 (line_bytes (foldl edit_key [] keys))" "length (foldl edit_key [] keys) \<le> 1023"
    "\<forall>a > 1023. m1 a = m a"
    using edited_line [OF assms(1,2), of rest m] by fastforce
  show ?thesis
  proof (cases "15 < length ws")
    case True
    with split_loop_full [OF m1(2), of "[]"] assms(5) obtain m' where "split_loop m1 0 [] = Some (m', None)" by auto
    with True m1(1) show ?thesis by (auto simp: mon_round_def mon_runcmd_def)
  next
    case False
    with split_loop_run [OF m1(2), of "[]"] assms(5) obtain m' as where m':
      "split_loop m1 0 [] = Some (m', Some as)" "list_all2 (cstr m') as ws"
      "\<And>a. length (line_bytes (foldl edit_key [] keys)) < a \<Longrightarrow> m' a = m1 a" by auto
    have same: "m' a = m a" if "1024 \<le> a" for a
      using m'(3) m1(3,4) that by (simp add: line_bytes_def)
    have "cstr m' c n" if "cstr m c n" "1024 \<le> c" for c n
      by (intro cstr_cong [OF that(1)]) (use that(2) in \<open>simp add: same\<close>)
    with assms(3,4) have "list_all2 (cstr m') commands names" by (auto simp: list_all2_conv_all_nth)
    from find_command_run [OF this] m' m1(1) False show ?thesis
      by (cases as; cases ws) (auto simp: mon_round_def mon_runcmd_def intro!: exI [of _ as])
  qed
qed

text \<open>A delete on an empty line is not a deletion: the character 127 is put into the line.\<close>

lemma delete_on_empty_line:
  "readline [0x7f, 10] m = Some (Some (m(0 := 0x7f, 1 := 0)), [Put 0x7f, Put 10], [])"
  by (simp add: readline_def BUFLEN_rl_def)

text \<open>The keys \<open>" hlp"\<close>, two deletions, \<open>"elp me"\<close>, and a memory with the name \<open>"help"\<close> at 2000.\<close>

definition ex_keys :: "int list" where
  "ex_keys = [32, 104, 108, 112, 8, 127, 101, 108, 112, 32, 109, 101]"

definition name_mem :: bmem where
  "name_mem = (\<lambda>a. if 2000 \<le> a \<and> a < 2004 then [104, 101, 108, 112] ! (a - 2000) else 0)"

lemma ex_keys_plain: "list_all plain_key ex_keys"
  by code_simp

lemma ex_keys_line: "foldl edit_key [] ex_keys = [32, 104, 101, 108, 112, 32, 109, 101]"
  by code_simp

lemma ex_keys_words: "words (line_bytes (foldl edit_key [] ex_keys)) = [[104, 101, 108, 112], [109, 101]]"
  unfolding ex_keys_line by code_simp

lemma name_mem_help: "cstr name_mem 2000 [104, 101, 108, 112]"
  by (simp add: cstr_Cons cstr_Nil name_mem_def)

theorem readline_echoes_witness:
  "\<exists>m' out. readline (ex_keys @ 13 # [65]) name_mem = Some (Some m', out @ [Put 10], [65])
    \<and> foldl screen_key [] out = [32, 104, 101, 108, 112, 32, 109, 101] \<and> m' 2000 = 104"
proof -
  have "m' 2000 = 104" if "\<forall>a > 1023. m' a = name_mem a" for m'
    using that by (simp add: name_mem_def)
  with readline_echoes [OF ex_keys_plain, of 13 "[65]" name_mem] ex_keys_line show ?thesis by fastforce
qed

theorem monitor_calls_witness:
  "\<exists>m' argv. mon_round [2000] (ex_keys @ 10 # []) name_mem = Some ((m', Call 0 argv), [])
    \<and> list_all2 (cstr m') argv [[104, 101, 108, 112], [109, 101]]"
  using monitor_calls [OF ex_keys_plain, of 10 name_mem "[2000]" "[[104, 101, 108, 112]]" _ "[]"] name_mem_help
  by (auto simp: ex_keys_words)

end
