(* ===== verification/Jos_Spawn.thy ===== *)
theory Jos_Spawn
  imports Jos_Fork Jos_String
begin

text \<open>
  Starting a program from a file: \<^verbatim>\<open>tps/lib/spawn.c\<close>, over the view of the machine of \<open>Jos_Fork\<close>. The
  program file is known by what \<open>seek\<close> and \<open>readn\<close> answer. \<open>spawn\<close> prepares the child and then panics,
  because the kernel does not serve \<open>sys_env_set_trapframe\<close>.
\<close>

section \<open>Writing through a mapping\<close>

definition ustore8 :: "nat \<Rightarrow> u32 \<Rightarrow> u8 \<Rightarrow> unit uM" where
  "ustore8 e va b = store_byte e (unat va div 4096) (unat va mod 4096) b"

definition ustores :: "nat \<Rightarrow> u32 \<Rightarrow> u8 list \<Rightarrow> unit uM" where
  "ustores e va bs = ufor [0..<length bs] (\<lambda>k. ustore8 e (va + of_nat k) (bs ! k))"

definition word_bytes :: "u32 \<Rightarrow> u8 list" where
  "word_bytes w = [ucast w, ucast (drop_bit 8 w), ucast (drop_bit 16 w), ucast (drop_bit 24 w)]"

definition ustore32 :: "nat \<Rightarrow> u32 \<Rightarrow> u32 \<Rightarrow> unit uM" where
  "ustore32 e va w = ustores e va (word_bytes w)"

text \<open>The memory of an environment, as it reads it.\<close>

definition umem :: "umachine \<Rightarrow> nat \<Rightarrow> bmem" where
  "umem s e a = (case space s e (a div 4096) of Some (f, p) \<Rightarrow> page s f (a mod 4096) | None \<Rightarrow> 0)"

definition put_at :: "nat \<Rightarrow> u8 list \<Rightarrow> bmem \<Rightarrow> bmem" where
  "put_at off bs g = (\<lambda>x. if off \<le> x \<and> x < off + length bs then bs ! (x - off) else g x)"

lemma put_at_Nil [simp]: "put_at off [] g = g"
  by (rule ext) (auto simp: put_at_def)

lemma put_at_out: "x < off \<or> off + length bs \<le> x \<Longrightarrow> put_at off bs g x = g x"
  by (auto simp: put_at_def)

lemma put_at_in: "k < length bs \<Longrightarrow> put_at off bs g (off + k) = bs ! k"
  by (simp add: put_at_def)

lemma put_at_append: "put_at (off + length bs) cs (put_at off bs g) = put_at off (bs @ cs) g"
  by (auto simp: put_at_def nth_append fun_eq_iff)

lemma put_at_word: "put_at off (word_bytes w) g = store32 off w g"
proof
  fix x
  consider "x = off" | "x = off + 1" | "x = off + 2" | "x = off + 3" | "x < off \<or> off + 4 \<le> x" by linarith
  then show "put_at off (word_bytes w) g x = store32 off w g x"
    by cases (auto simp: put_at_def store32_def word_bytes_def)
qed

lemma length_word_bytes [simp]: "length (word_bytes w) = 4"
  by (simp add: word_bytes_def)

definition set_page :: "nat \<Rightarrow> bmem \<Rightarrow> umachine \<Rightarrow> umachine" where
  "set_page f g s = s\<lparr>page := (page s)(f := g)\<rparr>"

lemma set_page_simps [simp]:
  "page (set_page f g s) f = g" "space (set_page f g s) = space s" "set_page f h (set_page f g s) = set_page f h s"
  "has_table (set_page f g s) = has_table s" "next_page (set_page f g s) = next_page s"
  "next_env (set_page f g s) = next_env s" "free_pages (set_page f g s) = free_pages s"
  "status (set_page f g s) = status s" "refs (set_page f g s) = refs s"
  "set_page f (page s f) s = s"
  by (simp_all add: set_page_def)

lemma ustore8_run:
  assumes "space s e pn = Some (f, p)" and "p AND PTE_W \<noteq> 0" and "unat va = pn * 4096 + off" and "off < 4096"
  shows "ustore8 e va b s = Some ((), set_page f ((page s f)(off := b)) s)"
  using assms by (simp add: ustore8_def store_byte_def set_page_def)

lemma ustores_run:
  assumes "space s e pn = Some (f, p)" and "p AND PTE_W \<noteq> 0" and "unat va = pn * 4096 + off"
    and "off + length bs \<le> 4096" and "pn < 2 ^ 20"
  shows "ustores e va bs s = Some ((), set_page f (put_at off bs (page s f)) s)"
proof -
  have "ufor [0..<k] (\<lambda>k. ustore8 e (va + of_nat k) (bs ! k)) s =
    Some ((), set_page f (put_at off (take k bs) (page s f)) s)" if "k \<le> length bs" for k
    using that
  proof (induction k)
    case 0
    then show ?case by simp
  next
    case (Suc k)
    let ?s = "set_page f (put_at off (take k bs) (page s f)) s"
    have va: "unat (va + of_nat k) = pn * 4096 + (off + k)" "off + k < 4096"
      using Suc.prems assms(3-5) by (simp_all add: unat_word_ariths unat_of_nat)
    have g: "put_at off (take (Suc k) bs) g = (put_at off (take k bs) g)(off + k := bs ! k)" for g
      using Suc.prems by (auto simp: put_at_def fun_eq_iff take_Suc_conv_app_nth nth_append less_Suc_eq)
    have "ufor [0..<Suc k] (\<lambda>k. ustore8 e (va + of_nat k) (bs ! k)) s = ustore8 e (va + of_nat k) (bs ! k) ?s"
      using Suc by (simp add: ufor_append ubind_def ureturn_def split: option.split)
    also have "\<dots> = Some ((), set_page f ((page ?s f)(off + k := bs ! k)) ?s)"
      by (rule ustore8_run [OF _ assms(2) va]) (simp add: assms(1))
    finally show ?case by (simp only: g set_page_simps)
  qed
  from this [of "length bs"] show ?thesis by (simp add: ustores_def)
qed

section \<open>The initial stack\<close>

definition UTEMP2USTACK :: "u32 \<Rightarrow> u32" where
  "UTEMP2USTACK addr = addr + (USTACKTOP - PGSIZE) - UTEMP"

definition utemp_page :: nat where "utemp_page = 1024"
definition ustack_page :: nat where "ustack_page = 977917"

lemma temp_pages: "unat UTEMP = utemp_page * 4096" "unat (USTACKTOP - PGSIZE) = ustack_page * 4096"
  by (simp_all add: mmu_consts utemp_page_def ustack_page_def)

text \<open>
  The space for the strings, in the 32 bits of \<open>size_t\<close>; the end of the argument array; the loop
  that stores the pointers and copies the strings.
\<close>

definition args_size :: "u8 list list \<Rightarrow> u32" where
  "args_size argv = sum_list (map (\<lambda>xs. of_nat (length xs) + 1) argv)"

definition argv_start :: "u32 \<Rightarrow> nat \<Rightarrow> u32" where
  "argv_start string_store argc = ROUNDDOWN string_store 4 - 4 * (of_nat argc + 1)"

fun store_args :: "nat \<Rightarrow> u8 list list \<Rightarrow> u32 \<Rightarrow> u32 \<Rightarrow> u32 uM" where
  "store_args e [] slot string_store = ureturn string_store"
| "store_args e (xs # xss) slot string_store =
     ubind (ustore32 e slot (UTEMP2USTACK string_store)) (\<lambda>_.
     ubind (ustores e string_store (xs @ [0])) (\<lambda>_.
       store_args e xss (slot + 4) (string_store + of_nat (length xs) + 1)))"

definition init_stack :: "nat \<Rightarrow> nat \<Rightarrow> u8 list list \<Rightarrow> (int \<times> u32) uM" where
  "init_stack e child argv =
    (let string_store = UTEMP + PGSIZE - args_size argv;
         argc = length argv;
         argv_store = argv_start string_store argc
     in if argv_store - 8 < UTEMP then ureturn (- E_NO_MEM, 0)
        else
          ubind (u_page_alloc e utemp_page (PTE_P OR PTE_U OR PTE_W)) (\<lambda>r.
          if r < 0 then ureturn (r, 0)
          else
            ubind (store_args e argv argv_store string_store) (\<lambda>string_store.
            ubind (ustore32 e (argv_store + 4 * of_nat argc) 0) (\<lambda>_.
            if string_store \<noteq> UTEMP + PGSIZE then upanic
            else
              ubind (ustore32 e (argv_store - 4) (UTEMP2USTACK argv_store)) (\<lambda>_.
              ubind (ustore32 e (argv_store - 8) (of_nat argc)) (\<lambda>_.
              ubind (u_page_map e utemp_page child ustack_page (PTE_P OR PTE_U OR PTE_W)) (\<lambda>r.
              if r < 0 then ubind (u_page_unmap e utemp_page) (\<lambda>_. ureturn (r, 0))
              else
                ubind (u_page_unmap e utemp_page) (\<lambda>r.
                if r < 0 then ubind (u_page_unmap e utemp_page) (\<lambda>_. ureturn (r, 0))
                else ureturn (0, UTEMP2USTACK (argv_store - 8))))))))))"

text \<open>The same as a function on the bytes of the page, with offsets into it.\<close>

fun lay_args :: "u8 list list \<Rightarrow> nat \<Rightarrow> nat \<Rightarrow> bmem \<Rightarrow> bmem" where
  "lay_args [] slot off g = g"
| "lay_args (xs # xss) slot off g =
     lay_args xss (slot + 4) (off + length xs + 1)
       (put_at off (xs @ [0]) (store32 slot (UTEMP2USTACK (UTEMP + of_nat off)) g))"

definition size_of :: "u8 list list \<Rightarrow> nat" where
  "size_of xss = sum_list (map (\<lambda>xs. length xs + 1) xss)"

lemma size_of_simps [simp]: "size_of [] = 0" "size_of (xs # xss) = length xs + 1 + size_of xss"
  by (simp_all add: size_of_def)

lemma args_size_of: "args_size xss = of_nat (size_of xss)"
  by (induction xss) (simp_all add: args_size_def)

lemma store_args_run:
  assumes "space s e utemp_page = Some (f, p)" and "p AND PTE_W \<noteq> 0"
    and "slot + 4 * length xss \<le> off" and "off + size_of xss \<le> 4096"
  shows "store_args e xss (UTEMP + of_nat slot) (UTEMP + of_nat off) s =
    Some (UTEMP + of_nat (off + size_of xss), set_page f (lay_args xss slot off (page s f)) s)"
  using assms
proof (induction xss arbitrary: slot off s)
  case (Cons xs xss)
  have n: "unat (UTEMP + of_nat k) = utemp_page * 4096 + k" if "k < 4096" for k
    using that by (simp add: temp_pages(1)[symmetric] unat_word_ariths unat_of_nat mmu_consts)
  let ?g1 = "put_at slot (word_bytes (UTEMP2USTACK (UTEMP + of_nat off))) (page s f)"
  let ?g2 = "put_at off (xs @ [0]) ?g1"
  have s1: "ustore32 e (UTEMP + of_nat slot) (UTEMP2USTACK (UTEMP + of_nat off)) s = Some ((), set_page f ?g1 s)"
    unfolding ustore32_def using Cons.prems by (intro ustores_run) (auto simp: n utemp_page_def)
  have s2: "ustores e (UTEMP + of_nat off) (xs @ [0]) (set_page f ?g1 s) = Some ((), set_page f ?g2 s)"
    using ustores_run [of "set_page f ?g1 s" e utemp_page f p "UTEMP + of_nat off" off "xs @ [0]"] Cons.prems
    by (simp add: n utemp_page_def)
  have "store_args e xss (UTEMP + of_nat (slot + 4)) (UTEMP + of_nat (off + length xs + 1)) (set_page f ?g2 s) =
    Some (UTEMP + of_nat (off + length xs + 1 + size_of xss), set_page f (lay_args xss (slot + 4) (off + length xs + 1) ?g2) s)"
    using Cons.IH [of "set_page f ?g2 s" "slot + 4" "off + length xs + 1"] Cons.prems by simp
  then show ?case using s1 s2 by (simp add: put_at_word add_ac)
qed simp

lemma lay_args_out:
  "slot + 4 * length xss \<le> off \<Longrightarrow> x < slot \<or> slot + 4 * length xss \<le> x \<and> x < off \<or> off + size_of xss \<le> x \<Longrightarrow>
    lay_args xss slot off g x = g x"
proof (induction xss arbitrary: slot off g)
  case (Cons xs xss)
  then have "lay_args xss (slot + 4) (off + length xs + 1) g' x = g' x" for g' by auto
  moreover from Cons.prems have "x < off \<or> off + length (xs @ [0]) \<le> x" "x < slot \<or> slot + 4 \<le> x" by auto
  ultimately show ?case by (simp add: put_at_out store32_away)
qed simp

text \<open>The string of argument \<open>i\<close> starts here.\<close>

definition arg_off :: "u8 list list \<Rightarrow> nat \<Rightarrow> nat \<Rightarrow> nat" where
  "arg_off xss off i = off + size_of (take i xss)"

lemma lay_args_in:
  assumes "slot + 4 * length xss \<le> off" and "i < length xss"
  shows "load32 (lay_args xss slot off g) (slot + 4 * i) = UTEMP2USTACK (UTEMP + of_nat (arg_off xss off i))
    \<and> (\<forall>k \<le> length (xss ! i). lay_args xss slot off g (arg_off xss off i + k) = (xss ! i @ [0]) ! k)"
  using assms
proof (induction xss arbitrary: slot off g i)
  case (Cons xs xss)
  let ?g = "put_at off (xs @ [0]) (store32 slot (UTEMP2USTACK (UTEMP + of_nat off)) g)"
  show ?case
  proof (cases i)
    case 0
    have out: "lay_args xss (slot + 4) (off + length xs + 1) ?g x = ?g x" if "x < slot + 4 \<or> off \<le> x \<and> x < off + length xs + 1" for x
      using that Cons.prems(1) by (intro lay_args_out) auto
    have "load32 (lay_args xss (slot + 4) (off + length xs + 1) ?g) slot = load32 ?g slot"
      by (rule load32_cong, rule out) simp
    also have "\<dots> = load32 (store32 slot (UTEMP2USTACK (UTEMP + of_nat off)) g) slot"
      by (rule load32_cong) (use Cons.prems(1) in \<open>simp add: put_at_out\<close>)
    finally show ?thesis using 0 out by (simp add: arg_off_def put_at_in)
  next
    case (Suc j)
    with Cons.IH [of "slot + 4" "off + length xs + 1" j ?g] Cons.prems show ?thesis
      by (simp add: arg_off_def add_ac)
  qed
qed simp

definition fits :: "u8 list list \<Rightarrow> bool" where
  "fits argv \<longleftrightarrow> size_of argv \<le> 4096 \<and> 12 + 4 * length argv \<le> (4096 - size_of argv) div 4 * 4"

definition argv_off :: "u8 list list \<Rightarrow> nat" where
  "argv_off argv = (4096 - size_of argv) div 4 * 4 - 4 * (length argv + 1)"

lemma fits_off:
  assumes "fits argv"
  shows "8 \<le> argv_off argv" "argv_off argv + 4 * (length argv + 1) \<le> 4096 - size_of argv" "argv_off argv mod 4 = 0"
    "4096 - size_of argv + size_of argv = 4096"
    "argv_off argv + 4 * (length argv + 1) = (4096 - size_of argv) div 4 * 4"
proof -
  from assms show "8 \<le> argv_off argv" "4096 - size_of argv + size_of argv = 4096" by (auto simp: fits_def argv_off_def)
  show e: "argv_off argv + 4 * (length argv + 1) = (4096 - size_of argv) div 4 * 4"
    using assms by (simp add: fits_def argv_off_def)
  show "argv_off argv + 4 * (length argv + 1) \<le> 4096 - size_of argv" unfolding e by simp
  have "(4096 - size_of argv) div 4 * 4 - 4 * (length argv + 1) = ((4096 - size_of argv) div 4 - (length argv + 1)) * 4"
    by (simp add: diff_mult_distrib)
  then show "argv_off argv mod 4 = 0" by (simp add: argv_off_def)
qed

lemma utemp_unat: "k \<le> 4096 \<Longrightarrow> unat (UTEMP + of_nat k) = utemp_page * 4096 + k"
  by (simp add: temp_pages(1)[symmetric] unat_word_ariths unat_of_nat mmu_consts)

lemma ROUNDDOWN_utemp: "off \<le> 4096 \<Longrightarrow> ROUNDDOWN (UTEMP + of_nat off) 4 = UTEMP + of_nat (off div 4 * 4)"
proof -
  assume off: "off \<le> 4096"
  have "unat (ROUNDDOWN (UTEMP + of_nat off) 4) = (utemp_page * 4096 + off) div 4 * 4"
    by (simp add: unat_ROUNDDOWN utemp_unat [OF off])
  also have "\<dots> = utemp_page * 4096 + off div 4 * 4"
    unfolding utemp_page_def by presburger
  also have "\<dots> = unat (UTEMP + of_nat (off div 4 * 4))" using off by (intro utemp_unat [symmetric]) simp
  finally show ?thesis by (simp only: word_unat_eq_iff)
qed

lemma argv_start_off:
  assumes "fits argv"
  shows "UTEMP + PGSIZE - args_size argv = UTEMP + of_nat (4096 - size_of argv)"
    and "argv_start (UTEMP + PGSIZE - args_size argv) (length argv) = UTEMP + of_nat (argv_off argv)"
proof -
  have "PGSIZE = of_nat 4096" by (simp add: mmu_consts)
  also have "\<dots> = of_nat (4096 - size_of argv) + (of_nat (size_of argv) :: u32)"
    by (metis fits_off(4) [OF assms] of_nat_add)
  finally have "PGSIZE - args_size argv = of_nat (4096 - size_of argv)" by (simp only: args_size_of diff_eq_eq)
  then show a: "UTEMP + PGSIZE - args_size argv = UTEMP + of_nat (4096 - size_of argv)"
    by (simp only: add_diff_eq [symmetric])
  have "(of_nat ((4096 - size_of argv) div 4 * 4) :: u32) = of_nat (argv_off argv) + of_nat (4 * (length argv + 1))"
    by (metis fits_off(5) [OF assms] of_nat_add)
  then show "argv_start (UTEMP + PGSIZE - args_size argv) (length argv) = UTEMP + of_nat (argv_off argv)"
    unfolding a argv_start_def by (simp add: ROUNDDOWN_utemp)
qed

lemma UTEMP2USTACK_off:
  assumes "k < 4096"
  shows "unat (UTEMP2USTACK (UTEMP + of_nat k)) = ustack_page * 4096 + k"
  using assms by (simp add: UTEMP2USTACK_def unat_word_ariths unat_of_nat mmu_consts ustack_page_def)

text \<open>The bytes of the finished stack page.\<close>

definition stack_bytes :: "u8 list list \<Rightarrow> bmem" where
  "stack_bytes argv = (let a = argv_off argv in
     store32 (a - 8) (of_nat (length argv)) (store32 (a - 4) (UTEMP2USTACK (UTEMP + of_nat a))
       (store32 (a + 4 * length argv) 0 (lay_args argv a (4096 - size_of argv) (\<lambda>_. 0)))))"

lemma stack_bytes_args:
  assumes "fits argv"
  defines "a \<equiv> argv_off argv"
  shows "load32 (stack_bytes argv) (a - 8) = of_nat (length argv)"
    and "load32 (stack_bytes argv) (a - 4) = UTEMP2USTACK (UTEMP + of_nat a)"
    and "load32 (stack_bytes argv) (a + 4 * length argv) = 0"
    and "i < length argv \<Longrightarrow>
      load32 (stack_bytes argv) (a + 4 * i) = UTEMP2USTACK (UTEMP + of_nat (arg_off argv (4096 - size_of argv) i))"
    and "i < length argv \<Longrightarrow> 0 \<notin> set (argv ! i) \<Longrightarrow>
      cstr (stack_bytes argv) (arg_off argv (4096 - size_of argv) i) (argv ! i)"
proof -
  note off = fits_off [OF assms(1), folded a_def]
  let ?L = "lay_args argv a (4096 - size_of argv) (\<lambda>_. 0)"
  have out: "stack_bytes argv x = ?L x" if "a \<le> x" "x < a + 4 * length argv \<or> a + 4 * length argv + 4 \<le> x" for x
  proof -
    from that(1) off(1) have "a - 8 + 4 \<le> x" "a - 4 + 4 \<le> x" by simp_all
    moreover from that(2) have "x < a + 4 * length argv \<or> (a + 4 * length argv) + 4 \<le> x" by simp
    ultimately show ?thesis by (simp add: stack_bytes_def a_def [symmetric] Let_def store32_away)
  qed
  show "load32 (stack_bytes argv) (a - 8) = of_nat (length argv)"
    by (simp add: stack_bytes_def a_def Let_def)
  show "load32 (stack_bytes argv) (a - 4) = UTEMP2USTACK (UTEMP + of_nat a)"
    using off(1) by (simp add: stack_bytes_def a_def[symmetric] Let_def)
  have "a - 8 + 4 \<le> a + 4 * length argv" "a - 4 + 4 \<le> a + 4 * length argv" using off(1) by simp_all
  then show "load32 (stack_bytes argv) (a + 4 * length argv) = 0"
    by (simp add: stack_bytes_def a_def[symmetric] Let_def)
  have le: "a + 4 * length argv \<le> 4096 - size_of argv" using off(2) by simp
  show "load32 (stack_bytes argv) (a + 4 * i) = UTEMP2USTACK (UTEMP + of_nat (arg_off argv (4096 - size_of argv) i))"
    if "i < length argv"
  proof -
    have "load32 (stack_bytes argv) (a + 4 * i) = load32 ?L (a + 4 * i)"
      by (rule load32_cong, rule out) (use that in auto)
    with lay_args_in [OF le that] show ?thesis by simp
  qed
  show "cstr (stack_bytes argv) (arg_off argv (4096 - size_of argv) i) (argv ! i)"
    if "i < length argv" "0 \<notin> set (argv ! i)"
  proof -
    let ?o = "arg_off argv (4096 - size_of argv) i"
    have "4096 - size_of argv \<le> ?o" by (simp add: arg_off_def)
    with off(2) have o: "a + 4 * length argv + 4 \<le> ?o" by simp
    have "stack_bytes argv (?o + k) = (argv ! i @ [0]) ! k" if "k \<le> length (argv ! i)" for k
      using out [of "?o + k"] o lay_args_in [OF le \<open>i < length argv\<close>] that by simp
    with that(2) show ?thesis by (simp add: cstr_def nth_append)
  qed
qed

lemma own_perm': "\<not> check_perm (PTE_P OR PTE_U OR PTE_W) < 0" "(PTE_P OR PTE_U OR PTE_W) AND PTE_W \<noteq> 0"
  "((PTE_P OR PTE_U OR PTE_W) OR PTE_P) AND PTE_W \<noteq> 0"
  by (simp_all add: check_perm_def mmu_consts)

text \<open>The machine after \<open>init_stack\<close>, which needs a page and may need two tables.\<close>

abbreviation data_perm :: u32 where "data_perm \<equiv> PTE_P OR PTE_U OR PTE_W"

definition stack_given :: "nat \<Rightarrow> nat \<Rightarrow> u8 list list \<Rightarrow> umachine \<Rightarrow> umachine" where
  "stack_given e child argv s =
     u_remove e utemp_page (map_at child ustack_page (next_page s) data_perm
       (set_page (next_page s) (stack_bytes argv) (map_at e utemp_page (next_page s) data_perm (new_page s))))"

lemma init_stack_run:
  assumes "fits argv" and "alloc_pages s e utemp_page + 1 \<le> free_pages s"
  shows "init_stack e child argv s = Some ((0, UTEMP2USTACK (UTEMP + of_nat (argv_off argv - 8))), stack_given e child argv s)"
proof -
  note off = fits_off [OF assms(1)] and st = argv_start_off [OF assms(1)]
  let ?a = "argv_off argv" and ?f = "next_page s"
  define s1 where "s1 = map_at e utemp_page ?f data_perm (new_page s)"
  let ?g2 = "lay_args argv ?a (4096 - size_of argv) (\<lambda>_. 0)"
  let ?g3 = "store32 (?a + 4 * length argv) 0 ?g2"
  let ?g4 = "store32 (?a - 4) (UTEMP2USTACK (UTEMP + of_nat ?a)) ?g3"
  have sp: "space s1 e utemp_page = Some (?f, data_perm OR PTE_P)" and pg: "page s1 ?f = (\<lambda>_. 0)"
    and tab: "has_table s1 e (utemp_page div 1024)"
    by (simp_all add: s1_def)
  have fp: "0 < free_pages s1"
    using map_at_pages [of "new_page s" e utemp_page ?f data_perm] assms(2)
    by (auto simp: s1_def alloc_pages_def split: if_splits)
  have minus: "UTEMP + of_nat ?a - 8 = UTEMP + of_nat (?a - 8)" "UTEMP + of_nat ?a - 4 = UTEMP + of_nat (?a - 4)"
    using off(1) by (simp_all add: of_nat_diff)
  have low: "\<not> UTEMP + of_nat (?a - 8) < UTEMP"
    using utemp_unat [of "?a - 8"] utemp_unat [of 0] off(2) by (simp add: word_less_nat_alt)
  have run1: "store_args e argv (UTEMP + of_nat ?a) (UTEMP + of_nat (4096 - size_of argv)) s1 =
    Some (UTEMP + PGSIZE, set_page ?f ?g2 s1)"
    using store_args_run [OF sp own_perm'(3), of ?a argv "4096 - size_of argv"] off(2,4) pg by (simp add: mmu_consts)
  have word: "ustore32 e (UTEMP + of_nat k) w (set_page ?f g s1) = Some ((), set_page ?f (store32 k w g) s1)"
    if "k + 4 \<le> 4096" for k w g
    using ustores_run [of "set_page ?f g s1" e utemp_page ?f _ "UTEMP + of_nat k" k "word_bytes w", OF _ own_perm'(3)]
      sp that utemp_unat [of k] by (simp add: ustore32_def put_at_word utemp_page_def)
  have end4: "UTEMP + of_nat ?a + 4 * of_nat (length argv) = UTEMP + of_nat (?a + 4 * length argv)" by simp
  let ?s2 = "map_at child ustack_page ?f data_perm (set_page ?f (stack_bytes argv) s1)"
  have alloc: "u_page_alloc e utemp_page data_perm s = Some (0, s1)"
    unfolding s1_def using assms(2) by (intro u_page_alloc_perm) (simp_all add: own_perm' utemp_page_def)
  have bytes: "store32 (?a - 8) (of_nat (length argv)) ?g4 = stack_bytes argv"
    by (simp add: stack_bytes_def Let_def)
  have mapc: "u_page_map e utemp_page child ustack_page data_perm (set_page ?f (stack_bytes argv) s1) = Some (0, ?s2)"
    by (rule u_page_map_run [of _ _ _ _ "data_perm OR PTE_P"])
      (use sp tab fp own_perm' in \<open>simp_all add: utemp_page_def ustack_page_def\<close>)
  have unm: "u_page_unmap e utemp_page ?s2 = Some (0, stack_given e child argv s)"
    by (simp add: u_page_unmap_def stack_given_def s1_def) (simp add: utemp_page_def)
  have k: "?a + 4 * length argv + 4 \<le> 4096" "?a - 4 + 4 \<le> 4096" "?a - 8 + 4 \<le> 4096"
    using off(1,2) by auto
  note words = word [OF k(1)] word [OF k(2)] word [OF k(3)]
  show ?thesis
    unfolding init_stack_def Let_def st(2) minus unfolding st(1)
    by (simp add: low alloc run1 end4 words minus bytes mapc unm del: of_nat_add of_nat_mult)
qed

lemma arg_off_below: "i < length argv \<Longrightarrow> size_of (take i argv) + length (argv ! i) < size_of argv"
proof (induction argv arbitrary: i)
  case (Cons xs xss)
  then show ?case by (cases i) auto
qed simp

lemma stack_given_space:
  assumes "e \<noteq> child"
  shows "space (stack_given e child argv s) =
      (space s)(e := (space s e)(utemp_page := None), child := (space s child)(ustack_page \<mapsto> (next_page s, data_perm)))"
    and "page (stack_given e child argv s) = (page s)(next_page s := stack_bytes argv)"
    and "next_page (stack_given e child argv s) = next_page s + 1" "status (stack_given e child argv s) = status s"
    and "has_table (stack_given e child argv s) e (utemp_page div 1024)"
proof -
  have P: "data_perm OR PTE_P = data_perm" by (simp add: mmu_consts)
  let ?s2 = "map_at child ustack_page (next_page s) data_perm
       (set_page (next_page s) (stack_bytes argv) (map_at e utemp_page (next_page s) data_perm (new_page s)))"
  have t: "has_table ?s2 e (utemp_page div 1024)" by simp
  show "space (stack_given e child argv s) =
      (space s)(e := (space s e)(utemp_page := None), child := (space s child)(ustack_page \<mapsto> (next_page s, data_perm)))"
    unfolding stack_given_def u_remove_simps(9) [OF t] using assms by (auto simp: fun_eq_iff P)
  show "page (stack_given e child argv s) = (page s)(next_page s := stack_bytes argv)"
    by (simp add: stack_given_def set_page_def)
qed (simp_all add: stack_given_def)

lemma stack_given_pages:
  assumes "alloc_pages s e utemp_page + 1 \<le> free_pages s"
  shows "free_pages s \<le> free_pages (stack_given e child argv s) + alloc_pages s e utemp_page + 1"
proof -
  define s1 where "s1 = map_at e utemp_page (next_page s) data_perm (new_page s)"
  define s2 where "s2 = map_at child ustack_page (next_page s) data_perm (set_page (next_page s) (stack_bytes argv) s1)"
  have "free_pages s \<le> free_pages s1 + alloc_pages s e utemp_page"
    using map_at_pages [of "new_page s" e utemp_page "next_page s" data_perm] assms
    by (auto simp: s1_def alloc_pages_def split: if_splits)
  moreover have "free_pages s1 \<le> free_pages s2 + 1"
    using map_at_pages [of "set_page (next_page s) (stack_bytes argv) s1" child ustack_page "next_page s" data_perm]
    by (auto simp: s2_def split: if_splits)
  moreover have "free_pages s2 \<le> free_pages (stack_given e child argv s)"
    by (simp add: stack_given_def s1_def s2_def)
  ultimately show ?thesis by linarith
qed

lemma umem_stack:
  assumes "e \<noteq> child" and "x < 4096"
  shows "umem (stack_given e child argv s) child (ustack_page * 4096 + x) = stack_bytes argv x"
proof -
  have "(ustack_page * 4096 + x) div 4096 = ustack_page" "(ustack_page * 4096 + x) mod 4096 = x"
    using assms(2) by simp_all
  then show ?thesis using stack_given_space [OF assms(1)] by (simp add: umem_def)
qed

text \<open>
  A stack on which \<open>main(argc, argv)\<close> finds its arguments: the count, a null-terminated array, and in
  it pointers to the strings.
\<close>

definition args_at :: "bmem \<Rightarrow> u32 \<Rightarrow> u8 list list \<Rightarrow> bool" where
  "args_at m esp argv \<longleftrightarrow>
     unat esp mod 4 = 0 \<and> USTACKTOP - PGSIZE \<le> esp \<and> esp < USTACKTOP
     \<and> load32 m (unat esp) = of_nat (length argv)
     \<and> (let a = unat (load32 m (unat esp + 4)) in
          (\<forall>i < length argv. cstr m (unat (load32 m (a + 4 * i))) (argv ! i))
          \<and> load32 m (a + 4 * length argv) = 0)"

lemma stack_args_found:
  assumes "fits argv" and "\<forall>xs \<in> set argv. 0 \<notin> set xs"
    and m: "\<And>x. x < 4096 \<Longrightarrow> m (ustack_page * 4096 + x) = stack_bytes argv x"
  shows "args_at m (UTEMP2USTACK (UTEMP + of_nat (argv_off argv - 8))) argv"
proof -
  let ?a = "argv_off argv" and ?S = "ustack_page * 4096"
  note off = fits_off [OF assms(1)] and bytes = stack_bytes_args [OF assms(1)]
  have ld: "load32 m (?S + x) = load32 (stack_bytes argv) x" if "x + 4 \<le> 4096" for x
  proof -
    have "load32 m (?S + x) = load32 (\<lambda>y. m (?S + y)) x" by (simp add: load32_def add.assoc)
    also have "\<dots> = load32 (stack_bytes argv) x"
      by (rule load32_cong, rule m) (use that in simp)
    finally show ?thesis .
  qed
  have k: "?a + 4 * length argv + 4 \<le> 4096" "?a - 4 + 4 \<le> 4096" "?a - 8 + 4 \<le> 4096" "?a < 4096" "?a - 8 < 4096"
    using off(1,2) by auto
  have str: "cstr m (unat (load32 m (?S + (?a + 4 * i)))) (argv ! i)" if "i < length argv" for i
  proof -
    let ?o = "arg_off argv (4096 - size_of argv) i"
    have o: "?o + length (argv ! i) < 4096" using arg_off_below [OF that] off(4) by (simp add: arg_off_def)
    have "load32 m (?S + (?a + 4 * i)) = UTEMP2USTACK (UTEMP + of_nat ?o)"
      using ld [of "?a + 4 * i"] k(1) bytes(4) [OF that] that by simp
    moreover have "cstr m (?S + ?o) (argv ! i)"
      using bytes(5) [OF that] assms(2) that o by (simp add: cstr_def m add.assoc)
    ultimately show ?thesis using UTEMP2USTACK_off [of ?o] o by simp
  qed
  let ?esp = "UTEMP2USTACK (UTEMP + of_nat (?a - 8))"
  have esp: "unat ?esp = ?S + (?a - 8)" and e4: "?S + (?a - 8) + 4 = ?S + (?a - 4)"
    using UTEMP2USTACK_off [OF k(5)] off(1) by simp_all
  have aa: "unat (UTEMP2USTACK (UTEMP + of_nat ?a)) + 4 * j = ?S + (?a + 4 * j)" for j
    using UTEMP2USTACK_off [OF k(4)] by simp
  have al: "unat ?esp mod 4 = 0" using off(1,3) unfolding esp ustack_page_def by presburger
  have rng: "USTACKTOP - PGSIZE \<le> ?esp" "?esp < USTACKTOP"
    using esp k(5) by (simp_all add: word_le_nat_alt word_less_nat_alt ustack_page_def mmu_consts)
  show ?thesis
    using ld [OF k(3)] ld [OF k(2)] ld [OF k(1)] bytes(1-3) str al rng
    by (simp add: args_at_def Let_def esp e4 aa)
qed

text \<open>Arguments that do not fit are refused.\<close>

lemma size_of_ge: "length argv \<le> size_of argv"
  by (induction argv) auto

lemma init_stack_full:
  assumes "\<not> fits argv" and "size_of argv + 4 * length argv + 16 \<le> 0x401000"
  shows "init_stack e child argv s = Some ((- E_NO_MEM, 0), s)"
proof -
  let ?n = "size_of argv" and ?c = "length argv"
  have ss: "unat (UTEMP + PGSIZE - args_size argv) = 0x401000 - ?n"
    using assms(2) by (simp add: args_size_of mmu_consts unat_sub_if' unat_of_nat)
  then have rd: "unat (ROUNDDOWN (UTEMP + PGSIZE - args_size argv) 4) = (0x401000 - ?n) div 4 * 4"
    by (simp add: unat_ROUNDDOWN)
  have c: "unat (4 * (of_nat ?c + 1) :: u32) = 4 * ?c + 4"
    using assms(2) by (simp add: unat_word_ariths unat_of_nat)
  have div4: "x div 4 * 4 \<le> x" "x < x div 4 * 4 + 4" for x :: nat by presburger+
  have le: "4 * ?c + 12 \<le> (0x401000 - ?n) div 4 * 4" using assms(2) div4(2) [of "0x401000 - ?n"] by linarith
  have a: "unat (argv_start (UTEMP + PGSIZE - args_size argv) ?c) = (0x401000 - ?n) div 4 * 4 - (4 * ?c + 4)"
    unfolding argv_start_def using rd c le by (simp add: unat_sub_if')
  then have b: "unat (argv_start (UTEMP + PGSIZE - args_size argv) ?c - 8) = (0x401000 - ?n) div 4 * 4 - (4 * ?c + 12)"
  proof -
    have "8 + (4 * ?c + 4) \<le> (0x401000 - ?n) div 4 * 4" using le by simp
    then have "8 \<le> (0x401000 - ?n) div 4 * 4 - (4 * ?c + 4)" by (simp only: le_diff_conv2 [OF add_leD2 [OF \<open>8 + (4 * ?c + 4) \<le> _\<close>]])
    with a have "(8 :: u32) \<le> argv_start (UTEMP + PGSIZE - args_size argv) ?c" by (simp add: word_le_nat_alt)
    from unat_sub [OF this] show ?thesis by (simp add: a)
  qed
  have "(0x401000 - ?n) div 4 * 4 - (4 * ?c + 12) < 0x400000"
  proof (cases "?n \<le> 4096")
    case True
    then have "0x401000 - ?n = 4 * 0x100000 + (4096 - ?n)" by simp
    then have "(0x401000 - ?n) div 4 * 4 = 0x400000 + (4096 - ?n) div 4 * 4" by (simp only: div_mult_self4) simp
    moreover from assms(1) True have "(4096 - ?n) div 4 * 4 < 4 * ?c + 12" by (simp add: fits_def)
    ultimately show ?thesis using le by linarith
  next
    case False
    with div4(1) [of "0x401000 - ?n"] le show ?thesis by simp
  qed
  with b have "argv_start (UTEMP + PGSIZE - args_size argv) ?c - 8 < UTEMP"
    by (simp add: word_less_nat_alt mmu_consts)
  then show ?thesis by (simp add: init_stack_def Let_def)
qed

text \<open>
  Arguments of more than four megabytes: the subtraction wraps, the check passes, and the copy goes
  to an address in the last pages, where nothing is mapped.
\<close>

lemma init_stack_wraps:
  assumes "alloc_pages s e utemp_page \<le> free_pages s" and "\<forall>pn > utemp_page + 1000. space s e pn = None" and "length xs = 0x402000"
  shows "init_stack e child [xs] s = None"
proof -
  have st: "argv_start (UTEMP + PGSIZE - args_size [xs]) (length [xs]) = 0xffffeff4"
    by (simp add: args_size_def assms(3) argv_start_def ROUNDDOWN_def mmu_consts)
  have low: "\<not> (0xffffeff4 :: u32) - 8 < UTEMP" by (simp add: mmu_consts)
  obtain s1 x where s1: "u_page_alloc e utemp_page (PTE_P OR PTE_U OR PTE_W) s = Some (0, s1)"
    "space s1 e = (space s e)(utemp_page := x)"
    using u_page_alloc_perm [OF assms(1)] by (simp add: own_perm' utemp_page_def)
  have "ustore8 e 0xffffeff4 b s1 = None" for b
    using assms(2) s1(2) by (simp add: ustore8_def store_byte_def utemp_page_def)
  then have "ustore32 e 0xffffeff4 w s1 = None" for w
    by (simp add: ustore32_def ustores_def upt_conv_Cons)
  then have "store_args e [xs] 0xffffeff4 p s1 = None" for p by simp
  with s1(1) low show ?thesis
    unfolding init_stack_def Let_def st by (simp del: store_args.simps)
qed

section \<open>Program segments\<close>

text \<open>The open program file: what \<open>seek\<close> to an offset and \<open>readn\<close> from there give.\<close>

record prog_file =
  pf_seek :: "u32 \<Rightarrow> int"
  pf_readn :: "u32 \<Rightarrow> nat \<Rightarrow> int \<times> u8 list"

partial_function (option) map_segment_loop ::
    "nat \<Rightarrow> nat \<Rightarrow> u32 \<Rightarrow> u32 \<Rightarrow> prog_file \<Rightarrow> u32 \<Rightarrow> u32 \<Rightarrow> u32 \<Rightarrow> u32 \<Rightarrow> umachine \<Rightarrow> (int \<times> umachine) option" where
  "map_segment_loop e child va memsz fd filesz fileoffset perm i s =
    (if \<not> i < memsz then Some (0, s)
     else if i \<ge> filesz then
       (case u_page_alloc child (unat (va + i) div 4096) perm s of None \<Rightarrow> None
        | Some (r, s1) \<Rightarrow> if r < 0 then Some (r, s1)
            else map_segment_loop e child va memsz fd filesz fileoffset perm (i + PGSIZE) s1)
     else
       (case u_page_alloc e utemp_page (PTE_P OR PTE_U OR PTE_W) s of None \<Rightarrow> None
        | Some (r, s1) \<Rightarrow>
          if r < 0 then Some (r, s1)
          else if pf_seek fd (fileoffset + i) < 0 then Some (pf_seek fd (fileoffset + i), s1)
          else
            (case ustores e UTEMP (snd (pf_readn fd (fileoffset + i) (unat (min PGSIZE (filesz - i))))) s1 of None \<Rightarrow> None
             | Some (_, s2) \<Rightarrow>
               if fst (pf_readn fd (fileoffset + i) (unat (min PGSIZE (filesz - i)))) < 0
               then Some (fst (pf_readn fd (fileoffset + i) (unat (min PGSIZE (filesz - i)))), s2)
               else
                 (case u_page_map e utemp_page child (unat (va + i) div 4096) perm s2 of None \<Rightarrow> None
                  | Some (r, s3) \<Rightarrow>
                    if r < 0 then None
                    else
                      (case u_page_unmap e utemp_page s3 of None \<Rightarrow> None
                       | Some (_, s4) \<Rightarrow>
                           map_segment_loop e child va memsz fd filesz fileoffset perm (i + PGSIZE) s4)))))"

definition map_segment :: "nat \<Rightarrow> nat \<Rightarrow> u32 \<Rightarrow> u32 \<Rightarrow> prog_file \<Rightarrow> u32 \<Rightarrow> u32 \<Rightarrow> u32 \<Rightarrow> int uM" where
  "map_segment e child va memsz fd filesz fileoffset perm =
    (let i = PGOFF va
     in map_segment_loop e child (va - i) (memsz + i) fd (filesz + i) (fileoffset - i) perm 0)"

text \<open>A regular file with these bytes.\<close>

definition file_of :: "u8 list \<Rightarrow> prog_file" where
  "file_of bytes = \<lparr>pf_seek = (\<lambda>_. 0),
     pf_readn = (\<lambda>off n. let bs = take n (drop (unat off) bytes) in (int (length bs), bs))\<rparr>"

text \<open>
  After \<open>j\<close> pages: each has its frame, with the bytes of the file from \<open>fo\<close> on as far as the segment
  has any, and zeros.
\<close>

definition seg_byte :: "u8 list \<Rightarrow> nat \<Rightarrow> nat \<Rightarrow> nat \<Rightarrow> u8" where
  "seg_byte bytes fo fsz x = (if x < fsz then bytes ! (fo + x) else 0)"

definition seg_inv :: "nat \<Rightarrow> nat \<Rightarrow> nat \<Rightarrow> u32 \<Rightarrow> (nat \<Rightarrow> u8) \<Rightarrow> umachine \<Rightarrow> nat \<Rightarrow> umachine \<Rightarrow> bool" where
  "seg_inv e child p0 perm c s j s' \<longleftrightarrow>
     (\<forall>q < j. space s' child (p0 + q) = Some (next_page s + q, perm OR PTE_P)
        \<and> (\<forall>y < 4096. page s' (next_page s + q) y = c (q * 4096 + y)))
     \<and> (\<forall>pn. \<not> (p0 \<le> pn \<and> pn < p0 + j) \<longrightarrow> space s' child pn = space s child pn)
     \<and> (\<forall>d. d \<noteq> child \<longrightarrow> space s' d = space s d)
     \<and> (\<forall>f < next_page s. page s' f = page s f)
     \<and> next_page s' = next_page s + j \<and> status s' = status s
     \<and> has_table s' e (utemp_page div 1024) \<and> free_pages s \<le> free_pages s' + 2 * j"

lemma seg_inv_0: "has_table s e (utemp_page div 1024) \<Longrightarrow> seg_inv e child p0 perm c s 0 s"
  by (simp add: seg_inv_def)

text \<open>One more page with these contents; it and its table take at most two pages.\<close>

definition add_page :: "nat \<Rightarrow> nat \<Rightarrow> nat \<Rightarrow> u32 \<Rightarrow> bmem \<Rightarrow> umachine \<Rightarrow> umachine \<Rightarrow> bool" where
  "add_page e child pn perm g s s' \<longleftrightarrow>
     space s' = (space s)(child := (space s child)(pn \<mapsto> (next_page s, perm OR PTE_P)))
     \<and> page s' = (page s)(next_page s := g) \<and> next_page s' = next_page s + 1 \<and> status s' = status s
     \<and> (has_table s e (utemp_page div 1024) \<longrightarrow> has_table s' e (utemp_page div 1024)) \<and> free_pages s \<le> free_pages s' + 2"

lemma seg_inv_Suc:
  assumes "seg_inv e child p0 perm c s j s1" and "add_page e child (p0 + j) perm g s1 s2"
    and "\<And>y. y < 4096 \<Longrightarrow> g y = c (j * 4096 + y)"
  shows "seg_inv e child p0 perm c s (Suc j) s2"
  using assms unfolding seg_inv_def add_page_def by (auto simp: less_Suc_eq)

lemma blank_page:
  assumes "2 \<le> free_pages s" and "\<not> check_perm perm < 0" and "pn < 977920"
  shows "\<exists>s'. u_page_alloc child pn perm s = Some (0, s') \<and> add_page e child pn perm (\<lambda>_. 0) s s'"
proof -
  have "alloc_pages s child pn \<le> free_pages s" using assms(1) by (simp add: alloc_pages_def)
  from u_page_alloc_perm [OF this assms(3,2)] map_at_pages [of "new_page s" child pn "next_page s" perm] assms(1)
  show ?thesis by (auto simp: add_page_def split: if_splits)
qed

lemma file_page:
  assumes "2 \<le> free_pages s" and "\<not> check_perm perm < 0" and "pn < 977920" and "e \<noteq> child"
    and "space s e utemp_page = None" and "length bs \<le> 4096" and "has_table s e (utemp_page div 1024)"
  shows "\<exists>s1 s2 s3 s4. u_page_alloc e utemp_page (PTE_P OR PTE_U OR PTE_W) s = Some (0, s1)
    \<and> ustores e UTEMP bs s1 = Some ((), s2) \<and> u_page_map e utemp_page child pn perm s2 = Some (0, s3)
    \<and> u_page_unmap e utemp_page s3 = Some (0, s4) \<and> add_page e child pn perm (put_at 0 bs (\<lambda>_. 0)) s s4"
proof -
  let ?f = "next_page s"
  define s1 where "s1 = map_at e utemp_page ?f data_perm (new_page s)"
  have "alloc_pages s e utemp_page \<le> free_pages s" using assms(1) by (simp add: alloc_pages_def)
  then have s1: "u_page_alloc e utemp_page data_perm s = Some (0, s1)"
    unfolding s1_def by (rule u_page_alloc_perm) (simp_all add: own_perm' utemp_page_def)
  have sp: "space s1 e utemp_page = Some (?f, data_perm OR PTE_P)" "page s1 ?f = (\<lambda>_. 0)"
    "has_table s1 e (utemp_page div 1024)"
    by (simp_all add: s1_def)
  have fp: "free_pages s \<le> free_pages s1 + 1"
    using map_at_pages [of "new_page s" e utemp_page ?f data_perm] assms(1,7) by (simp add: s1_def)
  let ?s2 = "set_page ?f (put_at 0 bs (\<lambda>_. 0)) s1"
  have s2: "ustores e UTEMP bs s1 = Some ((), ?s2)"
    using ustores_run [OF sp(1) own_perm'(3), of UTEMP 0 bs] assms(6) temp_pages(1) sp(2) by (simp add: utemp_page_def)
  let ?s3 = "map_at child pn ?f perm ?s2"
  have s3: "u_page_map e utemp_page child pn perm ?s2 = Some (0, ?s3)"
    by (rule u_page_map_run [of _ _ _ _ "data_perm OR PTE_P"])
      (use assms(1-3) sp fp own_perm'(3) in \<open>simp_all add: utemp_page_def\<close>)
  let ?s4 = "u_remove e utemp_page ?s3"
  have s4: "u_page_unmap e utemp_page ?s3 = Some (0, ?s4)"
    by (simp add: u_page_unmap_def utemp_page_def)
  have t: "has_table ?s3 e (utemp_page div 1024)" using sp(3) assms(4) by simp
  have "space ?s4 = (space s)(child := (space s child)(pn \<mapsto> (next_page s, perm OR PTE_P)))"
    unfolding u_remove_simps(9) [OF t] using assms(4,5) by (auto simp: s1_def fun_eq_iff)
  moreover have "free_pages s \<le> free_pages ?s4 + 2"
  proof -
    have "free_pages s1 \<le> free_pages ?s3 + 1"
      using map_at_pages [of ?s2 child pn ?f perm] by (auto split: if_splits)
    with fp u_remove_simps(10) [of ?s3 e utemp_page] show ?thesis by linarith
  qed
  ultimately have "add_page e child pn perm (put_at 0 bs (\<lambda>_. 0)) s ?s4"
    by (simp add: add_page_def) (auto simp: s1_def set_page_def)
  with s1 s2 s3 s4 show ?thesis by blast
qed

lemma map_segment_loop_run:
  assumes "unat va = p0 * 4096" and "p0 * 4096 + unat memsz \<le> 977920 * 4096" and "unat filesz \<le> unat memsz"
    and "unat fileoffset + unat filesz \<le> length bytes" and "length bytes < 2 ^ 32"
    and "\<not> check_perm perm < 0" and "e \<noteq> child" and "space s e utemp_page = None"
    and "seg_inv e child p0 perm (seg_byte bytes (unat fileoffset) (unat filesz)) s j s1"
    and "j \<le> (unat memsz + 4095) div 4096" and "2 * ((unat memsz + 4095) div 4096) \<le> free_pages s"
  shows "\<exists>s'. map_segment_loop e child va memsz (file_of bytes) filesz fileoffset perm (of_nat (4096 * j)) s1 = Some (0, s')
    \<and> seg_inv e child p0 perm (seg_byte bytes (unat fileoffset) (unat filesz)) s ((unat memsz + 4095) div 4096) s'"
  using assms(9,10)
proof (induction "(unat memsz + 4095) div 4096 - j" arbitrary: j s1)
  case 0
  then have j: "j = (unat memsz + 4095) div 4096" by simp
  have "unat memsz \<le> 4096 * ((unat memsz + 4095) div 4096)" "4096 * ((unat memsz + 4095) div 4096) \<le> unat memsz + 4095"
    using div_mult_mod_eq [of "unat memsz + 4095" 4096] mod_less_divisor [of 4096 "unat memsz + 4095"] by linarith+
  with j assms(2) have "unat memsz \<le> 4096 * j" "4096 * j < 2 ^ 32" by simp_all
  then have "\<not> (of_nat (4096 * j) :: u32) < memsz"
    by (simp add: word_less_nat_alt unat_of_nat del: of_nat_mult)
  with 0 j show ?case by (subst map_segment_loop.simps) simp
next
  case (Suc k)
  let ?i = "of_nat (4096 * j) :: u32" and ?c = "seg_byte bytes (unat fileoffset) (unat filesz)"
  from Suc(2) have "j < (unat memsz + 4095) div 4096" by simp
  then have "Suc j * 4096 \<le> unat memsz + 4095" by (metis Suc_leI less_eq_div_iff_mult_less_eq zero_less_numeral)
  then have j: "4096 * j < unat memsz" by simp
  then have i: "unat ?i = 4096 * j" using assms(2) by (simp add: unat_of_nat del: of_nat_mult)
  then have lt: "?i < memsz" using j by (simp add: word_less_nat_alt)
  have "unat (va + ?i) = p0 * 4096 + 4096 * j"
    using assms(1,2) i j by (simp add: unat_word_ariths del: of_nat_mult)
  then have pn: "unat (va + ?i) div 4096 = p0 + j" by simp
  have pn_ok: "p0 + j < 977920" using assms(2) j by linarith
  have nx: "?i + PGSIZE = of_nat (4096 * Suc j)" by (simp add: mmu_consts)
  note inv = Suc(3)
  have np: "2 \<le> free_pages s1" and sp: "space s1 e utemp_page = None" and tab: "has_table s1 e (utemp_page div 1024)"
    using inv assms(7,8,11) Suc(2) by (auto simp: seg_inv_def)
  have step: "\<exists>s'. map_segment_loop e child va memsz (file_of bytes) filesz fileoffset perm (?i + PGSIZE) s2 = Some (0, s')
    \<and> seg_inv e child p0 perm ?c s ((unat memsz + 4095) div 4096) s'"
    if "add_page e child (p0 + j) perm g s1 s2" "\<And>y. y < 4096 \<Longrightarrow> g y = ?c (j * 4096 + y)" for g s2
    using Suc(1) [OF _ seg_inv_Suc [OF inv that]] Suc(2) unfolding nx by simp
  show ?case
  proof (cases "filesz \<le> ?i")
    case True
    then have "?c (j * 4096 + y) = 0" for y using i by (simp add: seg_byte_def word_le_nat_alt)
    moreover obtain s2 where s2: "u_page_alloc child (p0 + j) perm s1 = Some (0, s2)"
      "add_page e child (p0 + j) perm (\<lambda>_. 0) s1 s2" using blank_page [OF np assms(6) pn_ok] by blast
    ultimately show ?thesis using step [OF s2(2)] lt True pn
      by (subst map_segment_loop.simps) (simp del: of_nat_mult)
  next
    case False
    then have less: "?i < filesz" by simp
    let ?n = "unat (min PGSIZE (filesz - ?i))" and ?o = "fileoffset + ?i"
    let ?bs = "take ?n (drop (unat ?o) bytes)"
    have le: "?i \<le> filesz" using less by simp
    have n: "?n = min 4096 (unat filesz - 4096 * j)"
      using unat_sub [OF le] i by (simp add: min_def word_le_nat_alt mmu_consts del: of_nat_mult)
    have fi: "4096 * j < unat filesz" using less i by (simp add: word_less_nat_alt)
    have o: "unat ?o = unat fileoffset + 4096 * j"
      using i fi assms(4,5) by (simp add: unat_word_ariths del: of_nat_mult)
    have len: "length ?bs = ?n" using n o fi assms(4) by simp
    have rd: "pf_readn (file_of bytes) ?o ?n = (int ?n, ?bs)" "pf_seek (file_of bytes) ?o = 0"
      using len by (simp_all add: file_of_def Let_def)
    have "length ?bs \<le> 4096" using len n by simp
    from file_page [OF np assms(6) pn_ok assms(7) sp this tab] obtain t1 t2 t3 s2 where
      t: "u_page_alloc e utemp_page (PTE_P OR PTE_U OR PTE_W) s1 = Some (0, t1)" "ustores e UTEMP ?bs t1 = Some ((), t2)"
        "u_page_map e utemp_page child (p0 + j) perm t2 = Some (0, t3)" "u_page_unmap e utemp_page t3 = Some (0, s2)"
      and s2: "add_page e child (p0 + j) perm (put_at 0 ?bs (\<lambda>_. 0)) s1 s2" by blast
    have "put_at 0 ?bs (\<lambda>_. 0) y = ?c (j * 4096 + y)" if "y < 4096" for y
    proof -
      have "y < ?n \<longleftrightarrow> j * 4096 + y < unat filesz" unfolding n using that by auto
      with len have "y < length ?bs \<longleftrightarrow> j * 4096 + y < unat filesz" by simp
      moreover have "?bs ! y = bytes ! (unat fileoffset + (j * 4096 + y))" if "y < length ?bs"
      proof -
        have "?bs ! y = drop (unat ?o) bytes ! y" using that by simp
        also have "\<dots> = bytes ! (unat ?o + y)" using o fi assms(4) by (intro nth_drop) simp
        finally show ?thesis using o by (simp add: ac_simps)
      qed
      ultimately show ?thesis by (simp add: put_at_def seg_byte_def del: length_take length_drop)
    qed
    from step [OF s2 this] lt False pn t rd show ?thesis
      by (subst map_segment_loop.simps) (simp del: of_nat_mult)
  qed
qed

text \<open>
  \<open>map_segment\<close> gives the child the segment: the first \<open>filesz\<close> bytes are those of the file at the
  offset, the rest up to \<open>memsz\<close> are zero, wherever in a page the segment starts; every page is a
  new one with the permissions asked for, and no other mapping or page changes.
\<close>

lemma map_segment_maps:
  assumes "unat va + unat memsz \<le> unat UTOP" and "unat filesz \<le> unat memsz" and "PGOFF va \<le> fileoffset"
    and "unat fileoffset + unat filesz \<le> length bytes" and "length bytes < 2 ^ 32"
    and "\<not> check_perm perm < 0" and "2 * ((unat memsz + unat (PGOFF va) + 4095) div 4096) \<le> free_pages s"
    and "e \<noteq> child" and "space s e utemp_page = None" and "has_table s e (utemp_page div 1024)"
  shows "\<exists>s'. map_segment e child va memsz (file_of bytes) filesz fileoffset perm s = Some (0, s')
    \<and> (\<forall>k < unat memsz. umem s' child (unat va + k) = (if k < unat filesz then bytes ! (unat fileoffset + k) else 0)
         \<and> (\<exists>f. space s' child ((unat va + k) div 4096) = Some (f, perm OR PTE_P) \<and> f < next_page s'))
    \<and> (\<forall>pn. 4096 * pn + 4096 \<le> unat va \<or> unat va + unat memsz \<le> 4096 * pn \<longrightarrow> space s' child pn = space s child pn)
    \<and> (\<forall>d. d \<noteq> child \<longrightarrow> space s' d = space s d) \<and> (\<forall>f < next_page s. page s' f = page s f)
    \<and> next_page s \<le> next_page s' \<and> status s' = status s \<and> has_table s' e (utemp_page div 1024)
    \<and> free_pages s \<le> free_pages s' + 2 * ((unat memsz + unat (PGOFF va) + 4095) div 4096)"
proof -
  define i where "i = unat (PGOFF va)"
  define p0 where "p0 = unat va div 4096"
  have va: "unat va = p0 * 4096 + i" "i < 4096" by (simp_all add: p0_def i_def unat_PGOFF)
  have utop: "unat UTOP = 977920 * 4096" by (simp add: mmu_consts)
  have le: "PGOFF va \<le> va" using va by (simp add: word_le_nat_alt i_def)
  have w: "unat (va - PGOFF va) = p0 * 4096" "unat (memsz + PGOFF va) = unat memsz + i"
    "unat (filesz + PGOFF va) = unat filesz + i" "unat (fileoffset - PGOFF va) = unat fileoffset - i"
    using unat_sub [OF le] unat_sub [OF assms(3)] va assms(1,2) utop
    by (simp_all add: i_def unat_word_ariths)
  have fo: "i \<le> unat fileoffset" using assms(3) by (simp add: word_le_nat_alt i_def)
  let ?n = "(unat memsz + i + 4095) div 4096" and ?c = "seg_byte bytes (unat fileoffset - i) (unat filesz + i)"
  obtain s' where run: "map_segment e child va memsz (file_of bytes) filesz fileoffset perm s = Some (0, s')"
    and inv: "seg_inv e child p0 perm ?c s ?n s'"
    using map_segment_loop_run [OF w(1), of "memsz + PGOFF va" "filesz + PGOFF va" "fileoffset - PGOFF va" bytes perm e child s 0 s]
      seg_inv_0 [OF assms(10)] assms va(1) fo utop by (auto simp: map_segment_def Let_def w i_def)
  have n: "unat memsz + i \<le> 4096 * ?n" "4096 * ?n < unat memsz + i + 4096"
    using div_mult_mod_eq [of "unat memsz + i + 4095" 4096] mod_less_divisor [of 4096 "unat memsz + i + 4095"] by linarith+
  have "umem s' child (unat va + k) = (if k < unat filesz then bytes ! (unat fileoffset + k) else 0)
      \<and> (\<exists>f. space s' child ((unat va + k) div 4096) = Some (f, perm OR PTE_P) \<and> f < next_page s')"
    if "k < unat memsz" for k
  proof -
    let ?q = "(i + k) div 4096" and ?y = "(i + k) mod 4096"
    have q: "?q < ?n" using n(1) that by (simp add: less_mult_imp_div_less mult.commute)
    have dm: "(unat va + k) div 4096 = p0 + ?q" "(unat va + k) mod 4096 = ?y"
      by (simp_all add: va(1) add.assoc)
    have "?c (?q * 4096 + ?y) = (if k < unat filesz then bytes ! (unat fileoffset + k) else 0)"
      using fo by (simp add: seg_byte_def)
    with q inv show ?thesis by (auto simp: umem_def dm seg_inv_def)
  qed
  moreover have "space s' child pn = space s child pn"
    if "4096 * pn + 4096 \<le> unat va \<or> unat va + unat memsz \<le> 4096 * pn" for pn
  proof -
    from that n(2) va have "\<not> (p0 \<le> pn \<and> pn < p0 + ?n)" by linarith
    with inv show ?thesis by (simp add: seg_inv_def)
  qed
  ultimately show ?thesis using run inv by (auto simp: seg_inv_def i_def)
qed

section \<open>spawn\<close>

definition ELF_PROG_FLAG_WRITE :: u32 where "ELF_PROG_FLAG_WRITE = 2"

definition load16 :: "bmem \<Rightarrow> nat \<Rightarrow> u16" where
  "load16 m a = ucast (m a) OR push_bit 8 (ucast (m (a + 1)))"

definition ph_perm :: "bmem \<Rightarrow> nat \<Rightarrow> u32" where
  "ph_perm elf ph = (if load32 elf (ph + 24) AND ELF_PROG_FLAG_WRITE \<noteq> 0 then PTE_P OR PTE_U OR PTE_W else PTE_P OR PTE_U)"

text \<open>The segments of the program headers at these places in the buffer.\<close>

fun map_segments :: "nat \<Rightarrow> nat \<Rightarrow> prog_file \<Rightarrow> bmem \<Rightarrow> nat list \<Rightarrow> int uM" where
  "map_segments e child fd elf [] = ureturn 0"
| "map_segments e child fd elf (ph # phs) =
     (if load32 elf ph \<noteq> ELF_PROG_LOAD then map_segments e child fd elf phs
      else ubind (map_segment e child (load32 elf (ph + 8)) (load32 elf (ph + 20)) fd (load32 elf (ph + 16))
                    (load32 elf (ph + 4)) (ph_perm elf ph)) (\<lambda>r.
        if r < 0 then ureturn r else map_segments e child fd elf phs))"

text \<open>
  \<open>env_destroy\<close> of a child that does not run: \<open>env_free\<close> removes its pages, its tables and its directory
  and gives back the slot.
\<close>

definition u_env_destroy :: "nat \<Rightarrow> unit uM" where
  "u_env_destroy child = umodify (\<lambda>s.
     let s1 = fold (\<lambda>pn s. if space s child pn \<noteq> None then u_remove child pn s else s) [0..<977920] s
     in s1\<lparr>has_table := (has_table s1)(child := (\<lambda>_. False)),
          free_pages := free_pages s1 + length (filter (has_table s1 child) [0..<955]) + 1,
          free_envs := free_envs s1 + 1, status := (status s1)(child := ENV_FREE)\<rparr>)"

text \<open>
  \<open>spawn\<close>, with the result of \<open>open\<close>, the file, what lies behind the 512 bytes of \<open>elf_buf\<close> on the stack,
  and the registers \<open>sys_exofork\<close> gave the child. \<open>spawn_prepare\<close> is the code up to the call of
  \<open>sys_env_set_trapframe\<close>; it answers with the child and the registers to pass, or with what \<open>spawn\<close>
  returns early. \<open>copy_shared_pages\<close> does nothing and returns 0. The kernel's dispatcher does not know
  the number of \<open>sys_env_set_trapframe\<close> and answers \<open>-E_INVAL\<close>.
\<close>

definition u_env_set_trapframe :: "nat \<Rightarrow> Trapframe \<Rightarrow> int uM" where
  "u_env_set_trapframe child tf = ureturn (- E_INVAL)"

lemma set_trapframe_not_served: "syscall SYS_env_set_trapframe a1 a2 a3 a4 a5 s = Ret (- E_INVAL) s"
  by (simp add: syscall_def syscall_numbers)

definition elf_buf :: "prog_file \<Rightarrow> bmem \<Rightarrow> bmem" where
  "elf_buf fd stack = put_at 0 (snd (pf_readn fd 0 512)) stack"

definition elf_headers :: "bmem \<Rightarrow> nat list" where
  "elf_headers elf = map (\<lambda>i. unat (load32 elf 28) + 32 * i) [0..<unat (load16 elf 44)]"

definition spawn_prepare :: "int \<Rightarrow> prog_file \<Rightarrow> bmem \<Rightarrow> Trapframe \<Rightarrow> nat \<Rightarrow> u8 list list \<Rightarrow> (int \<times> Trapframe option) uM" where
  "spawn_prepare fdnum fd stack tf e argv =
    (let elf = elf_buf fd stack in
     if fdnum < 0 then ureturn (fdnum, None)
     else if fst (pf_readn fd 0 512) \<noteq> 512 \<or> load32 elf 0 \<noteq> ELF_MAGIC then ureturn (- E_NOT_EXEC, None)
     else
       ubind u_exofork (\<lambda>r.
       if r < 0 then ureturn (r, None)
       else
         let child = nat r in
         ubind (init_stack e child argv) (\<lambda>(r, esp).
         if r < 0 then ureturn (r, None)
         else
           ubind (map_segments e child fd elf (elf_headers elf)) (\<lambda>r.
           if r < 0 then ubind (u_env_destroy child) (\<lambda>_. ureturn (r, None))
           else ureturn (int child,
             Some (tf\<lparr>tf_eip := load32 elf 24, tf_esp := esp, tf_eflags := tf_eflags tf OR FL_IOPL_3\<rparr>))))))"

definition spawn :: "int \<Rightarrow> prog_file \<Rightarrow> bmem \<Rightarrow> Trapframe \<Rightarrow> nat \<Rightarrow> u8 list list \<Rightarrow> int uM" where
  "spawn fdnum fd stack tf e argv =
     ubind (spawn_prepare fdnum fd stack tf e argv) (\<lambda>(r, regs).
     case regs of None \<Rightarrow> ureturn r
     | Some tf \<Rightarrow>
         ubind (must (u_env_set_trapframe (nat r) tf)) (\<lambda>_.
         ubind (umodify (\<lambda>s. s\<lparr>status := (status s)(nat r := ENV_RUNNABLE)\<rparr>)) (\<lambda>_.
           ureturn r)))"

text \<open>What makes a program header good for a file, and when its segment is in memory.\<close>

definition seg_ok :: "u8 list \<Rightarrow> bmem \<Rightarrow> nat \<Rightarrow> bool" where
  "seg_ok bytes elf ph \<longleftrightarrow>
     unat (load32 elf (ph + 8)) + unat (load32 elf (ph + 20)) \<le> unat UTOP
     \<and> unat (load32 elf (ph + 16)) \<le> unat (load32 elf (ph + 20))
     \<and> PGOFF (load32 elf (ph + 8)) \<le> load32 elf (ph + 4)
     \<and> unat (load32 elf (ph + 4)) + unat (load32 elf (ph + 16)) \<le> length bytes"

definition seg_touches :: "bmem \<Rightarrow> nat \<Rightarrow> nat \<Rightarrow> bool" where
  "seg_touches elf ph pn \<longleftrightarrow>
     4096 * pn < unat (load32 elf (ph + 8)) + unat (load32 elf (ph + 20)) \<and> unat (load32 elf (ph + 8)) < 4096 * pn + 4096"

definition seg_loaded :: "u8 list \<Rightarrow> bmem \<Rightarrow> nat \<Rightarrow> nat \<Rightarrow> umachine \<Rightarrow> bool" where
  "seg_loaded bytes elf ph child s \<longleftrightarrow>
     (let va = unat (load32 elf (ph + 8)) in
      \<forall>k < unat (load32 elf (ph + 20)).
        umem s child (va + k) = (if k < unat (load32 elf (ph + 16)) then bytes ! (unat (load32 elf (ph + 4)) + k) else 0)
        \<and> (\<exists>f. space s child ((va + k) div 4096) = Some (f, ph_perm elf ph OR PTE_P) \<and> f < next_page s))"

text \<open>A page both machines show alike.\<close>

lemma umem_kept:
  assumes "space s child (a div 4096) = Some (f, p)" and "space s' child (a div 4096) = space s child (a div 4096)"
    and "page s' f = page s f"
  shows "umem s' child a = umem s child a"
  using assms by (simp add: umem_def)

lemma seg_loaded_kept:
  assumes "seg_loaded bytes elf ph child s" and "\<And>pn. seg_touches elf ph pn \<Longrightarrow> space s' child pn = space s child pn"
    and "\<And>f. f < next_page s \<Longrightarrow> page s' f = page s f" and "next_page s \<le> next_page s'"
  shows "seg_loaded bytes elf ph child s'"
  unfolding seg_loaded_def Let_def
proof (intro allI impI)
  fix k assume k: "k < unat (load32 elf (ph + 20))"
  let ?a = "unat (load32 elf (ph + 8)) + k"
  from assms(1) k obtain f where f: "space s child (?a div 4096) = Some (f, ph_perm elf ph OR PTE_P)" "f < next_page s"
    "umem s child ?a = (if k < unat (load32 elf (ph + 16)) then bytes ! (unat (load32 elf (ph + 4)) + k) else 0)"
    by (auto simp: seg_loaded_def Let_def)
  have "seg_touches elf ph (?a div 4096)"
    using k div_mult_mod_eq [of ?a 4096] mod_less_divisor [of 4096 ?a] unfolding seg_touches_def by linarith
  from assms(2) [OF this] have sp: "space s' child (?a div 4096) = space s child (?a div 4096)" .
  from umem_kept [OF f(1) sp assms(3) [OF f(2)]] f sp assms(4)
  show "umem s' child ?a = (if k < unat (load32 elf (ph + 16)) then bytes ! (unat (load32 elf (ph + 4)) + k) else 0)
    \<and> (\<exists>f. space s' child (?a div 4096) = Some (f, ph_perm elf ph OR PTE_P) \<and> f < next_page s')" by simp
qed

lemma ph_perm_ok: "\<not> check_perm (ph_perm elf ph) < 0"
  by (simp add: ph_perm_def own_perm')

definition seg_list :: "bmem \<Rightarrow> nat list \<Rightarrow> nat list" where
  "seg_list elf phs = filter (\<lambda>ph. load32 elf ph = ELF_PROG_LOAD) phs"

text \<open>Each page of a segment takes at most a page and a table.\<close>

definition seg_pages :: "bmem \<Rightarrow> nat \<Rightarrow> nat" where
  "seg_pages elf ph = (unat (load32 elf (ph + 20)) + unat (PGOFF (load32 elf (ph + 8))) + 4095) div 4096"

definition segs_need :: "bmem \<Rightarrow> nat list \<Rightarrow> nat" where
  "segs_need elf phs = 2 * sum_list (map (seg_pages elf) phs)"

fun segs_apart :: "bmem \<Rightarrow> nat list \<Rightarrow> bool" where
  "segs_apart elf [] \<longleftrightarrow> True"
| "segs_apart elf (ph # phs) \<longleftrightarrow>
     (\<forall>ph' \<in> set phs. \<forall>pn. \<not> (seg_touches elf ph pn \<and> seg_touches elf ph' pn)) \<and> segs_apart elf phs"

lemma map_segments_run:
  assumes "\<forall>ph \<in> set (seg_list elf phs). seg_ok bytes elf ph" and "segs_apart elf (seg_list elf phs)"
    and "length bytes < 2 ^ 32" and "segs_need elf (seg_list elf phs) \<le> free_pages s" and "e \<noteq> child"
    and "space s e utemp_page = None" and "has_table s e (utemp_page div 1024)"
  shows "\<exists>s'. map_segments e child (file_of bytes) elf phs s = Some (0, s')
    \<and> (\<forall>ph \<in> set (seg_list elf phs). seg_loaded bytes elf ph child s')
    \<and> (\<forall>pn. (\<forall>ph \<in> set (seg_list elf phs). \<not> seg_touches elf ph pn) \<longrightarrow> space s' child pn = space s child pn)
    \<and> (\<forall>d. d \<noteq> child \<longrightarrow> space s' d = space s d) \<and> (\<forall>f < next_page s. page s' f = page s f)
    \<and> next_page s \<le> next_page s' \<and> status s' = status s"
  using assms(1,2,4,6,7)
proof (induction phs arbitrary: s)
  case Nil
  then show ?case by (simp add: seg_list_def)
next
  case (Cons ph phs)
  show ?case
  proof (cases "load32 elf ph = ELF_PROG_LOAD")
    case False
    with Cons show ?thesis by (simp add: seg_list_def)
  next
    case True
    then have sl: "seg_list elf (ph # phs) = ph # seg_list elf phs" by (simp add: seg_list_def)
    from Cons.prems(1) sl have ok: "seg_ok bytes elf ph" by simp
    from Cons.prems(3) have room: "2 * seg_pages elf ph \<le> free_pages s" by (simp add: sl segs_need_def)
    from map_segment_maps [of "load32 elf (ph + 8)" "load32 elf (ph + 20)" "load32 elf (ph + 16)" "load32 elf (ph + 4)"
        bytes "ph_perm elf ph" s e child] ok assms(3,5) Cons.prems(4,5) room ph_perm_ok obtain s1 where
      s1: "map_segment e child (load32 elf (ph + 8)) (load32 elf (ph + 20)) (file_of bytes) (load32 elf (ph + 16))
          (load32 elf (ph + 4)) (ph_perm elf ph) s = Some (0, s1)"
        "seg_loaded bytes elf ph child s1" "\<And>pn. \<not> seg_touches elf ph pn \<Longrightarrow> space s1 child pn = space s child pn"
        "\<And>d. d \<noteq> child \<Longrightarrow> space s1 d = space s d" "\<And>f. f < next_page s \<Longrightarrow> page s1 f = page s f"
        "next_page s \<le> next_page s1" "status s1 = status s" "has_table s1 e (utemp_page div 1024)"
        "free_pages s \<le> free_pages s1 + 2 * seg_pages elf ph"
      unfolding seg_ok_def seg_loaded_def seg_touches_def Let_def not_less de_Morgan_conj seg_pages_def by blast
    have "space s1 e utemp_page = None" using s1(4) [OF assms(5)] Cons.prems(4) by simp
    moreover have "segs_need elf (seg_list elf phs) \<le> free_pages s1"
      using s1(9) Cons.prems(3) by (simp add: sl segs_need_def)
    ultimately obtain s' where
      s': "map_segments e child (file_of bytes) elf phs s1 = Some (0, s')"
        "\<forall>ph \<in> set (seg_list elf phs). seg_loaded bytes elf ph child s'"
        "\<And>pn. \<forall>ph \<in> set (seg_list elf phs). \<not> seg_touches elf ph pn \<Longrightarrow> space s' child pn = space s1 child pn"
        "\<And>d. d \<noteq> child \<Longrightarrow> space s' d = space s1 d" "\<And>f. f < next_page s1 \<Longrightarrow> page s' f = page s1 f"
        "next_page s1 \<le> next_page s'" "status s' = status s1"
      using Cons.IH [of s1] Cons.prems(1,2) sl s1(8) by auto
    have "seg_loaded bytes elf ph child s'"
      by (rule seg_loaded_kept [OF s1(2) s'(3) s'(5,6)]) (use Cons.prems(2) sl in auto)
    with s1 s' sl show ?thesis using True by (intro exI [of _ s']) auto
  qed
qed

section \<open>Properties\<close>


text \<open>A program of 640 bytes: one writable segment at \<open>0x800020\<close> with 100 bytes in the file, 5000 in memory.\<close>

definition ex_words :: "u32 list" where
  "ex_words = (replicate 160 0x0A)[0 := ELF_MAGIC, 6 := 0x800020, 7 := 52, 11 := 1, 13 := 1, 14 := 0x200, 15 := 0x800020,
     17 := 100, 18 := 5000, 19 := 2]"

definition ex_program :: "u8 list" where
  "ex_program = concat (map word_bytes ex_words)"

definition ex_elf :: bmem where
  "ex_elf = elf_buf (file_of ex_program) (\<lambda>_. 0)"

lemma nth_words: "k < length ws \<Longrightarrow> j < 4 \<Longrightarrow> concat (map word_bytes ws) ! (4 * k + j) = word_bytes (ws ! k) ! j"
proof (induction ws arbitrary: k)
  case (Cons w ws)
  then show ?case by (cases k) (auto simp: nth_append)
qed simp

lemma length_words: "length (concat (map word_bytes ws)) = 4 * length ws"
  by (induction ws) auto

lemma load32_word_bytes:
  assumes "\<And>j. j < 4 \<Longrightarrow> m (a + j) = word_bytes w ! j"
  shows "load32 m a = w"
proof -
  have "m x = put_at a (word_bytes w) m x" for x
    using assms [of "x - a"] by (cases "a \<le> x \<and> x < a + 4") (auto simp: put_at_def)
  then have "load32 m a = load32 (put_at a (word_bytes w) m) a" by metis
  then show ?thesis by (simp add: put_at_word)
qed

lemma ex_program_length: "length ex_program = 640"
  by (simp add: ex_program_def length_words ex_words_def)

lemma ex_elf_byte: "k < 128 \<Longrightarrow> j < 4 \<Longrightarrow> ex_elf (4 * k + j) = word_bytes (ex_words ! k) ! j"
proof -
  assume k: "k < 128" "j < 4"
  have "length ex_words = 160" by (simp add: ex_words_def)
  with nth_words [of k ex_words j] k have "ex_program ! (4 * k + j) = word_bytes (ex_words ! k) ! j"
    by (simp add: ex_program_def)
  with ex_program_length k show ?thesis by (simp add: ex_elf_def elf_buf_def file_of_def Let_def put_at_def)
qed

lemma ex_elf_word: "k < 128 \<Longrightarrow> load32 ex_elf (4 * k) = ex_words ! k"
  by (rule load32_word_bytes) (simp add: ex_elf_byte)

lemma ex_elf_words:
  "load32 ex_elf 0 = ELF_MAGIC" "load32 ex_elf 24 = 0x800020" "load32 ex_elf 28 = 52"
  "load32 ex_elf 52 = 1" "load32 ex_elf 56 = 0x200" "load32 ex_elf 60 = 0x800020" "load32 ex_elf 68 = 100"
  "load32 ex_elf 72 = 5000" "elf_headers ex_elf = [52]"
proof -
  show e: "load32 ex_elf 0 = ELF_MAGIC" "load32 ex_elf 24 = 0x800020" "load32 ex_elf 28 = 52"
    "load32 ex_elf 52 = 1" "load32 ex_elf 56 = 0x200" "load32 ex_elf 60 = 0x800020" "load32 ex_elf 68 = 100"
    "load32 ex_elf 72 = 5000"
    using ex_elf_word [of 0] ex_elf_word [of 6] ex_elf_word [of 7] ex_elf_word [of 13] ex_elf_word [of 14]
      ex_elf_word [of 15] ex_elf_word [of 17] ex_elf_word [of 18]
    by (simp_all add: ex_words_def)
  have "load16 ex_elf 44 = 1"
    using ex_elf_byte [of 11 0] ex_elf_byte [of 11 1] by (simp add: load16_def ex_words_def word_bytes_def)
  then show "elf_headers ex_elf = [52]" by (simp add: elf_headers_def e upt_conv_Cons)
qed


end
