(* ===== verification/Jos_Args.thy ===== *)
theory Jos_Args
  imports Jos_Prelude
begin

text \<open>
  The command-line options of user programs, \<^verbatim>\<open>tps/lib/args.c\<close>. An argument vector is the list of its
  strings, with the name of the program in front, so that \<open>argc\<close> is its length; a pointer into a string
  is what is left of it, \<open>None\<close> for null.
\<close>

section \<open>The code\<close>

definition DASH :: u8 where "DASH = 45"

record argstate =
  av :: "u8 list list"
  curarg :: "u8 list option"
  argval :: "u8 list option"

definition argstart :: "u8 list list \<Rightarrow> argstate" where
  "argstart argv = \<lparr>av = argv, curarg = (if length argv > 1 then Some [] else None), argval = None\<rparr>"

text \<open>The \<open>memmove\<close> that takes the first argument out.\<close>

definition shift_args :: "u8 list list \<Rightarrow> u8 list list" where
  "shift_args argv = hd argv # drop 2 argv"

definition next_flag :: "argstate \<Rightarrow> int \<times> argstate" where
  "next_flag s = (case curarg s of
     Some (c # cs) \<Rightarrow> (int (unat c), s\<lparr>curarg := Some cs\<rparr>)
   | _ \<Rightarrow> (- 1, s\<lparr>curarg := None\<rparr>))"

definition argnext :: "argstate \<Rightarrow> int \<times> argstate" where
  "argnext s =
     (let s = s\<lparr>argval := None\<rparr>
      in case curarg s of
        None \<Rightarrow> (- 1, s)
      | Some (c # cs) \<Rightarrow> next_flag s
      | Some [] \<Rightarrow>
          if length (av s) = 1 \<or> take 1 (av s ! 1) \<noteq> [DASH] \<or> length (av s ! 1) = 1
          then (- 1, s\<lparr>curarg := None\<rparr>)
          else
            let cur = tl (av s ! 1); s = s\<lparr>curarg := Some cur, av := shift_args (av s)\<rparr>
            in if cur = [DASH] then (- 1, s\<lparr>curarg := None\<rparr>) else next_flag s)"

definition argnextvalue :: "argstate \<Rightarrow> u8 list option \<times> argstate" where
  "argnextvalue s =
     (case curarg s of
        None \<Rightarrow> (None, s)
      | Some (c # cs) \<Rightarrow> (Some (c # cs), s\<lparr>argval := Some (c # cs), curarg := Some []\<rparr>)
      | Some [] \<Rightarrow>
          if length (av s) > 1 then (Some (av s ! 1), s\<lparr>argval := Some (av s ! 1), av := shift_args (av s)\<rparr>)
          else (None, s\<lparr>argval := None, curarg := None\<rparr>))"

definition argvalue :: "argstate \<Rightarrow> u8 list option \<times> argstate" where
  "argvalue s = (case argval s of Some v \<Rightarrow> (Some v, s) | None \<Rightarrow> argnextvalue s)"

text \<open>The loop \<open>while ((r = argnext(&args)) >= 0)\<close> of the programs, here the flags it runs through.\<close>

definition todo :: "argstate \<Rightarrow> nat" where
  "todo s = sum_list (map length (tl (av s))) + (case curarg s of None \<Rightarrow> 0 | Some cs \<Rightarrow> length cs)"

lemma argnext_todo: "0 \<le> fst (argnext s) \<Longrightarrow> av s \<noteq> [] \<Longrightarrow> av (snd (argnext s)) \<noteq> [] \<and> todo (snd (argnext s)) < todo s"
proof -
  assume r: "0 \<le> fst (argnext s)" and a: "av s \<noteq> []"
  obtain p as where p: "av s = p # as" using a by (cases "av s") auto
  show ?thesis
  proof (cases "curarg s")
    case None
    with r show ?thesis by (simp add: argnext_def Let_def)
  next
    case (Some cs)
    show ?thesis
    proof (cases cs)
      case Nil
      show ?thesis
      proof (cases as)
        case Nil
        with r p Some \<open>cs = []\<close> show ?thesis by (simp add: argnext_def Let_def)
      next
        case (Cons b bs)
        then show ?thesis
          using r p Some \<open>cs = []\<close>
          by (cases b; cases "tl b") (auto simp: argnext_def Let_def next_flag_def shift_args_def todo_def split: if_splits)
      qed
    next
      case (Cons c cs')
      with r p Some show ?thesis by (simp add: argnext_def Let_def next_flag_def todo_def)
    qed
  qed
qed

function flag_loop :: "argstate \<Rightarrow> nat list \<times> argstate" where
  "flag_loop s =
     (if av s = [] then ([], s)
      else let r = argnext s
           in if fst r < 0 then ([], snd r)
              else let rest = flag_loop (snd r) in (nat (fst r) # fst rest, snd rest))"
  by pat_completeness auto
termination
  by (relation "measure todo") (use argnext_todo in auto)

declare flag_loop.simps [simp del]

section \<open>What the options are\<close>

text \<open>The flags of a list of arguments, and the arguments that are left.\<close>

fun options :: "u8 list list \<Rightarrow> u8 list \<times> u8 list list" where
  "options [] = ([], [])"
| "options (a # as) =
     (if a = [DASH, DASH] then ([], as)
      else if 2 \<le> length a \<and> hd a = DASH then (tl a @ fst (options as), snd (options as))
      else ([], a # as))"

lemma flag_loop_chars:
  "av s \<noteq> [] \<Longrightarrow> curarg s = Some (cs @ ds) \<Longrightarrow>
    flag_loop s = (case flag_loop (if cs = [] then s else s\<lparr>curarg := Some ds, argval := None\<rparr>) of (fs, s') \<Rightarrow> (map unat cs @ fs, s'))"
proof (induction cs arbitrary: s)
  case Nil
  then show ?case by (simp split: prod.splits)
next
  case (Cons c cs)
  have n: "argnext s = (int (unat c), s\<lparr>argval := None, curarg := Some (cs @ ds)\<rparr>)"
    using Cons.prems(2) by (simp add: argnext_def Let_def next_flag_def)
  let ?s = "s\<lparr>argval := None, curarg := Some (cs @ ds)\<rparr>"
  have e: "(if cs = [] then ?s else ?s\<lparr>curarg := Some ds, argval := None\<rparr>) = s\<lparr>curarg := Some ds, argval := None\<rparr>" by simp
  have "flag_loop s = (unat c # fst (flag_loop ?s), snd (flag_loop ?s))"
    using Cons.prems(1) by (subst flag_loop.simps) (simp add: n Let_def)
  also have "flag_loop ?s = (case flag_loop (if cs = [] then ?s else ?s\<lparr>curarg := Some ds, argval := None\<rparr>) of (fs, s') \<Rightarrow> (map unat cs @ fs, s'))"
    by (rule Cons.IH) (use Cons.prems(1) in simp_all)
  finally show ?case unfolding e by (simp split: prod.splits)
qed

lemma flag_loop_options:
  "av s = p # as \<Longrightarrow> curarg s = Some [] \<Longrightarrow>
    fst (flag_loop s) = map unat (fst (options as)) \<and> av (snd (flag_loop s)) = p # snd (options as) \<and> curarg (snd (flag_loop s)) = None"
proof (induction as arbitrary: s rule: options.induct)
  case 1
  then show ?case by (subst (1 2 3) flag_loop.simps) (simp add: argnext_def Let_def)
next
  case (2 a as)
  consider (stop) "a = [DASH, DASH]" | (flags) "a \<noteq> [DASH, DASH]" "2 \<le> length a" "hd a = DASH" | (rest) "\<not> (2 \<le> length a \<and> hd a = DASH)"
    by blast
  then show ?case
  proof cases
    case stop
    then show ?thesis using "2.prems" by (subst (1 2 3) flag_loop.simps) (simp add: argnext_def Let_def shift_args_def)
  next
    case flags
    then obtain c cs where a: "a = DASH # c # cs" by (cases a; cases "tl a") auto
    with flags(1) have ne: "c # cs \<noteq> [DASH]" by simp
    let ?t = "s\<lparr>argval := None, curarg := Some (c # cs), av := p # as\<rparr>"
    have n: "argnext s = argnext ?t" using "2.prems" a ne by (auto simp: argnext_def Let_def shift_args_def next_flag_def)
    have "flag_loop s = flag_loop ?t" using "2.prems"(1) by (subst (1 2) flag_loop.simps) (simp add: n)
    also have "\<dots> = (case flag_loop (?t\<lparr>curarg := Some [], argval := None\<rparr>) of (fs, s') \<Rightarrow> (map unat (c # cs) @ fs, s'))"
      using flag_loop_chars [of ?t "c # cs" "[]"] by simp
    finally show ?thesis
      using "2.IH"(1) [OF flags(1), of "?t\<lparr>curarg := Some [], argval := None\<rparr>"] flags a by (auto split: prod.splits)
  next
    case rest
    then have "take 1 a \<noteq> [DASH] \<or> length a = 1" by (cases a; cases "tl a") auto
    moreover have "a \<noteq> [DASH, DASH]" using rest by auto
    ultimately show ?thesis
      using "2.prems" rest by (subst (1 2 3) flag_loop.simps) (auto simp: argnext_def Let_def)
  qed
qed

lemma flag_loop_run:
  "fst (flag_loop (argstart (p # as))) = map unat (fst (options as)) \<and> av (snd (flag_loop (argstart (p # as)))) = p # snd (options as)"
proof (cases as)
  case Nil
  then show ?thesis by (subst (1 2) flag_loop.simps) (simp add: argstart_def argnext_def Let_def)
next
  case (Cons a as')
  then have "av (argstart (p # as)) = p # as" "curarg (argstart (p # as)) = Some []" by (simp_all add: argstart_def)
  from flag_loop_options [OF this] show ?thesis by blast
qed

text \<open>
  The option loop of a program ends and sees the flags of the leading arguments that start
  with a dash, in order, up to \<open>--\<close>, which is dropped, or to an argument that is not an option, which is kept;
  then \<open>argv\<close> has the name of the program and the arguments that are left.
\<close>

theorem flag_loop_flags:
  "fst (flag_loop (argstart (p # as))) = map unat (fst (options as)) \<and> av (snd (flag_loop (argstart (p # as)))) = p # snd (options as)"
  by (rule flag_loop_run)

text \<open>The value of a flag is the rest of its argument, or else the next argument.\<close>

lemma argvalue_rest:
  "curarg s = Some (c # cs) \<Longrightarrow> argval s = None \<Longrightarrow>
    argvalue s = (Some (c # cs), s\<lparr>argval := Some (c # cs), curarg := Some []\<rparr>)
    \<and> argvalue (snd (argvalue s)) = argvalue s"
  by (simp add: argvalue_def argnextvalue_def)

lemma argvalue_next:
  "curarg s = Some [] \<Longrightarrow> argval s = None \<Longrightarrow> av s = p # a # as \<Longrightarrow>
    argvalue s = (Some a, s\<lparr>argval := Some a, av := p # as\<rparr>) \<and> argvalue (snd (argvalue s)) = argvalue s"
  by (simp add: argvalue_def argnextvalue_def shift_args_def)

end
