(* ===== verification/Jos_Sh.thy ===== *)
theory Jos_Sh
  imports Jos_Monitor Jos_Args
begin

text \<open>
  The shell of JOS, \<^verbatim>\<open>tps/user/sh.c\<close>: its scanner, which cuts words in place one token ahead, and
  \<open>runcmd\<close>, which acts while it reads. What the library calls answer is an argument: a function of
  the calls made so far. A run is one process: where \<open>fork\<close> answers 0 it goes on as the child. Debug
  output is left out.
\<close>

section \<open>Tokens\<close>

definition SYMBOLS :: "u8 list" where "SYMBOLS = [60, 124, 62, 38, 59, 40, 41]"
definition TOK_WORD :: u8 where "TOK_WORD = 119"

definition is_symbol :: "u8 \<Rightarrow> bool" where
  "is_symbol c \<longleftrightarrow> c \<in> set SYMBOLS"

partial_function (option) scan_word :: "bmem \<Rightarrow> nat \<Rightarrow> nat option" where
  "scan_word m p = (if m p \<noteq> 0 \<and> \<not> (is_white (m p) \<or> is_symbol (m p)) then scan_word m (p + 1) else Some p)"

text \<open>The static variables of \<open>gettoken\<close>, with the memory.\<close>

record lexer =
  lmem :: bmem
  nc :: u8
  np1 :: nat
  np2 :: nat

definition raw_gettoken :: "nat \<Rightarrow> lexer \<Rightarrow> lexer option" where
  "raw_gettoken s l =
     (if s = 0 then Some (l\<lparr>nc := 0\<rparr>)
      else case gobble (lmem l) s of None \<Rightarrow> None
        | Some (m, s) \<Rightarrow>
          if m s = 0 then Some (l\<lparr>lmem := m, nc := 0, np1 := 0, np2 := 0\<rparr>)
          else if is_symbol (m s) then Some (l\<lparr>lmem := m(s := 0), nc := m s, np1 := s, np2 := s + 1\<rparr>)
          else (case scan_word m s of None \<Rightarrow> None
            | Some e \<Rightarrow> Some (l\<lparr>lmem := m, nc := TOK_WORD, np1 := s, np2 := e\<rparr>)))"

definition gettoken :: "lexer \<Rightarrow> (u8 \<times> nat \<times> lexer) option" where
  "gettoken l = (case raw_gettoken (np2 l) l of None \<Rightarrow> None | Some l' \<Rightarrow> Some (nc l, np1 l, l'))"

section \<open>Running a line\<close>

definition MAXARGS_sh :: nat where "MAXARGS_sh = 16"
definition BUFSIZ :: nat where "BUFSIZ = 1024"

text \<open>The calls a run has made, with what they answered.\<close>

datatype sh_event = Opened "u8 list" u32 int | Duped int int | Closed int | Piped int int int | Forked int
  | Spawned "u8 list" "u8 list list" int | Closed_all | Waited int

text \<open>\<open>Overrun\<close>: an array is written beyond its end.\<close>

datatype sh_end = Too_many_arguments | Syntax_error | Open_failed | Pipe_failed | Fork_failed | Nothing_to_run
  | Finished | Panicked | Overrun

type_synonym answers = "sh_event list \<Rightarrow> int \<times> int \<times> int"

partial_function (option) read_cstring :: "bmem \<Rightarrow> nat \<Rightarrow> u8 list option" where
  "read_cstring m p = (if m p = 0 then Some [] else Option.bind (read_cstring m (p + 1)) (\<lambda>xs. Some (m p # xs)))"

fun read_cstrings :: "bmem \<Rightarrow> nat list \<Rightarrow> u8 list list option" where
  "read_cstrings m [] = Some []"
| "read_cstrings m (p # ps) = (case read_cstring m p of None \<Rightarrow> None
     | Some x \<Rightarrow> (case read_cstrings m ps of None \<Rightarrow> None | Some xs \<Rightarrow> Some (x # xs)))"

definition O_OUT :: u32 where "O_OUT = 0x301"

definition SLASH_sh :: u8 where "SLASH_sh = 47"

text \<open>From \<open>runit\<close> on, with the arguments as strings.\<close>

definition run_it :: "answers \<Rightarrow> u8 list list \<Rightarrow> int \<Rightarrow> sh_event list \<Rightarrow> sh_end \<times> sh_event list" where
  "run_it ans args pipe_child log =
     (if args = [] then (Nothing_to_run, log)
      else
        let name = hd args; bare = name = [] \<or> hd name \<noteq> SLASH_sh
        in if bare \<and> BUFSIZ < length name + 2 then (Overrun, log)
           else if length args = MAXARGS_sh then (Overrun, log)
           else
             let path = (if bare then SLASH_sh # name else name);
                 r = fst (ans log)
             in (Finished, log @ [Spawned path (path # tl args) r, Closed_all]
                  @ (if r \<ge> 0 then [Waited r] else []) @ (if pipe_child \<noteq> 0 then [Waited pipe_child] else [])))"

definition run_argv :: "answers \<Rightarrow> nat list \<Rightarrow> int \<Rightarrow> lexer \<Rightarrow> sh_event list \<Rightarrow> (sh_end \<times> sh_event list) option" where
  "run_argv ans argv pipe_child l log = map_option (\<lambda>args. run_it ans args pipe_child log) (read_cstrings (lmem l) argv)"

text \<open>What the two sides of a pipe do with its descriptors.\<close>

definition reader_side :: "int \<Rightarrow> int \<Rightarrow> sh_event list" where
  "reader_side p0 p1 = (if p0 \<noteq> 0 then [Duped p0 0, Closed p0] else []) @ [Closed p1]"

definition writer_side :: "int \<Rightarrow> int \<Rightarrow> sh_event list" where
  "writer_side p0 p1 = (if p1 \<noteq> 1 then [Duped p1 1, Closed p1] else []) @ [Closed p0]"

definition output_to :: "int \<Rightarrow> sh_event list" where
  "output_to fd = (if fd \<noteq> 1 then [Duped fd 1, Closed fd] else [])"

text \<open>The loop; \<open>again\<close> is the same loop without arguments.\<close>

partial_function (option) sh_loop :: "answers \<Rightarrow> nat list \<Rightarrow> lexer \<Rightarrow> sh_event list \<Rightarrow> (sh_end \<times> sh_event list) option" where
  "sh_loop ans argv l log =
     (case gettoken l of None \<Rightarrow> None
      | Some (c, t, l) \<Rightarrow>
        if c = TOK_WORD then
          (if length argv = MAXARGS_sh then Some (Too_many_arguments, log) else sh_loop ans (argv @ [t]) l log)
        else if c = 60 then
          (case gettoken l of None \<Rightarrow> None
           | Some (c, t, l) \<Rightarrow> Some (if c \<noteq> TOK_WORD then Syntax_error else Panicked, log))
        else if c = 62 then
          (case gettoken l of None \<Rightarrow> None
           | Some (c, t, l) \<Rightarrow>
             if c \<noteq> TOK_WORD then Some (Syntax_error, log)
             else (case read_cstring (lmem l) t of None \<Rightarrow> None
               | Some path \<Rightarrow>
                 let fd = fst (ans log); log = log @ [Opened path O_OUT fd]
                 in if fd < 0 then Some (Open_failed, log) else sh_loop ans argv l (log @ output_to fd)))
        else if c = 124 then
          (case ans log of (r, p0, p1) \<Rightarrow>
             let log = log @ [Piped r p0 p1]
             in if r < 0 then Some (Pipe_failed, log)
                else
                  let f = fst (ans log); log = log @ [Forked f]
                  in if f < 0 then Some (Fork_failed, log)
                     else if f = 0 then sh_loop ans [] l (log @ reader_side p0 p1)
                     else run_argv ans argv f l (log @ writer_side p0 p1))
        else if c = 0 then run_argv ans argv 0 l log
        else Some (Panicked, log))"

text \<open>\<open>runcmd\<close> of the line at \<open>s\<close>, which is not a null pointer.\<close>

definition runcmd :: "answers \<Rightarrow> bmem \<Rightarrow> nat \<Rightarrow> (sh_end \<times> sh_event list) option" where
  "runcmd ans m s = (case raw_gettoken s \<lparr>lmem = m, nc = 0, np1 = 0, np2 = 0\<rparr> of None \<Rightarrow> None
     | Some l \<Rightarrow> sh_loop ans [] l [])"

text \<open>
  \<open>umain\<close>: the options, \<open>None\<close> for the usage message, with the file to read commands from; and what is done
  with a line, \<open>r\<close> being the answer of \<open>fork\<close>.
\<close>

record sh_options =
  debug :: nat
  interactive :: bool
  echocmds :: bool

fun sh_flags :: "nat list \<Rightarrow> sh_options \<Rightarrow> sh_options option" where
  "sh_flags [] opts = Some opts"
| "sh_flags (f # fs) opts =
     (if f = 100 then sh_flags fs (opts\<lparr>debug := debug opts + 1\<rparr>)
      else if f = 105 then sh_flags fs (opts\<lparr>interactive := True\<rparr>)
      else if f = 120 then sh_flags fs (opts\<lparr>echocmds := True\<rparr>)
      else None)"

definition sh_arguments :: "u8 list list \<Rightarrow> (sh_options \<times> u8 list option) option" where
  "sh_arguments argv =
     (case flag_loop (argstart argv) of (flags, s) \<Rightarrow>
        case sh_flags flags \<lparr>debug = 0, interactive = False, echocmds = False\<rparr> of None \<Rightarrow> None
        | Some opts \<Rightarrow> if length (av s) > 2 then None else Some (opts, if length (av s) = 2 then Some (av s ! 1) else None))"

datatype sh_action = Comment_line | Fork_panic | In_child "(sh_end \<times> sh_event list) option" | Wait_for int

definition sh_round :: "answers \<Rightarrow> int \<Rightarrow> bmem \<Rightarrow> nat \<Rightarrow> sh_action" where
  "sh_round ans r m buf = (if m buf = 35 then Comment_line else if r < 0 then Fork_panic
     else if r = 0 then In_child (runcmd ans m buf) else Wait_for r)"

section \<open>Tokens and runs, on lists\<close>

datatype token = Word "u8 list" | Symb u8

definition is_wordc :: "u8 \<Rightarrow> bool" where
  "is_wordc c \<longleftrightarrow> \<not> (is_white c \<or> is_symbol c)"

function tokens :: "u8 list \<Rightarrow> token list" where
  "tokens xs = (let ys = dropWhile is_white xs in
     if ys = [] then []
     else if is_symbol (hd ys) then Symb (hd ys) # tokens (tl ys)
     else Word (takeWhile is_wordc ys) # tokens (dropWhile is_wordc ys))"
  by pat_completeness auto
termination
proof (relation "measure length", goal_cases)
  case (2 xs ys)
  then have "length (tl ys) < length ys" by simp
  also have "length ys \<le> length xs" using 2 by (simp add: length_dropWhile_le)
  finally show ?case by simp
next
  case (3 xs ys)
  then have "ys \<noteq> []" "is_wordc (hd ys)" using hd_dropWhile [of is_white xs] by (simp_all add: is_wordc_def)
  then have "length (dropWhile is_wordc ys) < length ys"
    by (cases ys) (simp_all add: le_imp_less_Suc length_dropWhile_le)
  also have "length ys \<le> length xs" using 3 by (simp add: length_dropWhile_le)
  finally show ?case by simp
qed simp

declare tokens.simps [simp del]

fun run_tokens :: "answers \<Rightarrow> u8 list list \<Rightarrow> token list \<Rightarrow> sh_event list \<Rightarrow> sh_end \<times> sh_event list" where
  "run_tokens ans args [] log = run_it ans args 0 log"
| "run_tokens ans args (Word w # ts) log =
     (if length args = MAXARGS_sh then (Too_many_arguments, log) else run_tokens ans (args @ [w]) ts log)"
| "run_tokens ans args (Symb c # ts) log =
     (if c = 60 then (case ts of Word f # _ \<Rightarrow> (Panicked, log) | _ \<Rightarrow> (Syntax_error, log))
      else if c = 62 then
        (case ts of
           Word f # ts \<Rightarrow>
             let fd = fst (ans log); log = log @ [Opened f O_OUT fd]
             in if fd < 0 then (Open_failed, log) else run_tokens ans args ts (log @ output_to fd)
         | _ \<Rightarrow> (Syntax_error, log))
      else if c = 124 then
        (case ans log of (r, p0, p1) \<Rightarrow>
           let log = log @ [Piped r p0 p1]
           in if r < 0 then (Pipe_failed, log)
              else
                let f = fst (ans log); log = log @ [Forked f]
                in if f < 0 then (Fork_failed, log)
                   else if f = 0 then run_tokens ans [] ts (log @ reader_side p0 p1)
                   else run_it ans args f (log @ writer_side p0 p1))
      else (Panicked, log))"

section \<open>The scanner\<close>

text \<open>The tokens still to come, the one looked ahead first.\<close>

definition lexes :: "lexer \<Rightarrow> token list \<Rightarrow> bool" where
  "lexes l ts \<longleftrightarrow> (case ts of
     [] \<Rightarrow> nc l = 0 \<and> np2 l = 0
   | Word w # ts \<Rightarrow> nc l = TOK_WORD \<and> np2 l = np1 l + length w \<and> 0 < np2 l \<and> 0 \<notin> set w
        \<and> (\<forall>i < length w. lmem l (np1 l + i) = w ! i)
        \<and> (\<exists>ys. cstr (lmem l) (np2 l) ys \<and> tokens ys = ts \<and> (ys = [] \<or> is_white (hd ys) \<or> is_symbol (hd ys)))
   | Symb c # ts \<Rightarrow> nc l = c \<and> is_symbol c \<and> 0 < np2 l \<and> (\<exists>ys. cstr (lmem l) (np2 l) ys \<and> tokens ys = ts))"

lemma scan_word_run: "cstr m p xs \<Longrightarrow> scan_word m p = Some (p + length (takeWhile is_wordc xs))"
proof (induction xs arbitrary: p)
  case Nil
  then show ?case by (subst scan_word.simps) (simp add: cstr_Nil)
next
  case (Cons x xs)
  then show ?case by (subst scan_word.simps) (auto simp: cstr_Cons is_wordc_def [of "m p"])
qed

lemma raw_gettoken_run:
  assumes "0 < s" and "cstr (lmem l) s xs"
  shows "\<exists>l'. raw_gettoken s l = Some l' \<and> lexes l' (tokens xs) \<and> (\<forall>a < s. lmem l' a = lmem l a)
    \<and> (np2 l' = 0 \<or> s < np2 l') \<and> (xs = [] \<or> is_white (hd xs) \<or> is_symbol (hd xs) \<longrightarrow> lmem l' s = 0)"
proof -
  let ?k = "length (takeWhile is_white xs)" and ?ys = "dropWhile is_white xs"
  obtain m where m: "gobble (lmem l) s = Some (m, s + ?k)" "cstr m (s + ?k) ?ys"
    "\<And>a. a < s \<or> s + ?k \<le> a \<Longrightarrow> m a = lmem l a" "\<And>a. s \<le> a \<Longrightarrow> a < s + ?k \<Longrightarrow> m a = 0"
    using gobble_run [OF assms(2)] by blast
  have z: "m s = 0" if "xs = [] \<or> is_white (hd xs)"
  proof (cases "xs = []")
    case True
    with assms(2) m(3) [of s] show ?thesis by (simp add: cstr_Nil)
  next
    case False
    with that have "0 < ?k" by (cases xs) auto
    with m(4) [of s] show ?thesis by simp
  qed
  have k0: "?k = 0" if "xs \<noteq> []" "is_symbol (hd xs)" "\<not> is_white (hd xs)" using that by (cases xs) auto
  show ?thesis
  proof (cases "?ys = []")
    case True
    have "m (s + ?k) = 0" using m(2) unfolding True cstr_Nil .
    moreover have "tokens xs = []" using True by (subst tokens.simps) simp
    moreover have "xs = [] \<or> is_white (hd xs)" using True by (cases xs) (auto split: if_splits)
    ultimately show ?thesis
      using assms(1) m(1,3) z by (intro exI [of _ "l\<lparr>lmem := m, nc := 0, np1 := 0, np2 := 0\<rparr>"]) (simp add: raw_gettoken_def lexes_def)
  next
    case False
    then obtain y ys where ys: "?ys = y # ys" by (cases ?ys) auto
    have y: "\<not> is_white y" using hd_dropWhile [of is_white xs] ys by simp
    have my: "m (s + ?k) = y" "y \<noteq> 0" "cstr m (s + ?k + 1) ys" using m(2) by (simp_all add: ys cstr_Cons)
    show ?thesis
    proof (cases "is_symbol y")
      case True
      let ?m = "m(s + ?k := 0)"
      have "cstr ?m (s + ?k + 1) ys" by (rule cstr_cong [OF my(3)]) auto
      moreover have "tokens xs = Symb y # tokens ys" using True by (subst tokens.simps) (simp add: ys)
      moreover have "?m s = 0" if "xs = [] \<or> is_white (hd xs) \<or> is_symbol (hd xs)"
        using z that k0 by (cases "xs = [] \<or> is_white (hd xs)") auto
      ultimately show ?thesis
        using assms(1) m(1,3) True my
        by (intro exI [of _ "l\<lparr>lmem := ?m, nc := y, np1 := s + ?k, np2 := s + ?k + 1\<rparr>"]) (auto simp: raw_gettoken_def lexes_def)
    next
      case False
      let ?w = "takeWhile is_wordc ?ys" and ?zs = "dropWhile is_wordc ?ys"
      have w: "?w \<noteq> []" using y False by (simp add: ys is_wordc_def)
      have "tokens xs = Word ?w # tokens ?zs" using False by (subst tokens.simps) (simp add: ys)
      moreover have "cstr m (s + ?k + length ?w) ?zs" using cstr_append [of m "s + ?k" ?w ?zs] m(2) by simp
      moreover have "?zs = [] \<or> is_white (hd ?zs) \<or> is_symbol (hd ?zs)"
        using hd_dropWhile [of is_wordc ?ys] by (auto simp: is_wordc_def)
      moreover have "0 \<notin> set ?w" "\<forall>i < length ?w. m (s + ?k + i) = ?w ! i"
        using m(2) set_takeWhileD [of 0 is_wordc ?ys] length_takeWhile_le [of is_wordc ?ys]
        by (auto simp: cstr_def takeWhile_nth)
      moreover have "m s = 0" if "xs = [] \<or> is_white (hd xs) \<or> is_symbol (hd xs)"
      proof -
        have "\<not> is_symbol (hd xs)" if "\<not> is_white (hd xs)" "xs \<noteq> []" using that False ys by (cases xs) auto
        with that z show ?thesis by blast
      qed
      ultimately show ?thesis
        using assms(1) m(1,3) False my scan_word_run [OF m(2)] w
        by (intro exI [of _ "l\<lparr>lmem := m, nc := TOK_WORD, np1 := s + ?k, np2 := s + ?k + length ?w\<rparr>"])
          (auto simp: raw_gettoken_def lexes_def)
    qed
  qed
qed


lemma gettoken_word:
  assumes "lexes l (Word w # ts)"
  shows "\<exists>l'. gettoken l = Some (TOK_WORD, np1 l, l') \<and> lexes l' ts \<and> (\<forall>a < np2 l. lmem l' a = lmem l a)
    \<and> (np2 l' = 0 \<or> np2 l < np2 l') \<and> cstr (lmem l') (np1 l) w"
proof -
  from assms obtain ys where l: "nc l = TOK_WORD" "np2 l = np1 l + length w" "0 < np2 l" "0 \<notin> set w"
    "\<forall>i < length w. lmem l (np1 l + i) = w ! i" "cstr (lmem l) (np2 l) ys" "tokens ys = ts" "ys = [] \<or> is_white (hd ys) \<or> is_symbol (hd ys)"
    by (auto simp: lexes_def)
  from raw_gettoken_run [OF l(3,6)] l(7,8) obtain l' where l': "raw_gettoken (np2 l) l = Some l'" "lexes l' ts"
    "\<forall>a < np2 l. lmem l' a = lmem l a" "np2 l' = 0 \<or> np2 l < np2 l'" "lmem l' (np2 l) = 0" by auto
  then have "cstr (lmem l') (np1 l) w" using l(2,4,5) by (simp add: cstr_def)
  with l l' show ?thesis by (auto simp: gettoken_def)
qed

lemma gettoken_symbol:
  assumes "lexes l (Symb c # ts)"
  shows "is_symbol c \<and> (\<exists>l'. gettoken l = Some (c, np1 l, l') \<and> lexes l' ts \<and> (\<forall>a < np2 l. lmem l' a = lmem l a)
    \<and> (np2 l' = 0 \<or> np2 l < np2 l'))"
proof -
  from assms obtain ys where l: "nc l = c" "is_symbol c" "0 < np2 l" "cstr (lmem l) (np2 l) ys" "tokens ys = ts"
    by (auto simp: lexes_def)
  from raw_gettoken_run [OF l(3,4)] l show ?thesis by (auto simp: gettoken_def)
qed

lemma gettoken_end: "lexes l [] \<Longrightarrow> gettoken l = Some (0, np1 l, l\<lparr>nc := 0\<rparr>)"
  by (simp add: lexes_def gettoken_def raw_gettoken_def)

text \<open>Pointers to words that are cut off already, below what the scanner still writes.\<close>

definition cut_words :: "lexer \<Rightarrow> nat list \<Rightarrow> u8 list list \<Rightarrow> bool" where
  "cut_words l ps ws \<longleftrightarrow> list_all2 (\<lambda>p w. cstr (lmem l) p w \<and> (np2 l = 0 \<or> p + length w < np2 l)) ps ws"

lemma cut_words_step:
  assumes "cut_words l ps ws" and "0 < np2 l" "\<forall>a < np2 l. lmem l' a = lmem l a" "np2 l' = 0 \<or> np2 l < np2 l'"
  shows "cut_words l' ps ws"
  unfolding cut_words_def
proof (rule list_all2_mono [OF assms(1) [unfolded cut_words_def]])
  fix p w assume "cstr (lmem l) p w \<and> (np2 l = 0 \<or> p + length w < np2 l)"
  with assms(2-4) show "cstr (lmem l') p w \<and> (np2 l' = 0 \<or> p + length w < np2 l')"
    by (auto elim!: cstr_cong)
qed

lemma cstring_run: "cstr m p xs \<Longrightarrow> read_cstring m p = Some xs"
proof (induction xs arbitrary: p)
  case Nil
  then show ?case by (subst read_cstring.simps) (simp add: cstr_Nil)
next
  case (Cons x xs)
  then show ?case by (subst read_cstring.simps) (simp add: cstr_Cons)
qed

lemma cstrings_run: "list_all2 (cstr m) ps ws \<Longrightarrow> read_cstrings m ps = Some ws"
  by (induction rule: list_all2_induct) (simp_all add: cstring_run)

lemma run_argv_run: "cut_words l ps ws \<Longrightarrow> run_argv ans ps f l log = Some (run_it ans ws f log)"
  using cstrings_run [of "lmem l" ps ws] by (simp add: run_argv_def cut_words_def list_all2_conv_all_nth)

lemma symbols: "is_symbol c \<Longrightarrow> c \<noteq> TOK_WORD \<and> c \<noteq> 0"
  by (auto simp: is_symbol_def SYMBOLS_def TOK_WORD_def)

lemma run_tokens_next:
  obtains w ts' where "ts = Word w # ts'" | "\<And>w ts'. ts \<noteq> Word w # ts'"
  by blast

lemma gettoken_other:
  assumes "lexes l ts" "\<And>w ts'. ts \<noteq> Word w # ts'"
  shows "\<exists>c p l'. gettoken l = Some (c, p, l') \<and> c \<noteq> TOK_WORD"
proof (cases ts)
  case Nil
  with gettoken_end assms(1) show ?thesis by (auto simp: TOK_WORD_def)
next
  case (Cons t ts')
  with assms(2) obtain c where "t = Symb c" by (cases t) auto
  with gettoken_symbol [of l c ts'] assms(1) Cons symbols [of c] show ?thesis by auto
qed

lemma sh_loop_run: "lexes l ts \<Longrightarrow> cut_words l ps ws \<Longrightarrow> sh_loop ans ps l log = Some (run_tokens ans ws ts log)"
proof (induction ans ws ts log arbitrary: l ps rule: run_tokens.induct)
  case (1 ans args log)
  have "cut_words (l\<lparr>nc := 0\<rparr>) ps args" using 1(2) by (simp add: cut_words_def)
  from run_argv_run [OF this] show ?case
    by (subst sh_loop.simps) (simp add: gettoken_end [OF 1(1)] TOK_WORD_def)
next
  case (2 ans args w ts log)
  have p: "0 < np2 l" "np2 l = np1 l + length w" using 2(2) by (auto simp: lexes_def)
  obtain l' where l': "gettoken l = Some (TOK_WORD, np1 l, l')" "lexes l' ts" "\<forall>a < np2 l. lmem l' a = lmem l a"
    "np2 l' = 0 \<or> np2 l < np2 l'" "cstr (lmem l') (np1 l) w" using gettoken_word [OF 2(2)] by blast
  have "cut_words l' ps args" by (rule cut_words_step [OF 2(3) p(1) l'(3,4)])
  then have "cut_words l' (ps @ [np1 l]) (args @ [w])"
    using l'(4,5) p(2) by (auto simp: cut_words_def intro!: list_all2_appendI)
  moreover have "length ps = length args" using 2(3) by (simp add: cut_words_def list_all2_lengthD)
  ultimately show ?case
    using 2(1) [OF _ l'(2)] by (subst sh_loop.simps) (simp add: l'(1))
next
  case (3 ans args c ts log)
  have p: "0 < np2 l" using 3(3) by (simp add: lexes_def)
  obtain l' where l': "is_symbol c" "gettoken l = Some (c, np1 l, l')" "lexes l' ts" "\<forall>a < np2 l. lmem l' a = lmem l a"
    "np2 l' = 0 \<or> np2 l < np2 l'" using gettoken_symbol [OF 3(3)] by blast
  note c = symbols [OF l'(1)]
  have a': "cut_words l' ps args" by (rule cut_words_step [OF 3(4) p l'(4,5)])
  consider (inp) "c = 60" | (outp) "c = 62" | (pip) "c = 124" | (other) "c \<noteq> 60" "c \<noteq> 62" "c \<noteq> 124" by blast
  then show ?case
  proof cases
    case inp
    show ?thesis
    proof (cases ts rule: run_tokens_next)
      case (1 w ts')
      then show ?thesis using gettoken_word [of l' w ts'] l'(3) inp c by (subst sh_loop.simps) (auto simp: l'(2))
    next
      case 2
      then show ?thesis
        using gettoken_other [OF l'(3)] inp c by (subst sh_loop.simps) (auto simp: l'(2) split: list.splits token.splits)
    qed
  next
    case outp
    show ?thesis
    proof (cases ts rule: run_tokens_next)
      case (1 w ts')
      obtain l2 where l2: "gettoken l' = Some (TOK_WORD, np1 l', l2)" "lexes l2 ts'" "\<forall>a < np2 l'. lmem l2 a = lmem l' a"
        "np2 l2 = 0 \<or> np2 l' < np2 l2" "cstr (lmem l2) (np1 l') w" using gettoken_word l'(3) 1 by blast
      have "0 < np2 l'" using l'(3) unfolding 1 lexes_def list.case token.case by blast
      note a2 = cut_words_step [OF a' this l2(3,4)]
      have "sh_loop ans ps l2 (log @ [Opened w O_OUT (fst (ans log))] @ output_to (fst (ans log)))
          = Some (run_tokens ans args ts' (log @ [Opened w O_OUT (fst (ans log))] @ output_to (fst (ans log))))"
        if "\<not> fst (ans log) < 0"
        using 3(1) [OF _ outp 1 refl refl refl that l2(2) a2] outp by simp
      with 1 outp c cstring_run [OF l2(5)] l2(1) show ?thesis
        by (subst sh_loop.simps) (auto simp: l'(2) Let_def)
    next
      case 2
      then show ?thesis
        using gettoken_other [OF l'(3)] outp c by (subst sh_loop.simps) (auto simp: l'(2) split: list.splits token.splits)
    qed
  next
    case pip
    obtain r p0 p1 where r: "ans log = (r, p0, p1)" by (cases "ans log")
    define f where "f = fst (ans (log @ [Piped r p0 p1]))"
    have "sh_loop ans [] l' (log @ [Piped r p0 p1] @ [Forked f] @ reader_side p0 p1)
        = Some (run_tokens ans [] ts (log @ [Piped r p0 p1] @ [Forked f] @ reader_side p0 p1))" if "\<not> r < 0" "f = 0"
    proof -
      have "cut_words l' [] []" by (simp add: cut_words_def)
      then show ?thesis
        using 3(2) [OF _ _ pip r [symmetric] refl refl that(1) refl refl _ _ l'(3)] pip that by (simp add: f_def)
    qed
    with pip c r run_argv_run [OF a'] show ?thesis
      by (subst sh_loop.simps) (auto simp: l'(2) Let_def f_def)
  next
    case other
    with c show ?thesis by (subst sh_loop.simps) (simp add: l'(2))
  qed
qed


lemma runcmd_run:
  assumes "0 < s" and "cstr m s line"
  shows "runcmd ans m s = Some (run_tokens ans [] (tokens line) [])"
proof -
  let ?l = "\<lparr>lmem = m, nc = 0, np1 = 0, np2 = 0\<rparr>"
  have "cstr (lmem ?l) s line" using assms(2) by simp
  from raw_gettoken_run [OF assms(1) this] obtain l where l: "raw_gettoken s ?l = Some l" "lexes l (tokens line)" by blast
  have "cut_words l [] []" by (simp add: cut_words_def)
  from sh_loop_run [OF l(2) this] l(1) show ?thesis by (simp add: runcmd_def)
qed

section \<open>Descriptors of the processes\<close>

text \<open>What a descriptor refers to; pipes are numbered in the order they are made.\<close>

datatype sh_obj = Inherited nat | Out_file "u8 list" | Read_end nat | Write_end nat

type_synonym fd_table = "int \<Rightarrow> sh_obj option"

fun fd_step :: "sh_event \<Rightarrow> fd_table \<times> nat \<Rightarrow> fd_table \<times> nat" where
  "fd_step (Opened f mode r) (t, k) = (if r < 0 then (t, k) else (t(r \<mapsto> Out_file f), k))"
| "fd_step (Duped a b) (t, k) = (t(b := t a), k)"
| "fd_step (Closed a) (t, k) = (t(a := None), k)"
| "fd_step (Piped r p0 p1) (t, k) = (if r < 0 then (t, k) else (t(p0 \<mapsto> Read_end k, p1 \<mapsto> Write_end k), k + 1))"
| "fd_step Closed_all (t, k) = (\<lambda>_. None, k)"
| "fd_step (Forked r) (t, k) = (t, k)"
| "fd_step (Spawned f as r) (t, k) = (t, k)"
| "fd_step (Waited r) (t, k) = (t, k)"

definition fds :: "fd_table \<Rightarrow> sh_event list \<Rightarrow> fd_table \<times> nat" where
  "fds t log = fold fd_step log (t, 0)"

lemma fds_append: "fds t (xs @ ys) = fold fd_step ys (fds t xs)"
  by (simp add: fds_def)

text \<open>
  All calls succeed, with descriptors that are not in use, and \<open>fork\<close> answers as in process \<open>i\<close> of the
  pipeline: it comes out of the first \<open>i\<close> forks as the child and out of the next as the parent.
\<close>

definition after_pipe :: "sh_event list \<Rightarrow> bool" where
  "after_pipe log \<longleftrightarrow> log \<noteq> [] \<and> (case last log of Piped r p0 p1 \<Rightarrow> True | _ \<Rightarrow> False)"

definition process :: "nat \<Rightarrow> fd_table \<Rightarrow> answers \<Rightarrow> bool" where
  "process i t ans \<longleftrightarrow> (\<forall>log. case ans log of (r, p0, p1) \<Rightarrow> case fds t log of (u, k) \<Rightarrow>
     if after_pipe log then (if k \<le> i then r = 0 else 0 < r)
     else 0 \<le> r \<and> u r = None \<and> u p0 = None \<and> u p1 = None \<and> p0 \<noteq> p1)"

fun pipeline_tokens :: "u8 list list list \<Rightarrow> u8 list option \<Rightarrow> token list" where
  "pipeline_tokens [] out = []"
| "pipeline_tokens [ws] out = map Word ws @ (case out of None \<Rightarrow> [] | Some f \<Rightarrow> [Symb 62, Word f])"
| "pipeline_tokens (ws # wss) out = map Word ws @ Symb 124 # pipeline_tokens wss out"

definition stage_ok :: "u8 list list \<Rightarrow> bool" where
  "stage_ok ws \<longleftrightarrow> ws \<noteq> [] \<and> length ws < 16 \<and> length (hd ws) + 2 \<le> 1024"

definition command_path :: "u8 list \<Rightarrow> u8 list" where
  "command_path name = (if name = [] \<or> hd name \<noteq> SLASH_sh then SLASH_sh # name else name)"

lemma run_words: "length args + length ws \<le> 16 \<Longrightarrow> run_tokens ans args (map Word ws @ ts) log = run_tokens ans (args @ ws) ts log"
  by (induction ws arbitrary: args) (simp_all add: MAXARGS_sh_def)

lemma run_it_runs:
  assumes "stage_ok ws"
  shows "run_it ans ws f log = (Finished, log @ [Spawned (command_path (hd ws)) (command_path (hd ws) # tl ws) (fst (ans log)), Closed_all]
    @ (if fst (ans log) \<ge> 0 then [Waited (fst (ans log))] else []) @ (if f \<noteq> 0 then [Waited f] else []))"
  using assms by (simp add: run_it_def stage_ok_def MAXARGS_sh_def BUFSIZ_def command_path_def Let_def)

lemma process_call:
  assumes "process i t ans" and "\<not> after_pipe log" and "fds t log = (u, k)" and "ans log = (r, p0, p1)"
  shows "0 \<le> r" "u r = None" "u p0 = None" "u p1 = None" "p0 \<noteq> p1"
  using assms by (auto simp: process_def dest!: spec [of _ log])

lemma process_fork:
  assumes "process i t ans" and "after_pipe log" and "fds t log = (u, k)"
  shows "k \<le> i \<Longrightarrow> fst (ans log) = 0" "i < k \<Longrightarrow> 0 < fst (ans log)"
  using assms by (cases "ans log"; auto simp: process_def dest!: spec [of _ log])+

lemma output_table:
  assumes "u r = None" "u 1 \<noteq> None" "0 \<le> r"
  shows "fold fd_step (Opened f O_OUT r # output_to r) (u, k) = (u(1 \<mapsto> Out_file f), k)"
  using assms by (auto simp: output_to_def fun_eq_iff)

lemma reader_table:
  assumes "u p0 = None" "u p1 = None" "p0 \<noteq> p1" "u 0 \<noteq> None" "0 \<le> r"
  shows "fold fd_step (Piped r p0 p1 # Forked f # reader_side p0 p1) (u, k) = (u(0 \<mapsto> Read_end k), k + 1)"
proof -
  have "p0 \<noteq> 0" "p1 \<noteq> 0" using assms(1,2,4) by auto
  with assms show ?thesis by (auto simp: reader_side_def fun_eq_iff)
qed

lemma writer_table:
  assumes "u p0 = None" "u p1 = None" "p0 \<noteq> p1" "u 1 \<noteq> None" "0 \<le> r"
  shows "fold fd_step (Piped r p0 p1 # Forked f # writer_side p0 p1) (u, k) = (u(1 \<mapsto> Write_end k), k + 1)"
proof -
  have "p0 \<noteq> 1" "p1 \<noteq> 1" using assms(1,2,4) by auto
  with assms show ?thesis by (auto simp: writer_side_def fun_eq_iff)
qed

lemma not_after_pipe:
  "\<not> after_pipe []" "after_pipe (log @ [Piped r p0 p1])" "\<not> after_pipe (log @ e # output_to r)" "\<not> after_pipe (log @ e # reader_side p0 p1)"
  "\<not> after_pipe (log @ e # writer_side p0 p1)" if "\<And>r p0 p1. e \<noteq> Piped r p0 p1"
  using that by (auto simp: after_pipe_def output_to_def reader_side_def writer_side_def split: sh_event.splits)

text \<open>Process \<open>i\<close> on the rest of a pipeline, when it has made \<open>k\<close> pipes.\<close>

lemma pipeline_run:
  assumes "process i t ans" and "fds t log = (u, k)" and "\<not> after_pipe log" and "k \<le> i" "i < k + length wss"
    and "\<forall>ws \<in> set wss. stage_ok ws" and "u 0 \<noteq> None" "u 1 \<noteq> None"
  shows "\<exists>log' r f. let path = command_path (hd (wss ! (i - k))) in
    run_tokens ans [] (pipeline_tokens wss out) log = (Finished, log' @ Spawned path (path # tl (wss ! (i - k))) r
       # Closed_all # Waited r # (if i + 1 < k + length wss then [Waited f] else []))
    \<and> (0 < f \<or> i + 1 = k + length wss)
    \<and> fst (fds t log') = u(0 := (if i = k then u 0 else Some (Read_end (i - 1))),
         1 := (if i + 1 < k + length wss then Some (Write_end i) else case out of None \<Rightarrow> u 1 | Some f \<Rightarrow> Some (Out_file f)))"
  using assms
proof (induction wss out arbitrary: log u k rule: pipeline_tokens.induct)
  case (1 out)
  then show ?case by simp
next
  case (2 ws out)
  have i: "i = k" and ok: "stage_ok ws" using 2 by simp_all
  have l: "length ws \<le> 16" using ok by (simp add: stage_ok_def)
  show ?case
  proof (cases out)
    case None
    obtain r p0 p1 where r: "ans log = (r, p0, p1)" by (cases "ans log")
    have "0 \<le> r" using process_call [OF 2(1,3,2) r] by simp
    with r 2(2) i None run_words [of "[]" ws ans "[]" log] l run_it_runs [OF ok, of ans 0 log] show ?thesis
      by (intro exI [of _ log] exI [of _ r] exI [of _ 0]) (simp add: Let_def)
  next
    case (Some g)
    obtain r p0 p1 where r: "ans log = (r, p0, p1)" by (cases "ans log")
    note c = process_call [OF 2(1,3,2) r]
    let ?log = "log @ Opened g O_OUT r # output_to r"
    have tb: "fds t ?log = (u(1 \<mapsto> Out_file g), k)"
      using output_table [of u r g k] c 2(2,8) by (simp add: fds_append)
    have na: "\<not> after_pipe ?log" by (rule not_after_pipe) simp
    obtain r' q0 q1 where r': "ans ?log = (r', q0, q1)" by (cases "ans ?log")
    have "0 \<le> r'" using process_call [OF 2(1) na tb r'] by simp
    moreover have "run_tokens ans ws [Symb 62, Word g] log = run_it ans ws 0 ?log"
      using r c(1) by (simp add: Let_def)
    ultimately show ?thesis
      using r' tb i Some run_words [of "[]" ws ans "[Symb 62, Word g]" log] l run_it_runs [OF ok, of ans 0 ?log]
      by (intro exI [of _ ?log] exI [of _ r'] exI [of _ 0]) (simp add: Let_def)
  qed
next
  case (3 ws ws' wss out)
  let ?rest = "ws' # wss"
  have ok: "stage_ok ws" using 3(7) by simp
  have l: "length ws \<le> 16" using ok by (simp add: stage_ok_def)
  obtain r p0 p1 where r: "ans log = (r, p0, p1)" by (cases "ans log")
  note c = process_call [OF 3(2,4,3) r]
  define f where "f = fst (ans (log @ [Piped r p0 p1]))"
  have run: "run_tokens ans [] (pipeline_tokens (ws # ?rest) out) log = (if f < 0 then (Fork_failed, log @ [Piped r p0 p1, Forked f])
    else if f = 0 then run_tokens ans [] (pipeline_tokens ?rest out) (log @ Piped r p0 p1 # Forked f # reader_side p0 p1)
    else run_it ans ws f (log @ Piped r p0 p1 # Forked f # writer_side p0 p1))"
    using run_words [of "[]" ws ans "Symb 124 # pipeline_tokens ?rest out" log] l r c(1) by (simp add: Let_def f_def)
  have tp: "fds t (log @ [Piped r p0 p1]) = (u(p0 \<mapsto> Read_end k, p1 \<mapsto> Write_end k), k + 1)"
    using 3(3) c(1) by (simp add: fds_append)
  have ap: "after_pipe (log @ [Piped r p0 p1])" by (simp add: after_pipe_def)
  note fk = process_fork [OF 3(2) ap tp]
  show ?case
  proof (cases "i = k")
    case True
    then have f: "0 < f" using fk(2) by (simp add: f_def)
    let ?log = "log @ Piped r p0 p1 # Forked f # writer_side p0 p1"
    have tb: "fds t ?log = (u(1 \<mapsto> Write_end k), k + 1)"
      using writer_table [of u p0 p1 r f k] c 3(3,9) by (simp add: fds_append)
    have na: "\<not> after_pipe ?log" using not_after_pipe(5) [of "Forked f" "log @ [Piped r p0 p1]" p0 p1] by simp
    obtain r' q0 q1 where r': "ans ?log = (r', q0, q1)" by (cases "ans ?log")
    have "0 \<le> r'" using process_call [OF 3(2) na tb r'] by simp
    with r' tb True f run run_it_runs [OF ok, of ans f ?log] show ?thesis
      by (intro exI [of _ ?log] exI [of _ r'] exI [of _ f]) (simp add: Let_def)
  next
    case False
    then have f: "f = 0" using fk(1) 3(5) by (simp add: f_def)
    let ?log = "log @ Piped r p0 p1 # Forked f # reader_side p0 p1"
    have tb: "fds t ?log = (u(0 \<mapsto> Read_end k), k + 1)"
      using reader_table [of u p0 p1 r f k] c 3(3,8) by (simp add: fds_append)
    have na: "\<not> after_pipe ?log" using not_after_pipe(4) [of "Forked f" "log @ [Piped r p0 p1]" p0 p1] by simp
    have ih: "\<exists>log' r f. let path = command_path (hd (?rest ! (i - (k + 1)))) in
      run_tokens ans [] (pipeline_tokens ?rest out) ?log = (Finished, log' @ Spawned path (path # tl (?rest ! (i - (k + 1)))) r
       # Closed_all # Waited r # (if i + 1 < k + 1 + length ?rest then [Waited f] else []))
      \<and> (0 < f \<or> i + 1 = k + 1 + length ?rest)
      \<and> fst (fds t log') = (u(0 \<mapsto> Read_end k))(0 := (if i = k + 1 then (u(0 \<mapsto> Read_end k)) 0 else Some (Read_end (i - 1))),
         1 := (if i + 1 < k + 1 + length ?rest then Some (Write_end i) else case out of None \<Rightarrow> (u(0 \<mapsto> Read_end k)) 1 | Some f \<Rightarrow> Some (Out_file f)))"
      using 3(5-9) False by (intro 3(1) [OF 3(2) tb na]) auto
    have n: "(ws # ?rest) ! (i - k) = ?rest ! (i - (k + 1))" using False 3(5) by (simp add: nth_Cons')
    have rn: "run_tokens ans [] (pipeline_tokens (ws # ?rest) out) log = run_tokens ans [] (pipeline_tokens ?rest out) ?log"
      using run f by simp
    have z: "(u(0 \<mapsto> Read_end k))(0 := (if i = k + 1 then (u(0 \<mapsto> Read_end k)) 0 else Some (Read_end (i - 1))),
         1 := (if i + 1 < k + 1 + length ?rest then Some (Write_end i) else case out of None \<Rightarrow> (u(0 \<mapsto> Read_end k)) 1 | Some f \<Rightarrow> Some (Out_file f)))
      = u(0 := (if i = k then u 0 else Some (Read_end (i - 1))),
         1 := (if i + 1 < k + length (ws # ?rest) then Some (Write_end i) else case out of None \<Rightarrow> u 1 | Some f \<Rightarrow> Some (Out_file f)))"
      using False by (auto split: option.splits)
    have len: "k + 1 + length ?rest = k + length (ws # ?rest)" by simp
    show ?thesis using ih unfolding z unfolding rn n len .
  qed
qed


section \<open>Lines\<close>

definition word_ok :: "u8 list \<Rightarrow> bool" where
  "word_ok w \<longleftrightarrow> w \<noteq> [] \<and> list_all is_wordc w"

definition show_words :: "u8 list list \<Rightarrow> u8 list" where
  "show_words ws = concat (map (\<lambda>w. w @ [32]) ws)"

fun show_pipeline :: "u8 list list list \<Rightarrow> u8 list option \<Rightarrow> u8 list" where
  "show_pipeline [] out = []"
| "show_pipeline [ws] out = show_words ws @ (case out of None \<Rightarrow> [] | Some f \<Rightarrow> 62 # f @ [32])"
| "show_pipeline (ws # wss) out = show_words ws @ 124 # show_pipeline wss out"

lemma tokens_blank: "is_white c \<Longrightarrow> tokens (c # xs) = tokens xs"
  by (subst (1 2) tokens.simps) simp

lemma tokens_symbol: "is_symbol c \<Longrightarrow> \<not> is_white c \<Longrightarrow> tokens (c # xs) = Symb c # tokens xs"
  by (subst tokens.simps) simp

lemma white_32: "is_white 32" "\<not> is_wordc 32"
  by (simp_all add: is_white_def is_wordc_def)

lemma tokens_word: "word_ok w \<Longrightarrow> tokens (w @ 32 # xs) = Word w # tokens xs"
proof -
  assume w: "word_ok w"
  then obtain c cs where c: "w = c # cs" "is_wordc c" by (cases w) (auto simp: word_ok_def)
  have "dropWhile is_white (w @ 32 # xs) = w @ 32 # xs" "\<not> is_symbol c" using c by (simp_all add: is_wordc_def)
  moreover have "takeWhile is_wordc (w @ 32 # xs) = w" "dropWhile is_wordc (w @ 32 # xs) = 32 # xs"
    using w white_32 by (simp_all add: word_ok_def list_all_iff takeWhile_append dropWhile_append)
  ultimately have "tokens (w @ 32 # xs) = Word w # tokens (32 # xs)" using c(1) by (subst tokens.simps) simp
  with tokens_blank [OF white_32(1)] show ?thesis by simp
qed

lemma tokens_words: "list_all word_ok ws \<Longrightarrow> tokens (show_words ws @ xs) = map Word ws @ tokens xs"
  by (induction ws) (simp_all add: show_words_def tokens_word)

lemma tokens_pipeline:
  assumes "\<forall>ws \<in> set wss. list_all word_ok ws" and "\<And>f. out = Some f \<Longrightarrow> word_ok f"
  shows "tokens (show_pipeline wss out) = pipeline_tokens wss out"
proof -
  have b: "tokens [] = []" by (subst tokens.simps) simp
  have s: "is_symbol 62" "is_symbol 124" "\<not> is_white 62" "\<not> is_white 124"
    by (simp_all add: is_symbol_def SYMBOLS_def is_white_def)
  show ?thesis using assms
    by (induction wss out rule: pipeline_tokens.induct)
      (auto simp: tokens_words b tokens_symbol s tokens_word split: option.splits)
qed

section \<open>Properties\<close>

text \<open>
  Property C20. \<open>runcmd\<close> ends for every line and does what the list of its tokens says: the words it passes on,
  cut out of the line in place while the scanner is one token ahead, are the words of the
  line, whatever the library calls answer.
\<close>

theorem runcmd_tokens:
  assumes "0 < s" and "cstr m s line"
  shows "runcmd ans m s = Some (run_tokens ans [] (tokens line) [])"
  using assms by (rule runcmd_run)

text \<open>
  Property C19. A pipeline, with or without an output file at its end, becomes one process for each
  command. When the calls succeed, process \<open>i\<close> spawns the program of command \<open>i\<close> with its words, reading from
  pipe \<open>i - 1\<close> and writing to pipe \<open>i\<close>; the first reads what the shell read, the last writes to
  the file or where the shell wrote, every other descriptor is as in the shell, and it waits for its
  program and, but for the last, for the process it has forked.
\<close>

theorem sh_pipeline_wiring:
  assumes "0 < s" and "cstr m s (show_pipeline wss out)" and "\<forall>ws \<in> set wss. stage_ok ws \<and> list_all word_ok ws"
    and "case out of None \<Rightarrow> True | Some f \<Rightarrow> word_ok f" and "i < length wss" and "process i t ans" and "t 0 \<noteq> None" "t 1 \<noteq> None"
  shows "\<exists>log r f. let path = command_path (hd (wss ! i)) in
    runcmd ans m s = Some (Finished, log @ Spawned path (path # tl (wss ! i)) r # Closed_all # Waited r # (if i + 1 < length wss then [Waited f] else []))
    \<and> (0 < f \<or> i + 1 = length wss)
    \<and> fst (fds t log) = t(0 := (if i = 0 then t 0 else Some (Read_end (i - 1))),
         1 := (if i + 1 < length wss then Some (Write_end i) else case out of None \<Rightarrow> t 1 | Some f \<Rightarrow> Some (Out_file f)))"
proof -
  have "tokens (show_pipeline wss out) = pipeline_tokens wss out"
    using assms(3,4) by (intro tokens_pipeline) auto
  with runcmd_run [OF assms(1,2), of ans]
  have run: "runcmd ans m s = Some (run_tokens ans [] (pipeline_tokens wss out) [])" by simp
  have "\<forall>ws \<in> set wss. stage_ok ws" using assms(3) by blast
  with pipeline_run [OF assms(6), of "[]" t 0 wss out] assms(5,7,8) show ?thesis
    unfolding run by (simp add: fds_def not_after_pipe(1) [of Closed_all])
qed

lemma sh_arguments_options:
  "sh_arguments (p # as) =
     (case sh_flags (map unat (fst (options as))) \<lparr>debug = 0, interactive = False, echocmds = False\<rparr> of None \<Rightarrow> None
      | Some opts \<Rightarrow> (case snd (options as) of [] \<Rightarrow> Some (opts, None) | [f] \<Rightarrow> Some (opts, Some f) | _ \<Rightarrow> None))"
  using flag_loop_run [of p as]
  by (cases "flag_loop (argstart (p # as))") (auto simp: sh_arguments_def split: option.splits list.splits)

text \<open>
  What goes wrong. Sixteen words pass the check for too many, and \<open>argv[argc] = 0\<close> is then written after the
  end of \<open>argv\<close>; a bar after a redirection gives the next command the file as its output as well; a
  bar without a command before it leaves the process that is forked unwaited for.
\<close>

lemma sixteen_arguments_overrun:
  "length ws = 16 \<Longrightarrow> run_tokens ans [] (map Word ws) log = (Overrun, log)"
  using run_words [of "[]" ws ans "[]" log] by (auto simp: run_it_def MAXARGS_sh_def Let_def)

lemma redirection_inherited:
  assumes "process i t ans" and "fds t log = (u, k)" and "\<not> after_pipe log" and "k < i" and "u 0 \<noteq> None" "u 1 \<noteq> None"
  shows "\<exists>log'. run_tokens ans args (Symb 62 # Word g # Symb 124 # ts) log = run_tokens ans [] ts log'
    \<and> fds t log' = (u(0 \<mapsto> Read_end k, 1 \<mapsto> Out_file g), k + 1)"
proof -
  obtain r p0 p1 where r: "ans log = (r, p0, p1)" by (cases "ans log")
  note c = process_call [OF assms(1,3,2) r]
  let ?log = "log @ Opened g O_OUT r # output_to r"
  have tb: "fds t ?log = (u(1 \<mapsto> Out_file g), k)" using output_table [of u r g k] c assms(2,6) by (simp add: fds_append)
  have na: "\<not> after_pipe ?log" by (rule not_after_pipe) simp
  obtain r' q0 q1 where r': "ans ?log = (r', q0, q1)" by (cases "ans ?log")
  note c' = process_call [OF assms(1) na tb r']
  have tp: "fds t (?log @ [Piped r' q0 q1]) = ((u(1 \<mapsto> Out_file g))(q0 \<mapsto> Read_end k, q1 \<mapsto> Write_end k), k + 1)"
    using tb c'(1) by (simp add: fds_append)
  have "after_pipe (?log @ [Piped r' q0 q1])" by (simp add: after_pipe_def)
  from process_fork(1) [OF assms(1) this tp] assms(4) have f: "fst (ans (?log @ [Piped r' q0 q1])) = 0" by simp
  let ?log' = "?log @ Piped r' q0 q1 # Forked 0 # reader_side q0 q1"
  have "fds t ?log' = (u(0 \<mapsto> Read_end k, 1 \<mapsto> Out_file g), k + 1)"
    unfolding fds_append [of t ?log] tb
    using reader_table [of "u(1 \<mapsto> Out_file g)" q0 q1 r' 0 k] c' assms(5) by (auto simp: fun_upd_twist)
  moreover have "run_tokens ans args (Symb 62 # Word g # Symb 124 # ts) log = run_tokens ans [] ts ?log'"
    using r r' c(1) c'(1) f by (simp add: Let_def)
  ultimately show ?thesis by blast
qed

lemma leading_bar_not_waited:
  assumes "ans log = (0, p0, p1)" and "0 < fst (ans (log @ [Piped 0 p0 p1]))"
  shows "fst (run_tokens ans [] (Symb 124 # ts) log) = Nothing_to_run"
  using assms by (simp add: run_it_def Let_def)

text \<open>Answers with fresh descriptors.\<close>

fun event_top :: "sh_event \<Rightarrow> int" where
  "event_top (Opened f mode r) = r"
| "event_top (Duped a b) = b"
| "event_top (Piped r p0 p1) = max p0 p1"
| "event_top _ = 0"

definition log_top :: "sh_event list \<Rightarrow> int" where
  "log_top log = foldl (\<lambda>n e. max n (event_top e)) 1 log"

definition demo_table :: fd_table where
  "demo_table = [0 \<mapsto> Inherited 0, 1 \<mapsto> Inherited 1]"

definition demo_answers :: "nat \<Rightarrow> answers" where
  "demo_answers i log = (if after_pipe log then (if snd (fds demo_table log) \<le> i then 0 else 7, 0, 0)
     else (log_top log + 1, log_top log + 2, log_top log + 3))"

lemma below_top: "fst (fds demo_table log) x \<noteq> None \<Longrightarrow> x \<le> log_top log"
proof (induction log arbitrary: x rule: rev_induct)
  case Nil
  then show ?case by (auto simp: fds_def demo_table_def log_top_def split: if_splits)
next
  case (snoc e log)
  obtain u k where u: "fds demo_table log = (u, k)" by (cases "fds demo_table log")
  have "log_top (log @ [e]) = max (log_top log) (event_top e)" by (simp add: log_top_def)
  with snoc u show ?case by (cases e) (auto simp: fds_append le_max_iff_disj split: if_splits)
qed

lemma log_top_pos: "1 \<le> log_top log"
  by (induction log rule: rev_induct) (simp_all add: log_top_def)

lemma demo_process: "process i demo_table (demo_answers i)"
  unfolding process_def
proof
  fix log
  obtain u k where u: "fds demo_table log = (u, k)" by (cases "fds demo_table log")
  have "u (log_top log + n) = None" if "0 < n" for n
    using below_top [of log "log_top log + n"] u that by fastforce
  with u log_top_pos [of log] show "case demo_answers i log of (r, p0, p1) \<Rightarrow> case fds demo_table log of (u, k) \<Rightarrow>
     if after_pipe log then (if k \<le> i then r = 0 else 0 < r)
     else 0 \<le> r \<and> u r = None \<and> u p0 = None \<and> u p1 = None \<and> p0 \<noteq> p1"
    by (simp add: demo_answers_def)
qed

text \<open>The line \<open>l a | c > o\<close>.\<close>

definition demo_line :: "u8 list" where
  "demo_line = [108, 32, 97, 32, 124, 99, 32, 62, 111, 32]"

definition line_mem :: bmem where
  "line_mem = (\<lambda>a. if 100 \<le> a \<and> a < 110 then demo_line ! (a - 100) else 0)"

lemma line_mem_demo: "cstr line_mem 100 demo_line"
proof -
  have "line_mem (100 + i) = demo_line ! i" if "i < 10" for i using that by (simp add: line_mem_def)
  then show ?thesis by (simp add: cstr_def demo_line_def line_mem_def)
qed

theorem runcmd_tokens_witness:
  "runcmd (\<lambda>log. (0, 5, 6)) line_mem 100 = Some (Finished, [Piped 0 5 6, Forked 0, Duped 5 0, Closed 5, Closed 6,
     Opened [111] 0x301 0, Duped 0 1, Closed 0, Spawned [47, 99] [[47, 99]] 0, Closed_all, Waited 0])"
proof -
  have "tokens demo_line = [Word [108], Word [97], Symb 124, Word [99], Symb 62, Word [111]]"
    by (simp add: demo_line_def tokens.simps is_white_def is_symbol_def is_wordc_def SYMBOLS_def)
  with runcmd_tokens [OF _ line_mem_demo, of "\<lambda>log. (0, 5, 6)"] show ?thesis
    by (simp add: run_it_def MAXARGS_sh_def BUFSIZ_def SLASH_sh_def reader_side_def output_to_def O_OUT_def Let_def)
qed

theorem sh_pipeline_wiring_witness:
  "\<exists>log r. runcmd (demo_answers 1) line_mem 100 = Some (Finished, log @ [Spawned [47, 99] [[47, 99]] r, Closed_all, Waited r])
    \<and> fst (fds demo_table log) 0 = Some (Read_end 0) \<and> fst (fds demo_table log) 1 = Some (Out_file [111])
    \<and> fst (fds demo_table log) 3 = None"
proof -
  have "show_pipeline [[[108], [97]], [[99]]] (Some [111]) = demo_line" by (simp add: show_words_def demo_line_def)
  with line_mem_demo have line: "cstr line_mem 100 (show_pipeline [[[108], [97]], [[99]]] (Some [111]))" by simp
  have "\<exists>log r f. let path = command_path (hd ([[[108], [97]], [[99]]] ! 1)) in
    runcmd (demo_answers 1) line_mem 100 = Some (Finished, log @ Spawned path (path # tl ([[[108], [97]], [[99]]] ! 1)) r # Closed_all # Waited r
      # (if 1 + 1 < length [[[108], [97]], [[99 :: u8]]] then [Waited f] else []))
    \<and> (0 < f \<or> 1 + 1 = length [[[108], [97]], [[99 :: u8]]])
    \<and> fst (fds demo_table log) = demo_table(0 := (if (1 :: nat) = 0 then demo_table 0 else Some (Read_end (1 - 1))),
         1 := (if 1 + 1 < length [[[108], [97]], [[99 :: u8]]] then Some (Write_end 1)
               else case Some [111] of None \<Rightarrow> demo_table 1 | Some f \<Rightarrow> Some (Out_file f)))"
    by (rule sh_pipeline_wiring [OF _ line _ _ _ demo_process])
      (simp_all add: stage_ok_def word_ok_def is_wordc_def is_white_def is_symbol_def SYMBOLS_def demo_table_def)
  then obtain log r where "runcmd (demo_answers 1) line_mem 100 = Some (Finished, log @ [Spawned [47, 99] [[47, 99]] r, Closed_all, Waited r])"
    "fst (fds demo_table log) = demo_table(0 := Some (Read_end 0), 1 := Some (Out_file [111]))"
    by (auto simp: command_path_def SLASH_sh_def Let_def)
  then show ?thesis by (intro exI [of _ log] exI [of _ r]) (simp add: demo_table_def)
qed

end
