(* ===== verification/Jos_Dir.thy ===== *)
theory Jos_Dir
  imports Jos_Mount
begin

text \<open>
  Looking names up in a mounted file system: what \<open>dir_lookup\<close> and \<open>walk_path\<close> of \<^verbatim>\<open>tps/fs/fs.c\<close> find,
  in terms of the entries a directory holds.
\<close>

section \<open>Comparing names\<close>

text \<open>The null-terminated string at \<open>a\<close> is \<open>xs\<close>.\<close>

definition name_at :: "fs_state \<Rightarrow> nat \<Rightarrow> u8 list \<Rightarrow> bool" where
  "name_at s a xs \<longleftrightarrow> (\<forall>i < length (xs @ [0]). view s (a + i) = (xs @ [0]) ! i)"

lemma name_at_Nil: "name_at s a [] \<longleftrightarrow> view s a = 0"
  by (simp add: name_at_def)

lemma name_at_Cons: "name_at s a (x # xs) \<longleftrightarrow> view s a = x \<and> name_at s (a + 1) xs"
proof -
  have all: "(\<forall>i < Suc n. P i) \<longleftrightarrow> P 0 \<and> (\<forall>i < n. P (Suc i))" for n and P :: "nat \<Rightarrow> bool"
    by (auto simp: less_Suc_eq_0_disj)
  show ?thesis by (simp add: name_at_def all)
qed

text \<open>A piece of memory inside one block that is in use.\<close>

definition span :: "fs_state \<Rightarrow> nat \<Rightarrow> nat \<Rightarrow> bool" where
  "span s a n \<longleftrightarrow> usable s a \<and> in_block (block_of a) a \<and> in_block (block_of a) (a + n)"

lemma span_sub:
  assumes "mounted s" "span s a n" "i + k \<le> n"
  shows "span s (a + i) k" "i \<le> n \<Longrightarrow> in_diskmap (a + i)"
proof -
  have b: "in_block (block_of a) (a + j)" if "j \<le> n" for j
    using assms(2) that by (auto simp: span_def intro: in_block_between [of _ a "a + n"])
  have u: "usable s a" using assms(2) by (simp add: span_def)
  show "in_diskmap (a + i)" using usable_in_block(2) [OF assms(1) u b] assms(3) by simp
  show "span s (a + i) k"
    using usable_in_block [OF assms(1) u b] b [of i] b [of "i + k"] assms(3) by (simp add: span_def add.assoc)
qed

lemma span_same: "same_fs s s' \<Longrightarrow> mounted s \<Longrightarrow> span s' a n = span s a n"
  by (simp add: span_def usable_same)

lemma name_at_same:
  assumes "same_fs s s'" "mounted s" "span s a (length xs)"
  shows "name_at s' a xs = name_at s a xs"
proof -
  have "view s' (a + i) = view s (a + i)" if "i < length (xs @ [0])" for i
    using span_sub(2) [OF assms(2,3), of i 0] that assms(1) by (simp add: same_fs_def)
  then show ?thesis by (simp add: name_at_def)
qed

lemma name_eq_mounted:
  assumes "mounted s" "span s a (length xs)" "\<And>s'. same_fs s s' \<Longrightarrow> Q (name_at s a xs) s'"
  shows "runs (name_eq xs a) s Q"
  using assms
proof (induction xs arbitrary: a s Q)
  case Nil
  then show ?case
    unfolding name_eq.simps runs_bind by (intro rd8_runs) (simp_all add: name_at_Nil span_def)
next
  case (Cons x xs)
  show ?case
    unfolding name_eq.simps runs_bind
  proof (rule rd8_runs [OF Cons.prems(1)])
    show "usable s a" using Cons.prems(2) by (simp add: span_def)
    fix s1 assume s1: "same_fs s s1"
    have m1: "mounted s1" using s1 Cons.prems(1) by (rule mounted_same)
    have sp: "span s (a + 1) (length xs)" using span_sub(1) [OF Cons.prems(1,2), of 1 "length xs"] by simp
    have "runs (name_eq xs (a + 1)) s1 Q" if "view s a = x"
    proof (rule Cons.IH [OF m1])
      show "span s1 (a + 1) (length xs)" using sp by (simp add: span_same [OF s1 Cons.prems(1)])
      fix s2 assume "same_fs s1 s2"
      from Cons.prems(3) [OF same_fs_trans [OF s1 this]] that
      show "Q (name_at s1 (a + 1) xs) s2" unfolding name_at_same [OF s1 Cons.prems(1) sp] by (simp add: name_at_Cons)
    qed
    with Cons.prems(3) [OF s1] show "runs (if view s a = x then name_eq xs (a + 1) else freturn False) s1 Q"
      by (cases "view s a = x") (simp_all add: name_at_Cons)
  qed
qed

section \<open>Scanning a directory\<close>

lemma find_append: "List.find P (xs @ ys) = (case List.find P xs of None \<Rightarrow> List.find P ys | Some x \<Rightarrow> Some x)"
  by (induction xs) auto

lemma find_entry_runs:
  assumes "mounted s" "\<And>j. i \<le> j \<Longrightarrow> j < i + k \<Longrightarrow> span s (addr j) (length xs)"
    "\<And>j. i \<le> j \<Longrightarrow> Suc j < i + k \<Longrightarrow> addr (Suc j) = addr j + 256" "k \<noteq> 0 \<Longrightarrow> f = addr i"
    "\<And>s'. same_fs s s' \<Longrightarrow> Q (map_option addr (List.find (\<lambda>j. name_at s (addr j) xs) [i..<i + k])) s'"
  shows "runs (find_entry (name_eq xs) k f) s Q"
  using assms
proof (induction k arbitrary: i f s)
  case (Suc k)
  have f: "f = addr i" using Suc.prems(4) by simp
  have upt: "[i..<i + Suc k] = i # [Suc i..<Suc i + k]" by (simp add: upt_conv_Cons del: upt_Suc)
  show ?case
    unfolding find_entry.simps runs_bind f
  proof (rule name_eq_mounted [OF Suc.prems(1) Suc.prems(2)])
    fix s1 assume s1: "same_fs s s1"
    have m1: "mounted s1" using s1 Suc.prems(1) by (rule mounted_same)
    have "runs (find_entry (name_eq xs) k (addr i + 256)) s1 Q" if n: "\<not> name_at s (addr i) xs"
    proof (rule Suc.IH [OF m1, of "Suc i"])
      show "span s1 (addr j) (length xs)" if "Suc i \<le> j" "j < Suc i + k" for j
        using that Suc.prems(2) [of j] by (simp add: span_same [OF s1 Suc.prems(1)])
      show "addr (Suc j) = addr j + 256" if "Suc i \<le> j" "Suc j < Suc i + k" for j
        using that by (intro Suc.prems(3)) simp_all
      show "addr i + 256 = addr (Suc i)" if "k \<noteq> 0" using that Suc.prems(3) [of i] by simp
      fix s2 assume s2: "same_fs s1 s2"
      have "List.find (\<lambda>j. name_at s1 (addr j) xs) [Suc i..<Suc i + k]
          = List.find (\<lambda>j. name_at s (addr j) xs) [Suc i..<Suc i + k]"
        using Suc.prems(2) by (intro find_cong [OF refl]) (simp add: name_at_same [OF s1 Suc.prems(1)] del: upt_Suc)
      with Suc.prems(5) [OF same_fs_trans [OF s1 s2]] n
      show "Q (map_option addr (List.find (\<lambda>j. name_at s1 (addr j) xs) [Suc i..<Suc i + k])) s2"
        unfolding upt by simp
    qed
    with Suc.prems(5) [OF s1] show "runs (if name_at s (addr i) xs then freturn (Some (addr i))
        else find_entry (name_eq xs) k (addr i + sizeof_File)) s1 Q"
      unfolding upt by (simp add: sizeof_File_def del: upt_Suc split: if_splits)
  qed simp_all
qed (simp add: same_fs_refl)

text \<open>Entry \<open>j\<close> of a directory.\<close>

definition entry_addr :: "fs_state \<Rightarrow> nat \<Rightarrow> nat \<Rightarrow> nat" where
  "entry_addr s dir j = block_addr (direct s dir (j div 16)) + 256 * (j mod 16)"

lemma entry_span:
  assumes "mounted s" "file_ok s dir n" "j < 16 * n" "k < 256"
  shows "span s (entry_addr s dir j) k"
proof -
  have i: "j div 16 < n" using assms(3) by (simp add: less_mult_imp_div_less mult.commute)
  have o: "256 * (j mod 16) + k < 4096" using assms(4) mod_less_divisor [of 16 j] by linarith
  then have b: "block_of (entry_addr s dir j) = direct s dir (j div 16)" by (simp add: entry_addr_def)
  have "usable s (entry_addr s dir j)"
    unfolding entry_addr_def using o by (intro file_ok_block(4) [OF assms(1,2) i]) simp
  then show ?thesis unfolding span_def b using o by (simp add: in_block_def entry_addr_def)
qed

lemma entry_next: "16 * i \<le> j \<Longrightarrow> Suc j < 16 * i + 16 \<Longrightarrow> entry_addr s dir (Suc j) = entry_addr s dir j + 256"
proof -
  assume "16 * i \<le> j" "Suc j < 16 * i + 16"
  moreover from this have "j div 16 = i" "Suc j div 16 = i" by (auto intro: div_nat_eqI)
  ultimately show ?thesis using div_mult_mod_eq [of j 16] div_mult_mod_eq [of "Suc j" 16]
    by (simp add: entry_addr_def)
qed

lemma entry_addr_same:
  "same_fs s s' \<Longrightarrow> mounted s \<Longrightarrow> file_ok s dir n \<Longrightarrow> j < 16 * n \<Longrightarrow> entry_addr s' dir j = entry_addr s dir j"
  using file_ok_same(2) [of s s' dir n "j div 16"] by (simp add: entry_addr_def less_mult_imp_div_less mult.commute)

text \<open>The first entry with a name, among the entries \<open>js\<close>.\<close>

definition find_name :: "fs_state \<Rightarrow> nat \<Rightarrow> u8 list \<Rightarrow> nat list \<Rightarrow> nat option" where
  "find_name s dir name js = List.find (\<lambda>j. name_at s (entry_addr s dir j) name) js"

lemma find_name_same:
  assumes "same_fs s s'" "mounted s" "file_ok s dir n" "\<forall>j \<in> set js. j < 16 * n" "length name < 256"
  shows "find_name s' dir name js = find_name s dir name js"
  unfolding find_name_def using assms
  by (intro find_cong) (simp_all add: entry_addr_same name_at_same [OF _ _ entry_span])

lemma dir_scan_runs:
  assumes "mounted s" "file_ok s dir n" "i + k \<le> n" "length name < 256"
    "\<And>s'. same_fs s s' \<Longrightarrow>
       Q (map_option (\<lambda>j. (0, entry_addr s dir j)) (find_name s dir name [16 * i..<16 * (i + k)])) s'"
  shows "runs (dir_scan (name_eq name) dir k i) s Q"
  using assms
proof (induction k arbitrary: i s)
  case (Suc k)
  have i: "i < n" using Suc.prems(3) by simp
  have upt: "[16 * i..<16 * (i + Suc k)] = [16 * i..<16 * i + 16] @ [16 * (i + 1)..<16 * (i + 1 + k)]"
    using upt_append [of "16 * i" "16 * i + 16" "16 * (i + Suc k)"] by (simp add: algebra_simps)
  show ?case
    unfolding dir_scan.simps runs_bind
  proof (rule ok_get_block_runs [OF Suc.prems(1,2) i])
    fix s1 assume s1: "same_fs s s1"
    have m1: "mounted s1" and f1: "file_ok s1 dir n"
      using mounted_same [OF s1] file_ok_same(1) [OF s1] Suc.prems(1,2) by blast+
    have e: "entry_addr s1 dir j = entry_addr s dir j" if "j < 16 * n" for j
      using that by (rule entry_addr_same [OF s1 Suc.prems(1,2)])
    have bs: "j < 16 * n" if "j < 16 * i + 16" for j using that i by linarith
    have "runs (find_entry (name_eq name) 16 (block_addr (direct s dir i))) s1
       (\<lambda>f s. runs (case f of None \<Rightarrow> dir_scan (name_eq name) dir k (i + 1) | Some f \<Rightarrow> freturn (Some (0, f))) s Q)"
    proof (rule find_entry_runs [OF m1, of "16 * i" 16 "entry_addr s1 dir"])
      show "block_addr (direct s dir i) = entry_addr s1 dir (16 * i)"
        using e [of "16 * i"] bs [of "16 * i"] by (simp add: entry_addr_def)
      fix s2 assume s2: "same_fs s1 s2"
      have st: "same_fs s s2" using s1 s2 by (rule same_fs_trans)
      have m2: "mounted s2" and f2: "file_ok s2 dir n"
        using mounted_same [OF st] file_ok_same(1) [OF st] Suc.prems(1,2) by blast+
      have f: "List.find (\<lambda>j. name_at s1 (entry_addr s1 dir j) name) [16 * i..<16 * i + 16]
          = find_name s dir name [16 * i..<16 * i + 16]"
        using bs Suc.prems(4) find_name_same [OF s1 Suc.prems(1,2), of "[16 * i..<16 * i + 16]" name]
        by (simp add: find_name_def)
      have "runs (dir_scan (name_eq name) dir k (i + 1)) s2 Q"
        if none: "find_name s dir name [16 * i..<16 * i + 16] = None"
      proof (rule Suc.IH [OF m2 f2 _ Suc.prems(4)])
        show "i + 1 + k \<le> n" using Suc.prems(3) by simp
        fix s3 assume s3: "same_fs s2 s3"
        have js: "\<forall>j \<in> set [16 * (i + 1)..<16 * (i + 1 + k)]. j < 16 * n" using Suc.prems(3) by auto
        have "map_option (\<lambda>j. (0::int, entry_addr s2 dir j)) (find_name s dir name [16 * (i + 1)..<16 * (i + 1 + k)])
          = map_option (\<lambda>j. (0, entry_addr s dir j)) (find_name s dir name [16 * (i + 1)..<16 * (i + 1 + k)])"
          using js entry_addr_same [OF st Suc.prems(1,2)] find_Some_iff
          by (intro map_option_cong [OF refl]) (auto simp: find_name_def find_Some_iff)
        with Suc.prems(5) [OF same_fs_trans [OF st s3]] none find_name_same [OF st Suc.prems(1,2) js Suc.prems(4)]
        show "Q (map_option (\<lambda>j. (0, entry_addr s2 dir j)) (find_name s2 dir name [16 * (i + 1)..<16 * (i + 1 + k)])) s3"
          unfolding upt by (simp add: find_name_def find_append)
      qed
      moreover have "Q (Some (0, entry_addr s1 dir j)) s2" if "find_name s dir name [16 * i..<16 * i + 16] = Some j" for j
      proof -
        have "j < 16 * n" using that bs by (auto simp: find_name_def find_Some_iff)
        with Suc.prems(5) [OF st] that show ?thesis unfolding upt by (simp add: find_name_def find_append e)
      qed
      ultimately show "runs (case map_option (entry_addr s1 dir) (List.find (\<lambda>j. name_at s1 (entry_addr s1 dir j) name) [16 * i..<16 * i + 16])
          of None \<Rightarrow> dir_scan (name_eq name) dir k (i + 1) | Some f \<Rightarrow> freturn (Some (0, f))) s2 Q"
        unfolding f by (cases "find_name s dir name [16 * i..<16 * i + 16]") simp_all
    qed (use bs entry_next Suc.prems(4) in \<open>auto intro: entry_span [OF m1 f1]\<close>)
    then show "runs (case (0, block_addr (direct s dir i)) of (r, blk) \<Rightarrow> if r < 0 then freturn (Some (r, 0))
        else fbind (find_entry (name_eq name) BLKFILES blk) (\<lambda>f. case f of None \<Rightarrow> dir_scan (name_eq name) dir k (i + 1)
          | Some f \<Rightarrow> freturn (Some (0, f)))) s1 Q" by (simp only: prod.case less_irrefl if_False runs_bind layout_simps)
  qed
qed (simp add: same_fs_refl find_name_def)

section \<open>Lookup\<close>

text \<open>A directory of \<open>n\<close> blocks, all of them there.\<close>

definition dir_ok :: "fs_state \<Rightarrow> nat \<Rightarrow> nat \<Rightarrow> bool" where
  "dir_ok s dir n \<longleftrightarrow> file_ok s dir n \<and> fsize s dir = int (n * 4096) \<and> load32 (view s) (f_type dir) = FTYPE_DIR"

lemma dir_ok_same: "same_fs s s' \<Longrightarrow> mounted s \<Longrightarrow> dir_ok s dir n \<Longrightarrow> dir_ok s' dir n"
  using file_ok_same(1) [of s s' dir n] fsize_same [of s s' dir] word_same(1) [of s "dir + 132" s']
    field_in [of s dir 132] usable_in_block [of s dir "dir + 132"]
  by (simp add: dir_ok_def f_direct_off file_ok_def file_at_def)

lemma dir_nblock_runs:
  assumes "mounted s" "dir_ok s dir n" "\<And>s'. same_fs s s' \<Longrightarrow> Q n s'"
  shows "runs (dir_nblock dir) s Q"
  unfolding dir_nblock_def runs_bind f_direct_off
proof (rule rd_field_runs [OF assms(1)])
  show "file_at s dir" using assms(2) by (simp add: dir_ok_def file_ok_def)
  fix s' assume "same_fs s s'"
  moreover have "sint (load32 (view s) (dir + 128)) = int (n * 4096)" "n \<le> 10"
    using assms(2) by (simp_all add: dir_ok_def fsize_def f_direct_off file_ok_def)
  moreover from this(2) have "unat (of_nat n :: u32) = n" by (simp add: unat_of_nat)
  ultimately show "runs (if sint (load32 (view s) (dir + 128)) mod 4096 \<noteq> 0 then fpanic
      else freturn (unat (word_of_int (sint (load32 (view s) (dir + 128)) div 4096) :: u32))) s' Q"
    using assms(3) by simp
qed simp

lemma dir_lookup_runs:
  assumes "mounted s" "dir_ok s dir n" "length name < 256"
    "\<And>s'. same_fs s s' \<Longrightarrow> Q (case find_name s dir name [0..<16 * n] of Some j \<Rightarrow> (0, entry_addr s dir j)
       | None \<Rightarrow> (- E_NOT_FOUND, 0)) s'"
  shows "runs (dir_lookup dir name) s Q"
  unfolding dir_lookup_def runs_bind
proof (rule dir_nblock_runs [OF assms(1,2)])
  fix s1 assume s1: "same_fs s s1"
  have m1: "mounted s1" and d1: "file_ok s1 dir n" and f: "file_ok s dir n"
    using mounted_same [OF s1] file_ok_same(1) [OF s1] assms(1,2) by (auto simp: dir_ok_def)
  show "runs (dir_scan (name_eq name) dir n 0) s1
      (\<lambda>r s. runs (case r of None \<Rightarrow> freturn (- E_NOT_FOUND, 0) | Some res \<Rightarrow> freturn res) s Q)"
  proof (rule dir_scan_runs [OF m1 d1 _ assms(3)], simp)
    fix s2 assume s2: "same_fs s1 s2"
    have e: "entry_addr s1 dir j = entry_addr s dir j" if "find_name s dir name [0..<16 * n] = Some j" for j
      using that entry_addr_same [OF s1 assms(1) f] by (auto simp: find_name_def find_Some_iff)
    have "find_name s1 dir name [0..<16 * n] = find_name s dir name [0..<16 * n]"
      by (rule find_name_same [OF s1 assms(1) f]) (simp_all add: assms(3))
    with assms(4) [OF same_fs_trans [OF s1 s2]] e
    show "runs (case map_option (\<lambda>j. (0, entry_addr s1 dir j)) (find_name s1 dir name [16 * 0..<16 * (0 + n)])
        of None \<Rightarrow> freturn (- E_NOT_FOUND, 0) | Some res \<Rightarrow> freturn res) s2 Q"
      by (cases "find_name s dir name [0..<16 * n]") simp_all
  qed
qed

text \<open>The last element of a path, in a directory.\<close>

lemma walk_last_runs:
  assumes "mounted s" "dir_ok s f n" "name \<noteq> []" "SLASH \<notin> set name" "length name < 128"
    "\<And>s'. same_fs s s' \<Longrightarrow> Q (case find_name s f name [0..<16 * n] of Some j \<Rightarrow> (0, f, entry_addr s f j, None)
       | None \<Rightarrow> (- E_NOT_FOUND, f, 0, Some name)) s'"
  shows "runs (walk_loop dir f name) s Q"
proof -
  have w: "takeWhile (\<lambda>c. c \<noteq> SLASH) name = name" "dropWhile (\<lambda>c. c \<noteq> SLASH) name = []"
    using assms(4) by (auto simp: takeWhile_eq_all_conv dropWhile_eq_Nil_conv)
  have fa: "file_at s f" and ty: "load32 (view s) (f + 132) = FTYPE_DIR"
    using assms(2) by (simp_all add: dir_ok_def file_ok_def f_direct_off)
  have "runs (rd32 (f + 132)) s (\<lambda>ty s1. runs (if ty \<noteq> FTYPE_DIR then freturn (- E_NOT_FOUND, 0, 0, None)
      else fbind (dir_lookup f name) (\<lambda>(r, g). if r < 0 then
         freturn (if r = - E_NOT_FOUND \<and> skip_slash [] = [] then (r, f, 0, Some name) else (r, 0, 0, None))
       else walk_loop f g (skip_slash []))) s1 Q)"
  proof (rule rd_field_runs [OF assms(1) fa], simp)
    fix s1 assume s1: "same_fs s s1"
    have m1: "mounted s1" and d1: "dir_ok s1 f n" and fo: "file_ok s f n"
      using mounted_same [OF s1] dir_ok_same [OF s1] assms(1,2) by (auto simp: dir_ok_def)
    have "runs (dir_lookup f name) s1 (\<lambda>(r, g) s2. runs (if r < 0 then
         freturn (if r = - E_NOT_FOUND \<and> skip_slash [] = [] then (r, f, 0, Some name) else (r, 0, 0, None))
       else walk_loop f g (skip_slash [])) s2 Q)"
    proof (rule dir_lookup_runs [OF m1 d1])
      fix s2 assume s2: "same_fs s1 s2"
      have e: "entry_addr s1 f j = entry_addr s f j" if "find_name s f name [0..<16 * n] = Some j" for j
        using that entry_addr_same [OF s1 assms(1) fo] by (auto simp: find_name_def find_Some_iff)
      have "find_name s1 f name [0..<16 * n] = find_name s f name [0..<16 * n]"
        by (rule find_name_same [OF s1 assms(1) fo]) (use assms(5) in simp_all)
      with assms(6) [OF same_fs_trans [OF s1 s2]] e
      show "(case (case find_name s1 f name [0..<16 * n] of Some j \<Rightarrow> (0, entry_addr s1 f j) | None \<Rightarrow> (- E_NOT_FOUND, 0)) of
         (r, g) \<Rightarrow> \<lambda>s2. runs (if r < 0 then freturn (if r = - E_NOT_FOUND \<and> skip_slash [] = [] then (r, f, 0, Some name)
            else (r, 0, 0, None)) else walk_loop f g (skip_slash [])) s2 Q) s2"
        by (cases "find_name s f name [0..<16 * n]") (simp_all add: skip_slash_def walk_loop.simps E_NOT_FOUND_def)
    qed (use assms(5) in simp)
    with ty show "runs (if load32 (view s) (f + 132) \<noteq> FTYPE_DIR then freturn (- E_NOT_FOUND, 0, 0, None)
      else fbind (dir_lookup f name) (\<lambda>(r, g). if r < 0 then
         freturn (if r = - E_NOT_FOUND \<and> skip_slash [] = [] then (r, f, 0, Some name) else (r, 0, 0, None))
       else walk_loop f g (skip_slash []))) s1 Q" by (simp add: split_def)
  qed
  then show ?thesis
    using assms(3,5) by (subst walk_loop.simps) (simp add: w Let_def f_direct_off)
qed

lemma file_open_runs:
  assumes "mounted s" "dir_ok s s_root n" "skip_slash path \<noteq> []" "SLASH \<notin> set (skip_slash path)" "length (skip_slash path) < 128"
    "\<And>s'. same_fs s s' \<Longrightarrow> Q (case find_name s s_root (skip_slash path) [0..<16 * n] of Some j \<Rightarrow> (0, entry_addr s s_root j)
       | None \<Rightarrow> (- E_NOT_FOUND, 0)) s'"
  shows "runs (file_open path) s Q"
  unfolding file_open_def walk_path_def runs_bind
proof (rule walk_last_runs [OF assms(1-5)])
  fix s' assume "same_fs s s'"
  from assms(6) [OF this]
  show "runs (case (case find_name s s_root (skip_slash path) [0..<16 * n] of Some j \<Rightarrow> (0, s_root, entry_addr s s_root j, None)
       | None \<Rightarrow> (- E_NOT_FOUND, s_root, 0, Some (skip_slash path))) of (r, dir, f, lst) \<Rightarrow> freturn (r, f)) s' Q"
    by (cases "find_name s s_root (skip_slash path) [0..<16 * n]") simp_all
qed

end
