(* ===== verification/Jos_Format.thy ===== *)
theory Jos_Format
  imports Jos_Dir "HOL-Library.Signed_Division"
begin

text \<open>
  The tool that makes a disk image, \<^verbatim>\<open>tps/fs/fsformat.c\<close>, and what the file server finds on the disk.
  The image is a sequence of bytes, a pointer into it an offset from \<open>diskmap\<close>; \<open>None\<close> is a panic of
  the tool. The files of the host come with their paths and contents; opening and reading them
  does not fail.
\<close>

section \<open>The tool\<close>

text \<open>\<open>ents\<close> is the memory \<open>malloc\<close> returned for the directory entries: its contents are arbitrary.\<close>

record image =
  img :: bmem
  diskpos :: nat
  ents :: bmem
  n_ents :: nat

definition MAX_DIR_ENTS :: nat where "MAX_DIR_ENTS = 128"
definition MAXFILESIZE :: nat where "MAXFILESIZE = (NDIRECT + NINDIRECT) * BLKSIZE"

text \<open>\<open>ROUNDUP (n, BLKSIZE)\<close> of this file, in 32 bits.\<close>

definition roundup_blk :: "u32 \<Rightarrow> u32" where
  "roundup_blk n = n - 1 + 4096 - (n - 1) mod 4096"

text \<open>
  The same macro on the \<open>int\<close> of \<open>finishdir\<close>, where the remainder of a negative number is negative.
\<close>

definition roundup_blk_int :: "int \<Rightarrow> int" where
  "roundup_blk_int n = n - 1 + 4096 - (n - 1) smod 4096"

definition blockof :: "nat \<Rightarrow> nat" where
  "blockof p = p div BLKSIZE"

definition alloc_space :: "nat \<Rightarrow> u32 \<Rightarrow> image \<Rightarrow> (nat \<times> image) option" where
  "alloc_space nb_disk bytes s =
     (let start = diskpos s; p = diskpos s + unat (roundup_blk bytes)
      in if blockof p \<ge> nb_disk then None else Some (start, s\<lparr>diskpos := p\<rparr>))"

text \<open>A \<open>struct File\<close> is in the image (the root) or among the entries.\<close>

datatype place = In_image nat | In_ents nat

fun put_word :: "place \<Rightarrow> nat \<Rightarrow> u32 \<Rightarrow> image \<Rightarrow> image" where
  "put_word (In_image p) off w s = s\<lparr>img := store32 (p + off) w (img s)\<rparr>"
| "put_word (In_ents p) off w s = s\<lparr>ents := store32 (p + off) w (ents s)\<rparr>"

definition opendisk :: "nat \<Rightarrow> bmem \<Rightarrow> image option" where
  "opendisk nb_disk garbage =
     (let s = \<lparr>img = (\<lambda>_. 0), diskpos = 0, ents = garbage, n_ents = 0\<rparr>
      in case alloc_space nb_disk 4096 s of None \<Rightarrow> None
         | Some (_, s) \<Rightarrow>
         (case alloc_space nb_disk 4096 s of None \<Rightarrow> None
          | Some (super, s) \<Rightarrow>
            let m = store32 super FS_MAGIC (img s);
                m = store32 (super + 4) (of_nat nb_disk) m;
                m = store32 (super + 8 + 132) FTYPE_DIR m;
                m = poke (super + 8) [47, 0] m;
                nbitblocks = (nb_disk + BLKBITSIZE - 1) div BLKBITSIZE
            in (case alloc_space nb_disk (of_nat (nbitblocks * BLKSIZE)) (s\<lparr>img := m\<rparr>) of None \<Rightarrow> None
                | Some (bitmap, s) \<Rightarrow> Some (s\<lparr>img := memset bitmap 0xFF (nbitblocks * BLKSIZE) (img s)\<rparr>))))"

text \<open>\<open>bitmap\<close> is the third block of the image.\<close>

definition clear_bit :: "nat \<Rightarrow> bmem \<Rightarrow> bmem" where
  "clear_bit i m = (let a = 2 * BLKSIZE + 4 * (i div 32) in store32 a (load32 m a AND NOT (push_bit (i mod 32) 1)) m)"

definition finishdisk :: "image \<Rightarrow> image" where
  "finishdisk s = s\<lparr>img := fold clear_bit [0..<blockof (diskpos s)] (img s)\<rparr>"

definition finishfile :: "nat \<Rightarrow> place \<Rightarrow> nat \<Rightarrow> u32 \<Rightarrow> image \<Rightarrow> image option" where
  "finishfile nb_disk f start len s =
     (let s = put_word f 128 len s;
          nb = unat (roundup_blk len) div BLKSIZE;
          s = fold (\<lambda>i. put_word f (136 + 4 * i) (of_nat (start + i))) [0..<min nb NDIRECT] s
      in if min nb NDIRECT = NDIRECT then
           (case alloc_space nb_disk 4096 s of None \<Rightarrow> None
            | Some (ind, s) \<Rightarrow>
                let s = put_word f 176 (of_nat (blockof ind)) s
                in Some (fold (\<lambda>i. put_word (In_image ind) (4 * (i - NDIRECT)) (of_nat (start + i))) [NDIRECT..<nb] s))
         else Some s)"

definition diradd :: "u32 \<Rightarrow> u8 list \<Rightarrow> image \<Rightarrow> (place \<times> image) option" where
  "diradd type name s =
     (let out = 256 * n_ents s; s = s\<lparr>n_ents := n_ents s + 1\<rparr>
      in if n_ents s > MAX_DIR_ENTS then None
         else Some (In_ents out, put_word (In_ents out) 132 type (s\<lparr>ents := poke out (name @ [0]) (ents s)\<rparr>)))"

text \<open>The part of a path after the last slash.\<close>

definition last_name :: "u8 list \<Rightarrow> u8 list" where
  "last_name path = rev (takeWhile (\<lambda>c. c \<noteq> SLASH) (rev path))"

definition writefile :: "nat \<Rightarrow> u8 list \<times> u8 list \<Rightarrow> image \<Rightarrow> image option" where
  "writefile nb_disk file s =
     (let (path, bytes) = file
      in if length bytes \<ge> MAXFILESIZE then None
         else case diradd FTYPE_REG (last_name path) s of None \<Rightarrow> None
           | Some (f, s) \<Rightarrow>
             (case alloc_space nb_disk (of_nat (length bytes)) s of None \<Rightarrow> None
              | Some (start, s) \<Rightarrow>
                  finishfile nb_disk f (blockof start) (of_nat (length bytes))
                    (s\<lparr>img := poke start bytes (img s)\<rparr>)))"

fun writefiles :: "nat \<Rightarrow> (u8 list \<times> u8 list) list \<Rightarrow> image \<Rightarrow> image option" where
  "writefiles nb_disk [] s = Some s"
| "writefiles nb_disk (f # fs) s = (case writefile nb_disk f s of None \<Rightarrow> None | Some s \<Rightarrow> writefiles nb_disk fs s)"

definition finishdir :: "nat \<Rightarrow> image \<Rightarrow> image option" where
  "finishdir nb_disk s =
     (let size = n_ents s * 256
      in case alloc_space nb_disk (of_nat size) s of None \<Rightarrow> None
         | Some (start, s) \<Rightarrow>
             finishfile nb_disk (In_image (4096 + 8)) (blockof start) (word_of_int (roundup_blk_int (int size)))
               (s\<lparr>img := poke start (map (ents s) [0..<size]) (img s)\<rparr>))"

text \<open>\<open>main\<close>; a number of blocks out of range is refused.\<close>

definition fsformat :: "nat \<Rightarrow> (u8 list \<times> u8 list) list \<Rightarrow> bmem \<Rightarrow> image option" where
  "fsformat nb_disk files garbage =
     (if nb_disk < 2 \<or> nb_disk > 1024 then None
      else case opendisk nb_disk garbage of None \<Rightarrow> None
        | Some s \<Rightarrow> (case writefiles nb_disk files s of None \<Rightarrow> None
           | Some s \<Rightarrow> (case finishdir nb_disk s of None \<Rightarrow> None | Some s \<Rightarrow> Some (finishdisk s))))"

section \<open>Space in the image\<close>

definition nblk :: "nat \<Rightarrow> nat" where
  "nblk n = (n + 4095) div 4096"

lemma nblk_pos: "0 < n \<Longrightarrow> nblk n = (n - 1) div 4096 + 1"
  by (cases n) (simp_all add: nblk_def)

lemma nblk_bounds: "n \<le> nblk n * 4096" "nblk n * 4096 < n + 4096"
  using div_mult_mod_eq [of "n + 4095" 4096] mod_less_divisor [of 4096 "n + 4095"] unfolding nblk_def by linarith+

lemma roundup_blk_nat: "n \<le> 0xFFFFF000 \<Longrightarrow> unat (roundup_blk (of_nat n)) = nblk n * 4096"
proof (cases n)
  case 0
  then show ?thesis by (simp add: roundup_blk_def nblk_def)
next
  case (Suc k)
  assume n: "n \<le> 0xFFFFF000"
  have k: "unat (of_nat k :: u32) = k" using n Suc by (simp add: unat_of_nat)
  have "roundup_blk (of_nat n) = ROUNDDOWN (of_nat k) 4096 + 4096"
    using Suc by (simp add: roundup_blk_def ROUNDDOWN_def)
  moreover have "unat (ROUNDDOWN (of_nat k) 4096) = k div 4096 * 4096" by (simp add: unat_ROUNDDOWN k)
  moreover have "k div 4096 * 4096 + 4096 < 2 ^ 32" using n Suc by (simp add: less_mult_imp_div_less)
  moreover have "nblk n = k div 4096 + 1" using Suc nblk_pos [of n] by simp
  ultimately show ?thesis by (simp add: unat_word_ariths)
qed

lemma roundup_blk_int_nat:
  assumes "0 < n"
  shows "roundup_blk_int (int n) = int (nblk n * 4096)"
proof -
  obtain k where k: "n = Suc k" using assms by (cases n) auto
  have "int k smod 4096 = int (k mod 4096)"
    by (simp add: signed_modulo_int_def signed_divide_int_def zmod_int minus_div_mult_eq_mod sgn_if)
  then have "roundup_blk_int (int n) = int k + 4096 - int (k mod 4096)" using k by (simp add: roundup_blk_int_def)
  also have "\<dots> = int (k div 4096 * 4096 + 4096)"
    using div_mult_mod_eq [of k 4096] by linarith
  also have "k div 4096 * 4096 + 4096 = nblk n * 4096" using k nblk_pos [of n] by simp
  finally show ?thesis .
qed

text \<open>Words stored one after the other.\<close>

lemma fold_words_out:
  "a < q + 4 * i \<or> q + 4 * j \<le> a \<Longrightarrow> fold (\<lambda>i. store32 (q + 4 * i) (w i)) [i..<j] m a = m a"
proof (induction j)
  case (Suc j)
  show ?case
  proof (cases "i \<le> j")
    case True
    with Suc show ?thesis by (auto simp: store32_def)
  qed simp
qed simp

lemma fold_words_in:
  "i \<le> k \<Longrightarrow> k < j \<Longrightarrow> load32 (fold (\<lambda>i. store32 (q + 4 * i) (w i)) [i..<j] m) (q + 4 * k) = w k"
proof (induction j)
  case (Suc j)
  then show ?case by (cases "k = j") auto
qed simp

lemma fold_words_other:
  "b + 4 \<le> q + 4 * i \<or> q + 4 * j \<le> b \<Longrightarrow> load32 (fold (\<lambda>i. store32 (q + 4 * i) (w i)) [i..<j] m) b = load32 m b"
  by (rule load32_cong, rule fold_words_out) auto

lemma put_words_ents:
  "fold (\<lambda>i. put_word (In_ents p) (off + 4 * i) (w i)) js s = s\<lparr>ents := fold (\<lambda>i. store32 (p + off + 4 * i) (w i)) js (ents s)\<rparr>"
  by (induction js arbitrary: s) (simp_all add: add.assoc)

lemma put_words_image:
  "fold (\<lambda>i. put_word (In_image p) (off + 4 * i) (w i)) js s = s\<lparr>img := fold (\<lambda>i. store32 (p + off + 4 * i) (w i)) js (img s)\<rparr>"
  by (induction js arbitrary: s) (simp_all add: add.assoc)

lemma put_words_indirect:
  assumes "\<forall>i \<in> set js. 10 \<le> i" and "40 \<le> p"
  shows "fold (\<lambda>i. put_word (In_image p) (4 * (i - NDIRECT)) (w i)) js s = s\<lparr>img := fold (\<lambda>i. store32 (p - 40 + 4 * i) (w i)) js (img s)\<rparr>"
  using assms
proof (induction js arbitrary: s)
  case (Cons i js)
  then have "p + 4 * (i - 10) = p - 40 + 4 * i" by auto
  with Cons show ?case by simp
qed simp

text \<open>The start of the next free block, in bytes, is a multiple of the block size.\<close>

definition aligned :: "image \<Rightarrow> bool" where
  "aligned s \<longleftrightarrow> diskpos s = blockof (diskpos s) * 4096"

lemma alloc_space_run:
  assumes "alloc_space nb_disk (of_nat n) s = Some (start, s')" and "n \<le> 0xFFFFF000" and "aligned s"
  shows "start = diskpos s" "s' = s\<lparr>diskpos := diskpos s + nblk n * 4096\<rparr>" "aligned s'" "blockof (diskpos s') < nb_disk"
  using assms by (auto simp: alloc_space_def roundup_blk_nat Let_def aligned_def blockof_def split: if_splits)

text \<open>
  A \<open>struct File\<close> at \<open>p\<close> whose contents start at block \<open>st\<close>. The slots after the last block, and the
  indirect block of a file without one, are not looked at.
\<close>

definition entry_words :: "bmem \<Rightarrow> nat \<Rightarrow> nat \<Rightarrow> nat \<Rightarrow> bool" where
  "entry_words m p len st \<longleftrightarrow> load32 m (p + 128) = of_nat len
     \<and> (\<forall>i < min (nblk len) 10. load32 m (p + 136 + 4 * i) = of_nat (st + i))"

lemma finishfile_ents:
  assumes "finishfile nb_disk (In_ents p) st (of_nat len) s = Some s'" and "len < MAXFILESIZE" and "aligned s"
    and "40 \<le> diskpos s" and "blockof (diskpos s) < nb_disk"
  shows "entry_words (ents s') p len st \<and> (\<forall>a. a < p + 128 \<or> p + 132 \<le> a \<and> a < p + 136 \<or> p + 180 \<le> a \<longrightarrow> ents s' a = ents s a)
    \<and> n_ents s' = n_ents s \<and> aligned s' \<and> diskpos s \<le> diskpos s' \<and> blockof (diskpos s') < nb_disk
    \<and> (\<forall>a. a < diskpos s \<or> diskpos s' \<le> a \<longrightarrow> img s' a = img s a)"
proof -
  let ?nb = "nblk len"
  define k where "k = min (nblk len) 10"
  have len: "len \<le> 0xFFFFF000" using assms(2) by (simp add: MAXFILESIZE_def)
  have nb: "?nb \<le> 1034" using nblk_bounds(2) [of len] assms(2) by (simp add: MAXFILESIZE_def)
  define e where "e = fold (\<lambda>i. store32 (p + 136 + 4 * i) (of_nat (st + i))) [0..<k] (store32 (p + 128) (of_nat len) (ents s))"
  have k: "k \<le> 10" by (simp add: k_def)
  have words: "load32 e (p + 136 + 4 * i) = of_nat (st + i)" if "i < k" for i
    unfolding e_def using that by (intro fold_words_in) auto
  have size: "load32 e (p + 128) = of_nat len" by (simp add: e_def fold_words_other)
  have out: "e a = ents s a" if "a < p + 128 \<or> p + 132 \<le> a \<and> a < p + 136 \<or> p + 176 \<le> a" for a
  proof -
    have "e a = store32 (p + 128) (of_nat len) (ents s) a" unfolding e_def using that k by (intro fold_words_out) auto
    also have "\<dots> = ents s a" using that by (intro store32_away) auto
    finally show ?thesis .
  qed
  let ?s1 = "s\<lparr>ents := e\<rparr>"
  have f: "finishfile nb_disk (In_ents p) st (of_nat len) s =
    (if k = 10 then (case alloc_space nb_disk (of_nat 4096) ?s1 of None \<Rightarrow> None
       | Some (ind, s) \<Rightarrow> let s = put_word (In_ents p) 176 (of_nat (blockof ind)) s
           in Some (fold (\<lambda>i. put_word (In_image ind) (4 * (i - NDIRECT)) (of_nat (st + i))) [NDIRECT..<?nb] s))
     else Some ?s1)"
    by (simp add: finishfile_def roundup_blk_nat [OF len] put_words_ents Let_def e_def k_def [symmetric])
  show ?thesis
  proof (cases "k = 10")
    case False
    with f assms(1) have "s' = ?s1" by simp
    with words size out assms(3,5) show ?thesis by (auto simp: entry_words_def aligned_def k_def)
  next
    case True
    have "alloc_space nb_disk (of_nat 4096) ?s1 \<noteq> None" using f assms(1) True by (auto split: option.splits)
    then obtain ind s2 where al: "alloc_space nb_disk (of_nat 4096) ?s1 = Some (ind, s2)" by auto
    have "aligned ?s1" using assms(3) by (simp add: aligned_def)
    note a = alloc_space_run [OF al _ this, simplified]
    have q: "diskpos s - 40 + 4 * 10 = diskpos s" using assms(4) by simp
    let ?i = "fold (\<lambda>i. store32 (diskpos s - 40 + 4 * i) (of_nat (st + i))) [10..<?nb] (img s)"
    let ?e2 = "store32 (p + 176) (of_nat (blockof (diskpos s))) e"
    have s': "s' = s2\<lparr>ents := ?e2, img := ?i\<rparr>"
    proof -
      have "s' = fold (\<lambda>i. put_word (In_image ind) (4 * (i - NDIRECT)) (of_nat (st + i))) [10..<?nb]
          (put_word (In_ents p) 176 (of_nat (blockof ind)) s2)"
        using assms(1) True unfolding f al by (simp add: Let_def del: of_nat_add put_word.simps)
      also have "\<dots> = (put_word (In_ents p) 176 (of_nat (blockof ind)) s2)\<lparr>img :=
          fold (\<lambda>i. store32 (ind - 40 + 4 * i) (of_nat (st + i))) [10..<?nb]
            (img (put_word (In_ents p) 176 (of_nat (blockof ind)) s2))\<rparr>"
        by (rule put_words_indirect) (use a(1) assms(4) in auto)
      finally show ?thesis using a(1,2) by simp
    qed
    have d: "diskpos s' = diskpos s + 4096" using s' a(2) by (simp add: nblk_def)
    have i: "?i x = img s x" if "x < diskpos s \<or> diskpos s' \<le> x" for x
      using that nb q unfolding d by (intro fold_words_out) auto
    have "entry_words ?e2 p len st"
      using words size by (auto simp: entry_words_def k_def)
    moreover have "?e2 x = ents s x" if "x < p + 128 \<or> p + 132 \<le> x \<and> x < p + 136 \<or> p + 180 \<le> x" for x
    proof -
      have "?e2 x = e x" using that by (intro store32_away) auto
      also have "\<dots> = ents s x" using that by (intro out) auto
      finally show ?thesis .
    qed
    ultimately show ?thesis using s' a i d by (auto simp: aligned_def)
  qed
qed

section \<open>Files in the image\<close>

definition has_bytes :: "bmem \<Rightarrow> nat \<Rightarrow> u8 list \<Rightarrow> bool" where
  "has_bytes m a bs \<longleftrightarrow> (\<forall>x < length bs. m (a + x) = bs ! x)"

text \<open>Entry \<open>k\<close>: the name, type and size of a file, and where its contents start.\<close>

definition entry_at :: "bmem \<Rightarrow> nat \<Rightarrow> u8 list \<Rightarrow> nat \<Rightarrow> nat \<Rightarrow> bool" where
  "entry_at m p name len st \<longleftrightarrow> has_bytes m p (name @ [0]) \<and> load32 m (p + 132) = FTYPE_REG \<and> entry_words m p len st"

lemma entry_at_cong:
  assumes "entry_at m p name len st" and "length name < 128" and "\<And>a. p \<le> a \<Longrightarrow> a < p + 256 \<Longrightarrow> m' a = m a"
  shows "entry_at m' p name len st"
proof -
  have l: "load32 m' (p + off) = load32 m (p + off)" if "off \<le> 252" for off
    by (rule load32_cong, rule assms(3)) (use that in auto)
  have "load32 m' (p + 136 + 4 * i) = load32 m (p + 136 + 4 * i)" if "i < 10" for i
    using l [of "136 + 4 * i"] that by (simp add: add.assoc)
  with assms l show ?thesis by (auto simp: entry_at_def entry_words_def has_bytes_def)
qed

definition stored :: "image \<Rightarrow> nat \<Rightarrow> u8 list \<times> u8 list \<Rightarrow> nat \<Rightarrow> bool" where
  "stored s k file st \<longleftrightarrow> (case file of (path, bytes) \<Rightarrow>
     entry_at (ents s) (256 * k) (last_name path) (length bytes) st
     \<and> 3 \<le> st \<and> (st + nblk (length bytes)) * 4096 \<le> diskpos s \<and> has_bytes (img s) (st * 4096) bytes)"

definition fmt_inv :: "nat \<Rightarrow> bmem \<Rightarrow> (u8 list \<times> u8 list) list \<Rightarrow> image \<Rightarrow> bool" where
  "fmt_inv nb_disk base files s \<longleftrightarrow>
     aligned s \<and> 3 * 4096 \<le> diskpos s \<and> blockof (diskpos s) < nb_disk
     \<and> n_ents s = length files \<and> length files \<le> 128
     \<and> (\<forall>a < 3 * 4096. img s a = base a) \<and> (\<forall>a \<ge> diskpos s. img s a = 0)
     \<and> (\<forall>k < length files. \<exists>st. stored s k (files ! k) st)"

definition good_file :: "u8 list \<times> u8 list \<Rightarrow> bool" where
  "good_file f \<longleftrightarrow> length (last_name (fst f)) < 128"

lemma stored_kept:
  assumes "stored s k fl st" and "good_file fl" and "diskpos s \<le> diskpos s'"
    and "\<And>a. a < 256 * (k + 1) \<Longrightarrow> ents s' a = ents s a" and "\<And>a. a < diskpos s \<Longrightarrow> img s' a = img s a"
  shows "stored s' k fl st"
proof -
  obtain path bytes where f: "fl = (path, bytes)" by (cases fl)
  from assms(1) have st: "entry_at (ents s) (256 * k) (last_name path) (length bytes) st" "3 \<le> st"
    "(st + nblk (length bytes)) * 4096 \<le> diskpos s" "has_bytes (img s) (st * 4096) bytes"
    by (simp_all add: stored_def f)
  have "img s' (st * 4096 + x) = img s (st * 4096 + x)" if "x < length bytes" for x
    using that nblk_bounds(1) [of "length bytes"] st(3) by (intro assms(5)) (simp add: add_mult_distrib)
  then have "has_bytes (img s') (st * 4096) bytes" using st(4) by (simp add: has_bytes_def)
  moreover have "entry_at (ents s') (256 * k) (last_name path) (length bytes) st"
    by (rule entry_at_cong [OF st(1)]) (use assms(2,4) in \<open>auto simp: good_file_def f\<close>)
  ultimately show ?thesis using st assms(3) by (simp add: stored_def f)
qed

lemma writefile_inv:
  assumes "writefile nb_disk fl s = Some s'" and "fmt_inv nb_disk base files s" and "good_file fl" "\<forall>f \<in> set files. good_file f"
  shows "fmt_inv nb_disk base (files @ [fl]) s'"
proof -
  obtain path bytes where f: "fl = (path, bytes)" by (cases fl)
  let ?n = "length files" and ?name = "last_name path" and ?len = "length bytes"
  let ?p = "256 * ?n"
  let ?e1 = "store32 (?p + 132) FTYPE_REG (poke ?p (?name @ [0]) (ents s))"
  let ?s1 = "s\<lparr>n_ents := ?n + 1, ents := ?e1\<rparr>"
  have n: "n_ents s = ?n" and al: "aligned s" and pos: "3 * 4096 \<le> diskpos s"
    using assms(2) by (simp_all add: fmt_inv_def)
  have name: "length ?name < 128" using assms(3) by (simp add: good_file_def f)
  from assms(1) have len: "?len < MAXFILESIZE" and lim: "?n < 128"
    by (auto simp: writefile_def f n diradd_def Let_def MAX_DIR_ENTS_def split: if_splits)
  from assms(1) len lim obtain start s2 where s2: "alloc_space nb_disk (of_nat ?len) ?s1 = Some (start, s2)"
    and s': "finishfile nb_disk (In_ents ?p) (blockof start) (of_nat ?len) (s2\<lparr>img := poke start bytes (img s2)\<rparr>) = Some s'"
    by (auto simp: writefile_def f n diradd_def Let_def MAX_DIR_ENTS_def split: if_splits option.splits)
  have l32: "?len \<le> 0xFFFFF000" using len by (simp add: MAXFILESIZE_def)
  have "aligned ?s1" using al by (simp add: aligned_def)
  note a = alloc_space_run [OF s2 l32 this, simplified]
  let ?s3 = "s2\<lparr>img := poke start bytes (img s2)\<rparr>"
  have "aligned ?s3" "40 \<le> diskpos ?s3" "blockof (diskpos ?s3) < nb_disk"
    using a pos by (simp_all add: aligned_def)
  note fin = finishfile_ents [OF s' len this]
  have blk: "?len \<le> nblk ?len * 4096" by (rule nblk_bounds)
  have dp: "diskpos s + nblk ?len * 4096 \<le> diskpos s'" and st: "blockof start * 4096 = diskpos s"
    using fin a(1,2) al by (simp_all add: aligned_def)
  have e1: "?e1 x = ents s x" if "x < ?p" for x
    using that by (simp add: store32_away poke_def)
  have ents: "ents s' x = ents s x" if "x < ?p" for x
    using fin a(2) e1 [OF that] that by simp
  have img: "img s' x = poke start bytes (img s) x" if "x < diskpos s + nblk ?len * 4096" for x
    using fin a(2) that by simp
  have old: "img s' x = img s x" if "x < diskpos s" for x
    using img [of x] that a(1) by (simp add: poke_def)
  have zero: "img s' x = 0" if "diskpos s' \<le> x" for x
  proof -
    have "img s' x = poke start bytes (img s) x" using fin a(2) that by simp
    also have "\<dots> = img s x" using that dp blk a(1) by (simp add: poke_def)
    finally show ?thesis using assms(2) that dp by (simp add: fmt_inv_def)
  qed
  have nm: "has_bytes (ents s') ?p (?name @ [0])"
    unfolding has_bytes_def
  proof (intro allI impI)
    fix x assume x: "x < length (?name @ [0])"
    have "ents s' (?p + x) = ?e1 (?p + x)" using fin a(2) x name by simp
    also have "\<dots> = (?name @ [0]) ! x" using x name by (simp add: store32_away poke_def)
    finally show "ents s' (?p + x) = (?name @ [0]) ! x" .
  qed
  have "load32 (ents s') (?p + 132) = load32 ?e1 (?p + 132)"
    by (rule load32_cong) (use fin a(2) in simp)
  then have ty: "load32 (ents s') (?p + 132) = FTYPE_REG" by simp
  have "has_bytes (img s') (diskpos s) bytes"
    unfolding has_bytes_def using img a(1) blk by (simp add: poke_def)
  moreover have "3 \<le> blockof start" using pos a(1) by (simp add: blockof_def)
  moreover have "(blockof start + nblk ?len) * 4096 \<le> diskpos s'" using dp st by (simp add: add_mult_distrib)
  ultimately have new: "stored s' ?n fl (blockof start)"
    using nm ty fin st by (simp add: stored_def f entry_at_def)
  have "\<exists>st. stored s' k ((files @ [fl]) ! k) st" if k: "k < Suc ?n" for k
  proof (cases "k = ?n")
    case True
    with new show ?thesis by auto
  next
    case False
    with k have "k < ?n" by simp
    with assms(2) obtain st where "stored s k (files ! k) st" by (auto simp: fmt_inv_def)
    then have "stored s' k (files ! k) st"
      by (rule stored_kept) (use assms(4) \<open>k < ?n\<close> ents old dp in auto)
    with \<open>k < ?n\<close> show ?thesis by (auto simp: nth_append)
  qed
  with assms(2) fin a lim old zero dp pos show ?thesis by (auto simp: fmt_inv_def)
qed

lemma writefiles_inv:
  assumes "writefiles nb_disk fs s = Some s'" and "fmt_inv nb_disk base files s" and "\<forall>f \<in> set (files @ fs). good_file f"
  shows "fmt_inv nb_disk base (files @ fs) s'"
  using assms
proof (induction fs arbitrary: files s)
  case (Cons f fs)
  then obtain s1 where s1: "writefile nb_disk f s = Some s1" "writefiles nb_disk fs s1 = Some s'"
    by (auto split: option.splits)
  have "fmt_inv nb_disk base (files @ [f]) s1"
    using Cons.prems by (intro writefile_inv [OF s1(1)]) auto
  from Cons.IH [OF s1(2) this] Cons.prems(3) show ?case by simp
qed simp

section \<open>Super block and bitmap\<close>

text \<open>The first three blocks as \<open>opendisk\<close> leaves them, for at most 1024 blocks.\<close>

definition base_image :: "nat \<Rightarrow> bmem" where
  "base_image nb_disk = memset 8192 0xFF 4096 (poke 4104 [47, 0] (store32 4236 FTYPE_DIR
     (store32 4100 (of_nat nb_disk) (store32 4096 FS_MAGIC (\<lambda>_. 0)))))"

lemma opendisk_inv:
  assumes "opendisk nb_disk garbage = Some s" and "nb_disk \<le> 1024" "2 \<le> nb_disk"
  shows "fmt_inv nb_disk (base_image nb_disk) [] s"
proof -
  have "(32767 + nb_disk) div 32768 = 1" using assms(2,3) by (intro div_nat_eqI) simp_all
  moreover have "unat (roundup_blk 4096) = 4096" using roundup_blk_nat [of 4096] by (simp add: nblk_def)
  ultimately have s: "s = \<lparr>img = base_image nb_disk, diskpos = 12288, ents = garbage, n_ents = 0\<rparr>" "3 < nb_disk"
    using assms(1) by (auto simp: opendisk_def alloc_space_def Let_def blockof_def base_image_def split: if_splits)
  have "base_image nb_disk a = 0" if "12288 \<le> a" for a
    using that by (simp add: base_image_def store32_away poke_def)
  with s show ?thesis by (simp add: fmt_inv_def aligned_def blockof_def)
qed

definition used_bit :: "bmem \<Rightarrow> nat \<Rightarrow> bool" where
  "used_bit m b \<longleftrightarrow> \<not> bit (load32 m (8192 + 4 * (b div 32))) (b mod 32)"

lemma clear_bit_bits:
  assumes "b < 32768" "i < 32768"
  shows "used_bit (clear_bit i m) b \<longleftrightarrow> b = i \<or> used_bit m b"
proof (cases "b div 32 = i div 32")
  case True
  then have "b = i \<longleftrightarrow> b mod 32 = i mod 32" by (metis div_mult_mod_eq)
  with True show ?thesis
    by (auto simp: used_bit_def clear_bit_def Let_def bit_and_iff bit_not_iff bit_push_bit_iff bit_exp_iff bit_1_iff)
next
  case False
  then have "8192 + 4 * (i div 32) + 4 \<le> 8192 + 4 * (b div 32) \<or> 8192 + 4 * (b div 32) + 4 \<le> 8192 + 4 * (i div 32)" by linarith
  then have "used_bit (clear_bit i m) b = used_bit m b" by (simp add: used_bit_def clear_bit_def Let_def)
  with False show ?thesis by auto
qed

lemma clear_bits:
  "u \<le> 32768 \<Longrightarrow> b < 32768 \<Longrightarrow> used_bit (fold clear_bit [0..<u] m) b \<longleftrightarrow> b < u \<or> used_bit m b"
  by (induction u) (auto simp: clear_bit_bits)

lemma clear_bits_out:
  assumes "u \<le> 32768" "a < 8192 \<or> 12288 \<le> a"
  shows "fold clear_bit [0..<u] m a = m a"
  using assms
proof (induction u)
  case (Suc u)
  then have "u div 32 < 1024" by (simp add: less_mult_imp_div_less)
  with Suc show ?case by (auto simp: clear_bit_def Let_def store32_away)
qed simp


section \<open>The directory\<close>

lemma finishdir_run:
  assumes "finishdir nb_disk s = Some s'" and "fmt_inv nb_disk base files s" and "files \<noteq> []"
  defines "st \<equiv> blockof (diskpos s)" and "nb \<equiv> nblk (256 * length files)"
  shows "aligned s' \<and> blockof (diskpos s') = st + nb \<and> st + nb < nb_disk \<and> 3 \<le> st \<and> nb \<le> 8
    \<and> (\<forall>a. 4232 \<le> a \<and> a < 4236 \<or> 4240 \<le> a \<and> a < 4280 \<or> a \<in> {st * 4096..<st * 4096 + 256 * length files} \<or> img s' a = img s a)
    \<and> load32 (img s') 4232 = of_nat (nb * 4096)
    \<and> (\<forall>i < nb. load32 (img s') (4240 + 4 * i) = of_nat (st + i))
    \<and> (\<forall>i < 256 * length files. img s' (st * 4096 + i) = ents s i)"
proof -
  let ?n = "length files"
  let ?size = "?n * 256"
  have n: "n_ents s = ?n" "?n \<le> 128" and al: "aligned s" and pos: "3 * 4096 \<le> diskpos s" "0 < ?size"
    using assms(2,3) by (simp_all add: fmt_inv_def)
  have st: "diskpos s = st * 4096" "3 \<le> st" using al pos(1) by (auto simp: aligned_def st_def blockof_def)
  have nb: "nb = nblk ?size" "?size \<le> nb * 4096" "nb \<le> 8"
    using nblk_bounds [of ?size] n(2) by (simp_all add: nb_def mult.commute)
  from assms(1) n(1) obtain start s1 where s1: "alloc_space nb_disk (of_nat ?size) s = Some (start, s1)"
    and s': "finishfile nb_disk (In_image (4096 + 8)) (blockof start) (word_of_int (roundup_blk_int (int ?size)))
               (s1\<lparr>img := poke start (map (ents s1) [0..<?size]) (img s1)\<rparr>) = Some s'"
    by (auto simp: finishdir_def Let_def split: option.splits)
  have "?size \<le> 0xFFFFF000" using n(2) by simp
  note a = alloc_space_run [OF s1 this al]
  define w :: u32 where "w = of_nat (nb * 4096)"
  have len: "word_of_int (roundup_blk_int (int ?size)) = w"
    unfolding roundup_blk_int_nat [OF pos(2)] nb(1) w_def by simp
  have nn: "nblk (nb * 4096) = nb" by (simp add: nblk_def)
  have big: "nb * 4096 \<le> 0xFFFFF000" using nb(3) by simp
  let ?p = "poke start (map (ents s) [0..<?size]) (img s)"
  define m where "m = fold (\<lambda>i. store32 (4240 + 4 * i) (of_nat (st + i))) [0..<nb] (store32 4232 w ?p)"
  have r: "unat (roundup_blk w) div 4096 = nb" "min nb 10 = nb" "nb \<noteq> 10"
    using roundup_blk_nat [OF big] nn nb(3) by (simp_all add: w_def)
  have "s' = s1\<lparr>img := m\<rparr>"
    using s' r(2,3) unfolding len finishfile_def
    by (simp add: r(1) put_words_image Let_def a(1,2) st_def m_def)
  then have s': "img s' = m" "diskpos s' = diskpos s + nb * 4096" using a(2) nb(1) by simp_all
  have out: "m x = ?p x" if "x < 4232 \<or> 4236 \<le> x \<and> x < 4240 \<or> 4280 \<le> x" for x
  proof -
    have "m x = store32 4232 w ?p x" unfolding m_def using that nb(3) by (intro fold_words_out) auto
    also have "\<dots> = ?p x" using that by (intro store32_away) auto
    finally show ?thesis .
  qed
  have p: "?p x = img s x" if "x \<notin> {st * 4096..<st * 4096 + 256 * ?n}" for x
    using that a(1) st(1) by (auto simp: poke_def)
  have words: "load32 m (4240 + 4 * i) = of_nat (st + i)" if "i < nb" for i
    unfolding m_def using that by (intro fold_words_in) auto
  have size: "load32 m 4232 = of_nat (nb * 4096)"
    using fold_words_other [of 4232 4240 0 nb] by (simp add: w_def m_def)
  have copy: "m (st * 4096 + i) = ents s i" if "i < 256 * ?n" for i
    using out [of "st * 4096 + i"] that st a(1) by (simp add: poke_def)
  have b: "blockof (diskpos s') = st + nb" "aligned s'" "st + nb < nb_disk"
    using a(3,4) s'(2) st(1) \<open>s' = _\<close> by (simp_all add: blockof_def aligned_def)
  have "4232 \<le> a \<and> a < 4236 \<or> 4240 \<le> a \<and> a < 4280 \<or> a \<in> {st * 4096..<st * 4096 + 256 * ?n} \<or> m a = img s a" for a
  proof (cases "a < 4232 \<or> 4236 \<le> a \<and> a < 4240 \<or> 4280 \<le> a")
    case True
    then show ?thesis using out [of a] p [of a] by metis
  qed auto
  with b words size copy st(2) nb(3) show ?thesis unfolding s'(1) by simp
qed


section \<open>The whole image\<close>

lemma base_words:
  "load32 (base_image nb_disk) 4096 = FS_MAGIC" "load32 (base_image nb_disk) 4100 = of_nat nb_disk"
  "load32 (base_image nb_disk) 4236 = FTYPE_DIR" "\<not> used_bit (base_image nb_disk) b" if "b < 32768" for b
proof -
  have p: "load32 (poke 4104 [47, 0] m) a = load32 m a" if "a + 4 \<le> 4104 \<or> 4106 \<le> a" for m a
    by (rule load32_cong) (use that in \<open>auto simp: poke_def\<close>)
  show "load32 (base_image nb_disk) 4096 = FS_MAGIC" "load32 (base_image nb_disk) 4100 = of_nat nb_disk"
    "load32 (base_image nb_disk) 4236 = FTYPE_DIR" by (simp_all add: base_image_def p)
  have "b div 32 < 1024" using that by (simp add: less_mult_imp_div_less)
  then have "load32 (base_image nb_disk) (8192 + 4 * (b div 32)) = 0xFFFFFFFF"
    by (simp add: base_image_def load32_def)
  moreover have "bit (0xFFFFFFFF :: u32) (b mod 32)"
  proof -
    have "(0xFFFFFFFF :: u32) = - 1" by simp
    then show ?thesis by (simp only: bit_minus_1_iff possible_bit_def) simp
  qed
  ultimately show "\<not> used_bit (base_image nb_disk) b" by (simp add: used_bit_def)
qed

lemma finishdir_empty:
  assumes "finishdir nb_disk s = Some s'" and "fmt_inv nb_disk base [] s"
  shows "diskpos s' = diskpos s \<and> (\<forall>a. 4232 \<le> a \<and> a < 4236 \<or> 4240 \<le> a \<and> a < 4280 \<or> img s' a = img s a)
    \<and> load32 (img s') 4232 = 4096 \<and> load32 (img s') 4240 = of_nat (blockof (diskpos s))"
proof -
  have n: "n_ents s = 0" and al: "aligned s" using assms(2) by (simp_all add: fmt_inv_def)
  have r: "unat (roundup_blk 0) = 0" "unat (roundup_blk 4096) = 4096" "roundup_blk_int 0 = 4096"
    using roundup_blk_nat [of 0] roundup_blk_nat [of 4096] by (simp_all add: nblk_def roundup_blk_int_def signed_modulo_int_def signed_divide_int_def)
  have "poke a [] = (\<lambda>m. m)" for a by (auto simp: poke_def fun_eq_iff)
  then have "s' = s\<lparr>img := store32 4240 (of_nat (blockof (diskpos s))) (store32 4232 4096 (img s))\<rparr>"
    using assms(1) by (auto simp: finishdir_def n alloc_space_def finishfile_def r Let_def split: if_splits)
  moreover have "4232 \<le> a \<and> a < 4236 \<or> 4240 \<le> a \<and> a < 4280 \<or> store32 4240 w (store32 4232 4096 m) a = m a" for a w m
    by (auto simp: store32_def)
  ultimately show ?thesis by simp
qed

text \<open>Super block and bitmap of an image with the first \<open>u\<close> blocks in use.\<close>

definition super_ok :: "nat \<Rightarrow> nat \<Rightarrow> bmem \<Rightarrow> bool" where
  "super_ok nb_disk u m \<longleftrightarrow> 3 \<le> u \<and> u < nb_disk \<and> nb_disk \<le> 1024 \<and> load32 m 4096 = FS_MAGIC
     \<and> load32 m 4100 = of_nat nb_disk \<and> (\<forall>b < 32768. used_bit m b \<longleftrightarrow> b < u)"

lemma super_ok_finish:
  assumes "\<And>a. a < 4232 \<or> 4280 \<le> a \<and> a < 12288 \<Longrightarrow> m a = base_image nb_disk a" and "3 \<le> u" "u < nb_disk" "nb_disk \<le> 1024"
  shows "super_ok nb_disk u (fold clear_bit [0..<u] m)"
proof -
  have w: "load32 m a = load32 (base_image nb_disk) a" if "a + 4 \<le> 4232 \<or> 4280 \<le> a \<and> a + 4 \<le> 12288" for a
    by (rule load32_cong, rule assms(1)) (use that in auto)
  have "load32 (fold clear_bit [0..<u] m) a = load32 m a" if "a + 4 \<le> 8192" for a
    by (rule load32_cong, rule clear_bits_out) (use that assms(3,4) in auto)
  moreover have "used_bit m b = used_bit (base_image nb_disk) b" if "b < 32768" for b
  proof -
    have "b div 32 < 1024" using that by (simp add: less_mult_imp_div_less)
    then show ?thesis by (simp add: used_bit_def w)
  qed
  ultimately show ?thesis
    using assms(2-4) w base_words(1,2) [of 0] base_words(4) by (simp add: super_ok_def clear_bits)
qed

text \<open>The image of \<open>files\<close>: the directory starts at block \<open>d\<close>.\<close>

definition formatted :: "nat \<Rightarrow> (u8 list \<times> u8 list) list \<Rightarrow> nat \<Rightarrow> bmem \<Rightarrow> bool" where
  "formatted nb_disk files d m \<longleftrightarrow>
     (let n = nblk (256 * length files)
      in 3 \<le> d \<and> n \<le> 8 \<and> super_ok nb_disk (d + n) m
       \<and> load32 m 4232 = of_nat (n * 4096) \<and> load32 m 4236 = FTYPE_DIR \<and> (\<forall>i < n. load32 m (4240 + 4 * i) = of_nat (d + i))
       \<and> (\<forall>i. 256 * length files \<le> i \<and> i < n * 4096 \<longrightarrow> m (d * 4096 + i) = 0)
       \<and> (\<forall>k < length files. case files ! k of (path, bytes) \<Rightarrow> \<exists>st. 3 \<le> st \<and> st + nblk (length bytes) \<le> d
            \<and> entry_at m (d * 4096 + 256 * k) (last_name path) (length bytes) st \<and> has_bytes m (st * 4096) bytes))"

lemma entry_at_shift:
  assumes "entry_at e p name len st" and "length name < 128" and "\<And>i. i < 256 \<Longrightarrow> m (q + i) = e (p + i)"
  shows "entry_at m q name len st"
proof -
  have "entry_at (\<lambda>x. m (q + (x - p))) p name len st"
  proof (rule entry_at_cong [OF assms(1,2)])
    fix a assume "p \<le> a" "a < p + 256"
    then obtain i where "a = p + i" "i < 256" using le_Suc_ex by fastforce
    with assms(3) show "m (q + (a - p)) = e a" by simp
  qed
  moreover have "load32 (\<lambda>x. m (q + (x - p))) (p + off) = load32 m (q + off)" for off
    by (simp add: load32_def add.assoc)
  moreover have "load32 (\<lambda>x. m (q + (x - p))) (p + 136 + 4 * i) = load32 m (q + 136 + 4 * i)" for i
    by (simp add: load32_def ac_simps)
  ultimately show ?thesis by (auto simp: entry_at_def entry_words_def has_bytes_def)
qed

lemma formatted_finish:
  assumes "finishdir nb_disk s = Some s'" and inv: "fmt_inv nb_disk (base_image nb_disk) files s" and "files \<noteq> []"
    and "\<forall>f \<in> set files. good_file f" and "nb_disk \<le> 1024"
  shows "formatted nb_disk files (blockof (diskpos s)) (img (finishdisk s'))"
proof -
  let ?n = "length files"
  define d where "d = blockof (diskpos s)"
  define n where "n = nblk (256 * ?n)"
  define m where "m = img (finishdisk s')"
  note run = finishdir_run [OF assms(1-3), folded d_def n_def]
  have b: "3 \<le> d" "n \<le> 8" "d + n < nb_disk" "blockof (diskpos s') = d + n" and dp: "diskpos s = d * 4096"
    using run inv by (auto simp: fmt_inv_def aligned_def d_def)
  have kept: "4232 \<le> a \<and> a < 4236 \<or> 4240 \<le> a \<and> a < 4280 \<or> a \<in> {d * 4096..<d * 4096 + 256 * ?n} \<or> img s' a = img s a" for a
    using run by blast
  have m: "m = fold clear_bit [0..<d + n] (img s')" using b(4) by (simp add: m_def finishdisk_def)
  have out: "m a = img s' a" if "a < 8192 \<or> 12288 \<le> a" for a
    unfolding m using that b(3) assms(5) by (intro clear_bits_out) auto
  have out32: "load32 m a = load32 (img s') a" if "a + 4 \<le> 8192" for a
    by (rule load32_cong, rule out) (use that in auto)
  have base: "img s' a = base_image nb_disk a" if "a < 4232 \<or> 4236 \<le> a \<and> a < 4240 \<or> 4280 \<le> a \<and> a < 12288" for a
    using kept [of a] that b(1) inv by (auto simp: fmt_inv_def)
  have sup: "super_ok nb_disk (d + n) m"
    unfolding m by (rule super_ok_finish) (use base b assms(5) in auto)
  have "load32 (img s') 4236 = load32 (base_image nb_disk) 4236" by (rule load32_cong, rule base) auto
  then have root: "load32 m 4232 = of_nat (n * 4096)" "load32 m 4236 = FTYPE_DIR"
    "\<forall>i < n. load32 m (4240 + 4 * i) = of_nat (d + i)"
    using run b(2) base_words(3) [of 0] by (simp_all add: out32)
  have zero: "m (d * 4096 + i) = 0" if "256 * ?n \<le> i" for i
  proof -
    have "m (d * 4096 + i) = img s (d * 4096 + i)"
      using out [of "d * 4096 + i"] kept [of "d * 4096 + i"] that b(1) by auto
    with inv dp show ?thesis by (simp add: fmt_inv_def)
  qed
  have "case files ! k of (path, bytes) \<Rightarrow> \<exists>st. 3 \<le> st \<and> st + nblk (length bytes) \<le> d
            \<and> entry_at m (d * 4096 + 256 * k) (last_name path) (length bytes) st \<and> has_bytes m (st * 4096) bytes" if k: "k < ?n" for k
  proof -
    obtain path bytes where f: "files ! k = (path, bytes)" by (cases "files ! k")
    from inv k obtain st where "stored s k (files ! k) st" by (auto simp: fmt_inv_def)
    then have st: "entry_at (ents s) (256 * k) (last_name path) (length bytes) st" "3 \<le> st"
      "(st + nblk (length bytes)) * 4096 \<le> diskpos s" "has_bytes (img s) (st * 4096) bytes"
      by (simp_all add: stored_def f)
    have "entry_at m (d * 4096 + 256 * k) (last_name path) (length bytes) st"
    proof (rule entry_at_shift [OF st(1)])
      show "length (last_name path) < 128" using assms(4) k f by (auto simp: good_file_def dest!: nth_mem)
      fix i :: nat assume "i < 256"
      with k have i: "256 * k + i < 256 * ?n" by linarith
      have "m (d * 4096 + 256 * k + i) = img s' (d * 4096 + (256 * k + i))" using b(1) by (subst out) (simp_all add: add.assoc)
      also have "\<dots> = ents s (256 * k + i)" using run i by blast
      finally show "m (d * 4096 + 256 * k + i) = ents s (256 * k + i)" .
    qed
    moreover have "m (st * 4096 + x) = bytes ! x" if x: "x < length bytes" for x
    proof -
      have le: "st * 4096 + x < d * 4096" "12288 \<le> st * 4096"
        using st(2,3) nblk_bounds(1) [of "length bytes"] x dp by (simp_all add: add_mult_distrib)
      then have "m (st * 4096 + x) = img s (st * 4096 + x)"
        using out [of "st * 4096 + x"] kept [of "st * 4096 + x"] by auto
      with st(4) x show ?thesis by (simp add: has_bytes_def)
    qed
    ultimately show ?thesis using st(2,3) dp by (auto simp: f has_bytes_def)
  qed
  with sup root zero b(1,2) show ?thesis unfolding formatted_def Let_def n_def [symmetric] d_def [symmetric] m_def [symmetric] by blast
qed

lemma fsformat_runs:
  assumes "fsformat nb_disk files garbage = Some s" and "\<forall>f \<in> set files. good_file f"
  shows "super_ok nb_disk (blockof (diskpos s)) (img s)" "files \<noteq> [] \<Longrightarrow> \<exists>d. formatted nb_disk files d (img s)"
proof -
  from assms(1) obtain s0 s1 s2 where nb: "2 \<le> nb_disk" "nb_disk \<le> 1024"
    and s: "opendisk nb_disk garbage = Some s0" "writefiles nb_disk files s0 = Some s1" "finishdir nb_disk s1 = Some s2"
    "s = finishdisk s2"
    by (auto simp: fsformat_def split: if_splits option.splits)
  have inv: "fmt_inv nb_disk (base_image nb_disk) files s1"
    using writefiles_inv [OF s(2) opendisk_inv [OF s(1) nb(2,1)]] assms(2) by simp
  show fm: "\<exists>d. formatted nb_disk files d (img s)" if "files \<noteq> []"
    using formatted_finish [OF s(3) inv that assms(2) nb(2)] s(4) by blast
  show "super_ok nb_disk (blockof (diskpos s)) (img s)"
  proof (cases "files = []")
    case False
    note run = finishdir_run [OF s(3) inv False]
    have "diskpos s = diskpos s2" using s(4) by (simp add: finishdisk_def)
    then show ?thesis
      using formatted_finish [OF s(3) inv False assms(2) nb(2)] run s(4) by (simp add: formatted_def Let_def)
  next
    case True
    note e = finishdir_empty [OF s(3) inv [unfolded True]]
    have u: "3 \<le> blockof (diskpos s1)" "blockof (diskpos s1) < nb_disk" using inv by (auto simp: fmt_inv_def blockof_def)
    have "img s2 a = base_image nb_disk a" if "a < 4232 \<or> 4280 \<le> a \<and> a < 12288" for a
    proof -
      have "img s2 a = img s1 a" using e that by (elim conjE allE [of _ a]) auto
      with inv that show ?thesis by (auto simp: fmt_inv_def)
    qed
    from super_ok_finish [OF this u nb(2)] show ?thesis using e s(4) by (simp add: finishdisk_def)
  qed
qed


section \<open>The file server on the image\<close>

definition image_disk :: "image \<Rightarrow> nat \<Rightarrow> nat \<Rightarrow> u8" where
  "image_disk s b i = img s (b * BLKSIZE + i)"

definition shows_image :: "fs_state \<Rightarrow> bmem \<Rightarrow> bool" where
  "shows_image t m \<longleftrightarrow> (\<forall>x. in_diskmap x \<longrightarrow> view t x = m (x - DISKMAP))"

lemma shows_image_cold: "shows_image (cold_fs (image_disk s)) (img s)"
  unfolding shows_image_def
proof (intro allI impI)
  fix x assume x: "in_diskmap x"
  have "block_addr (block_of x) \<le> x" using block_of_range [OF x, of "block_of x"] by simp
  then have "block_of x * 4096 + (x - block_addr (block_of x)) = x - DISKMAP"
    by (simp add: block_addr_def)
  then show "view (cold_fs (image_disk s)) x = img s (x - DISKMAP)"
    by (simp add: view_def cold_fs_def small_fs_def image_disk_def)
qed

lemma image_byte: "shows_image t m \<Longrightarrow> b < 786432 \<Longrightarrow> i < 4096 \<Longrightarrow> view t (block_addr b + i) = m (b * 4096 + i)"
  using block_addr_in [of b i] by (simp add: shows_image_def) (simp add: block_addr_def)

lemma image_word:
  assumes "shows_image t m" "b < 786432" "i + 4 \<le> 4096"
  shows "load32 (view t) (block_addr b + i) = load32 m (b * 4096 + i)"
proof -
  have "view t (block_addr b + i + j) = m (b * 4096 + i + j)" if "j < 4" for j
    using image_byte [OF assms(1,2), of "i + j"] assms(3) that by (simp add: add.assoc)
  from this [of 0] this [of 1] this [of 2] this [of 3] show ?thesis by (simp add: load32_def)
qed

lemma image_super:
  assumes "shows_image t m" and "super_ok nb_disk u m"
  shows "nblocks t = nb_disk" "free_bit t b \<longleftrightarrow> u \<le> b \<and> b < nb_disk" "reserved t b \<longleftrightarrow> b < 3"
    "load32 (view t) s_magic = FS_MAGIC"
proof -
  have so: "3 \<le> u" "u < nb_disk" "nb_disk \<le> 1024" "load32 m 4100 = of_nat nb_disk"
    using assms(2) by (simp_all add: super_ok_def)
  show n: "nblocks t = nb_disk"
    using image_word [OF assms(1), of 1 4] so(3,4) by (simp add: nblocks_def unat_of_nat)
  show "reserved t b \<longleftrightarrow> b < 3" using so by (auto simp: reserved_def n)
  show "load32 (view t) s_magic = FS_MAGIC"
    using image_word [OF assms(1), of 1 0] assms(2) by (simp add: s_magic_def super_ok_def)
  show "free_bit t b \<longleftrightarrow> u \<le> b \<and> b < nb_disk"
  proof (cases "b < nb_disk")
    case True
    then have b: "b < 32768" "b div 32 < 1000" using so(3) by (simp_all add: less_mult_imp_div_less)
    have w: "load32 (view t) (bitmap_word b) = load32 m (8192 + 4 * (b div 32))"
      using image_word [OF assms(1), of 2 "4 * (b div 32)"] b(2) by (simp add: bitmap_word_def)
    have "w AND push_bit k 1 \<noteq> 0 \<longleftrightarrow> bit w k" for w :: u32 and k
      by (simp add: and_exp_eq_0_iff_not_bit push_bit_eq_mult)
    with w True have "free_bit t b \<longleftrightarrow> \<not> used_bit m b" by (simp add: free_bit_def n used_bit_def)
    with assms(2) b(1) True show ?thesis by (auto simp: super_ok_def)
  qed (simp add: free_bit_def n)
qed

lemma valid_image: "shows_image t m \<Longrightarrow> super_ok nb_disk u m \<Longrightarrow> valid_disk t"
  using image_super [of t m nb_disk u] by (auto simp: valid_disk_def super_ok_def)

lemma fs_init_image:
  assumes "super_ok nb_disk u (img s)" "\<And>t. mounted t \<Longrightarrow> shows_image t (img s) \<Longrightarrow> Q () t"
  shows "runs fs_init (cold_fs (image_disk s)) Q"
proof (rule runs_mono)
  have "early (cold_fs (image_disk s))" "coherent (cold_fs (image_disk s))"
    by (simp_all add: early_def coherent_def cold_fs_def)
  from fs_init_runs [OF this valid_image [OF shows_image_cold assms(1)]]
  show "runs fs_init (cold_fs (image_disk s)) (\<lambda>_ t. mounted t \<and> (\<forall>x. in_diskmap x \<longrightarrow> view t x = view (cold_fs (image_disk s)) x))"
    by (rule runs_mono) simp
  fix x t assume "mounted t \<and> (\<forall>x. in_diskmap x \<longrightarrow> view t x = view (cold_fs (image_disk s)) x)"
  with shows_image_cold [of s] have "mounted t" "shows_image t (img s)" by (simp_all add: shows_image_def)
  then show "Q x t" using assms(2) by simp
qed


section \<open>Files of the image in the server\<close>

text \<open>The names are null-terminated strings, and no longer than a name of the file system.\<close>

definition named_ok :: "u8 list \<times> u8 list \<Rightarrow> bool" where
  "named_ok f \<longleftrightarrow> good_file f \<and> 0 \<notin> set (last_name (fst f))"

lemma name_at_unique: "name_at t a xs \<Longrightarrow> name_at t a ys \<Longrightarrow> 0 \<notin> set xs \<Longrightarrow> 0 \<notin> set ys \<Longrightarrow> xs = ys"
proof (induction xs arbitrary: a ys)
  case Nil
  then show ?case by (cases ys) (auto simp: name_at_Nil name_at_Cons)
next
  case (Cons x xs)
  then show ?case by (cases ys) (auto simp: name_at_Nil name_at_Cons)
qed

lemma find_map: "List.find P (map g xs) = map_option g (List.find (\<lambda>x. P (g x)) xs)"
  by (induction xs) auto

lemma find_nth: "List.find P xs = map_option (nth xs) (List.find (\<lambda>j. P (xs ! j)) [0..<length xs])"
  using find_map [of P "nth xs" "[0..<length xs]"] by (simp add: map_nth)

lemma entry_offset: "(d + j div 16) * 4096 + (256 * (j mod 16) + x) = d * 4096 + 256 * j + (x :: nat)"
proof -
  have "256 * (q * 16 + r) = q * 4096 + 256 * r" for q r :: nat by simp
  from this [of "j div 16" "j mod 16"] have "256 * j = j div 16 * 4096 + 256 * (j mod 16)" by (simp only: div_mult_mod_eq)
  then show ?thesis by (simp only: add_mult_distrib)
qed

lemma formatted_entry:
  assumes "formatted nb_disk files d m" "k < length files" "files ! k = (path, bytes)"
  shows "\<exists>st. 3 \<le> st \<and> st + nblk (length bytes) \<le> d
    \<and> entry_at m (d * 4096 + 256 * k) (last_name path) (length bytes) st \<and> has_bytes m (st * 4096) bytes"
proof -
  from assms(1) have "\<forall>k < length files. case files ! k of (path, bytes) \<Rightarrow> \<exists>st. 3 \<le> st \<and> st + nblk (length bytes) \<le> d
    \<and> entry_at m (d * 4096 + 256 * k) (last_name path) (length bytes) st \<and> has_bytes m (st * 4096) bytes"
    unfolding formatted_def Let_def by (elim conjE)
  from this [rule_format, OF assms(2)] show ?thesis by (simp only: assms(3) prod.case)
qed

lemma image_dir:
  assumes m: "mounted t" and v: "shows_image t m" and f: "formatted nb_disk files d m"
  defines "n \<equiv> nblk (256 * length files)"
  shows "dir_ok t s_root n" and "i < n \<Longrightarrow> direct t s_root i = d + i"
    and "j < 16 * n \<Longrightarrow> x < 256 \<Longrightarrow> view t (entry_addr t s_root j + x) = m (d * 4096 + 256 * j + x)"
proof -
  have fm: "3 \<le> d" "n \<le> 8" "super_ok nb_disk (d + n) m" "load32 m 4232 = of_nat (n * 4096)" "load32 m 4236 = FTYPE_DIR"
    "\<forall>i < n. load32 m (4240 + 4 * i) = of_nat (d + i)"
    using f unfolding formatted_def Let_def n_def by blast+
  note sup = image_super [OF v fm(3)]
  have lim: "d + n < nb_disk" "nb_disk \<le> 1024" using fm(3) by (simp_all add: super_ok_def)
  have w: "load32 (view t) (s_root + off) = load32 m (4104 + off)" if "off \<le> 252" for off
    using image_word [OF v, of 1 "8 + off"] that by (simp add: s_root_def add.assoc)
  show dir: "direct t s_root i = d + i" if "i < n" for i
    using w [of "136 + 4 * i"] fm(2,6) that lim by (simp add: direct_def f_direct_off unat_of_nat del: of_nat_add)
  have root: "block_of s_root = 1" using block_of_addr [of 8 1] by (simp add: s_root_def)
  have us: "usable t (block_addr b)" if "b < d + n" for b
    using that lim sup(1,2) block_of_addr [of 0 b] by (simp add: usable_def in_diskmap_def) (simp add: block_addr_def)
  have "usable t s_root" using fm(1) lim sup(1,2) root by (simp add: usable_def in_diskmap_def) (simp add: s_root_def block_addr_def)
  then have fa: "file_at t s_root" by (simp add: file_at_def plain_def root) (simp add: s_root_def in_block_def)
  have "inj_on (direct t s_root) {..<n}" using dir by (auto simp: inj_on_def)
  then have ok: "file_ok t s_root n" using fa fm(1,2) us dir by (auto simp: file_ok_def sup(3) root)
  have "sint (of_nat (n * 4096) :: u32) = int (n * 4096)" using fm(2) by (simp add: sint32 unat_word_ariths unat_of_nat)
  then show "dir_ok t s_root n"
    using ok w [of 128] w [of 132] fm(4,5) by (simp add: dir_ok_def fsize_def f_direct_off)
  show "view t (entry_addr t s_root j + x) = m (d * 4096 + 256 * j + x)" if j: "j < 16 * n" and x: "x < 256"
  proof -
    have i: "j div 16 < n" using j by (simp add: less_mult_imp_div_less mult.commute)
    have "256 * (j mod 16) + x < 4096" using x mod_less_divisor [of 16 j] by linarith
    moreover have "(d + j div 16) * 4096 + (256 * (j mod 16) + x) = d * 4096 + 256 * j + x"
      by (rule entry_offset)
    moreover have "d + j div 16 < 786432" using i lim by simp
    ultimately have "view t (block_addr (d + j div 16) + (256 * (j mod 16) + x)) = m (d * 4096 + 256 * j + x)"
      using image_byte [OF v, of "d + j div 16" "256 * (j mod 16) + x"] by (simp only:)
    then show ?thesis by (simp only: entry_addr_def dir [OF i] add.assoc)
  qed
qed

lemma image_names:
  assumes m: "mounted t" and v: "shows_image t m" and f: "formatted nb_disk files d m"
    and names: "\<forall>f \<in> set files. named_ok f" and name: "name \<noteq> []" "0 \<notin> set name" "length name < 128"
  defines "n \<equiv> nblk (256 * length files)"
  shows "find_name t s_root name [0..<16 * n] = List.find (\<lambda>k. last_name (fst (files ! k)) = name) [0..<length files]"
proof -
  let ?n = "length files"
  note dir = image_dir [OF m v f, folded n_def]
  have le: "?n \<le> 16 * n" using nblk_bounds(1) [of "256 * ?n"] by (simp add: n_def)
  have old: "name_at t (entry_addr t s_root k) name \<longleftrightarrow> last_name (fst (files ! k)) = name" if k: "k < ?n" for k
  proof -
    obtain path bytes where p: "files ! k = (path, bytes)" by (cases "files ! k")
    have ok: "named_ok (files ! k)" using names k by simp
    have h: "has_bytes m (d * 4096 + 256 * k) (last_name path @ [0])"
      using formatted_entry [OF f k p] by (auto simp: entry_at_def)
    have "view t (entry_addr t s_root k + i) = (last_name path @ [0]) ! i" if "i < length (last_name path @ [0])" for i
    proof -
      have "i < 256" using that ok by (simp add: named_ok_def good_file_def p)
      with dir(3) [of k i] k le h that show ?thesis by (simp add: has_bytes_def)
    qed
    then have "name_at t (entry_addr t s_root k) (last_name path)" by (simp add: name_at_def)
    with name_at_unique [of t "entry_addr t s_root k" name "last_name path"] name(2) ok show ?thesis
      by (auto simp: p named_ok_def)
  qed
  have new: "\<not> name_at t (entry_addr t s_root k) name" if k: "?n \<le> k" "k < 16 * n" for k
  proof -
    have "256 * k < n * 4096" using k(2) by simp
    with f k have "m (d * 4096 + 256 * k) = 0" unfolding formatted_def Let_def n_def by auto
    with dir(3) [of k 0] k(2) have "view t (entry_addr t s_root k) = 0" by simp
    with name(1,2) show ?thesis by (cases name) (auto simp: name_at_Cons)
  qed
  have "[0..<16 * n] = [0..<?n] @ [?n..<16 * n]" using upt_append [of 0 ?n "16 * n"] le by simp
  moreover have "List.find (\<lambda>k. name_at t (entry_addr t s_root k) name) [?n..<16 * n] = None"
    using new by (auto simp: find_None_iff)
  moreover have "List.find (\<lambda>k. name_at t (entry_addr t s_root k) name) [0..<?n]
      = List.find (\<lambda>k. last_name (fst (files ! k)) = name) [0..<?n]"
    using old by (intro find_cong) auto
  ultimately show ?thesis by (simp add: find_name_def find_append split: option.splits)
qed

lemma image_file:
  assumes m: "mounted t" and v: "shows_image t m" and f: "formatted nb_disk files d m"
    and k: "k < length files" "files ! k = (path, bytes)" and len: "length bytes \<le> 40960"
  defines "e \<equiv> entry_addr t s_root k"
  shows "file_ok t e (nblk (length bytes))" "fsize t e = int (length bytes)"
    "map (file_byte t e) [0..<length bytes] = bytes"
proof -
  let ?n = "nblk (256 * length files)" and ?len = "length bytes"
  let ?b = "d + k div 16"
  note dir = image_dir [OF m v f]
  have fm: "3 \<le> d" "super_ok nb_disk (d + ?n) m" using f unfolding formatted_def Let_def by blast+
  note sup = image_super [OF v fm(2)]
  have lim: "d + ?n < nb_disk" "nb_disk \<le> 1024" using fm(2) by (simp_all add: super_ok_def)
  from formatted_entry [OF f k] obtain st where st: "3 \<le> st" "st + nblk ?len \<le> d" "entry_words m (d * 4096 + 256 * k) ?len st"
    "has_bytes m (st * 4096) bytes"
    by (auto simp: entry_at_def)
  have le: "length files \<le> 16 * ?n" using nblk_bounds(1) [of "256 * length files"] by simp
  have kb: "k < 16 * ?n" "k div 16 < ?n" using k(1) le by (simp_all add: less_mult_imp_div_less mult.commute)
  have nb: "nblk ?len \<le> 10" using nblk_bounds(2) [of ?len] len by simp
  have w: "load32 (view t) (e + off) = load32 m (d * 4096 + 256 * k + off)" if "off \<le> 252" for off
  proof -
    have "view t (e + off + j) = m (d * 4096 + 256 * k + off + j)" if "j < 4" for j
      using dir(3) [OF kb(1), of "off + j"] \<open>off \<le> 252\<close> that by (simp add: e_def add.assoc)
    from this [of 0] this [of 1] this [of 2] this [of 3] show ?thesis by (simp add: load32_def)
  qed
  have words: "load32 (view t) (e + (136 + 4 * i)) = of_nat (st + i)" if "i < nblk ?len" for i
    using w [of "136 + 4 * i"] st(3) nb that by (simp add: entry_words_def add.assoc del: of_nat_add)
  have dr: "direct t e i = st + i" if "i < nblk ?len" for i
    using words [OF that] that st(2) lim by (simp add: direct_def f_direct_off unat_of_nat del: of_nat_add)
  have sp: "span t e 255" unfolding e_def using entry_span [OF m _ kb(1)] dir(1) by (simp add: dir_ok_def)
  have be: "block_of e = ?b"
  proof -
    have "256 * (k mod 16) < 4096" using mod_less_divisor [of 16 k] by linarith
    then show ?thesis by (simp add: e_def entry_addr_def dir(2) [OF kb(2)])
  qed
  have fa: "file_at t e" using sp fm(1) by (simp add: file_at_def span_def plain_def be sup(3))
  have us: "usable t (block_addr b)" if "b < d" for b
    using that lim sup(1,2) block_of_addr [of 0 b] by (simp add: usable_def in_diskmap_def) (simp add: block_addr_def)
  have "inj_on (direct t e) {..<nblk ?len}" using dr by (auto simp: inj_on_def)
  then show "file_ok t e (nblk ?len)" using fa nb us dr st(1,2) by (auto simp: file_ok_def sup(3) be)
  have "sint (of_nat ?len :: u32) = int ?len" using len by (simp add: sint32 unat_of_nat)
  then show "fsize t e = int ?len"
    using w [of 128] st(3) by (simp add: fsize_def f_direct_off entry_words_def)
  have "file_byte t e p = bytes ! p" if p: "p < ?len" for p
  proof -
    have i: "p div 4096 < nblk ?len" using p nblk_bounds(1) [of ?len] by (simp add: less_mult_imp_div_less)
    then have "st + p div 4096 < 786432" using st(2) lim by simp
    then have "view t (block_addr (st + p div 4096) + p mod 4096) = m ((st + p div 4096) * 4096 + p mod 4096)"
      by (intro image_byte [OF v]) simp_all
    moreover have "(st + p div 4096) * 4096 + p mod 4096 = st * 4096 + p" by (simp add: add_mult_distrib add.assoc)
    ultimately show ?thesis using st(4) p dr [OF i] by (simp add: file_byte_def has_bytes_def add.commute)
  qed
  then show "map (file_byte t e) [0..<?len] = bytes" by (intro nth_equalityI) simp_all
qed


section \<open>Room on the disk\<close>

text \<open>The blocks a file takes, with its indirect block.\<close>

definition file_blocks :: "nat \<Rightarrow> nat" where
  "file_blocks len = nblk len + (if 10 \<le> nblk len then 1 else 0)"

text \<open>\<open>r\<close> is what is left of \<open>s\<close> after \<open>n\<close> more blocks: a panic when they do not leave one block free.\<close>

definition took :: "nat \<Rightarrow> image \<Rightarrow> nat \<Rightarrow> image option \<Rightarrow> bool" where
  "took nb_disk s n r \<longleftrightarrow> (case r of None \<Rightarrow> nb_disk \<le> blockof (diskpos s) + n
     | Some s' \<Rightarrow> aligned s' \<and> blockof (diskpos s') = blockof (diskpos s) + n \<and> n_ents s' = n_ents s)"

lemma alloc_space_took:
  assumes "aligned s" and "n \<le> 0xFFFFF000"
  shows "alloc_space nb_disk (of_nat n) s = (if nb_disk \<le> blockof (diskpos s) + nblk n then None
    else Some (diskpos s, s\<lparr>diskpos := diskpos s + nblk n * 4096\<rparr>))"
proof -
  have "blockof (diskpos s + nblk n * 4096) = blockof (diskpos s) + nblk n" by (simp add: blockof_def)
  with roundup_blk_nat [OF assms(2)] show ?thesis by (simp add: alloc_space_def Let_def)
qed

lemma aligned_add: "aligned s \<Longrightarrow> diskpos s' = diskpos s + n * 4096 \<Longrightarrow> aligned s' \<and> blockof (diskpos s') = blockof (diskpos s) + n"
  by (simp add: aligned_def blockof_def)

lemma put_word_same: "diskpos (put_word f off w s) = diskpos s" "n_ents (put_word f off w s) = n_ents s"
  by (cases f; simp)+

lemma put_words_same:
  "diskpos (fold (\<lambda>i. put_word f (g i) (w i)) js s) = diskpos s" "n_ents (fold (\<lambda>i. put_word f (g i) (w i)) js s) = n_ents s"
  by (induction js arbitrary: s) (simp_all add: put_word_same)

lemma finishfile_took:
  assumes "aligned s" and "len \<le> 0xFFFFF000"
  shows "took nb_disk s (if 10 \<le> nblk len then 1 else 0) (finishfile nb_disk f st (of_nat len) s)"
proof -
  define s1 where "s1 = fold (\<lambda>i. put_word f (136 + 4 * i) (of_nat (st + i))) [0..<min (nblk len) 10] (put_word f 128 (of_nat len) s)"
  have s1: "diskpos s1 = diskpos s" "n_ents s1 = n_ents s" "aligned s1"
    using assms(1) by (simp_all add: s1_def put_words_same put_word_same aligned_def)
  have u: "unat (roundup_blk (of_nat len)) div 4096 = nblk len" by (simp add: roundup_blk_nat [OF assms(2)])
  have "finishfile nb_disk f st (of_nat len) s = (if 10 \<le> nblk len then
      (case alloc_space nb_disk (of_nat 4096) s1 of None \<Rightarrow> None
       | Some (ind, s) \<Rightarrow> Some (fold (\<lambda>i. put_word (In_image ind) (4 * (i - NDIRECT)) (of_nat (st + i))) [NDIRECT..<nblk len]
            (put_word f 176 (of_nat (blockof ind)) s)))
      else Some s1)"
    unfolding finishfile_def Let_def BLKSIZE_simps u layout_simps s1_def [symmetric] by (simp add: min_def)
  moreover have "nblk 4096 = 1" by (simp add: nblk_def)
  ultimately show ?thesis
    using s1 alloc_space_took [OF s1(3), of 4096 nb_disk] aligned_add [OF s1(3), of "s1\<lparr>diskpos := diskpos s1 + 4096\<rparr>" 1] assms(1)
    by (auto simp: took_def put_words_same put_word_same blockof_def aligned_def)
qed

lemma writefile_took:
  assumes "aligned s" and "length bytes < MAXFILESIZE" and "n_ents s < 128"
  shows "took nb_disk (s\<lparr>n_ents := n_ents s + 1\<rparr>) (file_blocks (length bytes)) (writefile nb_disk (path, bytes) s)"
proof -
  let ?len = "length bytes"
  have l: "?len \<le> 0xFFFFF000" using assms(2) by (simp add: MAXFILESIZE_def)
  define f where "f = In_ents (256 * n_ents s)"
  obtain s1 where s1: "diradd FTYPE_REG (last_name path) s = Some (f, s1)" "diskpos s1 = diskpos s" "n_ents s1 = n_ents s + 1"
    using assms(3) by (simp add: diradd_def MAX_DIR_ENTS_def Let_def f_def)
  have a1: "aligned s1" using assms(1) s1(2) by (simp add: aligned_def)
  note al = alloc_space_took [OF a1 l, of nb_disk]
  show ?thesis
  proof (cases "nb_disk \<le> blockof (diskpos s1) + nblk ?len")
    case True
    with al assms(2) s1 show ?thesis by (simp add: writefile_def took_def file_blocks_def)
  next
    case False
    define s2 where "s2 = s1\<lparr>diskpos := diskpos s1 + nblk ?len * 4096, img := poke (diskpos s1) bytes (img s1)\<rparr>"
    have a2: "aligned s2" "blockof (diskpos s2) = blockof (diskpos s1) + nblk ?len"
      using aligned_add [OF a1, of s2 "nblk ?len"] by (simp_all add: s2_def)
    have "writefile nb_disk (path, bytes) s = finishfile nb_disk f (blockof (diskpos s1)) (of_nat ?len) s2"
      using al False assms(2) s1(1) by (simp add: writefile_def s2_def)
    with finishfile_took [OF a2(1) l, of nb_disk f "blockof (diskpos s1)"] s1(2,3) a2(2) show ?thesis
      by (auto simp: took_def file_blocks_def s2_def split: option.splits)
  qed
qed

lemma writefiles_took:
  assumes "aligned s" and "\<forall>f \<in> set fs. length (snd f) < MAXFILESIZE" and "n_ents s + length fs \<le> 128"
  shows "took nb_disk (s\<lparr>n_ents := n_ents s + length fs\<rparr>) (\<Sum>f \<leftarrow> fs. file_blocks (length (snd f))) (writefiles nb_disk fs s)"
  using assms
proof (induction fs arbitrary: s)
  case Nil
  then show ?case by (simp add: took_def)
next
  case (Cons f fs)
  obtain path bytes where f: "f = (path, bytes)" by (cases f)
  have t: "took nb_disk (s\<lparr>n_ents := n_ents s + 1\<rparr>) (file_blocks (length bytes)) (writefile nb_disk f s)"
    unfolding f using Cons.prems by (intro writefile_took) (simp_all add: f)
  show ?case
  proof (cases "writefile nb_disk f s")
    case None
    with t show ?thesis by (simp add: took_def f)
  next
    case (Some s1)
    with t have s1: "aligned s1" "blockof (diskpos s1) = blockof (diskpos s) + file_blocks (length bytes)" "n_ents s1 = n_ents s + 1"
      by (simp_all add: took_def)
    from Cons.IH [OF s1(1)] Cons.prems s1(3) have
      "took nb_disk (s1\<lparr>n_ents := n_ents s1 + length fs\<rparr>) (\<Sum>f \<leftarrow> fs. file_blocks (length (snd f))) (writefiles nb_disk fs s1)" by simp
    with Some s1(2,3) show ?thesis by (simp add: took_def f split: option.splits)
  qed
qed

lemma finishdir_took:
  assumes "aligned s" and "0 < n_ents s" "n_ents s \<le> 128"
  shows "took nb_disk s (nblk (256 * n_ents s)) (finishdir nb_disk s) \<and> (finishdir nb_disk s = None \<longleftrightarrow> nb_disk \<le> blockof (diskpos s) + nblk (256 * n_ents s))"
proof -
  let ?size = "n_ents s * 256"
  have l: "?size \<le> 0xFFFFF000" "nblk ?size \<le> 8" using assms(3) nblk_bounds(2) [of ?size] by simp_all
  have nn: "nblk (nblk ?size * 4096) = nblk ?size" by (simp add: nblk_def)
  have len: "word_of_int (roundup_blk_int (int ?size)) = (of_nat (nblk ?size * 4096) :: u32)"
    using roundup_blk_int_nat [of ?size] assms(2) by simp
  note al = alloc_space_took [OF assms(1) l(1), of nb_disk]
  show ?thesis
  proof (cases "nb_disk \<le> blockof (diskpos s) + nblk ?size")
    case True
    with al show ?thesis by (simp add: finishdir_def Let_def took_def mult.commute)
  next
    case False
    define s1 where "s1 = s\<lparr>diskpos := diskpos s + nblk ?size * 4096, img := poke (diskpos s) (map (ents s) [0..<?size]) (img s)\<rparr>"
    have a1: "aligned s1" "blockof (diskpos s1) = blockof (diskpos s) + nblk ?size"
      using aligned_add [OF assms(1), of s1 "nblk ?size"] by (simp_all add: s1_def)
    have "finishdir nb_disk s = finishfile nb_disk (In_image (4096 + 8)) (blockof (diskpos s)) (of_nat (nblk ?size * 4096)) s1"
      using al False unfolding finishdir_def Let_def len by (simp add: s1_def)
    moreover have "nblk ?size * 4096 \<le> 0xFFFFF000" using l(2) by simp
    note finishfile_took [OF a1(1) this, of nb_disk "In_image (4096 + 8)" "blockof (diskpos s)"]
    ultimately have "took nb_disk s1 0 (finishdir nb_disk s)" using l(2) unfolding nn by simp
    with False a1(2) show ?thesis by (auto simp: took_def s1_def mult.commute split: option.splits)
  qed
qed

lemma opendisk_took:
  assumes "2 \<le> nb_disk" "nb_disk \<le> 1024"
  shows "opendisk nb_disk garbage = None \<longleftrightarrow> nb_disk \<le> 3"
    "opendisk nb_disk garbage = Some s \<Longrightarrow> aligned s \<and> blockof (diskpos s) = 3 \<and> n_ents s = 0"
proof -
  have d: "(32767 + nb_disk) div 32768 = 1" using assms by (intro div_nat_eqI) simp_all
  have r: "unat (roundup_blk 4096) = 4096" using roundup_blk_nat [of 4096] by (simp add: nblk_def)
  show "opendisk nb_disk garbage = None \<longleftrightarrow> nb_disk \<le> 3"
    by (auto simp: opendisk_def alloc_space_def Let_def blockof_def d r)
  show "opendisk nb_disk garbage = Some s \<Longrightarrow> aligned s \<and> blockof (diskpos s) = 3 \<and> n_ents s = 0"
    by (auto simp: opendisk_def alloc_space_def Let_def blockof_def d r aligned_def split: if_splits)
qed

lemma fsformat_room:
  assumes "2 \<le> nb_disk" "nb_disk \<le> 1024" and "files \<noteq> []" "length files \<le> 128" "\<forall>f \<in> set files. length (snd f) < MAXFILESIZE"
  defines "used \<equiv> 3 + (\<Sum>f \<leftarrow> files. file_blocks (length (snd f))) + nblk (256 * length files)"
  shows "case fsformat nb_disk files garbage of None \<Rightarrow> nb_disk \<le> used | Some s \<Rightarrow> used < nb_disk \<and> blockof (diskpos s) = used"
proof (cases "opendisk nb_disk garbage")
  case None
  with assms(1,2) opendisk_took(1) [OF assms(1,2)] show ?thesis by (simp add: fsformat_def used_def)
next
  case (Some s0)
  note o = opendisk_took(2) [OF assms(1,2) Some]
  have w: "took nb_disk (s0\<lparr>n_ents := n_ents s0 + length files\<rparr>) (\<Sum>f \<leftarrow> files. file_blocks (length (snd f))) (writefiles nb_disk files s0)"
    by (rule writefiles_took) (use o assms(4,5) in auto)
  show ?thesis
  proof (cases "writefiles nb_disk files s0")
    case None
    with w Some assms(1,2) o show ?thesis by (simp add: fsformat_def used_def took_def)
  next
    case (Some s1)
    with w o have s1: "aligned s1" "blockof (diskpos s1) = 3 + (\<Sum>f \<leftarrow> files. file_blocks (length (snd f)))" "n_ents s1 = length files"
      by (simp_all add: took_def)
    have "0 < n_ents s1" "n_ents s1 \<le> 128" using s1(3) assms(3,4) by simp_all
    from finishdir_took [OF s1(1) this, of nb_disk] Some \<open>opendisk nb_disk garbage = Some s0\<close> assms(1,2) s1(2,3)
    show ?thesis by (auto simp: fsformat_def used_def took_def finishdisk_def split: option.splits)
  qed
qed

text \<open>
  Property C16. The room a disk needs: with files below the maximal size and at most as many as a directory
  of the tool holds, \<open>fsformat\<close> succeeds exactly when the three first blocks, the blocks of the files, one
  more for each of ten blocks or more, and those of the directory are fewer than the blocks
  of the disk, and it takes exactly these. A disk that they fill is refused.
\<close>

theorem fsformat_space:
  assumes "2 \<le> nb_disk" "nb_disk \<le> 1024" and "files \<noteq> []" "length files \<le> 128" "\<forall>f \<in> set files. length (snd f) < MAXFILESIZE"
  shows "case fsformat nb_disk files garbage of
      None \<Rightarrow> nb_disk \<le> 3 + (\<Sum>f \<leftarrow> files. file_blocks (length (snd f))) + nblk (256 * length files)
    | Some s \<Rightarrow> blockof (diskpos s) = 3 + (\<Sum>f \<leftarrow> files. file_blocks (length (snd f))) + nblk (256 * length files)
        \<and> blockof (diskpos s) < nb_disk"
  using fsformat_room [OF assms, of garbage] by (auto split: option.splits)

section \<open>Properties\<close>

text \<open>
  Without files the directory still gets the size of one block, because the remainder of \<open>-1\<close> is
  negative; its block is the first one after the bitmap, which the bitmap has as free.
\<close>

lemma empty_root_block_free:
  assumes "fsformat nb_disk [] garbage = Some s"
  shows "load32 (img s) 4232 = 4096 \<and> load32 (img s) 4240 = 3 \<and> \<not> used_bit (img s) 3"
proof -
  from assms obtain s0 s1 where nb: "2 \<le> nb_disk" "nb_disk \<le> 1024"
    and s: "opendisk nb_disk garbage = Some s0" "finishdir nb_disk s0 = Some s1" "s = finishdisk s1"
    by (auto simp: fsformat_def split: if_splits option.splits)
  note o = opendisk_took(2) [OF nb s(1)]
  note e = finishdir_empty [OF s(2) opendisk_inv [OF s(1) nb(2,1)]]
  have "load32 (img s) a = load32 (img s1) a" if "a + 4 \<le> 8192" for a
    unfolding s(3) using e o that by (intro load32_cong) (simp add: finishdisk_def clear_bits_out)
  moreover have "super_ok nb_disk 3 (img s)" using fsformat_runs(1) [OF assms] e o s(3) by (simp add: finishdisk_def)
  ultimately show ?thesis using e o by (simp add: super_ok_def)
qed

text \<open>
  The disk that \<open>fsformat\<close> makes is a file system to the file server: \<open>fs_init\<close> with all its
  checks succeeds on it, finds the number of blocks the tool was given, and the blocks in use are the
  ones the tool has laid out, from the boot block to the end of the directory.
\<close>

theorem formatted_disk_mounts:
  assumes "fsformat nb_disk files garbage = Some s" and "\<forall>f \<in> set files. good_file f"
  shows "runs fs_init (cold_fs (image_disk s)) (\<lambda>_ t. mounted t \<and> nblocks t = nb_disk
    \<and> (\<forall>b. free_bit t b \<longleftrightarrow> blockof (diskpos s) \<le> b \<and> b < nb_disk))"
proof (rule fs_init_image [OF fsformat_runs(1) [OF assms]])
  fix t assume "mounted t" "shows_image t (img s)"
  with image_super [OF this(2) fsformat_runs(1) [OF assms]]
  show "mounted t \<and> nblocks t = nb_disk \<and> (\<forall>b. free_bit t b \<longleftrightarrow> blockof (diskpos s) \<le> b \<and> b < nb_disk)" by blast
qed

lemma image_reads:
  assumes m: "mounted t" and v: "shows_image t m" and f: "formatted nb_disk files d m"
    and files: "\<forall>f \<in> set files. named_ok f \<and> length (snd f) \<le> 40960"
    and name: "skip_slash path \<noteq> []" "SLASH \<notin> set (skip_slash path)" "0 \<notin> set (skip_slash path)" "length (skip_slash path) < 128"
  shows "runs (fbind (file_open path) (\<lambda>(r, f). if r < 0 then freturn (r, []) else file_read f 40960 0)) t
    (\<lambda>(r, bytes) t'. case List.find (\<lambda>f. last_name (fst f) = skip_slash path) files of
        None \<Rightarrow> r = - E_NOT_FOUND | Some (p, b) \<Rightarrow> r = int (length b) \<and> bytes = b)"
  unfolding runs_bind
proof (rule file_open_runs [OF m image_dir(1) [OF m v f] name(1,2,4)])
  fix t1 assume t1: "same_fs t t1"
  have m1: "mounted t1" using t1 m by (rule mounted_same)
  have v1: "shows_image t1 m" using t1 v by (simp add: same_fs_def shows_image_def)
  let ?n = "nblk (256 * length files)" and ?name = "skip_slash path"
  have "\<forall>f \<in> set files. named_ok f" using files by blast
  note names = image_names [OF m v f this name(1,3,4)]
  note fd = find_nth [of "\<lambda>f. last_name (fst f) = ?name" files]
  show "runs (case (case find_name t s_root ?name [0..<16 * ?n] of None \<Rightarrow> (- E_NOT_FOUND, 0) | Some j \<Rightarrow> (0, entry_addr t s_root j)) of
      (r, f) \<Rightarrow> if r < 0 then freturn (r, []) else file_read f 40960 0) t1
    (\<lambda>(r, bytes) t'. case List.find (\<lambda>f. last_name (fst f) = ?name) files of
        None \<Rightarrow> r = - E_NOT_FOUND | Some (p, b) \<Rightarrow> r = int (length b) \<and> bytes = b)"
  proof (cases "List.find (\<lambda>k. last_name (fst (files ! k)) = ?name) [0..<length files]")
    case None
    with names fd show ?thesis by (simp add: E_NOT_FOUND_def)
  next
    case (Some k)
    then have k: "k < length files" by (auto simp: find_Some_iff)
    obtain p b where fk: "files ! k = (p, b)" by (cases "files ! k")
    have len: "length b \<le> 40960" using files nth_mem [OF k] fk by auto
    note img = image_file [OF m1 v1 f k fk len]
    have e: "entry_addr t1 s_root k = entry_addr t s_root k"
    proof (rule entry_addr_same [OF t1 m])
      show "file_ok t s_root ?n" using image_dir(1) [OF m v f] by (simp add: dir_ok_def)
      show "k < 16 * ?n" using k nblk_bounds(1) [of "256 * length files"] by simp
    qed
    have "fsize t1 (entry_addr t1 s_root k) \<le> int (nblk (length b) * BLKSIZE)"
      using img(2) nblk_bounds(1) [of "length b"] by simp
    from file_read_runs [OF m1 img(1) this, of 40960 0]
    have "runs (file_read (entry_addr t s_root k) 40960 0) t1 (\<lambda>(r, bytes) t'. r = int (length b) \<and> bytes = b)"
      using img(2,3) len unfolding e by (elim runs_mono) (auto simp: Let_def)
    with names fd Some fk show ?thesis by simp
  qed
qed

text \<open>
  Property C7. What the host tool writes, the server reads: starting the server on the disk made from a list
  of files, opening a name and reading the whole file gives the contents of the first file of
  that name, for files of up to ten blocks, and \<open>-E_NOT_FOUND\<close> for a name that none of them has.
\<close>

theorem formatted_files_read:
  assumes "fsformat nb_disk files garbage = Some s" and "files \<noteq> []"
    and "\<forall>f \<in> set files. named_ok f \<and> length (snd f) \<le> 40960"
    and "skip_slash path \<noteq> []" "SLASH \<notin> set (skip_slash path)" "0 \<notin> set (skip_slash path)" "length (skip_slash path) < 128"
  shows "runs (fbind fs_init (\<lambda>_. fbind (file_open path) (\<lambda>(r, f). if r < 0 then freturn (r, []) else file_read f 40960 0)))
      (cold_fs (image_disk s))
    (\<lambda>(r, bytes) t. case List.find (\<lambda>f. last_name (fst f) = skip_slash path) files of
        None \<Rightarrow> r = - E_NOT_FOUND | Some (p, b) \<Rightarrow> r = int (length b) \<and> bytes = b)"
proof -
  have good: "\<forall>f \<in> set files. good_file f" using assms(3) by (simp add: named_ok_def)
  obtain d where d: "formatted nb_disk files d (img s)" using fsformat_runs(2) [OF assms(1) good assms(2)] by blast
  show ?thesis
    unfolding runs_bind [of fs_init]
  proof (rule fs_init_image [OF fsformat_runs(1) [OF assms(1) good]])
    fix t assume "mounted t" "shows_image t (img s)"
    then show "runs (fbind (file_open path) (\<lambda>(r, f). if r < 0 then freturn (r, []) else file_read f 40960 0)) t
      (\<lambda>(r, bytes) t. case List.find (\<lambda>f. last_name (fst f) = skip_slash path) files of
        None \<Rightarrow> r = - E_NOT_FOUND | Some (p, b) \<Rightarrow> r = int (length b) \<and> bytes = b)"
      using d assms(3-7) by (rule image_reads)
  qed
qed

text \<open>Eight blocks and two files, \<open>a/h\<close> and \<open>g\<close>.\<close>

definition demo_files :: "(u8 list \<times> u8 list) list" where
  "demo_files = [([97, 47, 104], [1, 2, 3]), ([103], [])]"

lemma demo_formats: "\<exists>s. fsformat 8 demo_files (\<lambda>_. 7) = Some s \<and> blockof (diskpos s) = 5"
proof -
  have "(\<Sum>f \<leftarrow> demo_files. file_blocks (length (snd f))) = 1" "nblk (256 * length demo_files) = 1"
    by (simp_all add: demo_files_def file_blocks_def nblk_def)
  with fsformat_room [of 8 demo_files "\<lambda>_. 7"] show ?thesis
    by (auto simp: demo_files_def MAXFILESIZE_def split: option.splits)
qed

theorem fsformat_space_witness:
  "fsformat 5 demo_files (\<lambda>_. 0) = None \<and> (\<exists>s. fsformat 6 demo_files (\<lambda>_. 0) = Some s \<and> blockof (diskpos s) = 5)"
proof -
  have n: "(\<Sum>f \<leftarrow> demo_files. file_blocks (length (snd f))) = 1" "nblk (256 * length demo_files) = 1"
    by (simp_all add: demo_files_def file_blocks_def nblk_def)
  have ok: "demo_files \<noteq> []" "length demo_files \<le> 128" "\<forall>f \<in> set demo_files. length (snd f) < MAXFILESIZE"
    by (simp_all add: demo_files_def MAXFILESIZE_def)
  show ?thesis using fsformat_space [OF _ _ ok, of 5 "\<lambda>_. 0"] fsformat_space [OF _ _ ok, of 6 "\<lambda>_. 0"]
    by (auto simp: n split: option.splits)
qed

theorem formatted_disk_mounts_witness:
  "\<exists>s. fsformat 8 demo_files (\<lambda>_. 7) = Some s \<and> runs fs_init (cold_fs (image_disk s)) (\<lambda>_ t. mounted t \<and> \<not> free_bit t 4 \<and> free_bit t 5)"
proof -
  obtain s where s: "fsformat 8 demo_files (\<lambda>_. 7) = Some s" "blockof (diskpos s) = 5" using demo_formats by blast
  have "\<forall>f \<in> set demo_files. good_file f" by (simp add: demo_files_def good_file_def last_name_def SLASH_def)
  from formatted_disk_mounts [OF s(1) this]
  have "runs fs_init (cold_fs (image_disk s)) (\<lambda>_ t. mounted t \<and> \<not> free_bit t 4 \<and> free_bit t 5)"
    by (rule runs_mono) (simp add: s(2))
  with s(1) show ?thesis by blast
qed

theorem formatted_files_read_witness:
  "\<exists>s. fsformat 8 demo_files (\<lambda>_. 7) = Some s
    \<and> runs (fbind fs_init (\<lambda>_. fbind (file_open [47, 104]) (\<lambda>(r, f). if r < 0 then freturn (r, []) else file_read f 40960 0)))
        (cold_fs (image_disk s)) (\<lambda>(r, bytes) t. r = 3 \<and> bytes = [1, 2, 3])"
proof -
  obtain s where s: "fsformat 8 demo_files (\<lambda>_. 7) = Some s" using demo_formats by blast
  have files: "\<forall>f \<in> set demo_files. named_ok f \<and> length (snd f) \<le> 40960"
    by (simp add: demo_files_def named_ok_def good_file_def last_name_def SLASH_def)
  have p: "skip_slash [47, 104] = [104]" by (simp add: skip_slash_def SLASH_def)
  have "List.find (\<lambda>f. last_name (fst f) = [104]) demo_files = Some ([97, 47, 104], [1, 2, 3])"
    by (simp add: demo_files_def last_name_def SLASH_def)
  with formatted_files_read [OF s _ files, of "[47, 104]"] p
  have "runs (fbind fs_init (\<lambda>_. fbind (file_open [47, 104]) (\<lambda>(r, f). if r < 0 then freturn (r, []) else file_read f 40960 0)))
      (cold_fs (image_disk s)) (\<lambda>(r, bytes) t. r = 3 \<and> bytes = [1, 2, 3])"
    by (simp add: demo_files_def SLASH_def del: runs_bind)
  with s show ?thesis by blast
qed

end
