(* ===== verification/Sh_Parse.thy ===== *)
theory Sh_Parse
  imports Jos_Prelude
begin

text \<open>
  The parser of the shell in \<^verbatim>\<open>shell/\<close>: \<^verbatim>\<open>utils.c\<close>, \<^verbatim>\<open>createcmd.c\<close> and \<^verbatim>\<open>parsing.c\<close>. A \<open>char *\<close> is the
  part of its array from the pointer on, so a string is what comes before the first null and
  reading past the end of the array is an outcome, \<open>None\<close>. The environment, which \<open>getenv\<close>
  reads, and the exit status of the last command are parameters.
\<close>

section \<open>Strings in arrays\<close>

definition END_STRING :: char where "END_STRING = CHR 0x00"
definition SPACE :: char where "SPACE = CHR '' ''"

definition BUFLEN :: nat where "BUFLEN = 1024"
definition MAXARGS :: nat where "MAXARGS = 20"

definition cstring :: "string \<Rightarrow> string" where
  "cstring buf = takeWhile (\<lambda>c. c \<noteq> END_STRING) buf"

text \<open>A buffer of the shell that holds a line: the line, a null, and zeros to its end.\<close>

definition buffer_of :: "string \<Rightarrow> string" where
  "buffer_of line = line @ replicate (BUFLEN - length line) END_STRING"

definition plain_text :: "string \<Rightarrow> bool" where
  "plain_text s \<longleftrightarrow> END_STRING \<notin> set s"

section \<open>utils.c\<close>

text \<open>\<open>split_line\<close> writes a null over the splitter; the result is what comes before
  the new pointer, and the pointer.\<close>

definition split_line :: "string \<Rightarrow> char \<Rightarrow> (string \<times> string) option" where
  "split_line buf splitter =
     (let left = takeWhile (\<lambda>c. c \<noteq> splitter \<and> c \<noteq> END_STRING) buf
      in if length left \<ge> length buf then None
         else let rest = drop (Suc (length left)) buf; right = dropWhile (\<lambda>c. c = SPACE) rest
              in if right = [] then None
                 else Some (left @ END_STRING # takeWhile (\<lambda>c. c = SPACE) rest, right))"

fun index_of :: "string \<Rightarrow> char \<Rightarrow> int \<Rightarrow> int" where
  "index_of [] c i = -1"
| "index_of (x # xs) c i = (if x = c then i else index_of xs c (i + 1))"

definition block_contains :: "string \<Rightarrow> char \<Rightarrow> int" where
  "block_contains buf c = index_of (cstring buf) c 0"

definition count_c :: "string \<Rightarrow> char \<Rightarrow> nat" where
  "count_c buf c = length (filter (\<lambda>x. x = c) (cstring buf))"

lemma index_of_range: "index_of xs c i = -1 \<and> c \<notin> set xs \<or>
    i \<le> index_of xs c i \<and> index_of xs c i < i + int (length xs) \<and> c \<in> set xs"
  if "0 \<le> i"
  using that by (induction xs c i rule: index_of.induct) auto

lemma block_contains_nonneg: "0 \<le> block_contains s c \<longleftrightarrow> c \<in> set (cstring s)"
  using index_of_range [of 0 "cstring s" c] by (auto simp: block_contains_def)

lemma block_contains_neg: "block_contains s c < 0 \<longleftrightarrow> c \<notin> set (cstring s)"
  using block_contains_nonneg [of s c] by linarith

lemma block_contains_zero: "block_contains s c = 0 \<longleftrightarrow> (\<exists>t. cstring s = c # t)"
proof (cases "cstring s")
  case (Cons x xs)
  then show ?thesis using index_of_range [of 1 xs c] by (auto simp: block_contains_def)
qed (simp add: block_contains_def)

section \<open>Commands\<close>

record execcmd =
  redir :: bool
  scmd :: string
  argv :: "string list"
  eargv :: "string list"
  out_file :: string
  in_file :: string
  err_file :: string

text \<open>
  A \<open>struct cmd\<close>: an \<open>execcmd\<close> of type \<open>EXEC\<close> or \<open>REDIR\<close>, a background command, or a pipe. The
  array of a pipe has one entry for each part of the line; the entry of an empty part is null.
\<close>

datatype cmd = Exec execcmd | Back string cmd | Pipe "cmd option list"

definition exec_cmd_create :: "string \<Rightarrow> execcmd" where
  "exec_cmd_create buf_cmd = \<lparr>redir = False, scmd = cstring buf_cmd, argv = [], eargv = [],
     out_file = [], in_file = [], err_file = []\<rparr>"

fun cmd_scmd :: "cmd \<Rightarrow> string" where
  "cmd_scmd (Exec c) = scmd c"
| "cmd_scmd (Back s c) = s"
| "cmd_scmd (Pipe cs) = []"

definition back_cmd_create :: "cmd \<Rightarrow> cmd" where
  "back_cmd_create c = Back (cmd_scmd c) c"

text \<open>The array ends with a null, which \<open>all_cmd ! 1\<close> may be.\<close>

definition pipe_cmd_create :: "cmd option list \<Rightarrow> cmd option" where
  "pipe_cmd_create all_cmd =
     (case all_cmd of
        first # Some second # rest \<Rightarrow> Some (Pipe all_cmd)
      | first # rest \<Rightarrow> first
      | [] \<Rightarrow> None)"

section \<open>parsing.c\<close>

text \<open>\<open>get_token\<close> reads from the array at \<open>idx\<close>; the loop of its caller keeps it before the null.\<close>

definition get_token :: "string \<Rightarrow> nat \<Rightarrow> string" where
  "get_token buf idx = takeWhile (\<lambda>c. c \<noteq> SPACE \<and> c \<noteq> END_STRING) (drop idx buf)"

text \<open>The new command when the argument is a redirection.\<close>

definition parse_redir_flow :: "execcmd \<Rightarrow> string \<Rightarrow> execcmd option" where
  "parse_redir_flow c arg =
     (let outIdx = block_contains arg CHR ''>''; inIdx = block_contains arg CHR ''<''
      in if outIdx \<ge> 0 then
           Some ((if outIdx = 0 then c\<lparr>out_file := drop 1 arg\<rparr>
                  else if outIdx = 1 then c\<lparr>err_file := drop 2 arg\<rparr>
                  else c)\<lparr>redir := True\<rparr>)
         else if inIdx \<ge> 0 then Some (c\<lparr>in_file := drop 1 arg, redir := True\<rparr>)
         else None)"

definition parse_environ_var :: "execcmd \<Rightarrow> string \<Rightarrow> execcmd option" where
  "parse_environ_var c arg =
     (if block_contains arg CHR ''='' > 0 \<and> block_contains arg CHR ''-'' < 0
      then Some (c\<lparr>eargv := eargv c @ [arg]\<rparr>) else None)"

text \<open>The character \<open>'0' + status\<close> is one byte; a null byte there ends the string at once.\<close>

definition expand_environ_var :: "(string \<Rightarrow> string option) \<Rightarrow> int \<Rightarrow> string \<Rightarrow> string" where
  "expand_environ_var getenv status arg =
     (if block_contains arg CHR ''$'' \<noteq> 0 then arg
      else if arg = ''$?'' then cstring [char_of (nat ((48 + status) mod 256))]
      else case getenv (drop 1 arg) of None \<Rightarrow> [] | Some v \<Rightarrow> v)"

text \<open>Each round of the loop passes at least one character: a token or the space at the index.\<close>

lemma token_progress:
  assumes "idx < length buf" "buf ! idx \<noteq> END_STRING" "idx + length (get_token buf idx) < length buf"
  shows "idx < (if buf ! (idx + length (get_token buf idx)) \<noteq> END_STRING
                then idx + length (get_token buf idx) + 1 else idx + length (get_token buf idx))"
proof -
  have d: "drop idx buf = buf ! idx # drop (Suc idx) buf" using assms(1) by (simp add: Cons_nth_drop_Suc)
  show ?thesis using assms(2) by (cases "buf ! idx = SPACE") (simp_all add: get_token_def d)
qed

text \<open>
  The loop of \<open>parse_exec\<close>. The arrays of the command have \<open>MAXARGS\<close> entries, and the null after
  the last argument needs one: an entry past the end is the outcome \<open>None\<close>.
\<close>

function parse_args ::
  "(string \<Rightarrow> string option) \<Rightarrow> int \<Rightarrow> string \<Rightarrow> nat \<Rightarrow> execcmd \<Rightarrow> execcmd option" where
  "parse_args getenv status buf idx c =
     (if idx \<ge> length buf then None
      else if buf ! idx = END_STRING then
        (if length (argv c) < MAXARGS then Some c else None)
      else
        let tok = get_token buf idx; i = idx + length tok;
            idx' = (if buf ! i \<noteq> END_STRING then i + 1 else i)
        in if i \<ge> length buf then None
           else case parse_redir_flow c tok of
             Some c' \<Rightarrow> parse_args getenv status buf idx' c'
           | None \<Rightarrow>
             (case parse_environ_var c tok of
                Some c' \<Rightarrow>
                  if length (eargv c) < MAXARGS then parse_args getenv status buf idx' c' else None
              | None \<Rightarrow>
                  if length (argv c) < MAXARGS
                  then parse_args getenv status buf idx'
                         (c\<lparr>argv := argv c @ [expand_environ_var getenv status tok]\<rparr>)
                  else None))"
  by pat_completeness auto

termination
proof (relation "measure (\<lambda>(g, st, buf, idx, c). length buf - idx)")
qed (use token_progress in \<open>force simp: diff_less_mono2\<close>)+

declare parse_args.simps [simp del]

definition parse_exec :: "(string \<Rightarrow> string option) \<Rightarrow> int \<Rightarrow> string \<Rightarrow> execcmd option" where
  "parse_exec getenv status buf_cmd = parse_args getenv status buf_cmd 0 (exec_cmd_create buf_cmd)"

definition parse_back :: "(string \<Rightarrow> string option) \<Rightarrow> int \<Rightarrow> string \<Rightarrow> cmd option" where
  "parse_back getenv status buf_cmd =
     map_option (\<lambda>e. back_cmd_create (Exec e))
       (parse_exec getenv status (takeWhile (\<lambda>c. c \<noteq> CHR ''&'') buf_cmd @ [END_STRING]))"

text \<open>
  \<open>parse_cmd\<close> looks at the byte before an \<open>&\<close>. When that is the first byte of the part, it is the
  byte before the pointer, \<open>prev\<close>, and before the array there is none. The result inside is
  null for an empty part.
\<close>

definition parse_cmd ::
  "(string \<Rightarrow> string option) \<Rightarrow> int \<Rightarrow> char option \<Rightarrow> string \<Rightarrow> cmd option option" where
  "parse_cmd getenv status prev buf_cmd =
     (if cstring buf_cmd = [] then Some None
      else
        let idx = block_contains buf_cmd CHR ''&'';
            exec = map_option (\<lambda>e. Some (Exec e)) (parse_exec getenv status buf_cmd)
        in if idx < 0 then exec
           else case (if idx = 0 then prev else Some (buf_cmd ! nat (idx - 1))) of
             None \<Rightarrow> None
           | Some b \<Rightarrow> if b \<noteq> CHR ''>'' then map_option Some (parse_back getenv status buf_cmd) else exec)"

primrec parse_parts ::
  "(string \<Rightarrow> string option) \<Rightarrow> int \<Rightarrow> char option \<Rightarrow> nat \<Rightarrow> string \<Rightarrow> cmd option list option" where
  "parse_parts getenv status prev 0 buf = Some []"
| "parse_parts getenv status prev (Suc k) buf =
     (case split_line buf CHR ''|'' of
        None \<Rightarrow> None
      | Some (left, right) \<Rightarrow>
          (case parse_cmd getenv status prev left of
             None \<Rightarrow> None
           | Some c \<Rightarrow> map_option (Cons c) (parse_parts getenv status (Some (last left)) k right)))"

definition parse_line :: "(string \<Rightarrow> string option) \<Rightarrow> int \<Rightarrow> string \<Rightarrow> cmd option option" where
  "parse_line getenv status buf =
     map_option pipe_cmd_create (parse_parts getenv status None (count_c buf CHR ''|'' + 1) buf)"

section \<open>Tokens\<close>

text \<open>What the loop does with the words of a part, without the array.\<close>

definition take_arg ::
  "(string \<Rightarrow> string option) \<Rightarrow> int \<Rightarrow> execcmd \<Rightarrow> string \<Rightarrow> execcmd option" where
  "take_arg getenv status c tok =
     (case parse_redir_flow c tok of
        Some c' \<Rightarrow> Some c'
      | None \<Rightarrow>
        (case parse_environ_var c tok of
           Some c' \<Rightarrow> if length (eargv c) < MAXARGS then Some c' else None
         | None \<Rightarrow> if length (argv c) < MAXARGS
                  then Some (c\<lparr>argv := argv c @ [expand_environ_var getenv status tok]\<rparr>) else None))"

primrec take_args ::
  "(string \<Rightarrow> string option) \<Rightarrow> int \<Rightarrow> string list \<Rightarrow> execcmd \<Rightarrow> execcmd option" where
  "take_args getenv status [] c = (if length (argv c) < MAXARGS then Some c else None)"
| "take_args getenv status (w # ws) c = Option.bind (take_arg getenv status c w) (take_args getenv status ws)"

definition word :: "string \<Rightarrow> bool" where
  "word w \<longleftrightarrow> w \<noteq> [] \<and> SPACE \<notin> set w \<and> END_STRING \<notin> set w"

fun unwords :: "string list \<Rightarrow> string" where
  "unwords [] = []"
| "unwords [w] = w"
| "unwords (w # ws) = w @ SPACE # unwords ws"

lemma get_token_word:
  assumes "word w" "x = SPACE \<or> x = END_STRING"
  shows "get_token (pre @ w @ x # rest) (length pre) = w"
proof -
  have "\<forall>c \<in> set w. c \<noteq> SPACE \<and> c \<noteq> END_STRING" using assms(1) by (auto simp: word_def)
  then show ?thesis using assms(2) by (auto simp: get_token_def takeWhile_append2)
qed

lemma parse_args_step:
  assumes "word w" "x = SPACE \<or> x = END_STRING"
  shows "parse_args getenv status (pre @ w @ x # rest) (length pre) c =
    Option.bind (take_arg getenv status c w)
      (parse_args getenv status (pre @ w @ x # rest) (length pre + length w + (if x = END_STRING then 0 else 1)))"
proof -
  have "(pre @ w @ x # rest) ! length pre \<noteq> END_STRING"
    using assms(1) by (cases w) (auto simp: word_def nth_append)
  moreover have "(pre @ w @ x # rest) ! (length pre + length w) = x" by (simp add: nth_append)
  ultimately show ?thesis using get_token_word [OF assms]
    by (subst parse_args.simps) (auto simp: take_arg_def Let_def split: option.splits)
qed

lemma parse_args_words:
  assumes "\<forall>w \<in> set ws. word w" "sp = [] \<or> sp = [SPACE] \<and> ws \<noteq> []"
  shows "parse_args getenv status (pre @ unwords ws @ sp @ END_STRING # rest) (length pre) c
     = take_args getenv status ws c"
  using assms
proof (induction ws arbitrary: pre c rule: unwords.induct)
  case 1
  then show ?case by (simp add: parse_args.simps)
next
  case (2 w)
  have e: "parse_args getenv status (pre' @ END_STRING # rest) (length pre') c' = take_args getenv status [] c'" for pre' c'
    by (subst parse_args.simps) (simp add: nth_append)
  show ?case
  proof (cases "sp = []")
    case True
    with 2 e [of "pre @ w"] show ?thesis by (auto simp: parse_args_step intro!: Option.bind_cong)
  next
    case False
    with 2 e [of "pre @ w @ [SPACE]"] show ?thesis
      using parse_args_step [of w SPACE getenv status pre "END_STRING # rest" c]
      by (auto simp: END_STRING_def SPACE_def intro!: Option.bind_cong)
  qed
next
  case (3 w v ws)
  have "parse_args getenv status ((pre @ w @ [SPACE]) @ unwords (v # ws) @ sp @ END_STRING # rest)
      (length (pre @ w @ [SPACE])) c' = take_args getenv status (v # ws) c'" for c'
    using "3.prems" by (intro "3.IH") auto
  with "3.prems" show ?case
    using parse_args_step [of w SPACE getenv status pre "unwords (v # ws) @ sp @ END_STRING # rest" c]
    by (auto simp: SPACE_def END_STRING_def intro!: Option.bind_cong)
qed

section \<open>Printing commands\<close>

text \<open>Characters that mean something to the parser, and arguments it takes as they are.\<close>

definition quiet :: "string \<Rightarrow> bool" where
  "quiet w \<longleftrightarrow> SPACE \<notin> set w \<and> END_STRING \<notin> set w \<and> CHR ''|'' \<notin> set w \<and> CHR ''&'' \<notin> set w
     \<and> CHR ''<'' \<notin> set w \<and> CHR ''>'' \<notin> set w"

definition plain_arg :: "string \<Rightarrow> bool" where
  "plain_arg w \<longleftrightarrow> quiet w \<and> w \<noteq> [] \<and> hd w \<noteq> CHR ''$'' \<and> (CHR ''='' \<in> set w \<longrightarrow> CHR ''-'' \<in> set w \<or> hd w = CHR ''='')"

definition setting :: "string \<Rightarrow> bool" where
  "setting w \<longleftrightarrow> quiet w \<and> w \<noteq> [] \<and> hd w \<noteq> CHR ''='' \<and> CHR ''='' \<in> set w \<and> CHR ''-'' \<notin> set w"

text \<open>Commands that can be printed: the error file may be \<open>&1\<close>.\<close>

definition printable :: "execcmd \<Rightarrow> bool" where
  "printable c \<longleftrightarrow> argv c \<noteq> [] \<and> length (argv c) < MAXARGS \<and> length (eargv c) \<le> MAXARGS
     \<and> (\<forall>w \<in> set (argv c). plain_arg w) \<and> (\<forall>w \<in> set (eargv c). setting w)
     \<and> quiet (in_file c) \<and> quiet (out_file c) \<and> (quiet (err_file c) \<or> err_file c = ''&1'')
     \<and> redir c = (in_file c \<noteq> [] \<or> out_file c \<noteq> [] \<or> err_file c \<noteq> [])"

definition words_of :: "execcmd \<Rightarrow> string list" where
  "words_of c = eargv c @ argv c @ (if in_file c = [] then [] else [CHR ''<'' # in_file c])
     @ (if out_file c = [] then [] else [CHR ''>'' # out_file c])
     @ (if err_file c = [] then [] else [CHR ''2'' # CHR ''>'' # err_file c])"

lemma no_END: "END_STRING \<notin> set w \<Longrightarrow> cstring (w @ END_STRING # r) = w" "END_STRING \<notin> set w \<Longrightarrow> cstring w = w"
proof -
  assume "END_STRING \<notin> set w"
  then have "\<forall>c \<in> set w. c \<noteq> END_STRING" by auto
  then show "cstring (w @ END_STRING # r) = w" "cstring w = w"
    by (simp_all add: cstring_def takeWhile_append2)
qed

lemma quiet_cstring: "quiet w \<Longrightarrow> cstring w = w"
  by (simp add: quiet_def no_END)

lemma take_plain:
  assumes "plain_arg w" "length (argv c) < MAXARGS"
  shows "take_arg getenv status c w = Some (c\<lparr>argv := argv c @ [w]\<rparr>)"
proof -
  have w: "cstring w = w" "w \<noteq> []" using assms(1) by (simp_all add: plain_arg_def quiet_cstring)
  have "parse_redir_flow c w = None"
    using assms(1) w by (simp add: parse_redir_flow_def plain_arg_def quiet_def Let_def not_le block_contains_neg)
  moreover have "parse_environ_var c w = None"
  proof (cases "CHR ''='' \<in> set w \<and> CHR ''-'' \<notin> set w")
    case True
    with assms(1) w have "block_contains w CHR ''='' = 0"
      by (cases w) (auto simp: block_contains_zero plain_arg_def)
    then show ?thesis by (simp add: parse_environ_var_def)
  next
    case False
    then have "block_contains w CHR ''='' < 0 \<or> \<not> block_contains w CHR ''-'' < 0"
      by (auto simp: block_contains_neg w)
    then show ?thesis by (auto simp: parse_environ_var_def)
  qed
  moreover have "block_contains w CHR ''$'' \<noteq> 0"
    using assms(1) w by (auto simp: block_contains_zero plain_arg_def)
  ultimately show ?thesis using assms(2) by (simp add: take_arg_def expand_environ_var_def)
qed

lemma take_setting:
  assumes "setting w" "length (eargv c) < MAXARGS"
  shows "take_arg getenv status c w = Some (c\<lparr>eargv := eargv c @ [w]\<rparr>)"
proof -
  have w: "cstring w = w" "w \<noteq> []" using assms(1) by (simp_all add: setting_def quiet_cstring)
  have "parse_redir_flow c w = None"
    using assms(1) w by (simp add: parse_redir_flow_def setting_def quiet_def Let_def not_le block_contains_neg)
  moreover have "0 < block_contains w CHR ''=''"
    using assms(1) w block_contains_nonneg [of w "CHR ''=''"] block_contains_zero [of w "CHR ''=''"]
    by (auto simp: setting_def order.order_iff_strict)
  moreover have "block_contains w CHR ''-'' < 0"
    using assms(1) w by (simp add: setting_def block_contains_neg)
  ultimately show ?thesis using assms(2) by (simp add: take_arg_def parse_environ_var_def)
qed

lemma take_redirs:
  "quiet f \<Longrightarrow> take_arg getenv status c (CHR ''<'' # f) = Some (c\<lparr>in_file := f, redir := True\<rparr>)"
  "quiet f \<Longrightarrow> take_arg getenv status c (CHR ''>'' # f) = Some (c\<lparr>out_file := f, redir := True\<rparr>)"
  "quiet f \<or> f = ''&1'' \<Longrightarrow> take_arg getenv status c (CHR ''2'' # CHR ''>'' # f) = Some (c\<lparr>err_file := f, redir := True\<rparr>)"
proof -
  have "block_contains (CHR ''<'' # f) CHR ''>'' < 0" if "quiet f"
    using that by (simp add: block_contains_neg quiet_def cstring_def END_STRING_def) (meson set_takeWhileD)
  then show "quiet f \<Longrightarrow> take_arg getenv status c (CHR ''<'' # f) = Some (c\<lparr>in_file := f, redir := True\<rparr>)"
    by (auto simp: take_arg_def parse_redir_flow_def Let_def block_contains_def cstring_def END_STRING_def)
  show "quiet f \<Longrightarrow> take_arg getenv status c (CHR ''>'' # f) = Some (c\<lparr>out_file := f, redir := True\<rparr>)"
    "quiet f \<or> f = ''&1'' \<Longrightarrow> take_arg getenv status c (CHR ''2'' # CHR ''>'' # f) = Some (c\<lparr>err_file := f, redir := True\<rparr>)"
    by (simp_all add: take_arg_def parse_redir_flow_def Let_def block_contains_def cstring_def END_STRING_def)
qed

lemma take_args_settings:
  "\<forall>w \<in> set es. setting w \<Longrightarrow> length (eargv c) + length es \<le> MAXARGS \<Longrightarrow>
     take_args getenv status (es @ ws) c = take_args getenv status ws (c\<lparr>eargv := eargv c @ es\<rparr>)"
  by (induction es arbitrary: c) (simp_all add: take_setting)

lemma take_args_plain:
  "\<forall>w \<in> set as. plain_arg w \<Longrightarrow> length (argv c) + length as < MAXARGS \<Longrightarrow>
     take_args getenv status (as @ ws) c = take_args getenv status ws (c\<lparr>argv := argv c @ as\<rparr>)"
  by (induction as arbitrary: c) (simp_all add: take_plain)

lemma take_args_words_of:
  assumes "printable c"
  shows "take_args getenv status (words_of c) (exec_cmd_create b) = Some (c\<lparr>scmd := cstring b\<rparr>)"
proof -
  have "take_args getenv status (words_of c) (exec_cmd_create b)
      = take_args getenv status (drop (length (eargv c) + length (argv c)) (words_of c))
          (\<lparr>redir = False, scmd = cstring b, argv = argv c, eargv = eargv c, out_file = [], in_file = [], err_file = []\<rparr>)"
    using assms unfolding words_of_def
    by (simp add: take_args_settings take_args_plain exec_cmd_create_def printable_def)
  also have "\<dots> = Some (c\<lparr>scmd := cstring b\<rparr>)"
    using assms unfolding words_of_def by (cases c) (auto simp: printable_def take_redirs)
  finally show ?thesis .
qed

lemma word_quiet: "quiet w \<Longrightarrow> w \<noteq> [] \<Longrightarrow> word w"
  by (simp add: quiet_def word_def)

lemma set_words_of:
  "w \<in> set (words_of c) \<longleftrightarrow> w \<in> set (eargv c) \<or> w \<in> set (argv c) \<or> in_file c \<noteq> [] \<and> w = CHR ''<'' # in_file c
     \<or> out_file c \<noteq> [] \<and> w = CHR ''>'' # out_file c \<or> err_file c \<noteq> [] \<and> w = CHR ''2'' # CHR ''>'' # err_file c"
  by (auto simp: words_of_def)

text \<open>The words of a command: not empty, without a separator of the shell.\<close>

lemma words_of_ok:
  assumes "printable c" "w \<in> set (words_of c)"
  shows "word w" "CHR ''|'' \<notin> set w"
proof -
  have q: "word w \<and> CHR ''|'' \<notin> set w" if "quiet w" "w \<noteq> []" for w
    using that by (simp add: quiet_def word_def)
  have p: "word (x # f) \<and> CHR ''|'' \<notin> set (x # f)" if "quiet f \<or> f = ''&1''" "x = CHR ''<'' \<or> x = CHR ''>''" for x f
    using that by (auto simp: quiet_def word_def SPACE_def END_STRING_def)
  have "word w \<and> CHR ''|'' \<notin> set w"
    using assms(2) unfolding set_words_of
  proof (elim disjE conjE)
    assume "err_file c \<noteq> []" "w = CHR ''2'' # CHR ''>'' # err_file c"
    with p [of "err_file c" "CHR ''>''"] assms(1) show ?thesis
      by (simp add: printable_def word_def SPACE_def END_STRING_def)
  qed (use assms(1) q p in \<open>simp_all add: printable_def plain_arg_def setting_def\<close>)
  then show "word w" "CHR ''|'' \<notin> set w" by blast+
qed

lemma words_of_nonempty: "printable c \<Longrightarrow> words_of c \<noteq> []"
  by (simp add: printable_def words_of_def)

lemma set_unwords: "set (unwords ws) \<subseteq> insert SPACE (\<Union> (set ` set ws))"
  by (induction ws rule: unwords.induct) auto

text \<open>The text of a command, and what the parser has to know of it.\<close>

definition show_exec :: "execcmd \<Rightarrow> string" where
  "show_exec c = unwords (words_of c)"

lemma show_exec_quiet: "printable c \<Longrightarrow> CHR ''|'' \<notin> set (show_exec c) \<and> END_STRING \<notin> set (show_exec c)"
proof -
  assume c: "printable c"
  have "CHR ''|'' \<notin> set w \<and> END_STRING \<notin> set w" if "w \<in> set (words_of c)" for w
    using words_of_ok [OF c that] by (simp add: word_def)
  then show ?thesis using set_unwords [of "words_of c"] by (auto simp: show_exec_def SPACE_def END_STRING_def)
qed

lemma unwords_Cons: "ws \<noteq> [] \<Longrightarrow> unwords (w # ws) = w @ SPACE # unwords ws"
  by (cases ws) simp_all

lemma hd_show_exec: "printable c \<Longrightarrow> show_exec c \<noteq> [] \<and> hd (show_exec c) \<noteq> SPACE"
proof -
  assume c: "printable c"
  obtain w ws where w: "words_of c = w # ws" using words_of_nonempty [OF c] by (cases "words_of c") auto
  have "word w" using words_of_ok(1) [OF c, of w] w by simp
  then have "w \<noteq> []" "hd w \<noteq> SPACE" using hd_in_set [of w] by (auto simp: word_def simp del: hd_in_set)
  moreover have "show_exec c = w @ (if ws = [] then [] else SPACE # unwords ws)"
    using w by (simp add: show_exec_def unwords_Cons)
  ultimately show ?thesis by simp
qed

lemma parse_exec_show:
  assumes "printable c" "sp = [] \<or> sp = [SPACE]"
  shows "parse_exec getenv status (show_exec c @ sp @ END_STRING # rest) = Some (c\<lparr>scmd := show_exec c @ sp\<rparr>)"
proof -
  have t: "END_STRING \<notin> set (show_exec c @ sp)"
    using show_exec_quiet [OF assms(1)] assms(2) by (auto simp: SPACE_def END_STRING_def)
  have "parse_args getenv status ([] @ show_exec c @ sp @ END_STRING # rest) (length ([] :: string)) b
      = take_args getenv status (words_of c) b" for b
    unfolding show_exec_def
    by (rule parse_args_words) (use assms words_of_ok(1) [OF assms(1)] words_of_nonempty [OF assms(1)] in blast)+
  then show ?thesis
    using take_args_words_of [OF assms(1)] no_END(1) [OF t, of rest] by (simp add: parse_exec_def)
qed

text \<open>Where the first \<open>&\<close> of a command is: nowhere, or after the \<open>>\<close> of its last word.\<close>

lemma index_of_append: "c \<notin> set xs \<Longrightarrow> index_of (xs @ c # ys) c i = i + int (length xs)"
  by (induction xs arbitrary: i) auto

lemma unwords_snoc: "ws \<noteq> [] \<Longrightarrow> unwords (ws @ [w]) = unwords ws @ SPACE # w"
  by (induction ws rule: unwords.induct) auto

lemma amp_words:
  assumes "printable c" "w \<in> set (words_of c)" "err_file c \<noteq> ''&1'' \<or> w \<noteq> ''2>&1''"
  shows "CHR ''&'' \<notin> set w"
  using assms(2) unfolding set_words_of
  by (elim disjE conjE) (use assms(1,3) in \<open>auto simp: printable_def plain_arg_def setting_def quiet_def\<close>)

lemma show_exec_amp:
  assumes "printable c"
  shows "CHR ''&'' \<notin> set (show_exec c) \<or> (\<exists>u. show_exec c = u @ ''>&1'' \<and> CHR ''&'' \<notin> set u)"
proof (cases "err_file c = ''&1''")
  case False
  then have "CHR ''&'' \<notin> set w" if "w \<in> set (words_of c)" for w using amp_words [OF assms that] by blast
  then show ?thesis using set_unwords [of "words_of c"] by (auto simp: show_exec_def SPACE_def)
next
  case True
  define ws where "ws = words_of (c\<lparr>err_file := []\<rparr>)"
  have ws: "words_of c = ws @ [''2>&1'']" "ws \<noteq> []"
    using True assms by (auto simp: ws_def words_of_def printable_def)
  have "CHR ''&'' \<notin> set w" if "w \<in> set ws" for w
  proof -
    have w: "w \<in> set (words_of (c\<lparr>err_file := []\<rparr>))" using that by (simp only: ws_def)
    show ?thesis using w unfolding set_words_of
      by (elim disjE conjE) (use assms in \<open>auto simp: printable_def plain_arg_def setting_def quiet_def\<close>)
  qed
  then have "CHR ''&'' \<notin> set (unwords ws @ [SPACE, CHR ''2''])"
    using set_unwords [of ws] by (auto simp: SPACE_def)
  moreover have "show_exec c = (unwords ws @ [SPACE, CHR ''2'']) @ ''>&1''"
    using ws by (simp add: show_exec_def unwords_snoc SPACE_def)
  ultimately show ?thesis by blast
qed

lemma parse_cmd_show:
  assumes "printable c" "sp = [] \<or> sp = [SPACE]"
  shows "parse_cmd getenv status prev (show_exec c @ sp @ END_STRING # rest)
    = Some (Some (Exec (c\<lparr>scmd := show_exec c @ sp\<rparr>)))"
proof -
  have E: "END_STRING \<notin> set (show_exec c @ sp)"
    using show_exec_quiet [OF assms(1)] assms(2) by (auto simp: SPACE_def END_STRING_def)
  have cs: "cstring (show_exec c @ sp @ END_STRING # rest) = show_exec c @ sp"
    using no_END(1) [OF E, of rest] by simp
  have e: "parse_exec getenv status (show_exec c @ sp @ END_STRING # rest) = Some (c\<lparr>scmd := show_exec c @ sp\<rparr>)"
    by (rule parse_exec_show [OF assms])
  have ne: "show_exec c @ sp \<noteq> []" using hd_show_exec [OF assms(1)] by simp
  from show_exec_amp [OF assms(1)] show ?thesis
  proof
    assume "CHR ''&'' \<notin> set (show_exec c)"
    then have "block_contains (show_exec c @ sp @ END_STRING # rest) CHR ''&'' < 0"
      using assms(2) by (auto simp: block_contains_neg cs SPACE_def)
    with ne e show ?thesis by (simp add: parse_cmd_def cs)
  next
    assume "\<exists>u. show_exec c = u @ ''>&1'' \<and> CHR ''&'' \<notin> set u"
    then obtain u where u: "show_exec c = u @ ''>&1''" "CHR ''&'' \<notin> set u" by blast
    have "block_contains (show_exec c @ sp @ END_STRING # rest) CHR ''&'' = int (length u + 1)"
      using index_of_append [of "CHR ''&''" "u @ ''>''" "''1'' @ sp" 0] u unfolding block_contains_def cs by simp
    moreover have "(show_exec c @ sp @ END_STRING # rest) ! length u = CHR ''>''" by (simp add: u nth_append)
    ultimately show ?thesis using ne e by (simp add: parse_cmd_def cs)
  qed
qed

section \<open>Lines\<close>

fun show_line :: "execcmd list \<Rightarrow> string" where
  "show_line [] = []"
| "show_line [c] = show_exec c"
| "show_line (c # cs) = show_exec c @ SPACE # CHR ''|'' # SPACE # show_line cs"

text \<open>The commands with the text each was parsed from, which keeps the space before a bar.\<close>

fun labelled :: "execcmd list \<Rightarrow> execcmd list" where
  "labelled [] = []"
| "labelled [c] = [c\<lparr>scmd := show_exec c\<rparr>]"
| "labelled (c # cs) = c\<lparr>scmd := show_exec c @ [SPACE]\<rparr> # labelled cs"

lemma split_line_at:
  assumes "CHR ''|'' \<notin> set left" "END_STRING \<notin> set left" "x = CHR ''|'' \<or> x = END_STRING"
    "right \<noteq> []" "hd right \<noteq> SPACE"
  shows "split_line (left @ x # replicate n SPACE @ right) CHR ''|'' = Some (left @ END_STRING # replicate n SPACE, right)"
proof -
  have "\<forall>c \<in> set left. c \<noteq> CHR ''|'' \<and> c \<noteq> END_STRING" using assms(1,2) by auto
  then have "takeWhile (\<lambda>c. c \<noteq> CHR ''|'' \<and> c \<noteq> END_STRING) (left @ x # replicate n SPACE @ right) = left"
    using assms(3) by (auto simp: takeWhile_append2)
  moreover have "takeWhile (\<lambda>c. c = SPACE) (replicate n SPACE @ right) = replicate n SPACE"
    "dropWhile (\<lambda>c. c = SPACE) (replicate n SPACE @ right) = right"
    using assms(4,5) by (cases right; induction n; simp)+
  moreover have "\<exists>x \<in> set right. x \<noteq> SPACE" using assms(4,5) by (cases right) auto
  ultimately show ?thesis using assms(4) by (auto simp: split_line_def Let_def)
qed

lemma show_line_hd: "cs \<noteq> [] \<Longrightarrow> \<forall>c \<in> set cs. printable c \<Longrightarrow> show_line cs \<noteq> [] \<and> hd (show_line cs) \<noteq> SPACE"
  using hd_show_exec by (cases cs rule: show_line.cases) auto

lemma parse_parts_show:
  assumes "cs \<noteq> []" "\<forall>c \<in> set cs. printable c" "zs = END_STRING # zs'"
  shows "parse_parts getenv status prev (length cs) (show_line cs @ END_STRING # zs)
    = Some (map (\<lambda>c. Some (Exec c)) (labelled cs))"
  using assms(1,2)
proof (induction cs arbitrary: prev rule: labelled.induct)
  case (2 c)
  have "split_line (show_exec c @ END_STRING # replicate 0 SPACE @ zs) CHR ''|''
      = Some (show_exec c @ END_STRING # replicate 0 SPACE, zs)"
    using 2 show_exec_quiet [of c] assms(3) by (intro split_line_at) (auto simp: SPACE_def END_STRING_def)
  then show ?case
    using 2 parse_cmd_show [of c "[]" getenv status prev "[]"] by simp
next
  case (3 c d cs)
  have "split_line ((show_exec c @ [SPACE]) @ CHR ''|'' # replicate 1 SPACE @ show_line (d # cs) @ END_STRING # zs) CHR ''|''
      = Some ((show_exec c @ [SPACE]) @ END_STRING # replicate 1 SPACE, show_line (d # cs) @ END_STRING # zs)"
    using 3 show_exec_quiet [of c] show_line_hd [of "d # cs"]
    by (intro split_line_at) (auto simp: SPACE_def END_STRING_def)
  moreover have "parse_parts getenv status p (length (d # cs)) (show_line (d # cs) @ END_STRING # zs)
      = Some (map (\<lambda>c. Some (Exec c)) (labelled (d # cs)))" for p
    using 3 by (intro "3.IH") auto
  ultimately show ?case
    using 3 parse_cmd_show [of c "[SPACE]" getenv status prev "[SPACE]"] by simp
qed simp

lemma count_bars: "\<forall>c \<in> set cs. printable c \<Longrightarrow> cs \<noteq> [] \<Longrightarrow>
    length (filter (\<lambda>x. x = CHR ''|'') (show_line cs)) = length cs - 1"
proof (induction cs rule: labelled.induct)
  case (2 c)
  then have "CHR ''|'' \<notin> set (show_exec c)" using show_exec_quiet by simp
  then show ?case by (simp add: filter_empty_conv) metis
next
  case (3 c d cs)
  then have "CHR ''|'' \<notin> set (show_exec c)" using show_exec_quiet by simp
  then have "filter (\<lambda>x. x = CHR ''|'') (show_exec c) = []" by (simp add: filter_empty_conv) metis
  with 3 show ?case by (simp add: SPACE_def)
qed simp

lemma show_line_text: "\<forall>c \<in> set cs. printable c \<Longrightarrow> END_STRING \<notin> set (show_line cs)"
  using show_exec_quiet by (induction cs rule: labelled.induct) (auto simp: SPACE_def END_STRING_def)

lemma parse_line_show:
  assumes "cs \<noteq> []" "\<forall>c \<in> set cs. printable c" "length (show_line cs) + 2 \<le> BUFLEN"
  shows "parse_line getenv status (buffer_of (show_line cs))
    = Some (Some (case labelled cs of [c] \<Rightarrow> Exec c | ds \<Rightarrow> Pipe (map (\<lambda>c. Some (Exec c)) ds)))"
proof -
  obtain k where k: "BUFLEN - length (show_line cs) = Suc (Suc k)"
    using assms(3) by (metis Nat.le_diff_conv2 add.commute add_2_eq_Suc le_add2 le_trans less_eqE)
  have "parse_parts getenv status None (length cs) (buffer_of (show_line cs))
      = Some (map (\<lambda>c. Some (Exec c)) (labelled cs))"
    using parse_parts_show [OF assms(1,2) refl] by (simp add: buffer_of_def k)
  moreover have "count_c (buffer_of (show_line cs)) CHR ''|'' + 1 = length cs"
    using no_END(1) [OF show_line_text [OF assms(2)]] count_bars [OF assms(2,1)] assms(1)
    by (simp add: count_c_def buffer_of_def k)
  moreover have "pipe_cmd_create (map (\<lambda>c. Some (Exec c)) (labelled cs))
      = Some (case labelled cs of [c] \<Rightarrow> Exec c | ds \<Rightarrow> Pipe (map (\<lambda>c. Some (Exec c)) ds))"
    using assms(1) by (cases cs rule: labelled.cases; cases "labelled (tl cs)") (auto simp: pipe_cmd_create_def split: list.splits)
  ultimately show ?thesis by (simp add: parse_line_def)
qed

text \<open>
  Property C9. The parser reads back what is printed: a line of commands, each with its settings
  \<open>KEY=VALUE\<close>, its arguments and its redirections (\<open>2>&1\<close> included), joined by bars, parses to
  exactly these commands, and to a pipe when there are several.
\<close>

theorem parse_line_roundtrip:
  assumes "cs \<noteq> []" "\<forall>c \<in> set cs. printable c" "length (show_line cs) + 2 \<le> BUFLEN"
  shows "parse_line getenv status (buffer_of (show_line cs))
    = Some (Some (case labelled cs of [c] \<Rightarrow> Exec c | ds \<Rightarrow> Pipe (map (\<lambda>c. Some (Exec c)) ds)))"
  using assms by (rule parse_line_show)

theorem parse_line_roundtrip_witness:
  "parse_line (\<lambda>_. None) 0 (buffer_of ''A=1 cat -n <in | wc >out 2>&1'') =
    Some (Some (Pipe (map (\<lambda>c. Some (Exec c))
      [\<lparr>redir = True, scmd = ''A=1 cat -n <in '', argv = [''cat'', ''-n''], eargv = [''A=1''],
         out_file = [], in_file = ''in'', err_file = []\<rparr>,
       \<lparr>redir = True, scmd = ''wc >out 2>&1'', argv = [''wc''], eargv = [],
         out_file = ''out'', in_file = [], err_file = ''&1''\<rparr>])))"
proof -
  let ?c = "\<lparr>redir = True, scmd = [], argv = [''cat'', ''-n''], eargv = [''A=1''],
         out_file = [], in_file = ''in'', err_file = []\<rparr>"
  let ?d = "\<lparr>redir = True, scmd = [], argv = [''wc''], eargv = [],
         out_file = ''out'', in_file = [], err_file = ''&1''\<rparr>"
  note defs = printable_def plain_arg_def setting_def quiet_def SPACE_def END_STRING_def MAXARGS_def
  have ok: "\<forall>c \<in> set [?c, ?d]. printable c" by (simp add: defs)
  have t: "show_line [?c, ?d] = ''A=1 cat -n <in | wc >out 2>&1''"
    by (simp add: show_exec_def words_of_def SPACE_def)
  show ?thesis
    using parse_line_roundtrip [OF _ ok, of "\<lambda>_. None" 0] unfolding t
    by (simp add: BUFLEN_def show_exec_def words_of_def SPACE_def)
qed

section \<open>Lines outside the printed ones\<close>

text \<open>A line of a bar alone has no first command, and no command at all.\<close>

lemma parse_lone_bar: "parse_line getenv status (buffer_of ''|'') = Some None"
proof -
  have b: "buffer_of ''|'' = CHR ''|'' # END_STRING # END_STRING # replicate 1021 END_STRING"
    using replicate_Suc [of 1022 END_STRING] replicate_Suc [of 1021 END_STRING]
    by (simp add: buffer_of_def BUFLEN_def)
  show ?thesis
    unfolding b by (simp add: parse_line_def count_c_def cstring_def split_line_def Let_def
      END_STRING_def SPACE_def parse_cmd_def pipe_cmd_create_def)
qed

text \<open>A word with \<open>>\<close> after its second character is dropped; a second space makes an empty argument.\<close>

lemma redir_dropped:
  "quiet w \<Longrightarrow> 2 \<le> length w \<Longrightarrow> take_arg getenv status c (w @ CHR ''>'' # f) = Some (c\<lparr>redir := True\<rparr>)"
proof -
  assume w: "quiet w" "2 \<le> length w"
  then have "END_STRING \<notin> set w" "CHR ''>'' \<notin> set w" by (simp_all add: quiet_def)
  then have "\<forall>x \<in> set w. x \<noteq> END_STRING" by auto
  then have "cstring (w @ CHR ''>'' # f) = w @ CHR ''>'' # cstring f"
    by (simp add: cstring_def takeWhile_append2 END_STRING_def)
  with w \<open>CHR ''>'' \<notin> set w\<close> have "block_contains (w @ CHR ''>'' # f) CHR ''>'' = int (length w)"
    by (simp add: block_contains_def index_of_append)
  with w show ?thesis by (auto simp: take_arg_def parse_redir_flow_def)
qed

lemma double_space_argument:
  "map_option argv (parse_exec getenv status (''ls  -l'' @ [END_STRING])) = Some [''ls'', [], ''-l'']"
  by (simp add: parse_exec_def parse_args.simps get_token_def END_STRING_def SPACE_def Let_def MAXARGS_def
      exec_cmd_create_def parse_redir_flow_def parse_environ_var_def expand_environ_var_def block_contains_def cstring_def)

text \<open>A status of two digits expands to one character that is none.\<close>

lemma status_two_digits: "expand_environ_var getenv 10 ''$?'' = '':''"
  by (simp add: expand_environ_var_def block_contains_def cstring_def END_STRING_def char_of_def bit_numeral_rec bit_Suc_0_iff)

end
