(* ===== verification/Sh_Exec.thy ===== *)
theory Sh_Exec
  imports Sh_Parse
begin

text \<open>
  Running commands: \<^verbatim>\<open>exec.c\<close>, \<^verbatim>\<open>runcmd.c\<close>, \<^verbatim>\<open>builtin.c\<close>, \<^verbatim>\<open>printstatus.c\<close>, \<^verbatim>\<open>readline.c\<close> and \<^verbatim>\<open>sh.c\<close> of the
  shell. A process has its environment and its table of descriptors; what \<open>open\<close> does with a
  file, which programs can be executed and what they do are parameters.
\<close>

section \<open>The environment\<close>

definition get_environ_key :: "string \<Rightarrow> string" where
  "get_environ_key arg = takeWhile (\<lambda>c. c \<noteq> CHR ''='') arg"

definition get_environ_value :: "string \<Rightarrow> int \<Rightarrow> string" where
  "get_environ_value arg idx = drop (nat (idx + 1)) arg"

type_synonym environ = "string \<Rightarrow> string option"

text \<open>\<open>setenv\<close> refuses an empty name.\<close>

primrec set_environ_vars :: "string list \<Rightarrow> environ \<Rightarrow> environ option" where
  "set_environ_vars [] env = Some env"
| "set_environ_vars (current # vars) env =
     (if get_environ_key current = [] then None
      else set_environ_vars vars
        (env(get_environ_key current \<mapsto> get_environ_value current (block_contains current CHR ''=''))))"

lemma environ_parts:
  assumes "setting w"
  shows "w = get_environ_key w @ CHR ''='' # get_environ_value w (block_contains w CHR ''='')"
    "get_environ_key w \<noteq> []"
proof -
  let ?k = "get_environ_key w"
  have "x \<in> set w \<Longrightarrow> w = takeWhile (\<lambda>c. c \<noteq> x) w @ x # tl (dropWhile (\<lambda>c. c \<noteq> x) w)" for x
    by (induction w) auto
  then obtain v where v: "w = ?k @ CHR ''='' # v"
    using assms unfolding get_environ_key_def setting_def by blast
  have "CHR ''='' \<notin> set ?k" by (auto simp: get_environ_key_def dest: set_takeWhileD)
  then have "block_contains w CHR ''='' = int (length ?k)"
    using assms index_of_append [of "CHR ''=''" ?k v 0] v by (simp add: block_contains_def setting_def quiet_cstring)
  then have "get_environ_value w (block_contains w CHR ''='') = v"
    by (subst v) (simp add: get_environ_value_def nat_add_distrib)
  with v show "w = ?k @ CHR ''='' # get_environ_value w (block_contains w CHR ''='')" by simp
  show "?k \<noteq> []" using assms by (cases w) (auto simp: get_environ_key_def setting_def)
qed

section \<open>Redirections\<close>

text \<open>What a descriptor stands for: one the process started with, a file, an end of a pipe.\<close>

datatype desc = Inherited nat | Reading string | Writing string | PipeRead nat | PipeWrite nat

definition open_redir_fd :: "string \<Rightarrow> nat \<Rightarrow> desc" where
  "open_redir_fd file flags = (if flags = 0 then Reading file else Writing file)"

type_synonym fdtab = "desc option list"

text \<open>\<open>open\<close> takes the lowest free number.\<close>

fun lowest_free :: "fdtab \<Rightarrow> nat" where
  "lowest_free [] = 0"
| "lowest_free (None # ds) = 0"
| "lowest_free (Some d # ds) = Suc (lowest_free ds)"

definition put_fd :: "nat \<Rightarrow> desc \<Rightarrow> fdtab \<Rightarrow> fdtab" where
  "put_fd n d tab = (tab @ replicate (Suc n - length tab) None)[n := Some d]"

definition sys_open :: "(desc \<Rightarrow> bool) \<Rightarrow> desc \<Rightarrow> fdtab \<Rightarrow> int \<times> fdtab" where
  "sys_open can_open d tab = (if can_open d then (int (lowest_free tab), put_fd (lowest_free tab) d tab) else (-1, tab))"

definition dup2 :: "int \<Rightarrow> nat \<Rightarrow> fdtab \<Rightarrow> fdtab option" where
  "dup2 fd new tab =
     (if fd < 0 \<or> nat fd \<ge> length tab then None
      else case tab ! nat fd of None \<Rightarrow> None | Some d \<Rightarrow> Some (put_fd new d tab))"

text \<open>\<open>redirect_file\<close>: \<open>None\<close> when it ends the process with an error, else the descriptor used.\<close>

definition redirect_file :: "(desc \<Rightarrow> bool) \<Rightarrow> string \<Rightarrow> nat \<Rightarrow> nat \<Rightarrow> int \<Rightarrow> fdtab \<Rightarrow> (int \<times> fdtab) option" where
  "redirect_file can_open file redir_fd mode fd tab =
     (let (fd', tab') = (if fd \<le> 0 then sys_open can_open (open_redir_fd file mode) tab else (fd, tab))
      in if fd \<le> 0 \<and> fd' = -1 then None
         else map_option (Pair fd') (dup2 fd' redir_fd tab'))"

text \<open>The three redirections of a command of type \<open>REDIR\<close>, in the order of the source.\<close>

definition redirections :: "(desc \<Rightarrow> bool) \<Rightarrow> execcmd \<Rightarrow> fdtab \<Rightarrow> fdtab option" where
  "redirections can_open r tab =
     Option.bind (if out_file r \<noteq> [] then redirect_file can_open (out_file r) 1 1 (-1) tab else Some (-1, tab)) (\<lambda>(fd_out, tab).
     Option.bind (if in_file r \<noteq> [] then redirect_file can_open (in_file r) 0 0 (-1) tab else Some (-1, tab)) (\<lambda>(fd_in, tab).
     if err_file r \<noteq> [] then
       map_option snd (redirect_file can_open (err_file r) 2 1
         (if block_contains (err_file r) CHR ''&'' = 0 then fd_out else -1) tab)
     else Some tab))"

section \<open>Executing a command\<close>

text \<open>
  A process that executes a command becomes a program with its arguments, its environment and
  its first three descriptors, or ends with a status. Descriptors that redirections opened
  close on \<open>execvp\<close>. A pipeline is run by processes of its own (below).
\<close>

datatype outcome = Becomes "string list" environ fdtab | Exits int | Pipeline "cmd option list"

definition exec_program :: "(string \<Rightarrow> bool) \<Rightarrow> execcmd \<Rightarrow> environ \<Rightarrow> fdtab \<Rightarrow> outcome" where
  "exec_program can_exec e env tab =
     (case set_environ_vars (eargv e) env of
        None \<Rightarrow> Exits (-1)
      | Some env' \<Rightarrow>
          if argv e \<noteq> [] \<and> can_exec (hd (argv e)) then Becomes (argv e) env' (take 3 tab) else Exits (-1))"

primrec exec_cmd :: "(desc \<Rightarrow> bool) \<Rightarrow> (string \<Rightarrow> bool) \<Rightarrow> cmd \<Rightarrow> environ \<Rightarrow> fdtab \<Rightarrow> outcome" where
  "exec_cmd can_open can_exec (Exec e) env tab =
     (if redir e then
        case redirections can_open e tab of
          None \<Rightarrow> Exits (-1)
        | Some tab' \<Rightarrow> exec_program can_exec (e\<lparr>redir := False\<rparr>) env tab'
      else exec_program can_exec e env tab)"
| "exec_cmd can_open can_exec (Back s c) env tab = exec_cmd can_open can_exec c env tab"
| "exec_cmd can_open can_exec (Pipe cs) env tab = Pipeline cs"

lemma lowest_free_low [simp]: "lowest_free (Some a # Some b # Some c # ds) = Suc (Suc (Suc (lowest_free ds)))"
  by simp

lemma put_fd_nth: "put_fd n d tab ! n = Some d" "i \<noteq> n \<Longrightarrow> i < length tab \<Longrightarrow> put_fd n d tab ! i = tab ! i"
  by (simp_all add: put_fd_def nth_append)

lemma put_fd_length: "length (put_fd n d tab) = max (length tab) (Suc n)"
  by (simp add: put_fd_def)

text \<open>A process with its three descriptors open.\<close>

definition std_open :: "fdtab \<Rightarrow> bool" where
  "std_open tab \<longleftrightarrow> 3 \<le> length tab \<and> tab ! 0 \<noteq> None \<and> tab ! 1 \<noteq> None \<and> tab ! 2 \<noteq> None"

lemma lowest_free_std: "std_open tab \<Longrightarrow> 3 \<le> lowest_free tab"
proof -
  assume "std_open tab"
  then obtain a b c ds where "tab = Some a # Some b # Some c # ds"
    by (cases tab; cases "tl tab"; cases "tl (tl tab)") (auto simp: std_open_def)
  then show ?thesis by simp
qed

lemma lowest_free_None: "lowest_free tab < length tab \<Longrightarrow> tab ! lowest_free tab = None"
  by (induction tab rule: lowest_free.induct) auto

text \<open>What a redirection does to the first three descriptors: one of them becomes the file.\<close>

lemma redirect_opened:
  assumes "std_open tab" "can_open (open_redir_fd file mode)" "redir_fd < 3"
  shows "\<exists>n tab'. redirect_file can_open file redir_fd mode (-1) tab = Some (n, tab') \<and> 3 \<le> n \<and> std_open tab'
    \<and> nat n < length tab' \<and> tab' ! nat n = Some (open_redir_fd file mode)
    \<and> (\<forall>i < 3. tab' ! i = (if i = redir_fd then Some (open_redir_fd file mode) else tab ! i))
    \<and> length tab \<le> length tab' \<and> (\<forall>i \<ge> 3. i < length tab \<longrightarrow> tab ! i \<noteq> None \<longrightarrow> tab' ! i = tab ! i)"
proof -
  let ?d = "open_redir_fd file mode" and ?n = "lowest_free tab"
  let ?t = "put_fd ?n ?d tab"
  have n: "3 \<le> ?n" using assms(1) by (rule lowest_free_std)
  have d: "dup2 (int ?n) redir_fd ?t = Some (put_fd redir_fd ?d ?t)"
    by (simp add: dup2_def put_fd_length put_fd_nth(1))
  have i: "?t ! i = tab ! i" if "i < 3" for i
    using that n assms(1) by (intro put_fd_nth(2)) (auto simp: std_open_def)
  have j: "put_fd redir_fd ?d ?t ! i = (if i = redir_fd then Some ?d else ?t ! i)" if "i < length ?t" for i
    using that put_fd_nth(1) [of redir_fd ?d ?t] put_fd_nth(2) [of i redir_fd ?t ?d] by simp
  have l: "3 \<le> length ?t" using assms(1) by (auto simp: put_fd_length std_open_def)
  have s: "\<forall>i < 3. put_fd redir_fd ?d ?t ! i = (if i = redir_fd then Some ?d else tab ! i)"
    using i j l by simp
  have o: "\<forall>i \<ge> 3. i < length tab \<longrightarrow> tab ! i \<noteq> None \<longrightarrow> put_fd redir_fd ?d ?t ! i = tab ! i"
  proof (intro allI impI)
    fix i assume i3: "3 \<le> i" "i < length tab" "tab ! i \<noteq> None"
    then have "i \<noteq> ?n" using lowest_free_None [of tab] by auto
    with i3 show "put_fd redir_fd ?d ?t ! i = tab ! i"
      using j [of i] put_fd_nth(2) [of i ?n tab ?d] assms(3) by (simp add: put_fd_length)
  qed
  have "std_open (put_fd redir_fd ?d ?t)"
    using assms(1) s l by (auto simp: std_open_def put_fd_length)
  moreover have "put_fd redir_fd ?d ?t ! ?n = Some ?d"
    using j [of ?n] put_fd_nth(1) [of ?n ?d tab] by (simp add: put_fd_length)
  moreover have "?n < length (put_fd redir_fd ?d ?t)" "length tab \<le> length (put_fd redir_fd ?d ?t)"
    by (simp_all add: put_fd_length less_max_iff_disj le_max_iff_disj)
  ultimately show ?thesis
    using s d n assms(2) o
    by (intro exI [of _ "int ?n"] exI [of _ "put_fd redir_fd ?d ?t"]) (simp add: redirect_file_def sys_open_def)
qed

lemma redirect_given:
  assumes "std_open tab" "3 \<le> n" "nat n < length tab" "tab ! nat n = Some d"
  shows "\<exists>tab'. redirect_file can_open file 2 mode n tab = Some (n, tab') \<and> tab' ! 2 = Some d
    \<and> tab' ! 0 = tab ! 0 \<and> tab' ! 1 = tab ! 1"
proof -
  have l: "0 < length tab" "1 < length tab" using assms(1) by (auto simp: std_open_def)
  have "put_fd 2 d tab ! 0 = tab ! 0" "put_fd 2 d tab ! 1 = tab ! 1" "put_fd 2 d tab ! 2 = Some d"
    using put_fd_nth(2) [OF _ l(1), of 2 d] put_fd_nth(2) [OF _ l(2), of 2 d] by (simp_all add: put_fd_nth(1))
  with assms show ?thesis by (auto simp: redirect_file_def dup2_def)
qed

text \<open>Where standard input, output and error of a command go.\<close>

definition stdin_of :: "execcmd \<Rightarrow> fdtab \<Rightarrow> desc option" where
  "stdin_of r tab = (if in_file r = [] then tab ! 0 else Some (Reading (in_file r)))"

definition stdout_of :: "execcmd \<Rightarrow> fdtab \<Rightarrow> desc option" where
  "stdout_of r tab = (if out_file r = [] then tab ! 1 else Some (Writing (out_file r)))"

definition stderr_of :: "execcmd \<Rightarrow> fdtab \<Rightarrow> desc option" where
  "stderr_of r tab =
     (if err_file r = [] then tab ! 2
      else if block_contains (err_file r) CHR ''&'' = 0 \<and> out_file r \<noteq> [] then stdout_of r tab
      else Some (Writing (err_file r)))"

lemma err_redirected:
  assumes "\<forall>d. can_open d" and 1: "out_file e \<noteq> [] \<longrightarrow> 3 \<le> n1 \<and> nat n1 < length t1 \<and> t1 ! nat n1 = stdout_of e tab"
      "out_file e = [] \<longrightarrow> n1 = -1"
    and 2: "std_open t2" "t2 ! 0 = stdin_of e tab" "t2 ! 1 = stdout_of e tab" "t2 ! 2 = tab ! 2" "length t1 \<le> length t2"
      "\<forall>i \<ge> 3. i < length t1 \<longrightarrow> t1 ! i \<noteq> None \<longrightarrow> t2 ! i = t1 ! i"
  shows "\<exists>t3. (if err_file e \<noteq> [] then map_option snd (redirect_file can_open (err_file e) 2 1
         (if block_contains (err_file e) CHR ''&'' = 0 then n1 else -1) t2) else Some t2) = Some t3
      \<and> t3 ! 0 = stdin_of e tab \<and> t3 ! 1 = stdout_of e tab \<and> t3 ! 2 = stderr_of e tab \<and> 3 \<le> length t3"
proof (cases "err_file e \<noteq> [] \<and> block_contains (err_file e) CHR ''&'' = 0 \<and> out_file e \<noteq> []")
  case True
  then have n: "3 \<le> n1" "nat n1 < length t2" and i: "3 \<le> nat n1" using 1(1) 2(5) by auto
  from True 1(1) i 2(6) have "t2 ! nat n1 = Some (Writing (out_file e))" by (auto simp: stdout_of_def)
  from redirect_given [OF 2(1) n this, of can_open "err_file e" 1] obtain t3 where
    t3: "redirect_file can_open (err_file e) 2 1 n1 t2 = Some (n1, t3)" "t3 ! 2 = stdout_of e tab" "t3 ! 0 = t2 ! 0" "t3 ! 1 = t2 ! 1"
    using True by (auto simp: stdout_of_def)
  have "3 \<le> length t3" using t3(1) 2(1) n
    by (auto simp: redirect_file_def dup2_def put_fd_length split: if_splits option.splits)
  with True t3 2 show ?thesis by (simp add: stderr_of_def)
next
  case False
  then have n: "err_file e \<noteq> [] \<Longrightarrow> (if block_contains (err_file e) CHR ''&'' = 0 then n1 else -1) = -1"
    using 1(2) by auto
  show ?thesis
  proof (cases "err_file e = []")
    case True
    with 2 show ?thesis by (simp add: stderr_of_def std_open_def)
  next
    case err: False
    from redirect_opened [OF 2(1), of can_open "err_file e" 1 2] assms(1) obtain n3 t3 where
      t3: "redirect_file can_open (err_file e) 2 1 (-1) t2 = Some (n3, t3)" "std_open t3"
        "\<forall>i < 3. t3 ! i = (if i = 2 then Some (Writing (err_file e)) else t2 ! i)"
      by (auto simp: open_redir_fd_def)
    with n [OF err] err False 2 show ?thesis by (auto simp: stderr_of_def std_open_def)
  qed
qed

lemma redirections_open:
  assumes "std_open tab" "\<forall>d. can_open d"
  shows "\<exists>t3. redirections can_open e tab = Some t3 \<and> take 3 t3 = [stdin_of e tab, stdout_of e tab, stderr_of e tab]"
proof -
  let ?rd = "redirect_file can_open"
  obtain n1 t1 where 1: "(if out_file e \<noteq> [] then ?rd (out_file e) 1 1 (-1) tab else Some (-1, tab)) = Some (n1, t1)"
    "std_open t1" "t1 ! 0 = tab ! 0" "t1 ! 1 = stdout_of e tab" "t1 ! 2 = tab ! 2"
    "out_file e \<noteq> [] \<longrightarrow> 3 \<le> n1 \<and> nat n1 < length t1 \<and> t1 ! nat n1 = stdout_of e tab"
    "out_file e = [] \<longrightarrow> n1 = -1"
    using redirect_opened [OF assms(1), of can_open "out_file e" 1 1] assms(1,2)
    by (cases "out_file e = []") (force simp: stdout_of_def open_redir_fd_def)+
  obtain n2 t2 where 2: "(if in_file e \<noteq> [] then ?rd (in_file e) 0 0 (-1) t1 else Some (-1, t1)) = Some (n2, t2)"
    "std_open t2" "t2 ! 0 = stdin_of e tab" "t2 ! 1 = stdout_of e tab" "t2 ! 2 = tab ! 2" "length t1 \<le> length t2"
    "\<forall>i \<ge> 3. i < length t1 \<longrightarrow> t1 ! i \<noteq> None \<longrightarrow> t2 ! i = t1 ! i"
    using redirect_opened [OF 1(2), of can_open "in_file e" 0 0] assms(2) 1
    by (cases "in_file e = []") (force simp: stdin_of_def open_redir_fd_def)+
  obtain t3 where "redirections can_open e tab = Some t3"
    "t3 ! 0 = stdin_of e tab" "t3 ! 1 = stdout_of e tab" "t3 ! 2 = stderr_of e tab" "3 \<le> length t3"
    using err_redirected [OF assms(2) 1(6,7) 2(2-7)] 1(1) 2(1) by (auto simp: redirections_def)
  moreover from this have "take 3 t3 = [stdin_of e tab, stdout_of e tab, stderr_of e tab]"
    by (intro nth_equalityI) (auto simp: numeral_3_eq_3 numeral_2_eq_2 less_Suc_eq)
  ultimately show ?thesis by simp
qed

text \<open>
  Property C25. The program a command becomes has the descriptors its redirections ask for:
  input from its \<open><\<close> file, output to its \<open>>\<close> file, errors to the \<open>2>\<close> file or, for \<open>2>&1\<close>, to
  the very descriptor of the output; the others are the shell's. It has the settings of the
  line in its environment and exactly the arguments of the line. This is for commands whose
  \<open>2>&1\<close>, if any, is next to an output file: without one the code does something else
  (\<open>err_to_no_output\<close> below).
\<close>

theorem exec_redirects:
  assumes "std_open tab" "\<forall>d. can_open d" "redir e" "argv e \<noteq> []" "can_exec (hd (argv e))"
    and "set_environ_vars (eargv e) env = Some env'"
    and "err_file e \<noteq> [] \<longrightarrow> block_contains (err_file e) CHR ''&'' = 0 \<longrightarrow> out_file e \<noteq> []"
  shows "exec_cmd can_open can_exec (Exec e) env tab =
    Becomes (argv e) env' [stdin_of e tab, stdout_of e tab, stderr_of e tab]"
proof -
  obtain t3 where "redirections can_open e tab = Some t3" "take 3 t3 = [stdin_of e tab, stdout_of e tab, stderr_of e tab]"
    using redirections_open [OF assms(1,2)] by blast
  with assms(3-6) show ?thesis by (simp add: exec_program_def)
qed

theorem exec_redirects_witness:
  "exec_cmd (\<lambda>_. True) (\<lambda>_. True)
     (Exec \<lparr>redir = True, scmd = [], argv = [''ls''], eargv = [''A=1''], out_file = ''o'', in_file = [], err_file = ''&1''\<rparr>)
     (\<lambda>_. None) [Some (Inherited 0), Some (Inherited 1), Some (Inherited 2)]
   = Becomes [''ls''] [''A'' \<mapsto> ''1''] [Some (Inherited 0), Some (Writing ''o''), Some (Writing ''o'')]"
proof -
  let ?e = "\<lparr>redir = True, scmd = [], argv = [''ls''], eargv = [''A=1''], out_file = ''o'', in_file = [], err_file = ''&1''\<rparr>"
  have b: "block_contains ''&1'' CHR ''&'' = 0" "block_contains ''A=1'' CHR ''='' = 1"
    by (simp_all add: block_contains_def cstring_def END_STRING_def)
  have "set_environ_vars (eargv ?e) (\<lambda>_. None) = Some [''A'' \<mapsto> ''1'']"
    by (simp add: get_environ_key_def get_environ_value_def b)
  from exec_redirects [OF _ _ _ _ _ this, of "[Some (Inherited 0), Some (Inherited 1), Some (Inherited 2)]" "\<lambda>_. True" "\<lambda>_. True"]
  show ?thesis by (simp add: std_open_def stdin_of_def stdout_of_def stderr_of_def b)
qed

text \<open>Without an output file, \<open>2>&1\<close> opens a file of the name \<open>&1\<close>.\<close>

lemma err_to_no_output:
  assumes "std_open tab" "\<forall>d. can_open d" "out_file e = []" "err_file e = ''&1''"
  shows "\<exists>t. redirections can_open e tab = Some t \<and> t ! 2 = Some (Writing ''&1'')"
proof -
  obtain t where t: "redirections can_open e tab = Some t" "take 3 t = [stdin_of e tab, stdout_of e tab, stderr_of e tab]"
    using redirections_open [OF assms(1,2)] by blast
  have "t ! 2 = take 3 t ! 2" by simp
  then show ?thesis using t assms(3,4) by (simp add: stderr_of_def)
qed

section \<open>Pipelines\<close>

text \<open>
  The process that runs a pipeline: its table of descriptors, what the pipes it has made hold, what
  has been written to its standard output, and for every program it has started the command and the
  descriptors the program began with.
\<close>

record pipeline =
  ptab :: fdtab
  held :: "nat \<Rightarrow> string"
  made :: nat
  shown :: string
  started :: "(cmd \<times> fdtab) list"

definition sys_close :: "int \<Rightarrow> fdtab \<Rightarrow> fdtab" where
  "sys_close fd tab = (if 0 \<le> fd \<and> nat fd < length tab then tab[nat fd := None] else tab)"

text \<open>\<open>pipe\<close> takes the two lowest free numbers, the first one for reading.\<close>

definition sys_pipe :: "pipeline \<Rightarrow> (int \<times> int) \<times> pipeline" where
  "sys_pipe s =
     (let r = lowest_free (ptab s); t = put_fd r (PipeRead (made s)) (ptab s);
          w = lowest_free t
      in ((int r, int w), s\<lparr>ptab := put_fd w (PipeWrite (made s)) t, held := (held s)(made s := []), made := made s + 1\<rparr>))"

text \<open>\<open>pipeline_error\<close> closes what is open and returns: the caller goes on.\<close>

definition pipeline_error :: "int \<times> int \<Rightarrow> int \<Rightarrow> fdtab \<Rightarrow> fdtab" where
  "pipeline_error fds fd tab =
     (let t = (if fst fds \<ge> 0 then sys_close (fst fds) tab else tab);
          t = (if snd fds \<ge> 0 then sys_close (snd fds) t else t)
      in if fd \<ge> 0 then sys_close fd t else t)"

text \<open>The child's part up to \<open>exec_cmd\<close>; \<open>None\<close> when it ends there.\<close>

definition child_side :: "bool \<Rightarrow> int \<Rightarrow> nat \<Rightarrow> bool \<Rightarrow> int \<times> int \<Rightarrow> fdtab \<Rightarrow> fdtab option" where
  "child_side setpgid_ok fd i nxt fds tab =
     (if \<not> setpgid_ok then None
      else
        Option.bind (if i \<noteq> 0 then map_option (sys_close fd) (dup2 fd 0 tab) else Some tab) (\<lambda>tab.
          if nxt then map_option (\<lambda>t. sys_close (fst fds) (sys_close (snd fds) t)) (dup2 (snd fds) 1 tab)
          else Some tab))"

text \<open>
  The program a child becomes. \<open>run c s\<close> is what the program of the command \<open>c\<close> writes to its descriptor
  1 when \<open>s\<close> is what it reads at its descriptor 0, up to the end; \<open>inp\<close> is what the pipeline
  itself can read. The end of a pipe is seen only when no process has a descriptor for writing it,
  and while the child runs nobody takes bytes out of the pipe it writes, because its parent waits
  for it: in both cases it never ends, the outcome \<open>None\<close>.
\<close>

definition fd_at :: "fdtab \<Rightarrow> nat \<Rightarrow> desc option" where
  "fd_at tab n = (if n < length tab then tab ! n else None)"

definition child_reads :: "string \<Rightarrow> fdtab \<Rightarrow> fdtab \<Rightarrow> pipeline \<Rightarrow> (string \<times> pipeline) option" where
  "child_reads inp parent child s = (case fd_at child 0 of
     Some (PipeRead k) \<Rightarrow>
       if Some (PipeWrite k) \<in> set parent \<union> set child then None else Some (held s k, s\<lparr>held := (held s)(k := [])\<rparr>)
   | Some (Inherited n) \<Rightarrow> Some (inp, s)
   | _ \<Rightarrow> Some ([], s))"

definition child_writes :: "nat \<Rightarrow> string \<Rightarrow> fdtab \<Rightarrow> pipeline \<Rightarrow> pipeline option" where
  "child_writes cap out child s = (case fd_at child 1 of
     Some (PipeWrite k) \<Rightarrow>
       if length (held s k @ out) \<le> cap then Some (s\<lparr>held := (held s)(k := held s k @ out)\<rparr>) else None
   | Some (Inherited n) \<Rightarrow> Some (s\<lparr>shown := shown s @ out\<rparr>)
   | _ \<Rightarrow> Some s)"

definition child_runs :: "nat \<Rightarrow> (cmd \<Rightarrow> string \<Rightarrow> string) \<Rightarrow> string \<Rightarrow> cmd \<Rightarrow> fdtab \<Rightarrow> fdtab \<Rightarrow> pipeline \<Rightarrow> pipeline option" where
  "child_runs cap run inp c parent child s =
     Option.bind (child_reads inp parent child (s\<lparr>started := started s @ [(c, child)]\<rparr>)) (\<lambda>(x, s).
       child_writes cap (run c x) child s)"

text \<open>
  \<open>exec_pipeline (fd, i, commands)\<close>, where \<open>ok i\<close> says whether \<open>pipe\<close>, \<open>fork\<close> and \<open>setpgid\<close> succeed for the
  \<open>i\<close>-th command. The array of commands ends with its first null, and the local array \<open>fds\<close>
  begins as \<open>{-1, 0}\<close>. Until \<open>waitpid\<close> returns the parent only closes its copies.
\<close>

fun exec_pipeline :: "(nat \<Rightarrow> bool \<times> bool \<times> bool) \<Rightarrow> nat \<Rightarrow> (cmd \<Rightarrow> string \<Rightarrow> string) \<Rightarrow> string \<Rightarrow> int \<Rightarrow> nat \<Rightarrow>
    cmd option list \<Rightarrow> pipeline \<Rightarrow> pipeline option" where
  "exec_pipeline ok cap run inp fd i (Some c # rest) s =
     (let (pipe_ok, fork_ok, setpgid_ok) = ok i;
          nxt = (rest \<noteq> [] \<and> hd rest \<noteq> None);
          (fds, s) = (if nxt \<and> pipe_ok then sys_pipe s
                      else if nxt then ((-1, 0), s\<lparr>ptab := pipeline_error (-1, 0) fd (ptab s)\<rparr>)
                      else ((-1, 0), s));
          forked = ptab s;
          s = (if fork_ok then s else s\<lparr>ptab := pipeline_error fds fd (ptab s)\<rparr>);
          s = (if i \<noteq> 0 then s\<lparr>ptab := sys_close fd (ptab s)\<rparr> else s);
          s = (if nxt then s\<lparr>ptab := sys_close (snd fds) (ptab s)\<rparr> else s)
      in Option.bind
           (if \<not> fork_ok then Some s
            else case child_side setpgid_ok fd i nxt fds forked of
              None \<Rightarrow> Some s
            | Some child \<Rightarrow> child_runs cap run inp c (ptab s) child s)
           (\<lambda>s. exec_pipeline ok cap run inp (fst fds) (i + 1) rest s))"
| "exec_pipeline ok cap run inp fd i (None # rest) s = Some s"
| "exec_pipeline ok cap run inp fd i [] s = Some s"

subsection \<open>Descriptors by number\<close>

lemma fd_at_put [simp]: "fd_at (put_fd n d tab) = (fd_at tab)(n := Some d)"
  by (auto simp: fd_at_def put_fd_def fun_eq_iff nth_append nth_list_update)

lemma fd_at_close: "fd_at (sys_close fd tab) = (if 0 \<le> fd then (fd_at tab)(nat fd := None) else fd_at tab)"
  by (auto simp: fd_at_def sys_close_def fun_eq_iff nth_list_update)

lemma fd_at_set: "Some d \<in> set tab \<longleftrightarrow> (\<exists>n. fd_at tab n = Some d)"
  by (auto simp: fd_at_def in_set_conv_nth split: if_splits)

lemma lowest_free_at: "fd_at tab (lowest_free tab) = None"
  using lowest_free_None [of tab] by (simp add: fd_at_def)

lemma dup2_at: "fd_at tab (nat fd) = Some d \<Longrightarrow> 0 \<le> fd \<Longrightarrow> dup2 fd new tab = Some (put_fd new d tab)"
  by (auto simp: dup2_def fd_at_def split: if_splits)

text \<open>A table with just the descriptors of a shell, and possibly one more.\<close>

definition std_tab :: "nat \<Rightarrow> desc option" where
  "std_tab n = (if n < 3 then Some (Inherited n) else None)"

lemma pipe_numbers:
  assumes "fd_at (ptab s) = std_tab(a := x)" "3 \<le> a"
  shows "\<exists>r w s'. sys_pipe s = ((int r, int w), s') \<and> 3 \<le> r \<and> 3 \<le> w \<and> r \<noteq> w \<and> (x \<noteq> None \<longrightarrow> r \<noteq> a \<and> w \<noteq> a)
    \<and> fd_at (ptab s') = std_tab(a := x, r \<mapsto> PipeRead (made s), w \<mapsto> PipeWrite (made s))
    \<and> s' = s\<lparr>ptab := ptab s', held := (held s)(made s := []), made := made s + 1\<rparr>"
proof -
  let ?r = "lowest_free (ptab s)"
  let ?t = "put_fd ?r (PipeRead (made s)) (ptab s)"
  let ?w = "lowest_free ?t"
  have low: "3 \<le> n" if "fd_at t n = None" "\<forall>j < 3. fd_at t j \<noteq> None" for t n using that by (meson not_le)
  have r: "fd_at (ptab s) ?r = None" "fd_at ?t ?w = None" by (rule lowest_free_at)+
  have "3 \<le> ?r" by (rule low [OF r(1)]) (use assms in \<open>auto simp: std_tab_def\<close>)
  moreover have "3 \<le> ?w" by (rule low [OF r(2)]) (use assms in \<open>auto simp: std_tab_def\<close>)
  moreover have "?r \<noteq> ?w" using r(2) by auto
  moreover have "x \<noteq> None \<longrightarrow> ?r \<noteq> a \<and> ?w \<noteq> a" using r assms by (auto split: if_splits)
  ultimately show ?thesis
    using assms(1)
    by (intro exI [of _ ?r] exI [of _ ?w] exI [of _ "s\<lparr>ptab := put_fd ?w (PipeWrite (made s)) ?t, held := (held s)(made s := []), made := made s + 1\<rparr>"])
      (simp add: sys_pipe_def Let_def)
qed

text \<open>What the command before the \<open>i\<close>-th writes.\<close>

definition stage :: "(cmd \<Rightarrow> string \<Rightarrow> string) \<Rightarrow> cmd list \<Rightarrow> string \<Rightarrow> nat \<Rightarrow> string" where
  "stage run cs inp i = fold run (take i cs) inp"

text \<open>The descriptors of the \<open>j\<close>-th of the last \<open>n\<close> programs, when the next pipe has the number \<open>k\<close>.\<close>

definition program_fds :: "bool \<Rightarrow> nat \<Rightarrow> nat \<Rightarrow> nat \<Rightarrow> nat \<Rightarrow> desc option" where
  "program_fds first k n j = std_tab(0 := Some (if first \<and> j = 0 then Inherited 0 else PipeRead (k + j - 1)),
     1 := Some (if Suc j = n then Inherited 1 else PipeWrite (k + j)))"

text \<open>The process before the \<open>i\<close>-th command, which will read \<open>y\<close>.\<close>

definition at_stage :: "nat \<Rightarrow> int \<Rightarrow> string \<Rightarrow> string \<Rightarrow> pipeline \<Rightarrow> bool" where
  "at_stage i fd inp y s \<longleftrightarrow>
     (if i = 0 then fd < 0 \<and> fd_at (ptab s) = std_tab \<and> y = inp
      else \<exists>a \<ge> 3. fd = int a \<and> 0 < made s \<and> fd_at (ptab s) = std_tab(a \<mapsto> PipeRead (made s - 1)) \<and> y = held s (made s - 1))"

abbreviation all_ok :: "nat \<Rightarrow> bool \<times> bool \<times> bool" where
  "all_ok \<equiv> \<lambda>_. (True, True, True)"

lemma std_tab_fds: "std_tab 0 = Some (Inherited 0)" "std_tab 1 = Some (Inherited 1)" "std_tab (Suc 0) = Some (Inherited 1)"
  "std_tab n \<noteq> Some (PipeWrite k)" "std_tab n \<noteq> Some (PipeRead k)" "3 \<le> n \<Longrightarrow> std_tab n = None"
  by (simp_all add: std_tab_def)

lemma std_tab_upd: "3 \<le> n \<Longrightarrow> std_tab(n := None) = std_tab"
  by (auto simp: std_tab_def fun_eq_iff)

lemma last_stage:
  assumes "at_stage i fd inp y s"
  shows "\<exists>s' child. exec_pipeline all_ok cap run inp fd i [Some c] s = Some s' \<and> shown s' = shown s @ run c y
    \<and> fd_at (ptab s') = std_tab \<and> started s' = started s @ [(c, child)] \<and> fd_at child = program_fds (i = 0) (made s) 1 0"
proof (cases "i = 0")
  case True
  then show ?thesis
    using assms
    by (simp add: at_stage_def child_side_def child_runs_def child_reads_def child_writes_def std_tab_fds program_fds_def fun_eq_iff)
next
  case False
  with assms obtain a where a: "3 \<le> a" "fd = int a" "0 < made s" "fd_at (ptab s) = std_tab(a \<mapsto> PipeRead (made s - 1))"
      "y = held s (made s - 1)" by (auto simp: at_stage_def)
  define child where "child = sys_close fd (put_fd 0 (PipeRead (made s - 1)) (ptab s))"
  define parent where "parent = sys_close fd (ptab s)"
  have d: "dup2 fd 0 (ptab s) = Some (put_fd 0 (PipeRead (made s - 1)) (ptab s))" by (rule dup2_at) (simp_all add: a)
  have par: "fd_at parent = std_tab" using std_tab_upd [OF a(1)] by (simp add: fd_at_close a parent_def)
  have ch: "fd_at child = std_tab(0 \<mapsto> PipeRead (made s - 1))"
    using a(1) by (auto simp: child_def fd_at_close a(2,4) fun_eq_iff std_tab_def)
  have side: "child_side True fd i False (-1, 0) (ptab s) = Some child" using False d by (simp add: child_side_def child_def)
  have run: "exec_pipeline all_ok cap run inp fd i [Some c] s = child_runs cap run inp c parent child (s\<lparr>ptab := parent\<rparr>)"
  proof -
    have "exec_pipeline all_ok cap run inp (-1) (Suc i) [] = Some" by (rule ext) simp
    then show ?thesis using False by (simp add: side parent_def bind_runit cong: option.case_cong)
  qed
  have "Some (PipeWrite (made s - 1)) \<notin> set parent \<union> set child"
    by (auto simp: fd_at_set par ch std_tab_fds split: if_splits)
  then have "child_runs cap run inp c parent child (s\<lparr>ptab := parent\<rparr>) =
      Some (s\<lparr>ptab := parent, started := started s @ [(c, child)], held := (held s)(made s - 1 := []), shown := shown s @ run c y\<rparr>)"
    by (simp add: child_runs_def child_reads_def child_writes_def ch std_tab_fds a(5))
  moreover have "fd_at child = program_fds (i = 0) (made s) 1 0"
    using False by (auto simp: ch program_fds_def fun_eq_iff std_tab_fds)
  ultimately show ?thesis using run par by simp
qed

lemma next_stage:
  assumes "at_stage i fd inp y s"
  shows "if length (run c y) \<le> cap
    then \<exists>s' child r. exec_pipeline all_ok cap run inp fd i (Some c # Some d # rest) s
          = exec_pipeline all_ok cap run inp r (i + 1) (Some d # rest) s' \<and> at_stage (i + 1) r inp (run c y) s'
        \<and> shown s' = shown s \<and> made s' = made s + 1 \<and> started s' = started s @ [(c, child)]
        \<and> fd_at child = program_fds (i = 0) (made s) (n + 2) 0
    else exec_pipeline all_ok cap run inp fd i (Some c # Some d # rest) s = None"
proof -
  obtain a x where a: "3 \<le> a" "fd_at (ptab s) = std_tab(a := x)" and i0: "i = 0 \<Longrightarrow> fd < 0 \<and> x = None \<and> y = inp"
    and i1: "i \<noteq> 0 \<Longrightarrow> fd = int a \<and> 0 < made s \<and> x = Some (PipeRead (made s - 1)) \<and> y = held s (made s - 1)"
  proof (cases "i = 0")
    case True
    then show ?thesis using assms that [of 3 None] by (simp add: at_stage_def std_tab_upd)
  next
    case False
    then show ?thesis using assms that by (auto simp: at_stage_def)
  qed
  obtain r w s1 where p: "sys_pipe s = ((int r, int w), s1)" "3 \<le> r" "3 \<le> w" "r \<noteq> w" "x \<noteq> None \<longrightarrow> r \<noteq> a \<and> w \<noteq> a"
      "fd_at (ptab s1) = std_tab(a := x, r \<mapsto> PipeRead (made s), w \<mapsto> PipeWrite (made s))"
      "s1 = s\<lparr>ptab := ptab s1, held := (held s)(made s := []), made := made s + 1\<rparr>"
    using pipe_numbers [OF a(2,1)] by blast
  have s1: "held s1 = (held s)(made s := [])" "made s1 = made s + 1" "shown s1 = shown s" "started s1 = started s"
    by (subst p(7), simp)+
  define tab2 where "tab2 = (if i \<noteq> 0 then sys_close fd (ptab s1) else ptab s1)"
  define parent where "parent = sys_close (int w) tab2"
  define t0 where "t0 = (if i \<noteq> 0 then sys_close fd (put_fd 0 (PipeRead (made s - 1)) (ptab s1)) else ptab s1)"
  define child where "child = sys_close (int r) (sys_close (int w) (put_fd 1 (PipeWrite (made s)) t0))"
  have par: "fd_at parent = std_tab(r \<mapsto> PipeRead (made s))"
    using p(2-6) a(1) i0 i1 by (auto simp: parent_def tab2_def fd_at_close fun_eq_iff std_tab_def)
  have t0: "fd_at t0 w = Some (PipeWrite (made s))"
    using p(3-6) a(1) i0 i1 by (auto simp: t0_def fd_at_close)
  have ch: "fd_at child = program_fds (i = 0) (made s) (n + 2) 0"
    using p(2-6) a(1) i0 i1 by (auto simp: child_def t0_def fd_at_close program_fds_def fun_eq_iff std_tab_def)
  have side: "child_side True fd i True (int r, int w) (ptab s1) = Some child"
  proof -
    have "i \<noteq> 0 \<Longrightarrow> dup2 fd 0 (ptab s1) = Some (put_fd 0 (PipeRead (made s - 1)) (ptab s1))"
      using i1 p(5,6) by (intro dup2_at) auto
    moreover have "dup2 (int w) 1 t0 = Some (put_fd 1 (PipeWrite (made s)) t0)" by (rule dup2_at) (simp_all add: t0)
    ultimately show ?thesis by (cases "i = 0") (simp_all add: child_side_def t0_def child_def)
  qed
  have run: "exec_pipeline all_ok cap run inp fd i (Some c # Some d # rest) s =
      Option.bind (child_runs cap run inp c parent child (s1\<lparr>ptab := parent\<rparr>))
        (exec_pipeline all_ok cap run inp (int r) (i + 1) (Some d # rest))"
    by (simp add: p(1) side parent_def tab2_def cong: option.case_cong)
  let ?s2 = "s1\<lparr>ptab := parent, started := started s @ [(c, child)]\<rparr>"
  let ?s3 = "if i = 0 then ?s2 else ?s2\<lparr>held := (held s1)(made s - 1 := [])\<rparr>"
  have rd: "child_reads inp parent child ?s2 = Some (y, ?s3)"
  proof (cases "i = 0")
    case True
    then show ?thesis using i0 by (simp add: child_reads_def ch program_fds_def)
  next
    case False
    have "Some (PipeWrite (made s - 1)) \<notin> set parent \<union> set child"
      using i1 [OF False] by (auto simp: fd_at_set par ch program_fds_def std_tab_fds split: if_splits)
    then show ?thesis using i1 [OF False] False s1(1) by (auto simp: child_reads_def ch program_fds_def)
  qed
  have h: "held ?s3 (made s) = []" using s1(1) i1 by auto
  have wr: "child_writes cap out child ?s3 = (if length out \<le> cap then Some (?s3\<lparr>held := (held ?s3)(made s := out)\<rparr>) else None)" for out
    using h by (simp add: child_writes_def ch program_fds_def)
  let ?s4 = "?s3\<lparr>held := (held ?s3)(made s := run c y)\<rparr>"
  have res: "child_runs cap run inp c parent child (s1\<lparr>ptab := parent\<rparr>) = (if length (run c y) \<le> cap then Some ?s4 else None)"
    using rd wr by (simp add: child_runs_def s1)
  show ?thesis
  proof (cases "length (run c y) \<le> cap")
    case True
    have "at_stage (i + 1) (int r) inp (run c y) ?s4"
      using p(2) s1 par by (auto simp: at_stage_def)
    moreover have "exec_pipeline all_ok cap run inp fd i (Some c # Some d # rest) s
        = exec_pipeline all_ok cap run inp (int r) (i + 1) (Some d # rest) ?s4"
      unfolding run res if_P [OF True] by (rule Option.bind.bind_lunit)
    moreover have "shown ?s4 = shown s" "made ?s4 = made s + 1" "started ?s4 = started s @ [(c, child)]" by (simp_all add: s1)
    ultimately show ?thesis unfolding if_P [OF True] using ch by blast
  next
    case False
    then show ?thesis unfolding run res by (simp only: if_False Option.bind.bind_lzero)
  qed
qed

declare exec_pipeline.simps [simp del]

text \<open>The programs that have been started, each with its descriptors.\<close>

definition started_with :: "bool \<Rightarrow> nat \<Rightarrow> cmd list \<Rightarrow> (cmd \<times> fdtab) list \<Rightarrow> bool" where
  "started_with first k cs ps \<longleftrightarrow> map fst ps = cs \<and> (\<forall>j < length cs. fd_at (snd (ps ! j)) = program_fds first k (length cs) j)"

lemma started_with_Cons:
  "fd_at child = program_fds first k (length cs + 1) 0 \<Longrightarrow> started_with False (k + 1) cs ps \<Longrightarrow> started_with first k (c # cs) ((c, child) # ps)"
proof -
  assume a: "fd_at child = program_fds first k (length cs + 1) 0" "started_with False (k + 1) cs ps"
  have "program_fds False (k + 1) (length cs) j = program_fds first k (length cs + 1) (Suc j)" for j
    by (simp add: program_fds_def)
  with a show ?thesis by (auto simp: started_with_def nth_Cons split: nat.splits)
qed


lemma pipeline_from:
  assumes "cs \<noteq> []" "at_stage i fd inp y s"
  shows "if \<forall>j < length cs - 1. length (stage run cs y (j + 1)) \<le> cap
    then \<exists>s' ps. exec_pipeline all_ok cap run inp fd i (map Some cs) s = Some s' \<and> shown s' = shown s @ fold run cs y
      \<and> fd_at (ptab s') = std_tab \<and> started s' = started s @ ps \<and> started_with (i = 0) (made s) cs ps
    else exec_pipeline all_ok cap run inp fd i (map Some cs) s = None"
  using assms
proof (induction cs arbitrary: i fd y s)
  case (Cons c cs)
  show ?case
  proof (cases cs)
    case Nil
    from last_stage [OF Cons.prems(2), of cap run c] obtain s' child where
      L: "exec_pipeline all_ok cap run inp fd i [Some c] s = Some s'" "shown s' = shown s @ run c y"
        "fd_at (ptab s') = std_tab" "started s' = started s @ [(c, child)]" "fd_at child = program_fds (i = 0) (made s) 1 0" by blast
    then have "started_with (i = 0) (made s) [c] [(c, child)]" by (simp add: started_with_def)
    with L Nil show ?thesis by auto
  next
    case (Cons d ds)
    have st: "stage run (c # d # ds) y (Suc j) = stage run (d # ds) (run c y) j" for j by (simp add: stage_def)
    have all: "(\<forall>j < Suc n. P j) \<longleftrightarrow> P 0 \<and> (\<forall>j < n. P (Suc j))" for n and P :: "nat \<Rightarrow> bool"
      by (auto simp: less_Suc_eq_0_disj)
    have fits: "(\<forall>j < length (c # d # ds) - 1. length (stage run (c # d # ds) y (j + 1)) \<le> cap)
        \<longleftrightarrow> length (run c y) \<le> cap \<and> (\<forall>j < length (d # ds) - 1. length (stage run (d # ds) (run c y) (j + 1)) \<le> cap)"
      by (simp add: st all) (simp add: stage_def)
    note N = next_stage [OF Cons.prems(2), of run c cap d "map Some ds" "length ds"]
    show ?thesis
    proof (cases "length (run c y) \<le> cap")
      case False
      then show ?thesis using N unfolding Cons fits by simp
    next
      case True
      with N obtain s1 child r where
        S: "exec_pipeline all_ok cap run inp fd i (map Some (c # d # ds)) s = exec_pipeline all_ok cap run inp r (i + 1) (map Some (d # ds)) s1"
          "at_stage (i + 1) r inp (run c y) s1" "shown s1 = shown s" "made s1 = made s + 1" "started s1 = started s @ [(c, child)]"
          "fd_at child = program_fds (i = 0) (made s) (length ds + 2) 0" by auto
      note IH = Cons.IH [unfolded Cons, OF list.distinct(2) S(2)]
      show ?thesis
      proof (cases "\<forall>j < length (d # ds) - 1. length (stage run (d # ds) (run c y) (j + 1)) \<le> cap")
        case False
        then have "\<not> (length (run c y) \<le> cap \<and> (\<forall>j < length (d # ds) - 1. length (stage run (d # ds) (run c y) (j + 1)) \<le> cap))"
          by blast
        then show ?thesis using IH False S(1) unfolding Cons fits by (simp only: if_False if_not_P)
      next
        case all: True
        with IH obtain s' ps where E: "exec_pipeline all_ok cap run inp r (i + 1) (map Some (d # ds)) s1 = Some s'"
            "shown s' = shown s1 @ fold run (d # ds) (run c y)" "fd_at (ptab s') = std_tab" "started s' = started s1 @ ps"
            "started_with (i + 1 = 0) (made s1) (d # ds) ps" by auto
        have "started_with (i = 0) (made s) (c # d # ds) ((c, child) # ps)"
          by (rule started_with_Cons) (use E(5) S(4,6) in simp_all)
        with E S True all show ?thesis unfolding Cons fits by auto
      qed
    qed
  qed
qed simp

definition shell_process :: "pipeline \<Rightarrow> bool" where
  "shell_process s \<longleftrightarrow> fd_at (ptab s) = std_tab \<and> started s = []"


definition fresh_shell :: pipeline where
  "fresh_shell = \<lparr>ptab = [Some (Inherited 0), Some (Inherited 1), Some (Inherited 2)], held = (\<lambda>_. []), made = 0, shown = [], started = []\<rparr>"


section \<open>Exit statuses\<close>

text \<open>The macros of \<open>sys/wait.h\<close> on a status of 16 bits.\<close>

definition WTERMSIG :: "int \<Rightarrow> int" where "WTERMSIG s = s mod 128"
definition WIFEXITED :: "int \<Rightarrow> bool" where "WIFEXITED s \<longleftrightarrow> WTERMSIG s = 0"
definition WEXITSTATUS :: "int \<Rightarrow> int" where "WEXITSTATUS s = s div 256 mod 256"
definition WIFSIGNALED :: "int \<Rightarrow> bool" where "WIFSIGNALED s \<longleftrightarrow> WTERMSIG s \<noteq> 0 \<and> WTERMSIG s \<noteq> 127"

datatype report = Reports_exited string int | Reports_killed string int | Reports_stopped string int
  | Reports_background int | Output string | Complaint

text \<open>\<open>print_status_info\<close>: what is printed and the new value of \<open>status\<close>.\<close>

fun is_pipe :: "cmd \<Rightarrow> bool" where
  "is_pipe (Pipe cs) = True"
| "is_pipe (Exec e) = False"
| "is_pipe (Back s c) = False"

fun is_back :: "cmd \<Rightarrow> bool" where
  "is_back (Back s c) = True"
| "is_back (Exec e) = False"
| "is_back (Pipe cs) = False"

definition print_status_info :: "cmd \<Rightarrow> int \<Rightarrow> report list \<times> int" where
  "print_status_info c status =
     (if cmd_scmd c = [] \<or> is_pipe c then ([], status)
      else if WIFEXITED status then ([Reports_exited (cmd_scmd c) (WEXITSTATUS status)], WEXITSTATUS status)
      else if WIFSIGNALED status then ([Reports_killed (cmd_scmd c) (- WTERMSIG status)], - WTERMSIG status)
      else if WTERMSIG status \<noteq> 0 then ([Reports_stopped (cmd_scmd c) (- WEXITSTATUS status)], - WEXITSTATUS status)
      else ([], status))"

section \<open>The shell\<close>

text \<open>
  The shell's own state. \<open>chdir\<close> gives the directory a change leads to, if it succeeds; the
  path of the current directory fits its buffers.
\<close>

record shell =
  status :: int
  promt :: string
  cwd :: string

definition modify_prompt :: "string \<Rightarrow> string \<Rightarrow> string" where
  "modify_prompt p dir = (if p = [] then '')'' else hd p # dir @ '')'')"

definition exit_shell :: "string \<Rightarrow> bool" where
  "exit_shell cmd \<longleftrightarrow> cmd = ''exit''"

text \<open>\<open>cd\<close>: \<open>None\<close> when the command is another one.\<close>

definition cd :: "(string \<Rightarrow> string \<Rightarrow> string option) \<Rightarrow> string \<Rightarrow> shell \<Rightarrow> (shell \<times> report list) option" where
  "cd chdir cmd sh =
     (case split_line (buffer_of cmd) SPACE of
        None \<Rightarrow> None
      | Some (left, right) \<Rightarrow>
          if cstring left \<noteq> ''cd'' then None
          else
            let dir = (if cstring right = [] then ''/home'' else cstring right)
            in case chdir (cwd sh) dir of
                 None \<Rightarrow> Some (sh\<lparr>status := -1\<rparr>, [Complaint])
               | Some d \<Rightarrow> Some (sh\<lparr>cwd := d, promt := modify_prompt (promt sh) d, status := 0\<rparr>, []))"

definition pwd :: "string \<Rightarrow> shell \<Rightarrow> (shell \<times> report list) option" where
  "pwd cmd sh = (if cmd \<noteq> ''pwd'' then None else Some (sh\<lparr>status := 0\<rparr>, [Output (cwd sh)]))"

text \<open>
  \<open>run_cmd\<close> on a line. \<open>wait_status\<close> is what \<open>waitpid\<close> reports of the process that executes a command
  and \<open>pid\<close> its number. A line that parses to no command is dereferenced; a line that overruns
  an array of the parser is \<open>Undefined\<close>.
\<close>

datatype run_result = Continues shell "report list" | ExitShell | NullDereference | Undefined

definition run_cmd ::
  "(string \<Rightarrow> string \<Rightarrow> string option) \<Rightarrow> (string \<Rightarrow> string option) \<Rightarrow> (cmd \<Rightarrow> int) \<Rightarrow> int \<Rightarrow> string \<Rightarrow> shell \<Rightarrow> run_result" where
  "run_cmd chdir getenv wait_status pid cmd sh =
     (if cmd = [] then Continues sh []
      else if split_line (buffer_of cmd) SPACE = None then Undefined
      else case cd chdir cmd sh of
        Some (sh', out) \<Rightarrow> Continues sh' out
      | None \<Rightarrow>
        if exit_shell cmd then ExitShell
        else case pwd cmd sh of
          Some (sh', out) \<Rightarrow> Continues sh' out
        | None \<Rightarrow>
          (case parse_line getenv (status sh) (buffer_of cmd) of
             None \<Rightarrow> Undefined
           | Some None \<Rightarrow> NullDereference
           | Some (Some parsed) \<Rightarrow>
               let st = (if is_back parsed then status sh else wait_status parsed);
                   back = (if is_back parsed then [Reports_background pid] else []);
                   (out, st') = print_status_info parsed st
               in Continues (sh\<lparr>status := st'\<rparr>) (back @ out)))"

section \<open>Reading lines\<close>

text \<open>\<open>read_line\<close>: the buffer has \<open>BUFLEN\<close> bytes and no test; a line without its newline is dropped.\<close>

datatype line = Line string string | Eof | Overrun

definition read_line :: "string \<Rightarrow> line" where
  "read_line inp =
     (let l = takeWhile (\<lambda>c. c \<noteq> CHR 0x0A) inp; r = dropWhile (\<lambda>c. c \<noteq> CHR 0x0A) inp
      in if r = [] then (if length l > BUFLEN then Overrun else Eof)
         else if length l \<ge> BUFLEN then Overrun else Line (cstring l) (tl r))"

lemma read_line_shorter: "read_line inp = Line l rest \<Longrightarrow> length rest < length inp"
proof -
  assume r: "read_line inp = Line l rest"
  let ?r = "dropWhile (\<lambda>c. c \<noteq> CHR 0x0A) inp"
  from r have "?r \<noteq> []" "rest = tl ?r" by (auto simp: read_line_def Let_def split: if_splits)
  then show ?thesis using length_dropWhile_le [of "\<lambda>c. c \<noteq> CHR 0x0A" inp] by (cases ?r) auto
qed

datatype ending = At_eof | At_exit | Crashed | Overran

function run_shell ::
  "(string \<Rightarrow> string \<Rightarrow> string option) \<Rightarrow> (string \<Rightarrow> string option) \<Rightarrow> (cmd \<Rightarrow> int) \<Rightarrow> int \<Rightarrow> string \<Rightarrow> shell \<Rightarrow>
     report list \<times> shell \<times> ending" where
  "run_shell chdir getenv wait_status pid inp sh =
     (case read_line inp of
        Eof \<Rightarrow> ([], sh, At_eof)
      | Overrun \<Rightarrow> ([], sh, Overran)
      | Line l rest \<Rightarrow>
          (case run_cmd chdir getenv wait_status pid l sh of
             ExitShell \<Rightarrow> ([], sh, At_exit)
           | NullDereference \<Rightarrow> ([], sh, Crashed)
           | Undefined \<Rightarrow> ([], sh, Overran)
           | Continues sh' out \<Rightarrow>
               let (out', sh'', e) = run_shell chdir getenv wait_status pid rest sh' in (out @ out', sh'', e)))"
  by pat_completeness auto
termination
  using read_line_shorter by (relation "measure (\<lambda>(c, g, w, p, inp, sh). length inp)") auto

declare run_shell.simps [simp del]

definition init_shell :: "(string \<Rightarrow> string \<Rightarrow> string option) \<Rightarrow> string \<Rightarrow> string \<Rightarrow> shell" where
  "init_shell chdir home dir =
     (case chdir dir home of
        None \<Rightarrow> \<lparr>status = 0, promt = [], cwd = dir\<rparr>
      | Some d \<Rightarrow> \<lparr>status = 0, promt = ''('' @ home @ '')'', cwd = d\<rparr>)"

section \<open>The number of a finished process\<close>

definition PIDMAXLEN :: nat where "PIDMAXLEN = 10"

fun num_digits :: "nat \<Rightarrow> nat" where
  "num_digits n = (if n = 0 then 0 else Suc (num_digits (n div 10)))"

declare num_digits.simps [simp del]

function put_digits :: "nat \<Rightarrow> nat \<Rightarrow> string \<Rightarrow> string option" where
  "put_digits pid sz num =
     (if pid = 0 then Some num
      else if sz = 0 \<or> sz - 1 \<ge> length num then None
      else put_digits (pid div 10) (sz - 1) (num[sz - 1 := char_of (48 + pid mod 10)]))"
  by pat_completeness auto
termination by (relation "measure fst") auto

declare put_digits.simps [simp del]

definition pid_to_str :: "nat \<Rightarrow> string \<Rightarrow> string option" where
  "pid_to_str pid num =
     (if num_digits pid \<ge> length num then None
      else put_digits pid (num_digits pid) (num[num_digits pid := CHR 0x0A]))"

definition number_of :: "string \<Rightarrow> nat" where
  "number_of ds = foldl (\<lambda>n c. 10 * n + (of_char c - 48)) 0 ds"

fun decimal_digits :: "nat \<Rightarrow> string" where
  "decimal_digits n = (if n = 0 then [] else decimal_digits (n div 10) @ [char_of (48 + n mod 10)])"

declare decimal_digits.simps [simp del]

lemma decimal_digits_props:
  "length (decimal_digits n) = num_digits n" "number_of (decimal_digits n) = n"
  "c \<in> set (decimal_digits n) \<Longrightarrow> of_char c \<in> {48..57 :: nat}"
proof -
  show "length (decimal_digits n) = num_digits n"
    by (induction n rule: decimal_digits.induct)
      (subst decimal_digits.simps, subst num_digits.simps, simp)
  show "number_of (decimal_digits n) = n"
  proof (induction n rule: decimal_digits.induct)
    case (1 n)
    have "of_char (char_of (48 + n mod 10) :: char) = 48 + n mod 10"
      by (simp add: of_char_of)
    with 1 show ?case by (subst decimal_digits.simps) (simp add: number_of_def)
  qed
  show "c \<in> set (decimal_digits n) \<Longrightarrow> of_char c \<in> {48..57 :: nat}"
  proof (induction n rule: decimal_digits.induct)
    case (1 n)
    have "of_char (char_of (48 + n mod 10) :: char) = 48 + n mod 10" by (simp add: of_char_of)
    with 1 show ?case by (subst (asm) (2) decimal_digits.simps) (auto split: if_splits)
  qed
qed

lemma put_digits_writes:
  "num_digits pid \<le> length num \<Longrightarrow>
     put_digits pid (num_digits pid) num = Some (decimal_digits pid @ drop (num_digits pid) num)"
proof (induction pid arbitrary: num rule: decimal_digits.induct)
  case (1 n)
  show ?case
  proof (cases "n = 0")
    case True
    then show ?thesis by (simp add: put_digits.simps num_digits.simps decimal_digits.simps)
  next
    case False
    let ?m = "num_digits (n div 10)"
    have m: "num_digits n = Suc ?m" using False by (subst num_digits.simps) simp
    then have l: "?m < length num" using 1(2) by simp
    let ?num = "num[?m := char_of (48 + n mod 10)]"
    have "put_digits n (num_digits n) num = put_digits (n div 10) ?m ?num"
      using False l by (subst put_digits.simps) (simp add: m)
    also have "\<dots> = Some (decimal_digits (n div 10) @ drop ?m ?num)"
      using 1(1) [OF False, of ?num] l by simp
    also have "drop ?m ?num = char_of (48 + n mod 10) # drop (Suc ?m) num"
      using l by (simp add: drop_update_swap Cons_nth_drop_Suc [symmetric])
    also have "decimal_digits (n div 10) @ char_of (48 + n mod 10) # drop (Suc ?m) num
        = decimal_digits n @ drop (num_digits n) num"
      using False by (subst (2) decimal_digits.simps) (simp add: m)
    finally show ?thesis .
  qed
qed

lemma num_digits_bound: "n < 10 ^ k \<Longrightarrow> num_digits n \<le> k"
proof (induction k arbitrary: n)
  case (Suc k)
  then have "n div 10 < 10 ^ k" by (simp add: less_mult_imp_div_less)
  with Suc show ?case by (subst num_digits.simps) simp
qed (simp add: num_digits.simps)

text \<open>
  The hand-made \<open>pid_to_str\<close> of the signal handler writes the decimal digits of the
  number and a newline, and nothing else, for every number of at most nine digits.
\<close>

theorem pid_to_str_decimal:
  assumes "pid < 10 ^ 9"
  shows "\<exists>ds. pid_to_str pid (replicate PIDMAXLEN END_STRING)
      = Some (ds @ CHR 0x0A # replicate (9 - length ds) END_STRING)
    \<and> number_of ds = pid \<and> (\<forall>c \<in> set ds. of_char c \<in> {48..57 :: nat})"
proof -
  let ?k = "num_digits pid"
  have k: "?k \<le> 9" using assms by (rule num_digits_bound)
  let ?num = "(replicate 10 END_STRING)[?k := CHR 0x0A]"
  have "pid_to_str pid (replicate PIDMAXLEN END_STRING) = put_digits pid ?k ?num"
    using k by (simp add: pid_to_str_def PIDMAXLEN_def)
  also have "\<dots> = Some (decimal_digits pid @ drop ?k ?num)"
    using k by (intro put_digits_writes) simp
  also have "drop ?k ?num = CHR 0x0A # replicate (9 - ?k) END_STRING"
    using k by (simp add: drop_update_swap Cons_nth_drop_Suc [symmetric] Suc_diff_le)
  finally show ?thesis using decimal_digits_props by (intro exI [of _ "decimal_digits pid"]) auto
qed

theorem pid_to_str_decimal_witness:
  "\<exists>ds. pid_to_str 4071 (replicate PIDMAXLEN END_STRING) = Some (ds @ CHR 0x0A # replicate (9 - length ds) END_STRING)
    \<and> number_of ds = 4071"
  using pid_to_str_decimal [of 4071] by auto

section \<open>Running a line\<close>

lemma split_first_word:
  assumes "printable c" "length (show_exec c) + 2 \<le> BUFLEN"
  shows "\<exists>left right. split_line (buffer_of (show_exec c)) SPACE = Some (left, right) \<and> cstring left = hd (words_of c)"
proof -
  obtain w ws where ws: "words_of c = w # ws" using words_of_nonempty [OF assms(1)] by (cases "words_of c") auto
  have w: "word w" using words_of_ok(1) [OF assms(1), of w] ws by simp
  then have nw: "\<forall>c \<in> set w. c \<noteq> SPACE \<and> c \<noteq> END_STRING" "END_STRING \<notin> set w" by (auto simp: word_def)
  obtain k where k: "BUFLEN - length (show_exec c) = Suc (Suc k)"
    using assms(2) by (metis Nat.le_diff_conv2 add.commute add_2_eq_Suc le_add2 le_trans less_eqE)
  let ?r = "(if ws = [] then [END_STRING] else SPACE # unwords ws @ [END_STRING])"
  have b: "buffer_of (show_exec c) = w @ ?r @ END_STRING # replicate k END_STRING"
    using k ws by (simp add: buffer_of_def show_exec_def unwords_Cons)
  have left: "takeWhile (\<lambda>c. c \<noteq> SPACE \<and> c \<noteq> END_STRING) (buffer_of (show_exec c)) = w"
    unfolding b using nw by (simp add: takeWhile_append2)
  let ?rest = "drop (Suc (length w)) (buffer_of (show_exec c))"
  have "END_STRING \<in> set ?rest" unfolding b by simp
  then have "dropWhile (\<lambda>c. c = SPACE) ?rest \<noteq> []"
    by (auto simp: dropWhile_eq_Nil_conv SPACE_def END_STRING_def)
  moreover have "cstring (w @ END_STRING # x) = w" for x by (rule no_END(1) [OF nw(2)])
  moreover have "length w < length (buffer_of (show_exec c))" unfolding b by simp
  ultimately show ?thesis unfolding split_line_def left Let_def by (simp add: ws)
qed

text \<open>
  A line with one command that is not built in runs it and reports how it ended:
  a program that exits with \<open>n\<close> leaves \<open>n\<close> as the status, one that a signal kills its negative.
  The shell goes on.
\<close>

theorem run_cmd_foreground:
  assumes "printable c" "length (show_exec c) + 2 \<le> BUFLEN" "hd (words_of c) \<noteq> ''cd''"
    and "show_exec c \<notin> {''exit'', ''pwd''}"
    and "ws (Exec (c\<lparr>scmd := show_exec c\<rparr>)) = st"
    and "st = 256 * n \<and> 0 \<le> n \<and> n < 256 \<or> st = - n \<and> 0 < st \<and> st < 127"
  shows "run_cmd chdir getenv ws pid (show_exec c) sh = Continues (sh\<lparr>status := n\<rparr>)
    [if 0 \<le> n then Reports_exited (show_exec c) n else Reports_killed (show_exec c) n]"
proof -
  obtain left right where s: "split_line (buffer_of (show_exec c)) SPACE = Some (left, right)" "cstring left = hd (words_of c)"
    using split_first_word [OF assms(1,2)] by blast
  have ne: "show_exec c \<noteq> []" using hd_show_exec [OF assms(1)] by simp
  have "parse_line getenv (status sh) (buffer_of (show_exec c)) = Some (Some (Exec (c\<lparr>scmd := show_exec c\<rparr>)))"
    using parse_line_show [of "[c]" getenv "status sh"] assms(1,2) by simp
  moreover have "cd chdir (show_exec c) sh = None" using s assms(3) by (simp add: cd_def)
  moreover have "pwd (show_exec c) sh = None" "\<not> exit_shell (show_exec c)"
    using assms(4) by (simp_all add: pwd_def exit_shell_def)
  moreover have "print_status_info (Exec (c\<lparr>scmd := show_exec c\<rparr>)) st =
      ([if 0 \<le> n then Reports_exited (show_exec c) n else Reports_killed (show_exec c) n], n)"
    using assms(6)
  proof
    assume "st = 256 * n \<and> 0 \<le> n \<and> n < 256"
    then show ?thesis using ne by (simp add: print_status_info_def WIFEXITED_def WTERMSIG_def WEXITSTATUS_def)
  next
    assume "st = - n \<and> 0 < st \<and> st < 127"
    then show ?thesis using ne by (auto simp: print_status_info_def WIFEXITED_def WTERMSIG_def WIFSIGNALED_def)
  qed
  ultimately show ?thesis using s(1) ne assms(5) by (simp add: run_cmd_def)
qed

theorem run_cmd_foreground_witness:
  "run_cmd (\<lambda>_ _. None) (\<lambda>_. None) (\<lambda>_. 512) 77 ''ls -l'' \<lparr>status = 0, promt = [], cwd = []\<rparr> =
    Continues \<lparr>status = 2, promt = [], cwd = []\<rparr> [Reports_exited ''ls -l'' 2]"
proof -
  let ?c = "\<lparr>redir = False, scmd = [], argv = [''ls'', ''-l''], eargv = [], out_file = [], in_file = [], err_file = []\<rparr>"
  have ok: "printable ?c"
    by (simp add: printable_def plain_arg_def quiet_def SPACE_def END_STRING_def MAXARGS_def)
  have t: "show_exec ?c = ''ls -l''" by (simp add: show_exec_def words_of_def SPACE_def)
  show ?thesis
    using run_cmd_foreground [OF ok, of "\<lambda>_. 512" 512 2 "\<lambda>_ _. None" "\<lambda>_. None" 77 "\<lparr>status = 0, promt = [], cwd = []\<rparr>"]
    unfolding t by (simp add: BUFLEN_def words_of_def)
qed

text \<open>
  Lines that end the shell or mislead it: a bar alone parses to no command and is
  dereferenced; and a background command, which nobody waited for, has the status of the
  command before it decoded a second time, so that after an exit with 1 it is reported killed.
\<close>

theorem run_cmd_odd_lines:
  "run_cmd chdir getenv ws pid ''|'' sh = NullDereference
   \<and> run_cmd chdir getenv ws pid ''x&'' (sh\<lparr>status := 1\<rparr>) =
     Continues (sh\<lparr>status := -1\<rparr>) [Reports_background pid, Reports_killed ''x'' (-1)]"
proof
  have bar: "buffer_of ''|'' = CHR ''|'' # END_STRING # END_STRING # replicate 1021 END_STRING"
    and amp: "buffer_of ''x&'' = ''x&'' @ END_STRING # END_STRING # replicate 1020 END_STRING"
    using replicate_Suc [of 1022 END_STRING] replicate_Suc [of 1021 END_STRING] replicate_Suc [of 1020 END_STRING]
    by (simp_all add: buffer_of_def BUFLEN_def)
  note chars = END_STRING_def SPACE_def cstring_def split_line_def Let_def
  have "split_line (buffer_of ''|'') SPACE \<noteq> None" "cd chdir ''|'' sh = None"
    unfolding bar cd_def by (simp_all add: chars)
  then show "run_cmd chdir getenv ws pid ''|'' sh = NullDereference"
    by (simp add: run_cmd_def exit_shell_def pwd_def parse_lone_bar)
  let ?sh = "sh\<lparr>status := 1\<rparr>"
  have c: "split_line (buffer_of ''x&'') SPACE \<noteq> None" "cd chdir ''x&'' ?sh = None"
    unfolding amp cd_def by (simp_all add: chars)
  have e: "parse_exec getenv 1 (''x'' @ [END_STRING]) =
      Some \<lparr>redir = False, scmd = ''x'', argv = [''x''], eargv = [], out_file = [], in_file = [], err_file = []\<rparr>"
    by (simp add: parse_exec_def parse_args.simps get_token_def chars MAXARGS_def exec_cmd_create_def
        parse_redir_flow_def parse_environ_var_def expand_environ_var_def block_contains_def)
  have "\<exists>x. parse_line getenv 1 (buffer_of ''x&'') = Some (Some (Back ''x'' x))"
    using e unfolding amp
    by (simp add: parse_line_def count_c_def parse_cmd_def parse_back_def pipe_cmd_create_def back_cmd_create_def
        block_contains_def chars)
  then show "run_cmd chdir getenv ws pid ''x&'' ?sh =
     Continues (sh\<lparr>status := -1\<rparr>) [Reports_background pid, Reports_killed ''x'' (-1)]"
    using c by (auto simp: run_cmd_def exit_shell_def pwd_def print_status_info_def WIFEXITED_def WTERMSIG_def WIFSIGNALED_def)
qed

end
