(* ===== verification/Fork_Exercises.thy ===== *)
theory Fork_Exercises
  imports Jos_Prelude "HOL-Library.Sublist"
begin

text \<open>
  The programs of \<^verbatim>\<open>fork/\<close>: the sieve of processes connected by pipes (\<^verbatim>\<open>primes.c\<close>), the grouping of
  arguments (\<^verbatim>\<open>xargs.c\<close>) and the search in a tree of directories (\<^verbatim>\<open>find.c\<close>). A pipe with its
  writer is the list of what is written until the end is closed; what a program prints is a
  list of its output in order. System calls succeed, unless a result says otherwise.
\<close>

section \<open>primes: a sieve of processes\<close>

text \<open>
  \<open>filter (fd)\<close>: the list is what can be read from \<open>fd\<close>, the result the numbers announced on the
  output. The process keeps the first number, and its child filters what it passes on: once,
  and then once more on the pipe it has read to the end. A process prints before it forks,
  so the output of the child comes after its own.
\<close>

definition passed_on :: "int \<Rightarrow> int list \<Rightarrow> int list" where
  "passed_on p xs = filter (\<lambda>next. next mod p \<noteq> 0) xs"

function filter_process :: "int list \<Rightarrow> int list" where
  "filter_process [] = []"
| "filter_process (p # xs) = p # filter_process (passed_on p xs) @ filter_process []"
  by pat_completeness auto
termination
  by (relation "measure length") (simp_all add: passed_on_def le_imp_less_Suc length_filter_le)

definition primes :: "int \<Rightarrow> int list" where
  "primes n = filter_process [2..n - 1]"

text \<open>\<open>main\<close>: the exit status and the output, given what \<open>atoi\<close> makes of each argument.\<close>

definition primes_main :: "('a \<Rightarrow> int) \<Rightarrow> 'a list \<Rightarrow> int \<times> int list" where
  "primes_main atoi args =
     (if length args \<noteq> 1 then (1, [])
      else let n = atoi (last args) in if n < 2 then (1, []) else (0, primes n))"

definition is_prime :: "int \<Rightarrow> bool" where
  "is_prime p \<longleftrightarrow> 1 < p \<and> (\<forall>d. 1 < d \<longrightarrow> d < p \<longrightarrow> \<not> d dvd p)"

lemma prime_divisor: "1 < (n :: int) \<Longrightarrow> \<exists>p. is_prime p \<and> p dvd n \<and> p \<le> n"
proof (induction "nat n" arbitrary: n rule: less_induct)
  case less
  show ?case
  proof (cases "is_prime n")
    case False
    then obtain d where d: "1 < d" "d < n" "d dvd n" using less.prems by (auto simp: is_prime_def)
    with less.hyps [of d] obtain p where "is_prime p" "p dvd d" "p \<le> d" by auto
    with d show ?thesis by (meson dvd_trans le_less_trans less_imp_le)
  qed auto
qed

text \<open>
  The state of the sieve after the numbers below \<open>k\<close>: the numbers in a range that no prime
  below \<open>k\<close> divides. Its head is a prime, and passing on the rest advances \<open>k\<close>.
\<close>

definition survivors :: "int \<Rightarrow> int \<Rightarrow> int list" where
  "survivors k n = filter (\<lambda>x. \<forall>d. is_prime d \<and> d < k \<longrightarrow> \<not> d dvd x) [k..n - 1]"

lemma survivors_skip: "\<not> is_prime k \<Longrightarrow> 2 \<le> k \<Longrightarrow> survivors k n = survivors (k + 1) n"
proof -
  assume k: "\<not> is_prime k" "2 \<le> k"
  obtain p where p: "is_prime p" "p dvd k" "p \<le> k" using prime_divisor [of k] k(2) by auto
  with k have "p < k" by (cases "p = k") auto
  moreover have "is_prime d \<and> d < k + 1 \<longleftrightarrow> is_prime d \<and> d < k" for d
    using k(1) by (cases "d = k") auto
  ultimately show ?thesis
    using p unfolding survivors_def by (cases "k \<le> n - 1") (auto simp: upto_rec1)
qed

lemma survivors_prime:
  assumes "is_prime k" "k < n"
  shows "\<exists>xs. survivors k n = k # xs \<and> passed_on k xs = survivors (k + 1) n"
proof -
  let ?P = "\<lambda>j x. \<forall>d. is_prime d \<and> d < j \<longrightarrow> \<not> d dvd x"
  have "filter (\<lambda>x. x mod k \<noteq> 0) (filter (?P k) xs) = filter (?P (k + 1)) xs" for xs
    using assms(1) unfolding filter_filter
    by (intro filter_cong refl) (metis dvd_eq_mod_eq_0 zless_add1_eq)
  then have "passed_on k (filter (?P k) [k + 1..n - 1]) = survivors (k + 1) n"
    by (simp only: passed_on_def survivors_def)
  moreover have "survivors k n = k # filter (?P k) [k + 1..n - 1]"
    using assms by (auto simp: survivors_def upto_rec1 is_prime_def)
  ultimately show ?thesis by blast
qed

lemma filter_process_survivors: "2 \<le> k \<Longrightarrow> filter_process (survivors k n) = filter is_prime [k..n - 1]"
proof (induction "nat (n - k)" arbitrary: k)
  case 0
  then show ?case by (simp add: survivors_def)
next
  case (Suc m)
  then have k: "k < n" and IH: "filter_process (survivors (k + 1) n) = filter is_prime [k + 1..n - 1]" by simp_all
  show ?case
  proof (cases "is_prime k")
    case True
    with survivors_prime [OF True k] IH k show ?thesis by (auto simp: upto_rec1)
  next
    case False
    with survivors_skip [OF False Suc.prems] IH k show ?thesis by (simp add: upto_rec1)
  qed
qed


section \<open>xargs\<close>

definition NARGS :: nat where "NARGS = 4"

text \<open>\<open>getline\<close>: the next line with its newline, if it has one, and the rest of the input.\<close>

definition getline :: "string \<Rightarrow> string \<times> string" where
  "getline inp = (let l = takeWhile (\<lambda>c. c \<noteq> CHR 0x0A) inp; r = dropWhile (\<lambda>c. c \<noteq> CHR 0x0A) inp
     in case r of [] \<Rightarrow> (l, []) | c # r' \<Rightarrow> (l @ [c], r'))"

lemma getline_shorter: "inp \<noteq> [] \<Longrightarrow> length (snd (getline inp)) < length inp"
proof -
  assume "inp \<noteq> []"
  moreover have "length (takeWhile (\<lambda>c. c \<noteq> CHR 0x0A) inp) + length (dropWhile (\<lambda>c. c \<noteq> CHR 0x0A) inp) = length inp"
    by (metis length_append takeWhile_dropWhile_id)
  ultimately show ?thesis by (auto simp: getline_def Let_def split: list.splits)
qed

text \<open>
  The loop of \<open>xargs\<close>: the commands run, each with the command's name and its arguments. The last
  character of a line is overwritten, whatever it is.
\<close>

function xargs_loop :: "string \<Rightarrow> string list \<Rightarrow> string \<Rightarrow> string list list" where
  "xargs_loop command args inp =
     (if inp = [] then [command # args]
      else let (line, rest) = getline inp; args = args @ [butlast line]
           in if length args = NARGS then (command # args) # xargs_loop command [] rest
              else xargs_loop command args rest)"
  by pat_completeness auto
termination
  using getline_shorter by (relation "measure (\<lambda>(c, a, i). length i)") (auto, (metis snd_conv)+)

declare xargs_loop.simps [simp del]

definition xargs :: "string \<Rightarrow> string \<Rightarrow> string list list" where
  "xargs command inp = xargs_loop command [] inp"

definition xargs_main :: "string list \<Rightarrow> string \<Rightarrow> int \<times> string list list" where
  "xargs_main args inp = (if length args \<noteq> 1 then (1, []) else (0, xargs (hd args) inp))"

text \<open>Input of whole lines.\<close>

definition input_of :: "string list \<Rightarrow> string" where
  "input_of ls = concat (map (\<lambda>l. l @ [CHR 0x0A]) ls)"

lemma input_of_simps [simp]: "input_of [] = []" "input_of (l # ls) = l @ CHR 0x0A # input_of ls"
  by (simp_all add: input_of_def)

lemma getline_line: "CHR 0x0A \<notin> set l \<Longrightarrow> getline (l @ CHR 0x0A # r) = (l @ [CHR 0x0A], r)"
proof -
  assume "CHR 0x0A \<notin> set l"
  then have "\<forall>c \<in> set l. c \<noteq> CHR 0x0A" by auto
  then show ?thesis by (simp add: getline_def takeWhile_append2 dropWhile_append2 Let_def)
qed

definition grouped :: "string \<Rightarrow> string list \<Rightarrow> string list list \<Rightarrow> bool" where
  "grouped command ls runs \<longleftrightarrow> concat (map tl runs) = ls \<and> (\<forall>r \<in> set runs. r \<noteq> [] \<and> hd r = command)
     \<and> (\<forall>r \<in> set (butlast runs). length r = NARGS + 1) \<and> runs \<noteq> [] \<and> length (last runs) \<le> NARGS"

lemma grouped_Cons: "length args = NARGS \<Longrightarrow> grouped command ls runs \<Longrightarrow>
    grouped command (args @ ls) ((command # args) # runs)"
  by (auto simp: grouped_def)

lemma xargs_loop_groups:
  "\<forall>l \<in> set ls. CHR 0x0A \<notin> set l \<Longrightarrow> length args < NARGS \<Longrightarrow>
     grouped command (args @ ls) (xargs_loop command args (input_of ls))"
proof (induction ls arbitrary: args)
  case Nil
  then show ?case by (simp add: xargs_loop.simps grouped_def)
next
  case (Cons l ls)
  then have l: "getline (input_of (l # ls)) = (l @ [CHR 0x0A], input_of ls)" by (simp add: getline_line)
  show ?case
  proof (cases "length (args @ [l]) = NARGS")
    case True
    have "grouped command ls (xargs_loop command [] (input_of ls))"
      using Cons.IH [of "[]"] Cons.prems by (simp add: NARGS_def)
    from grouped_Cons [OF True this] True l show ?thesis by (subst xargs_loop.simps) simp
  next
    case False
    then have "grouped command ((args @ [l]) @ ls) (xargs_loop command (args @ [l]) (input_of ls))"
      using Cons.prems by (intro Cons.IH) auto
    with False l show ?thesis by (subst xargs_loop.simps) simp
  qed
qed

text \<open>
  \<open>xargs\<close> passes every line of its input to the command exactly once and in order:
  \<open>NARGS\<close> of them in each run but the last, fewer in the last. The last run is made even when
  no line is left for it.
\<close>

theorem xargs_groups:
  assumes "\<forall>l \<in> set ls. CHR 0x0A \<notin> set l"
  shows "grouped command ls (xargs command (input_of ls))"
  using xargs_loop_groups [OF assms, of "[]" command] by (simp add: xargs_def NARGS_def)

theorem xargs_groups_witness:
  "concat (map tl (xargs ''echo'' (input_of [''a'', ''b'', ''c'', ''d'', ''e'']))) = [''a'', ''b'', ''c'', ''d'', ''e'']"
  using xargs_groups [of "[''a'', ''b'', ''c'', ''d'', ''e'']" "''echo''"] by (simp add: grouped_def)

text \<open>
  Two things the loop does at the end of its input: a last line without a newline loses its
  last character, and a number of lines that \<open>NARGS\<close> divides makes one more run without arguments.
\<close>

lemma xargs_unterminated_line: "xargs ''echo'' ''ab'' = [[''echo'', ''a'']]"
  by (simp add: xargs_def xargs_loop.simps getline_def NARGS_def)

lemma xargs_extra_run: "xargs ''echo'' (input_of [''a'', ''b'', ''c'', ''d'']) =
    [[''echo'', ''a'', ''b'', ''c'', ''d''], [''echo'']]"
  by (simp add: xargs_def xargs_loop.simps getline_def NARGS_def)

section \<open>find\<close>

text \<open>
  A directory is the list of its entries in the order \<open>readdir\<close> gives them, with \<open>.\<close> and \<open>..\<close>
  among them; \<open>Locked\<close> is a directory that cannot be opened.
\<close>

datatype entry = File string | Dir string "entry list" | Locked string

primrec d_name :: "entry \<Rightarrow> string" where
  "d_name (File n) = n"
| "d_name (Dir n es) = n"
| "d_name (Locked n) = n"

definition dots :: "string \<Rightarrow> bool" where
  "dots n \<longleftrightarrow> n = ''.'' \<or> n = ''..''"

text \<open>
  \<open>_find\<close>: the lines printed, and whether the directory was read to its end. The path holds the
  prefix that the source keeps in its buffer. A directory that cannot be opened ends the
  search of the directory it is in, but not of those above.
\<close>

fun find_dir :: "(string \<Rightarrow> bool) \<Rightarrow> string \<Rightarrow> entry list \<Rightarrow> string list" where
  "find_dir found path [] = []"
| "find_dir found path (e # es) =
     (if dots (d_name e) then find_dir found path es
      else
        (if found (d_name e) then [path @ d_name e] else []) @
        (case e of
           File n \<Rightarrow> find_dir found path es
         | Locked n \<Rightarrow> []
         | Dir n ds \<Rightarrow> find_dir found (path @ n @ ''/'') ds @ find_dir found path es))"

definition strstr :: "string \<Rightarrow> string \<Rightarrow> bool" where
  "strstr s pat \<longleftrightarrow> sublist pat s"

text \<open>\<open>find\<close> and its \<open>main\<close>; \<open>strcasestr\<close> compares after folding the case of both strings.\<close>

definition find :: "(char \<Rightarrow> char) \<Rightarrow> bool \<Rightarrow> string \<Rightarrow> entry list \<Rightarrow> string list" where
  "find fold_case case_s name cwd =
     find_dir (\<lambda>n. if case_s then strstr (map fold_case n) (map fold_case name) else strstr n name) '''' cwd"

definition find_main :: "(char \<Rightarrow> char) \<Rightarrow> string list \<Rightarrow> entry list \<Rightarrow> int \<times> string list" where
  "find_main fold_case args cwd =
     (case args of
        [name] \<Rightarrow> (0, find fold_case False name cwd)
      | [flag, name] \<Rightarrow> if flag = ''-i'' then (0, find fold_case True name cwd) else (1, [])
      | _ \<Rightarrow> (1, []))"

text \<open>The entries below a directory, by the names on the way to them.\<close>

inductive reaches :: "entry list \<Rightarrow> string list \<Rightarrow> bool" where
  here: "e \<in> set es \<Longrightarrow> \<not> dots (d_name e) \<Longrightarrow> reaches es [d_name e]"
| below: "Dir n ds \<in> set es \<Longrightarrow> \<not> dots n \<Longrightarrow> reaches ds ns \<Longrightarrow> reaches es (n # ns)"

inductive_cases reaches_NilE: "reaches [] ns"
inductive_simps reaches_simp: "reaches es ns"

fun openable :: "entry list \<Rightarrow> bool" where
  "openable [] = True"
| "openable (File n # es) = openable es"
| "openable (Locked n # es) = (dots n \<and> openable es)"
| "openable (Dir n ds # es) = ((dots n \<or> openable ds) \<and> openable es)"

definition joined :: "string \<Rightarrow> string list \<Rightarrow> string" where
  "joined path ns = path @ concat (map (\<lambda>n. n @ ''/'') (butlast ns)) @ last ns"

lemma reaches_nonempty: "reaches es ns \<Longrightarrow> ns \<noteq> []"
  by (induction rule: reaches.induct) auto

lemma joined_Cons: "ns \<noteq> [] \<Longrightarrow> joined path (n # ns) = joined (path @ n @ ''/'') ns"
  by (simp add: joined_def)

lemma reaches_mono: "reaches es ns \<Longrightarrow> set es \<subseteq> set es' \<Longrightarrow> reaches es' ns"
proof (induction rule: reaches.induct)
  case (here e es)
  then show ?case by (intro reaches.here) auto
next
  case (below n ds es ns)
  then show ?case by (intro reaches.below [of n ds]) auto
qed

lemma reaches_Cons:
  "reaches (e # es) ns \<longleftrightarrow> reaches es ns \<or> \<not> dots (d_name e) \<and>
     (ns = [d_name e] \<or> (\<exists>n ds ns'. e = Dir n ds \<and> ns = n # ns' \<and> reaches ds ns'))"
proof
  assume "reaches (e # es) ns"
  then show "reaches es ns \<or> \<not> dots (d_name e) \<and>
     (ns = [d_name e] \<or> (\<exists>n ds ns'. e = Dir n ds \<and> ns = n # ns' \<and> reaches ds ns'))"
  proof cases
    case (here e')
    then show ?thesis using reaches.here [of e' es] by auto
  next
    case (below n ds ns')
    then show ?thesis using reaches.below [of n ds es ns'] by auto
  qed
next
  assume "reaches es ns \<or> \<not> dots (d_name e) \<and>
     (ns = [d_name e] \<or> (\<exists>n ds ns'. e = Dir n ds \<and> ns = n # ns' \<and> reaches ds ns'))"
  then show "reaches (e # es) ns"
  proof (elim disjE conjE exE)
    assume "reaches es ns"
    then show ?thesis by (rule reaches_mono) auto
  next
    assume "\<not> dots (d_name e)" "ns = [d_name e]"
    then show ?thesis by (simp add: reaches.here)
  next
    fix n ds ns' assume "\<not> dots (d_name e)" "e = Dir n ds" "ns = n # ns'" "reaches ds ns'"
    then show ?thesis using reaches.below [of n ds "e # es" ns'] by simp
  qed
qed

lemma Ex_reaches_Dir:
  "\<not> dots n \<Longrightarrow> (\<exists>ns. reaches (Dir n ds # es) ns \<and> P ns) \<longleftrightarrow>
     (\<exists>ns. reaches es ns \<and> P ns) \<or> P [n] \<or> (\<exists>ns. reaches ds ns \<and> P (n # ns))"
  unfolding reaches_Cons by (simp only: d_name.simps entry.inject) blast

lemma find_dir_reaches:
  "openable es \<Longrightarrow> line \<in> set (find_dir found path es) \<longleftrightarrow>
     (\<exists>ns. reaches es ns \<and> found (last ns) \<and> line = joined path ns)"
proof (induction found path es rule: find_dir.induct)
  case (1 found path)
  then show ?case by (auto elim: reaches_NilE)
next
  case (2 found path e es)
  show ?case
  proof (cases "dots (d_name e)")
    case True
    with 2 have "line \<in> set (find_dir found path es) \<longleftrightarrow> (\<exists>ns. reaches es ns \<and> found (last ns) \<and> line = joined path ns)"
      by (cases e) auto
    with True show ?thesis by (simp add: reaches_Cons)
  next
    case False
    note nd = this
    have one: "joined path [d_name e] = path @ d_name e" by (simp add: joined_def)
    show ?thesis
    proof (cases e)
      case (File n)
      with 2(2,5) nd have "line \<in> set (find_dir found path es) \<longleftrightarrow> (\<exists>ns. reaches es ns \<and> found (last ns) \<and> line = joined path ns)"
        by simp
      with nd File one show ?thesis by (auto simp: reaches_Cons)
    next
      case (Dir n ds)
      with 2(3,4,5) nd have IH: "line \<in> set (find_dir found path es) \<longleftrightarrow> (\<exists>ns. reaches es ns \<and> found (last ns) \<and> line = joined path ns)"
        "line \<in> set (find_dir found (path @ n @ ''/'') ds) \<longleftrightarrow> (\<exists>ns. reaches ds ns \<and> found (last ns) \<and> line = joined (path @ n @ ''/'') ns)"
        by simp_all
      have "(\<exists>ns. reaches ds ns \<and> found (last ns) \<and> line = joined (path @ n @ ''/'') ns) \<longleftrightarrow>
          (\<exists>ns. reaches ds ns \<and> found (last (n # ns)) \<and> line = joined path (n # ns))"
        by (metis joined_Cons last_ConsR reaches_nonempty)
      moreover have "(\<exists>ns. reaches (e # es) ns \<and> found (last ns) \<and> line = joined path ns) \<longleftrightarrow>
          (\<exists>ns. reaches es ns \<and> found (last ns) \<and> line = joined path ns) \<or> found n \<and> line = path @ n
          \<or> (\<exists>ns. reaches ds ns \<and> found (last (n # ns)) \<and> line = joined path (n # ns))"
        using Ex_reaches_Dir [of n ds es] nd Dir one by simp
      ultimately show ?thesis using nd Dir IH
        by simp blast
    next
      case (Locked n)
      with 2(5) nd show ?thesis by simp
    qed
  qed
qed

text \<open>
  When every directory can be opened, \<open>find\<close> prints exactly the entries of the
  tree whose name contains the pattern, each by the path from the current directory, and
  looks into neither \<open>.\<close> nor \<open>..\<close>.
\<close>

theorem find_prints_matches:
  assumes "openable cwd"
  shows "line \<in> set (find fold_case False name cwd) \<longleftrightarrow>
    (\<exists>ns. reaches cwd ns \<and> sublist name (last ns) \<and> line = joined '''' ns)"
  using find_dir_reaches [OF assms] by (simp add: find_def strstr_def)

theorem find_prints_matches_witness:
  "''a/xb'' \<in> set (find id False ''x'' [Dir ''.'' [], Dir ''a'' [File ''xb'']])"
proof -
  have "reaches [Dir ''.'' [], Dir ''a'' [File ''xb'']] [''a'', ''xb'']"
    by (simp add: reaches_Cons dots_def)
  moreover have "sublist ''x'' ''xb''" by (simp add: sublist_Cons_right)
  ultimately show ?thesis
    using find_prints_matches [of "[Dir ''.'' [], Dir ''a'' [File ''xb'']]" "''a/xb''" id "''x''"]
    by (force simp: dots_def joined_def)
qed

end
