(* ===== verification/Spec2Isabelle.thy ===== *)
theory Spec2Isabelle
  imports Jos_Boot Jos_Mpconfig Jos_Ipc Jos_Fork Jos_Printf Jos_Pipe Jos_Spinlock Jos_Fd Jos_Kdebug Jos_Monitor Jos_Spawn Jos_Sh Jos_Format Jos_Serv Sh_Exec Fork_Exercises
begin

text \<open>
  This repository holds three programs, all written in C: the teaching kernel JOS with its file
  server and its user library (\<^verbatim>\<open>tps/\<close>), a Unix shell (\<^verbatim>\<open>shell/\<close>), and exercises on
  processes and pipes (\<^verbatim>\<open>fork/\<close>). The development models each of them in the order the code has
  its parts. A C function keeps its name; a type is a record with the source's fields or a datatype
  with its constructors; 32-bit quantities are words that wrap, and a pointer is the address it is
  or the index of the element it points to.

  \<^bold>\<open>The kernel.\<close> One state, \<open>kstate\<close> (\<open>Jos_Machine\<close>), has the kernel's globals: the physical memory
  byte by byte, the page descriptors, the environments, the CPUs, the console, \<open>cr3\<close>. A kernel function
  is a state transformer \<open>'a kM\<close> that returns, leaves the kernel without returning (into an
  environment, a halt or the monitor), panics, or does not end.

    \<^item> \<open>Jos_Prelude\<close>, \<open>Jos_Mmu\<close>, \<open>Jos_Bytes\<close>: words, \<^verbatim>\<open>inc/mmu.h\<close> and \<^verbatim>\<open>inc/memlayout.h\<close>,
      little-endian words in memory.
    \<^item> \<open>Jos_Freelist\<close>, \<open>Jos_Queue\<close>: the interfaces (locales) of a linked free list and of a circular
      buffer. The page allocator, the environment slots, the console input and the pipe buffer
      interpret them.
    \<^item> \<open>Jos_Pmap\<close>, \<open>Jos_Paging\<close>: \<^verbatim>\<open>kern/pmap.c\<close>. The page tables are words of the memory; the invariants
      \<open>pages_inv\<close> (the free list holds unreferenced pages, each once) and \<open>pgdir_ok\<close> (the tables of a
      directory are allocated and distinct) carry the specifications of every operation.
    \<^item> \<open>Jos_Meminit\<close>, \<open>Jos_Selftest\<close>, \<open>Jos_Pagetest\<close>, \<open>Jos_Boot\<close>: the parts of \<open>mem_init\<close> and the address
      space they build; the self-tests of \<^verbatim>\<open>kern/pmap.c\<close>, with rules for running them on the few pages
      they use; the whole of \<open>mem_init\<close>, which passes its tests.
    \<^item> \<open>Jos_Mpconfig\<close>: \<^verbatim>\<open>kern/mpconfig.c\<close>, the search for the BIOS's table of processors.
    \<^item> \<open>Jos_Env\<close>, \<open>Jos_Sched\<close>, \<open>Jos_Syscall\<close>, \<open>Jos_Trap\<close>: \<^verbatim>\<open>kern/env.c\<close>, \<^verbatim>\<open>sched.c\<close>, \<^verbatim>\<open>syscall.c\<close>,
      \<^verbatim>\<open>trap.c\<close>. A trap saves the registers of the environment, dispatches to a system call, to the page
      fault handler or to the scheduler, which runs another environment.
    \<^item> \<open>Jos_Kdebug\<close>, \<open>Jos_Monitor\<close>: the symbol search of \<^verbatim>\<open>kern/kdebug.c\<close>; the line editor of
      \<^verbatim>\<open>lib/readline.c\<close> and the command interpreter of \<^verbatim>\<open>kern/monitor.c\<close>.
    \<^item> \<open>Jos_Console\<close>, \<open>Jos_Spinlock\<close>: the console devices and buffer; the big kernel lock as a step
      relation of several CPUs.

  \<^bold>\<open>The user library.\<close>

    \<^item> \<open>Jos_String\<close>, \<open>Jos_Printf\<close>: \<^verbatim>\<open>lib/string.c\<close> on the byte store, with its assembly loops;
      \<^verbatim>\<open>lib/printfmt.c\<close> and the three printers built on it.
    \<^item> \<open>Jos_Ipc\<close>: the stubs of \<^verbatim>\<open>lib/syscall.c\<close> and \<^verbatim>\<open>lib/ipc.c\<close>; environments that send and receive as
      a step relation whose steps are passages through the kernel's \<open>trap\<close>, on several CPUs.
    \<^item> \<open>Jos_Pipe\<close>: \<^verbatim>\<open>lib/pipe.c\<close>, reader and writer as a step relation over the shared page.
    \<^item> \<open>Jos_Fork\<close>: \<^verbatim>\<open>lib/fork.c\<close> and \<^verbatim>\<open>lib/pgfault.c\<close> over what the system calls show user code; the
      copy-on-write fork refines one that copies.
    \<^item> \<open>Jos_Spawn\<close>: \<^verbatim>\<open>lib/spawn.c\<close> over the same view: the stack with the arguments, the segments.
    \<^item> \<open>Jos_Args\<close>, \<open>Jos_Sh\<close>: the options of \<^verbatim>\<open>lib/args.c\<close>; the shell \<^verbatim>\<open>user/sh.c\<close>, its scanner and the
      processes it makes of a line, over what the library calls answer.
    \<^item> \<open>Jos_Fd\<close>: \<^verbatim>\<open>lib/fd.c\<close>, with \<open>open\<close>, \<open>pipe\<close> and \<open>opencons\<close>; descriptors as shared pages, devices
      as arguments.

  \<^bold>\<open>The file server\<close> (\<^verbatim>\<open>fs/\<close>). Its operations are \<open>'a fsm\<close> over \<open>fs_state\<close>: the disk, the window of
  memory that caches it, which blocks are cached and dirty. Every access to the window may fault, and
  the fault handler reads the block and looks at the bitmap, which may fault again.

    \<^item> \<open>Jos_Bc\<close>, \<open>Jos_Fs\<close>, \<open>Jos_File\<close>: \<^verbatim>\<open>bc.c\<close> and \<^verbatim>\<open>fs.c\<close>; the invariant \<open>mounted\<close>, and the contents of
      files as sequences of bytes.
    \<^item> \<open>Jos_Mount\<close>: the self-test of the cache and \<open>fs_init\<close>, which establishes \<open>mounted\<close>.
    \<^item> \<open>Jos_Dir\<close>: what looking a name up finds, in terms of the entries of a directory.
    \<^item> \<open>Jos_Format\<close>: the host tool \<^verbatim>\<open>fsformat.c\<close>; the server mounts and reads the images it makes.
    \<^item> \<open>Jos_Serv\<close>: \<^verbatim>\<open>serv.c\<close>, the table of open files and the requests.

  \<^bold>\<open>The shell\<close>: \<open>Sh_Parse\<close> (\<^verbatim>\<open>parsing.c\<close>, \<^verbatim>\<open>utils.c\<close>, \<^verbatim>\<open>createcmd.c\<close>) reads a line into a command, and
  \<open>Sh_Exec\<close> (\<^verbatim>\<open>exec.c\<close>, \<^verbatim>\<open>runcmd.c\<close>, \<^verbatim>\<open>builtin.c\<close>, \<^verbatim>\<open>printstatus.c\<close>, \<^verbatim>\<open>readline.c\<close>, \<^verbatim>\<open>sh.c\<close>) runs it;
  the environment, the file system and \<open>waitpid\<close> are arguments. \<^bold>\<open>The exercises\<close>: \<open>Fork_Exercises\<close>.

  \<^bold>\<open>What is shown.\<close> For the kernel: functional specifications with frame conditions for pages, tables
  and environments, reference counts, agreement with the hardware's walk, the round-robin order,
  isolation of environments by the system calls, messages delivered once and in order, faults passed to user code, preemption. For
  the library: round trips and bounds of printing, copying of overlapping ranges, pipes that lose
  nothing, a fork that copies. For the server: reads after writes, the first free block, the disk after
  a sync, mounting, identifiers. For the shell and the exercises: the parser reads back what is
  printed, redirections, pipelines, statuses, primes, groups of arguments, paths. Each property of a
  restricted form has a witness, an instance in which its hypotheses hold. Lemmas beside the
  properties record where the code does not do what it means to.

  \<^bold>\<open>Bounds and fuel.\<close> \<open>boot_map_loop\<close> has fuel for \<open>2 ^ 20 + 1\<close> rounds, more than there are pages.
  \<open>put_string\<close> has a round for each address and one more. \<open>access_n\<close> nests four faults; a theorem of
  \<open>Jos_Mount\<close> shows that a larger bound changes nothing. \<open>cons_intr\<close> runs once for each
  pending character. \<open>check_bitmap\<close> looks at 25 blocks, all the bitmap blocks of the largest
  disk. \<open>rd_name\<close> reads at most the 128 characters of a name. The loops of the self-tests over the
  free list have a round for each page and one more. All other loops are recursions with a
  termination proof.

  \<^bold>\<open>Not modelled.\<close> The boot loader, the assembly entry code and context switch, and the programming of
  the devices (\<^verbatim>\<open>lapic.c\<close>, \<^verbatim>\<open>picirq.c\<close>, \<^verbatim>\<open>kclock.c\<close>, \<^verbatim>\<open>fs/ide.c\<close>), which is input and output;
  the three commands of the monitor, which print, and how the
  tables of a user program's symbols are fetched; the other user programs, most of which print. The contents of \<open>pages\<close> and \<open>envs\<close> are fields of
  the state and not bytes of the memory.
\<close>

end
